(* ===== verification/Cynos_Prelude.thy ===== *)
theory Cynos_Prelude
  imports
    Complex_Main
    "HOL-Library.Word"
    "HOL-Library.Multiset"
    "HOL-Library.AList"
    "HOL-Library.Char_ord"
    "HOL-Library.List_Lexorder"
begin

text \<open>
  Shared vocabulary of the development: the names of Rust's machine types, the three-way
  comparison result \<open>core::cmp::Ordering\<close>, the interface a comparison function has to
  satisfy, binary search over slices, and the two map types of the code. A \<open>HashMap\<close> is an
  association list whose order stands for the unspecified iteration order; a \<open>BTreeMap\<close> is an
  association list kept strictly sorted by key. Results are sums: \<open>Inl\<close> is \<open>Err\<close>, \<open>Inr\<close> is
  \<open>Ok\<close>. Machine arithmetic is that of release builds: it wraps.
\<close>

named_theorems cmp_simps \<open>evaluation of three-way comparisons\<close>
named_theorems map_simps \<open>lookups in updated association-list maps\<close>
named_theorems map_intros \<open>well-formedness of association-list maps\<close>

section \<open>Machine types\<close>

type_synonym u8 = "8 word"
type_synonym u32 = "32 word"
type_synonym u64 = "64 word"
type_synonym i32 = "32 word"
type_synonym i64 = "64 word"
type_synonym bytes = "u8 list"

text \<open>A Rust \<open>String\<close> is the list of the bytes of its UTF-8 encoding, written as characters.\<close>

definition as_bytes :: "string \<Rightarrow> bytes" where
  "as_bytes s = map of_char s"

definition byte_char :: "u8 \<Rightarrow> char" where
  "byte_char b = char_of (unat b)"

lemma unat_of_char [simp]: "unat (of_char c :: u8) = of_char c"
proof -
  have eq: "(of_char c :: u8) = of_nat (of_char c)" by (rule of_nat_of_char [symmetric])
  show ?thesis by (simp only: eq unat_of_nat) simp
qed

lemma byte_char_of_char [simp]: "byte_char (of_char c) = c"
  by (simp add: byte_char_def)

section \<open>Three-way comparison\<close>

datatype ordering = Less | Equal | Greater

fun ordering_reverse :: "ordering \<Rightarrow> ordering" where
  "ordering_reverse Less = Greater"
| "ordering_reverse Equal = Equal"
| "ordering_reverse Greater = Less"

definition ord_cmp :: "'a::linorder \<Rightarrow> 'a \<Rightarrow> ordering" where
  "ord_cmp a b = (if a < b then Less else if a = b then Equal else Greater)"

lemma ord_cmp_simps [simp, cmp_simps]:
  "ord_cmp a b = Less \<longleftrightarrow> a < b"
  "ord_cmp a b = Equal \<longleftrightarrow> a = b"
  "ord_cmp a b = Greater \<longleftrightarrow> b < a"
  by (auto simp: ord_cmp_def)

lemma ord_cmp_refl [simp]: "ord_cmp a a = Equal"
  by simp

lemma ordering_reverse_simps [simp, cmp_simps]:
  "ordering_reverse (ordering_reverse r) = r"
  "ordering_reverse r = Less \<longleftrightarrow> r = Greater"
  "ordering_reverse r = Equal \<longleftrightarrow> r = Equal"
  "ordering_reverse r = Greater \<longleftrightarrow> r = Less"
  by (cases r; simp)+

lemma ord_cmp_swap: "ord_cmp b a = ordering_reverse (ord_cmp a b)"
  by (auto simp: ord_cmp_def)

text \<open>
  The contract of Rust's \<open>Ord\<close>, on the values \<open>ok\<close> for which it is claimed: reflexive,
  antisymmetric under swapping, and transitive.
\<close>

locale cmp_order =
  fixes cmp :: "'a \<Rightarrow> 'a \<Rightarrow> ordering"
    and ok :: "'a \<Rightarrow> bool"
  assumes cmp_refl: "ok a \<Longrightarrow> cmp a a = Equal"
    and cmp_swap: "ok a \<Longrightarrow> ok b \<Longrightarrow> cmp b a = ordering_reverse (cmp a b)"
    and cmp_trans: "ok a \<Longrightarrow> ok b \<Longrightarrow> ok c \<Longrightarrow> cmp a b \<noteq> Greater \<Longrightarrow> cmp b c \<noteq> Greater
      \<Longrightarrow> cmp a c \<noteq> Greater"
begin

lemma cmp_total: "ok a \<Longrightarrow> ok b \<Longrightarrow> cmp a b \<noteq> Greater \<or> cmp b a \<noteq> Greater"
  using cmp_swap [of a b] by (cases "cmp a b") auto

lemma cmp_equal_sym: "ok a \<Longrightarrow> ok b \<Longrightarrow> cmp a b = Equal \<longleftrightarrow> cmp b a = Equal"
  using cmp_swap [of a b] by simp

lemma cmp_less_trans:
  assumes "ok a" "ok b" "ok c" and ab: "cmp a b = Less" and bc: "cmp b c \<noteq> Greater"
  shows "cmp a c = Less"
proof -
  have ac: "cmp a c \<noteq> Greater"
    using assms cmp_trans by (metis ordering.distinct(3))
  moreover have "cmp a c \<noteq> Equal"
  proof
    assume "cmp a c = Equal"
    then have "cmp c a \<noteq> Greater" using assms cmp_swap [of a c] by simp
    then have "cmp b a \<noteq> Greater" using assms cmp_trans [of b c a] by blast
    then show False using ab assms cmp_swap [of a b] by simp
  qed
  ultimately show ?thesis by (cases "cmp a c") auto
qed

lemma cmp_trans_less:
  assumes "ok a" "ok b" "ok c" and ab: "cmp a b \<noteq> Greater" and bc: "cmp b c = Less"
  shows "cmp a c = Less"
proof -
  have "cmp c b = Greater" using assms cmp_swap [of b c] by simp
  moreover have "cmp a c \<noteq> Greater" using assms cmp_trans [of a b c] by simp
  moreover have "cmp a c \<noteq> Equal"
  proof
    assume "cmp a c = Equal"
    then have "cmp c a \<noteq> Greater" using assms cmp_swap [of a c] by simp
    then have "cmp c b \<noteq> Greater" using assms cmp_trans [of c a b] by blast
    then show False using \<open>cmp c b = Greater\<close> by simp
  qed
  ultimately show ?thesis by (cases "cmp a c") auto
qed

end

text \<open>The order of a type that is a linear order in HOL (integers, strings, byte vectors).\<close>

interpretation linorder_cmp: cmp_order "ord_cmp :: 'a::linorder \<Rightarrow> 'a \<Rightarrow> ordering" "\<lambda>_. True"
proof unfold_locales
  show "ord_cmp b a = ordering_reverse (ord_cmp a b)" for a b :: 'a
    by (rule ord_cmp_swap)
qed auto

section \<open>Binary search over a slice\<close>

text \<open>
  \<open>slice::binary_search_by\<close>: halve the window until one element is left, then compare it.
  \<open>Inr i\<close> is \<open>Ok(i)\<close>, a position that compares equal; \<open>Inl i\<close> is \<open>Err(i)\<close>, the insertion point.
\<close>

function bs_window :: "('a \<Rightarrow> ordering) \<Rightarrow> 'a list \<Rightarrow> nat \<Rightarrow> nat \<Rightarrow> nat" where
  "bs_window f xs base sz =
     (if 1 < sz
      then let half = sz div 2; mid = base + half
           in bs_window f xs (if f (xs ! mid) = Greater then base else mid) (sz - half)
      else base)"
  by pat_completeness auto
termination
  by (relation "measure (\<lambda>(f, xs, base, sz). sz)") auto

declare bs_window.simps [simp del]

definition binary_search_by :: "('a \<Rightarrow> ordering) \<Rightarrow> 'a list \<Rightarrow> nat + nat" where
  "binary_search_by f xs =
     (if xs = [] then Inl 0
      else let base = bs_window f xs 0 (length xs)
           in case f (xs ! base) of
                Equal \<Rightarrow> Inr base
              | Less \<Rightarrow> Inl (Suc base)
              | Greater \<Rightarrow> Inl base)"

abbreviation binary_search :: "'a::linorder list \<Rightarrow> 'a \<Rightarrow> nat + nat" where
  "binary_search xs x \<equiv> binary_search_by (\<lambda>y. ord_cmp y x) xs"


text \<open>
  What the search may rely on: along the slice the comparison never goes back from
  \<open>Greater\<close> to something else, nor from \<open>Equal\<close> to \<open>Less\<close>.
\<close>

definition bs_sorted :: "('a \<Rightarrow> ordering) \<Rightarrow> 'a list \<Rightarrow> bool" where
  "bs_sorted f xs \<longleftrightarrow>
     sorted_wrt (\<lambda>a b. (f a = Greater \<longrightarrow> f b = Greater) \<and> (f b = Less \<longrightarrow> f a = Less)) xs"

lemma bs_sortedD:
  assumes "bs_sorted f xs" "i < j" "j < length xs"
  shows "f (xs ! i) = Greater \<Longrightarrow> f (xs ! j) = Greater"
    and "f (xs ! j) = Less \<Longrightarrow> f (xs ! i) = Less"
  using assms sorted_wrt_nth_less unfolding bs_sorted_def by fastforce+

lemma bs_window_spec:
  assumes "bs_sorted f xs" "0 < sz" "base + sz \<le> length xs"
    and "base = 0 \<or> f (xs ! base) \<noteq> Greater"
    and "\<forall>j. base + sz \<le> j \<longrightarrow> j < length xs \<longrightarrow> f (xs ! j) = Greater"
  shows "let b = bs_window f xs base sz in
    b < length xs \<and> (b = 0 \<or> f (xs ! b) \<noteq> Greater)
    \<and> (\<forall>j. b < j \<longrightarrow> j < length xs \<longrightarrow> f (xs ! j) = Greater)"
  using assms
proof (induction f xs base sz rule: bs_window.induct)
  case (1 f xs base sz)
  show ?case
  proof (cases "1 < sz")
    case False
    with "1.prems" have "sz = 1" by simp
    moreover have "bs_window f xs base sz = base"
      using False by (simp add: bs_window.simps [of f xs base sz])
    ultimately show ?thesis using "1.prems" by (auto simp: Let_def)
  next
    case True
    define mid where "mid = base + sz div 2"
    define b' where "b' = (if f (xs ! mid) = Greater then base else mid)"
    have mid: "base < mid" "mid < base + sz" "mid < length xs"
      using True "1.prems"(3) by (auto simp: mid_def)
    have high: "f (xs ! j) = Greater" if "b' + (sz - sz div 2) \<le> j" "j < length xs" for j
    proof (cases "f (xs ! mid) = Greater")
      case gr: True
      then have "mid \<le> j" using that True unfolding b'_def mid_def by simp
      then show ?thesis
        using gr that bs_sortedD(1) [OF "1.prems"(1), of mid j] by (cases "mid = j") auto
    next
      case False
      then have "base + sz \<le> j" using that unfolding b'_def mid_def by simp
      then show ?thesis using that "1.prems"(5) by simp
    qed
    have "let b = bs_window f xs b' (sz - sz div 2) in
      b < length xs \<and> (b = 0 \<or> f (xs ! b) \<noteq> Greater)
      \<and> (\<forall>j. b < j \<longrightarrow> j < length xs \<longrightarrow> f (xs ! j) = Greater)"
    proof (rule "1.IH" [OF True refl, of mid, folded b'_def])
      show "mid = base + sz div 2" by (rule mid_def)
      show "b' + (sz - sz div 2) \<le> length xs"
        using "1.prems"(3) True unfolding b'_def mid_def by auto
      show "b' = 0 \<or> f (xs ! b') \<noteq> Greater"
        using "1.prems"(4) unfolding b'_def by auto
      show "\<forall>j. b' + (sz - sz div 2) \<le> j \<longrightarrow> j < length xs \<longrightarrow> f (xs ! j) = Greater"
        using high by blast
    qed (use "1.prems" True in auto)
    moreover have "bs_window f xs base sz = bs_window f xs b' (sz - sz div 2)"
      using True by (simp add: bs_window.simps [of f xs base sz] b'_def mid_def Let_def)
    ultimately show ?thesis by simp
  qed
qed

lemma binary_search_by_Inr:
  assumes "bs_sorted f xs" "binary_search_by f xs = Inr i"
  shows "i < length xs \<and> f (xs ! i) = Equal"
  using assms bs_window_spec [OF assms(1), of "length xs" 0]
  by (auto simp: binary_search_by_def Let_def split: if_splits ordering.splits)

lemma binary_search_by_Inl:
  assumes sorted: "bs_sorted f xs" and inl: "binary_search_by f xs = Inl i"
  shows "i \<le> length xs \<and> (\<forall>x \<in> set (take i xs). f x = Less) \<and> (\<forall>x \<in> set (drop i xs). f x = Greater)"
proof (cases "xs = []")
  case True
  with inl show ?thesis by (simp add: binary_search_by_def)
next
  case False
  define b where "b = bs_window f xs 0 (length xs)"
  have b: "b < length xs" "b = 0 \<or> f (xs ! b) \<noteq> Greater"
    "\<And>j. b < j \<Longrightarrow> j < length xs \<Longrightarrow> f (xs ! j) = Greater"
    using bs_window_spec [OF sorted, of "length xs" 0] False by (auto simp: b_def Let_def)
  have cases: "(f (xs ! b) = Less \<and> i = Suc b) \<or> (f (xs ! b) = Greater \<and> i = b \<and> b = 0)"
    using inl b(2) False unfolding binary_search_by_def b_def [symmetric] Let_def
    by (auto split: ordering.splits)
  have low: "f (xs ! j) = Less" if "j < i" for j
    using cases that b(1) bs_sortedD(2) [OF sorted, of j b] by (cases "j = b") auto
  have high: "f (xs ! j) = Greater" if "i \<le> j" "j < length xs" for j
    using cases that b(3) by (cases "j = b") auto
  have "i \<le> length xs" using cases b(1) by auto
  then show ?thesis using low high
    by (auto simp: in_set_conv_nth)
qed

lemma strict_sorted_bs_sorted:
  "sorted_wrt (<) (map g xs) \<Longrightarrow> bs_sorted (\<lambda>y. ord_cmp (g y) x) xs"
  unfolding bs_sorted_def sorted_wrt_map
  by (erule sorted_wrt_mono_rel [rotated]) auto

text \<open>The search on a strictly ascending slice, as the code uses it everywhere.\<close>

lemma binary_search_strict:
  assumes "sorted_wrt (<) (xs :: 'a::linorder list)"
  shows "binary_search xs x = Inr i \<Longrightarrow> i < length xs \<and> xs ! i = x"
    and "binary_search xs x = Inl i \<Longrightarrow> i \<le> length xs \<and> (\<forall>y \<in> set (take i xs). y < x)
      \<and> (\<forall>y \<in> set (drop i xs). x < y)"
proof -
  have bs: "bs_sorted (\<lambda>y. ord_cmp y x) xs"
    using strict_sorted_bs_sorted [of "\<lambda>y. y" xs x] assms by simp
  show "binary_search xs x = Inr i \<Longrightarrow> i < length xs \<and> xs ! i = x"
    using binary_search_by_Inr [OF bs, of i] unfolding ord_cmp_simps by blast
  show "binary_search xs x = Inl i \<Longrightarrow> i \<le> length xs \<and> (\<forall>y \<in> set (take i xs). y < x)
      \<and> (\<forall>y \<in> set (drop i xs). x < y)"
    using binary_search_by_Inl [OF bs, of i] unfolding ord_cmp_simps by blast
qed

lemma binary_search_mem:
  assumes "sorted_wrt (<) (xs :: 'a::linorder list)"
  shows "(\<exists>i. binary_search xs x = Inr i) \<longleftrightarrow> x \<in> set xs"
proof (cases "binary_search xs x")
  case (Inl i)
  have "x \<notin> set (take i xs) \<union> set (drop i xs)"
    using binary_search_strict(2) [OF assms Inl] by blast
  with Inl show ?thesis by (simp add: set_append [symmetric] del: set_append)
next
  case (Inr i)
  then show ?thesis using binary_search_strict(1) [OF assms Inr] by auto
qed

section \<open>Vectors\<close>

definition vec_insert :: "nat \<Rightarrow> 'a \<Rightarrow> 'a list \<Rightarrow> 'a list" where
  "vec_insert i x xs = take i xs @ x # drop i xs"

definition vec_remove :: "nat \<Rightarrow> 'a list \<Rightarrow> 'a list" where
  "vec_remove i xs = take i xs @ drop (Suc i) xs"

text \<open>\<open>swap_remove(i)\<close>, for \<open>i\<close> in range: the last element takes the removed one's place.\<close>

definition vec_swap_remove :: "nat \<Rightarrow> 'a list \<Rightarrow> 'a list" where
  "vec_swap_remove i xs =
     (if Suc i = length xs then butlast xs else (butlast xs)[i := last xs])"

lemma length_vec_insert [simp]: "length (vec_insert i x xs) = Suc (length xs)"
  by (simp add: vec_insert_def)

lemma length_vec_remove [simp]: "i < length xs \<Longrightarrow> length (vec_remove i xs) = length xs - 1"
  by (simp add: vec_remove_def)

lemma length_vec_swap_remove [simp]: "length (vec_swap_remove i xs) = length xs - 1"
  by (simp add: vec_swap_remove_def)

lemma set_vec_insert [simp]: "set (vec_insert i x xs) = insert x (set xs)"
  by (metis append_take_drop_id vec_insert_def Un_insert_right list.simps(15) set_append)

lemma mset_vec_insert [simp]: "mset (vec_insert i x xs) = add_mset x (mset xs)"
  by (metis append_take_drop_id mset.simps(2) mset_append union_mset_add_mset_right vec_insert_def)

lemma mset_vec_remove: "i < length xs \<Longrightarrow> mset (vec_remove i xs) = mset xs - {#xs ! i#}"
proof -
  assume i: "i < length xs"
  have "mset xs = mset (take i xs @ xs ! i # drop (Suc i) xs)"
    by (simp add: id_take_nth_drop [OF i, symmetric])
  then show ?thesis by (simp add: vec_remove_def)
qed

lemma sorted_wrt_vec_insert:
  assumes "sorted_wrt (<) (xs :: 'a::linorder list)"
    and "\<forall>y \<in> set (take i xs). y < x" "\<forall>y \<in> set (drop i xs). x < y"
  shows "sorted_wrt (<) (vec_insert i x xs)"
proof -
  have "sorted_wrt (<) (take i xs)" "sorted_wrt (<) (drop i xs)"
    using assms(1) by simp_all
  moreover have "a < b" if "a \<in> set (take i xs)" "b \<in> set (drop i xs)" for a b
    using assms(2,3) that less_trans [of a x b] by blast
  ultimately show ?thesis using assms(2,3) unfolding sorted_wrt_append vec_insert_def by auto
qed

lemma sorted_wrt_vec_remove: "sorted_wrt P xs \<Longrightarrow> sorted_wrt P (vec_remove i xs)"
proof -
  assume "sorted_wrt P xs"
  then have "\<forall>x \<in> set (take i xs). \<forall>y \<in> set (drop i xs). P x y" "sorted_wrt P (take i xs)"
    using sorted_wrt_append [of P "take i xs" "drop i xs"] by simp_all
  moreover have "set (drop (Suc i) xs) \<subseteq> set (drop i xs)"
    by (rule set_drop_subset_set_drop) simp
  moreover have "sorted_wrt P (drop (Suc i) xs)"
    using \<open>sorted_wrt P xs\<close> by simp
  ultimately show ?thesis unfolding vec_remove_def sorted_wrt_append by blast
qed

lemma set_vec_remove_distinct:
  assumes "distinct xs" "i < length xs"
  shows "set (vec_remove i xs) = set xs - {xs ! i}"
proof -
  have "distinct (take i xs @ xs ! i # drop (Suc i) xs)"
    using assms by (simp add: id_take_nth_drop [symmetric])
  moreover have "set xs = set (take i xs @ xs ! i # drop (Suc i) xs)"
    using assms by (simp add: id_take_nth_drop [symmetric])
  ultimately show ?thesis unfolding vec_remove_def by auto
qed


section \<open>Hash maps\<close>

text \<open>
  A \<open>hashbrown::HashMap\<close>: an association list with distinct keys. The position of an entry is
  not observable except through iteration, whose order the library leaves open.
\<close>

type_synonym ('k, 'v) hash_map = "('k \<times> 'v) list"

definition hm_ok :: "('k, 'v) hash_map \<Rightarrow> bool" where
  "hm_ok m \<longleftrightarrow> distinct (map fst m)"

abbreviation hm_get :: "('k, 'v) hash_map \<Rightarrow> 'k \<Rightarrow> 'v option" where
  "hm_get m k \<equiv> map_of m k"

abbreviation hm_insert :: "'k \<Rightarrow> 'v \<Rightarrow> ('k, 'v) hash_map \<Rightarrow> ('k, 'v) hash_map" where
  "hm_insert k v m \<equiv> AList.update k v m"

abbreviation hm_remove :: "'k \<Rightarrow> ('k, 'v) hash_map \<Rightarrow> ('k, 'v) hash_map" where
  "hm_remove k m \<equiv> AList.delete k m"

definition hm_contains :: "('k, 'v) hash_map \<Rightarrow> 'k \<Rightarrow> bool" where
  "hm_contains m k \<longleftrightarrow> map_of m k \<noteq> None"

lemma hm_contains_simps [simp]:
  "\<not> hm_contains [] k"
  "hm_contains (p # m) k \<longleftrightarrow> fst p = k \<or> hm_contains m k"
  by (auto simp: hm_contains_def)

lemma map_of_hm_insert [simp, map_simps]: "map_of (hm_insert k v m) = (map_of m)(k \<mapsto> v)"
  by (rule update_conv')

lemma map_of_hm_remove [simp, map_simps]: "map_of (hm_remove k m) = (map_of m)(k := None)"
  by (rule delete_conv')

lemma hm_ok_Nil [simp, map_intros]: "hm_ok []"
  by (simp add: hm_ok_def)

lemma hm_ok_insert [simp, map_intros]: "hm_ok m \<Longrightarrow> hm_ok (hm_insert k v m)"
  by (simp add: hm_ok_def distinct_update)

lemma hm_ok_remove [simp, map_intros]: "hm_ok m \<Longrightarrow> hm_ok (hm_remove k m)"
  by (simp add: hm_ok_def distinct_delete)

lemma hm_ok_Cons: "hm_ok ((k, v) # m) \<longleftrightarrow> map_of m k = None \<and> hm_ok m"
  by (auto simp: hm_ok_def map_of_eq_None_iff)

lemma hm_ok_mem: "hm_ok m \<Longrightarrow> (k, v) \<in> set m \<longleftrightarrow> map_of m k = Some v"
  by (simp add: hm_ok_def)

text \<open>Sums over the entries of a map (sizes of postings, row counts) under insert and remove.\<close>

lemma hm_remove_absent: "map_of m k = None \<Longrightarrow> hm_remove k m = m"
  by (simp add: map_of_eq_None_iff delete_idem)

lemma sum_hm_remove:
  fixes g :: "'k \<times> 'v \<Rightarrow> 'c::comm_monoid_add"
  assumes "hm_ok m" "map_of m k = Some v"
  shows "(\<Sum>p\<leftarrow>m. g p) = g (k, v) + (\<Sum>p\<leftarrow>hm_remove k m. g p)"
  using assms
proof (induction m)
  case (Cons p m)
  show ?case
  proof (cases "fst p = k")
    case True
    with Cons.prems have "p = (k, v)" "map_of m k = None"
      by (cases p; auto simp: hm_ok_Cons)+
    then show ?thesis by (simp add: hm_remove_absent)
  next
    case False
    with Cons have "(\<Sum>p\<leftarrow>m. g p) = g (k, v) + (\<Sum>p\<leftarrow>hm_remove k m. g p)"
      by (cases p) (auto simp: hm_ok_Cons)
    with False show ?thesis by (cases p) (simp add: add.left_commute)
  qed
qed simp

lemma sum_hm_insert:
  fixes g :: "'k \<times> 'v \<Rightarrow> 'c::comm_monoid_add"
  assumes "hm_ok m"
  shows "(\<Sum>p\<leftarrow>hm_insert k v m. g p) = g (k, v) + (\<Sum>p\<leftarrow>hm_remove k m. g p)"
  using assms
proof (induction m)
  case (Cons p m)
  then show ?case
  proof (cases "fst p = k")
    case True
    with Cons.prems have "map_of m k = None" by (cases p) (auto simp: hm_ok_Cons)
    with True show ?thesis by (cases p) (simp add: hm_remove_absent)
  next
    case False
    with Cons show ?thesis by (cases p) (auto simp: hm_ok_Cons add.left_commute)
  qed
qed simp

section \<open>Ordered maps\<close>

text \<open>A \<open>BTreeMap\<close>: an association list strictly sorted by key, which is its iteration order.\<close>

type_synonym ('k, 'v) btree_map = "('k \<times> 'v) list"

definition bm_ok :: "('k::linorder, 'v) btree_map \<Rightarrow> bool" where
  "bm_ok m \<longleftrightarrow> sorted_wrt (<) (map fst m)"

fun bm_insert :: "'k::linorder \<Rightarrow> 'v \<Rightarrow> ('k, 'v) btree_map \<Rightarrow> ('k, 'v) btree_map" where
  "bm_insert k v [] = [(k, v)]"
| "bm_insert k v (p # m) =
     (if k < fst p then (k, v) # p # m
      else if k = fst p then (k, v) # m
      else p # bm_insert k v m)"

definition bm_remove :: "'k \<Rightarrow> ('k, 'v) btree_map \<Rightarrow> ('k, 'v) btree_map" where
  "bm_remove k m = filter (\<lambda>p. fst p \<noteq> k) m"

lemma map_of_bm_insert [simp, map_simps]: "map_of (bm_insert k v m) = (map_of m)(k \<mapsto> v)"
  by (induction m) auto

lemma map_of_bm_remove [simp, map_simps]: "map_of (bm_remove k m) = (map_of m)(k := None)"
  by (induction m) (auto simp: bm_remove_def)

lemma keys_bm_insert [simp]: "fst ` set (bm_insert k v m) = insert k (fst ` set m)"
  by (induction m) auto

lemma bm_ok_simps [simp]:
  "bm_ok []"
  "bm_ok (p # m) \<longleftrightarrow> (\<forall>q \<in> set m. fst p < fst q) \<and> bm_ok m"
  by (auto simp: bm_ok_def)

lemma bm_ok_insert [simp, map_intros]: "bm_ok m \<Longrightarrow> bm_ok (bm_insert k v m)"
proof (induction m)
  case (Cons p m)
  have "fst p < fst q" if "q \<in> set (bm_insert k v m)" "fst p < k" for q
  proof -
    have "fst q \<in> insert k (fst ` set m)"
      using that(1) keys_bm_insert [of k v m] by blast
    then show ?thesis using Cons.prems that(2) by auto
  qed
  then show ?case using Cons by auto
qed simp

lemma bm_ok_remove [simp, map_intros]: "bm_ok m \<Longrightarrow> bm_ok (bm_remove k m)"
  by (induction m) (auto simp: bm_remove_def)

lemma bm_ok_map_of_Cons: "bm_ok ((k, v) # m) \<Longrightarrow> map_of m k = None"
  by (auto simp: map_of_eq_None_iff)

lemma bm_ok_distinct: "bm_ok m \<Longrightarrow> distinct (map fst m)"
  by (auto simp: bm_ok_def strict_sorted_iff)

lemma bm_ok_mem: "bm_ok m \<Longrightarrow> (k, v) \<in> set m \<longleftrightarrow> map_of m k = Some v"
  using bm_ok_distinct by fastforce

text \<open>The sorted list is determined by the lookups: maps with equal lookups are equal.\<close>

lemma bm_ext: "bm_ok m \<Longrightarrow> bm_ok n \<Longrightarrow> map_of m = map_of n \<Longrightarrow> m = n"
proof -
  assume ok: "bm_ok m" "bm_ok n" and eq: "map_of m = map_of n"
  have "set (map fst m) = set (map fst n)"
    using eq by (metis dom_map_of_conv_image_fst set_map)
  then have fst: "map fst m = map fst n"
    using ok by (metis bm_ok_def strict_sorted_equal)
  have "m = map (\<lambda>k. (k, the (map_of m k))) (map fst m)"
    using ok(1) by (auto intro!: map_idI [symmetric] simp: bm_ok_mem [symmetric] comp_def)
      (metis bm_ok_mem option.sel)
  also have "\<dots> = map (\<lambda>k. (k, the (map_of n k))) (map fst n)"
    by (simp only: fst eq)
  also have "\<dots> = n"
    using ok(2) by (auto intro!: map_idI simp: comp_def) (metis bm_ok_mem option.sel)
  finally show "m = n" .
qed

section \<open>Searching\<close>

text \<open>\<open>Iterator::position\<close>\<close>

fun position :: "('a \<Rightarrow> bool) \<Rightarrow> 'a list \<Rightarrow> nat option" where
  "position P [] = None"
| "position P (x # xs) = (if P x then Some 0 else map_option Suc (position P xs))"

lemma position_Some: "position P xs = Some i \<Longrightarrow> i < length xs \<and> P (xs ! i)"
  by (induction xs arbitrary: i) (auto split: if_splits)

lemma position_None: "position P xs = None \<longleftrightarrow> (\<forall>x \<in> set xs. \<not> P x)"
  by (induction xs) auto

section \<open>Visitors\<close>

text \<open>A visitor is a function of what it is shown and of its own state that says whether it wants to see more.\<close>

fun visit_while :: "('a \<Rightarrow> 'v \<Rightarrow> bool \<times> 'v) \<Rightarrow> 'a list \<Rightarrow> 'v \<Rightarrow> 'v" where
  "visit_while f [] v = v"
| "visit_while f (x # xs) v = (case f x v of (go, v) \<Rightarrow> if go then visit_while f xs v else v)"

definition push_visitor :: "'a \<Rightarrow> 'a list \<Rightarrow> bool \<times> 'a list" where
  "push_visitor x xs = (True, xs @ [x])"

lemma visit_push [simp]: "visit_while push_visitor xs ys = ys @ xs"
  by (induction xs arbitrary: ys) (simp_all add: push_visitor_def)

end
