(* ===== verification/Cynos_Float.thy ===== *)
theory Cynos_Float
  imports Cynos_Prelude
begin

text \<open>
  Rust's \<open>f64\<close>, as the 64 bits of its IEEE 754 representation: a sign bit, 11 exponent bits and
  52 mantissa bits. Only what the code does with floats is modelled: \<open>is_nan\<close>,
  \<open>partial_cmp\<close>, equality, \<open>to_bits\<close> (the identity here) and the casts \<open>i32 as f64\<close> and
  \<open>i64 as f64\<close>, which round to nearest, ties to even.
\<close>

type_synonym f64 = "64 word"

definition f64_magnitude :: "f64 \<Rightarrow> nat" where
  "f64_magnitude b = unat b mod 2 ^ 63"

definition f64_negative :: "f64 \<Rightarrow> bool" where
  "f64_negative b \<longleftrightarrow> 2 ^ 63 \<le> unat b"

text \<open>A NaN has all exponent bits set and a mantissa that is not zero.\<close>

definition f64_is_nan :: "f64 \<Rightarrow> bool" where
  "f64_is_nan b \<longleftrightarrow> 2047 * 2 ^ 52 < f64_magnitude b"

text \<open>
  Exponent and mantissa, read as one number, order the magnitudes; the sign makes it a signed
  number, on which both zeros are 0. \<open>f64_key\<close> orders all floats but the NaNs
  (\<open>f64_key_less_iff\<close> below relates it to the real numbers they stand for).
\<close>

definition f64_key :: "f64 \<Rightarrow> int" where
  "f64_key b = (if f64_negative b then - int (f64_magnitude b) else int (f64_magnitude b))"

definition f64_partial_cmp :: "f64 \<Rightarrow> f64 \<Rightarrow> ordering option" where
  "f64_partial_cmp a b =
     (if f64_is_nan a \<or> f64_is_nan b then None else Some (ord_cmp (f64_key a) (f64_key b)))"

definition f64_eq :: "f64 \<Rightarrow> f64 \<Rightarrow> bool" where
  "f64_eq a b \<longleftrightarrow> \<not> f64_is_nan a \<and> \<not> f64_is_nan b \<and> f64_key a = f64_key b"

section \<open>The order of the keys is the order of the reals\<close>

text \<open>The magnitude a pair of exponent and mantissa bits stands for, in units of \<open>2^-1074\<close>.\<close>

definition f64_units :: "nat \<Rightarrow> nat" where
  "f64_units m = (let e = m div 2 ^ 52; f = m mod 2 ^ 52
                  in if e = 0 then f else (2 ^ 52 + f) * 2 ^ (e - 1))"

definition f64_real :: "f64 \<Rightarrow> real" where
  "f64_real b = (if f64_negative b then -1 else 1) * real (f64_units (f64_magnitude b)) / 2 ^ 1074"

lemma f64_units_Suc: "f64_units m < f64_units (Suc m)"
proof -
  define e where "e = m div 2 ^ 52"
  define f where "f = m mod (2 ^ 52 :: nat)"
  have m: "m = e * 2 ^ 52 + f" and f: "f < 2 ^ 52" by (simp_all add: e_def f_def)
  show ?thesis
  proof (cases "Suc f < 2 ^ 52")
    case True
    have sm: "Suc m = Suc f + e * 2 ^ 52" using m by simp
    have "Suc m div 2 ^ 52 = e" "Suc m mod 2 ^ 52 = Suc f"
      unfolding sm using True by (simp_all only: div_mult_self1 mod_mult_self1) simp_all
    then show ?thesis unfolding f64_units_def e_def [symmetric] f_def [symmetric] Let_def by simp
  next
    case False
    with f have fe: "Suc f = 2 ^ 52" by simp
    have sm: "Suc m = 0 + Suc e * 2 ^ 52" using m fe by simp
    have d: "Suc m div 2 ^ 52 = Suc e" "Suc m mod 2 ^ 52 = 0"
      unfolding sm by (simp_all only: div_mult_self1 mod_mult_self1) simp_all
    have "(if e = 0 then f else (2 ^ 52 + f) * 2 ^ (e - 1)) < 2 ^ 52 * 2 ^ e"
      using f by (cases e) auto
    then show ?thesis using d unfolding f64_units_def e_def [symmetric] f_def [symmetric] Let_def
      by simp
  qed
qed

lemma f64_units_less_iff: "f64_units m < f64_units n \<longleftrightarrow> m < n"
proof -
  have mono: "strict_mono f64_units"
    by (simp add: strict_mono_Suc_iff f64_units_Suc)
  then show ?thesis by (rule strict_mono_less)
qed

lemma f64_units_0 [simp]: "f64_units 0 = 0"
  by (simp add: f64_units_def)

lemma f64_units_le_iff: "f64_units m \<le> f64_units n \<longleftrightarrow> m \<le> n"
  using f64_units_less_iff [of n m] by (simp add: linorder_not_less [symmetric])

lemma f64_units_eq_0_iff [simp]: "f64_units m = 0 \<longleftrightarrow> m = 0"
  using f64_units_le_iff [of m 0] by auto

lemma f64_units_pos_iff [simp]: "0 < f64_units m \<longleftrightarrow> 0 < m"
  using f64_units_less_iff [of 0 m] by simp

lemma f64_key_less_iff: "f64_key a < f64_key b \<longleftrightarrow> f64_real a < f64_real b"
proof -
  have real: "real (f64_units m) < real (f64_units n) \<longleftrightarrow> m < n" for m n
    using f64_units_less_iff by simp
  show ?thesis
    using real [of "f64_magnitude a" "f64_magnitude b"] real [of "f64_magnitude b" "f64_magnitude a"]
    by (auto simp: f64_key_def f64_real_def divide_strict_right_mono divide_less_cancel
        simp flip: of_nat_add)
qed


section \<open>Integer casts\<close>

text \<open>The position of the highest one bit of a positive number.\<close>

fun ilog2 :: "nat \<Rightarrow> nat" where
  "ilog2 n = (if n < 2 then 0 else Suc (ilog2 (n div 2)))"

declare ilog2.simps [simp del]

text \<open>Division by a power of two, rounded to nearest, ties to even.\<close>

definition round_shift :: "nat \<Rightarrow> nat \<Rightarrow> nat" where
  "round_shift n k =
     (let q = n div 2 ^ k; r = n mod 2 ^ k
      in if 2 ^ k < 2 * r \<or> (2 ^ k = 2 * r \<and> odd q) then Suc q else q)"

text \<open>
  The bits of a positive integer below \<open>2^64\<close>: the 53 leading bits (the rest rounded away) with
  the leading one dropped, under the biased exponent. A mantissa rounded up to \<open>2^53\<close> carries
  into the exponent.
\<close>

definition f64_mantissa :: "nat \<Rightarrow> nat" where
  "f64_mantissa n =
     (let e = ilog2 n in if e \<le> 52 then n * 2 ^ (52 - e) else round_shift n (e - 52))"

definition f64_nat_bits :: "nat \<Rightarrow> nat" where
  "f64_nat_bits n = (if n = 0 then 0 else (ilog2 n + 1022) * 2 ^ 52 + f64_mantissa n)"

definition f64_of_int :: "int \<Rightarrow> f64" where
  "f64_of_int i = (if i < 0 then of_nat (2 ^ 63 + f64_nat_bits (nat (- i)))
                   else of_nat (f64_nat_bits (nat i)))"

definition i32_as_f64 :: "i32 \<Rightarrow> f64" where
  "i32_as_f64 a = f64_of_int (sint a)"

definition i64_as_f64 :: "i64 \<Rightarrow> f64" where
  "i64_as_f64 a = f64_of_int (sint a)"

section \<open>Casts to integers, negation, absolute value\<close>

text \<open>\<open>n as i64\<close> and \<open>n as i32\<close> truncate towards zero and saturate; a NaN becomes 0.\<close>

definition f64_trunc :: "f64 \<Rightarrow> int" where
  "f64_trunc n =
     (let t = int (f64_units (f64_magnitude n) div 2 ^ 1074) in if f64_negative n then - t else t)"

definition f64_as_i64 :: "f64 \<Rightarrow> i64" where
  "f64_as_i64 n =
     (if f64_is_nan n then 0 else of_int (max (- (2 ^ 63)) (min (2 ^ 63 - 1) (f64_trunc n))))"

definition f64_as_i32 :: "f64 \<Rightarrow> i32" where
  "f64_as_i32 n =
     (if f64_is_nan n then 0 else of_int (max (- (2 ^ 31)) (min (2 ^ 31 - 1) (f64_trunc n))))"

text \<open>Negation flips the sign bit, \<open>abs\<close> clears it.\<close>

definition f64_neg :: "f64 \<Rightarrow> f64" where
  "f64_neg n = n + 2 ^ 63"

definition f64_abs :: "f64 \<Rightarrow> f64" where
  "f64_abs n = take_bit 63 n"

lemma ilog2_bounds: "0 < n \<Longrightarrow> 2 ^ ilog2 n \<le> n \<and> n < 2 ^ Suc (ilog2 n)"
proof (induction n rule: ilog2.induct)
  case (1 n)
  show ?case
  proof (cases "n < 2")
    case True
    with "1.prems" have "n = 1" by simp
    then show ?thesis by (simp add: ilog2.simps)
  next
    case False
    with "1.IH" have "2 ^ ilog2 (n div 2) \<le> n div 2 \<and> n div 2 < 2 ^ Suc (ilog2 (n div 2))"
      by simp
    moreover have "ilog2 n = Suc (ilog2 (n div 2))" using False by (simp add: ilog2.simps [of n])
    moreover have "p \<le> n div 2 \<and> n div 2 < 2 * p \<Longrightarrow> 2 * p \<le> n \<and> n < 2 * (2 * p)" for p :: nat
      by linarith
    ultimately show ?thesis by simp
  qed
qed

lemma ilog2_mono: "0 < m \<Longrightarrow> m \<le> n \<Longrightarrow> ilog2 m \<le> ilog2 n"
proof -
  assume "0 < m" "m \<le> n"
  then have "2 ^ ilog2 m < (2 ^ Suc (ilog2 n) :: nat)"
    using ilog2_bounds [of m] ilog2_bounds [of n] by linarith
  then show ?thesis by (simp add: power_strict_increasing_iff del: power_Suc)
qed

lemma ilog2_le: "n < 2 ^ Suc k \<Longrightarrow> 0 < n \<Longrightarrow> ilog2 n \<le> k"
proof -
  assume "n < 2 ^ Suc k" "0 < n"
  then have "2 ^ ilog2 n < (2 ^ Suc k :: nat)" using ilog2_bounds [of n] by linarith
  then show ?thesis by (simp add: power_strict_increasing_iff del: power_Suc)
qed

lemma round_shift_bounds: "n div 2 ^ k \<le> round_shift n k \<and> round_shift n k \<le> Suc (n div 2 ^ k)"
  by (simp add: round_shift_def Let_def)

lemma round_shift_mono: "m \<le> n \<Longrightarrow> round_shift m k \<le> round_shift n k"
proof -
  assume le: "m \<le> n"
  have div: "m div 2 ^ k \<le> n div 2 ^ k" using le by (rule div_le_mono)
  show ?thesis
  proof (cases "m div 2 ^ k = n div 2 ^ k")
    case False
    with div have "Suc (m div 2 ^ k) \<le> n div 2 ^ k" by simp
    then show ?thesis
      using round_shift_bounds [of m k] round_shift_bounds [of n k] by linarith
  next
    case True
    have "m mod 2 ^ k \<le> n mod 2 ^ k"
      using le True by (metis add_le_cancel_left div_mult_mod_eq)
    then show ?thesis using True by (auto simp: round_shift_def Let_def)
  qed
qed

lemma f64_mantissa_bounds:
  assumes "0 < n"
  shows "2 ^ 52 \<le> f64_mantissa n \<and> f64_mantissa n \<le> 2 ^ 53"
proof (cases "ilog2 n \<le> 52")
  case True
  define p where "p = (2::nat) ^ (52 - ilog2 n)"
  have eq: "2 ^ ilog2 n * p = 2 ^ 52" "2 ^ Suc (ilog2 n) * p = 2 ^ 53"
    using True by (simp_all add: p_def flip: power_add)
  have "2 ^ 52 \<le> n * p" "n * p \<le> 2 ^ 53"
    unfolding eq [symmetric] using ilog2_bounds [OF assms] by (auto intro!: mult_right_mono)
  then show ?thesis using True by (simp add: f64_mantissa_def Let_def p_def)
next
  case False
  define k where "k = ilog2 n - 52"
  have ek: "ilog2 n = 52 + k" using False by (simp add: k_def)
  have "2 ^ 52 * 2 ^ k \<le> n" "n < 2 ^ 53 * 2 ^ k"
    using ilog2_bounds [OF assms] ek by (simp_all add: power_add)
  then have "2 ^ 52 \<le> n div 2 ^ k" "n div 2 ^ k < 2 ^ 53"
    by (simp_all add: less_eq_div_iff_mult_less_eq less_mult_imp_div_less)
  then show ?thesis using False round_shift_bounds [of n k]
    by (auto simp: f64_mantissa_def Let_def k_def)
qed

lemma f64_nat_bits_mono: "m \<le> n \<Longrightarrow> f64_nat_bits m \<le> f64_nat_bits n"
proof (cases "m = 0")
  case False
  assume le: "m \<le> n"
  from False le have pos: "0 < m" "0 < n" by simp_all
  show ?thesis
  proof (cases "ilog2 m = ilog2 n")
    case True
    have "f64_mantissa m \<le> f64_mantissa n"
      using True le by (auto simp: f64_mantissa_def Let_def round_shift_mono)
    then show ?thesis using pos True by (simp add: f64_nat_bits_def)
  next
    case False
    then have "Suc (ilog2 m) \<le> ilog2 n" using ilog2_mono [OF pos(1) le] by simp
    then have "(Suc (ilog2 m) + 1022) * 2 ^ 52 \<le> (ilog2 n + 1022) * 2 ^ 52"
      by (intro mult_right_mono) simp_all
    then show ?thesis
      using pos f64_mantissa_bounds [OF pos(1)] f64_mantissa_bounds [OF pos(2)]
      by (simp add: f64_nat_bits_def)
  qed
qed (simp add: f64_nat_bits_def)

lemma f64_nat_bits_bound: "n \<le> 2 ^ 63 \<Longrightarrow> f64_nat_bits n < 2047 * 2 ^ 52"
proof (cases "n = 0")
  case False
  assume "n \<le> 2 ^ 63"
  then have "ilog2 n \<le> 63" using False by (intro ilog2_le) simp_all
  then have "(ilog2 n + 1022) * 2 ^ 52 \<le> 1085 * 2 ^ 52"
    by (intro mult_right_mono) simp_all
  then show ?thesis using False f64_mantissa_bounds [of n] by (simp add: f64_nat_bits_def)
qed (simp add: f64_nat_bits_def)

text \<open>Below \<open>2^53\<close> nothing is rounded away, so the cast is injective there.\<close>

lemma f64_nat_bits_strict:
  assumes "m < n" "n < 2 ^ 53"
  shows "f64_nat_bits m < f64_nat_bits n"
proof (cases "m = 0")
  case True
  then show ?thesis using assms f64_mantissa_bounds [of n] by (simp add: f64_nat_bits_def)
next
  case False
  then have pos: "0 < m" "0 < n" using assms by simp_all
  have e: "ilog2 m \<le> 52" "ilog2 n \<le> 52" using assms pos by (auto intro!: ilog2_le)
  show ?thesis
  proof (cases "ilog2 m = ilog2 n")
    case True
    then show ?thesis using e assms(1) pos by (simp add: f64_nat_bits_def f64_mantissa_def Let_def)
  next
    case False
    then have "Suc (ilog2 m) \<le> ilog2 n" using ilog2_mono [OF pos(1), of n] assms(1) by linarith
    then have le: "(Suc (ilog2 m) + 1022) * 2 ^ 52 \<le> (ilog2 n + 1022) * 2 ^ 52"
      by (intro mult_right_mono) simp_all
    have "m * 2 ^ (52 - ilog2 m) < 2 ^ Suc (ilog2 m) * 2 ^ (52 - ilog2 m)"
      using ilog2_bounds [OF pos(1)] by simp
    also have "(2::nat) ^ Suc (ilog2 m) * 2 ^ (52 - ilog2 m) = 2 ^ 53"
      using e(1) by (simp flip: power_add)
    finally have "f64_mantissa m < 2 ^ 53" using e(1) by (simp add: f64_mantissa_def Let_def)
    then show ?thesis using le pos f64_mantissa_bounds [OF pos(2)] by (simp add: f64_nat_bits_def)
  qed
qed

text \<open>The cast of a 64-bit integer, through its key: never NaN, monotone, exact below \<open>2^53\<close>.\<close>

lemma f64_of_int_parts:
  assumes "- (2 ^ 63) \<le> i" "i \<le> 2 ^ 63"
  shows "f64_magnitude (f64_of_int i) = f64_nat_bits (nat \<bar>i\<bar>)"
    and "f64_negative (f64_of_int i) \<longleftrightarrow> i < 0"
proof -
  have "f64_nat_bits (nat \<bar>i\<bar>) < 2047 * 2 ^ 52"
    using assms by (intro f64_nat_bits_bound) auto
  then have b: "f64_nat_bits (nat \<bar>i\<bar>) < 2 ^ 63" by simp
  have u: "unat (f64_of_int i) = (if i < 0 then 2 ^ 63 else 0) + f64_nat_bits (nat \<bar>i\<bar>)"
    using b by (cases "i < 0") (simp_all add: f64_of_int_def unat_of_nat del: of_nat_add)
  show "f64_magnitude (f64_of_int i) = f64_nat_bits (nat \<bar>i\<bar>)"
    using b unfolding f64_magnitude_def u by (cases "i < 0") simp_all
  show "f64_negative (f64_of_int i) \<longleftrightarrow> i < 0"
    using b unfolding f64_negative_def u by (cases "i < 0") simp_all
qed

lemma f64_of_int_not_nan: "- (2 ^ 63) \<le> i \<Longrightarrow> i \<le> 2 ^ 63 \<Longrightarrow> \<not> f64_is_nan (f64_of_int i)"
  using f64_of_int_parts(1) [of i] f64_nat_bits_bound [of "nat \<bar>i\<bar>"]
  by (auto simp: f64_is_nan_def nat_le_iff abs_le_iff)

lemma f64_key_of_int:
  assumes "- (2 ^ 63) \<le> i" "i \<le> 2 ^ 63"
  shows "f64_key (f64_of_int i) = sgn i * int (f64_nat_bits (nat \<bar>i\<bar>))"
  using f64_of_int_parts [OF assms] by (auto simp: f64_key_def sgn_if f64_nat_bits_def)

lemma f64_key_of_int_mono:
  assumes "- (2 ^ 63) \<le> i" "i \<le> j" "j \<le> 2 ^ 63"
  shows "f64_key (f64_of_int i) \<le> f64_key (f64_of_int j)"
proof -
  have k: "f64_key (f64_of_int i) = sgn i * int (f64_nat_bits (nat \<bar>i\<bar>))"
    "f64_key (f64_of_int j) = sgn j * int (f64_nat_bits (nat \<bar>j\<bar>))"
    using assms by (auto intro!: f64_key_of_int)
  show ?thesis
    using assms(2) f64_nat_bits_mono [of "nat \<bar>i\<bar>" "nat \<bar>j\<bar>"] f64_nat_bits_mono [of "nat \<bar>j\<bar>" "nat \<bar>i\<bar>"]
    unfolding k by (cases "i < 0"; cases "j < 0") (auto simp: sgn_if)
qed

lemma f64_key_of_int_strict:
  assumes "- (2 ^ 53) < i" "i < j" "j < 2 ^ 53"
  shows "f64_key (f64_of_int i) < f64_key (f64_of_int j)"
proof -
  have k: "f64_key (f64_of_int i) = sgn i * int (f64_nat_bits (nat \<bar>i\<bar>))"
    "f64_key (f64_of_int j) = sgn j * int (f64_nat_bits (nat \<bar>j\<bar>))"
    using assms by (auto intro!: f64_key_of_int)
  have b: "f64_nat_bits (nat x) < f64_nat_bits (nat y)" if "x < y" "0 < y" "y < 2 ^ 53" for x y
    using that by (intro f64_nat_bits_strict) auto
  show ?thesis
  proof (cases "i < 0")
    case True
    have i: "0 < f64_nat_bits (nat (- i))" using b [of 0 "- i"] assms True by simp
    show ?thesis
      unfolding k using True i b [of "- j" "- i"] assms by (cases "j < 0") (auto simp: sgn_if)
  next
    case False
    then show ?thesis unfolding k using b [of i j] assms by (auto simp: sgn_if f64_nat_bits_def)
  qed
qed

lemma sint_i32_bounds: "- (2 ^ 31) \<le> sint (a :: i32) \<and> sint a < 2 ^ 31"
  using sint_ge [of a] sint_lt [of a] by simp

lemma sint_i64_bounds: "- (2 ^ 63) \<le> sint (a :: i64) \<and> sint a < 2 ^ 63"
  using sint_ge [of a] sint_lt [of a] by simp

lemma i32_as_f64_not_nan [simp]: "\<not> f64_is_nan (i32_as_f64 a)"
  unfolding i32_as_f64_def using sint_i32_bounds [of a] by (intro f64_of_int_not_nan) simp_all

lemma i64_as_f64_not_nan [simp]: "\<not> f64_is_nan (i64_as_f64 a)"
  unfolding i64_as_f64_def using sint_i64_bounds [of a] by (intro f64_of_int_not_nan) simp_all

lemma i32_as_f64_key_less: "f64_key (i32_as_f64 a) < f64_key (i32_as_f64 b) \<longleftrightarrow> sint a < sint b"
proof -
  have s: "sint a < sint b \<Longrightarrow> f64_key (i32_as_f64 a) < f64_key (i32_as_f64 b)" for a b :: i32
    using sint_i32_bounds [of a] sint_i32_bounds [of b] unfolding i32_as_f64_def
    by (intro f64_key_of_int_strict) auto
  show ?thesis using s [of a b] s [of b a]
    by (cases "sint a" "sint b" rule: linorder_cases) (auto simp: i32_as_f64_def)
qed

text \<open>Above \<open>2^53\<close> integers are rounded.\<close>

lemma i64_as_f64_rounds:
  "i64_as_f64 9007199254740993 = 0x4340000000000000" "i64_as_f64 9007199254740992 = 0x4340000000000000"
proof -
  have l: "ilog2 9007199254740993 = 53" "ilog2 9007199254740992 = 53"
    by (simp_all add: ilog2.simps)
  have s: "sint (9007199254740993 :: i64) = 9007199254740993" "sint (9007199254740992 :: i64) = 9007199254740992"
    by simp_all
  show "i64_as_f64 9007199254740993 = 0x4340000000000000" "i64_as_f64 9007199254740992 = 0x4340000000000000"
    unfolding i64_as_f64_def s
    by (simp_all add: f64_of_int_def f64_nat_bits_def f64_mantissa_def l round_shift_def)
qed

end
