(* ===== verification/Cynos_Value.thy ===== *)
theory Cynos_Value
  imports Cynos_Float "HOL-Library.Product_Lexorder"
begin

text \<open>
  \<open>crates/core/src/types.rs\<close> and \<open>value.rs\<close>: the values a cell can hold, their \<open>PartialEq\<close>,
  \<open>Ord\<close> and \<open>Hash\<close> implementations, and the more permissive equality and hash the SQL layer
  uses for join keys and predicates. A \<open>Hash\<close> implementation is the list of bytes it writes to
  the hasher (64-bit little-endian target).
\<close>

section \<open>Data types\<close>

datatype data_type = TBoolean | TInt32 | TInt64 | TFloat64 | TString | TDateTime | TBytes | TJsonb

fun default_value_repr :: "data_type \<Rightarrow> string" where
  "default_value_repr TBoolean = ''false''"
| "default_value_repr TInt32 = ''0''"
| "default_value_repr TInt64 = ''0''"
| "default_value_repr TFloat64 = ''0.0''"
| "default_value_repr TString = [CHR 0x22, CHR 0x22]"
| "default_value_repr TDateTime = ''0''"
| "default_value_repr TBytes = ''[]''"
| "default_value_repr TJsonb = ''null''"

definition is_nullable_by_default :: "data_type \<Rightarrow> bool" where
  "is_nullable_by_default dt \<longleftrightarrow> dt = TBytes \<or> dt = TJsonb"

definition is_indexable :: "data_type \<Rightarrow> bool" where
  "is_indexable dt \<longleftrightarrow> \<not> (dt = TBytes \<or> dt = TJsonb)"

section \<open>Values\<close>

datatype "value" =
    Null
  | Boolean bool
  | Int32 i32
  | Int64 i64
  | Float64 f64
  | Str string
  | DateTime i64
  | Bytes bytes
  | Jsonb bytes

fun value_data_type :: "value \<Rightarrow> data_type option" where
  "value_data_type Null = None"
| "value_data_type (Boolean _) = Some TBoolean"
| "value_data_type (Int32 _) = Some TInt32"
| "value_data_type (Int64 _) = Some TInt64"
| "value_data_type (Float64 _) = Some TFloat64"
| "value_data_type (Str _) = Some TString"
| "value_data_type (DateTime _) = Some TDateTime"
| "value_data_type (Bytes _) = Some TBytes"
| "value_data_type (Jsonb _) = Some TJsonb"

fun value_is_null :: "value \<Rightarrow> bool" where
  "value_is_null Null = True"
| "value_is_null _ = False"

fun value_as_bool :: "value \<Rightarrow> bool option" where
  "value_as_bool (Boolean v) = Some v"
| "value_as_bool _ = None"

fun value_as_i32 :: "value \<Rightarrow> i32 option" where
  "value_as_i32 (Int32 v) = Some v"
| "value_as_i32 _ = None"

fun value_as_i64 :: "value \<Rightarrow> i64 option" where
  "value_as_i64 (Int64 v) = Some v"
| "value_as_i64 _ = None"

fun value_as_f64 :: "value \<Rightarrow> f64 option" where
  "value_as_f64 (Float64 v) = Some v"
| "value_as_f64 _ = None"

fun value_as_str :: "value \<Rightarrow> string option" where
  "value_as_str (Str v) = Some v"
| "value_as_str _ = None"

fun value_as_datetime :: "value \<Rightarrow> i64 option" where
  "value_as_datetime (DateTime v) = Some v"
| "value_as_datetime _ = None"

fun value_as_bytes :: "value \<Rightarrow> bytes option" where
  "value_as_bytes (Bytes v) = Some v"
| "value_as_bytes _ = None"

fun default_for_type :: "data_type \<Rightarrow> value" where
  "default_for_type TBoolean = Boolean False"
| "default_for_type TInt32 = Int32 0"
| "default_for_type TInt64 = Int64 0"
| "default_for_type TFloat64 = Float64 0"
| "default_for_type TString = Str []"
| "default_for_type TDateTime = DateTime 0"
| "default_for_type TBytes = Null"
| "default_for_type TJsonb = Null"

fun value_eq :: "value \<Rightarrow> value \<Rightarrow> bool" where
  "value_eq Null Null = True"
| "value_eq (Boolean a) (Boolean b) = (a = b)"
| "value_eq (Int32 a) (Int32 b) = (a = b)"
| "value_eq (Int64 a) (Int64 b) = (a = b)"
| "value_eq (Float64 a) (Float64 b) = (if f64_is_nan a \<and> f64_is_nan b then True else f64_eq a b)"
| "value_eq (Str a) (Str b) = (a = b)"
| "value_eq (DateTime a) (DateTime b) = (a = b)"
| "value_eq (Bytes a) (Bytes b) = (a = b)"
| "value_eq (Jsonb a) (Jsonb b) = (a = b)"
| "value_eq _ _ = False"

text \<open>\<open>Int32(42)\<close> and \<open>Int64(42)\<close> match in predicates and join keys.\<close>

fun sql_eq :: "value \<Rightarrow> value \<Rightarrow> bool" where
  "sql_eq (Int32 a) (Int64 b) = ((scast a :: i64) = b)"
| "sql_eq (Int64 a) (Int32 b) = (a = (scast b :: i64))"
| "sql_eq a b = value_eq a b"

section \<open>Hashing\<close>

definition le_bytes :: "nat \<Rightarrow> nat \<Rightarrow> bytes" where
  "le_bytes k n = map (\<lambda>i. of_nat (n div 256 ^ i)) [0..<k]"

text \<open>The order of the constructors is the discriminant that \<open>mem::discriminant\<close> hashes.\<close>

fun type_order :: "value \<Rightarrow> nat" where
  "type_order Null = 0"
| "type_order (Boolean _) = 1"
| "type_order (Int32 _) = 2"
| "type_order (Int64 _) = 3"
| "type_order (Float64 _) = 4"
| "type_order (Str _) = 5"
| "type_order (DateTime _) = 6"
| "type_order (Bytes _) = 7"
| "type_order (Jsonb _) = 8"

definition hash_bool :: "bool \<Rightarrow> bytes" where
  "hash_bool b = [if b then 1 else 0]"

definition hash_str :: "string \<Rightarrow> bytes" where
  "hash_str s = as_bytes s @ [255]"

definition hash_byte_vec :: "bytes \<Rightarrow> bytes" where
  "hash_byte_vec b = le_bytes 8 (length b) @ b"

fun value_hash_payload :: "value \<Rightarrow> bytes" where
  "value_hash_payload Null = []"
| "value_hash_payload (Boolean b) = hash_bool b"
| "value_hash_payload (Int32 i) = le_bytes 4 (unat i)"
| "value_hash_payload (Int64 i) = le_bytes 8 (unat i)"
| "value_hash_payload (Float64 f) = le_bytes 8 (unat f)"
| "value_hash_payload (Str s) = hash_str s"
| "value_hash_payload (DateTime d) = le_bytes 8 (unat d)"
| "value_hash_payload (Bytes b) = hash_byte_vec b"
| "value_hash_payload (Jsonb j) = hash_byte_vec j"

definition value_hash :: "value \<Rightarrow> bytes" where
  "value_hash v = le_bytes 8 (type_order v) @ value_hash_payload v"

fun sql_hash :: "value \<Rightarrow> bytes" where
  "sql_hash (Int32 v) = 255 # le_bytes 8 (unat (scast v :: i64))"
| "sql_hash (Int64 v) = 255 # le_bytes 8 (unat v)"
| "sql_hash v = value_hash v"

section \<open>Ordering\<close>

definition unwrap_or_equal :: "ordering option \<Rightarrow> ordering" where
  "unwrap_or_equal r = (case r of None \<Rightarrow> Equal | Some c \<Rightarrow> c)"

definition float_cmp :: "f64 \<Rightarrow> f64 \<Rightarrow> ordering" where
  "float_cmp a b =
     (case (f64_is_nan a, f64_is_nan b) of
        (True, True) \<Rightarrow> Equal
      | (True, False) \<Rightarrow> Greater
      | (False, True) \<Rightarrow> Less
      | (False, False) \<Rightarrow> unwrap_or_equal (f64_partial_cmp a b))"

fun value_cmp :: "value \<Rightarrow> value \<Rightarrow> ordering" where
  "value_cmp Null Null = Equal"
| "value_cmp Null _ = Less"
| "value_cmp _ Null = Greater"
| "value_cmp (Boolean a) (Boolean b) = ord_cmp a b"
| "value_cmp (Int32 a) (Int32 b) = ord_cmp (sint a) (sint b)"
| "value_cmp (Int64 a) (Int64 b) = ord_cmp (sint a) (sint b)"
| "value_cmp (Int32 a) (Int64 b) = ord_cmp (sint (scast a :: i64)) (sint b)"
| "value_cmp (Int64 a) (Int32 b) = ord_cmp (sint a) (sint (scast b :: i64))"
| "value_cmp (Int32 a) (Float64 b) =
     (let a_f64 = i32_as_f64 a
      in if f64_is_nan b then Less else unwrap_or_equal (f64_partial_cmp a_f64 b))"
| "value_cmp (Float64 a) (Int32 b) =
     (let b_f64 = i32_as_f64 b
      in if f64_is_nan a then Greater else unwrap_or_equal (f64_partial_cmp a b_f64))"
| "value_cmp (Int64 a) (Float64 b) =
     (let a_f64 = i64_as_f64 a
      in if f64_is_nan b then Less else unwrap_or_equal (f64_partial_cmp a_f64 b))"
| "value_cmp (Float64 a) (Int64 b) =
     (let b_f64 = i64_as_f64 b
      in if f64_is_nan a then Greater else unwrap_or_equal (f64_partial_cmp a b_f64))"
| "value_cmp (Float64 a) (Float64 b) = float_cmp a b"
| "value_cmp (Str a) (Str b) = ord_cmp a b"
| "value_cmp (DateTime a) (DateTime b) = ord_cmp (sint a) (sint b)"
| "value_cmp (Bytes a) (Bytes b) = ord_cmp a b"
| "value_cmp (Jsonb a) (Jsonb b) = ord_cmp a b"
| "value_cmp a b = ord_cmp (type_order a) (type_order b)"


section \<open>Equality\<close>

lemma f64_eq_refl [simp]: "f64_eq a a \<longleftrightarrow> \<not> f64_is_nan a"
  by (simp add: f64_eq_def)

lemma value_eq_refl [simp]: "value_eq v v"
  by (cases v) auto

lemma value_eq_sym: "value_eq a b = value_eq b a"
  by (cases a; cases b) (auto simp: f64_eq_def)

lemma value_eq_trans: "value_eq a b \<Longrightarrow> value_eq b c \<Longrightarrow> value_eq a c"
  by (cases a; cases b; cases c) (auto simp: f64_eq_def split: if_splits)

fun is_float :: "value \<Rightarrow> bool" where
  "is_float (Float64 _) = True"
| "is_float _ = False"

fun is_int64 :: "value \<Rightarrow> bool" where
  "is_int64 (Int64 _) = True"
| "is_int64 _ = False"

lemma value_eq_nonfloat: "\<not> is_float a \<Longrightarrow> value_eq a b \<longleftrightarrow> a = b"
  by (cases a; cases b) auto

lemma value_eq_is_float: "value_eq a b \<Longrightarrow> is_float a = is_float b"
  by (cases a; cases b) auto

section \<open>What the hash distinguishes\<close>

lemma length_le_bytes [simp]: "length (le_bytes k n) = k"
  by (simp add: le_bytes_def)

lemma le_bytes_inject:
  "le_bytes k m = le_bytes k n \<Longrightarrow> m < 256 ^ k \<Longrightarrow> n < 256 ^ k \<Longrightarrow> m = n"
proof (induction k arbitrary: m n)
  case (Suc k)
  have upt: "[0..<Suc k] = 0 # map Suc [0..<k]"
    by (simp add: map_Suc_upt upt_conv_Cons del: upt_Suc)
  have step: "le_bytes (Suc k) x = of_nat x # le_bytes k (x div 256)" for x
    unfolding le_bytes_def upt by (simp add: comp_def div_mult2_eq)
  from Suc.prems(1) have hd: "(of_nat m :: u8) = of_nat n" and tl: "le_bytes k (m div 256) = le_bytes k (n div 256)"
    by (simp_all add: step)
  from hd have mod: "m mod 256 = n mod 256"
    by (simp add: word_of_nat_eq_iff take_bit_eq_mod)
  have "m div 256 = n div 256"
    using tl Suc.prems(2,3) by (intro Suc.IH) (simp_all add: less_mult_imp_div_less mult.commute)
  then show ?case using mod by (metis div_mult_mod_eq)
qed simp

lemma le_bytes_word_inject [simp]:
  "le_bytes 8 (unat (a :: 64 word)) = le_bytes 8 (unat b) \<longleftrightarrow> a = b"
  "le_bytes 4 (unat (c :: 32 word)) = le_bytes 4 (unat d) \<longleftrightarrow> c = d"
proof -
  have "unat x < 256 ^ 8" for x :: "64 word" using unsigned_less [of x, where ?'a = nat] by simp
  then show "le_bytes 8 (unat a) = le_bytes 8 (unat b) \<longleftrightarrow> a = b"
    by (auto dest!: le_bytes_inject intro: unsigned_word_eqI)
  have "unat x < 256 ^ 4" for x :: "32 word" using unsigned_less [of x, where ?'a = nat] by simp
  then show "le_bytes 4 (unat c) = le_bytes 4 (unat d) \<longleftrightarrow> c = d"
    by (auto dest!: le_bytes_inject intro: unsigned_word_eqI)
qed

lemma as_bytes_inject [simp]: "as_bytes s = as_bytes t \<longleftrightarrow> s = t"
proof
  assume "as_bytes s = as_bytes t"
  then have "map byte_char (as_bytes s) = map byte_char (as_bytes t)" by simp
  then show "s = t" by (simp add: as_bytes_def comp_def)
qed simp

lemma hash_str_inject [simp]: "hash_str s = hash_str t \<longleftrightarrow> s = t"
  by (simp add: hash_str_def)

lemma hash_byte_vec_inject [simp]: "hash_byte_vec b = hash_byte_vec c \<longleftrightarrow> b = c"
  by (auto simp: hash_byte_vec_def append_eq_append_conv)

lemma type_order_lt: "type_order v < 9"
  by (cases v) auto

lemma value_hash_type_order: "value_hash a = value_hash b \<Longrightarrow> type_order a = type_order b"
proof -
  assume "value_hash a = value_hash b"
  then have "le_bytes 8 (type_order a) = le_bytes 8 (type_order b)"
    by (simp add: value_hash_def append_eq_append_conv)
  then show ?thesis using type_order_lt [of a] type_order_lt [of b]
    by (auto intro: le_bytes_inject)
qed

lemma value_hash_inject: "value_hash a = value_hash b \<longleftrightarrow> a = b"
proof
  assume eq: "value_hash a = value_hash b"
  then have "type_order a = type_order b" by (rule value_hash_type_order)
  moreover from eq this have "value_hash_payload a = value_hash_payload b"
    by (simp add: value_hash_def)
  ultimately show "a = b"
    by (cases a; cases b) (simp_all add: hash_bool_def split: if_splits)
qed simp

lemma sql_eq_refl [simp]: "sql_eq v v"
  by (cases v) auto

lemma sql_eq_sym: "sql_eq a b = sql_eq b a"
  by (cases a; cases b) (auto simp: f64_eq_def)

lemma scast_i64_sint: "(scast (a :: i32) :: i64) = b \<longleftrightarrow> sint a = sint b"
proof -
  have "sint (scast a :: i64) = sint a"
    using sint_i32_bounds [of a] by (simp add: signed_scast_eq signed_take_bit_int_eq_self)
  then show ?thesis by (metis signed_word_eqI)
qed

lemma sint_scast_i64 [simp]: "sint (scast (a :: i32) :: i64) = sint a"
  using scast_i64_sint [of a "scast a"] by simp

lemma sql_hash_nonint: "\<not> is_float a \<Longrightarrow> sql_eq a b \<Longrightarrow> sql_hash a = sql_hash b"
  by (cases a; cases b) auto

section \<open>The order, on the columns where it is one\<close>

text \<open>
  A value's place in the order as a tuple: the block of its type (all numbers share one), its
  number, its bytes. The number of an integer is read in one of two ways: as the float it is cast
  to, when the column may hold floats, or exactly.
\<close>

definition float_key :: "f64 \<Rightarrow> int" where
  "float_key f = (if f64_is_nan f then 2 ^ 63 else f64_key f)"

type_synonym value_key = "nat \<times> int \<times> string \<times> bytes"

fun value_key_via :: "(value \<Rightarrow> int) \<Rightarrow> value \<Rightarrow> value_key" where
  "value_key_via num Null = (0, 0, [], [])"
| "value_key_via num (Boolean b) = (1, of_bool b, [], [])"
| "value_key_via num (Int32 i) = (2, num (Int32 i), [], [])"
| "value_key_via num (Int64 i) = (2, num (Int64 i), [], [])"
| "value_key_via num (Float64 f) = (2, num (Float64 f), [], [])"
| "value_key_via num (Str s) = (5, 0, s, [])"
| "value_key_via num (DateTime d) = (6, sint d, [], [])"
| "value_key_via num (Bytes b) = (7, 0, [], b)"
| "value_key_via num (Jsonb b) = (8, 0, [], b)"

fun num_as_float :: "value \<Rightarrow> int" where
  "num_as_float (Int32 i) = f64_key (i32_as_f64 i)"
| "num_as_float (Float64 f) = float_key f"
| "num_as_float _ = 0"

fun num_as_int :: "value \<Rightarrow> int" where
  "num_as_int (Int32 i) = sint i"
| "num_as_int (Int64 i) = sint i"
| "num_as_int _ = 0"

lemma ord_cmp_Pair [cmp_simps]:
  "ord_cmp (a, b) (c, d) = (if a < c then Less else if c < a then Greater else ord_cmp b d)"
  by (auto simp: ord_cmp_def less_prod_def)

lemma ord_cmp_sint: "ord_cmp (sint (a :: 'a::len word)) (sint b) = Equal \<longleftrightarrow> a = b"
  by (auto intro: signed_word_eqI)

lemma f64_key_bound: "\<not> f64_is_nan f \<Longrightarrow> f64_key f < 2 ^ 63"
  by (simp add: f64_key_def f64_is_nan_def)

lemma float_cmp_key: "float_cmp a b = ord_cmp (float_key a) (float_key b)"
  using f64_key_bound [of a] f64_key_bound [of b]
  by (auto simp: float_cmp_def float_key_def f64_partial_cmp_def unwrap_or_equal_def ord_cmp_def
      split: bool.splits)

lemma i32_key_simps:
  "f64_key (i32_as_f64 a) < f64_key (i32_as_f64 b) \<longleftrightarrow> sint a < sint b"
  "f64_key (i32_as_f64 a) = f64_key (i32_as_f64 b) \<longleftrightarrow> sint a = sint b"
  "f64_key (i32_as_f64 a) < 9223372036854775808"
  "f64_key (i32_as_f64 a) \<noteq> 9223372036854775808"
  "\<not> 9223372036854775808 < f64_key (i32_as_f64 a)"
  using i32_as_f64_key_less [of a b] i32_as_f64_key_less [of b a] f64_key_bound [of "i32_as_f64 a"]
  by auto

lemma value_cmp_no_int64:
  assumes "\<not> is_int64 a" "\<not> is_int64 b"
  shows "value_cmp a b = ord_cmp (value_key_via num_as_float a) (value_key_via num_as_float b)"
  using assms
  by (cases a; cases b)
    (auto simp: cmp_simps float_cmp_key i32_key_simps float_key_def f64_partial_cmp_def
      unwrap_or_equal_def Let_def ord_cmp_def split: if_splits)

lemma value_cmp_no_float:
  assumes "\<not> is_float a" "\<not> is_float b"
  shows "value_cmp a b = ord_cmp (value_key_via num_as_int a) (value_key_via num_as_int b)"
  using assms by (cases a; cases b) (auto simp: cmp_simps ord_cmp_def)

text \<open>A comparison read off a key in a linear order meets the contract of \<open>Ord\<close>.\<close>

lemma cmp_order_via_key:
  fixes key :: "'a \<Rightarrow> 'b::linorder"
  assumes "\<And>a b. ok a \<Longrightarrow> ok b \<Longrightarrow> cmp a b = ord_cmp (key a) (key b)"
  shows "cmp_order cmp ok"
  by unfold_locales (use assms in \<open>auto simp: ord_cmp_def split: if_splits\<close>)

interpretation value_no_int64: cmp_order value_cmp "\<lambda>v. \<not> is_int64 v"
  by (rule cmp_order_via_key) (rule value_cmp_no_int64)

interpretation value_no_float: cmp_order value_cmp "\<lambda>v. \<not> is_float v"
  by (rule cmp_order_via_key) (rule value_cmp_no_float)


section \<open>Properties\<close>

text \<open>
  C28. \<open>Ord for Value\<close> is transitive on every column that does not mix 64-bit integers with
  floats: when no value is a \<open>Float64\<close>, or no value is an \<open>Int64\<close>, then \<open>a <= b\<close> and \<open>b <= c\<close>
  give \<open>a <= c\<close>, and equality of two is decided the same way in both directions.
\<close>

theorem value_cmp_transitive:
  assumes "(\<forall>v \<in> {a, b, c}. \<not> is_float v) \<or> (\<forall>v \<in> {a, b, c}. \<not> is_int64 v)"
    and "value_cmp a b \<noteq> Greater" "value_cmp b c \<noteq> Greater"
  shows "value_cmp a c \<noteq> Greater \<and> value_cmp b a = ordering_reverse (value_cmp a b)"
  using assms value_no_float.cmp_trans [of a b c] value_no_float.cmp_swap [of a b]
    value_no_int64.cmp_trans [of a b c] value_no_int64.cmp_swap [of a b] by auto

theorem value_cmp_transitive_witness:
  "value_cmp (Int32 1) (Str ''a'') \<noteq> Greater
    \<and> value_cmp (Int64 1) (Int32 1) = ordering_reverse (value_cmp (Int32 1) (Int64 1))"
proof -
  have "value_cmp (Int32 1) (Str ''a'') \<noteq> Greater
    \<and> value_cmp (Int64 1) (Int32 1) = ordering_reverse (value_cmp (Int32 1) (Int64 1))"
    by (rule value_cmp_transitive [of "Int32 1" "Int64 1" "Str ''a''"]) simp_all
  then show ?thesis .
qed

text \<open>
  On a column that mixes \<open>Int64\<close> and \<open>Float64\<close> the order is not transitive: \<open>2^53 + 1\<close> is
  rounded when it meets the float \<open>2^53\<close>, so it equals that float, which equals \<open>2^53\<close>, yet the
  two integers differ. (\<open>0x4340000000000000\<close> is the float \<open>2^53\<close>.) Nor does \<open>Ord\<close> agree with
  \<open>PartialEq\<close>: \<open>Int32(1)\<close> compares \<open>Equal\<close> to \<open>Int64(1)\<close> but is not equal to it. So \<open>Value\<close>
  does not meet the contract of \<open>Ord\<close> that sorting and the B+Tree rely on.
\<close>

theorem value_cmp_mixed_not_transitive:
  "value_cmp (Int64 9007199254740993) (Float64 0x4340000000000000) = Equal
    \<and> value_cmp (Float64 0x4340000000000000) (Int64 9007199254740992) = Equal
    \<and> value_cmp (Int64 9007199254740993) (Int64 9007199254740992) = Greater
    \<and> value_cmp (Int32 1) (Int64 1) = Equal \<and> \<not> value_eq (Int32 1) (Int64 1)"
proof -
  have s: "sint (9007199254740993 :: i64) = 9007199254740993" "sint (9007199254740992 :: i64) = 9007199254740992"
    by simp_all
  have n: "\<not> f64_is_nan 0x4340000000000000"
    by (simp add: f64_is_nan_def f64_magnitude_def)
  show ?thesis using i64_as_f64_rounds n s by (simp add: f64_partial_cmp_def unwrap_or_equal_def)
qed

text \<open>
  The bytes a value writes to a hasher determine it bit for bit, so two values hash alike only
  if they are identical. Values that \<open>PartialEq\<close> calls equal therefore hash alike for every type
  but \<open>Float64\<close>; there both zeros are equal and their hashes differ, which breaks the contract
  between \<open>Eq\<close> and \<open>Hash\<close>.
\<close>

theorem value_hash_identifies:
  "(value_hash a = value_hash b \<longleftrightarrow> a = b)
    \<and> (is_float a \<or> value_eq a b = (value_hash a = value_hash b))
    \<and> value_eq (Float64 0) (Float64 (2 ^ 63))
    \<and> value_hash (Float64 0) \<noteq> value_hash (Float64 (2 ^ 63))"
proof -
  have "value_eq (Float64 0) (Float64 (2 ^ 63))"
    by (simp add: f64_eq_def f64_is_nan_def f64_key_def f64_magnitude_def)
  then show ?thesis by (auto simp: value_hash_inject value_eq_nonfloat)
qed



end
