(* ===== verification/Cynos_Row.thy ===== *)
theory Cynos_Row
  imports Cynos_Value
begin

text \<open>
  \<open>crates/core/src/row.rs\<close>: rows with identity and version, the global row-id counter, and the
  derived ids of join and aggregate rows (an FNV-1a style hash of the source ids).
\<close>

type_synonym row_id = u64

definition DUMMY_ROW_ID :: row_id where
  "DUMMY_ROW_ID = - 1"

definition ROW_ID_HASH_OFFSET :: u64 where
  "ROW_ID_HASH_OFFSET = 0xCBF29CE484222325"

definition ROW_ID_HASH_PRIME :: u64 where
  "ROW_ID_HASH_PRIME = 0x00000100000001B3"

definition JOIN_ROW_ID_DOMAIN :: u64 where
  "JOIN_ROW_ID_DOMAIN = 0x4A4F494E5F494E4E"

definition LEFT_JOIN_NULL_ROW_ID_DOMAIN :: u64 where
  "LEFT_JOIN_NULL_ROW_ID_DOMAIN = 0x4A4F494E5F4C4E55"

definition RIGHT_JOIN_NULL_ROW_ID_DOMAIN :: u64 where
  "RIGHT_JOIN_NULL_ROW_ID_DOMAIN = 0x4A4F494E5F524E55"

definition AGGREGATE_GROUP_ROW_ID_DOMAIN :: u64 where
  "AGGREGATE_GROUP_ROW_ID_DOMAIN = 0x4147475F47524F55"

section \<open>Errors\<close>

text \<open>The error type of the engine (\<open>error.rs\<close>); a fallible operation returns \<open>db_error + 'a\<close>.\<close>

datatype db_error =
    TypeMismatch data_type data_type
  | NullConstraint string
  | UniqueConstraint string "value"
  | NotFound string "value"
  | InvalidSchema string
  | ColumnNotFound string string
  | TableNotFound string
  | IndexNotFound string string
  | ForeignKeyViolation string string
  | InvalidOperation string

section \<open>The row-id hasher\<close>

unbundle bit_operations_syntax

definition row_id_hasher_new :: "u64 \<Rightarrow> u64" where
  "row_id_hasher_new domain = ROW_ID_HASH_OFFSET XOR word_rotl 7 domain"

fun row_id_hasher_write :: "u64 \<Rightarrow> bytes \<Rightarrow> u64" where
  "row_id_hasher_write state [] = state"
| "row_id_hasher_write state (byte # bs) =
     row_id_hasher_write ((state XOR ucast byte) * ROW_ID_HASH_PRIME) bs"

definition finalize_derived_row_id :: "u64 \<Rightarrow> row_id" where
  "finalize_derived_row_id h = (if h = DUMMY_ROW_ID then DUMMY_ROW_ID - 1 else h)"

definition hash_row_id :: "u64 \<Rightarrow> bytes \<Rightarrow> row_id" where
  "hash_row_id domain feed =
     finalize_derived_row_id (row_id_hasher_write (row_id_hasher_new domain) feed)"

definition join_row_id :: "row_id \<Rightarrow> row_id \<Rightarrow> row_id" where
  "join_row_id left_id right_id =
     hash_row_id JOIN_ROW_ID_DOMAIN (le_bytes 8 (unat left_id) @ le_bytes 8 (unat right_id))"

definition left_join_null_row_id :: "row_id \<Rightarrow> row_id" where
  "left_join_null_row_id left_id = hash_row_id LEFT_JOIN_NULL_ROW_ID_DOMAIN (le_bytes 8 (unat left_id))"

definition right_join_null_row_id :: "row_id \<Rightarrow> row_id" where
  "right_join_null_row_id right_id =
     hash_row_id RIGHT_JOIN_NULL_ROW_ID_DOMAIN (le_bytes 8 (unat right_id))"

definition aggregate_group_row_id :: "value list \<Rightarrow> row_id" where
  "aggregate_group_row_id group_key =
     hash_row_id AGGREGATE_GROUP_ROW_ID_DOMAIN
       (le_bytes 8 (length group_key) @ concat (map value_hash group_key))"

section \<open>The global counter\<close>

text \<open>
  \<open>NEXT_ROW_ID\<close> as a state: each operation returns the id it hands out and the new counter.
  \<open>fetch_add\<close> wraps around.
\<close>

definition next_row_id :: "u64 \<Rightarrow> row_id \<times> u64" where
  "next_row_id ctr = (ctr, ctr + 1)"

definition reserve_row_ids :: "u64 \<Rightarrow> u64 \<Rightarrow> row_id \<times> u64" where
  "reserve_row_ids n ctr = (ctr, ctr + n)"

definition set_next_row_id :: "row_id \<Rightarrow> u64 \<Rightarrow> u64" where
  "set_next_row_id i ctr = i"

definition set_next_row_id_if_greater :: "row_id \<Rightarrow> u64 \<Rightarrow> u64" where
  "set_next_row_id_if_greater i ctr = max ctr i"

section \<open>Rows\<close>

record row =
  rid :: row_id
  rversion :: u64
  rvalues :: "value list"

definition row_new :: "row_id \<Rightarrow> value list \<Rightarrow> row" where
  "row_new i vs = \<lparr>rid = i, rversion = 1, rvalues = vs\<rparr>"

definition row_new_with_version :: "row_id \<Rightarrow> u64 \<Rightarrow> value list \<Rightarrow> row" where
  "row_new_with_version i v vs = \<lparr>rid = i, rversion = v, rvalues = vs\<rparr>"

definition row_create :: "value list \<Rightarrow> u64 \<Rightarrow> row \<times> u64" where
  "row_create vs ctr = (let (i, ctr') = next_row_id ctr in (row_new i vs, ctr'))"

definition row_dummy :: "value list \<Rightarrow> row" where
  "row_dummy vs = row_new DUMMY_ROW_ID vs"

definition row_dummy_with_version :: "u64 \<Rightarrow> value list \<Rightarrow> row" where
  "row_dummy_with_version v vs = row_new_with_version DUMMY_ROW_ID v vs"

definition row_increment_version :: "row \<Rightarrow> u64 \<times> row" where
  "row_increment_version r = (let v = rversion r + 1 in (v, r\<lparr>rversion := v\<rparr>))"

definition row_get :: "row \<Rightarrow> nat \<Rightarrow> value option" where
  "row_get r i = (if i < length (rvalues r) then Some (rvalues r ! i) else None)"

definition row_set :: "row \<Rightarrow> nat \<Rightarrow> value \<Rightarrow> bool \<times> row" where
  "row_set r i v = (if i < length (rvalues r) then (True, r\<lparr>rvalues := (rvalues r)[i := v]\<rparr>)
                    else (False, r))"

definition row_len :: "row \<Rightarrow> nat" where
  "row_len r = length (rvalues r)"

definition row_is_empty :: "row \<Rightarrow> bool" where
  "row_is_empty r \<longleftrightarrow> rvalues r = []"

definition row_is_dummy :: "row \<Rightarrow> bool" where
  "row_is_dummy r \<longleftrightarrow> rid r = DUMMY_ROW_ID"

text \<open>\<open>PartialEq for Row\<close> ignores the version.\<close>

definition row_eq :: "row \<Rightarrow> row \<Rightarrow> bool" where
  "row_eq a b \<longleftrightarrow> rid a = rid b \<and> list_all2 value_eq (rvalues a) (rvalues b)"

lemma row_eq_refl [simp]: "row_eq r r"
  by (simp add: row_eq_def list_all2_refl)

lemma row_eq_sym: "row_eq a b \<Longrightarrow> row_eq b a"
  by (auto simp: row_eq_def list_all2_conv_all_nth value_eq_sym)

lemma row_eq_trans: "row_eq a b \<Longrightarrow> row_eq b c \<Longrightarrow> row_eq a c"
  unfolding row_eq_def by (auto intro: list_all2_trans [of value_eq value_eq value_eq] value_eq_trans)

lemma row_get_set:
  "row_get (snd (row_set r i v)) j = (if j = i \<and> i < row_len r then Some v else row_get r j)"
  by (auto simp: row_get_def row_set_def row_len_def)

lemma finalize_not_dummy [simp]: "finalize_derived_row_id h \<noteq> DUMMY_ROW_ID"
  by (auto simp: finalize_derived_row_id_def DUMMY_ROW_ID_def)

section \<open>Allocation of row ids\<close>

text \<open>The requests a program makes of the counter, and the ids each of them hands out.\<close>

datatype alloc_op = NextId | Reserve u64 | SetIfGreater row_id

fun alloc_step :: "u64 \<Rightarrow> alloc_op \<Rightarrow> row_id list \<times> u64" where
  "alloc_step ctr NextId = (let (i, ctr') = next_row_id ctr in ([i], ctr'))"
| "alloc_step ctr (Reserve n) =
     (let (i, ctr') = reserve_row_ids n ctr in (map (\<lambda>k. i + of_nat k) [0..<unat n], ctr'))"
| "alloc_step ctr (SetIfGreater i) = ([], set_next_row_id_if_greater i ctr)"

fun alloc_run :: "u64 \<Rightarrow> alloc_op list \<Rightarrow> row_id list" where
  "alloc_run ctr [] = []"
| "alloc_run ctr (p # ps) = (let (ids, ctr') = alloc_step ctr p in ids @ alloc_run ctr' ps)"

text \<open>The counter as a natural number, as it would be without wrap-around.\<close>

fun alloc_end :: "nat \<Rightarrow> alloc_op list \<Rightarrow> nat" where
  "alloc_end c [] = c"
| "alloc_end c (NextId # ps) = alloc_end (Suc c) ps"
| "alloc_end c (Reserve n # ps) = alloc_end (c + unat n) ps"
| "alloc_end c (SetIfGreater i # ps) = alloc_end (max c (unat i)) ps"

lemma alloc_end_ge: "c \<le> alloc_end c ps"
proof (induction c ps rule: alloc_end.induct)
  case (4 c i ps)
  then show ?case by simp
qed auto

lemma alloc_step_ids:
  assumes "alloc_step ctr p = (ids, ctr')" "alloc_end (unat ctr) [p] < 2 ^ 64"
  shows "unat ctr' = alloc_end (unat ctr) [p]"
    and "distinct ids"
    and "\<forall>i \<in> set ids. unat ctr \<le> unat i \<and> unat i < unat ctr'"
proof -
  have ctr': "unat ctr' = alloc_end (unat ctr) [p]"
    using assms by (cases p) (auto simp: next_row_id_def reserve_row_ids_def
        set_next_row_id_if_greater_def unat_word_ariths max_def word_le_nat_alt)
  then show "unat ctr' = alloc_end (unat ctr) [p]" .
  have un: "unat (ctr + of_nat k) = unat ctr + k" if "unat ctr + k < 2 ^ 64" for k
    using that by (simp add: unat_word_ariths unat_of_nat mod_add_right_eq)
  show "distinct ids"
  proof (cases p)
    case (Reserve n)
    have "inj_on (\<lambda>k. ctr + of_nat k) (set [0..<unat n])"
    proof (rule inj_onI)
      fix k l
      assume kl: "k \<in> set [0..<unat n]" "l \<in> set [0..<unat n]" "ctr + of_nat k = ctr + of_nat l"
      have eq: "unat (ctr + of_nat k) = unat (ctr + of_nat l)" by (simp only: kl(3))
      have "k < unat n" "l < unat n" "unat ctr + unat n < 2 ^ 64"
        using kl(1,2) assms(2) Reserve by simp_all
      then have "unat ctr + k = unat ctr + l"
        using eq un [of k] un [of l] by linarith
      then show "k = l" by (rule add_left_imp_eq)
    qed
    then show ?thesis using assms(1) Reserve
      by (auto simp: reserve_row_ids_def distinct_map)
  qed (use assms in \<open>auto simp: next_row_id_def\<close>)
  show "\<forall>i \<in> set ids. unat ctr \<le> unat i \<and> unat i < unat ctr'"
    using assms ctr' un by (cases p) (auto simp: next_row_id_def reserve_row_ids_def)
qed

lemma alloc_run_ids:
  "alloc_end (unat ctr) ps < 2 ^ 64 \<Longrightarrow>
     distinct (alloc_run ctr ps) \<and> (\<forall>i \<in> set (alloc_run ctr ps). unat ctr \<le> unat i)"
proof (induction ps arbitrary: ctr)
  case (Cons p ps)
  obtain ids ctr' where step: "alloc_step ctr p = (ids, ctr')" by fastforce
  have "alloc_end (unat ctr) (p # ps) = alloc_end (alloc_end (unat ctr) [p]) ps"
    by (cases p) simp_all
  then have lt: "alloc_end (unat ctr) [p] < 2 ^ 64" and e: "alloc_end (alloc_end (unat ctr) [p]) ps < 2 ^ 64"
    using Cons.prems alloc_end_ge [of "alloc_end (unat ctr) [p]" ps] by simp_all
  note s = alloc_step_ids [OF step lt]
  have IH: "distinct (alloc_run ctr' ps)" "\<forall>i \<in> set (alloc_run ctr' ps). unat ctr' \<le> unat i"
    using Cons.IH [of ctr'] e s(1) by simp_all
  have "unat ctr \<le> unat ctr'" using s(1) alloc_end_ge [of "unat ctr" "[p]"] by simp
  moreover have "set ids \<inter> set (alloc_run ctr' ps) = {}" using s(3) IH(2) by fastforce
  ultimately show ?case using s(2,3) IH step by force
qed simp

section \<open>Properties\<close>



text \<open>
  A derived row id (of a join row, of a row padded with NULLs on one side, of an aggregate
  group) is never the reserved id of dummy rows, whatever the ids and values it is derived from.
\<close>

theorem derived_row_ids_not_dummy:
  "join_row_id l r \<noteq> DUMMY_ROW_ID \<and> left_join_null_row_id l \<noteq> DUMMY_ROW_ID
    \<and> right_join_null_row_id r \<noteq> DUMMY_ROW_ID \<and> aggregate_group_row_id k \<noteq> DUMMY_ROW_ID"
  by (simp add: join_row_id_def left_join_null_row_id_def right_join_null_row_id_def
      aggregate_group_row_id_def hash_row_id_def)

end
