(* ===== verification/Cynos_Posting.thy ===== *)
theory Cynos_Posting
  imports Cynos_Row
begin

text \<open>
  Posting lists of the GIN index (\<open>crates/index/src/gin/posting.rs\<close>): the row ids that carry one
  key, as a strictly ascending vector. The two-cursor loops of the code are recursions on the
  two remaining suffixes. The abstraction of a posting list is the set of its row ids; every
  operation is shown to keep the vector strictly ascending and to implement the set operation.
\<close>

section \<open>State and operations\<close>

record posting_list =
  pl_rows :: "row_id list"

definition pl_new :: posting_list where
  "pl_new = \<lparr>pl_rows = []\<rparr>"

text \<open>\<open>rows.windows(2).all(|window| window[0] < window[1])\<close>\<close>

fun is_strictly_sorted_unique :: "row_id list \<Rightarrow> bool" where
  "is_strictly_sorted_unique (a # b # xs) \<longleftrightarrow> a < b \<and> is_strictly_sorted_unique (b # xs)"
| "is_strictly_sorted_unique _ \<longleftrightarrow> True"

definition pl_from_sorted_unique :: "row_id list \<Rightarrow> posting_list" where
  "pl_from_sorted_unique rows =
     \<lparr>pl_rows = (if \<not> is_strictly_sorted_unique rows then remdups_adj (sort rows) else rows)\<rparr>"

definition pl_from_sorted_unique_unchecked :: "row_id list \<Rightarrow> posting_list" where
  "pl_from_sorted_unique_unchecked rows = \<lparr>pl_rows = rows\<rparr>"

definition pl_add :: "row_id \<Rightarrow> posting_list \<Rightarrow> posting_list" where
  "pl_add row_id p =
     (if pl_rows p = [] then p\<lparr>pl_rows := [row_id]\<rparr>
      else if last (pl_rows p) < row_id then p\<lparr>pl_rows := pl_rows p @ [row_id]\<rparr>
      else if row_id = last (pl_rows p) then p
      else case binary_search (pl_rows p) row_id of
             Inr _ \<Rightarrow> p
           | Inl index \<Rightarrow> p\<lparr>pl_rows := vec_insert index row_id (pl_rows p)\<rparr>)"

fun union_walk :: "row_id list \<Rightarrow> row_id list \<Rightarrow> row_id list" where
  "union_walk (l # ls) (r # rs) =
     (if l < r then l # union_walk ls (r # rs)
      else if r < l then r # union_walk (l # ls) rs
      else l # union_walk ls rs)"
| "union_walk ls [] = ls"
| "union_walk [] rs = rs"

definition pl_merge_sorted_unique :: "row_id list \<Rightarrow> posting_list \<Rightarrow> posting_list" where
  "pl_merge_sorted_unique other p =
     (if other = [] then p
      else if pl_rows p = [] then p\<lparr>pl_rows := other\<rparr>
      else if last (pl_rows p) < hd other then p\<lparr>pl_rows := pl_rows p @ other\<rparr>
      else p\<lparr>pl_rows := union_walk (pl_rows p) other\<rparr>)"

definition pl_merge :: "posting_list \<Rightarrow> posting_list \<Rightarrow> posting_list" where
  "pl_merge other p = pl_merge_sorted_unique (pl_rows other) p"

definition pl_remove :: "row_id \<Rightarrow> posting_list \<Rightarrow> bool \<times> posting_list" where
  "pl_remove row_id p =
     (case binary_search (pl_rows p) row_id of
        Inr index \<Rightarrow> (True, p\<lparr>pl_rows := vec_remove index (pl_rows p)\<rparr>)
      | Inl _ \<Rightarrow> (False, p))"

definition pl_contains :: "row_id \<Rightarrow> posting_list \<Rightarrow> bool" where
  "pl_contains row_id p \<longleftrightarrow> \<not> isl (binary_search (pl_rows p) row_id)"

definition pl_len :: "posting_list \<Rightarrow> nat" where
  "pl_len p = length (pl_rows p)"

definition pl_is_empty :: "posting_list \<Rightarrow> bool" where
  "pl_is_empty p \<longleftrightarrow> pl_rows p = []"

definition pl_to_vec :: "posting_list \<Rightarrow> row_id list" where
  "pl_to_vec p = pl_rows p"

fun intersect_walk :: "row_id list \<Rightarrow> row_id list \<Rightarrow> row_id list" where
  "intersect_walk (l # ls) (r # rs) =
     (if l < r then intersect_walk ls (r # rs)
      else if r < l then intersect_walk (l # ls) rs
      else l # intersect_walk ls rs)"
| "intersect_walk _ _ = []"

definition pl_intersect :: "posting_list \<Rightarrow> posting_list \<Rightarrow> posting_list" where
  "pl_intersect p other = pl_from_sorted_unique_unchecked (intersect_walk (pl_rows p) (pl_rows other))"

text \<open>\<open>candidates\<close> first: the cursor that moves is named from the other side.\<close>

fun candidates_walk :: "row_id list \<Rightarrow> row_id list \<Rightarrow> row_id list" where
  "candidates_walk (c # cs) (p # ps) =
     (if p < c then candidates_walk (c # cs) ps
      else if c < p then candidates_walk cs (p # ps)
      else c # candidates_walk cs ps)"
| "candidates_walk _ _ = []"

definition pl_intersect_sorted_candidates :: "posting_list \<Rightarrow> row_id list \<Rightarrow> row_id list" where
  "pl_intersect_sorted_candidates p candidates =
     (if candidates = [] \<or> pl_is_empty p then [] else candidates_walk candidates (pl_rows p))"

definition pl_union :: "posting_list \<Rightarrow> posting_list \<Rightarrow> posting_list" where
  "pl_union p other = pl_from_sorted_unique_unchecked (union_walk (pl_rows p) (pl_rows other))"

fun difference_walk :: "row_id list \<Rightarrow> row_id list \<Rightarrow> row_id list" where
  "difference_walk [] _ = []"
| "difference_walk ls [] = ls"
| "difference_walk (l # ls) (r # rs) =
     (if l < r then l # difference_walk ls (r # rs)
      else if r < l then difference_walk (l # ls) rs
      else difference_walk ls rs)"

definition pl_difference :: "posting_list \<Rightarrow> posting_list \<Rightarrow> posting_list" where
  "pl_difference p other = pl_from_sorted_unique_unchecked (difference_walk (pl_rows p) (pl_rows other))"

section \<open>Invariant and abstraction\<close>

definition pl_ok :: "posting_list \<Rightarrow> bool" where
  "pl_ok p \<longleftrightarrow> sorted_wrt (<) (pl_rows p)"

definition pl_set :: "posting_list \<Rightarrow> row_id set" where
  "pl_set p = set (pl_rows p)"

lemma is_strictly_sorted_unique_iff: "is_strictly_sorted_unique xs \<longleftrightarrow> sorted_wrt (<) xs"
proof (induction xs rule: is_strictly_sorted_unique.induct)
  case (1 a b xs)
  then show ?case by (auto intro: less_trans)
qed auto

lemma sorted_remdups_adj_strict: "sorted xs \<Longrightarrow> sorted_wrt (<) (remdups_adj xs)"
proof (induction xs rule: remdups_adj.induct)
  case (3 x y xs)
  show ?case
  proof (cases "x = y")
    case False
    with "3.prems" have "x < z" if "z \<in> set (y # xs)" for z using that by force
    then have "x < z" if "z \<in> set (remdups_adj (y # xs))" for z using that by simp
    moreover have "sorted_wrt (<) (remdups_adj (y # xs))" using "3.IH"(2) "3.prems" False by simp
    ultimately show ?thesis using False by (simp del: remdups_adj.simps add: remdups_adj.simps(3))
  qed (use 3 in auto)
qed auto

lemma pl_from_sorted_unique_ok: "pl_ok (pl_from_sorted_unique rows)"
  by (simp add: pl_ok_def pl_from_sorted_unique_def is_strictly_sorted_unique_iff
      sorted_remdups_adj_strict)

text \<open>The walks on strictly ascending lists: the result is strictly ascending and its set is known.\<close>

lemma union_walk_set: "set (union_walk xs ys) = set xs \<union> set ys"
  by (induction xs ys rule: union_walk.induct) auto

lemma union_walk_sorted:
  "sorted_wrt (<) xs \<Longrightarrow> sorted_wrt (<) ys \<Longrightarrow> sorted_wrt (<) (union_walk xs ys)"
proof (induction xs ys rule: union_walk.induct)
  case (1 l ls r rs)
  then show ?case by (auto simp: union_walk_set intro: less_trans)
qed auto

lemma intersect_walk_subset: "set (intersect_walk xs ys) \<subseteq> set xs \<inter> set ys"
  by (induction xs ys rule: intersect_walk.induct) auto

lemma intersect_walk_set:
  "sorted_wrt (<) xs \<Longrightarrow> sorted_wrt (<) ys \<Longrightarrow> set (intersect_walk xs ys) = set xs \<inter> set ys"
proof (induction xs ys rule: intersect_walk.induct)
  case (1 l ls r rs)
  then show ?case by (auto dest: less_asym)
qed auto

lemma intersect_walk_sorted:
  "sorted_wrt (<) xs \<Longrightarrow> sorted_wrt (<) (intersect_walk xs ys)"
proof (induction xs ys rule: intersect_walk.induct)
  case (1 l ls r rs)
  then show ?case using intersect_walk_subset [of ls rs] by auto
qed auto

lemma candidates_walk_eq: "candidates_walk cs ps = intersect_walk cs ps"
  by (induction cs ps rule: candidates_walk.induct) auto

lemma difference_walk_subset: "set (difference_walk xs ys) \<subseteq> set xs"
  by (induction xs ys rule: difference_walk.induct) auto

lemma difference_walk_set:
  "sorted_wrt (<) xs \<Longrightarrow> sorted_wrt (<) ys \<Longrightarrow> set (difference_walk xs ys) = set xs - set ys"
proof (induction xs ys rule: difference_walk.induct)
  case (3 l ls r rs)
  consider (lt) "l < r" | (gt) "r < l" "\<not> l < r" | (eq) "l = r" by force
  then show ?case
  proof cases
    case lt
    then have "l \<notin> set (r # rs)" using "3.prems" by force
    then show ?thesis using lt 3 by auto
  next
    case gt
    then have "r \<notin> set (l # ls)" using "3.prems" by force
    then show ?thesis using gt 3 by auto
  next
    case eq
    then have "l \<notin> set ls" using "3.prems" by force
    then show ?thesis using eq 3 by auto
  qed
qed auto

lemma difference_walk_sorted:
  "sorted_wrt (<) xs \<Longrightarrow> sorted_wrt (<) (difference_walk xs ys)"
proof (induction xs ys rule: difference_walk.induct)
  case (3 l ls r rs)
  then show ?case using difference_walk_subset [of ls "r # rs"] by auto
qed auto

lemma last_less_hd_sorted:
  assumes "sorted_wrt (<) xs" "sorted_wrt (<) ys" "xs \<noteq> []" "ys \<noteq> []" "last xs < hd (ys :: row_id list)"
  shows "sorted_wrt (<) (xs @ ys)"
proof -
  have "x \<le> last xs" if "x \<in> set xs" for x
    using that assms(1,3) by (induction xs) (auto split: if_splits intro: less_imp_le)
  moreover have "hd ys \<le> y" if "y \<in> set ys" for y
    using that assms(2,4) by (cases ys) (auto intro: less_imp_le)
  ultimately have "x < y" if "x \<in> set xs" "y \<in> set ys" for x y
    using that assms(5) by (meson le_less_trans less_le_trans)
  then show ?thesis using assms by (simp add: sorted_wrt_append)
qed

lemmas pl_defs = pl_ok_def pl_set_def pl_from_sorted_unique_unchecked_def

lemma pl_add_ok:
  assumes "pl_ok p"
  shows "pl_ok (pl_add r p) \<and> pl_set (pl_add r p) = insert r (pl_set p)"
proof (cases "pl_rows p = [] \<or> last (pl_rows p) < r \<or> r = last (pl_rows p)")
  case True
  then show ?thesis
    using assms last_less_hd_sorted [of "pl_rows p" "[r]"]
    by (auto simp: pl_add_def pl_defs)
next
  case False
  then show ?thesis
  proof (cases "binary_search (pl_rows p) r")
    case (Inl i)
    note b = binary_search_strict(2) [OF assms [unfolded pl_ok_def] Inl]
    show ?thesis
      using False Inl b assms sorted_wrt_vec_insert [of "pl_rows p" i r]
      by (simp add: pl_add_def pl_defs)
  next
    case (Inr i)
    note b = binary_search_strict(1) [OF assms [unfolded pl_ok_def] Inr]
    then have "r \<in> set (pl_rows p)" by auto
    then show ?thesis
      using False Inr assms by (auto simp: pl_add_def pl_defs)
  qed
qed

lemma pl_remove_ok:
  assumes "pl_ok p" "pl_remove r p = (b, p')"
  shows "pl_ok p' \<and> pl_set p' = pl_set p - {r} \<and> (b \<longleftrightarrow> r \<in> pl_set p)"
proof (cases "binary_search (pl_rows p) r")
  case (Inl i)
  then have "r \<notin> set (pl_rows p)" using binary_search_mem [OF assms(1) [unfolded pl_ok_def], of r] by auto
  then show ?thesis using Inl assms by (auto simp: pl_remove_def pl_defs)
next
  case (Inr i)
  note ix = binary_search_strict(1) [OF assms(1) [unfolded pl_ok_def] Inr]
  have "distinct (pl_rows p)" using assms(1) by (simp add: pl_ok_def strict_sorted_iff)
  then have s: "set (vec_remove i (pl_rows p)) = set (pl_rows p) - {r}"
    using set_vec_remove_distinct [of "pl_rows p" i] ix by metis
  have "r \<in> set (pl_rows p)" using ix nth_mem by blast
  moreover have "b" "p' = p\<lparr>pl_rows := vec_remove i (pl_rows p)\<rparr>"
    using assms(2) Inr by (simp_all add: pl_remove_def)
  moreover have "sorted_wrt (<) (vec_remove i (pl_rows p))"
    using assms(1) by (intro sorted_wrt_vec_remove) (simp add: pl_ok_def)
  ultimately show ?thesis using s by (simp add: pl_defs)
qed

lemma pl_contains_iff: "pl_ok p \<Longrightarrow> pl_contains r p \<longleftrightarrow> r \<in> pl_set p"
  using binary_search_mem [of "pl_rows p" r]
  by (cases "binary_search (pl_rows p) r") (auto simp: pl_contains_def pl_defs)

lemma pl_merge_sorted_unique_ok:
  assumes "pl_ok p" "sorted_wrt (<) other"
  shows "pl_ok (pl_merge_sorted_unique other p)
    \<and> pl_set (pl_merge_sorted_unique other p) = pl_set p \<union> set other"
proof (cases "other = [] \<or> pl_rows p = []")
  case True
  then show ?thesis using assms by (auto simp: pl_merge_sorted_unique_def pl_defs)
next
  case False
  show ?thesis
  proof (cases "last (pl_rows p) < hd other")
    case True
    then have "sorted_wrt (<) (pl_rows p @ other)"
      using last_less_hd_sorted False assms by (simp only: pl_ok_def) blast
    then show ?thesis using True False by (simp add: pl_merge_sorted_unique_def pl_defs)
  next
    case nl: False
    have "sorted_wrt (<) (union_walk (pl_rows p) other)"
      by (rule union_walk_sorted [OF assms(1) [unfolded pl_ok_def] assms(2)])
    then show ?thesis using nl False by (simp add: pl_merge_sorted_unique_def pl_defs union_walk_set)
  qed
qed

lemma pl_intersect_candidates_eq:
  "pl_intersect_sorted_candidates p cs = intersect_walk cs (pl_rows p)"
  by (auto simp: pl_intersect_sorted_candidates_def candidates_walk_eq pl_is_empty_def neq_Nil_conv)

lemma pl_to_vec_eq: "pl_ok p \<Longrightarrow> pl_to_vec p = sorted_list_of_set (pl_set p)"
  by (simp add: pl_to_vec_def pl_defs strict_sorted_iff sorted_list_of_set.idem_if_sorted_distinct)

section \<open>Properties\<close>

text \<open>
  C18. A posting list is a set: each update and each combination keeps the vector strictly
  ascending and has on the set of row ids the effect its name says, the removal reports whether the
  row was there, and the membership test by binary search is exact.
\<close>

theorem posting_list_refines_set:
  assumes "pl_ok p" "pl_ok q"
  shows "(pl_ok (pl_add r p) \<and> pl_set (pl_add r p) = insert r (pl_set p))
    \<and> (pl_ok (snd (pl_remove r p)) \<and> pl_set (snd (pl_remove r p)) = pl_set p - {r}
      \<and> (fst (pl_remove r p) \<longleftrightarrow> r \<in> pl_set p))
    \<and> (pl_ok (pl_merge q p) \<and> pl_set (pl_merge q p) = pl_set p \<union> pl_set q)
    \<and> (pl_ok (pl_union p q) \<and> pl_set (pl_union p q) = pl_set p \<union> pl_set q)
    \<and> (pl_ok (pl_intersect p q) \<and> pl_set (pl_intersect p q) = pl_set p \<inter> pl_set q)
    \<and> (pl_ok (pl_difference p q) \<and> pl_set (pl_difference p q) = pl_set p - pl_set q)
    \<and> (pl_contains r p \<longleftrightarrow> r \<in> pl_set p)
    \<and> (pl_to_vec p = sorted_list_of_set (pl_set p))"
proof -
  note ok = assms [unfolded pl_ok_def]
  have p1: "pl_ok (pl_add r p) \<and> pl_set (pl_add r p) = insert r (pl_set p)"
    by (rule pl_add_ok [OF assms(1)])
  have p2: "pl_ok (snd (pl_remove r p)) \<and> pl_set (snd (pl_remove r p)) = pl_set p - {r}
      \<and> (fst (pl_remove r p) \<longleftrightarrow> r \<in> pl_set p)"
    by (rule pl_remove_ok [OF assms(1)]) simp
  have p3: "pl_ok (pl_merge q p) \<and> pl_set (pl_merge q p) = pl_set p \<union> pl_set q"
    using pl_merge_sorted_unique_ok [OF assms(1) ok(2)] by (simp add: pl_merge_def pl_set_def)
  have p4: "pl_ok (pl_union p q) \<and> pl_set (pl_union p q) = pl_set p \<union> pl_set q"
    using union_walk_sorted [OF ok] by (simp add: pl_union_def pl_defs union_walk_set)
  have p5: "pl_ok (pl_intersect p q) \<and> pl_set (pl_intersect p q) = pl_set p \<inter> pl_set q"
    using intersect_walk_sorted [OF ok(1)] intersect_walk_set [OF ok] by (simp add: pl_intersect_def pl_defs)
  have p6: "pl_ok (pl_difference p q) \<and> pl_set (pl_difference p q) = pl_set p - pl_set q"
    using difference_walk_sorted [OF ok(1)] difference_walk_set [OF ok] by (simp add: pl_difference_def pl_defs)
  have p7: "pl_contains r p \<longleftrightarrow> r \<in> pl_set p" by (rule pl_contains_iff [OF assms(1)])
  have p8: "pl_to_vec p = sorted_list_of_set (pl_set p)" by (rule pl_to_vec_eq [OF assms(1)])
  show ?thesis using p1 p2 p3 p4 p5 p6 p7 p8 by blast
qed

theorem posting_list_refines_set_witness:
  "pl_set (pl_intersect \<lparr>pl_rows = [1, 3, 5]\<rparr> \<lparr>pl_rows = [3, 4, 5]\<rparr>) = {3, 5}"
  using posting_list_refines_set [of "\<lparr>pl_rows = [1, 3, 5]\<rparr>" "\<lparr>pl_rows = [3, 4, 5]\<rparr>"]
  by (auto simp: pl_ok_def pl_set_def)

text \<open>
  Intersecting a strictly ascending candidate vector with a posting list gives exactly the
  candidates that the list contains, in their order; the order of the two sides does not matter.
\<close>

theorem posting_candidates_filter:
  assumes "pl_ok p" "sorted_wrt (<) cs"
  shows "pl_intersect_sorted_candidates p cs = filter (\<lambda>c. pl_contains c p) cs
    \<and> pl_intersect_sorted_candidates p cs = pl_rows (pl_intersect p \<lparr>pl_rows = cs\<rparr>)"
proof -
  have eq: "xs = ys" if "sorted_wrt (<) xs" "sorted_wrt (<) ys" "set xs = set ys" for xs ys :: "row_id list"
    by (rule strict_sorted_equal [OF that(2,1) that(3)])
  have "pl_intersect_sorted_candidates p cs = filter (\<lambda>c. pl_contains c p) cs"
    unfolding pl_intersect_candidates_eq
    using assms intersect_walk_sorted intersect_walk_set
    by (intro eq) (auto simp: pl_contains_iff pl_ok_def pl_set_def sorted_wrt_filter)
  moreover have "pl_intersect_sorted_candidates p cs = pl_rows (pl_intersect p \<lparr>pl_rows = cs\<rparr>)"
    unfolding pl_intersect_candidates_eq
    using assms intersect_walk_sorted intersect_walk_set
    by (intro eq) (auto simp: pl_intersect_def pl_defs)
  ultimately show ?thesis by blast
qed

theorem posting_candidates_filter_witness:
  "pl_intersect_sorted_candidates \<lparr>pl_rows = [1, 3, 5]\<rparr> [3, 4] = [3]"
  using posting_candidates_filter [of "\<lparr>pl_rows = [1, 3, 5]\<rparr>" "[3, 4]"]
  by (simp add: pl_ok_def pl_intersect_sorted_candidates_def pl_is_empty_def)

end
