(* ===== verification/Cynos_Index.thy ===== *)
theory Cynos_Index
  imports Cynos_Row
begin

text \<open>
  What every index shares (\<open>crates/index/src/traits.rs\<close>, \<open>stats.rs\<close>): key ranges, the statistics
  counters, the error type, the \<open>Index\<close> trait as a record of operations, and the contract that
  the users of the trait rely on, as locales. Keys are of a linear order whose equality is
  identity, which is what the trait bounds \<open>K: Eq + Ord\<close> promise. A \<open>usize\<close> counter is a 64-bit
  word; a position or a limit that is only compared and subtracted with saturation is a natural
  number.
\<close>

section \<open>Key ranges\<close>

datatype 'k key_range =
    All
  | Only 'k
  | LowerBound 'k bool
  | UpperBound 'k bool
  | Bound 'k 'k bool bool

fun kr_is_only :: "'k key_range \<Rightarrow> bool" where
  "kr_is_only (Only _) = True"
| "kr_is_only _ = False"

fun kr_is_all :: "'k key_range \<Rightarrow> bool" where
  "kr_is_all All = True"
| "kr_is_all _ = False"

fun kr_contains :: "'k::linorder key_range \<Rightarrow> 'k \<Rightarrow> bool" where
  "kr_contains All key = True"
| "kr_contains (Only k) key \<longleftrightarrow> key = k"
| "kr_contains (LowerBound val exclusive) key \<longleftrightarrow> (if exclusive then key > val else key \<ge> val)"
| "kr_contains (UpperBound val exclusive) key \<longleftrightarrow> (if exclusive then key < val else key \<le> val)"
| "kr_contains (Bound lower upper lower_exclusive upper_exclusive) key \<longleftrightarrow>
     (if lower_exclusive then key > lower else key \<ge> lower)
     \<and> (if upper_exclusive then key < upper else key \<le> upper)"

fun kr_overlaps :: "'k::linorder key_range \<Rightarrow> 'k key_range \<Rightarrow> bool" where
  "kr_overlaps All _ \<longleftrightarrow> True"
| "kr_overlaps _ All \<longleftrightarrow> True"
| "kr_overlaps (Only k1) (Only k2) \<longleftrightarrow> k1 = k2"
| "kr_overlaps (Only k) rng \<longleftrightarrow> kr_contains rng k"
| "kr_overlaps rng (Only k) \<longleftrightarrow> kr_contains rng k"
| "kr_overlaps (LowerBound _ _) (LowerBound _ _) \<longleftrightarrow> True"
| "kr_overlaps (UpperBound _ _) (UpperBound _ _) \<longleftrightarrow> True"
| "kr_overlaps (LowerBound lower lower_ex) (UpperBound upper upper_ex) \<longleftrightarrow>
     (if lower_ex \<or> upper_ex then lower < upper else lower \<le> upper)"
| "kr_overlaps (UpperBound upper upper_ex) (LowerBound lower lower_ex) \<longleftrightarrow>
     (if lower_ex \<or> upper_ex then lower < upper else lower \<le> upper)"
| "kr_overlaps (Bound l1 u1 le1 ue1) (Bound l2 u2 le2 ue2) \<longleftrightarrow>
     (let first_before_second = (if ue1 \<or> le2 then u1 \<le> l2 else u1 < l2);
          second_before_first = (if ue2 \<or> le1 then u2 \<le> l1 else u2 < l1)
      in \<not> first_before_second \<and> \<not> second_before_first)"
| "kr_overlaps (Bound _ upper _ upper_exclusive) (LowerBound val exclusive) \<longleftrightarrow>
     (if upper_exclusive \<or> exclusive then upper > val else upper \<ge> val)"
| "kr_overlaps (LowerBound val exclusive) (Bound _ upper _ upper_exclusive) \<longleftrightarrow>
     (if upper_exclusive \<or> exclusive then upper > val else upper \<ge> val)"
| "kr_overlaps (Bound lower _ lower_exclusive _) (UpperBound val exclusive) \<longleftrightarrow>
     (if lower_exclusive \<or> exclusive then lower < val else lower \<le> val)"
| "kr_overlaps (UpperBound val exclusive) (Bound lower _ lower_exclusive _) \<longleftrightarrow>
     (if lower_exclusive \<or> exclusive then lower < val else lower \<le> val)"

section \<open>Statistics\<close>

record index_stats =
  is_total_rows :: u64
  is_max_key_encountered :: u64

definition stats_new :: index_stats where
  "stats_new = \<lparr>is_total_rows = 0, is_max_key_encountered = 0\<rparr>"

definition stats_with_values :: "u64 \<Rightarrow> u64 \<Rightarrow> index_stats" where
  "stats_with_values total_rows max_key =
     \<lparr>is_total_rows = total_rows, is_max_key_encountered = max_key\<rparr>"

definition stats_add_rows :: "u64 \<Rightarrow> index_stats \<Rightarrow> index_stats" where
  "stats_add_rows n s = s\<lparr>is_total_rows := is_total_rows s + n\<rparr>"

definition stats_remove_rows :: "u64 \<Rightarrow> index_stats \<Rightarrow> index_stats" where
  "stats_remove_rows n s = s\<lparr>is_total_rows := is_total_rows s - n\<rparr>"

definition stats_set_total_rows :: "u64 \<Rightarrow> index_stats \<Rightarrow> index_stats" where
  "stats_set_total_rows n s = s\<lparr>is_total_rows := n\<rparr>"

definition stats_update_max_key :: "u64 \<Rightarrow> index_stats \<Rightarrow> index_stats" where
  "stats_update_max_key key s =
     s\<lparr>is_max_key_encountered := max (is_max_key_encountered s) key\<rparr>"

definition stats_clear :: "index_stats \<Rightarrow> index_stats" where
  "stats_clear s = s\<lparr>is_total_rows := 0\<rparr>"

lemma stats_total_rows [simp]:
  "is_total_rows stats_new = 0"
  "is_total_rows (stats_add_rows n s) = is_total_rows s + n"
  "is_total_rows (stats_remove_rows n s) = is_total_rows s - n"
  "is_total_rows (stats_clear s) = 0"
  by (simp_all add: stats_new_def stats_add_rows_def stats_remove_rows_def stats_clear_def)

section \<open>The trait\<close>

datatype index_error = DuplicateKey | KeyNotFound

text \<open>The operations of \<open>Index<K>\<close> and \<open>RangeIndex<K>\<close> that an implementation provides.\<close>

record ('k, 'i) index_impl =
  ix_add :: "'k \<Rightarrow> row_id \<Rightarrow> 'i \<Rightarrow> (index_error + unit) \<times> 'i"
  ix_set :: "'k \<Rightarrow> row_id \<Rightarrow> 'i \<Rightarrow> 'i"
  ix_get :: "'k \<Rightarrow> 'i \<Rightarrow> row_id list"
  ix_remove :: "'k \<Rightarrow> row_id option \<Rightarrow> 'i \<Rightarrow> 'i"
  ix_contains_key :: "'k \<Rightarrow> 'i \<Rightarrow> bool"
  ix_len :: "'i \<Rightarrow> u64"
  ix_clear :: "'i \<Rightarrow> 'i"
  ix_min :: "'i \<Rightarrow> ('k \<times> row_id list) option"
  ix_max :: "'i \<Rightarrow> ('k \<times> row_id list) option"
  ix_cost :: "'k key_range \<Rightarrow> 'i \<Rightarrow> u64"
  ix_get_range :: "'k key_range option \<Rightarrow> bool \<Rightarrow> nat option \<Rightarrow> nat \<Rightarrow> 'i \<Rightarrow> row_id list"

text \<open>The provided methods: batches are loops, the batch of insertions stops at the first error.\<close>

fun default_add_batch ::
  "('k, 'i) index_impl \<Rightarrow> ('k \<times> row_id) list \<Rightarrow> 'i \<Rightarrow> (index_error + unit) \<times> 'i" where
  "default_add_batch I [] i = (Inr (), i)"
| "default_add_batch I ((key, row_id) # entries) i =
     (case ix_add I key row_id i of
        (Inl e, i') \<Rightarrow> (Inl e, i')
      | (Inr _, i') \<Rightarrow> default_add_batch I entries i')"

fun default_remove_batch :: "('k, 'i) index_impl \<Rightarrow> ('k \<times> row_id) list \<Rightarrow> 'i \<Rightarrow> 'i" where
  "default_remove_batch I [] i = i"
| "default_remove_batch I ((key, row_id) # entries) i =
     default_remove_batch I entries (ix_remove I key (Some row_id) i)"

definition default_is_empty :: "('k, 'i) index_impl \<Rightarrow> 'i \<Rightarrow> bool" where
  "default_is_empty I i \<longleftrightarrow> ix_len I i = 0"

text \<open>\<open>iter.skip(skip).take(limit)\<close>\<close>

definition page :: "nat option \<Rightarrow> nat \<Rightarrow> 'a list \<Rightarrow> 'a list" where
  "page limit skip xs = (case limit of Some l \<Rightarrow> take l (drop skip xs) | None \<Rightarrow> drop skip xs)"

section \<open>The contract\<close>

text \<open>
  An index is a map from keys to vectors of row ids, the absent key having the empty vector.
  Row ids come in the order they were added; a unique index refuses a key that has one.
\<close>

definition add_refused :: "bool \<Rightarrow> row_id list \<Rightarrow> bool" where
  "add_refused uniq held \<longleftrightarrow> uniq \<and> held \<noteq> []"

locale index_contract =
  fixes I :: "('k::linorder, 'i) index_impl"
    and inv :: "'i \<Rightarrow> bool"
    and uniq :: "'i \<Rightarrow> bool"
  assumes inv_add: "inv i \<Longrightarrow> inv (snd (ix_add I k v i)) \<and> uniq (snd (ix_add I k v i)) = uniq i"
    and add_result: "inv i \<Longrightarrow> fst (ix_add I k v i)
        = (if add_refused (uniq i) (ix_get I k i) then Inl DuplicateKey else Inr ())"
    and get_add: "inv i \<Longrightarrow> ix_get I k' (snd (ix_add I k v i))
        = (if k' = k \<and> \<not> add_refused (uniq i) (ix_get I k i) then ix_get I k i @ [v]
           else ix_get I k' i)"
    and inv_set: "inv i \<Longrightarrow> inv (ix_set I k v i) \<and> uniq (ix_set I k v i) = uniq i"
    and get_set: "inv i \<Longrightarrow> ix_get I k' (ix_set I k v i) = (if k' = k then [v] else ix_get I k' i)"
    and inv_remove: "inv i \<Longrightarrow> inv (ix_remove I k w i) \<and> uniq (ix_remove I k w i) = uniq i"
    and get_remove_all: "inv i \<Longrightarrow> ix_get I k' (ix_remove I k None i) = (if k' = k then [] else ix_get I k' i)"
    and get_remove_one: "inv i \<Longrightarrow> ix_get I k' (ix_remove I k (Some v) i)
        = (if k' = k then filter (\<lambda>x. x \<noteq> v) (ix_get I k i) else ix_get I k' i)"
    and contains_iff: "inv i \<Longrightarrow> ix_contains_key I k i \<longleftrightarrow> ix_get I k i \<noteq> []"
    and inv_clear: "inv i \<Longrightarrow> inv (ix_clear I i) \<and> uniq (ix_clear I i) = uniq i"
    and get_clear: "inv i \<Longrightarrow> ix_get I k (ix_clear I i) = []"
begin

text \<open>Uniqueness is kept by every operation: no key of a unique index has two row ids.\<close>

definition single :: "'i \<Rightarrow> bool" where
  "single i \<longleftrightarrow> (\<forall>k. length (ix_get I k i) \<le> 1)"

lemma single_add: "inv i \<Longrightarrow> uniq i \<Longrightarrow> single i \<Longrightarrow> single (snd (ix_add I k v i))"
  by (auto simp: single_def get_add add_refused_def)

lemma single_set: "inv i \<Longrightarrow> single i \<Longrightarrow> single (ix_set I k v i)"
  by (auto simp: single_def get_set)

lemma single_remove: "inv i \<Longrightarrow> single i \<Longrightarrow> single (ix_remove I k w i)"
  by (cases w) (auto simp: single_def get_remove_all get_remove_one intro: order_trans [OF length_filter_le])

text \<open>The loop of insertions on an index that is not unique appends the row ids of each key.\<close>

lemma default_add_batch_get:
  "inv i \<Longrightarrow> \<not> uniq i \<Longrightarrow>
     fst (default_add_batch I es i) = Inr ()
     \<and> inv (snd (default_add_batch I es i))
     \<and> ix_get I k (snd (default_add_batch I es i))
        = ix_get I k i @ map snd (filter (\<lambda>e. fst e = k) es)"
proof (induction es arbitrary: i)
  case (Cons e es)
  obtain key r where e: "e = (key, r)" by fastforce
  have "fst (ix_add I key r i) = Inr ()"
    using Cons.prems by (simp add: add_result add_refused_def)
  then obtain i' where i': "ix_add I key r i = (Inr (), i')" by (metis prod.collapse)
  have "inv i'" "\<not> uniq i'" using inv_add [OF Cons.prems(1), of key r] Cons.prems(2) i' by simp_all
  moreover have "ix_get I k i' = (if k = key then ix_get I k i @ [r] else ix_get I k i)"
    using get_add [OF Cons.prems(1), of k key r] Cons.prems(2) i' by (auto simp: add_refused_def)
  ultimately show ?case using Cons.IH [of i'] e i' by simp
qed simp

lemma default_remove_batch_get:
  "inv i \<Longrightarrow> inv (default_remove_batch I es i)
     \<and> ix_get I k (default_remove_batch I es i) = filter (\<lambda>v. (k, v) \<notin> set es) (ix_get I k i)"
proof (induction es arbitrary: i)
  case (Cons e es)
  obtain key r where e: "e = (key, r)" by fastforce
  have "inv (ix_remove I key (Some r) i)" using inv_remove Cons.prems by blast
  then have "ix_get I k (default_remove_batch I (e # es) i)
      = filter (\<lambda>v. (k, v) \<notin> set es) (ix_get I k (ix_remove I key (Some r) i))"
    and "inv (default_remove_batch I (e # es) i)"
    using Cons.IH e by simp_all
  then show ?case using Cons.prems e by (auto simp: get_remove_one intro!: filter_cong)
qed simp

end

text \<open>A contract for indexes that also count their row ids.\<close>

locale counted_index = index_contract +
  assumes len_add: "inv i \<Longrightarrow> ix_len I (snd (ix_add I k v i))
      = (if add_refused (uniq i) (ix_get I k i) then ix_len I i else ix_len I i + 1)"
    and len_remove: "inv i \<Longrightarrow> ix_len I (ix_remove I k w i)
      = ix_len I i - of_nat (length (ix_get I k i) - length (ix_get I k (ix_remove I k w i)))"
    and len_set: "inv i \<Longrightarrow> ix_len I (ix_set I k v i) = ix_len I i - of_nat (length (ix_get I k i)) + 1"
    and len_clear: "inv i \<Longrightarrow> ix_len I (ix_clear I i) = 0"
begin

text \<open>Adding a row id under a key that does not have it, then removing it, restores the count.\<close>

lemma len_add_remove:
  assumes "inv i" "\<not> add_refused (uniq i) (ix_get I k i)" "v \<notin> set (ix_get I k i)"
  shows "ix_len I (ix_remove I k (Some v) (snd (ix_add I k v i))) = ix_len I i"
proof -
  have inv': "inv (snd (ix_add I k v i))" using inv_add assms(1) by blast
  have "filter (\<lambda>x. x \<noteq> v) (ix_get I k i @ [v]) = ix_get I k i"
    using assms(3) by (auto intro: filter_True)
  then show ?thesis using assms inv' by (simp add: len_remove len_add get_remove_one get_add)
qed

end

text \<open>A contract for range scans: the keys in order, each with its row ids, then paged.\<close>

locale range_index = index_contract +
  fixes keys :: "'b \<Rightarrow> 'a list"
  assumes keys_sorted: "inv i \<Longrightarrow> sorted_wrt (<) (keys i)"
    and keys_get: "inv i \<Longrightarrow> set (keys i) = {k. ix_get I k i \<noteq> []}"
    and get_range_all: "inv i \<Longrightarrow> rng = None \<or> rng = Some All \<Longrightarrow> ix_get_range I rng False limit skip i
      = page limit skip (concat (map (\<lambda>k. ix_get I k i) (keys i)))"
    and get_range_some: "inv i \<Longrightarrow> ix_get_range I (Some r) False limit skip i
      = page limit skip (concat (map (\<lambda>k. ix_get I k i) (filter (kr_contains r) (keys i))))"
begin

lemma get_range_mem:
  assumes "inv i"
  shows "v \<in> set (ix_get_range I (Some r) False None 0 i) \<longleftrightarrow> (\<exists>k. kr_contains r k \<and> v \<in> set (ix_get I k i))"
proof -
  have "k \<in> set (keys i)" if "v \<in> set (ix_get I k i)" for k
    using that keys_get [OF assms] by force
  then show ?thesis using assms by (auto simp: get_range_some page_def)
qed

end

section \<open>Key ranges as bounds\<close>

text \<open>A range is a conjunction of lower and upper bounds, each a key and whether it is excluded.\<close>

fun kr_lows :: "'k key_range \<Rightarrow> ('k \<times> bool) list" where
  "kr_lows All = []"
| "kr_lows (Only k) = [(k, False)]"
| "kr_lows (LowerBound v e) = [(v, e)]"
| "kr_lows (UpperBound v e) = []"
| "kr_lows (Bound l u le ue) = [(l, le)]"

fun kr_ups :: "'k key_range \<Rightarrow> ('k \<times> bool) list" where
  "kr_ups All = []"
| "kr_ups (Only k) = [(k, False)]"
| "kr_ups (LowerBound v e) = []"
| "kr_ups (UpperBound v e) = [(v, e)]"
| "kr_ups (Bound l u le ue) = [(u, ue)]"

definition lo_ok :: "'k::linorder \<times> bool \<Rightarrow> 'k \<Rightarrow> bool" where
  "lo_ok b k \<longleftrightarrow> (if snd b then fst b < k else fst b \<le> k)"

definition up_ok :: "'k::linorder \<times> bool \<Rightarrow> 'k \<Rightarrow> bool" where
  "up_ok b k \<longleftrightarrow> (if snd b then k < fst b else k \<le> fst b)"

definition bounds_meet :: "'k::linorder \<times> bool \<Rightarrow> 'k \<times> bool \<Rightarrow> bool" where
  "bounds_meet l u \<longleftrightarrow> (if snd l \<or> snd u then fst l < fst u else fst l \<le> fst u)"

lemma kr_contains_bounds:
  "kr_contains r k \<longleftrightarrow> (\<forall>b \<in> set (kr_lows r). lo_ok b k) \<and> (\<forall>b \<in> set (kr_ups r). up_ok b k)"
  by (cases r) (auto simp: lo_ok_def up_ok_def)

lemma kr_overlaps_bounds:
  "kr_overlaps r s \<longleftrightarrow> (\<forall>l \<in> set (kr_lows r). \<forall>u \<in> set (kr_ups s). bounds_meet l u)
     \<and> (\<forall>l \<in> set (kr_lows s). \<forall>u \<in> set (kr_ups r). bounds_meet l u)"
  by (cases r; cases s) (auto simp: bounds_meet_def split: if_splits)

lemma bounds_meet_if: "lo_ok l k \<Longrightarrow> up_ok u k \<Longrightarrow> bounds_meet l u"
  by (auto simp: lo_ok_def up_ok_def bounds_meet_def split: if_splits)

lemma strongest_low:
  "ls \<noteq> [] \<Longrightarrow> \<exists>l \<in> set ls. \<forall>l' \<in> set ls. \<forall>k. lo_ok l k \<longrightarrow> lo_ok l' k"
proof (induction ls rule: list_nonempty_induct)
  case (cons x xs)
  then obtain l where l: "l \<in> set xs" "\<forall>l' \<in> set xs. \<forall>k. lo_ok l k \<longrightarrow> lo_ok l' k" by blast
  have "(\<forall>k. lo_ok l k \<longrightarrow> lo_ok x k) \<or> (\<forall>k. lo_ok x k \<longrightarrow> lo_ok l k)"
    by (auto simp: lo_ok_def)
  then show ?case
  proof
    assume "\<forall>k. lo_ok l k \<longrightarrow> lo_ok x k"
    then show ?thesis using l by (intro bexI [of _ l]) auto
  next
    assume "\<forall>k. lo_ok x k \<longrightarrow> lo_ok l k"
    then show ?thesis using l(2) by (intro bexI [of _ x]) auto
  qed
qed simp

lemma strongest_up:
  "us \<noteq> [] \<Longrightarrow> \<exists>u \<in> set us. \<forall>u' \<in> set us. \<forall>k. up_ok u k \<longrightarrow> up_ok u' k"
proof (induction us rule: list_nonempty_induct)
  case (cons x xs)
  then obtain u where u: "u \<in> set xs" "\<forall>u' \<in> set xs. \<forall>k. up_ok u k \<longrightarrow> up_ok u' k" by blast
  have "(\<forall>k. up_ok u k \<longrightarrow> up_ok x k) \<or> (\<forall>k. up_ok x k \<longrightarrow> up_ok u k)"
    by (auto simp: up_ok_def)
  then show ?case
  proof
    assume "\<forall>k. up_ok u k \<longrightarrow> up_ok x k"
    then show ?thesis using u by (intro bexI [of _ u]) auto
  next
    assume "\<forall>k. up_ok x k \<longrightarrow> up_ok u k"
    then show ?thesis using u(2) by (intro bexI [of _ x]) auto
  qed
qed simp

lemma bounds_meet_point:
  fixes l u :: "'k::unbounded_dense_linorder \<times> bool"
  assumes "bounds_meet l u"
  shows "\<exists>k. lo_ok l k \<and> up_ok u k"
proof (cases "fst l < fst u")
  case True
  then obtain k where "fst l < k" "k < fst u" using dense by blast
  then show ?thesis by (intro exI [of _ k]) (auto simp: lo_ok_def up_ok_def)
next
  case False
  then show ?thesis using assms
    by (intro exI [of _ "fst l"]) (auto simp: lo_ok_def up_ok_def bounds_meet_def split: if_splits)
qed

text \<open>Bounds that meet in pairs have a common key, in a dense order without end points.\<close>

lemma bounds_common:
  fixes ls us :: "('k::unbounded_dense_linorder \<times> bool) list"
  assumes "\<forall>l \<in> set ls. \<forall>u \<in> set us. bounds_meet l u"
  shows "\<exists>k. (\<forall>l \<in> set ls. lo_ok l k) \<and> (\<forall>u \<in> set us. up_ok u k)"
proof -
  have lo_ok_ex: "\<exists>k. lo_ok l k" for l :: "'k \<times> bool"
    using gt_ex [of "fst l"] by (auto simp: lo_ok_def intro: less_imp_le)
  have up_ok_ex: "\<exists>k. up_ok u k" for u :: "'k \<times> bool"
    using lt_ex [of "fst u"] by (auto simp: up_ok_def intro: less_imp_le)
  consider "ls = []" "us = []" | "ls = []" "us \<noteq> []" | "ls \<noteq> []" "us = []" | "ls \<noteq> []" "us \<noteq> []"
    by blast
  then show ?thesis
  proof cases
    case 2
    then show ?thesis using strongest_up [of us] up_ok_ex by (metis empty_iff list.set(1))
  next
    case 3
    then show ?thesis using strongest_low [of ls] lo_ok_ex by (metis empty_iff list.set(1))
  next
    case 4
    obtain l where l: "l \<in> set ls" "\<forall>l' \<in> set ls. \<forall>k. lo_ok l k \<longrightarrow> lo_ok l' k"
      using strongest_low [OF 4(1)] by blast
    obtain u where u: "u \<in> set us" "\<forall>u' \<in> set us. \<forall>k. up_ok u k \<longrightarrow> up_ok u' k"
      using strongest_up [OF 4(2)] by blast
    have "bounds_meet l u" using assms l(1) u(1) by blast
    then obtain k where "lo_ok l k" "up_ok u k" using bounds_meet_point by blast
    then show ?thesis using l(2) u(2) by blast
  qed simp
qed

section \<open>Properties\<close>

text \<open>
  The overlap test on key ranges never misses: ranges with a common key overlap; and it is
  symmetric.
\<close>

theorem kr_overlaps_complete:
  fixes k :: "'k::linorder"
  shows "(kr_contains r k \<and> kr_contains s k \<longrightarrow> kr_overlaps r s) \<and> kr_overlaps r s = kr_overlaps s r"
  unfolding kr_overlaps_bounds kr_contains_bounds by (blast intro: bounds_meet_if)

theorem kr_overlaps_complete_witness:
  "kr_overlaps (Bound (1::int) 5 False True) (LowerBound 4 False)"
  using kr_overlaps_complete [of "Bound (1::int) 5 False True" 4 "LowerBound 4 False"] by simp

text \<open>
  The overlap test is exact on a dense order without end points: ranges that are not empty
  overlap exactly when some key lies in both.
\<close>

theorem kr_overlaps_exact:
  fixes r s :: "'k::unbounded_dense_linorder key_range"
  assumes "\<exists>k. kr_contains r k" "\<exists>k. kr_contains s k"
  shows "kr_overlaps r s \<longleftrightarrow> (\<exists>k. kr_contains r k \<and> kr_contains s k)"
proof
  assume o: "kr_overlaps r s"
  have "\<forall>l \<in> set (kr_lows r @ kr_lows s). \<forall>u \<in> set (kr_ups r @ kr_ups s). bounds_meet l u"
    using o assms unfolding kr_overlaps_bounds kr_contains_bounds set_append ball_Un
    by (blast intro: bounds_meet_if)
  from bounds_common [OF this] show "\<exists>k. kr_contains r k \<and> kr_contains s k"
    by (auto simp: kr_contains_bounds)
next
  assume "\<exists>k. kr_contains r k \<and> kr_contains s k"
  then show "kr_overlaps r s"
    unfolding kr_overlaps_bounds kr_contains_bounds by (blast intro: bounds_meet_if)
qed

theorem kr_overlaps_exact_witness:
  "\<not> kr_overlaps (Bound (1::real) 2 False True) (LowerBound 2 False)"
proof -
  have "kr_contains (Bound (1::real) 2 False True) 1" "kr_contains (LowerBound (2::real) False) 2"
    by simp_all
  then show ?thesis
    using kr_overlaps_exact [of "Bound (1::real) 2 False True" "LowerBound 2 False"] by auto
qed

end
