(* ===== verification/Cynos_Hash_Index.thy ===== *)
theory Cynos_Hash_Index
  imports Cynos_Index
begin

text \<open>
  The hash index (\<open>crates/index/src/hash.rs\<close>): a hash map from keys to vectors of row ids. The
  iteration order of the hash map is that of the association list, which is unspecified; no
  result of an operation, \<open>get_all_row_ids\<close> apart, depends on it. Batches and range scans are
  compared with the one-at-a-time operations, and the index is an instance of the contracts.
\<close>

section \<open>State and operations\<close>

record 'k hash_index =
  hi_map :: "('k, row_id list) hash_map"
  hi_unique :: bool
  hi_stats :: index_stats

definition hi_new :: "bool \<Rightarrow> 'k hash_index" where
  "hi_new unique = \<lparr>hi_map = [], hi_unique = unique, hi_stats = stats_new\<rparr>"

definition hi_distinct_key_count :: "'k hash_index \<Rightarrow> nat" where
  "hi_distinct_key_count h = length (hi_map h)"

definition hi_get_all_row_ids :: "'k hash_index \<Rightarrow> row_id list" where
  "hi_get_all_row_ids h = concat (map snd (hi_map h))"

text \<open>\<open>map.entry(key).or_insert_with(Vec::new)\<close> followed by appending \<open>rows\<close>.\<close>

definition entry_append :: "'k \<Rightarrow> row_id list \<Rightarrow> ('k, row_id list) hash_map \<Rightarrow> ('k, row_id list) hash_map" where
  "entry_append key rows m =
     hm_insert key ((case hm_get m key of Some vs \<Rightarrow> vs | None \<Rightarrow> []) @ rows) m"

definition hi_add :: "'k \<Rightarrow> row_id \<Rightarrow> 'k hash_index \<Rightarrow> (index_error + unit) \<times> 'k hash_index" where
  "hi_add key v h =
     (if hi_unique h \<and> hm_contains (hi_map h) key then (Inl DuplicateKey, h)
      else (Inr (), h\<lparr>hi_map := entry_append key [v] (hi_map h),
                      hi_stats := stats_add_rows 1 (hi_stats h)\<rparr>))"

text \<open>The loop over a unique batch that looks for a key in the map or seen before.\<close>

fun batch_duplicate :: "('k, row_id list) hash_map \<Rightarrow> 'k list \<Rightarrow> ('k \<times> row_id) list \<Rightarrow> bool" where
  "batch_duplicate m seen [] = False"
| "batch_duplicate m seen ((key, _) # entries) =
     (if hm_contains m key \<or> key \<in> set seen then True
      else batch_duplicate m (key # seen) entries)"

definition hi_add_batch ::
  "('k \<times> row_id) list \<Rightarrow> 'k hash_index \<Rightarrow> (index_error + unit) \<times> 'k hash_index" where
  "hi_add_batch entries h =
     (if entries = [] then (Inr (), h)
      else if hi_unique h then
        (if batch_duplicate (hi_map h) [] entries then (Inl DuplicateKey, h)
         else (Inr (), h\<lparr>hi_map := foldl (\<lambda>m (key, row_id). hm_insert key [row_id] m) (hi_map h) entries,
                         hi_stats := stats_add_rows (of_nat (length entries)) (hi_stats h)\<rparr>))
      else
        let grouped = foldl (\<lambda>g (key, row_id). entry_append key [row_id] g) [] entries
        in (Inr (), h\<lparr>hi_map := foldl (\<lambda>m (key, row_ids). entry_append key row_ids m) (hi_map h) grouped,
                      hi_stats := stats_add_rows (of_nat (length entries)) (hi_stats h)\<rparr>))"

definition hi_get :: "'k \<Rightarrow> 'k hash_index \<Rightarrow> row_id list" where
  "hi_get key h = (case hm_get (hi_map h) key of Some vs \<Rightarrow> vs | None \<Rightarrow> [])"

definition hi_set :: "'k \<Rightarrow> row_id \<Rightarrow> 'k hash_index \<Rightarrow> 'k hash_index" where
  "hi_set key v h =
     (let old_count = (case hm_get (hi_map h) key of Some vs \<Rightarrow> length vs | None \<Rightarrow> 0);
          h = h\<lparr>hi_map := hm_insert key [v] (hi_map h)\<rparr>;
          h = (if old_count > 0
               then h\<lparr>hi_stats := stats_remove_rows (of_nat old_count) (hi_stats h)\<rparr> else h)
      in h\<lparr>hi_stats := stats_add_rows 1 (hi_stats h)\<rparr>)"

definition hi_remove :: "'k \<Rightarrow> row_id option \<Rightarrow> 'k hash_index \<Rightarrow> 'k hash_index" where
  "hi_remove key w h =
     (case w of
        Some v \<Rightarrow>
          (case hm_get (hi_map h) key of
             None \<Rightarrow> h
           | Some vs \<Rightarrow>
               let original_len = length vs;
                   vs = filter (\<lambda>x. x \<noteq> v) vs;
                   h = h\<lparr>hi_map := hm_insert key vs (hi_map h)\<rparr>;
                   removed = original_len - length vs;
                   h = (if removed > 0
                        then h\<lparr>hi_stats := stats_remove_rows (of_nat removed) (hi_stats h)\<rparr> else h)
               in if vs = [] then h\<lparr>hi_map := hm_remove key (hi_map h)\<rparr> else h)
      | None \<Rightarrow>
          (case hm_get (hi_map h) key of
             None \<Rightarrow> h
           | Some vs \<Rightarrow> h\<lparr>hi_map := hm_remove key (hi_map h),
                          hi_stats := stats_remove_rows (of_nat (length vs)) (hi_stats h)\<rparr>))"

definition hi_contains_key :: "'k \<Rightarrow> 'k hash_index \<Rightarrow> bool" where
  "hi_contains_key key h = hm_contains (hi_map h) key"

definition hi_len :: "'k hash_index \<Rightarrow> u64" where
  "hi_len h = is_total_rows (hi_stats h)"

definition hi_is_empty :: "'k hash_index \<Rightarrow> bool" where
  "hi_is_empty h \<longleftrightarrow> hi_map h = []"

definition hi_clear :: "'k hash_index \<Rightarrow> 'k hash_index" where
  "hi_clear h = h\<lparr>hi_map := [], hi_stats := stats_clear (hi_stats h)\<rparr>"

definition hi_min :: "'k::linorder hash_index \<Rightarrow> ('k \<times> row_id list) option" where
  "hi_min h = (if hi_map h = [] then None
     else let k = Min (set (map fst (hi_map h))) in Some (k, the (hm_get (hi_map h) k)))"

definition hi_max :: "'k::linorder hash_index \<Rightarrow> ('k \<times> row_id list) option" where
  "hi_max h = (if hi_map h = [] then None
     else let k = Max (set (map fst (hi_map h))) in Some (k, the (hm_get (hi_map h) k)))"

definition hi_cost :: "'k key_range \<Rightarrow> 'k hash_index \<Rightarrow> u64" where
  "hi_cost rng h =
     (case rng of
        All \<Rightarrow> is_total_rows (hi_stats h)
      | Only key \<Rightarrow> (case hm_get (hi_map h) key of Some vs \<Rightarrow> of_nat (length vs) | None \<Rightarrow> 0)
      | _ \<Rightarrow> is_total_rows (hi_stats h))"

definition hi_get_range ::
  "'k::linorder key_range option \<Rightarrow> bool \<Rightarrow> nat option \<Rightarrow> nat \<Rightarrow> 'k hash_index \<Rightarrow> row_id list" where
  "hi_get_range rng reverse limit skip h =
     (let entries = filter (\<lambda>(key, _). case rng of Some rng \<Rightarrow> kr_contains rng key | None \<Rightarrow> True) (hi_map h);
          entries = sort_key fst entries;
          entries = (if reverse then rev entries else entries)
      in page limit skip (concat (map snd entries)))"

definition hash_index_impl :: "('k::linorder, 'k hash_index) index_impl" where
  "hash_index_impl = \<lparr>ix_add = hi_add, ix_set = hi_set, ix_get = hi_get, ix_remove = hi_remove,
     ix_contains_key = hi_contains_key, ix_len = hi_len, ix_clear = hi_clear, ix_min = hi_min,
     ix_max = hi_max, ix_cost = hi_cost, ix_get_range = hi_get_range\<rparr>"

section \<open>Invariant\<close>

text \<open>No key with an empty vector, at most one row id per key of a unique index, and the counter
  is the number of stored row ids (modulo \<open>2^64\<close>).\<close>

definition hi_size :: "'k hash_index \<Rightarrow> nat" where
  "hi_size h = (\<Sum>p\<leftarrow>hi_map h. length (snd p))"

definition hi_inv :: "'k hash_index \<Rightarrow> bool" where
  "hi_inv h \<longleftrightarrow> hm_ok (hi_map h) \<and> (\<forall>k vs. hm_get (hi_map h) k = Some vs \<longrightarrow> vs \<noteq> [])
     \<and> is_total_rows (hi_stats h) = of_nat (hi_size h)"

lemma hi_get_upd [simp]:
  "hi_get k (h\<lparr>hi_map := m\<rparr>) = (case hm_get m k of Some vs \<Rightarrow> vs | None \<Rightarrow> [])"
  "hi_get k (h\<lparr>hi_stats := s\<rparr>) = hi_get k h"
  by (simp_all add: hi_get_def)

lemma hi_size_upd [simp]:
  "hi_size (h\<lparr>hi_stats := s\<rparr>) = hi_size h"
  by (simp add: hi_size_def)

lemma hi_size_split:
  "hm_ok (hi_map h) \<Longrightarrow> hi_size h = length (hi_get k h) + (\<Sum>p\<leftarrow>hm_remove k (hi_map h). length (snd p))"
  using sum_hm_remove [of "hi_map h" k _ "\<lambda>p. length (snd p)"]
  by (auto simp: hi_size_def hi_get_def hm_remove_absent split: option.splits)

lemma hi_size_insert:
  "hm_ok m \<Longrightarrow> (\<Sum>p\<leftarrow>hm_insert k vs m. length (snd p))
     = length vs + (\<Sum>p\<leftarrow>hm_remove k m. length (snd p))"
  using sum_hm_insert [of m "\<lambda>p. length (snd p)" k vs] by simp

lemma hi_inv_new: "hi_inv (hi_new u)"
  by (simp add: hi_inv_def hi_new_def hi_size_def)

lemma hi_contains_get: "hi_inv h \<Longrightarrow> hm_contains (hi_map h) k \<longleftrightarrow> hi_get k h \<noteq> []"
  by (auto simp: hi_inv_def hm_contains_def hi_get_def split: option.splits)

text \<open>Putting \<open>vs\<close> under \<open>k\<close> (or nothing, when it is empty) with the counter adjusted.\<close>

definition hi_put :: "'k \<Rightarrow> row_id list \<Rightarrow> 'k hash_index \<Rightarrow> 'k hash_index" where
  "hi_put k vs h = h\<lparr>
     hi_map := (if vs = [] then hm_remove k (hi_map h) else hm_insert k vs (hi_map h)),
     hi_stats := (hi_stats h)\<lparr>is_total_rows :=
        is_total_rows (hi_stats h) + of_nat (length vs) - of_nat (length (hi_get k h))\<rparr>\<rparr>"

lemma hi_inv_put:
  assumes "hi_inv h"
  shows "hi_inv (hi_put k vs h)"
proof -
  note size = hi_size_split [of h k]
  have ok: "hm_ok (hi_map h)" using assms by (simp add: hi_inv_def)
  have "(\<Sum>p\<leftarrow>hi_map (hi_put k vs h). length (snd p))
      = length vs + (\<Sum>p\<leftarrow>hm_remove k (hi_map h). length (snd p))"
    using ok hi_size_insert [of "hi_map h" k vs] by (simp add: hi_put_def)
  then have "hi_size (hi_put k vs h) + length (hi_get k h) = hi_size h + length vs"
    using size ok by (simp add: hi_size_def)
  then have "(of_nat (hi_size (hi_put k vs h)) :: u64)
      = of_nat (hi_size h) + of_nat (length vs) - of_nat (length (hi_get k h))"
    by (metis add_diff_cancel_right' of_nat_add)
  then show ?thesis using assms by (auto simp: hi_inv_def hi_put_def split: if_splits)
qed

lemma hi_get_put: "hi_get k' (hi_put k vs h) = (if k' = k then vs else hi_get k' h)"
  by (simp add: hi_put_def hi_get_def)

lemma hi_unique_put [simp]: "hi_unique (hi_put k vs h) = hi_unique h"
  by (simp add: hi_put_def)

lemma hi_len_put: "hi_len (hi_put k vs h) = hi_len h + of_nat (length vs) - of_nat (length (hi_get k h))"
  by (simp add: hi_put_def hi_len_def)

text \<open>Every operation is one such put.\<close>

lemma hi_add_put:
  "hi_inv h \<Longrightarrow> hi_add k v h = (if hi_unique h \<and> hi_get k h \<noteq> [] then (Inl DuplicateKey, h)
     else (Inr (), hi_put k (hi_get k h @ [v]) h))"
  by (simp add: hi_add_def hi_contains_get hi_put_def entry_append_def stats_add_rows_def hi_get_def)

lemma hi_set_put: "hi_set k v h = hi_put k [v] h"
  by (auto simp: hi_set_def hi_put_def hi_get_def Let_def stats_add_rows_def stats_remove_rows_def
      split: option.splits)

lemma delete_update_same: "hm_remove k (hm_insert k v m) = hm_remove k m"
  by (induction m) auto

lemma hi_remove_put:
  assumes "hi_inv h"
  shows "hi_remove k w h = hi_put k (case w of None \<Rightarrow> [] | Some v \<Rightarrow> filter (\<lambda>x. x \<noteq> v) (hi_get k h)) h"
proof (cases "hm_get (hi_map h) k")
  case None
  then have "hi_get k h = []" by (simp add: hi_get_def)
  then show ?thesis using None
    by (simp add: hi_remove_def hi_put_def hm_remove_absent split: option.split)
next
  case (Some vs)
  then have get: "hi_get k h = vs" by (simp add: hi_get_def)
  show ?thesis
  proof (cases w)
    case None
    then show ?thesis using Some get by (simp add: hi_remove_def hi_put_def stats_remove_rows_def)
  next
    case (Some v)
    let ?vs = "filter (\<lambda>x. x \<noteq> v) vs"
    have le: "length ?vs \<le> length vs" by (rule length_filter_le)
    have total: "n - of_nat (length vs - length ?vs) = n + of_nat (length ?vs) - of_nat (length vs)"
      for n :: u64
      using le by (simp add: of_nat_diff)
    have same: "length ?vs = length vs" if "\<not> length ?vs < length vs" using le that by linarith
    show ?thesis
      using Some \<open>hm_get (hi_map h) k = Some vs\<close> get le total same
      by (cases "length ?vs < length vs")
        (auto simp: hi_remove_def hi_put_def Let_def stats_remove_rows_def delete_update_same)
  qed
qed

lemmas hi_puts = hi_add_put hi_set_put hi_remove_put

section \<open>The contracts\<close>

definition hi_keys :: "'k::linorder hash_index \<Rightarrow> 'k list" where
  "hi_keys h = sort (map fst (hi_map h))"

lemma sort_entries:
  fixes m :: "('k::linorder \<times> 'v) list"
  assumes "hm_ok m"
  shows "sort_key fst m = map (\<lambda>k. (k, the (map_of m k))) (sort (map fst m))"
proof -
  have fst: "map fst (sort_key fst m) = sort (map fst m)"
    by (rule properties_for_sort [symmetric]) simp_all
  have "map (\<lambda>k. (k, the (map_of m k))) (map fst (sort_key fst m)) = sort_key fst m"
    unfolding map_map
  proof (rule map_idI)
    fix p assume "p \<in> set (sort_key fst m)"
    then have "map_of m (fst p) = Some (snd p)" using assms by (simp add: hm_ok_mem [symmetric])
    then show "((\<lambda>k. (k, the (map_of m k))) \<circ> fst) p = p" by simp
  qed
  then show ?thesis unfolding fst by simp
qed

lemma hm_ok_filter: "hm_ok m \<Longrightarrow> hm_ok (filter P m)"
  by (induction m) (auto simp: hm_ok_def)

lemma hi_get_range_keys:
  assumes "hi_inv h"
  shows "hi_get_range rng reverse limit skip h =
    page limit skip (concat (map (\<lambda>k. hi_get k h)
      (let ks = filter (\<lambda>k. case rng of Some r \<Rightarrow> kr_contains r k | None \<Rightarrow> True) (hi_keys h)
       in if reverse then rev ks else ks)))"
proof -
  let ?Q = "\<lambda>k. case rng of Some r \<Rightarrow> kr_contains r k | None \<Rightarrow> True"
  have ok: "hm_ok (hi_map h)" using assms by (simp add: hi_inv_def)
  have get: "hi_get k h = the (map_of (hi_map h) k)" if "k \<in> set (hi_keys h)" for k
    using that by (auto simp: hi_get_def hi_keys_def map_of_eq_None_iff split: option.splits)
  have "sort_key fst (filter (\<lambda>(k, _). ?Q k) (hi_map h))
      = filter (\<lambda>(k, _). ?Q k) (sort_key fst (hi_map h))"
    by (simp add: filter_sort)
  also have "\<dots> = map (\<lambda>k. (k, the (map_of (hi_map h) k))) (filter ?Q (hi_keys h))"
    by (simp add: sort_entries [OF ok] filter_map comp_def hi_keys_def)
  finally have es: "sort_key fst (filter (\<lambda>(k, _). ?Q k) (hi_map h))
      = map (\<lambda>k. (k, the (map_of (hi_map h) k))) (filter ?Q (hi_keys h))" .
  have m: "map (\<lambda>k. the (map_of (hi_map h) k)) ks = map (\<lambda>k. hi_get k h) ks"
    if "set ks \<subseteq> set (hi_keys h)" for ks
    using that get by auto
  show ?thesis
    unfolding hi_get_range_def Let_def es by (cases reverse) (simp_all add: comp_def rev_map m)
qed

interpretation hash_ix: counted_index hash_index_impl hi_inv hi_unique
proof unfold_locales
  fix i :: "'k::linorder hash_index" and k k' :: 'k and v w
  assume inv: "hi_inv i"
  note p = hi_add_put [OF inv] hi_set_put hi_remove_put [OF inv]
  show "hi_inv (snd (ix_add hash_index_impl k v i)) \<and> hi_unique (snd (ix_add hash_index_impl k v i)) = hi_unique i"
    using inv by (simp add: hash_index_impl_def p hi_inv_put)
  show "fst (ix_add hash_index_impl k v i)
      = (if add_refused (hi_unique i) (ix_get hash_index_impl k i) then Inl DuplicateKey else Inr ())"
    by (simp add: hash_index_impl_def p add_refused_def)
  show "ix_get hash_index_impl k' (snd (ix_add hash_index_impl k v i))
      = (if k' = k \<and> \<not> add_refused (hi_unique i) (ix_get hash_index_impl k i)
         then ix_get hash_index_impl k i @ [v] else ix_get hash_index_impl k' i)"
    by (simp add: hash_index_impl_def p add_refused_def hi_get_put)
  show "hi_inv (ix_set hash_index_impl k v i) \<and> hi_unique (ix_set hash_index_impl k v i) = hi_unique i"
    using inv by (simp add: hash_index_impl_def p hi_inv_put)
  show "ix_get hash_index_impl k' (ix_set hash_index_impl k v i) = (if k' = k then [v] else ix_get hash_index_impl k' i)"
    by (simp add: hash_index_impl_def p hi_get_put)
  show "hi_inv (ix_remove hash_index_impl k w i) \<and> hi_unique (ix_remove hash_index_impl k w i) = hi_unique i"
    for w using inv by (simp add: hash_index_impl_def p hi_inv_put)
  show "ix_get hash_index_impl k' (ix_remove hash_index_impl k None i) = (if k' = k then [] else ix_get hash_index_impl k' i)"
    by (simp add: hash_index_impl_def p hi_get_put)
  show "ix_get hash_index_impl k' (ix_remove hash_index_impl k (Some v) i)
      = (if k' = k then filter (\<lambda>x. x \<noteq> v) (ix_get hash_index_impl k i) else ix_get hash_index_impl k' i)"
    by (simp add: hash_index_impl_def p hi_get_put)
  show "ix_contains_key hash_index_impl k i \<longleftrightarrow> ix_get hash_index_impl k i \<noteq> []"
    using inv by (simp add: hash_index_impl_def hi_contains_key_def hi_contains_get)
  show "hi_inv (ix_clear hash_index_impl i) \<and> hi_unique (ix_clear hash_index_impl i) = hi_unique i"
    by (simp add: hash_index_impl_def hi_clear_def hi_inv_def hi_size_def)
  show "ix_get hash_index_impl k (ix_clear hash_index_impl i) = []"
    by (simp add: hash_index_impl_def hi_clear_def)
  show "ix_len hash_index_impl (snd (ix_add hash_index_impl k v i))
      = (if add_refused (hi_unique i) (ix_get hash_index_impl k i) then ix_len hash_index_impl i
         else ix_len hash_index_impl i + 1)"
    by (simp add: hash_index_impl_def p add_refused_def hi_len_put)
  show "ix_len hash_index_impl (ix_remove hash_index_impl k w i) = ix_len hash_index_impl i
      - of_nat (length (ix_get hash_index_impl k i) - length (ix_get hash_index_impl k (ix_remove hash_index_impl k w i)))"
    for w
    by (cases w) (simp_all add: hash_index_impl_def p hi_get_put hi_len_put of_nat_diff length_filter_le)
  show "ix_len hash_index_impl (ix_set hash_index_impl k v i)
      = ix_len hash_index_impl i - of_nat (length (ix_get hash_index_impl k i)) + 1"
    by (simp add: hash_index_impl_def p hi_len_put)
  show "ix_len hash_index_impl (ix_clear hash_index_impl i) = 0"
    by (simp add: hash_index_impl_def hi_clear_def hi_len_def)
qed

interpretation hash_range: range_index hash_index_impl hi_inv hi_unique hi_keys
proof unfold_locales
  fix i :: "'k::linorder hash_index"
  assume inv: "hi_inv i"
  then show "sorted_wrt (<) (hi_keys i)"
    by (simp add: hi_keys_def hi_inv_def hm_ok_def strict_sorted_iff)
  show "set (hi_keys i) = {k. ix_get hash_index_impl k i \<noteq> []}"
    using hi_contains_get [OF inv]
    by (auto simp: hash_index_impl_def hi_keys_def hm_contains_def map_of_eq_None_iff)
  show "ix_get_range hash_index_impl rng False limit skip i
      = page limit skip (concat (map (\<lambda>k. ix_get hash_index_impl k i) (hi_keys i)))"
    if "rng = None \<or> rng = Some All" for rng limit skip
    using that by (auto simp: hash_index_impl_def hi_get_range_keys [OF inv])
  show "ix_get_range hash_index_impl (Some r) False limit skip i
      = page limit skip (concat (map (\<lambda>k. ix_get hash_index_impl k i) (filter (kr_contains r) (hi_keys i))))"
    for r limit skip
    by (simp add: hash_index_impl_def hi_get_range_keys [OF inv])
qed

section \<open>Batches\<close>

text \<open>Appending a list of (key, rows) pairs, entry by entry.\<close>

definition append_all ::
  "('k \<times> row_id list) list \<Rightarrow> ('k, row_id list) hash_map \<Rightarrow> ('k, row_id list) hash_map" where
  "append_all es m = foldl (\<lambda>m (key, rows). entry_append key rows m) m es"

abbreviation rows_of :: "'k \<Rightarrow> ('k, row_id list) hash_map \<Rightarrow> row_id list" where
  "rows_of k m \<equiv> (case hm_get m k of Some vs \<Rightarrow> vs | None \<Rightarrow> [])"

abbreviation rows_total :: "('k, row_id list) hash_map \<Rightarrow> nat" where
  "rows_total m \<equiv> (\<Sum>p\<leftarrow>m. length (snd p))"

lemma entry_append_rows: "rows_of k' (entry_append k rows m) = rows_of k' m @ (if k' = k then rows else [])"
  by (simp add: entry_append_def)

lemma entry_append_total:
  assumes "hm_ok m"
  shows "rows_total (entry_append k rows m) = rows_total m + length rows"
proof (cases "hm_get m k")
  case None
  then show ?thesis using hi_size_insert [OF assms, of k rows] by (simp add: entry_append_def hm_remove_absent)
next
  case (Some vs)
  then show ?thesis
    using hi_size_insert [OF assms, of k "vs @ rows"] sum_hm_remove [OF assms Some, of "\<lambda>p. length (snd p)"]
    by (simp add: entry_append_def)
qed

lemma append_all_spec:
  "hm_ok m \<Longrightarrow>
     hm_ok (append_all es m)
     \<and> rows_of k (append_all es m) = rows_of k m @ concat (map snd (filter (\<lambda>e. fst e = k) es))
     \<and> rows_total (append_all es m) = rows_total m + (\<Sum>e\<leftarrow>es. length (snd e))
     \<and> (hm_get (append_all es m) k \<noteq> None \<longleftrightarrow> hm_get m k \<noteq> None \<or> k \<in> fst ` set es)"
proof (induction es arbitrary: m)
  case (Cons e es)
  obtain key rows where e: "e = (key, rows)" by fastforce
  have ok: "hm_ok (entry_append key rows m)" using Cons.prems by (simp add: entry_append_def)
  have "append_all (e # es) m = append_all es (entry_append key rows m)"
    by (simp add: append_all_def e)
  then show ?case
    using Cons.IH [OF ok] entry_append_rows [where k' = k and k = key and rows = rows and m = m] entry_append_total [OF Cons.prems, of key rows] e
    by (auto simp: entry_append_def)
qed (simp add: append_all_def)

lemma rows_of_filter:
  "hm_ok g \<Longrightarrow> concat (map snd (filter (\<lambda>e. fst e = k) g)) = rows_of k g"
proof (induction g)
  case (Cons p g)
  have "fst e \<noteq> fst p" if "e \<in> set g" for e
  proof
    assume "fst e = fst p"
    then have "fst p \<in> set (map fst g)" using that by (metis image_eqI list.set_map)
    then show False using Cons.prems by (simp add: hm_ok_def)
  qed
  then have "filter (\<lambda>e. fst e = fst p) g = []" by (simp add: filter_empty_conv)
  then show ?case using Cons by (cases p) (auto simp: hm_ok_Cons)
qed simp

lemma batch_duplicate_iff:
  "batch_duplicate m seen es \<longleftrightarrow>
     (\<exists>k \<in> fst ` set es. hm_contains m k \<or> k \<in> set seen) \<or> \<not> distinct (map fst es)"
  by (induction m seen es rule: batch_duplicate.induct) (auto simp: image_iff)

lemma unique_batch_append:
  assumes "distinct (map fst es)" "\<forall>k \<in> fst ` set es. hm_get m k = None"
  shows "foldl (\<lambda>m (key, row_id). hm_insert key [row_id] m) m es = append_all (map (\<lambda>(k, r). (k, [r])) es) m"
  using assms
proof (induction es arbitrary: m)
  case (Cons e es)
  obtain key r where e: "e = (key, r)" by fastforce
  have "hm_insert key [r] m = entry_append key [r] m" using Cons.prems e by (simp add: entry_append_def)
  moreover have "\<forall>k \<in> fst ` set es. hm_get (entry_append key [r] m) k = None"
    using Cons.prems e by (auto simp: entry_append_def)
  ultimately show ?case using Cons.IH [of "entry_append key [r] m"] Cons.prems e
    by (simp add: append_all_def)
qed (simp add: append_all_def)

lemma grouped_append:
  "foldl (\<lambda>g (key, row_id). entry_append key [row_id] g) g es = append_all (map (\<lambda>(k, r). (k, [r])) es) g"
  by (induction es arbitrary: g) (auto simp: append_all_def)

lemma singleton_rows:
  "concat (map snd (filter (\<lambda>e. fst e = k) (map (\<lambda>(k, r). (k, [r])) es))) = map snd (filter (\<lambda>e. fst e = k) es)"
  "(\<Sum>e\<leftarrow>map (\<lambda>(k, r). (k, [r])) es. length (snd e)) = length es"
  "fst ` set (map (\<lambda>(k, r). (k, [r])) es) = fst ` set es"
  by (induction es) auto

text \<open>The map after an accepted batch, in both branches.\<close>

definition batch_ok :: "('k \<times> row_id) list \<Rightarrow> 'k hash_index \<Rightarrow> bool" where
  "batch_ok es h \<longleftrightarrow> (hi_unique h \<longrightarrow> distinct (map fst es) \<and> (\<forall>k \<in> fst ` set es. hi_get k h = []))"

lemma hi_add_batch_reject:
  assumes "hi_inv h" "\<not> batch_ok es h"
  shows "hi_add_batch es h = (Inl DuplicateKey, h)"
proof -
  have u: "hi_unique h" and "es \<noteq> []" using assms(2) by (auto simp: batch_ok_def)
  moreover have "batch_duplicate (hi_map h) [] es"
    using assms hi_contains_get [OF assms(1)] by (auto simp: batch_ok_def batch_duplicate_iff)
  ultimately show ?thesis by (simp add: hi_add_batch_def)
qed

lemma hi_add_batch_accept:
  assumes inv: "hi_inv h" and ok: "batch_ok es h"
  shows "\<exists>h'. hi_add_batch es h = (Inr (), h') \<and> hi_inv h' \<and> hi_unique h' = hi_unique h
    \<and> (\<forall>k. hi_get k h' = hi_get k h @ map snd (filter (\<lambda>e. fst e = k) es))"
proof (cases "es = []")
  case True
  then show ?thesis using inv by (simp add: hi_add_batch_def)
next
  case False
  let ?es = "map (\<lambda>(k, r). (k, [r])) es"
  have hm: "hm_ok (hi_map h)" using inv by (simp add: hi_inv_def)
  define m' where "m' = (if hi_unique h then append_all ?es (hi_map h)
    else append_all (append_all ?es []) (hi_map h))"
  have eq: "hi_add_batch es h = (Inr (), h\<lparr>hi_map := m',
      hi_stats := stats_add_rows (of_nat (length es)) (hi_stats h)\<rparr>)"
  proof (cases "hi_unique h")
    case True
    have nodup: "\<not> batch_duplicate (hi_map h) [] es"
      using ok True hi_contains_get [OF inv] by (auto simp: batch_ok_def batch_duplicate_iff)
    moreover have "foldl (\<lambda>m (key, row_id). hm_insert key [row_id] m) (hi_map h) es = append_all ?es (hi_map h)"
      using nodup by (intro unique_batch_append) (auto simp: batch_duplicate_iff hm_contains_def)
    ultimately show ?thesis using True False by (simp add: hi_add_batch_def m'_def)
  next
    case nu: False
    then show ?thesis using False
      by (simp add: hi_add_batch_def m'_def grouped_append Let_def append_all_def)
  qed
  note g = append_all_spec [OF hm_ok_Nil, of ?es]
  have spec: "hm_ok m' \<and> rows_of k m' = rows_of k (hi_map h) @ map snd (filter (\<lambda>e. fst e = k) es)
      \<and> rows_total m' = rows_total (hi_map h) + length es
      \<and> (hm_get m' k \<noteq> None \<longleftrightarrow> hm_get (hi_map h) k \<noteq> None \<or> k \<in> fst ` set es)" for k
  proof (cases "hi_unique h")
    case True
    then show ?thesis using append_all_spec [OF hm, of ?es k] singleton_rows [where es = es]
      by (simp add: m'_def)
  next
    case False
    have "fst ` set (append_all ?es []) = fst ` set es"
      using g singleton_rows(3) [of es] by (auto simp: map_of_eq_None_iff)
    then show ?thesis
      using append_all_spec [OF hm, of "append_all ?es []" k] g [of k] singleton_rows [where es = es] False
      by (simp add: m'_def rows_of_filter)
  qed
  let ?h = "h\<lparr>hi_map := m', hi_stats := stats_add_rows (of_nat (length es)) (hi_stats h)\<rparr>"
  have get: "hi_get k ?h = hi_get k h @ map snd (filter (\<lambda>e. fst e = k) es)" for k
    using spec [of k] by (simp add: hi_get_def)
  have "vs \<noteq> []" if "hm_get m' k = Some vs" for k vs
  proof (cases "k \<in> fst ` set es")
    case True
    then have "map snd (filter (\<lambda>e. fst e = k) es) \<noteq> []" by (auto simp: filter_empty_conv)
    then show ?thesis using spec [of k] that by auto
  next
    case False
    then have "hm_get (hi_map h) k \<noteq> None" using spec [of k] that by simp
    then obtain us where "hm_get (hi_map h) k = Some us" by blast
    then show ?thesis using spec [of k] that inv by (auto simp: hi_inv_def)
  qed
  then have "hi_inv ?h" using inv spec by (simp add: hi_inv_def hi_size_def)
  then show ?thesis using eq get by (intro exI [of _ ?h]) simp
qed

section \<open>Specification: a multimap\<close>

datatype 'k index_op =
    OpAdd 'k row_id
  | OpAddBatch "('k \<times> row_id) list"
  | OpSet 'k row_id
  | OpRemove 'k "row_id option"
  | OpClear

fun hi_step :: "'k index_op \<Rightarrow> 'k hash_index \<Rightarrow> (index_error + unit) \<times> 'k hash_index" where
  "hi_step (OpAdd k v) h = hi_add k v h"
| "hi_step (OpAddBatch es) h = hi_add_batch es h"
| "hi_step (OpSet k v) h = (Inr (), hi_set k v h)"
| "hi_step (OpRemove k w) h = (Inr (), hi_remove k w h)"
| "hi_step OpClear h = (Inr (), hi_clear h)"

type_synonym 'k multimap = "'k \<Rightarrow> row_id list"

fun mm_step :: "bool \<Rightarrow> 'k index_op \<Rightarrow> 'k multimap \<Rightarrow> (index_error + unit) \<times> 'k multimap" where
  "mm_step u (OpAdd k v) m =
     (if u \<and> m k \<noteq> [] then (Inl DuplicateKey, m) else (Inr (), m(k := m k @ [v])))"
| "mm_step u (OpAddBatch es) m =
     (if u \<and> \<not> (distinct (map fst es) \<and> (\<forall>k \<in> fst ` set es. m k = [])) then (Inl DuplicateKey, m)
      else (Inr (), \<lambda>k. m k @ map snd (filter (\<lambda>e. fst e = k) es)))"
| "mm_step u (OpSet k v) m = (Inr (), m(k := [v]))"
| "mm_step u (OpRemove k w) m =
     (Inr (), m(k := (case w of None \<Rightarrow> [] | Some v \<Rightarrow> filter (\<lambda>x. x \<noteq> v) (m k))))"
| "mm_step u OpClear m = (Inr (), \<lambda>_. [])"

text \<open>The results of a sequence of operations, and the state they lead to.\<close>

fun run_ops :: "('o \<Rightarrow> 's \<Rightarrow> 'r \<times> 's) \<Rightarrow> 'o list \<Rightarrow> 's \<Rightarrow> 'r list \<times> 's" where
  "run_ops step [] s = ([], s)"
| "run_ops step (p # ps) s =
     (let (r, s') = step p s; (rs, s'') = run_ops step ps s' in (r # rs, s''))"

definition hi_abs :: "'k hash_index \<Rightarrow> 'k multimap" where
  "hi_abs h = (\<lambda>k. hi_get k h)"

lemma hi_inv_clear: "hi_inv (hi_clear h) \<and> hi_unique (hi_clear h) = hi_unique h"
  by (simp add: hi_clear_def hi_inv_def hi_size_def)

lemma hi_get_clear: "hi_get k (hi_clear h) = []"
  by (simp add: hi_clear_def)

lemma hi_step_refines:
  assumes "hi_inv h"
  shows "fst (hi_step p h) = fst (mm_step (hi_unique h) p (hi_abs h))
    \<and> hi_abs (snd (hi_step p h)) = snd (mm_step (hi_unique h) p (hi_abs h))
    \<and> hi_inv (snd (hi_step p h)) \<and> hi_unique (snd (hi_step p h)) = hi_unique h"
proof (cases p)
  case (OpAddBatch es)
  show ?thesis
  proof (cases "batch_ok es h")
    case True
    then show ?thesis using hi_add_batch_accept [OF assms True] OpAddBatch
      by (auto simp: hi_abs_def batch_ok_def)
  next
    case False
    then show ?thesis using hi_add_batch_reject [OF assms False] OpAddBatch assms
      by (auto simp: hi_abs_def batch_ok_def)
  qed
qed (use assms hi_inv_clear [of h] in \<open>auto simp: hi_add_put [OF assms] hi_set_put
    hi_remove_put [OF assms] hi_abs_def hi_get_put hi_inv_put hi_get_clear fun_eq_iff
    split: option.splits\<close>)

lemma hi_run_refines:
  "hi_inv h \<Longrightarrow> fst (run_ops hi_step ps h) = fst (run_ops (mm_step (hi_unique h)) ps (hi_abs h))
    \<and> hi_abs (snd (run_ops hi_step ps h)) = snd (run_ops (mm_step (hi_unique h)) ps (hi_abs h))
    \<and> hi_inv (snd (run_ops hi_step ps h))"
proof (induction ps arbitrary: h)
  case (Cons p ps)
  obtain r h' where step: "hi_step p h = (r, h')" by fastforce
  then have "mm_step (hi_unique h) p (hi_abs h) = (r, hi_abs h')" "hi_inv h'" "hi_unique h' = hi_unique h"
    using hi_step_refines [OF Cons.prems, of p] by (auto simp: prod_eq_iff)
  then show ?case using Cons.IH [of h'] step by (simp add: case_prod_unfold Let_def)
qed simp

lemma hi_size_sum:
  assumes "hi_inv h"
  shows "hi_size h = (\<Sum>k \<in> {k. hi_get k h \<noteq> []}. length (hi_get k h))"
proof -
  have ok: "hm_ok (hi_map h)" using assms by (simp add: hi_inv_def)
  have dom: "{k. hi_get k h \<noteq> []} = set (map fst (hi_map h))"
    using hi_contains_get [OF assms] by (auto simp: hm_contains_def map_of_eq_None_iff)
  have "hi_size h = (\<Sum>p \<leftarrow> hi_map h. length (hi_get (fst p) h))"
    unfolding hi_size_def using ok
    by (intro arg_cong [of _ _ sum_list] map_cong) (auto simp: hi_get_def hm_ok_mem split: option.splits)
  also have "\<dots> = (\<Sum>k \<leftarrow> map fst (hi_map h). length (hi_get k h))" by (simp add: comp_def)
  also have "\<dots> = (\<Sum>k \<in> set (map fst (hi_map h)). length (hi_get k h))"
    using ok by (intro sum_list_distinct_conv_sum_set) (simp add: hm_ok_def)
  finally show ?thesis unfolding dom .
qed

section \<open>Properties\<close>

text \<open>
  C7. The hash index implements a multimap: for every sequence of insertions, batches, sets,
  removals and clears on a new index, unique or not, the results (which insertions are refused as
  duplicates) are those of the multimap, every key has exactly the row ids the multimap gives it,
  in order, the membership test is exact, and the length is the number of stored row ids modulo
  \<open>2^64\<close>.
\<close>

theorem hash_index_refines_multimap:
  "let (rs, h) = run_ops hi_step ps (hi_new u); (rs', m) = run_ops (mm_step u) ps (\<lambda>_. []) in
    rs = rs' \<and> (\<forall>k. hi_get k h = m k) \<and> (\<forall>k. hi_contains_key k h = (m k \<noteq> []))
    \<and> hi_len h = of_nat (\<Sum>k \<in> {k. m k \<noteq> []}. length (m k))"
proof -
  obtain rs h where run: "run_ops hi_step ps (hi_new u) = (rs, h)" by fastforce
  have abs: "hi_abs (hi_new u) = (\<lambda>_. [])" "hi_unique (hi_new u) = u"
    by (auto simp: hi_abs_def hi_new_def hi_get_def)
  have "run_ops (mm_step u) ps (\<lambda>_. []) = (rs, hi_abs h)" and inv: "hi_inv h"
    using hi_run_refines [OF hi_inv_new [of u], of ps] unfolding run abs by (simp_all add: prod_eq_iff)
  moreover have "hi_len h = of_nat (hi_size h)" using inv by (simp add: hi_inv_def hi_len_def)
  ultimately show ?thesis using run hi_size_sum [OF inv] hi_contains_get [OF inv]
    by (simp add: hi_abs_def hi_contains_key_def)
qed

text \<open>
  C36. A range scan of the hash index, though the index is a hash map, is ordered and complete: it
  returns the row ids of the keys in the range, keys in ascending order (descending when reversed),
  the row ids of one key in insertion order, after the skip and up to the limit.
\<close>

theorem hash_index_range_scan:
  assumes "hi_inv h" "sorted_wrt (<) ks" "set ks = {k. kr_contains r k \<and> hi_get k h \<noteq> []}"
  shows "hi_get_range (Some r) reverse limit skip h
    = page limit skip (concat (map (\<lambda>k. hi_get k h) (if reverse then rev ks else ks)))"
proof -
  have "sorted_wrt (<) (filter (kr_contains r) (hi_keys h))"
    using hash_range.keys_sorted [OF assms(1)] by (rule sorted_wrt_filter)
  moreover have "set (filter (kr_contains r) (hi_keys h)) = set ks"
    using hash_range.keys_get [OF assms(1)] assms(3) by (auto simp: hash_index_impl_def)
  ultimately have "filter (kr_contains r) (hi_keys h) = ks"
    using strict_sorted_equal [OF assms(2)] by metis
  then show ?thesis by (simp add: hi_get_range_keys [OF assms(1)])
qed

theorem hash_index_range_scan_witness:
  "hi_get_range (Some (LowerBound (2::int) False)) True (Some 2) 1
     (snd (run_ops hi_step [OpAdd 3 30, OpAdd 2 20, OpAdd 1 10, OpAdd 3 31] (hi_new False)))
   = [31, 20]"
proof -
  let ?h = "snd (run_ops hi_step [OpAdd (3::int) 30, OpAdd 2 20, OpAdd 1 10, OpAdd 3 31] (hi_new False))"
  have "hi_inv ?h" using hi_run_refines [OF hi_inv_new] by blast
  moreover have get: "hi_get k ?h = (if k = 3 then [30, 31] else if k = 2 then [20] else if k = 1 then [10] else [])" for k
    by (simp add: hi_add_def hi_new_def hi_get_def entry_append_def)
  moreover have "set [2, 3] = {k. kr_contains (LowerBound (2::int) False) k \<and> hi_get k ?h \<noteq> []}"
    unfolding get by (auto split: if_splits)
  ultimately show ?thesis
    using hash_index_range_scan [of ?h "[2, 3]" "LowerBound 2 False" True "Some 2" 1]
    unfolding get by (simp add: page_def)
qed

text \<open>
  Inserting a batch into a hash index that is not unique has, for every key, the effect of
  inserting its entries one by one; on a unique index a batch with a repeated or an existing key is
  refused as a whole and changes nothing.
\<close>

theorem hash_index_batch_atomic:
  assumes "hi_inv h"
  shows "if hi_unique h \<and> \<not> (distinct (map fst es) \<and> (\<forall>k \<in> fst ` set es. hi_get k h = []))
    then hi_add_batch es h = (Inl DuplicateKey, h)
    else fst (hi_add_batch es h) = Inr ()
      \<and> (\<not> hi_unique h \<longrightarrow> (\<forall>k. hi_get k (snd (hi_add_batch es h))
           = hi_get k (snd (default_add_batch hash_index_impl es h))))"
proof (cases "batch_ok es h")
  case True
  then obtain h' where h': "hi_add_batch es h = (Inr (), h')"
    "\<forall>k. hi_get k h' = hi_get k h @ map snd (filter (\<lambda>e. fst e = k) es)"
    using hi_add_batch_accept [OF assms True] by blast
  have "hi_get k (snd (default_add_batch hash_index_impl es h)) = hi_get k h'" if "\<not> hi_unique h" for k
    using hash_ix.default_add_batch_get [OF assms that, of es k] h'(2) by (simp add: hash_index_impl_def)
  then show ?thesis using True h' by (auto simp: batch_ok_def)
next
  case False
  then show ?thesis using hi_add_batch_reject [OF assms False] by (auto simp: batch_ok_def)
qed

theorem hash_index_batch_atomic_witness:
  "hi_add_batch [(1, 10), (2, 20), (1, 11)] (hi_new True :: int hash_index) = (Inl DuplicateKey, hi_new True)"
  using hash_index_batch_atomic [OF hi_inv_new [of True], of "[(1, 10), (2, 20), (1, 11)]"]
  by (simp add: hi_new_def)

end
