(* ===== verification/Cynos_Nullable.thy ===== *)
theory Cynos_Nullable
  imports Cynos_Hash_Index
begin

text \<open>
  The wrapper that lets an index hold NULL keys (\<open>crates/index/src/nullable.rs\<close>), generic in the
  wrapped index as the code is: the trait implementation of the inner index is an argument. The
  wrapper keeps the row ids of NULL keys beside the inner index and a counter of its own. It
  satisfies the index contract whenever the inner index does; the counter and the skip of a range
  scan are examined separately, since the code is not right about them in every case.
\<close>

section \<open>State and operations\<close>

record 'i nullable_index =
  ni_inner :: 'i
  ni_null_values :: "row_id list"
  ni_stats :: index_stats

definition ni_new :: "'i \<Rightarrow> 'i nullable_index" where
  "ni_new inner = \<lparr>ni_inner = inner, ni_null_values = [], ni_stats = stats_new\<rparr>"

definition ni_add_null :: "row_id \<Rightarrow> 'i nullable_index \<Rightarrow> 'i nullable_index" where
  "ni_add_null v n = n\<lparr>ni_null_values := ni_null_values n @ [v],
                        ni_stats := stats_add_rows 1 (ni_stats n)\<rparr>"

definition ni_get_null :: "'i nullable_index \<Rightarrow> row_id list" where
  "ni_get_null n = ni_null_values n"

definition ni_remove_null :: "row_id option \<Rightarrow> 'i nullable_index \<Rightarrow> 'i nullable_index" where
  "ni_remove_null w n =
     (case w of
        Some v \<Rightarrow>
          let original_len = length (ni_null_values n);
              n = n\<lparr>ni_null_values := filter (\<lambda>x. x \<noteq> v) (ni_null_values n)\<rparr>;
              removed = original_len - length (ni_null_values n)
          in n\<lparr>ni_stats := stats_remove_rows (of_nat removed) (ni_stats n)\<rparr>
      | None \<Rightarrow>
          let removed = length (ni_null_values n)
          in n\<lparr>ni_null_values := [], ni_stats := stats_remove_rows (of_nat removed) (ni_stats n)\<rparr>)"

definition ni_set_null :: "row_id \<Rightarrow> 'i nullable_index \<Rightarrow> 'i nullable_index" where
  "ni_set_null v n =
     (let removed = length (ni_null_values n);
          n = n\<lparr>ni_null_values := [v]\<rparr>;
          n = (if removed > 0
               then n\<lparr>ni_stats := stats_remove_rows (of_nat removed) (ni_stats n)\<rparr> else n)
      in n\<lparr>ni_stats := stats_add_rows 1 (ni_stats n)\<rparr>)"

definition ni_contains_null :: "'i nullable_index \<Rightarrow> bool" where
  "ni_contains_null n \<longleftrightarrow> ni_null_values n \<noteq> []"

definition ni_null_count :: "'i nullable_index \<Rightarrow> nat" where
  "ni_null_count n = length (ni_null_values n)"

definition ni_add ::
  "('k, 'i) index_impl \<Rightarrow> 'k \<Rightarrow> row_id \<Rightarrow> 'i nullable_index \<Rightarrow> (index_error + unit) \<times> 'i nullable_index" where
  "ni_add I key v n =
     (let (result, inner) = ix_add I key v (ni_inner n);
          n = n\<lparr>ni_inner := inner\<rparr>
      in (result, if \<not> isl result then n\<lparr>ni_stats := stats_add_rows 1 (ni_stats n)\<rparr> else n))"

definition ni_set :: "('k, 'i) index_impl \<Rightarrow> 'k \<Rightarrow> row_id \<Rightarrow> 'i nullable_index \<Rightarrow> 'i nullable_index" where
  "ni_set I key v n =
     (let old_count = length (ix_get I key (ni_inner n));
          n = n\<lparr>ni_inner := ix_set I key v (ni_inner n)\<rparr>;
          n = (if old_count > 0
               then n\<lparr>ni_stats := stats_remove_rows (of_nat old_count) (ni_stats n)\<rparr> else n)
      in n\<lparr>ni_stats := stats_add_rows 1 (ni_stats n)\<rparr>)"

definition ni_get :: "('k, 'i) index_impl \<Rightarrow> 'k \<Rightarrow> 'i nullable_index \<Rightarrow> row_id list" where
  "ni_get I key n = ix_get I key (ni_inner n)"

definition ni_remove ::
  "('k, 'i) index_impl \<Rightarrow> 'k \<Rightarrow> row_id option \<Rightarrow> 'i nullable_index \<Rightarrow> 'i nullable_index" where
  "ni_remove I key w n =
     (let old_count = (case w of Some _ \<Rightarrow> 1 | None \<Rightarrow> length (ix_get I key (ni_inner n)));
          n = n\<lparr>ni_inner := ix_remove I key w (ni_inner n)\<rparr>;
          new_count = length (ix_get I key (ni_inner n));
          removed = (if w \<noteq> None then (if new_count < old_count then 1 else 0) else old_count)
      in n\<lparr>ni_stats := stats_remove_rows (of_nat removed) (ni_stats n)\<rparr>)"

definition ni_contains_key :: "('k, 'i) index_impl \<Rightarrow> 'k \<Rightarrow> 'i nullable_index \<Rightarrow> bool" where
  "ni_contains_key I key n = ix_contains_key I key (ni_inner n)"

definition ni_len :: "'i nullable_index \<Rightarrow> u64" where
  "ni_len n = is_total_rows (ni_stats n)"

definition ni_clear :: "('k, 'i) index_impl \<Rightarrow> 'i nullable_index \<Rightarrow> 'i nullable_index" where
  "ni_clear I n = n\<lparr>ni_inner := ix_clear I (ni_inner n), ni_null_values := [],
                     ni_stats := stats_clear (ni_stats n)\<rparr>"

definition ni_min :: "('k, 'i) index_impl \<Rightarrow> 'i nullable_index \<Rightarrow> ('k \<times> row_id list) option" where
  "ni_min I n = ix_min I (ni_inner n)"

definition ni_max :: "('k, 'i) index_impl \<Rightarrow> 'i nullable_index \<Rightarrow> ('k \<times> row_id list) option" where
  "ni_max I n = ix_max I (ni_inner n)"

definition ni_cost :: "('k, 'i) index_impl \<Rightarrow> 'k key_range \<Rightarrow> 'i nullable_index \<Rightarrow> u64" where
  "ni_cost I rng n = ix_cost I rng (ni_inner n)"

definition ni_get_range ::
  "('k, 'i) index_impl \<Rightarrow> 'k key_range option \<Rightarrow> bool \<Rightarrow> nat option \<Rightarrow> nat \<Rightarrow> 'i nullable_index \<Rightarrow> row_id list" where
  "ni_get_range I rng reverse limit skip n =
     (let results = ix_get_range I rng reverse limit skip (ni_inner n)
      in if rng = None \<or> rng = Some All then
           let remaining_limit = map_option (\<lambda>l. l - length results) limit;
               remaining_skip = skip - length results
           in if (case remaining_limit of None \<Rightarrow> True | Some l \<Rightarrow> l > 0) then
                let null_iter = drop remaining_skip (ni_null_values n)
                in case remaining_limit of
                     Some l \<Rightarrow> results @ take l null_iter
                   | None \<Rightarrow> results @ null_iter
              else results
         else results)"

definition nullable_impl :: "('k, 'i) index_impl \<Rightarrow> ('k, 'i nullable_index) index_impl" where
  "nullable_impl I = \<lparr>ix_add = ni_add I, ix_set = ni_set I, ix_get = ni_get I, ix_remove = ni_remove I,
     ix_contains_key = ni_contains_key I, ix_len = ni_len, ix_clear = ni_clear I, ix_min = ni_min I,
     ix_max = ni_max I, ix_cost = ni_cost I, ix_get_range = ni_get_range I\<rparr>"

section \<open>The wrapper keeps the contract\<close>

lemma ni_inner_simps [simp]:
  "ni_inner (ni_set I k v n) = ix_set I k v (ni_inner n)"
  "ni_inner (ni_remove I k w n) = ix_remove I k w (ni_inner n)"
  "ni_inner (snd (ni_add I k v n)) = snd (ix_add I k v (ni_inner n))"
  "fst (ni_add I k v n) = fst (ix_add I k v (ni_inner n))"
  "ni_inner (ni_clear I n) = ix_clear I (ni_inner n)"
  by (simp_all add: ni_set_def ni_remove_def ni_add_def ni_clear_def Let_def case_prod_unfold)

context index_contract
begin

lemma nullable_contract:
  "index_contract (nullable_impl I) (\<lambda>n. inv (ni_inner n)) (\<lambda>n. uniq (ni_inner n))"
  by unfold_locales
    (simp_all add: nullable_impl_def ni_get_def ni_contains_key_def inv_add add_result get_add inv_set
      get_set inv_remove get_remove_all get_remove_one contains_iff inv_clear get_clear)

end

interpretation nullable_hash: index_contract
  "nullable_impl hash_index_impl" "\<lambda>n. hi_inv (ni_inner n)" "\<lambda>n. hi_unique (ni_inner n)"
  by (rule hash_ix.nullable_contract)

text \<open>Nothing done to the keys touches the NULL rows, and the other way round.\<close>

lemma ni_nulls_simps [simp]:
  "ni_null_values (ni_set I k v n) = ni_null_values n"
  "ni_null_values (ni_remove I k w n) = ni_null_values n"
  "ni_null_values (snd (ni_add I k v n)) = ni_null_values n"
  "ni_inner (ni_add_null v n) = ni_inner n"
  "ni_inner (ni_remove_null w n) = ni_inner n"
  "ni_inner (ni_set_null v n) = ni_inner n"
  by (simp_all add: ni_set_def ni_remove_def ni_add_def ni_add_null_def ni_remove_null_def
      ni_set_null_def Let_def case_prod_unfold split: option.split)

section \<open>The counter\<close>

text \<open>The counter is right when it is the length of the inner index plus the number of NULL rows.\<close>

definition ni_count_ok :: "('k, 'i) index_impl \<Rightarrow> 'i nullable_index \<Rightarrow> bool" where
  "ni_count_ok I n \<longleftrightarrow> ni_len n = ix_len I (ni_inner n) + of_nat (length (ni_null_values n))"

datatype 'k nullable_op =
    NAdd 'k row_id
  | NSet 'k row_id
  | NRemove 'k "row_id option"
  | NAddNull row_id
  | NRemoveNull "row_id option"
  | NSetNull row_id
  | NClear

fun ni_step :: "('k, 'i) index_impl \<Rightarrow> 'k nullable_op \<Rightarrow> 'i nullable_index \<Rightarrow> 'i nullable_index" where
  "ni_step I (NAdd k v) n = snd (ni_add I k v n)"
| "ni_step I (NSet k v) n = ni_set I k v n"
| "ni_step I (NRemove k w) n = ni_remove I k w n"
| "ni_step I (NAddNull v) n = ni_add_null v n"
| "ni_step I (NRemoveNull w) n = ni_remove_null w n"
| "ni_step I (NSetNull v) n = ni_set_null v n"
| "ni_step I NClear n = ni_clear I n"

text \<open>The removals whose effect the counter follows: of a whole key, or of a row id that is the only
  one under its key, or of a row id that is not under a key that has others.\<close>

fun removal_counted :: "('k, 'i) index_impl \<Rightarrow> 'k nullable_op \<Rightarrow> 'i nullable_index \<Rightarrow> bool" where
  "removal_counted I (NRemove k (Some v)) n \<longleftrightarrow>
     ni_get I k n = [v] \<or> v \<notin> set (ni_get I k n) \<and> ni_get I k n \<noteq> []"
| "removal_counted I _ n \<longleftrightarrow> True"

lemma of_nat_filter_diff:
  "of_nat (length xs - length (filter P xs)) = (of_nat (length xs) - of_nat (length (filter P xs)) :: u64)"
  by (simp add: of_nat_diff)

context counted_index
begin

lemma ni_step_inv: "inv (ni_inner n) \<Longrightarrow> inv (ni_inner (ni_step I p n))"
  by (cases p) (simp_all add: inv_add inv_set inv_remove inv_clear)

lemma ni_count_step:
  assumes inv: "inv (ni_inner n)" and ok: "ni_count_ok I n" and c: "removal_counted I p n"
  shows "ni_count_ok I (ni_step I p n)"
proof (cases p)
  case (NAdd k v)
  then show ?thesis using ok
    by (auto simp: ni_count_ok_def ni_add_def ni_len_def Let_def case_prod_unfold len_add [OF inv] add_result [OF inv])
next
  case (NSet k v)
  then show ?thesis using ok
    by (auto simp: ni_count_ok_def ni_set_def ni_len_def Let_def len_set [OF inv])
next
  case (NRemove k w)
  show ?thesis
  proof (cases w)
    case None
    then show ?thesis using ok NRemove
      by (simp add: ni_count_ok_def ni_remove_def ni_len_def Let_def len_remove [OF inv] get_remove_all [OF inv])
  next
    case (Some v)
    have "ix_get I k (ni_inner n) = [v] \<or> v \<notin> set (ix_get I k (ni_inner n)) \<and> ix_get I k (ni_inner n) \<noteq> []"
      using c NRemove Some by (simp add: ni_get_def)
    then show ?thesis
    proof
      assume "ix_get I k (ni_inner n) = [v]"
      then show ?thesis using ok NRemove Some
        by (simp add: ni_count_ok_def ni_remove_def ni_len_def Let_def len_remove [OF inv] get_remove_one [OF inv])
    next
      assume a: "v \<notin> set (ix_get I k (ni_inner n)) \<and> ix_get I k (ni_inner n) \<noteq> []"
      then have "filter (\<lambda>x. x \<noteq> v) (ix_get I k (ni_inner n)) = ix_get I k (ni_inner n)"
        by (auto intro: filter_True)
      then show ?thesis using ok NRemove Some a
        by (simp add: ni_count_ok_def ni_remove_def ni_len_def Let_def len_remove [OF inv] get_remove_one [OF inv])
    qed
  qed
next
  case (NRemoveNull w)
  then show ?thesis using ok
    by (cases w) (simp_all add: ni_count_ok_def ni_remove_null_def ni_len_def Let_def of_nat_filter_diff)
qed (use ok in \<open>simp_all add: ni_count_ok_def ni_add_null_def ni_set_null_def ni_clear_def ni_len_def
    Let_def len_clear [OF inv]\<close>)

end

section \<open>Properties\<close>

text \<open>
  Wrapped around the hash index, the NULL wrapper counts its rows exactly: as long as a removal
  by row id is of the only row of its key (or of a row the key does not have, the key being there),
  the length stays the number of row ids of the inner index plus the number of NULL rows.
\<close>

theorem nullable_len_exact:
  assumes "hi_inv (ni_inner n)" "ni_len n = hi_len (ni_inner n) + of_nat (length (ni_null_values n))"
    and "removal_counted hash_index_impl p n"
  shows "let n' = ni_step hash_index_impl p n in
    hi_inv (ni_inner n') \<and> ni_len n' = hi_len (ni_inner n') + of_nat (length (ni_null_values n'))"
proof -
  have "ni_count_ok hash_index_impl n"
    using assms(2) by (simp add: ni_count_ok_def hash_index_impl_def)
  from hash_ix.ni_count_step [OF assms(1) this assms(3)] hash_ix.ni_step_inv [OF assms(1)]
  show ?thesis by (simp add: ni_count_ok_def hash_index_impl_def Let_def)
qed

theorem nullable_len_exact_witness:
  "ni_len (ni_step hash_index_impl (NRemove (7::int) (Some 1))
     (ni_step hash_index_impl (NAdd 7 1) (ni_new (hi_new True)))) = 0"
  using nullable_len_exact [of "ni_step hash_index_impl (NAdd (7::int) 1) (ni_new (hi_new True))"
      "NRemove 7 (Some 1)"]
  by (simp add: Let_def ni_new_def hi_new_def ni_add_def hash_index_impl_def hi_add_def entry_append_def
      stats_add_rows_def stats_new_def ni_len_def hi_len_def hi_inv_def hi_size_def ni_get_def
      hi_remove_def hi_get_def hm_ok_def ni_remove_def stats_remove_rows_def)

text \<open>
  The counter does not survive every removal: removing a row id from a key that is not in the
  index makes the length of an empty index \<open>2^64 - 1\<close>, and removing one of two row ids of a key
  leaves the length at two.
\<close>

theorem nullable_remove_miscounts:
  "ni_len (ni_remove hash_index_impl (7::int) (Some 1) (ni_new (hi_new u))) = 2 ^ 64 - 1
   \<and> ni_len (ni_remove hash_index_impl (7::int) (Some 1)
       (snd (ni_add hash_index_impl 7 2 (snd (ni_add hash_index_impl 7 1 (ni_new (hi_new False))))))) = 2"
  by (simp add: ni_new_def hi_new_def ni_add_def hash_index_impl_def hi_add_def entry_append_def
      stats_add_rows_def stats_new_def ni_len_def hi_get_def ni_remove_def stats_remove_rows_def
      hi_remove_def Let_def)

text \<open>
  Without a skip, a scan of everything through the wrapper is the scan of the inner index followed
  by the NULL rows, cut at the limit; a scan of any other range is that of the inner index.
\<close>

theorem nullable_scan_no_skip:
  assumes "hi_inv (ni_inner n)"
  shows "ni_get_range hash_index_impl None False limit 0 n
      = page limit 0 (hi_get_range None False None 0 (ni_inner n) @ ni_get_null n)
    \<and> (r \<noteq> All \<longrightarrow> ni_get_range hash_index_impl (Some r) False limit skip n
          = hi_get_range (Some r) False limit skip (ni_inner n))"
proof -
  have inner: "hi_get_range None False limit 0 (ni_inner n)
      = page limit 0 (hi_get_range None False None 0 (ni_inner n))"
    using hash_range.get_range_all [OF assms, of None limit 0] hash_range.get_range_all [OF assms, of None None 0]
    by (simp add: hash_index_impl_def page_def)
  have gr: "ix_get_range hash_index_impl = hi_get_range" by (simp add: hash_index_impl_def)
  show ?thesis
  proof (intro conjI impI)
    show "ni_get_range hash_index_impl None False limit 0 n
        = page limit 0 (hi_get_range None False None 0 (ni_inner n) @ ni_get_null n)"
      unfolding ni_get_range_def gr inner
      by (cases limit) (auto simp: page_def Let_def ni_get_null_def min_def)
    show "ni_get_range hash_index_impl (Some r) False limit skip n
        = hi_get_range (Some r) False limit skip (ni_inner n)" if "r \<noteq> All"
      using that by (simp add: ni_get_range_def gr Let_def)
  qed
qed

theorem nullable_scan_no_skip_witness:
  "ni_get_range hash_index_impl None False (Some 2) 0
     \<lparr>ni_inner = hi_new True :: int hash_index, ni_null_values = [1, 2, 3], ni_stats = stats_new\<rparr> = [1, 2]"
  using nullable_scan_no_skip [of "\<lparr>ni_inner = hi_new True :: int hash_index,
      ni_null_values = [1, 2, 3], ni_stats = stats_new\<rparr>" "Some 2" All 0] hi_inv_new [of True]
  by (simp add: page_def ni_get_null_def hi_get_range_def hi_new_def)

text \<open>
  With a skip a scan through the wrapper loses rows: of two keys and two NULL rows, skipping two
  must leave the two NULL rows and skipping three the last one, but nothing is returned.
\<close>

theorem nullable_scan_skip_wrong:
  "let n = \<lparr>ni_inner = \<lparr>hi_map = [(1::int, [10]), (2, [20])], hi_unique = True,
             hi_stats = stats_with_values 2 0\<rparr>, ni_null_values = [30, 31], ni_stats = stats_with_values 4 0\<rparr>
   in ni_get_range hash_index_impl None False None 0 n = [10, 20, 30, 31]
      \<and> ni_get_range hash_index_impl None False None 2 n = []
      \<and> ni_get_range hash_index_impl None False None 3 n = []"
  by (simp add: Let_def ni_get_range_def hash_index_impl_def hi_get_range_def page_def)

end
