(* ===== verification/Cynos_Lock.thy ===== *)
theory Cynos_Lock
  imports Cynos_Row
begin

text \<open>
  The lock manager (\<open>crates/storage/src/lock.rs\<close>). A resource has shared holders and at most one
  exclusive holder; a request that cannot be granted is an error, there is no waiting. The
  specification is the mode in which each transaction holds each resource; the manager is shown to
  follow it from every state that requests and releases can reach, and mutual exclusion is an
  invariant of these states.
\<close>

section \<open>State and operations\<close>

datatype lock_type = Shared | Exclusive

record lock_state =
  shared_holders :: "u64 set"
  exclusive_holder :: "u64 option"

definition lock_state_new :: lock_state where
  "lock_state_new = \<lparr>shared_holders = {}, exclusive_holder = None\<rparr>"

definition ls_is_free :: "lock_state \<Rightarrow> bool" where
  "ls_is_free s \<longleftrightarrow> shared_holders s = {} \<and> exclusive_holder s = None"

definition can_grant_shared :: "lock_state \<Rightarrow> u64 \<Rightarrow> bool" where
  "can_grant_shared s tx_id \<longleftrightarrow> exclusive_holder s = None \<or> exclusive_holder s = Some tx_id"

definition can_grant_exclusive :: "lock_state \<Rightarrow> u64 \<Rightarrow> bool" where
  "can_grant_exclusive s tx_id \<longleftrightarrow>
     (exclusive_holder s = None \<and> shared_holders s = {})
     \<or> (exclusive_holder s = None \<and> card (shared_holders s) = 1 \<and> tx_id \<in> shared_holders s)
     \<or> exclusive_holder s = Some tx_id"

type_synonym lock_manager = "(string, lock_state) btree_map"

definition lock_manager_new :: lock_manager where
  "lock_manager_new = []"

definition lm_acquire ::
  "string \<Rightarrow> u64 \<Rightarrow> lock_type \<Rightarrow> lock_manager \<Rightarrow> (db_error + unit) \<times> lock_manager" where
  "lm_acquire resource tx_id lock_type locks =
     (let state = (case map_of locks resource of Some s \<Rightarrow> s | None \<Rightarrow> lock_state_new);
          locks = bm_insert resource state locks
      in case lock_type of
           Shared \<Rightarrow>
             if can_grant_shared state tx_id then
               (Inr (), bm_insert resource
                  (state\<lparr>shared_holders := insert tx_id (shared_holders state)\<rparr>) locks)
             else (Inl (InvalidOperation ''Cannot acquire shared lock''), locks)
         | Exclusive \<Rightarrow>
             if can_grant_exclusive state tx_id then
               (Inr (), bm_insert resource
                  (state\<lparr>shared_holders := shared_holders state - {tx_id},
                         exclusive_holder := Some tx_id\<rparr>) locks)
             else (Inl (InvalidOperation ''Cannot acquire exclusive lock''), locks))"

text \<open>What a release does to the state of one resource.\<close>

definition ls_release :: "u64 \<Rightarrow> lock_state \<Rightarrow> lock_state" where
  "ls_release tx_id state =
     (let state = state\<lparr>shared_holders := shared_holders state - {tx_id}\<rparr>
      in if exclusive_holder state = Some tx_id then state\<lparr>exclusive_holder := None\<rparr> else state)"

definition lm_release_all :: "u64 \<Rightarrow> lock_manager \<Rightarrow> lock_manager" where
  "lm_release_all tx_id locks =
     filter (\<lambda>(_, state). \<not> ls_is_free state) (map (\<lambda>(name, state). (name, ls_release tx_id state)) locks)"

definition lm_release :: "string \<Rightarrow> u64 \<Rightarrow> lock_manager \<Rightarrow> lock_manager" where
  "lm_release resource tx_id locks =
     (case map_of locks resource of
        None \<Rightarrow> locks
      | Some state \<Rightarrow>
          let state = ls_release tx_id state;
              locks = bm_insert resource state locks
          in if ls_is_free state then bm_remove resource locks else locks)"

definition lm_holds_lock :: "string \<Rightarrow> u64 \<Rightarrow> lock_manager \<Rightarrow> bool" where
  "lm_holds_lock resource tx_id locks =
     (case map_of locks resource of
        Some state \<Rightarrow> tx_id \<in> shared_holders state \<or> exclusive_holder state = Some tx_id
      | None \<Rightarrow> False)"

definition lm_holds_exclusive :: "string \<Rightarrow> u64 \<Rightarrow> lock_manager \<Rightarrow> bool" where
  "lm_holds_exclusive resource tx_id locks =
     (case map_of locks resource of
        Some state \<Rightarrow> exclusive_holder state = Some tx_id
      | None \<Rightarrow> False)"

definition lm_get_locked_resources :: "u64 \<Rightarrow> lock_manager \<Rightarrow> string list" where
  "lm_get_locked_resources tx_id locks =
     map fst (filter (\<lambda>(_, state). tx_id \<in> shared_holders state \<or> exclusive_holder state = Some tx_id) locks)"

section \<open>Reachable states\<close>

inductive lm_step :: "lock_manager \<Rightarrow> lock_manager \<Rightarrow> bool" where
  acquire: "lm_step m (snd (lm_acquire resource tx_id t m))"
| release: "lm_step m (lm_release resource tx_id m)"
| release_all: "lm_step m (lm_release_all tx_id m)"

inductive lm_reachable :: "lock_manager \<Rightarrow> bool" where
  initial: "lm_reachable lock_manager_new"
| step: "lm_reachable m \<Longrightarrow> lm_step m m' \<Longrightarrow> lm_reachable m'"

inductive_cases lm_stepE: "lm_step m m'"

definition ls_ok :: "lock_state \<Rightarrow> bool" where
  "ls_ok s \<longleftrightarrow> finite (shared_holders s) \<and> \<not> ls_is_free s
     \<and> (\<forall>t. exclusive_holder s = Some t \<longrightarrow> shared_holders s \<subseteq> {t})"

definition lm_ok :: "lock_manager \<Rightarrow> bool" where
  "lm_ok m \<longleftrightarrow> bm_ok m \<and> (\<forall>r s. map_of m r = Some s \<longrightarrow> ls_ok s)"

text \<open>The mode in which a transaction holds a resource.\<close>

definition ls_mode :: "lock_state \<Rightarrow> u64 \<Rightarrow> lock_type option" where
  "ls_mode s t = (if exclusive_holder s = Some t then Some Exclusive
     else if t \<in> shared_holders s then Some Shared else None)"

definition lm_mode :: "lock_manager \<Rightarrow> string \<Rightarrow> u64 \<Rightarrow> lock_type option" where
  "lm_mode m r t = (case map_of m r of None \<Rightarrow> None | Some s \<Rightarrow> ls_mode s t)"

type_synonym lock_table = "string \<Rightarrow> u64 \<Rightarrow> lock_type option"

definition grantable :: "lock_table \<Rightarrow> string \<Rightarrow> u64 \<Rightarrow> lock_type \<Rightarrow> bool" where
  "grantable tab r t lt \<longleftrightarrow>
     (case lt of
        Shared \<Rightarrow> \<forall>t'. t' \<noteq> t \<longrightarrow> tab r t' \<noteq> Some Exclusive
      | Exclusive \<Rightarrow> \<forall>t'. t' \<noteq> t \<longrightarrow> tab r t' = None)"

definition granted :: "lock_table \<Rightarrow> string \<Rightarrow> u64 \<Rightarrow> lock_type \<Rightarrow> lock_table" where
  "granted tab r t lt = tab(r := (tab r)(t := Some (if tab r t = Some Exclusive then Exclusive else lt)))"

lemma ls_mode_new [simp]: "ls_mode lock_state_new t = None"
  by (simp add: ls_mode_def lock_state_new_def)

lemma ls_ok_grant_shared:
  assumes "s = lock_state_new \<or> ls_ok s" "can_grant_shared s t"
  shows "ls_ok (s\<lparr>shared_holders := insert t (shared_holders s)\<rparr>)"
  using assms by (auto simp: ls_ok_def can_grant_shared_def ls_is_free_def lock_state_new_def)

lemma ls_ok_grant_exclusive:
  assumes "s = lock_state_new \<or> ls_ok s" "can_grant_exclusive s t"
  shows "ls_ok (s\<lparr>shared_holders := shared_holders s - {t}, exclusive_holder := Some t\<rparr>)"
  using assms
  by (auto simp: ls_ok_def can_grant_exclusive_def ls_is_free_def lock_state_new_def card_1_singleton_iff)

lemma can_grant_shared_mode:
  "can_grant_shared s t \<longleftrightarrow> (\<forall>t'. t' \<noteq> t \<longrightarrow> ls_mode s t' \<noteq> Some Exclusive)"
  by (cases "exclusive_holder s") (auto simp: can_grant_shared_def ls_mode_def)

lemma can_grant_exclusive_mode:
  assumes "s = lock_state_new \<or> ls_ok s"
  shows "can_grant_exclusive s t \<longleftrightarrow> (\<forall>t'. t' \<noteq> t \<longrightarrow> ls_mode s t' = None)"
proof
  assume "can_grant_exclusive s t"
  then consider "exclusive_holder s = None" "shared_holders s = {}"
    | "exclusive_holder s = None" "shared_holders s = {t}" | "exclusive_holder s = Some t"
    unfolding can_grant_exclusive_def by (metis card_1_singletonE singletonD)
  then show "\<forall>t'. t' \<noteq> t \<longrightarrow> ls_mode s t' = None"
  proof cases
    case 3
    then have "shared_holders s \<subseteq> {t}"
      using assms by (elim disjE) (simp_all add: lock_state_new_def ls_ok_def)
    then show ?thesis using 3 by (auto simp: ls_mode_def)
  qed (simp_all add: ls_mode_def)
next
  assume none: "\<forall>t'. t' \<noteq> t \<longrightarrow> ls_mode s t' = None"
  show "can_grant_exclusive s t"
  proof (cases "exclusive_holder s")
    case None
    then have "ls_mode s x \<noteq> None" if "x \<in> shared_holders s" for x
      using that by (simp add: ls_mode_def)
    then have "shared_holders s \<subseteq> {t}" using none by blast
    then have "shared_holders s = {} \<or> shared_holders s = {t}" by (simp add: subset_singleton_iff)
    then show ?thesis using None by (elim disjE) (simp_all add: can_grant_exclusive_def)
  next
    case (Some t')
    then have "ls_mode s t' \<noteq> None" by (simp add: ls_mode_def)
    then have "t' = t" using none by metis
    then show ?thesis using Some by (simp add: can_grant_exclusive_def)
  qed
qed

lemma ls_mode_grant_shared:
  assumes "can_grant_shared s t"
  shows "ls_mode (s\<lparr>shared_holders := insert t (shared_holders s)\<rparr>)
     = (ls_mode s)(t := Some (if ls_mode s t = Some Exclusive then Exclusive else Shared))"
proof
  fix t'
  show "ls_mode (s\<lparr>shared_holders := insert t (shared_holders s)\<rparr>) t'
     = ((ls_mode s)(t := Some (if ls_mode s t = Some Exclusive then Exclusive else Shared))) t'"
    using assms by (cases "t' = t") (simp_all add: ls_mode_def can_grant_shared_def)
qed

lemma ls_mode_grant_exclusive:
  assumes "s = lock_state_new \<or> ls_ok s" "can_grant_exclusive s t"
  shows "ls_mode (s\<lparr>shared_holders := shared_holders s - {t}, exclusive_holder := Some t\<rparr>)
     = (ls_mode s)(t := Some Exclusive)"
proof
  fix t'
  have "ls_mode s t' = None" if "t' \<noteq> t"
    using assms that by (simp add: can_grant_exclusive_mode)
  then show "ls_mode (s\<lparr>shared_holders := shared_holders s - {t}, exclusive_holder := Some t\<rparr>) t'
     = ((ls_mode s)(t := Some Exclusive)) t'"
    by (cases "t' = t") (auto simp: ls_mode_def split: if_splits)
qed

lemma ls_mode_release: "ls_mode (ls_release t s) = (ls_mode s)(t := None)"
  by (auto simp: ls_mode_def ls_release_def fun_eq_iff Let_def)

lemma ls_ok_release: "ls_ok s \<Longrightarrow> \<not> ls_is_free (ls_release t s) \<Longrightarrow> ls_ok (ls_release t s)"
  by (auto simp: ls_ok_def ls_release_def Let_def)

lemma ls_free_mode: "ls_is_free s \<Longrightarrow> ls_mode s t = None"
  by (simp add: ls_is_free_def ls_mode_def)

section \<open>The manager follows the lock table\<close>

lemma lm_acquire_spec:
  assumes ok: "lm_ok m"
  shows "lm_ok (snd (lm_acquire r t lt m))
    \<and> (if grantable (lm_mode m) r t lt
       then fst (lm_acquire r t lt m) = Inr () \<and> lm_mode (snd (lm_acquire r t lt m)) = granted (lm_mode m) r t lt
       else isl (fst (lm_acquire r t lt m)) \<and> lm_mode (snd (lm_acquire r t lt m)) = lm_mode m)"
proof -
  define s where "s = (case map_of m r of Some s \<Rightarrow> s | None \<Rightarrow> lock_state_new)"
  have s: "s = lock_state_new \<or> ls_ok s"
    using ok by (auto simp: s_def lm_ok_def split: option.splits)
  have mode: "lm_mode m r = ls_mode s"
    by (auto simp: lm_mode_def s_def fun_eq_iff split: option.splits)
  have mode_upd: "lm_mode (bm_insert r s' (bm_insert r s m)) = (lm_mode m)(r := ls_mode s')"
    and mode_keep: "lm_mode (bm_insert r s m) = lm_mode m" for s'
    using mode by (auto simp: lm_mode_def fun_eq_iff split: option.splits)
  have ok_upd: "lm_ok (bm_insert r s' (bm_insert r s m))" if "ls_ok s'" for s'
    using ok that by (auto simp: lm_ok_def)
  have ok_keep: "lm_ok (bm_insert r s m)" if "s \<noteq> lock_state_new"
    using ok s that by (auto simp: lm_ok_def)
  show ?thesis
  proof (cases lt)
    case Shared
    have g: "grantable (lm_mode m) r t lt \<longleftrightarrow> can_grant_shared s t"
      using Shared by (simp add: grantable_def mode can_grant_shared_mode)
    show ?thesis
    proof (cases "can_grant_shared s t")
      case True
      then show ?thesis
        using g ok_upd [OF ls_ok_grant_shared [OF s True]] Shared
        by (simp add: lm_acquire_def s_def [symmetric] mode_upd ls_mode_grant_shared granted_def mode)
    next
      case False
      then have "s \<noteq> lock_state_new" by (auto simp: can_grant_shared_def lock_state_new_def)
      then show ?thesis using False g ok_keep Shared
        by (simp add: lm_acquire_def s_def [symmetric] mode_keep)
    qed
  next
    case Exclusive
    have g: "grantable (lm_mode m) r t lt \<longleftrightarrow> can_grant_exclusive s t"
      using Exclusive by (simp add: grantable_def mode can_grant_exclusive_mode [OF s])
    show ?thesis
    proof (cases "can_grant_exclusive s t")
      case True
      then show ?thesis
        using g ok_upd [OF ls_ok_grant_exclusive [OF s True]] Exclusive
        by (simp add: lm_acquire_def s_def [symmetric] mode_upd ls_mode_grant_exclusive [OF s] granted_def mode)
    next
      case False
      then have "s \<noteq> lock_state_new" by (auto simp: can_grant_exclusive_def lock_state_new_def)
      then show ?thesis using False g ok_keep Exclusive
        by (simp add: lm_acquire_def s_def [symmetric] mode_keep)
    qed
  qed
qed

lemma lm_release_spec:
  assumes ok: "lm_ok m"
  shows "lm_ok (lm_release r t m) \<and> lm_mode (lm_release r t m) = (lm_mode m)(r := (lm_mode m r)(t := None))"
proof (cases "map_of m r")
  case None
  then show ?thesis using ok by (auto simp: lm_release_def lm_mode_def fun_eq_iff)
next
  case (Some s)
  have "ls_ok s" using ok Some by (simp add: lm_ok_def)
  note okr = ls_ok_release [OF this, of t]
  have mode: "lm_mode m r = ls_mode s" using Some by (simp add: lm_mode_def fun_eq_iff)
  show ?thesis
  proof (cases "ls_is_free (ls_release t s)")
    case True
    have "ls_mode (ls_release t s) = (\<lambda>_. None)" using ls_free_mode [OF True] by auto
    then have "(ls_mode s)(t := None) = (\<lambda>_. None)" by (simp only: ls_mode_release)
    then show ?thesis using True ok Some mode
      by (auto simp: lm_release_def Let_def lm_ok_def lm_mode_def fun_eq_iff split: if_splits)
  next
    case False
    then show ?thesis using ok okr Some mode
      by (auto simp: lm_release_def Let_def lm_ok_def lm_mode_def fun_eq_iff ls_mode_release split: if_splits)
  qed
qed

lemma map_of_release_all:
  "bm_ok m \<Longrightarrow> map_of (lm_release_all t m) r
     = (case map_of m r of None \<Rightarrow> None
        | Some s \<Rightarrow> if ls_is_free (ls_release t s) then None else Some (ls_release t s))"
proof (induction m)
  case (Cons p m)
  obtain r' s' where p: "p = (r', s')" by fastforce
  have "map_of m r' = None" using Cons.prems bm_ok_map_of_Cons [of r' s' m] by (simp add: p)
  then show ?case using Cons p by (auto simp: lm_release_all_def split: option.splits)
qed (simp add: lm_release_all_def)

lemma lm_release_all_spec:
  assumes ok: "lm_ok m"
  shows "lm_ok (lm_release_all t m) \<and> lm_mode (lm_release_all t m) = (\<lambda>r. (lm_mode m r)(t := None))"
proof -
  have bm: "bm_ok m" using ok by (simp add: lm_ok_def)
  then have "bm_ok (lm_release_all t m)"
  proof (induction m)
    case (Cons p m)
    have "fst ` set (lm_release_all t m) \<subseteq> fst ` set m" by (force simp: lm_release_all_def)
    then have "\<forall>q \<in> set (lm_release_all t m). fst p < fst q" using Cons.prems by fastforce
    then show ?case using Cons by (cases p) (auto simp: lm_release_all_def)
  qed (simp add: lm_release_all_def)
  moreover have "ls_ok s" if "map_of (lm_release_all t m) r = Some s" for r s
    using that ok ls_ok_release
    by (auto simp: map_of_release_all [OF bm] lm_ok_def split: option.splits if_splits)
  moreover have "lm_mode (lm_release_all t m) r = (lm_mode m r)(t := None)" for r
  proof (cases "map_of m r")
    case None
    then show ?thesis by (simp add: lm_mode_def map_of_release_all [OF bm] fun_eq_iff)
  next
    case (Some s)
    have "lm_mode (lm_release_all t m) r = ls_mode (ls_release t s)"
      using Some ls_free_mode [of "ls_release t s"] by (simp add: lm_mode_def map_of_release_all [OF bm] fun_eq_iff)
    then show ?thesis using Some by (simp add: ls_mode_release lm_mode_def fun_eq_iff)
  qed
  ultimately show ?thesis unfolding lm_ok_def by blast
qed

lemma lm_reachable_ok: "lm_reachable m \<Longrightarrow> lm_ok m"
proof (induction rule: lm_reachable.induct)
  case initial
  then show ?case by (simp add: lm_ok_def lock_manager_new_def)
next
  case (step m m')
  then show ?case
    using lm_acquire_spec lm_release_spec lm_release_all_spec by (auto elim!: lm_stepE)
qed

lemma lm_holds_mode:
  "lm_holds_lock r t m \<longleftrightarrow> lm_mode m r t \<noteq> None"
  "lm_holds_exclusive r t m \<longleftrightarrow> lm_mode m r t = Some Exclusive"
  by (auto simp: lm_holds_lock_def lm_holds_exclusive_def lm_mode_def ls_mode_def split: option.splits)

section \<open>Properties\<close>

text \<open>
  C8. Mutual exclusion: in every state that requests, releases and releases of everything can reach,
  when a transaction holds a resource exclusively no other transaction holds it in any mode.
\<close>

theorem lock_mutual_exclusion:
  assumes "lm_reachable m" "lm_holds_exclusive r t m" "t' \<noteq> t"
  shows "\<not> lm_holds_lock r t' m"
proof -
  have "lm_ok m" using assms(1) by (rule lm_reachable_ok)
  then show ?thesis
    using assms(2,3) by (auto simp: lm_ok_def ls_ok_def lm_holds_exclusive_def lm_holds_lock_def
        split: option.splits)
qed

theorem lock_mutual_exclusion_witness:
  "\<not> lm_holds_lock ''users'' 2 (snd (lm_acquire ''users'' 2 Shared
     (snd (lm_acquire ''users'' 1 Exclusive lock_manager_new))))"
proof -
  let ?m = "snd (lm_acquire ''users'' 2 Shared (snd (lm_acquire ''users'' 1 Exclusive lock_manager_new)))"
  have "lm_reachable ?m" 
    by (rule lm_reachable.step [OF lm_reachable.step [OF lm_reachable.initial lm_step.acquire] lm_step.acquire])
  moreover have "lm_holds_exclusive ''users'' 1 ?m"
    by (simp add: lm_acquire_def lm_holds_exclusive_def lock_manager_new_def lock_state_new_def Let_def
        can_grant_exclusive_def can_grant_shared_def)
  ultimately show ?thesis using lock_mutual_exclusion [of ?m "''users''" 1 2] by simp
qed

text \<open>
  C34. The manager implements the table of lock modes: from every reachable state a request is granted
  exactly when it is compatible with what the other transactions hold (shared: no other exclusive
  holder; exclusive: no other holder at all, so a sole shared holder upgrades), a granted request
  sets the mode of that transaction on that resource only and never weakens an exclusive mode, a
  refused one changes nothing, and the releases clear exactly the modes they name.
\<close>

theorem lock_manager_refines_modes:
  assumes "lm_reachable m"
  shows "(if grantable (lm_mode m) r t lt
       then fst (lm_acquire r t lt m) = Inr () \<and> lm_mode (snd (lm_acquire r t lt m)) = granted (lm_mode m) r t lt
       else isl (fst (lm_acquire r t lt m)) \<and> lm_mode (snd (lm_acquire r t lt m)) = lm_mode m)
    \<and> lm_mode (lm_release r t m) = (lm_mode m)(r := (lm_mode m r)(t := None))
    \<and> lm_mode (lm_release_all t m) = (\<lambda>r. (lm_mode m r)(t := None))"
  using lm_acquire_spec [OF lm_reachable_ok [OF assms]] lm_release_spec [OF lm_reachable_ok [OF assms]]
    lm_release_all_spec [OF lm_reachable_ok [OF assms]] by blast

theorem lock_manager_refines_modes_witness:
  "fst (lm_acquire ''users'' 7 Exclusive (snd (lm_acquire ''users'' 7 Shared lock_manager_new))) = Inr ()"
proof -
  let ?m = "snd (lm_acquire ''users'' 7 Shared lock_manager_new)"
  have "lm_reachable ?m" 
    by (rule lm_reachable.step [OF lm_reachable.initial lm_step.acquire])
  moreover have "grantable (lm_mode ?m) ''users'' 7 Exclusive"
    by (simp add: grantable_def lm_mode_def ls_mode_def lm_acquire_def lock_manager_new_def
        lock_state_new_def Let_def can_grant_shared_def)
  ultimately show ?thesis using lock_manager_refines_modes [of ?m "''users''" 7 Exclusive] by simp
qed

text \<open>
  The list of the resources a transaction holds is complete, without repetition and in ascending
  order.
\<close>

theorem lock_locked_resources_exact:
  assumes "lm_reachable m"
  shows "sorted_wrt (<) (lm_get_locked_resources t m)
    \<and> set (lm_get_locked_resources t m) = {r. lm_holds_lock r t m}"
proof -
  have bm: "bm_ok m" using lm_reachable_ok [OF assms] by (simp add: lm_ok_def)
  have "sorted_wrt (<) (map fst (filter P m))" for P
    using bm by (simp add: bm_ok_def sorted_wrt_map sorted_wrt_filter)
  moreover have "set (lm_get_locked_resources t m) = {r. lm_holds_lock r t m}"
    using bm_ok_mem [OF bm] by (force simp: lm_get_locked_resources_def lm_holds_lock_def split: option.splits)
  ultimately show ?thesis by (simp add: lm_get_locked_resources_def)
qed

theorem lock_locked_resources_exact_witness:
  "set (lm_get_locked_resources 1 (snd (lm_acquire ''b'' 1 Exclusive (snd (lm_acquire ''a'' 1 Shared lock_manager_new)))))
     = {''a'', ''b''}"
proof -
  let ?m = "snd (lm_acquire ''b'' 1 Exclusive (snd (lm_acquire ''a'' 1 Shared lock_manager_new)))"
  have "lm_reachable ?m" 
    by (rule lm_reachable.step [OF lm_reachable.step [OF lm_reachable.initial lm_step.acquire] lm_step.acquire])
  then have "set (lm_get_locked_resources 1 ?m) = {r. lm_holds_lock r 1 ?m}"
    using lock_locked_resources_exact by blast
  also have "\<dots> = {''a'', ''b''}"
    by (auto simp: lm_holds_lock_def lm_acquire_def lock_manager_new_def lock_state_new_def Let_def
        can_grant_exclusive_def can_grant_shared_def split: if_splits)
  finally show ?thesis .
qed

lemma release_others:
  assumes "lm_ok m"
  shows "lm_ok (fold lm_release_all ts m) \<and> lm_mode (fold lm_release_all ts m) r = (\<lambda>t. if t \<in> set ts then None else lm_mode m r t)"
  using assms
proof (induction ts arbitrary: m)
  case (Cons t ts)
  then show ?case using lm_release_all_spec [OF Cons.prems, of t] by (auto simp: fun_eq_iff)
qed auto

text \<open>
  C35. No request is locked out. In every reachable state, once the other transactions that hold a resource have
  ended - each releasing all it holds, in any order and whatever other transactions end as well, also if the
  requesting transaction is one of them - a request for the resource is granted, shared or exclusive, and the
  transaction then holds it in the mode it asked for or in the exclusive mode it had.
\<close>

theorem lock_request_eventually_granted:
  assumes "lm_reachable m" "\<forall>t'. t' \<noteq> t \<and> lm_holds_lock r t' m \<longrightarrow> t' \<in> set ended"
  shows "let m' = fold lm_release_all ended m; res = lm_acquire r t lt m' in fst res = Inr ()
    \<and> lm_mode (snd res) r t = Some (if lm_holds_exclusive r t m' then Exclusive else lt)"
proof -
  let ?m = "fold lm_release_all ended m"
  note rel = release_others [OF lm_reachable_ok [OF assms(1)], of ended r]
  have "lm_mode ?m r t' = None" if "t' \<noteq> t" for t'
    using rel that assms(2) lm_holds_mode(1) [of r t' m] by auto
  then have "grantable (lm_mode ?m) r t lt" by (simp add: grantable_def split: lock_type.split)
  then show ?thesis using lm_acquire_spec [OF conjunct1 [OF rel], of r t lt] lm_holds_mode(2) [of r t ?m]
    by (simp add: granted_def Let_def)
qed

text \<open>Transaction 1 holds the resource; transaction 2 is refused, and granted once 1 has ended.\<close>

theorem lock_request_eventually_granted_witness:
  "isl (fst (lm_acquire ''users'' 2 Exclusive (snd (lm_acquire ''users'' 1 Exclusive lock_manager_new))))
    \<and> fst (lm_acquire ''users'' 2 Exclusive (fold lm_release_all [1] (snd (lm_acquire ''users'' 1 Exclusive lock_manager_new)))) = Inr ()"
proof (intro conjI)
  let ?m = "snd (lm_acquire ''users'' 1 Exclusive lock_manager_new)"
  have m: "lm_reachable ?m"
    by (rule lm_reachable.step [OF lm_reachable.initial lm_step.acquire])
  have held: "\<forall>t'. t' \<noteq> 2 \<and> lm_holds_lock ''users'' t' ?m \<longrightarrow> t' \<in> set [1]"
    by (auto simp: lm_holds_lock_def lm_acquire_def lock_manager_new_def lock_state_new_def Let_def can_grant_exclusive_def)
  show "isl (fst (lm_acquire ''users'' 2 Exclusive ?m))"
    by (simp add: lm_acquire_def lock_manager_new_def lock_state_new_def Let_def can_grant_exclusive_def)
  show "fst (lm_acquire ''users'' 2 Exclusive (fold lm_release_all [1] ?m)) = Inr ()"
    using lock_request_eventually_granted [OF m held, of Exclusive] by (simp add: Let_def)
qed

end
