(* ===== verification/Cynos_Journal.thy ===== *)
theory Cynos_Journal
  imports Cynos_Row
begin

text \<open>
  The change journal of a transaction (\<open>crates/storage/src/journal.rs\<close>): an ordered list of
  entries, and for each table the net difference that the entries amount to. The specification is
  replay: a table is a map from row ids to rows, an entry changes one cell of one table, and the
  net difference of a table, applied to what the table held when the transaction began, gives what
  it holds now. \<open>Journal::rollback\<close>, which goes through the row store, is not in this theory.
\<close>

section \<open>Entries\<close>

datatype journal_entry =
    JInsert (je_table: string) (je_row_id: row_id) row
  | JUpdate (je_table: string) (je_row_id: row_id) row row
  | JDelete (je_table: string) (je_row_id: row_id) row

section \<open>Table differences\<close>

record table_diff =
  td_table_name :: string
  td_added :: "(row_id, row) btree_map"
  td_modified :: "(row_id, row \<times> row) btree_map"
  td_deleted :: "(row_id, row) btree_map"

definition td_new :: "string \<Rightarrow> table_diff" where
  "td_new name = \<lparr>td_table_name = name, td_added = [], td_modified = [], td_deleted = []\<rparr>"

definition td_add :: "row \<Rightarrow> table_diff \<Rightarrow> table_diff" where
  "td_add row d =
     (case map_of (td_deleted d) (rid row) of
        Some old_row \<Rightarrow> d\<lparr>td_deleted := bm_remove (rid row) (td_deleted d),
                           td_modified := bm_insert (rid row) (old_row, row) (td_modified d)\<rparr>
      | None \<Rightarrow> d\<lparr>td_added := bm_insert (rid row) row (td_added d)\<rparr>)"

definition td_modify :: "row \<Rightarrow> row \<Rightarrow> table_diff \<Rightarrow> table_diff" where
  "td_modify old new d =
     (if map_of (td_added d) (rid old) \<noteq> None
      then d\<lparr>td_added := bm_insert (rid old) new (td_added d)\<rparr>
      else case map_of (td_modified d) (rid old) of
             Some (original_old, _) \<Rightarrow>
               d\<lparr>td_modified := bm_insert (rid old) (original_old, new) (td_modified d)\<rparr>
           | None \<Rightarrow> d\<lparr>td_modified := bm_insert (rid old) (old, new) (td_modified d)\<rparr>)"

definition td_delete :: "row \<Rightarrow> table_diff \<Rightarrow> table_diff" where
  "td_delete row d =
     (if map_of (td_added d) (rid row) \<noteq> None
      then d\<lparr>td_added := bm_remove (rid row) (td_added d)\<rparr>
      else case map_of (td_modified d) (rid row) of
             Some (old_row, _) \<Rightarrow> d\<lparr>td_modified := bm_remove (rid row) (td_modified d),
                                   td_deleted := bm_insert (rid row) old_row (td_deleted d)\<rparr>
           | None \<Rightarrow> d\<lparr>td_deleted := bm_insert (rid row) row (td_deleted d)\<rparr>)"

definition td_is_empty :: "table_diff \<Rightarrow> bool" where
  "td_is_empty d \<longleftrightarrow> td_added d = [] \<and> td_modified d = [] \<and> td_deleted d = []"

text \<open>A loop that inserts every entry of one map, transformed, into another.\<close>

definition bm_copy :: "('v \<Rightarrow> 'w) \<Rightarrow> ('k::linorder, 'v) btree_map \<Rightarrow> ('k, 'w) btree_map \<Rightarrow> ('k, 'w) btree_map" where
  "bm_copy f src dst = foldl (\<lambda>m (k, v). bm_insert k (f v) m) dst src"

definition td_get_reverse :: "table_diff \<Rightarrow> table_diff" where
  "td_get_reverse d =
     (let reverse = td_new (td_table_name d);
          reverse = reverse\<lparr>td_deleted := bm_copy (\<lambda>row. row) (td_added d) (td_deleted reverse)\<rparr>;
          reverse = reverse\<lparr>td_modified :=
                      bm_copy (\<lambda>(old, new). (new, old)) (td_modified d) (td_modified reverse)\<rparr>
      in reverse\<lparr>td_added := bm_copy (\<lambda>row. row) (td_deleted d) (td_added reverse)\<rparr>)"

type_synonym modification = "row option \<times> row option"

definition td_get_as_modifications :: "table_diff \<Rightarrow> modification list" where
  "td_get_as_modifications d =
     map (\<lambda>(_, row). (None, Some row)) (td_added d)
     @ map (\<lambda>(_, old, new). (Some old, Some new)) (td_modified d)
     @ map (\<lambda>(_, row). (Some row, None)) (td_deleted d)"

section \<open>The journal\<close>

record journal =
  j_table_diffs :: "(string, table_diff) btree_map"
  j_entries :: "journal_entry list"

definition journal_new :: journal where
  "journal_new = \<lparr>j_table_diffs = [], j_entries = []\<rparr>"

text \<open>\<open>get_or_create_diff\<close> hands out a mutable reference; the update \<open>f\<close> made through it is an
  argument here.\<close>

definition journal_update_diff :: "string \<Rightarrow> (table_diff \<Rightarrow> table_diff) \<Rightarrow> journal \<Rightarrow> journal" where
  "journal_update_diff tbl f j =
     (let diffs = (if map_of (j_table_diffs j) tbl = None
                   then bm_insert tbl (td_new tbl) (j_table_diffs j) else j_table_diffs j)
      in j\<lparr>j_table_diffs := bm_insert tbl (f (the (map_of diffs tbl))) diffs\<rparr>)"

definition record_insert :: "string \<Rightarrow> row \<Rightarrow> journal \<Rightarrow> journal" where
  "record_insert tbl row j =
     (let row_id = rid row;
          j = journal_update_diff tbl (td_add row) j
      in j\<lparr>j_entries := j_entries j @ [JInsert tbl row_id row]\<rparr>)"

definition record_update :: "string \<Rightarrow> row \<Rightarrow> row \<Rightarrow> journal \<Rightarrow> journal" where
  "record_update tbl old new j =
     (let row_id = rid old;
          j = journal_update_diff tbl (td_modify old new) j
      in j\<lparr>j_entries := j_entries j @ [JUpdate tbl row_id old new]\<rparr>)"

definition record_delete :: "string \<Rightarrow> row \<Rightarrow> journal \<Rightarrow> journal" where
  "record_delete tbl row j =
     (let row_id = rid row;
          j = journal_update_diff tbl (td_delete row) j
      in j\<lparr>j_entries := j_entries j @ [JDelete tbl row_id row]\<rparr>)"

definition journal_get_table_diff :: "string \<Rightarrow> journal \<Rightarrow> table_diff option" where
  "journal_get_table_diff tbl j = map_of (j_table_diffs j) tbl"

definition journal_is_empty :: "journal \<Rightarrow> bool" where
  "journal_is_empty j \<longleftrightarrow> j_entries j = []"

definition journal_commit :: "journal \<Rightarrow> journal_entry list \<times> journal" where
  "journal_commit j = (j_entries j, j\<lparr>j_entries := [], j_table_diffs := []\<rparr>)"

definition journal_clear :: "journal \<Rightarrow> journal" where
  "journal_clear j = j\<lparr>j_entries := [], j_table_diffs := []\<rparr>"

section \<open>Specification: replay on abstract tables\<close>

type_synonym abs_table = "row_id \<Rightarrow> row option"
type_synonym abs_db = "string \<Rightarrow> abs_table"

fun entry_valid :: "journal_entry \<Rightarrow> abs_db \<Rightarrow> bool" where
  "entry_valid (JInsert t i r) db \<longleftrightarrow> rid r = i \<and> db t i = None"
| "entry_valid (JUpdate t i old new) db \<longleftrightarrow> rid old = i \<and> rid new = i \<and> db t i = Some old"
| "entry_valid (JDelete t i r) db \<longleftrightarrow> rid r = i \<and> db t i = Some r"

fun entry_cell :: "journal_entry \<Rightarrow> row option" where
  "entry_cell (JInsert t i r) = Some r"
| "entry_cell (JUpdate t i old new) = Some new"
| "entry_cell (JDelete t i r) = None"

definition entry_apply :: "journal_entry \<Rightarrow> abs_db \<Rightarrow> abs_db" where
  "entry_apply e db = db(je_table e := (db (je_table e))(je_row_id e := entry_cell e))"

fun entries_valid :: "journal_entry list \<Rightarrow> abs_db \<Rightarrow> bool" where
  "entries_valid [] db \<longleftrightarrow> True"
| "entries_valid (e # es) db \<longleftrightarrow> entry_valid e db \<and> entries_valid es (entry_apply e db)"

definition entries_apply :: "journal_entry list \<Rightarrow> abs_db \<Rightarrow> abs_db" where
  "entries_apply es db = fold entry_apply es db"

text \<open>The call that records an entry.\<close>

fun record_entry :: "journal_entry \<Rightarrow> journal \<Rightarrow> journal" where
  "record_entry (JInsert t i r) = record_insert t r"
| "record_entry (JUpdate t i old new) = record_update t old new"
| "record_entry (JDelete t i r) = record_delete t r"

text \<open>What the consumer of a modification list does with a table.\<close>

fun modification_apply :: "modification \<Rightarrow> abs_table \<Rightarrow> abs_table" where
  "modification_apply (None, Some r) t = t(rid r \<mapsto> r)"
| "modification_apply (Some old, Some new) t = t(rid old \<mapsto> new)"
| "modification_apply (Some old, None) t = t(rid old := None)"
| "modification_apply (None, None) t = t"

definition modifications_apply :: "modification list \<Rightarrow> abs_table \<Rightarrow> abs_table" where
  "modifications_apply ms t = fold modification_apply ms t"

section \<open>The net difference is exact\<close>

text \<open>One cell: its content before (\<open>x\<close>) and now (\<open>y\<close>) against the three maps of the difference.\<close>

fun cell_ok :: "row_id \<Rightarrow> row option \<Rightarrow> row option \<Rightarrow> row option \<Rightarrow> (row \<times> row) option \<Rightarrow> row option \<Rightarrow> bool" where
  "cell_ok k x y None None None \<longleftrightarrow> x = y"
| "cell_ok k x y (Some r) None None \<longleftrightarrow> x = None \<and> y = Some r \<and> rid r = k"
| "cell_ok k x y None (Some (old, new)) None \<longleftrightarrow> x = Some old \<and> y = Some new \<and> rid old = k \<and> rid new = k"
| "cell_ok k x y None None (Some r) \<longleftrightarrow> x = Some r \<and> y = None \<and> rid r = k"
| "cell_ok k x y _ _ _ \<longleftrightarrow> False"

lemma cell_ok_cases:
  "cell_ok k x y a m d \<longleftrightarrow>
     (case (a, m, d) of
        (None, None, None) \<Rightarrow> x = y
      | (Some r, None, None) \<Rightarrow> x = None \<and> y = Some r \<and> rid r = k
      | (None, Some (old, new), None) \<Rightarrow> x = Some old \<and> y = Some new \<and> rid old = k \<and> rid new = k
      | (None, None, Some r) \<Rightarrow> x = Some r \<and> y = None \<and> rid r = k
      | _ \<Rightarrow> False)"
  by (cases a; cases m; cases d) auto

definition td_inv :: "abs_table \<Rightarrow> abs_table \<Rightarrow> table_diff \<Rightarrow> bool" where
  "td_inv t0 t d \<longleftrightarrow> bm_ok (td_added d) \<and> bm_ok (td_modified d) \<and> bm_ok (td_deleted d)
     \<and> (\<forall>k. cell_ok k (t0 k) (t k) (map_of (td_added d) k) (map_of (td_modified d) k)
                (map_of (td_deleted d) k))"

lemma td_inv_new: "td_inv t t (td_new name)"
  by (simp add: td_inv_def td_new_def)

lemma td_invI:
  assumes "td_inv t0 t d" "bm_ok (td_added d')" "bm_ok (td_modified d')" "bm_ok (td_deleted d')"
    and "\<And>k. k \<noteq> i \<Longrightarrow> map_of (td_added d') k = map_of (td_added d) k"
    and "\<And>k. k \<noteq> i \<Longrightarrow> map_of (td_modified d') k = map_of (td_modified d) k"
    and "\<And>k. k \<noteq> i \<Longrightarrow> map_of (td_deleted d') k = map_of (td_deleted d) k"
    and "cell_ok i (t0 i) y (map_of (td_added d') i) (map_of (td_modified d') i) (map_of (td_deleted d') i)"
  shows "td_inv t0 (t(i := y)) d'"
  using assms unfolding td_inv_def by (metis fun_upd_apply)

lemma td_inv_add:
  assumes "td_inv t0 t d" "rid r = i" "t i = None"
  shows "td_inv t0 (t(i := Some r)) (td_add r d)"
proof (rule td_invI [OF assms(1)])
  have c: "cell_ok i (t0 i) (t i) (map_of (td_added d) i) (map_of (td_modified d) i)
      (map_of (td_deleted d) i)"
    and ok: "bm_ok (td_added d)" "bm_ok (td_modified d)" "bm_ok (td_deleted d)"
    using assms(1) unfolding td_inv_def by metis+
  let ?d = "td_add r d"
  show "bm_ok (td_added ?d)" "bm_ok (td_modified ?d)" "bm_ok (td_deleted ?d)"
    using ok by (simp_all add: td_add_def split: option.split prod.split)
  show "cell_ok i (t0 i) (Some r) (map_of (td_added ?d) i) (map_of (td_modified ?d) i)
      (map_of (td_deleted ?d) i)"
    using c assms(2-)
    by (cases "map_of (td_added d) i"; cases "map_of (td_modified d) i";
        cases "map_of (td_deleted d) i") (auto simp: td_add_def cell_ok_cases)
  fix k assume "k \<noteq> i"
  then show "map_of (td_added ?d) k = map_of (td_added d) k"
    "map_of (td_modified ?d) k = map_of (td_modified d) k"
    "map_of (td_deleted ?d) k = map_of (td_deleted d) k"
    using assms(2-) by (simp_all add: td_add_def split: option.split prod.split)
qed

lemma td_inv_modify:
  assumes "td_inv t0 t d" "rid old = i" "rid new = i" "t i = Some old"
  shows "td_inv t0 (t(i := Some new)) (td_modify old new d)"
proof (rule td_invI [OF assms(1)])
  have c: "cell_ok i (t0 i) (t i) (map_of (td_added d) i) (map_of (td_modified d) i)
      (map_of (td_deleted d) i)"
    and ok: "bm_ok (td_added d)" "bm_ok (td_modified d)" "bm_ok (td_deleted d)"
    using assms(1) unfolding td_inv_def by metis+
  let ?d = "td_modify old new d"
  show "bm_ok (td_added ?d)" "bm_ok (td_modified ?d)" "bm_ok (td_deleted ?d)"
    using ok by (simp_all add: td_modify_def split: option.split prod.split)
  show "cell_ok i (t0 i) (Some new) (map_of (td_added ?d) i) (map_of (td_modified ?d) i)
      (map_of (td_deleted ?d) i)"
    using c assms(2-)
    by (cases "map_of (td_added d) i"; cases "map_of (td_modified d) i";
        cases "map_of (td_deleted d) i") (auto simp: td_modify_def cell_ok_cases)
  fix k assume "k \<noteq> i"
  then show "map_of (td_added ?d) k = map_of (td_added d) k"
    "map_of (td_modified ?d) k = map_of (td_modified d) k"
    "map_of (td_deleted ?d) k = map_of (td_deleted d) k"
    using assms(2-) by (simp_all add: td_modify_def split: option.split prod.split)
qed

lemma td_inv_delete:
  assumes "td_inv t0 t d" "rid r = i" "t i = Some r"
  shows "td_inv t0 (t(i := None)) (td_delete r d)"
proof (rule td_invI [OF assms(1)])
  have c: "cell_ok i (t0 i) (t i) (map_of (td_added d) i) (map_of (td_modified d) i)
      (map_of (td_deleted d) i)"
    and ok: "bm_ok (td_added d)" "bm_ok (td_modified d)" "bm_ok (td_deleted d)"
    using assms(1) unfolding td_inv_def by metis+
  let ?d = "td_delete r d"
  show "bm_ok (td_added ?d)" "bm_ok (td_modified ?d)" "bm_ok (td_deleted ?d)"
    using ok by (simp_all add: td_delete_def split: option.split prod.split)
  show "cell_ok i (t0 i) (None) (map_of (td_added ?d) i) (map_of (td_modified ?d) i)
      (map_of (td_deleted ?d) i)"
    using c assms(2-)
    by (cases "map_of (td_added d) i"; cases "map_of (td_modified d) i";
        cases "map_of (td_deleted d) i") (auto simp: td_delete_def cell_ok_cases)
  fix k assume "k \<noteq> i"
  then show "map_of (td_added ?d) k = map_of (td_added d) k"
    "map_of (td_modified ?d) k = map_of (td_modified d) k"
    "map_of (td_deleted ?d) k = map_of (td_deleted d) k"
    using assms(2-) by (simp_all add: td_delete_def split: option.split prod.split)
qed

text \<open>Reversal swaps the roles of before and now.\<close>

lemma bm_copy_ok: "bm_ok dst \<Longrightarrow> bm_ok (bm_copy f src dst)"
  unfolding bm_copy_def by (induction src arbitrary: dst) (auto split: prod.splits)

lemma map_of_bm_copy:
  "distinct (map fst src) \<Longrightarrow>
     map_of (bm_copy f src dst) k = (case map_of src k of None \<Rightarrow> map_of dst k | Some v \<Rightarrow> Some (f v))"
  unfolding bm_copy_def
proof (induction src arbitrary: dst)
  case (Cons p src)
  obtain k' v' where p: "p = (k', v')" by fastforce
  have "map_of src k' = None" using Cons.prems p by (simp add: map_of_eq_None_iff)
  then show ?case using Cons p by (auto split: option.splits)
qed simp

lemma td_inv_reverse:
  assumes "td_inv t0 t d"
  shows "td_inv t t0 (td_get_reverse d)"
proof -
  have ok: "bm_ok (td_added d)" "bm_ok (td_modified d)" "bm_ok (td_deleted d)"
    using assms unfolding td_inv_def by metis+
  have "cell_ok k (t k) (t0 k) (map_of (td_added (td_get_reverse d)) k)
      (map_of (td_modified (td_get_reverse d)) k) (map_of (td_deleted (td_get_reverse d)) k)" for k
  proof -
    have "cell_ok k (t0 k) (t k) (map_of (td_added d) k) (map_of (td_modified d) k)
        (map_of (td_deleted d) k)"
      using assms unfolding td_inv_def by metis
    moreover have "map_of (td_added (td_get_reverse d)) k = map_of (td_deleted d) k"
      "map_of (td_modified (td_get_reverse d)) k
        = map_option (\<lambda>(old, new). (new, old)) (map_of (td_modified d) k)"
      "map_of (td_deleted (td_get_reverse d)) k = map_of (td_added d) k"
      unfolding td_get_reverse_def td_new_def Let_def
      by (simp_all add: map_of_bm_copy [OF bm_ok_distinct] ok split: option.split)
    ultimately show ?thesis by (auto simp: cell_ok_cases split: option.splits)
  qed
  then show ?thesis
    by (simp add: td_inv_def td_get_reverse_def td_new_def Let_def bm_copy_ok)
qed

text \<open>The modification list has the effect of the difference.\<close>

lemma fold_modifications:
  assumes "distinct (map fst m)"
    and "\<And>k v u. map_of m k = Some v \<Longrightarrow> modification_apply (f (k, v)) u = u(k := g v)"
  shows "fold modification_apply (map f m) t k
    = (case map_of m k of None \<Rightarrow> t k | Some v \<Rightarrow> g v)"
  using assms
proof (induction m arbitrary: t)
  case (Cons p m)
  obtain k' v' where p: "p = (k', v')" by fastforce
  have none: "map_of m k' = None" using Cons.prems(1) p by (simp add: map_of_eq_None_iff)
  have step: "modification_apply (f (k', v')) t = t(k' := g v')"
    by (rule Cons.prems(2)) (simp add: p)
  have "fold modification_apply (map f (p # m)) t k
      = fold modification_apply (map f m) (t(k' := g v')) k"
    by (simp add: p step)
  also have "\<dots> = (case map_of m k of None \<Rightarrow> (t(k' := g v')) k | Some v \<Rightarrow> g v)"
  proof (rule Cons.IH)
    fix i v u assume "map_of m i = Some v"
    then show "modification_apply (f (i, v)) u = u(i := g v)"
      using Cons.prems(2) [of i v u] none p by (cases "i = k'") auto
  qed (use Cons.prems(1) p in simp)
  finally show ?case using none p by (auto split: option.splits)
qed simp

lemma td_inv_modifications:
  assumes "td_inv t0 t d"
  shows "modifications_apply (td_get_as_modifications d) t0 = t"
proof
  fix k
  have ok: "distinct (map fst (td_added d))" "distinct (map fst (td_modified d))"
    "distinct (map fst (td_deleted d))"
    using assms unfolding td_inv_def by (simp_all add: bm_ok_distinct)
  have cell: "cell_ok k (t0 k) (t k) (map_of (td_added d) k) (map_of (td_modified d) k)
        (map_of (td_deleted d) k)" for k
    using assms unfolding td_inv_def by metis
  have a: "fold modification_apply (map (\<lambda>(_, row). (None, Some row)) (td_added d)) u k
      = (case map_of (td_added d) k of None \<Rightarrow> u k | Some v \<Rightarrow> Some v)" for u
  proof (rule fold_modifications [OF ok(1)])
    fix i v u assume "map_of (td_added d) i = Some v"
    then have "rid v = i" using cell [of i] by (auto simp: cell_ok_cases split: option.splits)
    then show "modification_apply (case (i, v) of (_, row) \<Rightarrow> (None, Some row)) u = u(i := Some v)" by simp
  qed
  have m: "fold modification_apply (map (\<lambda>(_, old, new). (Some old, Some new)) (td_modified d)) u k
      = (case map_of (td_modified d) k of None \<Rightarrow> u k | Some v \<Rightarrow> Some (snd v))" for u
  proof (rule fold_modifications [OF ok(2)])
    fix i v u assume "map_of (td_modified d) i = Some v"
    then have "rid (fst v) = i" using cell [of i] by (auto simp: cell_ok_cases split: option.splits)
    then show "modification_apply (case (i, v) of (_, old, new) \<Rightarrow> (Some old, Some new)) u = u(i := Some (snd v))"
      by (cases v) simp
  qed
  have d: "fold modification_apply (map (\<lambda>(_, row). (Some row, None)) (td_deleted d)) u k
      = (case map_of (td_deleted d) k of None \<Rightarrow> u k | Some v \<Rightarrow> None)" for u
  proof (rule fold_modifications [OF ok(3)])
    fix i v u assume "map_of (td_deleted d) i = Some v"
    then have "rid v = i" using cell [of i] by (auto simp: cell_ok_cases split: option.splits)
    then show "modification_apply (case (i, v) of (_, row) \<Rightarrow> (Some row, None)) u = u(i := None)" by simp
  qed
  show "modifications_apply (td_get_as_modifications d) t0 k = t k"
    using cell [of k]
    by (auto simp: modifications_apply_def td_get_as_modifications_def a m d cell_ok_cases
        split: option.splits)
qed

section \<open>The journal follows the entries\<close>

definition journal_inv :: "abs_db \<Rightarrow> abs_db \<Rightarrow> journal \<Rightarrow> bool" where
  "journal_inv db0 db j \<longleftrightarrow> bm_ok (j_table_diffs j)
     \<and> (\<forall>tbl. case map_of (j_table_diffs j) tbl of
                None \<Rightarrow> db tbl = db0 tbl
              | Some d \<Rightarrow> td_inv (db0 tbl) (db tbl) d)"

lemma journal_inv_new: "journal_inv db db journal_new"
  by (simp add: journal_inv_def journal_new_def)

lemma journal_inv_update_diff:
  assumes "journal_inv db0 db j"
    and "\<And>d. td_inv (db0 tbl) (db tbl) d \<Longrightarrow> td_inv (db0 tbl) t (f d)"
  shows "journal_inv db0 (db(tbl := t)) (journal_update_diff tbl f j)"
proof -
  define d where "d = (case map_of (j_table_diffs j) tbl of None \<Rightarrow> td_new tbl | Some d \<Rightarrow> d)"
  have inv: "case map_of (j_table_diffs j) u of None \<Rightarrow> db u = db0 u
      | Some d \<Rightarrow> td_inv (db0 u) (db u) d" for u
    using assms(1) unfolding journal_inv_def by blast
  have "td_inv (db0 tbl) (db tbl) d"
    using inv [of tbl] td_inv_new [of "db0 tbl"] by (auto simp: d_def split: option.splits)
  then have fd: "td_inv (db0 tbl) t (f d)" by (rule assms(2))
  have map: "map_of (j_table_diffs (journal_update_diff tbl f j)) = (map_of (j_table_diffs j))(tbl \<mapsto> f d)"
    by (auto simp: journal_update_diff_def Let_def d_def split: option.split)
  have "bm_ok (j_table_diffs (journal_update_diff tbl f j))"
    using assms(1) by (simp add: journal_inv_def journal_update_diff_def Let_def)
  moreover have "case map_of (j_table_diffs (journal_update_diff tbl f j)) u of
      None \<Rightarrow> (db(tbl := t)) u = db0 u | Some d \<Rightarrow> td_inv (db0 u) ((db(tbl := t)) u) d" for u
    using inv [of u] fd unfolding map by (cases "u = tbl") (auto split: option.splits)
  ultimately show ?thesis unfolding journal_inv_def by blast
qed

lemma journal_inv_entries [simp]: "journal_inv db0 db (j\<lparr>j_entries := es\<rparr>) = journal_inv db0 db j"
  by (simp add: journal_inv_def)

lemma journal_inv_record:
  assumes "journal_inv db0 db j" "entry_valid e db"
  shows "journal_inv db0 (entry_apply e db) (record_entry e j)"
proof (cases e)
  case (JInsert t i r)
  have "journal_inv db0 (db(t := (db t)(i := Some r))) (journal_update_diff t (td_add r) j)"
    using assms(2) JInsert by (intro journal_inv_update_diff [OF assms(1)] td_inv_add) simp_all
  then show ?thesis using JInsert by (simp add: record_insert_def entry_apply_def Let_def)
next
  case (JUpdate t i old new)
  have "journal_inv db0 (db(t := (db t)(i := Some new))) (journal_update_diff t (td_modify old new) j)"
    using assms(2) JUpdate by (intro journal_inv_update_diff [OF assms(1)] td_inv_modify) simp_all
  then show ?thesis using JUpdate by (simp add: record_update_def entry_apply_def Let_def)
next
  case (JDelete t i r)
  have "journal_inv db0 (db(t := (db t)(i := None))) (journal_update_diff t (td_delete r) j)"
    using assms(2) JDelete by (intro journal_inv_update_diff [OF assms(1)] td_inv_delete) simp_all
  then show ?thesis using JDelete by (simp add: record_delete_def entry_apply_def Let_def)
qed

lemma record_entry_entries:
  "entry_valid e db \<Longrightarrow> j_entries (record_entry e j) = j_entries j @ [e]"
  by (cases e) (auto simp: record_insert_def record_update_def record_delete_def
      journal_update_diff_def Let_def)

lemma journal_run:
  "journal_inv db0 db j \<Longrightarrow> entries_valid es db \<Longrightarrow>
     journal_inv db0 (entries_apply es db) (fold record_entry es j)
     \<and> j_entries (fold record_entry es j) = j_entries j @ es"
proof (induction es arbitrary: db j)
  case (Cons e es)
  then show ?case
    using Cons.IH [OF journal_inv_record [of db0 db j e]] record_entry_entries [of e db j]
    by (simp add: entries_apply_def)
qed (simp add: entries_apply_def)

section \<open>Properties\<close>

text \<open>
  C6. The journal keeps the entries in order, and the net difference it keeps of a table is exact:
  the modification list of the difference takes the table as it was before the transaction to what
  it is after the recorded operations, the modification list of the reversed difference takes it
  back, and a table without a difference has not changed.
\<close>

theorem journal_net_diff_exact:
  assumes "entries_valid es db0"
  shows "let j = fold record_entry es journal_new; db = entries_apply es db0 in
    j_entries j = es \<and>
    (case journal_get_table_diff tbl j of
       None \<Rightarrow> db tbl = db0 tbl
     | Some d \<Rightarrow> modifications_apply (td_get_as_modifications d) (db0 tbl) = db tbl
         \<and> modifications_apply (td_get_as_modifications (td_get_reverse d)) (db tbl) = db0 tbl)"
proof -
  define j where "j = fold record_entry es journal_new"
  define db where "db = entries_apply es db0"
  have inv: "journal_inv db0 db j" and es: "j_entries j = es"
    using journal_run [OF journal_inv_new assms]
    by (simp_all add: j_def db_def journal_new_def)
  have cell: "case map_of (j_table_diffs j) tbl of None \<Rightarrow> db tbl = db0 tbl
      | Some d \<Rightarrow> td_inv (db0 tbl) (db tbl) d"
    using inv unfolding journal_inv_def by blast
  show ?thesis
    using cell es td_inv_modifications td_inv_reverse
    unfolding Let_def j_def [symmetric] db_def [symmetric] journal_get_table_diff_def
    by (auto split: option.splits)
qed

text \<open>A delete followed by the insert of another row under the same id is one modification.\<close>

theorem journal_net_diff_exact_witness:
  "let old = \<lparr>rid = 1, rversion = 0, rvalues = [Int32 1]\<rparr>;
       new = \<lparr>rid = 1, rversion = 0, rvalues = [Int32 2]\<rparr>;
       j = fold record_entry [JDelete ''t'' 1 old, JInsert ''t'' 1 new] journal_new
   in j_entries j = [JDelete ''t'' 1 old, JInsert ''t'' 1 new]
      \<and> td_get_as_modifications (the (journal_get_table_diff ''t'' j)) = [(Some old, Some new)]"
  using journal_net_diff_exact [of
      "[JDelete ''t'' 1 \<lparr>rid = 1, rversion = 0, rvalues = [Int32 1]\<rparr>,
        JInsert ''t'' 1 \<lparr>rid = 1, rversion = 0, rvalues = [Int32 2]\<rparr>]"
      "\<lambda>_. [1 \<mapsto> \<lparr>rid = 1, rversion = 0, rvalues = [Int32 1]\<rparr>]" "''t''"]
  by (simp add: Let_def entry_apply_def record_insert_def record_delete_def journal_new_def
      journal_update_diff_def journal_get_table_diff_def td_new_def td_delete_def td_add_def
      td_get_as_modifications_def bm_remove_def)

end
