(* ===== verification/Cynos_Pattern.thy ===== *)
theory Cynos_Pattern
  imports Cynos_Prelude
begin

text \<open>
  LIKE and regular-expression matching (\<open>crates/core/src/pattern_match.rs\<close>). A Rust \<open>char\<close> is its
  code point, a natural number; \<open>str::chars\<close> decodes the UTF-8 bytes of a string. The code walks
  two index cursors over the text and the pattern; here the cursors are the remaining suffixes, and
  the position that a regular-expression match returns is carried along. The Unicode table behind
  \<open>char::is_alphanumeric\<close> outside ASCII is a parameter. LIKE is compared with the language of a
  pattern, the regular-expression engine with a relation that says what the pattern matches.
\<close>

section \<open>Characters\<close>

type_synonym uchar = nat

abbreviation ch :: "char \<Rightarrow> uchar" where
  "ch c \<equiv> of_char c"

text \<open>\<open>str::chars\<close> on valid UTF-8.\<close>

fun utf8_chars :: "string \<Rightarrow> uchar list" where
  "utf8_chars [] = []"
| "utf8_chars (a # s) =
     (let x = of_char a :: nat in
      if x < 128 then x # utf8_chars s
      else case s of
        [] \<Rightarrow> [x]
      | b # s1 \<Rightarrow>
          if x < 224 then ((x mod 32) * 64 + of_char b mod 64) # utf8_chars s1
          else (case s1 of
            [] \<Rightarrow> [x]
          | c # s2 \<Rightarrow>
              if x < 240
              then ((x mod 16) * 4096 + (of_char b mod 64) * 64 + of_char c mod 64) # utf8_chars s2
              else (case s2 of
                [] \<Rightarrow> [x]
              | d # s3 \<Rightarrow>
                  ((x mod 8) * 262144 + (of_char b mod 64) * 4096 + (of_char c mod 64) * 64
                   + of_char d mod 64) # utf8_chars s3)))"

lemma utf8_chars_ascii:
  "\<forall>c \<in> set s. (of_char c :: nat) < 128 \<Longrightarrow> utf8_chars s = map of_char s"
  by (induction s) auto

definition char_is_ascii_digit :: "uchar \<Rightarrow> bool" where
  "char_is_ascii_digit c \<longleftrightarrow> 48 \<le> c \<and> c \<le> 57"

definition char_is_alphanumeric :: "(uchar \<Rightarrow> bool) \<Rightarrow> uchar \<Rightarrow> bool" where
  "char_is_alphanumeric uc c \<longleftrightarrow>
     (if c < 128 then char_is_ascii_digit c \<or> 65 \<le> c \<and> c \<le> 90 \<or> 97 \<le> c \<and> c \<le> 122 else uc c)"

definition char_is_whitespace :: "uchar \<Rightarrow> bool" where
  "char_is_whitespace c \<longleftrightarrow> 9 \<le> c \<and> c \<le> 13 \<or> c = 32 \<or> c = 133 \<or> c = 160 \<or> c = 5760
     \<or> 8192 \<le> c \<and> c \<le> 8202 \<or> c = 8232 \<or> c = 8233 \<or> c = 8239 \<or> c = 8287 \<or> c = 12288"

section \<open>LIKE\<close>

text \<open>The loop over the skips tries every suffix of the text, the whole text first.\<close>

fun like_recursive :: "uchar list \<Rightarrow> uchar list \<Rightarrow> bool" where
  "like_recursive v [] \<longleftrightarrow> v = []"
| "like_recursive v (c # p) \<longleftrightarrow>
     (if c = ch CHR ''%'' then list_ex (\<lambda>skip. like_recursive (drop skip v) p) [0..<Suc (length v)]
      else if c = ch CHR ''_'' then v \<noteq> [] \<and> like_recursive (tl v) p
      else v \<noteq> [] \<and> hd v = c \<and> like_recursive (tl v) p)"

definition like_matches :: "string \<Rightarrow> string \<Rightarrow> bool" where
  "like_matches val pattern = like_recursive (utf8_chars val) (utf8_chars pattern)"

text \<open>The language of a pattern.\<close>

fun like_lang :: "uchar list \<Rightarrow> uchar list set" where
  "like_lang [] = {[]}"
| "like_lang (c # p) =
     (if c = ch CHR ''%'' then {u @ w | u w. w \<in> like_lang p}
      else if c = ch CHR ''_'' then {x # w | x w. w \<in> like_lang p}
      else {c # w | w. w \<in> like_lang p})"

lemma like_recursive_lang: "like_recursive v p \<longleftrightarrow> v \<in> like_lang p"
proof (induction p arbitrary: v)
  case (Cons c p)
  have split: "(\<exists>skip \<in> {0..<Suc (length v)}. drop skip v \<in> like_lang p)
      \<longleftrightarrow> (\<exists>u w. v = u @ w \<and> w \<in> like_lang p)"
  proof
    assume "\<exists>skip \<in> {0..<Suc (length v)}. drop skip v \<in> like_lang p"
    then obtain k where "drop k v \<in> like_lang p" by blast
    then show "\<exists>u w. v = u @ w \<and> w \<in> like_lang p"
      by (intro exI [of _ "take k v"] exI [of _ "drop k v"]) simp
  next
    assume "\<exists>u w. v = u @ w \<and> w \<in> like_lang p"
    then obtain u w where "v = u @ w" "w \<in> like_lang p" by blast
    then show "\<exists>skip \<in> {0..<Suc (length v)}. drop skip v \<in> like_lang p"
      by (intro bexI [of _ "length u"]) auto
  qed
  show ?case
    using split by (cases v) (auto simp: Cons.IH list_ex_iff simp del: upt_Suc)
qed simp

lemma like_lang_literal:
  "\<forall>c \<in> set p. c \<noteq> ch CHR ''%'' \<and> c \<noteq> ch CHR ''_'' \<Longrightarrow> like_lang (p @ q) = {p @ w | w. w \<in> like_lang q}"
  by (induction p) auto

section \<open>Regular expressions\<close>

definition parse_anchors :: "string \<Rightarrow> string \<times> bool \<times> bool" where
  "parse_anchors pattern =
     (let start = (pattern \<noteq> [] \<and> hd pattern = CHR ''^'');
          end_anchor = (pattern \<noteq> [] \<and> last pattern = CHR ''$''
            \<and> take 2 (rev pattern) \<noteq> [CHR ''$'', CHR 0x5C]);
          p = (if start then drop 1 pattern else pattern);
          p = (if end_anchor \<and> p \<noteq> [] then butlast p else p)
      in (p, start, end_anchor))"

text \<open>The test of a bracket class, the loop over the class characters.\<close>

fun class_matches :: "uchar list \<Rightarrow> uchar \<Rightarrow> bool" where
  "class_matches (a # b # d # cls) c \<longleftrightarrow>
     (if b = ch CHR ''-'' then (if a \<le> c \<and> c \<le> d then True else class_matches cls c)
      else if c = a then True else class_matches (b # d # cls) c)"
| "class_matches (a # cls) c \<longleftrightarrow> (if c = a then True else class_matches cls c)"
| "class_matches [] c \<longleftrightarrow> False"

definition parse_bracket_class :: "uchar list \<Rightarrow> (nat \<times> (uchar \<Rightarrow> bool)) option" where
  "parse_bracket_class p =
     (let negate = (1 < length p \<and> p ! 1 = ch CHR ''^'');
          start = (if negate then 2 else 1);
          class_chars = takeWhile (\<lambda>c. c \<noteq> ch CHR '']'') (drop start p);
          end_pos = start + length class_chars
      in if end_pos \<ge> length p then None
         else Some (end_pos + 1, \<lambda>c. if negate then \<not> class_matches class_chars c
                                     else class_matches class_chars c))"

definition parse_token :: "(uchar \<Rightarrow> bool) \<Rightarrow> uchar list \<Rightarrow> (nat \<times> (uchar \<Rightarrow> bool)) option" where
  "parse_token uc p =
     (case p of
        [] \<Rightarrow> None
      | t # ps \<Rightarrow>
          if t = ch CHR ''.'' then Some (1, \<lambda>_. True)
          else if t = 92 \<and> ps \<noteq> [] then
            (let nxt = hd ps in
             if nxt = ch CHR ''d'' then Some (2, char_is_ascii_digit)
             else if nxt = ch CHR ''w'' then Some (2, \<lambda>c. char_is_alphanumeric uc c \<or> c = ch CHR ''_'')
             else if nxt = ch CHR ''s'' then Some (2, char_is_whitespace)
             else if nxt = ch CHR ''D'' then Some (2, \<lambda>c. \<not> char_is_ascii_digit c)
             else if nxt = ch CHR ''W'' then Some (2, \<lambda>c. \<not> char_is_alphanumeric uc c \<and> c \<noteq> ch CHR ''_'')
             else if nxt = ch CHR ''S'' then Some (2, \<lambda>c. \<not> char_is_whitespace c)
             else Some (2, \<lambda>c. c = nxt))
          else if t = ch CHR ''['' then parse_bracket_class p
          else Some (1, \<lambda>c. c = t))"

lemma parse_token_pos: "parse_token uc p = Some (n, m) \<Longrightarrow> 0 < n \<and> p \<noteq> []"
  by (cases p) (auto simp: parse_token_def parse_bracket_class_def Let_def split: if_splits)

text \<open>The first success of a loop.\<close>

fun first_some :: "('a \<Rightarrow> 'b option) \<Rightarrow> 'a list \<Rightarrow> 'b option" where
  "first_some f [] = None"
| "first_some f (x # xs) = (case f x of Some y \<Rightarrow> Some y | None \<Rightarrow> first_some f xs)"

lemma first_some_cong [fundef_cong]:
  "xs = ys \<Longrightarrow> (\<And>x. x \<in> set ys \<Longrightarrow> f x = g x) \<Longrightarrow> first_some f xs = first_some g ys"
  by (induction ys arbitrary: xs) (auto split: option.splits)

lemma first_some_Some: "first_some f xs = Some y \<Longrightarrow> \<exists>x \<in> set xs. f x = Some y"
  by (induction xs) (auto split: option.splits)

lemma first_some_None: "first_some f xs = None \<longleftrightarrow> (\<forall>x \<in> set xs. f x = None)"
  by (induction xs) (auto split: option.splits)

text \<open>
  \<open>regex_match_at\<close> with \<open>regex_match_star\<close> in place: \<open>cs\<close> is the text from position \<open>ci\<close> on and \<open>p\<close>
  the pattern from the current position on. The star takes as many characters as its matcher
  accepts and gives them back one at a time.
\<close>

function regex_match_at :: "(uchar \<Rightarrow> bool) \<Rightarrow> uchar list \<Rightarrow> uchar list \<Rightarrow> nat \<Rightarrow> nat option" where
  "regex_match_at uc cs p ci =
     (if p = [] then Some ci
      else case parse_token uc p of
        None \<Rightarrow> None
      | Some (token_len, matcher) \<Rightarrow>
          let rest = drop token_len p; nxt = tl rest; star = \<lambda>cs ci.
                first_some (\<lambda>k. regex_match_at uc (drop k cs) nxt (ci + k))
                  (rev [0..<Suc (length (takeWhile matcher cs))])
          in if rest \<noteq> [] \<and> hd rest = ch CHR ''*'' then star cs ci
             else if rest \<noteq> [] \<and> hd rest = ch CHR ''+'' then
               (if cs \<noteq> [] \<and> matcher (hd cs) then star (tl cs) (ci + 1) else None)
             else if rest \<noteq> [] \<and> hd rest = ch CHR ''?'' then
               (case (if cs \<noteq> [] \<and> matcher (hd cs) then regex_match_at uc (tl cs) nxt (ci + 1) else None) of
                  Some r \<Rightarrow> Some r
                | None \<Rightarrow> regex_match_at uc cs nxt ci)
             else if cs \<noteq> [] \<and> matcher (hd cs) then regex_match_at uc (tl cs) rest (ci + 1)
             else None)"
  by pat_completeness auto
termination
proof (relation "measure (\<lambda>(uc, cs, p, ci). length p)", goal_cases)
  case 1
  then show ?case by simp
qed (auto dest!: parse_token_pos simp: Let_def diff_less_mono2)

declare regex_match_at.simps [simp del]

definition regex_matches :: "(uchar \<Rightarrow> bool) \<Rightarrow> string \<Rightarrow> string \<Rightarrow> bool" where
  "regex_matches uc val pattern =
     (let (pat, anchored_start, anchored_end) = parse_anchors pattern;
          chars = utf8_chars val;
          pat_chars = utf8_chars pat
      in if anchored_start \<and> anchored_end then
           regex_match_at uc chars pat_chars 0 = Some (length chars)
         else if anchored_start then regex_match_at uc chars pat_chars 0 \<noteq> None
         else list_ex (\<lambda>start. case regex_match_at uc (drop start chars) pat_chars start of
                  None \<Rightarrow> False
                | Some end_pos \<Rightarrow> \<not> anchored_end \<or> end_pos = length chars) [0..<Suc (length chars)])"

section \<open>What a pattern matches\<close>

datatype quantifier = One | Opt | Star | Plus

text \<open>A pattern read as its first token with its quantifier, and the rest.\<close>

definition rx_token :: "(uchar \<Rightarrow> bool) \<Rightarrow> uchar list \<Rightarrow> ((uchar \<Rightarrow> bool) \<times> quantifier \<times> uchar list) option" where
  "rx_token uc p =
     (case parse_token uc p of
        None \<Rightarrow> None
      | Some (n, m) \<Rightarrow>
          Some (case drop n p of
                  [] \<Rightarrow> (m, One, [])
                | q # rest \<Rightarrow>
                    if q = ch CHR ''*'' then (m, Star, rest)
                    else if q = ch CHR ''+'' then (m, Plus, rest)
                    else if q = ch CHR ''?'' then (m, Opt, rest)
                    else (m, One, q # rest)))"

fun quantity :: "quantifier \<Rightarrow> nat \<Rightarrow> bool" where
  "quantity One n \<longleftrightarrow> n = 1"
| "quantity Opt n \<longleftrightarrow> n \<le> 1"
| "quantity Star n \<longleftrightarrow> True"
| "quantity Plus n \<longleftrightarrow> 1 \<le> n"

inductive rx :: "(uchar \<Rightarrow> bool) \<Rightarrow> uchar list \<Rightarrow> uchar list \<Rightarrow> bool" for uc where
  rx_nil: "rx uc [] []"
| rx_step: "rx_token uc p = Some (m, q, rest) \<Longrightarrow> p \<noteq> [] \<Longrightarrow> quantity q (length w) \<Longrightarrow> \<forall>c \<in> set w. m c
    \<Longrightarrow> rx uc rest u \<Longrightarrow> rx uc p (w @ u)"

inductive_cases rx_NilE: "rx uc [] u"
inductive_cases rx_stepE: "rx uc p u"

text \<open>
  Crossing. When a pattern matches a segment and also a longer one that starts earlier and ends later,
  it matches the segment from the later start to the later end.
\<close>

lemma rx_crossing: "rx uc p a \<Longrightarrow> rx uc p (c @ a @ e) \<Longrightarrow> rx uc p (a @ e)"
proof (induction arbitrary: c e rule: rx.induct)
  case rx_nil
  then show ?case by (auto elim: rx_NilE intro: rx.rx_nil)
next
  case (rx_step p m q rest w u)
  obtain w2 b where w2: "c @ (w @ u) @ e = w2 @ b" "quantity q (length w2)" "\<forall>x \<in> set w2. m x" "rx uc rest b"
    using rx_step.prems rx_step.hyps(1,2) by (auto elim: rx_stepE)
  consider (ahead) c' where "c @ w = w2 @ c'" "c' @ u @ e = b"
    | (cross) f where "w2 = c @ w @ f" "u @ e = f @ b" "f \<noteq> []"
  proof -
    have "(c @ w) @ (u @ e) = w2 @ b" using w2(1) by simp
    then obtain us where "c @ w = w2 @ us \<and> us @ u @ e = b \<or> (c @ w) @ us = w2 \<and> u @ e = us @ b"
      unfolding append_eq_append_conv2 by blast
    then show ?thesis using that by (cases "us = []") auto
  qed
  then show ?case
  proof cases
    case ahead
    have "rx uc rest (u @ e)" using rx_step.IH [of c' e] w2(4) ahead(2) by simp
    then have "rx uc p (w @ u @ e)"
      by (rule rx.rx_step [OF rx_step.hyps(1-4)])
    then show ?thesis by simp
  next
    case cross
    have "quantity q (length (w @ f))"
      using rx_step.hyps(3) w2(2) cross(1,3) by (cases q) (auto simp: Suc_le_eq)
    moreover have "\<forall>x \<in> set (w @ f). m x" using w2(3) cross(1) by simp
    ultimately have "rx uc p ((w @ f) @ b)"
      using rx.rx_step rx_step.hyps(1,2) w2(4) by blast
    then show ?thesis using cross(2) by simp
  qed
qed

text \<open>The lengths that the engine tries for the first token, longest first.\<close>

definition tries :: "(uchar \<Rightarrow> bool) \<Rightarrow> quantifier \<Rightarrow> uchar list \<Rightarrow> nat list" where
  "tries m q cs =
     (case q of
        One \<Rightarrow> if cs \<noteq> [] \<and> m (hd cs) then [1] else []
      | Opt \<Rightarrow> if cs \<noteq> [] \<and> m (hd cs) then [1, 0] else [0]
      | Star \<Rightarrow> rev [0..<Suc (length (takeWhile m cs))]
      | Plus \<Rightarrow> if cs \<noteq> [] \<and> m (hd cs) then map Suc (rev [0..<Suc (length (takeWhile m (tl cs)))]) else [])"

lemma take_all_iff: "j \<le> length cs \<Longrightarrow> (\<forall>c \<in> set (take j cs). m c) \<longleftrightarrow> j \<le> length (takeWhile m cs)"
proof (induction cs arbitrary: j)
  case (Cons c cs)
  then show ?case by (cases j) auto
qed simp

lemma set_tries:
  "set (tries m q cs) = {j. j \<le> length cs \<and> quantity q j \<and> (\<forall>c \<in> set (take j cs). m c)}"
proof -
  have le: "length (takeWhile m xs) \<le> length xs" for xs by (rule length_takeWhile_le)
  have hd: "(\<forall>c \<in> set (take j cs). m c) \<longleftrightarrow> cs = [] \<or> j = 0 \<or> m (hd cs) \<and> (\<forall>c \<in> set (take (j - 1) (tl cs)). m c)" for j
    by (cases cs; cases j) auto
  show ?thesis
  proof (cases q)
    case Star
    have "j \<in> set (tries m q cs) \<longleftrightarrow> j \<le> length cs \<and> (\<forall>c \<in> set (take j cs). m c)" for j
      using Star le [of cs] take_all_iff [of j cs m]
      by (cases "j \<le> length cs") (auto simp: tries_def less_Suc_eq_le simp del: upt_Suc)
    then show ?thesis using Star by auto
  next
    case Plus
    have "j \<in> set (tries m q cs) \<longleftrightarrow> j \<le> length cs \<and> 1 \<le> j \<and> (\<forall>c \<in> set (take j cs). m c)" for j
      using Plus le [of "tl cs"] take_all_iff [of "j - 1" "tl cs" m] hd [of j]
      by (cases j; cases cs) (auto simp: tries_def image_iff simp del: upt_Suc)
    then show ?thesis using Plus by auto
  qed (auto simp: tries_def hd le_Suc_eq Suc_le_eq)
qed

lemma sorted_tries: "sorted_wrt (>) (tries m q cs)"
  by (auto simp: tries_def sorted_wrt_rev sorted_wrt_map simp del: upt_Suc split: quantifier.split)

lemma first_some_map: "first_some f (map g xs) = first_some (f \<circ> g) xs"
  by (induction xs) (auto split: option.splits)

lemma rx_token_shorter: "rx_token uc p = Some (m, q, rest) \<Longrightarrow> length rest < length p"
proof -
  assume a: "rx_token uc p = Some (m, q, rest)"
  then obtain n m' where n: "parse_token uc p = Some (n, m')" by (auto simp: rx_token_def split: option.splits)
  have "rest = drop n p \<or> (\<exists>x. drop n p = x # rest)"
    using a n by (auto simp: rx_token_def split: list.splits if_splits)
  then have "length rest \<le> length (drop n p)"
  proof (elim disjE exE)
    fix x assume "drop n p = x # rest"
    then have "length (drop n p) = Suc (length rest)" by (simp only: list.size)
    then show ?thesis by simp
  qed simp
  also have "\<dots> < length p" using parse_token_pos [OF n] by simp
  finally show ?thesis .
qed

lemma regex_match_at_tries:
  "regex_match_at uc cs p ci =
     (if p = [] then Some ci
      else case rx_token uc p of
        None \<Rightarrow> None
      | Some (m, q, rest) \<Rightarrow>
          first_some (\<lambda>k. regex_match_at uc (drop k cs) rest (ci + k)) (tries m q cs))"
proof -
  have tl: "drop (Suc k) cs = drop k (tl cs)" for k by (simp add: drop_Suc)
  show ?thesis
    by (subst regex_match_at.simps)
      (auto simp: rx_token_def tries_def Let_def first_some_map comp_def tl
        simp del: upt_Suc split: option.splits list.splits)
qed

text \<open>The engine finds a match exactly when there is one, and the match it finds is the longest.\<close>

lemma regex_match_at_sound:
  "regex_match_at uc cs p ci = Some e \<Longrightarrow> \<exists>u v. cs = u @ v \<and> rx uc p u \<and> e = ci + length u"
proof (induction "length p" arbitrary: cs p ci rule: less_induct)
  case less
  show ?case
  proof (cases "p = []")
    case True
    then show ?thesis using less.prems by (auto simp: regex_match_at_tries intro: rx_nil)
  next
    case False
    then obtain m q rest where tok: "rx_token uc p = Some (m, q, rest)"
      and fs: "first_some (\<lambda>k. regex_match_at uc (drop k cs) rest (ci + k)) (tries m q cs) = Some e"
      using less.prems by (subst (asm) regex_match_at_tries) (auto split: option.splits)
    have shorter: "length rest < length p" using rx_token_shorter [OF tok] .
    obtain k where k: "k \<in> set (tries m q cs)" "regex_match_at uc (drop k cs) rest (ci + k) = Some e"
      using first_some_Some [OF fs] by blast
    obtain u v where u: "drop k cs = u @ v" "rx uc rest u" "e = ci + k + length u"
      using less.hyps [OF shorter k(2)] by blast
    have "rx uc p (take k cs @ u)"
      using k(1) u(2) False by (intro rx_step [OF tok]) (auto simp: set_tries min_def)
    moreover have "cs = (take k cs @ u) @ v" using u(1) append_take_drop_id [of k cs] by simp
    ultimately show ?thesis using k(1) u(3)
      by (intro exI [of _ "take k cs @ u"] exI [of _ v]) (auto simp: set_tries min_def)
  qed
qed

lemma regex_match_at_complete:
  "rx uc p u \<Longrightarrow> regex_match_at uc (u @ v) p ci \<noteq> None"
proof (induction arbitrary: v ci rule: rx.induct)
  case (rx_step p m q rest w u)
  have "length w \<in> set (tries m q (w @ u @ v))"
    using rx_step.hyps by (auto simp: set_tries)
  moreover have "regex_match_at uc (drop (length w) (w @ u @ v)) rest (ci + length w) \<noteq> None"
    using rx_step.IH by simp
  ultimately have "first_some (\<lambda>k. regex_match_at uc (drop k (w @ u @ v)) rest (ci + k)) (tries m q (w @ u @ v)) \<noteq> None"
    unfolding first_some_None by metis
  then show ?case using rx_step.hyps(1,2) by (subst regex_match_at_tries) simp
qed (simp add: regex_match_at_tries)

lemma first_some_first:
  "first_some f xs = Some y \<Longrightarrow> sorted_wrt (>) (xs :: nat list) \<Longrightarrow>
     \<exists>k \<in> set xs. f k = Some y \<and> (\<forall>j \<in> set xs. k < j \<longrightarrow> f j = None)"
  by (induction xs) (fastforce split: option.splits)+

lemma regex_match_at_longest:
  "regex_match_at uc (u @ v) p ci = Some e \<Longrightarrow> rx uc p u \<Longrightarrow> ci + length u \<le> e"
proof (induction "length p" arbitrary: u v p ci e rule: less_induct)
  case less
  show ?case
  proof (cases "p = []")
    case True
    then show ?thesis using less.prems by (auto simp: regex_match_at_tries elim: rx_NilE)
  next
    case False
    let ?cs = "u @ v"
    obtain m q rest where tok: "rx_token uc p = Some (m, q, rest)"
      and fs: "first_some (\<lambda>k. regex_match_at uc (drop k ?cs) rest (ci + k)) (tries m q ?cs) = Some e"
      using less.prems(1) False by (subst (asm) regex_match_at_tries) (auto split: option.splits)
    obtain k where k: "k \<in> set (tries m q ?cs)" "regex_match_at uc (drop k ?cs) rest (ci + k) = Some e"
      and later: "\<And>j. j \<in> set (tries m q ?cs) \<Longrightarrow> k < j \<Longrightarrow> regex_match_at uc (drop j ?cs) rest (ci + j) = None"
      using first_some_first [OF fs sorted_tries] by blast
    obtain w u' where w: "u = w @ u'" "quantity q (length w)" "\<forall>x \<in> set w. m x" "rx uc rest u'"
      using less.prems(2) False tok by (auto elim: rx_stepE)
    have "length w \<in> set (tries m q ?cs)" using w by (auto simp: set_tries)
    moreover have "regex_match_at uc (drop (length w) ?cs) rest (ci + length w) \<noteq> None"
      using regex_match_at_complete [OF w(4), of v] w(1) by simp
    ultimately have le: "length w \<le> k" using later [of "length w"] by (meson not_less)
    obtain a t where a: "drop k ?cs = a @ t" "rx uc rest a" "e = ci + k + length a"
      using regex_match_at_sound [OF k(2)] by (auto simp: add.assoc)
    show ?thesis
    proof (rule ccontr)
      assume "\<not> ci + length u \<le> e"
      then have longer: "k + length a < length u" using a(3) by simp
      define d where "d = drop (length a) (drop k u)"
      have "drop k u @ v = a @ t" using a(1) longer by simp
      then have "take (length a) (drop k u @ v) = a" by simp
      then have "take (length a) (drop k u) = a" using longer by simp
      then have "drop k u = a @ d"
        using append_take_drop_id [of "length a" "drop k u"] by (simp only: d_def)
      moreover have "u' = drop (length w) (take k u) @ drop k u"
      proof -
        have "length (take k u) = k" using longer by simp
        then have "drop (length w) (take k u @ drop k u) = drop (length w) (take k u) @ drop k u"
          by (simp only: drop_append) (use le in simp)
        then have "drop (length w) u = drop (length w) (take k u) @ drop k u"
          by (simp only: append_take_drop_id)
        then show ?thesis using w(1) by simp
      qed
      ultimately have "rx uc rest (drop (length w) (take k u) @ a @ d)" using w(4) by simp
      from rx_crossing [OF a(2) this] have "rx uc rest (drop k u)" using \<open>drop k u = a @ d\<close> by simp
      moreover have "drop k ?cs = drop k u @ v" using longer by simp
      ultimately have "ci + k + length (drop k u) \<le> e"
        using less.hyps [OF rx_token_shorter [OF tok], of "drop k u" v "ci + k" e] k(2) by simp
      then show False using longer a(3) by simp
    qed
  qed
qed

lemma regex_match_at_end:
  "regex_match_at uc u p ci = Some (ci + length u) \<longleftrightarrow> rx uc p u"
proof
  assume "regex_match_at uc u p ci = Some (ci + length u)"
  then show "rx uc p u" using regex_match_at_sound by fastforce
next
  assume rx: "rx uc p u"
  then obtain e where e: "regex_match_at uc u p ci = Some e"
    using regex_match_at_complete [OF rx, of "[]" ci] by auto
  have "ci + length u \<le> e" using regex_match_at_longest [of uc u "[]" p ci e] e rx by simp
  moreover have "e \<le> ci + length u" using regex_match_at_sound [OF e] by auto
  ultimately show "regex_match_at uc u p ci = Some (ci + length u)" using e by simp
qed

lemma regex_match_at_Some_iff:
  "regex_match_at uc cs p ci \<noteq> None \<longleftrightarrow> (\<exists>u v. cs = u @ v \<and> rx uc p u)"
  using regex_match_at_sound [of uc cs p ci] regex_match_at_complete [of uc p] by fastforce

lemma regex_loop_iff:
  "list_ex (\<lambda>start. case regex_match_at uc (drop start cs) p start of
       None \<Rightarrow> False | Some end_pos \<Rightarrow> \<not> anchored \<or> end_pos = length cs) [0..<Suc (length cs)]
   \<longleftrightarrow> (\<exists>pre u post. cs = pre @ u @ post \<and> rx uc p u \<and> (anchored \<longrightarrow> post = []))" (is "?L \<longleftrightarrow> ?R")
proof
  assume ?L
  then obtain k e where k: "k \<le> length cs" "regex_match_at uc (drop k cs) p k = Some e"
    "\<not> anchored \<or> e = length cs"
    by (auto simp: list_ex_iff less_Suc_eq_le simp del: upt_Suc split: option.splits)
  obtain u v where u: "drop k cs = u @ v" "rx uc p u" "e = k + length u"
    using regex_match_at_sound [OF k(2)] by blast
  have cs: "cs = take k cs @ u @ v" using u(1) append_take_drop_id [of k cs] by simp
  have "length cs = k + length u + length v" using arg_cong [OF cs, of length] k(1) by simp
  then have "anchored \<longrightarrow> v = []" using k(3) u(3) by auto
  then show ?R using cs u(2) by blast
next
  assume ?R
  then obtain pre u post where cs: "cs = pre @ u @ post" and rx: "rx uc p u" and an: "anchored \<longrightarrow> post = []"
    by blast
  have "\<exists>e. regex_match_at uc (drop (length pre) cs) p (length pre) = Some e \<and> (\<not> anchored \<or> e = length cs)"
  proof (cases anchored)
    case True
    then show ?thesis using an cs rx regex_match_at_end [of uc u p "length pre"] by simp
  next
    case False
    then show ?thesis using cs regex_match_at_complete [OF rx, of post "length pre"] by auto
  qed
  then obtain e where "regex_match_at uc (drop (length pre) cs) p (length pre) = Some e"
    "\<not> anchored \<or> e = length cs" by blast
  then show ?L using cs
    by (auto simp: list_ex_iff simp del: upt_Suc intro!: bexI [of _ "length pre"])
qed

section \<open>Properties\<close>

text \<open>
  C40. LIKE accepts exactly the language of its pattern: a percent sign stands for any sequence of
  characters, an underscore for one character, every other character for itself; so a pattern
  without wildcards is equality, and one that ends in its only wildcard, a percent sign, is the
  prefix test.
\<close>

theorem like_is_language:
  "(like_matches val pattern \<longleftrightarrow> utf8_chars val \<in> like_lang (utf8_chars pattern))
   \<and> (\<forall>q. (\<forall>c \<in> set q. c \<noteq> ch CHR ''%'' \<and> c \<noteq> ch CHR ''_'') \<longrightarrow>
        (like_recursive v q \<longleftrightarrow> v = q)
        \<and> (like_recursive v (q @ [ch CHR ''%'']) \<longleftrightarrow> (\<exists>w. v = q @ w)))"
proof (intro conjI allI impI)
  show "like_matches val pattern \<longleftrightarrow> utf8_chars val \<in> like_lang (utf8_chars pattern)"
    by (simp add: like_matches_def like_recursive_lang)
  fix q assume q: "\<forall>c \<in> set q. c \<noteq> ch CHR ''%'' \<and> c \<noteq> ch CHR ''_''"
  show "like_recursive v q \<longleftrightarrow> v = q"
    using like_lang_literal [OF q, of "[]"] by (simp add: like_recursive_lang)
  show "like_recursive v (q @ [ch CHR ''%'']) \<longleftrightarrow> (\<exists>w. v = q @ w)"
    using like_lang_literal [OF q, of "[ch CHR ''%'']"] by (auto simp: like_recursive_lang)
qed

theorem like_is_language_witness:
  "like_matches ''hello'' ''h%o'' \<and> like_recursive [104, 105] [104, 37]"
proof -
  have "[104::nat, 101, 108, 108, 111] = [104] @ [101, 108, 108] @ [111]" by simp
  then have "utf8_chars ''hello'' \<in> like_lang (utf8_chars ''h%o'')" by simp
  then show ?thesis
    using like_is_language [of "''hello''" "''h%o''" "[104, 105]"] by (auto dest: spec [of _ "[104]"])
qed

text \<open>
  C17. The regular-expression engine never gets lost: at a position it reports a match exactly when the
  pattern matches some segment starting there, and the end it reports, found by greedy search, is
  the end of the longest such segment.
\<close>

theorem regex_match_at_exact:
  "(regex_match_at uc cs p ci \<noteq> None \<longleftrightarrow> (\<exists>u v. cs = u @ v \<and> rx uc p u))
   \<and> (\<forall>e. regex_match_at uc cs p ci = Some e \<longrightarrow>
        (\<exists>u v. cs = u @ v \<and> rx uc p u \<and> e = ci + length u
           \<and> (\<forall>u' v'. cs = u' @ v' \<and> rx uc p u' \<longrightarrow> length u' \<le> length u)))"
proof (intro conjI allI impI)
  show "regex_match_at uc cs p ci \<noteq> None \<longleftrightarrow> (\<exists>u v. cs = u @ v \<and> rx uc p u)"
    by (rule regex_match_at_Some_iff)
  fix e assume e: "regex_match_at uc cs p ci = Some e"
  obtain u v where u: "cs = u @ v" "rx uc p u" "e = ci + length u"
    using regex_match_at_sound [OF e] by blast
  have "length u' \<le> length u" if "cs = u' @ v'" "rx uc p u'" for u' v'
    using regex_match_at_longest [of uc u' v' p ci e] e that u(3) by simp
  then show "\<exists>u v. cs = u @ v \<and> rx uc p u \<and> e = ci + length u
      \<and> (\<forall>u' v'. cs = u' @ v' \<and> rx uc p u' \<longrightarrow> length u' \<le> length u)"
    using u by blast
qed

theorem regex_match_at_exact_witness:
  "regex_match_at (\<lambda>_. False) [97, 97, 98] [97, 42] 5 \<noteq> None"
proof -
  have "rx (\<lambda>_. False) [97, 42] ([97] @ [])"
    by (rule rx_step [of _ _ "\<lambda>c. c = 97" Star "[]"]) (simp_all add: rx_token_def parse_token_def rx_nil)
  then have "[97, 97, 98] = [97] @ [97, 98] \<and> rx (\<lambda>_. False) [97, 42] [97]" by simp
  then have "\<exists>u v. [97, 97, 98] = u @ v \<and> rx (\<lambda>_. False) [97, 42] u" by blast
  then show ?thesis
    using regex_match_at_exact [of "\<lambda>_. False" "[97, 97, 98]" "[97, 42]" 5] by blast
qed

text \<open>
  Regular-expression matching is exact, anchors included: a text matches when the pattern between
  the anchors matches a segment of it, at the start of the text when anchored there and up to its end
  when anchored there. The search does not look for another match when the first one stops before
  an end anchor; since the first is the longest it does not have to.
\<close>

theorem regex_matches_exact:
  "regex_matches uc val pattern \<longleftrightarrow>
     (case parse_anchors pattern of (pat, at_start, at_end) \<Rightarrow>
        \<exists>pre u post. utf8_chars val = pre @ u @ post \<and> rx uc (utf8_chars pat) u
          \<and> (at_start \<longrightarrow> pre = []) \<and> (at_end \<longrightarrow> post = []))"
proof -
  obtain pat s e where pa: "parse_anchors pattern = (pat, s, e)" by (cases "parse_anchors pattern") blast
  show ?thesis
  proof (cases s)
    case True
    then show ?thesis
      using regex_match_at_end [of uc "utf8_chars val" "utf8_chars pat" 0]
        regex_match_at_Some_iff [of uc "utf8_chars val" "utf8_chars pat" 0]
      by (cases e) (auto simp: regex_matches_def pa)
  next
    case False
    then show ?thesis
      using regex_loop_iff [where uc = uc and cs = "utf8_chars val" and p = "utf8_chars pat" and anchored = e]
      by (simp add: regex_matches_def pa del: upt_Suc)
  qed
qed

theorem regex_matches_exact_witness:
  "regex_matches (\<lambda>_. False) ''ab'' ''b$''"
proof -
  have pa: "parse_anchors ''b$'' = (''b'', False, True)" by (simp add: parse_anchors_def)
  have "rx (\<lambda>_. False) [98] ([98] @ [])"
    by (rule rx_step [of _ _ "\<lambda>c. c = 98" One "[]"]) (simp_all add: rx_token_def parse_token_def rx_nil)
  then have "utf8_chars ''ab'' = [97] @ [98] @ [] \<and> rx (\<lambda>_. False) (utf8_chars ''b'') [98]
      \<and> (False \<longrightarrow> [97::nat] = []) \<and> (True \<longrightarrow> [] = ([] :: nat list))"
    by simp
  then show ?thesis
    unfolding regex_matches_exact pa prod.case by blast
qed

end
