(* ===== verification/Cynos_Delta.thy ===== *)
theory Cynos_Delta
  imports Cynos_Row
begin

text \<open>
  Deltas and differential collections of the incremental engine (\<open>crates/incremental/src/delta.rs\<close>,
  \<open>collection.rs\<close>, \<open>operators/filter.rs\<close>, \<open>operators/map.rs\<close>) and the aggregates that need no float
  arithmetic (\<open>operators/aggregate.rs\<close>: COUNT, MIN, MAX). Multiplicities are 32-bit words read as
  signed. The specification of a batch of deltas is its effect on a multiset; the operators are
  shown to maintain the view they are meant to maintain.
\<close>

section \<open>Deltas\<close>

record 'a delta =
  dt_data :: 'a
  dt_diff :: i32

definition delta_new :: "'a \<Rightarrow> i32 \<Rightarrow> 'a delta" where
  "delta_new data diff = \<lparr>dt_data = data, dt_diff = diff\<rparr>"

definition delta_insert :: "'a \<Rightarrow> 'a delta" where
  "delta_insert data = \<lparr>dt_data = data, dt_diff = 1\<rparr>"

definition delta_delete :: "'a \<Rightarrow> 'a delta" where
  "delta_delete data = \<lparr>dt_data = data, dt_diff = - 1\<rparr>"

definition dt_is_insert :: "'a delta \<Rightarrow> bool" where
  "dt_is_insert d \<longleftrightarrow> sint (dt_diff d) > 0"

definition dt_is_delete :: "'a delta \<Rightarrow> bool" where
  "dt_is_delete d \<longleftrightarrow> sint (dt_diff d) < 0"

definition dt_is_noop :: "'a delta \<Rightarrow> bool" where
  "dt_is_noop d \<longleftrightarrow> dt_diff d = 0"

definition delta_map :: "('a \<Rightarrow> 'b) \<Rightarrow> 'a delta \<Rightarrow> 'b delta" where
  "delta_map f d = \<lparr>dt_data = f (dt_data d), dt_diff = dt_diff d\<rparr>"

definition delta_negate :: "'a delta \<Rightarrow> 'a delta" where
  "delta_negate d = \<lparr>dt_data = dt_data d, dt_diff = - dt_diff d\<rparr>"

type_synonym 'a delta_batch = "'a delta list"

definition batch_compact :: "'a delta_batch \<Rightarrow> 'a delta_batch" where
  "batch_compact ds = filter (\<lambda>d. dt_diff d \<noteq> 0) ds"

definition batch_net_count :: "'a delta_batch \<Rightarrow> i64" where
  "batch_net_count ds = foldl (\<lambda>s d. s + scast (dt_diff d)) 0 ds"

lemma delta_simps [simp]:
  "dt_data (delta_insert x) = x" "dt_is_insert (delta_insert x)" "\<not> dt_is_delete (delta_insert x)"
  "dt_data (delta_delete x) = x" "dt_is_delete (delta_delete x)" "\<not> dt_is_insert (delta_delete x)"
  "dt_data (delta_new x n) = x"
  by (simp_all add: delta_insert_def delta_delete_def delta_new_def dt_is_insert_def dt_is_delete_def)

section \<open>Differential collections\<close>

record 'a diff_collection =
  dc_snapshot :: "'a list"
  dc_pending :: "'a delta list"

definition dc_new :: "'a diff_collection" where
  "dc_new = \<lparr>dc_snapshot = [], dc_pending = []\<rparr>"

definition dc_from_snapshot :: "'a list \<Rightarrow> 'a diff_collection" where
  "dc_from_snapshot snap = \<lparr>dc_snapshot = snap, dc_pending = []\<rparr>"

definition dc_len :: "'a diff_collection \<Rightarrow> nat" where
  "dc_len c = length (dc_snapshot c)"

definition dc_has_pending :: "'a diff_collection \<Rightarrow> bool" where
  "dc_has_pending c \<longleftrightarrow> dc_pending c \<noteq> []"

definition dc_apply :: "'a delta \<Rightarrow> 'a diff_collection \<Rightarrow> 'a diff_collection" where
  "dc_apply d c = c\<lparr>dc_pending := dc_pending c @ [d]\<rparr>"

definition dc_apply_batch :: "'a delta list \<Rightarrow> 'a diff_collection \<Rightarrow> 'a diff_collection" where
  "dc_apply_batch ds c = c\<lparr>dc_pending := dc_pending c @ ds\<rparr>"

definition dc_rollback :: "'a diff_collection \<Rightarrow> 'a diff_collection" where
  "dc_rollback c = c\<lparr>dc_pending := []\<rparr>"

definition dc_take_pending :: "'a diff_collection \<Rightarrow> 'a delta list \<times> 'a diff_collection" where
  "dc_take_pending c = (dc_pending c, c\<lparr>dc_pending := []\<rparr>)"

text \<open>\<open>snapshot.iter().position(|x| *x == data)\<close> and the removal there is \<open>remove1\<close>.\<close>

definition commit_delta :: "'a list \<Rightarrow> 'a delta \<Rightarrow> 'a list" where
  "commit_delta snap d =
     (if dt_is_insert d then snap @ [dt_data d]
      else if dt_is_delete d then remove1 (dt_data d) snap
      else snap)"

definition dc_commit :: "'a diff_collection \<Rightarrow> 'a diff_collection" where
  "dc_commit c = \<lparr>dc_snapshot = foldl commit_delta (dc_snapshot c) (dc_pending c), dc_pending = []\<rparr>"

section \<open>Consolidated collections\<close>

type_synonym ('k, 'v) consolidated = "('k, 'v \<times> i32) hash_map"

definition cc_len :: "('k, 'v) consolidated \<Rightarrow> nat" where
  "cc_len m = length (filter (\<lambda>(_, _, diff). diff \<noteq> 0) m)"

definition cc_is_empty :: "('k, 'v) consolidated \<Rightarrow> bool" where
  "cc_is_empty m \<longleftrightarrow> list_all (\<lambda>(_, _, diff). diff = 0) m"

definition cc_apply :: "'k \<Rightarrow> 'v \<Rightarrow> i32 \<Rightarrow> ('k, 'v) consolidated \<Rightarrow> ('k, 'v) consolidated" where
  "cc_apply key v diff m =
     (case hm_get m key of
        Some (old, existing_diff) \<Rightarrow> hm_insert key (old, existing_diff + diff) m
      | None \<Rightarrow> hm_insert key (v, diff) m)"

definition cc_drain_deltas ::
  "('k \<Rightarrow> 'v \<Rightarrow> 'v) \<Rightarrow> ('k, 'v) consolidated \<Rightarrow> 'v delta list \<times> ('k, 'v) consolidated" where
  "cc_drain_deltas key_fn m =
     (map (\<lambda>(k, v, diff). delta_new (key_fn k v) diff) (filter (\<lambda>(_, _, diff). diff \<noteq> 0) m), [])"

section \<open>Linear operators\<close>

definition filter_incremental :: "'a delta list \<Rightarrow> ('a \<Rightarrow> bool) \<Rightarrow> 'a delta list" where
  "filter_incremental input pred = filter (\<lambda>d. pred (dt_data d)) input"

definition map_incremental :: "'a delta list \<Rightarrow> ('a \<Rightarrow> 'b) \<Rightarrow> 'b delta list" where
  "map_incremental input mapper = map (\<lambda>d. delta_new (mapper (dt_data d)) (dt_diff d)) input"

definition project_row :: "nat list \<Rightarrow> row \<Rightarrow> row" where
  "project_row columns r =
     row_new_with_version (rid r) (rversion r) (List.map_filter (\<lambda>col. row_get r col) columns)"

definition project_incremental :: "row delta list \<Rightarrow> nat list \<Rightarrow> row delta list" where
  "project_incremental input columns =
     map (\<lambda>d. delta_new (project_row columns (dt_data d)) (dt_diff d)) input"

section \<open>Aggregates\<close>

type_synonym incremental_count = i64

definition ic_apply :: "'a delta list \<Rightarrow> incremental_count \<Rightarrow> incremental_count" where
  "ic_apply ds n = foldl (\<lambda>s d. s + scast (dt_diff d)) n ds"

text \<open>MIN and MAX: the record of the code, whose field \<open>min\<close> or \<open>max\<close> is \<open>im_best\<close>.\<close>

record incremental_extreme =
  im_best :: "value option"
  im_column :: nat
  im_needs_recompute :: bool

definition im_new :: "nat \<Rightarrow> incremental_extreme" where
  "im_new column = \<lparr>im_best = None, im_column = column, im_needs_recompute = False\<rparr>"

text \<open>One row delta; \<open>better\<close> is \<open>value < current\<close> for MIN, \<open>value > current\<close> for MAX.\<close>

definition im_apply_delta ::
  "(value \<Rightarrow> value \<Rightarrow> bool) \<Rightarrow> incremental_extreme \<Rightarrow> row delta \<Rightarrow> incremental_extreme" where
  "im_apply_delta better s d =
     (case row_get (dt_data d) (im_column s) of
        None \<Rightarrow> s
      | Some v \<Rightarrow>
          if dt_is_insert d then
            (case im_best s of
               None \<Rightarrow> s\<lparr>im_best := Some v\<rparr>
             | Some current \<Rightarrow> if better v current then s\<lparr>im_best := Some v\<rparr> else s)
          else if dt_is_delete d then
            (case im_best s of
               None \<Rightarrow> s
             | Some current \<Rightarrow> if value_eq current v then s\<lparr>im_needs_recompute := True\<rparr> else s)
          else s)"

definition imin_apply :: "row delta list \<Rightarrow> incremental_extreme \<Rightarrow> incremental_extreme" where
  "imin_apply ds s = foldl (im_apply_delta (\<lambda>v current. value_cmp v current = Less)) s ds"

definition imax_apply :: "row delta list \<Rightarrow> incremental_extreme \<Rightarrow> incremental_extreme" where
  "imax_apply ds s = foldl (im_apply_delta (\<lambda>v current. value_cmp v current = Greater)) s ds"

definition im_get :: "incremental_extreme \<Rightarrow> value option" where
  "im_get s = (if im_needs_recompute s then None else im_best s)"

text \<open>\<open>Iterator::min\<close> keeps the first of equal values, \<open>Iterator::max\<close> the last.\<close>

definition iter_min :: "value list \<Rightarrow> value option" where
  "iter_min vs = (case vs of [] \<Rightarrow> None
     | v # vs \<Rightarrow> Some (foldl (\<lambda>x y. if value_cmp x y = Greater then y else x) v vs))"

definition iter_max :: "value list \<Rightarrow> value option" where
  "iter_max vs = (case vs of [] \<Rightarrow> None
     | v # vs \<Rightarrow> Some (foldl (\<lambda>x y. if value_cmp x y = Greater then x else y) v vs))"

definition imin_recompute :: "value list \<Rightarrow> incremental_extreme \<Rightarrow> incremental_extreme" where
  "imin_recompute vs s = s\<lparr>im_best := iter_min vs, im_needs_recompute := False\<rparr>"

definition imax_recompute :: "value list \<Rightarrow> incremental_extreme \<Rightarrow> incremental_extreme" where
  "imax_recompute vs s = s\<lparr>im_best := iter_max vs, im_needs_recompute := False\<rparr>"

definition im_reset :: "incremental_extreme \<Rightarrow> incremental_extreme" where
  "im_reset s = s\<lparr>im_best := None, im_needs_recompute := False\<rparr>"

section \<open>Specification: the effect of deltas on a multiset\<close>

definition ms_delta :: "'a multiset \<Rightarrow> 'a delta \<Rightarrow> 'a multiset" where
  "ms_delta M d = (if dt_is_insert d then add_mset (dt_data d) M
     else if dt_is_delete d then M - {#dt_data d#} else M)"

definition ms_deltas :: "'a multiset \<Rightarrow> 'a delta list \<Rightarrow> 'a multiset" where
  "ms_deltas M ds = foldl ms_delta M ds"

text \<open>A batch that deletes nothing that is not there.\<close>

fun deltas_valid :: "'a multiset \<Rightarrow> 'a delta list \<Rightarrow> bool" where
  "deltas_valid M [] \<longleftrightarrow> True"
| "deltas_valid M (d # ds) \<longleftrightarrow> (dt_is_delete d \<longrightarrow> dt_data d \<in># M) \<and> deltas_valid (ms_delta M d) ds"

lemma ms_deltas_simps [simp]:
  "ms_deltas M [] = M"
  "ms_deltas M (d # ds) = ms_deltas (ms_delta M d) ds"
  "ms_deltas M (ds @ es) = ms_deltas (ms_deltas M ds) es"
  by (simp_all add: ms_deltas_def)

lemma mset_commit: "mset (foldl commit_delta snap ds) = ms_deltas (mset snap) ds"
  by (induction ds arbitrary: snap) (simp_all add: commit_delta_def ms_delta_def)

lemma ms_deltas_filter:
  "filter_mset P (ms_deltas M ds) = ms_deltas (filter_mset P M) (filter_incremental ds P)"
  by (induction ds arbitrary: M)
    (auto simp: filter_incremental_def ms_delta_def)

lemma ms_delta_map:
  "dt_is_delete d \<longrightarrow> dt_data d \<in># M \<Longrightarrow>
     image_mset f (ms_delta M d) = ms_delta (image_mset f M) (delta_new (f (dt_data d)) (dt_diff d))"
  by (auto simp: ms_delta_def dt_is_insert_def dt_is_delete_def delta_new_def image_mset_Diff)

lemma ms_deltas_map:
  "deltas_valid M ds \<Longrightarrow> image_mset f (ms_deltas M ds) = ms_deltas (image_mset f M) (map_incremental ds f)"
proof (induction ds arbitrary: M)
  case (Cons d ds)
  then show ?case using ms_delta_map [of d M f] by (simp add: map_incremental_def)
qed (simp add: map_incremental_def)

section \<open>Unit deltas and counts\<close>

lemma scast_sint: "sint (scast (d :: i32) :: i64) = sint d"
  using sint_lt [of d] sint_ge [of d] by (simp add: signed_scast_eq signed_take_bit_int_eq_self)

lemma ic_apply_sint: "ic_apply ds n = n + of_int (\<Sum>d\<leftarrow>ds. sint (dt_diff d))"
proof (induction ds arbitrary: n)
  case (Cons d ds)
  have "(scast (dt_diff d) :: i64) = of_int (sint (dt_diff d))"
    by (metis of_int_sint scast_sint)
  then show ?case using Cons [of "n + scast (dt_diff d)"] by (simp add: ic_apply_def)
qed (simp add: ic_apply_def)

definition unit_delta :: "'a delta \<Rightarrow> bool" where
  "unit_delta d \<longleftrightarrow> dt_diff d \<in> {1, 0, - 1}"

lemma unit_delta_sint:
  "unit_delta d \<Longrightarrow> sint (dt_diff d) = (if dt_is_insert d then 1 else if dt_is_delete d then - 1 else 0)"
  by (auto simp: unit_delta_def dt_is_insert_def dt_is_delete_def)

lemma size_ms_deltas:
  "deltas_valid M ds \<Longrightarrow> list_all unit_delta ds \<Longrightarrow>
     int (size (ms_deltas M ds)) = int (size M) + (\<Sum>d\<leftarrow>ds. sint (dt_diff d))"
proof (induction ds arbitrary: M)
  case (Cons d ds)
  have "int (size (ms_delta M d)) = int (size M) + sint (dt_diff d)"
    using Cons.prems unit_delta_sint [of d] size_Suc_Diff1 [of "dt_data d" M]
    by (auto simp: ms_delta_def size_Diff_singleton)
  then show ?case using Cons.IH [of "ms_delta M d"] Cons.prems by simp
qed simp

section \<open>Consolidation\<close>

definition cc_apply_all :: "('k \<times> 'v \<times> i32) list \<Rightarrow> ('k, 'v) consolidated \<Rightarrow> ('k, 'v) consolidated" where
  "cc_apply_all es m = foldl (\<lambda>m (k, v, diff). cc_apply k v diff m) m es"

definition cc_diff :: "('k, 'v) consolidated \<Rightarrow> 'k \<Rightarrow> i32" where
  "cc_diff m k = (case hm_get m k of Some (_, diff) \<Rightarrow> diff | None \<Rightarrow> 0)"

lemma cc_apply_diff: "cc_diff (cc_apply k v diff m) k' = cc_diff m k' + (if k' = k then diff else 0)"
  by (auto simp: cc_diff_def cc_apply_def split: option.split)

lemma cc_apply_ok: "hm_ok m \<Longrightarrow> hm_ok (cc_apply k v diff m)"
  by (auto simp: cc_apply_def split: option.split)

lemma cc_apply_all_diff:
  "cc_diff (cc_apply_all es m) k = cc_diff m k + (\<Sum>e\<leftarrow>filter (\<lambda>e. fst e = k) es. snd (snd e))"
  by (induction es arbitrary: m) (auto simp: cc_apply_all_def cc_apply_diff split: prod.split)

lemma cc_apply_all_ok: "hm_ok m \<Longrightarrow> hm_ok (cc_apply_all es m)"
  by (induction es arbitrary: m) (auto simp: cc_apply_all_def cc_apply_ok split: prod.split)

section \<open>Extremes\<close>

text \<open>The rows' values in the column, and what the record promises about them; \<open>le\<close> is the order in
  which the extreme comes first.\<close>

definition column_values :: "nat \<Rightarrow> row multiset \<Rightarrow> value set" where
  "column_values c B = {v. \<exists>r \<in># B. row_get r c = Some v}"

definition im_inv :: "(value \<Rightarrow> value \<Rightarrow> bool) \<Rightarrow> incremental_extreme \<Rightarrow> row multiset \<Rightarrow> bool" where
  "im_inv le s B \<longleftrightarrow> im_needs_recompute s \<or>
     (case im_best s of
        None \<Rightarrow> column_values (im_column s) B = {}
      | Some m \<Rightarrow> m \<in> column_values (im_column s) B \<and> (\<forall>v \<in> column_values (im_column s) B. le m v))"

lemma column_values_add:
  "column_values c (add_mset r B) = set_option (row_get r c) \<union> column_values c B"
  by (auto simp: column_values_def)

lemma column_values_remove:
  assumes "m \<in> column_values c B" "row_get r c \<noteq> Some m"
  shows "m \<in> column_values c (B - {#r#})"
proof -
  obtain r' where r': "r' \<in># B" "row_get r' c = Some m" using assms(1) by (auto simp: column_values_def)
  with assms(2) have "r' \<noteq> r" by auto
  with r' have "r' \<in># B - {#r#}" by (simp add: in_diff_count)
  with r'(2) show ?thesis by (auto simp: column_values_def)
qed

lemma column_values_diff: "column_values c (B - {#r#}) \<subseteq> column_values c B"
  by (auto simp: column_values_def dest: in_diffD)

lemma im_inv_step:
  assumes better: "\<And>a b. ok a \<Longrightarrow> ok b \<Longrightarrow> if better a b then le a b else le b a"
    and trans: "\<And>a b c. ok a \<Longrightarrow> ok b \<Longrightarrow> ok c \<Longrightarrow> le a b \<Longrightarrow> le b c \<Longrightarrow> le a c"
    and refl: "\<And>a. ok a \<Longrightarrow> le a a"
    and ok: "\<forall>v \<in> column_values (im_column s) (add_mset (dt_data d) B). ok v"
    and inv: "im_inv le s B" and valid: "dt_is_delete d \<longrightarrow> dt_data d \<in># B"
  shows "im_inv le (im_apply_delta better s d) (ms_delta B d) \<and> im_column (im_apply_delta better s d) = im_column s"
proof -
  let ?c = "im_column s"
  have col: "im_column (im_apply_delta better s d) = im_column s"
    by (auto simp: im_apply_delta_def split: option.split)
  have flag: "im_needs_recompute s \<Longrightarrow> im_needs_recompute (im_apply_delta better s d)"
    by (auto simp: im_apply_delta_def split: option.split)
  have "im_inv le (im_apply_delta better s d) (ms_delta B d)"
  proof (cases "im_needs_recompute s")
    case False
    show ?thesis
    proof (cases "row_get (dt_data d) ?c")
      case None
      have "column_values ?c (ms_delta B d) = column_values ?c B"
      proof -
        have "column_values ?c (B - {#dt_data d#}) = column_values ?c B"
          using None column_values_remove [of _ ?c B "dt_data d"] column_values_diff [of ?c B "dt_data d"] by auto
        then show ?thesis using None by (simp add: ms_delta_def column_values_add)
      qed
      then show ?thesis using inv None by (simp add: im_apply_delta_def im_inv_def cong: option.case_cong)
    next
      case (Some v)
      consider (ins) "dt_is_insert d" | (del) "\<not> dt_is_insert d" "dt_is_delete d"
        | (noop) "\<not> dt_is_insert d" "\<not> dt_is_delete d" by blast
      then show ?thesis
      proof cases
        case ins
        have cv: "column_values ?c (ms_delta B d) = insert v (column_values ?c B)"
          using ins Some by (simp add: ms_delta_def column_values_add)
        show ?thesis
        proof (cases "im_best s")
          case None
          then show ?thesis using inv False Some ins cv refl ok
            by (auto simp: im_apply_delta_def im_inv_def column_values_add)
        next
          case (Some m)
          then have m: "m \<in> column_values ?c B" "\<forall>w \<in> column_values ?c B. le m w"
            using inv False by (simp_all add: im_inv_def)
          have oks: "ok m" "ok v" "\<forall>w \<in> column_values ?c B. ok w"
            using ok m(1) \<open>row_get (dt_data d) ?c = Some v\<close> by (auto simp: column_values_add)
          have "le v w" if "better v m" "w \<in> column_values ?c B" for w
            using that trans [of v m w] better [of v m] oks m(2) by auto
          moreover have "le m v" if "\<not> better v m" using that better [of v m] oks by simp
          ultimately show ?thesis
            using inv False Some \<open>row_get (dt_data d) ?c = Some v\<close> ins cv m refl [OF oks(2)]
            by (simp add: im_apply_delta_def im_inv_def)
        qed
      next
        case del
        have cv: "column_values ?c (ms_delta B d) = column_values ?c (B - {#dt_data d#})"
          using del by (simp add: ms_delta_def)
        have vB: "v \<in> column_values ?c B" using Some valid del(2) by (auto simp: column_values_def)
        show ?thesis
        proof (cases "im_best s")
          case None
          then show ?thesis using inv False vB by (auto simp: im_inv_def)
        next
          case best: (Some m)
          then have m: "m \<in> column_values ?c B" "\<forall>w \<in> column_values ?c B. le m w"
            using inv False by (simp_all add: im_inv_def)
          show ?thesis
          proof (cases "value_eq m v")
            case True
            then show ?thesis using del Some best by (simp add: im_apply_delta_def im_inv_def)
          next
            case neq: False
            then have "m \<noteq> v" by auto
            then have "m \<in> column_values ?c (B - {#dt_data d#})"
              using column_values_remove [OF m(1), of "dt_data d"] Some by simp
            moreover have "\<forall>w \<in> column_values ?c (B - {#dt_data d#}). le m w"
              using m(2) column_values_diff [of ?c B "dt_data d"] by blast
            ultimately show ?thesis using del Some best neq cv by (simp add: im_apply_delta_def im_inv_def)
          qed
        qed
      next
        case noop
        then show ?thesis using inv Some by (simp add: im_apply_delta_def ms_delta_def)
      qed
    qed
  qed (use flag in \<open>simp add: im_inv_def\<close>)
  then show ?thesis using col by blast
qed

lemma im_inv_run:
  assumes better: "\<And>a b. ok a \<Longrightarrow> ok b \<Longrightarrow> if better a b then le a b else le b a"
    and trans: "\<And>a b c. ok a \<Longrightarrow> ok b \<Longrightarrow> ok c \<Longrightarrow> le a b \<Longrightarrow> le b c \<Longrightarrow> le a c"
    and refl: "\<And>a. ok a \<Longrightarrow> le a a"
  shows "im_inv le s B \<Longrightarrow> deltas_valid B ds
    \<Longrightarrow> \<forall>v \<in> column_values (im_column s) (B + mset (map dt_data ds)). ok v
    \<Longrightarrow> im_inv le (foldl (im_apply_delta better) s ds) (ms_deltas B ds)
      \<and> im_column (foldl (im_apply_delta better) s ds) = im_column s"
proof (induction ds arbitrary: s B)
  case (Cons d ds)
  have sub: "column_values c (add_mset (dt_data d) B) \<subseteq> column_values c (B + mset (map dt_data (d # ds)))" for c
    by (auto simp: column_values_def)
  have "im_inv le (im_apply_delta better s d) (ms_delta B d) \<and> im_column (im_apply_delta better s d) = im_column s"
    using Cons.prems sub [of "im_column s"] by (intro im_inv_step [OF better trans refl]) auto
  moreover have "ms_delta B d \<subseteq># add_mset (dt_data d) B"
    by (auto simp: ms_delta_def intro: subset_mset.order_trans [OF diff_subset_eq_self])
  then have "set_mset (ms_delta B d + mset (map dt_data ds)) \<subseteq> set_mset (B + mset (map dt_data (d # ds)))"
    using set_mset_mono by fastforce
  then have "column_values (im_column s) (ms_delta B d + mset (map dt_data ds))
      \<subseteq> column_values (im_column s) (B + mset (map dt_data (d # ds)))"
    unfolding column_values_def by blast
  ultimately show ?case
    using Cons.IH [of "im_apply_delta better s d" "ms_delta B d"] Cons.prems by auto
qed simp

lemma fold_best_is_best:
  assumes pick: "\<And>a b. pick a b = a \<or> pick a b = b"
    and le1: "\<And>a b. ok a \<Longrightarrow> ok b \<Longrightarrow> le (pick a b) a" and le2: "\<And>a b. ok a \<Longrightarrow> ok b \<Longrightarrow> le (pick a b) b"
    and trans: "\<And>a b c. ok a \<Longrightarrow> ok b \<Longrightarrow> ok c \<Longrightarrow> le a b \<Longrightarrow> le b c \<Longrightarrow> le a c"
    and refl: "\<And>a. ok a \<Longrightarrow> le a a"
  shows "\<forall>v \<in> set (v # vs). ok v \<Longrightarrow>
    foldl pick v vs \<in> set (v # vs) \<and> (\<forall>w \<in> set (v # vs). le (foldl pick v vs) w)"
proof (induction vs arbitrary: v)
  case (Cons x vs)
  have ok: "ok v" "ok x" "ok (pick v x)" using Cons.prems pick [of v x] by auto
  have IH: "foldl pick (pick v x) vs \<in> set (pick v x # vs)"
    "\<forall>w \<in> set (pick v x # vs). le (foldl pick (pick v x) vs) w"
    using Cons.IH [of "pick v x"] Cons.prems ok by auto
  have okr: "ok (foldl pick (pick v x) vs)" using IH(1) ok Cons.prems by auto
  have le: "le (foldl pick (pick v x) vs) (pick v x)" using IH(2) by simp
  have "le (foldl pick (pick v x) vs) v" using trans [OF okr ok(3,1) le le1] ok by simp
  moreover have "le (foldl pick (pick v x) vs) x" using trans [OF okr ok(3,2) le le2] ok by simp
  moreover have "foldl pick (pick v x) vs \<in> set (v # x # vs)"
    using IH(1) pick [of v x] by auto
  ultimately show ?case using IH(2) by simp
qed (simp add: refl)

context cmp_order
begin

lemma swap_not_less: "ok a \<Longrightarrow> ok b \<Longrightarrow> cmp a b \<noteq> Less \<Longrightarrow> cmp b a \<noteq> Greater"
  using cmp_swap [of a b] by simp

lemma swap_greater: "ok a \<Longrightarrow> ok b \<Longrightarrow> cmp a b = Greater \<Longrightarrow> cmp b a \<noteq> Greater"
  using cmp_swap [of a b] by simp

text \<open>The picks of \<open>Iterator::min\<close> and \<open>Iterator::max\<close>, and the tests of the incremental versions.\<close>

lemma min_pick: "ok a \<Longrightarrow> ok b \<Longrightarrow> cmp (if cmp a b = Greater then b else a) a \<noteq> Greater
    \<and> cmp (if cmp a b = Greater then b else a) b \<noteq> Greater"
  using swap_greater [of a b] cmp_refl [of a] cmp_refl [of b] by simp

lemma max_pick: "ok a \<Longrightarrow> ok b \<Longrightarrow> cmp a (if cmp a b = Greater then a else b) \<noteq> Greater
    \<and> cmp b (if cmp a b = Greater then a else b) \<noteq> Greater"
  using swap_greater [of a b] cmp_refl [of a] cmp_refl [of b] by simp

lemma less_test: "ok a \<Longrightarrow> ok b \<Longrightarrow> if cmp a b = Less then cmp a b \<noteq> Greater else cmp b a \<noteq> Greater"
  using swap_not_less [of a b] by simp

lemma greater_test: "ok a \<Longrightarrow> ok b \<Longrightarrow> if cmp a b = Greater then cmp b a \<noteq> Greater else cmp a b \<noteq> Greater"
  using swap_greater [of a b] by simp

lemma not_greater_refl: "ok a \<Longrightarrow> cmp a a \<noteq> Greater"
  by (simp add: cmp_refl)

end

lemma iter_min_best:
  assumes "cmp_order value_cmp ok" "\<forall>v \<in> set vs. ok v"
  shows "case iter_min vs of None \<Rightarrow> vs = [] | Some m \<Rightarrow> m \<in> set vs \<and> (\<forall>v \<in> set vs. value_cmp m v \<noteq> Greater)"
proof (cases vs)
  case (Cons v ws)
  have "foldl (\<lambda>x y. if value_cmp x y = Greater then y else x) v ws \<in> set (v # ws)
      \<and> (\<forall>w \<in> set (v # ws). value_cmp (foldl (\<lambda>x y. if value_cmp x y = Greater then y else x) v ws) w \<noteq> Greater)"
  proof (rule fold_best_is_best [where ok = ok and le = "\<lambda>a b. value_cmp a b \<noteq> Greater"])
    show "(if value_cmp a b = Greater then b else a) = a \<or> (if value_cmp a b = Greater then b else a) = b" for a b
      by simp
    show "value_cmp (if value_cmp a b = Greater then b else a) a \<noteq> Greater" if "ok a" "ok b" for a b
      using cmp_order.min_pick [OF assms(1) that] by blast
    show "value_cmp (if value_cmp a b = Greater then b else a) b \<noteq> Greater" if "ok a" "ok b" for a b
      using cmp_order.min_pick [OF assms(1) that] by blast
    show "value_cmp a c \<noteq> Greater" if "ok a" "ok b" "ok c" "value_cmp a b \<noteq> Greater" "value_cmp b c \<noteq> Greater" for a b c
      by (rule cmp_order.cmp_trans [OF assms(1) that])
    show "value_cmp a a \<noteq> Greater" if "ok a" for a
      by (rule cmp_order.not_greater_refl [OF assms(1) that])
    show "\<forall>v \<in> set (v # ws). ok v" using assms(2) Cons by simp
  qed
  then show ?thesis using Cons by (simp add: iter_min_def)
qed (simp add: iter_min_def)

lemma iter_max_best:
  assumes "cmp_order value_cmp ok" "\<forall>v \<in> set vs. ok v"
  shows "case iter_max vs of None \<Rightarrow> vs = [] | Some m \<Rightarrow> m \<in> set vs \<and> (\<forall>v \<in> set vs. value_cmp v m \<noteq> Greater)"
proof (cases vs)
  case (Cons v ws)
  have "foldl (\<lambda>x y. if value_cmp x y = Greater then x else y) v ws \<in> set (v # ws)
      \<and> (\<forall>w \<in> set (v # ws). value_cmp w (foldl (\<lambda>x y. if value_cmp x y = Greater then x else y) v ws) \<noteq> Greater)"
  proof (rule fold_best_is_best [where ok = ok and le = "\<lambda>a b. value_cmp b a \<noteq> Greater"])
    show "(if value_cmp a b = Greater then a else b) = a \<or> (if value_cmp a b = Greater then a else b) = b" for a b
      by simp
    show "value_cmp a (if value_cmp a b = Greater then a else b) \<noteq> Greater" if "ok a" "ok b" for a b
      using cmp_order.max_pick [OF assms(1) that] by blast
    show "value_cmp b (if value_cmp a b = Greater then a else b) \<noteq> Greater" if "ok a" "ok b" for a b
      using cmp_order.max_pick [OF assms(1) that] by blast
    show "value_cmp c a \<noteq> Greater" if "ok a" "ok b" "ok c" "value_cmp b a \<noteq> Greater" "value_cmp c b \<noteq> Greater" for a b c
      by (rule cmp_order.cmp_trans [OF assms(1) that(3,2,1,5,4)])
    show "value_cmp a a \<noteq> Greater" if "ok a" for a
      by (rule cmp_order.not_greater_refl [OF assms(1) that])
    show "\<forall>v \<in> set (v # ws). ok v" using assms(2) Cons by simp
  qed
  then show ?thesis using Cons by (simp add: iter_max_def)
qed (simp add: iter_max_def)

text \<open>The invariant over a run, for MIN and for MAX.\<close>

lemma imin_inv_run:
  assumes o: "cmp_order value_cmp ok" and ok: "\<forall>v \<in> column_values c (mset (map dt_data ds)). ok v"
    and valid: "deltas_valid {#} ds"
  shows "im_inv (\<lambda>a b. value_cmp a b \<noteq> Greater) (imin_apply ds (im_new c)) (ms_deltas {#} ds)
      \<and> im_column (imin_apply ds (im_new c)) = c"
proof -
  have new: "im_inv le (im_new c) {#}" "im_column (im_new c) = c" for le
    by (simp_all add: im_inv_def im_new_def column_values_def)
  have "\<forall>v \<in> column_values (im_column (im_new c)) ({#} + mset (map dt_data ds)). ok v"
    using ok new(2) by simp
  from im_inv_run [where le = "\<lambda>a b. value_cmp a b \<noteq> Greater" and ok = ok,
      OF cmp_order.less_test [OF o] cmp_order.cmp_trans [OF o] cmp_order.not_greater_refl [OF o] new(1) valid this]
  show ?thesis by (simp add: imin_apply_def new(2))
qed

lemma imax_inv_run:
  assumes o: "cmp_order value_cmp ok" and ok: "\<forall>v \<in> column_values c (mset (map dt_data ds)). ok v"
    and valid: "deltas_valid {#} ds"
  shows "im_inv (\<lambda>a b. value_cmp b a \<noteq> Greater) (imax_apply ds (im_new c)) (ms_deltas {#} ds)
      \<and> im_column (imax_apply ds (im_new c)) = c"
proof -
  have new: "im_inv le (im_new c) {#}" "im_column (im_new c) = c" for le
    by (simp_all add: im_inv_def im_new_def column_values_def)
  have okc: "\<forall>v \<in> column_values (im_column (im_new c)) ({#} + mset (map dt_data ds)). ok v"
    using ok new(2) by simp
  have trans: "value_cmp c a \<noteq> Greater" if "ok a" "ok b" "ok c" "value_cmp b a \<noteq> Greater" "value_cmp c b \<noteq> Greater" for a b c
    by (rule cmp_order.cmp_trans [OF o that(3,2,1,5,4)])
  from im_inv_run [where le = "\<lambda>a b. value_cmp b a \<noteq> Greater" and ok = ok,
      OF cmp_order.greater_test [OF o] trans cmp_order.not_greater_refl [OF o] new(1) valid okc]
  show ?thesis by (simp add: imax_apply_def new(2))
qed

section \<open>Properties\<close>

text \<open>
  Committing the pending deltas of a collection has on the multiset of its items the effect of the
  deltas, one by one; and a filtered view that receives the filtered deltas stays the filter of the
  base collection, whatever the deltas.
\<close>

theorem filter_view_maintained:
  assumes "mset (dc_snapshot view) = filter_mset P (mset (dc_snapshot base))"
    and "dc_pending view = []" "dc_pending base = []"
  shows "mset (dc_snapshot (dc_commit (dc_apply_batch (filter_incremental ds P) view)))
      = filter_mset P (mset (dc_snapshot (dc_commit (dc_apply_batch ds base))))
    \<and> mset (dc_snapshot (dc_commit (dc_apply_batch ds base))) = ms_deltas (mset (dc_snapshot base)) ds"
  using assms by (simp add: dc_commit_def dc_apply_batch_def mset_commit ms_deltas_filter)

theorem filter_view_maintained_witness:
  "mset (dc_snapshot (dc_commit (dc_apply_batch
      (filter_incremental [delta_insert 10, delta_insert 5, delta_delete (20::int)] (\<lambda>x. x > 8))
      (dc_from_snapshot [20])))) = {#10#}"
  using filter_view_maintained [of "dc_from_snapshot [20]" "\<lambda>x. x > 8" "dc_from_snapshot [20, 3]"
      "[delta_insert 10, delta_insert 5, delta_delete (20::int)]"]
  by (simp add: dc_from_snapshot_def dc_commit_def dc_apply_batch_def commit_delta_def)

text \<open>
  A projected view that receives the projected deltas stays the projection of the base collection,
  rows counted with multiplicity, as long as the deltas delete only rows that are there.
\<close>

theorem project_view_maintained:
  assumes "mset (dc_snapshot view) = image_mset (project_row columns) (mset (dc_snapshot base))"
    and "dc_pending view = []" "dc_pending base = []" "deltas_valid (mset (dc_snapshot base)) ds"
  shows "mset (dc_snapshot (dc_commit (dc_apply_batch (project_incremental ds columns) view)))
      = image_mset (project_row columns) (mset (dc_snapshot (dc_commit (dc_apply_batch ds base))))"
proof -
  have "project_incremental ds columns = map_incremental ds (project_row columns)"
    by (simp add: project_incremental_def map_incremental_def)
  then show ?thesis
    using assms ms_deltas_map [OF assms(4), of "project_row columns"]
    by (simp add: dc_commit_def dc_apply_batch_def mset_commit)
qed

theorem project_view_maintained_witness:
  "mset (dc_snapshot (dc_commit (dc_apply_batch
      (project_incremental [delta_insert (row_new 1 [Int32 7, Boolean True])] [0]) dc_new)))
    = {#row_new 1 [Int32 7]#}"
  using project_view_maintained [of dc_new "[0]" dc_new "[delta_insert (row_new 1 [Int32 7, Boolean True])]"]
  by (simp add: dc_new_def dc_commit_def dc_apply_batch_def commit_delta_def project_row_def
      row_new_with_version_def row_new_def row_get_def map_filter_simps)

text \<open>
  The incremental count of a collection equals its size (modulo \<open>2^64\<close>) after every batch of unit
  deltas that deletes only what is there.
\<close>

theorem incremental_count_exact:
  assumes "deltas_valid M ds" "list_all unit_delta ds" "n = of_nat (size M)"
  shows "ic_apply ds n = of_nat (size (ms_deltas M ds))"
proof -
  have "(of_nat (size (ms_deltas M ds)) :: i64) = of_int (int (size (ms_deltas M ds)))" by simp
  also have "\<dots> = of_int (int (size M) + (\<Sum>d\<leftarrow>ds. sint (dt_diff d)))"
    by (simp only: size_ms_deltas [OF assms(1,2)])
  finally show ?thesis using assms(3) by (simp add: ic_apply_sint)
qed

theorem incremental_count_exact_witness:
  "ic_apply [delta_insert ''a'', delta_insert ''b'', delta_delete ''a''] 0 = 1"
  using incremental_count_exact [of "{#}" "[delta_insert ''a'', delta_insert ''b'', delta_delete ''a'']" 0]
  by (simp add: unit_delta_def delta_insert_def delta_delete_def ms_delta_def dt_is_insert_def dt_is_delete_def)

text \<open>
  A consolidated collection adds up the multiplicities per key (in 32-bit arithmetic) and drains one
  delta for each key whose sum is not zero, and nothing else: an insertion and a deletion under one
  key cancel.
\<close>

theorem consolidation_sums:
  "let m = cc_apply_all es []; net = (\<lambda>k. \<Sum>e\<leftarrow>filter (\<lambda>e. fst e = k) es. snd (snd e)) in
    (\<forall>k. cc_diff m k = net k)
    \<and> set (fst (cc_drain_deltas f m)) = {delta_new (f k v) (net k) | k v. hm_get m k = Some (v, net k) \<and> net k \<noteq> 0}
    \<and> cc_len m = card {k. net k \<noteq> 0} \<and> length (fst (cc_drain_deltas f m)) = cc_len m
    \<and> snd (cc_drain_deltas f m) = []"
proof -
  define m where "m = cc_apply_all es []"
  define net where "net = (\<lambda>k. \<Sum>e\<leftarrow>filter (\<lambda>e. fst e = k) es. snd (snd e))"
  have diff: "cc_diff m k = net k" for k
    using cc_apply_all_diff [of es "[]" k] by (simp add: m_def net_def cc_diff_def)
  have ok: "hm_ok m" unfolding m_def by (rule cc_apply_all_ok) simp
  have mem: "(k, v, n) \<in> set m \<longleftrightarrow> hm_get m k = Some (v, n)" for k v n
    using hm_ok_mem [OF ok] by blast
  have n: "n = net k" if "hm_get m k = Some (v, n)" for k v n
    using diff [of k] that by (simp add: cc_diff_def)
  let ?nz = "filter (\<lambda>(_, _, d). d \<noteq> 0) m"
  have "fst ` set ?nz = {k. net k \<noteq> 0}"
  proof (intro set_eqI iffI)
    fix k assume "k \<in> fst ` set ?nz"
    then show "k \<in> {k. net k \<noteq> 0}" using mem n by fastforce
  next
    fix k assume k: "k \<in> {k. net k \<noteq> 0}"
    then obtain v d where "hm_get m k = Some (v, d)" using diff [of k] by (auto simp: cc_diff_def split: option.splits)
    then have "(k, v, d) \<in> set ?nz" using k n mem by fastforce
    then show "k \<in> fst ` set ?nz" by force
  qed
  moreover have "distinct (map fst ?nz)"
    using ok by (simp add: hm_ok_def distinct_map_filter)
  ultimately have "card {k. net k \<noteq> 0} = length ?nz"
    using distinct_card [of "map fst ?nz"] by simp
  moreover have "set (fst (cc_drain_deltas f m)) = {delta_new (f k v) (net k) | k v. hm_get m k = Some (v, net k) \<and> net k \<noteq> 0}"
  proof -
    have "set ?nz = {(k, v, net k) | k v. hm_get m k = Some (v, net k) \<and> net k \<noteq> 0}"
    proof (intro set_eqI iffI)
      fix p assume "p \<in> set ?nz"
      then obtain k v d where p: "p = (k, v, d)" "hm_get m k = Some (v, d)" "d \<noteq> 0" using mem by auto
      then show "p \<in> {(k, v, net k) | k v. hm_get m k = Some (v, net k) \<and> net k \<noteq> 0}"
        using n [OF p(2)] by auto
    qed (use mem in auto)
    then have "(\<lambda>(k, v, d). delta_new (f k v) d) ` set ?nz
        = {delta_new (f k v) (net k) | k v. hm_get m k = Some (v, net k) \<and> net k \<noteq> 0}"
      by (force simp only: image_Collect)
    then show ?thesis by (simp add: cc_drain_deltas_def)
  qed
  ultimately show ?thesis
    unfolding m_def [symmetric] net_def [symmetric] Let_def
    using diff by (simp add: cc_len_def cc_drain_deltas_def)
qed

theorem consolidation_sums_witness:
  "fst (cc_drain_deltas (\<lambda>k v. v) (cc_apply_all [(1::int, ''a'', 1), (2, ''b'', 1), (1, ''a'', - 1)] []))
     = [delta_new ''b'' 1]"
proof -
  have "snd (cc_drain_deltas (\<lambda>k v. v) (cc_apply_all [(1::int, ''a'', 1), (2, ''b'', 1), (1, ''a'', - 1)] [])) = []"
    using consolidation_sums [of "[(1::int, ''a'', 1), (2, ''b'', 1), (1, ''a'', - 1)]" "\<lambda>k v. v"]
    unfolding Let_def by blast
  then show ?thesis by (simp add: cc_drain_deltas_def cc_apply_all_def cc_apply_def)
qed

text \<open>
  C29. MIN and MAX are right or say that they do not know: after any batch of deltas that deletes only
  rows that are there, on a column where Int64 and Float64 values do not meet, the value reported is
  in the column and no value of the column comes before it (after it, for MAX), and when none is
  reported the column is empty or a recomputation is asked for.
\<close>

theorem incremental_extremes_correct:
  fixes ds :: "row delta list"
  assumes "deltas_valid {#} ds"
    and "(\<forall>v \<in> column_values c (mset (map dt_data ds)). \<not> is_float v)
      \<or> (\<forall>v \<in> column_values c (mset (map dt_data ds)). \<not> is_int64 v)"
  shows "(case im_get (imin_apply ds (im_new c)) of
        Some m \<Rightarrow> m \<in> column_values c (ms_deltas {#} ds)
          \<and> (\<forall>v \<in> column_values c (ms_deltas {#} ds). value_cmp m v \<noteq> Greater)
      | None \<Rightarrow> im_needs_recompute (imin_apply ds (im_new c)) \<or> column_values c (ms_deltas {#} ds) = {})
    \<and> (case im_get (imax_apply ds (im_new c)) of
        Some m \<Rightarrow> m \<in> column_values c (ms_deltas {#} ds)
          \<and> (\<forall>v \<in> column_values c (ms_deltas {#} ds). value_cmp v m \<noteq> Greater)
      | None \<Rightarrow> im_needs_recompute (imax_apply ds (im_new c)) \<or> column_values c (ms_deltas {#} ds) = {})"
proof -
  obtain ok where o: "cmp_order value_cmp ok" and ok: "\<forall>v \<in> column_values c (mset (map dt_data ds)). ok v"
    using assms(2) value_no_float.cmp_order_axioms value_no_int64.cmp_order_axioms by blast
  show ?thesis
    using imin_inv_run [OF o ok assms(1)] imax_inv_run [OF o ok assms(1)]
    by (auto simp: im_inv_def im_get_def split: option.splits)
qed

theorem incremental_extremes_correct_witness:
  "im_get (imin_apply [delta_insert (row_new 1 [Int32 5]), delta_insert (row_new 2 [Int32 3]),
     delta_delete (row_new 1 [Int32 5])] (im_new 0)) = Some (Int32 3)"
proof -
  let ?ds = "[delta_insert (row_new 1 [Int32 5]), delta_insert (row_new 2 [Int32 3]), delta_delete (row_new 1 [Int32 5])]"
  have "column_values 0 (mset (map dt_data ?ds)) = {Int32 3, Int32 5}"
    by (auto simp: column_values_def row_new_def row_get_def)
  moreover have "ms_deltas {#} ?ds = {#row_new 2 [Int32 3]#}"
    by (simp add: ms_delta_def row_new_def)
  moreover have "column_values 0 {#row_new 2 [Int32 3]#} = {Int32 3}"
    by (auto simp: column_values_def row_new_def row_get_def)
  moreover have "\<not> im_needs_recompute (imin_apply ?ds (im_new 0))"
    by (simp add: imin_apply_def im_apply_delta_def im_new_def row_new_def row_get_def ord_cmp_def word_sless_alt)
  ultimately show ?thesis
    using incremental_extremes_correct [of ?ds 0] by (auto split: option.splits simp: ms_delta_def)
qed

end
