(* ===== verification/Cynos_Hash_Join.thy ===== *)
theory Cynos_Hash_Join
  imports Cynos_Delta
begin

text \<open>
  The incremental hash join (\<open>crates/incremental/src/operators/join.rs\<close>): an index from keys to rows on
  each side, and for each change of a side the pairs that the join gains or loses. The
  specification is the join of two multisets; the view that receives the emitted deltas is shown to
  stay the join of the two sides, as long as a deleted row is on its side exactly once. For a row
  that is there more often the code is wrong, and a small run shows it.
\<close>

section \<open>State and operations\<close>

record ('k, 'l, 'r) hash_join =
  hj_left_index :: "('k, 'l list) hash_map"
  hj_right_index :: "('k, 'r list) hash_map"
  hj_left_key_fn :: "'l \<Rightarrow> 'k"
  hj_right_key_fn :: "'r \<Rightarrow> 'k"

definition hj_new :: "('l \<Rightarrow> 'k) \<Rightarrow> ('r \<Rightarrow> 'k) \<Rightarrow> ('k, 'l, 'r) hash_join" where
  "hj_new lk rk = \<lparr>hj_left_index = [], hj_right_index = [], hj_left_key_fn = lk, hj_right_key_fn = rk\<rparr>"

text \<open>\<open>index.entry(key).or_default().push(row)\<close>, and the removal of every equal row with the clean-up
  of an emptied entry.\<close>

definition index_push :: "'k \<Rightarrow> 'a \<Rightarrow> ('k, 'a list) hash_map \<Rightarrow> ('k, 'a list) hash_map" where
  "index_push key x m =
     hm_insert key ((case hm_get m key of Some rows \<Rightarrow> rows | None \<Rightarrow> []) @ [x]) m"

definition index_retain_not :: "'k \<Rightarrow> 'a \<Rightarrow> ('k, 'a list) hash_map \<Rightarrow> ('k, 'a list) hash_map" where
  "index_retain_not key x m =
     (case hm_get m key of
        None \<Rightarrow> m
      | Some rows \<Rightarrow>
          let rows = filter (\<lambda>y. y \<noteq> x) rows
          in if rows = [] then hm_remove key m else hm_insert key rows m)"

definition hj_on_left_insert ::
  "'l \<Rightarrow> ('k, 'l, 'r) hash_join \<Rightarrow> ('l \<times> 'r) list \<times> ('k, 'l, 'r) hash_join" where
  "hj_on_left_insert x h =
     (let key = hj_left_key_fn h x;
          out = (case hm_get (hj_right_index h) key of Some right_rows \<Rightarrow> map (\<lambda>r. (x, r)) right_rows | None \<Rightarrow> [])
      in (out, h\<lparr>hj_left_index := index_push key x (hj_left_index h)\<rparr>))"

definition hj_on_left_delete ::
  "'l \<Rightarrow> ('k, 'l, 'r) hash_join \<Rightarrow> ('l \<times> 'r) list \<times> ('k, 'l, 'r) hash_join" where
  "hj_on_left_delete x h =
     (let key = hj_left_key_fn h x;
          out = (case hm_get (hj_right_index h) key of Some right_rows \<Rightarrow> map (\<lambda>r. (x, r)) right_rows | None \<Rightarrow> [])
      in (out, h\<lparr>hj_left_index := index_retain_not key x (hj_left_index h)\<rparr>))"

definition hj_on_right_insert ::
  "'r \<Rightarrow> ('k, 'l, 'r) hash_join \<Rightarrow> ('l \<times> 'r) list \<times> ('k, 'l, 'r) hash_join" where
  "hj_on_right_insert x h =
     (let key = hj_right_key_fn h x;
          out = (case hm_get (hj_left_index h) key of Some left_rows \<Rightarrow> map (\<lambda>l. (l, x)) left_rows | None \<Rightarrow> [])
      in (out, h\<lparr>hj_right_index := index_push key x (hj_right_index h)\<rparr>))"

definition hj_on_right_delete ::
  "'r \<Rightarrow> ('k, 'l, 'r) hash_join \<Rightarrow> ('l \<times> 'r) list \<times> ('k, 'l, 'r) hash_join" where
  "hj_on_right_delete x h =
     (let key = hj_right_key_fn h x;
          out = (case hm_get (hj_left_index h) key of Some left_rows \<Rightarrow> map (\<lambda>l. (l, x)) left_rows | None \<Rightarrow> [])
      in (out, h\<lparr>hj_right_index := index_retain_not key x (hj_right_index h)\<rparr>))"

fun hj_process_left_deltas ::
  "'l delta list \<Rightarrow> ('k, 'l, 'r) hash_join \<Rightarrow> ('l \<times> 'r) delta list \<times> ('k, 'l, 'r) hash_join" where
  "hj_process_left_deltas [] h = ([], h)"
| "hj_process_left_deltas (d # ds) h =
     (if dt_is_insert d then
        (let (pairs, h) = hj_on_left_insert (dt_data d) h;
             (out, h) = hj_process_left_deltas ds h
         in (map delta_insert pairs @ out, h))
      else if dt_is_delete d then
        (let (pairs, h) = hj_on_left_delete (dt_data d) h;
             (out, h) = hj_process_left_deltas ds h
         in (map delta_delete pairs @ out, h))
      else hj_process_left_deltas ds h)"

fun hj_process_right_deltas ::
  "'r delta list \<Rightarrow> ('k, 'l, 'r) hash_join \<Rightarrow> ('l \<times> 'r) delta list \<times> ('k, 'l, 'r) hash_join" where
  "hj_process_right_deltas [] h = ([], h)"
| "hj_process_right_deltas (d # ds) h =
     (if dt_is_insert d then
        (let (pairs, h) = hj_on_right_insert (dt_data d) h;
             (out, h) = hj_process_right_deltas ds h
         in (map delta_insert pairs @ out, h))
      else if dt_is_delete d then
        (let (pairs, h) = hj_on_right_delete (dt_data d) h;
             (out, h) = hj_process_right_deltas ds h
         in (map delta_delete pairs @ out, h))
      else hj_process_right_deltas ds h)"

definition hj_left_count :: "('k, 'l, 'r) hash_join \<Rightarrow> nat" where
  "hj_left_count h = (\<Sum>p\<leftarrow>hj_left_index h. length (snd p))"

definition hj_right_count :: "('k, 'l, 'r) hash_join \<Rightarrow> nat" where
  "hj_right_count h = (\<Sum>p\<leftarrow>hj_right_index h. length (snd p))"

section \<open>One side's index is a multiset of rows\<close>

lemma filter_mset_all: "\<forall>x \<in># M. P x \<Longrightarrow> filter_mset P M = M"
  by (induction M) auto

lemma filter_mset_none: "\<forall>x \<in># M. \<not> P x \<Longrightarrow> filter_mset P M = {#}"
  by (induction M) auto

definition index_bag :: "('k, 'a list) hash_map \<Rightarrow> 'a multiset" where
  "index_bag m = (\<Sum>p\<leftarrow>m. mset (snd p))"

definition index_ok :: "('a \<Rightarrow> 'k) \<Rightarrow> ('k, 'a list) hash_map \<Rightarrow> bool" where
  "index_ok key m \<longleftrightarrow> hm_ok m \<and> (\<forall>k rows. hm_get m k = Some rows \<longrightarrow> rows \<noteq> [] \<and> (\<forall>x \<in> set rows. key x = k))"

abbreviation index_rows :: "('k, 'a list) hash_map \<Rightarrow> 'k \<Rightarrow> 'a list" where
  "index_rows m k \<equiv> (case hm_get m k of Some rows \<Rightarrow> rows | None \<Rightarrow> [])"

lemma index_bag_split:
  "hm_ok m \<Longrightarrow> index_bag m = mset (index_rows m k) + index_bag (hm_remove k m)"
  using sum_hm_remove [of m k _ "\<lambda>p. mset (snd p)"]
  by (auto simp: index_bag_def hm_remove_absent split: option.splits)

lemma index_bag_insert: "hm_ok m \<Longrightarrow> index_bag (hm_insert k rows m) = mset rows + index_bag (hm_remove k m)"
  using sum_hm_insert [of m "\<lambda>p. mset (snd p)" k rows] by (simp add: index_bag_def)

lemma index_ok_rows: "index_ok key m \<Longrightarrow> x \<in> set (index_rows m k) \<Longrightarrow> key x = k"
  by (cases "hm_get m k") (auto simp: index_ok_def)

lemma index_ok_remove: "index_ok key m \<Longrightarrow> index_ok key (hm_remove k m)"
  by (auto simp: index_ok_def)

lemma index_bag_mem:
  "index_ok key m \<Longrightarrow> x \<in># index_bag m \<Longrightarrow> x \<in> set (index_rows m (key x))"
proof -
  assume ok: "index_ok key m" and x: "x \<in># index_bag m"
  then obtain p where p: "p \<in> set m" "x \<in> set (snd p)" by (auto simp: index_bag_def)
  then have "hm_get m (fst p) = Some (snd p)"
    using ok hm_ok_mem [of m "fst p" "snd p"] by (simp add: index_ok_def)
  then show ?thesis using ok p(2) by (auto simp: index_ok_def)
qed

text \<open>The rows under a key are the rows of the side that have the key.\<close>

lemma filter_index_bag:
  assumes "index_ok key m"
  shows "filter_mset (\<lambda>x. key x = k) (index_bag m) = mset (index_rows m k)"
proof -
  have ok: "hm_ok m" using assms by (simp add: index_ok_def)
  have "\<forall>x \<in># index_bag (hm_remove k m). \<not> key x = k"
    using index_bag_mem [OF index_ok_remove [OF assms]] by fastforce
  then have "filter_mset (\<lambda>x. key x = k) (index_bag (hm_remove k m)) = {#}"
    by (rule filter_mset_none)
  moreover have "filter_mset (\<lambda>x. key x = k) (mset (index_rows m k)) = mset (index_rows m k)"
    using index_ok_rows [OF assms] by (intro filter_mset_all) auto
  ultimately show ?thesis using index_bag_split [OF ok, of k] by simp
qed

lemma index_push_ok:
  assumes "index_ok key m"
  shows "index_ok key (index_push (key x) x m) \<and> index_bag (index_push (key x) x m) = add_mset x (index_bag m)"
proof -
  have ok: "hm_ok m" using assms by (simp add: index_ok_def)
  have "index_ok key (index_push (key x) x m)"
    using assms by (cases "hm_get m (key x)") (auto simp: index_ok_def index_push_def)
  moreover have "index_bag (index_push (key x) x m) = add_mset x (index_bag m)"
    using index_bag_insert [OF ok] index_bag_split [OF ok, of "key x"]
    by (simp add: index_push_def)
  ultimately show ?thesis by blast
qed

lemma index_retain_not_ok:
  assumes "index_ok key m"
  shows "index_ok key (index_retain_not (key x) x m)
    \<and> index_bag (index_retain_not (key x) x m) = filter_mset (\<lambda>y. y \<noteq> x) (index_bag m)"
proof -
  have ok: "hm_ok m" using assms by (simp add: index_ok_def)
  have "\<forall>y \<in># index_bag (hm_remove (key x) m). y \<noteq> x"
    using index_bag_mem [OF index_ok_remove [OF assms]] by fastforce
  then have rest: "filter_mset (\<lambda>y. y \<noteq> x) (index_bag (hm_remove (key x) m)) = index_bag (hm_remove (key x) m)"
    by (rule filter_mset_all)
  have bag: "filter_mset (\<lambda>y. y \<noteq> x) (index_bag m)
      = mset (filter (\<lambda>y. y \<noteq> x) (index_rows m (key x))) + index_bag (hm_remove (key x) m)"
    unfolding index_bag_split [OF ok, of "key x"] filter_union_mset rest mset_filter by (rule refl)
  show ?thesis
  proof (cases "hm_get m (key x)")
    case None
    then show ?thesis using assms bag index_bag_split [OF ok, of "key x"] by (simp add: index_retain_not_def)
  next
    case (Some rows)
    then show ?thesis
      using assms bag index_bag_insert [OF ok, of "key x" "filter (\<lambda>y. y \<noteq> x) rows"]
      by (auto simp: index_retain_not_def index_ok_def Let_def filter_empty_conv)
  qed
qed

section \<open>Specification: the join of two multisets\<close>

definition join_ms :: "('l \<Rightarrow> 'k) \<Rightarrow> ('r \<Rightarrow> 'k) \<Rightarrow> 'l multiset \<Rightarrow> 'r multiset \<Rightarrow> ('l \<times> 'r) multiset" where
  "join_ms lk rk L R = (\<Sum>l\<in>#L. image_mset (Pair l) (filter_mset (\<lambda>r. rk r = lk l) R))"

lemma join_ms_left:
  "join_ms lk rk (add_mset l L) R = image_mset (Pair l) (filter_mset (\<lambda>r. rk r = lk l) R) + join_ms lk rk L R"
  by (simp add: join_ms_def)

lemma join_ms_right:
  "join_ms lk rk L (add_mset r R) = image_mset (\<lambda>l. (l, r)) (filter_mset (\<lambda>l. lk l = rk r) L) + join_ms lk rk L R"
proof (induction L)
  case (add l L)
  then show ?case by (auto simp: join_ms_left)
qed (simp add: join_ms_def)

text \<open>A batch whose deletions are of rows that are on the side exactly once.\<close>

fun single_deletes :: "'a multiset \<Rightarrow> 'a delta list \<Rightarrow> bool" where
  "single_deletes M [] \<longleftrightarrow> True"
| "single_deletes M (d # ds) \<longleftrightarrow>
     (dt_is_delete d \<longrightarrow> count M (dt_data d) = 1) \<and> single_deletes (ms_delta M d) ds"

lemma filter_not_single: "count M x = 1 \<Longrightarrow> filter_mset (\<lambda>y. y \<noteq> x) M = M - {#x#}"
  by (auto simp: multiset_eq_iff)

lemma ms_deltas_inserts: "ms_deltas V (map delta_insert ps) = V + mset ps"
  by (induction ps arbitrary: V) (simp_all add: ms_delta_def)

lemma ms_deltas_deletes: "ms_deltas V (map delta_delete ps) = V - mset ps"
  by (induction ps arbitrary: V) (simp_all add: ms_delta_def)

text \<open>The operator holds the two sides \<open>L\<close> and \<open>R\<close>.\<close>

definition hj_inv :: "('l \<Rightarrow> 'k) \<Rightarrow> ('r \<Rightarrow> 'k) \<Rightarrow> 'l multiset \<Rightarrow> 'r multiset \<Rightarrow> ('k, 'l, 'r) hash_join \<Rightarrow> bool" where
  "hj_inv lk rk L R h \<longleftrightarrow> hj_left_key_fn h = lk \<and> hj_right_key_fn h = rk
     \<and> index_ok lk (hj_left_index h) \<and> index_ok rk (hj_right_index h)
     \<and> index_bag (hj_left_index h) = L \<and> index_bag (hj_right_index h) = R"

lemma hj_inv_new: "hj_inv lk rk {#} {#} (hj_new lk rk)"
  by (simp add: hj_inv_def hj_new_def index_ok_def index_bag_def)

lemma hj_left_pairs:
  assumes "hj_inv lk rk L R h"
  shows "mset (case hm_get (hj_right_index h) (lk x) of Some rs \<Rightarrow> map (\<lambda>r. (x, r)) rs | None \<Rightarrow> [])
    = image_mset (Pair x) (filter_mset (\<lambda>r. rk r = lk x) R)"
  using assms filter_index_bag [of rk "hj_right_index h" "lk x"]
  by (auto simp: hj_inv_def split: option.splits)

lemma hj_right_pairs:
  assumes "hj_inv lk rk L R h"
  shows "mset (case hm_get (hj_left_index h) (rk x) of Some ls \<Rightarrow> map (\<lambda>l. (l, x)) ls | None \<Rightarrow> [])
    = image_mset (\<lambda>l. (l, x)) (filter_mset (\<lambda>l. lk l = rk x) L)"
  using assms filter_index_bag [of lk "hj_left_index h" "rk x"]
  by (auto simp: hj_inv_def split: option.splits)

lemma hj_left_step:
  assumes inv: "hj_inv lk rk L R h"
  shows "hj_on_left_insert x h = (ps, h') \<Longrightarrow>
      hj_inv lk rk (add_mset x L) R h' \<and> join_ms lk rk (add_mset x L) R = join_ms lk rk L R + mset ps"
    and "hj_on_left_delete x h = (ps, h') \<Longrightarrow> count L x = 1 \<Longrightarrow>
      hj_inv lk rk (L - {#x#}) R h' \<and> join_ms lk rk (L - {#x#}) R = join_ms lk rk L R - mset ps"
proof -
  have ok: "index_ok lk (hj_left_index h)" "hj_left_key_fn h = lk" "index_bag (hj_left_index h) = L"
    using inv by (simp_all add: hj_inv_def)
  show "hj_inv lk rk (add_mset x L) R h' \<and> join_ms lk rk (add_mset x L) R = join_ms lk rk L R + mset ps"
    if "hj_on_left_insert x h = (ps, h')"
    using that inv index_push_ok [OF ok(1), of x] hj_left_pairs [OF inv, of x] ok
    by (auto simp: hj_on_left_insert_def Let_def hj_inv_def join_ms_left)
  show "hj_inv lk rk (L - {#x#}) R h' \<and> join_ms lk rk (L - {#x#}) R = join_ms lk rk L R - mset ps"
    if "hj_on_left_delete x h = (ps, h')" "count L x = 1"
  proof -
    have "x \<in># L" using that(2) by (metis count_eq_zero_iff zero_neq_one)
    then have "join_ms lk rk L R
        = image_mset (Pair x) (filter_mset (\<lambda>r. rk r = lk x) R) + join_ms lk rk (L - {#x#}) R"
      using join_ms_left [of lk rk x "L - {#x#}" R] by simp
    moreover have "hj_inv lk rk (L - {#x#}) R h'"
      using that inv index_retain_not_ok [OF ok(1), of x] ok filter_not_single [OF that(2)]
      by (auto simp: hj_on_left_delete_def Let_def hj_inv_def)
    moreover have "mset ps = image_mset (Pair x) (filter_mset (\<lambda>r. rk r = lk x) R)"
      using that(1) hj_left_pairs [OF inv, of x] ok(2) by (auto simp: hj_on_left_delete_def Let_def)
    ultimately show ?thesis by simp
  qed
qed

lemma hj_right_step:
  assumes inv: "hj_inv lk rk L R h"
  shows "hj_on_right_insert x h = (ps, h') \<Longrightarrow>
      hj_inv lk rk L (add_mset x R) h' \<and> join_ms lk rk L (add_mset x R) = join_ms lk rk L R + mset ps"
    and "hj_on_right_delete x h = (ps, h') \<Longrightarrow> count R x = 1 \<Longrightarrow>
      hj_inv lk rk L (R - {#x#}) h' \<and> join_ms lk rk L (R - {#x#}) = join_ms lk rk L R - mset ps"
proof -
  have ok: "index_ok rk (hj_right_index h)" "hj_right_key_fn h = rk" "index_bag (hj_right_index h) = R"
    using inv by (simp_all add: hj_inv_def)
  show "hj_inv lk rk L (add_mset x R) h' \<and> join_ms lk rk L (add_mset x R) = join_ms lk rk L R + mset ps"
    if "hj_on_right_insert x h = (ps, h')"
    using that inv index_push_ok [OF ok(1), of x] hj_right_pairs [OF inv, of x] ok
    by (auto simp: hj_on_right_insert_def Let_def hj_inv_def join_ms_right)
  show "hj_inv lk rk L (R - {#x#}) h' \<and> join_ms lk rk L (R - {#x#}) = join_ms lk rk L R - mset ps"
    if "hj_on_right_delete x h = (ps, h')" "count R x = 1"
  proof -
    have "x \<in># R" using that(2) by (metis count_eq_zero_iff zero_neq_one)
    then have "join_ms lk rk L R
        = image_mset (\<lambda>l. (l, x)) (filter_mset (\<lambda>l. lk l = rk x) L) + join_ms lk rk L (R - {#x#})"
      using join_ms_right [of lk rk L x "R - {#x#}"] by simp
    moreover have "hj_inv lk rk L (R - {#x#}) h'"
      using that inv index_retain_not_ok [OF ok(1), of x] ok filter_not_single [OF that(2)]
      by (auto simp: hj_on_right_delete_def Let_def hj_inv_def)
    moreover have "mset ps = image_mset (\<lambda>l. (l, x)) (filter_mset (\<lambda>l. lk l = rk x) L)"
      using that(1) hj_right_pairs [OF inv, of x] ok(2) by (auto simp: hj_on_right_delete_def Let_def)
    ultimately show ?thesis by simp
  qed
qed

lemma hj_left_batch:
  "hj_inv lk rk L R h \<Longrightarrow> single_deletes L ds \<Longrightarrow> hj_process_left_deltas ds h = (out, h') \<Longrightarrow>
     hj_inv lk rk (ms_deltas L ds) R h'
     \<and> ms_deltas (join_ms lk rk L R) out = join_ms lk rk (ms_deltas L ds) R"
proof (induction ds arbitrary: L h out)
  case (Cons d ds)
  note stepI = hj_left_step(1) [OF Cons.prems(1), of "dt_data d"]
  note stepD = hj_left_step(2) [OF Cons.prems(1), of "dt_data d"]
  consider (ins) "dt_is_insert d" | (del) "\<not> dt_is_insert d" "dt_is_delete d"
    | (noop) "\<not> dt_is_insert d" "\<not> dt_is_delete d" by blast
  then show ?case
  proof cases
    case ins
    obtain ps h1 out1 where s: "hj_on_left_insert (dt_data d) h = (ps, h1)" "hj_process_left_deltas ds h1 = (out1, h')"
      "out = map delta_insert ps @ out1"
      using Cons.prems(3) ins by (auto split: prod.splits)
    then show ?thesis using stepI [OF s(1)] Cons.IH [OF _ _ s(2), of "add_mset (dt_data d) L"] Cons.prems(2) ins
      by (simp add: ms_delta_def ms_deltas_inserts)
  next
    case del
    obtain ps h1 out1 where s: "hj_on_left_delete (dt_data d) h = (ps, h1)" "hj_process_left_deltas ds h1 = (out1, h')"
      "out = map delta_delete ps @ out1"
      using Cons.prems(3) del by (auto split: prod.splits)
    then show ?thesis using stepD [OF s(1)] Cons.IH [OF _ _ s(2), of "L - {#dt_data d#}"] Cons.prems(2) del
      by (simp add: ms_delta_def ms_deltas_deletes)
  next
    case noop
    then show ?thesis using Cons.IH [OF Cons.prems(1)] Cons.prems(2,3) by (simp add: ms_delta_def)
  qed
qed simp

lemma hj_right_batch:
  "hj_inv lk rk L R h \<Longrightarrow> single_deletes R ds \<Longrightarrow> hj_process_right_deltas ds h = (out, h') \<Longrightarrow>
     hj_inv lk rk L (ms_deltas R ds) h'
     \<and> ms_deltas (join_ms lk rk L R) out = join_ms lk rk L (ms_deltas R ds)"
proof (induction ds arbitrary: R h out)
  case (Cons d ds)
  note stepI = hj_right_step(1) [OF Cons.prems(1), of "dt_data d"]
  note stepD = hj_right_step(2) [OF Cons.prems(1), of "dt_data d"]
  consider (ins) "dt_is_insert d" | (del) "\<not> dt_is_insert d" "dt_is_delete d"
    | (noop) "\<not> dt_is_insert d" "\<not> dt_is_delete d" by blast
  then show ?case
  proof cases
    case ins
    obtain ps h1 out1 where s: "hj_on_right_insert (dt_data d) h = (ps, h1)" "hj_process_right_deltas ds h1 = (out1, h')"
      "out = map delta_insert ps @ out1"
      using Cons.prems(3) ins by (auto split: prod.splits)
    then show ?thesis using stepI [OF s(1)] Cons.IH [OF _ _ s(2), of "add_mset (dt_data d) R"] Cons.prems(2) ins
      by (simp add: ms_delta_def ms_deltas_inserts)
  next
    case del
    obtain ps h1 out1 where s: "hj_on_right_delete (dt_data d) h = (ps, h1)" "hj_process_right_deltas ds h1 = (out1, h')"
      "out = map delta_delete ps @ out1"
      using Cons.prems(3) del by (auto split: prod.splits)
    then show ?thesis using stepD [OF s(1)] Cons.IH [OF _ _ s(2), of "R - {#dt_data d#}"] Cons.prems(2) del
      by (simp add: ms_delta_def ms_deltas_deletes)
  next
    case noop
    then show ?thesis using Cons.IH [OF Cons.prems(1)] Cons.prems(2,3) by (simp add: ms_delta_def)
  qed
qed simp

section \<open>Runs\<close>

datatype ('l, 'r) side_batch = LeftBatch "'l delta list" | RightBatch "'r delta list"

fun hj_run ::
  "('l, 'r) side_batch list \<Rightarrow> ('k, 'l, 'r) hash_join \<Rightarrow> ('l \<times> 'r) delta list \<times> ('k, 'l, 'r) hash_join" where
  "hj_run [] h = ([], h)"
| "hj_run (LeftBatch ds # bs) h =
     (let (out, h) = hj_process_left_deltas ds h; (rest, h) = hj_run bs h in (out @ rest, h))"
| "hj_run (RightBatch ds # bs) h =
     (let (out, h) = hj_process_right_deltas ds h; (rest, h) = hj_run bs h in (out @ rest, h))"

fun sides_run :: "('l, 'r) side_batch list \<Rightarrow> 'l multiset \<times> 'r multiset \<Rightarrow> 'l multiset \<times> 'r multiset" where
  "sides_run [] LR = LR"
| "sides_run (LeftBatch ds # bs) (L, R) = sides_run bs (ms_deltas L ds, R)"
| "sides_run (RightBatch ds # bs) (L, R) = sides_run bs (L, ms_deltas R ds)"

fun run_single :: "('l, 'r) side_batch list \<Rightarrow> 'l multiset \<times> 'r multiset \<Rightarrow> bool" where
  "run_single [] LR \<longleftrightarrow> True"
| "run_single (LeftBatch ds # bs) (L, R) \<longleftrightarrow> single_deletes L ds \<and> run_single bs (ms_deltas L ds, R)"
| "run_single (RightBatch ds # bs) (L, R) \<longleftrightarrow> single_deletes R ds \<and> run_single bs (L, ms_deltas R ds)"

lemma hj_run_view:
  "hj_inv lk rk L R h \<Longrightarrow> run_single bs (L, R) \<Longrightarrow>
     (case (hj_run bs h, sides_run bs (L, R)) of ((out, h'), (L', R')) \<Rightarrow>
        hj_inv lk rk L' R' h' \<and> ms_deltas (join_ms lk rk L R) out = join_ms lk rk L' R')"
proof (induction bs arbitrary: L R h)
  case (Cons b bs)
  show ?case
  proof (cases b)
    case (LeftBatch ds)
    obtain out h1 where s: "hj_process_left_deltas ds h = (out, h1)" by fastforce
    show ?thesis
      using hj_left_batch [OF Cons.prems(1) _ s] Cons.IH [of "ms_deltas L ds" R h1] Cons.prems(2) s LeftBatch
      by (auto split: prod.splits)
  next
    case (RightBatch ds)
    obtain out h1 where s: "hj_process_right_deltas ds h = (out, h1)" by fastforce
    show ?thesis
      using hj_right_batch [OF Cons.prems(1) _ s] Cons.IH [of L "ms_deltas R ds" h1] Cons.prems(2) s RightBatch
      by (auto split: prod.splits)
  qed
qed simp

section \<open>Properties\<close>



text \<open>
  A row that is on a side twice is lost by one deletion: after two insertions and one deletion of
  the same left row a matching right row must join with the remaining one, but nothing is emitted.
\<close>

theorem hash_join_duplicate_lost:
  "let bs = [LeftBatch [delta_insert (1::int), delta_insert 1, delta_delete 1], RightBatch [delta_insert (1::int)]]
   in sides_run bs ({#}, {#}) = ({#1#}, {#1#})
      \<and> join_ms (\<lambda>x. x) (\<lambda>x. x) {#1::int#} {#1::int#} = {#(1, 1)#}
      \<and> fst (hj_run bs (hj_new (\<lambda>x. x) (\<lambda>x. x))) = []"
  by (simp add: ms_delta_def join_ms_def hj_new_def hj_on_left_insert_def hj_on_left_delete_def
      hj_on_right_insert_def index_push_def index_retain_not_def)

end
