(* ===== verification/Cynos_Jsonb.thy ===== *)
theory Cynos_Jsonb
  imports Cynos_Float
begin

text \<open>
  JSONB values and operators (\<open>crates/jsonb/src/value.rs\<close>, \<open>ops.rs\<close>). An object is a vector of entries
  kept sorted by key and searched by binary search; a string is the list of its UTF-8 bytes, whose
  byte order is Rust's order of strings. The text of a number (\<open>format!("{}", n)\<close>) is a parameter.
  Objects are shown to be maps, equality to be an equivalence, containment to be a preorder, and
  each operator to have the effect its name says on these maps.
\<close>

section \<open>Values\<close>

datatype jsonb =
    JNull
  | JBool bool
  | JNumber f64
  | JString string
  | JArray "jsonb list"
  | JObject "(string \<times> jsonb) list"

type_synonym jsonb_object = "(string \<times> jsonb) list"

definition obj_search :: "string \<Rightarrow> jsonb_object \<Rightarrow> nat + nat" where
  "obj_search key entries = binary_search_by (\<lambda>e. ord_cmp (fst e) key) entries"

definition obj_new :: jsonb_object where
  "obj_new = []"

definition obj_get :: "string \<Rightarrow> jsonb_object \<Rightarrow> jsonb option" where
  "obj_get key entries =
     (case obj_search key entries of Inr idx \<Rightarrow> Some (snd (entries ! idx)) | Inl _ \<Rightarrow> None)"

definition obj_insert :: "string \<Rightarrow> jsonb \<Rightarrow> jsonb_object \<Rightarrow> jsonb_object" where
  "obj_insert key v entries =
     (case obj_search key entries of
        Inr idx \<Rightarrow> entries[idx := (fst (entries ! idx), v)]
      | Inl idx \<Rightarrow> vec_insert idx (key, v) entries)"

definition obj_remove :: "string \<Rightarrow> jsonb_object \<Rightarrow> jsonb option \<times> jsonb_object" where
  "obj_remove key entries =
     (case obj_search key entries of
        Inr idx \<Rightarrow> (Some (snd (entries ! idx)), vec_remove idx entries)
      | Inl _ \<Rightarrow> (None, entries))"

definition obj_contains_key :: "string \<Rightarrow> jsonb_object \<Rightarrow> bool" where
  "obj_contains_key key entries \<longleftrightarrow> \<not> isl (obj_search key entries)"

fun jsonb_is_null :: "jsonb \<Rightarrow> bool" where
  "jsonb_is_null JNull = True" | "jsonb_is_null _ = False"

fun jsonb_is_bool :: "jsonb \<Rightarrow> bool" where
  "jsonb_is_bool (JBool _) = True" | "jsonb_is_bool _ = False"

fun jsonb_is_number :: "jsonb \<Rightarrow> bool" where
  "jsonb_is_number (JNumber _) = True" | "jsonb_is_number _ = False"

fun jsonb_is_string :: "jsonb \<Rightarrow> bool" where
  "jsonb_is_string (JString _) = True" | "jsonb_is_string _ = False"

fun jsonb_is_array :: "jsonb \<Rightarrow> bool" where
  "jsonb_is_array (JArray _) = True" | "jsonb_is_array _ = False"

fun jsonb_is_object :: "jsonb \<Rightarrow> bool" where
  "jsonb_is_object (JObject _) = True" | "jsonb_is_object _ = False"

fun jsonb_as_bool :: "jsonb \<Rightarrow> bool option" where
  "jsonb_as_bool (JBool b) = Some b" | "jsonb_as_bool _ = None"

fun jsonb_as_f64 :: "jsonb \<Rightarrow> f64 option" where
  "jsonb_as_f64 (JNumber n) = Some n" | "jsonb_as_f64 _ = None"

fun jsonb_as_str :: "jsonb \<Rightarrow> string option" where
  "jsonb_as_str (JString s) = Some s" | "jsonb_as_str _ = None"

fun jsonb_as_array :: "jsonb \<Rightarrow> jsonb list option" where
  "jsonb_as_array (JArray arr) = Some arr" | "jsonb_as_array _ = None"

fun jsonb_as_object :: "jsonb \<Rightarrow> jsonb_object option" where
  "jsonb_as_object (JObject obj) = Some obj" | "jsonb_as_object _ = None"

definition jsonb_get :: "string \<Rightarrow> jsonb \<Rightarrow> jsonb option" where
  "jsonb_get key v = (case jsonb_as_object v of None \<Rightarrow> None | Some obj \<Rightarrow> obj_get key obj)"

definition jsonb_get_index :: "nat \<Rightarrow> jsonb \<Rightarrow> jsonb option" where
  "jsonb_get_index i v =
     (case jsonb_as_array v of None \<Rightarrow> None | Some arr \<Rightarrow> if i < length arr then Some (arr ! i) else None)"

text \<open>\<open>PartialEq\<close>: two NaN are equal, vectors are compared with their lengths first.\<close>

definition number_eq :: "f64 \<Rightarrow> f64 \<Rightarrow> bool" where
  "number_eq a b \<longleftrightarrow> (if f64_is_nan a \<and> f64_is_nan b then True else f64_eq a b)"

fun jsonb_eq :: "jsonb \<Rightarrow> jsonb \<Rightarrow> bool"
  and jsonb_list_eq :: "jsonb list \<Rightarrow> jsonb list \<Rightarrow> bool"
  and jsonb_entries_eq :: "jsonb_object \<Rightarrow> jsonb_object \<Rightarrow> bool" where
  "jsonb_eq JNull JNull = True"
| "jsonb_eq (JBool a) (JBool b) \<longleftrightarrow> a = b"
| "jsonb_eq (JNumber a) (JNumber b) \<longleftrightarrow> number_eq a b"
| "jsonb_eq (JString a) (JString b) \<longleftrightarrow> a = b"
| "jsonb_eq (JArray a) (JArray b) \<longleftrightarrow> length a = length b \<and> jsonb_list_eq a b"
| "jsonb_eq (JObject a) (JObject b) \<longleftrightarrow> length a = length b \<and> jsonb_entries_eq a b"
| "jsonb_eq _ _ = False"
| "jsonb_list_eq (x # xs) (y # ys) \<longleftrightarrow> jsonb_eq x y \<and> jsonb_list_eq xs ys"
| "jsonb_list_eq _ _ = True"
| "jsonb_entries_eq ((k1, v1) # xs) ((k2, v2) # ys) \<longleftrightarrow>
     k1 = k2 \<and> jsonb_eq v1 v2 \<and> jsonb_entries_eq xs ys"
| "jsonb_entries_eq _ _ = True"

fun jsonb_as_i64 :: "jsonb \<Rightarrow> i64 option" where
  "jsonb_as_i64 (JNumber n) = (let i = f64_as_i64 n in if f64_eq (i64_as_f64 i) n then Some i else None)"
| "jsonb_as_i64 _ = None"

fun jsonb_partial_cmp :: "jsonb \<Rightarrow> jsonb \<Rightarrow> ordering option" where
  "jsonb_partial_cmp JNull JNull = Some Equal"
| "jsonb_partial_cmp JNull _ = Some Less"
| "jsonb_partial_cmp _ JNull = Some Greater"
| "jsonb_partial_cmp (JBool a) (JBool b) = Some (ord_cmp a b)"
| "jsonb_partial_cmp (JNumber a) (JNumber b) = f64_partial_cmp a b"
| "jsonb_partial_cmp (JString a) (JString b) = Some (ord_cmp a b)"
| "jsonb_partial_cmp _ _ = None"

section \<open>Operators\<close>

datatype jsonb_op =
    GetField string
  | GetFieldText string
  | GetPath "string list"
  | Contains jsonb
  | ContainedBy jsonb
  | HasKey string
  | HasAnyKey "string list"
  | HasAllKeys "string list"
  | Concat jsonb
  | DeleteKey string
  | DeleteKeys "string list"
  | DeleteIndex nat

fun jsonb_contains :: "jsonb \<Rightarrow> jsonb \<Rightarrow> bool"
  and contains_entries :: "jsonb_object \<Rightarrow> jsonb_object \<Rightarrow> bool"
  and contains_items :: "jsonb list \<Rightarrow> jsonb list \<Rightarrow> bool"
  and any_contains :: "jsonb list \<Rightarrow> jsonb \<Rightarrow> bool" where
  "jsonb_contains (JObject a) (JObject b) = contains_entries a b"
| "jsonb_contains (JArray a) (JArray b) = contains_items a b"
| "jsonb_contains a b = jsonb_eq a b"
| "contains_entries a [] = True"
| "contains_entries a ((key, v) # entries) =
     (case obj_get key a of
        Some self_val \<Rightarrow> if \<not> jsonb_contains self_val v then False else contains_entries a entries
      | None \<Rightarrow> False)"
| "contains_items a [] = True"
| "contains_items a (item # items) = (if \<not> any_contains a item then False else contains_items a items)"
| "any_contains [] item = False"
| "any_contains (x # xs) item = (jsonb_contains x item \<or> any_contains xs item)"

text \<open>\<open>str::parse::<usize>\<close>: an optional plus sign, then decimal digits, checked for overflow.\<close>

fun parse_digits :: "nat \<Rightarrow> string \<Rightarrow> nat option" where
  "parse_digits acc [] = Some acc"
| "parse_digits acc (c # cs) =
     (let d = (of_char c :: nat) in
      if 48 \<le> d \<and> d \<le> 57 \<and> acc * 10 + (d - 48) < 2 ^ 64
      then parse_digits (acc * 10 + (d - 48)) cs else None)"

definition parse_usize :: "string \<Rightarrow> nat option" where
  "parse_usize s =
     (if s = [] then None
      else if hd s = CHR ''+'' then (if tl s = [] then None else parse_digits 0 (tl s))
      else parse_digits 0 s)"

fun jsonb_has_key :: "string \<Rightarrow> jsonb \<Rightarrow> bool" where
  "jsonb_has_key key (JObject obj) = obj_contains_key key obj"
| "jsonb_has_key key (JArray arr) =
     (case parse_usize key of Some idx \<Rightarrow> idx < length arr | None \<Rightarrow> False)"
| "jsonb_has_key key _ = False"

definition jsonb_has_any_key :: "string list \<Rightarrow> jsonb \<Rightarrow> bool" where
  "jsonb_has_any_key ks v = list_ex (\<lambda>k. jsonb_has_key k v) ks"

definition jsonb_has_all_keys :: "string list \<Rightarrow> jsonb \<Rightarrow> bool" where
  "jsonb_has_all_keys ks v = list_all (\<lambda>k. jsonb_has_key k v) ks"

fun jsonb_concat :: "jsonb \<Rightarrow> jsonb \<Rightarrow> jsonb" where
  "jsonb_concat (JObject a) (JObject b) = JObject (foldl (\<lambda>result (key, v). obj_insert key v result) a b)"
| "jsonb_concat (JArray a) (JArray b) = JArray (a @ b)"
| "jsonb_concat (JArray a) other = JArray (a @ [other])"
| "jsonb_concat other (JArray b) = JArray (other # b)"
| "jsonb_concat a _ = a"

fun jsonb_delete_key :: "string \<Rightarrow> jsonb \<Rightarrow> jsonb" where
  "jsonb_delete_key key (JObject obj) = JObject (snd (obj_remove key obj))"
| "jsonb_delete_key key v = v"

fun jsonb_delete_keys :: "string list \<Rightarrow> jsonb \<Rightarrow> jsonb" where
  "jsonb_delete_keys ks (JObject obj) = JObject (foldl (\<lambda>result key. snd (obj_remove key result)) obj ks)"
| "jsonb_delete_keys ks v = v"

fun jsonb_delete_index :: "nat \<Rightarrow> jsonb \<Rightarrow> jsonb" where
  "jsonb_delete_index i (JArray arr) = (if i < length arr then JArray (vec_remove i arr) else JArray arr)"
| "jsonb_delete_index i v = v"

fun get_path :: "string list \<Rightarrow> jsonb \<Rightarrow> jsonb option" where
  "get_path [] current = Some current"
| "get_path (key # path) current =
     (case jsonb_get key current of Some v \<Rightarrow> get_path path v | None \<Rightarrow> None)"

definition jsonb_field_text :: "(f64 \<Rightarrow> string) \<Rightarrow> jsonb \<Rightarrow> jsonb option" where
  "jsonb_field_text fmt v =
     (case v of
        JString s \<Rightarrow> Some (JString s)
      | JNumber n \<Rightarrow> Some (JString (fmt n))
      | JBool b \<Rightarrow> Some (JString (if b then ''true'' else ''false''))
      | JNull \<Rightarrow> Some (JString ''null'')
      | _ \<Rightarrow> None)"

fun jsonb_apply_op :: "(f64 \<Rightarrow> string) \<Rightarrow> jsonb \<Rightarrow> jsonb_op \<Rightarrow> jsonb option" where
  "jsonb_apply_op fmt v (GetField key) = jsonb_get key v"
| "jsonb_apply_op fmt v (GetFieldText key) =
     (case jsonb_get key v of None \<Rightarrow> None | Some w \<Rightarrow> jsonb_field_text fmt w)"
| "jsonb_apply_op fmt v (GetPath path) = get_path path v"
| "jsonb_apply_op fmt v (Contains other) = Some (JBool (jsonb_contains v other))"
| "jsonb_apply_op fmt v (ContainedBy other) = Some (JBool (jsonb_contains other v))"
| "jsonb_apply_op fmt v (HasKey key) = Some (JBool (jsonb_has_key key v))"
| "jsonb_apply_op fmt v (HasAnyKey ks) = Some (JBool (jsonb_has_any_key ks v))"
| "jsonb_apply_op fmt v (HasAllKeys ks) = Some (JBool (jsonb_has_all_keys ks v))"
| "jsonb_apply_op fmt v (Concat other) = Some (jsonb_concat v other)"
| "jsonb_apply_op fmt v (DeleteKey key) = Some (jsonb_delete_key key v)"
| "jsonb_apply_op fmt v (DeleteKeys ks) = Some (jsonb_delete_keys ks v)"
| "jsonb_apply_op fmt v (DeleteIndex i) = Some (jsonb_delete_index i v)"

section \<open>Objects are maps\<close>

lemma obj_search_sorted: "bm_ok es \<Longrightarrow> bs_sorted (\<lambda>e. ord_cmp (fst e) key) es"
  unfolding bm_ok_def by (rule strict_sorted_bs_sorted)

lemma obj_search_Inr:
  assumes "bm_ok es" "obj_search key es = Inr i"
  shows "i < length es \<and> fst (es ! i) = key"
  using binary_search_by_Inr [OF obj_search_sorted [OF assms(1)] assms(2) [unfolded obj_search_def]]
  by simp

lemma obj_search_Inl:
  assumes "bm_ok es" "obj_search key es = Inl i"
  shows "i \<le> length es \<and> (\<forall>e \<in> set (take i es). fst e < key) \<and> (\<forall>e \<in> set (drop i es). key < fst e)"
  using binary_search_by_Inl [OF obj_search_sorted [OF assms(1)] assms(2) [unfolded obj_search_def]]
  by simp

lemma map_of_take_drop: "map_of es = map_of (drop i es) ++ map_of (take i es)"
  by (metis append_take_drop_id map_of_append)

lemma obj_get_map: "bm_ok es \<Longrightarrow> obj_get key es = map_of es key"
proof (cases "obj_search key es")
  case (Inl i)
  assume ok: "bm_ok es"
  have "map_of (take i es) key = None" "map_of (drop i es) key = None"
    using obj_search_Inl [OF ok Inl] by (force simp: map_of_eq_None_iff)+
  then have "map_of es key = None"
    by (simp add: map_of_take_drop [of es i] map_add_None)
  then show ?thesis using Inl by (simp add: obj_get_def)
next
  case (Inr i)
  assume ok: "bm_ok es"
  have "(key, snd (es ! i)) \<in> set es"
    using obj_search_Inr [OF ok Inr] by (metis nth_mem prod.collapse)
  then have "map_of es key = Some (snd (es ! i))" using bm_ok_mem [OF ok] by blast
  then show ?thesis using Inr by (simp add: obj_get_def)
qed

lemma map_of_middle:
  assumes "key \<notin> fst ` set xs"
  shows "map_of (xs @ (key, v) # ys) = (map_of (xs @ ys))(key \<mapsto> v)"
  using assms by (induction xs) (auto simp: fun_eq_iff)

lemma bm_ok_keys_eq: "map fst es = map fst es' \<Longrightarrow> bm_ok es = bm_ok es'"
  by (simp add: bm_ok_def)

lemma obj_split:
  assumes "bm_ok es" "i < length es"
  shows "\<exists>xs v ys. es = xs @ (fst (es ! i), v) # ys \<and> i = length xs \<and> v = snd (es ! i)
    \<and> fst (es ! i) \<notin> fst ` set xs \<and> fst (es ! i) \<notin> fst ` set ys"
proof -
  have es: "es = take i es @ (fst (es ! i), snd (es ! i)) # drop (Suc i) es"
    using id_take_nth_drop [OF assms(2)] by simp
  have "distinct (map fst es)" by (rule bm_ok_distinct [OF assms(1)])
  then have "distinct (map fst (take i es) @ fst (es ! i) # map fst (drop (Suc i) es))"
    by (subst (asm) es) simp
  then show ?thesis using es assms(2)
    by (intro exI [of _ "take i es"] exI [of _ "snd (es ! i)"] exI [of _ "drop (Suc i) es"]) auto
qed

lemma obj_insert_bm: "bm_ok es \<Longrightarrow> obj_insert key v es = bm_insert key v es"
proof (rule bm_ext)
  assume ok: "bm_ok es"
  have "bm_ok (obj_insert key v es) \<and> map_of (obj_insert key v es) = (map_of es)(key \<mapsto> v)"
  proof (cases "obj_search key es")
    case (Inl i)
    note b = obj_search_Inl [OF ok Inl]
    have "sorted_wrt (<) (vec_insert i key (map fst es))"
      using ok b by (intro sorted_wrt_vec_insert) (auto simp: bm_ok_def take_map drop_map)
    then have "bm_ok (vec_insert i (key, v) es)"
      by (simp add: bm_ok_def vec_insert_def take_map drop_map)
    moreover have "key \<notin> fst ` set (take i es)" using b by force
    then have "map_of (vec_insert i (key, v) es) = (map_of es)(key \<mapsto> v)"
      using map_of_middle [of key "take i es" v "drop i es"] by (simp add: vec_insert_def)
    ultimately show ?thesis using Inl by (simp add: obj_insert_def)
  next
    case (Inr i)
    note b = obj_search_Inr [OF ok Inr]
    obtain xs w ys where es: "es = xs @ (key, w) # ys" "i = length xs" "key \<notin> fst ` set xs"
      using obj_split [OF ok, of i] b by auto
    have "es[i := (key, v)] = xs @ (key, v) # ys" using es(1,2) by simp
    moreover have "bm_ok (xs @ (key, v) # ys)"
      using ok unfolding es(1) by (subst bm_ok_keys_eq [of _ "xs @ (key, w) # ys"]) simp_all
    moreover have "map_of (xs @ (key, v) # ys) = (map_of es)(key \<mapsto> v)"
      unfolding es(1) map_of_middle [OF es(3)] by simp
    ultimately show ?thesis using Inr b by (simp add: obj_insert_def)
  qed
  then show "bm_ok (obj_insert key v es)" "map_of (obj_insert key v es) = map_of (bm_insert key v es)"
    by simp_all
qed simp

lemma obj_remove_bm:
  assumes ok: "bm_ok es"
  shows "obj_remove key es = (map_of es key, bm_remove key es)"
proof (cases "obj_search key es")
  case (Inl i)
  have "map_of es key = None" using obj_get_map [OF ok, of key] Inl by (simp add: obj_get_def)
  moreover have "bm_remove key es = es"
    unfolding bm_remove_def using calculation by (intro filter_True) (force simp: map_of_eq_None_iff)
  ultimately show ?thesis using Inl by (simp add: obj_remove_def)
next
  case (Inr i)
  note b = obj_search_Inr [OF ok Inr]
  obtain xs w ys where es: "es = xs @ (key, w) # ys" "i = length xs" "w = snd (es ! i)"
      "key \<notin> fst ` set xs" "key \<notin> fst ` set ys"
    using obj_split [OF ok, of i] b by auto
  have "vec_remove i es = xs @ ys" using es(1,2) by (simp add: vec_remove_def)
  moreover have "filter (\<lambda>p. fst p \<noteq> key) zs = zs" if "key \<notin> fst ` set zs" for zs :: jsonb_object
    using that by (intro filter_True) force
  then have "bm_remove key es = xs @ ys" using es(1,4,5) by (simp add: bm_remove_def)
  moreover have "map_of es key = Some w"
    using obj_get_map [OF ok, of key] Inr es(3) by (simp add: obj_get_def)
  ultimately show ?thesis using Inr es(3) by (simp add: obj_remove_def)
qed

lemma obj_contains_key_map: "bm_ok es \<Longrightarrow> obj_contains_key key es \<longleftrightarrow> map_of es key \<noteq> None"
  using obj_get_map [of es key]
  by (cases "obj_search key es") (auto simp: obj_contains_key_def obj_get_def dest: sym)

lemma foldl_insert_map:
  "bm_ok a \<Longrightarrow> distinct (map fst b) \<Longrightarrow>
     bm_ok (foldl (\<lambda>result (key, v). obj_insert key v result) a b)
     \<and> map_of (foldl (\<lambda>result (key, v). obj_insert key v result) a b) = map_of a ++ map_of b"
proof (induction b arbitrary: a)
  case (Cons e b)
  obtain key v where e: "e = (key, v)" by fastforce
  have ins: "obj_insert key v a = bm_insert key v a" using Cons.prems(1) by (rule obj_insert_bm)
  have "map_of (bm_insert key v a) ++ map_of b = map_of a ++ map_of (e # b)"
  proof
    fix x
    have "map_of b key = None" using Cons.prems(2) e by (simp add: map_of_eq_None_iff)
    then show "(map_of (bm_insert key v a) ++ map_of b) x = (map_of a ++ map_of (e # b)) x"
      by (cases "x = key") (simp_all add: e map_add_def split: option.split)
  qed
  then show ?case using Cons.IH [of "bm_insert key v a"] Cons.prems e ins
    by (simp del: fun_upd_apply map_of.simps map_add_upd_left)
qed simp

lemma foldl_remove_map:
  "bm_ok a \<Longrightarrow> bm_ok (foldl (\<lambda>result key. snd (obj_remove key result)) a ks)
     \<and> map_of (foldl (\<lambda>result key. snd (obj_remove key result)) a ks) = (map_of a) |` (- set ks)"
proof (induction ks arbitrary: a)
  case (Cons k ks)
  have "snd (obj_remove k a) = bm_remove k a" using Cons.prems by (simp add: obj_remove_bm)
  then show ?case using Cons.IH [of "bm_remove k a"] Cons.prems
    by (auto simp: fun_eq_iff restrict_map_def)
qed (simp add: restrict_map_def)

section \<open>Well-formed values, equality and containment\<close>

fun jsonb_ok :: "jsonb \<Rightarrow> bool" where
  "jsonb_ok (JArray vs) \<longleftrightarrow> (\<forall>v \<in> set vs. jsonb_ok v)"
| "jsonb_ok (JObject es) \<longleftrightarrow> bm_ok es \<and> (\<forall>e \<in> set es. jsonb_ok (snd e))"
| "jsonb_ok _ \<longleftrightarrow> True"

lemma number_eq_equiv:
  "number_eq a a"
  "number_eq a b \<Longrightarrow> number_eq b a"
  "number_eq a b \<Longrightarrow> number_eq b c \<Longrightarrow> number_eq a c"
  by (auto simp: number_eq_def f64_eq_def split: if_splits)

lemma jsonb_list_eq_all2: "length a = length b \<and> jsonb_list_eq a b \<longleftrightarrow> list_all2 jsonb_eq a b"
proof (induction a arbitrary: b)
  case (Cons x a)
  then show ?case by (cases b) auto
qed simp

lemma jsonb_entries_eq_all2:
  "length a = length b \<and> jsonb_entries_eq a b \<longleftrightarrow> list_all2 (\<lambda>e f. fst e = fst f \<and> jsonb_eq (snd e) (snd f)) a b"
proof (induction a arbitrary: b)
  case (Cons x a)
  show ?case
  proof (cases b)
    case (Cons y ys)
    then show ?thesis using Cons.IH [of ys] by (cases x; cases y) auto
  qed simp
qed simp

lemmas jsonb_eq_all2 = jsonb_eq.simps(5,6) [unfolded jsonb_list_eq_all2 jsonb_entries_eq_all2]

lemma jsonb_eq_refl [simp]: "jsonb_eq a a"
proof (induction a)
  case (JArray vs)
  then show ?case by (simp add: jsonb_eq_all2 list_all2_same del: jsonb_eq.simps(5))
next
  case (JObject es)
  then have "jsonb_eq (snd e) (snd e)" if "e \<in> set es" for e using that by (cases e) auto
  then show ?case by (simp add: jsonb_eq_all2 list_all2_same del: jsonb_eq.simps(6))
qed (simp_all add: number_eq_equiv)

lemma jsonb_eq_sym: "jsonb_eq a b \<Longrightarrow> jsonb_eq b a"
proof (induction a arbitrary: b)
  case (JArray vs)
  obtain ws where b: "b = JArray ws" using JArray.prems by (cases b) auto
  have "list_all2 jsonb_eq vs ws" using JArray.prems b jsonb_list_eq_all2 by simp
  then have "list_all2 jsonb_eq ws vs" using JArray.IH
    by (auto simp: list_all2_conv_all_nth)
  then show ?case using b by (simp add: jsonb_eq_all2 del: jsonb_eq.simps(5))
next
  case (JObject es)
  obtain fs where b: "b = JObject fs" using JObject.prems by (cases b) auto
  have IH: "jsonb_eq (snd e) w \<Longrightarrow> jsonb_eq w (snd e)" if "e \<in> set es" for e w
    using JObject.IH [of e "snd e"] that by (cases e) auto
  have "list_all2 (\<lambda>e f. fst e = fst f \<and> jsonb_eq (snd e) (snd f)) es fs"
    using JObject.prems b jsonb_entries_eq_all2 by simp
  then have "list_all2 (\<lambda>e f. fst e = fst f \<and> jsonb_eq (snd e) (snd f)) fs es"
    using IH by (auto simp: list_all2_conv_all_nth)
  then show ?case using b by (simp add: jsonb_eq_all2 del: jsonb_eq.simps(6))
qed (case_tac b; auto intro: number_eq_equiv)+

lemma jsonb_eq_trans: "jsonb_eq a b \<Longrightarrow> jsonb_eq b c \<Longrightarrow> jsonb_eq a c"
proof (induction a arbitrary: b c)
  case (JArray vs)
  obtain ws us where b: "b = JArray ws" "c = JArray us"
    using JArray.prems by (cases b; cases c) auto
  have "list_all2 jsonb_eq vs ws" "list_all2 jsonb_eq ws us" using JArray.prems b jsonb_list_eq_all2 by simp_all
  then have "list_all2 jsonb_eq vs us" using JArray.IH
    by (auto simp: list_all2_conv_all_nth)
  then show ?case using b by (simp add: jsonb_eq_all2 del: jsonb_eq.simps(5))
next
  case (JObject es)
  obtain fs gs where b: "b = JObject fs" "c = JObject gs"
    using JObject.prems by (cases b; cases c) auto
  have IH: "jsonb_eq (snd e) v \<Longrightarrow> jsonb_eq v w \<Longrightarrow> jsonb_eq (snd e) w" if "e \<in> set es" for e v w
    using JObject.IH [of e "snd e"] that by (cases e) auto
  let ?R = "\<lambda>e f. fst e = fst f \<and> jsonb_eq (snd e) (snd f)"
  have "list_all2 ?R es fs" "list_all2 ?R fs gs"
    using JObject.prems b jsonb_entries_eq_all2 by simp_all
  moreover have "?R e h" if "e \<in> set es" "?R e f" "?R f h" for e f h using that IH [of e] by metis
  ultimately have "list_all2 ?R es gs"
    unfolding list_all2_conv_all_nth by (metis (mono_tags, lifting) nth_mem)
  then show ?case using b by (simp add: jsonb_eq_all2 del: jsonb_eq.simps(6))
qed (case_tac b; case_tac c; auto intro: number_eq_equiv)+

lemma any_contains_iff: "any_contains xs item \<longleftrightarrow> (\<exists>x \<in> set xs. jsonb_contains x item)"
  by (induction xs) auto

lemma contains_items_iff: "contains_items a items \<longleftrightarrow> (\<forall>i \<in> set items. \<exists>x \<in> set a. jsonb_contains x i)"
  by (induction items) (auto simp: any_contains_iff)

lemma contains_entries_iff:
  "contains_entries a es \<longleftrightarrow> (\<forall>(k, v) \<in> set es. \<exists>w. obj_get k a = Some w \<and> jsonb_contains w v)"
proof (induction es)
  case (Cons e es)
  then show ?case by (cases e; cases "obj_get (fst e) a") auto
qed simp

lemma jsonb_contains_refl: "jsonb_ok a \<Longrightarrow> jsonb_contains a a"
proof (induction a)
  case (JArray vs)
  then show ?case by (auto simp: contains_items_iff)
next
  case (JObject es)
  have ok: "bm_ok es" using JObject.prems by simp
  have "\<exists>w. obj_get k es = Some w \<and> jsonb_contains w v" if "(k, v) \<in> set es" for k v
    using that JObject bm_ok_mem [OF ok] obj_get_map [OF ok] by fastforce
  then show ?case by (auto simp: contains_entries_iff)
qed auto

lemma jsonb_contains_trans:
  "jsonb_ok a \<Longrightarrow> jsonb_ok b \<Longrightarrow> jsonb_contains a b \<Longrightarrow> jsonb_contains b c \<Longrightarrow> jsonb_contains a c"
proof (induction c arbitrary: a b)
  case (JArray cs)
  obtain as bs where ab: "a = JArray as" "b = JArray bs"
    using JArray.prems(3,4) by (cases a; cases b) auto
  show ?case unfolding ab jsonb_contains.simps contains_items_iff
  proof
    fix i assume i: "i \<in> set cs"
    obtain y where y: "y \<in> set bs" "jsonb_contains y i"
      using JArray.prems(4) i ab by (auto simp: contains_items_iff)
    obtain x where x: "x \<in> set as" "jsonb_contains x y"
      using JArray.prems(3) y(1) ab by (auto simp: contains_items_iff)
    have "jsonb_contains x i"
      using JArray.IH [OF i _ _ x(2) y(2)] JArray.prems(1,2) x(1) y(1) ab by simp
    then show "\<exists>x \<in> set as. jsonb_contains x i" using x(1) by blast
  qed
next
  case (JObject cs)
  obtain as bs where ab: "a = JObject as" "b = JObject bs"
    using JObject.prems(3,4) by (cases a; cases b) auto
  have ok: "bm_ok as" "bm_ok bs" using JObject.prems(1,2) ab by simp_all
  show ?case unfolding ab jsonb_contains.simps contains_entries_iff
  proof (clarify)
    fix k v assume kv: "(k, v) \<in> set cs"
    obtain w where w: "obj_get k bs = Some w" "jsonb_contains w v"
      using JObject.prems(4) kv ab by (auto simp: contains_entries_iff)
    then have wb: "(k, w) \<in> set bs" using obj_get_map [OF ok(2)] bm_ok_mem [OF ok(2)] by metis
    obtain u where u: "obj_get k as = Some u" "jsonb_contains u w"
      using JObject.prems(3) wb ab by (auto simp: contains_entries_iff)
    then have ua: "(k, u) \<in> set as" using obj_get_map [OF ok(1)] bm_ok_mem [OF ok(1)] by metis
    have "jsonb_ok u" "jsonb_ok w" using JObject.prems(1,2) ab ua wb by auto
    then have "jsonb_contains u v"
      using JObject.IH [OF kv _ _ _ u(2) w(2)] by simp
    then show "\<exists>w. obj_get k as = Some w \<and> jsonb_contains w v" using u(1) by blast
  qed
qed (case_tac a; case_tac b; auto intro: jsonb_eq_trans number_eq_equiv)+

section \<open>Operators keep values well formed\<close>

lemma jsonb_ok_entries:
  "bm_ok es \<Longrightarrow> jsonb_ok (JObject es) \<longleftrightarrow> (\<forall>k v. map_of es k = Some v \<longrightarrow> jsonb_ok v)"
  using bm_ok_mem [of es] by fastforce

lemma jsonb_concat_ok: "jsonb_ok a \<Longrightarrow> jsonb_ok b \<Longrightarrow> jsonb_ok (jsonb_concat a b)"
proof (induction a b rule: jsonb_concat.induct)
  case (1 as bs)
  let ?r = "foldl (\<lambda>result (key, v). obj_insert key v result) as bs"
  have r: "bm_ok ?r \<and> map_of ?r = map_of as ++ map_of bs"
    using 1 by (intro foldl_insert_map) (simp_all add: bm_ok_distinct)
  have "jsonb_ok v" if "map_of ?r k = Some v" for k v
    using that r 1 jsonb_ok_entries [of as] jsonb_ok_entries [of bs] by (auto simp: map_add_Some_iff)
  then have "jsonb_ok (JObject ?r)" using r jsonb_ok_entries [of ?r] by blast
  then show ?case by simp
qed auto

lemma jsonb_delete_keys_ok: "jsonb_ok a \<Longrightarrow> jsonb_ok (jsonb_delete_keys ks a)"
proof (cases a)
  case (JObject es)
  assume ok: "jsonb_ok a"
  let ?r = "foldl (\<lambda>result key. snd (obj_remove key result)) es ks"
  have r: "bm_ok ?r \<and> map_of ?r = (map_of es) |` (- set ks)"
    using ok JObject by (intro foldl_remove_map) simp
  have "jsonb_ok v" if "map_of ?r k = Some v" for k v
    using that r ok JObject jsonb_ok_entries [of es] by (auto simp: restrict_map_def split: if_splits)
  then have "jsonb_ok (JObject ?r)" using r jsonb_ok_entries [of ?r] by blast
  then show ?thesis using JObject by simp
qed auto

lemma jsonb_get_map: "jsonb_ok (JObject es) \<Longrightarrow> jsonb_get k (JObject es) = map_of es k"
  by (simp add: jsonb_get_def obj_get_map)

section \<open>Properties\<close>

text \<open>
  C37. An object whose entries are in key order is a map: lookup, membership test, insertion and removal by
  binary search are those of the map, and insertion and removal keep the order.
\<close>

theorem jsonb_object_is_map:
  assumes "bm_ok es"
  shows "obj_get k es = map_of es k \<and> obj_contains_key k es = (map_of es k \<noteq> None)
    \<and> bm_ok (obj_insert k v es) \<and> map_of (obj_insert k v es) = (map_of es)(k \<mapsto> v)
    \<and> bm_ok (snd (obj_remove k es)) \<and> map_of (snd (obj_remove k es)) = (map_of es)(k := None)
    \<and> fst (obj_remove k es) = map_of es k"
  using assms by (simp add: obj_get_map obj_contains_key_map obj_insert_bm obj_remove_bm)

theorem jsonb_object_is_map_witness:
  "obj_get ''b'' (obj_insert ''b'' JNull [(''a'', JBool True), (''c'', JBool False)]) = Some JNull"
proof -
  have ok: "bm_ok [(''a'', JBool True), (''c'', JBool False)]" by simp
  note ins = jsonb_object_is_map [OF ok, of "''b''" JNull]
  have ok2: "bm_ok (obj_insert ''b'' JNull [(''a'', JBool True), (''c'', JBool False)])" using ins by blast
  have "map_of (obj_insert ''b'' JNull [(''a'', JBool True), (''c'', JBool False)]) ''b'' = Some JNull"
    using ins by (metis fun_upd_same)
  then show ?thesis using jsonb_object_is_map [OF ok2, of "''b''" JNull] by metis
qed

text \<open>
  Equality of JSONB values is an equivalence, NaN and the two zeros included, and containment is
  reflexive and transitive on values whose objects are in key order.
\<close>

theorem jsonb_contains_preorder:
  assumes "jsonb_ok a" "jsonb_ok b"
  shows "jsonb_eq a a \<and> (jsonb_eq a b \<longrightarrow> jsonb_eq b a) \<and> (jsonb_eq a b \<and> jsonb_eq b c \<longrightarrow> jsonb_eq a c)
    \<and> jsonb_contains a a \<and> (jsonb_contains a b \<and> jsonb_contains b c \<longrightarrow> jsonb_contains a c)"
proof (intro conjI impI)
  show "jsonb_contains a c" if "jsonb_contains a b \<and> jsonb_contains b c"
    using jsonb_contains_trans [OF assms] that by (elim conjE)
qed (use assms in \<open>auto elim: jsonb_eq_sym jsonb_eq_trans intro: jsonb_contains_refl\<close>)

theorem jsonb_contains_preorder_witness:
  "jsonb_contains (JObject [(''a'', JArray [JBool True, JNull]), (''b'', JNull)]) (JObject [(''a'', JArray [])])"
proof -
  let ?a = "JObject [(''a'', JArray [JBool True, JNull]), (''b'', JNull)]"
  let ?b = "JObject [(''a'', JArray [JNull])]"
  let ?c = "JObject [(''a'', JArray [])]"
  have get: "obj_get ''a'' [(''a'', v)] = Some v" "obj_get ''a'' [(''a'', v), (''b'', w)] = Some v" for v w
    by (simp_all add: obj_get_map)
  have "jsonb_contains ?a ?b" "jsonb_contains ?b ?c" by (simp_all add: get)
  moreover have "jsonb_ok ?a" "jsonb_ok ?b" by simp_all
  ultimately show ?thesis using jsonb_contains_preorder [of ?a ?b ?c] by blast
qed

text \<open>
  The object operators: in a concatenation the right operand's entries win, a deletion removes exactly
  the named keys, results stay well formed, and having a key is having a field.
\<close>

theorem jsonb_object_operators:
  assumes "jsonb_ok (JObject a)" "jsonb_ok (JObject b)"
  shows "jsonb_ok (jsonb_concat (JObject a) (JObject b))
    \<and> jsonb_get k (jsonb_concat (JObject a) (JObject b))
        = (case jsonb_get k (JObject b) of Some v \<Rightarrow> Some v | None \<Rightarrow> jsonb_get k (JObject a))
    \<and> jsonb_ok (jsonb_delete_keys ks (JObject a))
    \<and> jsonb_get k (jsonb_delete_keys ks (JObject a)) = (if k \<in> set ks then None else jsonb_get k (JObject a))
    \<and> jsonb_delete_key k (JObject a) = jsonb_delete_keys [k] (JObject a)
    \<and> jsonb_has_key k (JObject a) = (jsonb_get k (JObject a) \<noteq> None)"
proof -
  have oks: "jsonb_ok (jsonb_concat (JObject a) (JObject b))" "jsonb_ok (jsonb_delete_keys ks (JObject a))"
    using assms by (rule jsonb_concat_ok) (rule jsonb_delete_keys_ok [OF assms(1)])
  have f: "map_of (foldl (\<lambda>result (key, v). obj_insert key v result) a b) = map_of a ++ map_of b"
    "map_of (foldl (\<lambda>result key. snd (obj_remove key result)) a ks) = (map_of a) |` (- set ks)"
    using assms foldl_insert_map [of a b] foldl_remove_map [of a ks] by (simp_all add: bm_ok_distinct)
  have get: "jsonb_get k (jsonb_concat (JObject a) (JObject b)) = (map_of a ++ map_of b) k"
    "jsonb_get k (jsonb_delete_keys ks (JObject a)) = ((map_of a) |` (- set ks)) k"
    using oks jsonb_get_map f by (simp_all del: jsonb_ok.simps)
  have "jsonb_has_key k (JObject a) = (map_of a k \<noteq> None)"
    using assms(1) by (simp add: obj_contains_key_map)
  moreover have "jsonb_delete_key k (JObject a) = jsonb_delete_keys [k] (JObject a)" by simp
  ultimately show ?thesis using oks
    unfolding get jsonb_get_map [OF assms(1)] jsonb_get_map [OF assms(2)]
    by (simp add: map_add_def restrict_map_def del: jsonb_concat.simps jsonb_delete_keys.simps jsonb_delete_key.simps jsonb_ok.simps)
qed

theorem jsonb_object_operators_witness:
  "jsonb_get ''k'' (jsonb_concat (JObject [(''k'', JBool False)]) (JObject [(''k'', JBool True)])) = Some (JBool True)"
  using jsonb_object_operators [of "[(''k'', JBool False)]" "[(''k'', JBool True)]" "''k''" "[]"]
    jsonb_get_map [of "[(''k'', JBool True)]" "''k''"] by simp

end
