(* ===== verification/Cynos_Jsonb_Binary.thy ===== *)
theory Cynos_Jsonb_Binary
  imports Cynos_Jsonb
begin

text \<open>
  The binary form of JSONB values (\<open>crates/jsonb/src/binary.rs\<close>). The buffer is the list of its bytes
  and the reading position an index into it; \<open>usize\<close> has 64 bits and its arithmetic wraps.
  A panic of the decoder is \<open>None\<close>: a slice whose end lies before its start, or a vector of a
  capacity the allocator refuses, which is the parameter \<open>alloc\<close>. \<open>String::from_utf8_lossy\<close> is
  modelled byte by byte. Decoding what was encoded gives the value back, wherever in a buffer it
  stands; decoding arbitrary bytes always ends.
\<close>

unbundle bit_operations_syntax

section \<open>UTF-8\<close>

text \<open>One step of the standard library's decoder: whether the head of the bytes is a well-formed
  character, and how many bytes it has, or how many bytes of it were well formed.\<close>

definition safe_get :: "bytes \<Rightarrow> nat \<Rightarrow> nat" where
  "safe_get bs i = (if i < length bs then unat (bs ! i) else 0)"

definition is_cont :: "nat \<Rightarrow> bool" where
  "is_cont b \<longleftrightarrow> 128 \<le> b \<and> b < 192"

definition second_ok :: "nat \<Rightarrow> nat \<Rightarrow> bool" where
  "second_ok first b \<longleftrightarrow>
     (if first = 224 then 160 \<le> b \<and> b < 192
      else if first = 237 then 128 \<le> b \<and> b < 160
      else if first = 240 then 144 \<le> b \<and> b < 192
      else if first = 244 then 128 \<le> b \<and> b < 144
      else is_cont b)"

definition utf8_step :: "bytes \<Rightarrow> bool \<times> nat" where
  "utf8_step bs =
     (let x = safe_get bs 0 in
      if x < 128 then (True, 1)
      else if x < 194 \<or> 244 < x then (False, 1)
      else if x < 224 then (if is_cont (safe_get bs 1) then (True, 2) else (False, 1))
      else if \<not> second_ok x (safe_get bs 1) then (False, 1)
      else if \<not> is_cont (safe_get bs 2) then (False, 2)
      else if x < 240 then (True, 3)
      else if \<not> is_cont (safe_get bs 3) then (False, 3)
      else (True, 4))"

lemma utf8_step_pos: "0 < snd (utf8_step bs)"
  by (simp add: utf8_step_def Let_def)

text \<open>Every ill-formed piece is replaced by the character U+FFFD.\<close>

function from_utf8_lossy :: "bytes \<Rightarrow> bytes" where
  "from_utf8_lossy bs =
     (if bs = [] then []
      else let (ok, n) = utf8_step bs in
        (if ok then take n bs else [0xEF, 0xBF, 0xBD]) @ from_utf8_lossy (drop n bs))"
  by auto
termination
  by (relation "measure length") (auto dest: arg_cong [of _ _ snd] simp: utf8_step_pos)

definition bytes_string :: "bytes \<Rightarrow> string" where
  "bytes_string bs = map byte_char bs"

section \<open>Variable-length integers\<close>

function encode_varint :: "u64 \<Rightarrow> bytes" where
  "encode_varint v =
     (let byte = ucast (v AND 0x7F) :: u8;
          v' = drop_bit 7 v
      in if v' \<noteq> 0 then (byte OR 0x80) # encode_varint v' else [byte])"
  by auto
termination
proof (relation "measure unat")
  fix v v' :: u64 and byte :: u8
  assume "v' = drop_bit 7 v" "v' \<noteq> 0"
  then have "unat v' = unat v div 128" "v \<noteq> 0"
    by (auto simp: drop_bit_eq_div unat_div)
  then show "(v', v) \<in> measure unat" by (simp add: unat_gt_0)
qed simp

text \<open>A shift by \<open>shift\<close> uses its lowest six bits.\<close>

function decode_varint_loop :: "bytes \<Rightarrow> nat \<Rightarrow> u64 \<Rightarrow> nat \<Rightarrow> u64 \<times> nat" where
  "decode_varint_loop bs pos result shift =
     (if length bs \<le> pos then (result, pos)
      else let byte = bs ! pos;
               result = result OR push_bit (shift mod 64) (ucast (byte AND 0x7F))
           in if byte AND 0x80 = 0 then (result, Suc pos)
              else decode_varint_loop bs (Suc pos) result (shift + 7))"
  by auto
termination
  by (relation "measure (\<lambda>(bs, pos, _, _). length bs - pos)") auto

definition decode_varint :: "bytes \<Rightarrow> nat \<Rightarrow> u64 \<times> nat" where
  "decode_varint bs pos = decode_varint_loop bs pos 0 0"

declare encode_varint.simps [simp del] decode_varint_loop.simps [simp del] from_utf8_lossy.simps [simp del]

lemma decode_varint_loop_pos: "pos \<le> snd (decode_varint_loop bs pos r s)"
proof (induction bs pos r s rule: decode_varint_loop.induct)
  case (1 bs pos result shift)
  show ?case
  proof (cases "length bs \<le> pos \<or> bs ! pos AND 0x80 = 0")
    case False
    then show ?thesis
      using 1 [OF _ refl refl] by (subst decode_varint_loop.simps) (simp add: Let_def)
  qed (subst decode_varint_loop.simps, auto simp: Let_def)
qed

section \<open>Encoding\<close>

definition to_le_bytes :: "f64 \<Rightarrow> bytes" where
  "to_le_bytes n = map (\<lambda>i. ucast (drop_bit (8 * i) n)) [0..<8]"

fun encode_value :: "jsonb \<Rightarrow> bytes"
  and encode_items :: "jsonb list \<Rightarrow> bytes"
  and encode_entries :: "jsonb_object \<Rightarrow> bytes" where
  "encode_value JNull = [0x00]"
| "encode_value (JBool False) = [0x01]"
| "encode_value (JBool True) = [0x02]"
| "encode_value (JNumber n) = 0x03 # to_le_bytes n"
| "encode_value (JString s) = 0x04 # encode_varint (of_nat (length s)) @ as_bytes s"
| "encode_value (JArray arr) = 0x05 # encode_varint (of_nat (length arr)) @ encode_items arr"
| "encode_value (JObject obj) = 0x06 # encode_varint (of_nat (length obj)) @ encode_entries obj"
| "encode_items [] = []"
| "encode_items (item # items) = encode_value item @ encode_items items"
| "encode_entries [] = []"
| "encode_entries ((key, val) # entries) =
     encode_varint (of_nat (length key)) @ as_bytes key @ encode_value val @ encode_entries entries"

definition jsonb_encode :: "jsonb \<Rightarrow> bytes" where
  "jsonb_encode v = encode_value v"

section \<open>Decoding\<close>

definition from_le_bytes :: "bytes \<Rightarrow> f64" where
  "from_le_bytes bs = foldr (\<lambda>b acc. ucast b OR push_bit 8 acc) bs 0"

text \<open>\<open>&data[pos..pos + len]\<close> after the check \<open>pos + len > data.len()\<close>: \<open>Inl ()\<close> is the check's
  early exit; the sum wraps, and a wrapped end before the start panics.\<close>

definition read_slice :: "bytes \<Rightarrow> nat \<Rightarrow> u64 \<Rightarrow> (unit + bytes) option" where
  "read_slice bs pos len =
     (let e = unat (of_nat pos + len) in
      if length bs < e then Some (Inl ())
      else if e < pos then None
      else Some (Inr (take (e - pos) (drop pos bs))))"

function decode_value :: "(nat \<Rightarrow> bool) \<Rightarrow> bytes \<Rightarrow> nat \<Rightarrow> (jsonb \<times> nat) option"
  and decode_items :: "(nat \<Rightarrow> bool) \<Rightarrow> bytes \<Rightarrow> nat \<Rightarrow> nat \<Rightarrow> (jsonb list \<times> nat) option"
  and decode_entries :: "(nat \<Rightarrow> bool) \<Rightarrow> bytes \<Rightarrow> nat \<Rightarrow> nat \<Rightarrow> jsonb_object \<Rightarrow> (jsonb_object \<times> nat) option"
  where
  "decode_value alloc bs pos =
     (if length bs \<le> pos then Some (JNull, pos)
      else let tag = bs ! pos; pos = Suc pos in
        if tag = 0x00 then Some (JNull, pos)
        else if tag = 0x01 then Some (JBool False, pos)
        else if tag = 0x02 then Some (JBool True, pos)
        else if tag = 0x03 then
          (if length bs < pos + 8 then Some (JNull, pos)
           else Some (JNumber (from_le_bytes (take 8 (drop pos bs))), pos + 8))
        else if tag = 0x04 then
          (case decode_varint bs pos of (len, pos) \<Rightarrow>
             case read_slice bs pos len of
               None \<Rightarrow> None
             | Some (Inl _) \<Rightarrow> Some (JNull, pos)
             | Some (Inr s) \<Rightarrow> Some (JString (bytes_string (from_utf8_lossy s)), pos + unat len))
        else if tag = 0x05 then
          (case decode_varint bs pos of (n, pos) \<Rightarrow>
             if \<not> alloc (unat n) then None
             else case decode_items alloc bs pos (unat n) of
               None \<Rightarrow> None
             | Some (arr, pos) \<Rightarrow> Some (JArray arr, pos))
        else if tag = 0x06 then
          (case decode_varint bs pos of (n, pos) \<Rightarrow>
             if \<not> alloc (unat n) then None
             else case decode_entries alloc bs pos (unat n) obj_new of
               None \<Rightarrow> None
             | Some (obj, pos) \<Rightarrow> Some (JObject obj, pos))
        else Some (JNull, pos))"
| "decode_items alloc bs pos 0 = Some ([], pos)"
| "decode_items alloc bs pos (Suc n) =
     (case decode_value alloc bs pos of
        None \<Rightarrow> None
      | Some (v, pos) \<Rightarrow>
          (case decode_items alloc bs pos n of
             None \<Rightarrow> None
           | Some (arr, pos) \<Rightarrow> Some (v # arr, pos)))"
| "decode_entries alloc bs pos 0 obj = Some (obj, pos)"
| "decode_entries alloc bs pos (Suc n) obj =
     (case decode_varint bs pos of (key_len, pos) \<Rightarrow>
        case read_slice bs pos key_len of
          None \<Rightarrow> None
        | Some (Inl _) \<Rightarrow> Some (obj, pos)
        | Some (Inr key) \<Rightarrow>
            (case decode_value alloc bs (pos + unat key_len) of
               None \<Rightarrow> None
             | Some (val, pos) \<Rightarrow>
                 decode_entries alloc bs pos n (obj_insert (bytes_string (from_utf8_lossy key)) val obj)))"
  by pat_completeness auto

lemma decode_varint_pos: "decode_varint bs pos = (n, pos') \<Longrightarrow> pos \<le> pos'"
  using decode_varint_loop_pos [of pos bs 0 0] by (simp add: decode_varint_def)

lemma decode_pos:
  "decode_value_decode_items_decode_entries_dom (Inl (alloc, bs, pos)) \<Longrightarrow>
     decode_value alloc bs pos = Some (v, pos') \<Longrightarrow> pos \<le> pos'"
  "decode_value_decode_items_decode_entries_dom (Inr (Inl (alloc, bs, pos, n))) \<Longrightarrow>
     decode_items alloc bs pos n = Some (arr, pos') \<Longrightarrow> pos \<le> pos'"
  "decode_value_decode_items_decode_entries_dom (Inr (Inr (alloc, bs, pos, n, obj))) \<Longrightarrow>
     decode_entries alloc bs pos n obj = Some (obj', pos') \<Longrightarrow> pos \<le> pos'"
proof (induction arbitrary: v pos' and arr pos' and obj' pos'
    rule: decode_value_decode_items_decode_entries.pinduct)
  case (1 alloc bs pos)
  obtain n p1 where vi: "decode_varint bs (Suc pos) = (n, p1)" by fastforce
  note p1 = decode_varint_pos [OF vi]
  have items: "p1 \<le> q" if "pos < length bs" "bs ! pos = 5" "alloc (unat n)"
      "decode_items alloc bs p1 (unat n) = Some (arr, q)" for arr q
    using 1(2) [OF _ refl refl _ _ _ _ _ _ vi [symmetric] _ that(4)] that by simp
  have entries: "p1 \<le> q" if "pos < length bs" "bs ! pos = 6" "alloc (unat n)"
      "decode_entries alloc bs p1 (unat n) obj_new = Some (arr, q)" for arr q
    using 1(3) [OF _ refl refl _ _ _ _ _ _ _ vi [symmetric] _ that(4)] that by simp
  show ?case using 1(4) items entries p1
    by (subst (asm) decode_value.psimps [OF 1(1)])
      (auto simp: Let_def vi split: if_splits option.splits sum.splits)
next
  case (3 alloc bs pos n)
  then show ?case
    by (auto simp: decode_items.psimps split: option.splits) (metis le_trans)
next
  case (5 alloc bs pos n obj)
  obtain kl p1 where vi: "decode_varint bs pos = (kl, p1)" by fastforce
  note p1 = decode_varint_pos [OF vi]
  note run = 5(4) [unfolded decode_entries.psimps(2) [OF 5(1)] vi prod.case]
  show ?case
  proof (cases "read_slice bs p1 kl")
    case (Some r)
    show ?thesis
    proof (cases r)
      case (Inr key)
      obtain val p2 where val: "decode_value alloc bs (p1 + unat kl) = Some (val, p2)"
        using run Some Inr by (auto split: option.splits)
      have "p1 + unat kl \<le> p2"
        using 5(2) [OF vi [symmetric] Some Inr val] .
      moreover have "p2 \<le> pos'"
        using 5(3) [OF vi [symmetric] Some Inr val refl] run Some Inr val by simp
      ultimately show ?thesis using p1 by simp
    qed (use run Some p1 in simp)
  qed (use run in simp)
qed (auto simp: decode_items.psimps decode_entries.psimps)

definition decode_measure ::
  "((nat \<Rightarrow> bool) \<times> bytes \<times> nat) + ((nat \<Rightarrow> bool) \<times> bytes \<times> nat \<times> nat)
     + ((nat \<Rightarrow> bool) \<times> bytes \<times> nat \<times> nat \<times> jsonb_object) \<Rightarrow> nat \<times> nat \<times> nat" where
  "decode_measure x =
     (case x of
        Inl (alloc, bs, pos) \<Rightarrow> (length bs - pos, 0, 0)
      | Inr (Inl (alloc, bs, pos, n)) \<Rightarrow> (length bs - pos, 1, n)
      | Inr (Inr (alloc, bs, pos, n, obj)) \<Rightarrow> (length bs - pos, 1, n))"

termination decode_value
proof (relation "inv_image (less_than <*lex*> less_than <*lex*> less_than) decode_measure")
  show "wf (inv_image (less_than <*lex*> less_than <*lex*> less_than) decode_measure)" by auto
qed (auto simp: decode_measure_def dest!: decode_pos decode_varint_pos [OF sym])

declare decode_value.simps [simp del] decode_items.simps [simp del] decode_entries.simps [simp del]

definition jsonb_decode :: "(nat \<Rightarrow> bool) \<Rightarrow> bytes \<Rightarrow> jsonb option" where
  "jsonb_decode alloc bs = map_option fst (decode_value alloc bs 0)"

section \<open>Well-formed strings\<close>

function utf8_valid :: "bytes \<Rightarrow> bool" where
  "utf8_valid bs = (if bs = [] then True else fst (utf8_step bs) \<and> utf8_valid (drop (snd (utf8_step bs)) bs))"
  by auto
termination
  by (relation "measure length") (auto simp: utf8_step_pos)

declare utf8_valid.simps [simp del]

lemma from_utf8_lossy_valid: "utf8_valid bs \<Longrightarrow> from_utf8_lossy bs = bs"
proof (induction bs rule: from_utf8_lossy.induct)
  case (1 bs)
  show ?case
  proof (cases "bs = []")
    case False
    then have v: "fst (utf8_step bs)" "utf8_valid (drop (snd (utf8_step bs)) bs)"
      using 1(2) by (simp_all add: utf8_valid.simps [of bs])
    then have "from_utf8_lossy (drop (snd (utf8_step bs)) bs) = drop (snd (utf8_step bs)) bs"
      using 1(1) [OF False] by (simp add: prod_eq_iff)
    then show ?thesis using False v by (subst from_utf8_lossy.simps) (simp add: case_prod_beta)
  qed (simp add: from_utf8_lossy.simps)
qed

lemma utf8_valid_ascii: "\<forall>b \<in> set bs. unat b < 128 \<Longrightarrow> utf8_valid bs"
proof (induction bs)
  case (Cons b bs)
  then show ?case
    by (subst utf8_valid.simps) (simp add: utf8_step_def safe_get_def)
qed (simp add: utf8_valid.simps)

lemma bytes_string_as_bytes [simp]: "bytes_string (as_bytes s) = s"
  by (simp add: bytes_string_def as_bytes_def comp_def)

lemma length_as_bytes [simp]: "length (as_bytes s) = length s"
  by (simp add: as_bytes_def)

section \<open>Decoding undoes encoding\<close>

lemma byte_masks: "(0x7F :: 64 word) = mask 7" "(0x7F :: 8 word) = mask 7"
  by (simp_all add: mask_eq_exp_minus_1)

lemma bit_high: "bit (0x80 :: 8 word) n \<longleftrightarrow> n = 7"
proof -
  have "(0x80 :: 8 word) = push_bit 7 1" by simp
  then show ?thesis by (simp only: bit_simps) auto
qed

lemma bit_highint: "bit (0x80 :: int) n \<longleftrightarrow> n = 7"
proof -
  have "(0x80 :: int) = push_bit 7 1" by simp
  then show ?thesis by (simp only: bit_simps) auto
qed

lemma varint_byte:
  fixes v :: u64
  shows "ucast ((ucast (v AND 0x7F) OR 0x80 :: u8) AND 0x7F) = v AND 0x7F"
    "(ucast (v AND 0x7F) OR 0x80 :: u8) AND 0x80 \<noteq> 0"
    "ucast ((ucast (v AND 0x7F) :: u8) AND 0x7F) = v AND 0x7F"
    "(ucast (v AND 0x7F) :: u8) AND 0x80 = 0"
proof -
  show "ucast ((ucast (v AND 0x7F) OR 0x80 :: u8) AND 0x7F) = v AND 0x7F"
    unfolding byte_masks by (rule bit_word_eqI) (auto simp: bit_simps bit_high bit_highint)
  have "(ucast (v AND 0x7F) OR 0x80 :: u8) AND 0x80 = 0x80"
    unfolding byte_masks by (rule bit_word_eqI) (auto simp: bit_simps bit_high bit_highint)
  then show "(ucast (v AND 0x7F) OR 0x80 :: u8) AND 0x80 \<noteq> 0" by simp
  show "ucast ((ucast (v AND 0x7F) :: u8) AND 0x7F) = v AND 0x7F"
    unfolding byte_masks by (rule bit_word_eqI) (auto simp: bit_simps)
  show "(ucast (v AND 0x7F) :: u8) AND 0x80 = 0"
    unfolding byte_masks by (rule bit_word_eqI) (auto simp: bit_simps bit_high bit_highint)
qed

lemma varint_split:
  fixes v :: u64
  shows "push_bit s (v AND 0x7F) OR push_bit (s + 7) (drop_bit 7 v) = push_bit s v"
proof (rule bit_word_eqI)
  fix n
  have "7 + (n - (s + 7)) = n - s" if "\<not> n - s < 7" using that by simp
  then show "bit (push_bit s (v AND 0x7F) OR push_bit (s + 7) (drop_bit 7 v)) n = bit (push_bit s v) n"
    unfolding byte_masks by (cases "n - s < 7") (auto simp: bit_simps)
qed

lemma le_bytes_fold:
  "foldr (\<lambda>b acc. ucast b OR push_bit 8 acc) (map (\<lambda>i. ucast (drop_bit (8 * (i + k)) n) :: u8) [0..<m]) 0
     = take_bit (8 * m) (drop_bit (8 * k) n)" for n :: "64 word"
proof (induction m arbitrary: k)
  case (Suc m)
  have "map (\<lambda>i. ucast (drop_bit (8 * (i + k)) n) :: u8) [0..<Suc m]
    = ucast (drop_bit (8 * k) n) # map (\<lambda>i. ucast (drop_bit (8 * (i + Suc k)) n)) [0..<m]"
    by (simp only: map_upt_Suc) simp
  then show ?case
    by (simp only: foldr.simps comp_def Suc.IH list.map)
      (rule bit_word_eqI, auto simp: bit_simps algebra_simps)
qed simp

lemma from_to_le_bytes: "from_le_bytes (to_le_bytes n) = n"
  using le_bytes_fold [of 0 n 8] take_bit_length_eq [of n] by (simp add: from_le_bytes_def to_le_bytes_def)
lemma length_to_le_bytes [simp]: "length (to_le_bytes n) = 8"
  by (simp add: to_le_bytes_def)

lemma decode_loop_encode:
  "s < 64 \<Longrightarrow> unat v * 2 ^ s < 2 ^ 64 \<Longrightarrow>
     decode_varint_loop (pre @ encode_varint v @ rest) (length pre) r s
       = (r OR push_bit s v, length pre + length (encode_varint v))"
proof (induction v arbitrary: pre r s rule: encode_varint.induct)
  case (1 v)
  show ?case
  proof (cases "drop_bit 7 v = 0")
    case True
    then have "push_bit s (v AND 0x7F) = push_bit s v" using varint_split [of s v] by simp
    then show ?thesis
      using True 1 by (subst decode_varint_loop.simps) (simp add: encode_varint.simps [of v] Let_def varint_byte)
  next
    case False
    let ?b = "ucast (v AND 0x7F) OR 0x80 :: u8"
    have e: "encode_varint v = ?b # encode_varint (drop_bit 7 v)"
      using False by (simp add: encode_varint.simps [of v] Let_def)
    have pos: "0 < unat (drop_bit 7 v)" using False by (simp add: unat_gt_0)
    have d: "unat (drop_bit 7 v) * 2 ^ 7 \<le> unat v"
      by (simp add: drop_bit_eq_div unat_div)
    have "unat (drop_bit 7 v) * 2 ^ (s + 7) = unat (drop_bit 7 v) * 2 ^ 7 * 2 ^ s"
      by (simp add: power_add)
    also have "\<dots> \<le> unat v * 2 ^ s" using d by (intro mult_right_mono) simp_all
    finally have b: "unat (drop_bit 7 v) * 2 ^ (s + 7) < 2 ^ 64" using 1(3) by simp
    have "2 ^ (s + 7) < (2 :: nat) ^ 64"
      using b pos by (metis One_nat_def Suc_leI le_less_trans mult_le_mono1 nat_mult_1)
    then have s: "s + 7 < 64" by (rule power_less_imp_less_exp [rotated]) simp
    show ?thesis
      using 1(1) [OF refl refl False s b, of "pre @ [?b]" "r OR push_bit s (v AND 0x7F)"] 1(2) varint_split [of s v]
      by (subst decode_varint_loop.simps) (simp add: e Let_def varint_byte nth_append or.assoc)
  qed
qed

lemma decode_encode_varint:
  "decode_varint (pre @ encode_varint v @ rest) (length pre) = (v, length pre + length (encode_varint v))"
  using decode_loop_encode [of 0 v pre rest 0] unsigned_less [of v] by (simp add: decode_varint_def)

lemma encode_varint_nonempty: "0 < length (encode_varint v)"
  by (subst encode_varint.simps) (simp add: Let_def)

text \<open>Every item of an array takes at least one byte.\<close>

lemma encode_lengths:
  "0 < length (encode_value v)"
  "length vs \<le> length (encode_items vs)"
  "length es \<le> length (encode_entries es)"
proof (induction v and vs and es rule: encode_value_encode_items_encode_entries.induct)
  case (9 item items)
  then show ?case by (cases "encode_value item") auto
next
  case (11 key val entries)
  then show ?case by (cases "encode_value val") auto
qed auto

text \<open>Strings are UTF-8 and objects are in key order.\<close>

fun jsonb_utf8 :: "jsonb \<Rightarrow> bool" where
  "jsonb_utf8 (JString s) \<longleftrightarrow> utf8_valid (as_bytes s)"
| "jsonb_utf8 (JArray vs) \<longleftrightarrow> (\<forall>v \<in> set vs. jsonb_utf8 v)"
| "jsonb_utf8 (JObject es) \<longleftrightarrow> (\<forall>e \<in> set es. utf8_valid (as_bytes (fst e)) \<and> jsonb_utf8 (snd e))"
| "jsonb_utf8 _ \<longleftrightarrow> True"

lemma read_slice_within:
  assumes "length (pre @ s @ rest) < 2 ^ 64"
  shows "read_slice (pre @ s @ rest) (length pre) (of_nat (length s)) = Some (Inr s)"
proof -
  have "unat (of_nat (length pre) + of_nat (length s) :: u64) = length pre + length s"
    using assms by (simp only: of_nat_add [symmetric] unat_of_nat) simp
  then show ?thesis by (simp add: read_slice_def)
qed

lemma foldl_insert_self: "bm_ok es \<Longrightarrow> foldl (\<lambda>r (k, v). obj_insert k v r) [] es = es"
  using foldl_insert_map [of "[]" es] by (intro bm_ext) (auto simp: bm_ok_distinct)

lemma decode_tag:
  assumes "bs = pre @ tag # rest"
  shows "\<not> length bs \<le> length pre" "bs ! length pre = tag"
  using assms by simp_all

lemma length_cast: "n < 2 ^ 64 \<Longrightarrow> unat (of_nat n :: u64) = n"
  by (simp add: unat_of_nat)

lemma decode_encode:
  "bs = pre @ encode_value v @ rest \<Longrightarrow> length bs < 2 ^ 64 \<Longrightarrow> (\<forall>n \<le> length bs. alloc n) \<Longrightarrow>
     jsonb_ok v \<Longrightarrow> jsonb_utf8 v \<Longrightarrow>
     decode_value alloc bs (length pre) = Some (v, length pre + length (encode_value v))"
  "bs = pre @ encode_items vs @ rest \<Longrightarrow> length bs < 2 ^ 64 \<Longrightarrow> (\<forall>n \<le> length bs. alloc n) \<Longrightarrow>
     jsonb_ok (JArray vs) \<Longrightarrow> jsonb_utf8 (JArray vs) \<Longrightarrow>
     decode_items alloc bs (length pre) (length vs) = Some (vs, length pre + length (encode_items vs))"
  "bs = pre @ encode_entries es @ rest \<Longrightarrow> length bs < 2 ^ 64 \<Longrightarrow> (\<forall>n \<le> length bs. alloc n) \<Longrightarrow>
     (\<forall>e \<in> set es. jsonb_ok (snd e)) \<Longrightarrow> jsonb_utf8 (JObject es) \<Longrightarrow>
     decode_entries alloc bs (length pre) (length es) obj
       = Some (foldl (\<lambda>r (k, v). obj_insert k v r) obj es, length pre + length (encode_entries es))"
proof (induction v and vs and es arbitrary: pre rest and pre rest and pre rest obj
    rule: encode_value_encode_items_encode_entries.induct)
  case (5 s)
  let ?vi = "encode_varint (of_nat (length s))"
  have bs: "bs = pre @ 0x04 # (?vi @ as_bytes s @ rest)" using 5(1) by simp
  have slice: "read_slice bs (length (pre @ 0x04 # ?vi)) (of_nat (length s)) = Some (Inr (as_bytes s))"
    using read_slice_within [of "pre @ 0x04 # ?vi" "as_bytes s" rest] 5(1,2) by simp
  have varint: "decode_varint bs (Suc (length pre)) = (of_nat (length s), length (pre @ 0x04 # ?vi))"
    using decode_encode_varint [of "pre @ [0x04]" "of_nat (length s)" "as_bytes s @ rest"] bs by simp
  have cast: "unat (of_nat (length s) :: u64) = length s" using 5(1,2) by (intro length_cast) simp
  have utf8: "from_utf8_lossy (as_bytes s) = as_bytes s" using 5(5) by (intro from_utf8_lossy_valid) simp
  show ?case
    using decode_tag [OF bs] slice varint cast utf8 by (subst decode_value.simps) (simp add: Let_def)
next
  case (6 arr)
  let ?vi = "encode_varint (of_nat (length arr))"
  have bs: "bs = pre @ 0x05 # (?vi @ encode_items arr @ rest)" using 6(2) by simp
  have varint: "decode_varint bs (Suc (length pre)) = (of_nat (length arr), length (pre @ 0x05 # ?vi))"
    using decode_encode_varint [of "pre @ [0x05]" "of_nat (length arr)" "encode_items arr @ rest"] bs by simp
  have le: "length arr \<le> length bs" using encode_lengths(2) [of arr] bs by simp
  then have cast: "unat (of_nat (length arr) :: u64) = length arr" using 6(3) by (intro length_cast) simp
  have "decode_items alloc bs (length (pre @ 0x05 # ?vi)) (length arr)
      = Some (arr, length (pre @ 0x05 # ?vi) + length (encode_items arr))"
    using 6(1) [of "pre @ 0x05 # ?vi" rest] bs 6(3-6) by simp
  then show ?case
    using decode_tag [OF bs] varint cast 6(4) le by (subst decode_value.simps) (simp add: Let_def)
next
  case (7 es)
  let ?vi = "encode_varint (of_nat (length es))"
  have bs: "bs = pre @ 0x06 # (?vi @ encode_entries es @ rest)" using 7(2) by simp
  have varint: "decode_varint bs (Suc (length pre)) = (of_nat (length es), length (pre @ 0x06 # ?vi))"
    using decode_encode_varint [of "pre @ [0x06]" "of_nat (length es)" "encode_entries es @ rest"] bs by simp
  have le: "length es \<le> length bs" using encode_lengths(3) [of es] bs by simp
  then have cast: "unat (of_nat (length es) :: u64) = length es" using 7(3) by (intro length_cast) simp
  have "decode_entries alloc bs (length (pre @ 0x06 # ?vi)) (length es) []
      = Some (es, length (pre @ 0x06 # ?vi) + length (encode_entries es))"
    using 7(1) [of "pre @ 0x06 # ?vi" rest "[]"] bs 7(3-6) foldl_insert_self [of es] by simp
  then show ?case
    using decode_tag [OF bs] varint cast 7(4) le by (subst decode_value.simps) (simp add: Let_def obj_new_def)
next
  case (9 item items)
  have "decode_value alloc bs (length pre) = Some (item, length (pre @ encode_value item))"
    using 9(1) [of pre "encode_items items @ rest"] 9(3-7) by simp
  moreover have "decode_items alloc bs (length (pre @ encode_value item)) (length items)
      = Some (items, length (pre @ encode_value item) + length (encode_items items))"
    using 9(2) [of "pre @ encode_value item" rest] 9(3-7) by simp
  ultimately show ?case by (simp add: decode_items.simps)
next
  case (11 key val es)
  let ?p = "pre @ encode_varint (of_nat (length key))"
  have bs: "bs = ?p @ as_bytes key @ encode_value val @ encode_entries es @ rest" using 11(3) by simp
  have varint: "decode_varint bs (length pre) = (of_nat (length key), length ?p)"
    using decode_encode_varint [of pre "of_nat (length key)" "as_bytes key @ encode_value val @ encode_entries es @ rest"] bs
    by simp
  have slice: "read_slice bs (length ?p) (of_nat (length key)) = Some (Inr (as_bytes key))"
    using read_slice_within [of ?p "as_bytes key" "encode_value val @ encode_entries es @ rest"] bs 11(4) by simp
  have cast: "unat (of_nat (length key) :: u64) = length key" using bs 11(4) by (intro length_cast) simp
  have utf8: "from_utf8_lossy (as_bytes key) = as_bytes key" using 11(7) by (intro from_utf8_lossy_valid) simp
  have "decode_value alloc bs (length (?p @ as_bytes key)) = Some (val, length (?p @ as_bytes key @ encode_value val))"
    using 11(1) [of "?p @ as_bytes key" "encode_entries es @ rest"] bs 11(4-7) by simp
  moreover have "decode_entries alloc bs (length (?p @ as_bytes key @ encode_value val)) (length es) (obj_insert key val obj)
      = Some (foldl (\<lambda>r (k, v). obj_insert k v r) (obj_insert key val obj) es,
          length (?p @ as_bytes key @ encode_value val) + length (encode_entries es))"
    using 11(2) [of "?p @ as_bytes key @ encode_value val" rest] bs 11(4-7) by simp
  ultimately show ?case
    using varint slice cast utf8 by (simp add: decode_entries.simps add.assoc)
qed (auto simp: decode_value.simps decode_items.simps decode_entries.simps from_to_le_bytes)

lemma encode_varint_length: "unat v < 128 ^ Suc n \<Longrightarrow> length (encode_varint v) \<le> Suc n"
proof (induction n arbitrary: v)
  case 0
  then have "drop_bit 7 v = 0" by (simp add: drop_bit_eq_div word_eq_iff_unsigned unat_div flip: unat_eq_zero)
  then show ?case by (simp add: encode_varint.simps [of v] Let_def)
next
  case (Suc n)
  have "unat (drop_bit 7 v) < 128 ^ Suc n"
    using Suc.prems by (simp add: drop_bit_eq_div unat_div less_mult_imp_div_less)
  then show ?case using Suc.IH [of "drop_bit 7 v"] by (simp add: encode_varint.simps [of v] Let_def)
qed

lemma encode_varint_length_10: "length (encode_varint v) \<le> 10"
proof -
  have "unat v < 2 ^ LENGTH(64)" by (rule unsigned_less)
  then show ?thesis using encode_varint_length [of v 9] by simp
qed

section \<open>Properties\<close>

text \<open>
  C16. The round trip: a value whose strings are UTF-8 and whose objects are in key order is decoded from
  its encoding exactly, float bits included, when the encoding fits the address space and a vector can be
  allocated for every number of elements that fits the encoding.
\<close>

theorem jsonb_binary_roundtrip:
  assumes "jsonb_ok v" "jsonb_utf8 v" "length (jsonb_encode v) < 2 ^ 64"
    and "\<forall>n \<le> length (jsonb_encode v). alloc n"
  shows "jsonb_decode alloc (jsonb_encode v) = Some v"
  using decode_encode(1) [of "jsonb_encode v" "[]" v "[]" alloc] assms
  by (simp add: jsonb_decode_def jsonb_encode_def)

theorem jsonb_binary_roundtrip_witness:
  "jsonb_decode (\<lambda>n. n < 1000)
     (jsonb_encode (JObject [(''a'', JArray [JNull, JNumber 0x3FF8000000000000]), (''b'', JString ''xy'')]))
   = Some (JObject [(''a'', JArray [JNull, JNumber 0x3FF8000000000000]), (''b'', JString ''xy'')])"
proof (rule jsonb_binary_roundtrip)
  let ?v = "JObject [(''a'', JArray [JNull, JNumber 0x3FF8000000000000]), (''b'', JString ''xy'')]"
  have "length (jsonb_encode ?v) < 1000"
    using encode_varint_length_10 [of 1] encode_varint_length_10 [of 2]
    by (simp add: jsonb_encode_def)
  then show "length (jsonb_encode ?v) < 2 ^ 64" "\<forall>n \<le> length (jsonb_encode ?v). n < 1000" by auto
qed (simp_all add: utf8_valid_ascii as_bytes_def)

text \<open>
  Lengths are written as variable-length integers of at most ten bytes, and are read back exactly
  wherever they stand in a buffer.
\<close>

theorem varint_roundtrip:
  "decode_varint (pre @ encode_varint v @ rest) (length pre) = (v, length pre + length (encode_varint v))
   \<and> length (encode_varint v) \<le> 10"
  using decode_encode_varint [of pre v rest] encode_varint_length_10 [of v] by simp

text \<open>
  The bounds check of the decoder wraps: on a string whose length field is \<open>2^64 - 1\<close> the sum of
  position and length is smaller than the position, the check passes and taking the slice panics.
\<close>

theorem jsonb_decode_length_wraps:
  "jsonb_decode alloc [0x04, 0xFF, 0xFF, 0xFF, 0xFF, 0xFF, 0xFF, 0xFF, 0xFF, 0xFF, 0x01] = None"
proof -
  let ?bs = "[0x04, 0xFF, 0xFF, 0xFF, 0xFF, 0xFF, 0xFF, 0xFF, 0xFF, 0xFF, 0x01] :: bytes"
  have "decode_varint ?bs 1 = (- 1, 11)" by code_simp
  moreover have "read_slice ?bs 11 (- 1) = None" by code_simp
  ultimately show ?thesis by (simp add: jsonb_decode_def decode_value.simps [of alloc ?bs] Let_def)
qed

end
