(* ===== verification/Cynos_Comparator.thy ===== *)
theory Cynos_Comparator
  imports Cynos_Value "HOL-Library.Option_ord"
begin

text \<open>
  Comparators of index keys (\<open>crates/index/src/comparator.rs\<close>): single keys in either direction and
  composite keys, with and without NULL components. The comparison of one component
  (\<open>K: Ord\<close>) is an argument, so that the contract \<open>cmp_order\<close> of the prelude can say what is
  needed of it; every comparator is shown to give an order again whenever its components have one,
  and the composite one to be the lexicographic order.
\<close>

section \<open>Comparators\<close>

datatype order = Asc | Desc

fun order_apply :: "order \<Rightarrow> ordering \<Rightarrow> ordering" where
  "order_apply Asc ord = ord"
| "order_apply Desc ord = ordering_reverse ord"

text \<open>The provided methods of the trait \<open>Comparator\<close>, over its \<open>compare\<close>.\<close>

definition cmp_is_less :: "('k \<Rightarrow> 'k \<Rightarrow> ordering) \<Rightarrow> 'k \<Rightarrow> 'k \<Rightarrow> bool" where
  "cmp_is_less compare a b \<longleftrightarrow> compare a b = Less"

definition cmp_is_less_or_equal :: "('k \<Rightarrow> 'k \<Rightarrow> ordering) \<Rightarrow> 'k \<Rightarrow> 'k \<Rightarrow> bool" where
  "cmp_is_less_or_equal compare a b \<longleftrightarrow> compare a b \<noteq> Greater"

definition cmp_is_greater :: "('k \<Rightarrow> 'k \<Rightarrow> ordering) \<Rightarrow> 'k \<Rightarrow> 'k \<Rightarrow> bool" where
  "cmp_is_greater compare a b \<longleftrightarrow> compare a b = Greater"

definition cmp_is_greater_or_equal :: "('k \<Rightarrow> 'k \<Rightarrow> ordering) \<Rightarrow> 'k \<Rightarrow> 'k \<Rightarrow> bool" where
  "cmp_is_greater_or_equal compare a b \<longleftrightarrow> compare a b \<noteq> Less"

definition cmp_is_equal :: "('k \<Rightarrow> 'k \<Rightarrow> ordering) \<Rightarrow> 'k \<Rightarrow> 'k \<Rightarrow> bool" where
  "cmp_is_equal compare a b \<longleftrightarrow> compare a b = Equal"

definition simple_compare :: "('k \<Rightarrow> 'k \<Rightarrow> ordering) \<Rightarrow> order \<Rightarrow> 'k \<Rightarrow> 'k \<Rightarrow> ordering" where
  "simple_compare cmp order a b = order_apply order (cmp a b)"

definition create_orders :: "nat \<Rightarrow> order \<Rightarrow> order list" where
  "create_orders n order = map (\<lambda>_. order) [0..<n]"

text \<open>\<open>Vec::get\<close>: no value out of range.\<close>

definition vec_get :: "'a list \<Rightarrow> nat \<Rightarrow> 'a option" where
  "vec_get xs i = (if i < length xs then Some (xs ! i) else None)"

fun component_compare :: "('k \<Rightarrow> 'k \<Rightarrow> ordering) \<Rightarrow> order \<Rightarrow> 'k option \<Rightarrow> 'k option \<Rightarrow> ordering" where
  "component_compare cmp order (Some av) (Some bv) = order_apply order (cmp av bv)"
| "component_compare cmp order None (Some _) = Less"
| "component_compare cmp order (Some _) None = Greater"
| "component_compare cmp order None None = Equal"

fun multi_key_loop :: "('k \<Rightarrow> 'k \<Rightarrow> ordering) \<Rightarrow> nat \<Rightarrow> order list \<Rightarrow> 'k list \<Rightarrow> 'k list \<Rightarrow> ordering" where
  "multi_key_loop cmp i [] a b = Equal"
| "multi_key_loop cmp i (order # orders) a b =
     (let c = component_compare cmp order (vec_get a i) (vec_get b i)
      in if c \<noteq> Equal then c else multi_key_loop cmp (Suc i) orders a b)"

definition multi_key_compare :: "('k \<Rightarrow> 'k \<Rightarrow> ordering) \<Rightarrow> order list \<Rightarrow> 'k list \<Rightarrow> 'k list \<Rightarrow> ordering" where
  "multi_key_compare cmp orders a b = multi_key_loop cmp 0 orders a b"

definition vec_get_some :: "'a option list \<Rightarrow> nat \<Rightarrow> 'a option" where
  "vec_get_some xs i = (case vec_get xs i of None \<Rightarrow> None | Some v \<Rightarrow> v)"

fun multi_key_null_loop ::
  "('k \<Rightarrow> 'k \<Rightarrow> ordering) \<Rightarrow> nat \<Rightarrow> order list \<Rightarrow> 'k option list \<Rightarrow> 'k option list \<Rightarrow> ordering" where
  "multi_key_null_loop cmp i [] a b = Equal"
| "multi_key_null_loop cmp i (order # orders) a b =
     (let c = component_compare cmp order (vec_get_some a i) (vec_get_some b i)
      in if c \<noteq> Equal then c else multi_key_null_loop cmp (Suc i) orders a b)"

definition multi_key_null_compare ::
  "('k \<Rightarrow> 'k \<Rightarrow> ordering) \<Rightarrow> order list \<Rightarrow> 'k option list \<Rightarrow> 'k option list \<Rightarrow> ordering" where
  "multi_key_null_compare cmp orders a b = multi_key_null_loop cmp 0 orders a b"

section \<open>Every comparator is an order\<close>

lemma order_apply_simps [simp]:
  "order_apply d Equal = Equal" "order_apply d c = Equal \<longleftrightarrow> c = Equal"
  "order_apply d (ordering_reverse c) = ordering_reverse (order_apply d c)"
  by (cases d; cases c; simp)+

definition opt_ok :: "('k \<Rightarrow> bool) \<Rightarrow> 'k option \<Rightarrow> bool" where
  "opt_ok ok x \<longleftrightarrow> (case x of None \<Rightarrow> True | Some v \<Rightarrow> ok v)"

lemma opt_ok_simps [simp]: "opt_ok ok None" "opt_ok ok (Some v) = ok v"
  by (simp_all add: opt_ok_def)

text \<open>Comparing functions of the keys one after the other is an order when each comparison is one.\<close>

fun lex_compare :: "('a \<Rightarrow> 'a \<Rightarrow> ordering) list \<Rightarrow> 'a \<Rightarrow> 'a \<Rightarrow> ordering" where
  "lex_compare [] a b = Equal"
| "lex_compare (c # cs) a b = (if c a b \<noteq> Equal then c a b else lex_compare cs a b)"

lemma cmp_order_lex:
  assumes "\<And>c. c \<in> set cs \<Longrightarrow> cmp_order c ok"
  shows "cmp_order (lex_compare cs) ok"
  using assms
proof (induction cs)
  case Nil
  show ?case by unfold_locales auto
next
  case (Cons c cs)
  have c: "cmp_order c ok" and cs: "cmp_order (lex_compare cs) ok" using Cons by auto
  show ?case
  proof
    show "lex_compare (c # cs) a a = Equal" if "ok a" for a
      using that cmp_order.cmp_refl [OF c that] cmp_order.cmp_refl [OF cs that] by simp
    show "lex_compare (c # cs) b a = ordering_reverse (lex_compare (c # cs) a b)" if "ok a" "ok b" for a b
      using cmp_order.cmp_swap [OF c that] cmp_order.cmp_swap [OF cs that] by simp
    fix x y z
    assume ok: "ok x" "ok y" "ok z"
      and g: "lex_compare (c # cs) x y \<noteq> Greater" "lex_compare (c # cs) y z \<noteq> Greater"
    have ng: "c x y \<noteq> Greater" "c y z \<noteq> Greater" using g by (auto split: if_splits)
    show "lex_compare (c # cs) x z \<noteq> Greater"
    proof (cases "c x y = Equal \<and> c y z = Equal")
      case True
      then have "c y x = Equal" "c z y = Equal"
        using cmp_order.cmp_equal_sym [OF c ok(1,2)] cmp_order.cmp_equal_sym [OF c ok(2,3)] by auto
      then have "c x z \<noteq> Greater" "c z x \<noteq> Greater"
        using True cmp_order.cmp_trans [OF c ok] cmp_order.cmp_trans [OF c ok(3,2,1)] by auto
      then have "c x z = Equal" using cmp_order.cmp_swap [OF c ok(1,3)] by (cases "c x z") auto
      moreover have "lex_compare cs x z \<noteq> Greater"
        using g True cmp_order.cmp_trans [OF cs ok] by simp
      ultimately show ?thesis by simp
    next
      case False
      then have "c x y = Less \<or> c y z = Less" using ng by (cases "c x y"; cases "c y z") auto
      then have "c x z = Less"
        using cmp_order.cmp_less_trans [OF c ok] cmp_order.cmp_trans_less [OF c ok] ng by blast
      then show ?thesis by simp
    qed
  qed
qed

text \<open>An order pulled back along a function is an order.\<close>

lemma cmp_order_pullback:
  assumes "cmp_order c ok" "\<And>a. ok' a \<Longrightarrow> ok (f a)"
  shows "cmp_order (\<lambda>a b. c (f a) (f b)) ok'"
proof
  show "c (f a) (f a) = Equal" if "ok' a" for a
    using cmp_order.cmp_refl [OF assms(1) assms(2) [OF that]] .
  show "c (f b) (f a) = ordering_reverse (c (f a) (f b))" if "ok' a" "ok' b" for a b
    using cmp_order.cmp_swap [OF assms(1) assms(2) [OF that(1)] assms(2) [OF that(2)]] .
  show "c (f x) (f z) \<noteq> Greater"
    if "ok' x" "ok' y" "ok' z" "c (f x) (f y) \<noteq> Greater" "c (f y) (f z) \<noteq> Greater" for x y z
    using cmp_order.cmp_trans [OF assms(1) assms(2) [OF that(1)] assms(2) [OF that(2)] assms(2) [OF that(3)] that(4,5)] .
qed

lemma cmp_order_reverse:
  assumes "cmp_order c ok"
  shows "cmp_order (\<lambda>a b. order_apply d (c a b)) ok"
proof (cases d)
  case Asc
  then show ?thesis using assms by simp
next
  case Desc
  have flip: "ordering_reverse (c a b) = c b a" if "ok a" "ok b" for a b
    using cmp_order.cmp_swap [OF assms that] by simp
  show ?thesis unfolding Desc order_apply.simps
  proof
    show "ordering_reverse (c a a) = Equal" if "ok a" for a
      using cmp_order.cmp_refl [OF assms that] by simp
    show "ordering_reverse (c b a) = ordering_reverse (ordering_reverse (c a b))" if "ok a" "ok b" for a b
      using flip that by simp
    show "ordering_reverse (c x z) \<noteq> Greater"
      if "ok x" "ok y" "ok z" "ordering_reverse (c x y) \<noteq> Greater" "ordering_reverse (c y z) \<noteq> Greater" for x y z
      using that cmp_order.cmp_trans [OF assms that(3,2,1)] flip by simp
  qed
qed

lemma cmp_order_component:
  assumes "cmp_order c ok"
  shows "cmp_order (component_compare c d) (opt_ok ok)"
proof -
  have r: "cmp_order (\<lambda>a b. order_apply d (c a b)) ok" by (rule cmp_order_reverse [OF assms])
  show ?thesis
  proof
    show "component_compare c d a a = Equal" if "opt_ok ok a" for a
      using that cmp_order.cmp_refl [OF r, of "the a"] by (cases a) simp_all
    show "component_compare c d b a = ordering_reverse (component_compare c d a b)"
      if "opt_ok ok a" "opt_ok ok b" for a b
      using that cmp_order.cmp_swap [OF r, of "the a" "the b"] by (cases a; cases b) simp_all
    show "component_compare c d x z \<noteq> Greater"
      if "opt_ok ok x" "opt_ok ok y" "opt_ok ok z"
        "component_compare c d x y \<noteq> Greater" "component_compare c d y z \<noteq> Greater" for x y z
      using that cmp_order.cmp_trans [OF r, of "the x" "the y" "the z"]
      by (cases x; cases y; cases z) simp_all
  qed
qed

lemma multi_key_loop_lex:
  "multi_key_loop cmp i orders a b =
     lex_compare (map (\<lambda>(j, d) a b. component_compare cmp d (vec_get a j) (vec_get b j))
       (zip [i..<i + length orders] orders)) a b"
proof (induction orders arbitrary: i)
  case (Cons d orders)
  have "[i..<i + length (d # orders)] = i # [Suc i..<Suc i + length orders]"
    using upt_conv_Cons [of i "i + length (d # orders)"] by (simp del: upt_Suc)
  then show ?case using Cons [of "Suc i"] by (simp add: Let_def del: upt_Suc)
qed simp

lemma multi_key_null_loop_lex:
  "multi_key_null_loop cmp i orders a b =
     lex_compare (map (\<lambda>(j, d) a b. component_compare cmp d (vec_get_some a j) (vec_get_some b j))
       (zip [i..<i + length orders] orders)) a b"
proof (induction orders arbitrary: i)
  case (Cons d orders)
  have "[i..<i + length (d # orders)] = i # [Suc i..<Suc i + length orders]"
    using upt_conv_Cons [of i "i + length (d # orders)"] by (simp del: upt_Suc)
  then show ?case using Cons [of "Suc i"] by (simp add: Let_def del: upt_Suc)
qed simp

lemma opt_ok_vec_get: "list_all ok a \<Longrightarrow> opt_ok ok (vec_get a i)"
  by (simp add: vec_get_def list_all_length)

lemma opt_ok_vec_get_some: "list_all (opt_ok ok) a \<Longrightarrow> opt_ok ok (vec_get_some a i)"
  by (simp add: vec_get_some_def vec_get_def list_all_length split: option.split)

lemma cmp_order_multi_key:
  assumes "cmp_order c ok"
  shows "cmp_order (multi_key_compare c orders) (list_all ok)"
  unfolding multi_key_compare_def multi_key_loop_lex
  by (rule cmp_order_lex)
    (auto intro: cmp_order_pullback [OF cmp_order_component [OF assms]] opt_ok_vec_get)

lemma cmp_order_multi_key_null:
  assumes "cmp_order c ok"
  shows "cmp_order (multi_key_null_compare c orders) (list_all (opt_ok ok))"
  unfolding multi_key_null_compare_def multi_key_null_loop_lex
  by (rule cmp_order_lex)
    (auto intro: cmp_order_pullback [OF cmp_order_component [OF assms]] opt_ok_vec_get_some)

text \<open>The contract holds of the comparators of value keys, where the order of values has it.\<close>

interpretation simple_values: cmp_order "simple_compare value_cmp d" "\<lambda>v. \<not> is_int64 v" for d
  unfolding simple_compare_def by (rule cmp_order_reverse) unfold_locales

interpretation multi_values_no_int64:
  cmp_order "multi_key_compare value_cmp orders" "list_all (\<lambda>v. \<not> is_int64 v)" for orders
  by (rule cmp_order_multi_key) unfold_locales

interpretation multi_values_no_float:
  cmp_order "multi_key_compare value_cmp orders" "list_all (\<lambda>v. \<not> is_float v)" for orders
  by (rule cmp_order_multi_key) unfold_locales

interpretation multi_null_values_no_int64:
  cmp_order "multi_key_null_compare value_cmp orders" "list_all (opt_ok (\<lambda>v. \<not> is_int64 v))" for orders
  by (rule cmp_order_multi_key_null) unfold_locales

section \<open>The lexicographic order\<close>

lemma multi_key_loop_drop:
  "multi_key_loop cmp (i + n) orders a b = multi_key_loop cmp n orders (drop i a) (drop i b)"
proof (induction orders arbitrary: n)
  case (Cons d orders)
  have "vec_get xs (i + n) = vec_get (drop i xs) n" for xs :: "'a list"
    by (auto simp: vec_get_def)
  then show ?case using Cons [of "Suc n"] by (simp add: Let_def)
qed simp

lemma multi_key_null_loop_drop:
  "multi_key_null_loop cmp (i + n) orders a b = multi_key_null_loop cmp n orders (drop i a) (drop i b)"
proof (induction orders arbitrary: n)
  case (Cons d orders)
  have "vec_get_some xs (i + n) = vec_get_some (drop i xs) n" for xs :: "'a option list"
    by (auto simp: vec_get_def vec_get_some_def)
  then show ?case using Cons [of "Suc n"] by (simp add: Let_def)
qed simp

lemma create_orders_Suc: "create_orders (Suc n) d = d # create_orders n d"
  by (simp add: create_orders_def map_replicate_const)

lemma create_orders_0: "create_orders 0 d = []"
  by (simp add: create_orders_def)

lemma multi_key_loop_Suc:
  "multi_key_loop cmp 0 (d # orders) (x # a) (y # b) =
     (let c = order_apply d (cmp x y) in if c \<noteq> Equal then c else multi_key_loop cmp 0 orders a b)"
  using multi_key_loop_drop [of cmp 1 0 orders "x # a" "y # b"] by (simp add: vec_get_def Let_def)

lemma multi_key_null_loop_Suc:
  "multi_key_null_loop cmp 0 (d # orders) (x # a) (y # b) =
     (let c = component_compare cmp d x y in if c \<noteq> Equal then c else multi_key_null_loop cmp 0 orders a b)"
  using multi_key_null_loop_drop [of cmp 1 0 orders "x # a" "y # b"]
  by (cases x; cases y) (simp_all add: vec_get_def vec_get_some_def Let_def)

lemma ord_cmp_Cons:
  "ord_cmp (x # a) (y # b) = (if ord_cmp x y \<noteq> Equal then ord_cmp x y else ord_cmp a b)"
  for x :: "'a::linorder"
  by (auto simp: ord_cmp_def)

lemma component_compare_ord: "component_compare ord_cmp Asc x y = ord_cmp x y"
  by (cases x; cases y) (auto simp: ord_cmp_def)

section \<open>Properties\<close>

text \<open>
  Comparators of composite keys of values give an order: every key equals itself, swapping the
  arguments reverses the result, and the order is transitive, whichever direction each component has, as long
  as 64-bit integers and floats do not meet in the keys.
\<close>

theorem composite_key_order:
  assumes "list_all (\<lambda>v. \<not> is_int64 v) (a @ b @ c) \<or> list_all (\<lambda>v. \<not> is_float v) (a @ b @ c)"
  shows "multi_key_compare value_cmp orders a a = Equal
    \<and> multi_key_compare value_cmp orders b a = ordering_reverse (multi_key_compare value_cmp orders a b)
    \<and> (multi_key_compare value_cmp orders a b \<noteq> Greater \<and> multi_key_compare value_cmp orders b c \<noteq> Greater
         \<longrightarrow> multi_key_compare value_cmp orders a c \<noteq> Greater)"
  using assms
    multi_values_no_int64.cmp_refl [of a orders] multi_values_no_int64.cmp_swap [of a b orders]
    multi_values_no_int64.cmp_trans [of a b c orders]
    multi_values_no_float.cmp_refl [of a orders] multi_values_no_float.cmp_swap [of a b orders]
    multi_values_no_float.cmp_trans [of a b c orders]
  by auto

theorem composite_key_order_witness:
  "multi_key_compare value_cmp [Desc, Asc] [Int32 2, Int32 1] [Int32 1] \<noteq> Greater"
proof -
  have "multi_key_compare value_cmp [Desc, Asc] [Int32 2, Int32 1] [Int32 2, Int32 3] \<noteq> Greater"
    "multi_key_compare value_cmp [Desc, Asc] [Int32 2, Int32 3] [Int32 1] \<noteq> Greater"
    by (simp_all add: multi_key_compare_def vec_get_def ord_cmp_def Let_def)
  then show ?thesis
    using composite_key_order [of "[Int32 2, Int32 1]" "[Int32 2, Int32 3]" "[Int32 1]" "[Desc, Asc]"]
    by simp
qed

text \<open>
  On keys with as many components as there are directions, comparing component by component is comparing
  lexicographically, in reverse when every direction is descending; with NULL components, NULL is the least.
\<close>

theorem multi_key_lexicographic:
  fixes a b :: "'k::linorder list" and x y :: "'k option list"
  assumes "length a = length b" "length x = length y"
  shows "multi_key_compare ord_cmp (create_orders (length a) Asc) a b = ord_cmp a b
    \<and> multi_key_compare ord_cmp (create_orders (length a) Desc) a b = ord_cmp b a
    \<and> multi_key_null_compare ord_cmp (create_orders (length x) Asc) x y = ord_cmp x y"
proof -
  have "multi_key_loop ord_cmp 0 (create_orders (length a) d) a b = order_apply d (ord_cmp a b)" for d
    using assms(1)
    by (induction a b rule: list_induct2)
      (simp_all add: create_orders_Suc multi_key_loop_Suc ord_cmp_Cons create_orders_0 Let_def
        del: multi_key_loop.simps(2) multi_key_null_loop.simps(2))
  moreover have "multi_key_null_loop ord_cmp 0 (create_orders (length x) Asc) x y = ord_cmp x y"
    using assms(2)
    by (induction x y rule: list_induct2)
      (simp_all add: create_orders_Suc multi_key_null_loop_Suc ord_cmp_Cons component_compare_ord create_orders_0 Let_def
        del: multi_key_loop.simps(2) multi_key_null_loop.simps(2))
  ultimately show ?thesis
    by (simp add: multi_key_compare_def multi_key_null_compare_def ord_cmp_swap [of b a])
qed

theorem multi_key_lexicographic_witness:
  "multi_key_compare ord_cmp (create_orders 2 Desc) [1, 2] [1, 3::int] = Greater"
  using multi_key_lexicographic [of "[1, 2]" "[1, 3::int]" "[]" "[]"]
  by (simp add: ord_cmp_def numeral_2_eq_2)

end
