(* ===== verification/Cynos_Expr.thy ===== *)
theory Cynos_Expr
  imports Cynos_Value Cynos_Pattern "HOL-Library.Monad_Syntax" "HOL-Library.Signed_Division"
begin

text \<open>
  Expressions and their evaluation: the AST of \<open>crates/query/src/ast/expr.rs\<close> and the interpreter of
  \<open>crates/query/src/executor/runner.rs\<close> (\<open>eval_accessor_expr\<close> and what it calls). A row is the list
  of its values. A panic is \<open>None\<close>: the only one is the remainder of the least integer by \<open>-1\<close>.
  What the interpreter takes from elsewhere is collected in the record \<open>eval_host\<close>: IEEE arithmetic,
  the Unicode case tables, the regular-expression engine of the runner and its JSONB functions.
\<close>

section \<open>Expressions\<close>

record column_ref =
  cr_table :: string
  cr_column :: string
  cr_index :: nat

datatype binary_op =
    OpEq | OpNe | OpLt | OpLe | OpGt | OpGe
  | OpAnd | OpOr
  | OpAdd | OpSub | OpMul | OpDiv | OpMod
  | OpLike | OpIn | OpBetween

datatype unary_op = OpNot | OpNeg | OpIsNull | OpIsNotNull

datatype aggregate_func =
  AggCount | AggSum | AggAvg | AggMin | AggMax | AggDistinct | AggStdDev | AggGeoMean

datatype expr =
    Column column_ref
  | Literal "value"
  | BinaryOp expr binary_op expr
  | UnaryOp unary_op expr
  | Function string "expr list"
  | Aggregate aggregate_func "expr option" bool
  | Between expr expr expr
  | NotBetween expr expr expr
  | InList expr "expr list"
  | NotInList expr "expr list"
  | Like expr string
  | NotLike expr string
  | Match expr string
  | NotMatch expr string

section \<open>The runner's LIKE\<close>

function match_like_recursive :: "uchar list \<Rightarrow> uchar list \<Rightarrow> nat \<Rightarrow> nat \<Rightarrow> bool" where
  "match_like_recursive v pattern vi pj =
     (if length pattern \<le> pj then length v \<le> vi
      else if pattern ! pj = ch CHR ''%'' then
        list_ex (\<lambda>i. match_like_recursive v pattern i (Suc pj)) [vi..<Suc (length v)]
      else if pattern ! pj = ch CHR ''_'' then
        (if vi < length v then match_like_recursive v pattern (Suc vi) (Suc pj) else False)
      else (if vi < length v \<and> v ! vi = pattern ! pj
            then match_like_recursive v pattern (Suc vi) (Suc pj) else False))"
  by auto
termination
  by (relation "measure (\<lambda>(v, pattern, vi, pj). length pattern - pj)") auto

declare match_like_recursive.simps [simp del]

definition match_like_pattern :: "string \<Rightarrow> string \<Rightarrow> bool" where
  "match_like_pattern val pattern = match_like_recursive (utf8_chars val) (utf8_chars pattern) 0 0"

section \<open>Evaluation\<close>

datatype arith_op = ArAdd | ArSub | ArMul | ArDiv

record eval_host =
  h_arith :: "arith_op \<Rightarrow> f64 \<Rightarrow> f64 \<Rightarrow> f64"
  h_uppercase :: "string \<Rightarrow> string"
  h_lowercase :: "string \<Rightarrow> string"
  h_regex :: "string \<Rightarrow> string \<Rightarrow> bool"
  h_jsonb_path_eq :: "bytes \<Rightarrow> string \<Rightarrow> value \<Rightarrow> value"
  h_jsonb_contains :: "bytes \<Rightarrow> string \<Rightarrow> value \<Rightarrow> value"
  h_jsonb_path_exists :: "bytes \<Rightarrow> string \<Rightarrow> value"

text \<open>\<open>EvalContext\<close>: the tables of the relation and their numbers of columns.\<close>

record eval_context =
  ec_tables :: "string list"
  ec_counts :: "nat list"

fun resolve_loop :: "string list \<Rightarrow> nat list \<Rightarrow> nat \<Rightarrow> nat \<Rightarrow> string \<Rightarrow> nat \<Rightarrow> nat" where
  "resolve_loop [] counts i offset table_name idx = idx"
| "resolve_loop (t # ts) counts i offset table_name idx =
     (if t = table_name then offset + idx
      else resolve_loop ts counts (Suc i) (offset + (if i < length counts then counts ! i else 0)) table_name idx)"

definition resolve_column_index :: "eval_context \<Rightarrow> string \<Rightarrow> nat \<Rightarrow> nat" where
  "resolve_column_index c table_name idx = resolve_loop (ec_tables c) (ec_counts c) 0 0 table_name idx"

fun numeric_as_f64 :: "value \<Rightarrow> f64 option" where
  "numeric_as_f64 (Int32 i) = Some (i32_as_f64 i)"
| "numeric_as_f64 (Int64 i) = Some (i64_as_f64 i)"
| "numeric_as_f64 (Float64 f) = Some f"
| "numeric_as_f64 _ = None"

definition eval_arithmetic :: "value \<Rightarrow> value \<Rightarrow> (f64 \<Rightarrow> f64 \<Rightarrow> f64) \<Rightarrow> value" where
  "eval_arithmetic left right f =
     (case (numeric_as_f64 left, numeric_as_f64 right) of
        (Some l, Some r) \<Rightarrow>
          (let result = f l r in
           case (left, right) of
             (Int64 _, Int64 _) \<Rightarrow> Int64 (f64_as_i64 result)
           | (Int32 _, Int32 _) \<Rightarrow> Int32 (f64_as_i32 result)
           | _ \<Rightarrow> Float64 result)
      | _ \<Rightarrow> Null)"

text \<open>\<open>a % b\<close> truncates, and panics when the quotient overflows.\<close>

definition checked_rem :: "'a::len word \<Rightarrow> 'a word \<Rightarrow> 'a word option" where
  "checked_rem a b =
     (if b = - 1 \<and> a = of_int (- (2 ^ (LENGTH('a) - 1))) then None
      else Some (of_int (sint a smod sint b)))"

fun eval_mod :: "value \<Rightarrow> value \<Rightarrow> value option" where
  "eval_mod (Int64 a) (Int64 b) = (if b \<noteq> 0 then map_option Int64 (checked_rem a b) else Some Null)"
| "eval_mod (Int32 a) (Int32 b) = (if b \<noteq> 0 then map_option Int32 (checked_rem a b) else Some Null)"
| "eval_mod _ _ = Some Null"

fun div_by_zero :: "value \<Rightarrow> bool" where
  "div_by_zero (Int32 i) \<longleftrightarrow> i = 0"
| "div_by_zero (Int64 i) \<longleftrightarrow> i = 0"
| "div_by_zero (Float64 f) \<longleftrightarrow> f64_eq f 0"
| "div_by_zero _ \<longleftrightarrow> False"

fun null_op :: "binary_op \<Rightarrow> value \<Rightarrow> value \<Rightarrow> value" where
  "null_op OpAnd left right =
     (if left = Boolean False then Boolean False
      else if right = Boolean False then Boolean False else Null)"
| "null_op OpOr left right =
     (if left = Boolean True then Boolean True
      else if right = Boolean True then Boolean True else Null)"
| "null_op _ left right = Null"

fun eval_nonnull_op :: "eval_host \<Rightarrow> binary_op \<Rightarrow> value \<Rightarrow> value \<Rightarrow> value option" where
  "eval_nonnull_op h OpEq left right = Some (Boolean (sql_eq left right))"
| "eval_nonnull_op h OpNe left right = Some (Boolean (\<not> sql_eq left right))"
| "eval_nonnull_op h OpLt left right = Some (Boolean (value_cmp left right = Less))"
| "eval_nonnull_op h OpLe left right = Some (Boolean (value_cmp left right \<noteq> Greater))"
| "eval_nonnull_op h OpGt left right = Some (Boolean (value_cmp left right = Greater))"
| "eval_nonnull_op h OpGe left right = Some (Boolean (value_cmp left right \<noteq> Less))"
| "eval_nonnull_op h OpAnd left right = Some (Boolean (left = Boolean True \<and> right = Boolean True))"
| "eval_nonnull_op h OpOr left right = Some (Boolean (left = Boolean True \<or> right = Boolean True))"
| "eval_nonnull_op h OpAdd left right = Some (eval_arithmetic left right (h_arith h ArAdd))"
| "eval_nonnull_op h OpSub left right = Some (eval_arithmetic left right (h_arith h ArSub))"
| "eval_nonnull_op h OpMul left right = Some (eval_arithmetic left right (h_arith h ArMul))"
| "eval_nonnull_op h OpDiv left right =
     (if div_by_zero right then Some Null
      else Some (eval_arithmetic left right (\<lambda>a b. if \<not> f64_eq b 0 then h_arith h ArDiv a b else 0)))"
| "eval_nonnull_op h OpMod left right = eval_mod left right"
| "eval_nonnull_op h _ left right = Some Null"

definition eval_binary_op :: "eval_host \<Rightarrow> binary_op \<Rightarrow> value \<Rightarrow> value \<Rightarrow> value option" where
  "eval_binary_op h op left right =
     (if value_is_null left \<or> value_is_null right then Some (null_op op left right)
      else eval_nonnull_op h op left right)"

fun eval_not :: "value \<Rightarrow> value" where
  "eval_not (Boolean b) = Boolean (\<not> b)"
| "eval_not _ = Null"

fun eval_neg :: "value \<Rightarrow> value" where
  "eval_neg (Int32 i) = Int32 (- i)"
| "eval_neg (Int64 i) = Int64 (- i)"
| "eval_neg (Float64 f) = Float64 (f64_neg f)"
| "eval_neg _ = Null"

fun eval_unary_op :: "unary_op \<Rightarrow> value \<Rightarrow> value" where
  "eval_unary_op OpNot v = eval_not v"
| "eval_unary_op OpNeg v = eval_neg v"
| "eval_unary_op OpIsNull v = Boolean (value_is_null v)"
| "eval_unary_op OpIsNotNull v = Boolean (\<not> value_is_null v)"

fun eval_abs :: "value \<Rightarrow> value" where
  "eval_abs (Int32 i) = Int32 (if sint i < 0 then - i else i)"
| "eval_abs (Int64 i) = Int64 (if sint i < 0 then - i else i)"
| "eval_abs (Float64 f) = Float64 (f64_abs f)"
| "eval_abs _ = Null"

fun eval_coalesce :: "value list \<Rightarrow> value" where
  "eval_coalesce [] = Null"
| "eval_coalesce (arg # args) = (if \<not> value_is_null arg then arg else eval_coalesce args)"

definition eval_function :: "eval_host \<Rightarrow> string \<Rightarrow> value list \<Rightarrow> value" where
  "eval_function h name args =
     (let n = h_uppercase h name in
      if n = ''ABS'' then (case args of v # _ \<Rightarrow> eval_abs v | [] \<Rightarrow> Null)
      else if n = ''UPPER'' then (case args of Str s # _ \<Rightarrow> Str (h_uppercase h s) | _ \<Rightarrow> Null)
      else if n = ''LOWER'' then (case args of Str s # _ \<Rightarrow> Str (h_lowercase h s) | _ \<Rightarrow> Null)
      else if n = ''LENGTH'' then (case args of Str s # _ \<Rightarrow> Int64 (of_nat (length s)) | _ \<Rightarrow> Null)
      else if n = ''COALESCE'' then eval_coalesce args
      else if n = ''JSONB_PATH_EQ'' then
        (case args of Jsonb j # Str p # e # _ \<Rightarrow> h_jsonb_path_eq h j p e | _ \<Rightarrow> Boolean False)
      else if n = ''JSONB_CONTAINS'' then
        (case args of Jsonb j # Str p # e # _ \<Rightarrow> h_jsonb_contains h j p e | _ \<Rightarrow> Boolean False)
      else if n = ''JSONB_EXISTS'' then
        (case args of Jsonb j # Str p # _ \<Rightarrow> h_jsonb_path_exists h j p | _ \<Rightarrow> Boolean False)
      else Null)"

text \<open>Evaluating the items of a list in order; \<open>any\<close> stops at the first hit.\<close>

fun map_m :: "('a \<Rightarrow> 'b option) \<Rightarrow> 'a list \<Rightarrow> 'b list option" where
  "map_m f [] = Some []"
| "map_m f (x # xs) = do { y \<leftarrow> f x; ys \<leftarrow> map_m f xs; Some (y # ys) }"

fun any_m :: "('a \<Rightarrow> bool option) \<Rightarrow> 'a list \<Rightarrow> bool option" where
  "any_m f [] = Some False"
| "any_m f (x # xs) = do { b \<leftarrow> f x; if b then Some True else any_m f xs }"

lemma map_m_cong [fundef_cong]: "xs = ys \<Longrightarrow> (\<And>x. x \<in> set ys \<Longrightarrow> f x = g x) \<Longrightarrow> map_m f xs = map_m g ys"
  by (induction ys arbitrary: xs) auto

lemma any_m_cong [fundef_cong]: "xs = ys \<Longrightarrow> (\<And>x. x \<in> set ys \<Longrightarrow> f x = g x) \<Longrightarrow> any_m f xs = any_m g ys"
proof (induction ys arbitrary: xs)
  case (Cons y ys)
  have "any_m f ys = any_m g ys" using Cons.IH [OF refl] Cons.prems(2) by simp
  then show ?case using Cons.prems by (cases "g y") auto
qed simp

lemma map_m_map: "map_m f (map g xs) = map_m (\<lambda>x. f (g x)) xs"
  by (induction xs) auto

lemma any_m_map: "any_m f (map g xs) = any_m (\<lambda>x. f (g x)) xs"
proof (induction xs)
  case (Cons x xs)
  then show ?case by (cases "f (g x)") auto
qed simp

fun str_test :: "bool \<Rightarrow> (string \<Rightarrow> bool) \<Rightarrow> value \<Rightarrow> value" where
  "str_test otherwise p (Str s) = Boolean (p s)"
| "str_test otherwise p _ = Boolean otherwise"

definition between_test :: "value \<Rightarrow> value \<Rightarrow> value \<Rightarrow> bool" where
  "between_test val low high \<longleftrightarrow> value_cmp val low \<noteq> Less \<and> value_cmp val high \<noteq> Greater"

definition not_between_test :: "value \<Rightarrow> value \<Rightarrow> value \<Rightarrow> bool" where
  "not_between_test val low high \<longleftrightarrow> value_cmp val low = Less \<or> value_cmp val high = Greater"

fun eval_expr :: "eval_host \<Rightarrow> eval_context option \<Rightarrow> value list \<Rightarrow> expr \<Rightarrow> value option" where
  "eval_expr h ctx row (Column c) =
     (let i = (case ctx of Some ec \<Rightarrow> resolve_column_index ec (cr_table c) (cr_index c) | None \<Rightarrow> cr_index c)
      in Some (if i < length row then row ! i else Null))"
| "eval_expr h ctx row (Literal v) = Some v"
| "eval_expr h ctx row (BinaryOp left op right) = do {
     l \<leftarrow> eval_expr h ctx row left;
     r \<leftarrow> eval_expr h ctx row right;
     eval_binary_op h op l r }"
| "eval_expr h ctx row (UnaryOp op e) = do {
     v \<leftarrow> eval_expr h ctx row e;
     Some (eval_unary_op op v) }"
| "eval_expr h ctx row (Aggregate f (Some e) d) = eval_expr h ctx row e"
| "eval_expr h ctx row (Aggregate f None d) = Some (Int64 1)"
| "eval_expr h ctx row (Between e low high) = do {
     v \<leftarrow> eval_expr h ctx row e;
     lv \<leftarrow> eval_expr h ctx row low;
     hv \<leftarrow> eval_expr h ctx row high;
     Some (Boolean (between_test v lv hv)) }"
| "eval_expr h ctx row (NotBetween e low high) = do {
     v \<leftarrow> eval_expr h ctx row e;
     lv \<leftarrow> eval_expr h ctx row low;
     hv \<leftarrow> eval_expr h ctx row high;
     Some (Boolean (not_between_test v lv hv)) }"
| "eval_expr h ctx row (InList e items) = do {
     v \<leftarrow> eval_expr h ctx row e;
     b \<leftarrow> any_m (\<lambda>item. do { w \<leftarrow> eval_expr h ctx row item; Some (value_eq w v) }) items;
     Some (Boolean b) }"
| "eval_expr h ctx row (NotInList e items) = do {
     v \<leftarrow> eval_expr h ctx row e;
     b \<leftarrow> any_m (\<lambda>item. do { w \<leftarrow> eval_expr h ctx row item; Some (value_eq w v) }) items;
     Some (Boolean (\<not> b)) }"
| "eval_expr h ctx row (Like e pattern) = do {
     v \<leftarrow> eval_expr h ctx row e;
     Some (str_test False (\<lambda>s. match_like_pattern s pattern) v) }"
| "eval_expr h ctx row (NotLike e pattern) = do {
     v \<leftarrow> eval_expr h ctx row e;
     Some (str_test True (\<lambda>s. \<not> match_like_pattern s pattern) v) }"
| "eval_expr h ctx row (Match e pattern) = do {
     v \<leftarrow> eval_expr h ctx row e;
     Some (str_test False (\<lambda>s. h_regex h s pattern) v) }"
| "eval_expr h ctx row (NotMatch e pattern) = do {
     v \<leftarrow> eval_expr h ctx row e;
     Some (str_test True (\<lambda>s. \<not> h_regex h s pattern) v) }"
| "eval_expr h ctx row (Function name args) = do {
     vs \<leftarrow> map_m (eval_expr h ctx row) args;
     Some (eval_function h name vs) }"

definition eval_predicate :: "eval_host \<Rightarrow> eval_context option \<Rightarrow> value list \<Rightarrow> expr \<Rightarrow> bool option" where
  "eval_predicate h ctx row e =
     do { v \<leftarrow> eval_expr h ctx row e; Some (case v of Boolean b \<Rightarrow> b | _ \<Rightarrow> False) }"

section \<open>Facts about the interpreter\<close>

text \<open>Logical values: truth values and NULL.\<close>

definition is_logical :: "value \<Rightarrow> bool" where
  "is_logical v \<longleftrightarrow> v = Null \<or> v = Boolean True \<or> v = Boolean False"

lemma is_logical_simps [simp]: "is_logical Null" "is_logical (Boolean b)" "is_logical (eval_not v)"
  by (cases v; simp add: is_logical_def; fail)+

lemma is_logicalE:
  assumes "is_logical v"
  obtains "v = Null" | "v = Boolean True" | "v = Boolean False"
  using assms by (auto simp: is_logical_def)

text \<open>What negating the result of an operator is.\<close>

lemma not_comparison:
  "map_option eval_not (eval_binary_op h OpEq l r) = eval_binary_op h OpNe l r"
  "map_option eval_not (eval_binary_op h OpNe l r) = eval_binary_op h OpEq l r"
  "map_option eval_not (eval_binary_op h OpLt l r) = eval_binary_op h OpGe l r"
  "map_option eval_not (eval_binary_op h OpGe l r) = eval_binary_op h OpLt l r"
  "map_option eval_not (eval_binary_op h OpGt l r) = eval_binary_op h OpLe l r"
  "map_option eval_not (eval_binary_op h OpLe l r) = eval_binary_op h OpGt l r"
  by (simp_all add: eval_binary_op_def)

lemma de_morgan:
  assumes "is_logical l" "is_logical r"
  shows "map_option eval_not (eval_binary_op h OpAnd l r) = eval_binary_op h OpOr (eval_not l) (eval_not r)"
    "map_option eval_not (eval_binary_op h OpOr l r) = eval_binary_op h OpAnd (eval_not l) (eval_not r)"
  using assms by (auto elim!: is_logicalE simp: eval_binary_op_def)

lemma eval_not_not: "is_logical v \<Longrightarrow> eval_not (eval_not v) = v"
  by (auto elim: is_logicalE)

lemma str_test_not: "eval_not (str_test b p v) = str_test (\<not> b) (\<lambda>s. \<not> p s) v"
  by (cases v) auto

lemma not_between_not: "not_between_test v l u = (\<not> between_test v l u)"
  by (auto simp: not_between_test_def between_test_def)

lemma eval_op_logical:
  "op \<in> {OpEq, OpNe, OpLt, OpLe, OpGt, OpGe, OpAnd, OpOr} \<Longrightarrow> eval_binary_op h op l r = Some v \<Longrightarrow> is_logical v"
  by (auto simp: eval_binary_op_def split: if_splits)

text \<open>The runner's LIKE is that of \<open>pattern_match.rs\<close>.\<close>

lemma match_like_recursive_eq:
  "vi \<le> length v \<Longrightarrow> match_like_recursive v pattern vi pj = like_recursive (drop vi v) (drop pj pattern)"
proof (induction v pattern vi pj rule: match_like_recursive.induct)
  case (1 v pattern vi pj)
  show ?case
  proof (cases "length pattern \<le> pj")
    case True
    then show ?thesis using 1(4) by (subst match_like_recursive.simps) auto
  next
    case False
    then have p: "drop pj pattern = pattern ! pj # drop (Suc pj) pattern"
      by (simp add: Cons_nth_drop_Suc)
    have skips: "[vi..<Suc (length v)] = map (\<lambda>k. k + vi) [0..<Suc (length v - vi)]"
      using 1(4) map_add_upt [of vi "Suc (length v - vi)"] by (simp del: upt_Suc)
    show ?thesis
    proof (cases "pattern ! pj = ch CHR ''%''")
      case True
      have "match_like_recursive v pattern i (Suc pj) = like_recursive (drop i v) (drop (Suc pj) pattern)"
        if "i \<in> set [vi..<Suc (length v)]" for i
        using 1(1) [OF False True that] that by (cases "i = length v") auto
      then have "list_ex (\<lambda>i. match_like_recursive v pattern i (Suc pj)) [vi..<Suc (length v)]
        = list_ex (\<lambda>i. like_recursive (drop i v) (drop (Suc pj) pattern)) [vi..<Suc (length v)]"
        by (rule list_ex_cong [OF refl])
      also have "\<dots> = list_ex (\<lambda>k. like_recursive (drop k (drop vi v)) (drop (Suc pj) pattern)) [0..<Suc (length v - vi)]"
        unfolding skips by (simp only: list_ex_iff set_map ball_simps bex_simps drop_drop)
      finally have run: "list_ex (\<lambda>i. match_like_recursive v pattern i (Suc pj)) [vi..<Suc (length v)] = \<dots>" .
      have "match_like_recursive v pattern vi pj = list_ex (\<lambda>i. match_like_recursive v pattern i (Suc pj)) [vi..<Suc (length v)]"
        using True False by (subst match_like_recursive.simps) (simp only: if_True if_False simp_thms)
      then show ?thesis unfolding run p like_recursive.simps length_drop using True by (simp only: if_True simp_thms)
    next
      case np: False
      have tl: "vi < length v \<Longrightarrow> drop vi v = v ! vi # drop (Suc vi) v" by (simp add: Cons_nth_drop_Suc)
      show ?thesis using 1(2) [OF False np] 1(3) [OF False np] False np p tl 1(4)
        by (subst match_like_recursive.simps) (cases "vi < length v"; simp)
    qed
  qed
qed

section \<open>Properties\<close>

text \<open>
  The LIKE of the query runner and the LIKE of the core crate are the same function.
\<close>

theorem like_engines_agree: "match_like_pattern s pattern = like_matches s pattern"
  by (simp add: match_like_pattern_def like_matches_def match_like_recursive_eq)

text \<open>
  Integer arithmetic goes through \<open>f64\<close>: whatever the floating-point operations are, adding an integer to
  \<open>2^53\<close> and to \<open>2^53 + 1\<close> gives the same result.
\<close>

lemma int64_arithmetic_rounds:
  "eval_binary_op h OpAdd (Int64 9007199254740993) (Int64 i) = eval_binary_op h OpAdd (Int64 9007199254740992) (Int64 i)"
  by (simp add: eval_binary_op_def eval_arithmetic_def i64_as_f64_rounds)

text \<open>
  \<open>IN\<close> compares with \<open>PartialEq\<close> and \<open>=\<close> with the SQL equality: a 32-bit integer is equal to the 64-bit
  integer of the same value, but not in a list that holds it.
\<close>

lemma in_list_differs_from_eq:
  "eval_expr h ctx [Int32 1] (BinaryOp (Literal (Int32 1)) OpEq (Literal (Int64 1))) = Some (Boolean True)"
  "eval_expr h ctx [Int32 1] (InList (Literal (Int32 1)) [Literal (Int64 1)]) = Some (Boolean False)"
  by (simp_all add: eval_binary_op_def)

text \<open>The remainder of the least integer by \<open>-1\<close> panics.\<close>

lemma remainder_panics: "eval_binary_op h OpMod (Int64 (of_int (- (2 ^ 63)))) (Int64 (- 1)) = None"
  by (simp add: eval_binary_op_def checked_rem_def)

end
