(* ===== verification/Cynos_Not_Simplification.thy ===== *)
theory Cynos_Not_Simplification
  imports Cynos_Expr
begin

text \<open>
  Pushing negations inwards, \<open>crates/query/src/optimizer/not_simplification.rs\<close>, on expressions. The
  rewriting is proved to keep the value of an expression on every row on which the operands of its
  \<open>NOT\<close>, \<open>AND\<close> and \<open>OR\<close> are truth values or NULL, and shown not to on others.
\<close>

section \<open>The pass\<close>

fun simplify_not :: "expr \<Rightarrow> expr" where
  "simplify_not (UnaryOp OpNot e) = e"
| "simplify_not (BinaryOp left OpAnd right) = BinaryOp (simplify_not left) OpOr (simplify_not right)"
| "simplify_not (BinaryOp left OpOr right) = BinaryOp (simplify_not left) OpAnd (simplify_not right)"
| "simplify_not (BinaryOp left OpEq right) = BinaryOp left OpNe right"
| "simplify_not (BinaryOp left OpNe right) = BinaryOp left OpEq right"
| "simplify_not (BinaryOp left OpLt right) = BinaryOp left OpGe right"
| "simplify_not (BinaryOp left OpLe right) = BinaryOp left OpGt right"
| "simplify_not (BinaryOp left OpGt right) = BinaryOp left OpLe right"
| "simplify_not (BinaryOp left OpGe right) = BinaryOp left OpLt right"
| "simplify_not (InList e items) = NotInList e items"
| "simplify_not (NotInList e items) = InList e items"
| "simplify_not (Between e low high) = NotBetween e low high"
| "simplify_not (NotBetween e low high) = Between e low high"
| "simplify_not (Like e pattern) = NotLike e pattern"
| "simplify_not (NotLike e pattern) = Like e pattern"
| "simplify_not (Match e pattern) = NotMatch e pattern"
| "simplify_not (NotMatch e pattern) = Match e pattern"
| "simplify_not (UnaryOp OpIsNull e) = UnaryOp OpIsNotNull e"
| "simplify_not (UnaryOp OpIsNotNull e) = UnaryOp OpIsNull e"
| "simplify_not other = UnaryOp OpNot other"

fun simplify_expr :: "expr \<Rightarrow> expr" where
  "simplify_expr (UnaryOp op e) =
     (if op = OpNot then simplify_not (simplify_expr e) else UnaryOp op (simplify_expr e))"
| "simplify_expr (BinaryOp left op right) = BinaryOp (simplify_expr left) op (simplify_expr right)"
| "simplify_expr (Between e low high) = Between (simplify_expr e) (simplify_expr low) (simplify_expr high)"
| "simplify_expr (NotBetween e low high) = NotBetween (simplify_expr e) (simplify_expr low) (simplify_expr high)"
| "simplify_expr (InList e items) = InList (simplify_expr e) (map simplify_expr items)"
| "simplify_expr (NotInList e items) = NotInList (simplify_expr e) (map simplify_expr items)"
| "simplify_expr (Like e pattern) = Like (simplify_expr e) pattern"
| "simplify_expr (NotLike e pattern) = NotLike (simplify_expr e) pattern"
| "simplify_expr (Match e pattern) = Match (simplify_expr e) pattern"
| "simplify_expr (NotMatch e pattern) = NotMatch (simplify_expr e) pattern"
| "simplify_expr (Function name args) = Function name (map simplify_expr args)"
| "simplify_expr (Aggregate f (Some e) d) = Aggregate f (Some (simplify_expr e)) d"
| "simplify_expr (Aggregate f None d) = Aggregate f None d"
| "simplify_expr (Column c) = Column c"
| "simplify_expr (Literal v) = Literal v"

section \<open>Logically typed expressions\<close>

text \<open>The value of an expression, when it has one, is a truth value or NULL.\<close>

definition yields_logical :: "eval_host \<Rightarrow> eval_context option \<Rightarrow> value list \<Rightarrow> expr \<Rightarrow> bool" where
  "yields_logical h ctx row e \<longleftrightarrow> (case eval_expr h ctx row e of None \<Rightarrow> True | Some v \<Rightarrow> is_logical v)"

text \<open>The operands of all logical connectives in an expression do.\<close>

fun logical :: "eval_host \<Rightarrow> eval_context option \<Rightarrow> value list \<Rightarrow> expr \<Rightarrow> bool" where
  "logical h ctx row (UnaryOp op e) \<longleftrightarrow> logical h ctx row e \<and> (op = OpNot \<longrightarrow> yields_logical h ctx row e)"
| "logical h ctx row (BinaryOp left op right) \<longleftrightarrow> logical h ctx row left \<and> logical h ctx row right
     \<and> (op = OpAnd \<or> op = OpOr \<longrightarrow> yields_logical h ctx row left \<and> yields_logical h ctx row right)"
| "logical h ctx row (Between e low high) \<longleftrightarrow> logical h ctx row e \<and> logical h ctx row low \<and> logical h ctx row high"
| "logical h ctx row (NotBetween e low high) \<longleftrightarrow> logical h ctx row e \<and> logical h ctx row low \<and> logical h ctx row high"
| "logical h ctx row (InList e items) \<longleftrightarrow> logical h ctx row e \<and> list_all (logical h ctx row) items"
| "logical h ctx row (NotInList e items) \<longleftrightarrow> logical h ctx row e \<and> list_all (logical h ctx row) items"
| "logical h ctx row (Like e pattern) \<longleftrightarrow> logical h ctx row e"
| "logical h ctx row (NotLike e pattern) \<longleftrightarrow> logical h ctx row e"
| "logical h ctx row (Match e pattern) \<longleftrightarrow> logical h ctx row e"
| "logical h ctx row (NotMatch e pattern) \<longleftrightarrow> logical h ctx row e"
| "logical h ctx row (Function name args) \<longleftrightarrow> list_all (logical h ctx row) args"
| "logical h ctx row (Aggregate f (Some e) d) \<longleftrightarrow> logical h ctx row e"
| "logical h ctx row (Aggregate f None d) \<longleftrightarrow> True"
| "logical h ctx row (Column c) \<longleftrightarrow> True"
| "logical h ctx row (Literal v) \<longleftrightarrow> True"

lemma yields_logical_eq:
  "eval_expr h ctx row e = eval_expr h ctx row e' \<Longrightarrow> yields_logical h ctx row e = yields_logical h ctx row e'"
  by (simp add: yields_logical_def)

lemma map_option_bind: "map_option f (Option.bind x g) = Option.bind x (\<lambda>y. map_option f (g y))"
  by (cases x) auto

lemma bind_Some_map: "Option.bind x (\<lambda>v. Some (f v)) = map_option f x"
  by (cases x) auto

section \<open>The pass keeps the value\<close>

text \<open>\<open>simplify_not\<close> negates.\<close>

lemma simplify_not_correct:
  "logical h ctx row e \<Longrightarrow> yields_logical h ctx row e \<Longrightarrow>
     eval_expr h ctx row (simplify_not e) = map_option eval_not (eval_expr h ctx row e)
     \<and> logical h ctx row (simplify_not e)"
proof (induction e rule: simplify_not.induct)
  case (1 e)
  then show ?case
    by (cases "eval_expr h ctx row e") (auto simp: yields_logical_def eval_not_not)
next
  case (2 left right)
  then have l: "eval_expr h ctx row (simplify_not left) = map_option eval_not (eval_expr h ctx row left)"
    "logical h ctx row (simplify_not left)"
    and r: "eval_expr h ctx row (simplify_not right) = map_option eval_not (eval_expr h ctx row right)"
    "logical h ctx row (simplify_not right)" by auto
  have "yields_logical h ctx row (simplify_not left)" "yields_logical h ctx row (simplify_not right)"
    by (simp_all add: yields_logical_def l r split: option.split)
  moreover have "eval_expr h ctx row (BinaryOp (simplify_not left) OpOr (simplify_not right))
      = map_option eval_not (eval_expr h ctx row (BinaryOp left OpAnd right))"
    using 2(3) l(1) r(1)
    by (cases "eval_expr h ctx row left"; cases "eval_expr h ctx row right")
      (auto simp: yields_logical_def de_morgan)
  ultimately show ?case using l r by simp
next
  case (3 left right)
  then have l: "eval_expr h ctx row (simplify_not left) = map_option eval_not (eval_expr h ctx row left)"
    "logical h ctx row (simplify_not left)"
    and r: "eval_expr h ctx row (simplify_not right) = map_option eval_not (eval_expr h ctx row right)"
    "logical h ctx row (simplify_not right)" by auto
  have "yields_logical h ctx row (simplify_not left)" "yields_logical h ctx row (simplify_not right)"
    by (simp_all add: yields_logical_def l r split: option.split)
  moreover have "eval_expr h ctx row (BinaryOp (simplify_not left) OpAnd (simplify_not right))
      = map_option eval_not (eval_expr h ctx row (BinaryOp left OpOr right))"
    using 3(3) l(1) r(1)
    by (cases "eval_expr h ctx row left"; cases "eval_expr h ctx row right")
      (auto simp: yields_logical_def de_morgan)
  ultimately show ?case using l r by simp
qed (simp_all add: map_option_bind not_comparison str_test_not not_between_not option.map_comp comp_def
    bind_Some_map)

lemma simplify_expr_correct:
  "logical h ctx row e \<Longrightarrow>
     eval_expr h ctx row (simplify_expr e) = eval_expr h ctx row e \<and> logical h ctx row (simplify_expr e)"
proof (induction e rule: simplify_expr.induct)
  case (1 op e)
  then have e: "eval_expr h ctx row (simplify_expr e) = eval_expr h ctx row e"
    "logical h ctx row (simplify_expr e)" by (cases "op = OpNot"; simp)+
  show ?case
  proof (cases "op = OpNot")
    case True
    have "yields_logical h ctx row (simplify_expr e)"
      using 1(3) True yields_logical_eq [OF e(1)] by simp
    then show ?thesis
      using simplify_not_correct [OF e(2)] e True
      by (cases "eval_expr h ctx row e") simp_all
  qed (use 1 e in simp)
next
  case (2 left op right)
  then show ?case
    using yields_logical_eq [of h ctx row "simplify_expr left" left]
      yields_logical_eq [of h ctx row "simplify_expr right" right] by simp
next
  case (5 e items)
  have "any_m (\<lambda>i. do { w \<leftarrow> eval_expr h ctx row (simplify_expr i); Some (value_eq w v) }) items
      = any_m (\<lambda>i. do { w \<leftarrow> eval_expr h ctx row i; Some (value_eq w v) }) items" for v
    using 5 by (intro any_m_cong [OF refl]) (simp add: list_all_iff)
  then show ?case using 5 by (simp add: any_m_map list_all_iff)
next
  case (6 e items)
  have "any_m (\<lambda>i. do { w \<leftarrow> eval_expr h ctx row (simplify_expr i); Some (value_eq w v) }) items
      = any_m (\<lambda>i. do { w \<leftarrow> eval_expr h ctx row i; Some (value_eq w v) }) items" for v
    using 6 by (intro any_m_cong [OF refl]) (simp add: list_all_iff)
  then show ?case using 6 by (simp add: any_m_map list_all_iff)
next
  case (11 name args)
  have "map_m (\<lambda>a. eval_expr h ctx row (simplify_expr a)) args = map_m (eval_expr h ctx row) args"
    using 11 by (intro map_m_cong [OF refl]) (simp add: list_all_iff)
  then show ?case using 11 by (simp add: map_m_map list_all_iff)
qed simp_all

section \<open>Properties\<close>

text \<open>
  C27. Simplifying negations keeps the value of an expression, panics included, and so the rows a filter
  keeps, on every row on which its logical operands are truth values or NULL, whatever the table layout.
\<close>

theorem not_simplification_keeps_value:
  assumes "logical h ctx row e"
  shows "eval_expr h ctx row (simplify_expr e) = eval_expr h ctx row e
    \<and> eval_predicate h ctx row (simplify_expr e) = eval_predicate h ctx row e"
  using simplify_expr_correct [OF assms] by (simp add: eval_predicate_def)

theorem not_simplification_keeps_value_witness:
  "\<forall>h. eval_predicate h None [Int32 7, Null] (UnaryOp OpNot (BinaryOp
      (BinaryOp (Column \<lparr>cr_table = ''t'', cr_column = ''a'', cr_index = 0\<rparr>) OpLt (Literal (Int32 3)))
      OpOr (UnaryOp OpIsNotNull (Column \<lparr>cr_table = ''t'', cr_column = ''b'', cr_index = 1\<rparr>)))) = Some True"
  (is "\<forall>h. eval_predicate h None ?row ?e = _")
proof
  fix h
  have "logical h None ?row ?e"
    by (simp add: yields_logical_def eval_binary_op_def)
  then have "eval_predicate h None ?row ?e = eval_predicate h None ?row (simplify_expr ?e)"
    using not_simplification_keeps_value by metis
  then show "eval_predicate h None ?row ?e = Some True"
    by (simp add: eval_predicate_def eval_binary_op_def Let_def)
qed

text \<open>
  Outside the logical values the pass changes results: with an integer as an operand of \<open>AND\<close>,
  \<open>NOT (5 AND TRUE)\<close> holds, and its simplification \<open>NOT 5 OR NOT TRUE\<close> does not.
\<close>

theorem not_simplification_untyped_differs:
  "let e = UnaryOp OpNot (BinaryOp (Literal (Int32 5)) OpAnd (Literal (Boolean True)))
   in eval_predicate h ctx row e = Some True \<and> eval_predicate h ctx row (simplify_expr e) = Some False"
  by (simp add: eval_predicate_def eval_binary_op_def)

end
