(* ===== verification/Cynos_Plan.thy ===== *)
theory Cynos_Plan
  imports Cynos_Index Cynos_Not_Simplification
begin

text \<open>
  Logical query plans (\<open>crates/query/src/planner/logical.rs\<close>, \<open>index_bounds.rs\<close>) and three passes of the
  optimizer that rewrite them: \<open>not_simplification.rs\<close>, \<open>and_predicate.rs\<close> and \<open>cross_product.rs\<close>.
  A reference semantics gives a plan its relation: filters keep the rows their predicate holds on, cross
  products pair rows in order, and every other node is an arbitrary function of the relations below it
  (and, for a join, of its condition as a test on rows). Each pass is proved to keep the relation.
\<close>

section \<open>Index bounds\<close>

datatype index_bounds =
    Unbounded
  | Scalar "value key_range"
  | Composite "value list key_range"

definition bounds_from_scalar_range ::
  "value option \<Rightarrow> value option \<Rightarrow> bool \<Rightarrow> bool \<Rightarrow> index_bounds" where
  "bounds_from_scalar_range range_start range_end include_start include_end =
     (case (range_start, range_end) of
        (Some s, Some e) \<Rightarrow> Scalar (Bound s e (\<not> include_start) (\<not> include_end))
      | (Some s, None) \<Rightarrow> Scalar (LowerBound s (\<not> include_start))
      | (None, Some e) \<Rightarrow> Scalar (UpperBound e (\<not> include_end))
      | (None, None) \<Rightarrow> Unbounded)"

fun bounds_as_scalar :: "index_bounds \<Rightarrow> value key_range option" where
  "bounds_as_scalar (Scalar r) = Some r"
| "bounds_as_scalar _ = None"

fun bounds_as_composite :: "index_bounds \<Rightarrow> value list key_range option" where
  "bounds_as_composite (Composite r) = Some r"
| "bounds_as_composite _ = None"

definition bounds_is_unbounded :: "index_bounds \<Rightarrow> bool" where
  "bounds_is_unbounded b \<longleftrightarrow> b = Unbounded"

section \<open>Plans\<close>

datatype join_type = Inner | LeftOuter | RightOuter | FullOuter | Cross

datatype sort_order = SortAsc | SortDesc

datatype logical_plan =
    Scan string
  | IndexScan string string index_bounds
  | IndexGet string string "value"
  | IndexInGet string string "value list"
  | GinIndexScan string string string nat string "value option" string "expr option"
  | GinIndexScanMulti string string string "(string \<times> value) list" bool "expr option"
  | Filter logical_plan expr
  | Project logical_plan "expr list"
  | Join logical_plan logical_plan expr join_type "string list"
  | Aggregation logical_plan "expr list" "(aggregate_func \<times> expr) list"
  | Sort logical_plan "(expr \<times> sort_order) list"
  | Limit logical_plan nat nat
  | CrossProduct logical_plan logical_plan
  | Union logical_plan logical_plan bool
  | Empty

fun output_tables :: "logical_plan \<Rightarrow> string list" where
  "output_tables (Scan table) = [table]"
| "output_tables (IndexScan table _ _) = [table]"
| "output_tables (IndexGet table _ _) = [table]"
| "output_tables (IndexInGet table _ _) = [table]"
| "output_tables (GinIndexScan table _ _ _ _ _ _ _) = [table]"
| "output_tables (GinIndexScanMulti table _ _ _ _ _) = [table]"
| "output_tables (Filter input _) = output_tables input"
| "output_tables (Project input _) = output_tables input"
| "output_tables (Aggregation input _ _) = output_tables input"
| "output_tables (Sort input _) = output_tables input"
| "output_tables (Limit input _ _) = output_tables input"
| "output_tables (Join _ _ _ _ tables) = tables"
| "output_tables (CrossProduct left right) = output_tables left @ output_tables right"
| "output_tables (Union left right _) = output_tables left @ output_tables right"
| "output_tables Empty = []"

fun plan_inputs :: "logical_plan \<Rightarrow> logical_plan list" where
  "plan_inputs (Filter input _) = [input]"
| "plan_inputs (Project input _) = [input]"
| "plan_inputs (Aggregation input _ _) = [input]"
| "plan_inputs (Sort input _) = [input]"
| "plan_inputs (Limit input _ _) = [input]"
| "plan_inputs (Join left right _ _ _) = [left, right]"
| "plan_inputs (CrossProduct left right) = [left, right]"
| "plan_inputs (Union left right _) = [left, right]"
| "plan_inputs _ = []"

definition push_table :: "string list \<Rightarrow> string \<Rightarrow> string list" where
  "push_table tables table = (if table \<notin> set tables then tables @ [table] else tables)"

fun collect_tables_into :: "logical_plan \<Rightarrow> string list \<Rightarrow> string list" where
  "collect_tables_into (Scan table) ts = push_table ts table"
| "collect_tables_into (IndexScan table _ _) ts = push_table ts table"
| "collect_tables_into (IndexGet table _ _) ts = push_table ts table"
| "collect_tables_into (IndexInGet table _ _) ts = push_table ts table"
| "collect_tables_into (GinIndexScan table _ _ _ _ _ _ _) ts = push_table ts table"
| "collect_tables_into (GinIndexScanMulti table _ _ _ _ _) ts = push_table ts table"
| "collect_tables_into (Filter input _) ts = collect_tables_into input ts"
| "collect_tables_into (Project input _) ts = collect_tables_into input ts"
| "collect_tables_into (Aggregation input _ _) ts = collect_tables_into input ts"
| "collect_tables_into (Sort input _) ts = collect_tables_into input ts"
| "collect_tables_into (Limit input _ _) ts = collect_tables_into input ts"
| "collect_tables_into (Join _ _ _ _ tables) ts = foldl push_table ts tables"
| "collect_tables_into (CrossProduct left right) ts = collect_tables_into right (collect_tables_into left ts)"
| "collect_tables_into (Union left right _) ts = collect_tables_into right (collect_tables_into left ts)"
| "collect_tables_into Empty ts = ts"

definition collect_tables :: "logical_plan \<Rightarrow> string list" where
  "collect_tables p = collect_tables_into p []"

section \<open>Negation simplification\<close>

fun simplify_plan :: "logical_plan \<Rightarrow> logical_plan" where
  "simplify_plan (Filter input predicate) = Filter (simplify_plan input) (simplify_expr predicate)"
| "simplify_plan (Join left right condition jt tables) =
     Join (simplify_plan left) (simplify_plan right) (simplify_expr condition) jt tables"
| "simplify_plan (Project input columns) = Project (simplify_plan input) columns"
| "simplify_plan (Aggregation input group_by aggregates) = Aggregation (simplify_plan input) group_by aggregates"
| "simplify_plan (Sort input order_by) = Sort (simplify_plan input) order_by"
| "simplify_plan (Limit input n offset) = Limit (simplify_plan input) n offset"
| "simplify_plan (CrossProduct left right) = CrossProduct (simplify_plan left) (simplify_plan right)"
| "simplify_plan other = other"

section \<open>Breaking conjunctions\<close>

fun break_and_predicate :: "expr \<Rightarrow> expr list" where
  "break_and_predicate (BinaryOp left OpAnd right) = break_and_predicate left @ break_and_predicate right"
| "break_and_predicate other = [other]"

definition create_filter_chain :: "logical_plan \<Rightarrow> expr list \<Rightarrow> logical_plan" where
  "create_filter_chain input predicates =
     (if predicates = [] then input else foldl (\<lambda>result predicate. Filter result predicate) input (rev predicates))"

fun and_traverse :: "logical_plan \<Rightarrow> logical_plan" where
  "and_traverse (Filter input predicate) =
     create_filter_chain (and_traverse input) (break_and_predicate predicate)"
| "and_traverse (Project input columns) = Project (and_traverse input) columns"
| "and_traverse (Join left right condition jt tables) =
     Join (and_traverse left) (and_traverse right) condition jt tables"
| "and_traverse (Aggregation input group_by aggregates) = Aggregation (and_traverse input) group_by aggregates"
| "and_traverse (Sort input order_by) = Sort (and_traverse input) order_by"
| "and_traverse (Limit input n offset) = Limit (and_traverse input) n offset"
| "and_traverse (CrossProduct left right) = CrossProduct (and_traverse left) (and_traverse right)"
| "and_traverse (Union left right all) = Union (and_traverse left) (and_traverse right) all"
| "and_traverse plan = plan"

section \<open>Balancing cross products\<close>

fun collect_cross_product_children :: "logical_plan \<Rightarrow> logical_plan list" where
  "collect_cross_product_children (CrossProduct left right) =
     collect_cross_product_children left @ collect_cross_product_children right"
| "collect_cross_product_children other = [other]"

fun pair_level :: "logical_plan list \<Rightarrow> logical_plan list" where
  "pair_level (a # b # rest) = CrossProduct a b # pair_level rest"
| "pair_level [a] = [a]"
| "pair_level [] = []"

lemma length_pair_level: "length (pair_level ts) = (length ts + 1) div 2"
  by (induction ts rule: pair_level.induct) auto

function build_levels :: "logical_plan list \<Rightarrow> logical_plan" where
  "build_levels tables =
     (if 1 < length tables then build_levels (pair_level tables)
      else case tables of [] \<Rightarrow> Empty | t # _ \<Rightarrow> t)"
  by auto
termination
  by (relation "measure length") (auto simp: length_pair_level)

declare build_levels.simps [simp del]

lemma children_size: "c \<in> set (collect_cross_product_children p) \<Longrightarrow> size c \<le> size p"
  by (induction p rule: collect_cross_product_children.induct) auto

lemma children_less:
  "x = collect_cross_product_children left @ collect_cross_product_children right \<Longrightarrow> t \<in> set x
     \<Longrightarrow> size t < Suc (size left + size right)"
  by (auto dest!: children_size)

lemma children_listed:
  "[a] = collect_cross_product_children left @ collect_cross_product_children right
     \<Longrightarrow> size a < Suc (size left + size right)"
  "[a, b] = collect_cross_product_children left @ collect_cross_product_children right
     \<Longrightarrow> size a < Suc (size left + size right) \<and> size b < Suc (size left + size right)"
  by (metis children_less list.set_intros)+

function cross_traverse :: "logical_plan \<Rightarrow> logical_plan" where
  "cross_traverse (CrossProduct left right) =
     (let tables = collect_cross_product_children left @ collect_cross_product_children right in
      if 2 < length tables then build_levels (map cross_traverse tables)
      else case tables of
        [a, b] \<Rightarrow> CrossProduct (cross_traverse a) (cross_traverse b)
      | [a] \<Rightarrow> cross_traverse a
      | _ \<Rightarrow> Empty)"
| "cross_traverse (Filter input predicate) = Filter (cross_traverse input) predicate"
| "cross_traverse (Project input columns) = Project (cross_traverse input) columns"
| "cross_traverse (Join left right condition jt tables) =
     Join (cross_traverse left) (cross_traverse right) condition jt tables"
| "cross_traverse (Aggregation input group_by aggregates) = Aggregation (cross_traverse input) group_by aggregates"
| "cross_traverse (Sort input order_by) = Sort (cross_traverse input) order_by"
| "cross_traverse (Limit input n offset) = Limit (cross_traverse input) n offset"
| "cross_traverse (Union left right all) = Union (cross_traverse left) (cross_traverse right) all"
| "cross_traverse (Scan table) = Scan table"
| "cross_traverse (IndexScan table i b) = IndexScan table i b"
| "cross_traverse (IndexGet table i k) = IndexGet table i k"
| "cross_traverse (IndexInGet table i ks) = IndexInGet table i ks"
| "cross_traverse (GinIndexScan table i c ci p v q r) = GinIndexScan table i c ci p v q r"
| "cross_traverse (GinIndexScanMulti table i c ps m r) = GinIndexScanMulti table i c ps m r"
| "cross_traverse Empty = Empty"
  by pat_completeness auto
termination
  by (relation "measure size") (auto dest: children_size children_listed)

section \<open>Reference semantics\<close>

record relation =
  rel_tables :: "string list"
  rel_counts :: "nat list"
  rel_rows :: "value list list"

text \<open>Predicates see the columns through the table layout; a single table is addressed directly.\<close>

definition rel_context :: "string list \<Rightarrow> nat list \<Rightarrow> eval_context option" where
  "rel_context tables counts =
     (if length tables \<le> 1 then None else Some \<lparr>ec_tables = tables, ec_counts = counts\<rparr>)"

fun filter_m :: "('a \<Rightarrow> bool option) \<Rightarrow> 'a list \<Rightarrow> 'a list option" where
  "filter_m p [] = Some []"
| "filter_m p (x # xs) = do { b \<leftarrow> p x; ys \<leftarrow> filter_m p xs; Some (if b then x # ys else ys) }"

definition sem_filter :: "eval_host \<Rightarrow> expr \<Rightarrow> relation \<Rightarrow> relation option" where
  "sem_filter h e r = do {
     rows \<leftarrow> filter_m (\<lambda>row. eval_predicate h (rel_context (rel_tables r) (rel_counts r)) row e) (rel_rows r);
     Some (r\<lparr>rel_rows := rows\<rparr>) }"

definition sem_cross :: "relation \<Rightarrow> relation \<Rightarrow> relation" where
  "sem_cross l r =
     \<lparr>rel_tables = rel_tables l @ rel_tables r, rel_counts = rel_counts l @ rel_counts r,
      rel_rows = concat (map (\<lambda>x. map (\<lambda>y. x @ y) (rel_rows r)) (rel_rows l))\<rparr>"

definition sem_unit :: relation where
  "sem_unit = \<lparr>rel_tables = [], rel_counts = [], rel_rows = [[]]\<rparr>"

text \<open>What the other nodes compute is left open.\<close>

record plan_host =
  ph_leaf :: "logical_plan \<Rightarrow> relation option"
  ph_project :: "expr list \<Rightarrow> relation \<Rightarrow> relation option"
  ph_aggregate :: "expr list \<Rightarrow> (aggregate_func \<times> expr) list \<Rightarrow> relation \<Rightarrow> relation option"
  ph_sort :: "(expr \<times> sort_order) list \<Rightarrow> relation \<Rightarrow> relation option"
  ph_limit :: "nat \<Rightarrow> nat \<Rightarrow> relation \<Rightarrow> relation option"
  ph_join :: "join_type \<Rightarrow> string list \<Rightarrow> (eval_context option \<Rightarrow> value list \<Rightarrow> bool option)
    \<Rightarrow> relation \<Rightarrow> relation \<Rightarrow> relation option"
  ph_union :: "bool \<Rightarrow> relation \<Rightarrow> relation \<Rightarrow> relation option"

fun plan_sem :: "eval_host \<Rightarrow> plan_host \<Rightarrow> logical_plan \<Rightarrow> relation option" where
  "plan_sem h ph (Filter input e) = do { r \<leftarrow> plan_sem h ph input; sem_filter h e r }"
| "plan_sem h ph (CrossProduct left right) =
     do { l \<leftarrow> plan_sem h ph left; r \<leftarrow> plan_sem h ph right; Some (sem_cross l r) }"
| "plan_sem h ph (Project input cs) = do { r \<leftarrow> plan_sem h ph input; ph_project ph cs r }"
| "plan_sem h ph (Aggregation input gs as) = do { r \<leftarrow> plan_sem h ph input; ph_aggregate ph gs as r }"
| "plan_sem h ph (Sort input os) = do { r \<leftarrow> plan_sem h ph input; ph_sort ph os r }"
| "plan_sem h ph (Limit input n k) = do { r \<leftarrow> plan_sem h ph input; ph_limit ph n k r }"
| "plan_sem h ph (Join left right e jt ts) =
     do { l \<leftarrow> plan_sem h ph left; r \<leftarrow> plan_sem h ph right;
          ph_join ph jt ts (\<lambda>ctx row. eval_predicate h ctx row e) l r }"
| "plan_sem h ph (Union left right all) =
     do { l \<leftarrow> plan_sem h ph left; r \<leftarrow> plan_sem h ph right; ph_union ph all l r }"
| "plan_sem h ph leaf = ph_leaf ph leaf"

section \<open>Negation simplification keeps the relation\<close>

text \<open>The predicates of a plan that the pass rewrites.\<close>

fun plan_predicates :: "logical_plan \<Rightarrow> expr list" where
  "plan_predicates (Filter input e) = e # plan_predicates input"
| "plan_predicates (Join left right e _ _) = e # plan_predicates left @ plan_predicates right"
| "plan_predicates (Project input _) = plan_predicates input"
| "plan_predicates (Aggregation input _ _) = plan_predicates input"
| "plan_predicates (Sort input _) = plan_predicates input"
| "plan_predicates (Limit input _ _) = plan_predicates input"
| "plan_predicates (CrossProduct left right) = plan_predicates left @ plan_predicates right"
| "plan_predicates _ = []"

lemma simplify_plan_sem:
  "(\<And>e ctx row. e \<in> set (plan_predicates p) \<Longrightarrow> logical h ctx row e) \<Longrightarrow>
     plan_sem h ph (simplify_plan p) = plan_sem h ph p \<and> output_tables (simplify_plan p) = output_tables p"
proof (induction p rule: simplify_plan.induct)
  case (1 input e)
  then have "eval_predicate h ctx row (simplify_expr e) = eval_predicate h ctx row e" for ctx row
    using simplify_expr_correct [of h ctx row e] by (simp add: eval_predicate_def)
  then have "sem_filter h (simplify_expr e) = sem_filter h e"
    by (simp add: fun_eq_iff sem_filter_def)
  then show ?case using 1 by simp
next
  case (2 left right e jt ts)
  then have "eval_predicate h ctx row (simplify_expr e) = eval_predicate h ctx row e" for ctx row
    using simplify_expr_correct [of h ctx row e] by (simp add: eval_predicate_def)
  then show ?case using 2 by simp
qed simp_all

section \<open>Breaking conjunctions keeps the relation\<close>

lemma eval_predicate_true:
  "eval_predicate h ctx row e = map_option (\<lambda>v. v = Boolean True) (eval_expr h ctx row e)"
proof -
  have "(case z of Boolean b \<Rightarrow> b | _ \<Rightarrow> False) = (z = Boolean True)" for z
    by (cases z) auto
  then show ?thesis by (simp add: eval_predicate_def bind_Some_map)
qed

lemma eval_binary_and:
  "eval_binary_op h OpAnd x y = Some w \<Longrightarrow> (w = Boolean True) = (x = Boolean True \<and> y = Boolean True)"
  by (cases "value_is_null x"; cases "value_is_null y"; cases x; cases y)
    (auto simp: eval_binary_op_def split: if_splits)

lemma eval_and:
  assumes "eval_predicate h ctx row (BinaryOp a OpAnd b) = Some v"
  shows "\<exists>va vb. eval_predicate h ctx row a = Some va \<and> eval_predicate h ctx row b = Some vb \<and> v = (va \<and> vb)"
proof -
  obtain x y w where "eval_expr h ctx row a = Some x" "eval_expr h ctx row b = Some y"
      "eval_binary_op h OpAnd x y = Some w" "v = (w = Boolean True)"
    using assms by (auto simp: eval_predicate_true Option.bind_eq_Some_conv)
  then show ?thesis using eval_binary_and by (simp add: eval_predicate_true)
qed

lemma filter_m_and:
  assumes "\<And>row v. row \<in> set rows \<Longrightarrow> p row = Some v \<Longrightarrow> \<exists>va vb. a row = Some va \<and> b row = Some vb \<and> v = (va \<and> vb)"
    and "filter_m p rows = Some out"
  shows "\<exists>mid. filter_m b rows = Some mid \<and> filter_m a mid = Some out"
  using assms
proof (induction rows arbitrary: out)
  case (Cons row rows)
  obtain v out1 where v: "p row = Some v" "filter_m p rows = Some out1" "out = (if v then row # out1 else out1)"
    using Cons.prems(2) by (auto simp: Option.bind_eq_Some_conv)
  obtain va vb where ab: "a row = Some va" "b row = Some vb" "v = (va \<and> vb)"
    using Cons.prems(1) [of row v] v by auto
  obtain mid where "filter_m b rows = Some mid" "filter_m a mid = Some out1"
    using Cons.IH [OF Cons.prems(1) v(2)] by auto
  then show ?case using ab v by (cases vb) auto
qed simp

lemma sem_filter_and:
  assumes "sem_filter h (BinaryOp a OpAnd b) r = Some r'"
  shows "\<exists>m. sem_filter h b r = Some m \<and> sem_filter h a m = Some r'"
proof -
  let ?p = "\<lambda>e row. eval_predicate h (rel_context (rel_tables r) (rel_counts r)) row e"
  obtain rows where rows: "filter_m (?p (BinaryOp a OpAnd b)) (rel_rows r) = Some rows" "r' = r\<lparr>rel_rows := rows\<rparr>"
    using assms by (auto simp: sem_filter_def Option.bind_eq_Some_conv)
  obtain mid where "filter_m (?p b) (rel_rows r) = Some mid" "filter_m (?p a) mid = Some rows"
    using filter_m_and [OF _ rows(1), of "?p a" "?p b"] eval_and by blast
  then show ?thesis using rows(2) by (simp add: sem_filter_def)
qed

text \<open>The chain applies the predicates from the last to the first.\<close>

lemma create_filter_chain_foldr: "create_filter_chain input ps = foldr (\<lambda>e r. Filter r e) ps input"
  by (simp add: create_filter_chain_def foldr_conv_foldl)

lemma filter_chain_sem:
  "plan_sem h ph input = Some r \<Longrightarrow> sem_filter h e r = Some r' \<Longrightarrow>
     plan_sem h ph (create_filter_chain input (break_and_predicate e)) = Some r'"
proof (induction e arbitrary: input r r' rule: break_and_predicate.induct)
  case (1 left right)
  obtain m where m: "sem_filter h right r = Some m" "sem_filter h left m = Some r'"
    using sem_filter_and [OF 1(4)] by blast
  show ?case
    using 1(1) [OF 1(2) [OF 1(3) m(1)] m(2)] by (simp add: create_filter_chain_foldr)
qed (simp_all add: create_filter_chain_foldr)

lemma output_tables_chain: "output_tables (create_filter_chain input ps) = output_tables input"
  by (induction ps) (simp_all add: create_filter_chain_foldr)

lemma and_traverse_sem:
  "plan_sem h ph p = Some r \<Longrightarrow>
     plan_sem h ph (and_traverse p) = Some r \<and> output_tables (and_traverse p) = output_tables p"
proof (induction p arbitrary: r rule: and_traverse.induct)
  case (1 input e)
  obtain m where m: "plan_sem h ph input = Some m" "sem_filter h e m = Some r"
    using 1(2) by (auto simp: Option.bind_eq_Some_conv)
  then show ?case using 1(1) [OF m(1)] filter_chain_sem [of h ph "and_traverse input" m e r]
    by (simp add: output_tables_chain)
qed (auto simp: Option.bind_eq_Some_conv)

section \<open>Balancing cross products keeps the relation\<close>

lemma append_funs: "(@) (a @ b) = (\<lambda>c. a @ b @ c)" "(@) [] = (\<lambda>c. c)"
  by (rule ext, simp)+

lemma sem_cross_assoc: "sem_cross (sem_cross a b) c = sem_cross a (sem_cross b c)"
proof -
  have "concat (map (\<lambda>x. map (\<lambda>y. x @ y) zs) (concat (map (\<lambda>x. map (\<lambda>y. x @ y) ys) xs)))
      = concat (map (\<lambda>x. map (\<lambda>y. x @ y) (concat (map (\<lambda>x. map (\<lambda>y. x @ y) zs) ys))) xs)"
    for xs ys zs :: "value list list"
    by (induction xs) (simp_all add: map_concat comp_def append_funs)
  then show ?thesis by (simp add: sem_cross_def)
qed

lemma sem_cross_unit [simp]: "sem_cross sem_unit r = r" "sem_cross r sem_unit = r"
proof -
  have "concat (map (\<lambda>x. [x]) xs) = xs" for xs :: "value list list" by (induction xs) simp_all
  then show "sem_cross sem_unit r = r" "sem_cross r sem_unit = r"
    by (simp_all add: sem_cross_def sem_unit_def append_funs)
qed

definition cross_m :: "relation option \<Rightarrow> relation option \<Rightarrow> relation option" where
  "cross_m x y = do { l \<leftarrow> x; r \<leftarrow> y; Some (sem_cross l r) }"

definition cross_list :: "relation option list \<Rightarrow> relation option" where
  "cross_list xs = foldr cross_m xs (Some sem_unit)"

lemma cross_m_simps [simp]:
  "cross_m None y = None" "cross_m x None = None"
  "cross_m (Some sem_unit) y = y" "cross_m x (Some sem_unit) = x"
  by (cases x; cases y; simp add: cross_m_def)+

lemma cross_m_assoc: "cross_m (cross_m x y) z = cross_m x (cross_m y z)"
  by (cases x; cases y; cases z) (simp_all add: cross_m_def sem_cross_assoc)

lemma cross_list_simps [simp]:
  "cross_list [] = Some sem_unit" "cross_list (x # xs) = cross_m x (cross_list xs)"
  by (simp_all add: cross_list_def)

lemma cross_list_append: "cross_list (xs @ ys) = cross_m (cross_list xs) (cross_list ys)"
  by (induction xs) (simp_all add: cross_m_assoc)

lemma plan_sem_cross: "plan_sem h ph (CrossProduct l r) = cross_m (plan_sem h ph l) (plan_sem h ph r)"
  by (simp add: cross_m_def)

lemma cross_children_sem: "cross_list (map (plan_sem h ph) (collect_cross_product_children p)) = plan_sem h ph p"
  by (induction p rule: collect_cross_product_children.induct)
    (simp_all add: cross_list_append plan_sem_cross del: plan_sem.simps)

lemma pair_level_sem: "cross_list (map (plan_sem h ph) (pair_level ts)) = cross_list (map (plan_sem h ph) ts)"
  by (induction ts rule: pair_level.induct) (simp_all add: plan_sem_cross cross_m_assoc del: plan_sem.simps)

lemma build_levels_sem: "ts \<noteq> [] \<Longrightarrow> plan_sem h ph (build_levels ts) = cross_list (map (plan_sem h ph) ts)"
proof (induction ts rule: build_levels.induct)
  case (1 ts)
  show ?case
  proof (cases "1 < length ts")
    case True
    then have "pair_level ts \<noteq> []" by (auto simp: length_pair_level simp flip: length_greater_0_conv)
    then show ?thesis using True 1(1) by (simp add: build_levels.simps [of ts] pair_level_sem)
  next
    case False
    then obtain t where "ts = [t]" using 1(2) by (cases ts) auto
    then show ?thesis by (simp add: build_levels.simps)
  qed
qed

lemma children_nonempty: "collect_cross_product_children p \<noteq> []"
  by (induction p rule: collect_cross_product_children.induct) auto

lemma cross_traverse_sem: "plan_sem h ph (cross_traverse p) = plan_sem h ph p"
proof (induction p rule: cross_traverse.induct)
  case (1 left right)
  let ?ts = "collect_cross_product_children left @ collect_cross_product_children right"
  have sem: "plan_sem h ph (CrossProduct left right) = cross_list (map (plan_sem h ph) ?ts)"
    by (simp only: map_append cross_list_append cross_children_sem plan_sem_cross)
  have two: "2 \<le> length ?ts"
  proof -
    have "0 < length (collect_cross_product_children left)" "0 < length (collect_cross_product_children right)"
      using children_nonempty by simp_all
    then show ?thesis unfolding length_append by linarith
  qed
  show ?case
  proof (cases "2 < length ?ts")
    case True
    then have "map (plan_sem h ph) (map cross_traverse ?ts) = map (plan_sem h ph) ?ts"
      using 1(1) [OF refl True] by simp
    moreover have "map cross_traverse ?ts \<noteq> []" using two by auto
    ultimately show ?thesis
      using True build_levels_sem [of "map cross_traverse ?ts" h ph] unfolding sem
      by (simp only: cross_traverse.simps(1) Let_def if_True simp_thms)
  next
    case False
    then have "length ?ts = 2" using two by simp
    moreover have "\<exists>a b. ts = [a, b]" if "length ts = 2" for ts :: "logical_plan list"
      using that by (cases ts; cases "tl ts") auto
    ultimately obtain a b where ab: "?ts = [a, b]" by blast
    have "plan_sem h ph (cross_traverse a) = plan_sem h ph a" "plan_sem h ph (cross_traverse b) = plan_sem h ph b"
      using 1(3,4) [OF refl False ab] by simp_all
    then show ?thesis
      unfolding sem cross_traverse.simps(1) Let_def ab by (simp add: plan_sem_cross del: plan_sem.simps)
  qed
qed (simp_all)

text \<open>Two tables of one column each, for concrete runs.\<close>

definition sample_leaf :: "logical_plan \<Rightarrow> relation option" where
  "sample_leaf p =
     (case p of Scan t \<Rightarrow> Some \<lparr>rel_tables = [t], rel_counts = [1], rel_rows = [[Int32 1], [Int32 5]]\<rparr> | _ \<Rightarrow> None)"

definition sample_host :: plan_host where
  "sample_host =
     \<lparr>ph_leaf = sample_leaf, ph_project = \<lambda>_ _. None, ph_aggregate = \<lambda>_ _ _. None, ph_sort = \<lambda>_ _. None,
      ph_limit = \<lambda>_ _ _. None, ph_join = \<lambda>_ _ _ _ _. None, ph_union = \<lambda>_ _ _. None\<rparr>"

definition sample_column :: "string \<Rightarrow> expr" where
  "sample_column t = Column \<lparr>cr_table = t, cr_column = ''x'', cr_index = 0\<rparr>"

definition sample_plan :: logical_plan where
  "sample_plan =
     Filter (CrossProduct (Scan ''a'') (Scan ''b''))
       (UnaryOp OpNot (BinaryOp (BinaryOp (sample_column ''a'') OpLt (Literal (Int32 3)))
          OpOr (BinaryOp (sample_column ''b'') OpEq (Literal (Int32 1)))))"

definition sample_result :: relation where
  "sample_result = \<lparr>rel_tables = [''a'', ''b''], rel_counts = [1, 1], rel_rows = [[Int32 5, Int32 5]]\<rparr>"

lemma sample_plan_sem: "plan_sem h sample_host sample_plan = Some sample_result"
  by (simp add: sample_plan_def sample_host_def sample_leaf_def sample_column_def sample_result_def sem_cross_def
      sem_filter_def rel_context_def eval_predicate_def eval_binary_op_def resolve_column_index_def ord_cmp_def)

lemma sample_plan_logical: "e \<in> set (plan_predicates sample_plan) \<Longrightarrow> logical h ctx row e"
  by (auto simp: sample_plan_def sample_column_def yields_logical_def eval_binary_op_def Let_def split: option.split)

section \<open>Properties\<close>



text \<open>
  Breaking conjunctions needs no typing: whatever the predicates are, a plan that yields a relation
  yields the same one afterwards and shows the same tables; no conjunction is left at the top of a
  predicate that the pass produced.
\<close>

theorem and_predicate_keeps_result:
  assumes "plan_sem h ph p = Some r"
  shows "plan_sem h ph (and_traverse p) = Some r \<and> output_tables (and_traverse p) = output_tables p
    \<and> (\<forall>a b. BinaryOp a OpAnd b \<notin> set (break_and_predicate e))"
proof -
  have "BinaryOp a OpAnd b \<notin> set (break_and_predicate e)" for a b
    by (induction e rule: break_and_predicate.induct) auto
  then show ?thesis using and_traverse_sem [OF assms] by simp
qed

theorem and_predicate_keeps_result_witness:
  "\<forall>h. plan_sem h sample_host (and_traverse sample_plan) = Some sample_result"
  using and_predicate_keeps_result [OF sample_plan_sem] by blast

text \<open>
  Balancing cross products keeps the relation of every plan, and the relation of a product is the same
  however it is nested.
\<close>

theorem cross_product_keeps_result:
  "plan_sem h ph (cross_traverse p) = plan_sem h ph p
   \<and> plan_sem h ph (CrossProduct (CrossProduct a b) c) = plan_sem h ph (CrossProduct a (CrossProduct b c))"
  by (simp only: cross_traverse_sem plan_sem_cross cross_m_assoc simp_thms)

end
