(* ===== verification/Cynos_Compiled_Predicate.thy ===== *)
theory Cynos_Compiled_Predicate
  imports Cynos_Expr
begin

text \<open>
  The compiled predicates of single-table filters (\<open>crates/query/src/executor/runner.rs\<close>): a predicate is
  translated once into a tree of kernels specialised to the types of its literals, which is then run on every
  row. The result is compared with the interpreter of expressions. A path of a JSON predicate is kept as its
  text; whether \<open>SimpleJsonPath\<close> accepts it and what a JSON kernel answers are parameters.
\<close>

section \<open>Kernels\<close>

datatype comparison_op = CmpEq | CmpNe | CmpLt | CmpLe | CmpGt | CmpGe

datatype numeric_literal = NumInt32 i32 | NumInt64 i64 | NumFloat64 f64

datatype simple_predicate_kernel =
    SkGeneric
  | SkNumeric comparison_op numeric_literal
  | SkBoolean comparison_op bool
  | SkString comparison_op string
  | SkDateTime comparison_op i64
  | SkBytes comparison_op bytes
  | SkJsonb comparison_op bytes

record simple_binary_predicate =
  sbp_column_index :: nat
  sbp_op :: binary_op
  sbp_literal :: "value"
  sbp_column_on_left :: bool
  sbp_kernel :: simple_predicate_kernel

datatype between_kernel =
    BkGeneric "value" "value"
  | BkNumeric numeric_literal numeric_literal
  | BkBoolean bool bool
  | BkString string string
  | BkDateTime i64 i64
  | BkBytes bytes bytes
  | BkJsonb bytes bytes

datatype in_list_kernel =
    IkEmpty
  | IkNullOnly
  | IkNumeric "i32 list" "i64 list" "f64 list" bool
  | IkBoolean "bool list" bool
  | IkString "string list" bool
  | IkDateTime "i64 list" bool
  | IkBytes "bytes list" bool
  | IkJsonb "bytes list" bool
  | IkGeneric "value list"

datatype in_list_family = FamNumeric | FamBoolean | FamString | FamDateTime | FamBytes | FamJsonb

datatype like_kernel =
    LkExact string
  | LkPrefix string
  | LkSuffix string
  | LkContains string
  | LkGeneric string

datatype json_predicate_kind = JpEq "value" | JpContains "value" | JpExists

datatype predicate_state = PsNull | PsBoolean bool | PsOther

datatype compiled_predicate =
    CpLiteral predicate_state
  | CpComparison simple_binary_predicate
  | CpJson nat string json_predicate_kind
  | CpAnd "compiled_predicate list"
  | CpOr "compiled_predicate list"
  | CpNot compiled_predicate
  | CpIsNull nat
  | CpIsNotNull nat
  | CpBetween nat between_kernel bool
  | CpInList nat in_list_kernel bool
  | CpLike nat like_kernel bool
  | CpMatch nat string bool
  | CpGeneric expr

record json_host =
  jh_path_ok :: "string \<Rightarrow> bool"
  jh_matches :: "bytes \<Rightarrow> string \<Rightarrow> json_predicate_kind \<Rightarrow> bool"

section \<open>Compilation\<close>

fun numeric_literal_from_value_ref :: "value \<Rightarrow> numeric_literal option" where
  "numeric_literal_from_value_ref (Int32 v) = Some (NumInt32 v)"
| "numeric_literal_from_value_ref (Int64 v) = Some (NumInt64 v)"
| "numeric_literal_from_value_ref (Float64 v) = Some (NumFloat64 v)"
| "numeric_literal_from_value_ref _ = None"

fun flip_comparison :: "binary_op \<Rightarrow> binary_op option" where
  "flip_comparison OpEq = Some OpEq"
| "flip_comparison OpNe = Some OpNe"
| "flip_comparison OpLt = Some OpGt"
| "flip_comparison OpLe = Some OpGe"
| "flip_comparison OpGt = Some OpLt"
| "flip_comparison OpGe = Some OpLe"
| "flip_comparison _ = None"

fun as_comparison :: "binary_op \<Rightarrow> comparison_op option" where
  "as_comparison OpEq = Some CmpEq"
| "as_comparison OpNe = Some CmpNe"
| "as_comparison OpLt = Some CmpLt"
| "as_comparison OpLe = Some CmpLe"
| "as_comparison OpGt = Some CmpGt"
| "as_comparison OpGe = Some CmpGe"
| "as_comparison _ = None"

definition normalize_comparison_op :: "binary_op \<Rightarrow> bool \<Rightarrow> comparison_op option" where
  "normalize_comparison_op op column_on_left =
     (if column_on_left then as_comparison op
      else case flip_comparison op of None \<Rightarrow> None | Some normalized \<Rightarrow> as_comparison normalized)"

fun literal_kernel :: "comparison_op \<Rightarrow> value \<Rightarrow> simple_predicate_kernel" where
  "literal_kernel op (Int32 v) = SkNumeric op (NumInt32 v)"
| "literal_kernel op (Int64 v) = SkNumeric op (NumInt64 v)"
| "literal_kernel op (Float64 v) = SkNumeric op (NumFloat64 v)"
| "literal_kernel op (Boolean v) = SkBoolean op v"
| "literal_kernel op (Str v) = SkString op v"
| "literal_kernel op (DateTime v) = SkDateTime op v"
| "literal_kernel op (Bytes v) = SkBytes op v"
| "literal_kernel op (Jsonb v) = SkJsonb op v"
| "literal_kernel op Null = SkGeneric"

definition simple_predicate_kernel_of :: "binary_op \<Rightarrow> value \<Rightarrow> bool \<Rightarrow> simple_predicate_kernel" where
  "simple_predicate_kernel_of op literal column_on_left =
     (case normalize_comparison_op op column_on_left of
        None \<Rightarrow> SkGeneric
      | Some cop \<Rightarrow> literal_kernel cop literal)"

definition make_simple :: "nat \<Rightarrow> binary_op \<Rightarrow> value \<Rightarrow> bool \<Rightarrow> simple_binary_predicate" where
  "make_simple i op literal column_on_left =
     \<lparr>sbp_column_index = i, sbp_op = op, sbp_literal = literal, sbp_column_on_left = column_on_left,
      sbp_kernel = simple_predicate_kernel_of op literal column_on_left\<rparr>"

fun simple_binary_predicate_of :: "expr \<Rightarrow> simple_binary_predicate option" where
  "simple_binary_predicate_of (BinaryOp (Column c) op (Literal literal)) = Some (make_simple (cr_index c) op literal True)"
| "simple_binary_predicate_of (BinaryOp (Literal literal) op (Column c)) = Some (make_simple (cr_index c) op literal False)"
| "simple_binary_predicate_of _ = None"

definition compile_between_kernel :: "value \<Rightarrow> value \<Rightarrow> between_kernel" where
  "compile_between_kernel low high =
     (case (numeric_literal_from_value_ref low, numeric_literal_from_value_ref high) of
        (Some l, Some h) \<Rightarrow> BkNumeric l h
      | _ \<Rightarrow>
        (case (low, high) of
           (Boolean l, Boolean h) \<Rightarrow> BkBoolean l h
         | (Str l, Str h) \<Rightarrow> BkString l h
         | (DateTime l, DateTime h) \<Rightarrow> BkDateTime l h
         | (Bytes l, Bytes h) \<Rightarrow> BkBytes l h
         | (Jsonb l, Jsonb h) \<Rightarrow> BkJsonb l h
         | _ \<Rightarrow> BkGeneric low high))"

fun literal_family :: "value \<Rightarrow> in_list_family option" where
  "literal_family Null = None"
| "literal_family (Int32 _) = Some FamNumeric"
| "literal_family (Int64 _) = Some FamNumeric"
| "literal_family (Float64 _) = Some FamNumeric"
| "literal_family (Boolean _) = Some FamBoolean"
| "literal_family (Str _) = Some FamString"
| "literal_family (DateTime _) = Some FamDateTime"
| "literal_family (Bytes _) = Some FamBytes"
| "literal_family (Jsonb _) = Some FamJsonb"

text \<open>The scan over the literals: \<open>None\<close> when two families meet.\<close>

fun scan_families :: "in_list_family option \<Rightarrow> bool \<Rightarrow> value list \<Rightarrow> (in_list_family option \<times> bool) option" where
  "scan_families family contains_null [] = Some (family, contains_null)"
| "scan_families family contains_null (literal # literals) =
     (case literal_family literal of
        None \<Rightarrow> scan_families family True literals
      | Some next_family \<Rightarrow>
          (case family of
             Some current \<Rightarrow>
               if current \<noteq> next_family then None else scan_families family contains_null literals
           | None \<Rightarrow> scan_families (Some next_family) contains_null literals))"

definition filter_literals :: "(value \<Rightarrow> 'a option) \<Rightarrow> value list \<Rightarrow> 'a list" where
  "filter_literals f literals = List.map_filter f literals"

fun value_as_jsonb_bytes :: "value \<Rightarrow> bytes option" where
  "value_as_jsonb_bytes (Jsonb v) = Some v"
| "value_as_jsonb_bytes _ = None"

definition compile_in_list_kernel :: "value list \<Rightarrow> in_list_kernel" where
  "compile_in_list_kernel literals =
     (if literals = [] then IkEmpty
      else case scan_families None False literals of
        None \<Rightarrow> IkGeneric literals
      | Some (family, contains_null) \<Rightarrow>
          (case family of
             None \<Rightarrow> IkNullOnly
           | Some FamNumeric \<Rightarrow>
               IkNumeric (filter_literals value_as_i32 literals) (filter_literals value_as_i64 literals)
                 (filter_literals value_as_f64 literals) contains_null
           | Some FamBoolean \<Rightarrow> IkBoolean (filter_literals value_as_bool literals) contains_null
           | Some FamString \<Rightarrow> IkString (filter_literals value_as_str literals) contains_null
           | Some FamDateTime \<Rightarrow> IkDateTime (filter_literals value_as_datetime literals) contains_null
           | Some FamBytes \<Rightarrow> IkBytes (filter_literals value_as_bytes literals) contains_null
           | Some FamJsonb \<Rightarrow> IkJsonb (filter_literals value_as_jsonb_bytes literals) contains_null))"

fun collect_logical_terms :: "binary_op \<Rightarrow> expr \<Rightarrow> expr list" where
  "collect_logical_terms op (BinaryOp left inner_op right) =
     (if inner_op = op then collect_logical_terms op left @ collect_logical_terms op right
      else [BinaryOp left inner_op right])"
| "collect_logical_terms op e = [e]"

text \<open>The loop over the terms of an \<open>OR\<close>: a column and the distinct literals compared with it.\<close>

fun equality_chain_loop :: "nat option \<Rightarrow> value list \<Rightarrow> expr list \<Rightarrow> (nat option \<times> value list) option" where
  "equality_chain_loop column_index literals [] = Some (column_index, literals)"
| "equality_chain_loop column_index literals (term # terms) =
     (case simple_binary_predicate_of term of
        None \<Rightarrow> None
      | Some p \<Rightarrow>
          (case normalize_comparison_op (sbp_op p) (sbp_column_on_left p) of
             None \<Rightarrow> None
           | Some cop \<Rightarrow>
               if cop \<noteq> CmpEq then None
               else if value_is_null (sbp_literal p) then None
               else if column_index \<noteq> None \<and> column_index \<noteq> Some (sbp_column_index p) then None
               else equality_chain_loop (Some (sbp_column_index p))
                 (if list_ex (\<lambda>existing. value_eq existing (sbp_literal p)) literals then literals
                  else literals @ [sbp_literal p]) terms))"

definition or_equality_chain :: "expr \<Rightarrow> (nat \<times> value list) option" where
  "or_equality_chain predicate =
     (let terms = collect_logical_terms OpOr predicate in
      if length terms < 2 then None
      else case equality_chain_loop None [] terms of
        Some (Some i, literals) \<Rightarrow> Some (i, literals)
      | _ \<Rightarrow> None)"

definition compile_or_equality_chain :: "expr \<Rightarrow> compiled_predicate option" where
  "compile_or_equality_chain predicate =
     map_option (\<lambda>(i, literals). CpInList i (compile_in_list_kernel literals) False) (or_equality_chain predicate)"

text \<open>The byte \<open>%\<close> cannot be part of another character, so slicing next to it is slicing bytes.\<close>

definition compile_like_pattern :: "string \<Rightarrow> like_kernel" where
  "compile_like_pattern pattern =
     (if CHR ''_'' \<in> set pattern then LkGeneric pattern
      else let percent_count = length (filter (\<lambda>c. c = CHR ''%'') pattern);
               starts = (pattern \<noteq> [] \<and> hd pattern = CHR ''%'');
               ends = (pattern \<noteq> [] \<and> last pattern = CHR ''%'')
           in if percent_count = 0 then LkExact pattern
              else if percent_count = 1 \<and> ends then LkPrefix (butlast pattern)
              else if percent_count = 1 \<and> starts then LkSuffix (tl pattern)
              else if percent_count = 2 \<and> starts \<and> ends then LkContains (butlast (tl pattern))
              else LkGeneric pattern)"

fun literal_values :: "expr list \<Rightarrow> value list option" where
  "literal_values [] = Some []"
| "literal_values (Literal v # items) = map_option (Cons v) (literal_values items)"
| "literal_values (_ # items) = None"

definition compile_row_in_list :: "expr \<Rightarrow> expr \<Rightarrow> expr list \<Rightarrow> bool \<Rightarrow> compiled_predicate" where
  "compile_row_in_list predicate e items negated =
     (case e of
        Column c \<Rightarrow>
          (case literal_values items of
             Some literals \<Rightarrow> CpInList (cr_index c) (compile_in_list_kernel literals) negated
           | None \<Rightarrow> CpGeneric predicate)
      | _ \<Rightarrow> CpGeneric predicate)"

definition ascii_upper :: "char \<Rightarrow> char" where
  "ascii_upper c = (if 97 \<le> (of_char c :: nat) \<and> (of_char c :: nat) \<le> 122 then char_of ((of_char c :: nat) - 32) else c)"

definition compile_json_row_predicate :: "json_host \<Rightarrow> string \<Rightarrow> expr list \<Rightarrow> compiled_predicate option" where
  "compile_json_row_predicate jh name args =
     (let func = map ascii_upper name in
      if func = ''JSONB_PATH_EQ'' then
        (case args of
           Column c # Literal (Str path) # Literal expected # _ \<Rightarrow>
             if jh_path_ok jh path then Some (CpJson (cr_index c) path (JpEq expected)) else None
         | _ \<Rightarrow> None)
      else if func = ''JSONB_CONTAINS'' then
        (case args of
           Column c # Literal (Str path) # Literal expected # _ \<Rightarrow>
             if jh_path_ok jh path then Some (CpJson (cr_index c) path (JpContains expected)) else None
         | _ \<Rightarrow> None)
      else if func = ''JSONB_EXISTS'' then
        (case args of
           Column c # Literal (Str path) # _ \<Rightarrow>
             if jh_path_ok jh path then Some (CpJson (cr_index c) path JpExists) else None
         | _ \<Rightarrow> None)
      else None)"

fun state_from_value :: "value \<Rightarrow> predicate_state" where
  "state_from_value Null = PsNull"
| "state_from_value (Boolean b) = PsBoolean b"
| "state_from_value _ = PsOther"

fun column_index_of :: "expr \<Rightarrow> nat option" where
  "column_index_of (Column c) = Some (cr_index c)"
| "column_index_of _ = None"

definition compile_between :: "expr \<Rightarrow> expr \<Rightarrow> expr \<Rightarrow> expr \<Rightarrow> bool \<Rightarrow> compiled_predicate" where
  "compile_between predicate e low high negated =
     (case (e, low, high) of
        (Column c, Literal l, Literal h) \<Rightarrow> CpBetween (cr_index c) (compile_between_kernel l h) negated
      | _ \<Rightarrow> CpGeneric predicate)"

function compile_row_predicate :: "json_host \<Rightarrow> expr \<Rightarrow> compiled_predicate"
  and push_compiled_logical_terms :: "json_host \<Rightarrow> binary_op \<Rightarrow> expr \<Rightarrow> compiled_predicate list" where
  "compile_row_predicate jh (BinaryOp left op right) =
     (if op = OpAnd then
        CpAnd (push_compiled_logical_terms jh OpAnd left @ push_compiled_logical_terms jh OpAnd right)
      else if op = OpOr then
        (case compile_or_equality_chain (BinaryOp left OpOr right) of
           Some compiled \<Rightarrow> compiled
         | None \<Rightarrow>
             CpOr (push_compiled_logical_terms jh OpOr left @ push_compiled_logical_terms jh OpOr right))
      else case simple_binary_predicate_of (BinaryOp left op right) of
        Some p \<Rightarrow> CpComparison p
      | None \<Rightarrow> CpGeneric (BinaryOp left op right))"
| "compile_row_predicate jh (UnaryOp op e) =
     (case op of
        OpNot \<Rightarrow> CpNot (compile_row_predicate jh e)
      | OpIsNull \<Rightarrow>
          (case column_index_of e of Some i \<Rightarrow> CpIsNull i | None \<Rightarrow> CpGeneric (UnaryOp op e))
      | OpIsNotNull \<Rightarrow>
          (case column_index_of e of Some i \<Rightarrow> CpIsNotNull i | None \<Rightarrow> CpGeneric (UnaryOp op e))
      | OpNeg \<Rightarrow> CpGeneric (UnaryOp op e))"
| "compile_row_predicate jh (Between e low high) = compile_between (Between e low high) e low high False"
| "compile_row_predicate jh (NotBetween e low high) = compile_between (NotBetween e low high) e low high True"
| "compile_row_predicate jh (InList e items) = compile_row_in_list (InList e items) e items False"
| "compile_row_predicate jh (NotInList e items) = compile_row_in_list (NotInList e items) e items True"
| "compile_row_predicate jh (Like e pattern) =
     (case column_index_of e of
        Some i \<Rightarrow> CpLike i (compile_like_pattern pattern) False
      | None \<Rightarrow> CpGeneric (Like e pattern))"
| "compile_row_predicate jh (NotLike e pattern) =
     (case column_index_of e of
        Some i \<Rightarrow> CpLike i (compile_like_pattern pattern) True
      | None \<Rightarrow> CpGeneric (NotLike e pattern))"
| "compile_row_predicate jh (Match e pattern) =
     (case column_index_of e of Some i \<Rightarrow> CpMatch i pattern False | None \<Rightarrow> CpGeneric (Match e pattern))"
| "compile_row_predicate jh (NotMatch e pattern) =
     (case column_index_of e of Some i \<Rightarrow> CpMatch i pattern True | None \<Rightarrow> CpGeneric (NotMatch e pattern))"
| "compile_row_predicate jh (Function name args) =
     (case compile_json_row_predicate jh name args of
        Some compiled \<Rightarrow> compiled
      | None \<Rightarrow> CpGeneric (Function name args))"
| "compile_row_predicate jh (Literal v) = CpLiteral (state_from_value v)"
| "compile_row_predicate jh (Column c) = CpGeneric (Column c)"
| "compile_row_predicate jh (Aggregate f e d) = CpGeneric (Aggregate f e d)"
| "push_compiled_logical_terms jh op e =
     (case e of
        BinaryOp left inner_op right \<Rightarrow>
          (if inner_op = op
           then push_compiled_logical_terms jh op left @ push_compiled_logical_terms jh op right
           else [compile_row_predicate jh e])
      | _ \<Rightarrow> [compile_row_predicate jh e])"
  by pat_completeness auto
termination compile_row_predicate
  by (relation "measure (\<lambda>x. case x of Inl (jh, e) \<Rightarrow> 2 * size e | Inr (jh, op, e) \<Rightarrow> Suc (2 * size e))") auto

declare push_compiled_logical_terms.simps [simp del]

section \<open>Evaluation\<close>

fun eval_comparison_op :: "comparison_op \<Rightarrow> ordering \<Rightarrow> bool" where
  "eval_comparison_op CmpEq c \<longleftrightarrow> c = Equal"
| "eval_comparison_op CmpNe c \<longleftrightarrow> c \<noteq> Equal"
| "eval_comparison_op CmpLt c \<longleftrightarrow> c = Less"
| "eval_comparison_op CmpLe c \<longleftrightarrow> c \<noteq> Greater"
| "eval_comparison_op CmpGt c \<longleftrightarrow> c = Greater"
| "eval_comparison_op CmpGe c \<longleftrightarrow> c \<noteq> Less"

definition compare_f64 :: "f64 \<Rightarrow> f64 \<Rightarrow> ordering" where
  "compare_f64 left right =
     (case (f64_is_nan left, f64_is_nan right) of
        (True, True) \<Rightarrow> Equal
      | (True, False) \<Rightarrow> Greater
      | (False, True) \<Rightarrow> Less
      | (False, False) \<Rightarrow> unwrap_or_equal (f64_partial_cmp left right))"

definition compare_int_f64 :: "f64 \<Rightarrow> f64 \<Rightarrow> ordering" where
  "compare_int_f64 v literal =
     (if f64_is_nan literal then Less else unwrap_or_equal (f64_partial_cmp v literal))"

fun compare_numeric_value :: "value \<Rightarrow> numeric_literal \<Rightarrow> ordering option" where
  "compare_numeric_value (Int32 v) (NumInt32 literal) = Some (ord_cmp (sint v) (sint literal))"
| "compare_numeric_value (Int32 v) (NumInt64 literal) = Some (ord_cmp (sint (scast v :: i64)) (sint literal))"
| "compare_numeric_value (Int32 v) (NumFloat64 literal) = Some (compare_int_f64 (i32_as_f64 v) literal)"
| "compare_numeric_value (Int64 v) (NumInt32 literal) = Some (ord_cmp (sint v) (sint (scast literal :: i64)))"
| "compare_numeric_value (Int64 v) (NumInt64 literal) = Some (ord_cmp (sint v) (sint literal))"
| "compare_numeric_value (Int64 v) (NumFloat64 literal) = Some (compare_int_f64 (i64_as_f64 v) literal)"
| "compare_numeric_value (Float64 v) (NumInt32 literal) = Some (compare_f64 v (i32_as_f64 literal))"
| "compare_numeric_value (Float64 v) (NumInt64 literal) = Some (compare_f64 v (i64_as_f64 literal))"
| "compare_numeric_value (Float64 v) (NumFloat64 literal) = Some (compare_f64 v literal)"
| "compare_numeric_value _ _ = None"

fun eval_binary_op_bool :: "eval_host \<Rightarrow> binary_op \<Rightarrow> value \<Rightarrow> value \<Rightarrow> bool option" where
  "eval_binary_op_bool h OpEq left right = Some (sql_eq left right)"
| "eval_binary_op_bool h OpNe left right = Some (\<not> sql_eq left right)"
| "eval_binary_op_bool h OpLt left right = Some (value_cmp left right = Less)"
| "eval_binary_op_bool h OpLe left right = Some (value_cmp left right \<noteq> Greater)"
| "eval_binary_op_bool h OpGt left right = Some (value_cmp left right = Greater)"
| "eval_binary_op_bool h OpGe left right = Some (value_cmp left right \<noteq> Less)"
| "eval_binary_op_bool h OpAnd left right = Some (left = Boolean True \<and> right = Boolean True)"
| "eval_binary_op_bool h OpOr left right = Some (left = Boolean True \<or> right = Boolean True)"
| "eval_binary_op_bool h op left right = do { v \<leftarrow> eval_binary_op h op left right; Some (v = Boolean True) }"

text \<open>The kernel's answer, where it applies to the type of the value.\<close>

fun kernel_answer :: "simple_predicate_kernel \<Rightarrow> value \<Rightarrow> bool option" where
  "kernel_answer (SkNumeric op literal) v = map_option (eval_comparison_op op) (compare_numeric_value v literal)"
| "kernel_answer (SkBoolean op literal) (Boolean v) = Some (eval_comparison_op op (ord_cmp v literal))"
| "kernel_answer (SkString op literal) (Str v) = Some (eval_comparison_op op (ord_cmp v literal))"
| "kernel_answer (SkDateTime op literal) (DateTime v) = Some (eval_comparison_op op (ord_cmp (sint v) (sint literal)))"
| "kernel_answer (SkBytes op literal) (Bytes v) = Some (eval_comparison_op op (ord_cmp v literal))"
| "kernel_answer (SkJsonb op literal) (Jsonb v) = Some (eval_comparison_op op (ord_cmp v literal))"
| "kernel_answer _ _ = None"

definition eval_row_comparison :: "eval_host \<Rightarrow> value \<Rightarrow> simple_binary_predicate \<Rightarrow> predicate_state option" where
  "eval_row_comparison h v p =
     (if value_is_null v \<or> value_is_null (sbp_literal p) then Some PsNull
      else case kernel_answer (sbp_kernel p) v of
        Some b \<Rightarrow> Some (PsBoolean b)
      | None \<Rightarrow>
          map_option PsBoolean
            (if sbp_column_on_left p then eval_binary_op_bool h (sbp_op p) v (sbp_literal p)
             else eval_binary_op_bool h (sbp_op p) (sbp_literal p) v))"

definition eval_simple_binary_predicate_value :: "eval_host \<Rightarrow> value \<Rightarrow> simple_binary_predicate \<Rightarrow> bool option" where
  "eval_simple_binary_predicate_value h v p =
     (if value_is_null v \<or> value_is_null (sbp_literal p) then Some False
      else case kernel_answer (sbp_kernel p) v of
        Some b \<Rightarrow> Some b
      | None \<Rightarrow>
          if sbp_column_on_left p then eval_binary_op_bool h (sbp_op p) v (sbp_literal p)
          else eval_binary_op_bool h (sbp_op p) (sbp_literal p) v)"

fun eval_between_value :: "value \<Rightarrow> between_kernel \<Rightarrow> bool" where
  "eval_between_value v (BkGeneric low high) \<longleftrightarrow> value_cmp v low \<noteq> Less \<and> value_cmp v high \<noteq> Greater"
| "eval_between_value v (BkNumeric low high) =
     (case compare_numeric_value v low of
        None \<Rightarrow> False
      | Some low_ordering \<Rightarrow>
          if low_ordering = Less then False
          else case compare_numeric_value v high of
            None \<Rightarrow> False
          | Some high_ordering \<Rightarrow> high_ordering \<noteq> Greater)"
| "eval_between_value v (BkBoolean low high) = (case v of Boolean b \<Rightarrow> b \<ge> low \<and> b \<le> high | _ \<Rightarrow> False)"
| "eval_between_value v (BkString low high) = (case v of Str s \<Rightarrow> s \<ge> low \<and> s \<le> high | _ \<Rightarrow> False)"
| "eval_between_value v (BkDateTime low high) =
     (case v of DateTime d \<Rightarrow> sint d \<ge> sint low \<and> sint d \<le> sint high | _ \<Rightarrow> False)"
| "eval_between_value v (BkBytes low high) = (case v of Bytes b \<Rightarrow> b \<ge> low \<and> b \<le> high | _ \<Rightarrow> False)"
| "eval_between_value v (BkJsonb low high) = (case v of Jsonb b \<Rightarrow> b \<ge> low \<and> b \<le> high | _ \<Rightarrow> False)"

definition float_literal_eq :: "f64 \<Rightarrow> f64 \<Rightarrow> bool" where
  "float_literal_eq v literal = (if f64_is_nan v \<and> f64_is_nan literal then True else f64_eq v literal)"

fun eval_in_list_value :: "value \<Rightarrow> in_list_kernel \<Rightarrow> bool" where
  "eval_in_list_value v IkEmpty = False"
| "eval_in_list_value v IkNullOnly = value_is_null v"
| "eval_in_list_value v (IkNumeric i32s i64s f64s contains_null) =
     (case v of
        Null \<Rightarrow> contains_null
      | Int32 x \<Rightarrow> x \<in> set i32s
      | Int64 x \<Rightarrow> x \<in> set i64s
      | Float64 x \<Rightarrow> list_ex (\<lambda>literal. float_literal_eq x literal) f64s
      | _ \<Rightarrow> False)"
| "eval_in_list_value v (IkBoolean literals contains_null) =
     (case v of Null \<Rightarrow> contains_null | Boolean x \<Rightarrow> x \<in> set literals | _ \<Rightarrow> False)"
| "eval_in_list_value v (IkString literals contains_null) =
     (case v of Null \<Rightarrow> contains_null | Str x \<Rightarrow> x \<in> set literals | _ \<Rightarrow> False)"
| "eval_in_list_value v (IkDateTime literals contains_null) =
     (case v of Null \<Rightarrow> contains_null | DateTime x \<Rightarrow> x \<in> set literals | _ \<Rightarrow> False)"
| "eval_in_list_value v (IkBytes literals contains_null) =
     (case v of Null \<Rightarrow> contains_null | Bytes x \<Rightarrow> x \<in> set literals | _ \<Rightarrow> False)"
| "eval_in_list_value v (IkJsonb literals contains_null) =
     (case v of Null \<Rightarrow> contains_null | Jsonb x \<Rightarrow> x \<in> set literals | _ \<Rightarrow> False)"
| "eval_in_list_value v (IkGeneric literals) = list_ex (\<lambda>literal. value_eq v literal) literals"

text \<open>\<open>starts_with\<close>, \<open>ends_with\<close> and \<open>contains\<close> of strings.\<close>

definition str_starts_with :: "string \<Rightarrow> string \<Rightarrow> bool" where
  "str_starts_with s p \<longleftrightarrow> take (length p) s = p"

definition str_ends_with :: "string \<Rightarrow> string \<Rightarrow> bool" where
  "str_ends_with s p \<longleftrightarrow> length p \<le> length s \<and> drop (length s - length p) s = p"

definition str_contains :: "string \<Rightarrow> string \<Rightarrow> bool" where
  "str_contains s p \<longleftrightarrow> list_ex (\<lambda>i. str_starts_with (drop i s) p) [0..<Suc (length s)]"

fun eval_like_kernel :: "string \<Rightarrow> like_kernel \<Rightarrow> bool" where
  "eval_like_kernel s (LkExact pattern) \<longleftrightarrow> s = pattern"
| "eval_like_kernel s (LkPrefix pattern) \<longleftrightarrow> str_starts_with s pattern"
| "eval_like_kernel s (LkSuffix pattern) \<longleftrightarrow> str_ends_with s pattern"
| "eval_like_kernel s (LkContains pattern) \<longleftrightarrow> str_contains s pattern"
| "eval_like_kernel s (LkGeneric pattern) \<longleftrightarrow> match_like_pattern s pattern"

definition combine_predicate_states :: "binary_op \<Rightarrow> predicate_state \<Rightarrow> predicate_state \<Rightarrow> predicate_state" where
  "combine_predicate_states op left right =
     (if left = PsNull \<or> right = PsNull then
        (case op of
           OpAnd \<Rightarrow> if left = PsBoolean False \<or> right = PsBoolean False then PsBoolean False else PsNull
         | OpOr \<Rightarrow> if left = PsBoolean True \<or> right = PsBoolean True then PsBoolean True else PsNull
         | _ \<Rightarrow> PsNull)
      else
        (let left_true = (left = PsBoolean True); right_true = (right = PsBoolean True) in
         PsBoolean (case op of OpAnd \<Rightarrow> left_true \<and> right_true | OpOr \<Rightarrow> left_true \<or> right_true | _ \<Rightarrow> False)))"

text \<open>The loops of \<open>And\<close> and \<open>Or\<close>: fold the states, stop at the absorbing one.\<close>

fun logic_loop ::
  "binary_op \<Rightarrow> bool \<Rightarrow> ('p \<Rightarrow> predicate_state option) \<Rightarrow> predicate_state \<Rightarrow> 'p list \<Rightarrow> predicate_state option" where
  "logic_loop op absorbing f state [] = Some state"
| "logic_loop op absorbing f state (p # ps) = do {
     s \<leftarrow> f p;
     let state = combine_predicate_states op state s in
       if state = PsBoolean absorbing then Some state else logic_loop op absorbing f state ps }"

lemma logic_loop_cong [fundef_cong]:
  assumes "op = op'" "ab = ab'" "st = st'" "ps = qs" "\<And>p. p \<in> set qs \<Longrightarrow> f p = g p"
  shows "logic_loop op ab f st ps = logic_loop op' ab' g st' qs"
proof -
  have "logic_loop op ab f st qs = logic_loop op ab g st qs" using assms(5)
  proof (induction qs arbitrary: st)
    case (Cons q qs)
    then show ?case by (cases "g q") (auto simp: Let_def)
  qed simp
  then show ?thesis using assms by simp
qed

definition row_value :: "value list \<Rightarrow> nat \<Rightarrow> value" where
  "row_value row i = (if i < length row then row ! i else Null)"

definition negate_if :: "bool \<Rightarrow> bool \<Rightarrow> bool" where
  "negate_if negated b = (if negated then \<not> b else b)"

fun eval_compiled :: "eval_host \<Rightarrow> json_host \<Rightarrow> value list \<Rightarrow> compiled_predicate \<Rightarrow> predicate_state option" where
  "eval_compiled h jh row (CpLiteral state) = Some state"
| "eval_compiled h jh row (CpComparison p) = eval_row_comparison h (row_value row (sbp_column_index p)) p"
| "eval_compiled h jh row (CpJson i path kind) =
     Some (PsBoolean (case row_value row i of Jsonb j \<Rightarrow> jh_matches jh j path kind | _ \<Rightarrow> False))"
| "eval_compiled h jh row (CpAnd ps) = logic_loop OpAnd False (eval_compiled h jh row) (PsBoolean True) ps"
| "eval_compiled h jh row (CpOr ps) = logic_loop OpOr True (eval_compiled h jh row) (PsBoolean False) ps"
| "eval_compiled h jh row (CpNot p) = do {
     s \<leftarrow> eval_compiled h jh row p;
     Some (case s of PsBoolean b \<Rightarrow> PsBoolean (\<not> b) | _ \<Rightarrow> PsNull) }"
| "eval_compiled h jh row (CpIsNull i) = Some (PsBoolean (value_is_null (row_value row i)))"
| "eval_compiled h jh row (CpIsNotNull i) = Some (PsBoolean (\<not> value_is_null (row_value row i)))"
| "eval_compiled h jh row (CpBetween i krn negated) =
     Some (PsBoolean (negate_if negated (eval_between_value (row_value row i) krn)))"
| "eval_compiled h jh row (CpInList i krn negated) =
     Some (PsBoolean (negate_if negated (eval_in_list_value (row_value row i) krn)))"
| "eval_compiled h jh row (CpLike i pattern negated) =
     Some (PsBoolean (case row_value row i of
        Str s \<Rightarrow> negate_if negated (eval_like_kernel s pattern) | _ \<Rightarrow> negated))"
| "eval_compiled h jh row (CpMatch i pattern negated) =
     Some (PsBoolean (case row_value row i of
        Str s \<Rightarrow> negate_if negated (h_regex h s pattern) | _ \<Rightarrow> negated))"
| "eval_compiled h jh row (CpGeneric e) = map_option state_from_value (eval_expr h None row e)"

end
