(* ===== verification/Cynos_Predicate_Compiler.thy ===== *)
theory Cynos_Predicate_Compiler
  imports Cynos_Compiled_Predicate Cynos_Not_Simplification
begin

text \<open>
  Compiled predicates agree with the interpreter. Each kernel is compared with the operator it
  specialises; the compiler is then correct on every row on which the interpreter returns, for predicates
  that are logically typed and keep clear of the places where the two differ, which are stated too.
\<close>

section \<open>Comparison kernels\<close>

fun is_int :: "value \<Rightarrow> bool" where
  "is_int (Int32 _) = True"
| "is_int (Int64 _) = True"
| "is_int _ = False"

definition mixes_float :: "value \<Rightarrow> value \<Rightarrow> bool" where
  "mixes_float a b \<longleftrightarrow> is_float a \<and> is_int b \<or> is_int a \<and> is_float b"

definition is_comparison :: "binary_op \<Rightarrow> bool" where
  "is_comparison op \<longleftrightarrow> as_comparison op \<noteq> None"

lemma compare_numeric_value_cmp:
  "numeric_literal_from_value_ref l = Some n \<Longrightarrow>
     compare_numeric_value v n = (if is_int v \<or> is_float v then Some (value_cmp v l) else None)"
  by (cases l; cases v)
    (auto simp: compare_int_f64_def compare_f64_def float_cmp_def Let_def split: bool.splits)

lemma value_cmp_swap: "value_cmp b a = ordering_reverse (value_cmp a b)"
  by (cases a; cases b)
    (auto simp: float_cmp_def f64_partial_cmp_def unwrap_or_equal_def Let_def ord_cmp_def
      split: bool.splits if_splits)

lemma scast_i64_sint': "b = (scast (a :: i32) :: i64) \<longleftrightarrow> sint b = sint a"
  using scast_i64_sint [of a b] by auto

lemma sql_eq_cmp: "\<not> mixes_float a b \<Longrightarrow> sql_eq a b \<longleftrightarrow> value_cmp a b = Equal"
  by (cases a; cases b)
    (auto simp: mixes_float_def float_cmp_def f64_partial_cmp_def f64_eq_def unwrap_or_equal_def ord_cmp_def
      scast_i64_sint scast_i64_sint' dest: signed_word_eqI split: bool.splits if_splits)

lemma kernel_answer_comparison:
  "kernel_answer (literal_kernel cop l) v = Some b \<Longrightarrow> b = eval_comparison_op cop (value_cmp v l)"
  by (cases l; cases v)
    (auto simp: compare_int_f64_def compare_f64_def float_cmp_def Let_def split: bool.splits)

lemma eval_comparison_general:
  assumes "as_comparison op = Some cop" "\<not> value_is_null l" "\<not> value_is_null r"
    "op = OpEq \<or> op = OpNe \<Longrightarrow> \<not> mixes_float l r"
  shows "eval_binary_op h op l r = Some (Boolean (eval_comparison_op cop (value_cmp l r)))"
    "eval_binary_op_bool h op l r = Some (eval_comparison_op cop (value_cmp l r))"
  using assms by (cases op; auto simp: eval_binary_op_def sql_eq_cmp)+

lemma as_comparison_flip:
  "as_comparison op = Some cop \<Longrightarrow> \<exists>fop fcop. flip_comparison op = Some fop \<and> as_comparison fop = Some fcop
     \<and> (\<forall>c. eval_comparison_op fcop (ordering_reverse c) = eval_comparison_op cop c)"
  by (cases op) (auto simp: ordering_reverse_simps)

lemma mixes_float_sym: "mixes_float a b = mixes_float b a"
  by (auto simp: mixes_float_def)

text \<open>A comparison of a column with a literal, on either side.\<close>

lemma eval_row_comparison_correct:
  assumes "as_comparison op = Some cop" "op = OpEq \<or> op = OpNe \<Longrightarrow> \<not> mixes_float v l"
  shows "eval_row_comparison h v (make_simple i op l True) = map_option state_from_value (eval_binary_op h op v l)"
    "eval_row_comparison h v (make_simple i op l False) = map_option state_from_value (eval_binary_op h op l v)"
proof -
  have null: "eval_binary_op h op a b = Some Null" if "value_is_null a \<or> value_is_null b" for a b
    using assms(1) that by (cases op) (auto simp: eval_binary_op_def)
  have general: "eval_binary_op h op v l = Some (Boolean (eval_comparison_op cop (value_cmp v l)))"
    "eval_binary_op_bool h op v l = Some (eval_comparison_op cop (value_cmp v l))"
    "eval_binary_op h op l v = Some (Boolean (eval_comparison_op cop (value_cmp l v)))"
    "eval_binary_op_bool h op l v = Some (eval_comparison_op cop (value_cmp l v))"
    if "\<not> value_is_null v" "\<not> value_is_null l"
    using eval_comparison_general [OF assms(1)] assms(2) that mixes_float_sym [of v l] by blast+
  show "eval_row_comparison h v (make_simple i op l True) = map_option state_from_value (eval_binary_op h op v l)"
  proof (cases "value_is_null v \<or> value_is_null l")
    case False
    then show ?thesis
      using general kernel_answer_comparison [of cop l v] assms(1)
      by (auto simp: eval_row_comparison_def make_simple_def simple_predicate_kernel_of_def
          normalize_comparison_op_def split: option.splits)
  qed (auto simp: eval_row_comparison_def make_simple_def null)
  obtain fop fcop where flip: "flip_comparison op = Some fop" "as_comparison fop = Some fcop"
      "\<And>c. eval_comparison_op fcop (ordering_reverse c) = eval_comparison_op cop c"
    using as_comparison_flip [OF assms(1)] by blast
  show "eval_row_comparison h v (make_simple i op l False) = map_option state_from_value (eval_binary_op h op l v)"
  proof (cases "value_is_null v \<or> value_is_null l")
    case False
    then show ?thesis
      using general kernel_answer_comparison [of fcop l v] flip value_cmp_swap [of v l]
      by (auto simp: eval_row_comparison_def make_simple_def simple_predicate_kernel_of_def
          normalize_comparison_op_def split: option.splits)
  qed (auto simp: eval_row_comparison_def make_simple_def null)
qed

section \<open>Range and membership kernels\<close>

lemma eval_between_numeric:
  assumes "numeric_literal_from_value_ref low = Some l" "numeric_literal_from_value_ref high = Some u"
  shows "eval_between_value v (BkNumeric l u) = between_test v low high"
proof (cases "is_int v \<or> is_float v")
  case True
  then show ?thesis
    using compare_numeric_value_cmp [OF assms(1), of v] compare_numeric_value_cmp [OF assms(2), of v]
    by (simp add: between_test_def)
next
  case False
  then show ?thesis
    using compare_numeric_value_cmp [OF assms(1), of v] assms
    by (cases v; cases low; cases high) (auto simp: between_test_def ord_cmp_def)
qed

lemma eval_between_kernel: "eval_between_value v (compile_between_kernel low high) = between_test v low high"
proof (cases "numeric_literal_from_value_ref low = None \<or> numeric_literal_from_value_ref high = None")
  case True
  then show ?thesis
    by (cases low; cases high; cases v)
      (auto simp: compile_between_kernel_def between_test_def ord_cmp_def)
next
  case False
  then obtain l u where
    "numeric_literal_from_value_ref low = Some l" "numeric_literal_from_value_ref high = Some u" by auto
  then show ?thesis using eval_between_numeric by (simp add: compile_between_kernel_def)
qed

text \<open>The scan of the literals of an \<open>IN\<close> list.\<close>

lemma scan_families_keep:
  "scan_families (Some fam) cn ls = Some (r, cn') \<Longrightarrow>
     r = Some fam \<and> (\<forall>l \<in> set ls. literal_family l = None \<or> literal_family l = Some fam)
     \<and> (cn' \<longleftrightarrow> cn \<or> Null \<in> set ls)"
proof (induction ls arbitrary: cn)
  case (Cons l ls)
  then show ?case by (cases l) (auto split: if_splits)
qed simp

lemma scan_families_Some:
  "scan_families None cn ls = Some (r, cn') \<Longrightarrow>
     (\<forall>l \<in> set ls. literal_family l = None \<or> literal_family l = r) \<and> (cn' \<longleftrightarrow> cn \<or> Null \<in> set ls)"
proof (induction ls arbitrary: cn)
  case (Cons l ls)
  show ?case
  proof (cases "literal_family l")
    case None
    then have "l = Null" by (cases l) auto
    with Cons show ?thesis by auto
  next
    case (Some fam)
    with Cons.prems have "scan_families (Some fam) cn ls = Some (r, cn')" by simp
    from scan_families_keep [OF this] Some show ?thesis by (cases l) auto
  qed
qed simp

lemma literal_family_None [simp]: "literal_family l = None \<longleftrightarrow> l = Null"
  by (cases l) auto

lemma set_filter_literals: "set (filter_literals f ls) = {y. \<exists>l \<in> set ls. f l = Some y}"
  by (force simp: filter_literals_def List.map_filter_def)

lemma list_ex_float_literals:
  "list_ex (\<lambda>l. float_literal_eq x l) (filter_literals value_as_f64 ls) = list_ex (\<lambda>l. value_eq l (Float64 x)) ls"
proof -
  have eq: "value_eq l (Float64 x) \<longleftrightarrow> (\<exists>y. value_as_f64 l = Some y \<and> float_literal_eq x y)" for l
    by (cases l) (auto simp: float_literal_eq_def f64_eq_def)
  show ?thesis by (auto simp: list_ex_iff set_filter_literals eq)
qed

lemma list_ex_value_eq_nonfloat: "\<not> is_float v \<Longrightarrow> list_ex (\<lambda>l. value_eq l v) ls \<longleftrightarrow> v \<in> set ls"
  using value_eq_nonfloat [of v] by (auto simp: list_ex_iff value_eq_sym)

lemma value_as_Some [simp]:
  "value_as_bool l = Some b \<longleftrightarrow> l = Boolean b" "value_as_i32 l = Some i \<longleftrightarrow> l = Int32 i"
  "value_as_i64 l = Some j \<longleftrightarrow> l = Int64 j" "value_as_str l = Some s \<longleftrightarrow> l = Str s"
  "value_as_datetime l = Some d \<longleftrightarrow> l = DateTime d" "value_as_bytes l = Some y \<longleftrightarrow> l = Bytes y"
  "value_as_jsonb_bytes l = Some y \<longleftrightarrow> l = Jsonb y"
  by (cases l; auto)+

lemma eval_in_list_families:
  assumes "\<And>l. l \<in> set ls \<Longrightarrow> l = Null \<or> literal_family l = Some fam"
  shows "eval_in_list_value v
      (case fam of
         FamNumeric \<Rightarrow> IkNumeric (filter_literals value_as_i32 ls) (filter_literals value_as_i64 ls)
           (filter_literals value_as_f64 ls) (Null \<in> set ls)
       | FamBoolean \<Rightarrow> IkBoolean (filter_literals value_as_bool ls) (Null \<in> set ls)
       | FamString \<Rightarrow> IkString (filter_literals value_as_str ls) (Null \<in> set ls)
       | FamDateTime \<Rightarrow> IkDateTime (filter_literals value_as_datetime ls) (Null \<in> set ls)
       | FamBytes \<Rightarrow> IkBytes (filter_literals value_as_bytes ls) (Null \<in> set ls)
       | FamJsonb \<Rightarrow> IkJsonb (filter_literals value_as_jsonb_bytes ls) (Null \<in> set ls))
    = list_ex (\<lambda>l. value_eq l v) ls"
proof (cases "is_float v")
  case True
  then obtain x where v: "v = Float64 x" by (cases v) auto
  have "\<not> list_ex (\<lambda>l. value_eq l v) ls" if "fam \<noteq> FamNumeric"
    using assms that unfolding list_ex_iff v by (metis in_list_family.distinct literal_family.simps(4)
      option.inject value_eq.simps value_eq_is_float v is_float.simps is_float.elims(2))
  then show ?thesis
    using list_ex_float_literals [of x ls] v by (cases fam) auto
next
  case False
  have out: "literal_family v \<noteq> None \<Longrightarrow> literal_family v \<noteq> Some fam \<Longrightarrow> v \<notin> set ls"
    using assms by auto
  show ?thesis
    using False out unfolding list_ex_value_eq_nonfloat [OF False]
    by (cases fam; cases v) (auto simp: set_filter_literals)
qed

lemma eval_in_list_kernel:
  "eval_in_list_value v (compile_in_list_kernel ls) = list_ex (\<lambda>l. value_eq l v) ls"
proof (cases "scan_families None False ls")
  case None
  then show ?thesis by (auto simp: compile_in_list_kernel_def list_ex_iff value_eq_sym [of v])
next
  case (Some p)
  then obtain r cn where p: "scan_families None False ls = Some (r, cn)" by (cases p) auto
  from scan_families_Some [OF p] have fam: "\<And>l. l \<in> set ls \<Longrightarrow> l = Null \<or> literal_family l = r"
    and cn: "cn = (Null \<in> set ls)" by auto
  show ?thesis
  proof (cases r)
    case None
    with fam have null: "\<And>l. l \<in> set ls \<Longrightarrow> l = Null" by auto
    show ?thesis
    proof (cases ls)
      case (Cons a l)
      then have "a = Null" "\<forall>x \<in> set l. x = Null" using null by auto
      then show ?thesis using Cons p None
        by (cases v) (auto simp: compile_in_list_kernel_def list_ex_iff)
    qed (simp add: compile_in_list_kernel_def)
  next
    case (Some f)
    show ?thesis
    proof (cases "ls = []")
      case False
      then show ?thesis
        using eval_in_list_families [of ls f v] fam Some p cn
        by (cases f) (simp_all add: compile_in_list_kernel_def)
    qed (simp add: compile_in_list_kernel_def)
  qed
qed

section \<open>LIKE kernels\<close>

definition ascii :: "string \<Rightarrow> bool" where
  "ascii s \<longleftrightarrow> list_all (\<lambda>c. (of_char c :: nat) < 128) s"

abbreviation codes :: "string \<Rightarrow> uchar list" where
  "codes s \<equiv> map of_char s"

lemma like_ascii: "ascii s \<Longrightarrow> ascii p \<Longrightarrow> match_like_pattern s p \<longleftrightarrow> codes s \<in> like_lang (codes p)"
  using utf8_chars_ascii [of s] utf8_chars_ascii [of p]
  by (simp add: match_like_pattern_def match_like_recursive_eq like_recursive_lang ascii_def list_all_iff)

lemma codes_inject [simp]: "codes s = codes t \<longleftrightarrow> s = t"
  by (rule inj_map_eq_map) (simp add: inj_def)

definition like_plain :: "string \<Rightarrow> bool" where
  "like_plain p \<longleftrightarrow> CHR ''%'' \<notin> set p \<and> CHR ''_'' \<notin> set p"

lemma ch_wildcards: "(of_char c :: nat) = 37 \<longleftrightarrow> c = CHR ''%''" "(of_char c :: nat) = 95 \<longleftrightarrow> c = CHR ''_''"
  using of_char_eq_iff [where 'a = nat, of c "CHR ''%''"] of_char_eq_iff [where 'a = nat, of c "CHR ''_''"] by auto

lemma like_lang_plain: "like_plain p \<Longrightarrow> like_lang (codes p @ q) = {codes p @ w | w. w \<in> like_lang q}"
  by (rule like_lang_literal) (auto simp: like_plain_def ch_wildcards)

lemma like_percent: "like_lang (codes ''%'') = UNIV"
  by auto

lemma str_starts_with_iff: "str_starts_with s p \<longleftrightarrow> (\<exists>w. s = p @ w)"
  unfolding str_starts_with_def by (metis append_eq_conv_conj append_take_drop_id)

lemma str_ends_with_iff: "str_ends_with s p \<longleftrightarrow> (\<exists>u. s = u @ p)"
proof
  assume "str_ends_with s p"
  then have "s = take (length s - length p) s @ p"
    unfolding str_ends_with_def by (metis append_take_drop_id)
  then show "\<exists>u. s = u @ p" by blast
qed (auto simp: str_ends_with_def)

lemma str_contains_iff: "str_contains s p \<longleftrightarrow> (\<exists>u w. s = u @ p @ w)"
proof
  assume "str_contains s p"
  then obtain i w where "drop i s = p @ w"
    by (auto simp: str_contains_def list_ex_iff str_starts_with_iff)
  then have "s = take i s @ p @ w" by (metis append_take_drop_id)
  then show "\<exists>u w. s = u @ p @ w" by blast
next
  assume "\<exists>u w. s = u @ p @ w"
  then obtain u w where "s = u @ p @ w" by blast
  then show "str_contains s p"
    unfolding str_contains_def list_ex_iff str_starts_with_iff
    by (intro bexI [of _ "length u"]) auto
qed

lemma codes_append: "codes s = x @ y \<longleftrightarrow> (\<exists>u w. s = u @ w \<and> x = codes u \<and> y = codes w)"
  by (auto simp: map_eq_append_conv)

lemma codes_infix: "(\<exists>u w. codes s = u @ codes m @ w) \<longleftrightarrow> (\<exists>u w. s = u @ m @ w)"
proof
  assume "\<exists>u w. codes s = u @ codes m @ w"
  then obtain u w where "codes s = u @ codes m @ w" by blast
  then obtain a c d where "s = a @ c @ d" "codes c = codes m" by (metis map_eq_append_conv)
  then show "\<exists>u w. s = u @ m @ w" by auto
qed (metis map_append)

lemma percent_split:
  assumes "length (filter (\<lambda>c. c = CHR ''%'') p) = 1"
  shows "last p = CHR ''%'' \<Longrightarrow> p = butlast p @ ''%'' \<and> CHR ''%'' \<notin> set (butlast p)"
    "hd p = CHR ''%'' \<Longrightarrow> p = ''%'' @ tl p \<and> CHR ''%'' \<notin> set (tl p)"
proof -
  have ne: "p \<noteq> []" using assms by auto
  show "p = butlast p @ ''%'' \<and> CHR ''%'' \<notin> set (butlast p)" if "last p = CHR ''%''"
    using assms that ne by (cases p rule: rev_cases) (auto simp: filter_empty_conv)
  show "p = ''%'' @ tl p \<and> CHR ''%'' \<notin> set (tl p)" if "hd p = CHR ''%''"
    using assms that ne by (cases p) (auto simp: filter_empty_conv)
qed

lemma eval_like_kernel_correct:
  assumes "ascii s" "ascii p"
  shows "eval_like_kernel s (compile_like_pattern p) = match_like_pattern s p"
proof (cases "CHR ''_'' \<in> set p")
  case False
  define n where "n = length (filter (\<lambda>c. c = CHR ''%'') p)"
  define starts where "starts \<longleftrightarrow> p \<noteq> [] \<and> hd p = CHR ''%''"
  define ends where "ends \<longleftrightarrow> p \<noteq> [] \<and> last p = CHR ''%''"
  have compiled: "compile_like_pattern p =
      (if n = 0 then LkExact p else if n = 1 \<and> ends then LkPrefix (butlast p)
       else if n = 1 \<and> starts then LkSuffix (tl p)
       else if n = 2 \<and> starts \<and> ends then LkContains (butlast (tl p)) else LkGeneric p)"
    using False by (simp add: compile_like_pattern_def Let_def n_def starts_def ends_def)
  note lang = like_ascii [OF assms]
  consider (exact) "n = 0" | (prefix) "n = 1" "ends" | (suffix) "n = 1" "\<not> ends" "starts"
    | (contains) "n = 2" "starts" "ends"
    | (generic) "n \<noteq> 0" "\<not> (n = 1 \<and> ends)" "\<not> (n = 1 \<and> starts)" "\<not> (n = 2 \<and> starts \<and> ends)"
    by blast
  then show ?thesis
  proof cases
    case exact
    then have "like_plain p" using False by (auto simp: like_plain_def n_def filter_empty_conv)
    from like_lang_plain [OF this, of "[]"] exact show ?thesis by (simp add: compiled lang)
  next
    case prefix
    then have p: "p = butlast p @ ''%''" "like_plain (butlast p)"
      using percent_split(1) [of p] False in_set_butlastD [of "CHR ''_''" p]
      by (auto simp: n_def ends_def like_plain_def)
    have "like_lang (codes p) = {codes (butlast p) @ w | w. True}"
      by (subst p(1)) (use like_lang_plain [OF p(2), of "codes ''%''"] like_percent in simp)
    then show ?thesis using prefix
      by (auto simp: compiled lang str_starts_with_iff codes_append)
  next
    case suffix
    then obtain q where p: "p = CHR ''%'' # q" by (cases p) (auto simp: starts_def)
    have "like_plain q" using percent_split(2) [of p] False suffix p by (auto simp: n_def like_plain_def)
    from like_lang_plain [OF this, of "[]"] have "like_lang (codes p) = {u @ codes q | u. True}" "tl p = q"
      by (auto simp: p)
    then show ?thesis
      using suffix by (auto simp: compiled lang str_ends_with_iff codes_append)
  next
    case contains
    then obtain q where p: "p = CHR ''%'' # q" by (cases p) (auto simp: starts_def)
    with contains have q: "length (filter (\<lambda>c. c = CHR ''%'') q) = 1" by (simp add: n_def)
    then have "q \<noteq> []" by auto
    then have "last q = CHR ''%''" using contains p by (simp add: ends_def)
    then have q': "q = butlast q @ ''%''" "like_plain (butlast q)"
      using percent_split(1) [OF q] False p in_set_butlastD [of "CHR ''_''" q]
      by (auto simp: like_plain_def)
    have "like_lang (codes q) = {codes (butlast q) @ w | w. True}"
      by (subst q'(1)) (use like_lang_plain [OF q'(2), of "codes ''%''"] like_percent in simp)
    then have "like_lang (codes p) = {u @ codes (butlast q) @ w | u w. True}" "tl p = q"
      by (auto simp: p)
    then show ?thesis
      using contains codes_infix [of s "butlast q"] by (simp add: compiled lang str_contains_iff)
  next
    case generic
    then have "compile_like_pattern p = LkGeneric p" unfolding compiled by (simp only: if_False simp_thms)
    then show ?thesis by simp
  qed
qed (simp add: compile_like_pattern_def)

section \<open>Logical connectives\<close>

definition logical_state :: "predicate_state \<Rightarrow> bool" where
  "logical_state s \<longleftrightarrow> s \<noteq> PsOther"

definition connective :: "binary_op \<Rightarrow> bool" where
  "connective op \<longleftrightarrow> op = OpAnd \<or> op = OpOr"

definition unit_state :: "binary_op \<Rightarrow> predicate_state" where
  "unit_state op = PsBoolean (op = OpAnd)"

lemma state_cases: obtains "s = PsNull" | "s = PsBoolean True" | "s = PsBoolean False" | "s = PsOther"
  by (cases s) auto

lemma combine_logical [simp]: "logical_state (combine_predicate_states op a b)"
  by (auto simp: logical_state_def combine_predicate_states_def Let_def split: binary_op.split)

lemma combine_assoc:
  "connective op \<Longrightarrow> logical_state a \<Longrightarrow> logical_state b \<Longrightarrow> logical_state c \<Longrightarrow>
     combine_predicate_states op (combine_predicate_states op a b) c
     = combine_predicate_states op a (combine_predicate_states op b c)"
  by (cases a rule: state_cases; cases b rule: state_cases; cases c rule: state_cases)
    (auto simp: connective_def logical_state_def combine_predicate_states_def)

lemma combine_unit:
  "connective op \<Longrightarrow> logical_state a \<Longrightarrow> combine_predicate_states op (unit_state op) a = a"
  "connective op \<Longrightarrow> logical_state a \<Longrightarrow> combine_predicate_states op a (unit_state op) = a"
  by (cases a rule: state_cases;
      auto simp: connective_def unit_state_def logical_state_def combine_predicate_states_def)+

lemma combine_absorbing:
  "connective op \<Longrightarrow> combine_predicate_states op (PsBoolean (op = OpOr)) a = PsBoolean (op = OpOr)"
  by (cases a rule: state_cases) (auto simp: connective_def combine_predicate_states_def)

definition combine_all :: "binary_op \<Rightarrow> predicate_state list \<Rightarrow> predicate_state" where
  "combine_all op ss = foldr (combine_predicate_states op) ss (unit_state op)"

lemma combine_all_logical [simp]: "logical_state (combine_all op ss)"
  by (cases ss) (auto simp: combine_all_def unit_state_def logical_state_def [of "PsBoolean b" for b])

lemma combine_all_append:
  assumes "connective op" "list_all logical_state xs"
  shows "combine_all op (xs @ ys) = combine_predicate_states op (combine_all op xs) (combine_all op ys)"
  using assms(2)
proof (induction xs)
  case Nil
  then show ?case using combine_unit [OF assms(1)] by (simp add: combine_all_def [of op "[]"])
next
  case (Cons x xs)
  have step: "combine_all op (x # zs) = combine_predicate_states op x (combine_all op zs)" for zs
    by (simp add: combine_all_def)
  show ?case using Cons by (simp add: step combine_assoc [OF assms(1)])
qed

text \<open>Stopping at the absorbing state does not change the answer.\<close>

lemma logic_loop_all:
  assumes "connective op" "map_m f ps = Some ss" "list_all logical_state ss" "logical_state st"
  shows "logic_loop op (op = OpOr) f st ps = Some (combine_predicate_states op st (combine_all op ss))"
  using assms(2-)
proof (induction ps arbitrary: st ss)
  case Nil
  then show ?case using combine_unit [OF assms(1)] by (simp add: combine_all_def)
next
  case (Cons p ps)
  then obtain s ss' where s: "f p = Some s" "map_m f ps = Some ss'" "ss = s # ss'"
    by (cases "f p"; cases "map_m f ps") auto
  have all: "combine_all op ss = combine_predicate_states op s (combine_all op ss')"
    by (simp add: s combine_all_def)
  show ?case
  proof (cases "combine_predicate_states op st s = PsBoolean (op = OpOr)")
    case True
    have "combine_predicate_states op st (combine_all op ss)
        = combine_predicate_states op (combine_predicate_states op st s) (combine_all op ss')"
      using Cons.prems s all combine_assoc [OF assms(1)] by simp
    then show ?thesis using True s combine_absorbing [OF assms(1)] by simp
  next
    case False
    then show ?thesis
      using Cons.IH [OF s(2), of "combine_predicate_states op st s"] Cons.prems s all combine_assoc [OF assms(1)]
      by simp
  qed
qed

lemma eval_connective:
  "connective op \<Longrightarrow> is_logical l \<Longrightarrow> is_logical r \<Longrightarrow> eval_binary_op h op l r = Some v \<Longrightarrow>
     state_from_value v = combine_predicate_states op (state_from_value l) (state_from_value r)"
  by (auto elim!: is_logicalE simp: connective_def eval_binary_op_def combine_predicate_states_def)

lemma logical_state_from_value [simp]: "is_logical v \<Longrightarrow> logical_state (state_from_value v)"
  by (auto elim!: is_logicalE simp: logical_state_def)

section \<open>Where compilation is exact\<close>

text \<open>
  A list made of the literals of an \<open>OR\<close> of equalities answers as the equalities do when the column holds
  a value and no literal is equal to it at another width or type.
\<close>

definition chain_exact :: "value \<Rightarrow> value list \<Rightarrow> bool" where
  "chain_exact v ls \<longleftrightarrow> \<not> value_is_null v \<and> list_all (\<lambda>l. sql_eq v l = value_eq l v) ls"

definition like_exact :: "value \<Rightarrow> string \<Rightarrow> bool" where
  "like_exact v p \<longleftrightarrow> (case v of Str s \<Rightarrow> ascii s \<and> ascii p | _ \<Rightarrow> True)"

definition simple_exact :: "value list \<Rightarrow> simple_binary_predicate \<Rightarrow> bool" where
  "simple_exact row p \<longleftrightarrow> is_comparison (sbp_op p) \<and>
     (sbp_op p = OpEq \<or> sbp_op p = OpNe \<longrightarrow>
        \<not> mixes_float (row_value row (sbp_column_index p)) (sbp_literal p))"

text \<open>The predicates the compiler is exact on, read along the compiler's cases.\<close>

function compiles_exactly :: "json_host \<Rightarrow> value list \<Rightarrow> expr \<Rightarrow> bool"
  and terms_exact :: "json_host \<Rightarrow> value list \<Rightarrow> binary_op \<Rightarrow> expr \<Rightarrow> bool" where
  "compiles_exactly jh row (BinaryOp l op r) \<longleftrightarrow>
     (if op = OpAnd then terms_exact jh row OpAnd l \<and> terms_exact jh row OpAnd r
      else if op = OpOr then
        (case or_equality_chain (BinaryOp l OpOr r) of
           Some (i, ls) \<Rightarrow> chain_exact (row_value row i) ls
         | None \<Rightarrow> terms_exact jh row OpOr l \<and> terms_exact jh row OpOr r)
      else case simple_binary_predicate_of (BinaryOp l op r) of
        Some p \<Rightarrow> simple_exact row p
      | None \<Rightarrow> True)"
| "compiles_exactly jh row (UnaryOp op e) \<longleftrightarrow> (op = OpNot \<longrightarrow> compiles_exactly jh row e)"
| "compiles_exactly jh row (Like e p) \<longleftrightarrow>
     (case column_index_of e of Some i \<Rightarrow> like_exact (row_value row i) p | None \<Rightarrow> True)"
| "compiles_exactly jh row (NotLike e p) \<longleftrightarrow>
     (case column_index_of e of Some i \<Rightarrow> like_exact (row_value row i) p | None \<Rightarrow> True)"
| "compiles_exactly jh row (Function name args) \<longleftrightarrow> compile_json_row_predicate jh name args = None"
| "compiles_exactly jh row (Between e low high) \<longleftrightarrow> True"
| "compiles_exactly jh row (NotBetween e low high) \<longleftrightarrow> True"
| "compiles_exactly jh row (InList e items) \<longleftrightarrow> True"
| "compiles_exactly jh row (NotInList e items) \<longleftrightarrow> True"
| "compiles_exactly jh row (Match e p) \<longleftrightarrow> True"
| "compiles_exactly jh row (NotMatch e p) \<longleftrightarrow> True"
| "compiles_exactly jh row (Literal v) \<longleftrightarrow> True"
| "compiles_exactly jh row (Column c) \<longleftrightarrow> True"
| "compiles_exactly jh row (Aggregate f e d) \<longleftrightarrow> True"
| "terms_exact jh row op e \<longleftrightarrow>
     (case e of
        BinaryOp l inner_op r \<Rightarrow>
          (if inner_op = op then terms_exact jh row op l \<and> terms_exact jh row op r
           else compiles_exactly jh row e)
      | _ \<Rightarrow> compiles_exactly jh row e)"
  by pat_completeness auto
termination compiles_exactly
  by (relation "measure (\<lambda>x. case x of Inl (jh, row, e) \<Rightarrow> 2 * size e | Inr (jh, row, op, e) \<Rightarrow> Suc (2 * size e))") auto

declare terms_exact.simps [simp del]

lemma eval_column: "eval_expr h None row (Column c) = Some (row_value row (cr_index c))"
  by (simp add: row_value_def Let_def)

lemma simple_cases:
  assumes "simple_binary_predicate_of e = Some p"
  obtains (left) c op l where "e = BinaryOp (Column c) op (Literal l)" "p = make_simple (cr_index c) op l True"
  | (right) c op l where "e = BinaryOp (Literal l) op (Column c)" "p = make_simple (cr_index c) op l False"
  using assms by (cases e rule: simple_binary_predicate_of.cases) auto

lemma make_simple_simps [simp]:
  "sbp_column_index (make_simple i op l b) = i" "sbp_op (make_simple i op l b) = op"
  "sbp_literal (make_simple i op l b) = l" "sbp_column_on_left (make_simple i op l b) = b"
  by (simp_all add: make_simple_def)

lemma simple_correct:
  assumes "simple_binary_predicate_of e = Some p" "simple_exact row p"
  shows "eval_compiled h jh row (CpComparison p) = map_option state_from_value (eval_expr h None row e)"
  using assms(1)
proof (cases rule: simple_cases)
  case (left c op l)
  then show ?thesis
    using assms(2) eval_row_comparison_correct(1) [of op _ "row_value row (cr_index c)" l h "cr_index c"]
    by (auto simp: simple_exact_def is_comparison_def row_value_def Let_def)
next
  case (right c op l)
  then show ?thesis
    using assms(2) eval_row_comparison_correct(2) [of op _ "row_value row (cr_index c)" l h "cr_index c"]
    by (auto simp: simple_exact_def is_comparison_def row_value_def Let_def)
qed

text \<open>The terms of an equality chain.\<close>

lemma equality_term:
  assumes "simple_binary_predicate_of e = Some p"
    "normalize_comparison_op (sbp_op p) (sbp_column_on_left p) = Some CmpEq"
    "\<not> value_is_null (sbp_literal p)" "\<not> value_is_null (row_value row (sbp_column_index p))"
  shows "eval_expr h None row e = Some (Boolean (sql_eq (row_value row (sbp_column_index p)) (sbp_literal p)))"
  using assms(1)
proof (cases rule: simple_cases)
  case (left c op l)
  then have "op = OpEq" using assms(2) by (cases op) (auto simp: normalize_comparison_op_def)
  then show ?thesis using left assms by (simp add: eval_column eval_binary_op_def del: eval_expr.simps(1))
next
  case (right c op l)
  then have "op = OpEq" using assms(2) by (cases op) (auto simp: normalize_comparison_op_def)
  then show ?thesis
    using right assms sql_eq_sym [of l] by (simp add: eval_column eval_binary_op_def del: eval_expr.simps(1))
qed

lemma value_eq_sql: "value_eq a b \<Longrightarrow> sql_eq v a = sql_eq v b"
  by (cases v; cases a; cases b) (auto simp: f64_eq_def split: if_splits)

lemma value_eq_left: "value_eq a b \<Longrightarrow> value_eq a v = value_eq b v"
  by (meson value_eq_sym value_eq_trans)

lemma chain_loop_column: "equality_chain_loop (Some i) ls ts = Some (r, ls') \<Longrightarrow> r = Some i \<and> set ls \<subseteq> set ls'"
proof (induction ts arbitrary: ls)
  case (Cons t ts)
  from Cons.prems have "equality_chain_loop (Some i) ls ts = Some (r, ls')
      \<or> (\<exists>x. equality_chain_loop (Some i) (ls @ [x]) ts = Some (r, ls'))"
    by (auto split: option.splits if_splits)
  then show ?case using Cons.IH [of ls] Cons.IH [of "ls @ [x]" for x] by fastforce
qed simp

lemma chain_loop_correct:
  assumes "equality_chain_loop ci ls ts = Some (Some i, ls')" "chain_exact (row_value row i) ls'"
  shows "\<exists>bs. map_m (eval_expr h None row) ts = Some (map Boolean bs)
    \<and> (list_ex (\<lambda>l. value_eq l (row_value row i)) ls' \<longleftrightarrow>
         list_ex (\<lambda>l. value_eq l (row_value row i)) ls \<or> True \<in> set bs)"
  using assms(1)
proof (induction ts arbitrary: ci ls)
  case (Cons t ts)
  let ?v = "row_value row i"
  from Cons.prems obtain p where p: "simple_binary_predicate_of t = Some p"
    "normalize_comparison_op (sbp_op p) (sbp_column_on_left p) = Some CmpEq"
    "\<not> value_is_null (sbp_literal p)"
    and rest: "equality_chain_loop (Some (sbp_column_index p))
      (if list_ex (\<lambda>existing. value_eq existing (sbp_literal p)) ls then ls else ls @ [sbp_literal p]) ts
      = Some (Some i, ls')"
    by (auto split: option.splits if_splits)
  let ?ls1 = "if list_ex (\<lambda>existing. value_eq existing (sbp_literal p)) ls then ls else ls @ [sbp_literal p]"
  from chain_loop_column [OF rest] have i: "sbp_column_index p = i" and sub: "set ?ls1 \<subseteq> set ls'" by auto
  obtain k where k: "k \<in> set ls'" "value_eq k (sbp_literal p)" and k': "k \<in> set ?ls1"
    using sub by (cases "list_ex (\<lambda>existing. value_eq existing (sbp_literal p)) ls")
      (fastforce simp: list_ex_iff)+
  have "sql_eq ?v (sbp_literal p) = value_eq k ?v"
    using assms(2) k value_eq_sql [OF k(2), of ?v] by (auto simp: chain_exact_def list_all_iff)
  then have "eval_expr h None row t = Some (Boolean (value_eq k ?v))"
    using equality_term [OF p] assms(2) i by (simp add: chain_exact_def)
  moreover have "list_ex (\<lambda>l. value_eq l ?v) ?ls1 \<longleftrightarrow> list_ex (\<lambda>l. value_eq l ?v) ls \<or> value_eq k ?v"
    using k' value_eq_left [OF k(2), of ?v]
    by (cases "list_ex (\<lambda>existing. value_eq existing (sbp_literal p)) ls") (auto simp: list_ex_iff)
  moreover from Cons.IH [OF rest] obtain bs where
    "map_m (eval_expr h None row) ts = Some (map Boolean bs)"
    "list_ex (\<lambda>l. value_eq l ?v) ls' \<longleftrightarrow> list_ex (\<lambda>l. value_eq l ?v) ?ls1 \<or> True \<in> set bs" by blast
  ultimately show ?case
    by (intro exI [of _ "value_eq k ?v # bs"]) auto
qed simp

lemma map_m_append:
  "map_m f (xs @ ys) = do { as \<leftarrow> map_m f xs; bs \<leftarrow> map_m f ys; Some (as @ bs) }"
proof (induction xs)
  case (Cons x xs)
  then show ?case by (cases "f x"; cases "map_m f xs"; cases "map_m f ys") auto
qed simp

lemma or_of_terms:
  "map_m (eval_expr h None row) (collect_logical_terms OpOr e) = Some (map Boolean bs) \<Longrightarrow>
     eval_expr h None row e = Some (Boolean (True \<in> set bs))"
proof (induction OpOr e arbitrary: bs rule: collect_logical_terms.induct)
  case (1 left inner_op right)
  show ?case
  proof (cases "inner_op = OpOr")
    case True
    with 1(3) obtain xs ys where
      xs: "map_m (eval_expr h None row) (collect_logical_terms OpOr left) = Some xs" and
      ys: "map_m (eval_expr h None row) (collect_logical_terms OpOr right) = Some ys" and
      bs: "map Boolean bs = xs @ ys"
      by (auto simp: map_m_append bind_eq_Some_conv)
    then obtain as cs where "bs = as @ cs" "xs = map Boolean as" "ys = map Boolean cs"
      by (auto simp: map_eq_append_conv)
    with 1(1) [OF True, of as] 1(2) [OF True, of cs] xs ys True show ?thesis
      by (auto simp: eval_binary_op_def)
  next
    case False
    with 1(3) show ?thesis by (cases bs) (auto simp: bind_eq_Some_conv)
  qed
qed (auto simp: bind_eq_Some_conv)

lemma chain_correct:
  assumes "or_equality_chain e = Some (i, ls)" "chain_exact (row_value row i) ls"
  shows "eval_expr h None row e = Some (Boolean (list_ex (\<lambda>l. value_eq l (row_value row i)) ls))"
proof -
  from assms(1) have "equality_chain_loop None [] (collect_logical_terms OpOr e) = Some (Some i, ls)"
    by (auto simp: or_equality_chain_def Let_def split: if_splits option.splits)
  from chain_loop_correct [OF this assms(2), of h] show ?thesis
    using or_of_terms by fastforce
qed

section \<open>The compiler\<close>

lemma any_m_literals:
  "literal_values items = Some ls \<Longrightarrow>
     any_m (\<lambda>i. do { w \<leftarrow> eval_expr h ctx row i; Some (value_eq w v) }) items
     = Some (list_ex (\<lambda>l. value_eq l v) ls)"
  by (induction items arbitrary: ls rule: literal_values.induct) auto

lemma in_list_correct:
  "eval_compiled h jh row (compile_row_in_list (InList e items) e items False)
   = map_option state_from_value (eval_expr h None row (InList e items))"
  "eval_compiled h jh row (compile_row_in_list (NotInList e items) e items True)
   = map_option state_from_value (eval_expr h None row (NotInList e items))"
  by (cases e; cases "literal_values items";
      auto simp: compile_row_in_list_def any_m_literals eval_in_list_kernel eval_column negate_if_def
      simp del: eval_expr.simps(1) eval_in_list_value.simps)+

lemma between_correct:
  "eval_compiled h jh row (compile_between (Between e low high) e low high False)
   = map_option state_from_value (eval_expr h None row (Between e low high))"
  "eval_compiled h jh row (compile_between (NotBetween e low high) e low high True)
   = map_option state_from_value (eval_expr h None row (NotBetween e low high))"
  by (cases e; cases low; cases high;
      auto simp: compile_between_def eval_between_kernel eval_column negate_if_def not_between_not
      simp del: eval_expr.simps(1) eval_between_value.simps)+

lemma column_index_ofE: "column_index_of e = Some i \<Longrightarrow> eval_expr h None row e = Some (row_value row i)"
  by (cases e) (auto simp: eval_column simp del: eval_expr.simps(1))

lemma pattern_correct:
  assumes "column_index_of e = Some i"
  shows "like_exact (row_value row i) p \<Longrightarrow> eval_compiled h jh row (CpLike i (compile_like_pattern p) False)
      = map_option state_from_value (eval_expr h None row (Like e p))"
    "like_exact (row_value row i) p \<Longrightarrow> eval_compiled h jh row (CpLike i (compile_like_pattern p) True)
      = map_option state_from_value (eval_expr h None row (NotLike e p))"
    "eval_compiled h jh row (CpMatch i p False) = map_option state_from_value (eval_expr h None row (Match e p))"
    "eval_compiled h jh row (CpMatch i p True) = map_option state_from_value (eval_expr h None row (NotMatch e p))"
  using column_index_ofE [OF assms, of h row]
  by (cases "row_value row i"; simp add: like_exact_def eval_like_kernel_correct negate_if_def)+

text \<open>What the terms of a connective contribute.\<close>

definition terms_correct :: "eval_host \<Rightarrow> json_host \<Rightarrow> value list \<Rightarrow> binary_op \<Rightarrow> expr \<Rightarrow> value \<Rightarrow> bool" where
  "terms_correct h jh row op e v \<longleftrightarrow>
     (\<exists>ss. map_m (eval_compiled h jh row) (push_compiled_logical_terms jh op e) = Some ss
        \<and> list_all logical_state ss \<and> combine_all op ss = state_from_value v)"

lemma terms_correct_connective:
  assumes "connective op" "terms_correct h jh row op l vl" "terms_correct h jh row op r vr"
    "is_logical vl" "is_logical vr" "eval_binary_op h op vl vr = Some v"
  shows "\<exists>ss. map_m (eval_compiled h jh row) (push_compiled_logical_terms jh op l @ push_compiled_logical_terms jh op r)
      = Some ss \<and> list_all logical_state ss \<and> combine_all op ss = state_from_value v"
proof -
  from assms(2,3) obtain ss ts where
    "map_m (eval_compiled h jh row) (push_compiled_logical_terms jh op l) = Some ss" "list_all logical_state ss"
    "combine_all op ss = state_from_value vl"
    "map_m (eval_compiled h jh row) (push_compiled_logical_terms jh op r) = Some ts" "list_all logical_state ts"
    "combine_all op ts = state_from_value vr"
    unfolding terms_correct_def by blast
  then show ?thesis
    using eval_connective [OF assms(1,4,5,6)] combine_all_append [OF assms(1), of ss ts]
    by (intro exI [of _ "ss @ ts"]) (simp add: map_m_append)
qed

lemma terms_correct_leaf:
  assumes "connective op" "eval_compiled h jh row p = Some (state_from_value v)" "is_logical v"
  shows "\<exists>ss. map_m (eval_compiled h jh row) [p] = Some ss \<and> list_all logical_state ss
    \<and> combine_all op ss = state_from_value v"
  using assms combine_unit(2) [OF assms(1), of "state_from_value v"]
  by (intro exI [of _ "[state_from_value v]"]) (simp add: combine_all_def)

lemma connective_loop:
  assumes "connective op" "terms_correct h jh row op l vl" "terms_correct h jh row op r vr"
    "is_logical vl" "is_logical vr" "eval_binary_op h op vl vr = Some v"
  shows "logic_loop op (op = OpOr) (eval_compiled h jh row) (unit_state op)
      (push_compiled_logical_terms jh op l @ push_compiled_logical_terms jh op r) = Some (state_from_value v)"
proof -
  obtain ss where ss: "map_m (eval_compiled h jh row)
      (push_compiled_logical_terms jh op l @ push_compiled_logical_terms jh op r) = Some ss"
    "list_all logical_state ss" "combine_all op ss = state_from_value v"
    using terms_correct_connective [OF assms] by blast
  have "logical_state (unit_state op)" by (simp add: unit_state_def logical_state_def)
  moreover have "logical_state (state_from_value v)" using combine_all_logical [of op ss] ss(3) by simp
  ultimately show ?thesis
    using logic_loop_all [OF assms(1) ss(1,2)] combine_unit(1) [OF assms(1)] ss(3) by simp
qed

lemma compiler_correct:
  "compiles_exactly jh row e \<Longrightarrow> logical h None row e \<Longrightarrow> eval_expr h None row e = Some v \<Longrightarrow>
     eval_compiled h jh row (compile_row_predicate jh e) = Some (state_from_value v)"
  "terms_exact jh row op e \<Longrightarrow> connective op \<Longrightarrow> logical h None row e \<Longrightarrow> yields_logical h None row e \<Longrightarrow>
     eval_expr h None row e = Some v \<Longrightarrow> terms_correct h jh row op e v"
proof (induction jh row e and jh row op e arbitrary: v and v rule: compiles_exactly_terms_exact.induct)
  case (1 jh row l op r)
  from 1(7) obtain vl vr where ev: "eval_expr h None row l = Some vl" "eval_expr h None row r = Some vr"
    "eval_binary_op h op vl vr = Some v" by (auto simp: bind_eq_Some_conv)
  have logical: "logical h None row l" "logical h None row r" using 1(6) by auto
  have yields: "yields_logical h None row l" "yields_logical h None row r" if "connective op"
    using 1(6) that by (auto simp: connective_def)
  then have is_logical: "is_logical vl" "is_logical vr" if "connective op"
    using ev that by (auto simp: yields_logical_def)
  consider (con) "op = OpAnd" | (disj) "op = OpOr" | (other) "op \<noteq> OpAnd" "op \<noteq> OpOr" by blast
  then show ?case
  proof cases
    case con
    then have c: "connective op" by (simp add: connective_def)
    have "terms_correct h jh row op l vl" "terms_correct h jh row op r vr"
      using 1(1,2,5) con c logical yields [OF c] ev by auto
    from connective_loop [OF c this is_logical [OF c] ev(3)] con show ?thesis
      by (simp add: unit_state_def)
  next
    case disj
    then have c: "connective op" by (simp add: connective_def)
    show ?thesis
    proof (cases "or_equality_chain (BinaryOp l OpOr r)")
      case None
      then have "terms_correct h jh row op l vl" "terms_correct h jh row op r vr"
        using 1(3,4,5) disj c logical yields [OF c] ev by auto
      from connective_loop [OF c this is_logical [OF c] ev(3)] disj None show ?thesis
        by (simp add: unit_state_def compile_or_equality_chain_def)
    next
      case (Some chain)
      then obtain i ls where chain: "or_equality_chain (BinaryOp l OpOr r) = Some (i, ls)"
        by (cases chain) auto
      then have "eval_expr h None row (BinaryOp l OpOr r)
          = Some (Boolean (list_ex (\<lambda>l. value_eq l (row_value row i)) ls))"
        using 1(5) disj by (intro chain_correct) auto
      then show ?thesis using 1(7) disj chain
        by (auto simp: compile_or_equality_chain_def eval_in_list_kernel negate_if_def simp del: eval_expr.simps(3))
    qed
  next
    case other
    show ?thesis
    proof (cases "simple_binary_predicate_of (BinaryOp l op r)")
      case (Some p)
      then have "simple_exact row p" using other 1(5) by simp
      from simple_correct [OF Some this, of h jh] 1(7) other Some show ?thesis
        by (simp del: eval_expr.simps(3) eval_compiled.simps(2))
    qed (use other 1(7) in \<open>simp del: eval_expr.simps(3)\<close>)
  qed
next
  case (2 jh row op e)
  then show ?case
    by (cases op; cases "column_index_of e")
      (auto simp: column_index_ofE bind_eq_Some_conv yields_logical_def elim!: is_logicalE)
next
  case (15 jh row op e)
  show ?case
  proof (cases "\<exists>l r. e = BinaryOp l op r")
    case True
    then obtain l r where e: "e = BinaryOp l op r" by blast
    with 15 obtain vl vr where ev: "eval_expr h None row l = Some vl" "eval_expr h None row r = Some vr"
      "eval_binary_op h op vl vr = Some v" by (auto simp: bind_eq_Some_conv)
    have sub: "logical h None row l" "logical h None row r"
      "yields_logical h None row l" "yields_logical h None row r"
      using 15 e by (auto simp: connective_def)
    have "terms_correct h jh row op l vl" "terms_correct h jh row op r vr"
      using 15 e sub ev by (auto simp: terms_exact.simps [of _ _ _ "BinaryOp l op r"])
    moreover have "is_logical vl" "is_logical vr" using sub ev by (auto simp: yields_logical_def)
    moreover have "connective op" using 15 by blast
    ultimately show ?thesis
      using terms_correct_connective [OF _ _ _ _ _ ev(3)]
      by (simp add: e terms_correct_def [of h jh row op "BinaryOp l op r" v]
          push_compiled_logical_terms.simps [of jh op "BinaryOp l op r"])
  next
    case False
    then have push: "push_compiled_logical_terms jh op e = [compile_row_predicate jh e]"
      and exact: "compiles_exactly jh row e"
      using 15 by (auto simp: push_compiled_logical_terms.simps terms_exact.simps [of _ _ _ e] split: expr.splits if_splits)
    have "eval_compiled h jh row (compile_row_predicate jh e) = Some (state_from_value v)"
      using 15 exact False by (cases e) (auto simp: terms_exact.simps)
    then show ?thesis
      using terms_correct_leaf 15 by (simp add: terms_correct_def push yields_logical_def)
  qed
qed (auto simp: in_list_correct between_correct pattern_correct split: option.splits
    simp del: eval_expr.simps eval_compiled.simps(2-12) simp add: eval_expr.simps(2))

section \<open>Properties\<close>

text \<open>
  C10. A compiled predicate answers as the interpreter does, truth value or NULL, on every row on which the
  interpreter returns, for logically typed predicates the compiler is exact on; in particular it keeps the
  same rows.
\<close>

theorem compiled_predicate_correct:
  assumes "compiles_exactly jh row e" "logical h None row e" "eval_expr h None row e = Some v"
  shows "eval_compiled h jh row (compile_row_predicate jh e) = Some (state_from_value v)
    \<and> (state_from_value v = PsBoolean True \<longleftrightarrow> eval_predicate h None row e = Some True)"
  using compiler_correct(1) [OF assms] assms(3) by (cases v) (auto simp: eval_predicate_def)

theorem compiled_predicate_correct_witness:
  "\<forall>h jh. eval_compiled h jh [Int32 2, Str ''tea'', Null] (compile_row_predicate jh
      (BinaryOp (BinaryOp
        (BinaryOp (BinaryOp (Column \<lparr>cr_table = ''t'', cr_column = ''a'', cr_index = 0\<rparr>) OpEq (Literal (Int32 1)))
           OpOr (BinaryOp (Column \<lparr>cr_table = ''t'', cr_column = ''a'', cr_index = 0\<rparr>) OpEq (Literal (Int32 2))))
        OpAnd (Like (Column \<lparr>cr_table = ''t'', cr_column = ''b'', cr_index = 1\<rparr>) ''t%''))
        OpAnd (UnaryOp OpNot (BinaryOp (Literal (Int32 5)) OpLt
           (Column \<lparr>cr_table = ''t'', cr_column = ''c'', cr_index = 2\<rparr>))))) = Some PsNull"
  (is "\<forall>h jh. eval_compiled h jh ?row (compile_row_predicate jh ?e) = _")
proof (intro allI)
  fix h jh
  have "ascii ''tea''" "ascii ''t%''" by (simp_all add: ascii_def)
  then have exact: "compiles_exactly jh ?row ?e"
    by (simp add: terms_exact.simps or_equality_chain_def Let_def normalize_comparison_op_def chain_exact_def
        row_value_def like_exact_def simple_exact_def is_comparison_def make_simple_def)
  have like: "match_like_pattern ''tea'' ''t%''" by code_simp
  have "logical h None ?row ?e" "eval_expr h None ?row ?e = Some Null"
    by (simp_all add: yields_logical_def eval_binary_op_def like)
  then show "eval_compiled h jh ?row (compile_row_predicate jh ?e) = Some PsNull"
    using compiled_predicate_correct [OF exact, of h Null] by simp
qed

text \<open>
  Where the two part: an \<open>OR\<close> of equalities compiled to a list is false for a NULL column, so that its
  negation keeps the row, and for an integer of another width, although each of its equalities holds.
\<close>

lemma or_chain_null_differs:
  "let c = Column \<lparr>cr_table = ''t'', cr_column = ''a'', cr_index = 0\<rparr>;
       e = UnaryOp OpNot (BinaryOp (BinaryOp c OpEq (Literal (Int32 1))) OpOr (BinaryOp c OpEq (Literal (Int32 2))))
   in eval_expr h None [Null] e = Some Null
      \<and> eval_compiled h jh [Null] (compile_row_predicate jh e) = Some (PsBoolean True)"
  by (simp add: Let_def eval_binary_op_def compile_or_equality_chain_def or_equality_chain_def
      normalize_comparison_op_def make_simple_def compile_in_list_kernel_def filter_literals_def
      List.map_filter_def row_value_def negate_if_def)

lemma or_chain_width_differs:
  "let c = Column \<lparr>cr_table = ''t'', cr_column = ''a'', cr_index = 0\<rparr>;
       e = BinaryOp (BinaryOp c OpEq (Literal (Int64 1))) OpOr (BinaryOp c OpEq (Literal (Int64 2)))
   in eval_expr h None [Int32 1] e = Some (Boolean True)
      \<and> eval_compiled h jh [Int32 1] (compile_row_predicate jh e) = Some (PsBoolean False)"
  by (simp add: Let_def eval_binary_op_def compile_or_equality_chain_def or_equality_chain_def
      normalize_comparison_op_def make_simple_def compile_in_list_kernel_def filter_literals_def
      List.map_filter_def row_value_def negate_if_def)

text \<open>An integer column is equal to the float of the same value in a kernel, and not in the interpreter.\<close>

lemma float_kernel_differs:
  "let e = BinaryOp (Column \<lparr>cr_table = ''t'', cr_column = ''a'', cr_index = 0\<rparr>) OpEq
         (Literal (Float64 (i32_as_f64 k)))
   in eval_expr h None [Int32 k] e = Some (Boolean False)
      \<and> eval_compiled h jh [Int32 k] (compile_row_predicate jh e) = Some (PsBoolean True)"
  by (simp add: Let_def eval_binary_op_def make_simple_def simple_predicate_kernel_of_def compare_int_f64_def
      f64_partial_cmp_def unwrap_or_equal_def normalize_comparison_op_def eval_row_comparison_def row_value_def)

text \<open>A filter that is a single comparison with a literal takes NULL for false: \<open>NULL OR TRUE\<close> drops the row.\<close>

lemma simple_filter_null_or_true_differs:
  "eval_simple_binary_predicate_value h Null (make_simple 0 OpOr (Boolean True) True) = Some False"
  "eval_binary_op h OpOr Null (Boolean True) = Some (Boolean True)"
  by (simp_all add: eval_simple_binary_predicate_value_def eval_binary_op_def)

end
