(* ===== verification/Cynos_Relation.thy ===== *)
theory Cynos_Relation
  imports Cynos_Plan
begin

text \<open>
  The intermediate results of the executor: relations and their entries
  (\<open>crates/query/src/executor/relation.rs\<close>), the layout of the output of a join and the views of joined rows
  (\<open>crates/query/src/executor/runner.rs\<close>). Whether the names of an entry's tables are owned or shared is left
  out. Views over rows that are not entries arise only in the streaming executor and read the same way.
\<close>

section \<open>Entries\<close>

record relation_entry =
  re_row :: row
  re_is_combined :: bool
  re_tables :: "string list"

definition entry_new :: "row \<Rightarrow> string list \<Rightarrow> relation_entry" where
  "entry_new r tables = \<lparr>re_row = r, re_is_combined = (length tables > 1), re_tables = tables\<rparr>"

definition entry_new_combined :: "row \<Rightarrow> string list \<Rightarrow> relation_entry" where
  "entry_new_combined r tables = \<lparr>re_row = r, re_is_combined = True, re_tables = tables\<rparr>"

definition entry_from_row :: "row \<Rightarrow> string \<Rightarrow> relation_entry" where
  "entry_from_row r table = \<lparr>re_row = r, re_is_combined = False, re_tables = [table]\<rparr>"

definition entry_id :: "relation_entry \<Rightarrow> row_id" where
  "entry_id e = rid (re_row e)"

definition entry_get_field :: "relation_entry \<Rightarrow> nat \<Rightarrow> value option" where
  "entry_get_field e i = row_get (re_row e) i"

definition combine_fast :: "relation_entry \<Rightarrow> relation_entry \<Rightarrow> string list \<Rightarrow> relation_entry" where
  "combine_fast left right combined_tables =
     \<lparr>re_row = row_new_with_version (join_row_id (rid (re_row left)) (rid (re_row right)))
        (rversion (re_row left) + rversion (re_row right)) (rvalues (re_row left) @ rvalues (re_row right)),
      re_is_combined = True, re_tables = combined_tables\<rparr>"

definition combine_with_null_fast :: "relation_entry \<Rightarrow> nat \<Rightarrow> string list \<Rightarrow> relation_entry" where
  "combine_with_null_fast left right_column_count combined_tables =
     \<lparr>re_row = row_new_with_version (left_join_null_row_id (rid (re_row left)))
        (rversion (re_row left)) (rvalues (re_row left) @ replicate right_column_count Null),
      re_is_combined = True, re_tables = combined_tables\<rparr>"

definition combine_null_with_fast :: "nat \<Rightarrow> relation_entry \<Rightarrow> string list \<Rightarrow> relation_entry" where
  "combine_null_with_fast left_column_count right combined_tables =
     \<lparr>re_row = row_new_with_version (right_join_null_row_id (rid (re_row right)))
        (rversion (re_row right)) (replicate left_column_count Null @ rvalues (re_row right)),
      re_is_combined = True, re_tables = combined_tables\<rparr>"

definition combine :: "relation_entry \<Rightarrow> string list \<Rightarrow> relation_entry \<Rightarrow> string list \<Rightarrow> relation_entry" where
  "combine left left_tables right right_tables =
     \<lparr>re_row = row_new_with_version (join_row_id (rid (re_row left)) (rid (re_row right)))
        (rversion (re_row left) + rversion (re_row right)) (rvalues (re_row left) @ rvalues (re_row right)),
      re_is_combined = True, re_tables = left_tables @ right_tables\<rparr>"

definition combine_with_null ::
  "relation_entry \<Rightarrow> string list \<Rightarrow> nat \<Rightarrow> string list \<Rightarrow> relation_entry" where
  "combine_with_null left left_tables right_column_count right_tables =
     \<lparr>re_row = row_new_with_version (left_join_null_row_id (rid (re_row left)))
        (rversion (re_row left)) (rvalues (re_row left) @ replicate right_column_count Null),
      re_is_combined = True, re_tables = left_tables @ right_tables\<rparr>"

definition combine_null_with ::
  "nat \<Rightarrow> string list \<Rightarrow> relation_entry \<Rightarrow> string list \<Rightarrow> relation_entry" where
  "combine_null_with left_column_count left_tables right right_tables =
     \<lparr>re_row = row_new_with_version (right_join_null_row_id (rid (re_row right)))
        (rversion (re_row right)) (replicate left_column_count Null @ rvalues (re_row right)),
      re_is_combined = True, re_tables = left_tables @ right_tables\<rparr>"

section \<open>Relations\<close>

record exec_relation =
  xr_entries :: "relation_entry list"
  xr_tables :: "string list"
  xr_counts :: "nat list"

definition xr_new :: "string list \<Rightarrow> exec_relation" where
  "xr_new tables = \<lparr>xr_entries = [], xr_tables = tables, xr_counts = replicate (length tables) 0\<rparr>"

definition xr_new_with_column_counts :: "string list \<Rightarrow> nat list \<Rightarrow> exec_relation" where
  "xr_new_with_column_counts tables counts = \<lparr>xr_entries = [], xr_tables = tables, xr_counts = counts\<rparr>"

definition xr_empty :: exec_relation where
  "xr_empty = \<lparr>xr_entries = [], xr_tables = [], xr_counts = []\<rparr>"

definition xr_from_rows :: "row list \<Rightarrow> string list \<Rightarrow> exec_relation" where
  "xr_from_rows rows tables =
     (let column_count = (case rows of [] \<Rightarrow> 0 | r # _ \<Rightarrow> row_len r) in
      \<lparr>xr_entries = map (\<lambda>r. entry_new r tables) rows, xr_tables = tables,
       xr_counts = (if length tables = 1 then [column_count] else replicate (length tables) 0)\<rparr>)"

definition xr_from_rows_with_column_count :: "row list \<Rightarrow> string list \<Rightarrow> nat \<Rightarrow> exec_relation" where
  "xr_from_rows_with_column_count rows tables column_count =
     \<lparr>xr_entries = map (\<lambda>r. entry_new r tables) rows, xr_tables = tables, xr_counts = [column_count]\<rparr>"

definition xr_from_entries :: "relation_entry list \<Rightarrow> string list \<Rightarrow> nat list \<Rightarrow> exec_relation" where
  "xr_from_entries entries tables counts = \<lparr>xr_entries = entries, xr_tables = tables, xr_counts = counts\<rparr>"

definition get_or_zero :: "nat list \<Rightarrow> nat \<Rightarrow> nat" where
  "get_or_zero counts i = (if i < length counts then counts ! i else 0)"

fun table_offset_loop :: "string list \<Rightarrow> nat list \<Rightarrow> nat \<Rightarrow> nat \<Rightarrow> string \<Rightarrow> nat option" where
  "table_offset_loop [] counts i offset table_name = None"
| "table_offset_loop (t # ts) counts i offset table_name =
     (if t = table_name then Some offset
      else table_offset_loop ts counts (Suc i) (offset + get_or_zero counts i) table_name)"

definition get_table_offset :: "exec_relation \<Rightarrow> string \<Rightarrow> nat option" where
  "get_table_offset r table_name = table_offset_loop (xr_tables r) (xr_counts r) 0 0 table_name"

definition xr_len :: "exec_relation \<Rightarrow> nat" where
  "xr_len r = length (xr_entries r)"

definition xr_push :: "relation_entry \<Rightarrow> exec_relation \<Rightarrow> exec_relation" where
  "xr_push e r = r\<lparr>xr_entries := xr_entries r @ [e]\<rparr>"

section \<open>The layout of a join\<close>

datatype join_side = SideLeft | SideRight

record join_segment =
  seg_side :: join_side
  seg_offset :: nat
  seg_width :: nat

datatype materialization_pattern = LeftThenRight | RightThenLeft | GenericPattern

record join_layout =
  jl_tables :: "string list"
  jl_counts :: "nat list"
  jl_segments :: "join_segment list"
  jl_total_width :: nat
  jl_left_width :: nat
  jl_right_width :: nat
  jl_pattern :: materialization_pattern

text \<open>The next unused table of a name: its offset and width; the flags of the used tables are updated.\<close>

fun take_segment_loop ::
  "string list \<Rightarrow> nat list \<Rightarrow> nat \<Rightarrow> nat \<Rightarrow> bool list \<Rightarrow> string \<Rightarrow> ((nat \<times> nat) \<times> bool list) option" where
  "take_segment_loop [] counts i offset used target = None"
| "take_segment_loop (t # ts) counts i offset used target =
     (let width = get_or_zero counts i in
      if t = target \<and> \<not> (if i < length used then used ! i else True)
      then Some ((offset, width), used[i := True])
      else take_segment_loop ts counts (Suc i) (offset + width) used target)"

definition take_segment ::
  "string list \<Rightarrow> nat list \<Rightarrow> bool list \<Rightarrow> string \<Rightarrow> ((nat \<times> nat) \<times> bool list) option" where
  "take_segment tables counts used target = take_segment_loop tables counts 0 0 used target"

text \<open>The output tables that one of the inputs has, with their widths and segments.\<close>

fun layout_loop ::
  "string list \<Rightarrow> nat list \<Rightarrow> string list \<Rightarrow> nat list \<Rightarrow> bool list \<Rightarrow> bool list \<Rightarrow> string list
    \<Rightarrow> (string \<times> join_segment) list" where
  "layout_loop lt lc rt rc lused rused [] = []"
| "layout_loop lt lc rt rc lused rused (table # tables) =
     (case take_segment lt lc lused table of
        Some ((offset, width), lused') \<Rightarrow>
          (table, \<lparr>seg_side = SideLeft, seg_offset = offset, seg_width = width\<rparr>)
            # layout_loop lt lc rt rc lused' rused tables
      | None \<Rightarrow>
          (case take_segment rt rc rused table of
             Some ((offset, width), rused') \<Rightarrow>
               (table, \<lparr>seg_side = SideRight, seg_offset = offset, seg_width = width\<rparr>)
                 # layout_loop lt lc rt rc lused rused' tables
           | None \<Rightarrow> layout_loop lt lc rt rc lused rused tables))"

text \<open>The segments left after those that cover one side from its start, if they cover it.\<close>

fun cover_loop :: "join_segment list \<Rightarrow> nat \<Rightarrow> join_side \<Rightarrow> nat \<Rightarrow> join_segment list option" where
  "cover_loop [] source_offset side expected_width =
     (if source_offset = expected_width then Some [] else None)"
| "cover_loop (s # ss) source_offset side expected_width =
     (if seg_side s \<noteq> side then (if source_offset = expected_width then Some (s # ss) else None)
      else if seg_offset s \<noteq> source_offset then None
      else cover_loop ss (source_offset + seg_width s) side expected_width)"

definition segments_cover_side_in_order ::
  "join_segment list \<Rightarrow> join_side \<Rightarrow> nat \<Rightarrow> join_segment list option" where
  "segments_cover_side_in_order segments side expected_width =
     (if expected_width = 0 then Some segments else cover_loop segments 0 side expected_width)"

definition detect_materialization_pattern ::
  "join_segment list \<Rightarrow> nat \<Rightarrow> nat \<Rightarrow> materialization_pattern" where
  "detect_materialization_pattern segments left_width right_width =
     (if Option.bind (segments_cover_side_in_order segments SideLeft left_width)
           (\<lambda>next. segments_cover_side_in_order next SideRight right_width) = Some []
      then LeftThenRight
      else if Option.bind (segments_cover_side_in_order segments SideRight right_width)
           (\<lambda>next. segments_cover_side_in_order next SideLeft left_width) = Some []
      then RightThenLeft
      else GenericPattern)"

definition layout_from_sources ::
  "string list \<Rightarrow> nat list \<Rightarrow> string list \<Rightarrow> nat list \<Rightarrow> string list \<Rightarrow> join_layout" where
  "layout_from_sources lt lc rt rc outputs =
     (let entries = layout_loop lt lc rt rc (replicate (length lt) False) (replicate (length rt) False) outputs;
          segments = map snd entries in
      \<lparr>jl_tables = map fst entries, jl_counts = map seg_width segments, jl_segments = segments,
       jl_total_width = sum_list (map seg_width segments),
       jl_left_width = sum_list lc, jl_right_width = sum_list rc,
       jl_pattern = detect_materialization_pattern segments (sum_list lc) (sum_list rc)\<rparr>)"

definition join_output_layout :: "exec_relation \<Rightarrow> exec_relation \<Rightarrow> string list \<Rightarrow> join_layout" where
  "join_output_layout left right outputs =
     layout_from_sources (xr_tables left) (xr_counts left) (xr_tables right) (xr_counts right) outputs"

section \<open>Views of joined rows\<close>

text \<open>The two ways a source is passed: the fast paths apply to entries only.\<close>

datatype join_source = SrcEntry relation_entry | SrcView relation_entry

fun src_entry :: "join_source \<Rightarrow> relation_entry" where
  "src_entry (SrcEntry e) = e"
| "src_entry (SrcView e) = e"

definition src_get_value :: "join_source \<Rightarrow> nat \<Rightarrow> value option" where
  "src_get_value s i = entry_get_field (src_entry s) i"

record joined_view =
  jv_left :: "join_source option"
  jv_right :: "join_source option"
  jv_layout :: join_layout

definition view_from_entries :: "relation_entry option \<Rightarrow> relation_entry option \<Rightarrow> join_layout \<Rightarrow> joined_view" where
  "view_from_entries left right layout =
     \<lparr>jv_left = map_option SrcEntry left, jv_right = map_option SrcEntry right, jv_layout = layout\<rparr>"

fun view_version :: "join_source option \<Rightarrow> join_source option \<Rightarrow> u64" where
  "view_version (Some l) (Some r) = rversion (re_row (src_entry l)) + rversion (re_row (src_entry r))"
| "view_version (Some l) None = rversion (re_row (src_entry l))"
| "view_version None (Some r) = rversion (re_row (src_entry r))"
| "view_version None None = 0"

fun view_row_id :: "join_source option \<Rightarrow> join_source option \<Rightarrow> row_id" where
  "view_row_id (Some l) (Some r) = join_row_id (entry_id (src_entry l)) (entry_id (src_entry r))"
| "view_row_id (Some l) None = left_join_null_row_id (entry_id (src_entry l))"
| "view_row_id None (Some r) = right_join_null_row_id (entry_id (src_entry r))"
| "view_row_id None None = 0"

definition unwrap_null :: "value option \<Rightarrow> value" where
  "unwrap_null v = (case v of Some x \<Rightarrow> x | None \<Rightarrow> Null)"

definition view_source :: "joined_view \<Rightarrow> join_side \<Rightarrow> join_source option" where
  "view_source v side = (case side of SideLeft \<Rightarrow> jv_left v | SideRight \<Rightarrow> jv_right v)"

definition segment_values :: "joined_view \<Rightarrow> join_segment \<Rightarrow> value list" where
  "segment_values v s =
     (case view_source v (seg_side s) of
        Some src \<Rightarrow> map (\<lambda>i. unwrap_null (src_get_value src (seg_offset s + i))) [0..<seg_width s]
      | None \<Rightarrow> replicate (seg_width s) Null)"

definition view_materialize_row :: "joined_view \<Rightarrow> row" where
  "view_materialize_row v =
     row_new_with_version (view_row_id (jv_left v) (jv_right v)) (view_version (jv_left v) (jv_right v))
       (concat (map (segment_values v) (jl_segments (jv_layout v))))"

definition view_materialize_entry :: "joined_view \<Rightarrow> string list \<Rightarrow> relation_entry" where
  "view_materialize_entry v shared_tables =
     (case (jv_left v, jv_right v, jl_pattern (jv_layout v)) of
        (Some (SrcEntry l), Some (SrcEntry r), LeftThenRight) \<Rightarrow> combine_fast l r shared_tables
      | (Some (SrcEntry l), None, LeftThenRight) \<Rightarrow>
          combine_with_null_fast l (jl_right_width (jv_layout v)) shared_tables
      | (None, Some (SrcEntry r), LeftThenRight) \<Rightarrow>
          combine_null_with_fast (jl_left_width (jv_layout v)) r shared_tables
      | _ \<Rightarrow> entry_new_combined (view_materialize_row v) shared_tables)"

fun view_get_loop :: "joined_view \<Rightarrow> join_segment list \<Rightarrow> nat \<Rightarrow> nat \<Rightarrow> value option" where
  "view_get_loop v [] output_offset i = None"
| "view_get_loop v (s # ss) output_offset i =
     (let stop = output_offset + seg_width s in
      if i < stop then
        Some (case view_source v (seg_side s) of
                Some src \<Rightarrow> unwrap_null (src_get_value src (seg_offset s + (i - output_offset)))
              | None \<Rightarrow> Null)
      else view_get_loop v ss stop i)"

definition view_get_value :: "joined_view \<Rightarrow> nat \<Rightarrow> value option" where
  "view_get_value v i = view_get_loop v (jl_segments (jv_layout v)) 0 i"

section \<open>Views and materialised rows\<close>

text \<open>The values of one side of a view, NULLs when it is missing.\<close>

definition side_values :: "joined_view \<Rightarrow> join_side \<Rightarrow> nat \<Rightarrow> nat \<Rightarrow> value list" where
  "side_values v side a b =
     (case view_source v side of
        Some src \<Rightarrow> map (\<lambda>i. unwrap_null (src_get_value src i)) [a..<b]
      | None \<Rightarrow> replicate (b - a) Null)"

lemma map_upt_offset: "map (\<lambda>i. f (k + i)) [0..<n] = map f [k..<k + n]"
  by (rule nth_equalityI) auto

lemma segment_values_side: "segment_values v s = side_values v (seg_side s) (seg_offset s) (seg_offset s + seg_width s)"
  by (simp add: segment_values_def side_values_def
      map_upt_offset [of "\<lambda>i. unwrap_null (src_get_value src i)" for src] split: option.split)

lemma upt_split: "a \<le> b \<Longrightarrow> b \<le> c \<Longrightarrow> [a..<b] @ [b..<c] = [a..<c]"
  using upt_add_eq_append [of a b "c - b"] by simp

lemma side_values_append:
  assumes "a \<le> b" "b \<le> c"
  shows "side_values v side a b @ side_values v side b c = side_values v side a c"
proof (cases "view_source v side")
  case None
  then show ?thesis using assms by (simp add: side_values_def replicate_add [symmetric])
next
  case (Some src)
  then show ?thesis using upt_split [OF assms] by (simp add: side_values_def flip: map_append)
qed

lemma length_side_values [simp]: "length (side_values v side a b) = b - a"
  by (simp add: side_values_def split: option.split)

lemma length_segment_values [simp]: "length (segment_values v s) = seg_width s"
  by (simp add: segment_values_side)

lemma cover_loop_values:
  "cover_loop ss a side w = Some rest \<Longrightarrow>
     \<exists>pre. ss = pre @ rest \<and> a \<le> w \<and> concat (map (segment_values v) pre) = side_values v side a w"
proof (induction ss arbitrary: a)
  case Nil
  then show ?case by (auto simp: side_values_def split: if_splits option.split)
next
  case (Cons s ss)
  show ?case
  proof (cases "seg_side s = side")
    case True
    with Cons.prems have s: "seg_offset s = a" and "cover_loop ss (a + seg_width s) side w = Some rest"
      by (auto split: if_splits)
    with Cons.IH obtain pre where "ss = pre @ rest" "a + seg_width s \<le> w"
      "concat (map (segment_values v) pre) = side_values v side (a + seg_width s) w" by blast
    then show ?thesis
      using s True segment_values_side [of v s] by (intro exI [of _ "s # pre"]) (simp add: side_values_append)
  next
    case False
    with Cons.prems have "w = a" "rest = s # ss" by (auto split: if_splits)
    then show ?thesis by (auto simp: side_values_def split: option.split)
  qed
qed

lemma covers_values:
  "segments_cover_side_in_order ss side w = Some rest \<Longrightarrow>
     \<exists>pre. ss = pre @ rest \<and> concat (map (segment_values v) pre) = side_values v side 0 w"
proof (cases "w = 0")
  case True
  then show "segments_cover_side_in_order ss side w = Some rest \<Longrightarrow> ?thesis"
    by (intro exI [of _ "[]"]) (simp add: segments_cover_side_in_order_def side_values_def split: option.split)
next
  case False
  then show "segments_cover_side_in_order ss side w = Some rest \<Longrightarrow> ?thesis"
    using cover_loop_values [of ss 0 side w rest v] by (auto simp: segments_cover_side_in_order_def)
qed

lemma left_then_right_values:
  assumes "detect_materialization_pattern ss lw rw = LeftThenRight"
  shows "concat (map (segment_values v) ss) = side_values v SideLeft 0 lw @ side_values v SideRight 0 rw"
proof -
  from assms obtain rest where
    "segments_cover_side_in_order ss SideLeft lw = Some rest"
    "segments_cover_side_in_order rest SideRight rw = Some []"
    by (auto simp: detect_materialization_pattern_def bind_eq_Some_conv split: if_splits)
  with covers_values [of ss SideLeft lw rest v] covers_values [of rest SideRight rw "[]" v]
  show ?thesis by auto
qed

text \<open>A source of the width the layout gives its side.\<close>

definition source_fits :: "join_source option \<Rightarrow> nat \<Rightarrow> bool" where
  "source_fits s w \<longleftrightarrow> (case s of Some src \<Rightarrow> length (rvalues (re_row (src_entry src))) = w | None \<Rightarrow> True)"

lemma side_values_fits:
  assumes "source_fits (view_source v side) w"
  shows "side_values v side 0 w =
    (case view_source v side of Some src \<Rightarrow> rvalues (re_row (src_entry src)) | None \<Rightarrow> replicate w Null)"
proof (cases "view_source v side")
  case (Some src)
  then have "length (rvalues (re_row (src_entry src))) = w" using assms by (simp add: source_fits_def)
  then show ?thesis
    by (auto simp: side_values_def Some src_get_value_def entry_get_field_def row_get_def unwrap_null_def
        intro: nth_equalityI)
qed (simp add: side_values_def)

definition view_fits :: "joined_view \<Rightarrow> bool" where
  "view_fits v \<longleftrightarrow> source_fits (jv_left v) (jl_left_width (jv_layout v))
     \<and> source_fits (jv_right v) (jl_right_width (jv_layout v))"

definition layout_detected :: "join_layout \<Rightarrow> bool" where
  "layout_detected l \<longleftrightarrow>
     jl_pattern l = detect_materialization_pattern (jl_segments l) (jl_left_width l) (jl_right_width l)"

lemma layout_detected [simp]: "layout_detected (layout_from_sources lt lc rt rc ts)"
  by (simp add: layout_detected_def layout_from_sources_def Let_def)

text \<open>The fast paths build the row the segments describe.\<close>

lemma materialize_fast:
  assumes "layout_detected (jv_layout v)" "view_fits v"
  shows "view_materialize_entry v ts = entry_new_combined (view_materialize_row v) ts"
proof (cases "jl_pattern (jv_layout v) = LeftThenRight")
  case True
  then have vals: "concat (map (segment_values v) (jl_segments (jv_layout v)))
      = side_values v SideLeft 0 (jl_left_width (jv_layout v))
        @ side_values v SideRight 0 (jl_right_width (jv_layout v))"
    using left_then_right_values assms(1) unfolding layout_detected_def by metis
  have row: "view_materialize_row v = row_new_with_version
      (view_row_id (jv_left v) (jv_right v)) (view_version (jv_left v) (jv_right v))
      ((case jv_left v of Some src \<Rightarrow> rvalues (re_row (src_entry src)) | None \<Rightarrow> replicate (jl_left_width (jv_layout v)) Null)
       @ (case jv_right v of Some src \<Rightarrow> rvalues (re_row (src_entry src))
          | None \<Rightarrow> replicate (jl_right_width (jv_layout v)) Null))"
    using assms(2) side_values_fits [of v SideLeft] side_values_fits [of v SideRight]
    by (simp add: view_materialize_row_def vals view_fits_def view_source_def)
  show ?thesis
    using True row
    by (auto simp: view_materialize_entry_def combine_fast_def
        combine_with_null_fast_def combine_null_with_fast_def entry_new_combined_def entry_id_def
        split: option.split join_source.split)
next
  case False
  then show ?thesis
    by (auto simp: view_materialize_entry_def split: option.split join_source.split materialization_pattern.split)
qed

lemma view_get_loop_nth:
  "a \<le> i \<Longrightarrow> view_get_loop v ss a i =
     (let vs = concat (map (segment_values v) ss) in if i - a < length vs then Some (vs ! (i - a)) else None)"
proof (induction ss arbitrary: a)
  case (Cons s ss)
  show ?case
  proof (cases "i < a + seg_width s")
    case True
    then have "segment_values v s ! (i - a) = (case view_source v (seg_side s) of
        Some src \<Rightarrow> unwrap_null (src_get_value src (seg_offset s + (i - a))) | None \<Rightarrow> Null)"
      using Cons.prems nth_upt [of 0 "i - a" "seg_width s"]
      by (auto simp: segment_values_def simp del: nth_upt split: option.split)
    moreover have "i - a < seg_width s" using True Cons.prems by simp
    ultimately show ?thesis using True by (simp add: Let_def nth_append)
  next
    case False
    then have "i - a - seg_width s = i - (a + seg_width s)" using Cons.prems by simp
    then show ?thesis using Cons.IH [of "a + seg_width s"] False Cons.prems
      by (auto simp: Let_def nth_append)
  qed
qed simp

lemma view_get_value_row: "view_get_value v i = row_get (view_materialize_row v) i"
  by (simp add: view_get_value_def view_get_loop_nth row_get_def view_materialize_row_def Let_def
      row_new_with_version_def)

section \<open>The layout of the concatenation\<close>

lemma take_segment_loop_hit:
  "i \<le> k \<Longrightarrow> k < i + length ts \<Longrightarrow> i + length ts \<le> length used \<Longrightarrow> i + length ts \<le> length counts \<Longrightarrow>
   (\<And>j. i \<le> j \<Longrightarrow> j < k \<Longrightarrow> used ! j) \<Longrightarrow> \<not> used ! k \<Longrightarrow> ts ! (k - i) = target \<Longrightarrow>
     take_segment_loop ts counts i offset used target
     = Some ((offset + sum_list (take (k - i) (drop i counts)), counts ! k), used[k := True])"
proof (induction ts arbitrary: i offset)
  case (Cons t ts)
  show ?case
  proof (cases "i = k")
    case False
    then have "i < k" "used ! i" using Cons.prems by auto
    then have "k - i = Suc (k - Suc i)" by simp
    moreover have "drop i counts = counts ! i # drop (Suc i) counts"
      using Cons.prems by (simp add: Cons_nth_drop_Suc)
    ultimately show ?thesis
      using Cons.IH [of "Suc i" "offset + get_or_zero counts i"] Cons.prems \<open>i < k\<close> \<open>used ! i\<close>
      by (simp add: get_or_zero_def)
  qed (use Cons.prems in \<open>auto simp: Let_def get_or_zero_def\<close>)
qed simp

lemma take_segment_loop_full:
  "(\<And>j. j < length used \<Longrightarrow> used ! j) \<Longrightarrow> take_segment_loop ts counts i offset used target = None"
  by (induction ts arbitrary: i offset) (auto simp: Let_def)

definition used_up_to :: "nat \<Rightarrow> nat \<Rightarrow> bool list" where
  "used_up_to k n = map (\<lambda>j. j < k) [0..<n]"

lemma used_up_to_simps:
  "length (used_up_to k n) = n" "j < k \<Longrightarrow> j < n \<Longrightarrow> used_up_to k n ! j"
  "k \<le> j \<Longrightarrow> j < n \<Longrightarrow> \<not> used_up_to k n ! j" "used_up_to 0 n = replicate n False" "used_up_to n n = replicate n True"
  by (auto simp: used_up_to_def intro: nth_equalityI)

lemma used_up_to_step: "k < n \<Longrightarrow> (used_up_to k n)[k := True] = used_up_to (Suc k) n"
  by (rule nth_equalityI) (auto simp: used_up_to_def nth_list_update)

lemma take_segment_next:
  assumes "k < length ts" "length counts = length ts"
  shows "take_segment ts counts (used_up_to k (length ts)) (ts ! k)
    = Some ((sum_list (take k counts), counts ! k), used_up_to (Suc k) (length ts))"
  using take_segment_loop_hit [of 0 k ts "used_up_to k (length ts)" counts "ts ! k" 0] assms
  by (simp add: take_segment_def used_up_to_simps used_up_to_step)

lemma take_segment_full: "take_segment ts counts (replicate n True) target = None"
  unfolding take_segment_def by (rule take_segment_loop_full) simp

text \<open>The segments of all tables of one side.\<close>

definition side_segments :: "join_side \<Rightarrow> string list \<Rightarrow> nat list \<Rightarrow> nat \<Rightarrow> (string \<times> join_segment) list" where
  "side_segments side ts counts k =
     map (\<lambda>i. (ts ! i, \<lparr>seg_side = side, seg_offset = sum_list (take i counts), seg_width = counts ! i\<rparr>)) [k..<length ts]"

lemma layout_loop_left:
  assumes "length lc = length lt"
  shows "k \<le> length lt \<Longrightarrow>
     layout_loop lt lc rt rc (used_up_to k (length lt)) rused (drop k lt @ outputs)
     = side_segments SideLeft lt lc k @ layout_loop lt lc rt rc (replicate (length lt) True) rused outputs"
proof (induction "length lt - k" arbitrary: k)
  case 0
  then show ?case by (simp add: side_segments_def used_up_to_simps)
next
  case (Suc m)
  then have k: "k < length lt" by simp
  have "layout_loop lt lc rt rc (used_up_to k (length lt)) rused (drop k lt @ outputs)
      = (lt ! k, \<lparr>seg_side = SideLeft, seg_offset = sum_list (take k lc), seg_width = lc ! k\<rparr>)
        # layout_loop lt lc rt rc (used_up_to (Suc k) (length lt)) rused (drop (Suc k) lt @ outputs)"
    using k assms by (simp add: take_segment_next flip: Cons_nth_drop_Suc)
  then show ?case
    using Suc k by (simp add: side_segments_def upt_conv_Cons)
qed

lemma layout_loop_right:
  assumes "length rc = length rt"
  shows "k \<le> length rt \<Longrightarrow>
     layout_loop lt lc rt rc (replicate n True) (used_up_to k (length rt)) (drop k rt) = side_segments SideRight rt rc k"
proof (induction "length rt - k" arbitrary: k)
  case 0
  then show ?case by (simp add: side_segments_def)
next
  case (Suc m)
  then have k: "k < length rt" by simp
  have "layout_loop lt lc rt rc (replicate n True) (used_up_to k (length rt)) (drop k rt)
      = (rt ! k, \<lparr>seg_side = SideRight, seg_offset = sum_list (take k rc), seg_width = rc ! k\<rparr>)
        # layout_loop lt lc rt rc (replicate n True) (used_up_to (Suc k) (length rt)) (drop (Suc k) rt)"
    using k assms by (simp add: take_segment_next take_segment_full flip: Cons_nth_drop_Suc)
  then show ?case
    using Suc k by (simp add: side_segments_def upt_conv_Cons)
qed

lemma layout_concat:
  assumes "length lc = length lt" "length rc = length rt"
  shows "layout_loop lt lc rt rc (replicate (length lt) False) (replicate (length rt) False) (lt @ rt)
    = side_segments SideLeft lt lc 0 @ side_segments SideRight rt rc 0"
  using layout_loop_left [OF assms(1), of 0] layout_loop_right [OF assms(2), of 0]
  by (simp add: used_up_to_simps)

lemma side_segments_maps:
  assumes "length counts = length ts"
  shows "map fst (side_segments side ts counts 0) = ts"
    "map (seg_width \<circ> snd) (side_segments side ts counts 0) = counts"
  using assms by (auto simp: side_segments_def intro!: nth_equalityI)

lemma side_segments_values:
  assumes "length counts = length ts" "k \<le> length ts"
  shows "concat (map (segment_values v) (map snd (side_segments side ts counts k)))
    = side_values v side (sum_list (take k counts)) (sum_list counts)"
  using assms(2)
proof (induction "length ts - k" arbitrary: k)
  case 0
  then show ?case using assms(1) by (simp add: side_segments_def side_values_def split: option.split)
next
  case (Suc m)
  then have k: "k < length ts" by simp
  have step: "sum_list (take (Suc k) counts) = sum_list (take k counts) + counts ! k"
    using k assms(1) by (simp add: take_Suc_conv_app_nth)
  have le: "sum_list (take (Suc k) counts) \<le> sum_list counts"
    by (metis append_take_drop_id le_add1 sum_list_append)
  show ?case
    using Suc k step le side_values_append [of "sum_list (take k counts)" "sum_list (take (Suc k) counts)" "sum_list counts" v side]
    by (simp add: side_segments_def upt_conv_Cons segment_values_side)
qed

lemma layout_values:
  assumes "length lc = length lt" "length rc = length rt"
  shows "jl_tables (layout_from_sources lt lc rt rc (lt @ rt)) = lt @ rt"
    "jl_counts (layout_from_sources lt lc rt rc (lt @ rt)) = lc @ rc"
    "jl_left_width (layout_from_sources lt lc rt rc (lt @ rt)) = sum_list lc"
    "jl_right_width (layout_from_sources lt lc rt rc (lt @ rt)) = sum_list rc"
    "concat (map (segment_values v) (jl_segments (layout_from_sources lt lc rt rc (lt @ rt))))
      = side_values v SideLeft 0 (sum_list lc) @ side_values v SideRight 0 (sum_list rc)"
  using side_segments_values [OF assms(1), of 0 v SideLeft] side_segments_values [OF assms(2), of 0 v SideRight]
  by (simp_all add: layout_from_sources_def Let_def layout_concat [OF assms] side_segments_maps assms)

section \<open>Properties\<close>

text \<open>
  C26. Reading a joined row through its view and building it agree: when the rows have the widths of their side,
  the fast paths build the row that the segments describe, and every column read from the view is that
  column of the row, in whatever order the output tables are listed.
\<close>

theorem joined_view_consistent:
  assumes "jv_layout v = layout_from_sources lt lc rt rc outputs" "view_fits v"
  shows "view_materialize_entry v ts = entry_new_combined (view_materialize_row v) ts
    \<and> (\<forall>i. view_get_value v i = entry_get_field (view_materialize_entry v ts) i)"
  using materialize_fast [of v ts] assms
  by (simp add: view_get_value_row entry_get_field_def entry_new_combined_def)

theorem joined_view_consistent_witness:
  "let l = entry_from_row (row_new 1 [Int32 1, Int32 2]) ''a''; r = entry_from_row (row_new 2 [Int32 3]) ''b'';
       v = view_from_entries (Some l) (Some r) (layout_from_sources [''a''] [2] [''b''] [1] [''b'', ''a''])
   in view_get_value v 1 = Some (Int32 1) \<and> entry_get_field (view_materialize_entry v [''b'', ''a'']) 1 = Some (Int32 1)"
proof -
  let ?l = "entry_from_row (row_new 1 [Int32 1, Int32 2]) ''a''" and ?r = "entry_from_row (row_new 2 [Int32 3]) ''b''"
  let ?v = "view_from_entries (Some ?l) (Some ?r) (layout_from_sources [''a''] [2] [''b''] [1] [''b'', ''a''])"
  have layout: "jv_layout ?v = layout_from_sources [''a''] [2] [''b''] [1] [''b'', ''a'']" "view_fits ?v"
    by (simp_all add: view_from_entries_def view_fits_def source_fits_def layout_from_sources_def Let_def
        entry_from_row_def row_new_def)
  have "view_get_value ?v 1 = Some (Int32 1)"
    by (simp add: view_get_value_def view_from_entries_def layout_from_sources_def Let_def take_segment_def
        get_or_zero_def view_source_def src_get_value_def entry_get_field_def entry_from_row_def row_new_def
        row_get_def unwrap_null_def)
  with joined_view_consistent [OF layout, of "[''b'', ''a'']"] show ?thesis by (simp add: Let_def)
qed

end
