(* ===== verification/Cynos_Join_Exec.thy ===== *)
theory Cynos_Join_Exec
  imports Cynos_Relation Cynos_Compiled_Predicate
begin

text \<open>
  The joins of the executor (\<open>crates/query/src/executor/runner.rs\<close>): hash join, sort-merge join, nested loops
  with an interpreted and with a compiled condition, cross product. Each hands its rows one by one to a
  callback, which may fail or stop the join; that control flow is kept. A panic of the evaluation of a
  condition is a panic of the join.
\<close>

section \<open>Control flow\<close>

datatype exec_error =
    ExecTableNotFound string
  | ExecIndexNotFound string string
  | ExecColumnNotFound string string
  | ExecTypeMismatch string
  | ExecInvalidOperation string

text \<open>
  How a piece of a function ends: it returns an error, returns \<open>Ok(false)\<close> because the callback asked to stop,
  panics, or goes on. The callback's captured state is \<open>'s\<close>.
\<close>

datatype ('s, 'a) flow = Fail exec_error | Stop 's | Panic | Go 'a

fun flow_bind :: "('s, 'a) flow \<Rightarrow> ('a \<Rightarrow> ('s, 'b) flow) \<Rightarrow> ('s, 'b) flow" where
  "flow_bind (Fail err) k = Fail err"
| "flow_bind (Stop s) k = Stop s"
| "flow_bind Panic k = Panic"
| "flow_bind (Go a) k = k a"

fun for_loop :: "('x \<Rightarrow> 'a \<Rightarrow> ('s, 'a) flow) \<Rightarrow> 'x list \<Rightarrow> 'a \<Rightarrow> ('s, 'a) flow" where
  "for_loop body [] a = Go a"
| "for_loop body (x # xs) a = flow_bind (body x a) (for_loop body xs)"

type_synonym 's emitter = "relation_entry \<Rightarrow> 's \<Rightarrow> ('s, 's) flow"

definition emit_join_view :: "'s emitter \<Rightarrow> joined_view \<Rightarrow> string list \<Rightarrow> 's \<Rightarrow> ('s, 's) flow" where
  "emit_join_view emit v shared_tables s = emit (view_materialize_entry v shared_tables) s"

section \<open>Hash join\<close>

datatype build_side = BuildLeft | BuildRight

fun choose_hash_join_build_side :: "nat \<Rightarrow> nat \<Rightarrow> join_type \<Rightarrow> build_side" where
  "choose_hash_join_build_side left_rows right_rows LeftOuter = BuildRight"
| "choose_hash_join_build_side left_rows right_rows RightOuter = BuildLeft"
| "choose_hash_join_build_side left_rows right_rows FullOuter =
     (if left_rows \<le> right_rows then BuildLeft else BuildRight)"
| "choose_hash_join_build_side left_rows right_rows Inner =
     (if left_rows \<le> right_rows then BuildLeft else BuildRight)"
| "choose_hash_join_build_side left_rows right_rows Cross = BuildRight"

fun hash_join_emit_unmatched_probe :: "join_type \<Rightarrow> build_side \<Rightarrow> bool" where
  "hash_join_emit_unmatched_probe LeftOuter side \<longleftrightarrow> side = BuildRight"
| "hash_join_emit_unmatched_probe RightOuter side \<longleftrightarrow> side = BuildLeft"
| "hash_join_emit_unmatched_probe FullOuter side \<longleftrightarrow> True"
| "hash_join_emit_unmatched_probe Inner side \<longleftrightarrow> False"
| "hash_join_emit_unmatched_probe Cross side \<longleftrightarrow> False"

fun hash_join_emit_unmatched_build :: "join_type \<Rightarrow> build_side \<Rightarrow> bool" where
  "hash_join_emit_unmatched_build LeftOuter side \<longleftrightarrow> side = BuildLeft"
| "hash_join_emit_unmatched_build RightOuter side \<longleftrightarrow> side = BuildRight"
| "hash_join_emit_unmatched_build FullOuter side \<longleftrightarrow> True"
| "hash_join_emit_unmatched_build Inner side \<longleftrightarrow> False"
| "hash_join_emit_unmatched_build Cross side \<longleftrightarrow> False"

fun hash_join_matched_view :: "relation_entry \<Rightarrow> relation_entry \<Rightarrow> join_layout \<Rightarrow> build_side \<Rightarrow> joined_view" where
  "hash_join_matched_view b p layout BuildLeft =
     \<lparr>jv_left = Some (SrcEntry b), jv_right = Some (SrcView p), jv_layout = layout\<rparr>"
| "hash_join_matched_view b p layout BuildRight =
     \<lparr>jv_left = Some (SrcView p), jv_right = Some (SrcEntry b), jv_layout = layout\<rparr>"

fun hash_join_unmatched_probe_view :: "relation_entry \<Rightarrow> join_layout \<Rightarrow> build_side \<Rightarrow> joined_view" where
  "hash_join_unmatched_probe_view p layout BuildLeft =
     \<lparr>jv_left = None, jv_right = Some (SrcView p), jv_layout = layout\<rparr>"
| "hash_join_unmatched_probe_view p layout BuildRight =
     \<lparr>jv_left = Some (SrcView p), jv_right = None, jv_layout = layout\<rparr>"

fun hash_join_unmatched_build_view :: "relation_entry \<Rightarrow> join_layout \<Rightarrow> build_side \<Rightarrow> joined_view" where
  "hash_join_unmatched_build_view b layout BuildLeft =
     \<lparr>jv_left = Some (SrcEntry b), jv_right = None, jv_layout = layout\<rparr>"
| "hash_join_unmatched_build_view b layout BuildRight =
     \<lparr>jv_left = None, jv_right = Some (SrcEntry b), jv_layout = layout\<rparr>"

text \<open>The key of an entry, when it is there and not NULL.\<close>

definition join_key :: "relation_entry \<Rightarrow> nat \<Rightarrow> value option" where
  "join_key e key_idx =
     (case entry_get_field e key_idx of
        Some v \<Rightarrow> if value_is_null v then None else Some v
      | None \<Rightarrow> None)"

text \<open>
  The hash table from keys to the 32-bit positions of their entries. \<open>SqlValueRef\<close> hashes and compares with the SQL
  hash and equality; a key is found when both agree.
\<close>

type_synonym key_table = "(value \<times> 32 word list) list"

definition sql_value_ref_eq :: "value \<Rightarrow> value \<Rightarrow> bool" where
  "sql_value_ref_eq a b \<longleftrightarrow> sql_hash a = sql_hash b \<and> sql_eq a b"

fun table_push :: "value \<Rightarrow> 32 word \<Rightarrow> key_table \<Rightarrow> key_table" where
  "table_push k i [] = [(k, [i])]"
| "table_push k i ((k', is) # t) =
     (if sql_value_ref_eq k' k then (k', is @ [i]) # t else (k', is) # table_push k i t)"

fun table_get :: "value \<Rightarrow> key_table \<Rightarrow> 32 word list option" where
  "table_get k [] = None"
| "table_get k ((k', is) # t) = (if sql_value_ref_eq k' k then Some is else table_get k t)"

definition build_hash_table :: "relation_entry list \<Rightarrow> nat \<Rightarrow> key_table" where
  "build_hash_table entries key_idx =
     foldl (\<lambda>t (index, e). case join_key e key_idx of Some k \<Rightarrow> table_push k (of_nat index) t | None \<Rightarrow> t) []
       (List.enumerate 0 entries)"

definition emit_hash_join_entries ::
  "exec_relation \<Rightarrow> exec_relation \<Rightarrow> nat \<Rightarrow> nat \<Rightarrow> join_type \<Rightarrow> string list \<Rightarrow> 's emitter \<Rightarrow> 's \<Rightarrow> ('s, 's) flow" where
  "emit_hash_join_entries left right left_key_idx right_key_idx jt outputs emit s0 =
     (let side = choose_hash_join_build_side (xr_len left) (xr_len right) jt;
          (build_rel, probe_rel, build_key_idx, probe_key_idx) =
            (case side of BuildLeft \<Rightarrow> (left, right, left_key_idx, right_key_idx)
             | BuildRight \<Rightarrow> (right, left, right_key_idx, left_key_idx));
          unmatched_probe = hash_join_emit_unmatched_probe jt side;
          unmatched_build = hash_join_emit_unmatched_build jt side;
          layout = join_output_layout left right outputs;
          shared_tables = jl_tables layout;
          hash_table = build_hash_table (xr_entries build_rel) build_key_idx;
          build_matched = (if unmatched_build then replicate (xr_len build_rel) False else [])
      in flow_bind
        (for_loop (\<lambda>probe_entry (build_matched, s).
           (case Option.bind (join_key probe_entry probe_key_idx) (\<lambda>k. table_get k hash_table) of
              Some build_indices \<Rightarrow>
                for_loop (\<lambda>index (build_matched, s).
                  flow_bind
                    (emit_join_view emit
                      (hash_join_matched_view (xr_entries build_rel ! unat index) probe_entry layout side) shared_tables s)
                    (\<lambda>s. Go (if unmatched_build then build_matched[unat index := True] else build_matched, s)))
                  build_indices (build_matched, s)
            | None \<Rightarrow>
                if unmatched_probe then
                  flow_bind (emit_join_view emit (hash_join_unmatched_probe_view probe_entry layout side) shared_tables s)
                    (\<lambda>s. Go (build_matched, s))
                else Go (build_matched, s)))
          (xr_entries probe_rel) (build_matched, s0))
        (\<lambda>(build_matched, s).
          if unmatched_build then
            for_loop (\<lambda>(build_index, build_entry) s.
              if \<not> build_matched ! build_index
              then emit_join_view emit (hash_join_unmatched_build_view build_entry layout side) shared_tables s
              else Go s)
              (List.enumerate 0 (xr_entries build_rel)) s
          else Go s))"

section \<open>Sort-merge join\<close>

text \<open>\<open>sort_by\<close> is a stable sort; insertion sort is one.\<close>

fun insert_by :: "('a \<Rightarrow> 'a \<Rightarrow> ordering) \<Rightarrow> 'a \<Rightarrow> 'a list \<Rightarrow> 'a list" where
  "insert_by cmp x [] = [x]"
| "insert_by cmp x (y # ys) = (if cmp x y = Greater then y # insert_by cmp x ys else x # y # ys)"

definition sort_by :: "('a \<Rightarrow> 'a \<Rightarrow> ordering) \<Rightarrow> 'a list \<Rightarrow> 'a list" where
  "sort_by cmp xs = foldr (insert_by cmp) xs []"

fun compare_fields :: "value option \<Rightarrow> value option \<Rightarrow> ordering" where
  "compare_fields None None = Equal"
| "compare_fields None (Some _) = Less"
| "compare_fields (Some _) None = Greater"
| "compare_fields (Some a) (Some b) = value_cmp a b"

definition sort_entries :: "nat \<Rightarrow> relation_entry list \<Rightarrow> relation_entry list" where
  "sort_entries key_idx es = sort_by (\<lambda>a b. compare_fields (entry_get_field a key_idx) (entry_get_field b key_idx)) es"

text \<open>The right entries that are skipped for good: those without a key and those below the left key.\<close>

fun merge_skip :: "nat \<Rightarrow> value \<Rightarrow> relation_entry list \<Rightarrow> relation_entry list" where
  "merge_skip key_idx left_value [] = []"
| "merge_skip key_idx left_value (r # rs) =
     (case join_key r key_idx of
        None \<Rightarrow> merge_skip key_idx left_value rs
      | Some v \<Rightarrow> if value_cmp v left_value = Less then merge_skip key_idx left_value rs else r # rs)"

text \<open>The scan from there, which leaves the position alone; the flag says that something matched.\<close>

fun merge_scan ::
  "'s emitter \<Rightarrow> relation_entry \<Rightarrow> value \<Rightarrow> nat \<Rightarrow> join_layout \<Rightarrow> relation_entry list \<Rightarrow> bool \<Rightarrow> 's
    \<Rightarrow> ('s, bool \<times> 's) flow" where
  "merge_scan emit left_entry left_value key_idx layout [] matched s = Go (matched, s)"
| "merge_scan emit left_entry left_value key_idx layout (r # rs) matched s =
     (case join_key r key_idx of
        None \<Rightarrow> merge_scan emit left_entry left_value key_idx layout rs matched s
      | Some v \<Rightarrow>
          (case value_cmp left_value v of
             Equal \<Rightarrow>
               flow_bind (emit_join_view emit (view_from_entries (Some left_entry) (Some r) layout) (jl_tables layout) s)
                 (merge_scan emit left_entry left_value key_idx layout rs True)
           | Less \<Rightarrow> Go (matched, s)
           | Greater \<Rightarrow> merge_scan emit left_entry left_value key_idx layout rs matched s))"

definition emit_sort_merge_join_entries ::
  "exec_relation \<Rightarrow> exec_relation \<Rightarrow> nat \<Rightarrow> nat \<Rightarrow> join_type \<Rightarrow> string list \<Rightarrow> 's emitter \<Rightarrow> 's \<Rightarrow> ('s, 's) flow" where
  "emit_sort_merge_join_entries left right left_key_idx right_key_idx jt outputs emit s0 =
     (let left_entries = sort_entries left_key_idx (xr_entries left);
          right_entries = sort_entries right_key_idx (xr_entries right);
          is_outer = (jt = LeftOuter \<or> jt = FullOuter);
          layout = join_output_layout left right outputs;
          emit_left = (\<lambda>left_entry s.
            emit_join_view emit (view_from_entries (Some left_entry) None layout) (jl_tables layout) s)
      in flow_bind
        (for_loop (\<lambda>left_entry (rights, s).
           (case join_key left_entry left_key_idx of
              None \<Rightarrow>
                if is_outer then flow_bind (emit_left left_entry s) (\<lambda>s. Go (rights, s)) else Go (rights, s)
            | Some left_value \<Rightarrow>
                (let rights = merge_skip right_key_idx left_value rights in
                 flow_bind (merge_scan emit left_entry left_value right_key_idx layout rights False s)
                   (\<lambda>(matched, s).
                     if is_outer \<and> \<not> matched then flow_bind (emit_left left_entry s) (\<lambda>s. Go (rights, s))
                     else Go (rights, s)))))
          left_entries (right_entries, s0))
        (\<lambda>(_, s). Go s))"

section \<open>Nested loops\<close>

definition view_values :: "joined_view \<Rightarrow> value list" where
  "view_values v = map (\<lambda>i. unwrap_null (view_get_value v i)) [0..<jl_total_width (jv_layout v)]"

text \<open>The two variants differ in how the condition is evaluated on a view.\<close>

definition nested_loop_entries ::
  "(joined_view \<Rightarrow> bool option) \<Rightarrow> exec_relation \<Rightarrow> exec_relation \<Rightarrow> join_type \<Rightarrow> join_layout \<Rightarrow> 's emitter \<Rightarrow> 's
    \<Rightarrow> ('s, 's) flow" where
  "nested_loop_entries holds left right jt layout emit s0 =
     (let shared_tables = jl_tables layout;
          unmatched_left = (jt = LeftOuter \<or> jt = FullOuter);
          track_right = (jt = RightOuter \<or> jt = FullOuter);
          right_matched = (if track_right then replicate (xr_len right) False else [])
      in flow_bind
        (for_loop (\<lambda>left_entry (right_matched, s).
           flow_bind
             (for_loop (\<lambda>(right_index, right_entry) (matched, right_matched, s).
                let v = view_from_entries (Some left_entry) (Some right_entry) layout in
                case holds v of
                  None \<Rightarrow> Panic
                | Some False \<Rightarrow> Go (matched, right_matched, s)
                | Some True \<Rightarrow>
                    flow_bind (emit_join_view emit v shared_tables s)
                      (\<lambda>s. Go (True, if track_right then right_matched[right_index := True] else right_matched, s)))
                (List.enumerate 0 (xr_entries right)) (False, right_matched, s))
             (\<lambda>(matched, right_matched, s).
               if unmatched_left \<and> \<not> matched then
                 flow_bind (emit_join_view emit (view_from_entries (Some left_entry) None layout) shared_tables s)
                   (\<lambda>s. Go (right_matched, s))
               else Go (right_matched, s)))
          (xr_entries left) (right_matched, s0))
        (\<lambda>(right_matched, s).
          if track_right then
            for_loop (\<lambda>(right_index, right_entry) s.
              if \<not> right_matched ! right_index
              then emit_join_view emit (view_from_entries None (Some right_entry) layout) shared_tables s
              else Go s)
              (List.enumerate 0 (xr_entries right)) s
          else Go s))"

definition emit_nested_loop_join_entries ::
  "eval_host \<Rightarrow> exec_relation \<Rightarrow> exec_relation \<Rightarrow> expr \<Rightarrow> join_type \<Rightarrow> string list \<Rightarrow> 's emitter \<Rightarrow> 's
    \<Rightarrow> ('s, 's) flow" where
  "emit_nested_loop_join_entries h left right condition jt outputs emit s =
     (let layout = join_output_layout left right outputs;
          ctx = \<lparr>ec_tables = jl_tables layout, ec_counts = jl_counts layout\<rparr>
      in nested_loop_entries (\<lambda>v. eval_predicate h (Some ctx) (view_values v) condition) left right jt layout emit s)"

definition emit_nested_loop_join_entries_compiled ::
  "eval_host \<Rightarrow> json_host \<Rightarrow> exec_relation \<Rightarrow> exec_relation \<Rightarrow> compiled_predicate \<Rightarrow> join_type \<Rightarrow> string list
    \<Rightarrow> 's emitter \<Rightarrow> 's \<Rightarrow> ('s, 's) flow" where
  "emit_nested_loop_join_entries_compiled h jh left right predicate jt outputs emit s =
     (let layout = join_output_layout left right outputs
      in nested_loop_entries
           (\<lambda>v. map_option (\<lambda>st. st = PsBoolean True) (eval_compiled h jh (view_values v) predicate))
           left right jt layout emit s)"

definition emit_cross_product_entries ::
  "exec_relation \<Rightarrow> exec_relation \<Rightarrow> 's emitter \<Rightarrow> 's \<Rightarrow> ('s, 's) flow" where
  "emit_cross_product_entries left right emit s =
     (let layout = join_output_layout left right (xr_tables left @ xr_tables right)
      in for_loop (\<lambda>left_entry s.
           for_loop (\<lambda>right_entry s.
             emit_join_view emit (view_from_entries (Some left_entry) (Some right_entry) layout) (jl_tables layout) s)
             (xr_entries right) s)
           (xr_entries left) s)"

section \<open>The joins as functions on relations\<close>

definition collecting :: "(relation_entry list) emitter" where
  "collecting e es = Go (es @ [e])"

definition extract_column_ref :: "expr \<Rightarrow> exec_error + column_ref" where
  "extract_column_ref e =
     (case e of Column c \<Rightarrow> Inr c | _ \<Rightarrow> Inl (ExecInvalidOperation ''Expected column reference''))"

definition xr_context :: "exec_relation \<Rightarrow> eval_context" where
  "xr_context r = \<lparr>ec_tables = xr_tables r, ec_counts = xr_counts r\<rparr>"

definition extract_join_keys :: "expr \<Rightarrow> exec_relation \<Rightarrow> exec_relation \<Rightarrow> exec_error + (nat \<times> nat)" where
  "extract_join_keys condition left right =
     (case condition of
        BinaryOp left_expr OpEq right_expr \<Rightarrow>
          (case extract_column_ref left_expr of Inl err \<Rightarrow> Inl err | Inr left_col \<Rightarrow>
          (case extract_column_ref right_expr of Inl err \<Rightarrow> Inl err | Inr right_col \<Rightarrow>
            if cr_table left_col \<in> set (xr_tables left) \<and> cr_table right_col \<in> set (xr_tables right) then
              Inr (resolve_column_index (xr_context left) (cr_table left_col) (cr_index left_col),
                   resolve_column_index (xr_context right) (cr_table right_col) (cr_index right_col))
            else if cr_table right_col \<in> set (xr_tables left) \<and> cr_table left_col \<in> set (xr_tables right) then
              Inr (resolve_column_index (xr_context left) (cr_table right_col) (cr_index right_col),
                   resolve_column_index (xr_context right) (cr_table left_col) (cr_index left_col))
            else Inl (ExecInvalidOperation ''Join columns do not match relation tables'')))
      | _ \<Rightarrow> Inl (ExecInvalidOperation ''Expected equi-join condition''))"

text \<open>The \<open>?\<close> operator.\<close>

fun question :: "exec_error + 'a \<Rightarrow> ('a \<Rightarrow> ('s, 'b) flow) \<Rightarrow> ('s, 'b) flow" where
  "question (Inl err) k = Fail err"
| "question (Inr a) k = k a"

definition relation_of :: "join_layout \<Rightarrow> relation_entry list \<Rightarrow> ('s, exec_relation) flow" where
  "relation_of layout es = Go (xr_from_entries es (jl_tables layout) (jl_counts layout))"

definition execute_hash_join ::
  "exec_relation \<Rightarrow> exec_relation \<Rightarrow> expr \<Rightarrow> join_type \<Rightarrow> string list \<Rightarrow> (relation_entry list, exec_relation) flow" where
  "execute_hash_join left right condition jt outputs =
     question (extract_join_keys condition left right) (\<lambda>(lk, rk).
     flow_bind (emit_hash_join_entries left right lk rk jt outputs collecting [])
       (relation_of (join_output_layout left right outputs)))"

definition execute_sort_merge_join ::
  "exec_relation \<Rightarrow> exec_relation \<Rightarrow> expr \<Rightarrow> join_type \<Rightarrow> string list \<Rightarrow> (relation_entry list, exec_relation) flow" where
  "execute_sort_merge_join left right condition jt outputs =
     question (extract_join_keys condition left right) (\<lambda>(lk, rk).
     flow_bind (emit_sort_merge_join_entries left right lk rk jt outputs collecting [])
       (relation_of (join_output_layout left right outputs)))"

definition execute_nested_loop_join ::
  "eval_host \<Rightarrow> exec_relation \<Rightarrow> exec_relation \<Rightarrow> expr \<Rightarrow> join_type \<Rightarrow> string list
    \<Rightarrow> (relation_entry list, exec_relation) flow" where
  "execute_nested_loop_join h left right condition jt outputs =
     flow_bind (emit_nested_loop_join_entries h left right condition jt outputs collecting [])
       (relation_of (join_output_layout left right outputs))"

definition execute_cross_product :: "exec_relation \<Rightarrow> exec_relation \<Rightarrow> (relation_entry list, exec_relation) flow" where
  "execute_cross_product left right =
     flow_bind (emit_cross_product_entries left right collecting [])
       (relation_of (join_output_layout left right (xr_tables left @ xr_tables right)))"

end
