(* ===== verification/Cynos_Join_Equiv.thy ===== *)
theory Cynos_Join_Equiv
  imports Cynos_Join_Exec Cynos_Predicate_Compiler "HOL-Library.Multiset"
begin

text \<open>
  The join algorithms compute the same join. Each of them is first shown to hand a list of rows to its callback,
  whatever the callback does with them; the lists are then compared, as multisets, with the join the condition
  defines.
\<close>

section \<open>Loops that emit\<close>

lemma flow_bind_assoc: "flow_bind (flow_bind m f) g = flow_bind m (\<lambda>a. flow_bind (f a) g)"
  by (cases m) auto

lemma flow_bind_Go [simp]: "flow_bind m Go = m"
  by (cases m) auto

lemma for_loop_Nil [simp]: "for_loop body [] = Go"
  by (rule ext) simp

lemma for_loop_append: "for_loop body (xs @ ys) = (\<lambda>a. flow_bind (for_loop body xs a) (for_loop body ys))"
proof (induction xs)
  case (Cons x xs)
  show ?case by (rule ext) (simp add: Cons flow_bind_assoc)
qed simp

text \<open>What a loop with a local state emits in all, when each step emits a list and updates the state.\<close>

fun emitted :: "('x \<Rightarrow> 'a \<Rightarrow> 'e list) \<Rightarrow> ('x \<Rightarrow> 'a \<Rightarrow> 'a) \<Rightarrow> 'x list \<Rightarrow> 'a \<Rightarrow> 'e list" where
  "emitted out upd [] a = []"
| "emitted out upd (x # xs) a = out x a @ emitted out upd xs (upd x a)"

lemma for_loop_emitted:
  assumes "\<And>x a s. x \<in> set xs \<Longrightarrow>
    body x (a, s) = flow_bind (for_loop emit (out x a) s) (\<lambda>s. Go (upd x a, s))"
  shows "for_loop body xs (a, s) = flow_bind (for_loop emit (emitted out upd xs a) s) (\<lambda>s. Go (fold upd xs a, s))"
  using assms by (induction xs arbitrary: a s) (auto simp: flow_bind_assoc for_loop_append)

lemma emitted_stateless: "emitted (\<lambda>x _. out x) upd xs a = concat (map out xs)"
  by (induction xs arbitrary: a) auto

lemma for_loop_emit_list:
  assumes "\<And>x s. x \<in> set xs \<Longrightarrow> body x s = for_loop emit (out x) s"
  shows "for_loop body xs s = for_loop emit (concat (map out xs)) s"
proof -
  have "for_loop body xs s = for_loop (\<lambda>x. for_loop emit (out x)) xs s"
    using assms by (induction xs arbitrary: s) (auto intro!: arg_cong [where f = "flow_bind _"])
  also have "\<dots> = for_loop emit (concat (map out xs)) s"
  proof (induction xs arbitrary: s)
    case (Cons x xs)
    then have "for_loop (\<lambda>x. for_loop emit (out x)) xs = for_loop emit (concat (map out xs))" by (rule ext)
    then show ?case by (simp add: for_loop_append)
  qed simp
  finally show ?thesis .
qed

lemma for_loop_cong [fundef_cong]:
  assumes "xs = ys" "a = b" "\<And>x a. x \<in> set ys \<Longrightarrow> f x a = g x a"
  shows "for_loop f xs a = for_loop g ys b"
proof -
  have "for_loop f ys b = for_loop g ys b" using assms(3)
    by (induction ys arbitrary: b) (auto intro!: arg_cong [where f = "flow_bind _"])
  then show ?thesis using assms by simp
qed

lemma emit_view_single:
  "emit_join_view emit v ts s = for_loop emit [view_materialize_entry v ts] s"
  by (simp add: emit_join_view_def)

lemma collecting_loop: "for_loop collecting es acc = Go (acc @ es)"
  by (induction es arbitrary: acc) (simp_all add: collecting_def)

section \<open>The hash table\<close>

fun widen :: "value \<Rightarrow> value" where
  "widen (Int32 i) = Int64 (scast i)"
| "widen v = v"

lemma sql_eq_widen: "sql_eq a b \<longleftrightarrow> value_eq (widen a) (widen b)"
  by (cases a; cases b) (auto simp: scast_i64_sint dest: signed_word_eqI)

lemma sql_eq_trans: "sql_eq a b \<Longrightarrow> sql_eq b c \<Longrightarrow> sql_eq a c"
  unfolding sql_eq_widen by (rule value_eq_trans)

lemma ref_eq_equiv:
  "sql_value_ref_eq a a" "sql_value_ref_eq a b \<Longrightarrow> sql_value_ref_eq b a"
  "sql_value_ref_eq a b \<Longrightarrow> sql_value_ref_eq b c \<Longrightarrow> sql_value_ref_eq a c"
  using sql_eq_trans by (auto simp: sql_value_ref_eq_def sql_eq_sym)

lemma ref_eq_right: "sql_value_ref_eq k0 k \<Longrightarrow> sql_value_ref_eq a k0 = sql_value_ref_eq a k"
  by (meson ref_eq_equiv)

lemma ref_eq_join: "sql_value_ref_eq a k0 \<Longrightarrow> sql_value_ref_eq a k \<Longrightarrow> sql_value_ref_eq k0 k"
  by (meson ref_eq_equiv)

lemma ref_eq_nonfloat: "\<not> is_float a \<Longrightarrow> sql_value_ref_eq a b \<longleftrightarrow> sql_eq a b"
  using sql_hash_nonint by (auto simp: sql_value_ref_eq_def)

lemma table_get_push:
  "table_get k (table_push k0 i t) =
     (if sql_value_ref_eq k0 k then Some ((case table_get k t of None \<Rightarrow> [] | Some is \<Rightarrow> is) @ [i])
      else table_get k t)"
  by (induction t) (auto simp: ref_eq_right dest: ref_eq_join)

text \<open>The positions of the entries with a key.\<close>

definition key_positions :: "value \<Rightarrow> relation_entry list \<Rightarrow> nat \<Rightarrow> nat list" where
  "key_positions k es key_idx =
     filter (\<lambda>i. case join_key (es ! i) key_idx of Some k' \<Rightarrow> sql_value_ref_eq k' k | None \<Rightarrow> False) [0..<length es]"

lemma key_positions_snoc:
  "key_positions k (es @ [e]) key_idx = key_positions k es key_idx
     @ (case join_key e key_idx of Some k' \<Rightarrow> if sql_value_ref_eq k' k then [length es] else [] | None \<Rightarrow> [])"
proof -
  have "filter (\<lambda>i. case join_key ((es @ [e]) ! i) key_idx of Some k' \<Rightarrow> sql_value_ref_eq k' k | None \<Rightarrow> False)
      [0..<length es] = key_positions k es key_idx"
    unfolding key_positions_def by (rule filter_cong) (auto simp: nth_append)
  then show ?thesis by (simp add: key_positions_def split: option.split)
qed

lemma build_hash_table_get:
  "table_get k (build_hash_table es key_idx) =
     (if key_positions k es key_idx = [] then None else Some (map of_nat (key_positions k es key_idx)))"
proof (induction es rule: rev_induct)
  case Nil
  then show ?case by (simp add: build_hash_table_def key_positions_def)
next
  case (snoc e es)
  have "build_hash_table (es @ [e]) key_idx =
      (case join_key e key_idx of Some k \<Rightarrow> table_push k (of_nat (length es)) (build_hash_table es key_idx)
       | None \<Rightarrow> build_hash_table es key_idx)"
    by (auto simp: build_hash_table_def enumerate_append_eq split: option.split)
  then show ?case
    using snoc by (auto simp: key_positions_snoc table_get_push split: option.split)
qed

lemma key_positions_entries:
  "map (\<lambda>i. es ! i) (key_positions k es key_idx)
   = filter (\<lambda>e. case join_key e key_idx of Some k' \<Rightarrow> sql_value_ref_eq k' k | None \<Rightarrow> False) es"
proof -
  have "filter p es = map (\<lambda>i. es ! i) (filter (\<lambda>i. p (es ! i)) [0..<length es])" for p
    using filter_map [of p "\<lambda>i. es ! i" "[0..<length es]"] by (simp add: map_nth comp_def)
  then show ?thesis by (simp add: key_positions_def)
qed

section \<open>What each join emits\<close>

text \<open>The rows of a probe: one for each match, or the padded row.\<close>

definition probe_rows ::
  "('p \<Rightarrow> 'b \<Rightarrow> bool) \<Rightarrow> ('p \<Rightarrow> 'b \<Rightarrow> 'e) \<Rightarrow> ('p \<Rightarrow> 'e) \<Rightarrow> bool \<Rightarrow> 'b list \<Rightarrow> 'p \<Rightarrow> 'e list" where
  "probe_rows on f g pad bs p =
     (let ms = filter (on p) bs in if ms \<noteq> [] then map (f p) ms else if pad then [g p] else [])"

definition unmatched_rows :: "('p \<Rightarrow> 'b \<Rightarrow> bool) \<Rightarrow> ('b \<Rightarrow> 'e) \<Rightarrow> bool \<Rightarrow> 'b list \<Rightarrow> 'p list \<Rightarrow> 'e list" where
  "unmatched_rows on g pad bs ps = (if pad then map g (filter (\<lambda>b. \<not> list_ex (\<lambda>p. on p b) ps) bs) else [])"

text \<open>The flags of the entries that matched, and the rows of the others.\<close>

definition flagged :: "'b list \<Rightarrow> bool list \<Rightarrow> ('b \<Rightarrow> bool) \<Rightarrow> bool" where
  "flagged bs flags q \<longleftrightarrow> length flags = length bs \<and> (\<forall>i < length bs. flags ! i \<longleftrightarrow> q (bs ! i))"

lemma flag_loop:
  assumes "flagged bs flags q"
  shows "for_loop (\<lambda>(i, b) s. if \<not> flags ! i then emit_join_view emit (v b) ts s else Go s) (List.enumerate 0 bs) s
    = for_loop emit (map (\<lambda>b. view_materialize_entry (v b) ts) (filter (\<lambda>b. \<not> q b) bs)) s"
proof -
  have "for_loop (\<lambda>(i, b) s. if \<not> flags ! i then emit_join_view emit (v b) ts s else Go s) (List.enumerate 0 bs) s
      = for_loop emit (concat (map (\<lambda>(i, b). if \<not> q b then [view_materialize_entry (v b) ts] else [])
          (List.enumerate 0 bs))) s"
    using assms by (intro for_loop_emit_list)
      (auto simp: flagged_def in_set_enumerate_eq emit_join_view_def)
  also have "concat (map (\<lambda>(i, b). if \<not> q b then [view_materialize_entry (v b) ts] else []) (List.enumerate 0 bs))
      = map (\<lambda>b. view_materialize_entry (v b) ts) (filter (\<lambda>b. \<not> q b) bs)"
  proof -
    have "concat (map (\<lambda>(i, b). if \<not> q b then [h b] else []) xs) = map h (filter (\<lambda>b. \<not> q b) (map snd xs))"
      for xs :: "(nat \<times> 'a) list" and h :: "'a \<Rightarrow> relation_entry"
      by (induction xs) auto
    then show ?thesis by simp
  qed
  finally show ?thesis .
qed

fun set_flags :: "nat list \<Rightarrow> bool list \<Rightarrow> bool list" where
  "set_flags [] flags = flags"
| "set_flags (i # is) flags = set_flags is (flags[i := True])"

lemma nth_update_True: "i < length xs \<Longrightarrow> xs[a := True] ! i \<longleftrightarrow> xs ! i \<or> i = a"
  by (cases "i = a") auto

lemma set_flags_nth: "length (set_flags is flags) = length flags"
  "i < length flags \<Longrightarrow> set_flags is flags ! i \<longleftrightarrow> flags ! i \<or> i \<in> set is"
  by (induction "is" arbitrary: flags) (auto simp: nth_update_True)

lemma set_flags_flagged:
  assumes "flagged bs flags q"
  shows "flagged bs (set_flags (filter (\<lambda>i. r (bs ! i)) [0..<length bs]) flags) (\<lambda>b. q b \<or> r b)"
  using assms by (auto simp: flagged_def set_flags_nth)

section \<open>Hash join\<close>

definition key_match :: "nat \<Rightarrow> nat \<Rightarrow> relation_entry \<Rightarrow> relation_entry \<Rightarrow> bool" where
  "key_match p_idx b_idx p b \<longleftrightarrow>
     (case (join_key p p_idx, join_key b b_idx) of (Some k, Some k') \<Rightarrow> sql_value_ref_eq k' k | _ \<Rightarrow> False)"

lemma key_positions_match:
  "join_key p p_idx = Some k \<Longrightarrow> key_positions k bs b_idx = filter (\<lambda>i. key_match p_idx b_idx p (bs ! i)) [0..<length bs]"
  by (simp add: key_positions_def key_match_def)

lemma unat_positions:
  assumes "length bs \<le> 2 ^ 32"
  shows "map unat (map (of_nat :: nat \<Rightarrow> 32 word) (filter q [0..<length bs])) = filter q [0..<length bs]"
proof -
  have "unat (of_nat i :: 32 word) = i" if "i \<in> set (filter q [0..<length bs])" for i
    using that assms by (simp add: unat_of_nat)
  then show ?thesis unfolding map_map by (intro map_idI) simp
qed

text \<open>One probe: its rows, and the flags of what it matched.\<close>

lemma hash_probe:
  fixes emit :: "'s emitter" and mv :: "relation_entry \<Rightarrow> relation_entry \<Rightarrow> joined_view"
  assumes "length bs \<le> 2 ^ 32"
  shows
   "(case Option.bind (join_key p p_idx) (\<lambda>k. table_get k (build_hash_table bs b_idx)) of
       Some build_indices \<Rightarrow>
         for_loop (\<lambda>index (build_matched, s).
           flow_bind (emit_join_view emit (mv (bs ! unat index) p) ts s)
             (\<lambda>s. Go (if ub then build_matched[unat index := True] else build_matched, s)))
           build_indices (flags, s)
     | None \<Rightarrow>
         if up then flow_bind (emit_join_view emit (uv p) ts s) (\<lambda>s. Go (flags, s)) else Go (flags, s))
    = flow_bind
        (for_loop emit
          (probe_rows (key_match p_idx b_idx) (\<lambda>p b. view_materialize_entry (mv b p) ts)
            (\<lambda>p. view_materialize_entry (uv p) ts) up bs p) s)
        (\<lambda>s. Go (if ub then set_flags (filter (\<lambda>i. key_match p_idx b_idx p (bs ! i)) [0..<length bs]) flags
                 else flags, s))"
proof -
  let ?on = "key_match p_idx b_idx p"
  let ?is = "filter (\<lambda>i. ?on (bs ! i)) [0..<length bs]"
  have entries: "map (\<lambda>i. bs ! i) ?is = filter ?on bs"
    using filter_map [of ?on "\<lambda>i. bs ! i" "[0..<length bs]"] by (simp add: map_nth comp_def)
  show ?thesis
  proof (cases "?is = []")
    case True
    then have "filter ?on bs = []" using entries by simp
    moreover have "Option.bind (join_key p p_idx) (\<lambda>k. table_get k (build_hash_table bs b_idx)) = None"
      using True by (cases "join_key p p_idx") (simp_all add: build_hash_table_get key_positions_match)
    ultimately show ?thesis using True
      by (auto simp: probe_rows_def emit_join_view_def flow_bind_assoc)
  next
    case False
    then have ne: "filter ?on bs \<noteq> []" using entries by (metis map_is_Nil_conv)
    from ne obtain k where k: "join_key p p_idx = Some k"
      by (auto simp: filter_empty_conv key_match_def split: option.splits)
    have some: "Option.bind (join_key p p_idx) (\<lambda>k. table_get k (build_hash_table bs b_idx))
        = Some (map of_nat ?is)"
      using k False by (simp add: build_hash_table_get key_positions_match)
    have loop: "for_loop (\<lambda>index (build_matched, s).
          flow_bind (emit_join_view emit (mv (bs ! unat index) p) ts s)
            (\<lambda>s. Go (if ub then build_matched[unat index := True] else build_matched, s)))
          (ws :: 32 word list) (flags, s)
        = flow_bind (for_loop emit (map (\<lambda>w. view_materialize_entry (mv (bs ! unat w) p) ts) ws) s)
            (\<lambda>s. Go (fold (\<lambda>w fl. if ub then fl[unat w := True] else fl) ws flags, s))" for ws
      using for_loop_emitted [of ws "\<lambda>index (build_matched, s).
          flow_bind (emit_join_view emit (mv (bs ! unat index) p) ts s)
            (\<lambda>s. Go (if ub then build_matched[unat index := True] else build_matched, s))" emit
          "\<lambda>w _. [view_materialize_entry (mv (bs ! unat w) p) ts]"
          "\<lambda>w fl. if ub then fl[unat w := True] else fl" flags s]
      by (simp add: emit_join_view_def emitted_stateless)
    have fl: "fold (\<lambda>w fl. if ub then fl[unat w := True] else fl) ws flags
        = (if ub then set_flags (map unat ws) flags else flags)" for ws :: "32 word list"
      by (induction ws arbitrary: flags) auto
    have rows: "map (\<lambda>w. view_materialize_entry (mv (bs ! unat w) p) ts) (map (of_nat :: nat \<Rightarrow> 32 word) ?is)
        = map (\<lambda>b. view_materialize_entry (mv b p) ts) (filter ?on bs)"
    proof -
      have "map (\<lambda>w. view_materialize_entry (mv (bs ! unat w) p) ts) (map (of_nat :: nat \<Rightarrow> 32 word) ?is)
          = map (\<lambda>i. view_materialize_entry (mv (bs ! i) p) ts)
              (map unat (map (of_nat :: nat \<Rightarrow> 32 word) ?is))" by simp
      also have "\<dots> = map (\<lambda>i. view_materialize_entry (mv (bs ! i) p) ts) ?is"
        by (simp only: unat_positions [OF assms])
      finally show ?thesis by (simp flip: entries)
    qed
    show ?thesis
      unfolding some option.case loop fl rows unat_positions [OF assms]
      using ne by (simp add: probe_rows_def Let_def)
  qed
qed

definition hash_rows ::
  "exec_relation \<Rightarrow> exec_relation \<Rightarrow> nat \<Rightarrow> nat \<Rightarrow> join_type \<Rightarrow> join_layout \<Rightarrow> relation_entry list" where
  "hash_rows left right lk rk jt layout =
     (let side = choose_hash_join_build_side (xr_len left) (xr_len right) jt;
          mat = (\<lambda>v. view_materialize_entry v (jl_tables layout));
          rows = (\<lambda>bs ps bi pi.
            concat (map (probe_rows (key_match pi bi) (\<lambda>p b. mat (hash_join_matched_view b p layout side))
              (\<lambda>p. mat (hash_join_unmatched_probe_view p layout side)) (hash_join_emit_unmatched_probe jt side) bs) ps)
            @ unmatched_rows (key_match pi bi) (\<lambda>b. mat (hash_join_unmatched_build_view b layout side))
                (hash_join_emit_unmatched_build jt side) bs ps)
      in case side of
           BuildLeft \<Rightarrow> rows (xr_entries left) (xr_entries right) lk rk
         | BuildRight \<Rightarrow> rows (xr_entries right) (xr_entries left) rk lk)"

lemma fold_flagged:
  assumes "flagged bs flags q"
  shows "flagged bs (fold (\<lambda>p. set_flags (filter (\<lambda>i. on p (bs ! i)) [0..<length bs])) ps flags)
    (\<lambda>b. q b \<or> list_ex (\<lambda>p. on p b) ps)"
  using assms
proof (induction ps arbitrary: flags q)
  case (Cons p ps)
  show ?case using Cons.IH [OF set_flags_flagged [OF Cons.prems, of "on p"]] by (simp add: disj_assoc)
qed simp

lemma flagged_start: "flagged bs (replicate (length bs) False) (\<lambda>_. False)"
  by (simp add: flagged_def)

lemma emit_hash_join:
  fixes emit :: "'s emitter"
  assumes "xr_len left \<le> 2 ^ 32" "xr_len right \<le> 2 ^ 32"
  shows "emit_hash_join_entries left right lk rk jt outputs emit s
    = for_loop emit (hash_rows left right lk rk jt (join_output_layout left right outputs)) s"
proof -
  define side where "side = choose_hash_join_build_side (xr_len left) (xr_len right) jt"
  define layout where "layout = join_output_layout left right outputs"
  define up where "up = hash_join_emit_unmatched_probe jt side"
  define ub where "ub = hash_join_emit_unmatched_build jt side"
  let ?ts = "jl_tables layout"
  have core: "flow_bind
        (for_loop (\<lambda>p (build_matched, s).
           (case Option.bind (join_key p pi) (\<lambda>k. table_get k (build_hash_table bs bi)) of
              Some build_indices \<Rightarrow>
                for_loop (\<lambda>index (build_matched, s).
                  flow_bind (emit_join_view emit (hash_join_matched_view (bs ! unat index) p layout side) ?ts s)
                    (\<lambda>s. Go (if ub then build_matched[unat index := True] else build_matched, s)))
                  build_indices (build_matched, s)
            | None \<Rightarrow>
                if up then
                  flow_bind (emit_join_view emit (hash_join_unmatched_probe_view p layout side) ?ts s)
                    (\<lambda>s. Go (build_matched, s))
                else Go (build_matched, s)))
          ps (if ub then replicate (length bs) False else [], s))
        (\<lambda>(build_matched, s).
          if ub then
            for_loop (\<lambda>(i, b) s.
              if \<not> build_matched ! i
              then emit_join_view emit (hash_join_unmatched_build_view b layout side) ?ts s else Go s)
              (List.enumerate 0 bs) s
          else Go s)
      = for_loop emit
          (concat (map (probe_rows (key_match pi bi)
               (\<lambda>p b. view_materialize_entry (hash_join_matched_view b p layout side) ?ts)
               (\<lambda>p. view_materialize_entry (hash_join_unmatched_probe_view p layout side) ?ts) up bs) ps)
            @ unmatched_rows (key_match pi bi)
                (\<lambda>b. view_materialize_entry (hash_join_unmatched_build_view b layout side) ?ts) ub bs ps) s"
    if "length bs \<le> 2 ^ 32" for bs ps pi bi
  proof -
    let ?upd = "\<lambda>p fl. if ub then set_flags (filter (\<lambda>i. key_match pi bi p (bs ! i)) [0..<length bs]) fl else fl"
    let ?flags = "if ub then replicate (length bs) False else []"
    let ?body = "\<lambda>p (build_matched, s).
           (case Option.bind (join_key p pi) (\<lambda>k. table_get k (build_hash_table bs bi)) of
              Some build_indices \<Rightarrow>
                for_loop (\<lambda>index (build_matched, s).
                  flow_bind (emit_join_view emit (hash_join_matched_view (bs ! unat index) p layout side) ?ts s)
                    (\<lambda>s. Go (if ub then build_matched[unat index := True] else build_matched, s)))
                  build_indices (build_matched, s)
            | None \<Rightarrow>
                if up then
                  flow_bind (emit_join_view emit (hash_join_unmatched_probe_view p layout side) ?ts s)
                    (\<lambda>s. Go (build_matched, s))
                else Go (build_matched, s))"
    have body: "?body p (flags, s) = flow_bind
        (for_loop emit
          (probe_rows (key_match pi bi)
            (\<lambda>p b. view_materialize_entry (hash_join_matched_view b p layout side) ?ts)
            (\<lambda>p. view_materialize_entry (hash_join_unmatched_probe_view p layout side) ?ts) up bs p) s)
        (\<lambda>s. Go (?upd p flags, s))" for p flags s
      unfolding prod.case by (rule hash_probe [OF that])
    note loop = for_loop_emitted [where upd = ?upd and a = ?flags and xs = ps and body = ?body, OF body]
    have fl: "flagged bs (fold ?upd ps ?flags) (\<lambda>b. list_ex (\<lambda>p. key_match pi bi p b) ps)" if ub
      using fold_flagged [OF flagged_start, of bs "key_match pi bi" ps] that by simp
    show ?thesis
      unfolding loop unmatched_rows_def emitted_stateless flow_bind_assoc flow_bind.simps prod.case for_loop_append
      using flag_loop [OF fl, where emit = emit and ts = ?ts and v = "\<lambda>b. hash_join_unmatched_build_view b layout side"]
      by (cases ub) simp_all
  qed
  show ?thesis
    using core [where bs = "xr_entries left" and ps = "xr_entries right" and bi = lk and pi = rk]
      core [where bs = "xr_entries right" and ps = "xr_entries left" and bi = rk and pi = lk] assms
    unfolding emit_hash_join_entries_def hash_rows_def Let_def side_def [symmetric] layout_def [symmetric]
      up_def [symmetric] ub_def [symmetric]
    unfolding xr_len_def
    by (cases side) simp_all
qed

section \<open>Nested loops\<close>

definition nested_rows ::
  "(relation_entry \<Rightarrow> relation_entry \<Rightarrow> bool) \<Rightarrow> exec_relation \<Rightarrow> exec_relation \<Rightarrow> join_type \<Rightarrow> join_layout
    \<Rightarrow> relation_entry list" where
  "nested_rows on left right jt layout =
     (let mat = (\<lambda>l r. view_materialize_entry (view_from_entries l r layout) (jl_tables layout)) in
      concat (map (probe_rows on (\<lambda>l r. mat (Some l) (Some r)) (\<lambda>l. mat (Some l) None)
        (jt = LeftOuter \<or> jt = FullOuter) (xr_entries right)) (xr_entries left))
      @ unmatched_rows on (\<lambda>r. mat None (Some r)) (jt = RightOuter \<or> jt = FullOuter) (xr_entries right) (xr_entries left))"

lemma nested_inner:
  fixes emit :: "'s emitter"
  assumes "\<And>r. r \<in> set rs \<Longrightarrow> holds (v r) = Some (on r)"
  shows "for_loop (\<lambda>(i, r) (matched, flags, s).
        case holds (v r) of
          None \<Rightarrow> Panic
        | Some False \<Rightarrow> Go (matched, flags, s)
        | Some True \<Rightarrow>
            flow_bind (emit_join_view emit (v r) ts s) (\<lambda>s. Go (True, if track then flags[i := True] else flags, s)))
      (List.enumerate n rs) (matched, flags, s)
    = flow_bind (for_loop emit (map (\<lambda>r. view_materialize_entry (v r) ts) (filter on rs)) s)
        (\<lambda>s. Go (matched \<or> filter on rs \<noteq> [],
           if track then set_flags (map (\<lambda>i. n + i) (filter (\<lambda>i. on (rs ! i)) [0..<length rs])) flags else flags, s))"
  using assms
proof (induction rs arbitrary: n matched flags s)
  case (Cons r rs)
  have plus: "(+) (Suc n) = (\<lambda>i. Suc (n + i))" by (simp add: fun_eq_iff)
  have shift: "filter (\<lambda>i. on ((r # rs) ! i)) [0..<Suc (length rs)]
      = (if on r then [0] else []) @ map Suc (filter (\<lambda>i. on (rs ! i)) [0..<length rs])"
    by (simp add: upt_conv_Cons filter_map comp_def flip: map_Suc_upt del: upt_Suc)
  have IH: "for_loop (\<lambda>(i, r) (matched, flags, s).
        case holds (v r) of
          None \<Rightarrow> Panic
        | Some False \<Rightarrow> Go (matched, flags, s)
        | Some True \<Rightarrow>
            flow_bind (emit_join_view emit (v r) ts s) (\<lambda>s. Go (True, if track then flags[i := True] else flags, s)))
      (List.enumerate (Suc n) rs) (matched, flags, s)
    = flow_bind (for_loop emit (map (\<lambda>r. view_materialize_entry (v r) ts) (filter on rs)) s)
        (\<lambda>s. Go (matched \<or> filter on rs \<noteq> [],
           if track then set_flags (map (\<lambda>i. Suc n + i) (filter (\<lambda>i. on (rs ! i)) [0..<length rs])) flags
           else flags, s))" for matched flags s
    by (rule Cons.IH) (use Cons.prems in simp)
  show ?case
    using Cons.prems [of r]
    by (simp add: IH shift emit_join_view_def flow_bind_assoc plus comp_def del: upt_Suc)
qed simp

lemma plus_0: "(+) (0 :: nat) = id"
  by (simp add: fun_eq_iff)

lemma nested_loop_emits:
  fixes emit :: "'s emitter"
  assumes "\<And>l r. l \<in> set (xr_entries left) \<Longrightarrow> r \<in> set (xr_entries right) \<Longrightarrow>
    holds (view_from_entries (Some l) (Some r) layout) = Some (on l r)"
  shows "nested_loop_entries holds left right jt layout emit s
    = for_loop emit (nested_rows on left right jt layout) s"
proof -
  define ul where "ul \<longleftrightarrow> jt = LeftOuter \<or> jt = FullOuter"
  define tr where "tr \<longleftrightarrow> jt = RightOuter \<or> jt = FullOuter"
  let ?rs = "xr_entries right"
  let ?mat = "\<lambda>l r. view_materialize_entry (view_from_entries l r layout) (jl_tables layout)"
  let ?upd = "\<lambda>l flags. if tr then set_flags (filter (\<lambda>i. on l (?rs ! i)) [0..<length ?rs]) flags else flags"
  let ?flags = "if tr then replicate (length ?rs) False else []"
  let ?body = "\<lambda>l (flags, s). flow_bind
       (for_loop (\<lambda>(i, r) (matched, flags, s).
          let v = view_from_entries (Some l) (Some r) layout in
          case holds v of
            None \<Rightarrow> Panic
          | Some False \<Rightarrow> Go (matched, flags, s)
          | Some True \<Rightarrow>
              flow_bind (emit_join_view emit v (jl_tables layout) s)
                (\<lambda>s. Go (True, if tr then flags[i := True] else flags, s)))
          (List.enumerate 0 ?rs) (False, flags, s))
       (\<lambda>(matched, flags, s).
         if ul \<and> \<not> matched then
           flow_bind (emit_join_view emit (view_from_entries (Some l) None layout) (jl_tables layout) s)
             (\<lambda>s. Go (flags, s))
         else Go (flags, s))"
  have body: "?body l (flags, s) = flow_bind
      (for_loop emit (probe_rows on (\<lambda>l r. ?mat (Some l) (Some r)) (\<lambda>l. ?mat (Some l) None) ul ?rs l) s)
      (\<lambda>s. Go (?upd l flags, s))" if "l \<in> set (xr_entries left)" for l flags s
  proof -
    have "\<And>r. r \<in> set ?rs \<Longrightarrow> holds (view_from_entries (Some l) (Some r) layout) = Some (on l r)"
      using assms that by blast
    note inner = nested_inner [where v = "\<lambda>r. view_from_entries (Some l) (Some r) layout" and on = "on l"
        and n = 0, OF this, unfolded plus_0 list.map_id]
    have "?body l (flags, s) = flow_bind (for_loop emit (map (\<lambda>r. ?mat (Some l) (Some r)) (filter (on l) ?rs)) s)
        (\<lambda>s. if ul \<and> filter (on l) ?rs = []
          then flow_bind (emit_join_view emit (view_from_entries (Some l) None layout) (jl_tables layout) s)
            (\<lambda>s. Go (?upd l flags, s))
          else Go (?upd l flags, s))"
      unfolding Let_def prod.case by (subst inner) (simp_all add: flow_bind_assoc plus_0)
    then show ?thesis
      by (cases "filter (on l) ?rs = []")
        (simp_all add: probe_rows_def flow_bind_assoc emit_join_view_def)
  qed
  have fl: "flagged ?rs (fold ?upd (xr_entries left) ?flags) (\<lambda>r. list_ex (\<lambda>l. on l r) (xr_entries left))" if tr
    using fold_flagged [OF flagged_start, of ?rs on "xr_entries left"] that by simp
  have loop: "for_loop ?body (xr_entries left) (?flags, s)
      = flow_bind (for_loop emit (concat (map (probe_rows on (\<lambda>l r. ?mat (Some l) (Some r))
            (\<lambda>l. ?mat (Some l) None) ul ?rs) (xr_entries left))) s)
          (\<lambda>s. Go (fold ?upd (xr_entries left) ?flags, s))"
    using for_loop_emitted [where upd = ?upd and xs = "xr_entries left" and body = ?body, OF body]
    by (simp add: emitted_stateless)
  show ?thesis
    unfolding nested_loop_entries_def nested_rows_def ul_def [symmetric] tr_def [symmetric] unmatched_rows_def
      xr_len_def loop [unfolded Let_def] Let_def flow_bind_assoc flow_bind.simps prod.case for_loop_append
    using flag_loop [OF fl, where emit = emit and ts = "jl_tables layout"
        and v = "\<lambda>r. view_from_entries None (Some r) layout"]
    by (cases tr) simp_all
qed

end
