(* ===== verification/Cynos_Join_Spec.thy ===== *)
theory Cynos_Join_Spec
  imports Cynos_Join_Equiv
begin

text \<open>
  The join that a condition defines on two relations, and the proofs that the hash join, the nested loops and the
  sort-merge join compute it. A relation is well formed when its rows have the width its tables announce.
\<close>

section \<open>The join of two relations\<close>

definition join_rows ::
  "(relation_entry \<Rightarrow> relation_entry \<Rightarrow> bool) \<Rightarrow> join_type \<Rightarrow> exec_relation \<Rightarrow> exec_relation
    \<Rightarrow> relation_entry multiset" where
  "join_rows on jt left right =
     (let ts = xr_tables left @ xr_tables right; ls = xr_entries left; rs = xr_entries right in
      mset (concat (map (\<lambda>l. map (\<lambda>r. combine_fast l r ts) (filter (on l) rs)) ls))
      + (if jt = LeftOuter \<or> jt = FullOuter
         then mset (map (\<lambda>l. combine_with_null_fast l (sum_list (xr_counts right)) ts) (filter (\<lambda>l. \<not> list_ex (on l) rs) ls))
         else {#})
      + (if jt = RightOuter \<or> jt = FullOuter
         then mset (map (\<lambda>r. combine_null_with_fast (sum_list (xr_counts left)) r ts)
                (filter (\<lambda>r. \<not> list_ex (\<lambda>l. on l r) ls) rs))
         else {#}))"

definition wf_relation :: "exec_relation \<Rightarrow> bool" where
  "wf_relation r \<longleftrightarrow> length (xr_counts r) = length (xr_tables r)
     \<and> list_all (\<lambda>e. length (rvalues (re_row e)) = sum_list (xr_counts r)) (xr_entries r)"

lemma mset_probe_rows:
  "mset (concat (map (probe_rows on f g pad bs) ps)) =
     mset (concat (map (\<lambda>p. map (f p) (filter (on p) bs)) ps))
     + (if pad then mset (map g (filter (\<lambda>p. \<not> list_ex (on p) bs) ps)) else {#})"
proof (induction ps)
  case (Cons p ps)
  have "filter (on p) bs = [] \<longleftrightarrow> \<not> list_ex (on p) bs" by (auto simp: filter_empty_conv list_ex_iff)
  then show ?case
    using Cons by (cases "filter (on p) bs = []") (simp_all add: probe_rows_def [of on f g pad bs p] Let_def)
qed simp

lemma mset_swap:
  "mset (concat (map (\<lambda>p. map (f p) (filter (on p) bs)) ps))
   = mset (concat (map (\<lambda>b. map (\<lambda>p. f p b) (filter (\<lambda>p. on p b) ps)) bs))"
proof (induction ps)
  case Nil
  show ?case by (induction bs) auto
next
  case (Cons p ps)
  have "mset (concat (map (\<lambda>b. map (\<lambda>q. f q b) (filter (\<lambda>q. on q b) (p # ps))) bs))
      = mset (map (f p) (filter (on p) bs))
        + mset (concat (map (\<lambda>b. map (\<lambda>q. f q b) (filter (\<lambda>q. on q b) ps)) bs))"
    by (induction bs) auto
  with Cons show ?case by simp
qed

text \<open>The views of the three kinds, materialised.\<close>

lemma view_values_concat:
  assumes wf: "wf_relation left" "wf_relation right"
    and v: "jv_layout v = join_output_layout left right (xr_tables left @ xr_tables right)"
    and fit: "\<And>s. jv_left v = Some s \<Longrightarrow> src_entry s \<in> set (xr_entries left)"
      "\<And>s. jv_right v = Some s \<Longrightarrow> src_entry s \<in> set (xr_entries right)"
  shows "rvalues (view_materialize_row v) =
      (case jv_left v of Some s \<Rightarrow> rvalues (re_row (src_entry s)) | None \<Rightarrow> replicate (sum_list (xr_counts left)) Null)
      @ (case jv_right v of Some s \<Rightarrow> rvalues (re_row (src_entry s)) | None \<Rightarrow> replicate (sum_list (xr_counts right)) Null)"
    "view_materialize_entry v ts = entry_new_combined (view_materialize_row v) ts"
proof -
  have len: "length (xr_counts left) = length (xr_tables left)" "length (xr_counts right) = length (xr_tables right)"
    using wf by (auto simp: wf_relation_def)
  have fits: "source_fits (view_source v SideLeft) (sum_list (xr_counts left))"
    "source_fits (view_source v SideRight) (sum_list (xr_counts right))"
    using fit wf by (auto simp: source_fits_def view_source_def wf_relation_def list_all_iff split: option.splits)
  show "rvalues (view_materialize_row v) =
      (case jv_left v of Some s \<Rightarrow> rvalues (re_row (src_entry s)) | None \<Rightarrow> replicate (sum_list (xr_counts left)) Null)
      @ (case jv_right v of Some s \<Rightarrow> rvalues (re_row (src_entry s)) | None \<Rightarrow> replicate (sum_list (xr_counts right)) Null)"
    using side_values_fits [OF fits(1)] side_values_fits [OF fits(2)]
    by (simp add: view_materialize_row_def v join_output_layout_def layout_values [OF len] row_new_with_version_def
        view_source_def)
  have "view_fits v"
    using fits by (simp add: view_fits_def v join_output_layout_def layout_values [OF len] view_source_def)
  then show "view_materialize_entry v ts = entry_new_combined (view_materialize_row v) ts"
    by (intro materialize_fast) (simp_all add: v join_output_layout_def)
qed

lemma view_rows:
  assumes wf: "wf_relation left" "wf_relation right"
    and layout: "layout = join_output_layout left right (xr_tables left @ xr_tables right)"
  shows "src_entry sl = l \<Longrightarrow> src_entry sr = r \<Longrightarrow> l \<in> set (xr_entries left) \<Longrightarrow> r \<in> set (xr_entries right) \<Longrightarrow>
      view_materialize_entry \<lparr>jv_left = Some sl, jv_right = Some sr, jv_layout = layout\<rparr> ts = combine_fast l r ts"
    "src_entry sl = l \<Longrightarrow> l \<in> set (xr_entries left) \<Longrightarrow>
      view_materialize_entry \<lparr>jv_left = Some sl, jv_right = None, jv_layout = layout\<rparr> ts
      = combine_with_null_fast l (sum_list (xr_counts right)) ts"
    "src_entry sr = r \<Longrightarrow> r \<in> set (xr_entries right) \<Longrightarrow>
      view_materialize_entry \<lparr>jv_left = None, jv_right = Some sr, jv_layout = layout\<rparr> ts
      = combine_null_with_fast (sum_list (xr_counts left)) r ts"
proof -
  have row: "view_materialize_row v = row_new_with_version (view_row_id (jv_left v) (jv_right v))
      (view_version (jv_left v) (jv_right v)) (rvalues (view_materialize_row v))" for v
    by (simp add: view_materialize_row_def row_new_with_version_def)
  note val = view_values_concat(1) [OF wf] view_values_concat(2) [OF wf]
  show "view_materialize_entry \<lparr>jv_left = Some sl, jv_right = Some sr, jv_layout = layout\<rparr> ts = combine_fast l r ts"
    if "src_entry sl = l" "src_entry sr = r" "l \<in> set (xr_entries left)" "r \<in> set (xr_entries right)"
  proof -
    let ?v = "\<lparr>jv_left = Some sl, jv_right = Some sr, jv_layout = layout\<rparr>"
    have "rvalues (view_materialize_row ?v) = rvalues (re_row l) @ rvalues (re_row r)"
      using that val(1) [of ?v] by (simp add: layout)
    then show ?thesis
      using that val(2) [of ?v ts] row [of ?v]
      by (simp add: layout combine_fast_def entry_new_combined_def entry_id_def)
  qed
  show "view_materialize_entry \<lparr>jv_left = Some sl, jv_right = None, jv_layout = layout\<rparr> ts
      = combine_with_null_fast l (sum_list (xr_counts right)) ts"
    if "src_entry sl = l" "l \<in> set (xr_entries left)"
  proof -
    let ?v = "\<lparr>jv_left = Some sl, jv_right = None, jv_layout = layout\<rparr>"
    have "rvalues (view_materialize_row ?v) = rvalues (re_row l) @ replicate (sum_list (xr_counts right)) Null"
      using that val(1) [of ?v] by (simp add: layout)
    then show ?thesis
      using that val(2) [of ?v ts] row [of ?v]
      by (simp add: layout combine_with_null_fast_def entry_new_combined_def entry_id_def)
  qed
  show "view_materialize_entry \<lparr>jv_left = None, jv_right = Some sr, jv_layout = layout\<rparr> ts
      = combine_null_with_fast (sum_list (xr_counts left)) r ts"
    if "src_entry sr = r" "r \<in> set (xr_entries right)"
  proof -
    let ?v = "\<lparr>jv_left = None, jv_right = Some sr, jv_layout = layout\<rparr>"
    have "rvalues (view_materialize_row ?v) = replicate (sum_list (xr_counts left)) Null @ rvalues (re_row r)"
      using that val(1) [of ?v] by (simp add: layout)
    then show ?thesis
      using that val(2) [of ?v ts] row [of ?v]
      by (simp add: layout combine_null_with_fast_def entry_new_combined_def entry_id_def)
  qed
qed

lemma map_cong_set: "(\<And>x. x \<in> set xs \<Longrightarrow> f x = g x) \<Longrightarrow> map f xs = map g xs"
  by simp

lemma filter_map_cong:
  "(\<And>x. x \<in> set xs \<Longrightarrow> p x = q x) \<Longrightarrow> (\<And>x. x \<in> set xs \<Longrightarrow> f x = g x) \<Longrightarrow>
     map f (filter p xs) = map g (filter q xs)"
  by (induction xs) auto

lemma join_rows_cong:
  assumes "\<And>l r. l \<in> set (xr_entries left) \<Longrightarrow> r \<in> set (xr_entries right) \<Longrightarrow> on l r = on' l r"
  shows "join_rows on jt left right = join_rows on' jt left right"
proof -
  have 1: "map (\<lambda>r. combine_fast l r ts) (filter (on l) (xr_entries right))
      = map (\<lambda>r. combine_fast l r ts) (filter (on' l) (xr_entries right))" if "l \<in> set (xr_entries left)" for l ts
    using that assms by (intro filter_map_cong) auto
  have 2: "list_ex (on l) (xr_entries right) = list_ex (on' l) (xr_entries right)" if "l \<in> set (xr_entries left)" for l
    using that assms by (auto simp: list_ex_iff)
  have 3: "list_ex (\<lambda>l. on l r) (xr_entries left) = list_ex (\<lambda>l. on' l r) (xr_entries left)"
    if "r \<in> set (xr_entries right)" for r
    using that assms by (auto simp: list_ex_iff)
  have a: "map (\<lambda>l. map (\<lambda>r. combine_fast l r ts) (filter (on l) (xr_entries right))) (xr_entries left)
      = map (\<lambda>l. map (\<lambda>r. combine_fast l r ts) (filter (on' l) (xr_entries right))) (xr_entries left)" for ts
    by (rule map_cong_set) (rule 1)
  have b: "filter (\<lambda>l. \<not> list_ex (on l) (xr_entries right)) (xr_entries left)
      = filter (\<lambda>l. \<not> list_ex (on' l) (xr_entries right)) (xr_entries left)"
    using 2 by (intro filter_cong) auto
  have c: "filter (\<lambda>r. \<not> list_ex (\<lambda>l. on l r) (xr_entries left)) (xr_entries right)
      = filter (\<lambda>r. \<not> list_ex (\<lambda>l. on' l r) (xr_entries left)) (xr_entries right)"
    using 3 by (intro filter_cong) auto
  show ?thesis unfolding join_rows_def Let_def a b c ..
qed

section \<open>Nested loops and hash join\<close>

lemma probe_rows_cong:
  "(\<And>b. b \<in> set bs \<Longrightarrow> on p b \<Longrightarrow> f p b = f' p b) \<Longrightarrow> g p = g' p \<Longrightarrow>
     probe_rows on f g pad bs p = probe_rows on f' g' pad bs p"
  by (auto simp: probe_rows_def Let_def)

lemma nested_rows_join:
  assumes wf: "wf_relation left" "wf_relation right"
    and layout: "layout = join_output_layout left right (xr_tables left @ xr_tables right)"
  shows "mset (nested_rows on left right jt layout) = join_rows on jt left right"
proof -
  have ts: "jl_tables layout = xr_tables left @ xr_tables right"
    using wf by (simp add: layout join_output_layout_def layout_values wf_relation_def)
  let ?ts = "xr_tables left @ xr_tables right"
  have a: "map (probe_rows on (\<lambda>l r. view_materialize_entry (view_from_entries (Some l) (Some r) layout) ?ts)
        (\<lambda>l. view_materialize_entry (view_from_entries (Some l) None layout) ?ts) pad (xr_entries right)) (xr_entries left)
      = map (probe_rows on (\<lambda>l r. combine_fast l r ?ts)
        (\<lambda>l. combine_with_null_fast l (sum_list (xr_counts right)) ?ts) pad (xr_entries right)) (xr_entries left)" for pad
    by (intro map_cong_set probe_rows_cong) (simp_all add: view_from_entries_def view_rows [OF wf layout])
  have b: "map (\<lambda>r. view_materialize_entry (view_from_entries None (Some r) layout) ?ts)
        (filter (\<lambda>r. \<not> list_ex (\<lambda>l. on l r) (xr_entries left)) (xr_entries right))
      = map (\<lambda>r. combine_null_with_fast (sum_list (xr_counts left)) r ?ts)
        (filter (\<lambda>r. \<not> list_ex (\<lambda>l. on l r) (xr_entries left)) (xr_entries right))"
    by (intro map_cong_set) (simp add: view_from_entries_def view_rows [OF wf layout])
  show ?thesis
    unfolding nested_rows_def Let_def ts a unmatched_rows_def b join_rows_def mset_append mset_probe_rows
    by auto
qed

definition keys_equal :: "nat \<Rightarrow> nat \<Rightarrow> relation_entry \<Rightarrow> relation_entry \<Rightarrow> bool" where
  "keys_equal lk rk l r \<longleftrightarrow>
     (case (join_key l lk, join_key r rk) of (Some a, Some b) \<Rightarrow> sql_eq a b | _ \<Rightarrow> False)"

text \<open>Columns without floating-point numbers.\<close>

definition no_floats :: "nat \<Rightarrow> exec_relation \<Rightarrow> bool" where
  "no_floats i r \<longleftrightarrow>
     list_all (\<lambda>e. case entry_get_field e i of Some v \<Rightarrow> \<not> is_float v | None \<Rightarrow> True) (xr_entries r)"

lemma no_floats_key: "no_floats i r \<Longrightarrow> e \<in> set (xr_entries r) \<Longrightarrow> join_key e i = Some k \<Longrightarrow> \<not> is_float k"
  by (auto simp: no_floats_def list_all_iff join_key_def split: option.splits if_splits)

lemma key_match_equal:
  assumes "no_floats lk left" "no_floats rk right" "l \<in> set (xr_entries left)" "r \<in> set (xr_entries right)"
  shows "key_match lk rk l r = keys_equal lk rk l r" "key_match rk lk r l = keys_equal lk rk l r"
  using no_floats_key [OF assms(1,3)] no_floats_key [OF assms(2,4)]
  by (auto simp: key_match_def keys_equal_def ref_eq_nonfloat sql_eq_sym split: option.split)

lemma hash_rows_join:
  assumes wf: "wf_relation left" "wf_relation right"
    and layout: "layout = join_output_layout left right (xr_tables left @ xr_tables right)"
    and keys: "no_floats lk left" "no_floats rk right"
  shows "mset (hash_rows left right lk rk jt layout) = join_rows (keys_equal lk rk) jt left right"
proof -
  have ts: "jl_tables layout = xr_tables left @ xr_tables right"
    using wf by (simp add: layout join_output_layout_def layout_values wf_relation_def)
  let ?ts = "xr_tables left @ xr_tables right"
  let ?side = "choose_hash_join_build_side (xr_len left) (xr_len right) jt"
  have right: "join_rows (keys_equal lk rk) jt left right = join_rows (\<lambda>l r. key_match lk rk l r) jt left right"
    "join_rows (keys_equal lk rk) jt left right = join_rows (\<lambda>l r. key_match rk lk r l) jt left right"
    using key_match_equal [OF keys] by (auto intro!: join_rows_cong)
  show ?thesis
  proof (cases ?side)
    case BuildLeft
    have a: "map (probe_rows (key_match rk lk)
          (\<lambda>p b. view_materialize_entry (hash_join_matched_view b p layout BuildLeft) ?ts)
          (\<lambda>p. view_materialize_entry (hash_join_unmatched_probe_view p layout BuildLeft) ?ts) pad (xr_entries left))
          (xr_entries right)
        = map (probe_rows (key_match rk lk) (\<lambda>r l. combine_fast l r ?ts)
          (\<lambda>r. combine_null_with_fast (sum_list (xr_counts left)) r ?ts) pad (xr_entries left)) (xr_entries right)" for pad
      by (intro map_cong_set probe_rows_cong) (simp_all add: view_rows [OF wf layout])
    have b: "map (\<lambda>l. view_materialize_entry (hash_join_unmatched_build_view l layout BuildLeft) ?ts)
          (filter q (xr_entries left))
        = map (\<lambda>l. combine_with_null_fast l (sum_list (xr_counts right)) ?ts) (filter q (xr_entries left))" for q
      by (intro map_cong_set) (simp add: view_rows [OF wf layout])
    have sides: "hash_join_emit_unmatched_probe jt BuildLeft \<longleftrightarrow> jt = RightOuter \<or> jt = FullOuter"
      "hash_join_emit_unmatched_build jt BuildLeft \<longleftrightarrow> jt = LeftOuter \<or> jt = FullOuter"
      by (cases jt; simp)+
    show ?thesis
      unfolding right(2)
      unfolding hash_rows_def Let_def BuildLeft build_side.case ts a unmatched_rows_def b mset_append mset_probe_rows
        mset_swap [where f = "\<lambda>r l. combine_fast l r ?ts"] sides join_rows_def
      by (simp add: list_ex_iff)
  next
    case BuildRight
    have a: "map (probe_rows (key_match lk rk)
          (\<lambda>p b. view_materialize_entry (hash_join_matched_view b p layout BuildRight) ?ts)
          (\<lambda>p. view_materialize_entry (hash_join_unmatched_probe_view p layout BuildRight) ?ts) pad (xr_entries right))
          (xr_entries left)
        = map (probe_rows (key_match lk rk) (\<lambda>l r. combine_fast l r ?ts)
          (\<lambda>l. combine_with_null_fast l (sum_list (xr_counts right)) ?ts) pad (xr_entries right)) (xr_entries left)" for pad
      by (intro map_cong_set probe_rows_cong) (simp_all add: view_rows [OF wf layout])
    have b: "map (\<lambda>r. view_materialize_entry (hash_join_unmatched_build_view r layout BuildRight) ?ts)
          (filter q (xr_entries right))
        = map (\<lambda>r. combine_null_with_fast (sum_list (xr_counts left)) r ?ts) (filter q (xr_entries right))" for q
      by (intro map_cong_set) (simp add: view_rows [OF wf layout])
    have sides: "hash_join_emit_unmatched_probe jt BuildRight \<longleftrightarrow> jt = LeftOuter \<or> jt = FullOuter"
      "hash_join_emit_unmatched_build jt BuildRight \<longleftrightarrow> jt = RightOuter \<or> jt = FullOuter"
      by (cases jt; simp)+
    show ?thesis
      unfolding right(1)
      unfolding hash_rows_def Let_def BuildRight build_side.case ts a unmatched_rows_def b mset_append mset_probe_rows
        sides join_rows_def
      by simp
  qed
qed

section \<open>The condition of an equi-join\<close>

lemma resolve_loop_left:
  "t \<in> set ls \<Longrightarrow> i + length ls \<le> length lc \<Longrightarrow>
     resolve_loop (ls @ rs) (lc @ rc) i off t idx = resolve_loop ls lc i off t idx"
  by (induction ls arbitrary: i off) (auto simp: nth_append)

lemma resolve_loop_skip:
  "t \<notin> set ls \<Longrightarrow> i + length ls \<le> length counts \<Longrightarrow>
     resolve_loop (ls @ rs) counts i off t idx
     = resolve_loop rs counts (i + length ls) (off + sum_list (take (length ls) (drop i counts))) t idx"
proof (induction ls arbitrary: i off)
  case (Cons l ls)
  then have "drop i counts = counts ! i # drop (Suc i) counts"
    by (simp add: Cons_nth_drop_Suc)
  with Cons show ?case by (auto simp: add.assoc)
qed simp

lemma resolve_loop_shift:
  "t \<in> set rs \<Longrightarrow> resolve_loop rs (lc @ rc) (length lc + i) (a + off) t idx = a + resolve_loop rs rc i off t idx"
proof (induction rs arbitrary: i off)
  case (Cons r rs)
  then show ?case
    using Cons.IH [of "Suc i" "off + (if i < length rc then rc ! i else 0)"] by (auto simp: nth_append add.assoc)
qed simp

lemma resolve_layout:
  assumes "length lc = length lt" "set lt \<inter> set rt = {}"
  shows "t \<in> set lt \<Longrightarrow> resolve_column_index \<lparr>ec_tables = lt @ rt, ec_counts = lc @ rc\<rparr> t i
      = resolve_column_index \<lparr>ec_tables = lt, ec_counts = lc\<rparr> t i"
    "t \<in> set rt \<Longrightarrow> resolve_column_index \<lparr>ec_tables = lt @ rt, ec_counts = lc @ rc\<rparr> t i
      = sum_list lc + resolve_column_index \<lparr>ec_tables = rt, ec_counts = rc\<rparr> t i"
proof -
  show "t \<in> set lt \<Longrightarrow> resolve_column_index \<lparr>ec_tables = lt @ rt, ec_counts = lc @ rc\<rparr> t i
      = resolve_column_index \<lparr>ec_tables = lt, ec_counts = lc\<rparr> t i"
    using assms by (simp add: resolve_column_index_def resolve_loop_left)
  assume t: "t \<in> set rt"
  then have "t \<notin> set lt" using assms by auto
  then show "resolve_column_index \<lparr>ec_tables = lt @ rt, ec_counts = lc @ rc\<rparr> t i
      = sum_list lc + resolve_column_index \<lparr>ec_tables = rt, ec_counts = rc\<rparr> t i"
    using resolve_loop_skip [of t lt 0 "lc @ rc" rt 0 i] resolve_loop_shift [OF t, of lc rc 0 "sum_list lc" 0 i] assms
    by (simp add: resolve_column_index_def)
qed

lemma view_values_row:
  assumes "wf_relation left" "wf_relation right"
    and "layout = join_output_layout left right (xr_tables left @ xr_tables right)"
    and "l \<in> set (xr_entries left)" "r \<in> set (xr_entries right)"
  shows "view_values (view_from_entries (Some l) (Some r) layout) = rvalues (re_row l) @ rvalues (re_row r)"
proof -
  let ?v = "view_from_entries (Some l) (Some r) layout"
  have vals: "rvalues (view_materialize_row ?v) = rvalues (re_row l) @ rvalues (re_row r)"
    using view_values_concat(1) [OF assms(1,2), of ?v] assms(3-) by (simp add: view_from_entries_def)
  have "length (rvalues (view_materialize_row ?v)) = jl_total_width layout"
    by (simp add: view_materialize_row_def row_new_with_version_def length_concat comp_def view_from_entries_def
        assms(3) join_output_layout_def layout_from_sources_def Let_def)
  then show ?thesis
    unfolding vals [symmetric]
    by (intro nth_equalityI)
      (simp_all add: view_values_def view_get_value_row row_get_def unwrap_null_def view_from_entries_def)
qed

lemma eval_equality:
  "eval_predicate h (Some ctx) row (BinaryOp (Column a) OpEq (Column b)) =
     (let va = row_value row (resolve_column_index ctx (cr_table a) (cr_index a));
          vb = row_value row (resolve_column_index ctx (cr_table b) (cr_index b))
      in Some (\<not> value_is_null va \<and> \<not> value_is_null vb \<and> sql_eq va vb))"
  by (auto simp: eval_predicate_def eval_binary_op_def row_value_def Let_def)

text \<open>The condition holds of the view of two rows exactly when their keys are equal.\<close>

lemma condition_holds:
  assumes wf: "wf_relation left" "wf_relation right"
    and layout: "layout = join_output_layout left right (xr_tables left @ xr_tables right)"
    and disjoint: "set (xr_tables left) \<inter> set (xr_tables right) = {}"
    and keys: "extract_join_keys condition left right = Inr (lk, rk)"
    and bounds: "lk < sum_list (xr_counts left)" "rk < sum_list (xr_counts right)"
    and mem: "l \<in> set (xr_entries left)" "r \<in> set (xr_entries right)"
  shows "eval_predicate h (Some \<lparr>ec_tables = jl_tables layout, ec_counts = jl_counts layout\<rparr>)
      (view_values (view_from_entries (Some l) (Some r) layout)) condition = Some (keys_equal lk rk l r)"
proof -
  have len: "length (xr_counts left) = length (xr_tables left)" "length (xr_counts right) = length (xr_tables right)"
    and width: "length (rvalues (re_row l)) = sum_list (xr_counts left)"
      "length (rvalues (re_row r)) = sum_list (xr_counts right)"
    using wf mem by (auto simp: wf_relation_def list_all_iff)
  have ctx: "\<lparr>ec_tables = jl_tables layout, ec_counts = jl_counts layout\<rparr>
      = \<lparr>ec_tables = xr_tables left @ xr_tables right, ec_counts = xr_counts left @ xr_counts right\<rparr>"
    using len by (simp add: layout join_output_layout_def layout_values)
  note row = view_values_row [OF wf layout mem]
  let ?row = "rvalues (re_row l) @ rvalues (re_row r)"
  have fields: "row_value ?row lk = rvalues (re_row l) ! lk"
    "row_value ?row (sum_list (xr_counts left) + rk) = rvalues (re_row r) ! rk"
    using bounds width by (simp_all add: row_value_def nth_append)
  have key: "keys_equal lk rk l r \<longleftrightarrow> \<not> value_is_null (rvalues (re_row l) ! lk) \<and> \<not> value_is_null (rvalues (re_row r) ! rk)
      \<and> sql_eq (rvalues (re_row l) ! lk) (rvalues (re_row r) ! rk)"
    using bounds width by (auto simp: keys_equal_def join_key_def entry_get_field_def row_get_def)
  from keys obtain a b where cond: "condition = BinaryOp (Column a) OpEq (Column b)"
    by (auto simp: extract_join_keys_def extract_column_ref_def split: expr.splits binary_op.splits)
  note resolve = resolve_layout [OF len(1) disjoint]
  consider (straight) "cr_table a \<in> set (xr_tables left)" "cr_table b \<in> set (xr_tables right)"
      "lk = resolve_column_index (xr_context left) (cr_table a) (cr_index a)"
      "rk = resolve_column_index (xr_context right) (cr_table b) (cr_index b)"
    | (crossed) "cr_table b \<in> set (xr_tables left)" "cr_table a \<in> set (xr_tables right)"
      "lk = resolve_column_index (xr_context left) (cr_table b) (cr_index b)"
      "rk = resolve_column_index (xr_context right) (cr_table a) (cr_index a)"
    using keys by (auto simp: cond extract_join_keys_def extract_column_ref_def split: if_splits)
  then show ?thesis
  proof cases
    case straight
    then show ?thesis
      using fields resolve(1) [of "cr_table a"] resolve(2) [of "cr_table b"] key
      by (simp add: cond eval_equality ctx row Let_def xr_context_def)
  next
    case crossed
    then show ?thesis
      using fields resolve(1) [of "cr_table b"] resolve(2) [of "cr_table a"] key
        sql_eq_sym [of "rvalues (re_row l) ! lk"]
      by (auto simp: cond eval_equality ctx row Let_def xr_context_def)
  qed
qed

section \<open>Sorting\<close>

lemma mset_insert_by [simp]: "mset (insert_by cmp x ys) = add_mset x (mset ys)"
  by (induction ys) auto

lemma mset_sort_by [simp]: "mset (sort_by cmp xs) = mset xs"
  unfolding sort_by_def by (induction xs) auto

lemma set_sort_by [simp]: "set (sort_by cmp xs) = set xs"
  by (metis mset_sort_by set_mset_mset)

context cmp_order
begin

lemma insert_by_sorted:
  assumes "ok x" "\<forall>y \<in> set ys. ok y" "sorted_wrt (\<lambda>a b. cmp a b \<noteq> Greater) ys"
  shows "sorted_wrt (\<lambda>a b. cmp a b \<noteq> Greater) (insert_by cmp x ys)"
  using assms
proof (induction ys)
  case (Cons y ys)
  have set: "set (insert_by cmp x ys) = insert x (set ys)"
    by (metis mset_insert_by set_mset_mset set_mset_add_mset_insert)
  show ?case
  proof (cases "cmp x y = Greater")
    case True
    then have "cmp y x \<noteq> Greater" using cmp_total [of x y] Cons.prems by auto
    then show ?thesis using Cons True set by auto
  next
    case False
    then have "cmp x z \<noteq> Greater" if "z \<in> set ys" for z
      using that Cons.prems cmp_trans [of x y z] by auto
    then show ?thesis using Cons False by auto
  qed
qed simp

lemma sort_by_sorted:
  "\<forall>x \<in> set xs. ok x \<Longrightarrow> sorted_wrt (\<lambda>a b. cmp a b \<noteq> Greater) (sort_by cmp xs)"
  unfolding sort_by_def
proof (induction xs)
  case (Cons x xs)
  have "set (foldr (insert_by cmp) xs []) = set xs"
    using set_sort_by [of cmp xs] by (simp add: sort_by_def)
  then show ?case using Cons insert_by_sorted [of x "foldr (insert_by cmp) xs []"] by simp
qed simp

end

definition field_ok :: "value option \<Rightarrow> bool" where
  "field_ok f \<longleftrightarrow> (case f of Some v \<Rightarrow> \<not> is_float v | None \<Rightarrow> True)"

fun field_key :: "value option \<Rightarrow> nat \<times> value_key" where
  "field_key None = (0, value_key_via num_as_int Null)"
| "field_key (Some v) = (1, value_key_via num_as_int v)"

lemma compare_fields_key: "field_ok a \<Longrightarrow> field_ok b \<Longrightarrow> compare_fields a b = ord_cmp (field_key a) (field_key b)"
  by (cases a; cases b) (simp_all add: field_ok_def value_cmp_no_float ord_cmp_Pair)

interpretation entry_order: cmp_order
  "\<lambda>a b. compare_fields (entry_get_field a i) (entry_get_field b i)" "\<lambda>e. field_ok (entry_get_field e i)" for i
  by (rule cmp_order_via_key [where key = "\<lambda>e. field_key (entry_get_field e i)"]) (rule compare_fields_key)

definition keys_sorted :: "nat \<Rightarrow> relation_entry list \<Rightarrow> bool" where
  "keys_sorted i es \<longleftrightarrow>
     sorted_wrt (\<lambda>a b. compare_fields (entry_get_field a i) (entry_get_field b i) \<noteq> Greater) es
     \<and> (\<forall>e \<in> set es. field_ok (entry_get_field e i))"

lemma sort_entries_sorted:
  assumes "no_floats i r"
  shows "keys_sorted i (sort_entries i (xr_entries r))" "mset (sort_entries i (xr_entries r)) = mset (xr_entries r)"
proof -
  have "\<forall>e \<in> set (xr_entries r). field_ok (entry_get_field e i)"
    using assms by (simp add: no_floats_def list_all_iff field_ok_def)
  then show "keys_sorted i (sort_entries i (xr_entries r))"
    using entry_order.sort_by_sorted [of "xr_entries r" i] by (simp add: keys_sorted_def sort_entries_def)
  show "mset (sort_entries i (xr_entries r)) = mset (xr_entries r)" by (simp add: sort_entries_def)
qed

lemma keys_sorted_Cons:
  "keys_sorted i (e # es) \<Longrightarrow> keys_sorted i es"
  "keys_sorted i (e # es) \<Longrightarrow> join_key e i = Some k \<Longrightarrow> \<not> is_float k"
  "keys_sorted i (e # es) \<Longrightarrow> join_key e i = Some k \<Longrightarrow> e' \<in> set es \<Longrightarrow> join_key e' i = Some k' \<Longrightarrow>
     \<not> is_float k' \<and> value_cmp k k' \<noteq> Greater"
  by (auto simp: keys_sorted_def join_key_def field_ok_def split: option.splits if_splits)

section \<open>Sort-merge join\<close>

definition key_is :: "nat \<Rightarrow> value \<Rightarrow> relation_entry \<Rightarrow> bool" where
  "key_is i k e \<longleftrightarrow> (case join_key e i of Some k' \<Rightarrow> value_cmp k k' = Equal | None \<Rightarrow> False)"

lemma merge_scan_emits:
  "keys_sorted rk rs \<Longrightarrow> \<not> is_float k \<Longrightarrow>
     merge_scan emit l k rk layout rs m s =
       flow_bind (for_loop emit (map (\<lambda>r. view_materialize_entry (view_from_entries (Some l) (Some r) layout) (jl_tables layout))
           (filter (key_is rk k) rs)) s)
         (\<lambda>s. Go (m \<or> filter (key_is rk k) rs \<noteq> [], s))"
proof (induction rs arbitrary: m s)
  case (Cons r rs)
  note IH = Cons.IH [OF keys_sorted_Cons(1) [OF Cons.prems(1)] Cons.prems(2)]
  show ?case
  proof (cases "join_key r rk")
    case None
    then show ?thesis using IH by (simp add: key_is_def)
  next
    case (Some k')
    note k' = keys_sorted_Cons(2) [OF Cons.prems(1) Some]
    show ?thesis
    proof (cases "value_cmp k k'")
      case Less
      have "\<not> key_is rk k e" if "e \<in> set rs" for e
      proof (cases "join_key e rk")
        case e: (Some v)
        have "value_cmp k v = Less"
          using keys_sorted_Cons(3) [OF Cons.prems(1) Some that e] value_no_float.cmp_less_trans [of k k' v] Less k' Cons.prems(2)
          by blast
        then show ?thesis by (simp add: key_is_def e)
      qed (simp add: key_is_def)
      then have "filter (key_is rk k) rs = []" by (simp add: filter_empty_conv)
      then show ?thesis using Some Less by (simp add: key_is_def [of rk k r])
    next
      case Equal
      have "merge_scan emit l k rk layout rs True = (\<lambda>s. flow_bind
          (for_loop emit (map (\<lambda>r. view_materialize_entry (view_from_entries (Some l) (Some r) layout) (jl_tables layout))
             (filter (key_is rk k) rs)) s)
          (\<lambda>s. Go (True, s)))"
        using IH by (simp add: fun_eq_iff)
      with Equal show ?thesis
        using Some by (simp add: key_is_def [of rk k r] emit_join_view_def flow_bind_assoc)
    next
      case Greater
      then show ?thesis using Some IH by (simp add: key_is_def)
    qed
  qed
qed simp

lemma merge_skip_keeps:
  "keys_sorted rk rs \<Longrightarrow> \<not> is_float k \<Longrightarrow> \<not> is_float k' \<Longrightarrow> value_cmp k k' \<noteq> Greater \<Longrightarrow>
     keys_sorted rk (merge_skip rk k rs) \<and> filter (key_is rk k') (merge_skip rk k rs) = filter (key_is rk k') rs"
proof (induction rs)
  case (Cons r rs)
  note IH = Cons.IH [OF keys_sorted_Cons(1) [OF Cons.prems(1)] Cons.prems(2-)]
  show ?case
  proof (cases "join_key r rk")
    case None
    then show ?thesis using IH by (simp add: key_is_def)
  next
    case (Some v)
    note v = keys_sorted_Cons(2) [OF Cons.prems(1) Some]
    show ?thesis
    proof (cases "value_cmp v k = Less")
      case True
      then have "value_cmp v k' = Less"
        using value_no_float.cmp_less_trans [of v k k'] v Cons.prems by simp
      then have "\<not> key_is rk k' r"
        using Some value_no_float.cmp_swap [of v k'] v Cons.prems by (simp add: key_is_def)
      then show ?thesis using True Some IH by simp
    next
      case False
      then show ?thesis using Some Cons.prems by simp
    qed
  qed
qed (simp add: keys_sorted_def)

definition merge_match :: "nat \<Rightarrow> nat \<Rightarrow> relation_entry \<Rightarrow> relation_entry \<Rightarrow> bool" where
  "merge_match lk rk l r \<longleftrightarrow> (case join_key l lk of Some k \<Rightarrow> key_is rk k r | None \<Rightarrow> False)"

lemma merge_loop:
  fixes emit :: "'s emitter"
  defines "mat \<equiv> \<lambda>l r layout. view_materialize_entry (view_from_entries l r layout) (jl_tables layout)"
  assumes "keys_sorted lk ls" "keys_sorted rk rights"
    and "\<And>l. l \<in> set ls \<Longrightarrow> filter (merge_match lk rk l) rights = filter (merge_match lk rk l) rs"
  shows "\<exists>rights'. \<forall>s. for_loop (\<lambda>left_entry (rights, s).
       (case join_key left_entry lk of
          None \<Rightarrow>
            if pad then flow_bind (emit_join_view emit (view_from_entries (Some left_entry) None layout) (jl_tables layout) s)
                (\<lambda>s. Go (rights, s)) else Go (rights, s)
        | Some left_value \<Rightarrow>
            (let rights = merge_skip rk left_value rights in
             flow_bind (merge_scan emit left_entry left_value rk layout rights False s)
               (\<lambda>(matched, s).
                 if pad \<and> \<not> matched then
                   flow_bind (emit_join_view emit (view_from_entries (Some left_entry) None layout) (jl_tables layout) s)
                     (\<lambda>s. Go (rights, s))
                 else Go (rights, s))))) ls (rights, s)
    = flow_bind
        (for_loop emit (concat (map (probe_rows (merge_match lk rk) (\<lambda>l r. mat (Some l) (Some r) layout)
           (\<lambda>l. mat (Some l) None layout) pad rs) ls)) s)
        (\<lambda>s. Go (rights', s))"
    (is "\<exists>rights'. \<forall>s. for_loop ?body ls (rights, s) = _ rights' s")
  using assms(2-)
proof (induction ls arbitrary: rights)
  case (Cons l ls)
  have match: "filter (merge_match lk rk l) rights = filter (merge_match lk rk l) rs" using Cons.prems(3) by simp
  have step: "\<exists>rights1. keys_sorted rk rights1
      \<and> (\<forall>l' \<in> set ls. filter (merge_match lk rk l') rights1 = filter (merge_match lk rk l') rs)
      \<and> (\<forall>s. ?body l (rights, s) = flow_bind
          (for_loop emit (probe_rows (merge_match lk rk) (\<lambda>l r. mat (Some l) (Some r) layout)
             (\<lambda>l. mat (Some l) None layout) pad rs l) s)
          (\<lambda>s. Go (rights1, s)))"
  proof (cases "join_key l lk")
    case None
    then have "filter (merge_match lk rk l) rs = []" by (simp add: merge_match_def)
    then show ?thesis
      using None Cons.prems(2,3)
      by (intro exI [of _ rights]) (auto simp: probe_rows_def mat_def emit_join_view_def)
  next
    case (Some k)
    note k = keys_sorted_Cons(2) [OF Cons.prems(1) Some]
    let ?rights1 = "merge_skip rk k rights"
    have sorted1: "keys_sorted rk ?rights1"
      and same: "filter (key_is rk k) ?rights1 = filter (key_is rk k) rights"
      using merge_skip_keeps [OF Cons.prems(2) k k] value_no_float.cmp_refl [OF k] by simp_all
    have later: "filter (merge_match lk rk l') ?rights1 = filter (merge_match lk rk l') rs" if "l' \<in> set ls" for l'
    proof (cases "join_key l' lk")
      case (Some k')
      note k' = keys_sorted_Cons(3) [OF Cons.prems(1) \<open>join_key l lk = Some k\<close> that Some]
      have "filter (key_is rk k') ?rights1 = filter (key_is rk k') rights"
        using merge_skip_keeps [OF Cons.prems(2) k, of k'] k' by simp
      moreover have "merge_match lk rk l' = key_is rk k'" by (rule ext) (simp add: merge_match_def Some)
      ultimately show ?thesis using Cons.prems(3) [of l'] that by simp
    qed (simp add: merge_match_def)
    have m: "merge_match lk rk l = key_is rk k" by (rule ext) (simp add: merge_match_def Some)
    have "?body l (rights, s) = flow_bind
        (for_loop emit (probe_rows (merge_match lk rk) (\<lambda>l r. mat (Some l) (Some r) layout)
           (\<lambda>l. mat (Some l) None layout) pad rs l) s)
        (\<lambda>s. Go (?rights1, s))" for s
      using match
      by (cases "filter (key_is rk k) rs = []")
        (simp_all add: Some merge_scan_emits [OF sorted1 k] same m probe_rows_def flow_bind_assoc mat_def
          emit_join_view_def)
    then show ?thesis using sorted1 later by blast
  qed
  then obtain rights1 where rights1: "keys_sorted rk rights1"
    "\<And>l'. l' \<in> set ls \<Longrightarrow> filter (merge_match lk rk l') rights1 = filter (merge_match lk rk l') rs"
    and body: "\<And>s. ?body l (rights, s) = flow_bind
          (for_loop emit (probe_rows (merge_match lk rk) (\<lambda>l r. mat (Some l) (Some r) layout)
             (\<lambda>l. mat (Some l) None layout) pad rs l) s)
          (\<lambda>s. Go (rights1, s))" by blast
  from Cons.IH [OF keys_sorted_Cons(1) [OF Cons.prems(1)] rights1] obtain rights' where
    IH: "\<And>s. for_loop ?body ls (rights1, s) = flow_bind
      (for_loop emit (concat (map (probe_rows (merge_match lk rk) (\<lambda>l r. mat (Some l) (Some r) layout)
           (\<lambda>l. mat (Some l) None layout) pad rs) ls)) s)
      (\<lambda>s. Go (rights', s))" by blast
  have "for_loop ?body (l # ls) (rights, s) = flow_bind
      (for_loop emit (concat (map (probe_rows (merge_match lk rk) (\<lambda>l r. mat (Some l) (Some r) layout)
           (\<lambda>l. mat (Some l) None layout) pad rs) (l # ls))) s)
      (\<lambda>s. Go (rights', s))" for s
    unfolding for_loop.simps(2) body flow_bind_assoc flow_bind.simps IH
    by (simp add: for_loop_append flow_bind_assoc)
  then show ?case by blast
qed simp

definition merge_rows ::
  "exec_relation \<Rightarrow> exec_relation \<Rightarrow> nat \<Rightarrow> nat \<Rightarrow> join_type \<Rightarrow> join_layout \<Rightarrow> relation_entry list" where
  "merge_rows left right lk rk jt layout =
     (let mat = (\<lambda>l r. view_materialize_entry (view_from_entries l r layout) (jl_tables layout)) in
      concat (map (probe_rows (merge_match lk rk) (\<lambda>l r. mat (Some l) (Some r)) (\<lambda>l. mat (Some l) None)
        (jt = LeftOuter \<or> jt = FullOuter) (sort_entries rk (xr_entries right)))
        (sort_entries lk (xr_entries left))))"

lemma emit_sort_merge_join:
  fixes emit :: "'s emitter"
  assumes "no_floats lk left" "no_floats rk right"
  shows "emit_sort_merge_join_entries left right lk rk jt outputs emit s
    = for_loop emit (merge_rows left right lk rk jt (join_output_layout left right outputs)) s"
proof -
  note sorted = sort_entries_sorted(1) [OF assms(1)] sort_entries_sorted(1) [OF assms(2)]
  obtain rights' where loop: "\<And>s. for_loop (\<lambda>left_entry (rights, s).
       (case join_key left_entry lk of
          None \<Rightarrow>
            if jt = LeftOuter \<or> jt = FullOuter then
              flow_bind (emit_join_view emit (view_from_entries (Some left_entry) None (join_output_layout left right outputs))
                  (jl_tables (join_output_layout left right outputs)) s)
                (\<lambda>s. Go (rights, s)) else Go (rights, s)
        | Some left_value \<Rightarrow>
            (let rights = merge_skip rk left_value rights in
             flow_bind (merge_scan emit left_entry left_value rk (join_output_layout left right outputs) rights False s)
               (\<lambda>(matched, s).
                 if (jt = LeftOuter \<or> jt = FullOuter) \<and> \<not> matched then
                   flow_bind (emit_join_view emit (view_from_entries (Some left_entry) None (join_output_layout left right outputs))
                       (jl_tables (join_output_layout left right outputs)) s)
                     (\<lambda>s. Go (rights, s))
                 else Go (rights, s)))))
      (sort_entries lk (xr_entries left)) (sort_entries rk (xr_entries right), s)
    = flow_bind
        (for_loop emit (merge_rows left right lk rk jt (join_output_layout left right outputs)) s)
        (\<lambda>s. Go (rights', s))"
    using merge_loop [OF sorted refl, where emit = emit and layout = "join_output_layout left right outputs"
        and pad = "jt = LeftOuter \<or> jt = FullOuter"]
    unfolding merge_rows_def Let_def by blast
  show ?thesis
    unfolding emit_sort_merge_join_entries_def Let_def loop [unfolded Let_def] flow_bind_assoc flow_bind.simps prod.case
    by simp
qed

lemma merge_match_equal:
  assumes "no_floats lk left" "no_floats rk right" "l \<in> set (xr_entries left)" "r \<in> set (xr_entries right)"
  shows "merge_match lk rk l r = keys_equal lk rk l r"
  using no_floats_key [OF assms(1,3)] no_floats_key [OF assms(2,4)] sql_eq_cmp
  by (auto simp: merge_match_def key_is_def keys_equal_def mixes_float_def split: option.split)

lemma mset_concat_map: "mset xs = mset ys \<Longrightarrow> mset (concat (map f xs)) = mset (concat (map f ys))"
proof -
  have "mset (concat (map f zs)) = (\<Sum>\<^sub># (image_mset (\<lambda>z. mset (f z)) (mset zs)))" for zs
    by (induction zs) auto
  then show "mset xs = mset ys \<Longrightarrow> ?thesis" by simp
qed

lemma mset_concat_cong: "(\<And>x. mset (f x) = mset (g x)) \<Longrightarrow> mset (concat (map f xs)) = mset (concat (map g xs))"
  by (induction xs) auto

lemma mset_probe_rows_perm:
  assumes "mset bs = mset bs'"
  shows "mset (probe_rows on f g pad bs p) = mset (probe_rows on f g pad bs' p)"
proof -
  have m: "mset (filter (on p) bs) = mset (filter (on p) bs')" using assms by simp
  then have "filter (on p) bs = [] \<longleftrightarrow> filter (on p) bs' = []" by (metis mset_zero_iff)
  then show ?thesis using m by (simp add: probe_rows_def Let_def)
qed

text \<open>The sort-merge join computes inner and left outer joins.\<close>

lemma merge_rows_join:
  assumes wf: "wf_relation left" "wf_relation right"
    and layout: "layout = join_output_layout left right (xr_tables left @ xr_tables right)"
    and keys: "no_floats lk left" "no_floats rk right"
    and jt: "jt \<noteq> RightOuter" "jt \<noteq> FullOuter"
  shows "mset (merge_rows left right lk rk jt layout) = join_rows (keys_equal lk rk) jt left right"
proof -
  let ?mat = "\<lambda>l r. view_materialize_entry (view_from_entries l r layout) (jl_tables layout)"
  let ?rows = "\<lambda>rs. probe_rows (merge_match lk rk) (\<lambda>l r. ?mat (Some l) (Some r)) (\<lambda>l. ?mat (Some l) None)
    (jt = LeftOuter \<or> jt = FullOuter) rs"
  have "mset (merge_rows left right lk rk jt layout)
      = mset (concat (map (?rows (sort_entries rk (xr_entries right))) (xr_entries left)))"
    unfolding merge_rows_def Let_def by (rule mset_concat_map) (rule sort_entries_sorted(2) [OF keys(1)])
  also have "\<dots> = mset (concat (map (?rows (xr_entries right)) (xr_entries left)))"
    by (rule mset_concat_cong) (rule mset_probe_rows_perm [OF sort_entries_sorted(2) [OF keys(2)]])
  also have "\<dots> = mset (nested_rows (merge_match lk rk) left right jt layout)"
    using jt by (simp add: nested_rows_def unmatched_rows_def Let_def)
  also have "\<dots> = join_rows (merge_match lk rk) jt left right"
    by (rule nested_rows_join [OF wf layout])
  also have "\<dots> = join_rows (keys_equal lk rk) jt left right"
    by (rule join_rows_cong) (rule merge_match_equal [OF keys])
  finally show ?thesis .
qed

section \<open>Properties\<close>

lemma hash_join_result:
  assumes wf: "wf_relation left" "wf_relation right"
    and keys: "extract_join_keys condition left right = Inr (lk, rk)" "no_floats lk left" "no_floats rk right"
    and len: "xr_len left \<le> 2 ^ 32" "xr_len right \<le> 2 ^ 32"
  shows "\<exists>rel. execute_hash_join left right condition jt (xr_tables left @ xr_tables right) = Go rel
    \<and> xr_tables rel = xr_tables left @ xr_tables right \<and> xr_counts rel = xr_counts left @ xr_counts right
    \<and> mset (xr_entries rel) = join_rows (keys_equal lk rk) jt left right"
  using hash_rows_join [OF wf refl keys(2,3)] wf
  by (simp add: execute_hash_join_def keys(1) emit_hash_join [OF len] collecting_loop relation_of_def
      xr_from_entries_def wf_relation_def join_output_layout_def layout_values)

lemma sort_merge_join_result:
  assumes wf: "wf_relation left" "wf_relation right"
    and keys: "extract_join_keys condition left right = Inr (lk, rk)" "no_floats lk left" "no_floats rk right"
    and jt: "jt \<noteq> RightOuter" "jt \<noteq> FullOuter"
  shows "\<exists>rel. execute_sort_merge_join left right condition jt (xr_tables left @ xr_tables right) = Go rel
    \<and> xr_tables rel = xr_tables left @ xr_tables right \<and> xr_counts rel = xr_counts left @ xr_counts right
    \<and> mset (xr_entries rel) = join_rows (keys_equal lk rk) jt left right"
  using merge_rows_join [OF wf refl keys(2,3) jt] wf
  by (simp add: execute_sort_merge_join_def keys(1) emit_sort_merge_join [OF keys(2,3)] collecting_loop relation_of_def
      xr_from_entries_def wf_relation_def join_output_layout_def layout_values)

lemma nested_loop_join_result:
  assumes wf: "wf_relation left" "wf_relation right"
    and disjoint: "set (xr_tables left) \<inter> set (xr_tables right) = {}"
    and keys: "extract_join_keys condition left right = Inr (lk, rk)"
    and bounds: "lk < sum_list (xr_counts left)" "rk < sum_list (xr_counts right)"
  shows "\<exists>rel. execute_nested_loop_join h left right condition jt (xr_tables left @ xr_tables right) = Go rel
    \<and> xr_tables rel = xr_tables left @ xr_tables right \<and> xr_counts rel = xr_counts left @ xr_counts right
    \<and> mset (xr_entries rel) = join_rows (keys_equal lk rk) jt left right"
proof -
  let ?layout = "join_output_layout left right (xr_tables left @ xr_tables right)"
  have "emit_nested_loop_join_entries h left right condition jt (xr_tables left @ xr_tables right) collecting []
      = for_loop collecting (nested_rows (keys_equal lk rk) left right jt ?layout) []"
    unfolding emit_nested_loop_join_entries_def Let_def
    by (rule nested_loop_emits) (rule condition_holds [OF wf refl disjoint keys bounds])
  then show ?thesis
    using nested_rows_join [OF wf refl, of "keys_equal lk rk" jt] wf
    by (simp add: execute_nested_loop_join_def collecting_loop relation_of_def
        xr_from_entries_def wf_relation_def join_output_layout_def layout_values)
qed


definition sample_users :: exec_relation where
  "sample_users = xr_from_rows [row_new 1 [Int32 1, Str ''ann''], row_new 2 [Int32 2, Str ''bob''],
     row_new 3 [Null, Str ''eve'']] [''users'']"

definition sample_orders :: exec_relation where
  "sample_orders = xr_from_rows [row_new 10 [Int64 2], row_new 11 [Int64 2], row_new 12 [Int64 7]] [''orders'']"

definition sample_condition :: expr where
  "sample_condition = BinaryOp (Column \<lparr>cr_table = ''orders'', cr_column = ''user'', cr_index = 0\<rparr>) OpEq
     (Column \<lparr>cr_table = ''users'', cr_column = ''id'', cr_index = 0\<rparr>)"

lemma sample_facts:
  "wf_relation sample_users" "wf_relation sample_orders"
  "extract_join_keys sample_condition sample_users sample_orders = Inr (0, 0)"
  "no_floats 0 sample_users" "no_floats 0 sample_orders"
  "xr_len sample_users \<le> 2 ^ 32" "xr_len sample_orders \<le> 2 ^ 32"
  "set (xr_tables sample_users) \<inter> set (xr_tables sample_orders) = {}"
  "0 < sum_list (xr_counts sample_users)" "0 < sum_list (xr_counts sample_orders)"
  by (simp_all add: sample_users_def sample_orders_def sample_condition_def wf_relation_def xr_from_rows_def
      entry_new_def row_new_def row_len_def no_floats_def entry_get_field_def row_get_def xr_len_def
      extract_join_keys_def extract_column_ref_def resolve_column_index_def xr_context_def)




text \<open>The sort-merge join drops the unmatched right rows of right and full outer joins.\<close>

lemma sort_merge_right_outer_drops:
  "let left = xr_from_rows_with_column_count [] [''users''] 2; right = xr_from_rows [row_new 10 [Int32 2]] [''orders''] in
   emit_sort_merge_join_entries left right 0 0 RightOuter [''users'', ''orders''] collecting [] = Go []
   \<and> size (join_rows (keys_equal 0 0) RightOuter left right) = 1"
  by (simp add: Let_def emit_sort_merge_join_entries_def sort_entries_def sort_by_def xr_from_rows_def
      xr_from_rows_with_column_count_def join_rows_def)

end
