(* ===== verification/Cynos_Sort_Exec.thy ===== *)
theory Cynos_Sort_Exec
  imports Cynos_Join_Spec Cynos_Comparator "HOL-Library.Sublist"
begin

text \<open>
  Ordering and set operations of the executor: \<open>crates/query/src/executor/sort.rs\<close>, \<open>limit.rs\<close> and the operators
  Sort, Limit, TopN and Union of \<open>runner.rs\<close>. TopN keeps the best rows in a binary heap; which of several
  greatest elements the heap yields, and the order it is emptied in, are parameters.
\<close>

section \<open>Sort\<close>

fun compare_by :: "(nat \<times> sort_order) list \<Rightarrow> relation_entry \<Rightarrow> relation_entry \<Rightarrow> ordering" where
  "compare_by [] a b = Equal"
| "compare_by ((col_idx, order) # order_by) a b =
     (let cmp = compare_fields (entry_get_field a col_idx) (entry_get_field b col_idx) in
      if cmp \<noteq> Equal then (case order of SortAsc \<Rightarrow> cmp | SortDesc \<Rightarrow> ordering_reverse cmp)
      else compare_by order_by a b)"

definition sort_execute :: "(nat \<times> sort_order) list \<Rightarrow> exec_relation \<Rightarrow> exec_relation" where
  "sort_execute order_by input = input\<lparr>xr_entries := sort_by (compare_by order_by) (xr_entries input)\<rparr>"

text \<open>The columns to order by; other expressions are left out.\<close>

definition order_by_indices :: "exec_relation \<Rightarrow> (expr \<times> sort_order) list \<Rightarrow> (nat \<times> sort_order) list" where
  "order_by_indices input order_by =
     List.map_filter (\<lambda>(e, order).
       (case e of
          Column c \<Rightarrow> Some (resolve_column_index (xr_context input) (cr_table c) (cr_index c), order)
        | _ \<Rightarrow> None)) order_by"

definition execute_sort :: "exec_relation \<Rightarrow> (expr \<times> sort_order) list \<Rightarrow> exec_relation" where
  "execute_sort input order_by = sort_execute (order_by_indices input order_by) input"

section \<open>Limit\<close>

text \<open>The sum of the offset and the limit wraps; draining past the end panics.\<close>

definition limit_execute :: "u64 \<Rightarrow> u64 \<Rightarrow> exec_relation \<Rightarrow> exec_relation option" where
  "limit_execute limit offset input =
     (let len = length (xr_entries input);
          start = min (unat offset) len;
          stop = min (unat (offset + limit)) len;
          truncated = take stop (xr_entries input)
      in if start > 0 then
           (if start \<le> length truncated then Some (input\<lparr>xr_entries := drop start truncated\<rparr>) else None)
         else Some (input\<lparr>xr_entries := truncated\<rparr>))"

section \<open>TopN\<close>

text \<open>\<open>BinaryHeap\<close>: the position of the element \<open>peek\<close> and \<open>pop\<close> give, and the order of \<open>into_iter\<close>.\<close>

record heap_host =
  hp_peek :: "(nat \<times> sort_order) list \<Rightarrow> relation_entry list \<Rightarrow> nat"
  hp_into_iter :: "relation_entry list \<Rightarrow> relation_entry list"

definition heap_pop :: "heap_host \<Rightarrow> (nat \<times> sort_order) list \<Rightarrow> relation_entry list \<Rightarrow> relation_entry list" where
  "heap_pop hp order_by heap = (let i = hp_peek hp order_by heap in take i heap @ drop (Suc i) heap)"

definition topn_step ::
  "heap_host \<Rightarrow> (nat \<times> sort_order) list \<Rightarrow> nat \<Rightarrow> relation_entry list \<Rightarrow> relation_entry \<Rightarrow> relation_entry list" where
  "topn_step hp order_by k heap entry =
     (if length heap < k then entry # heap
      else if heap = [] then heap
      else if compare_by order_by entry (heap ! hp_peek hp order_by heap) = Less
      then entry # heap_pop hp order_by heap
      else heap)"

definition saturating_add :: "u64 \<Rightarrow> u64 \<Rightarrow> u64" where
  "saturating_add a b = (if unat a + unat b < 2 ^ 64 then a + b else - 1)"

definition execute_topn ::
  "heap_host \<Rightarrow> exec_relation \<Rightarrow> (expr \<times> sort_order) list \<Rightarrow> u64 \<Rightarrow> u64 \<Rightarrow> exec_relation option" where
  "execute_topn hp input order_by limit offset =
     (let indices = order_by_indices input order_by;
          k = saturating_add limit offset
      in if k = 0 \<or> length (xr_entries input) \<le> min (2 * unat k) (2 ^ 64 - 1)
         then limit_execute limit offset (sort_execute indices input)
         else
           (let heap = foldl (topn_step hp indices (unat k)) [] (xr_entries input);
                result = sort_by (compare_by indices) (hp_into_iter hp heap)
            in Some (xr_from_entries (take (unat limit) (drop (unat offset) result)) (xr_tables input) (xr_counts input))))"

section \<open>Union\<close>

text \<open>The order of the rows in the set of the rows seen: that of vectors of values.\<close>

fun values_cmp :: "value list \<Rightarrow> value list \<Rightarrow> ordering" where
  "values_cmp [] [] = Equal"
| "values_cmp [] (_ # _) = Less"
| "values_cmp (_ # _) [] = Greater"
| "values_cmp (a # as) (b # bs) = (case value_cmp a b of Equal \<Rightarrow> values_cmp as bs | c \<Rightarrow> c)"

fun union_loop :: "value list list \<Rightarrow> relation_entry list \<Rightarrow> relation_entry list" where
  "union_loop seen [] = []"
| "union_loop seen (e # es) =
     (let key = rvalues (re_row e) in
      if list_ex (\<lambda>k. values_cmp k key = Equal) seen then union_loop seen es
      else e # union_loop (key # seen) es)"

definition execute_union :: "exec_relation \<Rightarrow> exec_relation \<Rightarrow> bool \<Rightarrow> exec_error + exec_relation" where
  "execute_union left right all =
     (if sum_list (xr_counts left) \<noteq> sum_list (xr_counts right)
      then Inl (ExecInvalidOperation ''UNION inputs must have the same column count'')
      else if all then Inr (xr_from_entries (xr_entries left @ xr_entries right) (xr_tables left) (xr_counts left))
      else Inr (xr_from_entries (union_loop [] (xr_entries left @ xr_entries right)) (xr_tables left) (xr_counts left)))"

section \<open>The order of the rows\<close>

definition sort_direction :: "sort_order \<Rightarrow> order" where
  "sort_direction d = (case d of SortAsc \<Rightarrow> Asc | SortDesc \<Rightarrow> Desc)"

lemma compare_by_lex:
  "compare_by order_by a b =
     lex_compare (map (\<lambda>(i, d) a b. order_apply (sort_direction d)
       (compare_fields (entry_get_field a i) (entry_get_field b i))) order_by) a b"
  by (induction order_by) (auto simp: Let_def sort_direction_def split: sort_order.splits)

text \<open>No field that decides the order is a float.\<close>

definition order_fields_ok :: "(nat \<times> sort_order) list \<Rightarrow> relation_entry \<Rightarrow> bool" where
  "order_fields_ok order_by e \<longleftrightarrow> list_all (\<lambda>(i, _). field_ok (entry_get_field e i)) order_by"

lemma cmp_order_compare_by: "cmp_order (compare_by order_by) (order_fields_ok order_by)"
proof -
  have "cmp_order (lex_compare (map (\<lambda>(i, d) a b. order_apply (sort_direction d)
       (compare_fields (entry_get_field a i) (entry_get_field b i))) order_by)) (order_fields_ok order_by)"
  proof (rule cmp_order_lex)
    fix c assume "c \<in> set (map (\<lambda>(i, d) a b. order_apply (sort_direction d)
       (compare_fields (entry_get_field a i) (entry_get_field b i))) order_by)"
    then obtain i d where in_order: "(i, d) \<in> set order_by"
      and c: "c = (\<lambda>a b. order_apply (sort_direction d) (compare_fields (entry_get_field a i) (entry_get_field b i)))"
      by auto
    have "order_fields_ok order_by e \<Longrightarrow> field_ok (entry_get_field e i)" for e
      using in_order by (auto simp: order_fields_ok_def list_all_iff)
    then show "cmp_order c (order_fields_ok order_by)"
      unfolding c
      by (intro cmp_order_reverse cmp_order_pullback [OF entry_order.cmp_order_axioms [of i], where f = "\<lambda>e. e"])
  qed
  moreover have "compare_by order_by = lex_compare (map (\<lambda>(i, d) a b. order_apply (sort_direction d)
       (compare_fields (entry_get_field a i) (entry_get_field b i))) order_by)"
    by (intro ext compare_by_lex)
  ultimately show ?thesis by simp
qed

interpretation row_order: cmp_order "compare_by order_by" "order_fields_ok order_by" for order_by
  by (rule cmp_order_compare_by)

section \<open>Ranks\<close>

text \<open>On finitely many elements an order of \<open>Ord\<close> is the order of their ranks.\<close>

context cmp_order
begin

definition rank :: "'a set \<Rightarrow> 'a \<Rightarrow> nat" where
  "rank S a = card {x \<in> S. cmp x a = Less}"

lemma rank_mono:
  assumes "finite S" "\<forall>x \<in> S. ok x" "a \<in> S" "b \<in> S" "cmp a b \<noteq> Greater"
  shows "rank S a \<le> rank S b"
proof -
  have "{x \<in> S. cmp x a = Less} \<subseteq> {x \<in> S. cmp x b = Less}"
    using assms cmp_less_trans [of _ a b] by auto
  then show ?thesis unfolding rank_def using assms(1) by (intro card_mono) auto
qed

lemma rank_strict:
  assumes "finite S" "\<forall>x \<in> S. ok x" "a \<in> S" "b \<in> S" "cmp a b = Less"
  shows "rank S a < rank S b"
proof -
  have "{x \<in> S. cmp x a = Less} \<subseteq> {x \<in> S. cmp x b = Less}"
    using assms cmp_less_trans [of _ a b] by auto
  moreover have "a \<in> {x \<in> S. cmp x b = Less} - {x \<in> S. cmp x a = Less}"
    using assms cmp_refl [of a] by simp
  ultimately have "{x \<in> S. cmp x a = Less} \<subset> {x \<in> S. cmp x b = Less}" by blast
  then show ?thesis unfolding rank_def using assms(1) by (intro psubset_card_mono) auto
qed

lemma cmp_rank:
  assumes "finite S" "\<forall>x \<in> S. ok x" "a \<in> S" "b \<in> S"
  shows "cmp a b = ord_cmp (rank S a) (rank S b)"
proof (cases "cmp a b")
  case Less
  then show ?thesis using rank_strict [OF assms] by (simp add: ord_cmp_def)
next
  case Equal
  then have "cmp b a \<noteq> Greater" using assms cmp_equal_sym [of a b] by simp
  then have "rank S a = rank S b"
    using Equal rank_mono [OF assms] rank_mono [OF assms(1,2,4,3)] by simp
  then show ?thesis using Equal by simp
next
  case Greater
  then have "cmp b a = Less" using assms cmp_swap [of a b] by simp
  then show ?thesis using Greater rank_strict [OF assms(1,2,4,3)] by (simp add: ord_cmp_def)
qed

lemma sort_by_ranks:
  assumes "finite S" "\<forall>x \<in> S. ok x" "set xs \<subseteq> S"
  shows "map (rank S) (sort_by cmp xs) = sort (map (rank S) xs)"
proof (rule properties_for_sort [symmetric])
  show "mset (map (rank S) (sort_by cmp xs)) = mset (map (rank S) xs)" by simp
  have "sorted_wrt (\<lambda>a b. cmp a b \<noteq> Greater) (sort_by cmp xs)"
    using assms by (intro sort_by_sorted) auto
  then have "sorted_wrt (\<lambda>a b. rank S a \<le> rank S b) (sort_by cmp xs)"
    by (rule sorted_wrt_mono_rel [rotated]) (use assms(3) in \<open>auto simp: subset_iff intro!: rank_mono [OF assms(1,2)]\<close>)
  then show "sorted (map (rank S) (sort_by cmp xs))" by (simp add: sorted_map)
qed

lemma equal_ranks:
  assumes "finite S" "\<forall>x \<in> S. ok x" "set xs \<subseteq> S" "set ys \<subseteq> S" "map (rank S) xs = map (rank S) ys"
  shows "list_all2 (\<lambda>a b. cmp a b = Equal) xs ys"
proof -
  have len: "length xs = length ys" using assms(5) by (metis length_map)
  have "cmp (xs ! i) (ys ! i) = Equal" if "i < length xs" for i
    using that len assms(5) cmp_rank [OF assms(1,2), of "xs ! i" "ys ! i"] assms(3,4)
    by (metis nth_map nth_mem ord_cmp_refl subsetD)
  then show ?thesis using len by (simp add: list_all2_conv_all_nth)
qed

end

section \<open>The least elements of a list\<close>

lemma sort_snoc: "sort (xs @ [x]) = insort x (sort (xs :: nat list))"
  by (rule properties_for_sort) (simp_all add: sorted_insort)

lemma take_insort: "take k (insort x L) = take k (insort x (take k L))"
proof (induction L arbitrary: k)
  case (Cons y L)
  show ?case
  proof (cases k)
    case (Suc j)
    have "take j (y # L) = take j (y # take j L)" by (cases j) (simp_all add: min_def)
    then show ?thesis using Cons [of j] Suc by simp
  qed simp
qed simp

lemma take_insort_less: "x < z \<Longrightarrow> take (Suc (length N)) (insort x (N @ [z])) = insort (x :: nat) N"
  by (induction N) auto

text \<open>Keeping the \<open>k\<close> least elements, one element at a time.\<close>

lemma least_grow:
  assumes "length p < k" "mset H = mset (take k (sort (p :: nat list)))"
  shows "mset (r # H) = mset (take k (sort (p @ [r])))"
  using assms by (simp add: sort_snoc)

lemma least_replace:
  fixes p H :: "nat list"
  assumes len: "k \<le> length p" "0 < k" and H: "mset H = mset (take k (sort p))"
    and i: "i < length H" "\<forall>j < length H. H ! j \<le> H ! i"
  shows "r < H ! i \<Longrightarrow> mset (r # take i H @ drop (Suc i) H) = mset (take k (sort (p @ [r])))"
    and "\<not> r < H ! i \<Longrightarrow> mset H = mset (take k (sort (p @ [r])))"
proof -
  define M where "M = take k (sort p)"
  have M: "sorted M" "length M = k" using len by (auto simp: M_def sorted_wrt_take)
  obtain N z where Nz: "M = N @ [z]" using M len by (cases M rule: rev_cases) auto
  have set: "set H = set M" using H by (metis M_def set_mset_mset)
  have "\<forall>x \<in> set H. x \<le> H ! i" using i by (metis in_set_conv_nth)
  moreover have "z \<in> set H" using set Nz by simp
  moreover have "H ! i \<in> set M" using set i(1) nth_mem by metis
  ultimately have top: "H ! i = z"
    using M(1) Nz by (auto simp: sorted_append intro: order.antisym)
  have next_best: "take k (sort (p @ [r])) = take (Suc (length N)) (insort r (N @ [z]))"
  proof -
    have "k = Suc (length N)" using M(2) Nz by simp
    then show ?thesis using Nz take_insort [of k r "sort p", folded M_def] by (simp add: sort_snoc)
  qed
  have split: "mset H = add_mset (H ! i) (mset (take i H @ drop (Suc i) H))"
    using i(1) by (metis id_take_nth_drop mset.simps(2) mset_append union_mset_add_mset_right)
  show "mset (r # take i H @ drop (Suc i) H) = mset (take k (sort (p @ [r])))" if "r < H ! i"
    using that split H next_best top Nz take_insort_less [of r z N] by (simp add: M_def)
  show "mset H = mset (take k (sort (p @ [r])))" if "\<not> r < H ! i"
  proof -
    have "\<forall>x \<in> set M. x \<le> r" using that top M(1) Nz by (auto simp: sorted_append intro: order_trans)
    then have "insort r (N @ [z]) = (N @ [z]) @ [r]"
      using M(1) Nz by (intro sorted_insort_is_snoc) auto
    then show ?thesis using next_best H Nz by (simp add: M_def)
  qed
qed

section \<open>TopN is Sort and Limit\<close>

text \<open>What \<open>BinaryHeap\<close> promises: \<open>peek\<close> gives a greatest element, \<open>into_iter\<close> each element once.\<close>

definition heap_law :: "heap_host \<Rightarrow> bool" where
  "heap_law hp \<longleftrightarrow>
     (\<forall>order_by heap. list_all (order_fields_ok order_by) heap \<longrightarrow> heap \<noteq> [] \<longrightarrow>
        hp_peek hp order_by heap < length heap
        \<and> list_all (\<lambda>e. compare_by order_by e (heap ! hp_peek hp order_by heap) \<noteq> Greater) heap)
     \<and> (\<forall>heap. mset (hp_into_iter hp heap) = mset heap)"

lemma topn_step_least:
  assumes law: "heap_law hp" and k: "0 < k"
    and S: "finite S" "\<forall>x \<in> S. order_fields_ok order_by x"
    and p: "set p \<subseteq> S" "e \<in> S" "mset heap \<subseteq># mset p"
    and heap: "mset (map (row_order.rank order_by S) heap) = mset (take k (sort (map (row_order.rank order_by S) p)))"
  shows "mset (map (row_order.rank order_by S) (topn_step hp order_by k heap e))
      = mset (take k (sort (map (row_order.rank order_by S) (p @ [e]))))"
    and "mset (topn_step hp order_by k heap e) \<subseteq># mset (p @ [e])"
proof -
  let ?rk = "row_order.rank order_by S"
  let ?i = "hp_peek hp order_by heap"
  have len: "length heap = min k (length p)"
    using arg_cong [OF heap, of size] by simp
  have sub: "set heap \<subseteq> S" using p by (metis mset_subset_eqD set_mset_mset subsetD subsetI)
  have ok: "list_all (order_fields_ok order_by) heap" using sub S by (auto simp: list_all_iff)
  show "mset (topn_step hp order_by k heap e) \<subseteq># mset (p @ [e])"
  proof -
    have "mset (heap_pop hp order_by heap) \<subseteq># mset heap"
    proof -
      have "mset heap = mset (take ?i heap) + (mset (take 1 (drop ?i heap)) + mset (drop (Suc ?i) heap))"
        using append_take_drop_id [of ?i heap] append_take_drop_id [of 1 "drop ?i heap"]
        by (metis drop_drop mset_append plus_1_eq_Suc)
      then show ?thesis by (simp add: heap_pop_def Let_def)
    qed
    then show ?thesis using p(3) by (auto simp: topn_step_def intro: subset_mset.order_trans subset_mset.add_increasing2)
  qed
  show "mset (map ?rk (topn_step hp order_by k heap e)) = mset (take k (sort (map ?rk (p @ [e]))))"
  proof (cases "length heap < k")
    case True
    then have "length p < k" using len by (simp add: min_def split: if_splits)
    then show ?thesis
      using True heap least_grow [of "map ?rk p" k "map ?rk heap" "?rk e"] by (simp add: topn_step_def)
  next
    case False
    then have full: "length heap = k" "heap \<noteq> []" "k \<le> length p" using len k by auto
    have peek: "?i < length heap" "\<forall>j < length heap. compare_by order_by (heap ! j) (heap ! ?i) \<noteq> Greater"
      using law ok full(2) unfolding heap_law_def list_all_length by blast+
    have top: "\<forall>j < length (map ?rk heap). map ?rk heap ! j \<le> map ?rk heap ! ?i"
      using peek sub S row_order.rank_mono [OF S] by (simp add: subset_iff)
    have better: "compare_by order_by e (heap ! ?i) = Less \<longleftrightarrow> ?rk e < map ?rk heap ! ?i"
    proof -
      have "heap ! ?i \<in> S" using sub nth_mem [OF peek(1)] by blast
      then show ?thesis using row_order.cmp_rank [OF S p(2)] peek(1) by (simp add: ord_cmp_simps)
    qed
    note replace = least_replace [of k "map ?rk p" "map ?rk heap" ?i "?rk e"]
    show ?thesis
      using replace heap k full peek(1) top better
      by (simp add: topn_step_def heap_pop_def Let_def take_map drop_map)
  qed
qed

lemma topn_heap:
  assumes law: "heap_law hp" and k: "0 < k"
    and S: "finite S" "\<forall>x \<in> S. order_fields_ok order_by x" and p: "set p \<subseteq> S"
  shows "mset (map (row_order.rank order_by S) (foldl (topn_step hp order_by k) [] p))
      = mset (take k (sort (map (row_order.rank order_by S) p)))
    \<and> mset (foldl (topn_step hp order_by k) [] p) \<subseteq># mset p"
  using p
proof (induction p rule: rev_induct)
  case (snoc e p)
  then have IH: "mset (map (row_order.rank order_by S) (foldl (topn_step hp order_by k) [] p))
      = mset (take k (sort (map (row_order.rank order_by S) p)))"
    "mset (foldl (topn_step hp order_by k) [] p) \<subseteq># mset p" by auto
  have "set p \<subseteq> S" "e \<in> S" using snoc.prems by auto
  note step = topn_step_least [OF law k S this IH(2) IH(1)]
  show ?case unfolding foldl_append foldl.simps using step by blast
qed simp

lemma topn_selection:
  assumes law: "heap_law hp" and k: "0 < k" and ok: "list_all (order_fields_ok order_by) es"
  defines "result \<equiv> sort_by (compare_by order_by) (hp_into_iter hp (foldl (topn_step hp order_by k) [] es))"
  shows "list_all2 (\<lambda>a b. compare_by order_by a b = Equal) result (take k (sort_by (compare_by order_by) es))"
    and "mset result \<subseteq># mset es"
proof -
  define heap where "heap = foldl (topn_step hp order_by k) [] es"
  define S where "S = set es"
  have S: "finite S" "\<forall>x \<in> S. order_fields_ok order_by x" using ok by (auto simp: S_def list_all_iff)
  let ?rk = "row_order.rank order_by S"
  have heap: "mset (map ?rk heap) = mset (take k (sort (map ?rk es)))" "mset heap \<subseteq># mset es"
    using topn_heap [OF law k S] by (simp_all add: heap_def S_def del: mset_map)
  have into: "mset (hp_into_iter hp heap) = mset heap" using law by (simp add: heap_law_def)
  have result: "mset result = mset heap" using into by (simp add: result_def heap_def)
  then show "mset result \<subseteq># mset es" using heap by simp
  then have sub: "set result \<subseteq> S" "set (hp_into_iter hp heap) \<subseteq> S"
    using into result S_def by (metis set_mset_mono set_mset_mset)+
  have "map ?rk result = sort (map ?rk (hp_into_iter hp heap))"
    using row_order.sort_by_ranks [OF S sub(2)] by (simp add: result_def heap_def)
  also have "\<dots> = take k (sort (map ?rk es))"
    using heap(1) into
    by (intro properties_for_sort) (simp_all add: sorted_wrt_take)
  also have "\<dots> = map ?rk (take k (sort_by (compare_by order_by) es))"
    using row_order.sort_by_ranks [OF S, of es] by (simp add: S_def flip: take_map)
  finally have ranks: "map ?rk result = map ?rk (take k (sort_by (compare_by order_by) es))" .
  have "set (take k (sort_by (compare_by order_by) es)) \<subseteq> S"
    using set_take_subset [of k "sort_by (compare_by order_by) es"] by (simp add: S_def)
  then show "list_all2 (\<lambda>a b. compare_by order_by a b = Equal) result (take k (sort_by (compare_by order_by) es))"
    by (rule row_order.equal_ranks [OF S sub(1) _ ranks])
qed

section \<open>The operators\<close>

lemma sort_execute_sorted:
  assumes "list_all (order_fields_ok order_by) (xr_entries input)"
  shows "sorted_wrt (\<lambda>a b. compare_by order_by a b \<noteq> Greater) (xr_entries (sort_execute order_by input))"
    "mset (xr_entries (sort_execute order_by input)) = mset (xr_entries input)"
  using assms row_order.sort_by_sorted [of "xr_entries input" order_by]
  by (simp_all add: sort_execute_def list_all_iff)

lemma limit_execute_exact:
  assumes "unat offset + unat limit < 2 ^ 64"
  shows "limit_execute limit offset input
    = Some (input\<lparr>xr_entries := take (unat limit) (drop (unat offset) (xr_entries input))\<rparr>)"
proof -
  have "unat (offset + limit) = unat offset + unat limit"
    using assms by (simp add: unat_plus_if_size word_size)
  moreover have "take (min k (length xs)) xs = take k xs" for k and xs :: "relation_entry list"
    by (simp add: min_def)
  ultimately show ?thesis
    by (auto simp: limit_execute_def Let_def drop_take min_def)
qed

lemma mset_take_drop: "mset (take n es) \<subseteq># mset es" "mset (drop n es) \<subseteq># mset es"
  using arg_cong [OF append_take_drop_id [of n es], of mset]
  by (metis mset_append mset_subset_eq_add_left, metis mset_append mset_subset_eq_add_right)

lemma mset_window: "mset (take n (drop m es)) \<subseteq># mset es"
  using mset_take_drop by (rule subset_mset.order_trans)

lemma topn_result:
  assumes law: "heap_law hp" and no_wrap: "unat offset + unat limit < 2 ^ 64"
    and ok: "list_all (order_fields_ok (order_by_indices input order_by)) (xr_entries input)"
  shows "\<exists>r s. execute_topn hp input order_by limit offset = Some r
      \<and> limit_execute limit offset (execute_sort input order_by) = Some s
      \<and> list_all2 (\<lambda>a b. compare_by (order_by_indices input order_by) a b = Equal) (xr_entries r) (xr_entries s)
      \<and> mset (xr_entries r) \<subseteq># mset (xr_entries input)"
proof -
  let ?ob = "order_by_indices input order_by"
  let ?window = "\<lambda>es. take (unat limit) (drop (unat offset) es)"
  let ?sorted = "sort_by (compare_by ?ob) (xr_entries input)"
  let ?k = "unat (saturating_add limit offset)"
  have k: "?k = unat limit + unat offset"
  proof -
    have "unat limit + unat offset < 2 ^ 64" using no_wrap by (simp only: add.commute)
    then show ?thesis by (simp add: saturating_add_def unat_plus_if_size word_size)
  qed
  have window_sub: "mset (?window es) \<subseteq># mset es" for es :: "relation_entry list"
    by (rule mset_window)
  have s: "limit_execute limit offset (execute_sort input order_by) = Some (input\<lparr>xr_entries := ?window ?sorted\<rparr>)"
    using limit_execute_exact [OF no_wrap] by (simp add: execute_sort_def sort_execute_def)
  show ?thesis
  proof (cases "?k = 0 \<or> length (xr_entries input) \<le> min (2 * ?k) (2 ^ 64 - 1)")
    case True
    then have r: "execute_topn hp input order_by limit offset = Some (input\<lparr>xr_entries := ?window ?sorted\<rparr>)"
      using s by (auto simp: execute_topn_def Let_def execute_sort_def unat_eq_0)
    have "list_all (order_fields_ok ?ob) (?window ?sorted)"
      using ok by (auto simp: list_all_iff dest!: in_set_takeD in_set_dropD)
    then have "list_all2 (\<lambda>a b. compare_by ?ob a b = Equal) (?window ?sorted) (?window ?sorted)"
      using row_order.cmp_refl by (auto simp: list_all_iff intro!: list.rel_refl_strong)
    then show ?thesis using r s window_sub [of ?sorted] by simp
  next
    case False
    define result where "result = sort_by (compare_by ?ob) (hp_into_iter hp (foldl (topn_step hp ?ob ?k) [] (xr_entries input)))"
    have pos: "0 < ?k" using False by auto
    note sel = topn_selection [OF law pos ok, folded result_def]
    have r: "execute_topn hp input order_by limit offset
        = Some (xr_from_entries (?window result) (xr_tables input) (xr_counts input))"
      using False by (auto simp: execute_topn_def Let_def result_def unat_eq_0)
    have "?window (take ?k ?sorted) = ?window ?sorted" by (simp add: k drop_take min_def)
    then have "list_all2 (\<lambda>a b. compare_by ?ob a b = Equal) (?window result) (?window ?sorted)"
      using list_all2_takeI [OF list_all2_dropI [OF sel(1)], of "unat limit" "unat offset"] by simp
    moreover have "mset (?window result) \<subseteq># mset (xr_entries input)"
      using window_sub [of result] sel(2) by (rule subset_mset.order_trans)
    ultimately show ?thesis using r s by (simp add: xr_from_entries_def)
  qed
qed

text \<open>A heap that meets the law: \<open>peek\<close> finds a greatest element, \<open>into_iter\<close> keeps the order.\<close>

fun greatest_at :: "(nat \<times> sort_order) list \<Rightarrow> relation_entry list \<Rightarrow> nat" where
  "greatest_at order_by [] = 0"
| "greatest_at order_by (e # es) =
     (if es = [] \<or> compare_by order_by (es ! greatest_at order_by es) e \<noteq> Greater then 0
      else Suc (greatest_at order_by es))"

definition scan_heap :: heap_host where
  "scan_heap = \<lparr>hp_peek = greatest_at, hp_into_iter = (\<lambda>heap. heap)\<rparr>"

lemma greatest_at_greatest:
  assumes "list_all (order_fields_ok order_by) es" "es \<noteq> []"
  shows "greatest_at order_by es < length es
    \<and> list_all (\<lambda>e. compare_by order_by e (es ! greatest_at order_by es) \<noteq> Greater) es"
  using assms
proof (induction es)
  case (Cons e es)
  note ok = Cons.prems(1)
  show ?case
  proof (cases "es = []")
    case True
    then show ?thesis using ok row_order.cmp_refl [of order_by e] by simp
  next
    case False
    let ?m = "es ! greatest_at order_by es"
    have IH: "greatest_at order_by es < length es" "list_all (\<lambda>e. compare_by order_by e ?m \<noteq> Greater) es"
      using Cons.IH ok False by auto
    have m: "order_fields_ok order_by ?m" "order_fields_ok order_by e" "list_all (order_fields_ok order_by) es"
      using ok IH(1) by (auto simp: list_all_length)
    show ?thesis
    proof (cases "compare_by order_by ?m e = Greater")
      case True
      then have "compare_by order_by e ?m \<noteq> Greater" using row_order.cmp_swap [OF m(1,2)] by simp
      then show ?thesis using True False IH by simp
    next
      case above: False
      have "compare_by order_by x e \<noteq> Greater" if "x \<in> set es" for x
        using that IH(2) m above row_order.cmp_trans [of order_by x ?m e] by (auto simp: list_all_iff)
      then show ?thesis using above False m(2) row_order.cmp_refl [OF m(2)] by (simp add: list_all_iff)
    qed
  qed
qed simp

lemma scan_heap_law: "heap_law scan_heap"
  unfolding heap_law_def scan_heap_def using greatest_at_greatest by simp

section \<open>Union\<close>

lemma union_loop_subseq: "subseq (union_loop seen es) es"
  by (induction seen es rule: union_loop.induct) (auto simp: Let_def)

lemma union_loop_new:
  "e \<in> set (union_loop seen es) \<Longrightarrow> k \<in> set seen \<Longrightarrow> values_cmp k (rvalues (re_row e)) \<noteq> Equal"
  by (induction seen es rule: union_loop.induct) (auto simp: Let_def list_ex_iff split: if_splits)

lemma union_loop_distinct:
  "sorted_wrt (\<lambda>a b. values_cmp (rvalues (re_row a)) (rvalues (re_row b)) \<noteq> Equal) (union_loop seen es)"
  by (induction seen es rule: union_loop.induct) (auto simp: Let_def dest: union_loop_new)

lemma value_cmp_refl: "value_cmp v v = Equal"
  using value_no_float.cmp_refl [of v] value_no_int64.cmp_refl [of v] by (cases v) simp_all

lemma values_cmp_refl: "values_cmp vs vs = Equal"
  by (induction vs) (simp_all add: value_cmp_refl)

lemma union_loop_complete:
  "e \<in> set es \<Longrightarrow> (\<exists>k \<in> set seen. values_cmp k (rvalues (re_row e)) = Equal)
     \<or> (\<exists>r \<in> set (union_loop seen es). values_cmp (rvalues (re_row r)) (rvalues (re_row e)) = Equal)"
  by (induction seen es rule: union_loop.induct)
    (auto simp: Let_def list_ex_iff values_cmp_refl split: if_splits)

text \<open>
  C19. TopN gives what Sort followed by Limit gives, row by row up to rows that compare equal on the columns to order
  by, and its rows are rows of the input, each at most as often: when no column to order by holds a float, the sum
  of limit and offset fits, and the heap yields a greatest element.
\<close>

theorem topn_is_sort_limit:
  assumes "heap_law hp" and "unat offset + unat limit < 2 ^ 64"
    and "list_all (order_fields_ok (order_by_indices input order_by)) (xr_entries input)"
  shows "\<exists>r s. execute_topn hp input order_by limit offset = Some r
      \<and> limit_execute limit offset (execute_sort input order_by) = Some s
      \<and> list_all2 (\<lambda>a b. compare_by (order_by_indices input order_by) a b = Equal) (xr_entries r) (xr_entries s)
      \<and> mset (xr_entries r) \<subseteq># mset (xr_entries input)"
  by (rule topn_result [OF assms])

definition sample_scores :: exec_relation where
  "sample_scores = xr_from_rows [row_new 1 [Int32 5], row_new 2 [Int32 1], row_new 3 [Int32 3]] [''t'']"

definition sample_order :: "(expr \<times> sort_order) list" where
  "sample_order = [(Column \<lparr>cr_table = ''t'', cr_column = ''a'', cr_index = 0\<rparr>, SortDesc)]"

lemma sample_scores_ok:
  "list_all (order_fields_ok (order_by_indices sample_scores sample_order)) (xr_entries sample_scores)"
  by (simp add: sample_scores_def xr_from_rows_def entry_from_row_def entry_new_def row_new_def row_len_def
      order_fields_ok_def order_by_indices_def sample_order_def entry_get_field_def row_get_def field_ok_def List.map_filter_def)

theorem topn_is_sort_limit_witness:
  "\<exists>r s. execute_topn scan_heap sample_scores sample_order 1 0 = Some r
      \<and> limit_execute 1 0 (execute_sort sample_scores sample_order) = Some s
      \<and> list_all2 (\<lambda>a b. compare_by (order_by_indices sample_scores sample_order) a b = Equal) (xr_entries r) (xr_entries s)
      \<and> mset (xr_entries r) \<subseteq># mset (xr_entries sample_scores)"
  by (rule topn_is_sort_limit [OF scan_heap_law _ sample_scores_ok]) simp

text \<open>When the sum wraps, cutting the tail leaves fewer rows than the head to remove: the executor panics.\<close>

lemma limit_wrap_panics: "limit_execute (- 1) 2 (xr_from_rows [row_new 1 [], row_new 2 []] []) = None"
  by (simp add: limit_execute_def xr_from_rows_def Let_def)

text \<open>
  UNION without ALL keeps a subsequence of the rows of both sides, no two of them equal in the order of values, and
  every row of either side is equal to one that is kept.
\<close>

lemma union_distinct_exact:
  assumes "execute_union left right False = Inr r"
  shows "subseq (xr_entries r) (xr_entries left @ xr_entries right)"
    "sorted_wrt (\<lambda>a b. values_cmp (rvalues (re_row a)) (rvalues (re_row b)) \<noteq> Equal) (xr_entries r)"
    "e \<in> set (xr_entries left @ xr_entries right) \<Longrightarrow>
       \<exists>e' \<in> set (xr_entries r). values_cmp (rvalues (re_row e')) (rvalues (re_row e)) = Equal"
proof -
  have r: "xr_entries r = union_loop [] (xr_entries left @ xr_entries right)"
    using assms by (auto simp: execute_union_def xr_from_entries_def split: if_splits)
  show "subseq (xr_entries r) (xr_entries left @ xr_entries right)"
    unfolding r by (rule union_loop_subseq)
  show "sorted_wrt (\<lambda>a b. values_cmp (rvalues (re_row a)) (rvalues (re_row b)) \<noteq> Equal) (xr_entries r)"
    unfolding r by (rule union_loop_distinct)
  show "\<exists>e' \<in> set (xr_entries r). values_cmp (rvalues (re_row e')) (rvalues (re_row e)) = Equal"
    if "e \<in> set (xr_entries left @ xr_entries right)"
    unfolding r using union_loop_complete [OF that, of "[]"] by simp
qed

text \<open>The order of values equates numbers of different types: UNION drops the second row.\<close>

lemma union_merges_types:
  "union_loop [] [entry_from_row (row_new 1 [Int32 1]) ''t'', entry_from_row (row_new 2 [Int64 1]) ''t'']
     = [entry_from_row (row_new 1 [Int32 1]) ''t'']"
  by (simp add: Let_def entry_from_row_def entry_new_def row_new_def)

end
