(* ===== verification/Cynos_Btree.thy ===== *)
theory Cynos_Btree
  imports Cynos_Index Cynos_Comparator "HOL-Library.Monad_Syntax"
begin

text \<open>
  The B+ tree index (\<open>crates/index/src/btree/node.rs\<close>, \<open>tree.rs\<close>, \<open>iter.rs\<close>): nodes live in an arena and refer to
  each other by position, children and parents as well as the chain of leaves. A position out of range, which
  panics, is \<open>None\<close>; so is a loop that does not end.
\<close>

section \<open>Vectors\<close>

definition vec_at :: "'a list \<Rightarrow> nat \<Rightarrow> 'a option" where
  "vec_at xs i = (if i < length xs then Some (xs ! i) else None)"

definition vec_insert_at :: "nat \<Rightarrow> 'a \<Rightarrow> 'a list \<Rightarrow> 'a list option" where
  "vec_insert_at i x xs = (if i \<le> length xs then Some (vec_insert i x xs) else None)"

definition vec_remove_at :: "nat \<Rightarrow> 'a list \<Rightarrow> ('a \<times> 'a list) option" where
  "vec_remove_at i xs = (if i < length xs then Some (xs ! i, vec_remove i xs) else None)"

definition vec_pop :: "'a list \<Rightarrow> ('a \<times> 'a list) option" where
  "vec_pop xs = (if xs = [] then None else Some (last xs, butlast xs))"

definition vec_split_off :: "nat \<Rightarrow> 'a list \<Rightarrow> ('a list \<times> 'a list) option" where
  "vec_split_off i xs = (if i \<le> length xs then Some (take i xs, drop i xs) else None)"

definition vec_update :: "nat \<Rightarrow> 'a \<Rightarrow> 'a list \<Rightarrow> 'a list option" where
  "vec_update i x xs = (if i < length xs then Some (xs[i := x]) else None)"

text \<open>\<open>partition_point\<close> of a partitioned slice.\<close>

definition partition_point :: "('a \<Rightarrow> bool) \<Rightarrow> 'a list \<Rightarrow> nat" where
  "partition_point P xs = length (takeWhile P xs)"

section \<open>Nodes\<close>

record 'k bnode =
  nd_keys :: "'k list"
  nd_values :: "row_id list list"
  nd_children :: "nat list"
  nd_next :: "nat option"
  nd_prev :: "nat option"
  nd_is_leaf :: bool
  nd_parent :: "nat option"

definition new_leaf :: "'k bnode" where
  "new_leaf = \<lparr>nd_keys = [], nd_values = [], nd_children = [], nd_next = None, nd_prev = None,
     nd_is_leaf = True, nd_parent = None\<rparr>"

definition new_internal :: "'k bnode" where
  "new_internal = \<lparr>nd_keys = [], nd_values = [], nd_children = [], nd_next = None, nd_prev = None,
     nd_is_leaf = False, nd_parent = None\<rparr>"

definition key_count :: "'k bnode \<Rightarrow> nat" where
  "key_count n = length (nd_keys n)"

definition find_key_position :: "'k::linorder \<Rightarrow> 'k bnode \<Rightarrow> nat" where
  "find_key_position key n = partition_point (\<lambda>k. k < key) (nd_keys n)"

definition find_key :: "'k::linorder \<Rightarrow> 'k bnode \<Rightarrow> nat option" where
  "find_key key n =
     (let pos = find_key_position key n in
      if pos < length (nd_keys n) \<and> nd_keys n ! pos = key then Some pos else None)"

definition node_insert_at :: "nat \<Rightarrow> 'k \<Rightarrow> row_id \<Rightarrow> 'k bnode \<Rightarrow> 'k bnode option" where
  "node_insert_at pos key v n =
     (if pos < length (nd_keys n) \<and> nd_keys n ! pos = key then
        do { vs \<leftarrow> vec_at (nd_values n) pos;
             Some (n\<lparr>nd_values := (nd_values n)[pos := vs @ [v]]\<rparr>) }
      else
        do { keys \<leftarrow> vec_insert_at pos key (nd_keys n);
             values \<leftarrow> vec_insert_at pos [v] (nd_values n);
             Some (n\<lparr>nd_keys := keys, nd_values := values\<rparr>) })"

text \<open>The number of row ids removed, and the node.\<close>

definition node_remove_at :: "nat \<Rightarrow> row_id option \<Rightarrow> 'k bnode \<Rightarrow> (nat \<times> 'k bnode) option" where
  "node_remove_at pos w n =
     (case w of
        Some v \<Rightarrow>
          do { vs \<leftarrow> vec_at (nd_values n) pos;
               let kept = filter (\<lambda>x. x \<noteq> v) vs;
               let n = n\<lparr>nd_values := (nd_values n)[pos := kept]\<rparr>;
               let removed = length vs - length kept;
               if kept = [] then
                 do { (_, keys) \<leftarrow> vec_remove_at pos (nd_keys n);
                      (_, values) \<leftarrow> vec_remove_at pos (nd_values n);
                      Some (removed, n\<lparr>nd_keys := keys, nd_values := values\<rparr>) }
               else Some (removed, n) }
      | None \<Rightarrow>
          do { (_, keys) \<leftarrow> vec_remove_at pos (nd_keys n);
               (vs, values) \<leftarrow> vec_remove_at pos (nd_values n);
               Some (length vs, n\<lparr>nd_keys := keys, nd_values := values\<rparr>) })"

section \<open>The tree\<close>

record 'k btree =
  bt_arena :: "'k bnode list"
  bt_root :: nat
  bt_order :: nat
  bt_unique :: bool
  bt_comparator :: order
  bt_stats :: index_stats

definition alloc_node :: "'k bnode \<Rightarrow> 'k bnode list \<Rightarrow> nat \<times> 'k bnode list" where
  "alloc_node n a = (length a, a @ [n])"

definition bt_with_comparator :: "nat \<Rightarrow> bool \<Rightarrow> order \<Rightarrow> 'k btree" where
  "bt_with_comparator ord unique comparator =
     (let (root, a) = alloc_node new_leaf [] in
      \<lparr>bt_arena = a, bt_root = root, bt_order = ord, bt_unique = unique, bt_comparator = comparator,
       bt_stats = stats_new\<rparr>)"

definition bt_new :: "nat \<Rightarrow> bool \<Rightarrow> 'k btree" where
  "bt_new ord unique = bt_with_comparator ord unique Asc"

definition bt_distinct_key_count :: "'k btree \<Rightarrow> nat" where
  "bt_distinct_key_count t = sum_list (map key_count (filter nd_is_leaf (bt_arena t)))"

text \<open>Reading and changing the node at a position.\<close>

definition bt_at :: "'k btree \<Rightarrow> nat \<Rightarrow> 'k bnode option" where
  "bt_at t i = vec_at (bt_arena t) i"

definition bt_put :: "nat \<Rightarrow> 'k bnode \<Rightarrow> 'k btree \<Rightarrow> 'k btree" where
  "bt_put i n t = t\<lparr>bt_arena := (bt_arena t)[i := n]\<rparr>"

definition bt_mod :: "nat \<Rightarrow> ('k bnode \<Rightarrow> 'k bnode) \<Rightarrow> 'k btree \<Rightarrow> 'k btree option" where
  "bt_mod i f t = do { n \<leftarrow> bt_at t i; Some (bt_put i (f n) t) }"

definition bt_alloc :: "'k bnode \<Rightarrow> 'k btree \<Rightarrow> nat \<times> 'k btree" where
  "bt_alloc n t = (let (i, a) = alloc_node n (bt_arena t) in (i, t\<lparr>bt_arena := a\<rparr>))"

definition bt_is_less :: "'k::linorder btree \<Rightarrow> 'k \<Rightarrow> 'k \<Rightarrow> bool" where
  "bt_is_less t = cmp_is_less (simple_compare ord_cmp (bt_comparator t))"

section \<open>Search\<close>

definition find_child_position :: "'k::linorder btree \<Rightarrow> 'k bnode \<Rightarrow> 'k \<Rightarrow> nat" where
  "find_child_position t n key =
     min (partition_point (\<lambda>k. \<not> bt_is_less t key k) (nd_keys n)) (length (nd_children n) - 1)"

partial_function (option) find_leaf_from :: "'k::linorder btree \<Rightarrow> 'k \<Rightarrow> nat \<Rightarrow> nat option" where
  [code]: "find_leaf_from t key current =
     do { n \<leftarrow> bt_at t current;
          if nd_is_leaf n then Some current
          else do { child \<leftarrow> vec_at (nd_children n) (find_child_position t n key);
                    find_leaf_from t key child } }"

definition find_leaf :: "'k::linorder btree \<Rightarrow> 'k \<Rightarrow> nat option" where
  "find_leaf t key = find_leaf_from t key (bt_root t)"

partial_function (option) hint_loop :: "'k::linorder btree \<Rightarrow> 'k \<Rightarrow> nat \<Rightarrow> nat option" where
  [code]: "hint_loop t key leaf_id =
     do { leaf \<leftarrow> bt_at t leaf_id;
          if nd_keys leaf = [] \<or> \<not> bt_is_less t (last (nd_keys leaf)) key then Some leaf_id
          else (case nd_next leaf of
              None \<Rightarrow> Some leaf_id
            | Some next_id \<Rightarrow>
                do { next \<leftarrow> bt_at t next_id;
                     case nd_keys next of
                       [] \<Rightarrow> Some next_id
                     | first_key # _ \<Rightarrow>
                         if \<not> bt_is_less t key first_key then hint_loop t key next_id else Some leaf_id }) }"

definition find_leaf_from_hint :: "'k::linorder btree \<Rightarrow> 'k \<Rightarrow> nat option \<Rightarrow> nat option" where
  "find_leaf_from_hint t key hint =
     (case hint of None \<Rightarrow> find_leaf t key | Some leaf_id \<Rightarrow> hint_loop t key leaf_id)"

definition bt_get :: "'k::linorder \<Rightarrow> 'k btree \<Rightarrow> row_id list option" where
  "bt_get key t =
     do { leaf_id \<leftarrow> find_leaf t key;
          leaf \<leftarrow> bt_at t leaf_id;
          case find_key key leaf of Some pos \<Rightarrow> vec_at (nd_values leaf) pos | None \<Rightarrow> Some [] }"

definition bt_contains_key :: "'k::linorder \<Rightarrow> 'k btree \<Rightarrow> bool option" where
  "bt_contains_key key t =
     do { leaf_id \<leftarrow> find_leaf t key;
          leaf \<leftarrow> bt_at t leaf_id;
          Some (find_key key leaf \<noteq> None) }"

section \<open>Insertion\<close>

fun set_parents :: "nat list \<Rightarrow> nat \<Rightarrow> 'k btree \<Rightarrow> 'k btree option" where
  "set_parents [] p t = Some t"
| "set_parents (c # cs) p t =
     do { t \<leftarrow> bt_mod c (\<lambda>n. n\<lparr>nd_parent := Some p\<rparr>) t; set_parents cs p t }"

text \<open>The new node to the right, and the key to promote, of the split of an internal node.\<close>

definition split_internal_node :: "nat \<Rightarrow> 'k btree \<Rightarrow> ('k \<times> nat \<times> 'k btree) option" where
  "split_internal_node node_id t =
     do { n \<leftarrow> bt_at t node_id;
          let mid = key_count n div 2;
          promote_key \<leftarrow> vec_at (nd_keys n) mid;
          (left_keys, right_keys) \<leftarrow> vec_split_off (mid + 1) (nd_keys n);
          (left_children, right_children) \<leftarrow> vec_split_off (mid + 1) (nd_children n);
          let new_node = new_internal\<lparr>nd_keys := right_keys, nd_children := right_children, nd_parent := nd_parent n\<rparr>;
          let t = bt_put node_id (n\<lparr>nd_keys := butlast left_keys, nd_children := left_children\<rparr>) t;
          let (new_node_id, t) = bt_alloc new_node t;
          t \<leftarrow> set_parents right_children new_node_id t;
          Some (promote_key, new_node_id, t) }"

partial_function (option) insert_into_parent ::
  "nat \<Rightarrow> 'k::linorder \<Rightarrow> nat \<Rightarrow> 'k btree \<Rightarrow> 'k btree option" where
  [code]: "insert_into_parent left_id key right_id t =
     do { left \<leftarrow> bt_at t left_id;
          case nd_parent left of
            None \<Rightarrow>
              do { let new_root = new_internal\<lparr>nd_children := [left_id, right_id], nd_keys := [key]\<rparr>;
                   let (new_root_id, t) = bt_alloc new_root t;
                   t \<leftarrow> set_parents [left_id, right_id] new_root_id t;
                   Some (t\<lparr>bt_root := new_root_id\<rparr>) }
          | Some parent_id \<Rightarrow>
              do { parent \<leftarrow> bt_at t parent_id;
                   let pos = find_child_position t parent key;
                   keys \<leftarrow> vec_insert_at pos key (nd_keys parent);
                   children \<leftarrow> vec_insert_at (pos + 1) right_id (nd_children parent);
                   let parent = parent\<lparr>nd_keys := keys, nd_children := children\<rparr>;
                   let t = bt_put parent_id parent t;
                   t \<leftarrow> bt_mod right_id (\<lambda>n. n\<lparr>nd_parent := Some parent_id\<rparr>) t;
                   if length keys \<ge> bt_order t then
                     do { (promote_key, new_node_id, t) \<leftarrow> split_internal_node parent_id t;
                          insert_into_parent parent_id promote_key new_node_id t }
                   else Some t } }"

definition split_leaf :: "nat \<Rightarrow> 'k::linorder btree \<Rightarrow> 'k btree option" where
  "split_leaf leaf_id t =
     do { leaf \<leftarrow> bt_at t leaf_id;
          let mid = key_count leaf div 2;
          (left_keys, right_keys) \<leftarrow> vec_split_off mid (nd_keys leaf);
          (left_values, right_values) \<leftarrow> vec_split_off mid (nd_values leaf);
          let right = new_leaf\<lparr>nd_keys := right_keys, nd_values := right_values, nd_next := nd_next leaf,
            nd_prev := Some leaf_id, nd_parent := nd_parent leaf\<rparr>;
          let t = bt_put leaf_id (leaf\<lparr>nd_keys := left_keys, nd_values := left_values\<rparr>) t;
          let (right_id, t) = bt_alloc right t;
          t \<leftarrow> (case nd_next leaf of
                 Some next_id \<Rightarrow> bt_mod next_id (\<lambda>n. n\<lparr>nd_prev := Some right_id\<rparr>) t
               | None \<Rightarrow> Some t);
          t \<leftarrow> bt_mod leaf_id (\<lambda>n. n\<lparr>nd_next := Some right_id\<rparr>) t;
          promote_key \<leftarrow> vec_at right_keys 0;
          insert_into_parent leaf_id promote_key right_id t }"

definition bt_insert :: "'k::linorder \<Rightarrow> row_id \<Rightarrow> 'k btree \<Rightarrow> ((index_error + unit) \<times> 'k btree) option" where
  "bt_insert key v t =
     do { leaf_id \<leftarrow> find_leaf t key;
          leaf \<leftarrow> bt_at t leaf_id;
          if bt_unique t \<and> find_key key leaf \<noteq> None then Some (Inl DuplicateKey, t)
          else
            do { let pos = find_key_position key leaf;
                 leaf \<leftarrow> node_insert_at pos key v leaf;
                 let t = bt_put leaf_id leaf t;
                 let t = t\<lparr>bt_stats := stats_add_rows 1 (bt_stats t)\<rparr>;
                 t \<leftarrow> (if key_count leaf \<ge> bt_order t then split_leaf leaf_id t else Some t);
                 Some (Inr (), t) } }"

section \<open>Deletion\<close>

text \<open>\<open>(order - 1) / 2\<close>, the subtraction wrapping.\<close>

definition min_keys :: "nat \<Rightarrow> nat" where
  "min_keys ord = (if ord = 0 then (2 ^ 64 - 1) div 2 else (ord - 1) div 2)"

definition borrow_from_left :: "nat \<Rightarrow> nat \<Rightarrow> nat \<Rightarrow> nat \<Rightarrow> 'k btree \<Rightarrow> 'k btree option" where
  "borrow_from_left node_id left_id parent_id pos t =
     do { n \<leftarrow> bt_at t node_id;
          left \<leftarrow> bt_at t left_id;
          parent \<leftarrow> bt_at t parent_id;
          if nd_is_leaf n then
            do { (key, left_keys) \<leftarrow> vec_pop (nd_keys left);
                 (values, left_values) \<leftarrow> vec_pop (nd_values left);
                 let t = bt_put left_id (left\<lparr>nd_keys := left_keys, nd_values := left_values\<rparr>) t;
                 let t = bt_put node_id (n\<lparr>nd_keys := key # nd_keys n, nd_values := values # nd_values n\<rparr>) t;
                 keys \<leftarrow> vec_update (pos - 1) key (nd_keys parent);
                 Some (bt_put parent_id (parent\<lparr>nd_keys := keys\<rparr>) t) }
          else
            do { parent_key \<leftarrow> vec_at (nd_keys parent) (pos - 1);
                 (left_key, left_keys) \<leftarrow> vec_pop (nd_keys left);
                 (left_child, left_children) \<leftarrow> vec_pop (nd_children left);
                 let t = bt_put left_id (left\<lparr>nd_keys := left_keys, nd_children := left_children\<rparr>) t;
                 let t = bt_put node_id
                   (n\<lparr>nd_keys := parent_key # nd_keys n, nd_children := left_child # nd_children n\<rparr>) t;
                 let t = bt_put parent_id (parent\<lparr>nd_keys := (nd_keys parent)[pos - 1 := left_key]\<rparr>) t;
                 bt_mod left_child (\<lambda>c. c\<lparr>nd_parent := Some node_id\<rparr>) t } }"

definition borrow_from_right :: "nat \<Rightarrow> nat \<Rightarrow> nat \<Rightarrow> nat \<Rightarrow> 'k btree \<Rightarrow> 'k btree option" where
  "borrow_from_right node_id right_id parent_id pos t =
     do { n \<leftarrow> bt_at t node_id;
          right \<leftarrow> bt_at t right_id;
          parent \<leftarrow> bt_at t parent_id;
          if nd_is_leaf n then
            do { (key, right_keys) \<leftarrow> vec_remove_at 0 (nd_keys right);
                 (values, right_values) \<leftarrow> vec_remove_at 0 (nd_values right);
                 let t = bt_put right_id (right\<lparr>nd_keys := right_keys, nd_values := right_values\<rparr>) t;
                 let t = bt_put node_id (n\<lparr>nd_keys := nd_keys n @ [key], nd_values := nd_values n @ [values]\<rparr>) t;
                 new_separator \<leftarrow> vec_at right_keys 0;
                 keys \<leftarrow> vec_update pos new_separator (nd_keys parent);
                 Some (bt_put parent_id (parent\<lparr>nd_keys := keys\<rparr>) t) }
          else
            do { parent_key \<leftarrow> vec_at (nd_keys parent) pos;
                 (right_key, right_keys) \<leftarrow> vec_remove_at 0 (nd_keys right);
                 (right_child, right_children) \<leftarrow> vec_remove_at 0 (nd_children right);
                 let t = bt_put right_id (right\<lparr>nd_keys := right_keys, nd_children := right_children\<rparr>) t;
                 let t = bt_put node_id
                   (n\<lparr>nd_keys := nd_keys n @ [parent_key], nd_children := nd_children n @ [right_child]\<rparr>) t;
                 let t = bt_put parent_id (parent\<lparr>nd_keys := (nd_keys parent)[pos := right_key]\<rparr>) t;
                 bt_mod right_child (\<lambda>c. c\<lparr>nd_parent := Some node_id\<rparr>) t } }"

text \<open>Everything of the right node goes to the left one; the parent loses the separator and the right child.\<close>

definition merge_contents :: "nat \<Rightarrow> nat \<Rightarrow> nat \<Rightarrow> nat \<Rightarrow> 'k btree \<Rightarrow> 'k btree option" where
  "merge_contents left_id right_id parent_id pos t =
     do { left \<leftarrow> bt_at t left_id;
          right \<leftarrow> bt_at t right_id;
          t \<leftarrow> (if nd_is_leaf left then
                 do { let t = bt_put right_id (right\<lparr>nd_keys := [], nd_values := []\<rparr>) t;
                      let t = bt_put left_id (left\<lparr>nd_keys := nd_keys left @ nd_keys right,
                        nd_values := nd_values left @ nd_values right, nd_next := nd_next right\<rparr>) t;
                      case nd_next right of
                        Some next_id \<Rightarrow> bt_mod next_id (\<lambda>n. n\<lparr>nd_prev := Some left_id\<rparr>) t
                      | None \<Rightarrow> Some t }
               else
                 do { parent \<leftarrow> bt_at t parent_id;
                      separator \<leftarrow> vec_at (nd_keys parent) pos;
                      let t = bt_put right_id (right\<lparr>nd_keys := [], nd_children := []\<rparr>) t;
                      let t = bt_put left_id (left\<lparr>nd_keys := nd_keys left @ separator # nd_keys right,
                        nd_children := nd_children left @ nd_children right\<rparr>) t;
                      set_parents (nd_children right) left_id t });
          parent \<leftarrow> bt_at t parent_id;
          (_, keys) \<leftarrow> vec_remove_at pos (nd_keys parent);
          (_, children) \<leftarrow> vec_remove_at (pos + 1) (nd_children parent);
          Some (bt_put parent_id (parent\<lparr>nd_keys := keys, nd_children := children\<rparr>) t) }"

text \<open>A sibling, when it is there and has more than the least number of keys.\<close>

definition rich_sibling :: "bool \<Rightarrow> nat \<Rightarrow> 'k bnode \<Rightarrow> 'k btree \<Rightarrow> nat option option" where
  "rich_sibling present i parent t =
     (if present then
        do { sibling_id \<leftarrow> vec_at (nd_children parent) i;
             sibling \<leftarrow> bt_at t sibling_id;
             Some (if key_count sibling > min_keys (bt_order t) then Some sibling_id else None) }
      else Some None)"

text \<open>The two nodes to merge and the position of their separator.\<close>

definition merge_target :: "nat \<Rightarrow> nat \<Rightarrow> 'k bnode \<Rightarrow> (nat \<times> nat \<times> nat) option option" where
  "merge_target node_id pos parent =
     (if pos > 0 then
        do { left_id \<leftarrow> vec_at (nd_children parent) (pos - 1); Some (Some (left_id, node_id, pos - 1)) }
      else if pos < length (nd_children parent) - 1 then
        do { right_id \<leftarrow> vec_at (nd_children parent) (pos + 1); Some (Some (node_id, right_id, pos)) }
      else Some None)"

partial_function (option) handle_underflow :: "nat \<Rightarrow> 'k btree \<Rightarrow> 'k btree option" where
  [code]: "handle_underflow node_id t =
     do { n \<leftarrow> bt_at t node_id;
          case nd_parent n of
            None \<Rightarrow> Some t
          | Some parent_id \<Rightarrow>
              if key_count n \<ge> min_keys (bt_order t) then Some t
              else
                do { parent \<leftarrow> bt_at t parent_id;
                     pos \<leftarrow> position (\<lambda>c. c = node_id) (nd_children parent);
                     left \<leftarrow> rich_sibling (pos > 0) (pos - 1) parent t;
                     case left of
                       Some left_id \<Rightarrow> borrow_from_left node_id left_id parent_id pos t
                     | None \<Rightarrow>
                         do { right \<leftarrow> rich_sibling (pos < length (nd_children parent) - 1) (pos + 1) parent t;
                              case right of
                                Some right_id \<Rightarrow> borrow_from_right node_id right_id parent_id pos t
                              | None \<Rightarrow>
                                  do { target \<leftarrow> merge_target node_id pos parent;
                                       case target of
                                         None \<Rightarrow> Some t
                                       | Some (left_id, right_id, pos) \<Rightarrow>
                                           do { t \<leftarrow> merge_contents left_id right_id parent_id pos t;
                                                parent \<leftarrow> bt_at t parent_id;
                                                if parent_id = bt_root t \<and> nd_keys parent = [] then
                                                  bt_mod left_id (\<lambda>n. n\<lparr>nd_parent := None\<rparr>) (t\<lparr>bt_root := left_id\<rparr>)
                                                else if parent_id \<noteq> bt_root t then handle_underflow parent_id t
                                                else Some t } } } } }"

definition bt_delete :: "'k::linorder \<Rightarrow> row_id option \<Rightarrow> 'k btree \<Rightarrow> 'k btree option" where
  "bt_delete key w t =
     do { leaf_id \<leftarrow> find_leaf t key;
          leaf \<leftarrow> bt_at t leaf_id;
          case find_key key leaf of
            None \<Rightarrow> Some t
          | Some pos \<Rightarrow>
              do { (removed, leaf) \<leftarrow> node_remove_at pos w leaf;
                   let t = bt_put leaf_id leaf t;
                   let t = t\<lparr>bt_stats := stats_remove_rows (of_nat removed) (bt_stats t)\<rparr>;
                   if nd_keys leaf = [] \<and> leaf_id \<noteq> bt_root t then handle_underflow leaf_id t else Some t } }"

definition bt_set :: "'k::linorder \<Rightarrow> row_id \<Rightarrow> 'k btree \<Rightarrow> 'k btree option" where
  "bt_set key v t =
     do { t \<leftarrow> bt_delete key None t;
          (_, t) \<leftarrow> bt_insert key v t;
          Some t }"

definition bt_clear :: "'k btree \<Rightarrow> 'k btree" where
  "bt_clear t =
     (let (root, a) = alloc_node new_leaf [] in
      t\<lparr>bt_arena := a, bt_root := root, bt_stats := stats_clear (bt_stats t)\<rparr>)"

definition bt_len :: "'k btree \<Rightarrow> u64" where
  "bt_len t = is_total_rows (bt_stats t)"

section \<open>The ends\<close>

partial_function (option) leftmost_from :: "'k btree \<Rightarrow> nat \<Rightarrow> nat option" where
  [code]: "leftmost_from t current =
     do { n \<leftarrow> bt_at t current;
          if nd_is_leaf n then Some current
          else do { child \<leftarrow> vec_at (nd_children n) 0; leftmost_from t child } }"

partial_function (option) rightmost_from :: "'k btree \<Rightarrow> nat \<Rightarrow> nat option" where
  [code]: "rightmost_from t current =
     do { n \<leftarrow> bt_at t current;
          if nd_is_leaf n then Some current
          else do { child \<leftarrow> vec_at (nd_children n) (length (nd_children n) - 1); rightmost_from t child } }"

definition leftmost_leaf :: "'k btree \<Rightarrow> nat option" where
  "leftmost_leaf t = leftmost_from t (bt_root t)"

definition rightmost_leaf :: "'k btree \<Rightarrow> nat option" where
  "rightmost_leaf t = rightmost_from t (bt_root t)"

definition bt_min :: "'k btree \<Rightarrow> ('k \<times> row_id list) option option" where
  "bt_min t =
     do { leaf_id \<leftarrow> leftmost_leaf t;
          leaf \<leftarrow> bt_at t leaf_id;
          if nd_keys leaf = [] then Some None
          else do { key \<leftarrow> vec_at (nd_keys leaf) 0; vs \<leftarrow> vec_at (nd_values leaf) 0; Some (Some (key, vs)) } }"

definition bt_max :: "'k btree \<Rightarrow> ('k \<times> row_id list) option option" where
  "bt_max t =
     do { leaf_id \<leftarrow> rightmost_leaf t;
          leaf \<leftarrow> bt_at t leaf_id;
          if nd_keys leaf = [] then Some None
          else do { let last = key_count leaf - 1;
                    key \<leftarrow> vec_at (nd_keys leaf) last; vs \<leftarrow> vec_at (nd_values leaf) last; Some (Some (key, vs)) } }"

definition bt_cost :: "'k::linorder key_range \<Rightarrow> 'k btree \<Rightarrow> u64 option" where
  "bt_cost rng t =
     (case rng of
        Only key \<Rightarrow> map_option (\<lambda>vs. of_nat (length vs)) (bt_get key t)
      | _ \<Rightarrow> Some (is_total_rows (bt_stats t)))"

section \<open>Range scans\<close>

text \<open>The iterator over the leaves: node, position of the key, position in its row ids, direction.\<close>

record bt_iter =
  it_node :: "nat option"
  it_pos :: nat
  it_value_pos :: nat
  it_reverse :: bool

definition iter_new_at :: "nat \<Rightarrow> nat \<Rightarrow> bool \<Rightarrow> bt_iter" where
  "iter_new_at node_id pos reverse =
     \<lparr>it_node = Some node_id, it_pos = pos, it_value_pos = 0, it_reverse = reverse\<rparr>"

definition advance_key :: "'k btree \<Rightarrow> bt_iter \<Rightarrow> bt_iter option" where
  "advance_key t it =
     (case it_node it of
        None \<Rightarrow> Some it
      | Some node_id \<Rightarrow>
          do { n \<leftarrow> bt_at t node_id;
               it \<leftarrow> (if it_reverse it then
                        if it_pos it > 0 then Some (it\<lparr>it_pos := it_pos it - 1\<rparr>)
                        else (case nd_prev n of
                            None \<Rightarrow> Some (it\<lparr>it_node := None\<rparr>)
                          | Some prev_id \<Rightarrow>
                              do { prev \<leftarrow> bt_at t prev_id;
                                   Some (it\<lparr>it_node := Some prev_id, it_pos := key_count prev - 1\<rparr>) })
                      else if it_pos it + 1 \<ge> key_count n then Some (it\<lparr>it_node := nd_next n, it_pos := 0\<rparr>)
                      else Some (it\<lparr>it_pos := it_pos it + 1\<rparr>));
               Some (it\<lparr>it_value_pos := 0\<rparr>) })"

partial_function (option) iter_next :: "'k btree \<Rightarrow> bt_iter \<Rightarrow> (('k \<times> row_id) \<times> bt_iter) option option" where
  [code]: "iter_next t it =
     (case it_node it of
        None \<Rightarrow> Some None
      | Some node_id \<Rightarrow>
          do { n \<leftarrow> bt_at t node_id;
               if nd_keys n = [] then Some None
               else if it_pos it \<ge> key_count n then do { it \<leftarrow> advance_key t it; iter_next t it }
               else
                 do { key \<leftarrow> vec_at (nd_keys n) (it_pos it);
                      vs \<leftarrow> vec_at (nd_values n) (it_pos it);
                      if it_value_pos it < length vs then
                        Some (Some ((key, vs ! it_value_pos it), it\<lparr>it_value_pos := it_value_pos it + 1\<rparr>))
                      else do { it \<leftarrow> advance_key t it; iter_next t it } } })"

fun key_past_forward_range :: "'k::linorder key_range \<Rightarrow> 'k \<Rightarrow> bool" where
  "key_past_forward_range All key \<longleftrightarrow> False"
| "key_past_forward_range (LowerBound _ _) key \<longleftrightarrow> False"
| "key_past_forward_range (Only v) key \<longleftrightarrow> key > v"
| "key_past_forward_range (UpperBound v exclusive) key \<longleftrightarrow> (if exclusive then key \<ge> v else key > v)"
| "key_past_forward_range (Bound _ upper _ upper_exclusive) key \<longleftrightarrow>
     (if upper_exclusive then key \<ge> upper else key > upper)"

fun key_past_reverse_range :: "'k::linorder key_range \<Rightarrow> 'k \<Rightarrow> bool" where
  "key_past_reverse_range All key \<longleftrightarrow> False"
| "key_past_reverse_range (UpperBound _ _) key \<longleftrightarrow> False"
| "key_past_reverse_range (Only v) key \<longleftrightarrow> key < v"
| "key_past_reverse_range (LowerBound v exclusive) key \<longleftrightarrow> (if exclusive then key \<le> v else key < v)"
| "key_past_reverse_range (Bound lower _ lower_exclusive _) key \<longleftrightarrow>
     (if lower_exclusive then key \<le> lower else key < lower)"

text \<open>The first leaf, when it has a key; the leaf and position from which a key on is found.\<close>

definition first_position :: "'k btree \<Rightarrow> (nat \<times> nat) option option" where
  "first_position t =
     do { leaf_id \<leftarrow> leftmost_leaf t;
          leaf \<leftarrow> bt_at t leaf_id;
          Some (if nd_keys leaf = [] then None else Some (leaf_id, 0)) }"

definition position_from :: "'k::linorder btree \<Rightarrow> 'k \<Rightarrow> (nat \<times> nat) option option" where
  "position_from t key =
     do { leaf_id \<leftarrow> find_leaf t key;
          leaf \<leftarrow> bt_at t leaf_id;
          let pos = find_key_position key leaf;
          Some (if pos < key_count leaf then Some (leaf_id, pos)
                else map_option (\<lambda>next. (next, 0)) (nd_next leaf)) }"

fun find_range_start :: "'k::linorder btree \<Rightarrow> 'k key_range \<Rightarrow> (nat \<times> nat) option option" where
  "find_range_start t All = first_position t"
| "find_range_start t (Only key) = position_from t key"
| "find_range_start t (LowerBound key _) = position_from t key"
| "find_range_start t (UpperBound _ _) = first_position t"
| "find_range_start t (Bound lower _ _ _) = position_from t lower"

text \<open>The start of a reverse scan.\<close>

definition last_position :: "'k btree \<Rightarrow> (nat \<times> nat) option option" where
  "last_position t =
     do { leaf_id \<leftarrow> rightmost_leaf t;
          leaf \<leftarrow> bt_at t leaf_id;
          Some (if nd_keys leaf = [] then None else Some (leaf_id, key_count leaf - 1)) }"

definition position_before :: "'k::linorder btree \<Rightarrow> 'k \<Rightarrow> (nat \<times> nat) option option" where
  "position_before t key =
     do { leaf_id \<leftarrow> find_leaf t key;
          leaf \<leftarrow> bt_at t leaf_id;
          let pos = find_key_position key leaf;
          if pos > 0 then Some (Some (leaf_id, pos - 1))
          else (case nd_prev leaf of
              None \<Rightarrow> Some None
            | Some prev_id \<Rightarrow>
                do { prev \<leftarrow> bt_at t prev_id;
                     Some (if nd_keys prev = [] then None else Some (prev_id, key_count prev - 1)) }) }"

fun reverse_start :: "'k::linorder btree \<Rightarrow> 'k key_range \<Rightarrow> (nat \<times> nat) option option" where
  "reverse_start t All = last_position t"
| "reverse_start t (LowerBound _ _) = last_position t"
| "reverse_start t (Only key) = position_before t key"
| "reverse_start t (UpperBound key _) = position_before t key"
| "reverse_start t (Bound _ upper _ _) = position_before t upper"

text \<open>The loop of a scan. The visitor's captured state is \<open>'s\<close>; its flag says whether to go on.\<close>

partial_function (option) visit_loop ::
  "'k::linorder btree \<Rightarrow> 'k key_range \<Rightarrow> bool \<Rightarrow> nat option \<Rightarrow> nat \<Rightarrow> (row_id \<Rightarrow> 's \<Rightarrow> bool \<times> 's)
    \<Rightarrow> bt_iter \<Rightarrow> nat \<Rightarrow> nat \<Rightarrow> 's \<Rightarrow> 's option" where
  [code]: "visit_loop t rng reverse limit skip visitor it skipped emitted s =
     do { r \<leftarrow> iter_next t it;
          case r of
            None \<Rightarrow> Some s
          | Some ((key, row_id), it) \<Rightarrow>
              if kr_contains rng key then
                if skipped < skip then visit_loop t rng reverse limit skip visitor it (skipped + 1) emitted s
                else if (case limit of Some l \<Rightarrow> emitted \<ge> l | None \<Rightarrow> False) then Some s
                else (let (go, s) = visitor row_id s in
                      if \<not> go then Some s
                      else visit_loop t rng reverse limit skip visitor it skipped (emitted + 1) s)
              else if (\<not> reverse \<and> key_past_forward_range rng key) \<or> (reverse \<and> key_past_reverse_range rng key)
              then Some s
              else visit_loop t rng reverse limit skip visitor it skipped emitted s }"

definition bt_visit_range ::
  "'k::linorder key_range option \<Rightarrow> bool \<Rightarrow> nat option \<Rightarrow> nat \<Rightarrow> (row_id \<Rightarrow> 's \<Rightarrow> bool \<times> 's)
    \<Rightarrow> 'k btree \<Rightarrow> 's \<Rightarrow> 's option" where
  "bt_visit_range r reverse limit skip visitor t s =
     (let rng = (case r of Some r \<Rightarrow> r | None \<Rightarrow> All) in
      do { start \<leftarrow> (if reverse then reverse_start t rng else find_range_start t rng);
           case start of
             None \<Rightarrow> Some s
           | Some (start_node, start_pos) \<Rightarrow>
               visit_loop t rng reverse limit skip visitor (iter_new_at start_node start_pos reverse) 0 0 s })"

definition bt_get_range ::
  "'k::linorder key_range option \<Rightarrow> bool \<Rightarrow> nat option \<Rightarrow> nat \<Rightarrow> 'k btree \<Rightarrow> row_id list option" where
  "bt_get_range r reverse limit skip t =
     bt_visit_range r reverse limit skip (\<lambda>row_id result. (True, result @ [row_id])) t []"

section \<open>Batches\<close>

text \<open>The check of a unique batch: a key of the tree, or two equal keys next to each other.\<close>

fun batch_refused :: "'k::linorder btree \<Rightarrow> 'k option \<Rightarrow> ('k \<times> row_id) list \<Rightarrow> bool option" where
  "batch_refused t last_key [] = Some False"
| "batch_refused t last_key ((key, _) # es) =
     do { present \<leftarrow> bt_contains_key key t;
          if present \<or> last_key = Some key then Some True else batch_refused t (Some key) es }"

text \<open>One group of entries with the same key: where it goes, and the hint for the next group.\<close>

definition add_group ::
  "'k::linorder \<Rightarrow> row_id list \<Rightarrow> nat option \<Rightarrow> 'k btree \<Rightarrow> ((index_error + nat option) \<times> 'k btree) option" where
  "add_group key vs hint t =
     do { leaf_id \<leftarrow> find_leaf_from_hint t key hint;
          leaf \<leftarrow> bt_at t leaf_id;
          let pos = find_key_position key leaf;
          present \<leftarrow> (if pos < key_count leaf
                     then do { k \<leftarrow> vec_at (nd_keys leaf) pos; Some (k = key) } else Some False);
          if present \<and> bt_unique t then Some (Inl DuplicateKey, t)
          else
            do { leaf \<leftarrow> (if present then
                     do { old \<leftarrow> vec_at (nd_values leaf) pos;
                          Some (leaf\<lparr>nd_values := (nd_values leaf)[pos := old @ vs]\<rparr>) }
                   else
                     do { keys \<leftarrow> vec_insert_at pos key (nd_keys leaf);
                          values \<leftarrow> vec_insert_at pos vs (nd_values leaf);
                          Some (leaf\<lparr>nd_keys := keys, nd_values := values\<rparr>) });
                 let t = bt_put leaf_id leaf t;
                 let t = t\<lparr>bt_stats := stats_add_rows (of_nat (length vs)) (bt_stats t)\<rparr>;
                 if key_count leaf \<ge> bt_order t then do { t \<leftarrow> split_leaf leaf_id t; Some (Inr None, t) }
                 else Some (Inr (Some leaf_id), t) } }"

function add_groups ::
  "('k::linorder \<times> row_id) list \<Rightarrow> nat option \<Rightarrow> 'k btree \<Rightarrow> ((index_error + unit) \<times> 'k btree) option" where
  "add_groups [] hint t = Some (Inr (), t)"
| "add_groups ((key, row_id) # es) hint t =
     do { (r, t) \<leftarrow> add_group key (row_id # map snd (takeWhile (\<lambda>e. fst e = key) es)) hint t;
          case r of
            Inl err \<Rightarrow> Some (Inl err, t)
          | Inr hint \<Rightarrow> add_groups (dropWhile (\<lambda>e. fst e = key) es) hint t }"
  by pat_completeness auto
termination
  by (relation "measure (\<lambda>(es, _, _). length es)") (auto simp: less_Suc_eq_le length_dropWhile_le)

definition bt_add_batch ::
  "('k::linorder \<times> row_id) list \<Rightarrow> 'k btree \<Rightarrow> ((index_error + unit) \<times> 'k btree) option" where
  "bt_add_batch entries t =
     (if entries = [] then Some (Inr (), t)
      else
        do { let sorted_entries = sort_key fst entries;
             refused \<leftarrow> (if bt_unique t then batch_refused t None sorted_entries else Some False);
             if refused then Some (Inl DuplicateKey, t) else add_groups sorted_entries None t })"

text \<open>The row ids left under a key: more than four to remove are looked up as a set, up to four one by one.\<close>

fun swap_remove_first :: "row_id \<Rightarrow> row_id list \<Rightarrow> row_id list" where
  "swap_remove_first r vs = (case position (\<lambda>v. v = r) vs of Some i \<Rightarrow> vec_swap_remove i vs | None \<Rightarrow> vs)"

definition remove_rows :: "row_id list \<Rightarrow> row_id list \<Rightarrow> row_id list" where
  "remove_rows rows vs =
     (if length rows > 4 then filter (\<lambda>v. v \<notin> set rows) vs else foldl (\<lambda>vs r. swap_remove_first r vs) vs rows)"

definition remove_group ::
  "'k::linorder \<Rightarrow> row_id list \<Rightarrow> nat list \<Rightarrow> 'k btree \<Rightarrow> (nat list \<times> 'k btree) option" where
  "remove_group key rows underflow_nodes t =
     do { leaf_id \<leftarrow> find_leaf t key;
          leaf \<leftarrow> bt_at t leaf_id;
          case find_key key leaf of
            None \<Rightarrow> Some (underflow_nodes, t)
          | Some pos \<Rightarrow>
              do { old \<leftarrow> vec_at (nd_values leaf) pos;
                   let kept = remove_rows rows old;
                   let t = t\<lparr>bt_stats := stats_remove_rows (of_nat (length old - length kept)) (bt_stats t)\<rparr>;
                   if kept = [] then
                     do { (_, keys) \<leftarrow> vec_remove_at pos (nd_keys leaf);
                          (_, values) \<leftarrow> vec_remove_at pos (nd_values leaf);
                          let t = bt_put leaf_id (leaf\<lparr>nd_keys := keys, nd_values := values\<rparr>) t;
                          Some (if keys = [] \<and> leaf_id \<noteq> bt_root t \<and> leaf_id \<notin> set underflow_nodes
                                then underflow_nodes @ [leaf_id] else underflow_nodes, t) }
                   else Some (underflow_nodes, bt_put leaf_id (leaf\<lparr>nd_values := (nd_values leaf)[pos := kept]\<rparr>) t) } }"

function remove_groups ::
  "('k::linorder \<times> row_id) list \<Rightarrow> nat list \<Rightarrow> 'k btree \<Rightarrow> (nat list \<times> 'k btree) option" where
  "remove_groups [] underflow_nodes t = Some (underflow_nodes, t)"
| "remove_groups ((key, row_id) # es) underflow_nodes t =
     do { (underflow_nodes, t) \<leftarrow>
            remove_group key (row_id # map snd (takeWhile (\<lambda>e. fst e = key) es)) underflow_nodes t;
          remove_groups (dropWhile (\<lambda>e. fst e = key) es) underflow_nodes t }"
  by pat_completeness auto
termination
  by (relation "measure (\<lambda>(es, _, _). length es)") (auto simp: less_Suc_eq_le length_dropWhile_le)

fun handle_underflows :: "nat list \<Rightarrow> 'k btree \<Rightarrow> 'k btree option" where
  "handle_underflows [] t = Some t"
| "handle_underflows (node_id # ids) t =
     do { n \<leftarrow> bt_at t node_id;
          t \<leftarrow> (if nd_keys n \<noteq> [] \<or> node_id = bt_root t then Some t else handle_underflow node_id t);
          handle_underflows ids t }"

definition bt_remove_batch :: "('k::linorder \<times> row_id) list \<Rightarrow> 'k btree \<Rightarrow> 'k btree option" where
  "bt_remove_batch entries t =
     do { (underflow_nodes, t) \<leftarrow> remove_groups (sort_key fst entries) [] t;
          handle_underflows (rev underflow_nodes) t }"

end
