(* ===== verification/Cynos_Btree_Rep.thy ===== *)
theory Cynos_Btree_Rep
  imports Cynos_Btree "HOL-Library.Multiset"
begin

text \<open>
  What an arena of nodes represents. A tree (\<open>gtree\<close>) lists its nodes with their contents; an arena holds a list of
  nodes when it has each of them at its position. A node is reached along a path of frames, as in a zipper, so that
  the walks of the code up to the root are inductions over the path. From left to right a tree is a sequence of
  leaves and separators, its spine: restructuring internal nodes does not change it.
\<close>

section \<open>Trees and their nodes\<close>

datatype 'k gtree = GLeaf nat "('k \<times> row_id list) list" | GNode nat "'k list" "'k gtree list"

fun gid :: "'k gtree \<Rightarrow> nat" where
  "gid (GLeaf i kvs) = i"
| "gid (GNode i ks gs) = i"

text \<open>The contents of a node but for its links to its neighbours.\<close>

datatype 'k shape = Shape bool "'k list" "row_id list list" "nat list" "nat option"

definition shape_of :: "'k bnode \<Rightarrow> 'k shape" where
  "shape_of n = Shape (nd_is_leaf n) (nd_keys n) (nd_values n) (nd_children n) (nd_parent n)"

fun nodes :: "nat option \<Rightarrow> 'k gtree \<Rightarrow> (nat \<times> 'k shape) list" where
  "nodes p (GLeaf i kvs) = [(i, Shape True (map fst kvs) (map snd kvs) [] p)]"
| "nodes p (GNode i ks gs) = (i, Shape False ks [] (map gid gs) p) # concat (map (nodes (Some i)) gs)"

definition node_shape :: "'k btree \<Rightarrow> nat \<Rightarrow> 'k shape option" where
  "node_shape t i = map_option shape_of (bt_at t i)"

definition holds :: "'k btree \<Rightarrow> (nat \<times> 'k shape) list \<Rightarrow> bool" where
  "holds t ns \<longleftrightarrow> distinct (map fst ns) \<and> (\<forall>x \<in> set ns. node_shape t (fst x) = Some (snd x))"

lemma bt_at_simps [simp]:
  "bt_at (t\<lparr>bt_root := r\<rparr>) i = bt_at t i" "bt_at (t\<lparr>bt_stats := st\<rparr>) i = bt_at t i"
  by (simp_all add: bt_at_def)

lemma bt_at_Some: "bt_at t i = Some n \<longleftrightarrow> i < length (bt_arena t) \<and> bt_arena t ! i = n"
  by (simp add: bt_at_def vec_at_def)

lemma bt_put_simps [simp]:
  "bt_root (bt_put i n t) = bt_root t" "bt_order (bt_put i n t) = bt_order t" "bt_unique (bt_put i n t) = bt_unique t"
  "bt_comparator (bt_put i n t) = bt_comparator t" "bt_stats (bt_put i n t) = bt_stats t"
  "length (bt_arena (bt_put i n t)) = length (bt_arena t)"
  by (simp_all add: bt_put_def)

lemma bt_at_put: "bt_at (bt_put i n t) j = (if i = j \<and> bt_at t i \<noteq> None then Some n else bt_at t j)"
  by (auto simp: bt_at_def vec_at_def bt_put_def)

lemma bt_at_alloc: "bt_at (t\<lparr>bt_arena := bt_arena t @ [n]\<rparr>) j = (if j = length (bt_arena t) then Some n else bt_at t j)"
  by (auto simp: bt_at_def vec_at_def nth_append)

lemma bt_at_fresh: "bt_at t (length (bt_arena t)) = None"
  by (simp add: bt_at_def vec_at_def)

lemma holds_perm: "mset ns = mset ns' \<Longrightarrow> holds t ns \<longleftrightarrow> holds t ns'"
  unfolding holds_def by (metis mset_map mset_eq_imp_distinct_iff mset_eq_setD)

lemma node_shape_meta [simp]:
  "node_shape (t\<lparr>bt_root := r\<rparr>) i = node_shape t i" "node_shape (t\<lparr>bt_stats := st\<rparr>) i = node_shape t i"
  by (simp_all add: node_shape_def)

lemma node_shape_put:
  "node_shape (bt_put i n t) j = (if i = j \<and> node_shape t i \<noteq> None then Some (shape_of n) else node_shape t j)"
  by (auto simp: node_shape_def bt_at_put)

lemma node_shape_alloc:
  "node_shape (t\<lparr>bt_arena := bt_arena t @ [n]\<rparr>) j = (if j = length (bt_arena t) then Some (shape_of n) else node_shape t j)"
  by (simp add: node_shape_def bt_at_alloc)

lemma holds_meta [simp]: "holds (t\<lparr>bt_root := r\<rparr>) ns = holds t ns" "holds (t\<lparr>bt_stats := st\<rparr>) ns = holds t ns"
  by (simp_all add: holds_def)

lemma holds_at: "holds t ns \<Longrightarrow> (i, s) \<in> set ns \<Longrightarrow> \<exists>n. bt_at t i = Some n \<and> shape_of n = s"
  by (force simp: holds_def node_shape_def)

lemma holds_put:
  assumes "holds t ((i, s) # ns)" "shape_of n = s'"
  shows "holds (bt_put i n t) ((i, s') # ns)"
proof -
  have "fst x \<noteq> i" if "x \<in> set ns" for x using assms(1) that by (auto simp: holds_def)
  then show ?thesis using assms by (auto simp: holds_def node_shape_put)
qed

lemma holds_drop: "holds t (ns @ ns') \<Longrightarrow> holds t ns" "holds t (ns @ ns') \<Longrightarrow> holds t ns'"
  by (auto simp: holds_def)

lemma bt_alloc_eq: "bt_alloc n t = (length (bt_arena t), t\<lparr>bt_arena := bt_arena t @ [n]\<rparr>)"
  by (simp add: bt_alloc_def alloc_node_def)

lemma holds_alloc:
  assumes "holds t ns" "shape_of n = s"
  shows "holds (t\<lparr>bt_arena := bt_arena t @ [n]\<rparr>) ((length (bt_arena t), s) # ns)"
proof -
  let ?l = "length (bt_arena t)"
  have old: "node_shape t (fst x) = Some (snd x)" "fst x \<noteq> ?l" if "x \<in> set ns" for x
    using assms(1) that bt_at_fresh [of t] by (auto simp: holds_def node_shape_def)
  then have "?l \<notin> set (map fst ns)" by force
  moreover have "distinct (map fst ns)" using assms(1) by (simp add: holds_def)
  ultimately show ?thesis using old assms(2) by (simp add: holds_def node_shape_alloc)
qed

section \<open>Links\<close>

text \<open>What a step keeps: the links of every old node, and everything but the arena and the root.\<close>

definition same_links :: "'k btree \<Rightarrow> 'k btree \<Rightarrow> bool" where
  "same_links t t' \<longleftrightarrow> (\<forall>i n. bt_at t i = Some n \<longrightarrow>
     (\<exists>n'. bt_at t' i = Some n' \<and> nd_next n' = nd_next n \<and> nd_prev n' = nd_prev n))"

definition same_meta :: "'k btree \<Rightarrow> 'k btree \<Rightarrow> bool" where
  "same_meta t t' \<longleftrightarrow> bt_order t' = bt_order t \<and> bt_unique t' = bt_unique t
     \<and> bt_comparator t' = bt_comparator t \<and> bt_stats t' = bt_stats t"

lemma same_links_refl [simp]: "same_links t t"
  by (simp add: same_links_def)

lemma same_links_trans [trans]: "same_links t t' \<Longrightarrow> same_links t' t'' \<Longrightarrow> same_links t t''"
  unfolding same_links_def by metis

lemma same_links_root [simp]: "same_links t (t'\<lparr>bt_root := r\<rparr>) = same_links t t'"
  by (simp add: same_links_def)

lemma same_links_put:
  "bt_at t i = Some n \<Longrightarrow> nd_next n' = nd_next n \<Longrightarrow> nd_prev n' = nd_prev n \<Longrightarrow> same_links t (bt_put i n' t)"
  by (auto simp: same_links_def bt_at_put)

lemma same_links_alloc: "same_links t (t\<lparr>bt_arena := bt_arena t @ [n]\<rparr>)"
  by (auto simp: same_links_def bt_at_alloc bt_at_fresh)

lemma same_meta_refl [simp]: "same_meta t t"
  by (simp add: same_meta_def)

lemma same_meta_trans [trans]: "same_meta t t' \<Longrightarrow> same_meta t' t'' \<Longrightarrow> same_meta t t''"
  by (simp add: same_meta_def)

lemma same_meta_simps [simp]:
  "same_meta t (t'\<lparr>bt_root := r\<rparr>) = same_meta t t'" "same_meta t (t'\<lparr>bt_arena := a\<rparr>) = same_meta t t'"
  "same_meta t (bt_put i n t') = same_meta t t'"
  by (simp_all add: same_meta_def)

text \<open>A stretch of leaves, linked both ways, between the leaves \<open>p\<close> and \<open>q\<close>.\<close>

definition first_of :: "nat list \<Rightarrow> nat option \<Rightarrow> nat option" where
  "first_of is q = (case is of [] \<Rightarrow> q | i # _ \<Rightarrow> Some i)"

definition last_of :: "nat option \<Rightarrow> nat list \<Rightarrow> nat option" where
  "last_of p is = (if is = [] then p else Some (last is))"

fun linked :: "'k btree \<Rightarrow> nat option \<Rightarrow> nat list \<Rightarrow> nat option \<Rightarrow> bool" where
  "linked t p [] q \<longleftrightarrow> True"
| "linked t p (i # is) q \<longleftrightarrow>
     (\<exists>n. bt_at t i = Some n \<and> nd_prev n = p \<and> nd_next n = first_of is q) \<and> linked t (Some i) is q"

lemma first_of_simps [simp]:
  "first_of [] q = q" "first_of (i # is) q = Some i" "first_of (is @ is') q = first_of is (first_of is' q)"
  by (auto simp: first_of_def split: list.splits)

lemma last_of_simps [simp]:
  "last_of p [] = p" "last_of p (i # is) = last_of (Some i) is" "last_of p (is @ is') = last_of (last_of p is) is'"
  by (auto simp: last_of_def)

lemma linked_append: "linked t p (is @ is') q \<longleftrightarrow> linked t p is (first_of is' q) \<and> linked t (last_of p is) is' q"
  by (induction "is" arbitrary: p) auto

lemma linked_same: "same_links t t' \<Longrightarrow> linked t p is q \<Longrightarrow> linked t' p is q"
  by (induction "is" arbitrary: p) (auto simp: same_links_def, metis)

text \<open>Changing a node outside the stretch.\<close>

lemma linked_put: "i \<notin> set is \<Longrightarrow> linked (bt_put i n t) p is q = linked t p is q"
  by (induction "is" arbitrary: p) (auto simp: bt_at_put)

lemma linked_meta [simp]: "linked (t\<lparr>bt_root := r\<rparr>) p is q = linked t p is q"
  "linked (t\<lparr>bt_stats := st\<rparr>) p is q = linked t p is q"
  by (induction "is" arbitrary: p) auto

section \<open>Paths\<close>

text \<open>A frame is a node with a hole among its children, the keys and children left and right of it.\<close>

datatype 'k frame = Frame nat "'k list" "'k gtree list" "'k list" "'k gtree list"

fun parent_of :: "'k frame list \<Rightarrow> nat option" where
  "parent_of [] = None"
| "parent_of (Frame i lk lg rk rg # c) = Some i"

fun plug :: "'k frame list \<Rightarrow> 'k gtree \<Rightarrow> 'k gtree" where
  "plug [] g = g"
| "plug (Frame i lk lg rk rg # c) g = plug c (GNode i (lk @ rk) (lg @ g # rg))"

text \<open>The nodes of a path whose hole is filled by the node \<open>h\<close>.\<close>

fun cnodes :: "'k frame list \<Rightarrow> nat \<Rightarrow> (nat \<times> 'k shape) list" where
  "cnodes [] h = []"
| "cnodes (Frame i lk lg rk rg # c) h =
     (i, Shape False (lk @ rk) [] (map gid lg @ h # map gid rg) (parent_of c))
     # concat (map (nodes (Some i)) (lg @ rg)) @ cnodes c i"

lemma nodes_plug: "mset (nodes None (plug c g)) = mset (cnodes c (gid g) @ nodes (parent_of c) g)"
proof (induction c arbitrary: g)
  case (Cons f c)
  obtain i lk lg rk rg where "f = Frame i lk lg rk rg" by (cases f)
  then show ?case using Cons.IH [of "GNode i (lk @ rk) (lg @ g # rg)"] by (simp add: ac_simps)
qed simp

lemma holds_plug: "holds t (nodes None (plug c g)) = holds t (cnodes c (gid g) @ nodes (parent_of c) g)"
  by (rule holds_perm) (rule nodes_plug)

lemma gid_plug_root: "gid (plug c g) = (case c of [] \<Rightarrow> gid g | _ \<Rightarrow> gid (plug c (GLeaf 0 [])))"
proof (cases c)
  case (Cons f c')
  obtain i lk lg rk rg where f: "f = Frame i lk lg rk rg" by (cases f)
  have "gid (plug c' (GNode i (lk @ rk) (lg @ g # rg))) = gid (plug c' (GNode i (lk @ rk) (lg @ g' # rg)))" for g g'
  proof (induction c' arbitrary: i lk lg rk rg g g')
    case (Cons f c')
    then show ?case by (cases f) simp
  qed simp
  then show ?thesis using Cons f by simp
qed simp

lemma gid_plug_cong: "gid g = gid g' \<Longrightarrow> gid (plug c g) = gid (plug c g')"
  by (subst (1 2) gid_plug_root) (simp split: list.split)

section \<open>The spine\<close>

datatype 'k item = Leaf nat "('k \<times> row_id list) list" | Sep 'k

definition lweave :: "'k list \<Rightarrow> 'k item list list \<Rightarrow> 'k item list" where
  "lweave ks ss = concat (map2 (\<lambda>k s. s @ [Sep k]) ks ss)"

definition rweave :: "'k list \<Rightarrow> 'k item list list \<Rightarrow> 'k item list" where
  "rweave ks ss = concat (map2 (\<lambda>k s. Sep k # s) ks ss)"

fun spine :: "'k gtree \<Rightarrow> 'k item list" where
  "spine (GLeaf i kvs) = [Leaf i kvs]"
| "spine (GNode i ks gs) =
     (case map spine gs of [] \<Rightarrow> [] | s # ss \<Rightarrow> s @ rweave ks ss)"

lemma weave_simps [simp]:
  "lweave [] ss = []" "rweave [] ss = []" "lweave (k # ks) (s # ss) = s @ Sep k # lweave ks ss"
  "rweave (k # ks) (s # ss) = Sep k # s @ rweave ks ss"
  by (simp_all add: lweave_def rweave_def)

lemma weave_append [simp]:
  "length ks = length ss \<Longrightarrow> lweave (ks @ ks') (ss @ ss') = lweave ks ss @ lweave ks' ss'"
  "length ks = length ss \<Longrightarrow> rweave (ks @ ks') (ss @ ss') = rweave ks ss @ rweave ks' ss'"
  by (simp_all add: lweave_def rweave_def)

lemma weave_shift: "length ks = length ss \<Longrightarrow> s @ rweave ks (ss @ ss') = lweave ks (s # ss) @ last (s # ss)"
  by (induction ks ss arbitrary: s rule: list_induct2) auto

lemma spine_node:
  assumes "length lk = length lg" "length rk = length rg"
  shows "spine (GNode i (lk @ rk) (lg @ g # rg)) = lweave lk (map spine lg) @ spine g @ rweave rk (map spine rg)"
proof (cases lg)
  case (Cons h hs)
  have "spine h @ rweave lk (map spine hs @ [spine g]) = lweave lk (map spine lg) @ spine g"
    using assms(1) Cons
  proof (induction lk arbitrary: h hs lg)
    case (Cons k lk)
    then show ?case by (cases hs) auto
  qed simp
  moreover have "rweave (lk @ rk) (map spine hs @ spine g # map spine rg)
      = rweave lk (map spine hs @ [spine g]) @ rweave rk (map spine rg)"
    using assms Cons weave_append(2) [of lk "map spine hs @ [spine g]" rk "map spine rg"] by simp
  ultimately show ?thesis using Cons by simp
qed (use assms in simp)

fun lsp :: "'k frame list \<Rightarrow> 'k item list" where
  "lsp [] = []"
| "lsp (Frame i lk lg rk rg # c) = lsp c @ lweave lk (map spine lg)"

fun rsp :: "'k frame list \<Rightarrow> 'k item list" where
  "rsp [] = []"
| "rsp (Frame i lk lg rk rg # c) = rweave rk (map spine rg) @ rsp c"

text \<open>Balance: all leaves at the same depth, every internal node with a key; \<open>lax\<close> leaves out the node at the top.\<close>

fun bal :: "nat \<Rightarrow> 'k gtree \<Rightarrow> bool" where
  "bal 0 (GLeaf i kvs) \<longleftrightarrow> True"
| "bal (Suc n) (GNode i ks gs) \<longleftrightarrow> ks \<noteq> [] \<and> length gs = Suc (length ks) \<and> list_all (bal n) gs"
| "bal _ _ \<longleftrightarrow> False"

fun lax :: "nat \<Rightarrow> 'k gtree \<Rightarrow> bool" where
  "lax 0 (GLeaf i kvs) \<longleftrightarrow> True"
| "lax (Suc n) (GNode i ks gs) \<longleftrightarrow> length gs = Suc (length ks) \<and> list_all (bal n) gs"
| "lax _ _ \<longleftrightarrow> False"

fun cbal :: "'k frame list \<Rightarrow> nat \<Rightarrow> bool" where
  "cbal [] n \<longleftrightarrow> True"
| "cbal (Frame i lk lg rk rg # c) n \<longleftrightarrow>
     length lg = length lk \<and> length rg = length rk \<and> lk @ rk \<noteq> [] \<and> list_all (bal n) lg \<and> list_all (bal n) rg
     \<and> cbal c (Suc n)"

lemma bal_lax: "bal n g \<Longrightarrow> lax n g"
  by (induction n g rule: lax.induct) auto

lemma bal_plug: "cbal c n \<Longrightarrow> bal n g \<Longrightarrow> bal (n + length c) (plug c g)"
proof (induction c arbitrary: n g)
  case (Cons f c)
  obtain i lk lg rk rg where f: "f = Frame i lk lg rk rg" by (cases f)
  have "bal (Suc n) (GNode i (lk @ rk) (lg @ g # rg))" using Cons.prems f by simp
  then show ?case using Cons.IH [of "Suc n"] Cons.prems f by simp
qed simp

lemma spine_plug: "cbal c n \<Longrightarrow> spine (plug c g) = lsp c @ spine g @ rsp c"
proof (induction c arbitrary: n g)
  case (Cons f c)
  obtain i lk lg rk rg where f: "f = Frame i lk lg rk rg" by (cases f)
  have "spine (GNode i (lk @ rk) (lg @ g # rg)) = lweave lk (map spine lg) @ spine g @ rweave rk (map spine rg)"
    using Cons.prems f by (intro spine_node) auto
  then show ?case using Cons.IH [of "Suc n"] Cons.prems f by simp
qed simp

section \<open>The order of the spine\<close>

text \<open>Separators come right before a key that is equal to them.\<close>

fun plt :: "'k::linorder \<times> bool \<Rightarrow> 'k \<times> bool \<Rightarrow> bool" where
  "plt (a, x) (b, y) \<longleftrightarrow> a < b \<or> a = b \<and> \<not> x \<and> y"

fun item_keys :: "'k item \<Rightarrow> ('k \<times> bool) list" where
  "item_keys (Sep k) = [(k, False)]"
| "item_keys (Leaf i kvs) = map (\<lambda>e. (fst e, True)) kvs"

definition seq :: "'k item list \<Rightarrow> ('k \<times> bool) list" where
  "seq sp = concat (map item_keys sp)"

definition ordered :: "'k::linorder item list \<Rightarrow> bool" where
  "ordered sp \<longleftrightarrow> sorted_wrt plt (seq sp)"

lemma plt_trans: "plt x y \<Longrightarrow> plt y z \<Longrightarrow> plt x z"
  by (cases x; cases y; cases z) auto

lemma seq_simps [simp]:
  "seq [] = []" "seq (Sep k # sp) = (k, False) # seq sp"
  "seq (Leaf i kvs # sp) = map (\<lambda>e. (fst e, True)) kvs @ seq sp" "seq (sp @ sp') = seq sp @ seq sp'"
  by (simp_all add: seq_def)

text \<open>Everything left of a key, and everything right of it.\<close>

definition left_of :: "'k::linorder item list \<Rightarrow> 'k \<Rightarrow> bool" where
  "left_of sp key \<longleftrightarrow> (\<forall>x \<in> set (seq sp). plt x (key, True))"

definition right_of :: "'k::linorder item list \<Rightarrow> 'k \<Rightarrow> bool" where
  "right_of sp key \<longleftrightarrow> (\<forall>x \<in> set (seq sp). plt (key, True) x)"

lemma left_of_simps [simp]:
  "left_of [] key" "left_of (sp @ sp') key \<longleftrightarrow> left_of sp key \<and> left_of sp' key"
  "left_of (Sep k # sp) key \<longleftrightarrow> k \<le> key \<and> left_of sp key"
  by (auto simp: left_of_def)

lemma right_of_simps [simp]:
  "right_of [] key" "right_of (sp @ sp') key \<longleftrightarrow> right_of sp key \<and> right_of sp' key"
  "right_of (Sep k # sp) key \<longleftrightarrow> key < k \<and> right_of sp key"
  by (auto simp: right_of_def)

lemma lweave_left_of:
  assumes "length ks = length ss" "sorted_wrt plt (seq (lweave ks ss))" "\<forall>k \<in> set ks. k \<le> key"
  shows "left_of (lweave ks ss) key"
proof (cases ks rule: rev_cases)
  case (snoc ks' k)
  then obtain ss' s where ss: "ss = ss' @ [s]" "length ks' = length ss'"
    using assms(1) by (cases ss rule: rev_cases) auto
  have w: "lweave ks ss = lweave ks' ss' @ s @ [Sep k]" using ss snoc by simp
  have "plt x (k, False)" if "x \<in> set (seq (lweave ks' ss' @ s))" for x
    using assms(2) that unfolding w by (auto simp: sorted_wrt_append)
  moreover have "plt (k, False) (key, True)" using assms(3) snoc by auto
  ultimately show ?thesis unfolding w left_of_def using plt_trans by (auto simp del: plt.simps) blast+
qed simp

lemma rweave_right_of:
  assumes "length ks = length ss" "sorted_wrt plt (seq (rweave ks ss))" "\<forall>k \<in> set ks. key < k"
  shows "right_of (rweave ks ss) key"
proof (cases ks)
  case (Cons k ks')
  then obtain s ss' where ss: "ss = s # ss'" using assms(1) by (cases ss) auto
  have w: "rweave ks ss = Sep k # s @ rweave ks' ss'" using ss Cons by simp
  have "plt (k, False) x" if "x \<in> set (seq (s @ rweave ks' ss'))" for x
    using assms(2) that unfolding w by (auto simp: sorted_wrt_append)
  moreover have "plt (key, True) (k, False)" using assms(3) Cons by auto
  ultimately show ?thesis unfolding w right_of_def using plt_trans by (auto simp del: plt.simps) blast+
qed simp

text \<open>The keys of a node are in order.\<close>

lemma lweave_keys: "length ks = length ss \<Longrightarrow> k \<in> set ks \<Longrightarrow> (k, False) \<in> set (seq (lweave ks ss))"
  by (induction ks ss rule: list_induct2) auto

lemma rweave_keys: "length ks = length ss \<Longrightarrow> k \<in> set ks \<Longrightarrow> (k, False) \<in> set (seq (rweave ks ss))"
  by (induction ks ss rule: list_induct2) auto

lemma rweave_sorted_keys:
  "length ks = length ss \<Longrightarrow> sorted_wrt plt (seq (rweave ks ss)) \<Longrightarrow> sorted_wrt (<) ks"
proof (induction ks ss rule: list_induct2)
  case (Cons k ks s ss)
  have "k < k'" if "k' \<in> set ks" for k'
  proof -
    have "(k', False) \<in> set (seq (rweave ks ss))" using rweave_keys [of ks ss k'] that Cons.hyps by simp
    then have "plt (k, False) (k', False)" using Cons.prems by (simp add: sorted_wrt_append del: plt.simps)
    then show ?thesis by simp
  qed
  then show ?case using Cons by (simp add: sorted_wrt_append)
qed simp

lemma node_sorted_keys:
  assumes "length gs = Suc (length ks)" "ordered (sp @ spine (GNode i ks gs) @ sp')"
  shows "sorted_wrt (<) ks"
proof -
  obtain g gs' where gs: "gs = g # gs'" using assms(1) by (cases gs) auto
  then show ?thesis
    using assms rweave_sorted_keys [of ks "map spine gs'"] by (auto simp: ordered_def sorted_wrt_append)
qed

section \<open>Search\<close>

lemma bt_is_less_Asc: "bt_comparator t = Asc \<Longrightarrow> bt_is_less t a b \<longleftrightarrow> a < b"
  by (simp add: bt_is_less_def cmp_is_less_def simple_compare_def)

lemma partition_point_le: "partition_point P xs \<le> length xs"
  by (simp add: partition_point_def length_takeWhile_le)

lemma partition_point_split:
  assumes "sorted_wrt (<) (xs @ ys)" "\<forall>x \<in> set xs. P x" "\<forall>y \<in> set ys. \<not> P y"
  shows "partition_point P (xs @ ys) = length xs"
proof -
  have "takeWhile P (xs @ ys) = xs @ takeWhile P ys" using assms(2) by simp
  moreover have "takeWhile P ys = []" using assms(3) by (cases ys) auto
  ultimately show ?thesis by (simp add: partition_point_def)
qed

lemma partition_point_parts:
  fixes ks :: "'k::linorder list"
  assumes "sorted_wrt (<) ks" "\<And>a b. a < b \<Longrightarrow> P b \<Longrightarrow> P a"
  shows "\<forall>k \<in> set (take (partition_point P ks) ks). P k" "\<forall>k \<in> set (drop (partition_point P ks) ks). \<not> P k"
  using assms
proof (induction ks)
  case (Cons k ks)
  {
    case 1
    then show ?case using Cons.IH(1) by (auto simp: partition_point_def)
  next
    case 2
    then show ?case using Cons.IH(2) by (auto simp: partition_point_def)
  }
qed (simp_all add: partition_point_def)

lemma child_point_parts:
  fixes ks :: "'k::linorder list"
  assumes "sorted_wrt (<) ks"
  shows "\<forall>k \<in> set (take (partition_point (\<lambda>k. \<not> key < k) ks) ks). k \<le> key"
    "\<forall>k \<in> set (drop (partition_point (\<lambda>k. \<not> key < k) ks) ks). key < k"
proof -
  let ?P = "\<lambda>k. \<not> key < k"
  have mono: "?P a" if "a < b" "?P b" for a b using that by (meson less_trans)
  have A: "\<forall>k \<in> set (take (partition_point ?P ks) ks). ?P k"
    by (rule partition_point_parts(1) [OF assms, of ?P]) (rule mono)
  have B: "\<forall>k \<in> set (drop (partition_point ?P ks) ks). \<not> ?P k"
    by (rule partition_point_parts(2) [OF assms, of ?P]) (rule mono)
  show "\<forall>k \<in> set (take (partition_point ?P ks) ks). k \<le> key" using A unfolding not_less .
  show "\<forall>k \<in> set (drop (partition_point ?P ks) ks). key < k" using B unfolding not_not .
qed

lemma node_shape_at: "holds t ns \<Longrightarrow> (i, Shape l ks vs cs p) \<in> set ns \<Longrightarrow>
    \<exists>n. bt_at t i = Some n \<and> nd_is_leaf n = l \<and> nd_keys n = ks \<and> nd_values n = vs \<and> nd_children n = cs \<and> nd_parent n = p"
  by (drule (1) holds_at) (auto simp: shape_of_def)

text \<open>The descent to a leaf, from any node: the leaf is between what is left and what is right of the key.\<close>

lemma find_leaf_from_path:
  assumes "holds t (cnodes c (gid g) @ nodes (parent_of c) g)" "bal n g" "cbal c n" "bt_comparator t = Asc"
    and "ordered (lsp c @ spine g @ rsp c)" "left_of (lsp c) key" "right_of (rsp c) key"
  shows "\<exists>c' i kvs. find_leaf_from t key (gid g) = Some i \<and> plug c g = plug c' (GLeaf i kvs)
    \<and> cbal c' 0 \<and> left_of (lsp c') key \<and> right_of (rsp c') key"
  using assms
proof (induction n arbitrary: c g)
  case 0
  then obtain i kvs where g: "g = GLeaf i kvs" by (cases g) auto
  obtain nd where "bt_at t i = Some nd" "nd_is_leaf nd"
    using node_shape_at [OF 0(1), of i True "map fst kvs" "map snd kvs" "[]" "parent_of c"] g by auto
  then have "find_leaf_from t key i = Some i" by (simp add: find_leaf_from.simps)
  then show ?case using 0 g by (intro exI [of _ c]) auto
next
  case (Suc n)
  then obtain i ks gs where g: "g = GNode i ks gs" and len: "length gs = Suc (length ks)" and gs: "list_all (bal n) gs"
    and ne: "ks \<noteq> []" by (cases g) auto
  obtain nd where nd: "bt_at t i = Some nd" "\<not> nd_is_leaf nd" "nd_keys nd = ks" "nd_children nd = map gid gs"
    using node_shape_at [OF Suc.prems(1), of i False ks "[]" "map gid gs" "parent_of c"] g by auto
  define pos where "pos = partition_point (\<lambda>k. \<not> key < k) ks"
  have pos: "pos \<le> length ks" by (simp add: pos_def partition_point_le)
  then have child: "find_child_position t nd key = pos"
    using nd len Suc.prems(4) by (simp add: find_child_position_def bt_is_less_Asc pos_def min_def)
  have sorted: "sorted_wrt (<) ks" using node_sorted_keys [OF len] Suc.prems(5) g by blast
  have parts: "\<forall>k \<in> set (take pos ks). k \<le> key" "\<forall>k \<in> set (drop pos ks). key < k"
    unfolding pos_def by (rule child_point_parts [OF sorted])+
  let ?f = "Frame i (take pos ks) (take pos gs) (drop pos ks) (drop (Suc pos) gs)"
  let ?g = "gs ! pos"
  have gs_split: "take pos gs @ ?g # drop (Suc pos) gs = gs" using id_take_nth_drop [of pos gs] pos len by simp
  have plug: "plug (?f # c) ?g = plug c g" using gs_split g by simp
  have "bal n ?g" using gs pos len by (simp add: list_all_length)
  moreover have cb: "cbal (?f # c) n"
    using gs pos len ne Suc.prems(3) by (auto simp: list_all_iff dest: in_set_takeD in_set_dropD)
  moreover have sp: "lsp (?f # c) @ spine ?g @ rsp (?f # c) = lsp c @ spine g @ rsp c"
    using spine_node [of "take pos ks" "take pos gs" "drop pos ks" "drop (Suc pos) gs" i ?g] pos len gs_split g
    by simp
  moreover have ord: "ordered (lsp (?f # c) @ spine ?g @ rsp (?f # c))" unfolding sp by (rule Suc.prems(5))
  moreover have "sorted_wrt plt (seq (lweave (take pos ks) (map spine (take pos gs))))"
    "sorted_wrt plt (seq (rweave (drop pos ks) (map spine (drop (Suc pos) gs))))"
    using ord by (simp_all add: ordered_def sorted_wrt_append)
  then have "left_of (lweave (take pos ks) (map spine (take pos gs))) key"
    "right_of (rweave (drop pos ks) (map spine (drop (Suc pos) gs))) key"
    using parts pos len by (auto intro!: lweave_left_of rweave_right_of)
  then have "left_of (lsp (?f # c)) key" "right_of (rsp (?f # c)) key" using Suc.prems(6,7) by simp_all
  moreover have "holds t (cnodes (?f # c) (gid ?g) @ nodes (parent_of (?f # c)) ?g)"
    using Suc.prems(1) plug by (metis holds_plug)
  ultimately obtain c' j kvs where "find_leaf_from t key (gid ?g) = Some j" "plug (?f # c) ?g = plug c' (GLeaf j kvs)"
    "cbal c' 0" "left_of (lsp c') key" "right_of (rsp c') key"
    using Suc.IH [of "?f # c" ?g] Suc.prems(4) by blast
  moreover have "find_leaf_from t key i = find_leaf_from t key (gid ?g)"
    using nd child pos len by (subst find_leaf_from.simps) (simp add: vec_at_def)
  ultimately show ?case using g plug by (metis gid.simps(2))
qed

end
