(* ===== verification/Cynos_Btree_Insert.thy ===== *)
theory Cynos_Btree_Insert
  imports Cynos_Btree_Rep
begin

text \<open>
  What a split does to the tree an arena represents: an internal split keeps the spine, and inserting a separator
  and a right sibling into the parents adds exactly those two to it.
\<close>

section \<open>Parents\<close>

fun with_parent :: "nat option \<Rightarrow> 'k shape \<Rightarrow> 'k shape" where
  "with_parent p (Shape l ks vs cs q) = Shape l ks vs cs p"

lemma shape_of_parent: "shape_of (n\<lparr>nd_parent := p\<rparr>) = with_parent p (shape_of n)"
  by (simp add: shape_of_def)

lemma nodes_top: "\<exists>s r. \<forall>p. nodes p g = (gid g, with_parent p s) # r"
  by (cases g) (auto intro: exI [of _ "Shape l ks vs cs q" for l ks vs cs q])

lemma reparent:
  assumes "holds t (nodes p g @ ns)"
  shows "\<exists>t'. bt_mod (gid g) (\<lambda>n. n\<lparr>nd_parent := q\<rparr>) t = Some t' \<and> holds t' (nodes q g @ ns)
    \<and> same_links t t' \<and> same_meta t t' \<and> bt_root t' = bt_root t"
proof -
  obtain s r where top: "\<And>p. nodes p g = (gid g, with_parent p s) # r" using nodes_top [of g] by blast
  obtain n where n: "bt_at t (gid g) = Some n" "shape_of n = with_parent p s"
    using holds_at [OF assms, of "gid g" "with_parent p s"] top by auto
  let ?t = "bt_put (gid g) (n\<lparr>nd_parent := q\<rparr>) t"
  have "shape_of (n\<lparr>nd_parent := q\<rparr>) = with_parent q s"
    using n(2) by (cases s) (simp add: shape_of_parent)
  then have "holds ?t (nodes q g @ ns)" using assms holds_put by (fastforce simp: top)
  moreover have "same_links t ?t" using n(1) by (rule same_links_put) simp_all
  ultimately show ?thesis using n(1) by (simp add: bt_mod_def)
qed

lemma set_parents_spec:
  assumes "holds t (concat (map (nodes p) gs) @ ns)"
  shows "\<exists>t'. set_parents (map gid gs) j t = Some t' \<and> holds t' (concat (map (nodes (Some j)) gs) @ ns)
    \<and> same_links t t' \<and> same_meta t t' \<and> bt_root t' = bt_root t"
  using assms
proof (induction gs arbitrary: t ns)
  case (Cons g gs)
  have "holds t (nodes p g @ (concat (map (nodes p) gs) @ ns))" using Cons.prems by simp
  then obtain t1 where t1: "bt_mod (gid g) (\<lambda>n. n\<lparr>nd_parent := Some j\<rparr>) t = Some t1"
    "holds t1 (nodes (Some j) g @ (concat (map (nodes p) gs) @ ns))" "same_links t t1" "same_meta t t1" "bt_root t1 = bt_root t"
    using reparent by metis
  have "holds t1 (concat (map (nodes p) gs) @ (nodes (Some j) g @ ns))"
    using t1(2) by (subst holds_perm [where ns' = "nodes (Some j) g @ (concat (map (nodes p) gs) @ ns)"]) simp_all
  then obtain t2 where t2: "set_parents (map gid gs) j t1 = Some t2"
    "holds t2 (concat (map (nodes (Some j)) gs) @ (nodes (Some j) g @ ns))" "same_links t1 t2" "same_meta t1 t2"
    "bt_root t2 = bt_root t1"
    using Cons.IH by metis
  have "holds t2 (concat (map (nodes (Some j)) (g # gs)) @ ns)"
    using t2(2) by (subst holds_perm [where ns' = "concat (map (nodes (Some j)) gs) @ (nodes (Some j) g @ ns)"]) simp_all
  then show ?case using t1 t2 same_links_trans same_meta_trans by (auto simp: t1(1))
qed simp

section \<open>Splitting an internal node\<close>

lemma split_internal_spec:
  fixes t :: "'k::linorder btree"
  assumes holds: "holds t (nodes p (GNode i ks gs) @ ns)" and len: "length gs = Suc (length ks)" and ne: "ks \<noteq> []"
  defines "mid \<equiv> length ks div 2"
  shows "\<exists>t' j. split_internal_node i t = Some (ks ! mid, j, t')
    \<and> holds t' (nodes p (GNode i (take mid ks) (take (Suc mid) gs)) @ nodes p (GNode j (drop (Suc mid) ks) (drop (Suc mid) gs)) @ ns)
    \<and> same_links t t' \<and> same_meta t t' \<and> bt_root t' = bt_root t"
proof -
  let ?kl = "take mid ks" and ?kr = "drop (Suc mid) ks" and ?gl = "take (Suc mid) gs" and ?gr = "drop (Suc mid) gs"
  have mid: "mid < length ks" using ne by (simp add: mid_def)
  obtain n where n: "bt_at t i = Some n" "\<not> nd_is_leaf n" "nd_keys n = ks" "nd_values n = []"
      "nd_children n = map gid gs" "nd_parent n = p"
    using node_shape_at [OF holds, of i False ks "[]" "map gid gs" p] by auto
  let ?old = "n\<lparr>nd_keys := butlast (take (Suc mid) ks), nd_children := map gid ?gl\<rparr>"
  let ?new = "new_internal\<lparr>nd_keys := ?kr, nd_children := map gid ?gr, nd_parent := p\<rparr>"
  let ?t1 = "bt_put i ?old t"
  let ?j = "length (bt_arena ?t1)"
  let ?t2 = "?t1\<lparr>bt_arena := bt_arena ?t1 @ [?new]\<rparr>"
  let ?top = "(i, Shape False ?kl [] (map gid ?gl) p)" and ?top2 = "(?j, Shape False ?kr [] (map gid ?gr) p)"
  have keys: "butlast (take (Suc mid) ks) = ?kl" using mid by (simp add: butlast_take)
  have shapes: "shape_of ?old = Shape False ?kl [] (map gid ?gl) p" "shape_of ?new = Shape False ?kr [] (map gid ?gr) p"
    using n keys by (simp_all add: shape_of_def new_internal_def)
  have "holds ?t1 (?top # concat (map (nodes (Some i)) gs) @ ns)"
    by (rule holds_put) (use holds shapes in simp_all)
  then have "holds ?t2 (?top2 # ?top # concat (map (nodes (Some i)) gs) @ ns)"
    by (rule holds_alloc) (rule shapes(2))
  moreover have "concat (map (nodes (Some i)) gs) = concat (map (nodes (Some i)) ?gl) @ concat (map (nodes (Some i)) ?gr)"
    by (metis append_take_drop_id concat_append map_append)
  ultimately have h2: "holds ?t2 (concat (map (nodes (Some i)) ?gr) @ (?top2 # ?top # concat (map (nodes (Some i)) ?gl) @ ns))"
    by (subst holds_perm [where ns' = "?top2 # ?top # (concat (map (nodes (Some i)) ?gl) @ concat (map (nodes (Some i)) ?gr)) @ ns"]) simp_all
  obtain t3 where t3: "set_parents (map gid ?gr) ?j ?t2 = Some t3"
    "holds t3 (concat (map (nodes (Some ?j)) ?gr) @ (?top2 # ?top # concat (map (nodes (Some i)) ?gl) @ ns))"
    "same_links ?t2 t3" "same_meta ?t2 t3" "bt_root t3 = bt_root ?t2"
    using set_parents_spec [OF h2, of ?j] by blast
  have "holds t3 (nodes p (GNode i ?kl ?gl) @ nodes p (GNode ?j ?kr ?gr) @ ns)"
    using t3(2) by (subst holds_perm [where ns' = "concat (map (nodes (Some ?j)) ?gr) @ (?top2 # ?top # concat (map (nodes (Some i)) ?gl) @ ns)"])
      simp_all
  moreover have "split_internal_node i t = Some (ks ! mid, ?j, t3)"
    using n mid len t3(1)
    by (simp add: split_internal_node_def key_count_def mid_def [symmetric] vec_at_def vec_split_off_def bt_alloc_eq
        take_map drop_map)
  moreover have "same_links t t3"
  proof -
    have "same_links t ?t1" by (rule same_links_put [OF n(1)]) simp_all
    then show ?thesis using same_links_alloc [of ?t1 ?new] t3(3) by (blast intro: same_links_trans)
  qed
  moreover have "same_meta t t3" "bt_root t3 = bt_root t" using t3(4,5) by (simp_all add: same_meta_def)
  ultimately show ?thesis by blast
qed

lemma split_spine:
  assumes "length gs = Suc (length ks)" "mid < length ks"
  shows "spine (GNode i ks gs) = spine (GNode i (take mid ks) (take (Suc mid) gs)) @
    Sep (ks ! mid) # spine (GNode j (drop (Suc mid) ks) (drop (Suc mid) gs))"
proof -
  have gl: "take (Suc mid) gs = take mid gs @ [gs ! mid]" using assms by (simp add: take_Suc_conv_app_nth)
  obtain g gr where gr: "drop (Suc mid) gs = g # gr" using assms by (cases "drop (Suc mid) gs") auto
  have whole: "spine (GNode i (take mid ks @ (ks ! mid # drop (Suc mid) ks)) (take mid gs @ gs ! mid # drop (Suc mid) gs))
      = lweave (take mid ks) (map spine (take mid gs)) @ spine (gs ! mid)
        @ rweave (ks ! mid # drop (Suc mid) ks) (map spine (drop (Suc mid) gs))"
    using assms by (intro spine_node) auto
  have parts: "take mid ks @ (ks ! mid # drop (Suc mid) ks) = ks" "take mid gs @ gs ! mid # drop (Suc mid) gs = gs"
    using assms id_take_nth_drop [of mid ks] id_take_nth_drop [of mid gs] by simp_all
  have left: "spine (GNode i (take mid ks) (take (Suc mid) gs))
      = lweave (take mid ks) (map spine (take mid gs)) @ spine (gs ! mid)"
    using spine_node [of "take mid ks" "take mid gs" "[]" "[]" i "gs ! mid"] assms gl by simp
  have right: "spine (GNode j (drop (Suc mid) ks) (drop (Suc mid) gs)) = spine g @ rweave (drop (Suc mid) ks) (map spine gr)"
    unfolding gr by simp
  show ?thesis using whole unfolding parts left right by (simp only: gr list.map weave_simps append_assoc append_Cons)
qed

end
