(* ===== verification/Cynos_Btree_Grow.thy ===== *)
theory Cynos_Btree_Grow
  imports Cynos_Btree_Insert
begin

text \<open>
  Insertion in the B+ tree: a separator and a right sibling handed to the parents enter the spine at their place,
  whatever splits on the way to the root, and a leaf split keeps the chain of leaves.
\<close>

section \<open>A separator and a right sibling enter the parents\<close>

lemma list_all_take: "list_all P xs \<Longrightarrow> list_all P (take n xs)"
  by (auto simp: list_all_iff dest: in_set_takeD)

lemma list_all_drop: "list_all P xs \<Longrightarrow> list_all P (drop n xs)"
  by (auto simp: list_all_iff dest: in_set_dropD)

lemma frame_position:
  fixes lk rk :: "'k::linorder list"
  assumes "ordered (lsp (Frame i lk lg rk rg # c) @ sp @ Sep key # sp' @ rsp (Frame i lk lg rk rg # c))"
    and "length lg = length lk" "length rg = length rk"
  shows "partition_point (\<lambda>k. \<not> key < k) (lk @ rk) = length lk"
proof -
  have sorted: "sorted_wrt plt (seq (lsp c @ lweave lk (map spine lg) @ sp) @ (key, False) # seq sp'
      @ seq (rweave rk (map spine rg) @ rsp c))"
    using assms(1) by (simp add: ordered_def)
  have l: "k < key" if "k \<in> set lk" for k
  proof -
    have "(k, False) \<in> set (seq (lsp c @ lweave lk (map spine lg) @ sp))"
      using lweave_keys [of lk "map spine lg" k] assms(2) that by simp
    then have "plt (k, False) (key, False)" using sorted unfolding sorted_wrt_append by (simp del: plt.simps seq_simps)
    then show ?thesis by simp
  qed
  have r: "key < k" if "k \<in> set rk" for k
  proof -
    have "(k, False) \<in> set (seq (rweave rk (map spine rg) @ rsp c))"
      using rweave_keys [of rk "map spine rg" k] assms(3) that by simp
    then have "plt (key, False) (k, False)" using sorted unfolding sorted_wrt_append by (simp del: plt.simps seq_simps)
    then show ?thesis by simp
  qed
  have "takeWhile (\<lambda>k. \<not> key < k) (lk @ rk) = lk @ takeWhile (\<lambda>k. \<not> key < k) rk"
    using l by (intro takeWhile_append2) force
  moreover have "takeWhile (\<lambda>k. \<not> key < k) rk = []" using r by (cases rk) auto
  ultimately show ?thesis by (simp add: partition_point_def)
qed

text \<open>What a walk to the root ends with: a tree with the given spine, and everything else kept.\<close>

definition represents :: "'k btree \<Rightarrow> 'k item list \<Rightarrow> bool" where
  "represents t sp \<longleftrightarrow> (\<exists>g m. holds t (nodes None g) \<and> bal m g \<and> bt_root t = gid g \<and> spine g = sp)"

lemma representsI: "holds t (nodes None g) \<Longrightarrow> bal m g \<Longrightarrow> bt_root t = gid g \<Longrightarrow> spine g = sp \<Longrightarrow> represents t sp"
  unfolding represents_def by blast

lemma represents_plugI:
  assumes "holds t (cnodes c (gid g) @ nodes (parent_of c) g)" "cbal c n" "bal n g" "bt_root t = gid (plug c g)"
    and "lsp c @ spine g @ rsp c = sp"
  shows "represents t sp"
  using assms holds_plug [of t c g] bal_plug [OF assms(2,3)] spine_plug [OF assms(2), of g] by (auto intro: representsI)

lemma new_root_spec:
  assumes "holds t (nodes None g1 @ nodes None g2)" "bal n g1" "bal n g2" "bt_root t = gid g1"
  shows "\<exists>t'. insert_into_parent (gid g1) key (gid g2) t = Some t'
    \<and> represents t' (spine g1 @ Sep key # spine g2) \<and> same_links t t' \<and> same_meta t t'"
proof -
  let ?root = "new_internal\<lparr>nd_children := [gid g1, gid g2], nd_keys := [key]\<rparr>"
  let ?i = "length (bt_arena t)"
  let ?t1 = "t\<lparr>bt_arena := bt_arena t @ [?root]\<rparr>"
  let ?top = "(?i, Shape False [key] [] [gid g1, gid g2] None)"
  obtain s r where top: "\<And>p. nodes p g1 = (gid g1, with_parent p s) # r" using nodes_top [of g1] by blast
  obtain n1 where n1: "bt_at t (gid g1) = Some n1" "shape_of n1 = with_parent None s"
    using holds_at [OF assms(1), of "gid g1" "with_parent None s"] top by auto
  then have parent: "nd_parent n1 = None" by (cases s) (simp add: shape_of_def)
  have "holds ?t1 (?top # nodes None g1 @ nodes None g2)"
    by (rule holds_alloc [OF assms(1)]) (simp add: shape_of_def new_internal_def)
  then have "holds ?t1 (concat (map (nodes None) [g1, g2]) @ [?top])"
    by (subst holds_perm [where ns' = "?top # nodes None g1 @ nodes None g2"]) simp_all
  from set_parents_spec [OF this, of ?i] obtain t2 where t2: "set_parents [gid g1, gid g2] ?i ?t1 = Some t2"
    "holds t2 (concat (map (nodes (Some ?i)) [g1, g2]) @ [?top])" "same_links ?t1 t2" "same_meta ?t1 t2"
    by auto
  let ?g = "GNode ?i [key] [g1, g2]"
  have "holds t2 (nodes None ?g)"
    using t2(2) by (subst holds_perm [where ns' = "concat (map (nodes (Some ?i)) [g1, g2]) @ [?top]"]) simp_all
  then have "represents (t2\<lparr>bt_root := ?i\<rparr>) (spine g1 @ Sep key # spine g2)"
    using assms(2,3) by (intro representsI [where g = ?g and m = "Suc n"]) simp_all
  moreover have "insert_into_parent (gid g1) key (gid g2) t = Some (t2\<lparr>bt_root := ?i\<rparr>)"
    using n1(1) parent t2(1) by (subst insert_into_parent.simps) (simp add: bt_alloc_eq del: set_parents.simps)
  moreover have "same_links t (t2\<lparr>bt_root := ?i\<rparr>)"
    using same_links_trans [OF same_links_alloc t2(3)] by simp
  moreover have "same_meta t (t2\<lparr>bt_root := ?i\<rparr>)" using t2(4) by (simp add: same_meta_def)
  ultimately show ?thesis by blast
qed

text \<open>One level: the parent takes the separator and the right child.\<close>

lemma parent_takes_child:
  fixes t :: "'k::linorder btree"
  assumes holds: "holds t (cnodes (Frame i lk lg rk rg # c) (gid g1) @ nodes (Some i) g1 @ nodes q g2)"
    and len: "length lg = length lk" "length rg = length rk"
    and pos: "partition_point (\<lambda>k. \<not> key < k) (lk @ rk) = length lk" and asc: "bt_comparator t = Asc"
  defines "G \<equiv> GNode i (lk @ key # rk) (lg @ g1 # g2 # rg)"
  shows "\<exists>t'. holds t' (cnodes c i @ nodes (parent_of c) G) \<and> same_links t t' \<and> same_meta t t' \<and> bt_root t' = bt_root t
    \<and> insert_into_parent (gid g1) key (gid g2) t =
        (if length (lk @ key # rk) \<ge> bt_order t
         then do { (k, j, t) \<leftarrow> split_internal_node i t'; insert_into_parent i k j t } else Some t')"
proof -
  let ?old = "Shape False (lk @ rk) [] (map gid lg @ gid g1 # map gid rg) (parent_of c)"
  let ?new = "Shape False (lk @ key # rk) [] (map gid lg @ gid g1 # gid g2 # map gid rg) (parent_of c)"
  let ?rest = "concat (map (nodes (Some i)) (lg @ rg)) @ cnodes c i @ nodes (Some i) g1 @ nodes q g2"
  have h: "holds t ((i, ?old) # ?rest)" using holds by simp
  obtain n where n: "bt_at t i = Some n" "\<not> nd_is_leaf n" "nd_keys n = lk @ rk" "nd_values n = []"
      "nd_children n = map gid lg @ gid g1 # map gid rg" "nd_parent n = parent_of c"
    using node_shape_at [OF h, of i False "lk @ rk" "[]" "map gid lg @ gid g1 # map gid rg" "parent_of c"] by auto
  obtain s r where top: "\<And>p. nodes p g1 = (gid g1, with_parent p s) # r" using nodes_top [of g1] by blast
  obtain n1 where n1: "bt_at t (gid g1) = Some n1" "shape_of n1 = with_parent (Some i) s"
    using holds_at [OF h, of "gid g1" "with_parent (Some i) s"] top by auto
  then have parent: "nd_parent n1 = Some i" by (cases s) (simp add: shape_of_def)
  let ?n = "n\<lparr>nd_keys := lk @ key # rk, nd_children := map gid lg @ gid g1 # gid g2 # map gid rg\<rparr>"
  let ?t1 = "bt_put i ?n t"
  have "holds ?t1 ((i, ?new) # ?rest)"
    by (rule holds_put [OF h]) (use n in \<open>simp add: shape_of_def\<close>)
  then have "holds ?t1 (nodes q g2 @ (i, ?new) # concat (map (nodes (Some i)) (lg @ rg)) @ cnodes c i @ nodes (Some i) g1)"
    by (subst holds_perm [where ns' = "(i, ?new) # ?rest"]) simp_all
  from reparent [OF this, of "Some i"] obtain t2 where t2:
    "bt_mod (gid g2) (\<lambda>n. n\<lparr>nd_parent := Some i\<rparr>) ?t1 = Some t2"
    "holds t2 (nodes (Some i) g2 @ (i, ?new) # concat (map (nodes (Some i)) (lg @ rg)) @ cnodes c i @ nodes (Some i) g1)"
    "same_links ?t1 t2" "same_meta ?t1 t2" "bt_root t2 = bt_root ?t1" by blast
  have "holds t2 (cnodes c i @ nodes (parent_of c) G)"
    using t2(2) by (subst holds_perm [where ns' = "nodes (Some i) g2 @ (i, ?new) # concat (map (nodes (Some i)) (lg @ rg))
      @ cnodes c i @ nodes (Some i) g1"]) (simp_all add: G_def)
  moreover have child: "find_child_position t n key = length lk"
    using n pos len by (simp add: find_child_position_def bt_is_less_Asc [OF asc])
  have keys: "vec_insert_at (length lk) key (lk @ rk) = Some (lk @ key # rk)"
    by (simp add: vec_insert_at_def vec_insert_def)
  have children: "vec_insert_at (length lk + 1) (gid g2) (map gid lg @ gid g1 # map gid rg)
      = Some (map gid lg @ gid g1 # gid g2 # map gid rg)"
    using len by (simp add: vec_insert_at_def vec_insert_def)
  have order: "bt_order t2 = bt_order t" using t2(4) by (simp add: same_meta_def)
  have "insert_into_parent (gid g1) key (gid g2) t =
      (if length (lk @ key # rk) \<ge> bt_order t
       then do { (k, j, t) \<leftarrow> split_internal_node i t2; insert_into_parent i k j t } else Some t2)"
    using n1(1) parent n(1) child keys children n(3,5) t2(1) order
    by (subst insert_into_parent.simps) (simp add: Let_def)
  moreover have "same_links t t2"
    using same_links_put [OF n(1), of ?n] t2(3) same_links_trans by (metis (no_types, lifting) bnode.select_convs(4,5) bnode.surjective bnode.update_convs(1,3))
  moreover have "same_meta t t2" "bt_root t2 = bt_root t" using t2(4,5) by (simp_all add: same_meta_def)
  ultimately show ?thesis by blast
qed

lemma insert_into_parent_spec:
  fixes t :: "'k::linorder btree"
  assumes "holds t (cnodes c (gid g1) @ nodes (parent_of c) g1 @ nodes (parent_of c) g2)"
    and "bal n g1" "bal n g2" "cbal c n" "bt_comparator t = Asc" "3 \<le> bt_order t"
    and "ordered (lsp c @ spine g1 @ Sep key # spine g2 @ rsp c)" "bt_root t = gid (plug c g1)"
  shows "\<exists>t'. insert_into_parent (gid g1) key (gid g2) t = Some t'
    \<and> represents t' (lsp c @ spine g1 @ Sep key # spine g2 @ rsp c) \<and> same_links t t' \<and> same_meta t t'"
  using assms
proof (induction c arbitrary: t g1 g2 n key)
  case Nil
  then show ?case using new_root_spec [of t g1 g2 n key] by simp
next
  case (Cons f c)
  obtain i lk lg rk rg where f: "f = Frame i lk lg rk rg" by (cases f)
  have len: "length lg = length lk" "length rg = length rk" and cb: "cbal c (Suc n)"
    and sub: "list_all (bal n) lg" "list_all (bal n) rg"
    using Cons.prems(4) f by auto
  define ks gs where "ks = lk @ key # rk" and "gs = lg @ g1 # g2 # rg"
  let ?G = "GNode i ks gs"
  note pos = frame_position [OF Cons.prems(7) [unfolded f] len]
  have h: "holds t (cnodes (Frame i lk lg rk rg # c) (gid g1) @ nodes (Some i) g1 @ nodes (Some i) g2)"
    using Cons.prems(1) f by simp
  obtain t1 where t1: "holds t1 (cnodes c i @ nodes (parent_of c) ?G)" "same_links t t1" "same_meta t t1" "bt_root t1 = bt_root t"
    and run: "insert_into_parent (gid g1) key (gid g2) t =
        (if length ks \<ge> bt_order t
         then do { (k, j, t) \<leftarrow> split_internal_node i t1; insert_into_parent i k j t } else Some t1)"
    using parent_takes_child [OF h len pos Cons.prems(5)] by (auto simp: ks_def gs_def)
  have gs: "length gs = Suc (length ks)" "list_all (bal n) gs" "ks \<noteq> []"
    using len sub Cons.prems(2,3) by (auto simp: ks_def gs_def)
  have spG: "spine ?G = lweave lk (map spine lg) @ spine g1 @ Sep key # spine g2 @ rweave rk (map spine rg)"
    using spine_node [of lk lg "key # rk" "g2 # rg" i g1] len by (simp add: ks_def gs_def)
  have root: "bt_root t1 = gid (plug c (GNode i ks' gs'))" for ks' gs'
    using Cons.prems(8) f t1(4) gid_plug_cong [of "GNode i ks' gs'" "GNode i (lk @ rk) (lg @ g1 # rg)" c] by simp
  show ?case
  proof (cases "length ks \<ge> bt_order t")
    case False
    have "represents t1 (lsp (f # c) @ spine g1 @ Sep key # spine g2 @ rsp (f # c))"
      by (rule represents_plugI [OF _ cb, where g = ?G]) (use t1 gs spG f root in auto)
    then show ?thesis using run False t1 by auto
  next
    case True
    let ?mid = "length ks div 2"
    let ?G1 = "GNode i (take ?mid ks) (take (Suc ?mid) gs)"
    have h1: "holds t1 (nodes (parent_of c) ?G @ cnodes c i)"
      using t1(1) by (subst holds_perm [where ns' = "cnodes c i @ nodes (parent_of c) ?G"]) simp_all
    obtain t2 j where t2: "split_internal_node i t1 = Some (ks ! ?mid, j, t2)"
      "holds t2 (nodes (parent_of c) ?G1 @ nodes (parent_of c) (GNode j (drop (Suc ?mid) ks) (drop (Suc ?mid) gs)) @ cnodes c i)"
      "same_links t1 t2" "same_meta t1 t2" "bt_root t2 = bt_root t1"
      using split_internal_spec [OF h1 gs(1,3)] by blast
    let ?G2 = "GNode j (drop (Suc ?mid) ks) (drop (Suc ?mid) gs)"
    have three: "3 \<le> length ks" using True Cons.prems(6) by simp
    have mid: "?mid < length ks" "0 < ?mid" "Suc ?mid < length ks" using three by auto
    have sp: "lsp (f # c) @ spine g1 @ Sep key # spine g2 @ rsp (f # c) = lsp c @ spine ?G1 @ Sep (ks ! ?mid) # spine ?G2 @ rsp c"
      using spG split_spine [OF gs(1) mid(1), of i j] f by simp
    have "holds t2 (cnodes c (gid ?G1) @ nodes (parent_of c) ?G1 @ nodes (parent_of c) ?G2)"
      using t2(2) by (subst holds_perm [where ns' = "nodes (parent_of c) ?G1 @ nodes (parent_of c) ?G2 @ cnodes c i"]) simp_all
    moreover have "bal (Suc n) ?G1" "bal (Suc n) ?G2"
      using gs mid by (auto simp: list_all_take list_all_drop)
    moreover have "bt_comparator t2 = Asc" "3 \<le> bt_order t2"
      using t1(3) t2(4) Cons.prems(5,6) by (simp_all add: same_meta_def)
    moreover have "ordered (lsp c @ spine ?G1 @ Sep (ks ! ?mid) # spine ?G2 @ rsp c)"
      using Cons.prems(7) unfolding sp .
    moreover have "bt_root t2 = gid (plug c ?G1)" using root t2(5) by metis
    ultimately obtain t3 where t3: "insert_into_parent (gid ?G1) (ks ! ?mid) (gid ?G2) t2 = Some t3"
      "represents t3 (lsp c @ spine ?G1 @ Sep (ks ! ?mid) # spine ?G2 @ rsp c)" "same_links t2 t3" "same_meta t2 t3"
      using Cons.IH cb by blast
    have "insert_into_parent (gid g1) key (gid g2) t = Some t3" using run True t2(1) t3(1) by simp
    then show ?thesis
      using t1 t2 t3 sp by (metis same_links_trans same_meta_trans)
  qed
qed

end
