(* ===== verification/Cynos_Btree_Ops.thy ===== *)
theory Cynos_Btree_Ops
  imports Cynos_Btree_Grow
begin

text \<open>
  The invariant of the B+ tree and what lookup and insertion do to the entries it holds: the keys in order, each with
  its row ids.
\<close>

section \<open>Entries and leaves of a spine\<close>

fun item_leaf :: "'k item \<Rightarrow> nat list" where
  "item_leaf (Leaf i kvs) = [i]"
| "item_leaf (Sep k) = []"

fun item_entries :: "'k item \<Rightarrow> ('k \<times> row_id list) list" where
  "item_entries (Leaf i kvs) = kvs"
| "item_entries (Sep k) = []"

definition leaf_ids :: "'k item list \<Rightarrow> nat list" where
  "leaf_ids sp = concat (map item_leaf sp)"

definition entries :: "'k item list \<Rightarrow> ('k \<times> row_id list) list" where
  "entries sp = concat (map item_entries sp)"

lemma leaf_ids_simps [simp]:
  "leaf_ids [] = []" "leaf_ids (Leaf i kvs # sp) = i # leaf_ids sp" "leaf_ids (Sep k # sp) = leaf_ids sp"
  "leaf_ids (sp @ sp') = leaf_ids sp @ leaf_ids sp'"
  by (simp_all add: leaf_ids_def)

lemma entries_simps [simp]:
  "entries [] = []" "entries (Leaf i kvs # sp) = kvs @ entries sp" "entries (Sep k # sp) = entries sp"
  "entries (sp @ sp') = entries sp @ entries sp'"
  by (simp_all add: entries_def)

lemma seq_entries: "filter snd (seq sp) = map (\<lambda>e. (fst e, True)) (entries sp)"
proof (induction sp)
  case (Cons x sp)
  then show ?case by (cases x) (auto simp: filter_map comp_def)
qed simp

lemma entry_in_seq: "e \<in> set (entries sp) \<Longrightarrow> (fst e, True) \<in> set (seq sp)"
proof -
  assume "e \<in> set (entries sp)"
  then have "(fst e, True) \<in> set (filter snd (seq sp))" unfolding seq_entries by auto
  then show ?thesis by auto
qed

lemma ordered_entries: "ordered sp \<Longrightarrow> sorted_wrt (<) (map fst (entries sp))"
proof -
  assume "ordered sp"
  then have "sorted_wrt plt (filter snd (seq sp))" unfolding ordered_def by (rule sorted_wrt_filter)
  then show ?thesis unfolding seq_entries by (simp add: sorted_wrt_map)
qed

lemma left_of_entries: "left_of sp key \<Longrightarrow> e \<in> set (entries sp) \<Longrightarrow> fst e < key"
  using entry_in_seq [of e sp] unfolding left_of_def by fastforce

lemma right_of_entries: "right_of sp key \<Longrightarrow> e \<in> set (entries sp) \<Longrightarrow> key < fst e"
  using entry_in_seq [of e sp] unfolding right_of_def by fastforce

section \<open>The invariant\<close>

text \<open>Only the root may be a leaf without keys.\<close>

definition full :: "'k item list \<Rightarrow> bool" where
  "full sp \<longleftrightarrow> (\<forall>i kvs. Leaf i kvs \<in> set sp \<longrightarrow> kvs \<noteq> []) \<or> (\<exists>i. sp = [Leaf i []])"

definition entry_rows :: "('k \<times> row_id list) list \<Rightarrow> nat" where
  "entry_rows kvs = sum_list (map (\<lambda>e. length (snd e)) kvs)"

lemma entry_rows_simps [simp]:
  "entry_rows [] = 0" "entry_rows ((k, vs) # kvs) = length vs + entry_rows kvs"
  "entry_rows (kvs @ kvs') = entry_rows kvs + entry_rows kvs'"
  by (simp_all add: entry_rows_def)

definition bt_ok :: "'k::linorder btree \<Rightarrow> 'k item list \<Rightarrow> bool" where
  "bt_ok t sp \<longleftrightarrow> represents t sp \<and> ordered sp \<and> linked t None (leaf_ids sp) None \<and> full sp
     \<and> (\<forall>e \<in> set (entries sp). snd e \<noteq> []) \<and> bt_comparator t = Asc \<and> 3 \<le> bt_order t
     \<and> is_total_rows (bt_stats t) = of_nat (entry_rows (entries sp))"

text \<open>A leaf, with the path to it.\<close>

definition at_leaf :: "'k::linorder btree \<Rightarrow> 'k frame list \<Rightarrow> nat \<Rightarrow> ('k \<times> row_id list) list \<Rightarrow> 'k bnode \<Rightarrow> bool" where
  "at_leaf t c i kvs n \<longleftrightarrow> holds t (cnodes c i @ nodes (parent_of c) (GLeaf i kvs)) \<and> cbal c 0
     \<and> bt_root t = gid (plug c (GLeaf i kvs)) \<and> bt_at t i = Some n \<and> nd_is_leaf n \<and> nd_keys n = map fst kvs
     \<and> nd_values n = map snd kvs \<and> nd_children n = [] \<and> nd_parent n = parent_of c"

lemma find_leaf_spec:
  fixes t :: "'k::linorder btree"
  assumes "represents t sp" "ordered sp" "bt_comparator t = Asc"
  shows "\<exists>c i kvs n. find_leaf t key = Some i \<and> sp = lsp c @ Leaf i kvs # rsp c \<and> at_leaf t c i kvs n
    \<and> left_of (lsp c) key \<and> right_of (rsp c) key"
proof -
  obtain g m where g: "holds t (nodes None g)" "bal m g" "bt_root t = gid g" "spine g = sp"
    using assms(1) by (auto simp: represents_def)
  have h: "holds t (cnodes [] (gid g) @ nodes (parent_of []) g)" using g(1) by simp
  have ord: "ordered (lsp [] @ spine g @ rsp [])" using assms(2) g(4) by simp
  obtain c i kvs where path: "find_leaf_from t key (gid g) = Some i" "g = plug c (GLeaf i kvs)" "cbal c 0"
      "left_of (lsp c) key" "right_of (rsp c) key"
    using find_leaf_from_path [OF h g(2) _ assms(3) ord, of key] by auto
  have at: "holds t (cnodes c i @ nodes (parent_of c) (GLeaf i kvs))"
    using g(1) path(2) holds_plug [of t c "GLeaf i kvs"] by simp
  then obtain n where "bt_at t i = Some n" "nd_is_leaf n" "nd_keys n = map fst kvs" "nd_values n = map snd kvs"
      "nd_children n = []" "nd_parent n = parent_of c"
    using node_shape_at [OF at, of i True "map fst kvs" "map snd kvs" "[]" "parent_of c"] by auto
  moreover have "sp = lsp c @ Leaf i kvs # rsp c" using g(4) path(2,3) spine_plug [of c 0 "GLeaf i kvs"] by simp
  ultimately show ?thesis using at path g(3) by (auto simp: find_leaf_def at_leaf_def)
qed

section \<open>A leaf as a sorted vector\<close>

lemma leaf_keys_sorted:
  assumes "ordered (l @ Leaf i kvs # r)"
  shows "sorted_wrt (<) (map fst kvs)"
proof -
  have "sorted_wrt plt (map (\<lambda>e. (fst e, True)) kvs)" using assms by (simp add: ordered_def sorted_wrt_append)
  then show ?thesis by (simp add: sorted_wrt_map)
qed

lemma leaf_parts:
  fixes kvs :: "('k::linorder \<times> row_id list) list"
  assumes "sorted_wrt (<) (map fst kvs)"
  obtains kl kr where "kvs = kl @ kr" "\<forall>e \<in> set kl. fst e < key" "\<forall>e \<in> set kr. key \<le> fst e"
    "partition_point (\<lambda>k. k < key) (map fst kvs) = length kl"
proof
  show "kvs = takeWhile (\<lambda>e. fst e < key) kvs @ dropWhile (\<lambda>e. fst e < key) kvs" by simp
  show "\<forall>e \<in> set (takeWhile (\<lambda>e. fst e < key) kvs). fst e < key" by (auto dest: set_takeWhileD)
  show "partition_point (\<lambda>k. k < key) (map fst kvs) = length (takeWhile (\<lambda>e. fst e < key) kvs)"
    by (simp add: partition_point_def takeWhile_map comp_def)
  show "\<forall>e \<in> set (dropWhile (\<lambda>e. fst e < key) kvs). key \<le> fst e"
    using assms by (induction kvs) auto
qed

text \<open>The entry of a key found, or the place where it belongs.\<close>

lemma leaf_find:
  fixes kvs :: "('k::linorder \<times> row_id list) list"
  assumes sorted: "sorted_wrt (<) (map fst kvs)" and n: "nd_keys n = map fst kvs"
  obtains (found) kl vs kr where "kvs = kl @ (key, vs) # kr" "find_key key n = Some (length kl)"
      "find_key_position key n = length kl" "\<forall>e \<in> set kl. fst e < key" "\<forall>e \<in> set kr. key < fst e"
    | (absent) kl kr where "kvs = kl @ kr" "find_key key n = None" "find_key_position key n = length kl"
      "\<forall>e \<in> set kl. fst e < key" "\<forall>e \<in> set kr. key < fst e"
proof -
  obtain kl kr where parts: "kvs = kl @ kr" "\<forall>e \<in> set kl. fst e < key" "\<forall>e \<in> set kr. key \<le> fst e"
    "partition_point (\<lambda>k. k < key) (map fst kvs) = length kl"
    using leaf_parts [OF sorted] .
  then have pos: "find_key_position key n = length kl" using n by (simp add: find_key_position_def)
  show ?thesis
  proof (cases "\<exists>vs kr'. kr = (key, vs) # kr'")
    case True
    then obtain vs kr' where kr: "kr = (key, vs) # kr'" by blast
    then have "\<forall>e \<in> set kr'. key < fst e" using sorted parts(1) by (auto simp: sorted_wrt_append)
    moreover have "find_key key n = Some (length kl)" using pos parts(1) kr n by (simp add: find_key_def nth_append)
    ultimately show ?thesis using found parts kr pos by blast
  next
    case False
    have "\<forall>e \<in> set kr. key < fst e"
    proof (cases kr)
      case (Cons e kr')
      then have "key \<noteq> fst e" using False by (cases e) auto
      then have "key < fst e" using parts(3) Cons by auto
      then show ?thesis using sorted parts(1) Cons by (force simp: sorted_wrt_append)
    qed simp
    moreover then have "find_key key n = None"
      using pos parts(1) n by (cases kr) (auto simp: find_key_def nth_append)
    ultimately show ?thesis using absent parts pos by blast
  qed
qed

lemma map_of_around:
  "\<forall>e \<in> set kl. fst e < key \<Longrightarrow> \<forall>e \<in> set kr. key < fst e \<Longrightarrow> map_of (kl @ kvs @ kr) key = map_of kvs (key :: 'k::linorder)"
proof -
  assume "\<forall>e \<in> set kl. fst e < key" "\<forall>e \<in> set kr. key < fst e"
  then have "key \<notin> fst ` set kl" "key \<notin> fst ` set kr" by auto
  then have "map_of kl key = None" "map_of kr key = None" by (simp_all add: map_of_eq_None_iff)
  then show ?thesis by (simp add: map_add_def split: option.split)
qed

text \<open>The row ids of a key.\<close>

definition rows_at :: "('k \<times> row_id list) list \<Rightarrow> 'k \<Rightarrow> row_id list" where
  "rows_at kvs key = (case map_of kvs key of Some vs \<Rightarrow> vs | None \<Rightarrow> [])"

lemma rows_at_leaf:
  assumes "left_of l key" "right_of r key"
  shows "map_of (entries (l @ Leaf i kvs # r)) key = map_of kvs key"
  using map_of_around [of "entries l" key "entries r" kvs] left_of_entries [OF assms(1)] right_of_entries [OF assms(2)]
  by simp

lemma bt_get_result:
  assumes "represents t sp" "ordered sp" "bt_comparator t = Asc"
  shows "bt_get key t = Some (rows_at (entries sp) key)"
    and "bt_contains_key key t = Some (map_of (entries sp) key \<noteq> None)"
proof -
  obtain c i kvs n where leaf: "find_leaf t key = Some i" "sp = lsp c @ Leaf i kvs # rsp c" "at_leaf t c i kvs n"
    "left_of (lsp c) key" "right_of (rsp c) key"
    using find_leaf_spec [OF assms] by metis
  have sorted: "sorted_wrt (<) (map fst kvs)" using assms(2) leaf(2) leaf_keys_sorted by blast
  have m: "map_of (entries sp) key = map_of kvs key" using rows_at_leaf [OF leaf(4,5)] leaf(2) by simp
  have n: "bt_at t i = Some n" "nd_keys n = map fst kvs" "nd_values n = map snd kvs"
    using leaf(3) by (simp_all add: at_leaf_def)
  show "bt_get key t = Some (rows_at (entries sp) key)" "bt_contains_key key t = Some (map_of (entries sp) key \<noteq> None)"
  proof (atomize (full), cases rule: leaf_find [OF sorted n(2), of key, case_names found absent])
    case (found kl vs kr)
    have "map_of kvs key = Some vs" using found map_of_around [of kl key kr "[(key, vs)]"] by simp
    then show "bt_get key t = Some (rows_at (entries sp) key) \<and> bt_contains_key key t = Some (map_of (entries sp) key \<noteq> None)"
      using leaf(1) n found m by (simp add: bt_get_def bt_contains_key_def vec_at_def rows_at_def nth_append)
  next
    case (absent kl kr)
    have "map_of kvs key = None" using absent map_of_around [of kl key kr "[]"] by simp
    then show "bt_get key t = Some (rows_at (entries sp) key) \<and> bt_contains_key key t = Some (map_of (entries sp) key \<noteq> None)"
      using leaf(1) n(1) absent(2) m by (simp add: bt_get_def bt_contains_key_def rows_at_def)
  qed
qed

section \<open>Changing a leaf\<close>

text \<open>Append row ids to a key, which enters at its place.\<close>

fun upsert :: "'k::linorder \<Rightarrow> row_id list \<Rightarrow> ('k \<times> row_id list) list \<Rightarrow> ('k \<times> row_id list) list" where
  "upsert key vs [] = [(key, vs)]"
| "upsert key vs ((k, ws) # kvs) =
     (if k < key then (k, ws) # upsert key vs kvs
      else if k = key then (k, ws @ vs) # kvs else (key, vs) # (k, ws) # kvs)"

lemma upsert_found:
  "\<forall>e \<in> set kl. fst e < key \<Longrightarrow> upsert key vs (kl @ (key, ws) # kr) = kl @ (key, ws @ vs) # kr"
  by (induction kl) auto

lemma upsert_absent:
  "\<forall>e \<in> set kl. fst e < key \<Longrightarrow> \<forall>e \<in> set kr. key < fst e \<Longrightarrow> upsert key vs (kl @ kr) = kl @ (key, vs) # kr"
proof (induction kl)
  case Nil
  then show ?case by (cases kr) auto
qed auto

lemma upsert_not_Nil [simp]: "upsert key vs kvs \<noteq> []"
  by (cases kvs) (auto split: if_splits)

lemma upsert_simps [simp]:
  "fst ` set (upsert key vs kvs) = insert key (fst ` set kvs)"
  "entry_rows (upsert key vs kvs) = entry_rows kvs + length vs"
proof (induction kvs)
  case (Cons e kvs)
  {
    case 1
    then show ?case using Cons.IH(1) by (cases e) (simp add: insert_commute)
  next
    case 2
    then show ?case using Cons.IH(2) by (cases e) simp
  }
qed simp_all

lemma upsert_rows: "rows_at (upsert key vs kvs) k = (if k = key then rows_at kvs key @ vs else rows_at kvs k)"
  if "sorted_wrt (<) (map fst kvs)"
  using that
proof (induction kvs)
  case (Cons e kvs)
  have "map_of kvs key = None" if "\<not> fst e < key"
    using that Cons.prems by (force simp: map_of_eq_None_iff)
  then show ?case using Cons by (cases e) (auto simp: rows_at_def)
qed (simp add: rows_at_def)

lemma upsert_sorted: "sorted_wrt (<) (map fst kvs) \<Longrightarrow> sorted_wrt (<) (map fst (upsert key vs kvs))"
proof (induction kvs)
  case (Cons e kvs)
  then show ?case by (cases e) auto
qed simp

lemma upsert_around:
  "\<forall>e \<in> set l. fst e < key \<Longrightarrow> \<forall>e \<in> set r. key < fst e \<Longrightarrow> upsert key vs (l @ kvs @ r) = l @ upsert key vs kvs @ r"
proof (induction l)
  case Nil
  then show ?case
  proof (induction kvs)
    case Nil
    then show ?case by (cases r) auto
  qed auto
qed auto

lemma node_insert_upsert:
  assumes "sorted_wrt (<) (map fst kvs)" "nd_keys n = map fst kvs" "nd_values n = map snd kvs"
  shows "node_insert_at (find_key_position key n) key v n
    = Some (n\<lparr>nd_keys := map fst (upsert key [v] kvs), nd_values := map snd (upsert key [v] kvs)\<rparr>)"
proof (cases rule: leaf_find [OF assms(1,2), of key, case_names found absent])
  case (found kl ws kr)
  have "n\<lparr>nd_values := vs\<rparr> = n\<lparr>nd_keys := map fst kl @ key # map fst kr, nd_values := vs\<rparr>" for vs
    using found(1) assms(2) by simp
  then show ?thesis
    using found assms(2,3) upsert_found [of kl key "[v]" ws kr]
    by (simp add: node_insert_at_def vec_at_def nth_append list_update_append)
next
  case (absent kl kr)
  have "length kl < length (nd_keys n) \<Longrightarrow> nd_keys n ! length kl \<noteq> key"
    using absent(1,5) assms(2) by (cases kr) (auto simp: nth_append)
  then show ?thesis
    using absent assms(2,3) upsert_absent [of kl key kr "[v]"]
    by (auto simp: node_insert_at_def vec_insert_at_def vec_insert_def)
qed

text \<open>A leaf with other entries, at the same place.\<close>

lemma leaf_put:
  assumes "at_leaf t c i kvs n"
  shows "at_leaf (bt_put i (n\<lparr>nd_keys := map fst kvs', nd_values := map snd kvs'\<rparr>) t) c i kvs'
      (n\<lparr>nd_keys := map fst kvs', nd_values := map snd kvs'\<rparr>)" (is "at_leaf ?t c i kvs' ?n")
    and "same_links t (bt_put i (n\<lparr>nd_keys := map fst kvs', nd_values := map snd kvs'\<rparr>) t)"
    and "same_meta t (bt_put i (n\<lparr>nd_keys := map fst kvs', nd_values := map snd kvs'\<rparr>) t)"
proof -
  let ?s = "Shape True (map fst kvs) (map snd kvs) [] (parent_of c)"
  let ?s' = "Shape True (map fst kvs') (map snd kvs') [] (parent_of c)"
  have n: "bt_at t i = Some n" using assms by (simp add: at_leaf_def)
  have "holds t ((i, ?s) # cnodes c i)"
    using assms by (subst holds_perm [where ns' = "cnodes c i @ [(i, ?s)]"]) (simp_all add: at_leaf_def)
  then have "holds ?t ((i, ?s') # cnodes c i)"
    by (rule holds_put) (use assms in \<open>simp add: shape_of_def at_leaf_def\<close>)
  then have "holds ?t (cnodes c i @ nodes (parent_of c) (GLeaf i kvs'))"
    by (subst holds_perm [where ns' = "(i, ?s') # cnodes c i"]) simp_all
  then show "at_leaf ?t c i kvs' ?n"
    using assms gid_plug_cong [of "GLeaf i kvs'" "GLeaf i kvs" c] by (simp add: at_leaf_def bt_at_put)
  show "same_links t ?t" by (rule same_links_put [OF n]) simp_all
  show "same_meta t ?t" by simp
qed

lemma at_leaf_represents: "at_leaf t c i kvs n \<Longrightarrow> represents t (lsp c @ Leaf i kvs # rsp c)"
  unfolding at_leaf_def by (rule represents_plugI [where g = "GLeaf i kvs" and n = 0]) auto

lemma ordered_upsert:
  assumes "ordered (l @ Leaf i kvs # r)" "left_of l key" "right_of r key"
  shows "ordered (l @ Leaf i (upsert key vs kvs) # r)"
proof -
  have sorted: "sorted_wrt plt (map (\<lambda>e. (fst e, True)) (upsert key vs kvs))"
    using upsert_sorted [OF leaf_keys_sorted [OF assms(1)], of key vs] by (simp add: sorted_wrt_map)
  have mem: "x \<in> set (map (\<lambda>e. (fst e, True)) (upsert key vs kvs)) \<longleftrightarrow>
      x = (key, True) \<or> x \<in> set (map (\<lambda>e. (fst e, True)) kvs)" for x
  proof -
    have "x \<in> set (map (\<lambda>e. (fst e, True)) xs) \<longleftrightarrow> snd x \<and> fst x \<in> set (map fst xs)" for xs :: "('a \<times> row_id list) list"
      by (cases x) auto
    then show ?thesis by (cases x) auto
  qed
  have "left_of l key" "right_of r key" by (rule assms)+
  then show ?thesis
    using assms(1) sorted unfolding ordered_def seq_simps sorted_wrt_append Ball_def set_append Un_iff mem
    by (auto simp: left_of_def right_of_def simp del: plt.simps set_map)
qed

section \<open>The chain of leaves\<close>

lemma leaf_ids_rweave:
  "(\<And>g. g \<in> set gs \<Longrightarrow> mset (leaf_ids (spine g)) \<subseteq># mset (map fst (nodes p g))) \<Longrightarrow>
     mset (leaf_ids (rweave ks (map spine gs))) \<subseteq># mset (map fst (concat (map (nodes p) gs)))"
proof (induction gs arbitrary: ks)
  case (Cons g gs)
  show ?case
  proof (cases ks)
    case (Cons k ks')
    have "mset (leaf_ids (spine g)) \<subseteq># mset (map fst (nodes p g))"
      "mset (leaf_ids (rweave ks' (map spine gs))) \<subseteq># mset (map fst (concat (map (nodes p) gs)))"
      using Cons.prems Cons.IH [of ks'] by auto
    then have "mset (leaf_ids (spine g)) + mset (leaf_ids (rweave ks' (map spine gs)))
        \<subseteq># mset (map fst (nodes p g)) + mset (map fst (concat (map (nodes p) gs)))"
      by (rule subset_mset.add_mono)
    then show ?thesis using Cons by simp
  qed simp
qed (simp add: rweave_def)

lemma leaf_ids_nodes: "mset (leaf_ids (spine g)) \<subseteq># mset (map fst (nodes p g))"
proof (induction g arbitrary: p)
  case (GNode i ks gs)
  show ?case
  proof (cases gs)
    case (Cons g gs')
    have "mset (leaf_ids (spine g)) \<subseteq># mset (map fst (nodes (Some i) g))" using GNode Cons by simp
    moreover have "mset (leaf_ids (rweave ks (map spine gs'))) \<subseteq># mset (map fst (concat (map (nodes (Some i)) gs')))"
      by (rule leaf_ids_rweave) (use GNode Cons in simp)
    ultimately have "mset (leaf_ids (spine g)) + mset (leaf_ids (rweave ks (map spine gs')))
        \<subseteq># mset (map fst (nodes (Some i) g)) + mset (map fst (concat (map (nodes (Some i)) gs')))"
      by (rule subset_mset.add_mono)
    also have "\<dots> \<subseteq># mset (map fst (nodes p (GNode i ks gs)))" using Cons by simp
    finally show ?thesis using Cons by simp
  qed simp
qed simp

lemma distinct_sub: "mset xs \<subseteq># mset ys \<Longrightarrow> distinct ys \<Longrightarrow> distinct xs"
  by (metis mset_subset_eq_exists_conv ex_mset mset_append mset_eq_imp_distinct_iff distinct_append)

lemma leaf_ids_distinct: "represents t sp \<Longrightarrow> distinct (leaf_ids sp)"
proof -
  assume "represents t sp"
  then obtain g where "holds t (nodes None g)" "spine g = sp" by (auto simp: represents_def)
  then have "distinct (map fst (nodes None g))" "mset (leaf_ids sp) \<subseteq># mset (map fst (nodes None g))"
    using leaf_ids_nodes [of g None] by (auto simp: holds_def)
  then show ?thesis using distinct_sub by blast
qed

lemma represents_at: "represents t sp \<Longrightarrow> i \<in> set (leaf_ids sp) \<Longrightarrow> bt_at t i \<noteq> None"
proof -
  assume r: "represents t sp" and i: "i \<in> set (leaf_ids sp)"
  then obtain g where g: "holds t (nodes None g)" "spine g = sp" by (auto simp: represents_def)
  then have "i \<in> set (map fst (nodes None g))"
    using i leaf_ids_nodes [of g None] by (metis mset_subset_eqD set_mset_mset)
  then show ?thesis using g(1) by (fastforce simp: holds_def node_shape_def)
qed

text \<open>Changing only links.\<close>

lemma mod_links:
  assumes "\<And>n. shape_of (f n) = shape_of n" "bt_at t k = Some n"
  shows "bt_mod k f t = Some (bt_put k (f n) t)" "holds (bt_put k (f n) t) ns = holds t ns"
proof -
  show "bt_mod k f t = Some (bt_put k (f n) t)" using assms(2) by (simp add: bt_mod_def)
  have "node_shape (bt_put k (f n) t) j = node_shape t j" for j
    using assms by (auto simp: node_shape_put) (auto simp: node_shape_def)
  then show "holds (bt_put k (f n) t) ns = holds t ns" by (simp add: holds_def)
qed

lemma shape_of_links [simp]: "shape_of (n\<lparr>nd_next := x\<rparr>) = shape_of n" "shape_of (n\<lparr>nd_prev := x\<rparr>) = shape_of n"
  by (simp_all add: shape_of_def)

section \<open>Splitting a leaf\<close>

lemma same_links_at: "same_links t t' \<Longrightarrow> bt_at t i = Some n \<Longrightarrow>
    \<exists>n'. bt_at t' i = Some n' \<and> nd_next n' = nd_next n \<and> nd_prev n' = nd_prev n"
  by (simp add: same_links_def)

text \<open>The links after a new leaf is put right of a leaf.\<close>

lemma linked_insert_right:
  assumes chain: "linked t None (ls @ i # rs) None" and dist: "distinct (ls @ i # rs)" and fresh: "j \<notin> set (ls @ i # rs)"
    and j: "bt_at t j = Some nj" "nd_prev nj = Some i" "nd_next nj = first_of rs None"
    and n: "bt_at t i = Some n"
  defines "t1 \<equiv> (case rs of [] \<Rightarrow> t | r # _ \<Rightarrow> bt_put r ((the (bt_at t r))\<lparr>nd_prev := Some j\<rparr>) t)"
  shows "linked (bt_put i (n\<lparr>nd_next := Some j\<rparr>) t1) None (ls @ i # j # rs) None"
proof -
  have parts: "linked t None ls (Some i)" "nd_prev n = last_of None ls" "linked t (Some i) rs None"
    using chain n by (auto simp: linked_append)
  have ne: "i \<noteq> j" "j \<notin> set ls" "j \<notin> set rs" "i \<notin> set ls" "i \<notin> set rs" using dist fresh by auto
  have l1: "linked t1 None ls (Some i)" and j1: "bt_at t1 j = Some nj" and i1: "bt_at t1 i = Some n"
    using parts(1) dist ne j n by (auto simp: t1_def linked_put bt_at_put split: list.split)
  have r1: "linked t1 (Some j) rs None"
  proof (cases rs)
    case (Cons r rs')
    then obtain nr where nr: "bt_at t r = Some nr" "nd_next nr = first_of rs' None" "linked t (Some r) rs' None"
      using parts(3) by auto
    have "r \<notin> set rs'" using dist Cons by simp
    then show ?thesis using Cons nr by (simp add: t1_def bt_at_put linked_put)
  qed simp
  let ?t2 = "bt_put i (n\<lparr>nd_next := Some j\<rparr>) t1"
  have "linked ?t2 None ls (Some i)" "linked ?t2 (Some j) rs None"
    using l1 r1 ne by (simp_all add: linked_put)
  then show ?thesis using parts(2) j j1 i1 ne by (auto simp: linked_append bt_at_put)
qed

lemma sorted_insert_sep:
  assumes s: "sorted_wrt plt (xs @ (a, True) # (k, True) # ys)"
  shows "sorted_wrt plt (xs @ (a, True) # (k, False) # (k, True) # ys)"
proof -
  have "plt (a, True) (k, True)" using s by (simp add: sorted_wrt_append del: plt.simps)
  then have e: "plt (a, True) (k, False)" by simp
  have "plt x (k, False)" if "x \<in> set xs" for x
  proof (rule plt_trans [OF _ e])
    show "plt x (a, True)" using s that by (simp add: sorted_wrt_append del: plt.simps)
  qed
  moreover have "plt (k, False) x" if "x \<in> set ys" for x
  proof (rule plt_trans)
    show "plt (k, False) (k, True)" by simp
    show "plt (k, True) x" using s that by (simp add: sorted_wrt_append del: plt.simps)
  qed
  moreover have "plt (k, False) (k, True)" by simp
  ultimately show ?thesis using s e by (auto simp: sorted_wrt_append simp del: plt.simps)
qed

lemma ordered_split_leaf:
  assumes "ordered (l @ Leaf i (kvl @ (k, vs) # kvr) # r)" "kvl \<noteq> []"
  shows "ordered (l @ Leaf i kvl # Sep k # Leaf j ((k, vs) # kvr) # r)"
proof -
  obtain kvl' e where kvl: "kvl = kvl' @ [e]" using assms(2) by (cases kvl rule: rev_cases) auto
  let ?xs = "seq l @ map (\<lambda>e. (fst e, True)) kvl'" and ?ys = "map (\<lambda>e. (fst e, True)) kvr @ seq r"
  have "sorted_wrt plt (?xs @ (fst e, True) # (k, True) # ?ys)"
    using assms(1) kvl by (simp add: ordered_def)
  from sorted_insert_sep [OF this] show ?thesis using kvl by (simp add: ordered_def)
qed

lemma split_leaf_spec:
  fixes t :: "'k::linorder btree"
  assumes leaf: "at_leaf t c i kvs n" and len: "2 \<le> length kvs" and ord: "ordered (lsp c @ Leaf i kvs # rsp c)"
    and chain: "linked t None (leaf_ids (lsp c) @ i # leaf_ids (rsp c)) None"
    and asc: "bt_comparator t = Asc" "3 \<le> bt_order t"
  defines "mid \<equiv> length kvs div 2"
  shows "\<exists>t' j. split_leaf i t = Some t'
    \<and> represents t' (lsp c @ Leaf i (take mid kvs) # Sep (fst (kvs ! mid)) # Leaf j (drop mid kvs) # rsp c)
    \<and> linked t' None (leaf_ids (lsp c) @ i # j # leaf_ids (rsp c)) None \<and> same_meta t t'"
proof -
  let ?ls = "leaf_ids (lsp c)" and ?rs = "leaf_ids (rsp c)"
  have mid: "0 < mid" "mid < length kvs" using len by (auto simp: mid_def)
  let ?kl = "take mid kvs" and ?kr = "drop mid kvs" and ?k = "fst (kvs ! mid)"
  have n: "bt_at t i = Some n" "nd_is_leaf n" "nd_keys n = map fst kvs" "nd_values n = map snd kvs"
    "nd_children n = []" "nd_parent n = parent_of c"
    using leaf by (simp_all add: at_leaf_def)
  have rep: "represents t (lsp c @ Leaf i kvs # rsp c)" by (rule at_leaf_represents [OF leaf])
  have dist: "distinct (?ls @ i # ?rs)" using leaf_ids_distinct [OF rep] by simp
  have nxt: "nd_next n = first_of ?rs None" using chain n(1) by (auto simp: linked_append)
  define n1 where "n1 = n\<lparr>nd_keys := map fst ?kl, nd_values := map snd ?kl\<rparr>"
  define t1 where "t1 = bt_put i n1 t"
  define j where "j = length (bt_arena t1)"
  define right where "right = new_leaf\<lparr>nd_keys := map fst ?kr, nd_values := map snd ?kr, nd_next := nd_next n,
    nd_prev := Some i, nd_parent := nd_parent n\<rparr>"
  define t2 where "t2 = t1\<lparr>bt_arena := bt_arena t1 @ [right]\<rparr>"
  have leaf1: "at_leaf t1 c i ?kl n1" and links1: "same_links t t1" "same_meta t t1"
    using leaf_put [OF leaf, of ?kl] by (simp_all add: t1_def n1_def)
  have fresh: "j \<notin> set (?ls @ i # ?rs)"
  proof
    assume "j \<in> set (?ls @ i # ?rs)"
    then have "bt_at t1 j \<noteq> None" using represents_at [OF at_leaf_represents [OF leaf1], of j] by simp
    then show False using bt_at_fresh [of t1] by (simp add: j_def)
  qed
  have h2: "holds t2 ((j, Shape True (map fst ?kr) (map snd ?kr) [] (parent_of c)) # cnodes c i @ nodes (parent_of c) (GLeaf i ?kl))"
    unfolding t2_def j_def using leaf1 n(6) by (intro holds_alloc) (auto simp: at_leaf_def right_def shape_of_def new_leaf_def)
  have chain2: "linked t2 None (?ls @ i # ?rs) None"
    using chain links1(1) same_links_alloc [of t1 right] unfolding t2_def by (blast intro: linked_same)
  have i2: "bt_at t2 i = Some n1" using leaf1 fresh by (auto simp: t2_def bt_at_alloc at_leaf_def j_def)
  have j2: "bt_at t2 j = Some right" "nd_prev right = Some i" "nd_next right = first_of ?rs None"
    using nxt by (auto simp: t2_def bt_at_alloc j_def right_def)
  define t3 where "t3 = (case ?rs of [] \<Rightarrow> t2 | r # _ \<Rightarrow> bt_put r ((the (bt_at t2 r))\<lparr>nd_prev := Some j\<rparr>) t2)"
  define t4 where "t4 = bt_put i (n1\<lparr>nd_next := Some j\<rparr>) t3"
  have chain4: "linked t4 None (?ls @ i # j # ?rs) None"
    unfolding t4_def t3_def by (rule linked_insert_right [OF chain2 dist fresh j2 i2])
  have r2: "\<exists>nr. bt_at t2 r = Some nr" if "?rs = r # rs" for r rs
    using chain2 that by (auto simp: linked_append)
  have step3: "(case nd_next n of Some next_id \<Rightarrow> bt_mod next_id (\<lambda>n. n\<lparr>nd_prev := Some j\<rparr>) t2 | None \<Rightarrow> Some t2) = Some t3"
    and h3: "holds t3 ns = holds t2 ns" and meta3: "same_meta t2 t3" "bt_root t3 = bt_root t2" for ns
    using nxt r2 mod_links [where f = "\<lambda>n. n\<lparr>nd_prev := Some j\<rparr>" and t = t2]
    by (auto simp: t3_def split: list.split)
  have i3: "bt_at t3 i = Some n1" using i2 dist by (auto simp: t3_def bt_at_put split: list.split)
  have step4: "bt_mod i (\<lambda>n. n\<lparr>nd_next := Some j\<rparr>) t3 = Some t4"
    and h4: "holds t4 ns = holds t3 ns" for ns
    using mod_links [where f = "\<lambda>n. n\<lparr>nd_next := Some j\<rparr>", OF _ i3] by (simp_all add: t4_def)
  have "holds t4 (cnodes c (gid (GLeaf i ?kl)) @ nodes (parent_of c) (GLeaf i ?kl) @ nodes (parent_of c) (GLeaf j ?kr))"
    using h2 unfolding h4 h3
    by (subst holds_perm [where ns' = "(j, Shape True (map fst ?kr) (map snd ?kr) [] (parent_of c)) # cnodes c i
        @ nodes (parent_of c) (GLeaf i ?kl)"]) simp_all
  moreover have kvs: "kvs = ?kl @ kvs ! mid # drop (Suc mid) kvs" "?kr = kvs ! mid # drop (Suc mid) kvs" "?kl \<noteq> []"
    using mid by (auto simp: id_take_nth_drop Cons_nth_drop_Suc)
  moreover have "ordered (lsp c @ Leaf i ?kl # Sep ?k # Leaf j ?kr # rsp c)"
    using ordered_split_leaf [of "lsp c" i ?kl ?k "snd (kvs ! mid)" "drop (Suc mid) kvs" "rsp c" j] ord kvs by simp
  moreover have meta4: "same_meta t t4" using links1(2) meta3(1) by (simp add: t4_def t2_def same_meta_def)
  moreover have "bt_comparator t4 = Asc" "3 \<le> bt_order t4" using meta4 asc by (simp_all add: same_meta_def)
  moreover have "bt_root t4 = gid (plug c (GLeaf i ?kl))"
    using leaf1 meta3(2) by (simp add: t4_def t2_def at_leaf_def)
  moreover have "cbal c 0" using leaf by (simp add: at_leaf_def)
  ultimately obtain t5 where t5: "insert_into_parent i ?k j t4 = Some t5"
    "represents t5 (lsp c @ Leaf i ?kl # Sep ?k # Leaf j ?kr # rsp c)" "same_links t4 t5" "same_meta t4 t5"
    using insert_into_parent_spec [of t4 c "GLeaf i ?kl" "GLeaf j ?kr" 0 ?k] by auto
  have "split_leaf i t = Some t5"
  proof -
    have "vec_at (drop mid (map fst kvs)) 0 = Some ?k" using mid by (simp add: vec_at_def)
    moreover have "bt_put i (n\<lparr>nd_keys := take mid (map fst kvs), nd_values := take mid (map snd kvs)\<rparr>) t = t1"
      by (simp add: t1_def n1_def take_map)
    moreover have "new_leaf\<lparr>nd_keys := drop mid (map fst kvs), nd_values := drop mid (map snd kvs), nd_next := nd_next n,
        nd_prev := Some i, nd_parent := parent_of c\<rparr> = right"
      using n(6) by (simp add: right_def drop_map)
    moreover have "bt_alloc right t1 = (j, t2)" by (simp add: bt_alloc_eq j_def t2_def)
    ultimately show ?thesis
      using n mid step3 step4 t5(1) by (simp add: split_leaf_def key_count_def mid_def [symmetric] vec_split_off_def)
  qed
  moreover have "linked t5 None (?ls @ i # j # ?rs) None" by (rule linked_same [OF t5(3) chain4])
  ultimately show ?thesis using t5(2,4) meta4 same_meta_trans by blast
qed

section \<open>Tight separators\<close>

text \<open>Leaves and separators alternate, and every separator is the first key of the leaf to its right.\<close>

fun fits :: "'k item \<Rightarrow> 'k item \<Rightarrow> bool" where
  "fits (Sep k) y \<longleftrightarrow> (\<exists>i e kvs. y = Leaf i (e # kvs) \<and> fst e = k)"
| "fits (Leaf i kvs) y \<longleftrightarrow> (\<exists>k. y = Sep k)"

definition tight :: "'k item list \<Rightarrow> bool" where
  "tight sp \<longleftrightarrow> successively fits sp"

lemma tight_leaf:
  "tight (l @ Leaf i kvs # r) \<longleftrightarrow> tight l \<and> (l = [] \<or> fits (last l) (Leaf i kvs))
    \<and> (r = [] \<or> (\<exists>k. hd r = Sep k)) \<and> tight r"
  by (cases r) (auto simp: tight_def successively_append_iff)

lemma tight_single: "tight [Leaf i kvs]"
  by (simp add: tight_def)

lemma upsert_hd: "kvs \<noteq> [] \<Longrightarrow> fst (hd kvs) \<le> key \<Longrightarrow> fst (hd (upsert key vs kvs)) = fst (hd kvs)"
  by (cases kvs) auto

lemma tight_upsert:
  assumes "tight (l @ Leaf i kvs # r)" "left_of l key"
  shows "tight (l @ Leaf i (upsert key vs kvs) # r)"
proof -
  have "l = [] \<or> fits (last l) (Leaf i (upsert key vs kvs))"
  proof (cases l rule: rev_cases)
    case (snoc l' x)
    have "l = [] \<or> fits (last l) (Leaf i kvs)" using assms(1) by (simp add: tight_leaf)
    then have x: "fits x (Leaf i kvs)" using snoc by simp
    then obtain k e kvs' where k: "x = Sep k" "kvs = e # kvs'" "fst e = k" by (cases x) auto
    then have "k \<le> key" using assms(2) snoc by simp
    then have "fst (hd (upsert key vs kvs)) = k" using upsert_hd [of kvs key vs] k by simp
    moreover obtain e' kvs'' where "upsert key vs kvs = e' # kvs''" by (cases "upsert key vs kvs") auto
    ultimately show ?thesis using snoc k by simp
  qed simp
  then show ?thesis using assms(1) by (simp add: tight_leaf)
qed

lemma tight_split:
  assumes "tight (l @ Leaf i (kvl @ e # kvr) # r)" "kvl \<noteq> []"
  shows "tight (l @ Leaf i kvl # Sep (fst e) # Leaf j (e # kvr) # r)"
proof -
  have "l = [] \<or> fits (last l) (Leaf i kvl)"
    using assms by (cases "l = []"; cases "last l"; cases kvl) (auto simp: tight_leaf)
  moreover have "tight (Sep (fst e) # Leaf j (e # kvr) # r)"
    using assms(1) by (cases r) (auto simp: tight_leaf, auto simp: tight_def)
  ultimately show ?thesis using assms(1) by (simp add: tight_leaf)
qed

section \<open>Insertion\<close>

lemma at_leaf_stats [simp]: "at_leaf (t\<lparr>bt_stats := st\<rparr>) c i kvs n = at_leaf t c i kvs n"
  by (simp add: at_leaf_def)

lemma represents_stats [simp]: "represents (t\<lparr>bt_stats := st\<rparr>) sp = represents t sp"
  by (simp add: represents_def)

lemma entry_rows_nth: "entry_rows (take m kvs) + entry_rows (drop m kvs) = entry_rows kvs"
  by (metis append_take_drop_id entry_rows_simps(3))

lemma single_spine: "l @ x # r = [y] \<longleftrightarrow> l = [] \<and> r = [] \<and> x = y"
  by (cases l) auto

lemma full_replace:
  "full (l @ Leaf i kvs # r) \<Longrightarrow> kvs' \<noteq> [] \<Longrightarrow> full (l @ Leaf i kvs' # r)"
  "full (l @ Leaf i kvs # r) \<Longrightarrow> kvl \<noteq> [] \<Longrightarrow> kvr \<noteq> [] \<Longrightarrow> full (l @ Leaf i kvl # Sep k # Leaf j kvr # r)"
  unfolding full_def by (auto simp: single_spine)

lemma upsert_nonempty_rows:
  "\<forall>e \<in> set kvs. snd e \<noteq> [] \<Longrightarrow> vs \<noteq> [] \<Longrightarrow> \<forall>e \<in> set (upsert key vs kvs). snd e \<noteq> []"
proof (induction kvs)
  case (Cons e kvs)
  then show ?case by (cases e) simp_all
qed simp

text \<open>The leaf of a key takes row ids for it, and splits when it is full.\<close>

lemma leaf_takes_rows:
  fixes t :: "'k::linorder btree"
  assumes ok: "bt_ok t sp" and sp: "sp = lsp c @ Leaf i kvs # rsp c" and leaf: "at_leaf t c i kvs n"
    and key: "left_of (lsp c) key" "right_of (rsp c) key" and vs: "vs \<noteq> []"
  defines "n1 \<equiv> n\<lparr>nd_keys := map fst (upsert key vs kvs), nd_values := map snd (upsert key vs kvs)\<rparr>"
  defines "t1 \<equiv> (bt_put i n1 t)\<lparr>bt_stats := stats_add_rows (of_nat (length vs)) (bt_stats t)\<rparr>"
  shows "\<exists>t' sp'. (if key_count n1 \<ge> bt_order t1 then split_leaf i t1 else Some t1) = Some t' \<and> bt_ok t' sp'
    \<and> entries sp' = upsert key vs (entries sp) \<and> bt_unique t' = bt_unique t \<and> bt_order t' = bt_order t
    \<and> (tight sp \<longrightarrow> tight sp') \<and> (key_count n1 < bt_order t1 \<longrightarrow> sp' = lsp c @ Leaf i (upsert key vs kvs) # rsp c)"
proof -
  let ?kvs = "upsert key vs kvs"
  have facts: "ordered sp" "linked t None (leaf_ids sp) None" "full sp" "\<forall>e \<in> set (entries sp). snd e \<noteq> []"
    "bt_comparator t = Asc" "3 \<le> bt_order t" "is_total_rows (bt_stats t) = of_nat (entry_rows (entries sp))"
    using ok by (simp_all add: bt_ok_def)
  have leaf1: "at_leaf t1 c i ?kvs n1" and links: "same_links t t1"
    using leaf_put [OF leaf, of ?kvs] by (simp_all add: t1_def n1_def same_links_def)
  have ord1: "ordered (lsp c @ Leaf i ?kvs # rsp c)" using ordered_upsert key facts(1) sp by blast
  have chain1: "linked t1 None (leaf_ids (lsp c) @ i # leaf_ids (rsp c)) None"
    using linked_same [OF links facts(2)] sp by simp
  have meta1: "bt_comparator t1 = Asc" "bt_order t1 = bt_order t" "bt_unique t1 = bt_unique t"
    using facts by (simp_all add: t1_def)
  have "\<forall>e \<in> set (entries (lsp c)). fst e < key" "\<forall>e \<in> set (entries (rsp c)). key < fst e"
    using key left_of_entries right_of_entries by blast+
  then have ent: "upsert key vs (entries sp) = entries (lsp c) @ ?kvs @ entries (rsp c)"
    using upsert_around [of "entries (lsp c)" key "entries (rsp c)" vs kvs] sp by simp
  have total: "is_total_rows (bt_stats t1) = of_nat (entry_rows (upsert key vs (entries sp)))"
    using facts(7) by (simp add: t1_def)
  have rows: "\<forall>e \<in> set (upsert key vs (entries sp)). snd e \<noteq> []" using upsert_nonempty_rows facts(4) vs by blast
  have count: "key_count n1 = length ?kvs" by (simp add: key_count_def n1_def)
  have tight1: "tight sp \<longrightarrow> tight (lsp c @ Leaf i ?kvs # rsp c)" using tight_upsert key(1) sp by blast
  show ?thesis
  proof (cases "key_count n1 \<ge> bt_order t1")
    case False
    let ?sp = "lsp c @ Leaf i ?kvs # rsp c"
    have "bt_ok t1 ?sp"
      using at_leaf_represents [OF leaf1] ord1 chain1 full_replace(1) [of "lsp c" i kvs "rsp c" ?kvs] facts meta1 total rows ent sp
      by (simp add: bt_ok_def)
    then show ?thesis using False meta1 ent tight1 by (intro exI [of _ t1] exI [of _ ?sp]) simp
  next
    case True
    let ?mid = "length ?kvs div 2"
    have three: "3 \<le> length ?kvs" using True count meta1(2) facts(6) by simp
    have len: "2 \<le> length ?kvs" "3 \<le> bt_order t1" using three meta1(2) facts(6) by simp_all
    obtain t2 j where t2: "split_leaf i t1 = Some t2"
      "represents t2 (lsp c @ Leaf i (take ?mid ?kvs) # Sep (fst (?kvs ! ?mid)) # Leaf j (drop ?mid ?kvs) # rsp c)"
      "linked t2 None (leaf_ids (lsp c) @ i # j # leaf_ids (rsp c)) None" "same_meta t1 t2"
      using split_leaf_spec [OF leaf1 len(1) ord1 chain1 meta1(1) len(2)] by blast
    let ?sp = "lsp c @ Leaf i (take ?mid ?kvs) # Sep (fst (?kvs ! ?mid)) # Leaf j (drop ?mid ?kvs) # rsp c"
    have mid: "?mid < length ?kvs" "0 < ?mid" using three by auto
    have parts: "drop ?mid ?kvs = (fst (?kvs ! ?mid), snd (?kvs ! ?mid)) # drop (Suc ?mid) ?kvs" "take ?mid ?kvs \<noteq> []"
      "drop ?mid ?kvs \<noteq> []"
      using mid by (simp_all add: Cons_nth_drop_Suc)
    have "ordered (lsp c @ Leaf i (take ?mid ?kvs @ drop ?mid ?kvs) # rsp c)" using ord1 by simp
    then have "ordered ?sp"
      unfolding parts(1) by (rule ordered_split_leaf) (rule parts(2))
    moreover have "entries ?sp = upsert key vs (entries sp)" using ent by simp
    moreover have "full (lsp c @ Leaf i kvs # rsp c)" using facts(3) sp by simp
    then have "full ?sp" by (rule full_replace(2) [OF _ parts(2,3)])
    ultimately have "bt_ok t2 ?sp"
      using t2 facts total rows meta1 by (simp add: bt_ok_def same_meta_def)
    moreover have "tight sp \<longrightarrow> tight ?sp"
    proof
      assume "tight sp"
      then have "tight (lsp c @ Leaf i (take ?mid ?kvs @ ?kvs ! ?mid # drop (Suc ?mid) ?kvs) # rsp c)"
        using tight1 mid by (simp add: id_take_nth_drop [symmetric])
      from tight_split [OF this parts(2)] show "tight ?sp" using parts(1) by simp
    qed
    ultimately show ?thesis
      using True t2 meta1 ent by (intro exI [of _ t2] exI [of _ ?sp]) (simp add: same_meta_def)
  qed
qed

lemma bt_insert_result:
  fixes t :: "'k::linorder btree"
  assumes ok: "bt_ok t sp"
  shows "bt_unique t \<and> map_of (entries sp) key \<noteq> None \<Longrightarrow> bt_insert key v t = Some (Inl DuplicateKey, t)"
    and "\<not> (bt_unique t \<and> map_of (entries sp) key \<noteq> None) \<Longrightarrow>
      \<exists>t' sp'. bt_insert key v t = Some (Inr (), t') \<and> bt_ok t' sp' \<and> entries sp' = upsert key [v] (entries sp)
        \<and> bt_unique t' = bt_unique t \<and> bt_order t' = bt_order t \<and> (tight sp \<longrightarrow> tight sp')"
proof -
  have facts: "represents t sp" "ordered sp" "bt_comparator t = Asc" using ok by (simp_all add: bt_ok_def)
  obtain c i kvs n where leaf: "find_leaf t key = Some i" "sp = lsp c @ Leaf i kvs # rsp c" "at_leaf t c i kvs n"
    "left_of (lsp c) key" "right_of (rsp c) key"
    using find_leaf_spec [OF facts] by metis
  have n: "bt_at t i = Some n" "nd_keys n = map fst kvs" "nd_values n = map snd kvs"
    using leaf(3) by (simp_all add: at_leaf_def)
  have found: "find_key key n \<noteq> None \<longleftrightarrow> map_of (entries sp) key \<noteq> None"
    using bt_get_result(2) [OF facts, of key] leaf(1) n(1) by (simp add: bt_contains_key_def)
  show "bt_insert key v t = Some (Inl DuplicateKey, t)" if "bt_unique t \<and> map_of (entries sp) key \<noteq> None"
    using that found leaf(1) n(1) by (simp add: bt_insert_def)
  have sorted: "sorted_wrt (<) (map fst kvs)" using leaf(2) facts(2) leaf_keys_sorted by blast
  let ?n = "n\<lparr>nd_keys := map fst (upsert key [v] kvs), nd_values := map snd (upsert key [v] kvs)\<rparr>"
  have "\<exists>t' sp'. (if key_count ?n \<ge> bt_order t
      then split_leaf i ((bt_put i ?n t)\<lparr>bt_stats := stats_add_rows 1 (bt_stats t)\<rparr>)
      else Some ((bt_put i ?n t)\<lparr>bt_stats := stats_add_rows 1 (bt_stats t)\<rparr>)) = Some t' \<and> bt_ok t' sp'
    \<and> entries sp' = upsert key [v] (entries sp) \<and> bt_unique t' = bt_unique t \<and> bt_order t' = bt_order t
    \<and> (tight sp \<longrightarrow> tight sp')"
  proof -
    have one: "of_nat (length [v]) = (1 :: u64)" by simp
    show ?thesis using leaf_takes_rows [OF ok leaf(2,3,4,5), of "[v]"] unfolding one by auto
  qed
  then obtain t' sp' where t': "(if key_count ?n \<ge> bt_order t
      then split_leaf i ((bt_put i ?n t)\<lparr>bt_stats := stats_add_rows 1 (bt_stats t)\<rparr>)
      else Some ((bt_put i ?n t)\<lparr>bt_stats := stats_add_rows 1 (bt_stats t)\<rparr>)) = Some t'" "bt_ok t' sp'"
    "entries sp' = upsert key [v] (entries sp)" "bt_unique t' = bt_unique t" "bt_order t' = bt_order t"
    "tight sp \<longrightarrow> tight sp'" by blast
  show "\<exists>t' sp'. bt_insert key v t = Some (Inr (), t') \<and> bt_ok t' sp' \<and> entries sp' = upsert key [v] (entries sp)
        \<and> bt_unique t' = bt_unique t \<and> bt_order t' = bt_order t \<and> (tight sp \<longrightarrow> tight sp')"
    if "\<not> (bt_unique t \<and> map_of (entries sp) key \<noteq> None)"
  proof -
    have "bt_insert key v t = Some (Inr (), t')"
      using that found leaf(1) n(1) node_insert_upsert [OF sorted n(2,3)] t'(1)
      by (simp add: bt_insert_def split: if_splits)
    then show ?thesis using t' by blast
  qed
qed

text \<open>The empty tree.\<close>

lemma bt_new_ok: "3 \<le> ord \<Longrightarrow> bt_ok (bt_new ord unique) [Leaf 0 []]"
proof -
  assume "3 \<le> ord"
  moreover have "represents (bt_new ord unique) [Leaf 0 []]"
    by (rule representsI [where g = "GLeaf 0 []" and m = 0])
      (simp_all add: holds_def node_shape_def bt_at_def vec_at_def bt_new_def bt_with_comparator_def alloc_node_def
        new_leaf_def shape_of_def)
  ultimately show ?thesis
    by (simp add: bt_ok_def ordered_def full_def bt_new_def bt_with_comparator_def alloc_node_def bt_at_def vec_at_def
        new_leaf_def)
qed

lemma bt_clear_ok: "bt_ok t sp \<Longrightarrow> bt_ok (bt_clear t) [Leaf 0 []] \<and> bt_unique (bt_clear t) = bt_unique t"
proof -
  assume ok: "bt_ok t sp"
  have "represents (bt_clear t) [Leaf 0 []]"
    by (rule representsI [where g = "GLeaf 0 []" and m = 0])
      (simp_all add: holds_def node_shape_def bt_at_def vec_at_def bt_clear_def alloc_node_def new_leaf_def shape_of_def)
  then show ?thesis
    using ok by (simp add: bt_ok_def ordered_def full_def bt_clear_def alloc_node_def bt_at_def vec_at_def new_leaf_def)
qed

end
