(* ===== verification/Cynos_Btree_Shrink.thy ===== *)
theory Cynos_Btree_Shrink
  imports Cynos_Btree_Ops
begin

text \<open>
  Underflow in the B+ tree: borrowing from a sibling, merging with one, and the walk to the root this may start.
  Above the leaves none of it changes the spine; at the leaves it is one of four small changes (\<open>leaf_step\<close>).
\<close>

section \<open>A node among its siblings\<close>

fun gkeys :: "'k gtree \<Rightarrow> nat" where
  "gkeys (GLeaf i kvs) = length kvs"
| "gkeys (GNode i ks gs) = length ks"

lemma gnode_at:
  assumes "holds t ns" "set (nodes p g) \<subseteq> set ns"
  shows "\<exists>n. bt_at t (gid g) = Some n \<and> key_count n = gkeys g \<and> nd_parent n = p"
proof (cases g)
  case (GLeaf i kvs)
  then show ?thesis
    using node_shape_at [OF assms(1), of i True "map fst kvs" "map snd kvs" "[]" p] assms(2)
    by (auto simp: key_count_def)
next
  case (GNode i ks gs)
  then show ?thesis
    using node_shape_at [OF assms(1), of i False ks "[]" "map gid gs" p] assms(2) by (auto simp: key_count_def)
qed

lemma inner_at:
  assumes "holds t ns" "(i, Shape False ks [] cs p) \<in> set ns"
  shows "\<exists>n. bt_at t i = Some n \<and> \<not> nd_is_leaf n \<and> nd_keys n = ks \<and> nd_values n = [] \<and> nd_children n = cs \<and> nd_parent n = p"
  using node_shape_at [OF assms] by auto

lemma leaf_at:
  assumes "holds t ns" "(i, Shape True (map fst kvs) (map snd kvs) [] p) \<in> set ns"
  shows "\<exists>n. bt_at t i = Some n \<and> nd_is_leaf n \<and> nd_keys n = map fst kvs \<and> nd_values n = map snd kvs
    \<and> nd_children n = [] \<and> nd_parent n = p"
  using node_shape_at [OF assms] by auto

lemma position_split: "x \<notin> set xs \<Longrightarrow> position (\<lambda>c. c = x) (xs @ x # ys) = Some (length xs)"
  by (induction xs) auto

lemma gid_in_nodes: "gid g \<in> set (map fst (nodes p g))"
  by (cases g) auto

lemma gids_in_nodes: "set (map gid gs) \<subseteq> set (map fst (concat (map (nodes p) gs)))"
  using gid_in_nodes by (induction gs) fastforce+

lemma holds_disjoint: "holds t (ns @ ns') \<Longrightarrow> x \<in> set (map fst ns') \<Longrightarrow> x \<notin> set (map fst ns)"
  unfolding holds_def map_append distinct_append by blast

lemma min_keys_pos: "3 \<le> ord \<Longrightarrow> 1 \<le> min_keys ord"
  by (simp add: min_keys_def)

lemma vec_simps [simp]:
  "vec_at (xs @ ys) (length xs) = vec_at ys 0" "vec_at (y # ys) 0 = Some y" "vec_at (xs @ x # y # ys) (Suc (length xs)) = Some y"
  "vec_pop (xs @ [x]) = Some (x, xs)" "vec_remove_at 0 (x # xs) = Some (x, xs)"
  "vec_remove_at (length xs) (xs @ x # ys) = Some (x, xs @ ys)"
  "vec_remove_at (Suc (length xs)) (xs @ x # y # ys) = Some (y, xs @ x # ys)"
  "vec_update (length xs) z (xs @ x # ys) = Some (xs @ z # ys)"
  by (simp_all add: vec_at_def vec_pop_def vec_remove_at_def vec_remove_def vec_update_def nth_append)

text \<open>The node \<open>g\<close> at the end of the path \<open>c\<close>.\<close>

definition zipped :: "'k btree \<Rightarrow> 'k frame list \<Rightarrow> 'k gtree \<Rightarrow> bool" where
  "zipped t c g \<longleftrightarrow> holds t (cnodes c (gid g) @ nodes (parent_of c) g) \<and> bt_root t = gid (plug c g)"

lemma zipped_represents: "zipped t c g \<Longrightarrow> cbal c n \<Longrightarrow> bal n g \<Longrightarrow> represents t (lsp c @ spine g @ rsp c)"
  unfolding zipped_def by (rule represents_plugI) auto

lemma zipped_up: "zipped t (Frame i lk lg rk rg # c) g \<longleftrightarrow> zipped t c (GNode i (lk @ rk) (lg @ g # rg))"
proof -
  have "holds t (cnodes (Frame i lk lg rk rg # c) (gid g) @ nodes (Some i) g)
      \<longleftrightarrow> holds t (cnodes c i @ nodes (parent_of c) (GNode i (lk @ rk) (lg @ g # rg)))"
    by (rule holds_perm) (simp add: ac_simps)
  then show ?thesis by (simp add: zipped_def)
qed

lemma cnodes_root: "c \<noteq> [] \<Longrightarrow> gid (plug c g) \<in> set (map fst (cnodes c h))"
proof (induction c arbitrary: g h)
  case (Cons f c)
  obtain i lk lg rk rg where f: "f = Frame i lk lg rk rg" by (cases f)
  show ?case
  proof (cases c)
    case Nil
    then show ?thesis using f by simp
  next
    case (Cons f' c')
    then show ?thesis using Cons.IH [of "GNode i (lk @ rk) (lg @ g # rg)" i] f by auto
  qed
qed simp

lemma zipped_root:
  assumes "zipped t c g"
  shows "gid g = bt_root t \<longleftrightarrow> c = []"
proof (cases "c = []")
  case False
  have "gid g \<notin> set (map fst (cnodes c (gid g)))"
    using assms holds_disjoint gid_in_nodes unfolding zipped_def by blast
  then show ?thesis using cnodes_root [OF False, of g "gid g"] False assms unfolding zipped_def by metis
qed (use assms in \<open>simp add: zipped_def\<close>)

lemma zipped_same_root:
  "zipped t c g \<Longrightarrow> holds t' (cnodes c (gid g') @ nodes (parent_of c) g') \<Longrightarrow> bt_root t' = bt_root t \<Longrightarrow> gid g' = gid g
    \<Longrightarrow> zipped t' c g'"
  using gid_plug_cong [of g' g c] by (simp add: zipped_def)

section \<open>What an underflow does\<close>

text \<open>The end of a merge: the root gives way to its only child, any other parent may be in underflow itself.\<close>

definition after_merge :: "nat \<Rightarrow> nat \<Rightarrow> 'k btree \<Rightarrow> 'k btree option" where
  "after_merge left_id parent_id t =
     do { parent \<leftarrow> bt_at t parent_id;
          if parent_id = bt_root t \<and> nd_keys parent = [] then
            bt_mod left_id (\<lambda>n. n\<lparr>nd_parent := None\<rparr>) (t\<lparr>bt_root := left_id\<rparr>)
          else if parent_id \<noteq> bt_root t then handle_underflow parent_id t
          else Some t }"

lemma rich_sibling_at:
  assumes "holds t ns" "set (nodes p g) \<subseteq> set ns" "vec_at (nd_children parent) i = Some (gid g)"
  shows "rich_sibling True i parent t = Some (if gkeys g > min_keys (bt_order t) then Some (gid g) else None)"
  using gnode_at [OF assms(1,2)] assms(3) by (auto simp: rich_sibling_def)

lemma handle_underflow_step:
  assumes z: "zipped t (Frame i lk lg rk rg # c) g"
  shows "handle_underflow (gid g) t =
    (if gkeys g \<ge> min_keys (bt_order t) then Some t
     else if lg \<noteq> [] \<and> gkeys (last lg) > min_keys (bt_order t) then borrow_from_left (gid g) (gid (last lg)) i (length lg) t
     else if rg \<noteq> [] \<and> gkeys (hd rg) > min_keys (bt_order t) then borrow_from_right (gid g) (gid (hd rg)) i (length lg) t
     else if lg \<noteq> [] then merge_contents (gid (last lg)) (gid g) i (length lg - 1) t \<bind> after_merge (gid (last lg)) i
     else if rg \<noteq> [] then merge_contents (gid g) (gid (hd rg)) i (length lg) t \<bind> after_merge (gid g) i
     else Some t)"
proof -
  let ?ns = "cnodes (Frame i lk lg rk rg # c) (gid g) @ nodes (Some i) g"
  have h: "holds t ?ns" using z by (simp add: zipped_def)
  obtain n where n: "bt_at t (gid g) = Some n" "key_count n = gkeys g" "nd_parent n = Some i"
    using gnode_at [OF h, of "Some i" g] by auto
  obtain p where p: "bt_at t i = Some p" "nd_children p = map gid lg @ gid g # map gid rg"
    using inner_at [OF h, of i "lk @ rk" "map gid lg @ gid g # map gid rg" "parent_of c"] by auto
  have "gid g \<notin> set (map gid lg)"
  proof
    assume "gid g \<in> set (map gid lg)"
    then have "gid g \<in> set (map fst (concat (map (nodes (Some i)) lg)))" using gids_in_nodes by blast
    then have "gid g \<in> set (map fst (cnodes (Frame i lk lg rk rg # c) (gid g)))" by simp
    then show False using holds_disjoint [OF h gid_in_nodes] by blast
  qed
  then have pos: "position (\<lambda>c. c = gid g) (nd_children p) = Some (length lg)"
    unfolding p(2) using position_split [of "gid g" "map gid lg"] by simp
  have left: "rich_sibling (length lg > 0) (length lg - 1) p t =
      Some (if lg \<noteq> [] \<and> gkeys (last lg) > min_keys (bt_order t) then Some (gid (last lg)) else None)"
  proof (cases lg rule: rev_cases)
    case (snoc lg' L)
    then have "rich_sibling True (length lg') p t = Some (if gkeys L > min_keys (bt_order t) then Some (gid L) else None)"
      using p(2) by (intro rich_sibling_at [OF h, of "Some i"]) (auto simp: vec_at_def nth_append)
    then show ?thesis using snoc by simp
  qed (simp add: rich_sibling_def)
  have right: "rich_sibling (length lg < length (nd_children p) - 1) (length lg + 1) p t =
      Some (if rg \<noteq> [] \<and> gkeys (hd rg) > min_keys (bt_order t) then Some (gid (hd rg)) else None)"
  proof (cases rg)
    case (Cons R rg')
    then have "rich_sibling True (length lg + 1) p t = Some (if gkeys R > min_keys (bt_order t) then Some (gid R) else None)"
      using p(2) by (intro rich_sibling_at [OF h, of "Some i"]) (auto simp: vec_at_def nth_append)
    then show ?thesis using Cons p(2) by simp
  qed (use p(2) in \<open>simp add: rich_sibling_def\<close>)
  have target: "merge_target (gid g) (length lg) p =
      Some (if lg \<noteq> [] then Some (gid (last lg), gid g, length lg - 1)
            else if rg \<noteq> [] then Some (gid g, gid (hd rg), length lg) else None)"
  proof (cases lg rule: rev_cases)
    case (snoc lg' L)
    then show ?thesis using p(2) by (simp add: merge_target_def vec_at_def nth_append)
  next
    case Nil
    then show ?thesis using p(2) by (cases rg) (simp_all add: merge_target_def vec_at_def)
  qed
  show ?thesis
    unfolding handle_underflow.simps [of "gid g" t] n p(1) pos left right target bind.bind_lunit option.case
    by (simp add: after_merge_def [abs_def])
qed

section \<open>Merging internal nodes\<close>

lemma parent_loses_child:
  assumes h: "holds t ((i, Shape False (lk @ k # rk) [] (xs @ x # y # ys) p) # ns)" and len: "length xs = length lk"
  shows "\<exists>n. bt_at t i = Some n \<and> vec_remove_at (length lk) (nd_keys n) = Some (k, lk @ rk)
    \<and> vec_remove_at (Suc (length lk)) (nd_children n) = Some (y, xs @ x # ys)
    \<and> holds (bt_put i (n\<lparr>nd_keys := lk @ rk, nd_children := xs @ x # ys\<rparr>) t) ((i, Shape False (lk @ rk) [] (xs @ x # ys) p) # ns)
    \<and> same_links t (bt_put i (n\<lparr>nd_keys := lk @ rk, nd_children := xs @ x # ys\<rparr>) t)"
proof -
  obtain n where n: "bt_at t i = Some n" "\<not> nd_is_leaf n" "nd_keys n = lk @ k # rk" "nd_values n = []"
      "nd_children n = xs @ x # y # ys" "nd_parent n = p"
    using inner_at [OF h, of i "lk @ k # rk" "xs @ x # y # ys" p] by auto
  let ?n = "n\<lparr>nd_keys := lk @ rk, nd_children := xs @ x # ys\<rparr>"
  have "holds (bt_put i ?n t) ((i, Shape False (lk @ rk) [] (xs @ x # ys) p) # ns)"
    by (rule holds_put [OF h]) (use n in \<open>simp add: shape_of_def\<close>)
  moreover have "same_links t (bt_put i ?n t)" using n(1) by (rule same_links_put) simp_all
  moreover have "vec_remove_at (Suc (length lk)) (nd_children n) = Some (y, xs @ x # ys)" unfolding len [symmetric] n(5) by simp
  ultimately show ?thesis using n by simp
qed

lemma merge_inner_spec:
  assumes z: "zipped t c (GNode i (lk @ k # rk) (lg @ GNode a ks gs # GNode b ks' gs' # rg))" and len: "length lg = length lk"
  shows "\<exists>t'. merge_contents a b i (length lk) t = Some t'
    \<and> zipped t' c (GNode i (lk @ rk) (lg @ GNode a (ks @ k # ks') (gs @ gs') # rg)) \<and> same_links t t' \<and> same_meta t t'"
proof -
  let ?top = "(i, Shape False (lk @ k # rk) [] (map gid lg @ a # b # map gid rg) (parent_of c))"
  let ?top' = "(i, Shape False (lk @ rk) [] (map gid lg @ a # map gid rg) (parent_of c))"
  let ?a = "(a, Shape False ks [] (map gid gs) (Some i))" and ?b = "(b, Shape False ks' [] (map gid gs') (Some i))"
  let ?a' = "(a, Shape False (ks @ k # ks') [] (map gid (gs @ gs')) (Some i))" and ?b' = "(b, Shape False [] [] [] (Some i))"
  let ?kids = "concat (map (nodes (Some a)) gs)" and ?kids' = "\<lambda>j. concat (map (nodes (Some j)) gs')"
  let ?rest = "cnodes c i @ concat (map (nodes (Some i)) lg) @ concat (map (nodes (Some i)) rg) @ ?kids"
  have h: "holds t (?b # ?a # ?top # ?kids' b @ ?rest)"
    using z unfolding zipped_def
    by (subst holds_perm [where ns' = "cnodes c i @ nodes (parent_of c) (GNode i (lk @ k # rk) (lg @ GNode a ks gs # GNode b ks' gs' # rg))"])
      simp_all
  obtain na where na: "bt_at t a = Some na" "\<not> nd_is_leaf na" "nd_keys na = ks" "nd_values na = []" "nd_children na = map gid gs"
      "nd_parent na = Some i"
    using inner_at [OF h, of a ks "map gid gs" "Some i"] by auto
  obtain nb where nb: "bt_at t b = Some nb" "\<not> nd_is_leaf nb" "nd_keys nb = ks'" "nd_values nb = []" "nd_children nb = map gid gs'"
      "nd_parent nb = Some i"
    using inner_at [OF h, of b ks' "map gid gs'" "Some i"] by auto
  obtain np where np: "bt_at t i = Some np" "nd_keys np = lk @ k # rk"
    using inner_at [OF h, of i "lk @ k # rk" "map gid lg @ a # b # map gid rg" "parent_of c"] by auto
  let ?t1 = "bt_put b (nb\<lparr>nd_keys := [], nd_children := []\<rparr>) t"
  let ?t2 = "bt_put a (na\<lparr>nd_keys := ks @ k # ks', nd_children := map gid gs @ map gid gs'\<rparr>) ?t1"
  have "holds ?t1 (?b' # ?a # ?top # ?kids' b @ ?rest)"
    by (rule holds_put [OF h]) (use nb in \<open>simp add: shape_of_def\<close>)
  then have h1: "holds ?t1 (?a # ?b' # ?top # ?kids' b @ ?rest)"
    by (subst holds_perm [where ns' = "?b' # ?a # ?top # ?kids' b @ ?rest"]) simp_all
  have "holds ?t2 (?a' # ?b' # ?top # ?kids' b @ ?rest)"
    by (rule holds_put [OF h1]) (use na in \<open>simp add: shape_of_def\<close>)
  then have h2: "holds ?t2 (?kids' b @ (?a' # ?b' # ?top # ?rest))"
    by (subst holds_perm [where ns' = "?a' # ?b' # ?top # ?kids' b @ ?rest"]) simp_all
  obtain t3 where t3: "set_parents (map gid gs') a ?t2 = Some t3" "holds t3 (?kids' a @ (?a' # ?b' # ?top # ?rest))"
    "same_links ?t2 t3" "same_meta ?t2 t3" "bt_root t3 = bt_root ?t2"
    using set_parents_spec [OF h2, of a] by blast
  have h3: "holds t3 (?top # ?b' # ?a' # ?kids' a @ ?rest)"
    using t3(2) by (subst holds_perm [where ns' = "?kids' a @ (?a' # ?b' # ?top # ?rest)"]) simp_all
  obtain n where n: "bt_at t3 i = Some n" "vec_remove_at (length lk) (nd_keys n) = Some (k, lk @ rk)"
    "vec_remove_at (Suc (length lk)) (nd_children n) = Some (b, map gid lg @ a # map gid rg)"
    "holds (bt_put i (n\<lparr>nd_keys := lk @ rk, nd_children := map gid lg @ a # map gid rg\<rparr>) t3) (?top' # ?b' # ?a' # ?kids' a @ ?rest)"
    "same_links t3 (bt_put i (n\<lparr>nd_keys := lk @ rk, nd_children := map gid lg @ a # map gid rg\<rparr>) t3)"
    using parent_loses_child [OF h3] len by auto
  define t4 where "t4 = bt_put i (n\<lparr>nd_keys := lk @ rk, nd_children := map gid lg @ a # map gid rg\<rparr>) t3"
  have "holds t4 ([?b'] @ (?top' # ?a' # ?kids' a @ ?rest))"
    using n(4) unfolding t4_def [symmetric] by (subst holds_perm [where ns' = "?top' # ?b' # ?a' # ?kids' a @ ?rest"]) simp_all
  then have "holds t4 (?top' # ?a' # ?kids' a @ ?rest)" by (rule holds_drop(2))
  then have "holds t4 (cnodes c i @ nodes (parent_of c) (GNode i (lk @ rk) (lg @ GNode a (ks @ k # ks') (gs @ gs') # rg)))"
    by (subst holds_perm [where ns' = "?top' # ?a' # ?kids' a @ ?rest"]) simp_all
  then have "zipped t4 c (GNode i (lk @ rk) (lg @ GNode a (ks @ k # ks') (gs @ gs') # rg))"
    using zipped_same_root [OF z, of t4 "GNode i (lk @ rk) (lg @ GNode a (ks @ k # ks') (gs @ gs') # rg)"] t3(5)
    by (simp add: t4_def)
  moreover have "vec_at (lk @ k # rk) (length lk) = Some k" by simp
  then have "merge_contents a b i (length lk) t = Some t4"
    using na nb np t3(1) n(1-3) by (simp add: merge_contents_def t4_def del: vec_simps)
  moreover have "same_links t t4"
  proof -
    have "same_links t ?t1" by (rule same_links_put [OF nb(1)]) simp_all
    also have "same_links ?t1 ?t2"
    proof (rule same_links_put)
      have "b \<noteq> a" using h by (auto simp: holds_def)
      then show "bt_at ?t1 a = Some na" using na(1) by (simp add: bt_at_put)
    qed simp_all
    also note t3(3)
    also have "same_links t3 t4" using n(5) by (simp add: t4_def)
    finally show ?thesis .
  qed
  moreover have "same_meta t t4" using t3(4) by (simp add: t4_def same_meta_def)
  ultimately show ?thesis by blast
qed

section \<open>Borrowing between internal nodes\<close>

lemma borrow_left_inner_spec:
  assumes z: "zipped t c (GNode i (lk @ k # rk) (lg @ GNode a (ks @ [x]) (gs @ [d]) # GNode b ks' gs' # rg))" and len: "length lg = length lk"
  shows "\<exists>t'. borrow_from_left b a i (Suc (length lk)) t = Some t'
    \<and> zipped t' c (GNode i (lk @ x # rk) (lg @ GNode a ks gs # GNode b (k # ks') (d # gs') # rg)) \<and> same_links t t' \<and> same_meta t t'"
proof -
  let ?cs = "map gid lg @ a # b # map gid rg"
  let ?top = "(i, Shape False (lk @ k # rk) [] ?cs (parent_of c))" and ?top' = "(i, Shape False (lk @ x # rk) [] ?cs (parent_of c))"
  let ?a = "(a, Shape False (ks @ [x]) [] (map gid gs @ [gid d]) (Some i))" and ?b = "(b, Shape False ks' [] (map gid gs') (Some i))"
  let ?a' = "(a, Shape False ks [] (map gid gs) (Some i))" and ?b' = "(b, Shape False (k # ks') [] (gid d # map gid gs') (Some i))"
  let ?kid = "\<lambda>j. nodes (Some j) d"
  let ?rest = "cnodes c i @ concat (map (nodes (Some i)) lg) @ concat (map (nodes (Some i)) rg)
    @ concat (map (nodes (Some a)) gs) @ concat (map (nodes (Some b)) gs')"
  have h: "holds t (?a # ?b # ?top # ?kid a @ ?rest)"
    using z unfolding zipped_def
    by (subst holds_perm [where ns' = "cnodes c i @ nodes (parent_of c) (GNode i (lk @ k # rk) (lg @ GNode a (ks @ [x]) (gs @ [d]) # GNode b ks' gs' # rg))"])
      simp_all
  obtain na where na: "bt_at t a = Some na" "\<not> nd_is_leaf na" "nd_keys na = (ks @ [x])" "nd_values na = []"
      "nd_children na = (map gid gs @ [gid d])" "nd_parent na = Some i"
    using inner_at [OF h, of a "(ks @ [x])" "(map gid gs @ [gid d])" "Some i"] by auto
  obtain nb where nb: "bt_at t b = Some nb" "\<not> nd_is_leaf nb" "nd_keys nb = ks'" "nd_values nb = []"
      "nd_children nb = (map gid gs')" "nd_parent nb = Some i"
    using inner_at [OF h, of b "ks'" "(map gid gs')" "Some i"] by auto
  obtain np where np: "bt_at t i = Some np" "\<not> nd_is_leaf np" "nd_keys np = lk @ k # rk" "nd_values np = []"
      "nd_children np = ?cs" "nd_parent np = parent_of c"
    using inner_at [OF h, of i "lk @ k # rk" ?cs "parent_of c"] by auto
  let ?t1 = "bt_put a (na\<lparr>nd_keys := ks, nd_children := map gid gs\<rparr>) t"
  let ?t2 = "bt_put b (nb\<lparr>nd_keys := k # ks', nd_children := gid d # map gid gs'\<rparr>) ?t1"
  let ?t3 = "bt_put i (np\<lparr>nd_keys := lk @ x # rk\<rparr>) ?t2"
  have ne: "a \<noteq> b" "a \<noteq> i" "b \<noteq> i" using h by (auto simp: holds_def)
  have "holds ?t1 (?a' # ?b # ?top # ?kid a @ ?rest)"
    by (rule holds_put [OF h]) (use na in \<open>simp add: shape_of_def\<close>)
  then have h1: "holds ?t1 (?b # ?a' # ?top # ?kid a @ ?rest)"
    by (subst holds_perm [where ns' = "?a' # ?b # ?top # ?kid a @ ?rest"]) simp_all
  have "holds ?t2 (?b' # ?a' # ?top # ?kid a @ ?rest)"
    by (rule holds_put [OF h1]) (use nb in \<open>simp add: shape_of_def\<close>)
  then have h2: "holds ?t2 (?top # ?b' # ?a' # ?kid a @ ?rest)"
    by (subst holds_perm [where ns' = "?b' # ?a' # ?top # ?kid a @ ?rest"]) simp_all
  have "holds ?t3 (?top' # ?b' # ?a' # ?kid a @ ?rest)"
    by (rule holds_put [OF h2]) (use np in \<open>simp add: shape_of_def\<close>)
  then have h3: "holds ?t3 (?kid a @ (?top' # ?b' # ?a' # ?rest))"
    by (subst holds_perm [where ns' = "?top' # ?b' # ?a' # ?kid a @ ?rest"]) simp_all
  obtain t4 where t4: "bt_mod (gid d) (\<lambda>n. n\<lparr>nd_parent := Some b\<rparr>) ?t3 = Some t4"
    "holds t4 (?kid b @ (?top' # ?b' # ?a' # ?rest))" "same_links ?t3 t4" "same_meta ?t3 t4" "bt_root t4 = bt_root ?t3"
    using reparent [OF h3, of "Some b"] by blast
  let ?G = "GNode i (lk @ x # rk) (lg @ GNode a ks gs # GNode b (k # ks') (d # gs') # rg)"
  have "holds t4 (cnodes c i @ nodes (parent_of c) ?G)"
    using t4(2) by (subst holds_perm [where ns' = "?kid b @ (?top' # ?b' # ?a' # ?rest)"]) simp_all
  then have "zipped t4 c ?G" using zipped_same_root [OF z, of t4 ?G] t4(5) by simp
  moreover have "vec_at (lk @ k # rk) (length lk) = Some k" "(lk @ k # rk)[length lk := x] = lk @ x # rk" by simp_all
  then have "borrow_from_left b a i (Suc (length lk)) t = Some t4"
    using na nb np ne t4(1) by (simp add: borrow_from_left_def)
  moreover have "same_links t t4"
  proof -
    have "same_links t ?t1" by (rule same_links_put [OF na(1)]) simp_all
    also have "same_links ?t1 ?t2" by (rule same_links_put [where n = nb]) (use ne na nb in \<open>simp_all add: bt_at_put\<close>)
    also have "same_links ?t2 ?t3" by (rule same_links_put [where n = np]) (use ne np in \<open>simp_all add: bt_at_put\<close>)
    also note t4(3)
    finally show ?thesis .
  qed
  moreover have "same_meta t t4" using t4(4) by (simp add: same_meta_def)
  ultimately show ?thesis by blast
qed

lemma borrow_right_inner_spec:
  assumes z: "zipped t c (GNode i (lk @ k # rk) (lg @ GNode a ks gs # GNode b (x # ks') (d # gs') # rg))" and len: "length lg = length lk"
  shows "\<exists>t'. borrow_from_right a b i (length lk) t = Some t'
    \<and> zipped t' c (GNode i (lk @ x # rk) (lg @ GNode a (ks @ [k]) (gs @ [d]) # GNode b ks' gs' # rg)) \<and> same_links t t' \<and> same_meta t t'"
proof -
  let ?cs = "map gid lg @ a # b # map gid rg"
  let ?top = "(i, Shape False (lk @ k # rk) [] ?cs (parent_of c))" and ?top' = "(i, Shape False (lk @ x # rk) [] ?cs (parent_of c))"
  let ?a = "(a, Shape False ks [] (map gid gs) (Some i))" and ?b = "(b, Shape False (x # ks') [] (gid d # map gid gs') (Some i))"
  let ?a' = "(a, Shape False (ks @ [k]) [] (map gid gs @ [gid d]) (Some i))" and ?b' = "(b, Shape False ks' [] (map gid gs') (Some i))"
  let ?kid = "\<lambda>j. nodes (Some j) d"
  let ?rest = "cnodes c i @ concat (map (nodes (Some i)) lg) @ concat (map (nodes (Some i)) rg)
    @ concat (map (nodes (Some a)) gs) @ concat (map (nodes (Some b)) gs')"
  have h: "holds t (?b # ?a # ?top # ?kid b @ ?rest)"
    using z unfolding zipped_def
    by (subst holds_perm [where ns' = "cnodes c i @ nodes (parent_of c) (GNode i (lk @ k # rk) (lg @ GNode a ks gs # GNode b (x # ks') (d # gs') # rg))"])
      simp_all
  obtain na where na: "bt_at t a = Some na" "\<not> nd_is_leaf na" "nd_keys na = ks" "nd_values na = []"
      "nd_children na = (map gid gs)" "nd_parent na = Some i"
    using inner_at [OF h, of a "ks" "(map gid gs)" "Some i"] by auto
  obtain nb where nb: "bt_at t b = Some nb" "\<not> nd_is_leaf nb" "nd_keys nb = (x # ks')" "nd_values nb = []"
      "nd_children nb = (gid d # map gid gs')" "nd_parent nb = Some i"
    using inner_at [OF h, of b "(x # ks')" "(gid d # map gid gs')" "Some i"] by auto
  obtain np where np: "bt_at t i = Some np" "\<not> nd_is_leaf np" "nd_keys np = lk @ k # rk" "nd_values np = []"
      "nd_children np = ?cs" "nd_parent np = parent_of c"
    using inner_at [OF h, of i "lk @ k # rk" ?cs "parent_of c"] by auto
  let ?t1 = "bt_put b (nb\<lparr>nd_keys := ks', nd_children := map gid gs'\<rparr>) t"
  let ?t2 = "bt_put a (na\<lparr>nd_keys := ks @ [k], nd_children := map gid gs @ [gid d]\<rparr>) ?t1"
  let ?t3 = "bt_put i (np\<lparr>nd_keys := lk @ x # rk\<rparr>) ?t2"
  have ne: "a \<noteq> b" "a \<noteq> i" "b \<noteq> i" using h by (auto simp: holds_def)
  have "holds ?t1 (?b' # ?a # ?top # ?kid b @ ?rest)"
    by (rule holds_put [OF h]) (use nb in \<open>simp add: shape_of_def\<close>)
  then have h1: "holds ?t1 (?a # ?b' # ?top # ?kid b @ ?rest)"
    by (subst holds_perm [where ns' = "?b' # ?a # ?top # ?kid b @ ?rest"]) simp_all
  have "holds ?t2 (?a' # ?b' # ?top # ?kid b @ ?rest)"
    by (rule holds_put [OF h1]) (use na in \<open>simp add: shape_of_def\<close>)
  then have h2: "holds ?t2 (?top # ?a' # ?b' # ?kid b @ ?rest)"
    by (subst holds_perm [where ns' = "?a' # ?b' # ?top # ?kid b @ ?rest"]) simp_all
  have "holds ?t3 (?top' # ?a' # ?b' # ?kid b @ ?rest)"
    by (rule holds_put [OF h2]) (use np in \<open>simp add: shape_of_def\<close>)
  then have h3: "holds ?t3 (?kid b @ (?top' # ?a' # ?b' # ?rest))"
    by (subst holds_perm [where ns' = "?top' # ?a' # ?b' # ?kid b @ ?rest"]) simp_all
  obtain t4 where t4: "bt_mod (gid d) (\<lambda>n. n\<lparr>nd_parent := Some a\<rparr>) ?t3 = Some t4"
    "holds t4 (?kid a @ (?top' # ?a' # ?b' # ?rest))" "same_links ?t3 t4" "same_meta ?t3 t4" "bt_root t4 = bt_root ?t3"
    using reparent [OF h3, of "Some a"] by blast
  let ?G = "GNode i (lk @ x # rk) (lg @ GNode a (ks @ [k]) (gs @ [d]) # GNode b ks' gs' # rg)"
  have "holds t4 (cnodes c i @ nodes (parent_of c) ?G)"
    using t4(2) by (subst holds_perm [where ns' = "?kid a @ (?top' # ?a' # ?b' # ?rest)"]) simp_all
  then have "zipped t4 c ?G" using zipped_same_root [OF z, of t4 ?G] t4(5) by simp
  moreover have "vec_at (lk @ k # rk) (length lk) = Some k" "(lk @ k # rk)[length lk := x] = lk @ x # rk" by simp_all
  then have "borrow_from_right a b i (length lk) t = Some t4"
    using na nb np ne t4(1) by (simp add: borrow_from_right_def)
  moreover have "same_links t t4"
  proof -
    have "same_links t ?t1" by (rule same_links_put [OF nb(1)]) simp_all
    also have "same_links ?t1 ?t2" by (rule same_links_put [where n = na]) (use ne na nb in \<open>simp_all add: bt_at_put\<close>)
    also have "same_links ?t2 ?t3" by (rule same_links_put [where n = np]) (use ne np in \<open>simp_all add: bt_at_put\<close>)
    also note t4(3)
    finally show ?thesis .
  qed
  moreover have "same_meta t t4" using t4(4) by (simp add: same_meta_def)
  ultimately show ?thesis by blast
qed

section \<open>Underflow of an internal node\<close>

lemma spine_pair:
  assumes "length lg = length lk" "length rg = length rk"
  shows "spine (GNode i (lk @ k # rk) (lg @ L # R # rg))
    = lweave lk (map spine lg) @ spine L @ Sep k # spine R @ rweave rk (map spine rg)"
  using spine_node [of lk lg "k # rk" "R # rg" i L] assms by simp

lemma spine_join:
  assumes "length gs = Suc (length ks)" "length gs' = Suc (length ks')"
  shows "spine (GNode a (ks @ k # ks') (gs @ gs')) = spine (GNode a ks gs) @ Sep k # spine (GNode b ks' gs')"
  using split_spine [of "gs @ gs'" "ks @ k # ks'" "length ks" a b] assms by simp

lemma spine_rotate:
  assumes "length gs = Suc (length ks)" "length gs' = Suc (length ks')"
  shows "spine (GNode a (ks @ [x]) (gs @ [d])) @ Sep k # spine (GNode b ks' gs')
    = spine (GNode a ks gs) @ Sep x # spine (GNode b (k # ks') (d # gs'))"
proof -
  have "spine (GNode a ((ks @ [x]) @ k # ks') ((gs @ [d]) @ gs')) = spine (GNode a (ks @ x # (k # ks')) (gs @ (d # gs')))"
    by simp
  then show ?thesis
    using spine_join [of "gs @ [d]" "ks @ [x]" gs' ks' a k b] spine_join [of gs ks "d # gs'" "k # ks'" a x b] assms
    by (simp del: spine.simps)
qed

definition shrunk :: "'k btree \<Rightarrow> 'k item list \<Rightarrow> 'k btree option \<Rightarrow> bool" where
  "shrunk t sp r \<longleftrightarrow> (\<exists>t'. r = Some t' \<and> represents t' sp \<and> same_links t t' \<and> same_meta t t')"

lemma shrunkI: "represents t' sp \<Longrightarrow> same_links t t' \<Longrightarrow> same_meta t t' \<Longrightarrow> shrunk t sp (Some t')"
  by (simp add: shrunk_def)

lemma shrunk_trans: "same_links t t1 \<Longrightarrow> same_meta t t1 \<Longrightarrow> shrunk t1 sp r \<Longrightarrow> shrunk t sp r"
  unfolding shrunk_def using same_links_trans same_meta_trans by blast

lemma root_gives_way:
  assumes z: "zipped t [] (GNode i [] [g])" and bal: "bal n g"
  shows "shrunk t (spine g) (bt_mod (gid g) (\<lambda>n. n\<lparr>nd_parent := None\<rparr>) (t\<lparr>bt_root := gid g\<rparr>))"
proof -
  have "holds t ([(i, Shape False [] [] [gid g] None)] @ nodes (Some i) g)" using z by (simp add: zipped_def)
  then have "holds (t\<lparr>bt_root := gid g\<rparr>) (nodes (Some i) g @ [])" using holds_drop(2) by fastforce
  from reparent [OF this, of None] obtain t' where t': "bt_mod (gid g) (\<lambda>n. n\<lparr>nd_parent := None\<rparr>) (t\<lparr>bt_root := gid g\<rparr>) = Some t'"
    "holds t' (nodes None g)" "same_links (t\<lparr>bt_root := gid g\<rparr>) t'" "same_meta (t\<lparr>bt_root := gid g\<rparr>) t'" "bt_root t' = gid g"
    by auto
  have "represents t' (spine g)" using t'(2,5) bal by (intro representsI) simp_all
  moreover have "same_links t t'" "same_meta t t'" using t'(3,4) by (simp_all add: same_links_def same_meta_def)
  ultimately show ?thesis unfolding t'(1) by (rule shrunkI)
qed

lemma after_merge_spec:
  assumes z: "zipped t c (GNode i ks (lg @ g # rg))" and lax: "lax (Suc n) (GNode i ks (lg @ g # rg))" and cb: "cbal c (Suc n)"
    and up: "c \<noteq> [] \<Longrightarrow> shrunk t (lsp c @ spine (GNode i ks (lg @ g # rg)) @ rsp c) (handle_underflow i t)"
  shows "shrunk t (lsp c @ spine (GNode i ks (lg @ g # rg)) @ rsp c) (after_merge (gid g) i t)"
proof -
  obtain n' where n': "bt_at t i = Some n'" "nd_keys n' = ks"
    using z inner_at [of t _ i ks "map gid (lg @ g # rg)" "parent_of c"] by (fastforce simp: zipped_def)
  have root: "i = bt_root t \<longleftrightarrow> c = []" using zipped_root [OF z] by simp
  have bal: "bal n g" using lax by simp
  show ?thesis
  proof (cases "c = []")
    case False
    then show ?thesis using up n' root by (simp add: after_merge_def)
  next
    case True
    show ?thesis
    proof (cases "ks = []")
      case ks: True
      then have "lg = []" "rg = []" using lax by simp_all
      then show ?thesis using root_gives_way [of t i g n] z bal ks True n' root by (simp add: after_merge_def)
    next
      case False
      then have "bal (Suc n) (GNode i ks (lg @ g # rg))" using lax by simp
      from zipped_represents [OF z cb this] have "shrunk t (lsp c @ spine (GNode i ks (lg @ g # rg)) @ rsp c) (Some t)"
        by (rule shrunkI) simp_all
      then show ?thesis using n' root True False by (simp add: after_merge_def)
    qed
  qed
qed

lemma merge_up_spec:
  assumes z: "zipped t c (GNode i (lk @ k # rk) (lg @ L # R # rg))" and len: "length lg = length lk" "length rg = length rk"
    and lax: "lax (Suc n) L" "lax (Suc n) R" "list_all (bal (Suc n)) lg" "list_all (bal (Suc n)) rg" and cb: "cbal c (Suc (Suc n))"
    and up: "\<And>t g. zipped t c g \<Longrightarrow> lax (Suc (Suc n)) g \<Longrightarrow> c \<noteq> [] \<Longrightarrow> bt_order t = ord \<Longrightarrow>
      shrunk t (lsp c @ spine g @ rsp c) (handle_underflow (gid g) t)"
    and ord: "bt_order t = ord"
  shows "shrunk t (lsp c @ spine (GNode i (lk @ k # rk) (lg @ L # R # rg)) @ rsp c)
    (merge_contents (gid L) (gid R) i (length lk) t \<bind> after_merge (gid L) i)"
proof -
  obtain a ks gs where L: "L = GNode a ks gs" "length gs = Suc (length ks)" "list_all (bal n) gs" using lax(1) by (cases L) auto
  obtain b ks' gs' where R: "R = GNode b ks' gs'" "length gs' = Suc (length ks')" "list_all (bal n) gs'" using lax(2) by (cases R) auto
  let ?L = "GNode a (ks @ k # ks') (gs @ gs')"
  let ?G = "GNode i (lk @ rk) (lg @ ?L # rg)"
  obtain t1 where t1: "merge_contents (gid L) (gid R) i (length lk) t = Some t1" "zipped t1 c ?G" "same_links t t1" "same_meta t t1"
    using merge_inner_spec [OF z [unfolded L R] len(1)] L R by auto
  have laxG: "lax (Suc (Suc n)) ?G" using L R len lax(3,4) by simp
  have "spine ?L = spine L @ Sep k # spine R" unfolding L(1) R(1) by (rule spine_join [OF L(2) R(2)])
  then have sp: "spine (GNode i (lk @ k # rk) (lg @ L # R # rg)) = spine ?G"
    unfolding spine_pair [OF len] using spine_node [of lk lg rk rg i ?L] len by (simp del: spine.simps)
  have o1: "bt_order t1 = ord" using t1(4) ord by (simp add: same_meta_def)
  have "shrunk t1 (lsp c @ spine ?G @ rsp c) (after_merge (gid ?L) i t1)"
    by (rule after_merge_spec [OF t1(2) laxG cb]) (use up [OF t1(2) laxG _ o1] in simp)
  then have "shrunk t (lsp c @ spine ?G @ rsp c) (after_merge (gid ?L) i t1)" by (rule shrunk_trans [OF t1(3,4)])
  then show ?thesis unfolding sp t1(1) using L(1) by simp
qed

lemma borrow_left_up_spec:
  assumes z: "zipped t c (GNode i (lk @ k # rk) (lg @ L # R # rg))" and len: "length lg = length lk" "length rg = length rk"
    and bal: "lax (Suc n) L" "2 \<le> gkeys L" "lax (Suc n) R" "list_all (bal (Suc n)) lg" "list_all (bal (Suc n)) rg"
    and cb: "cbal c (Suc (Suc n))"
  shows "shrunk t (lsp c @ spine (GNode i (lk @ k # rk) (lg @ L # R # rg)) @ rsp c)
    (borrow_from_left (gid R) (gid L) i (Suc (length lk)) t)"
proof -
  obtain a Ks Gs where L': "L = GNode a Ks Gs" "length Gs = Suc (length Ks)" "list_all (bal n) Gs" "2 \<le> length Ks"
    using bal(1,2) by (cases L) auto
  obtain ks x where ks: "Ks = ks @ [x]" using L'(4) by (cases Ks rule: rev_cases) auto
  obtain gs d where gs: "Gs = gs @ [d]" using L'(2) by (cases Gs rule: rev_cases) auto
  note L = L' [unfolded ks gs]
  obtain b ks' gs' where R: "R = GNode b ks' gs'" "length gs' = Suc (length ks')" "list_all (bal n) gs'" using bal(3) by (cases R) auto
  let ?L = "GNode a ks gs" and ?R = "GNode b (k # ks') (d # gs')"
  let ?G = "GNode i (lk @ x # rk) (lg @ ?L # ?R # rg)"
  obtain t1 where t1: "borrow_from_left (gid R) (gid L) i (Suc (length lk)) t = Some t1" "zipped t1 c ?G" "same_links t t1" "same_meta t t1"
    using borrow_left_inner_spec [OF z [unfolded L(1) R(1)] len(1)] L(1) R(1) by auto
  have len': "length gs = Suc (length ks)" using L(2) by simp
  have sp: "spine (GNode i (lk @ k # rk) (lg @ L # R # rg)) = spine ?G"
    unfolding spine_pair [OF len] using spine_rotate [OF len' R(2), of a x d k b] L(1) R(1) by (simp del: spine.simps)
  have "bal (Suc (Suc n)) ?G" using L R len bal(4,5) len' by (cases ks) auto
  then show ?thesis unfolding sp t1(1) by (intro shrunkI zipped_represents [OF t1(2) cb] t1(3,4))
qed

lemma borrow_right_up_spec:
  assumes z: "zipped t c (GNode i (lk @ k # rk) (lg @ L # R # rg))" and len: "length lg = length lk" "length rg = length rk"
    and bal: "lax (Suc n) L" "2 \<le> gkeys R" "lax (Suc n) R" "list_all (bal (Suc n)) lg" "list_all (bal (Suc n)) rg"
    and cb: "cbal c (Suc (Suc n))"
  shows "shrunk t (lsp c @ spine (GNode i (lk @ k # rk) (lg @ L # R # rg)) @ rsp c)
    (borrow_from_right (gid L) (gid R) i (length lk) t)"
proof -
  obtain b Ks Gs where R': "R = GNode b Ks Gs" "length Gs = Suc (length Ks)" "list_all (bal n) Gs" "2 \<le> length Ks"
    using bal(2,3) by (cases R) auto
  obtain x ks' where ks: "Ks = x # ks'" using R'(4) by (cases Ks) auto
  obtain d gs' where gs: "Gs = d # gs'" using R'(2) by (cases Gs) auto
  note R = R' [unfolded ks gs]
  obtain a ks gs where L: "L = GNode a ks gs" "length gs = Suc (length ks)" "list_all (bal n) gs" using bal(1) by (cases L) auto
  let ?L = "GNode a (ks @ [k]) (gs @ [d])" and ?R = "GNode b ks' gs'"
  let ?G = "GNode i (lk @ x # rk) (lg @ ?L # ?R # rg)"
  obtain t1 where t1: "borrow_from_right (gid L) (gid R) i (length lk) t = Some t1" "zipped t1 c ?G" "same_links t t1" "same_meta t t1"
    using borrow_right_inner_spec [OF z [unfolded L(1) R(1)] len(1)] L(1) R(1) by auto
  have len': "length gs' = Suc (length ks')" using R(2) by simp
  have sp: "spine (GNode i (lk @ k # rk) (lg @ L # R # rg)) = spine ?G"
    unfolding spine_pair [OF len] using spine_rotate [OF L(2) len', of a k d x b] L(1) R(1) by (simp del: spine.simps)
  have "bal (Suc (Suc n)) ?G" using L R len bal(4,5) len' by (cases ks') auto
  then show ?thesis unfolding sp t1(1) by (intro shrunkI zipped_represents [OF t1(2) cb] t1(3,4))
qed

text \<open>An internal node with too few keys: the tree is restructured and its spine stays.\<close>

lemma inner_underflow:
  assumes "zipped t c g" "lax (Suc n) g" "cbal c (Suc n)" "c \<noteq> []" "bt_order t = ord" "3 \<le> ord"
  shows "shrunk t (lsp c @ spine g @ rsp c) (handle_underflow (gid g) t)"
  using assms(1-5)
proof (induction c arbitrary: t g n)
  case (Cons f c)
  obtain i lk lg rk rg where f: "f = Frame i lk lg rk rg" by (cases f)
  have z: "zipped t (Frame i lk lg rk rg # c) g" using Cons.prems(1) f by simp
  have len: "length lg = length lk" "length rg = length rk" and cb: "cbal c (Suc (Suc n))" and ne: "lk @ rk \<noteq> []"
    and sub: "list_all (bal (Suc n)) lg" "list_all (bal (Suc n)) rg"
    using Cons.prems(3) f by auto
  have up: "shrunk t (lsp c @ spine g @ rsp c) (handle_underflow (gid g) t)"
    if "zipped t c g" "lax (Suc (Suc n)) g" "c \<noteq> []" "bt_order t = ord" for t g
    using Cons.IH that cb by blast
  have zp: "zipped t c (GNode i (lk @ rk) (lg @ g # rg))" using z zipped_up by blast
  have sp: "lsp (f # c) @ spine g @ rsp (f # c) = lsp c @ spine (GNode i (lk @ rk) (lg @ g # rg)) @ rsp c"
    using spine_node [of lk lg rk rg i g] len f by simp
  have least: "1 \<le> min_keys (bt_order t)" using min_keys_pos [of ord] assms(6) Cons.prems(5) by simp
  have keep: "shrunk t (lsp (f # c) @ spine g @ rsp (f # c)) (Some t)" if "gkeys g \<ge> min_keys (bt_order t)"
  proof -
    have "bal (Suc n) g" using Cons.prems(2) least that by (cases g) auto
    from zipped_represents [OF Cons.prems(1,3) this] show ?thesis by (rule shrunkI) simp_all
  qed
  have left: "shrunk t (lsp (f # c) @ spine g @ rsp (f # c)) (if gkeys (last lg) > min_keys (bt_order t)
      then borrow_from_left (gid g) (gid (last lg)) i (length lg) t
      else merge_contents (gid (last lg)) (gid g) i (length lg - 1) t \<bind> after_merge (gid (last lg)) i)" if lne: "lg \<noteq> []"
  proof -
    obtain lg' L where lg: "lg = lg' @ [L]" using lne by (cases lg rule: rev_cases) auto
    obtain lk' k where lk: "lk = lk' @ [k]" using lne len(1) by (cases lk rule: rev_cases) auto
    have z': "zipped t c (GNode i (lk' @ k # rk) (lg' @ L # g # rg))" using zp lg lk by simp
    have len': "length lg' = length lk'" "length rg = length rk" using len lg lk by simp_all
    have L: "lax (Suc n) L" "list_all (bal (Suc n)) lg'" using sub(1) lg bal_lax by auto
    show ?thesis
    proof (cases "gkeys L > min_keys (bt_order t)")
      case True
      then have "2 \<le> gkeys L" using least by simp
      from borrow_left_up_spec [OF z' len' L(1) this Cons.prems(2) L(2) sub(2) cb]
      show ?thesis unfolding sp using True lg lk len' by simp
    next
      case False
      have "shrunk t (lsp c @ spine (GNode i (lk' @ k # rk) (lg' @ L # g # rg)) @ rsp c)
          (merge_contents (gid L) (gid g) i (length lk') t \<bind> after_merge (gid L) i)"
        by (rule merge_up_spec [OF z' len' L(1) Cons.prems(2) L(2) sub(2) cb _ Cons.prems(5)]) (rule up)
      then show ?thesis unfolding sp using False lg lk len' by simp
    qed
  qed
  have right: "shrunk t (lsp (f # c) @ spine g @ rsp (f # c)) (if gkeys (hd rg) > min_keys (bt_order t)
      then borrow_from_right (gid g) (gid (hd rg)) i (length lg) t
      else merge_contents (gid g) (gid (hd rg)) i (length lg) t \<bind> after_merge (gid g) i)" if rne: "rg \<noteq> []"
  proof -
    obtain R rg' where rg: "rg = R # rg'" using rne by (cases rg) auto
    obtain k rk' where rk: "rk = k # rk'" using rne len(2) by (cases rk) auto
    have z': "zipped t c (GNode i (lk @ k # rk') (lg @ g # R # rg'))" using zp rg rk by simp
    have len': "length lg = length lk" "length rg' = length rk'" using len rg rk by simp_all
    have R: "lax (Suc n) R" "list_all (bal (Suc n)) rg'" using sub(2) rg bal_lax by auto
    show ?thesis
    proof (cases "gkeys R > min_keys (bt_order t)")
      case True
      then have "2 \<le> gkeys R" using least by simp
      from borrow_right_up_spec [OF z' len' Cons.prems(2) this R(1) sub(1) R(2) cb]
      show ?thesis unfolding sp using True rg rk len' by simp
    next
      case False
      have "shrunk t (lsp c @ spine (GNode i (lk @ k # rk') (lg @ g # R # rg')) @ rsp c)
          (merge_contents (gid g) (gid R) i (length lk) t \<bind> after_merge (gid g) i)"
        by (rule merge_up_spec [OF z' len' Cons.prems(2) R(1) sub(1) R(2) cb _ Cons.prems(5)]) (rule up)
      then show ?thesis unfolding sp using False rg rk len' by simp
    qed
  qed
  have some: "lg \<noteq> [] \<or> rg \<noteq> []" using ne len by auto
  show ?case
    unfolding handle_underflow_step [OF z] using keep left right some
    by (cases "gkeys g \<ge> min_keys (bt_order t)"; cases "lg = []"; cases "rg = []";
        cases "gkeys (last lg) > min_keys (bt_order t)"; cases "gkeys (hd rg) > min_keys (bt_order t)"; simp)
qed simp

end
