(* ===== verification/Cynos_Btree_Delete.thy ===== *)
theory Cynos_Btree_Delete
  imports Cynos_Btree_Shrink
begin

text \<open>
  Deletion from the B+ tree: what an underflow does to the leaves and their chain, and the entries left.
\<close>

section \<open>The four changes of an empty leaf\<close>

text \<open>The leaf \<open>i\<close> is empty, between \<open>l\<close> and \<open>r\<close>: it gets an entry of a sibling, or is merged with one.\<close>

inductive leaf_step :: "nat \<Rightarrow> 'k item list \<Rightarrow> 'k item list \<Rightarrow> 'k item list \<Rightarrow> bool" for i where
  borrow_left: "kl \<noteq> [] \<Longrightarrow>
    leaf_step i (l @ [Leaf a (kl @ [e]), Sep k]) r (l @ Leaf a kl # Sep (fst e) # Leaf i [e] # r)"
| borrow_right:
    "leaf_step i l (Sep k # Leaf b (e # e' # kr) # r) (l @ Leaf i [e] # Sep (fst e') # Leaf b (e' # kr) # r)"
| merge_left: "leaf_step i (l @ [Leaf a kl, Sep k]) r (l @ Leaf a kl # r)"
| merge_right: "leaf_step i l (Sep k # Leaf b kr # r) (l @ Leaf i kr # r)"

lemma sorted_drop_middle: "sorted_wrt P (xs @ ys @ zs) \<Longrightarrow> sorted_wrt P (xs @ zs)"
  by (auto simp: sorted_wrt_append)

lemma leaf_step_entries: "leaf_step i l r sp \<Longrightarrow> entries sp = entries l @ entries r"
  by (induction rule: leaf_step.induct) simp_all

lemma leaf_step_ordered: "leaf_step i l r sp \<Longrightarrow> ordered (l @ Leaf i [] # r) \<Longrightarrow> ordered sp"
proof (induction rule: leaf_step.induct)
  case (borrow_left kl l a e k r)
  obtain kl' e' where kl: "kl = kl' @ [e']" using borrow_left(1) by (cases kl rule: rev_cases) auto
  let ?xs = "seq l @ map (\<lambda>e. (fst e, True)) kl'"
  have "sorted_wrt plt (?xs @ (fst e', True) # (fst e, True) # seq r)"
    using borrow_left(2) kl
      sorted_drop_middle [of plt "?xs @ [(fst e', True), (fst e, True)]" "[(k, False)]" "seq r"]
    by (simp add: ordered_def)
  from sorted_insert_sep [OF this] show ?case using kl by (simp add: ordered_def)
next
  case (borrow_right l k b e e' kr r)
  have "sorted_wrt plt (seq l @ (fst e, True) # (fst e', True) # map (\<lambda>e. (fst e, True)) kr @ seq r)"
    using borrow_right sorted_drop_middle [of plt "seq l" "[(k, False)]"] by (simp add: ordered_def)
  from sorted_insert_sep [OF this] show ?case by (simp add: ordered_def)
next
  case (merge_left l a kl k r)
  then show ?case
    using sorted_drop_middle [of plt "seq l @ map (\<lambda>e. (fst e, True)) kl" "[(k, False)]" "seq r"] by (simp add: ordered_def)
next
  case (merge_right l k b kr r)
  then show ?case using sorted_drop_middle [of plt "seq l" "[(k, False)]"] by (simp add: ordered_def)
qed

section \<open>The chain of leaves\<close>

lemma linked_remove_right:
  fixes t :: "'k btree" and na na' nb' :: "'k bnode"
  assumes chain: "linked t None (ls @ a # b # rs) None" and dist: "distinct (ls @ a # b # rs)"
    and na: "bt_at t a = Some na" "nd_prev na' = nd_prev na" "nd_next na' = first_of rs None"
  defines "t1 \<equiv> bt_put a na' (bt_put b nb' t)"
  shows "linked (case rs of [] \<Rightarrow> t1 | r # _ \<Rightarrow> bt_put r ((the (bt_at t1 r))\<lparr>nd_prev := Some a\<rparr>) t1) None (ls @ a # rs) None"
    (is "linked ?t None _ None")
proof -
  have parts: "linked t None ls (Some a)" "nd_prev na = last_of None ls" "linked t (Some b) rs None"
    using chain na(1) by (auto simp: linked_append)
  have ne: "a \<noteq> b" "a \<notin> set ls" "b \<notin> set ls" "a \<notin> set rs" "b \<notin> set rs" using dist by auto
  have l1: "linked t1 None ls (Some a)" "linked t1 (Some b) rs None" and a1: "bt_at t1 a = Some na'"
    using parts ne na(1) by (simp_all add: t1_def linked_put bt_at_put)
  show ?thesis
  proof (cases rs)
    case Nil
    then show ?thesis using l1 a1 parts(2) na by (simp add: linked_append)
  next
    case (Cons r rs')
    then obtain nr where nr: "bt_at t1 r = Some nr" "nd_next nr = first_of rs' None" "linked t1 (Some r) rs' None"
      using l1(2) by auto
    have ner: "r \<notin> set ls" "r \<notin> set rs'" "a \<noteq> r" using dist Cons by auto
    then show ?thesis using Cons l1(1) a1 parts(2) na nr by (simp add: linked_append bt_at_put linked_put)
  qed
qed

section \<open>Merging leaves\<close>

lemma merge_leaf_spec:
  assumes z: "zipped t c (GNode i (lk @ k # rk) (lg @ GLeaf a kl # GLeaf b kr # rg))" and len: "length lg = length lk"
    and chain: "linked t None (ls @ a # b # rs) None" and dist: "distinct (ls @ a # b # rs)"
  shows "\<exists>t'. merge_contents a b i (length lk) t = Some t'
    \<and> zipped t' c (GNode i (lk @ rk) (lg @ GLeaf a (kl @ kr) # rg)) \<and> linked t' None (ls @ a # rs) None \<and> same_meta t t'"
proof -
  let ?top = "(i, Shape False (lk @ k # rk) [] (map gid lg @ a # b # map gid rg) (parent_of c))"
  let ?top' = "(i, Shape False (lk @ rk) [] (map gid lg @ a # map gid rg) (parent_of c))"
  let ?a = "(a, Shape True (map fst kl) (map snd kl) [] (Some i))" and ?b = "(b, Shape True (map fst kr) (map snd kr) [] (Some i))"
  let ?a' = "(a, Shape True (map fst (kl @ kr)) (map snd (kl @ kr)) [] (Some i))" and ?b' = "(b, Shape True [] [] [] (Some i))"
  let ?rest = "cnodes c i @ concat (map (nodes (Some i)) lg) @ concat (map (nodes (Some i)) rg)"
  have h: "holds t (?b # ?a # ?top # ?rest)"
    using z unfolding zipped_def
    by (subst holds_perm [where ns' = "cnodes c i @ nodes (parent_of c) (GNode i (lk @ k # rk) (lg @ GLeaf a kl # GLeaf b kr # rg))"])
      simp_all
  obtain na where na: "bt_at t a = Some na" "nd_is_leaf na" "nd_keys na = map fst kl" "nd_values na = map snd kl"
      "nd_children na = []" "nd_parent na = Some i"
    using leaf_at [OF h, of a kl "Some i"] by auto
  obtain nb where nb: "bt_at t b = Some nb" "nd_is_leaf nb" "nd_keys nb = map fst kr" "nd_values nb = map snd kr"
      "nd_children nb = []" "nd_parent nb = Some i"
    using leaf_at [OF h, of b kr "Some i"] by auto
  have nxt: "nd_next nb = first_of rs None" using chain nb(1) by (auto simp: linked_append)
  let ?nb = "nb\<lparr>nd_keys := [], nd_values := []\<rparr>"
  let ?na = "na\<lparr>nd_keys := map fst kl @ map fst kr, nd_values := map snd kl @ map snd kr, nd_next := nd_next nb\<rparr>"
  let ?t1 = "bt_put b ?nb t"
  let ?t2 = "bt_put a ?na ?t1"
  have "holds ?t1 (?b' # ?a # ?top # ?rest)"
    by (rule holds_put [OF h]) (use nb in \<open>simp add: shape_of_def\<close>)
  then have h1: "holds ?t1 (?a # ?b' # ?top # ?rest)"
    by (subst holds_perm [where ns' = "?b' # ?a # ?top # ?rest"]) simp_all
  have h2: "holds ?t2 (?a' # ?b' # ?top # ?rest)"
    by (rule holds_put [OF h1]) (use na in \<open>simp add: shape_of_def\<close>)
  define t3 where "t3 = (case rs of [] \<Rightarrow> ?t2 | r # _ \<Rightarrow> bt_put r ((the (bt_at ?t2 r))\<lparr>nd_prev := Some a\<rparr>) ?t2)"
  have chain3: "linked t3 None (ls @ a # rs) None"
    unfolding t3_def by (rule linked_remove_right [OF chain dist na(1)]) (use nxt in simp_all)
  have r2: "\<exists>nr. bt_at ?t2 r = Some nr" if "rs = r # rs'" for r rs'
    using chain that by (auto simp: linked_append bt_at_put)
  have step3: "(case nd_next nb of Some next_id \<Rightarrow> bt_mod next_id (\<lambda>n. n\<lparr>nd_prev := Some a\<rparr>) ?t2 | None \<Rightarrow> Some ?t2) = Some t3"
    and h3: "holds t3 ns = holds ?t2 ns" and meta3: "same_meta ?t2 t3" "bt_root t3 = bt_root ?t2" for ns
    using nxt r2 mod_links [where f = "\<lambda>n. n\<lparr>nd_prev := Some a\<rparr>" and t = "?t2"]
    by (auto simp: t3_def split: list.split)
  have h3': "holds t3 (?top # ?b' # ?a' # ?rest)"
    using h2 unfolding h3 by (subst holds_perm [where ns' = "?a' # ?b' # ?top # ?rest"]) simp_all
  obtain n where n: "bt_at t3 i = Some n" "vec_remove_at (length lk) (nd_keys n) = Some (k, lk @ rk)"
    "vec_remove_at (Suc (length lk)) (nd_children n) = Some (b, map gid lg @ a # map gid rg)"
    "holds (bt_put i (n\<lparr>nd_keys := lk @ rk, nd_children := map gid lg @ a # map gid rg\<rparr>) t3) (?top' # ?b' # ?a' # ?rest)"
    "same_links t3 (bt_put i (n\<lparr>nd_keys := lk @ rk, nd_children := map gid lg @ a # map gid rg\<rparr>) t3)"
    using parent_loses_child [OF h3'] len by auto
  define t4 where "t4 = bt_put i (n\<lparr>nd_keys := lk @ rk, nd_children := map gid lg @ a # map gid rg\<rparr>) t3"
  let ?G = "GNode i (lk @ rk) (lg @ GLeaf a (kl @ kr) # rg)"
  have "holds t4 ([?b'] @ (?top' # ?a' # ?rest))"
    using n(4) unfolding t4_def [symmetric] by (subst holds_perm [where ns' = "?top' # ?b' # ?a' # ?rest"]) simp_all
  then have "holds t4 (?top' # ?a' # ?rest)" by (rule holds_drop(2))
  then have "holds t4 (cnodes c i @ nodes (parent_of c) ?G)"
    by (subst holds_perm [where ns' = "?top' # ?a' # ?rest"]) simp_all
  then have "zipped t4 c ?G" using zipped_same_root [OF z, of t4 ?G] meta3(2) by (simp add: t4_def)
  moreover have "merge_contents a b i (length lk) t = Some t4"
    using na nb step3 n(1-3) by (simp add: merge_contents_def t4_def)
  moreover have "linked t4 None (ls @ a # rs) None" using linked_same [OF n(5) chain3] by (simp add: t4_def)
  moreover have "same_meta t t4" using meta3(1) by (simp add: t4_def same_meta_def)
  ultimately show ?thesis by blast
qed

section \<open>Borrowing between leaves\<close>

lemma borrow_left_leaf_spec:
  assumes z: "zipped t c (GNode i (lk @ k # rk) (lg @ GLeaf a (kl @ [e]) # GLeaf b kr # rg))" and len: "length lg = length lk"
  shows "\<exists>t'. borrow_from_left b a i (Suc (length lk)) t = Some t'
    \<and> zipped t' c (GNode i (lk @ fst e # rk) (lg @ GLeaf a kl # GLeaf b (e # kr) # rg)) \<and> same_links t t' \<and> same_meta t t'"
proof -
  let ?cs = "map gid lg @ a # b # map gid rg"
  let ?top = "(i, Shape False (lk @ k # rk) [] ?cs (parent_of c))" and ?top' = "(i, Shape False (lk @ fst e # rk) [] ?cs (parent_of c))"
  let ?leaf = "\<lambda>j kvs. (j, Shape True (map fst kvs) (map snd kvs) [] (Some i))"
  let ?a = "?leaf a (kl @ [e])" and ?b = "?leaf b kr" and ?a' = "?leaf a kl" and ?b' = "?leaf b (e # kr)"
  let ?rest = "cnodes c i @ concat (map (nodes (Some i)) lg) @ concat (map (nodes (Some i)) rg)"
  have h: "holds t (?a # ?b # ?top # ?rest)"
    using z unfolding zipped_def
    by (subst holds_perm [where ns' = "cnodes c i @ nodes (parent_of c) (GNode i (lk @ k # rk) (lg @ GLeaf a (kl @ [e]) # GLeaf b kr # rg))"])
      simp_all
  obtain na where na: "bt_at t a = Some na" "nd_is_leaf na" "nd_keys na = map fst (kl @ [e])" "nd_values na = map snd (kl @ [e])"
      "nd_children na = []" "nd_parent na = Some i"
    using leaf_at [OF h, of a "kl @ [e]" "Some i"] by auto
  obtain nb where nb: "bt_at t b = Some nb" "nd_is_leaf nb" "nd_keys nb = map fst kr" "nd_values nb = map snd kr"
      "nd_children nb = []" "nd_parent nb = Some i"
    using leaf_at [OF h, of b "kr" "Some i"] by auto
  obtain np where np: "bt_at t i = Some np" "\<not> nd_is_leaf np" "nd_keys np = lk @ k # rk" "nd_values np = []"
      "nd_children np = ?cs" "nd_parent np = parent_of c"
    using inner_at [OF h, of i "lk @ k # rk" ?cs "parent_of c"] by auto
  have ne: "a \<noteq> b" "a \<noteq> i" "b \<noteq> i" using h by (auto simp: holds_def)
  let ?t1 = "bt_put a (na\<lparr>nd_keys := map fst kl, nd_values := map snd kl\<rparr>) t"
  let ?t2 = "bt_put b (nb\<lparr>nd_keys := fst e # map fst kr, nd_values := snd e # map snd kr\<rparr>) ?t1"
  let ?t3 = "bt_put i (np\<lparr>nd_keys := lk @ fst e # rk\<rparr>) ?t2"
  have "holds ?t1 (?a' # ?b # ?top # ?rest)"
    by (rule holds_put [OF h]) (use na in \<open>simp add: shape_of_def\<close>)
  then have h1: "holds ?t1 (?b # ?a' # ?top # ?rest)"
    by (subst holds_perm [where ns' = "?a' # ?b # ?top # ?rest"]) simp_all
  have "holds ?t2 (?b' # ?a' # ?top # ?rest)"
    by (rule holds_put [OF h1]) (use nb in \<open>simp add: shape_of_def\<close>)
  then have h2: "holds ?t2 (?top # ?b' # ?a' # ?rest)"
    by (subst holds_perm [where ns' = "?b' # ?a' # ?top # ?rest"]) simp_all
  have h3: "holds ?t3 (?top' # ?b' # ?a' # ?rest)"
    by (rule holds_put [OF h2]) (use np in \<open>simp add: shape_of_def\<close>)
  let ?G = "GNode i (lk @ fst e # rk) (lg @ GLeaf a kl # GLeaf b (e # kr) # rg)"
  have "holds ?t3 (cnodes c i @ nodes (parent_of c) ?G)"
    using h3 by (subst holds_perm [where ns' = "?top' # ?b' # ?a' # ?rest"]) simp_all
  then have "zipped ?t3 c ?G" using zipped_same_root [OF z, of ?t3 ?G] by simp
  moreover have "borrow_from_left b a i (Suc (length lk)) t = Some ?t3"
    using na nb np ne by (simp add: borrow_from_left_def)
  moreover have "same_links t ?t3"
  proof -
    have "same_links t ?t1" by (rule same_links_put [OF na(1)]) simp_all
    also have "same_links ?t1 ?t2" by (rule same_links_put [where n = nb]) (use ne na nb in \<open>simp_all add: bt_at_put\<close>)
    also have "same_links ?t2 ?t3" by (rule same_links_put [where n = np]) (use ne np in \<open>simp_all add: bt_at_put\<close>)
    finally show ?thesis .
  qed
  moreover have "same_meta t ?t3" by simp
  ultimately show ?thesis by blast
qed

lemma borrow_right_leaf_spec:
  assumes z: "zipped t c (GNode i (lk @ k # rk) (lg @ GLeaf a kl # GLeaf b (e # e' # kr) # rg))" and len: "length lg = length lk"
  shows "\<exists>t'. borrow_from_right a b i (length lk) t = Some t'
    \<and> zipped t' c (GNode i (lk @ fst e' # rk) (lg @ GLeaf a (kl @ [e]) # GLeaf b (e' # kr) # rg)) \<and> same_links t t' \<and> same_meta t t'"
proof -
  let ?cs = "map gid lg @ a # b # map gid rg"
  let ?top = "(i, Shape False (lk @ k # rk) [] ?cs (parent_of c))" and ?top' = "(i, Shape False (lk @ fst e' # rk) [] ?cs (parent_of c))"
  let ?leaf = "\<lambda>j kvs. (j, Shape True (map fst kvs) (map snd kvs) [] (Some i))"
  let ?a = "?leaf a kl" and ?b = "?leaf b (e # e' # kr)" and ?a' = "?leaf a (kl @ [e])" and ?b' = "?leaf b (e' # kr)"
  let ?rest = "cnodes c i @ concat (map (nodes (Some i)) lg) @ concat (map (nodes (Some i)) rg)"
  have h: "holds t (?b # ?a # ?top # ?rest)"
    using z unfolding zipped_def
    by (subst holds_perm [where ns' = "cnodes c i @ nodes (parent_of c) (GNode i (lk @ k # rk) (lg @ GLeaf a kl # GLeaf b (e # e' # kr) # rg))"])
      simp_all
  obtain na where na: "bt_at t a = Some na" "nd_is_leaf na" "nd_keys na = map fst kl" "nd_values na = map snd kl"
      "nd_children na = []" "nd_parent na = Some i"
    using leaf_at [OF h, of a "kl" "Some i"] by auto
  obtain nb where nb: "bt_at t b = Some nb" "nd_is_leaf nb" "nd_keys nb = map fst (e # e' # kr)" "nd_values nb = map snd (e # e' # kr)"
      "nd_children nb = []" "nd_parent nb = Some i"
    using leaf_at [OF h, of b "e # e' # kr" "Some i"] by auto
  obtain np where np: "bt_at t i = Some np" "\<not> nd_is_leaf np" "nd_keys np = lk @ k # rk" "nd_values np = []"
      "nd_children np = ?cs" "nd_parent np = parent_of c"
    using inner_at [OF h, of i "lk @ k # rk" ?cs "parent_of c"] by auto
  have ne: "a \<noteq> b" "a \<noteq> i" "b \<noteq> i" using h by (auto simp: holds_def)
  let ?t1 = "bt_put b (nb\<lparr>nd_keys := fst e' # map fst kr, nd_values := snd e' # map snd kr\<rparr>) t"
  let ?t2 = "bt_put a (na\<lparr>nd_keys := map fst kl @ [fst e], nd_values := map snd kl @ [snd e]\<rparr>) ?t1"
  let ?t3 = "bt_put i (np\<lparr>nd_keys := lk @ fst e' # rk\<rparr>) ?t2"
  have "holds ?t1 (?b' # ?a # ?top # ?rest)"
    by (rule holds_put [OF h]) (use nb in \<open>simp add: shape_of_def\<close>)
  then have h1: "holds ?t1 (?a # ?b' # ?top # ?rest)"
    by (subst holds_perm [where ns' = "?b' # ?a # ?top # ?rest"]) simp_all
  have "holds ?t2 (?a' # ?b' # ?top # ?rest)"
    by (rule holds_put [OF h1]) (use na in \<open>simp add: shape_of_def\<close>)
  then have h2: "holds ?t2 (?top # ?a' # ?b' # ?rest)"
    by (subst holds_perm [where ns' = "?a' # ?b' # ?top # ?rest"]) simp_all
  have h3: "holds ?t3 (?top' # ?a' # ?b' # ?rest)"
    by (rule holds_put [OF h2]) (use np in \<open>simp add: shape_of_def\<close>)
  let ?G = "GNode i (lk @ fst e' # rk) (lg @ GLeaf a (kl @ [e]) # GLeaf b (e' # kr) # rg)"
  have "holds ?t3 (cnodes c i @ nodes (parent_of c) ?G)"
    using h3 by (subst holds_perm [where ns' = "?top' # ?a' # ?b' # ?rest"]) simp_all
  then have "zipped ?t3 c ?G" using zipped_same_root [OF z, of ?t3 ?G] by simp
  moreover have "borrow_from_right a b i (length lk) t = Some ?t3"
    using na nb np ne by (simp add: borrow_from_right_def)
  moreover have "same_links t ?t3"
  proof -
    have "same_links t ?t1" by (rule same_links_put [OF nb(1)]) simp_all
    also have "same_links ?t1 ?t2" by (rule same_links_put [where n = na]) (use ne na nb in \<open>simp_all add: bt_at_put\<close>)
    also have "same_links ?t2 ?t3" by (rule same_links_put [where n = np]) (use ne np in \<open>simp_all add: bt_at_put\<close>)
    finally show ?thesis .
  qed
  moreover have "same_meta t ?t3" by simp
  ultimately show ?thesis by blast
qed

section \<open>Underflow of a leaf\<close>

lemma bal_leaf: "bal 0 g \<Longrightarrow> \<exists>i kvs. g = GLeaf i kvs"
  by (cases g) auto

lemma after_leaf_merge:
  assumes z: "zipped t c (GNode i ks (lg @ g # rg))" and lax: "lax (Suc 0) (GNode i ks (lg @ g # rg))" and cb: "cbal c (Suc 0)"
    and ord: "3 \<le> bt_order t"
  shows "shrunk t (lsp c @ spine (GNode i ks (lg @ g # rg)) @ rsp c) (after_merge (gid g) i t)"
  by (rule after_merge_spec [OF z lax cb]) (use inner_underflow [OF z lax cb _ refl ord] in simp)

lemma leaf_merge_up:
  assumes z: "zipped t c (GNode i (lk @ k # rk) (lg @ GLeaf a kl # GLeaf b kr # rg))"
    and len: "length lg = length lk" "length rg = length rk" and sub: "list_all (bal 0) lg" "list_all (bal 0) rg"
    and cb: "cbal c (Suc 0)" and ord: "3 \<le> bt_order t"
    and chain: "linked t None (ls @ a # b # rs) None" and dist: "distinct (ls @ a # b # rs)"
    and l: "l = lsp c @ lweave lk (map spine lg)" and r: "r = rweave rk (map spine rg) @ rsp c"
  shows "\<exists>t'. merge_contents a b i (length lk) t \<bind> after_merge a i = Some t'
    \<and> represents t' (l @ Leaf a (kl @ kr) # r) \<and> linked t' None (ls @ a # rs) None \<and> same_meta t t'"
proof -
  let ?G = "GNode i (lk @ rk) (lg @ GLeaf a (kl @ kr) # rg)"
  obtain t1 where t1: "merge_contents a b i (length lk) t = Some t1" "zipped t1 c ?G" "linked t1 None (ls @ a # rs) None" "same_meta t t1"
    using merge_leaf_spec [OF z len(1) chain dist] by blast
  have "lax (Suc 0) ?G" using len sub by simp
  moreover have "3 \<le> bt_order t1" using ord t1(4) by (simp add: same_meta_def)
  ultimately have "shrunk t1 (lsp c @ spine ?G @ rsp c) (after_merge (gid (GLeaf a (kl @ kr))) i t1)"
    by (rule after_leaf_merge [OF t1(2) _ cb])
  then obtain t2 where t2: "after_merge a i t1 = Some t2" "represents t2 (lsp c @ spine ?G @ rsp c)" "same_links t1 t2" "same_meta t1 t2"
    by (auto simp: shrunk_def)
  have sp: "lsp c @ spine ?G @ rsp c = l @ Leaf a (kl @ kr) # r"
    using spine_node [of lk lg rk rg i "GLeaf a (kl @ kr)"] len l r by simp
  have "merge_contents a b i (length lk) t \<bind> after_merge a i = Some t2" using t1(1) t2(1) by simp
  then show ?thesis
    using t2(2) linked_same [OF t2(3) t1(3)] same_meta_trans [OF t1(4) t2(4)] unfolding sp by blast
qed

text \<open>What handling the underflow of the empty leaf \<open>i\<close> amounts to.\<close>

definition leaf_handled :: "nat \<Rightarrow> 'k::linorder item list \<Rightarrow> 'k item list \<Rightarrow> 'k btree \<Rightarrow> 'k btree option \<Rightarrow> bool" where
  "leaf_handled i l r t res \<longleftrightarrow> (\<exists>t' sp. res = Some t' \<and> leaf_step i l r sp \<and> represents t' sp
     \<and> linked t' None (leaf_ids sp) None \<and> same_meta t t')"

lemma leaf_handledI:
  "leaf_step i l r sp \<Longrightarrow> represents t' sp \<Longrightarrow> linked t' None (leaf_ids sp) None \<Longrightarrow> same_meta t t'
    \<Longrightarrow> leaf_handled i l r t (Some t')"
  unfolding leaf_handled_def by blast

lemma leaf_underflow_left:
  assumes z: "zipped t c (GNode i (lk @ k # rk) (lg @ L # GLeaf j [] # rg))"
    and len: "length lg = length lk" "length rg = length rk" and sub: "bal 0 L" "list_all (bal 0) lg" "list_all (bal 0) rg"
    and cb: "cbal c (Suc 0)" and ord: "3 \<le> bt_order t"
    and l: "l = lsp c @ lweave (lk @ [k]) (map spine (lg @ [L]))" and r: "r = rweave rk (map spine rg) @ rsp c"
    and chain: "linked t None (leaf_ids l @ j # leaf_ids r) None" and dist: "distinct (leaf_ids l @ j # leaf_ids r)"
  shows "leaf_handled j l r t (if gkeys L > min_keys (bt_order t)
      then borrow_from_left j (gid L) i (Suc (length lg)) t
      else merge_contents (gid L) j i (length lg) t \<bind> after_merge (gid L) i)"
proof -
  obtain a kvs where L: "L = GLeaf a kvs" using bal_leaf [OF sub(1)] by blast
  define l' where "l' = lsp c @ lweave lk (map spine lg)"
  have l_eq: "l = l' @ [Leaf a kvs, Sep k]" using l L len by (simp add: l'_def)
  show ?thesis
  proof (cases "gkeys L > min_keys (bt_order t)")
    case True
    then have "2 \<le> length kvs" using L min_keys_pos [OF ord] by simp
    then obtain kl e where kvs: "kvs = kl @ [e]" "kl \<noteq> []"
      by (cases kvs rule: rev_cases) (auto simp: Suc_le_eq)
    let ?G = "GNode i (lk @ fst e # rk) (lg @ GLeaf a kl # GLeaf j (e # []) # rg)"
    let ?sp = "l' @ Leaf a kl # Sep (fst e) # Leaf j [e] # r"
    obtain t1 where t1: "borrow_from_left j a i (Suc (length lk)) t = Some t1" "zipped t1 c ?G" "same_links t t1" "same_meta t t1"
      using borrow_left_leaf_spec [OF z [unfolded L kvs(1)] len(1)] by blast
    have bal: "bal (Suc 0) ?G" using len sub by simp
    have "lsp c @ spine ?G @ rsp c = ?sp"
      unfolding spine_pair [OF len] using r by (simp add: l'_def)
    then have rep: "represents t1 ?sp" using zipped_represents [OF t1(2) cb bal] by (simp only:)
    have "linked t1 None (leaf_ids ?sp) None" using linked_same [OF t1(3) chain] l_eq by simp
    moreover have "leaf_step j l r ?sp" unfolding l_eq kvs(1) by (rule leaf_step.borrow_left [OF kvs(2)])
    ultimately show ?thesis using leaf_handledI [OF _ rep _ t1(4)] True t1(1) L len by simp
  next
    case False
    have z': "zipped t c (GNode i (lk @ k # rk) (lg @ GLeaf a kvs # GLeaf j [] # rg))" using z L by simp
    have chain': "linked t None (leaf_ids l' @ a # j # leaf_ids r) None" "distinct (leaf_ids l' @ a # j # leaf_ids r)"
      using chain dist l_eq by simp_all
    obtain t1 where t1: "merge_contents a j i (length lk) t \<bind> after_merge a i = Some t1"
      "represents t1 (l' @ Leaf a (kvs @ []) # r)" "linked t1 None (leaf_ids l' @ a # leaf_ids r) None" "same_meta t t1"
      using leaf_merge_up [OF z' len sub(2,3) cb ord chain' l'_def r] by blast
    have "leaf_step j l r (l' @ Leaf a kvs # r)" unfolding l_eq by (rule leaf_step.merge_left)
    then have "leaf_handled j l r t (Some t1)" by (rule leaf_handledI) (use t1 in simp_all)
    then show ?thesis using False t1(1) L len by simp
  qed
qed

lemma leaf_underflow_right:
  assumes z: "zipped t c (GNode i (lk @ k # rk) (lg @ GLeaf j [] # R # rg))"
    and len: "length lg = length lk" "length rg = length rk" and sub: "bal 0 R" "list_all (bal 0) lg" "list_all (bal 0) rg"
    and cb: "cbal c (Suc 0)" and ord: "3 \<le> bt_order t"
    and l: "l = lsp c @ lweave lk (map spine lg)" and r: "r = rweave (k # rk) (map spine (R # rg)) @ rsp c"
    and chain: "linked t None (leaf_ids l @ j # leaf_ids r) None" and dist: "distinct (leaf_ids l @ j # leaf_ids r)"
  shows "leaf_handled j l r t (if gkeys R > min_keys (bt_order t)
      then borrow_from_right j (gid R) i (length lg) t
      else merge_contents j (gid R) i (length lg) t \<bind> after_merge j i)"
proof -
  obtain b kvs where R: "R = GLeaf b kvs" using bal_leaf [OF sub(1)] by blast
  define r' where "r' = rweave rk (map spine rg) @ rsp c"
  have r_eq: "r = Sep k # Leaf b kvs # r'" using r R by (simp add: r'_def)
  show ?thesis
  proof (cases "gkeys R > min_keys (bt_order t)")
    case True
    then have "2 \<le> length kvs" using R min_keys_pos [OF ord] by simp
    then obtain e e' kr where kvs: "kvs = e # e' # kr" by (cases kvs; cases "tl kvs") auto
    let ?G = "GNode i (lk @ fst e' # rk) (lg @ GLeaf j ([] @ [e]) # GLeaf b (e' # kr) # rg)"
    let ?sp = "l @ Leaf j [e] # Sep (fst e') # Leaf b (e' # kr) # r'"
    obtain t1 where t1: "borrow_from_right j b i (length lk) t = Some t1" "zipped t1 c ?G" "same_links t t1" "same_meta t t1"
      using borrow_right_leaf_spec [OF z [unfolded R kvs(1)] len(1)] by blast
    have bal: "bal (Suc 0) ?G" using len sub by simp
    have "lsp c @ spine ?G @ rsp c = ?sp"
      unfolding spine_pair [OF len] using l by (simp add: r'_def)
    then have rep: "represents t1 ?sp" using zipped_represents [OF t1(2) cb bal] by (simp only:)
    have "linked t1 None (leaf_ids ?sp) None" using linked_same [OF t1(3) chain] r_eq by simp
    moreover have "leaf_step j l r ?sp" unfolding r_eq kvs(1) by (rule leaf_step.borrow_right)
    ultimately show ?thesis using leaf_handledI [OF _ rep _ t1(4)] True t1(1) R len by simp
  next
    case False
    have z': "zipped t c (GNode i (lk @ k # rk) (lg @ GLeaf j [] # GLeaf b kvs # rg))" using z R by simp
    have chain': "linked t None (leaf_ids l @ j # b # leaf_ids r') None" "distinct (leaf_ids l @ j # b # leaf_ids r')"
      using chain dist r_eq by simp_all
    obtain t1 where t1: "merge_contents j b i (length lk) t \<bind> after_merge j i = Some t1"
      "represents t1 (l @ Leaf j ([] @ kvs) # r')" "linked t1 None (leaf_ids l @ j # leaf_ids r') None" "same_meta t t1"
      using leaf_merge_up [OF z' len sub(2,3) cb ord chain' l r'_def] by blast
    have "leaf_step j l r (l @ Leaf j kvs # r')" unfolding r_eq by (rule leaf_step.merge_right)
    then have "leaf_handled j l r t (Some t1)" by (rule leaf_handledI) (use t1 in simp_all)
    then show ?thesis using False t1(1) R len by simp
  qed
qed

lemma leaf_underflow:
  assumes z: "zipped t c (GLeaf j [])" and cb: "cbal c 0" and ne: "c \<noteq> []" and ord: "3 \<le> bt_order t"
    and chain: "linked t None (leaf_ids (lsp c) @ j # leaf_ids (rsp c)) None"
  shows "leaf_handled j (lsp c) (rsp c) t (handle_underflow j t)"
proof -
  have "represents t (lsp c @ spine (GLeaf j []) @ rsp c)" using zipped_represents [OF z cb] by simp
  then have dist: "distinct (leaf_ids (lsp c) @ j # leaf_ids (rsp c))" using leaf_ids_distinct by fastforce
  obtain i lk lg rk rg c' where c: "c = Frame i lk lg rk rg # c'" using ne by (cases c rule: parent_of.cases) auto
  have z0: "zipped t (Frame i lk lg rk rg # c') (GLeaf j [])" using z c by simp
  have zp: "zipped t c' (GNode i (lk @ rk) (lg @ GLeaf j [] # rg))" using z0 zipped_up by blast
  have len: "length lg = length lk" "length rg = length rk" and cb': "cbal c' (Suc 0)" and nek: "lk @ rk \<noteq> []"
    and sub: "list_all (bal 0) lg" "list_all (bal 0) rg"
    using cb c by auto
  have least: "0 < min_keys (bt_order t)" using min_keys_pos [OF ord] by simp
  have left: "leaf_handled j (lsp c) (rsp c) t (if gkeys (last lg) > min_keys (bt_order t)
      then borrow_from_left j (gid (last lg)) i (length lg) t
      else merge_contents (gid (last lg)) j i (length lg - 1) t \<bind> after_merge (gid (last lg)) i)" if lne: "lg \<noteq> []"
  proof -
    obtain lg' L where lg: "lg = lg' @ [L]" using lne by (cases lg rule: rev_cases) auto
    obtain lk' k where lk: "lk = lk' @ [k]" using lne len(1) by (cases lk rule: rev_cases) auto
    have "leaf_handled j (lsp c) (rsp c) t (if gkeys L > min_keys (bt_order t)
      then borrow_from_left j (gid L) i (Suc (length lg')) t
      else merge_contents (gid L) j i (length lg') t \<bind> after_merge (gid L) i)"
      by (rule leaf_underflow_left [of t c' i lk' k rk lg' L j rg])
        (use zp len sub cb' ord chain dist c lg lk in simp_all)
    then show ?thesis using lg by (simp split: if_splits)
  qed
  have right: "leaf_handled j (lsp c) (rsp c) t (if gkeys (hd rg) > min_keys (bt_order t)
      then borrow_from_right j (gid (hd rg)) i (length lg) t
      else merge_contents j (gid (hd rg)) i (length lg) t \<bind> after_merge j i)" if rne: "rg \<noteq> []"
  proof -
    obtain R rg' where rg: "rg = R # rg'" using rne by (cases rg) auto
    obtain k rk' where rk: "rk = k # rk'" using rne len(2) by (cases rk) auto
    have "leaf_handled j (lsp c) (rsp c) t (if gkeys R > min_keys (bt_order t)
      then borrow_from_right j (gid R) i (length lg) t
      else merge_contents j (gid R) i (length lg) t \<bind> after_merge j i)"
      by (rule leaf_underflow_right [of t c' i lk k rk' lg j R rg'])
        (use zp len sub cb' ord chain dist c rg rk in simp_all)
    then show ?thesis using rg by (simp split: if_splits)
  qed
  have some: "lg \<noteq> [] \<or> rg \<noteq> []" using nek len by auto
  show ?thesis
    using handle_underflow_step [OF z0] left right some least
    by (cases "lg = []"; cases "rg = []"; cases "gkeys (last lg) > min_keys (bt_order t)";
        cases "gkeys (hd rg) > min_keys (bt_order t)"; simp)
qed

section \<open>Removing row ids\<close>

text \<open>The row ids left of a key; without any the key goes.\<close>

definition kept_rows :: "row_id option \<Rightarrow> row_id list \<Rightarrow> row_id list" where
  "kept_rows w vs = (case w of None \<Rightarrow> [] | Some v \<Rightarrow> filter (\<lambda>x. x \<noteq> v) vs)"

definition kept_entry :: "'k \<Rightarrow> row_id list \<Rightarrow> ('k \<times> row_id list) list" where
  "kept_entry k vs = (if vs = [] then [] else [(k, vs)])"

fun prune :: "'k \<Rightarrow> (row_id list \<Rightarrow> row_id list) \<Rightarrow> ('k \<times> row_id list) list \<Rightarrow> ('k \<times> row_id list) list" where
  "prune key f [] = []"
| "prune key f ((k, vs) # kvs) = (if k = key then kept_entry k (f vs) @ kvs else (k, vs) # prune key f kvs)"

lemma prune_found: "key \<notin> fst ` set kl \<Longrightarrow> prune key f (kl @ (key, vs) # kr) = kl @ kept_entry key (f vs) @ kr"
  by (induction kl) auto

lemma prune_absent: "key \<notin> fst ` set kvs \<Longrightarrow> prune key f kvs = kvs"
  by (induction kvs) auto

lemma prune_rows:
  assumes "sorted_wrt (<) (map fst kvs)" "f [] = []"
  shows "rows_at (prune key f kvs) k = (if k = (key :: 'k::linorder) then f (rows_at kvs key) else rows_at kvs k)"
  using assms
proof (induction kvs)
  case (Cons e kvs)
  obtain k' vs where e: "e = (k', vs)" by fastforce
  have "map_of kvs key = None" if "k' = key"
    using that Cons.prems e by (force simp: map_of_eq_None_iff)
  then show ?case using Cons e by (auto simp: rows_at_def kept_entry_def)
qed (simp add: rows_at_def)

lemma prune_in: "e \<in> set (prune key f kvs) \<Longrightarrow> e \<in> set kvs \<or> fst e = key \<and> snd e \<noteq> []"
  by (induction kvs) (auto simp: kept_entry_def split: if_splits)

lemma node_remove_prune:
  assumes "nd_keys n = map fst (kl @ (key, vs) # kr)" "nd_values n = map snd (kl @ (key, vs) # kr)"
  shows "node_remove_at (length kl) w n = Some (length vs - length (kept_rows w vs),
    n\<lparr>nd_keys := map fst (kl @ kept_entry key (kept_rows w vs) @ kr),
      nd_values := map snd (kl @ kept_entry key (kept_rows w vs) @ kr)\<rparr>)"
proof -
  have at: "vec_at (nd_values n) (length kl) = Some vs" "vec_remove_at (length kl) (nd_keys n) = Some (key, map fst kl @ map fst kr)"
    and rem: "vec_remove_at (length kl) (map snd kl @ ws # map snd kr) = Some (ws, map snd kl @ map snd kr)"
    and upd: "(nd_values n)[length kl := ws] = map snd kl @ ws # map snd kr" for ws
    using assms by (simp_all add: vec_at_def vec_remove_at_def vec_remove_def nth_append list_update_append)
  show ?thesis
  proof (cases w)
    case None
    then show ?thesis using at rem [of vs] assms(2) by (simp add: node_remove_at_def kept_rows_def kept_entry_def)
  next
    case (Some v)
    show ?thesis
    proof (cases "filter (\<lambda>x. x \<noteq> v) vs = []")
      case True
      then show ?thesis using Some at rem upd by (simp add: node_remove_at_def kept_rows_def kept_entry_def)
    next
      case False
      have "n\<lparr>nd_values := x\<rparr> = n\<lparr>nd_keys := map fst kl @ key # map fst kr, nd_values := x\<rparr>" for x
        using assms(1) by (cases n) simp
      then show ?thesis using False Some at(1) upd by (simp add: node_remove_at_def kept_rows_def kept_entry_def Let_def)
    qed
  qed
qed

section \<open>Deletion\<close>

lemma ordered_kept:
  "ordered (l @ Leaf i (kl @ (key, vs) # kr) # r) \<Longrightarrow> ordered (l @ Leaf i (kl @ kept_entry key ws @ kr) # r)"
  using sorted_drop_middle [of plt "seq l @ map (\<lambda>e. (fst e, True)) kl" "[(key, True)]" "map (\<lambda>e. (fst e, True)) kr @ seq r"]
  by (simp add: ordered_def kept_entry_def)

lemma leaf_step_full:
  "leaf_step i l r sp \<Longrightarrow> \<forall>j kvs. Leaf j kvs \<in> set (l @ r) \<longrightarrow> kvs \<noteq> [] \<Longrightarrow> Leaf j kvs \<in> set sp \<Longrightarrow> kvs \<noteq> []"
  by (induction rule: leaf_step.induct) auto

lemma zipped_leaf: "at_leaf t c i kvs n \<Longrightarrow> zipped t c (GLeaf i kvs)"
  by (simp add: at_leaf_def zipped_def)

lemma filter_entry_rows: "entry_rows (kl @ kept_entry key ws @ kr) + (length vs - length ws) = entry_rows (kl @ (key, vs) # kr)"
  if "length ws \<le> length vs"
  using that by (simp add: kept_entry_def)

lemma kept_rows_le: "length (kept_rows w vs) \<le> length vs"
  by (simp add: kept_rows_def split: option.split)

text \<open>A leaf loses row ids of a key, and is handled when that leaves it empty.\<close>

lemma leaf_loses_rows:
  fixes t :: "'k::linorder btree"
  assumes ok: "bt_ok t sp" and sp: "sp = lsp c @ Leaf i (kl @ (key, vs) # kr) # rsp c"
    and leaf: "at_leaf t c i (kl @ (key, vs) # kr) n" and ws: "length ws \<le> length vs"
  defines "kvs \<equiv> kl @ kept_entry key ws @ kr"
  defines "n1 \<equiv> n\<lparr>nd_keys := map fst kvs, nd_values := map snd kvs\<rparr>"
  defines "t1 \<equiv> (bt_put i n1 t)\<lparr>bt_stats := stats_remove_rows (of_nat (length vs - length ws)) (bt_stats t)\<rparr>"
  shows "\<exists>t' sp'. (if nd_keys n1 = [] \<and> i \<noteq> bt_root t1 then handle_underflow i t1 else Some t1) = Some t' \<and> bt_ok t' sp'
    \<and> entries sp' = entries (lsp c) @ kvs @ entries (rsp c) \<and> bt_unique t' = bt_unique t \<and> bt_order t' = bt_order t"
proof -
  let ?sp = "lsp c @ Leaf i kvs # rsp c"
  have facts: "ordered sp" "linked t None (leaf_ids sp) None" "full sp" "\<forall>e \<in> set (entries sp). snd e \<noteq> []"
    "bt_comparator t = Asc" "3 \<le> bt_order t" "is_total_rows (bt_stats t) = of_nat (entry_rows (entries sp))"
    using ok by (simp_all add: bt_ok_def)
  have leaf1: "at_leaf t1 c i kvs n1" and links: "same_links t t1"
    using leaf_put [OF leaf, of kvs] by (simp_all add: t1_def n1_def same_links_def)
  have ord1: "ordered ?sp" unfolding kvs_def by (rule ordered_kept) (use facts(1) sp in simp)
  have chain1: "linked t1 None (leaf_ids (lsp c) @ i # leaf_ids (rsp c)) None"
    using linked_same [OF links facts(2)] sp by simp
  have meta1: "bt_comparator t1 = Asc" "bt_order t1 = bt_order t" "bt_unique t1 = bt_unique t"
    using facts by (simp_all add: t1_def)
  have "entry_rows (entries ?sp) + (length vs - length ws) = entry_rows (entries sp)"
    using filter_entry_rows [OF ws, of kl key kr] sp by (simp add: kvs_def)
  then have "(of_nat (entry_rows (entries sp)) :: u64) = of_nat (entry_rows (entries ?sp)) + of_nat (length vs - length ws)"
    by (metis of_nat_add)
  then have total: "is_total_rows (bt_stats t1) = of_nat (entry_rows (entries ?sp))" using facts(7) by (simp add: t1_def)
  have rows: "\<forall>e \<in> set (entries ?sp). snd e \<noteq> []" using facts(4) sp by (auto simp: kvs_def kept_entry_def)
  have others: "\<forall>j kvs'. Leaf j kvs' \<in> set (lsp c @ rsp c) \<longrightarrow> kvs' \<noteq> []"
    using facts(3) sp by (auto simp: full_def single_spine)
  have root: "i = bt_root t1 \<longleftrightarrow> c = []" using zipped_root [OF zipped_leaf [OF leaf1]] by simp
  have keys: "nd_keys n1 = [] \<longleftrightarrow> kvs = []" by (simp add: n1_def)
  show ?thesis
  proof (cases "kvs = [] \<and> c \<noteq> []")
    case False
    have "full ?sp"
    proof (cases "kvs = []")
      case True
      then show ?thesis using False by (simp add: full_def)
    qed (use others in \<open>auto simp: full_def\<close>)
    then have "bt_ok t1 ?sp"
      using at_leaf_represents [OF leaf1] ord1 chain1 facts meta1 total rows by (simp add: bt_ok_def)
    then show ?thesis using False keys root meta1 by (intro exI [of _ t1] exI [of _ ?sp]) auto
  next
    case True
    have z: "zipped t1 c (GLeaf i [])" using zipped_leaf [OF leaf1] True by simp
    have "cbal c 0" using leaf1 by (simp add: at_leaf_def)
    moreover have "3 \<le> bt_order t1" using facts(6) meta1 by simp
    ultimately have "leaf_handled i (lsp c) (rsp c) t1 (handle_underflow i t1)"
      using leaf_underflow [OF z] True chain1 by blast
    then obtain t2 sp2 where t2: "handle_underflow i t1 = Some t2" "leaf_step i (lsp c) (rsp c) sp2" "represents t2 sp2"
      "linked t2 None (leaf_ids sp2) None" "same_meta t1 t2" by (auto simp: leaf_handled_def)
    have ent: "entries sp2 = entries ?sp" using leaf_step_entries [OF t2(2)] True by simp
    have "ordered sp2" by (rule leaf_step_ordered [OF t2(2)]) (use ord1 True in simp)
    moreover have "full sp2" using leaf_step_full [OF t2(2) others] unfolding full_def by blast
    ultimately have "bt_ok t2 sp2"
      using t2 ent total rows facts meta1 by (simp add: bt_ok_def same_meta_def)
    then show ?thesis using True keys root t2 ent meta1 by (intro exI [of _ t2] exI [of _ sp2]) (simp add: same_meta_def)
  qed
qed

lemma bt_delete_result:
  fixes t :: "'k::linorder btree"
  assumes ok: "bt_ok t sp"
  shows "\<exists>t' sp'. bt_delete key w t = Some t' \<and> bt_ok t' sp' \<and> entries sp' = prune key (kept_rows w) (entries sp)
    \<and> bt_unique t' = bt_unique t \<and> bt_order t' = bt_order t"
proof -
  have facts: "represents t sp" "ordered sp" "bt_comparator t = Asc" using ok by (simp_all add: bt_ok_def)
  obtain c i kvs n where leaf: "find_leaf t key = Some i" "sp = lsp c @ Leaf i kvs # rsp c" "at_leaf t c i kvs n"
    "left_of (lsp c) key" "right_of (rsp c) key"
    using find_leaf_spec [OF facts] by metis
  have n: "bt_at t i = Some n" "nd_keys n = map fst kvs" "nd_values n = map snd kvs"
    using leaf(3) by (simp_all add: at_leaf_def)
  have sorted: "sorted_wrt (<) (map fst kvs)" using leaf(2) facts(2) leaf_keys_sorted by blast
  have l: "key \<notin> fst ` set (entries (lsp c))" and r: "key \<notin> fst ` set (entries (rsp c))"
    using left_of_entries [OF leaf(4)] right_of_entries [OF leaf(5)] by force+
  show ?thesis
  proof (cases rule: leaf_find [OF sorted n(2), of key, case_names found absent])
    case (found kl vs kr)
    have kl: "key \<notin> fst ` set kl" using found(4) by auto
    let ?ws = "kept_rows w vs"
    let ?kvs = "kl @ kept_entry key ?ws @ kr"
    let ?n = "n\<lparr>nd_keys := map fst ?kvs, nd_values := map snd ?kvs\<rparr>"
    let ?t = "(bt_put i ?n t)\<lparr>bt_stats := stats_remove_rows (of_nat (length vs - length ?ws)) (bt_stats t)\<rparr>"
    have remove: "node_remove_at (length kl) w n = Some (length vs - length ?ws, ?n)"
      by (rule node_remove_prune) (use n found(1) in simp_all)
    have "\<exists>t' sp'. (if nd_keys ?n = [] \<and> i \<noteq> bt_root ?t then handle_underflow i ?t else Some ?t) = Some t' \<and> bt_ok t' sp'
      \<and> entries sp' = entries (lsp c) @ ?kvs @ entries (rsp c) \<and> bt_unique t' = bt_unique t \<and> bt_order t' = bt_order t"
      by (rule leaf_loses_rows [OF ok]) (use leaf(2,3) found(1) kept_rows_le in simp_all)
    moreover have "bt_delete key w t = (if nd_keys ?n = [] \<and> i \<noteq> bt_root ?t then handle_underflow i ?t else Some ?t)"
      using leaf(1) n(1) found(2) remove by (simp add: bt_delete_def Let_def)
    moreover have "prune key (kept_rows w) (entries sp) = entries (lsp c) @ ?kvs @ entries (rsp c)"
    proof -
      have "entries sp = (entries (lsp c) @ kl) @ (key, vs) # (kr @ entries (rsp c))" using leaf(2) found(1) by simp
      then show ?thesis
        using prune_found [of key "entries (lsp c) @ kl" "kept_rows w" vs "kr @ entries (rsp c)"] l kl by auto
    qed
    ultimately show ?thesis by metis
  next
    case (absent kl kr)
    have "key \<notin> fst ` set kvs" using absent(1,4,5) by auto
    then have "prune key (kept_rows w) (entries sp) = entries sp"
      using l r leaf(2) by (intro prune_absent) auto
    moreover have "bt_delete key w t = Some t" using leaf(1) n(1) absent(2) by (simp add: bt_delete_def)
    ultimately show ?thesis using ok by auto
  qed
qed

lemma kept_rows_Nil [simp]: "kept_rows w [] = []"
  by (simp add: kept_rows_def split: option.split)

lemma bt_set_result:
  fixes t :: "'k::linorder btree"
  assumes ok: "bt_ok t sp"
  shows "\<exists>t' sp'. bt_set key v t = Some t' \<and> bt_ok t' sp' \<and> entries sp' = upsert key [v] (prune key (kept_rows None) (entries sp))
    \<and> bt_unique t' = bt_unique t \<and> bt_order t' = bt_order t"
proof -
  obtain t1 sp1 where t1: "bt_delete key None t = Some t1" "bt_ok t1 sp1" "entries sp1 = prune key (kept_rows None) (entries sp)"
    "bt_unique t1 = bt_unique t" "bt_order t1 = bt_order t"
    using bt_delete_result [OF ok] by metis
  have sorted: "sorted_wrt (<) (map fst (entries sp))" using ok ordered_entries by (auto simp: bt_ok_def)
  have "map_of (entries sp1) key = None"
  proof (rule ccontr)
    assume "map_of (entries sp1) key \<noteq> None"
    then obtain vs where vs: "map_of (entries sp1) key = Some vs" by blast
    then have "vs \<noteq> []" using t1(2) map_of_SomeD [OF vs] by (auto simp: bt_ok_def)
    moreover have "rows_at (entries sp1) key = []"
      unfolding t1(3) using prune_rows [OF sorted, of "kept_rows None" key key] by (simp add: kept_rows_def)
    ultimately show False using vs by (simp add: rows_at_def)
  qed
  then obtain t2 sp2 where t2: "bt_insert key v t1 = Some (Inr (), t2)" "bt_ok t2 sp2" "entries sp2 = upsert key [v] (entries sp1)"
    "bt_unique t2 = bt_unique t1" "bt_order t2 = bt_order t1"
    using bt_insert_result(2) [OF t1(2), of key v] by auto
  then have "bt_set key v t = Some t2" using t1(1) by (simp add: bt_set_def)
  then show ?thesis using t1 t2 by auto
qed

end
