(* ===== verification/Cynos_Btree_Scan.thy ===== *)
theory Cynos_Btree_Scan
  imports Cynos_Btree_Delete
begin

text \<open>
  The ends of the B+ tree and its range scans: the iterator walks the chain of leaves, and a scan is a page of the
  entries in the range.
\<close>

section \<open>Leaves of the spine in the arena\<close>

lemma rweave_in: "x \<in> set (rweave ks ss) \<Longrightarrow> (\<exists>k. x = Sep k) \<or> (\<exists>s \<in> set ss. x \<in> set s)"
proof (induction ks arbitrary: ss)
  case (Cons k ks)
  then show ?case by (cases ss) (auto simp: rweave_def)
qed simp

lemma spine_leaf_nodes: "Leaf i kvs \<in> set (spine g) \<Longrightarrow> \<exists>q. (i, Shape True (map fst kvs) (map snd kvs) [] q) \<in> set (nodes p g)"
proof (induction g arbitrary: p)
  case (GNode j ks gs)
  obtain g where "g \<in> set gs" "Leaf i kvs \<in> set (spine g)"
    using GNode.prems rweave_in [of "Leaf i kvs" ks] by (cases gs) fastforce+
  then show ?case using GNode.IH [of g "Some j"] by fastforce
qed auto

text \<open>A leaf of the spine, its node and its neighbours.\<close>

lemma leaf_node:
  assumes "represents t (l @ Leaf i kvs # r)" "linked t None (leaf_ids (l @ Leaf i kvs # r)) None"
  shows "\<exists>n. bt_at t i = Some n \<and> nd_is_leaf n \<and> nd_keys n = map fst kvs \<and> nd_values n = map snd kvs
    \<and> nd_next n = first_of (leaf_ids r) None \<and> nd_prev n = last_of None (leaf_ids l)"
proof -
  obtain g where g: "holds t (nodes None g)" "spine g = l @ Leaf i kvs # r"
    using assms(1) by (auto simp: represents_def)
  obtain q where "(i, Shape True (map fst kvs) (map snd kvs) [] q) \<in> set (nodes None g)"
    using spine_leaf_nodes [of i kvs g None] g(2) by auto
  then obtain n where "bt_at t i = Some n" "nd_is_leaf n" "nd_keys n = map fst kvs" "nd_values n = map snd kvs"
    using leaf_at [OF g(1)] by blast
  then show ?thesis using assms(2) by (auto simp: linked_append)
qed

section \<open>The ends\<close>

lemma leftmost_from_spec:
  "holds t (nodes p g @ ns) \<Longrightarrow> bal n g \<Longrightarrow> \<exists>i kvs r. leftmost_from t (gid g) = Some i \<and> spine g = Leaf i kvs # r"
proof (induction n arbitrary: g p ns)
  case 0
  then obtain i kvs where g: "g = GLeaf i kvs" by (cases g) auto
  then show ?case
    using leaf_at [OF 0(1), of i kvs p] by (subst leftmost_from.simps) auto
next
  case (Suc n)
  then obtain i ks g' gs where g: "g = GNode i ks (g' # gs)" "bal n g'" by (cases g; cases "case g of GNode _ _ gs \<Rightarrow> gs") auto
  obtain nd where nd: "bt_at t i = Some nd" "\<not> nd_is_leaf nd" "nd_children nd = gid g' # map gid gs"
    using inner_at [OF Suc.prems(1), of i ks "gid g' # map gid gs" p] g by auto
  have "holds t (nodes (Some i) g' @ (i, Shape False ks [] (gid g' # map gid gs) p) # concat (map (nodes (Some i)) gs) @ ns)"
    using Suc.prems(1) g by (subst holds_perm [where ns' = "nodes p g @ ns"]) simp_all
  then obtain j kvs r where "leftmost_from t (gid g') = Some j" "spine g' = Leaf j kvs # r" using Suc.IH g(2) by blast
  then show ?case using nd g by (subst leftmost_from.simps) simp
qed

lemma rweave_last:
  "length ks = length ss \<Longrightarrow> ss \<noteq> [] \<Longrightarrow> \<exists>xs. rweave ks ss = xs @ last ss"
proof (induction ks ss rule: list_induct2)
  case (Cons k ks s ss)
  then show ?case by (cases "ss = []") (auto intro: exI [of _ "Sep k # s @ xs" for xs])
qed simp

lemma spine_last:
  assumes "length gs = Suc (length ks)"
  shows "\<exists>xs. spine (GNode i ks gs) = xs @ spine (last gs)"
proof -
  obtain g gs' where gs: "gs = g # gs'" using assms by (cases gs) auto
  show ?thesis
  proof (cases "gs' = []")
    case False
    then obtain xs where "rweave ks (map spine gs') = xs @ last (map spine gs')"
      using rweave_last [of ks "map spine gs'"] assms gs by auto
    then have "spine (GNode i ks gs) = (spine g @ xs) @ spine (last gs)" using gs False by (simp add: last_map)
    then show ?thesis by blast
  qed (use gs assms in simp)
qed

lemma rightmost_from_spec:
  "holds t (nodes p g @ ns) \<Longrightarrow> bal n g \<Longrightarrow> \<exists>i kvs l. rightmost_from t (gid g) = Some i \<and> spine g = l @ [Leaf i kvs]"
proof (induction n arbitrary: g p ns)
  case 0
  then obtain i kvs where g: "g = GLeaf i kvs" by (cases g) auto
  then show ?case
    using leaf_at [OF 0(1), of i kvs p] by (subst rightmost_from.simps) auto
next
  case (Suc n)
  then obtain i ks gs where g: "g = GNode i ks gs" "length gs = Suc (length ks)" "list_all (bal n) gs" by (cases g) auto
  then obtain gs' g' where gs: "gs = gs' @ [g']" by (cases gs rule: rev_cases) auto
  obtain nd where nd: "bt_at t i = Some nd" "\<not> nd_is_leaf nd" "nd_children nd = map gid gs' @ [gid g']"
    using inner_at [OF Suc.prems(1), of i ks "map gid gs" p] g gs by auto
  have "holds t (nodes (Some i) g' @ (i, Shape False ks [] (map gid gs) p) # concat (map (nodes (Some i)) gs') @ ns)"
    using Suc.prems(1) g gs by (subst holds_perm [where ns' = "nodes p g @ ns"]) simp_all
  then obtain j kvs l where "rightmost_from t (gid g') = Some j" "spine g' = l @ [Leaf j kvs]"
    using Suc.IH g(3) gs by fastforce
  moreover obtain xs where "spine g = xs @ spine g'" using spine_last [OF g(2), of i] g(1) gs by auto
  ultimately show ?case using nd g(1) by (subst rightmost_from.simps) (simp add: vec_at_def nth_append)
qed

lemma ends_spec:
  assumes "represents t sp"
  shows "\<exists>i kvs r. leftmost_leaf t = Some i \<and> sp = Leaf i kvs # r"
    and "\<exists>i kvs l. rightmost_leaf t = Some i \<and> sp = l @ [Leaf i kvs]"
proof -
  obtain g m where g: "holds t (nodes None g @ [])" "bal m g" "bt_root t = gid g" "spine g = sp"
    using assms by (auto simp: represents_def)
  show "\<exists>i kvs r. leftmost_leaf t = Some i \<and> sp = Leaf i kvs # r"
    using leftmost_from_spec [OF g(1,2)] g(3,4) by (simp add: leftmost_leaf_def)
  show "\<exists>i kvs l. rightmost_leaf t = Some i \<and> sp = l @ [Leaf i kvs]"
    using rightmost_from_spec [OF g(1,2)] g(3,4) by (simp add: rightmost_leaf_def)
qed

lemma full_entries: "full (l @ Leaf i kvs # r) \<Longrightarrow> kvs = [] \<longleftrightarrow> entries (l @ Leaf i kvs # r) = []"
  by (auto simp: full_def single_spine)

lemma bt_min_result:
  assumes "bt_ok t sp"
  shows "bt_min t = Some (if entries sp = [] then None else Some (hd (entries sp)))"
proof -
  obtain i kvs r where ends: "leftmost_leaf t = Some i" "sp = Leaf i kvs # r"
    using ends_spec(1) assms by (fastforce simp: bt_ok_def)
  obtain n where "bt_at t i = Some n" "nd_keys n = map fst kvs" "nd_values n = map snd kvs"
    using leaf_node [of t "[]" i kvs r] assms ends(2) by (auto simp: bt_ok_def)
  moreover have "kvs = [] \<longleftrightarrow> entries sp = []" using full_entries [of "[]" i kvs r] assms ends(2) by (simp add: bt_ok_def)
  ultimately show ?thesis using ends by (cases kvs) (auto simp: bt_min_def)
qed

lemma bt_max_result:
  assumes "bt_ok t sp"
  shows "bt_max t = Some (if entries sp = [] then None else Some (last (entries sp)))"
proof -
  obtain i kvs l where ends: "rightmost_leaf t = Some i" "sp = l @ [Leaf i kvs]"
    using ends_spec(2) assms by (fastforce simp: bt_ok_def)
  obtain n where "bt_at t i = Some n" "nd_keys n = map fst kvs" "nd_values n = map snd kvs"
    using leaf_node [of t l i kvs "[]"] assms ends(2) by (auto simp: bt_ok_def)
  moreover have "kvs = [] \<longleftrightarrow> entries sp = []" using full_entries [of l i kvs "[]"] assms ends(2) by (simp add: bt_ok_def)
  ultimately show ?thesis using ends by (cases kvs rule: rev_cases) (auto simp: bt_max_def key_count_def vec_at_def nth_append)
qed

section \<open>The iterator\<close>

text \<open>The pairs an iterator gives.\<close>

fun iterates :: "'k btree \<Rightarrow> bt_iter \<Rightarrow> ('k \<times> row_id) list \<Rightarrow> bool" where
  "iterates t it [] \<longleftrightarrow> iter_next t it = Some None"
| "iterates t it (x # xs) \<longleftrightarrow> (\<exists>it'. iter_next t it = Some (Some (x, it')) \<and> iterates t it' xs)"

definition pairs :: "('k \<times> row_id list) list \<Rightarrow> ('k \<times> row_id) list" where
  "pairs kvs = concat (map (\<lambda>e. map (Pair (fst e)) (snd e)) kvs)"

lemma pairs_simps [simp]:
  "pairs [] = []" "pairs ((k, vs) # kvs) = map (Pair k) vs @ pairs kvs" "pairs (kvs @ kvs') = pairs kvs @ pairs kvs'"
  by (simp_all add: pairs_def)

text \<open>An iterator at an entry, some of whose row ids are done.\<close>

definition iter_in :: "nat \<Rightarrow> nat \<Rightarrow> nat \<Rightarrow> bool \<Rightarrow> bt_iter" where
  "iter_in i pos vpos rv = \<lparr>it_node = Some i, it_pos = pos, it_value_pos = vpos, it_reverse = rv\<rparr>"

definition iter_end :: "nat \<Rightarrow> bool \<Rightarrow> bt_iter" where
  "iter_end pos rv = \<lparr>it_node = None, it_pos = pos, it_value_pos = 0, it_reverse = rv\<rparr>"

lemma iterates_end: "iterates t (iter_end pos rv) []"
  by (simp add: iter_next.simps iter_end_def)

lemma iterates_values:
  assumes n: "bt_at t i = Some n" "nd_keys n = map fst (kl @ (k, vs) # kr)" "nd_values n = map snd (kl @ (k, vs) # kr)"
    and adv: "advance_key t (iter_in i (length kl) (length vs) rv) = Some it" "iterates t it xs"
  shows "iterates t (iter_in i (length kl) 0 rv) (map (Pair k) vs @ xs)"
proof -
  have step: "iter_next t (iter_in i (length kl) v rv) =
      (if v < length vs then Some (Some ((k, vs ! v), iter_in i (length kl) (Suc v) rv))
       else do { it \<leftarrow> advance_key t (iter_in i (length kl) v rv); iter_next t it })" for v
    using n by (subst iter_next.simps) (simp add: iter_in_def key_count_def vec_at_def nth_append)
  have "iterates t (iter_in i (length kl) v rv) (map (Pair k) (drop v vs) @ xs)" if "v \<le> length vs" for v
    using that
  proof (induction "length vs - v" arbitrary: v)
    case 0
    then have "v = length vs" by simp
    then show ?case using adv step [of v] by (cases xs) simp_all
  next
    case (Suc m)
    then have v: "v < length vs" by simp
    then have "drop v vs = vs ! v # drop (Suc v) vs" by (simp add: Cons_nth_drop_Suc)
    moreover have "iterates t (iter_in i (length kl) (Suc v) rv) (map (Pair k) (drop (Suc v) vs) @ xs)"
      using Suc.hyps(1) [of "Suc v"] Suc.hyps(2) by simp
    ultimately show ?case using step [of v] v by simp
  qed
  from this [of 0] show ?thesis by simp
qed

lemma advance_inside:
  assumes "bt_at t i = Some n" "nd_keys n = map fst (kl @ e # kr)"
  shows "kr \<noteq> [] \<Longrightarrow> advance_key t (iter_in i (length kl) v False) = Some (iter_in i (Suc (length kl)) 0 False)"
    and "kr = [] \<Longrightarrow> advance_key t (iter_in i (length kl) v False)
      = Some (case nd_next n of None \<Rightarrow> iter_end 0 False | Some j \<Rightarrow> iter_in j 0 0 False)"
    and "kl \<noteq> [] \<Longrightarrow> advance_key t (iter_in i (length kl) v True) = Some (iter_in i (length kl - 1) 0 True)"
    and "kl = [] \<Longrightarrow> nd_prev n = None \<Longrightarrow> advance_key t (iter_in i (length kl) v True) = Some (iter_end 0 True)"
    and "kl = [] \<Longrightarrow> nd_prev n = Some j \<Longrightarrow> bt_at t j = Some nj \<Longrightarrow>
      advance_key t (iter_in i (length kl) v True) = Some (iter_in j (key_count nj - 1) 0 True)"
  using assms by (auto simp: advance_key_def iter_in_def iter_end_def key_count_def split: option.splits)

text \<open>Every leaf of a tree with entries has some.\<close>

definition leaves_full :: "'k item list \<Rightarrow> bool" where
  "leaves_full sp \<longleftrightarrow> (\<forall>i kvs. Leaf i kvs \<in> set sp \<longrightarrow> kvs \<noteq> [])"

lemma first_leaf:
  "leaf_ids r = [] \<Longrightarrow> entries r = []"
  "leaf_ids r = i # is \<Longrightarrow> \<exists>ss kvs r'. r = ss @ Leaf i kvs # r' \<and> leaf_ids ss = [] \<and> leaf_ids r' = is"
proof (atomize (full), induction r)
  case (Cons x r)
  show ?case
  proof (cases x)
    case (Sep k)
    have "\<exists>ss kvs r'. x # r = ss @ Leaf i kvs # r' \<and> leaf_ids ss = [] \<and> leaf_ids r' = is" if ids: "leaf_ids (x # r) = i # is"
    proof -
      obtain ss kvs r' where "r = ss @ Leaf i kvs # r'" "leaf_ids ss = []" "leaf_ids r' = is" using Cons Sep ids by auto
      then show ?thesis using Sep by (intro exI [of _ "x # ss"]) auto
    qed
    then show ?thesis using Cons Sep by simp
  next
    case (Leaf j kvs)
    have "\<exists>ss kvs r'. x # r = ss @ Leaf i kvs # r' \<and> leaf_ids ss = [] \<and> leaf_ids r' = is" if "leaf_ids (x # r) = i # is"
      using that Leaf by (intro exI [of _ "[]"] exI [of _ kvs] exI [of _ r]) simp
    then show ?thesis using Leaf by simp
  qed
qed simp

lemma last_leaf:
  "leaf_ids l \<noteq> [] \<Longrightarrow> \<exists>l' kvs ss. l = l' @ Leaf (last (leaf_ids l)) kvs # ss \<and> leaf_ids ss = []"
proof (induction l rule: rev_induct)
  case (snoc x l)
  show ?case
  proof (cases x)
    case (Sep k)
    then obtain l' kvs ss where "l = l' @ Leaf (last (leaf_ids l)) kvs # ss" "leaf_ids ss = []" using snoc by auto
    then show ?thesis using Sep by (intro exI [of _ l'] exI [of _ kvs] exI [of _ "ss @ [x]"]) simp
  next
    case (Leaf j kvs)
    then show ?thesis by (intro exI [of _ l] exI [of _ kvs] exI [of _ "[]"]) simp
  qed
qed simp

text \<open>Forwards from an entry: what is left of its leaf, then the leaves to the right.\<close>

lemma iterates_forward:
  fixes t :: "'k::linorder btree"
  assumes "represents t sp" "linked t None (leaf_ids sp) None" "leaves_full sp"
    and "sp = l @ Leaf i (kl @ e # kr) # r"
  shows "iterates t (iter_in i (length kl) 0 False) (pairs (e # kr @ entries r))"
  using assms(4)
proof (induction "length (kr @ entries r)" arbitrary: l i kl e kr r rule: less_induct)
  case less
  obtain n where n: "bt_at t i = Some n" "nd_keys n = map fst (kl @ e # kr)" "nd_values n = map snd (kl @ e # kr)"
    "nd_next n = first_of (leaf_ids r) None"
    using leaf_node [of t l i "kl @ e # kr" r] assms(1,2) less.prems by auto
  obtain k vs where e: "e = (k, vs)" by fastforce
  note n' = n(1) n(2,3) [unfolded e]
  show ?case
  proof (cases kr)
    case (Cons e' kr')
    have "iterates t (iter_in i (length (kl @ [e])) 0 False) (pairs (e' # kr' @ entries r))"
      by (rule less.hyps) (use less.prems Cons in simp_all)
    moreover have "advance_key t (iter_in i (length kl) (length vs) False) = Some (iter_in i (length (kl @ [e])) 0 False)"
      using advance_inside(1) [OF n(1,2)] Cons by simp
    ultimately show ?thesis using iterates_values [OF n', of False] Cons e by simp
  next
    case Nil
    show ?thesis
    proof (cases "leaf_ids r")
      case ids: Nil
      have "advance_key t (iter_in i (length kl) (length vs) False) = Some (iter_end 0 False)"
        using advance_inside(2) [OF n(1,2)] Nil n(4) ids by simp
      moreover have "entries r = []" using first_leaf(1) ids by blast
      ultimately show ?thesis using iterates_values [OF n' _ iterates_end, of False] Nil e by simp
    next
      case ids: (Cons j "is")
      obtain ss kvs r' where r: "r = ss @ Leaf j kvs # r'" "leaf_ids ss = []" "leaf_ids r' = is"
        using first_leaf(2) [OF ids] by blast
      then have "kvs \<noteq> []" using assms(3) less.prems by (auto simp: leaves_full_def)
      then obtain e' kr' where kvs: "kvs = e' # kr'" by (cases kvs) auto
      have ents: "entries r = e' # kr' @ entries r'" using r kvs first_leaf(1) [of ss] by simp
      have "sp = (l @ Leaf i (kl @ [e]) # ss) @ Leaf j ([] @ e' # kr') # r'" using less.prems r(1) kvs Nil by simp
      then have "iterates t (iter_in j (length ([] :: ('k \<times> row_id list) list)) 0 False) (pairs (e' # kr' @ entries r'))"
        by (rule less.hyps [rotated]) (simp add: ents Nil)
      moreover have "advance_key t (iter_in i (length kl) (length vs) False) = Some (iter_in j 0 0 False)"
        using advance_inside(2) [OF n(1,2)] Nil n(4) ids by simp
      ultimately show ?thesis using iterates_values [OF n', of False] Nil e ents by simp
    qed
  qed
qed

text \<open>Backwards from an entry: the entries left of it, from the right.\<close>

lemma iterates_backward:
  fixes t :: "'k::linorder btree"
  assumes "represents t sp" "linked t None (leaf_ids sp) None" "leaves_full sp"
    and "sp = l @ Leaf i (kl @ e # kr) # r"
  shows "iterates t (iter_in i (length kl) 0 True) (pairs (e # rev kl @ rev (entries l)))"
  using assms(4)
proof (induction "length (entries l @ kl)" arbitrary: l i kl e kr r rule: less_induct)
  case less
  obtain n where n: "bt_at t i = Some n" "nd_keys n = map fst (kl @ e # kr)" "nd_values n = map snd (kl @ e # kr)"
    "nd_prev n = last_of None (leaf_ids l)"
    using leaf_node [of t l i "kl @ e # kr" r] assms(1,2) less.prems by auto
  obtain k vs where e: "e = (k, vs)" by fastforce
  note n' = n(1) n(2,3) [unfolded e]
  show ?case
  proof (cases kl rule: rev_cases)
    case (snoc kl' e')
    have "sp = l @ Leaf i (kl' @ e' # (e # kr)) # r" using less.prems snoc by simp
    then have "iterates t (iter_in i (length kl') 0 True) (pairs (e' # rev kl' @ rev (entries l)))"
      by (rule less.hyps [rotated]) (simp add: snoc)
    moreover have "advance_key t (iter_in i (length kl) (length vs) True) = Some (iter_in i (length kl') 0 True)"
      using advance_inside(3) [OF n(1,2)] snoc by simp
    ultimately show ?thesis using iterates_values [OF n', of True] snoc e by simp
  next
    case Nil
    show ?thesis
    proof (cases "leaf_ids l = []")
      case True
      have "advance_key t (iter_in i (length kl) (length vs) True) = Some (iter_end 0 True)"
        using advance_inside(4) [OF n(1,2)] Nil n(4) True by simp
      moreover have "entries l = []" using first_leaf(1) True by blast
      ultimately show ?thesis using iterates_values [OF n' _ iterates_end, of True] Nil e by simp
    next
      case False
      define j where "j = last (leaf_ids l)"
      obtain l' kvs ss where l: "l = l' @ Leaf j kvs # ss" "leaf_ids ss = []"
        using last_leaf [OF False] by (auto simp: j_def)
      then have "kvs \<noteq> []" using assms(3) less.prems by (auto simp: leaves_full_def)
      then obtain kl' e' where kvs: "kvs = kl' @ [e']" by (cases kvs rule: rev_cases) auto
      have ents: "entries l = entries l' @ kl' @ [e']" using l kvs first_leaf(1) [of ss] by simp
      obtain nj where nj: "bt_at t j = Some nj" "nd_keys nj = map fst kvs"
        using leaf_node [of t l' j kvs "ss @ Leaf i (kl @ e # kr) # r"] assms(1,2) less.prems l(1) by auto
      have "sp = l' @ Leaf j (kl' @ e' # []) # (ss @ Leaf i (e # kr) # r)" using less.prems l(1) kvs Nil by simp
      then have "iterates t (iter_in j (length kl') 0 True) (pairs (e' # rev kl' @ rev (entries l')))"
        by (rule less.hyps [rotated]) (simp add: ents)
      moreover have "advance_key t (iter_in i (length kl) (length vs) True) = Some (iter_in j (length kl') 0 True)"
        using advance_inside(5) [OF n(1,2), of j nj] Nil n(4) nj False kvs by (simp add: j_def last_of_def key_count_def)
      ultimately show ?thesis using iterates_values [OF n', of True] Nil e ents by simp
    qed
  qed
qed

section \<open>The loop of a scan\<close>

text \<open>A visitor on a list of row ids, until it says stop.\<close>

fun visit_rows :: "(row_id \<Rightarrow> 's \<Rightarrow> bool \<times> 's) \<Rightarrow> row_id list \<Rightarrow> 's \<Rightarrow> 's" where
  "visit_rows visitor [] s = s"
| "visit_rows visitor (v # vs) s = (let (go, s) = visitor v s in if go then visit_rows visitor vs s else s)"

lemma page_simps:
  "page lt (Suc n) (x # xs) = page lt n xs" "page (Some 0) n xs = []" "page None 0 (x # xs) = x # page None 0 xs"
  "page (Some (Suc l)) 0 (x # xs) = x # page (Some l) 0 xs" "page lt n [] = []"
  by (auto simp: page_def split: option.split)

definition past :: "'k::linorder key_range \<Rightarrow> bool \<Rightarrow> 'k \<Rightarrow> bool" where
  "past rng reverse key \<longleftrightarrow> (\<not> reverse \<and> key_past_forward_range rng key) \<or> (reverse \<and> key_past_reverse_range rng key)"

definition in_range :: "'k::linorder key_range \<Rightarrow> ('k \<times> row_id) list \<Rightarrow> row_id list" where
  "in_range rng xs = map snd (filter (\<lambda>x. kr_contains rng (fst x)) xs)"

lemma in_range_simps [simp]:
  "in_range rng [] = []"
  "in_range rng ((k, v) # xs) = (if kr_contains rng k then v # in_range rng xs else in_range rng xs)"
  "in_range rng (xs @ ys) = in_range rng xs @ in_range rng ys"
  by (simp_all add: in_range_def)

lemma visit_loop_spec:
  fixes t :: "'k::linorder btree"
  assumes "iterates t it xs"
    and "\<And>k v b a. xs = a @ (k, v) # b \<Longrightarrow> past rng reverse k \<Longrightarrow> in_range rng b = []"
  shows "visit_loop t rng reverse limit skip visitor it skipped emitted s
    = Some (visit_rows visitor (page (map_option (\<lambda>l. l - emitted) limit) (skip - skipped) (in_range rng xs)) s)"
  using assms
proof (induction xs arbitrary: it skipped emitted s)
  case Nil
  then show ?case by (subst visit_loop.simps) (simp add: page_simps)
next
  case (Cons x xs)
  obtain k v where x: "x = (k, v)" by fastforce
  obtain it' where it': "iter_next t it = Some (Some ((k, v), it'))" "iterates t it' xs" using Cons.prems(1) x by auto
  have IH: "visit_loop t rng reverse limit skip visitor it' skipped emitted s
      = Some (visit_rows visitor (page (map_option (\<lambda>l. l - emitted) limit) (skip - skipped) (in_range rng xs)) s)"
    for skipped emitted s
    by (rule Cons.IH [OF it'(2)]) (use Cons.prems(2) in \<open>metis append_Cons\<close>)
  have step: "visit_loop t rng reverse limit skip visitor it skipped emitted s =
      (if kr_contains rng k then
         if skipped < skip then visit_loop t rng reverse limit skip visitor it' (skipped + 1) emitted s
         else if (case limit of Some l \<Rightarrow> emitted \<ge> l | None \<Rightarrow> False) then Some s
         else (let (go, s) = visitor v s in
               if \<not> go then Some s else visit_loop t rng reverse limit skip visitor it' skipped (emitted + 1) s)
       else if past rng reverse k then Some s
       else visit_loop t rng reverse limit skip visitor it' skipped emitted s)"
    using it'(1) by (subst visit_loop.simps) (simp add: past_def)
  show ?case
  proof (cases "kr_contains rng k")
    case False
    have "in_range rng xs = []" if "past rng reverse k" using Cons.prems(2) [of "[]" k v xs] x that by simp
    then show ?thesis using False step IH x by (simp add: page_simps)
  next
    case True
    show ?thesis
    proof (cases "skipped < skip")
      case skip: True
      then obtain m where m: "skip - skipped = Suc m" "skip - Suc skipped = m" by (metis Suc_diff_Suc)
      then show ?thesis using True skip step IH x by (simp add: page_simps)
    next
      case noskip: False
      then have zero: "skip - skipped = 0" by simp
      show ?thesis
      proof (cases "case limit of Some l \<Rightarrow> emitted \<ge> l | None \<Rightarrow> False")
        case limit: True
        then obtain l where "limit = Some l" "l - emitted = 0" by (cases limit) auto
        then show ?thesis using True noskip step limit by (simp add: page_simps)
      next
        case nolimit: False
        have page: "page (map_option (\<lambda>l. l - emitted) limit) 0 (v # vs) = v # page (map_option (\<lambda>l. l - (emitted + 1)) limit) 0 vs" for vs
        proof (cases limit)
          case (Some l)
          then have "l - emitted = Suc (l - (emitted + 1))" using nolimit by simp
          then show ?thesis using Some by (simp add: page_simps)
        qed (simp add: page_simps)
        show ?thesis using True noskip nolimit step IH x zero page by (simp add: split_beta Let_def)
      qed
    qed
  qed
qed

section \<open>Forward scans\<close>

definition rows_of_entries :: "'k::linorder key_range \<Rightarrow> ('k \<times> row_id list) list \<Rightarrow> row_id list" where
  "rows_of_entries rng kvs = concat (map snd (filter (\<lambda>e. kr_contains rng (fst e)) kvs))"

lemma in_range_pairs: "in_range rng (pairs kvs) = rows_of_entries rng kvs"
proof (induction kvs)
  case (Cons e kvs)
  have "in_range rng (map (Pair k) vs) = (if kr_contains rng k then vs else [])" for k vs
    by (auto simp: in_range_def filter_map comp_def)
  then show ?case using Cons by (cases e) (simp add: rows_of_entries_def)
qed (simp add: rows_of_entries_def)

lemma rows_of_entries_append:
  "rows_of_entries rng (kvs @ kvs') = rows_of_entries rng kvs @ rows_of_entries rng kvs'"
  by (simp add: rows_of_entries_def)

lemma rows_of_entries_none: "\<forall>e \<in> set kvs. \<not> kr_contains rng (fst e) \<Longrightarrow> rows_of_entries rng kvs = []"
  by (simp add: rows_of_entries_def)

lemma pairs_split: "pairs kvs = a @ (k, v) # b \<Longrightarrow> sorted_wrt R (map fst kvs) \<Longrightarrow> (\<And>k. R k k) \<Longrightarrow> x \<in> set b \<Longrightarrow> R k (fst x)"
proof -
  assume "pairs kvs = a @ (k, v) # b" "x \<in> set b" and R: "\<And>k. R k k" "sorted_wrt R (map fst kvs)"
  moreover have "sorted_wrt (\<lambda>p q. R (fst p) (fst q)) (pairs kvs)"
    using R(2)
  proof (induction kvs)
    case (Cons e kvs)
    have "sorted_wrt (\<lambda>p q. R (fst p) (fst q)) (map (Pair (fst e)) (snd e))"
      by (simp add: sorted_wrt_map R(1) sorted_wrt_iff_nth_less)
    then show ?case using Cons by (auto simp: sorted_wrt_append pairs_def)
  qed simp
  ultimately show "R k (fst x)" by (auto simp: sorted_wrt_append)
qed

text \<open>The keys of the range can only be where a scan starts or further on.\<close>

fun start_key :: "'k key_range \<Rightarrow> 'k option" where
  "start_key All = None"
| "start_key (Only k) = Some k"
| "start_key (LowerBound k _) = Some k"
| "start_key (UpperBound _ _) = None"
| "start_key (Bound l _ _ _) = Some l"

lemma find_range_start_key:
  "find_range_start t rng = (case start_key rng of None \<Rightarrow> first_position t | Some k \<Rightarrow> position_from t k)"
  by (cases rng) simp_all

lemma start_key_low: "start_key rng = Some k \<Longrightarrow> k' < k \<Longrightarrow> \<not> kr_contains rng k'"
  by (cases rng) (auto split: if_splits)

lemma past_forward: "past rng False k \<Longrightarrow> k \<le> k' \<Longrightarrow> \<not> kr_contains rng k'"
  by (cases rng) (auto simp: past_def split: if_splits)

lemma past_reverse: "past rng True k \<Longrightarrow> k' \<le> k \<Longrightarrow> \<not> kr_contains rng k'"
  by (cases rng) (auto simp: past_def split: if_splits)

text \<open>The entries from a start position on, and those before it.\<close>

definition starts_at :: "'k::linorder item list \<Rightarrow> (nat \<times> nat) option \<Rightarrow> ('k \<times> row_id list) list \<Rightarrow> ('k \<times> row_id list) list \<Rightarrow> bool" where
  "starts_at sp start before rest \<longleftrightarrow> entries sp = before @ rest \<and>
     (case start of
        None \<Rightarrow> rest = []
      | Some (i, pos) \<Rightarrow> \<exists>l kl e kr r. sp = l @ Leaf i (kl @ e # kr) # r \<and> pos = length kl
          \<and> before = entries l @ kl \<and> rest = e # kr @ entries r)"

lemma starts_atI:
  "sp = l @ Leaf i (kl @ e # kr) # r \<Longrightarrow> before = entries l @ kl \<Longrightarrow> rest = e # kr @ entries r
    \<Longrightarrow> starts_at sp (Some (i, length kl)) before rest"
  unfolding starts_at_def option.case prod.case
  apply (rule conjI)
   apply simp
  apply (intro exI conjI)
     apply assumption
    apply simp_all
  done

lemma bt_ok_leaves: "bt_ok t sp \<Longrightarrow> entries sp \<noteq> [] \<Longrightarrow> leaves_full sp"
  by (auto simp: bt_ok_def full_def leaves_full_def)

lemma full_cases: "full sp \<Longrightarrow> (\<exists>i. sp = [Leaf i []]) \<or> leaves_full sp"
  by (auto simp: full_def leaves_full_def)

lemma first_position_spec:
  assumes ok: "bt_ok t sp"
  shows "\<exists>start. first_position t = Some start \<and> starts_at sp start [] (entries sp)"
proof -
  obtain i kvs r where ends: "leftmost_leaf t = Some i" "sp = Leaf i kvs # r"
    using ends_spec(1) ok by (fastforce simp: bt_ok_def)
  obtain n where n: "bt_at t i = Some n" "nd_keys n = map fst kvs"
    using leaf_node [of t "[]" i kvs r] ok ends(2) by (auto simp: bt_ok_def)
  show ?thesis
  proof (cases kvs)
    case Nil
    then have "entries sp = []" using full_entries [of "[]" i kvs r] ok ends(2) by (simp add: bt_ok_def)
    then show ?thesis using ends(1) n Nil by (simp add: first_position_def starts_at_def)
  next
    case (Cons e kvs')
    then have "starts_at sp (Some (i, 0)) [] (entries sp)"
      using ends(2) by (auto simp: starts_at_def intro!: exI [of _ "[]"])
    then show ?thesis using ends(1) n Cons by (simp add: first_position_def)
  qed
qed

lemma position_from_spec:
  fixes t :: "'k::linorder btree"
  assumes ok: "bt_ok t sp"
  shows "\<exists>start before rest. position_from t key = Some start \<and> starts_at sp start before rest \<and> (\<forall>e \<in> set before. fst e < key)"
proof -
  have facts: "represents t sp" "ordered sp" "bt_comparator t = Asc" "linked t None (leaf_ids sp) None" "full sp"
    using ok by (simp_all add: bt_ok_def)
  obtain c i kvs n where leaf: "find_leaf t key = Some i" "sp = lsp c @ Leaf i kvs # rsp c" "at_leaf t c i kvs n"
    "left_of (lsp c) key" "right_of (rsp c) key"
    using find_leaf_spec [OF facts(1-3)] by metis
  have n: "bt_at t i = Some n" "nd_keys n = map fst kvs" "nd_next n = first_of (leaf_ids (rsp c)) None"
    using leaf(2,3) facts(4) by (auto simp: at_leaf_def linked_append)
  have sorted: "sorted_wrt (<) (map fst kvs)" using leaf(2) facts(2) leaf_keys_sorted by blast
  obtain kl kr where parts: "kvs = kl @ kr" "\<forall>e \<in> set kl. fst e < key" "\<forall>e \<in> set kr. key \<le> fst e"
    "partition_point (\<lambda>k. k < key) (map fst kvs) = length kl"
    using leaf_parts [OF sorted] .
  have pos: "find_key_position key n = length kl" using n(2) parts(4) by (simp add: find_key_position_def)
  have below: "\<forall>e \<in> set (entries (lsp c) @ kl). fst e < key" using left_of_entries [OF leaf(4)] parts(2) by auto
  show ?thesis
  proof (cases kr)
    case (Cons e kr')
    have "starts_at sp (Some (i, length kl)) (entries (lsp c) @ kl) (kr @ entries (rsp c))"
      by (rule starts_atI) (use leaf(2) parts(1) Cons in simp_all)
    moreover have "position_from t key = Some (Some (i, length kl))"
      using leaf(1) n pos parts(1) Cons by (simp add: position_from_def key_count_def)
    ultimately show ?thesis using below by blast
  next
    case Nil
    have start: "position_from t key = Some (map_option (\<lambda>j. (j, 0)) (first_of (leaf_ids (rsp c)) None))"
      using leaf(1) n pos parts(1) Nil by (simp add: position_from_def key_count_def)
    show ?thesis
    proof (cases "leaf_ids (rsp c)")
      case ids: Nil
      then have "starts_at sp None (entries (lsp c) @ kl) []"
        using leaf(2) parts(1) Nil first_leaf(1) by (auto simp: starts_at_def)
      moreover have "position_from t key = Some None" using start ids by simp
      ultimately show ?thesis using below by blast
    next
      case ids: (Cons j "is")
      obtain ss kvs' r' where r: "rsp c = ss @ Leaf j kvs' # r'" "leaf_ids ss = []" "leaf_ids r' = is"
        using first_leaf(2) [OF ids] by blast
      have "leaves_full sp" using full_cases [OF facts(5)] leaf(2) r(1) by (auto simp: single_spine)
      then have "kvs' \<noteq> []" using leaf(2) r(1) by (auto simp: leaves_full_def)
      then obtain e kr' where kvs': "kvs' = e # kr'" by (cases kvs') auto
      have sp': "sp = (lsp c @ Leaf i kvs # ss) @ Leaf j ([] @ e # kr') # r'" using leaf(2) r(1) kvs' by simp
      have "entries ss = []" using first_leaf(1) r(2) by blast
      then have "starts_at sp (Some (j, length ([] :: ('k \<times> row_id list) list))) (entries (lsp c) @ kl) (e # kr' @ entries r')"
        by (intro starts_atI [OF sp']) (simp_all add: parts(1) Nil)
      moreover have "position_from t key = Some (Some (j, length ([] :: ('k \<times> row_id list) list)))"
        using start ids by simp
      ultimately show ?thesis using below by blast
    qed
  qed
qed

lemma bt_visit_forward:
  fixes t :: "'k::linorder btree"
  assumes ok: "bt_ok t sp"
  defines "rng \<equiv> \<lambda>r. case r of Some r \<Rightarrow> r | None \<Rightarrow> All"
  shows "bt_visit_range r False limit skip visitor t s = Some (visit_rows visitor (page limit skip (rows_of_entries (rng r) (entries sp))) s)"
proof -
  have facts: "represents t sp" "linked t None (leaf_ids sp) None" "sorted_wrt (<) (map fst (entries sp))"
    using ok ordered_entries by (auto simp: bt_ok_def)
  have "\<exists>start before rest. find_range_start t (rng r) = Some start \<and> starts_at sp start before rest
      \<and> (\<forall>e \<in> set before. \<not> kr_contains (rng r) (fst e))"
  proof (cases "start_key (rng r)")
    case None
    then show ?thesis using first_position_spec [OF ok] by (fastforce simp: find_range_start_key)
  next
    case (Some k)
    then show ?thesis using position_from_spec [OF ok, of k] start_key_low [OF Some] by (fastforce simp: find_range_start_key)
  qed
  then obtain start before rest where start: "find_range_start t (rng r) = Some start" "starts_at sp start before rest"
    "\<forall>e \<in> set before. \<not> kr_contains (rng r) (fst e)" by blast
  have ent: "entries sp = before @ rest" using start(2) by (simp add: starts_at_def)
  have rows: "rows_of_entries (rng r) (entries sp) = rows_of_entries (rng r) rest"
    unfolding ent rows_of_entries_append rows_of_entries_none [OF start(3)] by simp
  show ?thesis
  proof (cases start)
    case None
    then show ?thesis using start rows
      by (simp add: bt_visit_range_def rng_def starts_at_def rows_of_entries_def page_simps)
  next
    case (Some p)
    then obtain l i kl e kr rr where at: "start = Some (i, length kl)" "sp = l @ Leaf i (kl @ e # kr) # rr" "rest = e # kr @ entries rr"
      using start(2) by (auto simp: starts_at_def split: option.splits)
    have "leaves_full sp" by (rule bt_ok_leaves [OF ok]) (use at(2) in simp)
    from iterates_forward [OF facts(1,2) this at(2)] have it: "iterates t (iter_new_at i (length kl) False) (pairs rest)"
      unfolding at(3) by (simp add: iter_in_def iter_new_at_def)
    have le: "sorted_wrt (\<le>) (map fst rest)"
      using facts(3) unfolding ent by (auto simp: sorted_wrt_append intro: sorted_wrt_mono_rel [rotated] less_imp_le)
    have stop: "in_range (rng r) b = []" if "pairs rest = a @ (k, v) # b" "past (rng r) False k" for k v b a
    proof -
      have "\<not> kr_contains (rng r) (fst x)" if "x \<in> set b" for x
        using past_forward [OF \<open>past (rng r) False k\<close>] pairs_split [OF \<open>pairs rest = a @ (k, v) # b\<close> le order_refl that] by blast
      then show ?thesis by (simp add: in_range_def)
    qed
    have "visit_loop t (rng r) False limit skip visitor (iter_new_at i (length kl) False) 0 0 s
        = Some (visit_rows visitor (page (map_option (\<lambda>l. l - 0) limit) (skip - 0) (in_range (rng r) (pairs rest))) s)"
      by (rule visit_loop_spec [OF it]) (rule stop)
    then have "visit_loop t (rng r) False limit skip visitor (iter_new_at i (length kl) False) 0 0 s
        = Some (visit_rows visitor (page limit skip (rows_of_entries (rng r) rest)) s)"
      by (simp add: in_range_pairs option.map_ident)
    then show ?thesis using start(1) at(1) rows by (simp add: bt_visit_range_def rng_def)
  qed
qed

section \<open>Reverse scans\<close>

fun stop_key :: "'k key_range \<Rightarrow> 'k option" where
  "stop_key All = None"
| "stop_key (Only k) = Some k"
| "stop_key (LowerBound _ _) = None"
| "stop_key (UpperBound k _) = Some k"
| "stop_key (Bound _ u _ _) = Some u"

lemma reverse_start_key:
  "reverse_start t rng = (case stop_key rng of None \<Rightarrow> last_position t | Some k \<Rightarrow> position_before t k)"
  by (cases rng) simp_all

text \<open>The entries a reverse scan can meet: a bound from above is always left out.\<close>

definition reverse_entries :: "'k::linorder key_range \<Rightarrow> ('k \<times> row_id list) list \<Rightarrow> ('k \<times> row_id list) list" where
  "reverse_entries rng kvs = (case stop_key rng of None \<Rightarrow> kvs | Some k \<Rightarrow> filter (\<lambda>e. fst e < k) kvs)"

definition ends_at :: "'k::linorder item list \<Rightarrow> (nat \<times> nat) option \<Rightarrow> ('k \<times> row_id list) list \<Rightarrow> ('k \<times> row_id list) list \<Rightarrow> bool" where
  "ends_at sp start upper after \<longleftrightarrow> entries sp = upper @ after \<and>
     (case start of
        None \<Rightarrow> upper = []
      | Some (i, pos) \<Rightarrow> \<exists>l kl e kr r. sp = l @ Leaf i (kl @ e # kr) # r \<and> pos = length kl \<and> upper = entries l @ kl @ [e])"

lemma ends_atI:
  "sp = l @ Leaf i (kl @ e # kr) # r \<Longrightarrow> upper = entries l @ kl @ [e] \<Longrightarrow> after = kr @ entries r
    \<Longrightarrow> ends_at sp (Some (i, length kl)) upper after"
  unfolding ends_at_def option.case prod.case
  apply (rule conjI)
   apply simp
  apply (intro exI conjI)
    apply assumption
   apply simp_all
  done

lemma last_position_spec:
  assumes ok: "bt_ok t sp"
  shows "\<exists>start. last_position t = Some start \<and> ends_at sp start (entries sp) []"
proof -
  obtain i kvs l where ends: "rightmost_leaf t = Some i" "sp = l @ [Leaf i kvs]"
    using ends_spec(2) ok by (fastforce simp: bt_ok_def)
  obtain n where n: "bt_at t i = Some n" "nd_keys n = map fst kvs"
    using leaf_node [of t l i kvs "[]"] ok ends(2) by (auto simp: bt_ok_def)
  show ?thesis
  proof (cases kvs rule: rev_cases)
    case Nil
    then have "entries sp = []" using full_entries [of l i kvs "[]"] ok ends(2) by (simp add: bt_ok_def)
    then show ?thesis using ends(1) n Nil by (simp add: last_position_def ends_at_def)
  next
    case (snoc kvs' e)
    have "ends_at sp (Some (i, length kvs')) (entries sp) []"
      by (rule ends_atI [where kr = "[]" and r = "[]"]) (use ends(2) snoc in simp_all)
    then show ?thesis using ends(1) n snoc by (simp add: last_position_def key_count_def)
  qed
qed

lemma position_before_spec:
  fixes t :: "'k::linorder btree"
  assumes ok: "bt_ok t sp"
  shows "\<exists>start upper after. position_before t key = Some start \<and> ends_at sp start upper after
    \<and> (\<forall>e \<in> set upper. fst e < key) \<and> (\<forall>e \<in> set after. key \<le> fst e)"
proof -
  have facts: "represents t sp" "ordered sp" "bt_comparator t = Asc" "linked t None (leaf_ids sp) None" "full sp"
    using ok by (simp_all add: bt_ok_def)
  obtain c i kvs n where leaf: "find_leaf t key = Some i" "sp = lsp c @ Leaf i kvs # rsp c" "at_leaf t c i kvs n"
    "left_of (lsp c) key" "right_of (rsp c) key"
    using find_leaf_spec [OF facts(1-3)] by metis
  have n: "bt_at t i = Some n" "nd_keys n = map fst kvs" "nd_prev n = last_of None (leaf_ids (lsp c))"
    using leaf(2,3) facts(4) by (auto simp: at_leaf_def linked_append)
  have sorted: "sorted_wrt (<) (map fst kvs)" using leaf(2) facts(2) leaf_keys_sorted by blast
  obtain kl kr where parts: "kvs = kl @ kr" "\<forall>e \<in> set kl. fst e < key" "\<forall>e \<in> set kr. key \<le> fst e"
    "partition_point (\<lambda>k. k < key) (map fst kvs) = length kl"
    using leaf_parts [OF sorted] .
  have pos: "find_key_position key n = length kl" using n(2) parts(4) by (simp add: find_key_position_def)
  have sides: "\<forall>e \<in> set (entries (lsp c) @ kl). fst e < key" "\<forall>e \<in> set (kr @ entries (rsp c)). key \<le> fst e"
    using left_of_entries [OF leaf(4)] right_of_entries [OF leaf(5)] parts(2,3) by fastforce+
  show ?thesis
  proof (cases kl rule: rev_cases)
    case (snoc kl' e)
    have "ends_at sp (Some (i, length kl')) (entries (lsp c) @ kl) (kr @ entries (rsp c))"
      by (rule ends_atI) (use leaf(2) parts(1) snoc in simp_all)
    moreover have "position_before t key = Some (Some (i, length kl'))"
      using leaf(1) n pos snoc by (simp add: position_before_def)
    ultimately show ?thesis using sides by blast
  next
    case Nil
    show ?thesis
    proof (cases "leaf_ids (lsp c) = []")
      case True
      then have "ends_at sp None (entries (lsp c) @ kl) (kr @ entries (rsp c))"
        using leaf(2) parts(1) Nil first_leaf(1) by (auto simp: ends_at_def)
      moreover have "position_before t key = Some None" using leaf(1) n pos Nil True by (simp add: position_before_def)
      ultimately show ?thesis using sides by blast
    next
      case False
      define j where "j = last (leaf_ids (lsp c))"
      obtain l' kvs' ss where l: "lsp c = l' @ Leaf j kvs' # ss" "leaf_ids ss = []"
        using last_leaf [OF False] by (auto simp: j_def)
      have "leaves_full sp" using full_cases [OF facts(5)] leaf(2) l(1) by (auto simp: single_spine)
      then have "kvs' \<noteq> []" using leaf(2) l(1) by (auto simp: leaves_full_def)
      then obtain kl' e where kvs': "kvs' = kl' @ [e]" by (cases kvs' rule: rev_cases) auto
      have sp': "sp = l' @ Leaf j (kl' @ e # []) # (ss @ Leaf i kvs # rsp c)" using leaf(2) l(1) kvs' by simp
      have ss: "entries ss = []" using first_leaf(1) l(2) by blast
      then have "ends_at sp (Some (j, length kl')) (entries (lsp c) @ kl) (kr @ entries (rsp c))"
        by (intro ends_atI [OF sp']) (simp_all add: parts(1) Nil l(1) kvs')
      moreover obtain nj where nj: "bt_at t j = Some nj" "nd_keys nj = map fst (kl' @ [e])"
        using leaf_node [of t l' j "kl' @ [e]" "ss @ Leaf i kvs # rsp c"] facts(1,4) sp' by auto
      have "position_before t key = Some (Some (j, length kl'))"
        using leaf(1) n pos Nil nj False by (simp add: position_before_def j_def last_of_def key_count_def)
      ultimately show ?thesis using sides by blast
    qed
  qed
qed

lemma rev_pairs_in_range: "in_range rng (pairs (rev kvs)) = rows_of_entries rng (rev kvs)"
  by (rule in_range_pairs)

lemma reverse_start_spec:
  assumes ok: "bt_ok t sp"
  shows "\<exists>start after. reverse_start t rng = Some start \<and> ends_at sp start (reverse_entries rng (entries sp)) after"
proof (cases "stop_key rng")
  case None
  then show ?thesis using last_position_spec [OF ok] by (fastforce simp: reverse_start_key reverse_entries_def)
next
  case (Some k)
  obtain start upper after where start: "position_before t k = Some start" "ends_at sp start upper after"
    "\<forall>e \<in> set upper. fst e < k" "\<forall>e \<in> set after. k \<le> fst e"
    using position_before_spec [OF ok, of k] by blast
  have "filter (\<lambda>e. fst e < k) upper = upper" using start(3) by simp
  moreover have "filter (\<lambda>e. fst e < k) after = []" using start(4) by (auto simp: filter_empty_conv)
  ultimately have "filter (\<lambda>e. fst e < k) (entries sp) = upper" using start(2) by (simp add: ends_at_def)
  then show ?thesis using start(1,2) Some by (auto simp: reverse_start_key reverse_entries_def)
qed

lemma bt_visit_reverse:
  fixes t :: "'k::linorder btree"
  assumes ok: "bt_ok t sp"
  defines "rng \<equiv> \<lambda>r. case r of Some r \<Rightarrow> r | None \<Rightarrow> All"
  shows "bt_visit_range r True limit skip visitor t s
    = Some (visit_rows visitor (page limit skip (rows_of_entries (rng r) (rev (reverse_entries (rng r) (entries sp))))) s)"
proof -
  have facts: "represents t sp" "linked t None (leaf_ids sp) None" "sorted_wrt (<) (map fst (entries sp))"
    using ok ordered_entries by (auto simp: bt_ok_def)
  obtain start after where start: "reverse_start t (rng r) = Some start"
      "ends_at sp start (reverse_entries (rng r) (entries sp)) after"
    using reverse_start_spec [OF ok] by blast
  let ?es = "reverse_entries (rng r) (entries sp)"
  show ?thesis
  proof (cases start)
    case None
    then show ?thesis using start
      by (simp add: bt_visit_range_def rng_def ends_at_def rows_of_entries_def page_simps)
  next
    case (Some p)
    then obtain l i kl e kr rr where at: "start = Some (i, length kl)" "sp = l @ Leaf i (kl @ e # kr) # rr" "?es = entries l @ kl @ [e]"
      using start(2) by (auto simp: ends_at_def split: option.splits)
    have "leaves_full sp" by (rule bt_ok_leaves [OF ok]) (use at(2) in simp)
    from iterates_backward [OF facts(1,2) this at(2)] have it: "iterates t (iter_new_at i (length kl) True) (pairs (rev ?es))"
      unfolding at(3) by (simp add: iter_in_def iter_new_at_def)
    have "entries sp = ?es @ after" using start(2) by (simp add: ends_at_def)
    then have "sorted_wrt (<) (map fst ?es)" using facts(3) by (metis map_append sorted_wrt_append)
    then have "sorted_wrt (\<lambda>x y. y < x) (map fst (rev ?es))" by (simp add: rev_map [symmetric] sorted_wrt_rev)
    then have ge: "sorted_wrt (\<lambda>x y. y \<le> x) (map fst (rev ?es))" by (rule sorted_wrt_mono_rel [rotated]) simp
    have stop: "in_range (rng r) b = []" if "pairs (rev ?es) = a @ (k, v) # b" "past (rng r) True k" for k v b a
    proof -
      have "\<not> kr_contains (rng r) (fst x)" if "x \<in> set b" for x
        using past_reverse [OF \<open>past (rng r) True k\<close>] pairs_split [OF \<open>pairs (rev ?es) = a @ (k, v) # b\<close> ge order_refl that] by blast
      then show ?thesis by (simp add: in_range_def)
    qed
    have "visit_loop t (rng r) True limit skip visitor (iter_new_at i (length kl) True) 0 0 s
        = Some (visit_rows visitor (page (map_option (\<lambda>l. l - 0) limit) (skip - 0) (in_range (rng r) (pairs (rev ?es)))) s)"
      by (rule visit_loop_spec [OF it]) (rule stop)
    then have "visit_loop t (rng r) True limit skip visitor (iter_new_at i (length kl) True) 0 0 s
        = Some (visit_rows visitor (page limit skip (rows_of_entries (rng r) (rev ?es))) s)"
      by (simp add: in_range_pairs option.map_ident)
    then show ?thesis using start(1) at(1) by (simp add: bt_visit_range_def rng_def Let_def)
  qed
qed

text \<open>Collecting the visited row ids.\<close>

lemma visit_collect: "visit_rows (\<lambda>v xs. (True, xs @ [v])) vs xs = xs @ vs"
  by (induction vs arbitrary: xs) simp_all

lemma bt_get_range_result:
  assumes "bt_ok t sp"
  shows "bt_get_range r False limit skip t
      = Some (page limit skip (rows_of_entries (case r of Some r \<Rightarrow> r | None \<Rightarrow> All) (entries sp)))"
    and "bt_get_range r True limit skip t = Some (page limit skip (rows_of_entries (case r of Some r \<Rightarrow> r | None \<Rightarrow> All)
      (rev (reverse_entries (case r of Some r \<Rightarrow> r | None \<Rightarrow> All) (entries sp)))))"
  unfolding bt_get_range_def bt_visit_forward [OF assms] bt_visit_reverse [OF assms] visit_collect by simp_all

text \<open>An upper bound that is exclusive or missing loses nothing.\<close>

lemma reverse_entries_open:
  assumes "\<And>k. stop_key rng = Some k \<Longrightarrow> \<not> kr_contains rng k"
  shows "rows_of_entries rng (rev (reverse_entries rng kvs)) = rows_of_entries rng (rev kvs)"
proof (cases "stop_key rng")
  case (Some k)
  have "kr_contains rng k' \<Longrightarrow> k' < k" for k'
    using assms [OF Some] Some by (cases rng) (auto split: if_splits intro: le_neq_trans)
  then show ?thesis
    using Some by (auto simp: rows_of_entries_def reverse_entries_def rev_filter intro!: arg_cong [of _ _ concat] arg_cong [of _ _ "map snd"] filter_cong)
qed (simp add: reverse_entries_def)

end
