(* ===== verification/Cynos_Btree_Batch.thy ===== *)
theory Cynos_Btree_Batch
  imports Cynos_Btree_Scan
begin

text \<open>
  Batches on the B+ tree. The leaf of the last group of a batch of insertions is a hint for the next one; when every
  separator is the first key right of it, as it is as long as nothing was deleted, the hint finds the right leaf.
\<close>

section \<open>The hint\<close>

text \<open>The place of a key between two separators is unique.\<close>

lemma place_unique:
  fixes key :: "'k::linorder"
  assumes "tight (l @ Leaf i kvs # r)" "l @ Leaf i kvs # r = l' @ Leaf j kvs' # r'"
    and "left_of l key" "right_of r key" "left_of l' key" "right_of r' key"
  shows "i = j"
proof -
  have no: False if th: "tight (l @ Leaf i kvs # us @ Leaf j kvs' # r')" and lo: "left_of (l @ Leaf i kvs # us) key"
    and ro: "right_of (us @ Leaf j kvs' # r') key" for l r' i j kvs kvs' us
  proof (cases us)
    case Nil
    then show False using th by (simp add: tight_leaf)
  next
    case (Cons x us')
    then obtain k where "x = Sep k" using th by (auto simp: tight_leaf)
    moreover have "left_of us key" "right_of us key"
      using lo ro unfolding left_of_def right_of_def by (auto simp: seq_def)
    ultimately show False using Cons by (simp add: leD)
  qed
  obtain us where "l = l' @ us \<and> us @ Leaf i kvs # r = Leaf j kvs' # r' \<or> l @ us = l' \<and> Leaf i kvs # r = us @ Leaf j kvs' # r'"
    using assms(2) by (auto simp: append_eq_append_conv2)
  then show ?thesis
  proof (elim disjE conjE)
    assume eq: "l = l' @ us" "us @ Leaf i kvs # r = Leaf j kvs' # r'"
    show ?thesis
    proof (cases us)
      case (Cons x us')
      then have "x = Leaf j kvs'" "r' = us' @ Leaf i kvs # r" using eq by auto
      then show ?thesis using no [of l' j kvs' us' i kvs r] assms eq(1) Cons by simp
    qed (use eq in simp)
  next
    assume eq: "l @ us = l'" "Leaf i kvs # r = us @ Leaf j kvs' # r'"
    show ?thesis
    proof (cases us)
      case (Cons x us')
      then have r: "r = us' @ Leaf j kvs' # r'" and l': "l' = l @ Leaf i kvs # us'" using eq by auto
      have "right_of (us' @ Leaf j kvs' # r') key" using assms(4) r by simp
      from no [OF assms(1) [unfolded r] assms(5) [unfolded l'] this] show ?thesis ..
    qed (use eq in simp)
  qed
qed

definition hint_ok :: "'k::linorder item list \<Rightarrow> 'k \<Rightarrow> nat option \<Rightarrow> bool" where
  "hint_ok sp key hint \<longleftrightarrow> (case hint of None \<Rightarrow> True | Some i \<Rightarrow> \<exists>l kvs r. sp = l @ Leaf i kvs # r \<and> left_of l key)"

lemma left_of_mono: "left_of l key \<Longrightarrow> key \<le> key' \<Longrightarrow> left_of l key'"
  unfolding left_of_def by force

lemma hint_ok_mono: "hint_ok sp key hint \<Longrightarrow> key \<le> key' \<Longrightarrow> hint_ok sp key' hint"
  using left_of_mono by (fastforce simp: hint_ok_def split: option.splits)

lemma right_of_after:
  assumes "ordered (l @ Leaf i (kvs @ [e]) # r)" "key \<le> fst e"
  shows "right_of r key"
proof -
  have "plt (fst e, True) x" if "x \<in> set (seq r)" for x
    using assms(1) that by (auto simp: ordered_def sorted_wrt_append simp del: plt.simps)
  moreover have "plt (key, True) x" if "plt (fst e, True) x" for x using that assms(2) by (cases x) auto
  ultimately show ?thesis by (simp add: right_of_def)
qed

lemma right_of_sep:
  assumes "ordered (l @ Sep k # r)" "key < k"
  shows "right_of (Sep k # r) key"
proof -
  have "plt (k, False) x" if "x \<in> set (seq r)" for x
    using assms(1) that by (auto simp: ordered_def sorted_wrt_append simp del: plt.simps)
  moreover have "plt (key, True) x" if "plt (k, False) x" for x using that assms(2) by (cases x) auto
  ultimately show ?thesis using assms(2) by (simp add: right_of_def)
qed

lemma left_of_leaf:
  assumes "ordered (l @ Leaf i (kvs @ [e]) # r)" "fst e < key"
  shows "left_of [Leaf i (kvs @ [e])] key"
proof -
  have "sorted_wrt (<) (map fst (kvs @ [e]))" using leaf_keys_sorted [OF assms(1)] .
  then have "fst e' < key" if "e' \<in> set (kvs @ [e])" for e' using that assms(2) by (auto simp: sorted_wrt_append)
  then show ?thesis by (auto simp: left_of_def)
qed

lemma hint_loop_spec:
  fixes t :: "'k::linorder btree"
  assumes ok: "bt_ok t sp" and tight: "tight sp" and sp: "sp = l @ Leaf i kvs # r" and left: "left_of l key"
  shows "\<exists>l' j kvs' r'. hint_loop t key i = Some j \<and> sp = l' @ Leaf j kvs' # r' \<and> left_of l' key \<and> right_of r' key"
  using sp left
proof (induction "length r" arbitrary: l i kvs r rule: less_induct)
  case less
  have facts: "represents t sp" "linked t None (leaf_ids sp) None" "ordered sp" "full sp" "bt_comparator t = Asc"
    using ok by (simp_all add: bt_ok_def)
  obtain n where n: "bt_at t i = Some n" "nd_keys n = map fst kvs" "nd_next n = first_of (leaf_ids r) None"
    using leaf_node [of t l i kvs r] facts(1,2) less.prems(1) by auto
  show ?case
  proof (cases kvs rule: rev_cases)
    case Nil
    then have "l = []" "r = []" using facts(4) less.prems(1) by (auto simp: full_def single_spine)
    moreover have "hint_loop t key i = Some i" using n Nil by (subst hint_loop.simps) simp
    ultimately show ?thesis using less.prems by (intro exI [of _ l] exI [of _ i] exI [of _ kvs] exI [of _ r]) simp
  next
    case (snoc kvs' e)
    have ord: "ordered (l @ Leaf i (kvs' @ [e]) # r)" using facts(3) less.prems(1) snoc by simp
    show ?thesis
    proof (cases "fst e < key")
      case False
      then have "right_of r key" using right_of_after [OF ord] by simp
      moreover have "hint_loop t key i = Some i"
        using n snoc False by (subst hint_loop.simps) (simp add: bt_is_less_Asc [OF facts(5)])
      ultimately show ?thesis using less.prems by (intro exI [of _ l] exI [of _ i] exI [of _ kvs] exI [of _ r]) simp
    next
      case True
      show ?thesis
      proof (cases r)
        case Nil
        then have "hint_loop t key i = Some i" using n by (subst hint_loop.simps) simp
        then show ?thesis using less.prems Nil by (intro exI [of _ l] exI [of _ i] exI [of _ kvs] exI [of _ r]) simp
      next
        case (Cons x r1)
        then obtain k where x: "x = Sep k" using tight less.prems(1) by (auto simp: tight_leaf)
        have "r1 \<noteq> []"
        proof
          assume "r1 = []"
          then have "last sp = Sep k" using less.prems(1) Cons x by simp
          then show False using ends_spec(2) [OF facts(1)] by auto
        qed
        moreover have "tight (Sep k # r1)" using tight less.prems(1) Cons x by (simp add: tight_leaf)
        ultimately obtain j e' kvs2 r2 where r1: "r1 = Leaf j (e' # kvs2) # r2" "fst e' = k"
          by (cases r1) (auto simp: tight_def)
        have sp2: "sp = (l @ [Leaf i kvs, Sep k]) @ Leaf j (e' # kvs2) # r2" using less.prems(1) Cons x r1 by simp
        obtain n2 where n2: "bt_at t j = Some n2" "nd_keys n2 = k # map fst kvs2"
          using leaf_node [of t "l @ [Leaf i kvs, Sep k]" j "e' # kvs2" r2] facts(1,2) sp2 r1(2) by auto
        have step: "hint_loop t key i = (if \<not> key < k then hint_loop t key j else Some i)"
          using n snoc True Cons x r1(1) n2 by (subst hint_loop.simps) (simp add: bt_is_less_Asc [OF facts(5)])
        show ?thesis
        proof (cases "key < k")
          case lt: True
          have "right_of r key"
            using right_of_sep [of "l @ [Leaf i kvs]" k r1 key] facts(3) less.prems(1) Cons x lt by simp
          then show ?thesis using step lt less.prems by (intro exI [of _ l] exI [of _ i] exI [of _ kvs] exI [of _ r]) simp
        next
          case False
          have "left_of (l @ [Leaf i kvs] @ [Sep k]) key"
            using less.prems(2) left_of_leaf [OF ord True] snoc False unfolding left_of_simps by simp
          then have "left_of (l @ [Leaf i kvs, Sep k]) key" by simp
          moreover have "length r2 < length r" using Cons r1(1) by simp
          ultimately show ?thesis using less.hyps [OF _ sp2] step False by simp
        qed
      qed
    qed
  qed
qed

lemma find_leaf_from_hint_spec:
  assumes ok: "bt_ok t sp" and tight: "tight sp" and hint: "hint_ok sp key hint"
  shows "find_leaf_from_hint t key hint = find_leaf t key"
proof (cases hint)
  case (Some i)
  then obtain l kvs r where "sp = l @ Leaf i kvs # r" "left_of l key" using hint by (auto simp: hint_ok_def)
  then obtain l' j kvs' r' where hl: "hint_loop t key i = Some j" "sp = l' @ Leaf j kvs' # r'" "left_of l' key" "right_of r' key"
    using hint_loop_spec [OF ok tight] by blast
  have facts: "represents t sp" "ordered sp" "bt_comparator t = Asc" using ok by (simp_all add: bt_ok_def)
  obtain c i' kvs2 n where leaf: "find_leaf t key = Some i'" "sp = lsp c @ Leaf i' kvs2 # rsp c"
    "left_of (lsp c) key" "right_of (rsp c) key"
    using find_leaf_spec [OF facts] by metis
  have th: "tight (l' @ Leaf j kvs' # r')" using tight hl(2) by simp
  have "l' @ Leaf j kvs' # r' = lsp c @ Leaf i' kvs2 # rsp c" using hl(2) leaf(2) by simp
  from place_unique [OF th this hl(3,4) leaf(3,4)] have "j = i'" .
  then show ?thesis using hl(1) leaf(1) Some by (simp add: find_leaf_from_hint_def)
qed (simp add: find_leaf_from_hint_def)

section \<open>One group of a batch\<close>

lemma leaf_add_group:
  fixes kvs :: "('k::linorder \<times> row_id list) list" and key :: 'k
  assumes "sorted_wrt (<) (map fst kvs)" "nd_keys n = map fst kvs" "nd_values n = map snd kvs"
  defines "pos \<equiv> find_key_position key n"
  shows "(if pos < key_count n then do { k \<leftarrow> vec_at (nd_keys n) pos; Some (k = key) } else Some False)
      = Some (map_of kvs key \<noteq> None)"
    and "(if map_of kvs key \<noteq> None then
        do { old \<leftarrow> vec_at (nd_values n) pos; Some (n\<lparr>nd_values := (nd_values n)[pos := old @ vs]\<rparr>) }
      else do { keys \<leftarrow> vec_insert_at pos key (nd_keys n); values \<leftarrow> vec_insert_at pos vs (nd_values n);
                Some (n\<lparr>nd_keys := keys, nd_values := values\<rparr>) })
      = Some (n\<lparr>nd_keys := map fst (upsert key vs kvs), nd_values := map snd (upsert key vs kvs)\<rparr>)"
proof (atomize (full), cases rule: leaf_find [OF assms(1,2), of key, case_names found absent])
  case (found kl ws kr)
  have "n\<lparr>nd_values := x\<rparr> = n\<lparr>nd_keys := map fst kl @ key # map fst kr, nd_values := x\<rparr>" for x
    using found(1) assms(2) by (cases n) simp
  moreover have "map_of kvs key = Some ws" using found map_of_around [of kl key kr "[(key, ws)]"] by simp
  ultimately show "(if pos < key_count n then do { k \<leftarrow> vec_at (nd_keys n) pos; Some (k = key) } else Some False)
      = Some (map_of kvs key \<noteq> None) \<and> (if map_of kvs key \<noteq> None then
        do { old \<leftarrow> vec_at (nd_values n) pos; Some (n\<lparr>nd_values := (nd_values n)[pos := old @ vs]\<rparr>) }
      else do { keys \<leftarrow> vec_insert_at pos key (nd_keys n); values \<leftarrow> vec_insert_at pos vs (nd_values n);
                Some (n\<lparr>nd_keys := keys, nd_values := values\<rparr>) })
      = Some (n\<lparr>nd_keys := map fst (upsert key vs kvs), nd_values := map snd (upsert key vs kvs)\<rparr>)"
    using found assms(2,3) upsert_found [of kl key vs ws kr]
    by (simp add: pos_def key_count_def vec_at_def nth_append list_update_append)
next
  case (absent kl kr)
  have "map_of kvs key = None" using absent map_of_around [of kl key kr "[]"] by simp
  moreover have "length kl < length (nd_keys n) \<Longrightarrow> nd_keys n ! length kl \<noteq> key"
    using absent(1,5) assms(2) by (cases kr) (auto simp: nth_append)
  ultimately show "(if pos < key_count n then do { k \<leftarrow> vec_at (nd_keys n) pos; Some (k = key) } else Some False)
      = Some (map_of kvs key \<noteq> None) \<and> (if map_of kvs key \<noteq> None then
        do { old \<leftarrow> vec_at (nd_values n) pos; Some (n\<lparr>nd_values := (nd_values n)[pos := old @ vs]\<rparr>) }
      else do { keys \<leftarrow> vec_insert_at pos key (nd_keys n); values \<leftarrow> vec_insert_at pos vs (nd_values n);
                Some (n\<lparr>nd_keys := keys, nd_values := values\<rparr>) })
      = Some (n\<lparr>nd_keys := map fst (upsert key vs kvs), nd_values := map snd (upsert key vs kvs)\<rparr>)"
    using absent assms(2,3) upsert_absent [of kl key kr vs]
    by (simp add: pos_def key_count_def vec_at_def vec_insert_at_def vec_insert_def)
qed

lemma add_group_spec:
  fixes t :: "'k::linorder btree"
  assumes ok: "bt_ok t sp" and tight: "tight sp" and hint: "hint_ok sp key hint" and vs: "vs \<noteq> []"
    and allowed: "\<not> (bt_unique t \<and> map_of (entries sp) key \<noteq> None)"
  shows "\<exists>hint' t' sp'. add_group key vs hint t = Some (Inr hint', t') \<and> bt_ok t' sp' \<and> tight sp'
    \<and> entries sp' = upsert key vs (entries sp) \<and> bt_unique t' = bt_unique t \<and> hint_ok sp' key hint'"
proof -
  have facts: "represents t sp" "ordered sp" "bt_comparator t = Asc" using ok by (simp_all add: bt_ok_def)
  obtain c i kvs n where leaf: "find_leaf t key = Some i" "sp = lsp c @ Leaf i kvs # rsp c" "at_leaf t c i kvs n"
    "left_of (lsp c) key" "right_of (rsp c) key"
    using find_leaf_spec [OF facts] by metis
  have n: "bt_at t i = Some n" "nd_keys n = map fst kvs" "nd_values n = map snd kvs"
    using leaf(3) by (simp_all add: at_leaf_def)
  have sorted: "sorted_wrt (<) (map fst kvs)" using leaf(2) facts(2) leaf_keys_sorted by blast
  have m: "map_of (entries sp) key = map_of kvs key" using rows_at_leaf [OF leaf(4,5)] leaf(2) by simp
  let ?n = "n\<lparr>nd_keys := map fst (upsert key vs kvs), nd_values := map snd (upsert key vs kvs)\<rparr>"
  let ?t = "(bt_put i ?n t)\<lparr>bt_stats := stats_add_rows (of_nat (length vs)) (bt_stats t)\<rparr>"
  have hl: "find_leaf_from_hint t key hint = Some i" using find_leaf_from_hint_spec [OF ok tight hint] leaf(1) by simp
  have not: "\<not> (map_of kvs key \<noteq> None \<and> bt_unique t)" using allowed m by auto
  have run: "add_group key vs hint t = (if key_count ?n \<ge> bt_order t then do { t \<leftarrow> split_leaf i ?t; Some (Inr None, t) }
      else Some (Inr (Some i), ?t))"
    unfolding add_group_def hl bind.bind_lunit n(1) Let_def leaf_add_group(1) [OF sorted n(2,3)] if_not_P [OF not]
      leaf_add_group(2) [OF sorted n(2,3)]
    by simp
  obtain t' sp' where t': "(if key_count ?n \<ge> bt_order ?t then split_leaf i ?t else Some ?t) = Some t'" "bt_ok t' sp'"
    "entries sp' = upsert key vs (entries sp)" "bt_unique t' = bt_unique t" "tight sp'"
    "key_count ?n < bt_order ?t \<Longrightarrow> sp' = lsp c @ Leaf i (upsert key vs kvs) # rsp c"
    using leaf_takes_rows [OF ok leaf(2,3,4,5) vs] tight by auto
  have order: "bt_order ?t = bt_order t" by simp
  show ?thesis
  proof (cases "key_count ?n \<ge> bt_order t")
    case True
    then have "add_group key vs hint t = Some (Inr None, t')" using run t'(1) order by simp
    then show ?thesis using t' by (auto simp: hint_ok_def)
  next
    case False
    then have "add_group key vs hint t = Some (Inr (Some i), t')" using run t'(1) order by simp
    moreover have "hint_ok sp' key (Some i)" using t'(6) False order leaf(4) by (auto simp: hint_ok_def)
    ultimately show ?thesis using t'(2-5) by blast
  qed
qed

section \<open>Batches of insertions\<close>

lemma sorted_group:
  assumes "sorted (key # map fst es)"
  shows "\<forall>e \<in> set (dropWhile (\<lambda>e. fst e = key) es). key < fst e"
    and "sorted (map fst (dropWhile (\<lambda>e. fst e = key) es))"
  using assms
proof (induction es)
  case (Cons e es)
  {
    case 1
    then show ?case using Cons.IH(1) by (auto intro: order.not_eq_order_implies_strict)
  next
    case 2
    then show ?case using Cons.IH(2) by auto
  }
qed simp_all

lemma filter_group:
  fixes es :: "('k::linorder \<times> 'v) list"
  assumes "sorted (key # map fst es)"
  shows "filter (\<lambda>e. fst e = key) es = takeWhile (\<lambda>e. fst e = key) es"
    and "k \<noteq> key \<Longrightarrow> filter (\<lambda>e. fst e = k) es = filter (\<lambda>e. fst e = k) (dropWhile (\<lambda>e. fst e = key) es)"
proof -
  let ?g = "takeWhile (\<lambda>e. fst e = key) es" and ?d = "dropWhile (\<lambda>e. fst e = key) es"
  have "filter (\<lambda>e. fst e = key) ?d = []" using sorted_group(1) [OF assms] by (force simp: filter_empty_conv)
  moreover have "filter (\<lambda>e. fst e = key) ?g = ?g" by (auto simp: filter_id_conv dest: set_takeWhileD)
  ultimately show "filter (\<lambda>e. fst e = key) es = ?g"
    using filter_append [of "\<lambda>e. fst e = key" ?g ?d] by simp
  assume "k \<noteq> key"
  then have "filter (\<lambda>e. fst e = k) ?g = []" by (auto simp: filter_empty_conv dest: set_takeWhileD)
  then show "filter (\<lambda>e. fst e = k) es = filter (\<lambda>e. fst e = k) ?d"
    using filter_append [of "\<lambda>e. fst e = k" ?g ?d] by simp
qed

lemma add_groups_spec:
  fixes t :: "'k::linorder btree"
  assumes "bt_ok t sp" "tight sp" "sorted (map fst es)" "\<forall>e \<in> set es. hint_ok sp (fst e) hint"
    and "bt_unique t \<longrightarrow> distinct (map fst es) \<and> (\<forall>e \<in> set es. map_of (entries sp) (fst e) = None)"
  shows "\<exists>t' sp'. add_groups es hint t = Some (Inr (), t') \<and> bt_ok t' sp' \<and> tight sp' \<and> bt_unique t' = bt_unique t
    \<and> (\<forall>k. rows_at (entries sp') k = rows_at (entries sp) k @ map snd (filter (\<lambda>e. fst e = k) es))"
  using assms
proof (induction es hint t arbitrary: sp rule: add_groups.induct)
  case (1 hint t)
  then show ?case by auto
next
  case (2 key row es hint t)
  let ?g = "takeWhile (\<lambda>e. fst e = key) es" and ?d = "dropWhile (\<lambda>e. fst e = key) es"
  let ?vs = "row # map snd ?g"
  have sorted: "sorted (key # map fst es)" using "2.prems"(3) by simp
  have hint: "hint_ok sp key hint" using "2.prems"(4) by simp
  have allowed: "\<not> (bt_unique t \<and> map_of (entries sp) key \<noteq> None)" using "2.prems"(5) by auto
  obtain hint' t1 sp1 where t1: "add_group key ?vs hint t = Some (Inr hint', t1)" "bt_ok t1 sp1" "tight sp1"
    "entries sp1 = upsert key ?vs (entries sp)" "bt_unique t1 = bt_unique t" "hint_ok sp1 key hint'"
    using add_group_spec [OF "2.prems"(1,2) hint _ allowed, of ?vs] by auto
  have hints: "\<forall>e \<in> set ?d. hint_ok sp1 (fst e) hint'"
    using sorted_group(1) [OF sorted] hint_ok_mono [OF t1(6)] by (simp add: less_imp_le)
  have uniq: "bt_unique t1 \<longrightarrow> distinct (map fst ?d) \<and> (\<forall>e \<in> set ?d. map_of (entries sp1) (fst e) = None)"
  proof
    assume "bt_unique t1"
    then have u: "distinct (map fst es)" "\<forall>e \<in> set es. map_of (entries sp) (fst e) = None" using "2.prems"(5) t1(5) by simp_all
    have "distinct (map fst ?d)" using u(1) by (metis distinct_append map_append takeWhile_dropWhile_id)
    moreover have "map_of (entries sp1) (fst e) = None" if "e \<in> set ?d" for e
    proof -
      have "fst e \<noteq> key" using sorted_group(1) [OF sorted] that by force
      moreover have "fst e \<notin> fst ` set (entries sp)" using u(2) set_dropWhileD [OF that] by (simp add: map_of_eq_None_iff)
      ultimately show ?thesis unfolding map_of_eq_None_iff t1(4) by simp
    qed
    ultimately show "distinct (map fst ?d) \<and> (\<forall>e \<in> set ?d. map_of (entries sp1) (fst e) = None)" by blast
  qed
  obtain t2 sp2 where t2: "add_groups ?d hint' t1 = Some (Inr (), t2)" "bt_ok t2 sp2" "tight sp2" "bt_unique t2 = bt_unique t1"
    "\<forall>k. rows_at (entries sp2) k = rows_at (entries sp1) k @ map snd (filter (\<lambda>e. fst e = k) ?d)"
    using "2.IH" [OF t1(1) refl refl t1(2,3) sorted_group(2) [OF sorted] hints uniq] by blast
  have "rows_at (entries sp2) k = rows_at (entries sp) k @ map snd (filter (\<lambda>e. fst e = k) ((key, row) # es))" for k
  proof -
    have s: "sorted_wrt (<) (map fst (entries sp))" using "2.prems"(1) ordered_entries by (auto simp: bt_ok_def)
    have "filter (\<lambda>e. fst e = key) ?d = []" using sorted_group(1) [OF sorted] by (force simp: filter_empty_conv)
    then show ?thesis
      using t2(5) upsert_rows [OF s, of key ?vs k] filter_group [OF sorted] unfolding t1(4) by (cases "k = key") simp_all
  qed
  moreover have "add_groups ((key, row) # es) hint t = Some (Inr (), t2)" using t1(1) t2(1) by simp
  ultimately show ?case using t2(2-4) t1(5) by auto
qed

lemma batch_refused_spec:
  assumes ok: "bt_ok t sp"
  shows "sorted (map fst es) \<Longrightarrow> \<forall>k. last_key = Some k \<longrightarrow> (\<forall>e \<in> set es. k \<le> fst e) \<Longrightarrow>
    batch_refused t last_key es = Some ((\<exists>e \<in> set es. map_of (entries sp) (fst e) \<noteq> None) \<or> \<not> distinct (map fst es)
      \<or> (\<exists>k \<in> fst ` set es. last_key = Some k))"
proof (induction es arbitrary: last_key)
  case (Cons e es)
  obtain key v where e: "e = (key, v)" by fastforce
  have present: "bt_contains_key key t = Some (map_of (entries sp) key \<noteq> None)"
    using ok bt_get_result(2) by (auto simp: bt_ok_def)
  have rest: "batch_refused t (Some key) es = Some ((\<exists>e \<in> set es. map_of (entries sp) (fst e) \<noteq> None) \<or> \<not> distinct (map fst es)
      \<or> (\<exists>k \<in> fst ` set es. Some key = Some k))"
    using Cons.prems(1) e by (intro Cons.IH) auto
  have "k \<notin> fst ` set es" if "last_key = Some k" "k \<noteq> key" for k
    using Cons.prems that e by force
  then show ?case using present rest e by (auto simp: image_iff)
qed simp

lemma sort_batch: "map snd (filter (\<lambda>e. fst e = k) (sort_key fst es)) = map snd (filter (\<lambda>e. fst e = k) es)"
  by (simp add: sort_key_stable)

lemma hint_ok_None [simp]: "hint_ok sp key None"
  by (simp add: hint_ok_def)

lemma bt_add_batch_spec:
  fixes t :: "'k::linorder btree"
  assumes ok: "bt_ok t sp" and tight: "tight sp"
  defines "refused \<equiv> \<lambda>es. bt_unique t \<and> \<not> (distinct (map fst es) \<and> (\<forall>k \<in> fst ` set es. rows_at (entries sp) k = []))"
  shows "refused es \<Longrightarrow> bt_add_batch es t = Some (Inl DuplicateKey, t)"
    and "\<not> refused es \<Longrightarrow> \<exists>t' sp'. bt_add_batch es t = Some (Inr (), t') \<and> bt_ok t' sp' \<and> tight sp' \<and> bt_unique t' = bt_unique t
      \<and> (\<forall>k. rows_at (entries sp') k = rows_at (entries sp) k @ map snd (filter (\<lambda>e. fst e = k) es))"
proof -
  let ?es = "sort_key fst es"
  have none: "map_of (entries sp) k = None \<longleftrightarrow> rows_at (entries sp) k = []" for k
  proof -
    have "vs \<noteq> []" if "map_of (entries sp) k = Some vs" for vs
      using map_of_SomeD [OF that] ok by (auto simp: bt_ok_def)
    then show ?thesis by (auto simp: rows_at_def split: option.split)
  qed
  have dist: "distinct (map fst ?es) = distinct (map fst es)"
    using mset_eq_imp_distinct_iff [of "map fst ?es" "map fst es"] by simp
  have check: "batch_refused t None ?es = Some ((\<exists>k \<in> fst ` set es. rows_at (entries sp) k \<noteq> []) \<or> \<not> distinct (map fst es))"
    using batch_refused_spec [OF ok, of ?es None] none dist by simp
  show "bt_add_batch es t = Some (Inl DuplicateKey, t)" if "refused es"
  proof -
    have "es \<noteq> []" using that by (auto simp: refused_def)
    then show ?thesis using that check by (auto simp: bt_add_batch_def refused_def)
  qed
  assume free: "\<not> refused es"
  show "\<exists>t' sp'. bt_add_batch es t = Some (Inr (), t') \<and> bt_ok t' sp' \<and> tight sp' \<and> bt_unique t' = bt_unique t
      \<and> (\<forall>k. rows_at (entries sp') k = rows_at (entries sp) k @ map snd (filter (\<lambda>e. fst e = k) es))"
  proof (cases "es = []")
    case True
    then show ?thesis using ok tight by (auto simp: bt_add_batch_def)
  next
    case False
    have uniq: "bt_unique t \<longrightarrow> distinct (map fst ?es) \<and> (\<forall>e \<in> set ?es. map_of (entries sp) (fst e) = None)"
      using free dist none by (auto simp: refused_def)
    obtain t' sp' where t': "add_groups ?es None t = Some (Inr (), t')" "bt_ok t' sp'" "tight sp'" "bt_unique t' = bt_unique t"
      "\<forall>k. rows_at (entries sp') k = rows_at (entries sp) k @ map snd (filter (\<lambda>e. fst e = k) ?es)"
      using add_groups_spec [OF ok tight _ _ uniq, of None] by auto
    have "bt_add_batch es t = Some (Inr (), t')"
      using False check free t'(1) by (auto simp: bt_add_batch_def refused_def Let_def)
    then show ?thesis using t'(2-5) by (auto simp: sort_batch)
  qed
qed

end
