(* ===== verification/Cynos_Btree_Remove.thy ===== *)
theory Cynos_Btree_Remove
  imports Cynos_Btree_Batch
begin

text \<open>
  Batches of removals on the B+ tree: leaves may be left empty until the end, when the underflows are handled from
  the right to the left.
\<close>

section \<open>The path to a leaf of the spine\<close>

lemma weave_split:
  assumes "length ks = length ss" "s @ rweave ks ss = l @ x # r" "\<forall>k. x \<noteq> Sep k"
  shows "\<exists>p lx rx. p < length (s # ss) \<and> (s # ss) ! p = lx @ x # rx \<and> l = lweave (take p ks) (take p (s # ss)) @ lx
    \<and> r = rx @ rweave (drop p ks) (drop p ss)"
  using assms
proof (induction ks ss arbitrary: s l rule: list_induct2)
  case Nil
  then show ?case by (intro exI [of _ 0]) auto
next
  case (Cons k ks s' ss)
  have eq: "s @ Sep k # s' @ rweave ks ss = l @ x # r" using Cons.prems(1) by simp
  then obtain us where "s = l @ us \<and> us @ Sep k # s' @ rweave ks ss = x # r \<or> s @ us = l \<and> Sep k # s' @ rweave ks ss = us @ x # r"
    by (auto simp: append_eq_append_conv2)
  then show ?case
  proof (elim disjE conjE)
    assume us: "s = l @ us" "us @ Sep k # s' @ rweave ks ss = x # r"
    show ?thesis
    proof (cases us)
      case Nil
      then show ?thesis using us Cons.prems(2) by auto
    next
      case (Cons y us')
      then show ?thesis using us by (intro exI [of _ 0] exI [of _ l] exI [of _ us']) auto
    qed
  next
    assume us: "s @ us = l" "Sep k # s' @ rweave ks ss = us @ x # r"
    then obtain us' where us': "us = Sep k # us'" "s' @ rweave ks ss = us' @ x # r"
      using Cons.prems(2) by (cases us) auto
    obtain p lx rx where p: "p < length (s' # ss)" "(s' # ss) ! p = lx @ x # rx" "us' = lweave (take p ks) (take p (s' # ss)) @ lx"
      "r = rx @ rweave (drop p ks) (drop p ss)"
      using Cons.IH [OF us'(2) Cons.prems(2)] by blast
    show ?thesis
      by (intro exI [of _ "Suc p"] exI [of _ lx] exI [of _ rx]) (use p us us'(1) in auto)
  qed
qed

lemma spine_path:
  "cbal c n \<Longrightarrow> bal n g \<Longrightarrow> spine g = l @ Leaf i kvs # r \<Longrightarrow>
    \<exists>c'. plug c g = plug c' (GLeaf i kvs) \<and> cbal c' 0 \<and> lsp c' = lsp c @ l \<and> rsp c' = r @ rsp c"
proof (induction n arbitrary: c g l r)
  case 0
  then have "g = GLeaf i kvs" "l = []" "r = []" by (cases g; auto simp: Cons_eq_append_conv)+
  then show ?case using 0(1) by auto
next
  case (Suc n)
  then obtain j ks gs where g: "g = GNode j ks gs" "length gs = Suc (length ks)" "list_all (bal n) gs" "ks \<noteq> []"
    by (cases g) auto
  obtain h hs where gs: "gs = h # hs" using g(2) by (cases gs) auto
  have "length ks = length (map spine hs)" "spine h @ rweave ks (map spine hs) = l @ Leaf i kvs # r"
    using Suc.prems(3) g gs by simp_all
  from weave_split [OF this] obtain p lx rx where p: "p < length (spine h # map spine hs)" "(spine h # map spine hs) ! p = lx @ Leaf i kvs # rx"
    "l = lweave (take p ks) (take p (spine h # map spine hs)) @ lx" "r = rx @ rweave (drop p ks) (drop p (map spine hs))"
    by auto
  have len: "p < length gs" using p(1) gs by simp
  have sp: "spine (gs ! p) = lx @ Leaf i kvs # rx" using p(1,2) gs by (cases p) auto
  let ?f = "Frame j (take p ks) (take p gs) (drop p ks) (drop (Suc p) gs)"
  have split: "take p gs @ gs ! p # drop (Suc p) gs = gs" using id_take_nth_drop [OF len] by simp
  have cb: "cbal (?f # c) n"
    using Suc.prems(1) g len by (auto simp: list_all_iff dest: in_set_takeD in_set_dropD)
  have "bal n (gs ! p)" using g(3) len by (simp add: list_all_length)
  from Suc.IH [OF cb this sp] obtain c' where c': "plug (?f # c) (gs ! p) = plug c' (GLeaf i kvs)" "cbal c' 0"
    "lsp c' = lsp (?f # c) @ lx" "rsp c' = rx @ rsp (?f # c)" by blast
  have "plug (?f # c) (gs ! p) = plug c g" using split g(1) by simp
  moreover have "lsp (?f # c) @ lx = lsp c @ l" using p(3) gs by (simp add: take_map [symmetric])
  moreover have "rx @ rsp (?f # c) = r @ rsp c" using p(4) gs by (simp add: drop_map)
  ultimately show ?case using c' by metis
qed

lemma leaf_path:
  assumes "represents t (l @ Leaf i kvs # r)"
  shows "\<exists>c n. at_leaf t c i kvs n \<and> lsp c = l \<and> rsp c = r"
proof -
  obtain g m where g: "holds t (nodes None g)" "bal m g" "bt_root t = gid g" "spine g = l @ Leaf i kvs # r"
    using assms by (auto simp: represents_def)
  obtain c where c: "g = plug c (GLeaf i kvs)" "cbal c 0" "lsp c = l" "rsp c = r"
    using spine_path [of "[]" m g l i kvs r] g(2,4) by auto
  have at: "holds t (cnodes c i @ nodes (parent_of c) (GLeaf i kvs))"
    using g(1) c(1) holds_plug [of t c "GLeaf i kvs"] by simp
  then obtain n where "bt_at t i = Some n" "nd_is_leaf n" "nd_keys n = map fst kvs" "nd_values n = map snd kvs"
      "nd_children n = []" "nd_parent n = parent_of c"
    using node_shape_at [OF at, of i True "map fst kvs" "map snd kvs" "[]" "parent_of c"] by auto
  then show ?thesis using at c g(3) by (auto simp: at_leaf_def)
qed

section \<open>Leaves and separators alternate\<close>

fun is_sep :: "'k item \<Rightarrow> bool" where
  "is_sep (Sep k) = True"
| "is_sep (Leaf i kvs) = False"

definition alternates :: "'k item list \<Rightarrow> bool" where
  "alternates sp \<longleftrightarrow> sp \<noteq> [] \<and> \<not> is_sep (hd sp) \<and> \<not> is_sep (last sp) \<and> successively (\<lambda>x y. is_sep x \<noteq> is_sep y) sp"

lemma alternates_join: "alternates s \<Longrightarrow> alternates s' \<Longrightarrow> alternates (s @ Sep k # s')"
  by (cases s') (auto simp: alternates_def successively_append_iff successively_Cons)

lemma alternates_weave:
  "length ks = length ss \<Longrightarrow> alternates s \<Longrightarrow> \<forall>s \<in> set ss. alternates s \<Longrightarrow> alternates (s @ rweave ks ss)"
proof (induction ks ss arbitrary: s rule: list_induct2)
  case (Cons k ks s' ss)
  have "alternates (s @ Sep k # (s' @ rweave ks ss))" by (rule alternates_join) (use Cons in auto)
  then show ?case by simp
qed simp

lemma spine_alternates: "bal n g \<Longrightarrow> alternates (spine g)"
proof (induction n arbitrary: g)
  case 0
  then show ?case by (cases g) (auto simp: alternates_def)
next
  case (Suc n)
  then obtain j ks gs where g: "g = GNode j ks gs" "length gs = Suc (length ks)" "list_all (bal n) gs" by (cases g) auto
  obtain h hs where gs: "gs = h # hs" using g(2) by (cases gs) auto
  have "alternates (spine h @ rweave ks (map spine hs))"
    by (rule alternates_weave) (use g gs Suc.IH in \<open>auto simp: list_all_iff\<close>)
  then show ?case using g gs by simp
qed

text \<open>A leaf whose left is left of a key is not to the right of the leaf of the key.\<close>

lemma place_order:
  fixes key :: "'k::linorder"
  assumes "represents t sp" "sp = l @ Leaf i kvs # r" "sp = l' @ Leaf j kvs' # r'" "right_of r key" "left_of l' key"
  shows "l = l' \<or> (\<exists>us. l = l' @ Leaf j kvs' # us \<and> r' = us @ Leaf i kvs # r)"
proof -
  have alt: "alternates sp" using assms(1) spine_alternates by (auto simp: represents_def)
  obtain us where "l = l' @ us \<and> us @ Leaf i kvs # r = Leaf j kvs' # r' \<or> l @ us = l' \<and> Leaf i kvs # r = us @ Leaf j kvs' # r'"
    using append_eq_append_conv2 [THEN iffD1, of l "Leaf i kvs # r" l' "Leaf j kvs' # r'"] assms(2,3) by blast
  then show ?thesis
  proof (elim disjE conjE)
    assume "l = l' @ us" "us @ Leaf i kvs # r = Leaf j kvs' # r'"
    then show ?thesis by (cases us) auto
  next
    assume us: "l @ us = l'" "Leaf i kvs # r = us @ Leaf j kvs' # r'"
    show ?thesis
    proof (cases us)
      case (Cons x us')
      then have r: "r = us' @ Leaf j kvs' # r'" and l': "l' = l @ Leaf i kvs # us'" using us by auto
      have "successively (\<lambda>x y. is_sep x \<noteq> is_sep y) (Leaf i kvs # us' @ Leaf j kvs' # r')"
        using alt assms(2) r by (simp add: alternates_def successively_append_iff)
      then obtain k us2 where "us' = Sep k # us2" by (cases us'; cases "hd us'") auto
      moreover have "left_of us' key" using assms(5) unfolding l' left_of_def by (auto simp: seq_def)
      moreover have "right_of us' key" using assms(4) r by simp
      ultimately show ?thesis by (simp add: leD)
    qed (use us in simp)
  qed
qed

section \<open>Trees with empty leaves\<close>

fun item_empty :: "'k item \<Rightarrow> nat list" where
  "item_empty (Leaf i kvs) = (if kvs = [] then [i] else [])"
| "item_empty (Sep k) = []"

definition empties :: "'k item list \<Rightarrow> nat list" where
  "empties sp = concat (map item_empty sp)"

lemma empties_simps [simp]:
  "empties [] = []" "empties (Leaf i kvs # sp) = (if kvs = [] then i # empties sp else empties sp)"
  "empties (Sep k # sp) = empties sp" "empties (sp @ sp') = empties sp @ empties sp'"
  by (simp_all add: empties_def)

lemma empties_full: "full sp \<longleftrightarrow> empties sp = [] \<or> (\<exists>i. sp = [Leaf i []])"
proof -
  have "empties sp = [] \<longleftrightarrow> (\<forall>i kvs. Leaf i kvs \<in> set sp \<longrightarrow> kvs \<noteq> [])"
  proof (induction sp)
    case (Cons x sp)
    then show ?case by (cases x) auto
  qed simp
  then show ?thesis by (simp add: full_def)
qed

lemma empties_last: "empties sp = is @ [i] \<Longrightarrow> \<exists>l r. sp = l @ Leaf i [] # r \<and> empties l = is \<and> empties r = []"
proof (induction sp arbitrary: "is")
  case (Cons x sp)
  show ?case
  proof (cases "empties sp = []")
    case True
    then have "x = Leaf i []" "is = []" using Cons.prems by (cases x; auto split: if_splits)+
    then show ?thesis using True by (intro exI [of _ "[]"] exI [of _ sp]) simp
  next
    case False
    obtain is' where e: "empties (x # []) @ is' = is" "empties sp = is' @ [i]"
    proof -
      obtain is' i' where "empties sp = is' @ [i']" using False by (cases "empties sp" rule: rev_cases) auto
      then show thesis using Cons.prems that by (cases x) (auto split: if_splits)
    qed
    obtain l r where "sp = l @ Leaf i [] # r" "empties l = is'" "empties r = []" using Cons.IH [OF e(2)] by blast
    then show ?thesis using e(1) by (intro exI [of _ "x # l"] exI [of _ r]) (cases x; auto)
  qed
qed simp

lemma empties_leaf_ids: "set (empties sp) \<subseteq> set (leaf_ids sp)"
proof (induction sp)
  case (Cons x sp)
  then show ?case by (cases x) auto
qed simp

lemma leaf_step_empties: "leaf_step i l r sp \<Longrightarrow> empties r = [] \<Longrightarrow> empties sp = empties l"
  by (induction rule: leaf_step.induct) (auto split: if_splits)

text \<open>The invariant but for the empty leaves.\<close>

definition bt_core :: "'k::linorder btree \<Rightarrow> 'k item list \<Rightarrow> bool" where
  "bt_core t sp \<longleftrightarrow> represents t sp \<and> ordered sp \<and> linked t None (leaf_ids sp) None
     \<and> (\<forall>e \<in> set (entries sp). snd e \<noteq> []) \<and> bt_comparator t = Asc \<and> 3 \<le> bt_order t
     \<and> is_total_rows (bt_stats t) = of_nat (entry_rows (entries sp))"

lemma bt_ok_core: "bt_ok t sp \<longleftrightarrow> bt_core t sp \<and> full sp"
  by (auto simp: bt_ok_def bt_core_def)

section \<open>Handling the empty leaves\<close>

text \<open>The list of empty leaves, the root apart.\<close>

definition gaps :: "'k item list \<Rightarrow> nat list \<Rightarrow> bool" where
  "gaps sp is \<longleftrightarrow> empties sp = is \<or> (\<exists>i. sp = [Leaf i []] \<and> is = [])"

lemma handle_underflows_spec:
  fixes t :: "'k::linorder btree"
  assumes "bt_core t sp" "gaps sp is"
  shows "\<exists>t' sp'. handle_underflows (rev is) t = Some t' \<and> bt_ok t' sp' \<and> entries sp' = entries sp \<and> bt_unique t' = bt_unique t"
  using assms
proof (induction "is" arbitrary: t sp rule: rev_induct)
  case Nil
  then have "full sp" by (auto simp: gaps_def empties_full)
  then show ?case using Nil by (auto simp: bt_ok_core)
next
  case (snoc i "is")
  have "empties sp = is @ [i]" using snoc.prems(2) by (auto simp: gaps_def)
  then obtain l r where lr: "sp = l @ Leaf i [] # r" "empties l = is" "empties r = []" using empties_last by blast
  have core: "represents t sp" "ordered sp" "linked t None (leaf_ids sp) None" "3 \<le> bt_order t"
    using snoc.prems(1) by (simp_all add: bt_core_def)
  obtain c n where at: "at_leaf t c i [] n" "lsp c = l" "rsp c = r" using leaf_path [of t l i "[]" r] core(1) lr(1) by blast
  have n: "bt_at t i = Some n" "nd_keys n = []" using at(1) by (simp_all add: at_leaf_def)
  have root: "i = bt_root t \<longleftrightarrow> c = []" using zipped_root [OF zipped_leaf [OF at(1)]] by simp
  show ?case
  proof (cases "c = []")
    case True
    then have "sp = [Leaf i []]" "is = []" using at(2,3) lr by auto
    then have "bt_ok t sp" using snoc.prems(1) by (auto simp: bt_ok_core empties_full)
    then show ?thesis using True n root \<open>is = []\<close> by auto
  next
    case False
    have z: "zipped t c (GLeaf i [])" by (rule zipped_leaf [OF at(1)])
    have "cbal c 0" using at(1) by (simp add: at_leaf_def)
    moreover have "linked t None (leaf_ids (lsp c) @ i # leaf_ids (rsp c)) None" using core(3) lr(1) at(2,3) by simp
    ultimately have "leaf_handled i l r t (handle_underflow i t)"
      using leaf_underflow [OF z _ False core(4)] at(2,3) by simp
    then obtain t1 sp1 where t1: "handle_underflow i t = Some t1" "leaf_step i l r sp1" "represents t1 sp1"
      "linked t1 None (leaf_ids sp1) None" "same_meta t t1" by (auto simp: leaf_handled_def)
    have ent: "entries sp1 = entries sp" using leaf_step_entries [OF t1(2)] lr(1) by simp
    have "ordered sp1" by (rule leaf_step_ordered [OF t1(2)]) (use core(2) lr(1) in simp)
    then have "bt_core t1 sp1" using t1 snoc.prems(1) ent by (simp add: bt_core_def same_meta_def)
    moreover have "gaps sp1 is" using leaf_step_empties [OF t1(2) lr(3)] lr(2) by (simp add: gaps_def)
    ultimately obtain t2 sp2 where "handle_underflows (rev is) t1 = Some t2" "bt_ok t2 sp2" "entries sp2 = entries sp1"
      "bt_unique t2 = bt_unique t1" using snoc.IH by blast
    moreover have "bt_unique t1 = bt_unique t" using t1(5) by (simp add: same_meta_def)
    moreover have "handle_underflows (rev (is @ [i])) t = handle_underflows (rev is) t1"
      using False n root t1(1) by simp
    ultimately show ?thesis using ent by auto
  qed
qed

section \<open>One group of a batch\<close>

lemma remove_rows_simps [simp]: "remove_rows [] vs = vs" "remove_rows rows [] = []"
proof -
  show "remove_rows [] vs = vs" by (simp add: remove_rows_def)
  have "foldl (\<lambda>vs r. swap_remove_first r vs) [] rows = []" for rows by (induction rows) simp_all
  then show "remove_rows rows [] = []" by (simp add: remove_rows_def)
qed

lemma remove_rows_length: "length (remove_rows rows vs) \<le> length vs"
proof -
  have "length (foldl (\<lambda>vs r. swap_remove_first r vs) vs rows) \<le> length vs" for rows vs
  proof (induction rows arbitrary: vs)
    case (Cons r rows)
    have "length (swap_remove_first r vs) \<le> length vs" by (simp split: option.split)
    then show ?case using Cons.IH [of "swap_remove_first r vs"] by (simp del: swap_remove_first.simps)
  qed simp
  then show ?thesis by (simp add: remove_rows_def)
qed

lemma bt_put_stats: "bt_put i n (t\<lparr>bt_stats := st\<rparr>) = (bt_put i n t)\<lparr>bt_stats := st\<rparr>"
  by (simp add: bt_put_def)

lemma leaf_core_loses:
  fixes t :: "'k::linorder btree"
  assumes core: "bt_core t sp" and sp: "sp = lsp c @ Leaf i (kl @ (key, vs) # kr) # rsp c"
    and leaf: "at_leaf t c i (kl @ (key, vs) # kr) n" and ws: "length ws \<le> length vs"
  defines "kvs \<equiv> kl @ kept_entry key ws @ kr"
  shows "bt_core (bt_put i (n\<lparr>nd_keys := map fst kvs, nd_values := map snd kvs\<rparr>)
      (t\<lparr>bt_stats := stats_remove_rows (of_nat (length vs - length ws)) (bt_stats t)\<rparr>)) (lsp c @ Leaf i kvs # rsp c)"
    (is "bt_core ?t1 ?sp")
proof -
  have facts: "ordered sp" "linked t None (leaf_ids sp) None" "\<forall>e \<in> set (entries sp). snd e \<noteq> []"
    "bt_comparator t = Asc" "3 \<le> bt_order t" "is_total_rows (bt_stats t) = of_nat (entry_rows (entries sp))"
    using core by (simp_all add: bt_core_def)
  have leaf1: "at_leaf ?t1 c i kvs (n\<lparr>nd_keys := map fst kvs, nd_values := map snd kvs\<rparr>)" and links: "same_links t ?t1"
    using leaf_put [OF leaf, of kvs] by (simp_all add: bt_put_stats same_links_def)
  have "ordered ?sp" unfolding kvs_def by (rule ordered_kept) (use facts(1) sp in simp)
  moreover have "linked ?t1 None (leaf_ids ?sp) None" using linked_same [OF links facts(2)] sp by simp
  moreover have "entry_rows (entries ?sp) + (length vs - length ws) = entry_rows (entries sp)"
    using filter_entry_rows [OF ws, of kl key kr] sp by (simp add: kvs_def)
  then have "(of_nat (entry_rows (entries sp)) :: u64) = of_nat (entry_rows (entries ?sp)) + of_nat (length vs - length ws)"
    by (metis of_nat_add)
  then have "is_total_rows (bt_stats ?t1) = of_nat (entry_rows (entries ?sp))" using facts(6) by simp
  moreover have "\<forall>e \<in> set (entries ?sp). snd e \<noteq> []" using facts(3) sp by (auto simp: kvs_def kept_entry_def)
  ultimately show ?thesis using at_leaf_represents [OF leaf1] facts by (simp add: bt_core_def)
qed

text \<open>No leaf at or right of the place of the keys to come is empty, a leaf they may share apart.\<close>

definition cleared_upto :: "'k::linorder item list \<Rightarrow> 'k \<Rightarrow> bool" where
  "cleared_upto sp key \<longleftrightarrow> (\<exists>l j kvs r. sp = l @ Leaf j kvs # r \<and> left_of l key \<and> empties r = [])"

lemma cleared_upto_mono: "cleared_upto sp key \<Longrightarrow> key \<le> key' \<Longrightarrow> cleared_upto sp key'"
  using left_of_mono unfolding cleared_upto_def by blast

lemma remove_group_spec:
  fixes t :: "'k::linorder btree"
  assumes core: "bt_core t sp" and gaps: "gaps sp is" and clear: "cleared_upto sp key"
  shows "\<exists>is' t' sp'. remove_group key rows is t = Some (is', t') \<and> bt_core t' sp' \<and> gaps sp' is' \<and> cleared_upto sp' key
    \<and> bt_unique t' = bt_unique t \<and> entries sp' = prune key (remove_rows rows) (entries sp)"
proof -
  have facts: "represents t sp" "ordered sp" "bt_comparator t = Asc" using core by (simp_all add: bt_core_def)
  obtain c i kvs n where leaf: "find_leaf t key = Some i" "sp = lsp c @ Leaf i kvs # rsp c" "at_leaf t c i kvs n"
    "left_of (lsp c) key" "right_of (rsp c) key"
    using find_leaf_spec [OF facts] by metis
  have n: "bt_at t i = Some n" "nd_keys n = map fst kvs" "nd_values n = map snd kvs"
    using leaf(3) by (simp_all add: at_leaf_def)
  have sorted: "sorted_wrt (<) (map fst kvs)" using leaf(2) facts(2) leaf_keys_sorted by blast
  have l: "key \<notin> fst ` set (entries (lsp c))" and r: "key \<notin> fst ` set (entries (rsp c))"
    using left_of_entries [OF leaf(4)] right_of_entries [OF leaf(5)] by force+
  show ?thesis
  proof (cases rule: leaf_find [OF sorted n(2), of key, case_names found absent])
    case (absent kl kr)
    have "key \<notin> fst ` set kvs" using absent(1,4,5) by auto
    then have "prune key (remove_rows rows) (entries sp) = entries sp"
      using l r leaf(2) by (intro prune_absent) auto
    moreover have "remove_group key rows is t = Some (is, t)" using leaf(1) n(1) absent(2) by (simp add: remove_group_def)
    ultimately show ?thesis using core gaps clear by auto
  next
    case (found kl vs kr)
    let ?ws = "remove_rows rows vs"
    let ?kvs = "kl @ kept_entry key ?ws @ kr"
    let ?n = "n\<lparr>nd_keys := map fst ?kvs, nd_values := map snd ?kvs\<rparr>"
    let ?st = "stats_remove_rows (of_nat (length vs - length ?ws)) (bt_stats t)"
    let ?t = "bt_put i ?n (t\<lparr>bt_stats := ?st\<rparr>)"
    let ?sp = "lsp c @ Leaf i ?kvs # rsp c"
    have leaf3: "at_leaf t c i (kl @ (key, vs) # kr) n" and sp: "sp = lsp c @ Leaf i (kl @ (key, vs) # kr) # rsp c"
      using leaf(2,3) found(1) by simp_all
    have core1: "bt_core ?t ?sp" by (rule leaf_core_loses [OF core sp leaf3 remove_rows_length])
    have right: "empties (rsp c) = []"
    proof -
      obtain l' j kvs' r' where c: "sp = l' @ Leaf j kvs' # r'" "left_of l' key" "empties r' = []"
        using clear by (auto simp: cleared_upto_def)
      have "lsp c = l' \<or> (\<exists>us. lsp c = l' @ Leaf j kvs' # us \<and> r' = us @ Leaf i kvs # rsp c)"
        by (rule place_order [OF facts(1) leaf(2) c(1) leaf(5) c(2)])
      then show ?thesis using c(1,3) leaf(2) by (auto split: if_splits)
    qed
    have ids: "is = empties (lsp c)" using gaps sp right by (auto simp: gaps_def single_spine)
    have fresh: "i \<notin> set is"
    proof
      assume "i \<in> set is"
      then have "i \<in> set (leaf_ids (lsp c))" using ids empties_leaf_ids by blast
      moreover have "distinct (leaf_ids sp)" using leaf_ids_distinct facts(1) by blast
      ultimately show False using sp by simp
    qed
    have clear1: "cleared_upto ?sp key" using leaf(4) right by (auto simp: cleared_upto_def)
    have ent: "entries ?sp = prune key (remove_rows rows) (entries sp)"
    proof -
      have "\<forall>e \<in> set kl. fst e < key" by (rule found(4))
      then have kl: "key \<notin> fst ` set kl" by force
      have notin: "key \<notin> fst ` set (entries (lsp c) @ kl)" using l kl by (simp add: image_Un)
      have "entries sp = (entries (lsp c) @ kl) @ (key, vs) # (kr @ entries (rsp c))" using sp by simp
      then show ?thesis by (simp only: prune_found [OF notin]) simp
    qed
    have root: "i = bt_root t \<longleftrightarrow> c = []" using zipped_root [OF zipped_leaf [OF leaf(3)]] by simp
    define is' where "is' = (if ?kvs = [] \<and> i \<noteq> bt_root t then is @ [i] else is)"
    have "gaps ?sp is'"
    proof (cases "?kvs = []")
      case True
      then show ?thesis using ids right root by (auto simp: gaps_def is'_def kept_entry_def split: if_splits)
    next
      case False
      then show ?thesis using ids right by (auto simp: gaps_def is'_def)
    qed
    moreover have "remove_group key rows is t = Some (is', ?t)"
    proof -
      have at: "vec_at (nd_values n) (length kl) = Some vs"
        "vec_remove_at (length kl) (nd_keys n) = Some (key, map fst kl @ map fst kr)"
        "vec_remove_at (length kl) (nd_values n) = Some (vs, map snd kl @ map snd kr)"
        "(nd_values n)[length kl := ?ws] = map snd kl @ ?ws # map snd kr"
        using n(2,3) found(1) by (simp_all add: vec_at_def vec_remove_at_def vec_remove_def nth_append list_update_append)
      show ?thesis
      proof (cases "?ws = []")
        case True
        then show ?thesis
          using leaf(1) n(1) found(2) at fresh by (auto simp: remove_group_def Let_def is'_def kept_entry_def)
      next
        case False
        have "n\<lparr>nd_values := x\<rparr> = n\<lparr>nd_keys := map fst kl @ key # map fst kr, nd_values := x\<rparr>" for x
          using n(2) found(1) by (cases n) simp
        then show ?thesis
          using False leaf(1) n(1) found(2) at by (simp add: remove_group_def Let_def is'_def kept_entry_def)
      qed
    qed
    moreover have "bt_unique ?t = bt_unique t" by simp
    ultimately show ?thesis using core1 clear1 ent by blast
  qed
qed

section \<open>Batches of removals\<close>

lemma remove_groups_spec:
  fixes t :: "'k::linorder btree"
  assumes "bt_core t sp" "gaps sp is" "sorted (map fst es)" "\<forall>e \<in> set es. cleared_upto sp (fst e)"
  shows "\<exists>is' t' sp'. remove_groups es is t = Some (is', t') \<and> bt_core t' sp' \<and> gaps sp' is' \<and> bt_unique t' = bt_unique t
    \<and> (\<forall>k. rows_at (entries sp') k = remove_rows (map snd (filter (\<lambda>e. fst e = k) es)) (rows_at (entries sp) k))"
  using assms
proof (induction es "is" t arbitrary: sp rule: remove_groups.induct)
  case (1 "is" t)
  then show ?case by auto
next
  case (2 key row es "is" t)
  let ?g = "takeWhile (\<lambda>e. fst e = key) es" and ?d = "dropWhile (\<lambda>e. fst e = key) es"
  let ?rows = "row # map snd ?g"
  have sorted: "sorted (key # map fst es)" using "2.prems"(3) by simp
  have clear: "cleared_upto sp key" using "2.prems"(4) by simp
  obtain is1 t1 sp1 where t1: "remove_group key ?rows is t = Some (is1, t1)" "bt_core t1 sp1" "gaps sp1 is1"
    "cleared_upto sp1 key" "bt_unique t1 = bt_unique t" "entries sp1 = prune key (remove_rows ?rows) (entries sp)"
    using remove_group_spec [OF "2.prems"(1,2) clear, of ?rows] by blast
  have clears: "\<forall>e \<in> set ?d. cleared_upto sp1 (fst e)"
    using sorted_group(1) [OF sorted] cleared_upto_mono [OF t1(4)] by (simp add: less_imp_le)
  obtain is2 t2 sp2 where t2: "remove_groups ?d is1 t1 = Some (is2, t2)" "bt_core t2 sp2" "gaps sp2 is2" "bt_unique t2 = bt_unique t1"
    "\<forall>k. rows_at (entries sp2) k = remove_rows (map snd (filter (\<lambda>e. fst e = k) ?d)) (rows_at (entries sp1) k)"
    using "2.IH" [OF t1(1) refl t1(2,3) sorted_group(2) [OF sorted] clears] by blast
  have "rows_at (entries sp2) k = remove_rows (map snd (filter (\<lambda>e. fst e = k) ((key, row) # es))) (rows_at (entries sp) k)" for k
  proof -
    have s: "sorted_wrt (<) (map fst (entries sp))" using "2.prems"(1) ordered_entries by (auto simp: bt_core_def)
    have "filter (\<lambda>e. fst e = key) ?d = []" using sorted_group(1) [OF sorted] by (force simp: filter_empty_conv)
    then show ?thesis
      using t2(5) prune_rows [OF s, of "remove_rows ?rows" key k] filter_group [OF sorted] unfolding t1(6)
      by (cases "k = key") simp_all
  qed
  moreover have "remove_groups ((key, row) # es) is t = Some (is2, t2)" using t1(1) t2(1) by simp
  ultimately show ?case using t2(2-4) t1(5) by auto
qed

lemma bt_remove_batch_spec:
  fixes t :: "'k::linorder btree"
  assumes ok: "bt_ok t sp"
  shows "\<exists>t' sp'. bt_remove_batch es t = Some t' \<and> bt_ok t' sp' \<and> bt_unique t' = bt_unique t
    \<and> (\<forall>k. rows_at (entries sp') k = remove_rows (map snd (filter (\<lambda>e. fst e = k) es)) (rows_at (entries sp) k))"
proof -
  let ?es = "sort_key fst es"
  have core: "bt_core t sp" and full: "full sp" using ok by (simp_all add: bt_ok_core)
  have gaps: "gaps sp []" using full by (auto simp: gaps_def empties_full)
  have clear: "cleared_upto sp key" for key
  proof -
    have "represents t sp" using core by (simp add: bt_core_def)
    then obtain i kvs r where sp: "sp = Leaf i kvs # r" using ends_spec(1) by blast
    then have "empties r = []" using full by (auto simp: empties_full split: if_splits)
    then show ?thesis unfolding cleared_upto_def using sp
      by (intro exI [of _ "[]"] exI [of _ i] exI [of _ kvs] exI [of _ r]) simp
  qed
  obtain is' t1 sp1 where t1: "remove_groups ?es [] t = Some (is', t1)" "bt_core t1 sp1" "gaps sp1 is'" "bt_unique t1 = bt_unique t"
    "\<forall>k. rows_at (entries sp1) k = remove_rows (map snd (filter (\<lambda>e. fst e = k) ?es)) (rows_at (entries sp) k)"
    using remove_groups_spec [OF core gaps sorted_sort_key] clear by blast
  obtain t2 sp2 where t2: "handle_underflows (rev is') t1 = Some t2" "bt_ok t2 sp2" "entries sp2 = entries sp1" "bt_unique t2 = bt_unique t1"
    using handle_underflows_spec [OF t1(2,3)] by blast
  have "bt_remove_batch es t = Some t2" using t1(1) t2(1) by (simp add: bt_remove_batch_def)
  then show ?thesis using t1(4,5) t2 by (auto simp: sort_batch)
qed

text \<open>What is left of the row ids: as a set, without those removed.\<close>

lemma mset_swap_remove: "i < length xs \<Longrightarrow> mset (vec_swap_remove i xs) = mset xs - {#xs ! i#}"
proof -
  assume i: "i < length xs"
  then obtain ys y where xs: "xs = ys @ [y]" by (cases xs rule: rev_cases) auto
  show ?thesis
  proof (cases "i = length ys")
    case True
    then show ?thesis using xs by (simp add: vec_swap_remove_def)
  next
    case False
    then have "i < length ys" using i xs by simp
    then show ?thesis using xs by (simp add: vec_swap_remove_def mset_update nth_append)
  qed
qed

lemma mset_swap_remove_first: "mset (swap_remove_first r vs) = mset vs - {#r#}"
proof (cases "position (\<lambda>v. v = r) vs")
  case None
  then have "r \<notin># mset vs" by (auto simp: position_None)
  then show ?thesis using None by (simp add: diff_single_trivial)
next
  case (Some i)
  then have "i < length vs" "vs ! i = r" using position_Some [OF Some] by auto
  then show ?thesis using Some mset_swap_remove [of i vs] by simp
qed

lemma remove_rows_set:
  assumes "distinct vs"
  shows "set (remove_rows rows vs) = set vs - set rows" "distinct (remove_rows rows vs)"
proof -
  have one: "distinct (swap_remove_first r vs) \<and> set (swap_remove_first r vs) = set vs - {r}" if "distinct vs" for r vs
  proof -
    have "mset (swap_remove_first r vs) = mset (remove1 r vs)" by (simp only: mset_swap_remove_first mset_remove1)
    then have "distinct (swap_remove_first r vs) = distinct (remove1 r vs)" "set (swap_remove_first r vs) = set (remove1 r vs)"
      using mset_eq_imp_distinct_iff mset_eq_setD by blast+
    then show ?thesis using that by (simp only: distinct_remove1 set_remove1_eq)
  qed
  have "distinct (foldl (\<lambda>vs r. swap_remove_first r vs) vs rows)
      \<and> set (foldl (\<lambda>vs r. swap_remove_first r vs) vs rows) = set vs - set rows" if "distinct vs" for rows vs
    using that
  proof (induction rows arbitrary: vs)
    case (Cons r rows)
    have "set vs - {r} - set rows = set vs - set (r # rows)" by auto
    then show ?case using one [OF Cons.prems, of r] Cons.IH [of "swap_remove_first r vs"] by (simp del: swap_remove_first.simps)
  qed simp
  then show "set (remove_rows rows vs) = set vs - set rows" "distinct (remove_rows rows vs)"
    using assms by (auto simp: remove_rows_def)
qed

end
