(* ===== verification/Cynos_Btree_Index.thy ===== *)
theory Cynos_Btree_Index
  imports Cynos_Btree_Remove Cynos_Hash_Index
begin

text \<open>
  The B+ tree as an index: it keeps the contracts of \<open>Cynos_Index\<close>, so that it is a multimap with ordered range
  scans, as the hash index is; where its reverse scans and its batches differ is shown on examples.
\<close>

section \<open>The tree as an implementation of the trait\<close>

definition bt_inv :: "'k::linorder btree \<Rightarrow> bool" where
  "bt_inv t \<longleftrightarrow> (\<exists>sp. bt_ok t sp)"

definition btree_impl :: "('k::linorder, 'k btree) index_impl" where
  "btree_impl = \<lparr>ix_add = (\<lambda>k v t. the (bt_insert k v t)), ix_set = (\<lambda>k v t. the (bt_set k v t)),
     ix_get = (\<lambda>k t. the (bt_get k t)), ix_remove = (\<lambda>k w t. the (bt_delete k w t)),
     ix_contains_key = (\<lambda>k t. the (bt_contains_key k t)), ix_len = bt_len, ix_clear = bt_clear,
     ix_min = (\<lambda>t. the (bt_min t)), ix_max = (\<lambda>t. the (bt_max t)), ix_cost = (\<lambda>r t. the (bt_cost r t)),
     ix_get_range = (\<lambda>r rv limit skip t. the (bt_get_range r rv limit skip t))\<rparr>"

lemma btree_impl_simps [simp]:
  "ix_add btree_impl k v t = the (bt_insert k v t)" "ix_set btree_impl k v t = the (bt_set k v t)"
  "ix_get btree_impl k t = the (bt_get k t)" "ix_remove btree_impl k w t = the (bt_delete k w t)"
  "ix_contains_key btree_impl k t = the (bt_contains_key k t)" "ix_len btree_impl t = bt_len t"
  "ix_clear btree_impl t = bt_clear t" "ix_get_range btree_impl r rv limit skip t = the (bt_get_range r rv limit skip t)"
  by (simp_all add: btree_impl_def)

text \<open>Entries of an intact tree.\<close>

lemma bt_ok_entries:
  assumes "bt_ok t sp"
  shows "bt_get key t = Some (rows_at (entries sp) key)" "bt_contains_key key t = Some (rows_at (entries sp) key \<noteq> [])"
    "sorted_wrt (<) (map fst (entries sp))" "bt_len t = of_nat (entry_rows (entries sp))"
proof -
  have facts: "represents t sp" "ordered sp" "bt_comparator t = Asc" using assms by (simp_all add: bt_ok_def)
  have ne: "vs \<noteq> []" if "map_of (entries sp) key = Some vs" for vs
    using map_of_SomeD [OF that] assms by (auto simp: bt_ok_def)
  show "bt_get key t = Some (rows_at (entries sp) key)" by (rule bt_get_result(1) [OF facts])
  show "bt_contains_key key t = Some (rows_at (entries sp) key \<noteq> [])"
    unfolding bt_get_result(2) [OF facts] by (auto simp: rows_at_def dest: ne split: option.split)
  show "sorted_wrt (<) (map fst (entries sp))" by (rule ordered_entries [OF facts(2)])
  show "bt_len t = of_nat (entry_rows (entries sp))" using assms by (simp add: bt_ok_def bt_len_def)
qed

lemma present_iff: "bt_ok t sp \<Longrightarrow> map_of (entries sp) key \<noteq> None \<longleftrightarrow> rows_at (entries sp) key \<noteq> []"
  using bt_get_result(2) [of t sp key] bt_ok_entries(2) [of t sp key] by (simp add: bt_ok_def)

lemma entry_rows_at:
  fixes kvs :: "('k::linorder \<times> row_id list) list"
  assumes "sorted_wrt (<) (map fst kvs)"
  shows "entry_rows (prune key f kvs) + length (rows_at kvs key) = entry_rows kvs + length (f (rows_at kvs key))
    \<or> key \<notin> fst ` set kvs \<and> prune key f kvs = kvs"
proof (cases "key \<in> fst ` set kvs")
  case True
  then obtain kl vs kr where kvs: "kvs = kl @ (key, vs) # kr" by (metis imageE list.set_intros(1) prod.collapse split_list)
  have "\<forall>e \<in> set kl. fst e < key" using assms kvs by (auto simp: sorted_wrt_append)
  then have kl: "key \<notin> fst ` set kl" by force
  then have "rows_at kvs key = vs" using kvs by (simp add: rows_at_def map_add_def map_of_eq_None_iff [THEN iffD2])
  then show ?thesis using prune_found [OF kl, of f vs kr] kvs by (simp add: kept_entry_def)
qed (simp add: prune_absent)

lemma entry_rows_prune:
  fixes kvs :: "('k::linorder \<times> row_id list) list"
  assumes "sorted_wrt (<) (map fst kvs)" "f [] = []"
  shows "entry_rows (prune key f kvs) + length (rows_at kvs key) = entry_rows kvs + length (f (rows_at kvs key))"
proof -
  have "rows_at kvs key = []" if "key \<notin> fst ` set kvs"
  proof -
    have "map_of kvs key = None" using that by (simp add: map_of_eq_None_iff)
    then show ?thesis by (simp add: rows_at_def)
  qed
  then show ?thesis using entry_rows_at [OF assms(1), of key f] assms(2) by auto
qed

text \<open>The operations on an intact tree, by their effect on the row ids of every key and on the count.\<close>

lemma bt_insert_effect:
  assumes "bt_inv t"
  shows "\<exists>r t'. bt_insert key v t = Some (r, t') \<and> bt_inv t' \<and> bt_unique t' = bt_unique t
    \<and> r = (if add_refused (bt_unique t) (the (bt_get key t)) then Inl DuplicateKey else Inr ())
    \<and> (\<forall>k. the (bt_get k t') = (if k = key \<and> \<not> add_refused (bt_unique t) (the (bt_get key t)) then the (bt_get key t) @ [v] else the (bt_get k t)))
    \<and> bt_len t' = (if add_refused (bt_unique t) (the (bt_get key t)) then bt_len t else bt_len t + 1)"
proof -
  obtain sp where ok: "bt_ok t sp" using assms by (auto simp: bt_inv_def)
  note ent = bt_ok_entries [OF ok]
  have refused: "add_refused (bt_unique t) (the (bt_get key t)) \<longleftrightarrow> bt_unique t \<and> map_of (entries sp) key \<noteq> None"
    using present_iff [OF ok, of key] ent(1) by (simp add: add_refused_def)
  show ?thesis
  proof (cases "bt_unique t \<and> map_of (entries sp) key \<noteq> None")
    case True
    then show ?thesis using bt_insert_result(1) [OF ok True, of v] refused assms by auto
  next
    case False
    obtain t' sp' where t': "bt_insert key v t = Some (Inr (), t')" "bt_ok t' sp'" "entries sp' = upsert key [v] (entries sp)"
      "bt_unique t' = bt_unique t" using bt_insert_result(2) [OF ok False] by blast
    note ent' = bt_ok_entries [OF t'(2), unfolded t'(3)]
    have "the (bt_get k t') = (if k = key then the (bt_get key t) @ [v] else the (bt_get k t))" for k
      using ent'(1) [of k] ent(1) upsert_rows [OF ent(3), of key "[v]" k] by simp
    moreover have "bt_len t' = bt_len t + 1" using ent'(4) ent(4) by simp
    moreover have "bt_inv t'" using t'(2) by (auto simp: bt_inv_def)
    ultimately show ?thesis using t'(1,4) refused False by auto
  qed
qed

lemma bt_delete_effect:
  assumes "bt_inv t"
  shows "\<exists>t'. bt_delete key w t = Some t' \<and> bt_inv t' \<and> bt_unique t' = bt_unique t
    \<and> (\<forall>k. the (bt_get k t') = (if k = key then kept_rows w (the (bt_get key t)) else the (bt_get k t)))
    \<and> bt_len t' = bt_len t - of_nat (length (the (bt_get key t)) - length (kept_rows w (the (bt_get key t))))"
proof -
  obtain sp where ok: "bt_ok t sp" using assms by (auto simp: bt_inv_def)
  note ent = bt_ok_entries [OF ok]
  obtain t' sp' where t': "bt_delete key w t = Some t'" "bt_ok t' sp'" "entries sp' = prune key (kept_rows w) (entries sp)"
    "bt_unique t' = bt_unique t" using bt_delete_result [OF ok] by blast
  note ent' = bt_ok_entries [OF t'(2), unfolded t'(3)]
  have "the (bt_get k t') = (if k = key then kept_rows w (the (bt_get key t)) else the (bt_get k t))" for k
    using ent'(1) [of k] ent(1) prune_rows [OF ent(3), of "kept_rows w" key k] by simp
  moreover have "bt_len t' = bt_len t - of_nat (length (rows_at (entries sp) key) - length (kept_rows w (rows_at (entries sp) key)))"
  proof -
    let ?vs = "rows_at (entries sp) key"
    have "entry_rows (prune key (kept_rows w) (entries sp)) + (length ?vs - length (kept_rows w ?vs)) = entry_rows (entries sp)"
      using entry_rows_prune [OF ent(3), of "kept_rows w" key] kept_rows_le [of w ?vs] by simp
    then have "(of_nat (entry_rows (entries sp)) :: u64)
        = of_nat (entry_rows (prune key (kept_rows w) (entries sp))) + of_nat (length ?vs - length (kept_rows w ?vs))"
      by (metis of_nat_add)
    then show ?thesis using ent'(4) ent(4) by simp
  qed
  moreover have "bt_inv t'" using t'(2) by (auto simp: bt_inv_def)
  moreover have "the (bt_get key t) = rows_at (entries sp) key" using ent(1) by simp
  ultimately show ?thesis using t'(1,4) by metis
qed

lemma bt_set_effect:
  assumes "bt_inv t"
  shows "\<exists>t'. bt_set key v t = Some t' \<and> bt_inv t' \<and> bt_unique t' = bt_unique t
    \<and> (\<forall>k. the (bt_get k t') = (if k = key then [v] else the (bt_get k t)))
    \<and> bt_len t' = bt_len t - of_nat (length (the (bt_get key t))) + 1"
proof -
  obtain t1 where t1: "bt_delete key None t = Some t1" "bt_inv t1" "bt_unique t1 = bt_unique t"
    "\<And>k. the (bt_get k t1) = (if k = key then [] else the (bt_get k t))"
    "bt_len t1 = bt_len t - of_nat (length (the (bt_get key t)))"
    using bt_delete_effect [OF assms, of key None] by (auto simp: kept_rows_def)
  then have "\<not> add_refused (bt_unique t1) (the (bt_get key t1))" by (simp add: add_refused_def)
  then obtain t2 where t2: "bt_insert key v t1 = Some (Inr (), t2)" "bt_inv t2" "bt_unique t2 = bt_unique t1"
    "\<And>k. the (bt_get k t2) = (if k = key then the (bt_get key t1) @ [v] else the (bt_get k t1))" "bt_len t2 = bt_len t1 + 1"
    using bt_insert_effect [OF t1(2), of key v] by auto
  have "bt_set key v t = Some t2" using t1(1) t2(1) by (simp add: bt_set_def)
  then show ?thesis using t1 t2 by auto
qed

lemma bt_clear_effect:
  assumes "bt_inv t"
  shows "bt_inv (bt_clear t)" "bt_unique (bt_clear t) = bt_unique t" "bt_get k (bt_clear t) = Some []" "bt_len (bt_clear t) = 0"
proof -
  have ok: "bt_ok (bt_clear t) [Leaf 0 []]" "bt_unique (bt_clear t) = bt_unique t"
    using assms bt_clear_ok by (auto simp: bt_inv_def)
  then show "bt_inv (bt_clear t)" "bt_unique (bt_clear t) = bt_unique t" by (auto simp: bt_inv_def)
  show "bt_get k (bt_clear t) = Some []" "bt_len (bt_clear t) = 0"
    using bt_ok_entries [OF ok(1)] by (simp_all add: rows_at_def)
qed

section \<open>The contracts\<close>

interpretation btree_ix: counted_index btree_impl bt_inv bt_unique
proof unfold_locales
  fix i :: "'k::linorder btree" and k k' :: 'k and v w
  assume inv: "bt_inv i"
  obtain r t1 where t1: "bt_insert k v i = Some (r, t1)" "bt_inv t1" "bt_unique t1 = bt_unique i"
    "r = (if add_refused (bt_unique i) (the (bt_get k i)) then Inl DuplicateKey else Inr ())"
    "\<And>k'. the (bt_get k' t1) = (if k' = k \<and> \<not> add_refused (bt_unique i) (the (bt_get k i)) then the (bt_get k i) @ [v] else the (bt_get k' i))"
    "bt_len t1 = (if add_refused (bt_unique i) (the (bt_get k i)) then bt_len i else bt_len i + 1)"
    using bt_insert_effect [OF inv, of k v] by auto
  show "bt_inv (snd (ix_add btree_impl k v i)) \<and> bt_unique (snd (ix_add btree_impl k v i)) = bt_unique i"
    "fst (ix_add btree_impl k v i) = (if add_refused (bt_unique i) (ix_get btree_impl k i) then Inl DuplicateKey else Inr ())"
    "ix_get btree_impl k' (snd (ix_add btree_impl k v i))
      = (if k' = k \<and> \<not> add_refused (bt_unique i) (ix_get btree_impl k i) then ix_get btree_impl k i @ [v] else ix_get btree_impl k' i)"
    "ix_len btree_impl (snd (ix_add btree_impl k v i))
      = (if add_refused (bt_unique i) (ix_get btree_impl k i) then ix_len btree_impl i else ix_len btree_impl i + 1)"
    using t1 by simp_all
  obtain t2 where t2: "bt_set k v i = Some t2" "bt_inv t2" "bt_unique t2 = bt_unique i"
    "\<And>k'. the (bt_get k' t2) = (if k' = k then [v] else the (bt_get k' i))"
    "bt_len t2 = bt_len i - of_nat (length (the (bt_get k i))) + 1"
    using bt_set_effect [OF inv, of k v] by auto
  show "bt_inv (ix_set btree_impl k v i) \<and> bt_unique (ix_set btree_impl k v i) = bt_unique i"
    "ix_get btree_impl k' (ix_set btree_impl k v i) = (if k' = k then [v] else ix_get btree_impl k' i)"
    "ix_len btree_impl (ix_set btree_impl k v i) = ix_len btree_impl i - of_nat (length (ix_get btree_impl k i)) + 1"
    using t2 by simp_all
  show "bt_inv (ix_remove btree_impl k w i) \<and> bt_unique (ix_remove btree_impl k w i) = bt_unique i" for w
    using bt_delete_effect [OF inv, of k w] by auto
  show "ix_get btree_impl k' (ix_remove btree_impl k None i) = (if k' = k then [] else ix_get btree_impl k' i)"
    using bt_delete_effect [OF inv, of k None] by (auto simp: kept_rows_def)
  show "ix_get btree_impl k' (ix_remove btree_impl k (Some v) i)
      = (if k' = k then filter (\<lambda>x. x \<noteq> v) (ix_get btree_impl k i) else ix_get btree_impl k' i)"
    using bt_delete_effect [OF inv, of k "Some v"] by (auto simp: kept_rows_def)
  show "ix_len btree_impl (ix_remove btree_impl k w i)
      = ix_len btree_impl i - of_nat (length (ix_get btree_impl k i) - length (ix_get btree_impl k (ix_remove btree_impl k w i)))" for w
    using bt_delete_effect [OF inv, of k w] by auto
  show "ix_contains_key btree_impl k i \<longleftrightarrow> ix_get btree_impl k i \<noteq> []"
    using inv bt_ok_entries by (fastforce simp: bt_inv_def)
  show "bt_inv (ix_clear btree_impl i) \<and> bt_unique (ix_clear btree_impl i) = bt_unique i"
    "ix_get btree_impl k (ix_clear btree_impl i) = []" "ix_len btree_impl (ix_clear btree_impl i) = 0"
    using bt_clear_effect [OF inv] by simp_all
qed

text \<open>The keys that hold row ids, in order.\<close>

definition bt_keys :: "'k::linorder btree \<Rightarrow> 'k list" where
  "bt_keys t = sorted_list_of_set {k. the (bt_get k t) \<noteq> []}"

lemma bt_keys_entries:
  assumes "bt_ok t sp"
  shows "bt_keys t = map fst (entries sp)" "map (\<lambda>k. the (bt_get k t)) (map fst (entries sp)) = map snd (entries sp)"
proof -
  note ent = bt_ok_entries [OF assms]
  have dist: "distinct (map fst (entries sp))" using ent(3) by (rule strict_sorted_iff [THEN iffD1, THEN conjunct2])
  have at: "rows_at (entries sp) (fst e) = snd e" if "e \<in> set (entries sp)" for e
  proof -
    have "(fst e, snd e) \<in> set (entries sp)" using that by simp
    from map_of_is_SomeI [OF dist this] show ?thesis unfolding rows_at_def by (simp only: option.case)
  qed
  have "{k. the (bt_get k t) \<noteq> []} = fst ` set (entries sp)"
  proof (intro equalityI subsetI)
    fix k assume "k \<in> {k. the (bt_get k t) \<noteq> []}"
    then have "map_of (entries sp) k \<noteq> None" using ent(1) by (auto simp: rows_at_def split: option.splits)
    then show "k \<in> fst ` set (entries sp)" by (simp add: map_of_eq_None_iff)
  next
    fix k assume "k \<in> fst ` set (entries sp)"
    then show "k \<in> {k. the (bt_get k t) \<noteq> []}" using at ent(1) assms by (auto simp: bt_ok_def)
  qed
  then have "bt_keys t = sorted_list_of_set (set (map fst (entries sp)))" by (simp add: bt_keys_def)
  also have "\<dots> = map fst (entries sp)"
    by (rule sorted_list_of_set.idem_if_sorted_distinct) (use ent(3) dist strict_sorted_iff in blast)+
  finally show "bt_keys t = map fst (entries sp)" .
  show "map (\<lambda>k. the (bt_get k t)) (map fst (entries sp)) = map snd (entries sp)"
    using at ent(1) by simp
qed

lemma bt_rows_in:
  assumes "bt_ok t sp"
  shows "rows_of_entries r (entries sp) = concat (map (\<lambda>k. the (bt_get k t)) (filter (kr_contains r) (bt_keys t)))"
    and "rows_of_entries r (rev (reverse_entries r (entries sp)))
      = concat (map (\<lambda>k. the (bt_get k t)) (rev (filter (\<lambda>k. kr_contains r k \<and> (\<forall>u. stop_key r = Some u \<longrightarrow> k < u)) (bt_keys t))))"
proof -
  have get: "the (bt_get (fst e) t) = snd e" if "e \<in> set (entries sp)" for e
    using bt_keys_entries(2) [OF assms] that by simp
  have rows: "rows_of_entries r kvs = concat (map (\<lambda>k. the (bt_get k t)) (filter (kr_contains r) (map fst kvs)))"
    if sub: "set kvs \<subseteq> set (entries sp)" for kvs
  proof -
    have "map snd (filter (\<lambda>e. kr_contains r (fst e)) kvs) = map (\<lambda>e. the (bt_get (fst e) t)) (filter (\<lambda>e. kr_contains r (fst e)) kvs)"
      by (rule map_cong [OF refl]) (use sub get in force)
    then show ?thesis by (simp only: rows_of_entries_def filter_map map_map comp_def)
  qed
  show "rows_of_entries r (entries sp) = concat (map (\<lambda>k. the (bt_get k t)) (filter (kr_contains r) (bt_keys t)))"
    using rows [of "entries sp"] bt_keys_entries(1) [OF assms] by simp
  have keys: "map fst (reverse_entries r (entries sp)) = filter (\<lambda>k. \<forall>u. stop_key r = Some u \<longrightarrow> k < u) (map fst (entries sp))"
    by (cases "stop_key r") (simp_all add: reverse_entries_def filter_map comp_def)
  have "set (rev (reverse_entries r (entries sp))) \<subseteq> set (entries sp)"
    by (auto simp: reverse_entries_def split: option.splits)
  from rows [OF this] show "rows_of_entries r (rev (reverse_entries r (entries sp)))
      = concat (map (\<lambda>k. the (bt_get k t)) (rev (filter (\<lambda>k. kr_contains r k \<and> (\<forall>u. stop_key r = Some u \<longrightarrow> k < u)) (bt_keys t))))"
    unfolding bt_keys_entries(1) [OF assms] by (simp add: rev_map [symmetric] rev_filter [symmetric] keys conj_commute del: map_map)
qed

interpretation btree_range: range_index btree_impl bt_inv bt_unique bt_keys
proof unfold_locales
  fix i :: "'k::linorder btree"
  assume inv: "bt_inv i"
  then obtain sp where ok: "bt_ok i sp" by (auto simp: bt_inv_def)
  show "sorted_wrt (<) (bt_keys i)" using bt_keys_entries(1) [OF ok] bt_ok_entries(3) [OF ok] by simp
  show "set (bt_keys i) = {k. ix_get btree_impl k i \<noteq> []}"
  proof -
    have "finite {k. the (bt_get k i) \<noteq> []}"
    proof (rule finite_subset)
      show "{k. the (bt_get k i) \<noteq> []} \<subseteq> fst ` set (entries sp)"
        using bt_ok_entries(1) [OF ok] by (auto simp: rows_at_def map_of_eq_None_iff split: option.splits dest!: map_of_SomeD intro: rev_image_eqI)
    qed simp
    then show ?thesis by (simp add: bt_keys_def)
  qed
  show "ix_get_range btree_impl rng False limit skip i = page limit skip (concat (map (\<lambda>k. ix_get btree_impl k i) (bt_keys i)))"
    if "rng = None \<or> rng = Some All" for rng limit skip
    using that bt_get_range_result(1) [OF ok] bt_rows_in(1) [OF ok, of All] by auto
  show "ix_get_range btree_impl (Some r) False limit skip i
      = page limit skip (concat (map (\<lambda>k. ix_get btree_impl k i) (filter (kr_contains r) (bt_keys i))))" for r limit skip
    using bt_get_range_result(1) [OF ok] bt_rows_in(1) [OF ok] by simp
qed

section \<open>Sequences of operations\<close>

fun bt_step :: "'k::linorder index_op \<Rightarrow> 'k btree \<Rightarrow> ((index_error + unit) \<times> 'k btree) option" where
  "bt_step (OpAdd k v) t = bt_insert k v t"
| "bt_step (OpAddBatch es) t = bt_add_batch es t"
| "bt_step (OpSet k v) t = map_option (Pair (Inr ())) (bt_set k v t)"
| "bt_step (OpRemove k w) t = map_option (Pair (Inr ())) (bt_delete k w t)"
| "bt_step OpClear t = Some (Inr (), bt_clear t)"

fun run_bt :: "'k::linorder index_op list \<Rightarrow> 'k btree \<Rightarrow> ((index_error + unit) list \<times> 'k btree) option" where
  "run_bt [] t = Some ([], t)"
| "run_bt (p # ps) t = do { (r, t) \<leftarrow> bt_step p t; (rs, t) \<leftarrow> run_bt ps t; Some (r # rs, t) }"

text \<open>The operations that only add, and those that are not batches.\<close>

fun is_load :: "'k index_op \<Rightarrow> bool" where
  "is_load (OpAdd _ _) = True" | "is_load (OpAddBatch _) = True" | "is_load OpClear = True" | "is_load _ = False"

fun is_batch :: "'k index_op \<Rightarrow> bool" where
  "is_batch (OpAddBatch _) = True" | "is_batch _ = False"

definition bt_sim :: "bool \<Rightarrow> bool \<Rightarrow> 'k::linorder btree \<Rightarrow> 'k multimap \<Rightarrow> bool" where
  "bt_sim u b t m \<longleftrightarrow> (\<exists>sp. bt_ok t sp \<and> (b \<longrightarrow> tight sp) \<and> bt_unique t = u \<and> (\<forall>k. rows_at (entries sp) k = m k))"

lemma bt_simI: "bt_ok t sp \<Longrightarrow> (b \<Longrightarrow> tight sp) \<Longrightarrow> bt_unique t = u \<Longrightarrow> (\<And>k. rows_at (entries sp) k = m k) \<Longrightarrow> bt_sim u b t m"
  unfolding bt_sim_def by blast

lemma bt_step_refines:
  assumes sim: "bt_sim u b t m" and batch: "is_batch p \<Longrightarrow> b"
  shows "\<exists>r t'. bt_step p t = Some (r, t') \<and> fst (mm_step u p m) = r \<and> bt_sim u (b \<and> is_load p) t' (snd (mm_step u p m))"
proof -
  obtain sp where ok: "bt_ok t sp" "b \<Longrightarrow> tight sp" "bt_unique t = u" "\<And>k. rows_at (entries sp) k = m k"
    using sim by (auto simp: bt_sim_def)
  have sorted: "sorted_wrt (<) (map fst (entries sp))" by (rule bt_ok_entries(3) [OF ok(1)])
  have present: "map_of (entries sp) k \<noteq> None \<longleftrightarrow> m k \<noteq> []" for k using present_iff [OF ok(1), of k] ok(4) by simp
  show ?thesis
  proof (cases p)
    case (OpAdd key v)
    show ?thesis
    proof (cases "u \<and> m key \<noteq> []")
      case True
      then have "bt_insert key v t = Some (Inl DuplicateKey, t)"
        using bt_insert_result(1) [OF ok(1), of key v] ok(3) present by simp
      then show ?thesis using OpAdd True sim by simp
    next
      case False
      then have "\<not> (bt_unique t \<and> map_of (entries sp) key \<noteq> None)" using ok(3) present by simp
      from bt_insert_result(2) [OF ok(1) this, of v]
      obtain t' sp' where t': "bt_insert key v t = Some (Inr (), t')" "bt_ok t' sp'"
        "entries sp' = upsert key [v] (entries sp)" "bt_unique t' = bt_unique t" "tight sp \<longrightarrow> tight sp'"
        by blast
      have "bt_sim u b t' (m(key := m key @ [v]))"
        by (rule bt_simI [OF t'(2)]) (use t' ok upsert_rows [OF sorted] in auto)
      then show ?thesis using OpAdd False t'(1) by simp
    qed
  next
    case (OpAddBatch es)
    then have tight: "tight sp" "b" using ok(2) batch by simp_all
    show ?thesis
    proof (cases "u \<and> \<not> (distinct (map fst es) \<and> (\<forall>k \<in> fst ` set es. m k = []))")
      case True
      then have "bt_add_batch es t = Some (Inl DuplicateKey, t)"
        using bt_add_batch_spec(1) [OF ok(1) tight(1), of es] ok(3,4) by simp
      then show ?thesis using OpAddBatch True sim by simp
    next
      case False
      then obtain t' sp' where t': "bt_add_batch es t = Some (Inr (), t')" "bt_ok t' sp'" "tight sp'" "bt_unique t' = bt_unique t"
        "\<And>k. rows_at (entries sp') k = rows_at (entries sp) k @ map snd (filter (\<lambda>e. fst e = k) es)"
        using bt_add_batch_spec(2) [OF ok(1) tight(1), of es] ok(3,4) by auto
      have "bt_sim u b t' (\<lambda>k. m k @ map snd (filter (\<lambda>e. fst e = k) es))"
        by (rule bt_simI [OF t'(2)]) (use t' ok in auto)
      then show ?thesis using OpAddBatch False t'(1) by auto
    qed
  next
    case (OpSet key v)
    obtain t' sp' where t': "bt_set key v t = Some t'" "bt_ok t' sp'" "bt_unique t' = bt_unique t"
      "entries sp' = upsert key [v] (prune key (kept_rows None) (entries sp))"
      using bt_set_result [OF ok(1), of key v] by auto
    have "bt_inv t" using ok(1) by (auto simp: bt_inv_def)
    from bt_set_effect [OF this, of key v] have rows: "the (bt_get k t') = (if k = key then [v] else the (bt_get k t))" for k
      using t'(1) by auto
    have "bt_sim u False t' (m(key := [v]))"
      by (rule bt_simI [OF t'(2)]) (use t'(3) ok rows bt_ok_entries(1) [OF t'(2)] bt_ok_entries(1) [OF ok(1)] in auto)
    then show ?thesis using OpSet t'(1) by simp
  next
    case (OpRemove key w)
    obtain t' sp' where t': "bt_delete key w t = Some t'" "bt_ok t' sp'" "entries sp' = prune key (kept_rows w) (entries sp)"
      "bt_unique t' = bt_unique t"
      using bt_delete_result [OF ok(1), of key w] by auto
    have "bt_sim u False t' (m(key := kept_rows w (m key)))"
      by (rule bt_simI [OF t'(2)]) (use t'(3,4) ok prune_rows [OF sorted, of "kept_rows w"] in auto)
    then show ?thesis using OpRemove t'(1) by (simp add: kept_rows_def)
  next
    case OpClear
    have clear: "bt_ok (bt_clear t) [Leaf 0 []]" "bt_unique (bt_clear t) = u" using bt_clear_ok [OF ok(1)] ok(3) by simp_all
    have "bt_sim u b (bt_clear t) (\<lambda>_. [])"
      by (rule bt_simI [OF clear(1) _ clear(2)]) (simp_all add: tight_single rows_at_def)
    then show ?thesis using OpClear by simp
  qed
qed

lemma run_bt_refines:
  assumes "bt_sim u True t m" "\<forall>p \<in> set loads. is_load p" "\<forall>p \<in> set ps. \<not> is_batch p"
  shows "\<exists>rs t'. run_bt (loads @ ps) t = Some (rs, t') \<and> fst (run_ops (mm_step u) (loads @ ps) m) = rs
    \<and> bt_sim u False t' (snd (run_ops (mm_step u) (loads @ ps) m))"
proof -
  have later: "\<exists>rs t'. run_bt ps t = Some (rs, t') \<and> fst (run_ops (mm_step u) ps m) = rs
      \<and> bt_sim u False t' (snd (run_ops (mm_step u) ps m))" if "bt_sim u b t m" for b t m
    using that assms(3)
  proof (induction ps arbitrary: b t m)
    case Nil
    then show ?case by (auto simp: bt_sim_def)
  next
    case (Cons p ps)
    have "is_batch p \<Longrightarrow> b" using Cons.prems(2) by simp
    from bt_step_refines [OF Cons.prems(1) this] obtain r t1 where t1: "bt_step p t = Some (r, t1)"
      "fst (mm_step u p m) = r" "bt_sim u (b \<and> is_load p) t1 (snd (mm_step u p m))" by blast
    then obtain rs t2 where "run_bt ps t1 = Some (rs, t2)" "fst (run_ops (mm_step u) ps (snd (mm_step u p m))) = rs"
      "bt_sim u False t2 (snd (run_ops (mm_step u) ps (snd (mm_step u p m))))"
      using Cons.IH [OF t1(3)] Cons.prems(2) by auto
    then show ?case using t1 by (auto simp: case_prod_unfold Let_def)
  qed
  show ?thesis
    using assms(1,2)
  proof (induction loads arbitrary: t m)
    case Nil
    then show ?case using later [of True] by simp
  next
    case (Cons p loads)
    obtain r t1 where t1: "bt_step p t = Some (r, t1)" "fst (mm_step u p m) = r" "bt_sim u True t1 (snd (mm_step u p m))"
      using bt_step_refines [OF Cons.prems(1), of p] Cons.prems(2) by auto
    then obtain rs t2 where "run_bt (loads @ ps) t1 = Some (rs, t2)"
      "fst (run_ops (mm_step u) (loads @ ps) (snd (mm_step u p m))) = rs"
      "bt_sim u False t2 (snd (run_ops (mm_step u) (loads @ ps) (snd (mm_step u p m))))"
      using Cons.IH [OF t1(3)] Cons.prems(2) by auto
    then show ?case using t1 by (auto simp: case_prod_unfold Let_def)
  qed
qed

lemma entry_rows_sum:
  assumes "sorted_wrt (<) (map fst (kvs :: ('k::linorder \<times> row_id list) list))" "\<forall>e \<in> set kvs. snd e \<noteq> []"
  shows "entry_rows kvs = (\<Sum>k \<in> {k. rows_at kvs k \<noteq> []}. length (rows_at kvs k))"
proof -
  have dist: "distinct (map fst kvs)" using assms(1) strict_sorted_iff by blast
  have at: "rows_at kvs (fst e) = snd e" if "e \<in> set kvs" for e
  proof -
    have "(fst e, snd e) \<in> set kvs" using that by simp
    from map_of_is_SomeI [OF dist this] show ?thesis unfolding rows_at_def by (simp only: option.case)
  qed
  have dom: "{k. rows_at kvs k \<noteq> []} = set (map fst kvs)"
  proof (intro equalityI subsetI)
    fix k assume "k \<in> {k. rows_at kvs k \<noteq> []}"
    then have "map_of kvs k \<noteq> None" by (auto simp: rows_at_def split: option.splits)
    then show "k \<in> set (map fst kvs)" by (simp add: map_of_eq_None_iff)
  qed (use at assms(2) in auto)
  have "entry_rows kvs = (\<Sum>e \<leftarrow> kvs. length (rows_at kvs (fst e)))"
    unfolding entry_rows_def using at by (intro arg_cong [of _ _ sum_list] map_cong) auto
  also have "\<dots> = (\<Sum>k \<leftarrow> map fst kvs. length (rows_at kvs k))" by (simp add: comp_def)
  also have "\<dots> = (\<Sum>k \<in> set (map fst kvs). length (rows_at kvs k))" by (rule sum_list_distinct_conv_sum_set [OF dist])
  finally show ?thesis unfolding dom .
qed

lemma bt_sim_new: "3 \<le> ord \<Longrightarrow> bt_sim u True (bt_new ord u) (\<lambda>_. [])"
  by (rule bt_simI [OF bt_new_ok])
    (simp_all add: tight_single rows_at_def bt_new_def bt_with_comparator_def alloc_node_def)

section \<open>Depth\<close>

text \<open>A number of steps down to a child.\<close>

fun descend :: "'k::linorder btree \<Rightarrow> 'k \<Rightarrow> nat \<Rightarrow> nat \<Rightarrow> nat option" where
  "descend t key 0 i = Some i"
| "descend t key (Suc m) i =
     do { n \<leftarrow> bt_at t i; child \<leftarrow> vec_at (nd_children n) (find_child_position t n key); descend t key m child }"

lemma leaf_count_lower: "bal n g \<Longrightarrow> 2 ^ n \<le> length (leaf_ids (spine g))"
proof (induction n arbitrary: g)
  case 0
  then show ?case by (cases g) auto
next
  case (Suc n)
  then obtain j ks gs where g: "g = GNode j ks gs" "length gs = Suc (length ks)" "list_all (bal n) gs" "ks \<noteq> []" by (cases g) auto
  then obtain h h' hs k ks' where parts: "gs = h # h' # hs" "ks = k # ks'"
    by (cases gs; cases ks; cases "tl gs") auto
  have "2 ^ n \<le> length (leaf_ids (spine h))" "2 ^ n \<le> length (leaf_ids (spine h'))"
    using Suc.IH g(3) parts(1) by simp_all
  then show ?case using g(1) parts by simp
qed

lemma find_leaf_from_descend:
  "holds t (nodes p g @ ns) \<Longrightarrow> bal n g \<Longrightarrow> find_leaf_from t key (gid g) = descend t key n (gid g)
    \<and> (\<exists>i. descend t key n (gid g) = Some i)"
proof (induction n arbitrary: g p ns)
  case 0
  then obtain i kvs where g: "g = GLeaf i kvs" by (cases g) auto
  then show ?case using leaf_at [OF 0(1), of i kvs p] by (subst find_leaf_from.simps) auto
next
  case (Suc n)
  then obtain i ks gs where g: "g = GNode i ks gs" "length gs = Suc (length ks)" "list_all (bal n) gs" by (cases g) auto
  obtain nd where nd: "bt_at t i = Some nd" "\<not> nd_is_leaf nd" "nd_children nd = map gid gs"
    using inner_at [OF Suc.prems(1), of i ks "map gid gs" p] g by auto
  define pos where "pos = find_child_position t nd key"
  have pos: "pos < length gs" unfolding pos_def find_child_position_def using nd(3) g(2) by (simp add: min_less_iff_disj)
  have split: "gs = take pos gs @ gs ! pos # drop (Suc pos) gs" by (rule id_take_nth_drop [OF pos])
  have "holds t (nodes (Some i) (gs ! pos) @ ((i, Shape False ks [] (map gid gs) p)
      # concat (map (nodes (Some i)) (take pos gs)) @ concat (map (nodes (Some i)) (drop (Suc pos) gs)) @ ns))"
  proof (subst holds_perm [where ns' = "nodes p g @ ns"])
    have "mset (concat (map (nodes (Some i)) gs))
        = mset (concat (map (nodes (Some i)) (take pos gs @ gs ! pos # drop (Suc pos) gs)))" using split by simp
    then show "mset (nodes (Some i) (gs ! pos) @ ((i, Shape False ks [] (map gid gs) p)
      # concat (map (nodes (Some i)) (take pos gs)) @ concat (map (nodes (Some i)) (drop (Suc pos) gs)) @ ns)) = mset (nodes p g @ ns)"
      unfolding g(1) by simp
  qed (rule Suc.prems(1))
  moreover have "bal n (gs ! pos)" using g(3) pos by (simp add: list_all_length)
  ultimately have "find_leaf_from t key (gid (gs ! pos)) = descend t key n (gid (gs ! pos))
      \<and> (\<exists>i. descend t key n (gid (gs ! pos)) = Some i)" by (rule Suc.IH)
  moreover have "vec_at (nd_children nd) pos = Some (gid (gs ! pos))" using nd(3) pos by (simp add: vec_at_def)
  ultimately show ?case using nd(1,2) g(1) by (subst find_leaf_from.simps) (simp add: pos_def)
qed

lemma leaf_count_entries: "leaves_full sp \<Longrightarrow> length (leaf_ids sp) \<le> length (entries sp)"
proof (induction sp)
  case (Cons x sp)
  then have "length (leaf_ids sp) \<le> length (entries sp)" by (auto simp: leaves_full_def)
  moreover have "kvs \<noteq> []" if "x = Leaf i kvs" for i kvs using Cons.prems that by (auto simp: leaves_full_def)
  ultimately show ?case
  proof (cases x)
    case (Leaf i kvs)
    then have "kvs \<noteq> []" using \<open>\<And>i kvs. x = Leaf i kvs \<Longrightarrow> kvs \<noteq> []\<close> by simp
    then show ?thesis using Leaf \<open>length (leaf_ids sp) \<le> length (entries sp)\<close> by (cases kvs) simp_all
  qed simp
qed simp

section \<open>Trees that operations lead to\<close>

lemma run_bt_new:
  assumes "3 \<le> ord" "\<forall>p \<in> set loads. is_load p" "\<forall>p \<in> set ps. \<not> is_batch p"
  shows "\<exists>t. run_bt (loads @ ps) (bt_new ord u) = Some (fst (run_ops (mm_step u) (loads @ ps) (\<lambda>_. [])), t)
    \<and> bt_inv t \<and> (\<forall>k. bt_get k t = Some (snd (run_ops (mm_step u) (loads @ ps) (\<lambda>_. [])) k))"
proof -
  obtain rs t where t: "run_bt (loads @ ps) (bt_new ord u) = Some (rs, t)"
    "fst (run_ops (mm_step u) (loads @ ps) (\<lambda>_. [])) = rs" "bt_sim u False t (snd (run_ops (mm_step u) (loads @ ps) (\<lambda>_. [])))"
    using run_bt_refines [OF bt_sim_new [OF assms(1)] assms(2,3)] by blast
  then obtain sp where ok: "bt_ok t sp" "\<And>k. rows_at (entries sp) k = snd (run_ops (mm_step u) (loads @ ps) (\<lambda>_. [])) k"
    by (auto simp: bt_sim_def)
  then show ?thesis using t bt_ok_entries(1) [OF ok(1)] by (auto simp: bt_inv_def)
qed

section \<open>Properties\<close>



text \<open>
  C12. A range scan of an intact B+ tree is exact: forwards it returns the row ids of the keys in the range, keys in
  ascending order, the row ids of a key in insertion order, after the skip and up to the limit; backwards the keys
  descend, but a key that equals the upper bound is left out even when the bound includes it.
\<close>

theorem btree_range_scan:
  assumes "bt_inv t" "sorted_wrt (<) ks" "set ks = {k. kr_contains r k \<and> the (bt_get k t) \<noteq> []}"
  shows "bt_get_range (Some r) False limit skip t = Some (page limit skip (concat (map (\<lambda>k. the (bt_get k t)) ks)))
    \<and> bt_get_range (Some r) True limit skip t
      = Some (page limit skip (concat (map (\<lambda>k. the (bt_get k t)) (rev (filter (\<lambda>k. \<forall>u. stop_key r = Some u \<longrightarrow> k < u) ks)))))"
proof -
  obtain sp where ok: "bt_ok t sp" using assms(1) by (auto simp: bt_inv_def)
  have "sorted_wrt (<) (filter (kr_contains r) (bt_keys t))"
    using btree_range.keys_sorted [OF assms(1)] by (rule sorted_wrt_filter)
  moreover have "set (filter (kr_contains r) (bt_keys t)) = set ks"
    using btree_range.keys_get [OF assms(1)] assms(3) by auto
  ultimately have ks: "filter (kr_contains r) (bt_keys t) = ks" using strict_sorted_equal [OF assms(2)] by metis
  have "filter (\<lambda>k. kr_contains r k \<and> (\<forall>u. stop_key r = Some u \<longrightarrow> k < u)) (bt_keys t)
      = filter (\<lambda>k. \<forall>u. stop_key r = Some u \<longrightarrow> k < u) ks"
    unfolding ks [symmetric] by (simp add: conj_commute)
  then show ?thesis
    using bt_get_range_result [OF ok] bt_rows_in [OF ok] ks by simp
qed

theorem btree_range_scan_witness:
  "\<exists>rs t. run_bt [OpAddBatch [(3, 30), (1, 10), (2, 20), (4, 40), (3, 31)]] (bt_new 3 False) = Some (rs, t)
    \<and> bt_get_range (Some (Bound (2::int) 3 False False)) False None 1 t = Some [30, 31]
    \<and> bt_get_range (Some (Bound (2::int) 3 False False)) True None 0 t = Some [20]"
proof -
  let ?ops = "[OpAddBatch [(3, 30), (1, 10), (2, 20), (4, 40), (3, 31)]] :: int index_op list"
  obtain rs t where t: "run_bt ?ops (bt_new 3 False) = Some (rs, t)" "bt_inv t"
    "\<And>k. bt_get k t = Some (snd (run_ops (mm_step False) ?ops (\<lambda>_. [])) k)"
    using run_bt_new [of 3 ?ops "[]" False] by auto
  have "set [2, 3] = {k. kr_contains (Bound 2 3 False False) k \<and> the (bt_get k t) \<noteq> []}"
    unfolding t(3) by auto
  from btree_range_scan [OF t(2) _ this] t(1) show ?thesis
    unfolding t(3) by (auto simp: page_def)
qed



text \<open>
  C32. A lookup is fast: in an intact tree the descent to the leaf of any key takes the same number of steps, and two
  to the power of that number is at most the number of keys.
\<close>

theorem btree_depth:
  assumes "bt_inv t"
  shows "\<exists>m. 2 ^ m \<le> max 1 (length (bt_keys t)) \<and> (\<forall>key. \<exists>i. find_leaf t key = Some i \<and> descend t key m (bt_root t) = Some i)"
proof -
  obtain sp where ok: "bt_ok t sp" using assms by (auto simp: bt_inv_def)
  then obtain g m where g: "holds t (nodes None g @ [])" "bal m g" "bt_root t = gid g" "spine g = sp"
    by (auto simp: bt_ok_def represents_def)
  have "2 ^ m \<le> max 1 (length (bt_keys t))"
  proof -
    have leaves: "2 ^ m \<le> length (leaf_ids sp)" using leaf_count_lower [OF g(2)] g(4) by simp
    have "(\<exists>i. sp = [Leaf i []]) \<or> leaves_full sp" using full_cases ok by (auto simp: bt_ok_def)
    then show ?thesis
    proof
      assume "leaves_full sp"
      from leaf_count_entries [OF this] show ?thesis using leaves bt_keys_entries(1) [OF ok] by simp
    qed (use leaves in auto)
  qed
  moreover have "\<exists>i. find_leaf t key = Some i \<and> descend t key m (bt_root t) = Some i" for key
    using find_leaf_from_descend [OF g(1,2), of key] g(3) by (auto simp: find_leaf_def)
  ultimately show ?thesis by blast
qed

theorem btree_depth_witness:
  "\<exists>rs t m. run_bt [OpAddBatch [(1::int, 10), (2, 20), (3, 30), (4, 40)]] (bt_new 3 False) = Some (rs, t)
    \<and> (\<forall>key. \<exists>i. find_leaf t key = Some i \<and> descend t key m (bt_root t) = Some i)"
proof -
  obtain rs t where "run_bt [OpAddBatch [(1::int, 10), (2, 20), (3, 30), (4, 40)]] (bt_new 3 False) = Some (rs, t)" "bt_inv t"
    using run_bt_new [of 3 "[OpAddBatch [(1::int, 10), (2, 20), (3, 30), (4, 40)]]" "[]" False] by auto
  then show ?thesis using btree_depth [of t] by blast
qed

text \<open>What a batch of removals leaves.\<close>

lemma bt_remove_batch_effect:
  assumes "bt_inv t"
  shows "\<exists>t'. bt_remove_batch es t = Some t' \<and> bt_inv t' \<and> bt_unique t' = bt_unique t
    \<and> (\<forall>k. distinct (the (bt_get k t)) \<longrightarrow>
         distinct (the (bt_get k t')) \<and> set (the (bt_get k t')) = {v \<in> set (the (bt_get k t)). (k, v) \<notin> set es})"
proof -
  obtain sp where ok: "bt_ok t sp" using assms by (auto simp: bt_inv_def)
  obtain t' sp' where t': "bt_remove_batch es t = Some t'" "bt_ok t' sp'" "bt_unique t' = bt_unique t"
    "\<And>k. rows_at (entries sp') k = remove_rows (map snd (filter (\<lambda>e. fst e = k) es)) (rows_at (entries sp) k)"
    using bt_remove_batch_spec [OF ok, of es] by blast
  have "set (map snd (filter (\<lambda>e. fst e = k) es)) = {v. (k, v) \<in> set es}" for k by force
  then have "distinct (the (bt_get k t')) \<and> set (the (bt_get k t')) = {v \<in> set (the (bt_get k t)). (k, v) \<notin> set es}"
    if "distinct (the (bt_get k t))" for k
    using that remove_rows_set [of "rows_at (entries sp) k" "map snd (filter (\<lambda>e. fst e = k) es)"]
      bt_ok_entries(1) [OF ok] bt_ok_entries(1) [OF t'(2)] t'(4) by auto
  then show ?thesis using t'(1-3) by (auto simp: bt_inv_def)
qed

text \<open>
  C33. A batch of removals on an intact B+ tree, whatever leaves it empties on the way, ends and leaves an intact tree
  in which every key that has distinct row ids has those that the batch does not remove from it.
\<close>

theorem btree_remove_batch:
  assumes "bt_inv t"
  shows "\<exists>t'. bt_remove_batch es t = Some t' \<and> bt_inv t' \<and> bt_unique t' = bt_unique t
    \<and> (\<forall>k. distinct (the (bt_get k t)) \<longrightarrow>
         distinct (the (bt_get k t')) \<and> set (the (bt_get k t')) = {v \<in> set (the (bt_get k t)). (k, v) \<notin> set es})"
  using assms by (rule bt_remove_batch_effect)

theorem btree_remove_batch_witness:
  "\<exists>rs t t'. run_bt [OpAddBatch [(1::int, 10), (2, 20), (2, 21), (3, 30)]] (bt_new 3 False) = Some (rs, t)
    \<and> bt_remove_batch [(2, 20), (1, 10)] t = Some t' \<and> the (bt_get 1 t') = [] \<and> set (the (bt_get 2 t')) = {21}"
proof -
  let ?ops = "[OpAddBatch [(1::int, 10), (2, 20), (2, 21), (3, 30)]]"
  obtain rs t where t: "run_bt ?ops (bt_new 3 False) = Some (rs, t)" "bt_inv t"
    "\<And>k. bt_get k t = Some (snd (run_ops (mm_step False) ?ops (\<lambda>_. [])) k)"
    using run_bt_new [of 3 ?ops "[]" False] by auto
  obtain t' where t': "bt_remove_batch [(2 :: int, 20), (1, 10)] t = Some t'"
    "\<forall>k. distinct (the (bt_get k t)) \<longrightarrow>
         distinct (the (bt_get k t')) \<and> set (the (bt_get k t')) = {v \<in> set (the (bt_get k t)). (k, v) \<notin> set [(2, 20), (1, 10)]}"
    using btree_remove_batch [OF t(2), of "[(2, 20), (1, 10)]"] by blast
  have at: "the (bt_get (1::int) t) = [10]" "the (bt_get 2 t) = [20, 21]" unfolding t(3) by simp_all
  have "distinct [10 :: row_id]" "distinct [20, 21 :: row_id]" by simp_all
  note left = t'(2) [THEN spec, of 1, unfolded at, THEN mp, OF this(1), THEN conjunct2]
    t'(2) [THEN spec, of 2, unfolded at, THEN mp, OF this(2), THEN conjunct2]
  have "the (bt_get 1 t') = []" using left(1) by simp
  moreover have "set (the (bt_get 2 t')) = {21}" unfolding left(2) by auto
  ultimately show ?thesis using t(1) t'(1) by blast
qed

text \<open>
  After a deletion the hint of a batch can go wrong: when the first key of a leaf was deleted, its separator is
  less than every key of the leaf, and a batch puts a key between the two into the leaf to the left, where no lookup
  finds it.
\<close>

theorem btree_batch_hint_loses:
  "do { (_, t) \<leftarrow> run_bt [OpAdd 1 1, OpAdd 2 2, OpAdd 10 10, OpAdd 11 11, OpRemove 10 None] (bt_new 4 False);
        (r, t) \<leftarrow> bt_add_batch [(1, 100), (10, 101)] t;
        rows \<leftarrow> bt_get (10::int) t;
        Some (r, rows) } = Some (Inr (), [])"
  by code_simp

end
