(* ===== verification/Cynos_Gin.thy ===== *)
theory Cynos_Gin
  imports Cynos_Posting Cynos_Index Cynos_Pattern
begin

text \<open>
  The GIN index (\<open>crates/index/src/gin/mod.rs\<close>): for every key, and for every pair of a key and a value, the
  posting list of the rows that have it. Substring searches are prefiltered by the trigrams of the needle, which are
  entered as values under a synthetic key. A bulk builder collects row ids and is merged into the index at the end.
\<close>

section \<open>Trigrams\<close>

type_synonym u128 = "128 word"

definition contains_trigram_key_prefix :: string where
  "contains_trigram_key_prefix = ''__cynos_contains3__:''"

definition contains_trigram_key :: "string \<Rightarrow> string" where
  "contains_trigram_key path = contains_trigram_key_prefix @ path"

definition trigram_code :: "uchar \<Rightarrow> uchar \<Rightarrow> uchar \<Rightarrow> u128" where
  "trigram_code first second third =
     or (or (push_bit 42 (word_of_nat first)) (push_bit 21 (word_of_nat second))) (word_of_nat third)"

text \<open>\<open>char::from_u32\<close> and \<open>String::push\<close>.\<close>

definition char_from_u32 :: "nat \<Rightarrow> uchar option" where
  "char_from_u32 n = (if n < 0xD800 \<or> 0xDFFF < n \<and> n \<le> 0x10FFFF then Some n else None)"

definition utf8_encode :: "uchar \<Rightarrow> string" where
  "utf8_encode c =
     (if c < 0x80 then [char_of c]
      else if c < 0x800 then [char_of (0xC0 + c div 64), char_of (0x80 + c mod 64)]
      else if c < 0x10000 then [char_of (0xE0 + c div 4096), char_of (0x80 + c div 64 mod 64), char_of (0x80 + c mod 64)]
      else [char_of (0xF0 + c div 262144), char_of (0x80 + c div 4096 mod 64), char_of (0x80 + c div 64 mod 64), char_of (0x80 + c mod 64)])"

definition trigram_chars :: "u128 \<Rightarrow> (uchar \<times> uchar \<times> uchar) option" where
  "trigram_chars code =
     (case char_from_u32 (unat (and (drop_bit 42 code) 0x1FFFFF)) of
        None \<Rightarrow> None
      | Some first \<Rightarrow>
          case char_from_u32 (unat (and (drop_bit 21 code) 0x1FFFFF)) of
            None \<Rightarrow> None
          | Some second \<Rightarrow>
              case char_from_u32 (unat (and code 0x1FFFFF)) of
                None \<Rightarrow> None
              | Some third \<Rightarrow> Some (first, second, third))"

definition push_trigram_string :: "uchar \<Rightarrow> uchar \<Rightarrow> uchar \<Rightarrow> string" where
  "push_trigram_string first second third = utf8_encode first @ utf8_encode second @ utf8_encode third"

definition trigram_string_from_code :: "u128 \<Rightarrow> string" where
  "trigram_string_from_code code =
     (case trigram_chars code of
        None \<Rightarrow> ''''
      | Some (first, second, third) \<Rightarrow> utf8_encode first @ utf8_encode second @ utf8_encode third)"

text \<open>The codes seen so far: up to twelve in an array, more in a hash set.\<close>

record seen_codes =
  inline_seen :: "u128 list"
  inline_len :: nat
  spilled_seen :: "u128 set option"

definition inline_capacity :: nat where
  "inline_capacity = 12"

definition seen_none :: seen_codes where
  "seen_none = \<lparr>inline_seen = replicate inline_capacity 0, inline_len = 0, spilled_seen = None\<rparr>"

definition try_mark_trigram_seen :: "u128 \<Rightarrow> seen_codes \<Rightarrow> bool \<times> seen_codes" where
  "try_mark_trigram_seen code s =
     (case spilled_seen s of
        Some seen \<Rightarrow> (code \<notin> seen, s\<lparr>spilled_seen := Some (insert code seen)\<rparr>)
      | None \<Rightarrow>
          if code \<in> set (take (inline_len s) (inline_seen s)) then (False, s)
          else if inline_len s < inline_capacity
               then (True, s\<lparr>inline_seen := (inline_seen s)[inline_len s := code], inline_len := inline_len s + 1\<rparr>)
               else let seen = set (take (inline_len s) (inline_seen s))
                    in (code \<notin> seen, s\<lparr>spilled_seen := Some (insert code seen)\<rparr>))"

text \<open>The codes that the visitor is shown, in order; their number is what the function returns.\<close>

fun trigram_loop :: "uchar \<Rightarrow> uchar \<Rightarrow> uchar \<Rightarrow> uchar list \<Rightarrow> seen_codes \<Rightarrow> u128 list" where
  "trigram_loop first second third chars s =
     (let code = trigram_code first second third;
          (fresh, s) = try_mark_trigram_seen code s;
          rest = (case chars of [] \<Rightarrow> [] | next_char # chars \<Rightarrow> trigram_loop second third next_char chars s)
      in if fresh then code # rest else rest)"

definition for_each_unique_trigram_code :: "string \<Rightarrow> u128 list" where
  "for_each_unique_trigram_code s =
     (case utf8_chars s of
        first # second # third # chars \<Rightarrow> trigram_loop first second third chars seen_none
      | _ \<Rightarrow> [])"

definition for_each_unique_trigram :: "string \<Rightarrow> string list" where
  "for_each_unique_trigram s =
     List.map_filter (\<lambda>code. case trigram_chars code of
        None \<Rightarrow> None | Some (first, second, third) \<Rightarrow> Some (push_trigram_string first second third))
       (for_each_unique_trigram_code s)"

definition contains_trigrams :: "string \<Rightarrow> string list" where
  "contains_trigrams s = sort (for_each_unique_trigram s)"

definition contains_trigram_pairs :: "string \<Rightarrow> string \<Rightarrow> (string \<times> string) list" where
  "contains_trigram_pairs path needle =
     (let key = contains_trigram_key path in map (\<lambda>gram. (key, gram)) (contains_trigrams needle))"

section \<open>The index\<close>

record gin_index =
  gin_key_index :: "(string, posting_list) hash_map"
  gin_key_value_index :: "(string \<times> string, posting_list) hash_map"
  gin_stats :: index_stats

definition gin_index_new :: gin_index where
  "gin_index_new = \<lparr>gin_key_index = [], gin_key_value_index = [], gin_stats = stats_new\<rparr>"

text \<open>\<open>entry(k).or_insert_with(PostingList::new).add(row_id)\<close>\<close>

definition entry_add :: "'k \<Rightarrow> row_id \<Rightarrow> ('k, posting_list) hash_map \<Rightarrow> ('k, posting_list) hash_map" where
  "entry_add k row_id m = hm_insert k (pl_add row_id (case hm_get m k of Some p \<Rightarrow> p | None \<Rightarrow> pl_new)) m"

definition gin_add_key :: "string \<Rightarrow> row_id \<Rightarrow> gin_index \<Rightarrow> gin_index" where
  "gin_add_key key row_id g =
     g\<lparr>gin_key_index := entry_add key row_id (gin_key_index g), gin_stats := stats_add_rows 1 (gin_stats g)\<rparr>"

definition gin_add_key_value :: "string \<Rightarrow> string \<Rightarrow> row_id \<Rightarrow> gin_index \<Rightarrow> gin_index" where
  "gin_add_key_value key val row_id g =
     g\<lparr>gin_key_value_index := entry_add (key, val) row_id (gin_key_value_index g)\<rparr>"

definition gin_add_keys :: "string list \<Rightarrow> row_id \<Rightarrow> gin_index \<Rightarrow> gin_index" where
  "gin_add_keys ks row_id g = foldl (\<lambda>g key. gin_add_key key row_id g) g ks"

definition gin_add_key_values :: "(string \<times> string) list \<Rightarrow> row_id \<Rightarrow> gin_index \<Rightarrow> gin_index" where
  "gin_add_key_values pairs row_id g = foldl (\<lambda>g (key, val). gin_add_key_value key val row_id g) g pairs"

definition gin_add_contains_trigrams :: "string \<Rightarrow> string \<Rightarrow> row_id \<Rightarrow> gin_index \<Rightarrow> nat \<times> gin_index" where
  "gin_add_contains_trigrams path needle row_id g =
     (let key = contains_trigram_key path;
          codes = for_each_unique_trigram_code needle
      in (length codes, foldl (\<lambda>g code. gin_add_key_value key (trigram_string_from_code code) row_id g) g codes))"

definition gin_remove_key :: "string \<Rightarrow> row_id \<Rightarrow> gin_index \<Rightarrow> gin_index" where
  "gin_remove_key key row_id g =
     (case hm_get (gin_key_index g) key of
        None \<Rightarrow> g
      | Some posting \<Rightarrow>
          let (removed, posting) = pl_remove row_id posting;
              g = (if removed then g\<lparr>gin_stats := stats_remove_rows 1 (gin_stats g)\<rparr> else g);
              g = g\<lparr>gin_key_index := hm_insert key posting (gin_key_index g)\<rparr>
          in if pl_is_empty posting then g\<lparr>gin_key_index := hm_remove key (gin_key_index g)\<rparr> else g)"

definition gin_remove_key_value :: "string \<Rightarrow> string \<Rightarrow> row_id \<Rightarrow> gin_index \<Rightarrow> gin_index" where
  "gin_remove_key_value key val row_id g =
     (case hm_get (gin_key_value_index g) (key, val) of
        None \<Rightarrow> g
      | Some posting \<Rightarrow>
          let (_, posting) = pl_remove row_id posting;
              g = g\<lparr>gin_key_value_index := hm_insert (key, val) posting (gin_key_value_index g)\<rparr>
          in if pl_is_empty posting then g\<lparr>gin_key_value_index := hm_remove (key, val) (gin_key_value_index g)\<rparr> else g)"

definition gin_contains_key :: "string \<Rightarrow> gin_index \<Rightarrow> bool" where
  "gin_contains_key key g \<longleftrightarrow> hm_contains (gin_key_index g) key"

text \<open>\<open>map(|p| p.to_vec()).unwrap_or_default()\<close>\<close>

definition posting_rows :: "posting_list option \<Rightarrow> row_id list" where
  "posting_rows p = (case p of Some p \<Rightarrow> pl_to_vec p | None \<Rightarrow> [])"

definition get_by_key :: "string \<Rightarrow> gin_index \<Rightarrow> row_id list" where
  "get_by_key key g = posting_rows (hm_get (gin_key_index g) key)"

definition visit_by_key :: "string \<Rightarrow> (row_id \<Rightarrow> 'v \<Rightarrow> bool \<times> 'v) \<Rightarrow> gin_index \<Rightarrow> 'v \<Rightarrow> 'v" where
  "visit_by_key key visitor g v =
     (case hm_get (gin_key_index g) key of None \<Rightarrow> v | Some posting \<Rightarrow> visit_while visitor (pl_rows posting) v)"

definition get_by_key_value :: "string \<Rightarrow> string \<Rightarrow> gin_index \<Rightarrow> row_id list" where
  "get_by_key_value key val g = posting_rows (hm_get (gin_key_value_index g) (key, val))"

definition visit_by_key_value :: "string \<Rightarrow> string \<Rightarrow> (row_id \<Rightarrow> 'v \<Rightarrow> bool \<times> 'v) \<Rightarrow> gin_index \<Rightarrow> 'v \<Rightarrow> 'v" where
  "visit_by_key_value key val visitor g v =
     (case hm_get (gin_key_value_index g) (key, val) of None \<Rightarrow> v | Some posting \<Rightarrow> visit_while visitor (pl_rows posting) v)"

text \<open>The postings of all keys, or nothing if one is missing; the shortest posting comes first (which of two
  of the same length comes first is up to the sorting routine and does not matter).\<close>

fun all_postings :: "('k, posting_list) hash_map \<Rightarrow> 'k list \<Rightarrow> posting_list list option" where
  "all_postings m [] = Some []"
| "all_postings m (k # ks) =
     (case hm_get m k of None \<Rightarrow> None | Some p \<Rightarrow> map_option (Cons p) (all_postings m ks))"

fun intersect_postings :: "row_id list \<Rightarrow> posting_list list \<Rightarrow> row_id list" where
  "intersect_postings rows [] = rows"
| "intersect_postings rows (p # ps) =
     (let rows = pl_intersect_sorted_candidates p rows
      in if rows = [] then rows else intersect_postings rows ps)"

definition rows_of_all :: "('k, posting_list) hash_map \<Rightarrow> 'k list \<Rightarrow> row_id list" where
  "rows_of_all m ks =
     (if ks = [] then []
      else case all_postings m ks of
             None \<Rightarrow> []
           | Some postings \<Rightarrow>
               let postings = sort_key pl_len postings
               in intersect_postings (pl_to_vec (hd postings)) (tl postings))"

definition rows_of_any :: "('k, posting_list) hash_map \<Rightarrow> 'k list \<Rightarrow> row_id list" where
  "rows_of_any m ks =
     pl_to_vec (foldl (\<lambda>acc k. case hm_get m k of Some posting \<Rightarrow> pl_union acc posting | None \<Rightarrow> acc) pl_new ks)"

definition get_by_keys_all :: "string list \<Rightarrow> gin_index \<Rightarrow> row_id list" where
  "get_by_keys_all ks g = rows_of_all (gin_key_index g) ks"

definition get_by_keys_any :: "string list \<Rightarrow> gin_index \<Rightarrow> row_id list" where
  "get_by_keys_any ks g = rows_of_any (gin_key_index g) ks"

definition get_by_key_values_all :: "(string \<times> string) list \<Rightarrow> gin_index \<Rightarrow> row_id list" where
  "get_by_key_values_all pairs g = rows_of_all (gin_key_value_index g) pairs"

definition get_by_key_values_any :: "(string \<times> string) list \<Rightarrow> gin_index \<Rightarrow> row_id list" where
  "get_by_key_values_any pairs g = rows_of_any (gin_key_value_index g) pairs"

definition visit_by_key_values_all :: "(string \<times> string) list \<Rightarrow> (row_id \<Rightarrow> 'v \<Rightarrow> bool \<times> 'v) \<Rightarrow> gin_index \<Rightarrow> 'v \<Rightarrow> 'v" where
  "visit_by_key_values_all pairs visitor g = visit_while visitor (get_by_key_values_all pairs g)"

definition visit_by_key_values_any :: "(string \<times> string) list \<Rightarrow> (row_id \<Rightarrow> 'v \<Rightarrow> bool \<times> 'v) \<Rightarrow> gin_index \<Rightarrow> 'v \<Rightarrow> 'v" where
  "visit_by_key_values_any pairs visitor g = visit_while visitor (get_by_key_values_any pairs g)"

definition gin_key_count :: "gin_index \<Rightarrow> nat" where
  "gin_key_count g = length (gin_key_index g)"

definition gin_key_value_count :: "gin_index \<Rightarrow> nat" where
  "gin_key_value_count g = length (gin_key_value_index g)"

definition gin_index_clear :: "gin_index \<Rightarrow> gin_index" where
  "gin_index_clear g = g\<lparr>gin_key_index := [], gin_key_value_index := [], gin_stats := stats_clear (gin_stats g)\<rparr>"

definition gin_is_empty :: "gin_index \<Rightarrow> bool" where
  "gin_is_empty g \<longleftrightarrow> gin_key_index g = [] \<and> gin_key_value_index g = []"

definition cost_key :: "string \<Rightarrow> gin_index \<Rightarrow> nat" where
  "cost_key key g = (case hm_get (gin_key_index g) key of Some p \<Rightarrow> pl_len p | None \<Rightarrow> 0)"

definition cost_key_value :: "string \<Rightarrow> string \<Rightarrow> gin_index \<Rightarrow> nat" where
  "cost_key_value key val g = (case hm_get (gin_key_value_index g) (key, val) of Some p \<Rightarrow> pl_len p | None \<Rightarrow> 0)"

end
