(* ===== verification/Cynos_Gin_Refine.thy ===== *)
theory Cynos_Gin_Refine
  imports Cynos_Gin
begin

text \<open>
  The GIN index against its specification: the set of rows of every key and of every pair. The queries for
  all or any of several keys are intersections and unions, whatever order the postings are taken in, and the
  trigram prefilter of a substring search loses no row.
\<close>

section \<open>Postings as sets of rows\<close>

definition rows_at :: "('k, posting_list) hash_map \<Rightarrow> 'k \<Rightarrow> row_id set" where
  "rows_at m k = (case map_of m k of None \<Rightarrow> {} | Some p \<Rightarrow> pl_set p)"

definition postings_ok :: "('k, posting_list) hash_map \<Rightarrow> bool" where
  "postings_ok m \<longleftrightarrow> hm_ok m \<and> (\<forall>k p. map_of m k = Some p \<longrightarrow> pl_ok p \<and> pl_set p \<noteq> {})"

lemma postings_ok_Nil [simp]: "postings_ok []" "rows_at [] = (\<lambda>_. {})"
  by (simp_all add: postings_ok_def rows_at_def fun_eq_iff)

lemma pl_new_ok [simp]: "pl_ok pl_new" "pl_set pl_new = {}"
  by (simp_all add: pl_new_def pl_defs)

lemma rows_at_None: "postings_ok m \<Longrightarrow> map_of m k = None \<longleftrightarrow> rows_at m k = {}"
  by (auto simp: postings_ok_def rows_at_def split: option.split)

lemma posting_at: "postings_ok m \<Longrightarrow> map_of m k = Some p \<Longrightarrow> pl_ok p \<and> pl_set p = rows_at m k"
  by (simp add: postings_ok_def rows_at_def)

lemma postings_insert:
  assumes "postings_ok m" "pl_ok p" "pl_set p \<noteq> {}"
  shows "postings_ok (hm_insert k p m)" "rows_at (hm_insert k p m) = (rows_at m)(k := pl_set p)"
  using assms by (auto simp: postings_ok_def rows_at_def fun_eq_iff)

lemma postings_remove:
  assumes "postings_ok m"
  shows "postings_ok (hm_remove k m)" "rows_at (hm_remove k m) = (rows_at m)(k := {})"
  using assms by (auto simp: postings_ok_def rows_at_def fun_eq_iff)

lemma hm_remove_insert: "hm_remove k (hm_insert k v m) = hm_remove k m"
  by (induction m) auto

lemma entry_add_rows:
  assumes "postings_ok m"
  shows "postings_ok (entry_add k r m)" "rows_at (entry_add k r m) = (rows_at m)(k := insert r (rows_at m k))"
proof -
  let ?p = "case map_of m k of Some p \<Rightarrow> p | None \<Rightarrow> pl_new"
  have "pl_ok ?p" "pl_set ?p = rows_at m k"
    using assms by (auto simp: postings_ok_def rows_at_def split: option.split)
  then have p: "pl_ok (pl_add r ?p)" "pl_set (pl_add r ?p) = insert r (rows_at m k)" using pl_add_ok [of ?p r] by auto
  then show "postings_ok (entry_add k r m)" "rows_at (entry_add k r m) = (rows_at m)(k := insert r (rows_at m k))"
    using postings_insert [OF assms p(1)] unfolding entry_add_def by auto
qed

text \<open>What a removal leaves of the posting of one key.\<close>

lemma posting_removed:
  assumes "postings_ok m" "map_of m k = Some p" "pl_remove r p = (b, p')"
  shows "postings_ok (if pl_is_empty p' then hm_remove k (hm_insert k p' m) else hm_insert k p' m)"
    "rows_at (if pl_is_empty p' then hm_remove k (hm_insert k p' m) else hm_insert k p' m) = (rows_at m)(k := rows_at m k - {r})"
    "b \<longleftrightarrow> r \<in> rows_at m k"
proof -
  note p = posting_at [OF assms(1,2)]
  note rem = pl_remove_ok [OF conjunct1 [OF p] assms(3)]
  have empty: "pl_is_empty p' \<longleftrightarrow> rows_at m k - {r} = {}" using rem p by (metis pl_is_empty_def pl_set_def set_empty)
  have "postings_ok (if pl_is_empty p' then hm_remove k (hm_insert k p' m) else hm_insert k p' m)
    \<and> rows_at (if pl_is_empty p' then hm_remove k (hm_insert k p' m) else hm_insert k p' m) = (rows_at m)(k := rows_at m k - {r})"
  proof (cases "pl_is_empty p'")
    case True
    then have "rows_at m k - {r} = {}" using empty by simp
    then show ?thesis using True postings_remove [OF assms(1), of k] by (simp only: hm_remove_insert if_True simp_thms)
  next
    case False
    then have "pl_ok p'" "pl_set p' \<noteq> {}" "pl_set p' = rows_at m k - {r}" using rem p empty by auto
    then show ?thesis using False postings_insert [OF assms(1), of p' k] by simp
  qed
  then show "postings_ok (if pl_is_empty p' then hm_remove k (hm_insert k p' m) else hm_insert k p' m)"
    "rows_at (if pl_is_empty p' then hm_remove k (hm_insert k p' m) else hm_insert k p' m) = (rows_at m)(k := rows_at m k - {r})" by blast+
  show "b \<longleftrightarrow> r \<in> rows_at m k" using rem p by simp
qed

lemma posting_rows_at: "postings_ok m \<Longrightarrow> posting_rows (hm_get m k) = sorted_list_of_set (rows_at m k)"
  using posting_at [of m k] by (cases "map_of m k") (auto simp: posting_rows_def pl_to_vec_eq rows_at_def)

section \<open>Queries over several keys\<close>

lemma all_postings_at:
  assumes "postings_ok m"
  shows "all_postings m ks = (if \<exists>k \<in> set ks. rows_at m k = {} then None else Some (map (\<lambda>k. the (map_of m k)) ks))"
  unfolding rows_at_None [OF assms, symmetric] by (induction ks) (auto split: option.split)

lemma intersect_postings_set:
  assumes "sorted_wrt (<) rows" "\<forall>p \<in> set ps. pl_ok p"
  shows "sorted_wrt (<) (intersect_postings rows ps)" "set (intersect_postings rows ps) = set rows \<inter> (\<Inter>p \<in> set ps. pl_set p)"
proof -
  have "sorted_wrt (<) (intersect_postings rows ps) \<and> set (intersect_postings rows ps) = set rows \<inter> (\<Inter>p \<in> set ps. pl_set p)"
    using assms
  proof (induction ps arbitrary: rows)
    case (Cons p ps)
    let ?rows = "intersect_walk rows (pl_rows p)"
    have p: "sorted_wrt (<) (pl_rows p)" using Cons.prems(2) by (simp add: pl_ok_def)
    note walk = intersect_walk_sorted [OF Cons.prems(1), of "pl_rows p"] intersect_walk_set [OF Cons.prems(1) p]
    have ih: "sorted_wrt (<) (intersect_postings ?rows ps) \<and> set (intersect_postings ?rows ps) = set ?rows \<inter> (\<Inter>p \<in> set ps. pl_set p)"
      by (rule Cons.IH [OF walk(1)]) (use Cons.prems(2) in simp)
    have "set rows \<inter> (pl_set p \<inter> X) = set ?rows \<inter> X" for X using walk(2) by (auto simp: pl_set_def)
    then show ?case using ih by (simp add: pl_intersect_candidates_eq Let_def)
  qed simp
  then show "sorted_wrt (<) (intersect_postings rows ps)" "set (intersect_postings rows ps) = set rows \<inter> (\<Inter>p \<in> set ps. pl_set p)" by auto
qed

lemma strict_list_of_set: "sorted_wrt (<) (xs :: row_id list) \<Longrightarrow> xs = sorted_list_of_set (set xs)"
  by (simp add: strict_sorted_iff sorted_list_of_set.idem_if_sorted_distinct)

lemma rows_of_all_eq:
  assumes ok: "postings_ok m" and ks: "ks \<noteq> []"
  shows "rows_of_all m ks = sorted_list_of_set (\<Inter>k \<in> set ks. rows_at m k)"
proof (cases "\<exists>k \<in> set ks. rows_at m k = {}")
  case True
  then have "(\<Inter>k \<in> set ks. rows_at m k) = {}" by auto
  then show ?thesis using True ks by (simp add: rows_of_all_def all_postings_at [OF ok])
next
  case False
  define ps where "ps = sort_key pl_len (map (\<lambda>k. the (map_of m k)) ks)"
  have some: "map_of m k = Some (the (map_of m k))" if "k \<in> set ks" for k
    using False that rows_at_None [OF ok, of k] by auto
  have set_ps: "set ps = (\<lambda>k. the (map_of m k)) ` set ks" by (simp add: ps_def)
  have pl: "\<forall>p \<in> set ps. pl_ok p" using posting_at [OF ok some] by (auto simp: set_ps)
  have "ps \<noteq> []" using ks by (simp add: ps_def flip: length_greater_0_conv)
  then obtain p qs where p: "ps = p # qs" by (cases ps) auto
  have "sorted_wrt (<) (pl_to_vec p)" "set (pl_to_vec p) = pl_set p" using pl p by (simp_all add: pl_to_vec_def pl_defs)
  note int = intersect_postings_set [OF this(1), of qs, unfolded this(2)]
  have "pl_set p \<inter> (\<Inter>q \<in> set qs. pl_set q) = (\<Inter>q \<in> set ps. pl_set q)" by (simp add: p)
  also have "\<dots> = (\<Inter>k \<in> set ks. rows_at m k)" using posting_at [OF ok some] by (simp add: set_ps)
  finally have "set (intersect_postings (pl_to_vec p) qs) = (\<Inter>k \<in> set ks. rows_at m k)" using int(2) pl p by simp
  moreover have "rows_of_all m ks = intersect_postings (pl_to_vec p) qs"
    using ks False by (simp add: rows_of_all_def all_postings_at [OF ok] flip: ps_def) (simp add: p)
  ultimately show ?thesis using strict_list_of_set int(1) pl p by (metis list.set_intros(2))
qed

lemma rows_of_any_eq:
  assumes ok: "postings_ok m"
  shows "rows_of_any m ks = sorted_list_of_set (\<Union>k \<in> set ks. rows_at m k)"
proof -
  let ?f = "\<lambda>acc k. case hm_get m k of Some posting \<Rightarrow> pl_union acc posting | None \<Rightarrow> acc"
  have "pl_ok (foldl ?f acc ks) \<and> pl_set (foldl ?f acc ks) = pl_set acc \<union> (\<Union>k \<in> set ks. rows_at m k)" if "pl_ok acc" for acc
    using that
  proof (induction ks arbitrary: acc)
    case (Cons k ks)
    have "pl_ok (?f acc k) \<and> pl_set (?f acc k) = pl_set acc \<union> rows_at m k"
    proof (cases "map_of m k")
      case (Some p)
      then show ?thesis using posting_at [OF ok Some] Cons.prems union_walk_sorted union_walk_set
        by (simp add: pl_union_def pl_defs)
    qed (use Cons.prems in \<open>simp add: rows_at_def\<close>)
    then show ?case using Cons.IH [of "?f acc k"] by auto
  qed simp
  from this [of pl_new] show ?thesis unfolding rows_of_any_def by (simp add: pl_to_vec_eq)
qed

section \<open>Operations\<close>

definition gin_ok :: "gin_index \<Rightarrow> bool" where
  "gin_ok g \<longleftrightarrow> postings_ok (gin_key_index g) \<and> postings_ok (gin_key_value_index g)"

text \<open>What an index says: the rows of every key, and those of every pair.\<close>

type_synonym gin_spec = "(string \<Rightarrow> row_id set) \<times> (string \<times> string \<Rightarrow> row_id set)"

definition gin_abs :: "gin_index \<Rightarrow> gin_spec" where
  "gin_abs g = (rows_at (gin_key_index g), rows_at (gin_key_value_index g))"

datatype gin_op =
    GinAddKey string row_id
  | GinAddKeyValue string string row_id
  | GinAddTrigrams string string row_id
  | GinRemoveKey string row_id
  | GinRemoveKeyValue string string row_id
  | GinClear

fun gin_step :: "gin_op \<Rightarrow> gin_index \<Rightarrow> gin_index" where
  "gin_step (GinAddKey k r) g = gin_add_key k r g"
| "gin_step (GinAddKeyValue k v r) g = gin_add_key_value k v r g"
| "gin_step (GinAddTrigrams path needle r) g = snd (gin_add_contains_trigrams path needle r g)"
| "gin_step (GinRemoveKey k r) g = gin_remove_key k r g"
| "gin_step (GinRemoveKeyValue k v r) g = gin_remove_key_value k v r g"
| "gin_step GinClear g = gin_index_clear g"

text \<open>Three consecutive characters of a string.\<close>

fun windows3 :: "'a list \<Rightarrow> ('a \<times> 'a \<times> 'a) list" where
  "windows3 (a # b # c # xs) = (a, b, c) # windows3 (b # c # xs)"
| "windows3 _ = []"

definition code_of :: "uchar \<times> uchar \<times> uchar \<Rightarrow> u128" where
  "code_of w = (case w of (a, b, c) \<Rightarrow> trigram_code a b c)"

definition grams_of :: "string \<Rightarrow> string set" where
  "grams_of s = (\<lambda>w. trigram_string_from_code (code_of w)) ` set (windows3 (utf8_chars s))"

fun gin_spec_step :: "gin_op \<Rightarrow> gin_spec \<Rightarrow> gin_spec" where
  "gin_spec_step (GinAddKey k r) (K, V) = (K(k := insert r (K k)), V)"
| "gin_spec_step (GinAddKeyValue k v r) (K, V) = (K, V((k, v) := insert r (V (k, v))))"
| "gin_spec_step (GinAddTrigrams path needle r) (K, V) =
     (K, \<lambda>(k, v). if k = contains_trigram_key path \<and> v \<in> grams_of needle then insert r (V (k, v)) else V (k, v))"
| "gin_spec_step (GinRemoveKey k r) (K, V) = (K(k := K k - {r}), V)"
| "gin_spec_step (GinRemoveKeyValue k v r) (K, V) = (K, V((k, v) := V (k, v) - {r}))"
| "gin_spec_step GinClear _ = (\<lambda>_. {}, \<lambda>_. {})"

section \<open>Trigrams\<close>

definition seen_holds :: "u128 set \<Rightarrow> seen_codes \<Rightarrow> bool" where
  "seen_holds S s \<longleftrightarrow> (case spilled_seen s of
     Some seen \<Rightarrow> S = seen
   | None \<Rightarrow> length (inline_seen s) = inline_capacity \<and> inline_len s \<le> inline_capacity \<and> S = set (take (inline_len s) (inline_seen s)))"

lemma seen_holds_none: "seen_holds {} seen_none"
  by (simp add: seen_holds_def seen_none_def)

lemma try_mark_seen:
  assumes "seen_holds S s" "try_mark_trigram_seen code s = (fresh, s')"
  shows "fresh \<longleftrightarrow> code \<notin> S" "seen_holds (insert code S) s'"
proof -
  have "(fresh \<longleftrightarrow> code \<notin> S) \<and> seen_holds (insert code S) s'"
  proof (cases "spilled_seen s")
    case None
    have "set (take (Suc n) (xs[n := code])) = insert code (set (take n xs))" if "n < length xs" for n and xs :: "u128 list"
      using that by (simp add: take_Suc_conv_app_nth)
    then show ?thesis using assms None
      by (auto simp: seen_holds_def try_mark_trigram_seen_def insert_absorb split: if_splits)
  qed (use assms in \<open>auto simp: seen_holds_def try_mark_trigram_seen_def\<close>)
  then show "fresh \<longleftrightarrow> code \<notin> S" "seen_holds (insert code S) s'" by auto
qed

lemma code_of_triple [simp]: "code_of (a, b, c) = trigram_code a b c"
  by (simp add: code_of_def)

declare trigram_loop.simps [simp del]

lemma trigram_loop_codes:
  "seen_holds S s \<Longrightarrow> distinct (trigram_loop a b c cs s)
     \<and> set (trigram_loop a b c cs s) = code_of ` set (windows3 (a # b # c # cs)) - S"
proof (induction cs arbitrary: a b c s S)
  case Nil
  obtain fresh s' where mark: "try_mark_trigram_seen (trigram_code a b c) s = (fresh, s')" by fastforce
  then have "trigram_loop a b c [] s = (if fresh then [trigram_code a b c] else [])" by (simp add: trigram_loop.simps Let_def)
  then show ?case using try_mark_seen(1) [OF Nil mark] by auto
next
  case (Cons d cs)
  obtain fresh s' where mark: "try_mark_trigram_seen (trigram_code a b c) s = (fresh, s')" by fastforce
  then have "trigram_loop a b c (d # cs) s = (if fresh then trigram_code a b c # trigram_loop b c d cs s' else trigram_loop b c d cs s')"
    by (simp add: trigram_loop.simps [of a b c "d # cs"] Let_def)
  note loop = this and seen = try_mark_seen [OF Cons.prems mark]
  define W where "W = code_of ` set (windows3 (b # c # d # cs))"
  have ih: "distinct (trigram_loop b c d cs s')" "set (trigram_loop b c d cs s') = W - insert (trigram_code a b c) S"
    using Cons.IH [OF seen(2), of b c d] by (simp_all only: W_def)
  have sets: "code_of ` set (windows3 (a # b # c # d # cs)) = insert (trigram_code a b c) W" by (simp add: W_def)
  show ?case unfolding sets using seen(1) loop ih by (cases fresh) auto
qed

lemma unique_trigram_codes:
  "distinct (for_each_unique_trigram_code s) \<and> set (for_each_unique_trigram_code s) = code_of ` set (windows3 (utf8_chars s))"
proof (cases "\<exists>a b c cs. utf8_chars s = a # b # c # cs")
  case True
  then obtain a b c cs where s: "utf8_chars s = a # b # c # cs" by blast
  then have "for_each_unique_trigram_code s = trigram_loop a b c cs seen_none" by (simp add: for_each_unique_trigram_code_def)
  then show ?thesis using trigram_loop_codes [OF seen_holds_none, of a b c cs] by (simp only: s Diff_empty simp_thms)
next
  case False
  then have "windows3 (utf8_chars s) = []" by (cases "utf8_chars s" rule: windows3.cases) auto
  moreover have "for_each_unique_trigram_code s = []" using False unfolding for_each_unique_trigram_code_def by (auto split: list.split)
  ultimately show ?thesis by simp
qed

section \<open>Every operation follows the specification\<close>

lemma gin_add_key_value_abs:
  assumes "gin_ok g"
  shows "gin_ok (gin_add_key_value k v r g) \<and> gin_abs (gin_add_key_value k v r g) = gin_spec_step (GinAddKeyValue k v r) (gin_abs g)"
  using entry_add_rows [of "gin_key_value_index g" "(k, v)" r] assms
  by (simp add: gin_ok_def gin_abs_def gin_add_key_value_def)

lemma gin_add_codes_abs:
  assumes "gin_ok g"
  shows "gin_ok (foldl (\<lambda>g code. gin_add_key_value k (f code) r g) g codes)
    \<and> gin_abs (foldl (\<lambda>g code. gin_add_key_value k (f code) r g) g codes)
      = (fst (gin_abs g), \<lambda>(k', v). if k' = k \<and> v \<in> f ` set codes then insert r (snd (gin_abs g) (k', v)) else snd (gin_abs g) (k', v))"
  using assms
proof (induction codes arbitrary: g)
  case (Cons code codes)
  have step: "gin_ok (gin_add_key_value k (f code) r g)" "gin_abs (gin_add_key_value k (f code) r g) = gin_spec_step (GinAddKeyValue k (f code) r) (gin_abs g)"
    using gin_add_key_value_abs [OF Cons.prems] by auto
  show ?case using Cons.IH [OF step(1)] unfolding step(2) by (cases "gin_abs g") (auto simp: fun_eq_iff)
qed (simp add: fun_eq_iff)

lemma gin_step_abs:
  assumes ok: "gin_ok g"
  shows "gin_ok (gin_step op g) \<and> gin_abs (gin_step op g) = gin_spec_step op (gin_abs g)"
proof (cases op)
  case (GinAddKey k r)
  then show ?thesis using entry_add_rows [of "gin_key_index g" k r] ok by (simp add: gin_ok_def gin_abs_def gin_add_key_def)
next
  case (GinAddKeyValue k v r)
  then show ?thesis using gin_add_key_value_abs [OF ok] by simp
next
  case (GinAddTrigrams path needle r)
  have "trigram_string_from_code ` set (for_each_unique_trigram_code needle) = grams_of needle"
    using unique_trigram_codes [of needle] by (simp add: grams_of_def image_image)
  then show ?thesis
    using gin_add_codes_abs [OF ok, of "contains_trigram_key path" trigram_string_from_code r "for_each_unique_trigram_code needle"] GinAddTrigrams
    by (cases "gin_abs g") (auto simp: gin_add_contains_trigrams_def Let_def fun_eq_iff)
next
  case (GinRemoveKey k r)
  show ?thesis
  proof (cases "map_of (gin_key_index g) k")
    case None
    then have "rows_at (gin_key_index g) k = {}" by (simp add: rows_at_def)
    then have "(rows_at (gin_key_index g))(k := rows_at (gin_key_index g) k - {r}) = rows_at (gin_key_index g)" by (simp add: fun_upd_idem)
    then show ?thesis using None ok GinRemoveKey by (simp add: gin_remove_key_def gin_abs_def)
  next
    case (Some p)
    obtain b p' where rem: "pl_remove r p = (b, p')" by fastforce
    show ?thesis using posting_removed [OF _ Some rem] ok GinRemoveKey Some rem
      by (auto simp: gin_remove_key_def gin_abs_def gin_ok_def Let_def split: if_splits)
  qed
next
  case (GinRemoveKeyValue k v r)
  show ?thesis
  proof (cases "map_of (gin_key_value_index g) (k, v)")
    case None
    then have "rows_at (gin_key_value_index g) (k, v) = {}" by (simp add: rows_at_def)
    then have "(rows_at (gin_key_value_index g))((k, v) := rows_at (gin_key_value_index g) (k, v) - {r}) = rows_at (gin_key_value_index g)" by (simp add: fun_upd_idem)
    then show ?thesis using None ok GinRemoveKeyValue by (simp add: gin_remove_key_value_def gin_abs_def)
  next
    case (Some p)
    obtain b p' where rem: "pl_remove r p = (b, p')" by fastforce
    show ?thesis using posting_removed [OF _ Some rem] ok GinRemoveKeyValue Some rem
      by (auto simp: gin_remove_key_value_def gin_abs_def gin_ok_def Let_def split: if_splits)
  qed
next
  case GinClear
  then show ?thesis by (simp add: gin_index_clear_def gin_ok_def gin_abs_def)
qed

lemma gin_run_abs:
  "gin_ok g \<Longrightarrow> gin_ok (fold gin_step ops g) \<and> gin_abs (fold gin_step ops g) = fold gin_spec_step ops (gin_abs g)"
proof (induction ops arbitrary: g)
  case (Cons op ops)
  then show ?case using gin_step_abs [OF Cons.prems, of op] Cons.IH [of "gin_step op g"] by simp
qed simp

lemma gin_new_ok: "gin_ok gin_index_new" "gin_abs gin_index_new = (\<lambda>_. {}, \<lambda>_. {})"
  by (simp_all add: gin_index_new_def gin_ok_def gin_abs_def)

lemma postings_count:
  assumes "postings_ok m"
  shows "length m = card {k. rows_at m k \<noteq> {}}"
proof -
  have "{k. rows_at m k \<noteq> {}} = fst ` set m" using rows_at_None [OF assms] by (auto simp: map_of_eq_None_iff)
  then show ?thesis using assms distinct_card [of "map fst m"] by (simp add: postings_ok_def hm_ok_def)
qed

section \<open>The code of a trigram\<close>

definition scalar_value :: "uchar \<Rightarrow> bool" where
  "scalar_value c \<longleftrightarrow> char_from_u32 c = Some c"

lemma scalar_value_bound: "scalar_value c \<Longrightarrow> take_bit 21 c = c"
  by (auto simp: scalar_value_def char_from_u32_def take_bit_nat_eq_self_iff split: if_splits)

lemma trigram_field:
  fixes a b c :: nat
  assumes "take_bit 21 a = a" "take_bit 21 b = b" "take_bit 21 c = c"
  shows "unat (and (drop_bit 42 (trigram_code a b c)) 0x1FFFFF) = a" "unat (and (drop_bit 21 (trigram_code a b c)) 0x1FFFFF) = b"
    "unat (and (trigram_code a b c) 0x1FFFFF) = c"
proof -
  have mask: "(0x1FFFFF :: u128) = mask 21" by (simp add: mask_eq_exp_minus_1)
  have small: "bit x n \<Longrightarrow> n < 21" if "take_bit 21 x = x" for x n :: nat using that by (metis bit_take_bit_iff)
  have code: "bit (trigram_code a b c) n \<longleftrightarrow> n < 128 \<and> (42 \<le> n \<and> bit a (n - 42) \<or> 21 \<le> n \<and> bit b (n - 21) \<or> bit c n)" for n
    by (auto simp: trigram_code_def bit_simps)
  have field: "unat (and w (0x1FFFFF :: u128)) = take_bit 21 (unat w)" for w
    unfolding mask take_bit_eq_mask [symmetric] by (simp add: unsigned_take_bit_eq)
  show "unat (and (drop_bit 42 (trigram_code a b c)) 0x1FFFFF) = a"
    unfolding field by (rule bit_eqI) (use small [OF assms(1)] small [OF assms(2)] small [OF assms(3)] in \<open>force simp: bit_simps code\<close>)
  show "unat (and (drop_bit 21 (trigram_code a b c)) 0x1FFFFF) = b"
    unfolding field by (rule bit_eqI) (use small [OF assms(1)] small [OF assms(2)] small [OF assms(3)] in \<open>force simp: bit_simps code\<close>)
  show "unat (and (trigram_code a b c) 0x1FFFFF) = c"
    unfolding field by (rule bit_eqI) (use small [OF assms(1)] small [OF assms(2)] small [OF assms(3)] in \<open>force simp: bit_simps code\<close>)
qed

lemma trigram_chars_code:
  assumes "scalar_value a" "scalar_value b" "scalar_value c"
  shows "trigram_chars (trigram_code a b c) = Some (a, b, c)"
  using assms trigram_field [OF assms [THEN scalar_value_bound]] by (simp add: trigram_chars_def scalar_value_def)

lemma windows3_append: "set (windows3 xs) \<subseteq> set (windows3 (pre @ xs @ post))"
proof -
  have "set (windows3 xs) \<subseteq> set (windows3 (xs @ post))" by (induction xs rule: windows3.induct) auto
  moreover have "set (windows3 ys) \<subseteq> set (windows3 (pre @ ys))" for ys :: "'a list"
  proof (induction pre)
    case (Cons p pre)
    have "set (windows3 zs) \<subseteq> set (windows3 (p # zs))" for zs :: "'a list" by (cases zs rule: windows3.cases) auto
    then show ?case using Cons by (metis append_Cons subset_trans)
  qed simp
  ultimately show ?thesis by blast
qed

lemma windows3_set: "(a, b, c) \<in> set (windows3 xs) \<Longrightarrow> a \<in> set xs \<and> b \<in> set xs \<and> c \<in> set xs"
  by (induction xs rule: windows3.induct) auto

lemma windows3_nonempty: "3 \<le> length xs \<Longrightarrow> windows3 xs \<noteq> []"
  by (cases xs rule: windows3.cases) auto

lemma contains_trigrams_set:
  assumes "list_all scalar_value (utf8_chars s)"
  shows "set (contains_trigrams s) = grams_of s"
proof -
  have chars: "trigram_chars (code_of w) = Some w" if "w \<in> set (windows3 (utf8_chars s))" for w
  proof -
    obtain a b c where w: "w = (a, b, c)" by (metis prod_cases3)
    then have "scalar_value a" "scalar_value b" "scalar_value c" using windows3_set [of a b c "utf8_chars s"] that assms by (auto simp: list_all_iff)
    then show ?thesis using w trigram_chars_code by simp
  qed
  let ?f = "\<lambda>code. case trigram_chars code of None \<Rightarrow> None | Some (a, b, c) \<Rightarrow> Some (push_trigram_string a b c)"
  have gram: "?f (code_of w) = Some (trigram_string_from_code (code_of w))" if "w \<in> set (windows3 (utf8_chars s))" for w
    using chars [OF that] by (cases w) (simp add: trigram_string_from_code_def push_trigram_string_def)
  have "set (contains_trigrams s) = {g. \<exists>code \<in> set (for_each_unique_trigram_code s). ?f code = Some g}"
    by (auto simp: contains_trigrams_def for_each_unique_trigram_def List.map_filter_def image_iff) force
  also have "\<dots> = grams_of s" using unique_trigram_codes [of s] gram by (auto simp: grams_of_def)
  finally show ?thesis .
qed

section \<open>Properties\<close>

text \<open>
  C20. The GIN index is an inverted index. After any sequence of additions, removals and clears, a lookup gives the
  rows of the key or of the pair in ascending order, a query for all of several keys or pairs the rows that have all of
  them and a query for any the rows that have one of them, a key is there exactly when a row has it, the counts
  are the numbers of different keys and pairs, and the costs are the numbers of rows.
\<close>

theorem gin_index_refines_sets:
  fixes ops :: "gin_op list"
  defines "g \<equiv> fold gin_step ops gin_index_new"
  shows "\<exists>K V. fold gin_spec_step ops (\<lambda>_. {}, \<lambda>_. {}) = (K, V)
    \<and> (\<forall>k. get_by_key k g = sorted_list_of_set (K k) \<and> (gin_contains_key k g \<longleftrightarrow> K k \<noteq> {}) \<and> cost_key k g = card (K k))
    \<and> (\<forall>k v. get_by_key_value k v g = sorted_list_of_set (V (k, v)) \<and> cost_key_value k v g = card (V (k, v)))
    \<and> (\<forall>ks. ks \<noteq> [] \<longrightarrow> get_by_keys_all ks g = sorted_list_of_set (\<Inter>k \<in> set ks. K k))
    \<and> (\<forall>ks. get_by_keys_any ks g = sorted_list_of_set (\<Union>k \<in> set ks. K k))
    \<and> (\<forall>ps. ps \<noteq> [] \<longrightarrow> get_by_key_values_all ps g = sorted_list_of_set (\<Inter>p \<in> set ps. V p))
    \<and> (\<forall>ps. get_by_key_values_any ps g = sorted_list_of_set (\<Union>p \<in> set ps. V p))
    \<and> gin_key_count g = card {k. K k \<noteq> {}} \<and> gin_key_value_count g = card {p. V p \<noteq> {}}"
proof -
  have g: "gin_ok g" "gin_abs g = fold gin_spec_step ops (\<lambda>_. {}, \<lambda>_. {})"
    using gin_run_abs [OF gin_new_ok(1), of ops] gin_new_ok(2) by (simp_all add: g_def)
  then have ok: "postings_ok (gin_key_index g)" "postings_ok (gin_key_value_index g)" by (simp_all add: gin_ok_def)
  have len: "(case map_of m k of Some p \<Rightarrow> pl_len p | None \<Rightarrow> 0) = card (rows_at m k)" if "postings_ok m" for m :: "('k, posting_list) hash_map" and k
    using posting_at [OF that, of k]
    by (auto simp: rows_at_def pl_len_def pl_set_def pl_ok_def strict_sorted_iff distinct_card split: option.split)
  show ?thesis unfolding g(2) [symmetric] gin_abs_def
    by (rule exI, rule exI, intro conjI allI impI)
      (simp_all add: rows_at_None [OF ok(1)] get_by_key_def posting_rows_at [OF ok(1)] gin_contains_key_def hm_contains_def cost_key_def len [OF ok(1)]
        get_by_key_value_def posting_rows_at [OF ok(2)] cost_key_value_def len [OF ok(2)] get_by_keys_all_def rows_of_all_eq [OF ok(1)]
        get_by_keys_any_def rows_of_any_eq [OF ok(1)] get_by_key_values_all_def rows_of_all_eq [OF ok(2)]
        get_by_key_values_any_def rows_of_any_eq [OF ok(2)] gin_key_count_def postings_count [OF ok(1)]
        gin_key_value_count_def postings_count [OF ok(2)])
qed

text \<open>The index has been asked about three rows; row 2 has lost the key \<open>b\<close>.\<close>

theorem gin_index_refines_sets_witness:
  "get_by_keys_all [''a'', ''b''] (fold gin_step [GinAddKey ''b'' 3, GinAddKey ''a'' 3, GinAddKey ''a'' 2, GinAddKey ''b'' 2,
      GinRemoveKey ''b'' 2, GinAddKey ''a'' 1, GinAddKey ''b'' 1] gin_index_new) = [1, 3]"
proof -
  let ?ops = "[GinAddKey ''b'' 3, GinAddKey ''a'' 3, GinAddKey ''a'' 2, GinAddKey ''b'' 2, GinRemoveKey ''b'' 2, GinAddKey ''a'' 1, GinAddKey ''b'' 1]"
  obtain K V where KV: "fold gin_spec_step ?ops (\<lambda>_. {}, \<lambda>_. {}) = (K, V)"
    "\<forall>ks. ks \<noteq> [] \<longrightarrow> get_by_keys_all ks (fold gin_step ?ops gin_index_new) = sorted_list_of_set (\<Inter>k \<in> set ks. K k)"
    using gin_index_refines_sets [of ?ops] by blast
  then have "(\<Inter>k \<in> set [''a'', ''b'']. K k) = {1, 3}" by auto
  then show ?thesis using KV(2) by (simp only: list.distinct simp_thms) simp
qed

text \<open>What does not take a row away again.\<close>

fun keeps_row :: "row_id \<Rightarrow> gin_op \<Rightarrow> bool" where
  "keeps_row r (GinRemoveKeyValue _ _ r') \<longleftrightarrow> r' \<noteq> r"
| "keeps_row r GinClear \<longleftrightarrow> False"
| "keeps_row r _ \<longleftrightarrow> True"

lemma gin_spec_keeps: "list_all (keeps_row r) ops \<Longrightarrow> r \<in> snd spec p \<Longrightarrow> r \<in> snd (fold gin_spec_step ops spec) p"
proof (induction ops arbitrary: spec)
  case (Cons op ops)
  have "r \<in> snd (gin_spec_step op spec) p" using Cons.prems by (cases op; cases spec; cases p) auto
  then show ?case using Cons by simp
qed simp

text \<open>
  C21. The trigram prefilter of a substring search loses no row: if the needle, of at least three characters, occurs
  in a string that was entered for a row, then the row is among the rows that have all the trigrams of the needle,
  whatever was entered before and whatever has been entered or removed for other rows since.
\<close>

theorem contains_prefilter_complete:
  assumes "utf8_chars text_value = pre @ utf8_chars needle @ post" "3 \<le> length (utf8_chars needle)" "list_all scalar_value (utf8_chars needle)"
    and "list_all (keeps_row r) later"
  shows "r \<in> set (get_by_key_values_all (contains_trigram_pairs path needle)
    (fold gin_step (ops @ GinAddTrigrams path text_value r # later) gin_index_new))"
proof -
  let ?ops = "ops @ GinAddTrigrams path text_value r # later"
  let ?g = "fold gin_step ?ops gin_index_new"
  have g: "gin_ok ?g" "gin_abs ?g = fold gin_spec_step ?ops (\<lambda>_. {}, \<lambda>_. {})"
    using gin_run_abs [OF gin_new_ok(1), of ?ops] gin_new_ok(2) by simp_all
  have grams: "grams_of needle \<subseteq> grams_of text_value"
    using windows3_append [of "utf8_chars needle" pre post] assms(1) unfolding grams_of_def by (intro image_mono) simp
  have rows: "r \<in> rows_at (gin_key_value_index ?g) (contains_trigram_key path, gram)" if "gram \<in> grams_of needle" for gram
  proof -
    obtain K V where KV: "fold gin_spec_step ops (\<lambda>_. {}, \<lambda>_. {}) = (K, V)" by fastforce
    have "r \<in> snd (gin_spec_step (GinAddTrigrams path text_value r) (K, V)) (contains_trigram_key path, gram)" using grams that by auto
    from gin_spec_keeps [OF assms(4) this] have "r \<in> snd (gin_abs ?g) (contains_trigram_key path, gram)"
      unfolding g(2) by (simp add: KV del: gin_spec_step.simps)
    then show ?thesis by (simp add: gin_abs_def)
  qed
  have pairs: "set (contains_trigram_pairs path needle) = (\<lambda>gram. (contains_trigram_key path, gram)) ` grams_of needle"
    using contains_trigrams_set [OF assms(3)] by (simp add: contains_trigram_pairs_def)
  have "grams_of needle \<noteq> {}" using windows3_nonempty [OF assms(2)] by (simp add: grams_of_def)
  then have ne: "contains_trigram_pairs path needle \<noteq> []" using pairs by force
  have ok: "postings_ok (gin_key_value_index ?g)" using g(1) by (simp add: gin_ok_def)
  have "finite (rows_at (gin_key_value_index ?g) p)" for p by simp
  then have "set (rows_of_all (gin_key_value_index ?g) (contains_trigram_pairs path needle))
      = (\<Inter>p \<in> set (contains_trigram_pairs path needle). rows_at (gin_key_value_index ?g) p)"
    unfolding rows_of_all_eq [OF ok ne] by simp
  then show ?thesis using rows pairs by (auto simp: get_by_key_values_all_def)
qed

theorem contains_prefilter_complete_witness:
  "7 \<in> set (get_by_key_values_all (contains_trigram_pairs ''$.a'' ''name'')
    (fold gin_step ([] @ GinAddTrigrams ''$.a'' ''rename it'' 7 # [GinAddTrigrams ''$.a'' ''other'' 8, GinRemoveKeyValue ''k'' ''v'' 8]) gin_index_new))"
proof (rule contains_prefilter_complete)
  show "utf8_chars ''rename it'' = utf8_chars ''re'' @ utf8_chars ''name'' @ utf8_chars '' it''" by simp
  show "3 \<le> length (utf8_chars ''name'')" by simp
  show "list_all scalar_value (utf8_chars ''name'')" by (simp add: scalar_value_def char_from_u32_def)
  show "list_all (keeps_row 7) [GinAddTrigrams ''$.a'' ''other'' 8, GinRemoveKeyValue ''k'' ''v'' 8]" by simp
qed

end
