(* ===== verification/Cynos_Gin_Bulk.thy ===== *)
theory Cynos_Gin_Bulk
  imports Cynos_Gin_Refine
begin

text \<open>
  Bulk building of a GIN index (\<open>crates/index/src/gin/mod.rs\<close>): a builder collects the row ids of keys, pairs
  and strings to be searched, sorts them at the end, expands the strings into trigrams through a cache, and merges
  the result into the index. It does what adding everything one at a time does.
\<close>

section \<open>Merging row ids in place\<close>

text \<open>The loop writes from the back of the vector, which has been extended to the length of both.\<close>

function merge_back ::
  "row_id list \<Rightarrow> nat \<Rightarrow> nat \<Rightarrow> nat \<Rightarrow> row_id option \<Rightarrow> row_id list \<Rightarrow> row_id list \<times> nat" where
  "merge_back incoming left right pos last_written rows =
     (if left = 0 \<and> right = 0 then (rows, pos)
      else
        let (next_row, left, right) =
          (if right = 0 \<or> left > 0 \<and> rows ! (left - 1) > incoming ! (right - 1) then (rows ! (left - 1), left - 1, right)
           else if left = 0 \<or> incoming ! (right - 1) > rows ! (left - 1) then (incoming ! (right - 1), left, right - 1)
           else (rows ! (left - 1), left - 1, right - 1))
        in if last_written \<noteq> Some next_row
           then merge_back incoming left right (pos - 1) (Some next_row) (rows[pos - 1 := next_row])
           else merge_back incoming left right pos last_written rows)"
  by pat_completeness auto
termination
  by (relation "measure (\<lambda>(_, left, right, _). left + right)") (auto split: if_splits)

definition extend_sorted_unique_rows :: "row_id list \<Rightarrow> row_id list \<Rightarrow> row_id list" where
  "extend_sorted_unique_rows rows incoming =
     (if incoming = [] then rows
      else if rows = [] then rows @ incoming
      else if last rows < hd incoming then rows @ incoming
      else
        let original_len = length rows;
            total_len = original_len + length incoming;
            rows = rows @ replicate (length incoming) 0;
            (rows, pos) = merge_back incoming original_len (length incoming) total_len None rows;
            unique_len = total_len - pos;
            rows = (if pos > 0 \<and> unique_len > 0 then take unique_len (drop pos rows) @ drop unique_len rows else rows)
        in take unique_len rows)"

declare merge_back.simps [simp del]

text \<open>What is written is above what is still to be read, in place and in value.\<close>

definition merge_inv :: "row_id list \<Rightarrow> row_id list \<Rightarrow> nat \<Rightarrow> nat \<Rightarrow> nat \<Rightarrow> row_id option \<Rightarrow> row_id list \<Rightarrow> bool" where
  "merge_inv A inc left right pos last_written R \<longleftrightarrow> take left R = take left A \<and> left \<le> length A \<and> right \<le> length inc
     \<and> left + right \<le> pos \<and> pos \<le> length R \<and> sorted_wrt (<) A \<and> sorted_wrt (<) inc \<and> sorted_wrt (<) (drop pos R)
     \<and> (\<forall>x \<in> set (take left A) \<union> set (take right inc). \<forall>d \<in> set (drop pos R). x < d)
     \<and> last_written = (if drop pos R = [] then None else Some (hd (drop pos R)))"

lemma take_last: "0 < n \<Longrightarrow> n \<le> length xs \<Longrightarrow> take n xs = take (n - 1) xs @ [xs ! (n - 1)]"
  by (metis Suc_diff_1 Suc_le_lessD take_Suc_conv_app_nth)

lemma strict_take_last:
  assumes "sorted_wrt (<) xs" "0 < n" "n \<le> length xs" "y \<in> set (take (n - 1) xs)"
  shows "y < xs ! (n - 1)"
  using assms(1) sorted_wrt_take [of "(<)" xs n] take_last [OF assms(2,3)] assms(4) by (auto simp: sorted_wrt_append)

lemma merge_write:
  assumes inv: "merge_inv A inc left right pos last_written R" and x: "x \<in> set (take left A) \<union> set (take right inc)"
    and smaller: "left' \<le> left" "right' \<le> right" "left' + right' < left + right"
    and below: "\<forall>y \<in> set (take left' A) \<union> set (take right' inc). y < x"
  shows "last_written \<noteq> Some x" "merge_inv A inc left' right' (pos - 1) (Some x) (R[pos - 1 := x])"
    "set (drop (pos - 1) (R[pos - 1 := x])) = insert x (set (drop pos R))"
proof -
  have pos: "0 < pos" "pos \<le> length R" "left' \<le> pos - 1" "left' + right' \<le> pos - 1" using inv smaller by (auto simp: merge_inv_def)
  have drop: "drop (pos - 1) (R[pos - 1 := x]) = x # drop pos R"
    using pos Cons_nth_drop_Suc [of "pos - 1" "R[pos - 1 := x]"] by (simp add: Suc_diff_1)
  have above: "\<forall>d \<in> set (drop pos R). x < d" using inv x by (auto simp: merge_inv_def)
  show "last_written \<noteq> Some x" using inv above by (auto simp: merge_inv_def split: if_splits)
  show "set (drop (pos - 1) (R[pos - 1 := x])) = insert x (set (drop pos R))" unfolding drop by simp
  have same: "take left R = take left A" using inv by (simp add: merge_inv_def)
  have "take left' R = take left' A" using smaller(1) same by (metis min.absorb1 take_take)
  then have "take left' (R[pos - 1 := x]) = take left' A" using pos(3) by simp
  moreover have "sorted_wrt (<) (x # drop pos R)" using inv above by (simp add: merge_inv_def)
  moreover have "y < d" if "y \<in> set (take left' A) \<union> set (take right' inc)" "d \<in> set (x # drop pos R)" for y d
    using that below above by (metis less_trans set_ConsD)
  ultimately show "merge_inv A inc left' right' (pos - 1) (Some x) (R[pos - 1 := x])"
    using inv pos smaller(1,2) unfolding merge_inv_def drop by simp
qed

lemma merge_last_read:
  assumes "merge_inv A inc left right pos last_written R"
  shows "0 < left \<Longrightarrow> take left A = take (left - 1) A @ [R ! (left - 1)] \<and> (\<forall>y \<in> set (take (left - 1) A). y < R ! (left - 1))"
    and "0 < right \<Longrightarrow> take right inc = take (right - 1) inc @ [inc ! (right - 1)] \<and> (\<forall>y \<in> set (take (right - 1) inc). y < inc ! (right - 1))"
proof -
  assume left: "0 < left"
  have A: "left \<le> length A" "take left R = take left A" "sorted_wrt (<) A" using assms by (auto simp: merge_inv_def)
  have "A ! (left - 1) = R ! (left - 1)" using left A(2) by (metis Suc_diff_1 lessI nth_take)
  then show "take left A = take (left - 1) A @ [R ! (left - 1)] \<and> (\<forall>y \<in> set (take (left - 1) A). y < R ! (left - 1))"
    using take_last [OF left A(1)] strict_take_last [OF A(3) left A(1)] by auto
next
  assume "0 < right"
  then show "take right inc = take (right - 1) inc @ [inc ! (right - 1)] \<and> (\<forall>y \<in> set (take (right - 1) inc). y < inc ! (right - 1))"
    using assms take_last [of right inc] strict_take_last [of inc right] by (auto simp: merge_inv_def)
qed

lemma merge_back_union:
  "merge_inv A inc left right pos last_written R \<Longrightarrow> merge_back inc left right pos last_written R = (R', w)
    \<Longrightarrow> length R' = length R \<and> w \<le> length R \<and> sorted_wrt (<) (drop w R')
      \<and> set (drop w R') = set (drop pos R) \<union> set (take left A) \<union> set (take right inc)"
proof (induction "left + right" arbitrary: left right pos last_written R rule: less_induct)
  case less
  note inv = less.prems(1)
  show ?case
  proof (cases "left = 0 \<and> right = 0")
    case True
    then show ?thesis using less.prems by (simp add: merge_back.simps merge_inv_def)
  next
    case False
    define a b where "a = R ! (left - 1)" and "b = inc ! (right - 1)"
    note A = merge_last_read(1) [OF inv, folded a_def] and B = merge_last_read(2) [OF inv, folded b_def]
    have step: ?thesis
      if run: "merge_back inc left right pos last_written R
          = (if last_written \<noteq> Some x then merge_back inc left' right' (pos - 1) (Some x) (R[pos - 1 := x])
             else merge_back inc left' right' pos last_written R)"
        and sets: "set (take left A) \<union> set (take right inc) = insert x (set (take left' A) \<union> set (take right' inc))"
        and smaller: "left' \<le> left" "right' \<le> right" "left' + right' < left + right"
        and below: "\<forall>y \<in> set (take left' A) \<union> set (take right' inc). y < x" for x left' right'
    proof -
      have x: "x \<in> set (take left A) \<union> set (take right inc)" using sets by blast
      note wr = merge_write [OF inv x smaller below]
      have "merge_back inc left' right' (pos - 1) (Some x) (R[pos - 1 := x]) = (R', w)" using run less.prems(2) wr(1) by simp
      from less.hyps [OF smaller(3) wr(2) this] show ?thesis unfolding wr(3) Un_assoc sets by auto
    qed
    consider (left) "right = 0 \<or> 0 < left \<and> a > b" | (right) "\<not> (right = 0 \<or> 0 < left \<and> a > b)" "left = 0 \<or> b > a"
      | (both) "\<not> (right = 0 \<or> 0 < left \<and> a > b)" "\<not> (left = 0 \<or> b > a)" by blast
    then show ?thesis
    proof cases
      case left
      then have pos: "0 < left" using False by auto
      have cond: "(left = 0 \<and> right = 0) = False" "(right = 0 \<or> 0 < left \<and> inc ! (right - 1) < R ! (left - 1)) = True" using left pos by (simp_all add: a_def b_def)
      show ?thesis
      proof (rule step [of a "left - 1" right])
        show "merge_back inc left right pos last_written R
          = (if last_written \<noteq> Some a then merge_back inc (left - 1) right (pos - 1) (Some a) (R[pos - 1 := a])
             else merge_back inc (left - 1) right pos last_written R)"
          unfolding a_def by (subst merge_back.simps) (simp only: cond if_True if_False Let_def prod.case)
        show "set (take left A) \<union> set (take right inc) = insert a (set (take (left - 1) A) \<union> set (take right inc))"
          using A [OF pos] by simp
        show "\<forall>y \<in> set (take (left - 1) A) \<union> set (take right inc). y < a"
        proof (cases "right = 0")
          case False
          then have "b < a" using left by simp
          moreover have "\<forall>y \<in> set (take right inc). y \<le> b" using B False by auto
          ultimately show ?thesis using A [OF pos] by (auto dest: le_less_trans)
        qed (use A [OF pos] in auto)
      qed (use pos in auto)
    next
      case right
      then have pos: "0 < right" by auto
      have cond: "(left = 0 \<and> right = 0) = False" "(right = 0 \<or> 0 < left \<and> inc ! (right - 1) < R ! (left - 1)) = False"
        "(left = 0 \<or> R ! (left - 1) < inc ! (right - 1)) = True" using right pos by (simp_all add: a_def b_def)
      show ?thesis
      proof (rule step [of b left "right - 1"])
        show "merge_back inc left right pos last_written R
          = (if last_written \<noteq> Some b then merge_back inc left (right - 1) (pos - 1) (Some b) (R[pos - 1 := b])
             else merge_back inc left (right - 1) pos last_written R)"
          unfolding b_def by (subst merge_back.simps) (simp only: cond if_True if_False Let_def prod.case)
        show "set (take left A) \<union> set (take right inc) = insert b (set (take left A) \<union> set (take (right - 1) inc))"
          using B [OF pos] by simp
        show "\<forall>y \<in> set (take left A) \<union> set (take (right - 1) inc). y < b"
        proof (cases "left = 0")
          case False
          then have "a < b" using right by simp
          moreover have "\<forall>y \<in> set (take left A). y \<le> a" using A False by auto
          ultimately show ?thesis using B [OF pos] by (auto dest: le_less_trans)
        qed (use B [OF pos] in auto)
      qed (use pos in auto)
    next
      case both
      then have pos: "0 < left" "0 < right" "a = b" by auto
      have cond: "(left = 0 \<and> right = 0) = False" "(right = 0 \<or> 0 < left \<and> inc ! (right - 1) < R ! (left - 1)) = False"
        "(left = 0 \<or> R ! (left - 1) < inc ! (right - 1)) = False" using both pos by (simp_all add: a_def b_def)
      show ?thesis
      proof (rule step [of a "left - 1" "right - 1"])
        show "merge_back inc left right pos last_written R
          = (if last_written \<noteq> Some a then merge_back inc (left - 1) (right - 1) (pos - 1) (Some a) (R[pos - 1 := a])
             else merge_back inc (left - 1) (right - 1) pos last_written R)"
          unfolding a_def by (subst merge_back.simps) (simp only: cond if_True if_False Let_def prod.case)
        show "set (take left A) \<union> set (take right inc) = insert a (set (take (left - 1) A) \<union> set (take (right - 1) inc))"
          using A [OF pos(1)] B [OF pos(2)] pos(3) by simp
        show "\<forall>y \<in> set (take (left - 1) A) \<union> set (take (right - 1) inc). y < a"
          using A [OF pos(1)] B [OF pos(2)] pos(3) by auto
      qed (use pos in auto)
    qed
  qed
qed

lemma extend_sorted_unique:
  assumes "sorted_wrt (<) rows" "sorted_wrt (<) inc"
  shows "sorted_wrt (<) (extend_sorted_unique_rows rows inc) \<and> set (extend_sorted_unique_rows rows inc) = set rows \<union> set inc"
proof (cases "inc = [] \<or> rows = [] \<or> last rows < hd inc")
  case True
  then show ?thesis using assms last_less_hd_sorted [of rows inc] by (auto simp: extend_sorted_unique_rows_def)
next
  case False
  let ?R = "rows @ replicate (length inc) 0"
  obtain R w where run: "merge_back inc (length rows) (length inc) (length rows + length inc) None ?R = (R, w)" by fastforce
  have "merge_inv rows inc (length rows) (length inc) (length rows + length inc) None ?R"
    using assms by (simp add: merge_inv_def)
  from merge_back_union [OF this run]
  have R: "length R = length rows + length inc" "w \<le> length R" "sorted_wrt (<) (drop w R)" "set (drop w R) = set rows \<union> set inc" by auto
  have "extend_sorted_unique_rows rows inc = drop w R"
    using False R(1,2) by (simp add: extend_sorted_unique_rows_def run Let_def)
  then show ?thesis using R by simp
qed

section \<open>The bulk builder\<close>

record bulk_rows =
  br_rows :: "row_id list"
  br_sorted_unique :: bool

definition bulk_rows_default :: bulk_rows where
  "bulk_rows_default = \<lparr>br_rows = [], br_sorted_unique = False\<rparr>"

definition br_push :: "row_id \<Rightarrow> bulk_rows \<Rightarrow> bulk_rows" where
  "br_push row_id b =
     (if br_rows b = [] then b\<lparr>br_rows := br_rows b @ [row_id], br_sorted_unique := True\<rparr>
      else if row_id > last (br_rows b) then b\<lparr>br_rows := br_rows b @ [row_id]\<rparr>
      else if row_id = last (br_rows b) then b
      else b\<lparr>br_rows := br_rows b @ [row_id], br_sorted_unique := False\<rparr>)"

definition into_sorted_unique :: "bulk_rows \<Rightarrow> row_id list" where
  "into_sorted_unique b = (if \<not> br_sorted_unique b then remdups_adj (sort (br_rows b)) else br_rows b)"

type_synonym bulk_map = "(string, bulk_rows) hash_map"

record bulk_builder =
  bb_key_index :: bulk_map
  bb_key_value_index :: "(string, bulk_map) hash_map"
  bb_contains_value_index :: "(string, bulk_map) hash_map"
  bb_trigram_cache :: "(string, u128 list) hash_map"
  bb_key_add_count :: u64

definition trigram_cache_capacity :: nat where
  "trigram_cache_capacity = 256"

definition bb_new :: bulk_builder where
  "bb_new = \<lparr>bb_key_index = [], bb_key_value_index = [], bb_contains_value_index = [], bb_trigram_cache = [],
     bb_key_add_count = 0\<rparr>"

text \<open>\<open>entry(k).or_default()\<close>, updated through the reference it gives.\<close>

definition entry_default :: "'v \<Rightarrow> 'k \<Rightarrow> ('v \<Rightarrow> 'v) \<Rightarrow> ('k, 'v) hash_map \<Rightarrow> ('k, 'v) hash_map" where
  "entry_default d k f m = hm_insert k (f (case hm_get m k of Some v \<Rightarrow> v | None \<Rightarrow> d)) m"

definition bb_add_key :: "string \<Rightarrow> row_id \<Rightarrow> bulk_builder \<Rightarrow> bulk_builder" where
  "bb_add_key key row_id b = b\<lparr>bb_key_add_count := bb_key_add_count b + 1,
     bb_key_index := entry_default bulk_rows_default key (br_push row_id) (bb_key_index b)\<rparr>"

definition bb_add_key_value :: "string \<Rightarrow> string \<Rightarrow> row_id \<Rightarrow> bulk_builder \<Rightarrow> bulk_builder" where
  "bb_add_key_value key val row_id b = b\<lparr>bb_key_value_index :=
     entry_default [] key (entry_default bulk_rows_default val (br_push row_id)) (bb_key_value_index b)\<rparr>"

definition bb_add_key_values :: "(string \<times> string) list \<Rightarrow> row_id \<Rightarrow> bulk_builder \<Rightarrow> bulk_builder" where
  "bb_add_key_values pairs row_id b = foldl (\<lambda>b (key, val). bb_add_key_value key val row_id b) b pairs"

definition bb_add_contains_value :: "string \<Rightarrow> string \<Rightarrow> row_id \<Rightarrow> bulk_builder \<Rightarrow> bulk_builder" where
  "bb_add_contains_value contains_key val row_id b = b\<lparr>bb_contains_value_index :=
     entry_default [] contains_key (entry_default bulk_rows_default val (br_push row_id)) (bb_contains_value_index b)\<rparr>"

definition trigram_code_count_for_value :: "string \<Rightarrow> bulk_builder \<Rightarrow> nat \<times> bulk_builder" where
  "trigram_code_count_for_value needle b =
     (case hm_get (bb_trigram_cache b) needle of
        Some cached \<Rightarrow> (length cached, b)
      | None \<Rightarrow>
          let codes = for_each_unique_trigram_code needle
          in (length codes,
              if length (bb_trigram_cache b) < trigram_cache_capacity
              then b\<lparr>bb_trigram_cache := hm_insert needle codes (bb_trigram_cache b)\<rparr> else b))"

definition bb_add_contains_trigrams_for_key :: "string \<Rightarrow> string \<Rightarrow> row_id \<Rightarrow> bulk_builder \<Rightarrow> nat \<times> bulk_builder" where
  "bb_add_contains_trigrams_for_key contains_key needle row_id b =
     trigram_code_count_for_value needle (bb_add_contains_value contains_key needle row_id b)"

definition bb_add_contains_trigrams :: "string \<Rightarrow> string \<Rightarrow> row_id \<Rightarrow> bulk_builder \<Rightarrow> nat \<times> bulk_builder" where
  "bb_add_contains_trigrams path needle row_id b =
     bb_add_contains_trigrams_for_key (contains_trigram_key path) needle row_id b"

text \<open>The end of the building: every loop over a hash map goes through its list, in whatever order it is.\<close>

record bulk_delta =
  bd_key_index :: "(string, posting_list) hash_map"
  bd_key_value_index :: "(string \<times> string, posting_list) hash_map"
  bd_key_add_count :: u64

type_synonym row_map = "(string, row_id list) hash_map"

definition add_grams :: "u128 list \<Rightarrow> row_id list \<Rightarrow> row_map \<Rightarrow> row_map" where
  "add_grams codes rows kvs =
     foldl (\<lambda>kvs code. entry_default [] (trigram_string_from_code code) (\<lambda>e. extend_sorted_unique_rows e rows) kvs) kvs codes"

definition finish_value :: "string \<times> bulk_rows \<Rightarrow> row_map \<times> (string, u128 list) hash_map
    \<Rightarrow> row_map \<times> (string, u128 list) hash_map" where
  "finish_value = (\<lambda>(val, rows) (kvs, cache).
     let rows = into_sorted_unique rows
     in case hm_get cache val of
          Some cached \<Rightarrow> (add_grams cached rows kvs, cache)
        | None \<Rightarrow>
            let codes = for_each_unique_trigram_code val
            in (add_grams codes rows kvs,
                if length cache < trigram_cache_capacity then hm_insert val codes cache else cache))"

definition finish_contains :: "string \<times> bulk_map \<Rightarrow> (string, row_map) hash_map \<times> (string, u128 list) hash_map
    \<Rightarrow> (string, row_map) hash_map \<times> (string, u128 list) hash_map" where
  "finish_contains = (\<lambda>(contains_key, vals) (kvi, cache).
     let kvs = (case hm_get kvi contains_key of Some m \<Rightarrow> m | None \<Rightarrow> []);
         (kvs, cache) = fold finish_value vals (kvs, cache)
     in (hm_insert contains_key kvs kvi, cache))"

definition sorted_map :: "bulk_map \<Rightarrow> row_map" where
  "sorted_map m = map (\<lambda>(val, rows). (val, into_sorted_unique rows)) m"

definition bb_finish :: "bulk_builder \<Rightarrow> bulk_delta" where
  "bb_finish b =
     (let kvi = map (\<lambda>(key, vals). (key, sorted_map vals)) (bb_key_value_index b);
          (kvi, _) = fold finish_contains (bb_contains_value_index b) (kvi, bb_trigram_cache b)
      in \<lparr>bd_key_index = map (\<lambda>(key, rows). (key, pl_from_sorted_unique_unchecked (into_sorted_unique rows))) (bb_key_index b),
          bd_key_value_index = concat (map (\<lambda>(key, vals).
             map (\<lambda>(val, rows). ((key, val), pl_from_sorted_unique_unchecked rows)) vals) kvi),
          bd_key_add_count = bb_key_add_count b\<rparr>)"

text \<open>\<open>entry(k).and_modify(|existing| existing.merge(&posting)).or_insert(posting)\<close>\<close>

definition merge_entry :: "'k \<times> posting_list \<Rightarrow> ('k, posting_list) hash_map \<Rightarrow> ('k, posting_list) hash_map" where
  "merge_entry = (\<lambda>(k, posting) m. hm_insert k (case hm_get m k of Some existing \<Rightarrow> pl_merge posting existing | None \<Rightarrow> posting) m)"

definition apply_bulk_delta :: "bulk_delta \<Rightarrow> gin_index \<Rightarrow> gin_index" where
  "apply_bulk_delta d g = g\<lparr>gin_stats := stats_add_rows (bd_key_add_count d) (gin_stats g),
     gin_key_index := fold merge_entry (bd_key_index d) (gin_key_index g),
     gin_key_value_index := fold merge_entry (bd_key_value_index d) (gin_key_value_index g)\<rparr>"

definition apply_bulk_builder :: "bulk_builder \<Rightarrow> gin_index \<Rightarrow> gin_index" where
  "apply_bulk_builder b g = apply_bulk_delta (bb_finish b) g"

section \<open>What a builder holds\<close>

definition br_ok :: "bulk_rows \<Rightarrow> bool" where
  "br_ok b \<longleftrightarrow> (br_sorted_unique b \<longrightarrow> sorted_wrt (<) (br_rows b))"

lemma br_push_ok: "br_ok b \<Longrightarrow> br_ok (br_push r b) \<and> br_rows (br_push r b) \<noteq> [] \<and> set (br_rows (br_push r b)) = insert r (set (br_rows b))"
  using last_less_hd_sorted [of "br_rows b" "[r]"] by (auto simp: br_ok_def br_push_def)

lemma into_sorted_unique_ok: "br_ok b \<Longrightarrow> sorted_wrt (<) (into_sorted_unique b)"
  "set (into_sorted_unique b) = set (br_rows b)"
  using sorted_remdups_adj_strict [of "sort (br_rows b)"] by (auto simp: into_sorted_unique_def br_ok_def)

text \<open>The rows a map of row lists, or a map of such maps, has at a place.\<close>

definition at_key :: "('v \<Rightarrow> row_id set) \<Rightarrow> ('k, 'v) hash_map \<Rightarrow> 'k \<Rightarrow> row_id set" where
  "at_key f m k = (case map_of m k of None \<Rightarrow> {} | Some v \<Rightarrow> f v)"

definition map_ok :: "('v \<Rightarrow> bool) \<Rightarrow> ('k, 'v) hash_map \<Rightarrow> bool" where
  "map_ok ok m \<longleftrightarrow> hm_ok m \<and> (\<forall>k v. map_of m k = Some v \<longrightarrow> ok v)"

abbreviation bulk_ok :: "bulk_rows \<Rightarrow> bool" where
  "bulk_ok b \<equiv> br_ok b \<and> br_rows b \<noteq> []"

abbreviation row_list_ok :: "row_id list \<Rightarrow> bool" where
  "row_list_ok rs \<equiv> sorted_wrt (<) rs \<and> rs \<noteq> []"

definition bulk_at :: "bulk_map \<Rightarrow> string \<Rightarrow> row_id set" where
  "bulk_at = at_key (\<lambda>b. set (br_rows b))"

definition row_at :: "row_map \<Rightarrow> string \<Rightarrow> row_id set" where
  "row_at = at_key set"

definition nested_at :: "('m \<Rightarrow> string \<Rightarrow> row_id set) \<Rightarrow> (string, 'm) hash_map \<Rightarrow> string \<times> string \<Rightarrow> row_id set" where
  "nested_at f m = (\<lambda>(k, v). at_key (\<lambda>m'. f m' v) m k)"

lemma map_ok_Nil [simp]: "map_ok ok []" "at_key f [] k = {}"
  by (simp_all add: map_ok_def at_key_def)

lemma map_ok_entry:
  assumes "map_ok ok m" "ok d \<or> fresh d" "\<And>v. ok v \<or> fresh v \<Longrightarrow> ok (f v)"
  shows "map_ok ok (entry_default d k f m)"
  using assms by (auto simp: map_ok_def entry_default_def split: option.split)

lemma at_key_entry:
  assumes "g d = {}"
  shows "at_key g (entry_default d k f m) k' = (if k' = k then g (f (case map_of m k of Some v \<Rightarrow> v | None \<Rightarrow> d)) else at_key g m k')"
  by (simp add: at_key_def entry_default_def)

lemma bulk_entry:
  assumes "map_ok bulk_ok m"
  shows "map_ok bulk_ok (entry_default bulk_rows_default v (br_push r) m)"
    "bulk_at (entry_default bulk_rows_default v (br_push r) m) = (bulk_at m)(v := insert r (bulk_at m v))"
proof -
  have d: "br_ok bulk_rows_default" "br_rows bulk_rows_default = []" by (simp_all add: bulk_rows_default_def br_ok_def)
  show "map_ok bulk_ok (entry_default bulk_rows_default v (br_push r) m)"
    by (rule map_ok_entry [OF assms, where fresh = br_ok]) (use d br_push_ok in auto)
  have "br_ok (case map_of m v of Some b \<Rightarrow> b | None \<Rightarrow> bulk_rows_default)" using assms d by (auto simp: map_ok_def split: option.split)
  note push = br_push_ok [OF this, of r]
  have "set (br_rows (case map_of m v of Some b \<Rightarrow> b | None \<Rightarrow> bulk_rows_default)) = bulk_at m v"
    using d by (simp add: bulk_at_def at_key_def split: option.split)
  then show "bulk_at (entry_default bulk_rows_default v (br_push r) m) = (bulk_at m)(v := insert r (bulk_at m v))"
    using push d by (auto simp: fun_eq_iff bulk_at_def at_key_entry)
qed

lemma nested_entry:
  assumes "map_ok (map_ok bulk_ok) m"
  shows "map_ok (map_ok bulk_ok) (entry_default [] k (entry_default bulk_rows_default v (br_push r)) m)"
    "nested_at bulk_at (entry_default [] k (entry_default bulk_rows_default v (br_push r)) m)
      = (nested_at bulk_at m)((k, v) := insert r (nested_at bulk_at m (k, v)))"
proof -
  show "map_ok (map_ok bulk_ok) (entry_default [] k (entry_default bulk_rows_default v (br_push r)) m)"
    by (rule map_ok_entry [OF assms, where fresh = "\<lambda>_. False"]) (use bulk_entry(1) in auto)
  let ?m = "case map_of m k of Some m' \<Rightarrow> m' | None \<Rightarrow> []"
  have "map_ok bulk_ok ?m" using assms by (auto simp: map_ok_def [of "map_ok bulk_ok"] split: option.split)
  note inner = bulk_entry(2) [OF this, of v r]
  have nil: "bulk_at [] = (\<lambda>_. {})" by (simp add: bulk_at_def fun_eq_iff)
  have "bulk_at ?m w = nested_at bulk_at m (k, w)" for w
    by (simp add: nested_at_def at_key_def nil split: option.split)
  then show "nested_at bulk_at (entry_default [] k (entry_default bulk_rows_default v (br_push r)) m)
      = (nested_at bulk_at m)((k, v) := insert r (nested_at bulk_at m (k, v)))"
    by (auto simp: fun_eq_iff nested_at_def at_key_entry nil inner)
qed

definition cache_ok :: "(string, u128 list) hash_map \<Rightarrow> bool" where
  "cache_ok c \<longleftrightarrow> (\<forall>s codes. map_of c s = Some codes \<longrightarrow> codes = for_each_unique_trigram_code s)"

lemma cache_ok_insert: "cache_ok c \<Longrightarrow> cache_ok (hm_insert s (for_each_unique_trigram_code s) c)"
  by (simp add: cache_ok_def)

definition builder_ok :: "bulk_builder \<Rightarrow> bool" where
  "builder_ok b \<longleftrightarrow> map_ok bulk_ok (bb_key_index b) \<and> map_ok (map_ok bulk_ok) (bb_key_value_index b)
     \<and> map_ok (map_ok bulk_ok) (bb_contains_value_index b) \<and> cache_ok (bb_trigram_cache b)"

type_synonym bulk_spec = "(string \<Rightarrow> row_id set) \<times> (string \<times> string \<Rightarrow> row_id set) \<times> (string \<times> string \<Rightarrow> row_id set)"

definition builder_abs :: "bulk_builder \<Rightarrow> bulk_spec" where
  "builder_abs b = (bulk_at (bb_key_index b), nested_at bulk_at (bb_key_value_index b), nested_at bulk_at (bb_contains_value_index b))"

datatype bulk_op =
    BulkKey string row_id
  | BulkKeyValue string string row_id
  | BulkContains string string row_id

fun bulk_step :: "bulk_op \<Rightarrow> bulk_builder \<Rightarrow> bulk_builder" where
  "bulk_step (BulkKey k r) b = bb_add_key k r b"
| "bulk_step (BulkKeyValue k v r) b = bb_add_key_value k v r b"
| "bulk_step (BulkContains path needle r) b = snd (bb_add_contains_trigrams path needle r b)"

fun bulk_spec_step :: "bulk_op \<Rightarrow> bulk_spec \<Rightarrow> bulk_spec" where
  "bulk_spec_step (BulkKey k r) (K, V, T) = (K(k := insert r (K k)), V, T)"
| "bulk_spec_step (BulkKeyValue k v r) (K, V, T) = (K, V((k, v) := insert r (V (k, v))), T)"
| "bulk_spec_step (BulkContains path needle r) (K, V, T) =
     (K, V, T((contains_trigram_key path, needle) := insert r (T (contains_trigram_key path, needle))))"

lemma trigram_count_frame:
  "cache_ok (bb_trigram_cache b) \<Longrightarrow> cache_ok (bb_trigram_cache (snd (trigram_code_count_for_value s b)))"
  "bb_key_index (snd (trigram_code_count_for_value s b)) = bb_key_index b"
  "bb_key_value_index (snd (trigram_code_count_for_value s b)) = bb_key_value_index b"
  "bb_contains_value_index (snd (trigram_code_count_for_value s b)) = bb_contains_value_index b"
  "bb_key_add_count (snd (trigram_code_count_for_value s b)) = bb_key_add_count b"
  by (simp_all add: trigram_code_count_for_value_def cache_ok_insert Let_def split: option.split)

lemma bulk_step_abs:
  "builder_ok b \<Longrightarrow> builder_ok (bulk_step op b) \<and> builder_abs (bulk_step op b) = bulk_spec_step op (builder_abs b)"
  by (cases op)
    (simp_all add: builder_ok_def builder_abs_def bb_add_key_def bb_add_key_value_def bb_add_contains_trigrams_def
      bb_add_contains_trigrams_for_key_def bb_add_contains_value_def trigram_count_frame bulk_entry nested_entry)

lemma bulk_run_abs:
  "builder_ok b \<Longrightarrow> builder_ok (fold bulk_step ops b) \<and> builder_abs (fold bulk_step ops b) = fold bulk_spec_step ops (builder_abs b)"
proof (induction ops arbitrary: b)
  case (Cons op ops)
  then show ?case using bulk_step_abs [OF Cons.prems, of op] Cons.IH [of "bulk_step op b"] by simp
qed simp

lemma bb_new_ok: "builder_ok bb_new" "builder_abs bb_new = (\<lambda>_. {}, \<lambda>_. {}, \<lambda>_. {})"
  by (simp_all add: bb_new_def builder_ok_def builder_abs_def cache_ok_def bulk_at_def nested_at_def fun_eq_iff)

section \<open>The end of the building\<close>

lemma sorted_map_ok:
  assumes "map_ok bulk_ok m"
  shows "map_ok row_list_ok (sorted_map m)" "row_at (sorted_map m) = bulk_at m"
proof -
  have keys: "map fst (sorted_map m) = map fst m" by (simp add: sorted_map_def comp_def case_prod_beta)
  have get: "map_of (sorted_map m) k = map_option into_sorted_unique (map_of m k)" for k
    by (simp add: sorted_map_def map_of_map)
  have "into_sorted_unique b \<noteq> []" if "br_rows b \<noteq> []" for b using into_sorted_unique_ok(2) [of b] that by auto
  then show "map_ok row_list_ok (sorted_map m)" using assms into_sorted_unique_ok(1) by (auto simp: map_ok_def get hm_ok_def keys)
  show "row_at (sorted_map m) = bulk_at m"
    by (auto simp: fun_eq_iff row_at_def bulk_at_def at_key_def get into_sorted_unique_ok(2) split: option.split)
qed

lemma add_grams_rows:
  assumes "map_ok row_list_ok kvs" "row_list_ok rows"
  shows "map_ok row_list_ok (add_grams codes rows kvs)
    \<and> (\<forall>v. row_at (add_grams codes rows kvs) v = row_at kvs v \<union> (if v \<in> trigram_string_from_code ` set codes then set rows else {}))"
  using assms(1)
proof (induction codes arbitrary: kvs)
  case (Cons code codes)
  let ?g = "trigram_string_from_code code"
  let ?kvs = "entry_default [] ?g (\<lambda>e. extend_sorted_unique_rows e rows) kvs"
  have ext: "row_list_ok (extend_sorted_unique_rows e rows)" "set (extend_sorted_unique_rows e rows) = set e \<union> set rows" if "sorted_wrt (<) e" for e
    using extend_sorted_unique [OF that, of rows] assms(2) by auto
  have ok: "map_ok row_list_ok ?kvs"
    by (rule map_ok_entry [OF Cons.prems, where fresh = "\<lambda>e. e = []"]) (use ext(1) in auto)
  have "sorted_wrt (<) (case map_of kvs ?g of Some v \<Rightarrow> v | None \<Rightarrow> [])" using Cons.prems by (auto simp: map_ok_def split: option.split)
  note ext2 = ext(2) [OF this]
  have "set (case map_of kvs ?g of Some v \<Rightarrow> v | None \<Rightarrow> []) = row_at kvs ?g" by (simp add: row_at_def at_key_def split: option.split)
  then have at: "row_at ?kvs v = row_at kvs v \<union> (if v = ?g then set rows else {})" for v
    using ext2 by (simp add: row_at_def at_key_entry)
  have "add_grams (code # codes) rows kvs = add_grams codes rows ?kvs" by (simp add: add_grams_def)
  then show ?case using Cons.IH [OF ok] at by auto
qed (simp add: add_grams_def)

lemma grams_codes: "trigram_string_from_code ` set (for_each_unique_trigram_code s) = grams_of s"
  using unique_trigram_codes [of s] by (simp add: grams_of_def image_image)

lemma finish_value_rows:
  assumes "map_ok row_list_ok kvs" "cache_ok cache" "bulk_ok b" "finish_value (s, b) (kvs, cache) = (kvs', cache')"
  shows "map_ok row_list_ok kvs'" "cache_ok cache'"
    "row_at kvs' v = row_at kvs v \<union> (if v \<in> grams_of s then set (br_rows b) else {})"
proof -
  have rows: "row_list_ok (into_sorted_unique b)" "set (into_sorted_unique b) = set (br_rows b)"
    using into_sorted_unique_ok [of b] assms(3) by (metis set_empty)+
  have kvs': "kvs' = add_grams (for_each_unique_trigram_code s) (into_sorted_unique b) kvs"
    using assms(2,4) by (auto simp: finish_value_def cache_ok_def Let_def split: option.splits)
  show "map_ok row_list_ok kvs'" "row_at kvs' v = row_at kvs v \<union> (if v \<in> grams_of s then set (br_rows b) else {})"
    using add_grams_rows [OF assms(1) rows(1), of "for_each_unique_trigram_code s"] rows(2) by (simp_all add: kvs' grams_codes)
  show "cache_ok cache'" using assms(2,4) cache_ok_insert [OF assms(2), of s]
    by (auto simp: finish_value_def Let_def split: option.splits if_splits)
qed

lemma finish_values_rows:
  assumes "map_ok row_list_ok kvs" "cache_ok cache" "\<forall>(s, b) \<in> set vals. bulk_ok b" "fold finish_value vals (kvs, cache) = (kvs', cache')"
  shows "map_ok row_list_ok kvs' \<and> cache_ok cache'
    \<and> (\<forall>v. row_at kvs' v = row_at kvs v \<union> {r. \<exists>(s, b) \<in> set vals. v \<in> grams_of s \<and> r \<in> set (br_rows b)})"
  using assms
proof (induction vals arbitrary: kvs cache)
  case (Cons p vals)
  obtain s b where p: "p = (s, b)" by fastforce
  obtain kvs1 cache1 where one: "finish_value (s, b) (kvs, cache) = (kvs1, cache1)" by fastforce
  have "bulk_ok b" using Cons.prems(3) p by simp
  note first = finish_value_rows [OF Cons.prems(1,2) this one]
  have "fold finish_value vals (kvs1, cache1) = (kvs', cache')" using Cons.prems(4) one p by simp
  from Cons.IH [OF first(1,2) _ this] Cons.prems(3) show ?case by (auto simp: p first(3) split: if_splits)
qed simp

lemma bulk_at_set: "map_ok bulk_ok m \<Longrightarrow> r \<in> bulk_at m s \<longleftrightarrow> (\<exists>b. (s, b) \<in> set m \<and> r \<in> set (br_rows b))"
  by (auto simp: bulk_at_def at_key_def map_ok_def hm_ok_mem split: option.split)

lemma map_ok_set: "map_ok ok m \<Longrightarrow> (k, v) \<in> set m \<Longrightarrow> ok v"
  by (auto simp: map_ok_def hm_ok_mem)

lemma finish_contains_rows:
  assumes "map_ok (map_ok row_list_ok) kvi" "cache_ok cache" "\<forall>(k, m) \<in> set cvi. map_ok bulk_ok m" "fold finish_contains cvi (kvi, cache) = (kvi', cache')"
  shows "map_ok (map_ok row_list_ok) kvi' \<and> cache_ok cache'
    \<and> (\<forall>k v. nested_at row_at kvi' (k, v) = nested_at row_at kvi (k, v) \<union> {r. \<exists>m s. (k, m) \<in> set cvi \<and> v \<in> grams_of s \<and> r \<in> bulk_at m s})"
  using assms
proof (induction cvi arbitrary: kvi cache)
  case (Cons p cvi)
  obtain k m where p: "p = (k, m)" by fastforce
  let ?kvs = "case hm_get kvi k of Some m \<Rightarrow> m | None \<Rightarrow> []"
  have m: "map_ok bulk_ok m" using Cons.prems(3) p by simp
  have kvs: "map_ok row_list_ok ?kvs" using Cons.prems(1) by (auto simp: map_ok_def [of "map_ok row_list_ok"] split: option.split)
  obtain kvs1 cache1 where one: "fold finish_value m (?kvs, cache) = (kvs1, cache1)" by fastforce
  have vals: "\<forall>(s, b) \<in> set m. bulk_ok b" using map_ok_set [OF m] by blast
  note first = finish_values_rows [OF kvs Cons.prems(2) vals one]
  let ?kvi = "hm_insert k kvs1 kvi"
  have ok: "map_ok (map_ok row_list_ok) ?kvi" using Cons.prems(1) first by (auto simp: map_ok_def [of "map_ok row_list_ok"])
  have nil: "row_at [] v = {}" for v by (simp add: row_at_def)
  have "row_at ?kvs v = nested_at row_at kvi (k, v)" for v by (simp add: nested_at_def at_key_def nil split: option.split)
  then have new: "row_at kvs1 v = nested_at row_at kvi (k, v) \<union> {r. \<exists>s. v \<in> grams_of s \<and> r \<in> bulk_at m s}" for v
    using first bulk_at_set [OF m] by auto
  have at: "nested_at row_at ?kvi (k', v) = (if k' = k then row_at kvs1 v else nested_at row_at kvi (k', v))" for k' v
    by (simp add: nested_at_def at_key_def)
  have "fold finish_contains cvi (?kvi, cache1) = (kvi', cache')" using Cons.prems(4) one by (simp add: p finish_contains_def Let_def)
  from Cons.IH [OF ok _ _ this] first Cons.prems(3)
  have ih: "map_ok (map_ok row_list_ok) kvi'" "cache_ok cache'"
    "nested_at row_at kvi' (k', v) = nested_at row_at ?kvi (k', v) \<union> {r. \<exists>m s. (k', m) \<in> set cvi \<and> v \<in> grams_of s \<and> r \<in> bulk_at m s}" for k' v by auto
  have "nested_at row_at kvi' (k', v) = nested_at row_at kvi (k', v) \<union> {r. \<exists>m s. (k', m) \<in> set (p # cvi) \<and> v \<in> grams_of s \<and> r \<in> bulk_at m s}" for k' v
    unfolding ih(3) at new p by auto
  then show ?case using ih(1,2) by blast
qed simp

section \<open>Merging into the index\<close>

lemma merge_entry_rows:
  assumes "postings_ok m" "pl_ok p" "pl_set p \<noteq> {}"
  shows "postings_ok (merge_entry (k, p) m)" "rows_at (merge_entry (k, p) m) = (rows_at m)(k := rows_at m k \<union> pl_set p)"
proof -
  let ?p = "case hm_get m k of Some existing \<Rightarrow> pl_merge p existing | None \<Rightarrow> p"
  have "pl_ok ?p \<and> pl_set ?p = rows_at m k \<union> pl_set p"
  proof (cases "map_of m k")
    case (Some e)
    have "sorted_wrt (<) (pl_rows p)" "set (pl_rows p) = pl_set p" using assms(2) by (simp_all add: pl_defs)
    then show ?thesis using pl_merge_sorted_unique_ok [of e "pl_rows p"] posting_at [OF assms(1) Some] Some by (simp add: pl_merge_def)
  qed (use assms(2) in \<open>simp add: rows_at_def\<close>)
  then show "postings_ok (merge_entry (k, p) m)" "rows_at (merge_entry (k, p) m) = (rows_at m)(k := rows_at m k \<union> pl_set p)"
    using postings_insert [OF assms(1), of ?p k] assms(3) by (auto simp: merge_entry_def)
qed

lemma merge_entries_rows:
  assumes "postings_ok m" "\<forall>(k, p) \<in> set ps. pl_ok p \<and> pl_set p \<noteq> {}"
  shows "postings_ok (fold merge_entry ps m) \<and> (\<forall>k. rows_at (fold merge_entry ps m) k = rows_at m k \<union> {r. \<exists>p. (k, p) \<in> set ps \<and> r \<in> pl_set p})"
  using assms
proof (induction ps arbitrary: m)
  case (Cons q ps)
  obtain k p where q: "q = (k, p)" by fastforce
  have p: "pl_ok p" "pl_set p \<noteq> {}" using Cons.prems(2) q by auto
  note one = merge_entry_rows [OF Cons.prems(1) p, of k]
  have "postings_ok (fold merge_entry ps (merge_entry (k, p) m)) \<and> (\<forall>k'. rows_at (fold merge_entry ps (merge_entry (k, p) m)) k'
      = rows_at (merge_entry (k, p) m) k' \<union> {r. \<exists>p. (k', p) \<in> set ps \<and> r \<in> pl_set p})"
    by (rule Cons.IH [OF one(1)]) (use Cons.prems(2) in auto)
  then show ?case unfolding q one(2) by auto
qed simp

lemma list_posting: "row_list_ok rs \<Longrightarrow> pl_ok (pl_from_sorted_unique_unchecked rs) \<and> pl_set (pl_from_sorted_unique_unchecked rs) = set rs
    \<and> pl_set (pl_from_sorted_unique_unchecked rs) \<noteq> {}"
  by (simp add: pl_defs)

lemma delta_keys:
  assumes "map_ok bulk_ok m"
  defines "ps \<equiv> map (\<lambda>(key, rows). (key, pl_from_sorted_unique_unchecked (into_sorted_unique rows))) m"
  shows "\<forall>(k, p) \<in> set ps. pl_ok p \<and> pl_set p \<noteq> {}" "{r. \<exists>p. (k, p) \<in> set ps \<and> r \<in> pl_set p} = bulk_at m k"
proof -
  have list: "row_list_ok (into_sorted_unique b)" "set (into_sorted_unique b) = set (br_rows b)" if "(s, b) \<in> set m" for s b
    using map_ok_set [OF assms(1) that] into_sorted_unique_ok [of b] by (metis set_empty)+
  then have "pl_ok (pl_from_sorted_unique_unchecked (into_sorted_unique b)) \<and> pl_set (pl_from_sorted_unique_unchecked (into_sorted_unique b)) \<noteq> {}"
    if "(s, b) \<in> set m" for s b using list_posting that by blast
  then show "\<forall>(k, p) \<in> set ps. pl_ok p \<and> pl_set p \<noteq> {}" unfolding ps_def by auto
  show "{r. \<exists>p. (k, p) \<in> set ps \<and> r \<in> pl_set p} = bulk_at m k"
    using list list_posting bulk_at_set [OF assms(1), of _ k] by (fastforce simp: ps_def)
qed

lemma delta_pairs:
  assumes "map_ok (map_ok row_list_ok) m"
  defines "ps \<equiv> concat (map (\<lambda>(key, vals). map (\<lambda>(val, rows). ((key, val), pl_from_sorted_unique_unchecked rows)) vals) m)"
  shows "\<forall>(k, p) \<in> set ps. pl_ok p \<and> pl_set p \<noteq> {}" "{r. \<exists>p. (kv, p) \<in> set ps \<and> r \<in> pl_set p} = nested_at row_at m kv"
proof -
  have vals: "map_ok row_list_ok vals" if "(key, vals) \<in> set m" for key vals using map_ok_set [OF assms(1) that] .
  have rows: "row_list_ok rs" if "(key, vals) \<in> set m" "(v, rs) \<in> set vals" for key vals v rs using map_ok_set [OF vals [OF that(1)] that(2)] .
  have mem: "(kv, p) \<in> set ps \<longleftrightarrow> (\<exists>vals rs. (fst kv, vals) \<in> set m \<and> (snd kv, rs) \<in> set vals \<and> p = pl_from_sorted_unique_unchecked rs)" for kv p
    by (cases kv) (force simp: ps_def)
  then show "\<forall>(k, p) \<in> set ps. pl_ok p \<and> pl_set p \<noteq> {}" using rows list_posting by auto
  have "r \<in> nested_at row_at m (k, v) \<longleftrightarrow> (\<exists>vals rs. (k, vals) \<in> set m \<and> (v, rs) \<in> set vals \<and> r \<in> set rs)" for r k v
  proof -
    have "hm_ok m" "\<And>key vals. (key, vals) \<in> set m \<Longrightarrow> hm_ok vals" using assms(1) vals by (auto simp: map_ok_def)
    then show ?thesis by (auto simp: nested_at_def row_at_def at_key_def hm_ok_mem split: option.split)
  qed
  then show "{r. \<exists>p. (kv, p) \<in> set ps \<and> r \<in> pl_set p} = nested_at row_at m kv"
    using mem rows list_posting by (cases kv) fastforce
qed

text \<open>What a builder means for an index.\<close>

definition bulk_meaning :: "bulk_spec \<Rightarrow> gin_spec \<Rightarrow> gin_spec" where
  "bulk_meaning B S = (case B of (K, V, T) \<Rightarrow> (\<lambda>k. fst S k \<union> K k,
     \<lambda>(k, v). snd S (k, v) \<union> V (k, v) \<union> {r. \<exists>s. v \<in> grams_of s \<and> r \<in> T (k, s)}))"

lemma apply_bulk_abs:
  assumes b: "builder_ok b" and g: "gin_ok g"
  shows "gin_ok (apply_bulk_builder b g) \<and> gin_abs (apply_bulk_builder b g) = bulk_meaning (builder_abs b) (gin_abs g)"
proof -
  let ?kvi = "map (\<lambda>(key, vals). (key, sorted_map vals)) (bb_key_value_index b)"
  have ok: "map_ok bulk_ok (bb_key_index b)" "map_ok (map_ok bulk_ok) (bb_key_value_index b)"
    "map_ok (map_ok bulk_ok) (bb_contains_value_index b)" "cache_ok (bb_trigram_cache b)" using b by (simp_all add: builder_ok_def)
  have get: "map_of ?kvi k = map_option sorted_map (map_of (bb_key_value_index b) k)" for k by (simp add: map_of_map)
  have "map fst ?kvi = map fst (bb_key_value_index b)" by (simp add: comp_def case_prod_beta)
  then have "hm_ok ?kvi" using ok(2) by (simp only: map_ok_def hm_ok_def)
  then have kvi: "map_ok (map_ok row_list_ok) ?kvi" using ok(2) sorted_map_ok(1) by (auto simp: map_ok_def [of "map_ok _"] get)
  have kvi_at: "nested_at row_at ?kvi (k, v) = nested_at bulk_at (bb_key_value_index b) (k, v)" for k v
    using ok(2) sorted_map_ok(2) by (auto simp: nested_at_def at_key_def get map_ok_def [of "map_ok _"] split: option.split)
  obtain kvi' cache' where run: "fold finish_contains (bb_contains_value_index b) (?kvi, bb_trigram_cache b) = (kvi', cache')" by fastforce
  have "\<forall>(k, m) \<in> set (bb_contains_value_index b). map_ok bulk_ok m" using map_ok_set [OF ok(3)] by blast
  note fin = finish_contains_rows [OF kvi ok(4) this run]
  have "nested_at bulk_at (bb_contains_value_index b) (k, s) = {r. \<exists>m. (k, m) \<in> set (bb_contains_value_index b) \<and> r \<in> bulk_at m s}" for k s
    using ok(3) by (auto simp: nested_at_def at_key_def map_ok_def [of "map_ok _"] hm_ok_mem split: option.split)
  then have at: "nested_at row_at kvi' (k, v) = nested_at bulk_at (bb_key_value_index b) (k, v)
      \<union> {r. \<exists>s. v \<in> grams_of s \<and> r \<in> nested_at bulk_at (bb_contains_value_index b) (k, s)}" for k v
    using fin kvi_at by auto
  have kvi': "map_ok (map_ok row_list_ok) kvi'" using fin by simp
  have post: "postings_ok (gin_key_index g)" "postings_ok (gin_key_value_index g)" using g by (simp_all add: gin_ok_def)
  note keys = merge_entries_rows [OF post(1) delta_keys(1) [OF ok(1)]] and pairs = merge_entries_rows [OF post(2) delta_pairs(1) [OF kvi']]
  show ?thesis using keys pairs unfolding delta_keys(2) [OF ok(1)] delta_pairs(2) [OF kvi']
    by (auto simp: apply_bulk_builder_def apply_bulk_delta_def bb_finish_def run Let_def gin_ok_def gin_abs_def bulk_meaning_def builder_abs_def fun_eq_iff at)
qed

section \<open>One at a time\<close>

fun single :: "bulk_op \<Rightarrow> gin_op" where
  "single (BulkKey k r) = GinAddKey k r"
| "single (BulkKeyValue k v r) = GinAddKeyValue k v r"
| "single (BulkContains path needle r) = GinAddTrigrams path needle r"

lemma upd_mem: "r \<in> (T(p := insert r0 (T p))) q \<longleftrightarrow> r \<in> T q \<or> q = p \<and> r = r0"
  by auto

lemma upd_gram: "(\<exists>s. v \<in> grams_of s \<and> r \<in> (T((k0, n) := insert r0 (T (k0, n)))) (k, s))
    \<longleftrightarrow> (\<exists>s. v \<in> grams_of s \<and> r \<in> T (k, s)) \<or> k = k0 \<and> v \<in> grams_of n \<and> r = r0"
  unfolding upd_mem by blast

lemma bulk_meaning_step: "bulk_meaning (bulk_spec_step op B) S = gin_spec_step (single op) (bulk_meaning B S)"
proof (cases op)
  case (BulkContains path needle r)
  obtain K V T where B: "B = (K, V, T)" by (metis prod_cases3)
  show ?thesis unfolding BulkContains B bulk_spec_step.simps bulk_meaning_def prod.case upd_gram single.simps gin_spec_step.simps
    by (auto simp: fun_eq_iff)
qed (cases B; cases S; auto simp: bulk_meaning_def fun_eq_iff)+

lemma bulk_meaning_run: "bulk_meaning (fold bulk_spec_step ops B) S = fold gin_spec_step (map single ops) (bulk_meaning B S)"
  by (induction ops arbitrary: B) (simp_all add: bulk_meaning_step)

lemma bulk_meaning_new: "bulk_meaning (\<lambda>_. {}, \<lambda>_. {}, \<lambda>_. {}) S = S"
  by (cases S) (simp add: bulk_meaning_def fun_eq_iff)

definition key_adds :: "bulk_op list \<Rightarrow> u64" where
  "key_adds ops = of_nat (length (filter (\<lambda>op. case op of BulkKey _ _ \<Rightarrow> True | _ \<Rightarrow> False) ops))"

lemma key_add_count_run: "bb_key_add_count (fold bulk_step ops b) = bb_key_add_count b + key_adds ops"
proof (induction ops arbitrary: b)
  case (Cons op ops)
  then show ?case by (cases op)
    (simp_all add: key_adds_def bb_add_key_def bb_add_key_value_def bb_add_contains_trigrams_def
      bb_add_contains_trigrams_for_key_def bb_add_contains_value_def trigram_count_frame)
qed (simp add: key_adds_def)

lemma foldl_key_value_stats: "gin_stats (foldl (\<lambda>g code. gin_add_key_value k (f code) r g) g codes) = gin_stats g"
  by (induction codes arbitrary: g) (simp_all add: gin_add_key_value_def)

lemma contains_stats: "gin_stats (snd (gin_add_contains_trigrams path needle r g)) = gin_stats g"
  by (simp add: gin_add_contains_trigrams_def Let_def foldl_key_value_stats)

lemma single_stats: "gin_stats (fold gin_step (map single ops) g) = stats_add_rows (key_adds ops) (gin_stats g)"
proof (induction ops arbitrary: g)
  case (Cons op ops)
  then show ?case by (cases op)
    (simp_all add: key_adds_def gin_add_key_def gin_add_key_value_def contains_stats stats_add_rows_def)
qed (simp add: key_adds_def stats_add_rows_def)

text \<open>The same maps, their entries in any order.\<close>

definition same_map :: "('k, 'v) hash_map \<Rightarrow> ('k, 'v) hash_map \<Rightarrow> bool" where
  "same_map m m' \<longleftrightarrow> hm_ok m' \<and> map_of m' = map_of m"

definition same_nested :: "('k, ('j, 'v) hash_map) hash_map \<Rightarrow> ('k, ('j, 'v) hash_map) hash_map \<Rightarrow> bool" where
  "same_nested m m' \<longleftrightarrow> hm_ok m' \<and> (\<forall>k. rel_option same_map (map_of m k) (map_of m' k))"

definition same_builder :: "bulk_builder \<Rightarrow> bulk_builder \<Rightarrow> bool" where
  "same_builder b b' \<longleftrightarrow> same_map (bb_key_index b) (bb_key_index b') \<and> same_nested (bb_key_value_index b) (bb_key_value_index b')
     \<and> same_nested (bb_contains_value_index b) (bb_contains_value_index b') \<and> same_map (bb_trigram_cache b) (bb_trigram_cache b')
     \<and> bb_key_add_count b' = bb_key_add_count b"

lemma same_map_at: "same_map m m' \<Longrightarrow> map_ok ok m \<Longrightarrow> map_ok ok m'" "same_map m m' \<Longrightarrow> bulk_at m' = bulk_at m" for m :: bulk_map
  by (simp_all add: same_map_def map_ok_def bulk_at_def at_key_def fun_eq_iff)

lemma same_nested_at:
  assumes "same_nested m m'"
  shows "map_ok (map_ok bulk_ok) m \<Longrightarrow> map_ok (map_ok bulk_ok) m'" "nested_at bulk_at m' = nested_at bulk_at m"
proof -
  have rel: "rel_option same_map (map_of m k) (map_of m' k)" for k using assms by (simp add: same_nested_def)
  show "map_ok (map_ok bulk_ok) m'" if "map_ok (map_ok bulk_ok) m"
    unfolding map_ok_def [of "map_ok bulk_ok"]
  proof (intro conjI allI impI)
    fix k v assume "map_of m' k = Some v"
    then obtain w where "map_of m k = Some w" "same_map w v" using rel [of k] by (auto simp: option_rel_Some2)
    then show "map_ok bulk_ok v" using that same_map_at(1) by (simp add: map_ok_def [of "map_ok bulk_ok"])
  qed (use assms in \<open>simp add: same_nested_def\<close>)
  have "nested_at bulk_at m' (k, v) = nested_at bulk_at m (k, v)" for k v
    using rel [of k] same_map_at(2) by (cases "map_of m k"; cases "map_of m' k") (auto simp: nested_at_def at_key_def)
  then show "nested_at bulk_at m' = nested_at bulk_at m" by (auto simp: fun_eq_iff)
qed

lemma same_builder_abs:
  assumes "same_builder b b'" "builder_ok b"
  shows "builder_ok b'" "builder_abs b' = builder_abs b"
  using assms same_map_at [of "bb_key_index b" "bb_key_index b'"] same_nested_at [of "bb_key_value_index b" "bb_key_value_index b'"]
    same_nested_at [of "bb_contains_value_index b" "bb_contains_value_index b'"]
  by (simp_all add: same_builder_def builder_ok_def builder_abs_def) (simp add: same_map_def cache_ok_def)

text \<open>Indices that say the same answer every query alike.\<close>

lemma gin_same_answers:
  assumes "gin_ok g" "gin_ok h" "gin_abs g = gin_abs h"
  shows "get_by_key k g = get_by_key k h" "get_by_key_value k v g = get_by_key_value k v h" "gin_contains_key k g = gin_contains_key k h"
    "get_by_keys_all ks g = get_by_keys_all ks h" "get_by_keys_any ks g = get_by_keys_any ks h"
    "get_by_key_values_all ps g = get_by_key_values_all ps h" "get_by_key_values_any ps g = get_by_key_values_any ps h"
    "gin_key_count g = gin_key_count h" "gin_key_value_count g = gin_key_value_count h"
proof -
  have ok: "postings_ok (gin_key_index g)" "postings_ok (gin_key_index h)" "postings_ok (gin_key_value_index g)" "postings_ok (gin_key_value_index h)"
    and eq: "rows_at (gin_key_index g) = rows_at (gin_key_index h)" "rows_at (gin_key_value_index g) = rows_at (gin_key_value_index h)"
    using assms by (simp_all add: gin_ok_def gin_abs_def)
  note at = posting_rows_at rows_of_any_eq postings_count rows_at_None
  show "get_by_key k g = get_by_key k h" "get_by_key_value k v g = get_by_key_value k v h" "gin_contains_key k g = gin_contains_key k h"
    by (simp_all add: get_by_key_def get_by_key_value_def gin_contains_key_def hm_contains_def at ok eq)
  show "get_by_keys_any ks g = get_by_keys_any ks h" "get_by_key_values_any ps g = get_by_key_values_any ps h"
    by (simp_all add: get_by_keys_any_def get_by_key_values_any_def at ok eq)
  show "get_by_keys_all ks g = get_by_keys_all ks h"
    by (cases ks) (simp_all add: get_by_keys_all_def rows_of_all_eq ok eq, simp add: rows_of_all_def)
  show "get_by_key_values_all ps g = get_by_key_values_all ps h"
    by (cases ps) (simp_all add: get_by_key_values_all_def rows_of_all_eq ok eq, simp add: rows_of_all_def)
  show "gin_key_count g = gin_key_count h" "gin_key_value_count g = gin_key_value_count h"
    by (simp_all add: gin_key_count_def gin_key_value_count_def at ok eq)
qed

section \<open>Properties\<close>

text \<open>
  C22. Bulk building does what adding everything one at a time does. Keys, pairs and strings are given to a
  builder; whatever order the hash maps of the builder are then gone through, the index it is merged into answers
  every query as if each of them had been added to the index, and counts the same number of rows.
\<close>

theorem bulk_builder_equals_single_adds:
  assumes "same_builder (fold bulk_step bulk_ops bb_new) b"
  shows "let g = fold gin_step ops gin_index_new; h = apply_bulk_builder b g; h' = fold gin_step (map single bulk_ops) g in
    (\<forall>k. get_by_key k h = get_by_key k h' \<and> gin_contains_key k h = gin_contains_key k h')
    \<and> (\<forall>k v. get_by_key_value k v h = get_by_key_value k v h')
    \<and> (\<forall>ks. get_by_keys_all ks h = get_by_keys_all ks h' \<and> get_by_keys_any ks h = get_by_keys_any ks h')
    \<and> (\<forall>ps. get_by_key_values_all ps h = get_by_key_values_all ps h' \<and> get_by_key_values_any ps h = get_by_key_values_any ps h')
    \<and> gin_key_count h = gin_key_count h' \<and> gin_key_value_count h = gin_key_value_count h' \<and> gin_stats h = gin_stats h'"
proof -
  define g where "g = fold gin_step ops gin_index_new"
  have g: "gin_ok g" using gin_run_abs [OF gin_new_ok(1)] by (simp add: g_def)
  have built: "builder_ok (fold bulk_step bulk_ops bb_new)" "builder_abs (fold bulk_step bulk_ops bb_new) = fold bulk_spec_step bulk_ops (\<lambda>_. {}, \<lambda>_. {}, \<lambda>_. {})"
    using bulk_run_abs [OF bb_new_ok(1), of bulk_ops] bb_new_ok(2) by simp_all
  note b = same_builder_abs [OF assms built(1), unfolded built(2)]
  note bulk = apply_bulk_abs [OF b(1) g, unfolded b(2) bulk_meaning_run bulk_meaning_new] and one = gin_run_abs [OF g, of "map single bulk_ops"]
  have "gin_stats (apply_bulk_builder b g) = stats_add_rows (key_adds bulk_ops) (gin_stats g)"
    using assms key_add_count_run [of bulk_ops bb_new]
    by (simp add: apply_bulk_builder_def apply_bulk_delta_def bb_finish_def same_builder_def bb_new_def Let_def case_prod_beta)
  then have stats: "gin_stats (apply_bulk_builder b g) = gin_stats (fold gin_step (map single bulk_ops) g)" by (simp add: single_stats)
  have same: "gin_ok (apply_bulk_builder b g)" "gin_ok (fold gin_step (map single bulk_ops) g)"
    "gin_abs (apply_bulk_builder b g) = gin_abs (fold gin_step (map single bulk_ops) g)" using bulk one by simp_all
  note answers = gin_same_answers [OF same]
  show ?thesis unfolding g_def [symmetric] Let_def using answers stats by blast
qed

lemma same_map_set: "hm_ok m \<Longrightarrow> hm_ok m' \<Longrightarrow> set m' = set m \<Longrightarrow> same_map m m'"
  unfolding same_map_def by (auto simp: hm_ok_def fun_eq_iff map_of_eq_None_iff intro!: option.rel_refl
      dest: map_of_SomeD) (metis hm_ok_def hm_ok_mem map_of_SomeD not_None_eq)

lemma same_nested_refl: "map_ok (map_ok ok) m \<Longrightarrow> same_nested m m"
  by (auto simp: same_nested_def same_map_def map_ok_def intro!: option.rel_refl_strong)

text \<open>The builder of four additions, with the two keys it has met in the other order.\<close>

definition bulk_example :: "bulk_op list" where
  "bulk_example = [BulkKey ''a'' 2, BulkKey ''b'' 1, BulkKey ''a'' 1, BulkContains ''$'' ''name'' 5]"

theorem bulk_builder_equals_single_adds_witness:
  "\<exists>b. bb_key_index b \<noteq> bb_key_index (fold bulk_step bulk_example bb_new)
    \<and> get_by_key ''a'' (apply_bulk_builder b (fold gin_step [GinAddKey ''a'' 7] gin_index_new)) = [1, 2, 7]"
proof -
  let ?built = "fold bulk_step bulk_example bb_new"
  let ?other = "?built\<lparr>bb_key_index := rev (bb_key_index ?built)\<rparr>"
  have ok: "map_ok bulk_ok (bb_key_index ?built)" "map_ok (map_ok bulk_ok) (bb_key_value_index ?built)" "map_ok (map_ok bulk_ok) (bb_contains_value_index ?built)"
    using bulk_run_abs [OF bb_new_ok(1), of bulk_example] by (simp_all add: builder_ok_def)
  have cache: "hm_ok (bb_trigram_cache ?built)"
    by (simp add: bulk_example_def bb_add_key_def bb_add_contains_trigrams_def bb_add_contains_trigrams_for_key_def bb_add_contains_value_def
        trigram_code_count_for_value_def bb_new_def Let_def hm_ok_def)
  have "same_map (bb_key_index ?built) (rev (bb_key_index ?built))" using ok(1) by (intro same_map_set) (simp_all add: map_ok_def hm_ok_def rev_map [symmetric])
  then have same: "same_builder ?built ?other" using same_nested_refl [OF ok(2)] same_nested_refl [OF ok(3)] cache by (simp add: same_builder_def same_map_def)
  have "map fst (bb_key_index ?built) = [''a'', ''b'']"
    by (simp add: bulk_example_def bb_add_key_def bb_add_contains_trigrams_def bb_add_contains_trigrams_for_key_def bb_add_contains_value_def
        trigram_count_frame bb_new_def entry_default_def)
  then have "map fst (rev (bb_key_index ?built)) \<noteq> map fst (bb_key_index ?built)" by (simp add: rev_map [symmetric])
  moreover have "get_by_key ''a'' (fold gin_step (map single bulk_example) (fold gin_step [GinAddKey ''a'' 7] gin_index_new)) = [1, 2, 7]"
  proof -
    let ?g = "fold gin_step (GinAddKey ''a'' 7 # map single bulk_example) gin_index_new"
    note run = gin_run_abs [OF gin_new_ok(1), of "GinAddKey ''a'' 7 # map single bulk_example"]
    have "rows_at (gin_key_index ?g) = fst (fold gin_spec_step (GinAddKey ''a'' 7 # map single bulk_example) (gin_abs gin_index_new))"
      using run by (simp only: gin_abs_def fst_conv) (metis fst_conv)
    then have "rows_at (gin_key_index ?g) ''a'' = {1, 2, 7}"
      by (auto simp: bulk_example_def gin_new_ok(2))
    moreover have "postings_ok (gin_key_index ?g)" using run by (simp only: gin_ok_def)
    ultimately show ?thesis by (simp add: get_by_key_def posting_rows_at sorted_list_of_set_insert_remove)
  qed
  ultimately show ?thesis
    using bulk_builder_equals_single_adds [OF same, of "[GinAddKey ''a'' 7]"] by (intro exI [of _ ?other]) (auto simp: Let_def)
qed

end
