(* ===== verification/Cynos_Schema.thy ===== *)
theory Cynos_Schema
  imports Cynos_Row
begin

text \<open>
  \<open>crates/core/src/schema\<close>: columns, index definitions, constraints and tables, and the builder that checks
  a table while it is put together. A call of the builder consumes it and returns it changed, or an
  error; the messages are those of the code. Names are UTF-8 strings: a name every byte of which is an
  ASCII letter, digit or underscore is one every character of which is.
\<close>

section \<open>Columns\<close>

record column =
  col_name :: string
  col_data_type :: data_type
  col_nullable :: bool
  col_unique :: bool
  col_default_value :: "value option"
  col_index :: nat

definition column_new :: "string \<Rightarrow> data_type \<Rightarrow> column" where
  "column_new name dt = \<lparr>col_name = name, col_data_type = dt, col_nullable = is_nullable_by_default dt,
     col_unique = False, col_default_value = None, col_index = 0\<rparr>"

definition column_get_default_value :: "column \<Rightarrow> value" where
  "column_get_default_value c =
     (case col_default_value c of
        Some v \<Rightarrow> v
      | None \<Rightarrow> if col_nullable c then Null else default_for_type (col_data_type c))"

definition column_is_indexable :: "column \<Rightarrow> bool" where
  "column_is_indexable c \<longleftrightarrow> is_indexable (col_data_type c)"

section \<open>Index definitions\<close>

datatype index_type = IxHash | IxBTree | IxGin

datatype col_order = OrderAsc | OrderDesc

record indexed_column =
  ic_name :: string
  ic_order :: col_order
  ic_auto_increment :: bool

definition indexed_column_new :: "string \<Rightarrow> indexed_column" where
  "indexed_column_new name = \<lparr>ic_name = name, ic_order = OrderAsc, ic_auto_increment = False\<rparr>"

record index_def =
  id_name :: string
  id_table_name :: string
  id_columns :: "indexed_column list"
  id_unique :: bool
  id_index_type :: index_type
  id_gin_paths :: "string list option"

definition index_def_new :: "string \<Rightarrow> string \<Rightarrow> indexed_column list \<Rightarrow> index_def" where
  "index_def_new name tbl cols = \<lparr>id_name = name, id_table_name = tbl, id_columns = cols,
     id_unique = False, id_index_type = IxBTree, id_gin_paths = None\<rparr>"

definition with_gin_paths :: "string list \<Rightarrow> index_def \<Rightarrow> index_def" where
  "with_gin_paths paths i = i\<lparr>id_gin_paths := (if paths = [] then None else Some paths)\<rparr>"

definition normalized_name :: "index_def \<Rightarrow> string" where
  "normalized_name i = id_table_name i @ ''.'' @ id_name i"

definition supports_gin_path :: "string \<Rightarrow> index_def \<Rightarrow> bool" where
  "supports_gin_path path i \<longleftrightarrow>
     (if id_index_type i \<noteq> IxGin then False
      else case id_gin_paths i of None \<Rightarrow> True | Some paths \<Rightarrow> path \<in> set paths)"

definition is_single_column :: "index_def \<Rightarrow> bool" where
  "is_single_column i \<longleftrightarrow> length (id_columns i) = 1"

definition has_auto_increment :: "index_def \<Rightarrow> bool" where
  "has_auto_increment i \<longleftrightarrow> (\<exists>c \<in> set (id_columns i). ic_auto_increment c)"

section \<open>Constraints\<close>

datatype constraint_action = Restrict | Cascade

datatype constraint_timing = Immediate | Deferrable

record foreign_key =
  fk_name :: string
  fk_child_table :: string
  fk_child_column :: string
  fk_parent_table :: string
  fk_parent_column :: string
  fk_action :: constraint_action
  fk_timing :: constraint_timing
  fk_forward_field :: "string option"
  fk_reverse_field :: "string option"

definition foreign_key_new :: "string \<Rightarrow> string \<Rightarrow> string \<Rightarrow> string \<Rightarrow> string \<Rightarrow> foreign_key" where
  "foreign_key_new name child child_col parent parent_col =
     \<lparr>fk_name = name, fk_child_table = child, fk_child_column = child_col, fk_parent_table = parent,
      fk_parent_column = parent_col, fk_action = Restrict, fk_timing = Immediate,
      fk_forward_field = None, fk_reverse_field = None\<rparr>"

definition fk_graphql_fields :: "string option \<Rightarrow> string option \<Rightarrow> foreign_key \<Rightarrow> foreign_key" where
  "fk_graphql_fields forward rvs fk = fk\<lparr>fk_forward_field := forward, fk_reverse_field := rvs\<rparr>"

record constraints =
  cs_primary_key :: "index_def option"
  cs_not_nullable :: "string list"
  cs_foreign_keys :: "foreign_key list"

definition constraints_new :: constraints where
  "constraints_new = \<lparr>cs_primary_key = None, cs_not_nullable = [], cs_foreign_keys = []\<rparr>"

definition constraints_add_foreign_key :: "foreign_key \<Rightarrow> constraints \<Rightarrow> constraints" where
  "constraints_add_foreign_key fk c = c\<lparr>cs_foreign_keys := cs_foreign_keys c @ [fk]\<rparr>"

section \<open>Tables\<close>

record table =
  tbl_name :: string
  tbl_columns :: "column list"
  tbl_indices :: "index_def list"
  tbl_constraints :: constraints
  tbl_persistent_index :: bool

definition enumerate_columns :: "column list \<Rightarrow> column list" where
  "enumerate_columns cs = map (\<lambda>(i, c). c\<lparr>col_index := i\<rparr>) (zip [0..<length cs] cs)"

definition table_new :: "string \<Rightarrow> column list \<Rightarrow> table" where
  "table_new name cols = \<lparr>tbl_name = name, tbl_columns = enumerate_columns cols, tbl_indices = [],
     tbl_constraints = constraints_new, tbl_persistent_index = False\<rparr>"

definition get_column :: "string \<Rightarrow> table \<Rightarrow> column option" where
  "get_column name t = find (\<lambda>c. col_name c = name) (tbl_columns t)"

definition get_column_index :: "string \<Rightarrow> table \<Rightarrow> nat option" where
  "get_column_index name t = position (\<lambda>c. col_name c = name) (tbl_columns t)"

definition get_index :: "string \<Rightarrow> table \<Rightarrow> index_def option" where
  "get_index name t = find (\<lambda>i. id_name i = name) (tbl_indices t)"

definition table_primary_key :: "table \<Rightarrow> index_def option" where
  "table_primary_key t = cs_primary_key (tbl_constraints t)"

section \<open>The builder\<close>

record table_builder =
  tb_name :: string
  tb_columns :: "column list"
  tb_indices :: "index_def list"
  tb_pk_name :: "string option"
  tb_pk_columns :: "indexed_column list"
  tb_unique_columns :: "string list"
  tb_foreign_keys :: "foreign_key list"
  tb_persistent_index :: bool

definition is_ascii_alphabetic :: "char \<Rightarrow> bool" where
  "is_ascii_alphabetic c \<longleftrightarrow> (CHR ''A'' \<le> c \<and> c \<le> CHR ''Z'') \<or> (CHR ''a'' \<le> c \<and> c \<le> CHR ''z'')"

definition is_ascii_alphanumeric :: "char \<Rightarrow> bool" where
  "is_ascii_alphanumeric c \<longleftrightarrow> is_ascii_alphabetic c \<or> (CHR ''0'' \<le> c \<and> c \<le> CHR ''9'')"

definition check_naming_rules :: "string \<Rightarrow> db_error + unit" where
  "check_naming_rules name =
     (case name of
        [] \<Rightarrow> Inl (InvalidSchema ''Name cannot be empty'')
      | first # _ \<Rightarrow>
          if \<not> is_ascii_alphabetic first \<and> first \<noteq> CHR ''_''
          then Inl (InvalidSchema (''Name must start with letter or underscore: '' @ name))
          else if \<not> list_all (\<lambda>c. is_ascii_alphanumeric c \<or> c = CHR ''_'') name
          then Inl (InvalidSchema (''Name contains invalid characters: '' @ name))
          else Inr ())"

definition tb_new :: "string \<Rightarrow> db_error + table_builder" where
  "tb_new name =
     (case check_naming_rules name of
        Inl e \<Rightarrow> Inl e
      | Inr _ \<Rightarrow> Inr \<lparr>tb_name = name, tb_columns = [], tb_indices = [], tb_pk_name = None,
          tb_pk_columns = [], tb_unique_columns = [], tb_foreign_keys = [], tb_persistent_index = False\<rparr>)"

definition tb_add_column :: "string \<Rightarrow> data_type \<Rightarrow> table_builder \<Rightarrow> db_error + table_builder" where
  "tb_add_column name dt b =
     (case check_naming_rules name of
        Inl e \<Rightarrow> Inl e
      | Inr _ \<Rightarrow>
          if \<exists>c \<in> set (tb_columns b). col_name c = name
          then Inl (InvalidSchema (''Column already exists: '' @ name))
          else Inr (b\<lparr>tb_columns := tb_columns b @ [column_new name dt]\<rparr>))"

fun make_nullable :: "string \<Rightarrow> column list \<Rightarrow> column list" where
  "make_nullable name [] = []"
| "make_nullable name (c # cs) =
     (if col_name c = name then c\<lparr>col_nullable := True\<rparr> # cs else c # make_nullable name cs)"

definition tb_add_nullable :: "string list \<Rightarrow> table_builder \<Rightarrow> table_builder" where
  "tb_add_nullable names b = b\<lparr>tb_columns := fold make_nullable names (tb_columns b)\<rparr>"

text \<open>The table's name has passed the naming rules, so its first character is an ASCII letter or an
  underscore, and \<open>to_uppercase\<close> is the ASCII one.\<close>

fun capitalize :: "string \<Rightarrow> string" where
  "capitalize [] = []"
| "capitalize (c # cs) =
     (if CHR ''a'' \<le> c \<and> c \<le> CHR ''z'' then char_of (of_char c - 32 :: nat) else c) # cs"

fun validate_pk_columns :: "column list \<Rightarrow> indexed_column list \<Rightarrow> db_error + unit" where
  "validate_pk_columns cs [] = Inr ()"
| "validate_pk_columns cs (ic # ics) =
     (case find (\<lambda>c. col_name c = ic_name ic) cs of
        None \<Rightarrow> Inl (InvalidSchema (''Column not found: '' @ ic_name ic))
      | Some c \<Rightarrow>
          if \<not> column_is_indexable c
          then Inl (InvalidSchema (''Column is not indexable: '' @ ic_name ic))
          else if ic_auto_increment ic \<and> col_data_type c \<noteq> TInt32 \<and> col_data_type c \<noteq> TInt64
          then Inl (InvalidSchema ''Auto-increment requires integer type'')
          else validate_pk_columns cs ics)"

definition push_single :: "string list \<Rightarrow> table_builder \<Rightarrow> table_builder" where
  "push_single columns b =
     (if length columns = 1 then b\<lparr>tb_unique_columns := tb_unique_columns b @ [columns ! 0]\<rparr> else b)"

definition tb_add_primary_key :: "string list \<Rightarrow> bool \<Rightarrow> table_builder \<Rightarrow> db_error + table_builder" where
  "tb_add_primary_key columns auto_increment b =
     (let pk_name = ''pk'' @ capitalize (tb_name b)
      in case check_naming_rules pk_name of
           Inl e \<Rightarrow> Inl e
         | Inr _ \<Rightarrow>
             let indexed_cols = map (\<lambda>name. (indexed_column_new name)
                   \<lparr>ic_auto_increment := auto_increment \<and> length columns = 1\<rparr>) columns
             in case validate_pk_columns (tb_columns b) indexed_cols of
                  Inl e \<Rightarrow> Inl e
                | Inr _ \<Rightarrow> Inr ((push_single columns b)
                    \<lparr>tb_pk_name := Some pk_name, tb_pk_columns := indexed_cols\<rparr>))"

fun validate_found :: "column list \<Rightarrow> indexed_column list \<Rightarrow> db_error + unit" where
  "validate_found cs [] = Inr ()"
| "validate_found cs (ic # ics) =
     (if \<not> (\<exists>c \<in> set cs. col_name c = ic_name ic)
      then Inl (InvalidSchema (''Column not found: '' @ ic_name ic))
      else validate_found cs ics)"

definition tb_add_unique :: "string \<Rightarrow> string list \<Rightarrow> table_builder \<Rightarrow> db_error + table_builder" where
  "tb_add_unique name columns b =
     (case check_naming_rules name of
        Inl e \<Rightarrow> Inl e
      | Inr _ \<Rightarrow>
          let indexed_cols = map indexed_column_new columns
          in case validate_found (tb_columns b) indexed_cols of
               Inl e \<Rightarrow> Inl e
             | Inr _ \<Rightarrow>
                 let b = push_single columns b;
                     idx = (index_def_new name (tb_name b) indexed_cols)\<lparr>id_unique := True\<rparr>
                 in Inr (b\<lparr>tb_indices := tb_indices b @ [idx]\<rparr>))"

text \<open>The check of an index's columns: the value is whether some column holds JSON documents.\<close>

fun validate_index_columns :: "column list \<Rightarrow> indexed_column list \<Rightarrow> bool \<Rightarrow> db_error + bool" where
  "validate_index_columns cs [] use_gin = Inr use_gin"
| "validate_index_columns cs (ic # ics) use_gin =
     (case find (\<lambda>c. col_name c = ic_name ic) cs of
        None \<Rightarrow> Inl (InvalidSchema (''Column not found: '' @ ic_name ic))
      | Some c \<Rightarrow>
          if col_data_type c = TJsonb then validate_index_columns cs ics True
          else if \<not> column_is_indexable c
          then Inl (InvalidSchema (''Column is not indexable: '' @ ic_name ic))
          else validate_index_columns cs ics use_gin)"

definition tb_add_index :: "string \<Rightarrow> string list \<Rightarrow> bool \<Rightarrow> table_builder \<Rightarrow> db_error + table_builder" where
  "tb_add_index name columns uniq b =
     (case check_naming_rules name of
        Inl e \<Rightarrow> Inl e
      | Inr _ \<Rightarrow>
          let indexed_cols = map indexed_column_new columns
          in case validate_index_columns (tb_columns b) indexed_cols False of
               Inl e \<Rightarrow> Inl e
             | Inr use_gin \<Rightarrow>
                 let idx = (index_def_new name (tb_name b) indexed_cols)\<lparr>id_unique := uniq\<rparr>;
                     idx = (if use_gin then idx\<lparr>id_index_type := IxGin\<rparr> else idx)
                 in Inr (b\<lparr>tb_indices := tb_indices b @ [idx]\<rparr>))"

definition tb_add_jsonb_index ::
  "string \<Rightarrow> string \<Rightarrow> string list \<Rightarrow> table_builder \<Rightarrow> db_error + table_builder" where
  "tb_add_jsonb_index name column paths b =
     (case check_naming_rules name of
        Inl e \<Rightarrow> Inl e
      | Inr _ \<Rightarrow>
          case find (\<lambda>c. col_name c = column) (tb_columns b) of
            None \<Rightarrow> Inl (InvalidSchema (''Column not found: '' @ column))
          | Some c \<Rightarrow>
              if col_data_type c \<noteq> TJsonb
              then Inl (InvalidSchema (''JSONB index requires Jsonb column: '' @ column))
              else let normalized_paths = filter (\<lambda>path. path \<noteq> []) paths;
                       idx = with_gin_paths normalized_paths
                         ((index_def_new name (tb_name b) [indexed_column_new column])\<lparr>id_index_type := IxGin\<rparr>)
                   in Inr (b\<lparr>tb_indices := tb_indices b @ [idx]\<rparr>))"

fun validate_hash_columns :: "column list \<Rightarrow> indexed_column list \<Rightarrow> db_error + unit" where
  "validate_hash_columns cs [] = Inr ()"
| "validate_hash_columns cs (ic # ics) =
     (case find (\<lambda>c. col_name c = ic_name ic) cs of
        None \<Rightarrow> Inl (InvalidSchema (''Column not found: '' @ ic_name ic))
      | Some c \<Rightarrow>
          if col_data_type c = TJsonb
          then Inl (InvalidSchema (''Hash index is not supported for JSONB column: '' @ ic_name ic))
          else if \<not> column_is_indexable c
          then Inl (InvalidSchema (''Column is not indexable: '' @ ic_name ic))
          else validate_hash_columns cs ics)"

definition tb_add_hash_index ::
  "string \<Rightarrow> string list \<Rightarrow> bool \<Rightarrow> table_builder \<Rightarrow> db_error + table_builder" where
  "tb_add_hash_index name columns uniq b =
     (case check_naming_rules name of
        Inl e \<Rightarrow> Inl e
      | Inr _ \<Rightarrow>
          let indexed_cols = map indexed_column_new columns
          in case validate_hash_columns (tb_columns b) indexed_cols of
               Inl e \<Rightarrow> Inl e
             | Inr _ \<Rightarrow>
                 let idx = (index_def_new name (tb_name b) indexed_cols)
                       \<lparr>id_unique := uniq, id_index_type := IxHash\<rparr>
                 in Inr (b\<lparr>tb_indices := tb_indices b @ [idx]\<rparr>))"

definition tb_add_foreign_key_with_graphql_names ::
  "string \<Rightarrow> string \<Rightarrow> string \<Rightarrow> string \<Rightarrow> string option \<Rightarrow> string option
    \<Rightarrow> table_builder \<Rightarrow> db_error + table_builder" where
  "tb_add_foreign_key_with_graphql_names name child_column parent_table parent_column forward rvs b =
     (case check_naming_rules name of
        Inl e \<Rightarrow> Inl e
      | Inr _ \<Rightarrow>
          if \<not> (\<exists>c \<in> set (tb_columns b). col_name c = child_column)
          then Inl (InvalidSchema (''Column not found: '' @ child_column))
          else
            let fk = fk_graphql_fields forward rvs
                  (foreign_key_new name (tb_name b) child_column parent_table parent_column);
                b = b\<lparr>tb_foreign_keys := tb_foreign_keys b @ [fk]\<rparr>;
                is_unique = (child_column \<in> set (tb_unique_columns b))
            in tb_add_index name [child_column] is_unique b)"

definition tb_add_foreign_key ::
  "string \<Rightarrow> string \<Rightarrow> string \<Rightarrow> string \<Rightarrow> table_builder \<Rightarrow> db_error + table_builder" where
  "tb_add_foreign_key name child_column parent_table parent_column b =
     tb_add_foreign_key_with_graphql_names name child_column parent_table parent_column None None b"

definition tb_build :: "table_builder \<Rightarrow> db_error + table" where
  "tb_build b =
     (let (all_indices, constraints) =
            (case tb_pk_name b of
               Some pk_name \<Rightarrow>
                 let pk = (index_def_new pk_name (tb_name b) (tb_pk_columns b))\<lparr>id_unique := True\<rparr>
                 in (tb_indices b @ [pk], constraints_new\<lparr>cs_primary_key := Some pk\<rparr>)
             | None \<Rightarrow> (tb_indices b, constraints_new));
          not_nullable = map col_name (filter (\<lambda>c. \<not> col_nullable c) (tb_columns b));
          constraints = constraints\<lparr>cs_not_nullable := not_nullable\<rparr>;
          constraints = fold constraints_add_foreign_key (tb_foreign_keys b) constraints;
          columns = map (\<lambda>(i, c). c\<lparr>col_unique := col_name c \<in> set (tb_unique_columns b), col_index := i\<rparr>)
            (zip [0..<length (tb_columns b)] (tb_columns b))
      in Inr \<lparr>tbl_name = tb_name b, tbl_columns = columns, tbl_indices = all_indices,
           tbl_constraints = constraints, tbl_persistent_index = tb_persistent_index b\<rparr>)"

section \<open>Well-formed tables\<close>

text \<open>The calls of the builder as data; a chain of calls stops at the first error.\<close>

datatype builder_call =
    AddColumn string data_type
  | AddNullable "string list"
  | AddPrimaryKey "string list" bool
  | AddUnique string "string list"
  | AddIndex string "string list" bool
  | AddJsonbIndex string string "string list"
  | AddHashIndex string "string list" bool
  | AddForeignKey string string string string

fun tb_call :: "builder_call \<Rightarrow> table_builder \<Rightarrow> db_error + table_builder" where
  "tb_call (AddColumn name dt) b = tb_add_column name dt b"
| "tb_call (AddNullable names) b = Inr (tb_add_nullable names b)"
| "tb_call (AddPrimaryKey cols auto) b = tb_add_primary_key cols auto b"
| "tb_call (AddUnique name cols) b = tb_add_unique name cols b"
| "tb_call (AddIndex name cols uniq) b = tb_add_index name cols uniq b"
| "tb_call (AddJsonbIndex name col paths) b = tb_add_jsonb_index name col paths b"
| "tb_call (AddHashIndex name cols uniq) b = tb_add_hash_index name cols uniq b"
| "tb_call (AddForeignKey name child parent parent_col) b = tb_add_foreign_key name child parent parent_col b"

fun tb_calls :: "builder_call list \<Rightarrow> table_builder \<Rightarrow> db_error + table_builder" where
  "tb_calls [] b = Inr b"
| "tb_calls (c # cs) b = (case tb_call c b of Inl e \<Rightarrow> Inl e | Inr b' \<Rightarrow> tb_calls cs b')"

definition build_table :: "string \<Rightarrow> builder_call list \<Rightarrow> db_error + table" where
  "build_table name calls =
     (case tb_new name of
        Inl e \<Rightarrow> Inl e
      | Inr b \<Rightarrow> case tb_calls calls b of Inl e \<Rightarrow> Inl e | Inr b' \<Rightarrow> tb_build b')"


text \<open>The type a name has among some columns, and what a table's parts owe to its columns.\<close>

definition col_type :: "column list \<Rightarrow> string \<Rightarrow> data_type option" where
  "col_type cs name = map_option col_data_type (find (\<lambda>c. col_name c = name) cs)"

definition index_wf :: "string \<Rightarrow> column list \<Rightarrow> index_def \<Rightarrow> bool" where
  "index_wf tbl cs ix \<longleftrightarrow> id_table_name ix = tbl
     \<and> (\<forall>ic \<in> set (id_columns ix). col_type cs (ic_name ic) \<noteq> None
          \<and> (id_index_type ix = IxHash \<longrightarrow> col_type cs (ic_name ic) \<noteq> Some TJsonb))"

definition pk_column_wf :: "column list \<Rightarrow> indexed_column \<Rightarrow> bool" where
  "pk_column_wf cs ic \<longleftrightarrow> (case col_type cs (ic_name ic) of
      None \<Rightarrow> False
    | Some dt \<Rightarrow> is_indexable dt \<and> (ic_auto_increment ic \<longrightarrow> dt = TInt32 \<or> dt = TInt64))"

definition fk_wf :: "string \<Rightarrow> index_def list \<Rightarrow> foreign_key \<Rightarrow> bool" where
  "fk_wf tbl ixs fk \<longleftrightarrow> fk_child_table fk = tbl
     \<and> (\<exists>ix \<in> set ixs. id_name ix = fk_name fk \<and> map ic_name (id_columns ix) = [fk_child_column fk])"

definition builder_wf :: "table_builder \<Rightarrow> bool" where
  "builder_wf b \<longleftrightarrow> distinct (map col_name (tb_columns b))
     \<and> (\<forall>ix \<in> set (tb_indices b). index_wf (tb_name b) (tb_columns b) ix)
     \<and> (\<forall>ic \<in> set (tb_pk_columns b). pk_column_wf (tb_columns b) ic)
     \<and> (\<forall>fk \<in> set (tb_foreign_keys b). fk_wf (tb_name b) (tb_indices b) fk)"

definition keeps_types :: "column list \<Rightarrow> column list \<Rightarrow> bool" where
  "keeps_types cs cs' \<longleftrightarrow> (\<forall>name dt. col_type cs name = Some dt \<longrightarrow> col_type cs' name = Some dt)"

lemma col_type_simps [simp]:
  "col_type [] name = None"
  "col_type (c # cs) name = (if col_name c = name then Some (col_data_type c) else col_type cs name)"
  by (simp_all add: col_type_def)

lemma col_type_append: "col_type (cs @ ds) name = (case col_type cs name of None \<Rightarrow> col_type ds name | Some dt \<Rightarrow> Some dt)"
  by (induction cs) auto

lemma col_type_Some: "col_type cs name \<noteq> None \<longleftrightarrow> (\<exists>c \<in> set cs. col_name c = name)"
  by (induction cs) auto

lemma find_col_type:
  "find (\<lambda>c. col_name c = name) cs = None \<longleftrightarrow> col_type cs name = None"
  "find (\<lambda>c. col_name c = name) cs = Some c \<Longrightarrow> col_type cs name = Some (col_data_type c)"
  by (simp_all add: col_type_def)

lemma make_nullable_keeps: "col_type (make_nullable name cs) n = col_type cs n"
  "map col_name (make_nullable name cs) = map col_name cs"
  by (induction cs) auto

lemma fold_make_nullable_keeps: "col_type (fold make_nullable names cs) n = col_type cs n"
  "map col_name (fold make_nullable names cs) = map col_name cs"
  by (induction names arbitrary: cs) (simp_all add: make_nullable_keeps)

lemma keeps_types_wf:
  assumes "keeps_types cs cs'"
  shows "pk_column_wf cs ic \<Longrightarrow> pk_column_wf cs' ic"
    and "index_wf tbl cs ix \<Longrightarrow> index_wf tbl cs' ix"
proof -
  show "pk_column_wf cs ic \<Longrightarrow> pk_column_wf cs' ic"
    using assms by (auto simp: pk_column_wf_def keeps_types_def split: option.splits)
  show "index_wf tbl cs ix \<Longrightarrow> index_wf tbl cs' ix"
    using assms unfolding index_wf_def keeps_types_def by (metis not_Some_eq)
qed

lemma fk_wf_mono: "fk_wf tbl ixs fk \<Longrightarrow> set ixs \<subseteq> set ixs' \<Longrightarrow> fk_wf tbl ixs' fk"
  by (auto simp: fk_wf_def)

text \<open>What the checks of the builder accept.\<close>

lemma validate_pk_columns_ok:
  "validate_pk_columns cs ics = Inr () \<Longrightarrow> \<forall>ic \<in> set ics. pk_column_wf cs ic"
  by (induction cs ics rule: validate_pk_columns.induct)
    (auto simp: pk_column_wf_def column_is_indexable_def find_col_type split: option.splits if_splits)

lemma validate_found_ok: "validate_found cs ics = Inr () \<Longrightarrow> \<forall>ic \<in> set ics. col_type cs (ic_name ic) \<noteq> None"
  unfolding col_type_Some by (induction ics) (auto split: if_splits)

lemma validate_index_columns_ok:
  "validate_index_columns cs ics g = Inr use_gin \<Longrightarrow> \<forall>ic \<in> set ics. col_type cs (ic_name ic) \<noteq> None"
  by (induction cs ics g rule: validate_index_columns.induct)
    (auto simp: find_col_type split: option.splits if_splits)

lemma validate_hash_columns_ok: "validate_hash_columns cs ics = Inr ()
    \<Longrightarrow> \<forall>ic \<in> set ics. col_type cs (ic_name ic) \<noteq> None \<and> col_type cs (ic_name ic) \<noteq> Some TJsonb"
  by (induction cs ics rule: validate_hash_columns.induct)
    (auto simp: find_col_type split: option.splits if_splits)

lemmas builder_defs = tb_add_column_def tb_add_nullable_def tb_add_primary_key_def tb_add_unique_def tb_add_index_def
  tb_add_jsonb_index_def tb_add_hash_index_def tb_add_foreign_key_with_graphql_names_def tb_add_foreign_key_def

text \<open>An index added to an intact builder, and columns added to one.\<close>

lemma builder_wf_add_index:
  assumes "builder_wf b" "index_wf (tb_name b) (tb_columns b) ix"
  shows "builder_wf (b\<lparr>tb_indices := tb_indices b @ [ix]\<rparr>)"
  using assms by (auto simp: builder_wf_def fk_wf_def)

lemma builder_wf_columns:
  assumes "builder_wf b" "keeps_types (tb_columns b) cs" "distinct (map col_name cs)"
  shows "builder_wf (b\<lparr>tb_columns := cs\<rparr>)"
  using assms keeps_types_wf [OF assms(2)] by (auto simp: builder_wf_def)

lemma tb_add_index_wf:
  assumes "builder_wf b" "tb_add_index name cols uniq b = Inr b'"
  shows "builder_wf b' \<and> tb_name b' = tb_name b \<and> tb_columns b' = tb_columns b
    \<and> (\<exists>ix. tb_indices b' = tb_indices b @ [ix] \<and> id_name ix = name \<and> map ic_name (id_columns ix) = cols)"
proof -
  obtain g where g: "validate_index_columns (tb_columns b) (map indexed_column_new cols) False = Inr g"
    using assms(2) by (auto simp: tb_add_index_def Let_def split: sum.splits)
  note found = validate_index_columns_ok [OF g]
  show ?thesis using assms g found
    by (auto simp: tb_add_index_def Let_def index_def_new_def indexed_column_new_def index_wf_def comp_def
        intro!: builder_wf_add_index split: sum.splits if_splits)
qed

lemma tb_add_foreign_key_wf:
  assumes "builder_wf b" "tb_add_foreign_key name child parent parent_col b = Inr b'"
  shows "builder_wf b' \<and> tb_name b' = tb_name b"
proof -
  let ?fk = "fk_graphql_fields None None (foreign_key_new name (tb_name b) child parent parent_col)"
  let ?b = "b\<lparr>tb_foreign_keys := tb_foreign_keys b @ [?fk]\<rparr>"
  obtain u where add: "tb_add_index name [child] u ?b = Inr b'"
    using assms(2) by (auto simp: tb_add_foreign_key_def tb_add_foreign_key_with_graphql_names_def Let_def
        split: sum.splits if_splits)
  then obtain b1 where b1: "tb_add_index name [child] u b = Inr b1" "b' = b1\<lparr>tb_foreign_keys := tb_foreign_keys b @ [?fk]\<rparr>"
    by (auto simp: tb_add_index_def Let_def split: sum.splits if_splits)
  obtain ix where ix: "tb_indices b1 = tb_indices b @ [ix]" "id_name ix = name" "map ic_name (id_columns ix) = [child]"
    "builder_wf b1" "tb_name b1 = tb_name b" using tb_add_index_wf [OF assms(1) b1(1)] by auto
  have "tb_foreign_keys b1 = tb_foreign_keys b"
    using b1(1) by (auto simp: tb_add_index_def Let_def split: sum.splits if_splits)
  then show ?thesis using ix b1(2)
    by (auto simp: builder_wf_def fk_wf_def fk_graphql_fields_def foreign_key_new_def)
qed

lemma tb_call_wf:
  assumes "builder_wf b" "tb_call c b = Inr b'"
  shows "builder_wf b' \<and> tb_name b' = tb_name b"
proof (cases c)
  case (AddColumn name dt)
  have fresh: "col_type (tb_columns b) name = None" "b' = b\<lparr>tb_columns := tb_columns b @ [column_new name dt]\<rparr>"
    using assms(2) AddColumn col_type_Some [of "tb_columns b" name]
    by (auto simp: tb_add_column_def split: sum.splits if_splits)
  have "keeps_types (tb_columns b) (tb_columns b @ [column_new name dt])"
    by (auto simp: keeps_types_def col_type_append)
  moreover have "distinct (map col_name (tb_columns b @ [column_new name dt]))"
    using assms(1) fresh(1) col_type_Some [of "tb_columns b" name] by (auto simp: builder_wf_def column_new_def)
  ultimately show ?thesis using builder_wf_columns [OF assms(1)] fresh(2) by simp
next
  case (AddNullable names)
  then show ?thesis using assms builder_wf_columns [OF assms(1)]
    by (auto simp: tb_add_nullable_def keeps_types_def fold_make_nullable_keeps builder_wf_def)
next
  case (AddPrimaryKey cols auto)
  then obtain ics where "validate_pk_columns (tb_columns b) ics = Inr ()"
    "b' = (push_single cols b)\<lparr>tb_pk_name := Some (''pk'' @ capitalize (tb_name b)), tb_pk_columns := ics\<rparr>"
    using assms(2) by (auto simp: tb_add_primary_key_def Let_def split: sum.splits)
  then show ?thesis using assms(1) validate_pk_columns_ok by (auto simp: builder_wf_def push_single_def)
next
  case (AddUnique name cols)
  then have "validate_found (tb_columns b) (map indexed_column_new cols) = Inr ()"
    using assms(2) by (auto simp: tb_add_unique_def Let_def split: sum.splits)
  note found = validate_found_ok [OF this]
  show ?thesis using assms AddUnique found
    by (auto simp: tb_add_unique_def Let_def push_single_def index_def_new_def index_wf_def builder_wf_def fk_wf_def
        split: sum.splits if_splits)
next
  case (AddIndex name cols uniq)
  then show ?thesis using assms tb_add_index_wf [of b name cols uniq b'] by simp
next
  case (AddJsonbIndex name col paths)
  then obtain c where "find (\<lambda>c. col_name c = col) (tb_columns b) = Some c"
    using assms(2) by (auto simp: tb_add_jsonb_index_def split: sum.splits option.splits)
  then have "col_type (tb_columns b) col \<noteq> None" by (simp add: col_type_def)
  then show ?thesis using assms AddJsonbIndex
    by (auto simp: tb_add_jsonb_index_def Let_def index_def_new_def index_wf_def with_gin_paths_def indexed_column_new_def
        intro!: builder_wf_add_index split: sum.splits option.splits if_splits)
next
  case (AddHashIndex name cols uniq)
  then have "validate_hash_columns (tb_columns b) (map indexed_column_new cols) = Inr ()"
    using assms(2) by (auto simp: tb_add_hash_index_def Let_def split: sum.splits)
  note found = validate_hash_columns_ok [OF this]
  show ?thesis using assms AddHashIndex found
    by (auto simp: tb_add_hash_index_def Let_def index_def_new_def index_wf_def
        intro!: builder_wf_add_index split: sum.splits)
next
  case (AddForeignKey name child parent parent_col)
  then show ?thesis using assms tb_add_foreign_key_wf by simp
qed

lemma tb_calls_wf: "builder_wf b \<Longrightarrow> tb_calls cs b = Inr b' \<Longrightarrow> builder_wf b' \<and> tb_name b' = tb_name b"
  by (induction cs arbitrary: b) (fastforce split: sum.splits dest: tb_call_wf)+

lemma build_tableD:
  assumes "build_table name calls = Inr t"
  obtains b where "builder_wf b" "tb_name b = name" "tb_build b = Inr t"
proof -
  obtain b0 b where b: "tb_new name = Inr b0" "tb_calls calls b0 = Inr b" "tb_build b = Inr t"
    using assms by (auto simp: build_table_def split: sum.splits)
  have "builder_wf b0" "tb_name b0 = name"
    using b(1) by (auto simp: tb_new_def builder_wf_def split: sum.splits)
  then show thesis using tb_calls_wf [OF _ b(2)] b(3) that by auto
qed

lemma position_first: "distinct (map f xs) \<Longrightarrow> i < length xs \<Longrightarrow> position (\<lambda>x. f x = f (xs ! i)) xs = Some i"
proof (induction xs arbitrary: i)
  case (Cons x xs)
  show ?case
  proof (cases i)
    case (Suc j)
    then have "f (xs ! j) \<noteq> f x" using Cons.prems by (metis Suc_less_eq distinct.simps(2) image_eqI length_Cons list.simps(9) nth_mem set_map)
    then show ?thesis using Cons Suc by simp
  qed simp
qed simp

text \<open>The columns of the built table are the builder's, numbered.\<close>

definition built_columns :: "table_builder \<Rightarrow> column list" where
  "built_columns b = map (\<lambda>(i, c). c\<lparr>col_unique := col_name c \<in> set (tb_unique_columns b), col_index := i\<rparr>)
     (zip [0..<length (tb_columns b)] (tb_columns b))"

lemma length_built_columns [simp]: "length (built_columns b) = length (tb_columns b)"
  by (simp add: built_columns_def)

lemma built_columns_nth: "i < length (tb_columns b) \<Longrightarrow> built_columns b ! i
    = (tb_columns b ! i)\<lparr>col_unique := col_name (tb_columns b ! i) \<in> set (tb_unique_columns b), col_index := i\<rparr>"
  by (simp add: built_columns_def)

lemma col_type_nth_cong:
  assumes "list_all2 (\<lambda>c d. col_name c = col_name d \<and> col_data_type c = col_data_type d) cs ds"
  shows "map col_name cs = map col_name ds" "col_type cs n = col_type ds n"
  using assms by (induction rule: list_all2_induct) auto

lemma built_columns_names: "map col_name (built_columns b) = map col_name (tb_columns b)"
  "col_type (built_columns b) n = col_type (tb_columns b) n"
proof -
  have all: "list_all2 (\<lambda>c d. col_name c = col_name d \<and> col_data_type c = col_data_type d) (built_columns b) (tb_columns b)"
    by (simp add: list_all2_conv_all_nth built_columns_nth)
  show "map col_name (built_columns b) = map col_name (tb_columns b)"
    "col_type (built_columns b) n = col_type (tb_columns b) n" by (rule col_type_nth_cong [OF all])+
qed

lemma fold_add_fk [simp]: "cs_primary_key (fold constraints_add_foreign_key fks c) = cs_primary_key c"
  "cs_foreign_keys (fold constraints_add_foreign_key fks c) = cs_foreign_keys c @ fks"
  "cs_not_nullable (fold constraints_add_foreign_key fks c) = cs_not_nullable c"
  by (induction fks arbitrary: c) (simp_all add: constraints_add_foreign_key_def)

lemma tb_build_parts:
  assumes "tb_build b = Inr t"
  shows "tbl_name t = tb_name b" "tbl_columns t = built_columns b"
    "set (tbl_indices t) = set (tb_indices b) \<union> set_option (table_primary_key t)"
    "table_primary_key t = map_option (\<lambda>n. (index_def_new n (tb_name b) (tb_pk_columns b))\<lparr>id_unique := True\<rparr>) (tb_pk_name b)"
    "cs_foreign_keys (tbl_constraints t) = tb_foreign_keys b"
    "cs_not_nullable (tbl_constraints t) = map col_name (filter (\<lambda>c. \<not> col_nullable c) (tb_columns b))"
proof -
  have t: "t = (case tb_pk_name b of
      None \<Rightarrow> \<lparr>tbl_name = tb_name b, tbl_columns = built_columns b, tbl_indices = tb_indices b,
        tbl_constraints = fold constraints_add_foreign_key (tb_foreign_keys b) (constraints_new
          \<lparr>cs_not_nullable := map col_name (filter (\<lambda>c. \<not> col_nullable c) (tb_columns b))\<rparr>),
        tbl_persistent_index = tb_persistent_index b\<rparr>
    | Some n \<Rightarrow> let pk = (index_def_new n (tb_name b) (tb_pk_columns b))\<lparr>id_unique := True\<rparr> in
        \<lparr>tbl_name = tb_name b, tbl_columns = built_columns b, tbl_indices = tb_indices b @ [pk],
        tbl_constraints = fold constraints_add_foreign_key (tb_foreign_keys b) (constraints_new
          \<lparr>cs_primary_key := Some pk, cs_not_nullable := map col_name (filter (\<lambda>c. \<not> col_nullable c) (tb_columns b))\<rparr>),
        tbl_persistent_index = tb_persistent_index b\<rparr>)"
    using assms unfolding tb_build_def built_columns_def Let_def by (cases "tb_pk_name b") (simp_all add: constraints_new_def)
  show "tbl_name t = tb_name b" "tbl_columns t = built_columns b"
    "set (tbl_indices t) = set (tb_indices b) \<union> set_option (table_primary_key t)"
    "table_primary_key t = map_option (\<lambda>n. (index_def_new n (tb_name b) (tb_pk_columns b))\<lparr>id_unique := True\<rparr>) (tb_pk_name b)"
    "cs_foreign_keys (tbl_constraints t) = tb_foreign_keys b"
    "cs_not_nullable (tbl_constraints t) = map col_name (filter (\<lambda>c. \<not> col_nullable c) (tb_columns b))"
    unfolding t Let_def table_primary_key_def by (cases "tb_pk_name b"; simp add: constraints_new_def)+
qed

section \<open>Properties\<close>

text \<open>
  C30. Whatever calls put a table together, a table that the builder hands out is well formed: its column
  names are distinct and a lookup of a column's name gives its position, every index and the primary
  key refer to columns of the table, primary-key columns have an indexable type (an integer type where
  they count up), hash indices hold no JSON column, and every foreign key starts at this table and has
  an index of its name on its column.
\<close>

theorem built_table_well_formed:
  assumes "build_table name calls = Inr t"
  shows "tbl_name t = name \<and> distinct (map col_name (tbl_columns t))
    \<and> (\<forall>i < length (tbl_columns t). col_index (tbl_columns t ! i) = i
        \<and> get_column_index (col_name (tbl_columns t ! i)) t = Some i)
    \<and> (\<forall>ix \<in> set (tbl_indices t). index_wf name (tbl_columns t) ix)
    \<and> (\<forall>pk. table_primary_key t = Some pk \<longrightarrow> id_unique pk \<and> pk \<in> set (tbl_indices t)
        \<and> (\<forall>ic \<in> set (id_columns pk). pk_column_wf (tbl_columns t) ic))
    \<and> (\<forall>fk \<in> set (cs_foreign_keys (tbl_constraints t)). fk_wf name (tbl_indices t) fk)"
proof -
  obtain b where b: "builder_wf b" "tb_name b = name" "tb_build b = Inr t" using build_tableD [OF assms] .
  note parts = tb_build_parts [OF b(3)]
  note cols = built_columns_names [of b]
  have idx: "get_column_index (col_name (built_columns b ! i)) t = Some i" if "i < length (tb_columns b)" for i
    using that b(1) cols(1) position_first [of col_name "built_columns b" i]
    by (simp add: get_column_index_def parts(2) builder_wf_def)
  have ixs: "index_wf name (built_columns b) ix" if "ix \<in> set (tb_indices b)" for ix
    using that b(1,2) cols(2) by (auto simp: builder_wf_def index_wf_def)
  have pk: "pk_column_wf (built_columns b) ic" if "ic \<in> set (tb_pk_columns b)" for ic
    using that b(1) cols(2) by (auto simp: builder_wf_def pk_column_wf_def)
  have pk_ix: "index_wf name (built_columns b) ix" "id_unique ix" "id_columns ix = tb_pk_columns b"
    if h: "table_primary_key t = Some ix" for ix
  proof -
    obtain n where ix: "ix = (index_def_new n name (tb_pk_columns b))\<lparr>id_unique := True\<rparr>"
      using h unfolding parts(4) b(2) by auto
    then show "id_unique ix" "id_columns ix = tb_pk_columns b" by (simp_all add: index_def_new_def)
    have "col_type (built_columns b) (ic_name ic) \<noteq> None" if "ic \<in> set (tb_pk_columns b)" for ic
      using pk [OF that] by (auto simp: pk_column_wf_def split: option.splits)
    then show "index_wf name (built_columns b) ix" by (simp add: ix index_wf_def index_def_new_def)
  qed
  have fk: "fk_wf name (tbl_indices t) fk" if "fk \<in> set (tb_foreign_keys b)" for fk
  proof (rule fk_wf_mono)
    show "fk_wf name (tb_indices b) fk" using that b(1) unfolding builder_wf_def b(2) by (elim conjE bspec)
    show "set (tb_indices b) \<subseteq> set (tbl_indices t)" by (simp add: parts(3))
  qed
  show ?thesis unfolding parts(1,2,5) b(2)
  proof (intro conjI allI ballI impI)
    show "distinct (map col_name (built_columns b))" using b(1) cols(1) by (simp add: builder_wf_def)
    show "col_index (built_columns b ! i) = i" "get_column_index (col_name (built_columns b ! i)) t = Some i"
      if "i < length (built_columns b)" for i using that idx by (simp_all add: built_columns_nth)
    show "index_wf name (built_columns b) ix" if "ix \<in> set (tbl_indices t)" for ix
      using that ixs pk_ix(1) unfolding parts(3) by auto
    show "id_unique ix" if "table_primary_key t = Some ix" for ix using pk_ix(2) [OF that] .
    show "ix \<in> set (tbl_indices t)" if "table_primary_key t = Some ix" for ix using that unfolding parts(3) by simp
    show "pk_column_wf (built_columns b) ic" if "table_primary_key t = Some ix" "ic \<in> set (id_columns ix)" for ix ic
      using pk that(2) unfolding pk_ix(3) [OF that(1)] .
    show "fk_wf name (tbl_indices t) f" if "f \<in> set (tb_foreign_keys b)" for f using fk [OF that] .
  qed simp
qed

theorem built_table_well_formed_witness:
  "\<exists>t. build_table ''users'' [AddColumn ''id'' TInt64, AddColumn ''email'' TString, AddPrimaryKey [''id''] True,
      AddUnique ''uq_email'' [''email'']] = Inr t
    \<and> get_column_index ''email'' t = Some 1 \<and> distinct (map col_name (tbl_columns t))"
proof -
  let ?calls = "[AddColumn ''id'' TInt64, AddColumn ''email'' TString, AddPrimaryKey [''id''] True, AddUnique ''uq_email'' [''email'']]"
  have ok: "isl (build_table ''users'' ?calls) = False" by code_simp
  then obtain t where t: "build_table ''users'' ?calls = Inr t" by (cases "build_table ''users'' ?calls") auto
  have "map_sum (\<lambda>e. ()) (\<lambda>t. get_column_index ''email'' t) (build_table ''users'' ?calls) = Inr (Some 1)"
    by code_simp
  then show ?thesis using built_table_well_formed [OF t] t by auto
qed

text \<open>
  Names are not guarded enough: two indices of a table may have the same name, and the lookup by name
  finds only the first.
\<close>

theorem index_names_may_clash:
  "\<exists>t. build_table ''t'' [AddColumn ''a'' TInt64, AddColumn ''b'' TInt64, AddUnique ''ix'' [''a''], AddIndex ''ix'' [''b''] False] = Inr t
    \<and> map id_name (tbl_indices t) = [''ix'', ''ix''] \<and> map id_unique (tbl_indices t) = [True, False]"
proof -
  let ?calls = "[AddColumn ''a'' TInt64, AddColumn ''b'' TInt64, AddUnique ''ix'' [''a''], AddIndex ''ix'' [''b''] False]"
  have "map_sum (\<lambda>e. ()) (\<lambda>t. (map id_name (tbl_indices t), map id_unique (tbl_indices t))) (build_table ''t'' ?calls)
      = Inr ([''ix'', ''ix''], [True, False])" by code_simp
  then show ?thesis by (cases "build_table ''t'' ?calls") auto
qed

end
