(* ===== verification/Cynos_Index_Key.thy ===== *)
theory Cynos_Index_Key
  imports Cynos_Schema Cynos_Btree_Index
begin

text \<open>
  The keys of the row store's indices (\<open>crates/storage/src/row_store.rs\<close>): \<open>IndexKey\<close> with its order, the
  translation of ranges, and the two kinds of index store behind it. The indices of \<open>Cynos_Btree\<close> and
  \<open>Cynos_Hash_Index\<close> are over a linear order whose equality is identity. \<open>Value\<close> is one on the values of
  one type other than NaN and the negative zero (\<open>comparable\<close>), so values and keys are given a linear
  order that extends the code's; on keys of comparable values the two are the same (\<open>index_key_cmp_ord\<close>).
\<close>

section \<open>A linear order that extends the code's\<close>

definition value_rank :: "value \<Rightarrow> value_key \<times> nat \<times> nat" where
  "value_rank v = (value_key_via (\<lambda>v. case v of Int32 i \<Rightarrow> sint i | Int64 i \<Rightarrow> sint i | Float64 f \<Rightarrow> float_key f | _ \<Rightarrow> 0) v,
     type_order v, (case v of Float64 f \<Rightarrow> unat f | _ \<Rightarrow> 0))"

lemma value_rank_inject: "value_rank v = value_rank w \<longleftrightarrow> v = w"
  by (cases v; cases w) (auto simp: value_rank_def dest: signed_word_eqI intro: word_unat_eq_iff [THEN iffD2])

instantiation "value" :: linorder
begin

definition less_eq_value :: "value \<Rightarrow> value \<Rightarrow> bool" where
  "less_eq_value v w \<longleftrightarrow> value_rank v \<le> value_rank w"

definition less_value :: "value \<Rightarrow> value \<Rightarrow> bool" where
  "less_value v w \<longleftrightarrow> value_rank v < value_rank w"

instance
  by intro_classes (auto simp: less_eq_value_def less_value_def value_rank_inject [symmetric])

end

text \<open>A value that \<open>PartialEq\<close> tells from every other, and two such values a column may hold.\<close>

fun canonical :: "value \<Rightarrow> bool" where
  "canonical (Float64 f) \<longleftrightarrow> \<not> f64_is_nan f \<and> f \<noteq> 0x8000000000000000"
| "canonical _ \<longleftrightarrow> True"

definition comparable :: "value \<Rightarrow> value \<Rightarrow> bool" where
  "comparable v w \<longleftrightarrow> canonical v \<and> canonical w
     \<and> (v = Null \<or> w = Null \<or> value_data_type v = value_data_type w)"

lemma f64_parts_eq: "unat f = (if f64_negative f then 2 ^ 63 else 0) + f64_magnitude f"
proof -
  have "unat f < 2 ^ 64" using unsigned_less [of f] by simp
  then show ?thesis by (cases "2 ^ 63 \<le> unat f") (simp_all add: f64_negative_def f64_magnitude_def le_mod_geq)
qed

lemma f64_key_canonical:
  assumes "f64_key f = f64_key g" "f \<noteq> 0x8000000000000000" "g \<noteq> 0x8000000000000000"
  shows "f = g"
proof -
  have zero: "f64_magnitude h \<noteq> 0 \<or> \<not> f64_negative h" if "h \<noteq> 0x8000000000000000" for h
  proof (rule ccontr)
    assume "\<not> ?thesis"
    then have "unat h = unat (0x8000000000000000 :: f64)" using f64_parts_eq [of h] by simp
    then show False using that by (simp only: word_unat_eq_iff)
  qed
  have "f64_negative f = f64_negative g \<and> f64_magnitude f = f64_magnitude g"
    using assms(1) zero [OF assms(2)] zero [OF assms(3)] by (auto simp: f64_key_def split: if_splits)
  then have "unat f = unat g" using f64_parts_eq [of f] f64_parts_eq [of g] by simp
  then show ?thesis by (simp only: word_unat_eq_iff)
qed

lemma comparable_cmp:
  assumes "comparable v w"
  shows "value_cmp v w = ord_cmp v w" "value_eq v w \<longleftrightarrow> v = w"
proof -
  have fl: "value_cmp v w = ord_cmp v w" if "v = Float64 f" "w = Float64 g" for f g
  proof -
    have "\<not> f64_is_nan f" "\<not> f64_is_nan g" "f64_key f = f64_key g \<longleftrightarrow> f = g"
      using assms that f64_key_canonical [of f g] by (auto simp: comparable_def)
    then show ?thesis using that
      by (auto simp: ord_cmp_def less_value_def value_rank_def float_cmp_key float_key_def)
  qed
  have ne: "value_cmp v w = ord_cmp v w" if "\<not> (is_float v \<and> is_float w)"
    using assms that
    by (cases v; cases w) (auto simp: comparable_def ord_cmp_def less_value_def value_rank_def dest: signed_word_eqI)
  show "value_cmp v w = ord_cmp v w" using fl ne by (cases v; cases w) auto
  show "value_eq v w \<longleftrightarrow> v = w"
    using assms f64_key_canonical
    by (cases v; cases w) (auto simp: comparable_def f64_eq_def)
qed

lemma canonical_eq: "canonical v \<Longrightarrow> canonical w \<Longrightarrow> value_eq v w \<longleftrightarrow> v = w"
  using f64_key_canonical by (cases v; cases w) (auto simp: f64_eq_def)

section \<open>Keys\<close>

datatype index_key =
    IKScalar "value"
  | IKComposite "value list"
  | IKCompositePrefixLower "value list"
  | IKCompositePrefixUpper "value list"

definition ik_from_values :: "value list \<Rightarrow> index_key" where
  "ik_from_values vs = (if length vs = 1 then IKScalar (last vs) else IKComposite vs)"

definition ik_from_row :: "row \<Rightarrow> nat list \<Rightarrow> index_key" where
  "ik_from_row r cols = ik_from_values (map (\<lambda>i. case row_get r i of Some v \<Rightarrow> v | None \<Rightarrow> Null) cols)"

text \<open>The derived \<open>PartialEq\<close>.\<close>

fun index_key_eq :: "index_key \<Rightarrow> index_key \<Rightarrow> bool" where
  "index_key_eq (IKScalar a) (IKScalar b) = value_eq a b"
| "index_key_eq (IKComposite a) (IKComposite b) = list_all2 value_eq a b"
| "index_key_eq (IKCompositePrefixLower a) (IKCompositePrefixLower b) = list_all2 value_eq a b"
| "index_key_eq (IKCompositePrefixUpper a) (IKCompositePrefixUpper b) = list_all2 value_eq a b"
| "index_key_eq _ _ = False"

fun kr_map :: "('a \<Rightarrow> 'b) \<Rightarrow> 'a key_range \<Rightarrow> 'b key_range" where
  "kr_map f All = All"
| "kr_map f (Only v) = Only (f v)"
| "kr_map f (LowerBound v ex) = LowerBound (f v) ex"
| "kr_map f (UpperBound v ex) = UpperBound (f v) ex"
| "kr_map f (Bound lo up lo_ex up_ex) = Bound (f lo) (f up) lo_ex up_ex"

definition ik_from_scalar_range :: "value key_range option \<Rightarrow> index_key key_range option" where
  "ik_from_scalar_range = map_option (kr_map IKScalar)"

definition ik_from_composite_range :: "value list key_range option \<Rightarrow> index_key key_range option" where
  "ik_from_composite_range = map_option (kr_map ik_from_values)"

text \<open>\<open>dbg\<close> is the \<open>Debug\<close> form of a vector of values, which \<open>format!\<close> prints.\<close>

fun ik_to_error_value :: "(value list \<Rightarrow> string) \<Rightarrow> index_key \<Rightarrow> value" where
  "ik_to_error_value dbg (IKScalar v) = v"
| "ik_to_error_value dbg (IKComposite vs) = Str (dbg vs)"
| "ik_to_error_value dbg (IKCompositePrefixLower vs) = Str (dbg vs)"
| "ik_to_error_value dbg (IKCompositePrefixUpper vs) = Str (dbg vs)"

datatype key_component = CLow | CEnd | CValue "value" | CHigh

fun composite_component_at :: "index_key \<Rightarrow> nat \<Rightarrow> key_component" where
  "composite_component_at (IKComposite vs) i = (if i < length vs then CValue (vs ! i) else CEnd)"
| "composite_component_at (IKCompositePrefixLower vs) i = (if i < length vs then CValue (vs ! i) else CLow)"
| "composite_component_at (IKCompositePrefixUpper vs) i = (if i < length vs then CValue (vs ! i) else CHigh)"
| "composite_component_at (IKScalar v) i = (if i = 0 then CValue v else CEnd)"

fun composite_like_len :: "index_key \<Rightarrow> nat" where
  "composite_like_len (IKScalar _) = 1"
| "composite_like_len (IKComposite vs) = length vs"
| "composite_like_len (IKCompositePrefixLower vs) = length vs"
| "composite_like_len (IKCompositePrefixUpper vs) = length vs"

fun component_cmp :: "key_component \<Rightarrow> key_component \<Rightarrow> ordering" where
  "component_cmp CLow CLow = Equal"
| "component_cmp CEnd CEnd = Equal"
| "component_cmp CHigh CHigh = Equal"
| "component_cmp (CValue a) (CValue b) = value_cmp a b"
| "component_cmp CLow _ = Less"
| "component_cmp _ CLow = Greater"
| "component_cmp CEnd (CValue _) = Less"
| "component_cmp CEnd CHigh = Less"
| "component_cmp (CValue _) CEnd = Greater"
| "component_cmp CHigh CEnd = Greater"
| "component_cmp (CValue _) CHigh = Less"
| "component_cmp CHigh (CValue _) = Greater"

text \<open>The loop over the components, up to the first that differs.\<close>

fun components_loop :: "(nat \<Rightarrow> key_component) \<Rightarrow> (nat \<Rightarrow> key_component) \<Rightarrow> nat list \<Rightarrow> ordering" where
  "components_loop f g [] = Equal"
| "components_loop f g (i # is) =
     (let c = component_cmp (f i) (g i) in if c \<noteq> Equal then c else components_loop f g is)"

fun index_key_cmp :: "index_key \<Rightarrow> index_key \<Rightarrow> ordering" where
  "index_key_cmp (IKScalar a) (IKScalar b) = value_cmp a b"
| "index_key_cmp (IKScalar _) _ = Less"
| "index_key_cmp _ (IKScalar _) = Greater"
| "index_key_cmp a b =
     (let max_len = max (composite_like_len a) (composite_like_len b) + 1
      in components_loop (composite_component_at a) (composite_component_at b) [0..<max_len])"

section \<open>The order of keys\<close>

definition component_rank :: "key_component \<Rightarrow> nat \<times> value" where
  "component_rank c = (case c of CLow \<Rightarrow> (0, Null) | CEnd \<Rightarrow> (1, Null) | CValue v \<Rightarrow> (2, v) | CHigh \<Rightarrow> (3, Null))"

lemma component_rank_inject: "component_rank c = component_rank d \<longleftrightarrow> c = d"
  by (cases c; cases d) (auto simp: component_rank_def)

instantiation key_component :: linorder
begin

definition less_eq_key_component :: "key_component \<Rightarrow> key_component \<Rightarrow> bool" where
  "less_eq_key_component c d \<longleftrightarrow> component_rank c \<le> component_rank d"

definition less_key_component :: "key_component \<Rightarrow> key_component \<Rightarrow> bool" where
  "less_key_component c d \<longleftrightarrow> component_rank c < component_rank d"

instance
  by intro_classes (auto simp: less_eq_key_component_def less_key_component_def component_rank_inject [symmetric])

end

fun index_key_rank :: "index_key \<Rightarrow> nat \<times> key_component list" where
  "index_key_rank (IKScalar v) = (0, [CValue v])"
| "index_key_rank (IKComposite vs) = (1, map CValue vs @ [CEnd])"
| "index_key_rank (IKCompositePrefixLower vs) = (1, map CValue vs @ [CLow])"
| "index_key_rank (IKCompositePrefixUpper vs) = (1, map CValue vs @ [CHigh])"

lemma index_key_rank_inject: "index_key_rank k = index_key_rank l \<longleftrightarrow> k = l"
proof -
  have "map CValue vs = map CValue ws \<longleftrightarrow> vs = ws" for vs ws by (simp add: inj_map_eq_map inj_def)
  then show ?thesis by (cases k; cases l) auto
qed

instantiation index_key :: linorder
begin

definition less_eq_index_key :: "index_key \<Rightarrow> index_key \<Rightarrow> bool" where
  "less_eq_index_key k l \<longleftrightarrow> index_key_rank k \<le> index_key_rank l"

definition less_index_key :: "index_key \<Rightarrow> index_key \<Rightarrow> bool" where
  "less_index_key k l \<longleftrightarrow> index_key_rank k < index_key_rank l"

instance
  by intro_classes (auto simp: less_eq_index_key_def less_index_key_def index_key_rank_inject [symmetric])

end

text \<open>The values of a key, and keys whose values can be compared position by position.\<close>

fun key_values :: "index_key \<Rightarrow> value list" where
  "key_values (IKScalar v) = [v]"
| "key_values (IKComposite vs) = vs"
| "key_values (IKCompositePrefixLower vs) = vs"
| "key_values (IKCompositePrefixUpper vs) = vs"

definition comparable_keys :: "index_key \<Rightarrow> index_key \<Rightarrow> bool" where
  "comparable_keys k l \<longleftrightarrow> list_all (\<lambda>(v, w). comparable v w) (zip (key_values k) (key_values l))"

definition canonical_key :: "index_key \<Rightarrow> bool" where
  "canonical_key k \<longleftrightarrow> list_all canonical (key_values k)"

lemma component_cmp_ord:
  assumes "\<And>v w. c = CValue v \<Longrightarrow> d = CValue w \<Longrightarrow> comparable v w"
  shows "component_cmp c d = ord_cmp c d"
  using assms comparable_cmp(1)
  by (cases c; cases d) (auto simp: ord_cmp_def less_key_component_def component_rank_def)

lemma ord_cmp_cons: "ord_cmp (x # xs) (y # ys) = (if ord_cmp x y = Equal then ord_cmp xs ys else ord_cmp x y)"
  by (auto simp: ord_cmp_def)

definition component_of :: "value list \<Rightarrow> key_component \<Rightarrow> nat \<Rightarrow> key_component" where
  "component_of vs p i = (if i < length vs then CValue (vs ! i) else p)"

lemma components_loop_Suc:
  "components_loop f g (map Suc is) = components_loop (\<lambda>i. f (Suc i)) (\<lambda>i. g (Suc i)) is"
  by (induction "is") (simp_all add: Let_def)

lemma components_loop_upt:
  "components_loop f g [0..<Suc n]
    = (if component_cmp (f 0) (g 0) = Equal then components_loop (\<lambda>i. f (Suc i)) (\<lambda>i. g (Suc i)) [0..<n]
       else component_cmp (f 0) (g 0))"
proof -
  have "[0..<Suc n] = 0 # map Suc [0..<n]" by (simp add: upt_conv_Cons map_Suc_upt del: upt_Suc)
  then show ?thesis by (simp add: components_loop_Suc Let_def del: upt_Suc)
qed

lemma component_of_Cons [simp]: "component_of (v # vs) p 0 = CValue v"
  "(\<lambda>i. component_of (v # vs) p (Suc i)) = component_of vs p"
  "component_of [] p i = p" "component_of [] p = (\<lambda>i. p)"
  by (auto simp: component_of_def)

lemma components_loop_same: "(\<forall>v. p \<noteq> CValue v) \<Longrightarrow> components_loop (\<lambda>i. p) (\<lambda>i. p) is = Equal"
  by (induction "is") (cases p; simp add: Let_def)+

lemma components_loop_ord:
  assumes "\<forall>v. p \<noteq> CValue v" "\<forall>v. q \<noteq> CValue v" "list_all (\<lambda>(v, w). comparable v w) (zip vs ws)"
    "max (length vs) (length ws) < n"
  shows "components_loop (component_of vs p) (component_of ws q) [0..<n]
    = ord_cmp (map CValue vs @ [p]) (map CValue ws @ [q])"
  using assms
proof (induction vs arbitrary: ws n)
  case Nil
  then obtain m where n: "n = Suc m" by (cases n) auto
  show ?case
  proof (cases ws)
    case Nil
    have "component_cmp p q = ord_cmp p q" using Nil.prems(1,2) by (intro component_cmp_ord) auto
    then show ?thesis using Nil Nil.prems components_loop_same [of p "[0..<m]"]
      by (auto simp: n components_loop_upt ord_cmp_cons simp del: upt_Suc)
  next
    case (Cons w ws')
    have "component_cmp p (CValue w) = ord_cmp p (CValue w)" using Nil.prems(1) by (intro component_cmp_ord) auto
    moreover have "ord_cmp p (CValue w) \<noteq> Equal" using Nil.prems(1) by simp
    ultimately show ?thesis using Cons by (simp add: n components_loop_upt ord_cmp_cons del: upt_Suc ord_cmp_simps)
  qed
next
  case (Cons v vs)
  then obtain m where n: "n = Suc m" by (cases n) auto
  show ?case
  proof (cases ws)
    case Nil
    have "component_cmp (CValue v) q = ord_cmp (CValue v) q" using Cons.prems(2) by (intro component_cmp_ord) auto
    moreover have "ord_cmp (CValue v) q \<noteq> Equal" using Cons.prems(2) by auto
    ultimately show ?thesis using Nil by (simp add: n components_loop_upt ord_cmp_cons del: upt_Suc ord_cmp_simps)
  next
    case ws: (Cons w ws')
    have "component_cmp (CValue v) (CValue w) = ord_cmp (CValue v) (CValue w)"
      using Cons.prems(3) ws by (intro component_cmp_ord) auto
    then show ?thesis using Cons.IH [of ws' m] Cons.prems ws
      by (simp add: n components_loop_upt ord_cmp_cons del: upt_Suc ord_cmp_simps)
  qed
qed

text \<open>On keys of comparable values the order in HOL is the code's, and its equality is \<open>PartialEq\<close>.\<close>

lemma index_key_cmp_ord:
  assumes "comparable_keys k l"
  shows "index_key_cmp k l = ord_cmp k l"
proof -
  have at: "composite_component_at (IKComposite vs) = component_of vs CEnd"
    "composite_component_at (IKCompositePrefixLower vs) = component_of vs CLow"
    "composite_component_at (IKCompositePrefixUpper vs) = component_of vs CHigh" for vs
    by (auto simp: component_of_def)
  have loop: "components_loop (component_of vs p) (component_of ws q) [0..<max (length vs) (length ws) + 1]
      = ord_cmp (map CValue vs @ [p]) (map CValue ws @ [q])"
    if "\<forall>v. p \<noteq> CValue v" "\<forall>v. q \<noteq> CValue v" "list_all (\<lambda>(v, w). comparable v w) (zip vs ws)" for vs ws p q
    by (rule components_loop_ord [OF that]) simp
  have rank: "ord_cmp k l = ord_cmp (index_key_rank k) (index_key_rank l)"
    by (simp add: ord_cmp_def less_index_key_def index_key_rank_inject)
  have c: "list_all (\<lambda>(v, w). comparable v w) (zip (key_values k) (key_values l))"
    using assms by (simp add: comparable_keys_def)
  have cv: "ord_cmp (CValue v) (CValue w) = ord_cmp v w" for v w
    by (simp add: ord_cmp_def less_key_component_def component_rank_def)
  have pair: "ord_cmp (a, xs) (a, ys) = ord_cmp xs ys" for a :: nat and xs ys :: "key_component list"
    by (simp add: ord_cmp_Pair)
  show ?thesis unfolding rank using c
  proof (cases k; cases l)
    fix v w assume kl: "k = IKScalar v" "l = IKScalar w"
    then have "value_cmp v w = ord_cmp v w" using c comparable_cmp(1) by simp
    then show "index_key_cmp k l = ord_cmp (index_key_rank k) (index_key_rank l)"
      using cv [of v w] by (simp add: kl pair ord_cmp_cons)
  qed (use c in \<open>simp_all add: at loop [unfolded Suc_eq_plus1 [symmetric]] pair Let_def ord_cmp_Pair del: upt_Suc\<close>)
qed

lemma canonical_list_eq:
  "list_all canonical vs \<Longrightarrow> list_all canonical ws \<Longrightarrow> list_all2 value_eq vs ws \<longleftrightarrow> vs = ws"
  by (induction vs arbitrary: ws; case_tac ws) (auto simp: canonical_eq)

lemma index_key_eq_canonical: "canonical_key k \<Longrightarrow> canonical_key l \<Longrightarrow> index_key_eq k l \<longleftrightarrow> k = l"
  by (cases k; cases l) (auto simp: canonical_key_def canonical_eq canonical_list_eq)

text \<open>The values of the row at the given columns, and when a row's key is canonical.\<close>

definition key_of :: "nat list \<Rightarrow> row \<Rightarrow> index_key" where
  "key_of cols r = ik_from_row r cols"

definition canonical_row :: "row \<Rightarrow> bool" where
  "canonical_row r \<longleftrightarrow> list_all canonical (rvalues r)"

lemma key_values_from_values [simp]: "key_values (ik_from_values vs) = vs"
  by (cases vs) (auto simp: ik_from_values_def)

lemma canonical_key_of:
  assumes "canonical_row r"
  shows "canonical_key (key_of cols r)"
proof -
  have "canonical (case row_get r i of Some v \<Rightarrow> v | None \<Rightarrow> Null)" for i
    using assms by (auto simp: canonical_row_def row_get_def list_all_iff)
  then show ?thesis by (auto simp: key_of_def ik_from_row_def canonical_key_def list_all_iff)
qed

text \<open>The keys between the two bounds of a prefix are the composite keys that start with it.\<close>

lemma prefix_rank_le:
  "(map CValue ps @ [CLow]) \<le> (map CValue vs @ [CEnd]) \<and> (map CValue vs @ [CEnd]) \<le> (map CValue ps @ [CHigh])
     \<longleftrightarrow> take (length ps) vs = ps"
proof (induction ps arbitrary: vs)
  case Nil
  have c: "CLow < CValue v" "CLow < CEnd" "CValue v < CHigh" "CEnd < CHigh" for v
    by (simp_all add: less_key_component_def component_rank_def)
  show ?case by (cases vs) (simp_all add: c)
next
  case (Cons p ps)
  have cv: "CValue v < CValue w \<longleftrightarrow> v < w" "CValue v < CEnd \<longleftrightarrow> False" "CEnd < CValue v" for v w
    by (simp_all add: less_key_component_def component_rank_def)
  note IH = Cons.IH
  show ?case
  proof (cases vs)
    case (Cons v ws)
    show ?thesis using IH [of ws] unfolding Cons
      by (cases p v rule: linorder_cases) (auto simp: cv)
  qed (simp add: cv)
qed

lemma prefix_range_contains:
  "kr_contains (Bound (IKCompositePrefixLower ps) (IKCompositePrefixUpper ps) False False) (IKComposite vs)
     \<longleftrightarrow> take (length ps) vs = ps"
  using prefix_rank_le [of ps vs] by (simp add: less_eq_index_key_def)

section \<open>Index stores\<close>

definition INDEX_ORDER :: nat where
  "INDEX_ORDER = 64"

type_synonym btree_store = "index_key btree"

definition btree_store_new :: "bool \<Rightarrow> btree_store" where
  "btree_store_new uniq = bt_new INDEX_ORDER uniq"

text \<open>
  A \<open>BTreeIndexStore\<close> passes its calls on to the tree; the panics of the tree's operations, which
  do not happen on an intact tree, are not passed on.
\<close>

definition btree_store_add_batch :: "(index_key \<times> row_id) list \<Rightarrow> btree_store \<Rightarrow> (index_error + unit) \<times> btree_store" where
  "btree_store_add_batch es t = the (bt_add_batch es t)"

definition btree_store_remove_batch :: "(index_key \<times> row_id) list \<Rightarrow> btree_store \<Rightarrow> btree_store" where
  "btree_store_remove_batch es t = the (bt_remove_batch es t)"

text \<open>A hash index answers a lookup of one key from the key's row ids.\<close>

definition hash_store_get_range ::
  "index_key key_range option \<Rightarrow> bool \<Rightarrow> nat option \<Rightarrow> nat \<Rightarrow> index_key hash_index \<Rightarrow> row_id list" where
  "hash_store_get_range rng reverse limit skip h =
     (case rng of
        Some (Only key) \<Rightarrow> page limit skip (hi_get key h)
      | _ \<Rightarrow> hi_get_range rng reverse limit skip h)"

datatype secondary_store = SecBTree btree_store | SecHash "index_key hash_index"

definition sec_new :: "index_type \<Rightarrow> bool \<Rightarrow> secondary_store" where
  "sec_new ty uniq = (case ty of IxHash \<Rightarrow> SecHash (hi_new uniq) | _ \<Rightarrow> SecBTree (btree_store_new uniq))"

fun sec_add_index_key :: "index_key \<Rightarrow> row_id \<Rightarrow> secondary_store \<Rightarrow> (index_error + unit) \<times> secondary_store" where
  "sec_add_index_key key v (SecBTree t) = map_prod id SecBTree (ix_add btree_impl key v t)"
| "sec_add_index_key key v (SecHash h) = map_prod id SecHash (hi_add key v h)"

fun sec_add_batch_index_keys ::
  "(index_key \<times> row_id) list \<Rightarrow> secondary_store \<Rightarrow> (index_error + unit) \<times> secondary_store" where
  "sec_add_batch_index_keys es (SecBTree t) = map_prod id SecBTree (btree_store_add_batch es t)"
| "sec_add_batch_index_keys es (SecHash h) = map_prod id SecHash (hi_add_batch es h)"

fun sec_get_index_key :: "index_key \<Rightarrow> secondary_store \<Rightarrow> row_id list" where
  "sec_get_index_key key (SecBTree t) = ix_get btree_impl key t"
| "sec_get_index_key key (SecHash h) = hi_get key h"

fun sec_remove_index_key :: "index_key \<Rightarrow> row_id option \<Rightarrow> secondary_store \<Rightarrow> secondary_store" where
  "sec_remove_index_key key w (SecBTree t) = SecBTree (ix_remove btree_impl key w t)"
| "sec_remove_index_key key w (SecHash h) = SecHash (hi_remove key w h)"

fun sec_remove_batch_index_keys :: "(index_key \<times> row_id) list \<Rightarrow> secondary_store \<Rightarrow> secondary_store" where
  "sec_remove_batch_index_keys es (SecBTree t) = SecBTree (btree_store_remove_batch es t)"
| "sec_remove_batch_index_keys es (SecHash h) = SecHash (default_remove_batch hash_index_impl es h)"

fun sec_contains_index_key :: "index_key \<Rightarrow> secondary_store \<Rightarrow> bool" where
  "sec_contains_index_key key (SecBTree t) = ix_contains_key btree_impl key t"
| "sec_contains_index_key key (SecHash h) = hi_contains_key key h"

fun sec_is_unique :: "secondary_store \<Rightarrow> bool" where
  "sec_is_unique (SecBTree t) = bt_unique t"
| "sec_is_unique (SecHash h) = hi_unique h"

fun sec_clear :: "secondary_store \<Rightarrow> secondary_store" where
  "sec_clear (SecBTree t) = SecBTree (bt_clear t)"
| "sec_clear (SecHash h) = SecHash (hi_clear h)"

fun sec_distinct_key_count :: "secondary_store \<Rightarrow> nat" where
  "sec_distinct_key_count (SecBTree t) = bt_distinct_key_count t"
| "sec_distinct_key_count (SecHash h) = hi_distinct_key_count h"

text \<open>The row ids that \<open>visit_range_index_keys\<close> offers its visitor, in order.\<close>

fun sec_get_range ::
  "index_key key_range option \<Rightarrow> bool \<Rightarrow> nat option \<Rightarrow> nat \<Rightarrow> secondary_store \<Rightarrow> row_id list" where
  "sec_get_range rng reverse limit skip (SecBTree t) = ix_get_range btree_impl rng reverse limit skip t"
| "sec_get_range rng reverse limit skip (SecHash h) = hash_store_get_range rng reverse limit skip h"

section \<open>The contract\<close>

definition sec_impl :: "(index_key, secondary_store) index_impl" where
  "sec_impl = \<lparr>ix_add = sec_add_index_key,
     ix_set = (\<lambda>k v s. case s of SecBTree t \<Rightarrow> SecBTree (ix_set btree_impl k v t) | SecHash h \<Rightarrow> SecHash (hi_set k v h)),
     ix_get = sec_get_index_key, ix_remove = sec_remove_index_key, ix_contains_key = sec_contains_index_key,
     ix_len = (\<lambda>s. case s of SecBTree t \<Rightarrow> bt_len t | SecHash h \<Rightarrow> hi_len h), ix_clear = sec_clear,
     ix_min = (\<lambda>s. case s of SecBTree t \<Rightarrow> ix_min btree_impl t | SecHash h \<Rightarrow> hi_min h),
     ix_max = (\<lambda>s. case s of SecBTree t \<Rightarrow> ix_max btree_impl t | SecHash h \<Rightarrow> hi_max h),
     ix_cost = (\<lambda>r s. case s of SecBTree t \<Rightarrow> ix_cost btree_impl r t | SecHash h \<Rightarrow> hi_cost r h),
     ix_get_range = sec_get_range\<rparr>"

lemma sec_impl_simps [simp]:
  "ix_add sec_impl = sec_add_index_key" "ix_get sec_impl = sec_get_index_key" "ix_remove sec_impl = sec_remove_index_key"
  "ix_contains_key sec_impl = sec_contains_index_key" "ix_clear sec_impl = sec_clear" "ix_get_range sec_impl = sec_get_range"
  by (simp_all add: sec_impl_def)

fun sec_inv :: "secondary_store \<Rightarrow> bool" where
  "sec_inv (SecBTree t) \<longleftrightarrow> bt_inv t"
| "sec_inv (SecHash h) \<longleftrightarrow> hi_inv h"

lemma hash_impl_simps: "ix_add hash_index_impl = hi_add" "ix_get hash_index_impl = hi_get" "ix_set hash_index_impl = hi_set"
  "ix_remove hash_index_impl = hi_remove" "ix_contains_key hash_index_impl = hi_contains_key" "ix_clear hash_index_impl = hi_clear"
  "ix_get_range hash_index_impl = hi_get_range"
  by (simp_all add: hash_index_impl_def)

interpretation sec_ix: index_contract sec_impl sec_inv sec_is_unique
proof unfold_locales
  fix i :: secondary_store and k k' :: index_key and v :: row_id and w :: "row_id option"
  assume inv: "sec_inv i"
  note bt = btree_ix.inv_add btree_ix.add_result btree_ix.get_add btree_ix.inv_set btree_ix.get_set btree_ix.inv_remove
    btree_ix.get_remove_all btree_ix.get_remove_one btree_ix.contains_iff btree_ix.inv_clear btree_ix.get_clear
  note hi = hash_ix.inv_add hash_ix.add_result hash_ix.get_add hash_ix.inv_set hash_ix.get_set hash_ix.inv_remove
    hash_ix.get_remove_all hash_ix.get_remove_one hash_ix.contains_iff hash_ix.inv_clear hash_ix.get_clear
  note hi' = hi [unfolded hash_impl_simps]
  show "sec_inv (snd (ix_add sec_impl k v i)) \<and> sec_is_unique (snd (ix_add sec_impl k v i)) = sec_is_unique i"
    using inv by (cases i) (simp_all add: bt(1) hi'(1) del: btree_impl_simps)
  show "fst (ix_add sec_impl k v i) = (if add_refused (sec_is_unique i) (ix_get sec_impl k i) then Inl DuplicateKey else Inr ())"
    using inv by (cases i) (simp_all add: bt(2) hi'(2) del: btree_impl_simps)
  show "ix_get sec_impl k' (snd (ix_add sec_impl k v i))
      = (if k' = k \<and> \<not> add_refused (sec_is_unique i) (ix_get sec_impl k i) then ix_get sec_impl k i @ [v] else ix_get sec_impl k' i)"
    using inv by (cases i) (simp_all add: bt(3) hi'(3) del: btree_impl_simps)
  show "sec_inv (ix_set sec_impl k v i) \<and> sec_is_unique (ix_set sec_impl k v i) = sec_is_unique i"
    using inv by (cases i) (simp_all add: sec_impl_def bt(4) hi'(4) del: btree_impl_simps)
  show "ix_get sec_impl k' (ix_set sec_impl k v i) = (if k' = k then [v] else ix_get sec_impl k' i)"
    using inv by (cases i) (simp_all add: sec_impl_def bt(5) hi'(5) del: btree_impl_simps)
  show "sec_inv (ix_remove sec_impl k w i) \<and> sec_is_unique (ix_remove sec_impl k w i) = sec_is_unique i"
    using inv by (cases i) (simp_all add: bt(6) hi'(6) del: btree_impl_simps)
  show "ix_get sec_impl k' (ix_remove sec_impl k None i) = (if k' = k then [] else ix_get sec_impl k' i)"
    using inv by (cases i) (simp_all add: bt(7) hi'(7) del: btree_impl_simps)
  show "ix_get sec_impl k' (ix_remove sec_impl k (Some v) i)
      = (if k' = k then filter (\<lambda>x. x \<noteq> v) (ix_get sec_impl k i) else ix_get sec_impl k' i)"
    using inv by (cases i) (simp_all add: bt(8) hi'(8) del: btree_impl_simps)
  show "ix_contains_key sec_impl k i \<longleftrightarrow> ix_get sec_impl k i \<noteq> []"
    using inv by (cases i) (simp_all add: bt(9) hi'(9) del: btree_impl_simps)
  show "sec_inv (ix_clear sec_impl i) \<and> sec_is_unique (ix_clear sec_impl i) = sec_is_unique i"
    using inv by (cases i) (simp_all add: bt_clear_effect hi'(10))
  show "ix_get sec_impl k (ix_clear sec_impl i) = []"
    using inv by (cases i) (simp_all add: bt_clear_effect hi'(11))
qed

end
