(* ===== verification/Cynos_Row_Store.thy ===== *)
theory Cynos_Row_Store
  imports Cynos_Index_Key Cynos_Delta
begin

text \<open>
  The rows of one table and their indices (\<open>crates/storage/src/row_store.rs\<close>). A row lives in a slot of
  \<open>row_slots\<close>; \<open>rows\<close> finds the slot of a row id and \<open>scan_order\<close> lists the slots by ascending row id.
  The GIN indices of JSON columns are a parameter: their state \<open>'g\<close> and what the store calls on them
  (\<open>gin_ops\<close>). The \<open>Debug\<close> form of a vector of values, which error messages print, is the parameter
  \<open>dbg\<close>. Indexing \<open>row_slots\<close> through \<open>scan_order\<close> is in range in every store that operations reach
  (\<open>slots_ok\<close> in \<open>Cynos_Row_Slots\<close>).
\<close>

section \<open>State\<close>

record gin_config =
  gc_column_idx :: nat
  gc_indexed_paths :: "string list option"

text \<open>
  What the store asks of a GIN index: index and forget the document of a row, empty it, and take up a
  batch of documents gathered by a bulk builder.
\<close>

record 'g gin_ops =
  gin_new :: 'g
  gin_index_value :: "gin_config \<Rightarrow> value \<Rightarrow> row_id \<Rightarrow> 'g \<Rightarrow> 'g"
  gin_remove_value :: "gin_config \<Rightarrow> value \<Rightarrow> row_id \<Rightarrow> 'g \<Rightarrow> 'g"
  gin_clear :: "'g \<Rightarrow> 'g"
  gin_apply_bulk :: "gin_config \<Rightarrow> (value \<times> row_id) list \<Rightarrow> 'g \<Rightarrow> 'g"

type_synonym row_slot = "row_id \<times> row"

record 'g row_store =
  rs_schema :: table
  rs_rows :: "(row_id, nat) btree_map"
  rs_row_slots :: "row_slot list"
  rs_scan_order :: "nat list"
  rs_primary_index :: "btree_store option"
  rs_pk_columns :: "nat list"
  rs_secondary_indices :: "(string, secondary_store) btree_map"
  rs_index_columns :: "(string, nat list) btree_map"
  rs_gin_indices :: "(string, 'g) btree_map"
  rs_gin_index_configs :: "(string, gin_config) btree_map"

definition gin_config_new :: "nat \<Rightarrow> string list option \<Rightarrow> gin_config" where
  "gin_config_new i paths = \<lparr>gc_column_idx = i, gc_indexed_paths = paths\<rparr>"

definition column_indices :: "table \<Rightarrow> index_def \<Rightarrow> nat list" where
  "column_indices schema idx = List.map_filter (\<lambda>c. get_column_index (ic_name c) schema) (id_columns idx)"

definition rs_add_index :: "'g gin_ops \<Rightarrow> table \<Rightarrow> index_def \<Rightarrow> 'g row_store \<Rightarrow> 'g row_store" where
  "rs_add_index G schema idx s =
     (let cols = column_indices schema idx
      in if id_index_type idx = IxGin then
           (case cols of
              [] \<Rightarrow> s
            | col_idx # _ \<Rightarrow> s\<lparr>rs_gin_indices := bm_insert (id_name idx) (gin_new G) (rs_gin_indices s),
                rs_gin_index_configs := bm_insert (id_name idx) (gin_config_new col_idx (id_gin_paths idx))
                  (rs_gin_index_configs s)\<rparr>)
         else s\<lparr>rs_secondary_indices := bm_insert (id_name idx) (sec_new (id_index_type idx) (id_unique idx))
                  (rs_secondary_indices s),
                rs_index_columns := bm_insert (id_name idx) cols (rs_index_columns s)\<rparr>)"

definition rs_new :: "'g gin_ops \<Rightarrow> table \<Rightarrow> 'g row_store" where
  "rs_new G schema =
     (let s = \<lparr>rs_schema = schema, rs_rows = [], rs_row_slots = [], rs_scan_order = [],
            rs_primary_index = None, rs_pk_columns = [], rs_secondary_indices = [],
            rs_index_columns = [], rs_gin_indices = [], rs_gin_index_configs = []\<rparr>;
          s = (case table_primary_key schema of
                 Some pk \<Rightarrow> s\<lparr>rs_primary_index := Some (btree_store_new True),
                             rs_pk_columns := column_indices schema pk\<rparr>
               | None \<Rightarrow> s)
      in fold (rs_add_index G schema) (tbl_indices schema) s)"

section \<open>Slots\<close>

definition rs_len :: "'g row_store \<Rightarrow> nat" where
  "rs_len s = length (rs_rows s)"

definition rs_is_empty :: "'g row_store \<Rightarrow> bool" where
  "rs_is_empty s \<longleftrightarrow> rs_rows s = []"

definition slot_at :: "'g row_store \<Rightarrow> nat \<Rightarrow> row_slot" where
  "slot_at s i = rs_row_slots s ! i"

definition scan_position :: "row_id \<Rightarrow> 'g row_store \<Rightarrow> nat + nat" where
  "scan_position row_id s =
     binary_search_by (\<lambda>slot_idx. ord_cmp (fst (slot_at s slot_idx)) row_id) (rs_scan_order s)"

definition row_ref_by_id :: "row_id \<Rightarrow> 'g row_store \<Rightarrow> row option" where
  "row_ref_by_id row_id s =
     (case map_of (rs_rows s) row_id of
        None \<Rightarrow> None
      | Some slot_idx \<Rightarrow>
          if slot_idx < length (rs_row_slots s) then Some (snd (slot_at s slot_idx)) else None)"

text \<open>\<open>Result::ok\<close>, and \<open>unwrap_or_else(|pos| pos)\<close> on a search result.\<close>

definition result_ok :: "'e + 'a \<Rightarrow> 'a option" where
  "result_ok r = (case r of Inl _ \<Rightarrow> None | Inr a \<Rightarrow> Some a)"

definition position_or_insertion :: "nat + nat \<Rightarrow> nat" where
  "position_or_insertion r = (case r of Inl pos \<Rightarrow> pos | Inr pos \<Rightarrow> pos)"

definition insert_row_slot :: "row_id \<Rightarrow> row \<Rightarrow> 'g row_store \<Rightarrow> 'g row_store" where
  "insert_row_slot row_id row s =
     (let slot_idx = length (rs_row_slots s);
          s = s\<lparr>rs_row_slots := rs_row_slots s @ [(row_id, row)]\<rparr>;
          s = s\<lparr>rs_rows := bm_insert row_id slot_idx (rs_rows s)\<rparr>;
          append_only = (rs_scan_order s = [] \<or> fst (slot_at s (last (rs_scan_order s))) < row_id)
      in if append_only then s\<lparr>rs_scan_order := rs_scan_order s @ [slot_idx]\<rparr>
         else let scan_pos = position_or_insertion (scan_position row_id s)
              in s\<lparr>rs_scan_order := vec_insert scan_pos slot_idx (rs_scan_order s)\<rparr>)"

definition replace_row_slot :: "row_id \<Rightarrow> row \<Rightarrow> 'g row_store \<Rightarrow> 'g row_store" where
  "replace_row_slot row_id row s =
     (case map_of (rs_rows s) row_id of
        None \<Rightarrow> s
      | Some slot_idx \<Rightarrow>
          if slot_idx < length (rs_row_slots s)
          then s\<lparr>rs_row_slots := (rs_row_slots s)[slot_idx := (fst (slot_at s slot_idx), row)]\<rparr>
          else s)"

definition remove_row_slot :: "row_id \<Rightarrow> 'g row_store \<Rightarrow> row option \<times> 'g row_store" where
  "remove_row_slot row_id s =
     (case map_of (rs_rows s) row_id of
        None \<Rightarrow> (None, s)
      | Some slot_idx \<Rightarrow>
          let rows = bm_remove row_id (rs_rows s);
              removed_scan_pos = result_ok (scan_position row_id s);
              moved_slot_meta =
                (if slot_idx + 1 < length (rs_row_slots s)
                 then let moved_row_id = fst (last (rs_row_slots s))
                      in Some (moved_row_id, result_ok (scan_position moved_row_id s))
                 else None);
              order = (case removed_scan_pos of
                         Some scan_pos \<Rightarrow> vec_remove scan_pos (rs_scan_order s)
                       | None \<Rightarrow> rs_scan_order s);
              removed_slot = slot_at s slot_idx;
              slots = vec_swap_remove slot_idx (rs_row_slots s)
          in if slot_idx < length slots then
               let moved_row_id = fst (slots ! slot_idx);
                   rows = bm_insert moved_row_id slot_idx rows;
                   order = (case moved_slot_meta of
                              Some (_, Some moved_pos) \<Rightarrow>
                                let adjusted_pos = (case removed_scan_pos of
                                      Some removed_pos \<Rightarrow>
                                        if moved_pos > removed_pos then moved_pos - 1 else moved_pos
                                    | None \<Rightarrow> moved_pos)
                                in order[adjusted_pos := slot_idx]
                            | _ \<Rightarrow> order)
               in (Some (snd removed_slot), s\<lparr>rs_rows := rows, rs_row_slots := slots, rs_scan_order := order\<rparr>)
             else (Some (snd removed_slot), s\<lparr>rs_rows := rows, rs_row_slots := slots, rs_scan_order := order\<rparr>))"

section \<open>Loops over the indices\<close>

text \<open>The indices by name, as far as both maps have them.\<close>

fun for_each_index ::
  "(string \<Rightarrow> 'c \<Rightarrow> 'i \<Rightarrow> 'i) \<Rightarrow> (string \<times> 'c) list \<Rightarrow> (string, 'i) btree_map \<Rightarrow> (string, 'i) btree_map" where
  "for_each_index f [] m = m"
| "for_each_index f ((name, columns) # rest) m =
     (case map_of m name of
        None \<Rightarrow> for_each_index f rest m
      | Some index \<Rightarrow> for_each_index f rest (bm_insert name (f name columns index) m))"

fun try_for_each_index ::
  "(string \<Rightarrow> 'c \<Rightarrow> 'i \<Rightarrow> ('e + unit) \<times> 'i) \<Rightarrow> (string \<times> 'c) list \<Rightarrow> (string, 'i) btree_map
    \<Rightarrow> ('e + unit) \<times> (string, 'i) btree_map" where
  "try_for_each_index f [] m = (Inr (), m)"
| "try_for_each_index f ((name, columns) # rest) m =
     (case map_of m name of
        None \<Rightarrow> try_for_each_index f rest m
      | Some index \<Rightarrow>
          case f name columns index of
            (Inl e, index') \<Rightarrow> (Inl e, bm_insert name index' m)
          | (Inr _, index') \<Rightarrow> try_for_each_index f rest (bm_insert name index' m))"

definition for_each_secondary_index ::
  "(string \<Rightarrow> nat list \<Rightarrow> secondary_store \<Rightarrow> secondary_store) \<Rightarrow> 'g row_store \<Rightarrow> 'g row_store" where
  "for_each_secondary_index f s =
     s\<lparr>rs_secondary_indices := for_each_index f (rs_index_columns s) (rs_secondary_indices s)\<rparr>"

definition try_for_each_secondary_index ::
  "(string \<Rightarrow> nat list \<Rightarrow> secondary_store \<Rightarrow> ('e + unit) \<times> secondary_store) \<Rightarrow> 'g row_store
    \<Rightarrow> ('e + unit) \<times> 'g row_store" where
  "try_for_each_secondary_index f s =
     (case try_for_each_index f (rs_index_columns s) (rs_secondary_indices s) of
        (r, m) \<Rightarrow> (r, s\<lparr>rs_secondary_indices := m\<rparr>))"

definition for_each_gin_index :: "(string \<Rightarrow> gin_config \<Rightarrow> 'g \<Rightarrow> 'g) \<Rightarrow> 'g row_store \<Rightarrow> 'g row_store" where
  "for_each_gin_index f s =
     s\<lparr>rs_gin_indices := for_each_index f (rs_gin_index_configs s) (rs_gin_indices s)\<rparr>"

section \<open>Inserting, updating and deleting rows\<close>

definition extract_key :: "row \<Rightarrow> nat list \<Rightarrow> index_key" where
  "extract_key r cols = ik_from_row r cols"

definition extract_key_from_values :: "value list \<Rightarrow> index_key" where
  "extract_key_from_values vs = ik_from_values vs"

definition gin_insert_row :: "'g gin_ops \<Rightarrow> row \<Rightarrow> row_id \<Rightarrow> 'g row_store \<Rightarrow> 'g row_store" where
  "gin_insert_row G row row_id s =
     for_each_gin_index (\<lambda>_ config gin_idx. case row_get row (gc_column_idx config) of
        Some v \<Rightarrow> gin_index_value G config v row_id gin_idx | None \<Rightarrow> gin_idx) s"

definition gin_remove_row :: "'g gin_ops \<Rightarrow> row \<Rightarrow> row_id \<Rightarrow> 'g row_store \<Rightarrow> 'g row_store" where
  "gin_remove_row G row row_id s =
     for_each_gin_index (\<lambda>_ config gin_idx. case row_get row (gc_column_idx config) of
        Some v \<Rightarrow> gin_remove_value G config v row_id gin_idx | None \<Rightarrow> gin_idx) s"

definition rollback_insert :: "'g gin_ops \<Rightarrow> row_id \<Rightarrow> row \<Rightarrow> 'g row_store \<Rightarrow> 'g row_store" where
  "rollback_insert G row_id row s =
     (let s = (case rs_primary_index s of
                 Some pk_index \<Rightarrow> s\<lparr>rs_primary_index :=
                   Some (ix_remove btree_impl (extract_key row (rs_pk_columns s)) (Some row_id) pk_index)\<rparr>
               | None \<Rightarrow> s);
          s = for_each_secondary_index (\<lambda>_ cols idx. sec_remove_index_key (extract_key row cols) (Some row_id) idx) s
      in gin_remove_row G row row_id s)"

definition unique_error :: "(value list \<Rightarrow> string) \<Rightarrow> string \<Rightarrow> index_key \<Rightarrow> db_error" where
  "unique_error dbg column key = UniqueConstraint column (ik_to_error_value dbg key)"

definition row_id_exists :: db_error where
  "row_id_exists = InvalidOperation ''Row ID already exists''"

definition rs_insert :: "'g gin_ops \<Rightarrow> (value list \<Rightarrow> string) \<Rightarrow> row \<Rightarrow> 'g row_store \<Rightarrow> (db_error + row_id) \<times> 'g row_store" where
  "rs_insert G dbg row s =
     (let row_id = rid row
      in if map_of (rs_rows s) row_id \<noteq> None then (Inl row_id_exists, s)
      else
        let pk = extract_key row (rs_pk_columns s);
            has_pk = rs_pk_columns s \<noteq> [];
            taken = (has_pk \<and> (case rs_primary_index s of
                       Some pk_index \<Rightarrow> ix_contains_key btree_impl pk pk_index | None \<Rightarrow> False))
        in if taken then (Inl (unique_error dbg ''primary_key'' pk), s)
        else
          let (added, s) = (case rs_primary_index s of
                 Some pk_index \<Rightarrow>
                   if has_pk then
                     (case ix_add btree_impl pk row_id pk_index of
                        (r, pk_index) \<Rightarrow> (r, s\<lparr>rs_primary_index := Some pk_index\<rparr>))
                   else (Inr (), s)
               | None \<Rightarrow> (Inr (), s))
          in case added of
               Inl _ \<Rightarrow> (Inl (unique_error dbg ''primary_key'' pk), s)
             | Inr _ \<Rightarrow>
                 case try_for_each_secondary_index (\<lambda>idx_name cols idx.
                        let key = extract_key row cols
                        in case sec_add_index_key key row_id idx of
                             (Inl _, idx) \<Rightarrow> (Inl (unique_error dbg idx_name key), idx)
                           | (Inr _, idx) \<Rightarrow> (Inr (), idx)) s of
                   (Inl e, s) \<Rightarrow> (Inl e, rollback_insert G row_id row s)
                 | (Inr _, s) \<Rightarrow>
                     let s = gin_insert_row G row row_id s
                     in (Inr row_id, insert_row_slot row_id row s))"

definition not_found_row :: "'g row_store \<Rightarrow> row_id \<Rightarrow> db_error" where
  "not_found_row s row_id = NotFound (tbl_name (rs_schema s)) (Int64 (ucast row_id))"

text \<open>The check of the unique indices, by name: the first that holds the new key.\<close>

fun unique_violation ::
  "row \<Rightarrow> row \<Rightarrow> (string, secondary_store) btree_map \<Rightarrow> (string \<times> nat list) list \<Rightarrow> (string \<times> index_key) option" where
  "unique_violation old_row new_row m [] = None"
| "unique_violation old_row new_row m ((idx_name, cols) # rest) =
     (let old_key = extract_key old_row cols; new_key = extract_key new_row cols
      in case map_of m idx_name of
           Some idx \<Rightarrow>
             if sec_is_unique idx \<and> \<not> index_key_eq old_key new_key \<and> sec_contains_index_key new_key idx
             then Some (idx_name, new_key)
             else unique_violation old_row new_row m rest
         | None \<Rightarrow> unique_violation old_row new_row m rest)"

text \<open>An entry moves from the old key to the new one where the two differ; the result of the insertion
  is ignored.\<close>

definition rekey ::
  "(index_key, 'i) index_impl \<Rightarrow> index_key \<Rightarrow> index_key \<Rightarrow> row_id \<Rightarrow> 'i \<Rightarrow> 'i" where
  "rekey I old_key new_key row_id idx =
     (if \<not> index_key_eq old_key new_key
      then snd (ix_add I new_key row_id (ix_remove I old_key (Some row_id) idx)) else idx)"

definition gin_update_row :: "'g gin_ops \<Rightarrow> row \<Rightarrow> row \<Rightarrow> row_id \<Rightarrow> 'g row_store \<Rightarrow> 'g row_store" where
  "gin_update_row G old_row new_row row_id s =
     for_each_gin_index (\<lambda>_ config gin_idx.
       let old_value = row_get old_row (gc_column_idx config);
           new_value = row_get new_row (gc_column_idx config)
       in if \<not> rel_option value_eq old_value new_value then
            let gin_idx = (case old_value of Some v \<Rightarrow> gin_remove_value G config v row_id gin_idx | None \<Rightarrow> gin_idx)
            in (case new_value of Some v \<Rightarrow> gin_index_value G config v row_id gin_idx | None \<Rightarrow> gin_idx)
          else gin_idx) s"

definition rs_update ::
  "'g gin_ops \<Rightarrow> (value list \<Rightarrow> string) \<Rightarrow> row_id \<Rightarrow> row \<Rightarrow> 'g row_store \<Rightarrow> (db_error + unit) \<times> 'g row_store" where
  "rs_update G dbg row_id new_row s =
     (case row_ref_by_id row_id s of
        None \<Rightarrow> (Inl (not_found_row s row_id), s)
      | Some old_row \<Rightarrow>
          let has_pk = rs_pk_columns s \<noteq> [];
              old_pk = extract_key old_row (rs_pk_columns s);
              new_pk = extract_key new_row (rs_pk_columns s)
          in if has_pk \<and> (case rs_primary_index s of
                  Some pk_index \<Rightarrow> \<not> index_key_eq old_pk new_pk \<and> ix_contains_key btree_impl new_pk pk_index
                | None \<Rightarrow> False)
             then (Inl (unique_error dbg ''primary_key'' new_pk), s)
             else
               case unique_violation old_row new_row (rs_secondary_indices s) (rs_index_columns s) of
                 Some (idx_name, new_key) \<Rightarrow> (Inl (unique_error dbg idx_name new_key), s)
               | None \<Rightarrow>
                   let s = (case rs_primary_index s of
                              Some pk_index \<Rightarrow>
                                if has_pk
                                then s\<lparr>rs_primary_index := Some (rekey btree_impl old_pk new_pk row_id pk_index)\<rparr>
                                else s
                            | None \<Rightarrow> s);
                       s = for_each_secondary_index (\<lambda>_ cols idx.
                             rekey sec_impl (extract_key old_row cols) (extract_key new_row cols) row_id idx) s;
                       s = gin_update_row G old_row new_row row_id s
                   in (Inr (), replace_row_slot row_id new_row s))"

definition rs_delete :: "'g gin_ops \<Rightarrow> row_id \<Rightarrow> 'g row_store \<Rightarrow> (db_error + row) \<times> 'g row_store" where
  "rs_delete G row_id s =
     (case remove_row_slot row_id s of
        (None, s) \<Rightarrow> (Inl (not_found_row s row_id), s)
      | (Some row, s) \<Rightarrow>
          let s = (if rs_pk_columns s \<noteq> []
                   then (case rs_primary_index s of
                           Some pk_index \<Rightarrow> s\<lparr>rs_primary_index :=
                             Some (ix_remove btree_impl (extract_key row (rs_pk_columns s)) (Some row_id) pk_index)\<rparr>
                         | None \<Rightarrow> s)
                   else s);
              s = for_each_secondary_index (\<lambda>_ cols idx. sec_remove_index_key (extract_key row cols) (Some row_id) idx) s;
              s = gin_remove_row G row row_id s
          in (Inr row, s))"

fun remove_row_slots :: "row_id list \<Rightarrow> 'g row_store \<Rightarrow> row list \<times> 'g row_store" where
  "remove_row_slots [] s = ([], s)"
| "remove_row_slots (row_id # row_ids) s =
     (case remove_row_slot row_id s of
        (removed, s) \<Rightarrow> case remove_row_slots row_ids s of
          (rows, s) \<Rightarrow> ((case removed of Some row \<Rightarrow> row # rows | None \<Rightarrow> rows), s))"

definition batch_entries :: "row list \<Rightarrow> nat list \<Rightarrow> (index_key \<times> row_id) list" where
  "batch_entries rows cols = map (\<lambda>row. (extract_key row cols, rid row)) rows"

definition rs_delete_batch :: "'g gin_ops \<Rightarrow> row_id list \<Rightarrow> 'g row_store \<Rightarrow> row list \<times> 'g row_store" where
  "rs_delete_batch G row_ids s =
     (if row_ids = [] then ([], s)
      else case remove_row_slots row_ids s of
        (deleted_rows, s) \<Rightarrow>
          if deleted_rows = [] then ([], s)
          else
            let s = (if rs_pk_columns s \<noteq> []
                     then (case rs_primary_index s of
                             Some pk_index \<Rightarrow> s\<lparr>rs_primary_index :=
                               Some (btree_store_remove_batch (batch_entries deleted_rows (rs_pk_columns s)) pk_index)\<rparr>
                           | None \<Rightarrow> s)
                     else s);
                s = for_each_secondary_index (\<lambda>_ cols idx.
                      sec_remove_batch_index_keys (batch_entries deleted_rows cols) idx) s;
                s = for_each_gin_index (\<lambda>_ config gin_idx. fold (\<lambda>row gin_idx.
                      case row_get row (gc_column_idx config) of
                        Some v \<Rightarrow> gin_remove_value G config v (rid row) gin_idx
                      | None \<Rightarrow> gin_idx) deleted_rows gin_idx) s
            in (deleted_rows, s))"

definition rs_clear :: "'g gin_ops \<Rightarrow> 'g row_store \<Rightarrow> 'g row_store" where
  "rs_clear G s =
     s\<lparr>rs_rows := [], rs_row_slots := [], rs_scan_order := [],
       rs_primary_index := map_option bt_clear (rs_primary_index s),
       rs_secondary_indices := map (map_prod id sec_clear) (rs_secondary_indices s),
       rs_gin_indices := map (map_prod id (gin_clear G)) (rs_gin_indices s)\<rparr>"

end
