(* ===== verification/Cynos_Row_Slots.thy ===== *)
theory Cynos_Row_Slots
  imports Cynos_Row_Store
begin

text \<open>
  The slots of a row store: the invariant that ties \<open>rows\<close>, \<open>row_slots\<close> and \<open>scan_order\<close> together, the
  table of rows they represent, and what inserting, replacing and removing a slot do to it. The slots in
  scan order (\<open>scan_slots\<close>) are an association list sorted by row id; each operation is the one on
  sorted lists.
\<close>

section \<open>Invariant\<close>

definition scan_slots :: "'g row_store \<Rightarrow> row_slot list" where
  "scan_slots s = map (slot_at s) (rs_scan_order s)"

definition slots_ok :: "'g row_store \<Rightarrow> bool" where
  "slots_ok s \<longleftrightarrow> distinct (rs_scan_order s) \<and> set (rs_scan_order s) = {..<length (rs_row_slots s)}
     \<and> sorted_wrt (<) (map fst (scan_slots s))
     \<and> bm_ok (rs_rows s)
     \<and> (\<forall>i j. map_of (rs_rows s) i = Some j \<longleftrightarrow> j < length (rs_row_slots s) \<and> fst (slot_at s j) = i)"

text \<open>The table a store represents.\<close>

definition rs_abs :: "'g row_store \<Rightarrow> row_id \<Rightarrow> row option" where
  "rs_abs s i = row_ref_by_id i s"

lemma slots_rows: "slots_ok s \<Longrightarrow> map_of (rs_rows s) i = Some j \<Longrightarrow> j < length (rs_row_slots s) \<and> fst (slot_at s j) = i"
  by (simp add: slots_ok_def)

lemma rs_abs_def2: "slots_ok s \<Longrightarrow> rs_abs s i = map_option (\<lambda>j. snd (slot_at s j)) (map_of (rs_rows s) i)"
  using slots_rows [of s i] by (cases "map_of (rs_rows s) i") (auto simp: rs_abs_def row_ref_by_id_def)

lemma scan_slots_set:
  assumes "slots_ok s"
  shows "set (scan_slots s) = set (rs_row_slots s)"
proof -
  have "set (scan_slots s) = slot_at s ` {..<length (rs_row_slots s)}"
    using assms by (simp add: scan_slots_def slots_ok_def)
  then show ?thesis unfolding slot_at_def set_conv_nth by blast
qed

lemma scan_slots_bm: "slots_ok s \<Longrightarrow> bm_ok (scan_slots s)"
  by (simp add: slots_ok_def bm_ok_def)

text \<open>The slots in scan order are the table, as a sorted association list.\<close>

lemma scan_slots_abs:
  assumes "slots_ok s"
  shows "map_of (scan_slots s) = rs_abs s"
proof
  fix i
  have mem: "(i, r) \<in> set (scan_slots s) \<longleftrightarrow> rs_abs s i = Some r" for r
  proof -
    have "(i, r) \<in> set (scan_slots s) \<longleftrightarrow> (\<exists>j < length (rs_row_slots s). slot_at s j = (i, r))"
      unfolding scan_slots_set [OF assms] by (auto simp: slot_at_def in_set_conv_nth)
    also have "\<dots> \<longleftrightarrow> (\<exists>j. map_of (rs_rows s) i = Some j \<and> snd (slot_at s j) = r)"
      using assms by (auto simp: slots_ok_def prod_eq_iff)
    finally show ?thesis by (auto simp: rs_abs_def2 [OF assms])
  qed
  show "map_of (scan_slots s) i = rs_abs s i"
    using bm_ok_mem [OF scan_slots_bm [OF assms], of i] mem by (cases "map_of (scan_slots s) i"; cases "rs_abs s i") auto
qed

text \<open>The search for a row id in the scan order.\<close>

lemma bs_window_range:
  "base + sz \<le> length xs \<Longrightarrow> 0 < sz \<Longrightarrow> bs_window f xs base sz < length xs"
proof (induction f xs base sz rule: bs_window.induct)
  case (1 f xs base sz)
  then show ?case by (cases "1 < sz") (auto simp: bs_window.simps [of _ _ base sz] Let_def)
qed

lemma bs_window_map:
  "base + sz \<le> length xs \<Longrightarrow> bs_window (\<lambda>x. f (g x)) xs base sz = bs_window f (map g xs) base sz"
proof (induction "\<lambda>x. f (g x)" xs base sz rule: bs_window.induct)
  case (1 xs base sz)
  then show ?case
    by (cases "1 < sz") (auto simp: bs_window.simps [of _ _ base sz] Let_def)
qed

lemma binary_search_by_map: "binary_search_by (\<lambda>x. f (g x)) xs = binary_search_by f (map g xs)"
  using bs_window_map [of 0 "length xs" xs f g] bs_window_range [of 0 "length xs" xs "\<lambda>x. f (g x)"]
  by (cases "xs = []") (auto simp: binary_search_by_def Let_def)

lemma scan_position_search:
  "scan_position i s = binary_search (map fst (scan_slots s)) i"
  using binary_search_by_map [of "\<lambda>y. ord_cmp y i" "\<lambda>j. fst (slot_at s j)" "rs_scan_order s"]
  by (simp add: scan_position_def scan_slots_def comp_def)

lemma scan_position_cong: "scan_slots t = scan_slots s \<Longrightarrow> scan_position i t = scan_position i s"
  by (simp only: scan_position_search)

lemma scan_position_Inr:
  assumes "slots_ok s" "scan_position i s = Inr p"
  shows "p < length (rs_scan_order s) \<and> fst (scan_slots s ! p) = i"
  using binary_search_strict(1) [of "map fst (scan_slots s)" i p] assms
  by (auto simp: scan_position_search slots_ok_def scan_slots_def)

lemma scan_position_Inl:
  assumes "slots_ok s" "scan_position i s = Inl p"
  shows "p \<le> length (rs_scan_order s)" "\<forall>y \<in> set (take p (map fst (scan_slots s))). y < i"
    "\<forall>y \<in> set (drop p (map fst (scan_slots s))). i < y"
  using binary_search_strict(2) [of "map fst (scan_slots s)" i p] assms
  by (auto simp: scan_position_search slots_ok_def scan_slots_def)

lemma scan_position_present:
  assumes "slots_ok s" "map_of (rs_rows s) i = Some j"
  obtains p where "scan_position i s = Inr p" "p < length (rs_scan_order s)" "rs_scan_order s ! p = j"
proof -
  have j: "j < length (rs_row_slots s)" "fst (slot_at s j) = i" using slots_rows [OF assms] by auto
  then have "i \<in> set (map fst (scan_slots s))" using assms(1) by (auto simp: scan_slots_def slots_ok_def image_iff)
  then obtain p where p: "scan_position i s = Inr p"
    using binary_search_mem [of "map fst (scan_slots s)" i] assms(1) by (auto simp: scan_position_search slots_ok_def)
  have pl: "p < length (rs_scan_order s)" "fst (slot_at s (rs_scan_order s ! p)) = i"
    using scan_position_Inr [OF assms(1) p] by (auto simp: scan_slots_def)
  have "rs_scan_order s ! p < length (rs_row_slots s)"
    using pl(1) assms(1) nth_mem [OF pl(1)] by (auto simp: slots_ok_def)
  then have "map_of (rs_rows s) i = Some (rs_scan_order s ! p)" using assms(1) pl(2) by (auto simp: slots_ok_def)
  then show thesis using that p pl(1) assms(2) by simp
qed

section \<open>Inserting a slot\<close>

lemma map_vec_insert: "map f (vec_insert p x xs) = vec_insert p (f x) (map f xs)"
  by (simp add: vec_insert_def take_map drop_map)

lemma distinct_vec_insert: "x \<notin> set xs \<Longrightarrow> distinct xs \<Longrightarrow> distinct (vec_insert p x xs)"
proof -
  assume x: "x \<notin> set xs" and "distinct xs"
  then have "distinct (take p xs @ drop p xs)" by simp
  then have "distinct (take p xs)" "distinct (drop p xs)" "set (take p xs) \<inter> set (drop p xs) = {}"
    unfolding distinct_append by simp_all
  then show ?thesis using x by (auto simp: vec_insert_def dest: in_set_takeD in_set_dropD)
qed

lemma insert_row_slot_ok:
  assumes ok: "slots_ok s" and new: "rs_abs s i = None"
  shows "slots_ok (insert_row_slot i r s)" "rs_abs (insert_row_slot i r s) = (rs_abs s)(i \<mapsto> r)"
proof -
  let ?n = "length (rs_row_slots s)"
  define t where "t = insert_row_slot i r s"
  define pos where "pos = (if rs_scan_order s = [] \<or> fst (slot_at s (last (rs_scan_order s))) < i
    then length (rs_scan_order s) else position_or_insertion (scan_position i s))"
  have in_range: "j < ?n" if "j \<in> set (rs_scan_order s)" for j using that ok by (auto simp: slots_ok_def)
  have at: "slot_at (s\<lparr>rs_row_slots := rs_row_slots s @ [(i, r)]\<rparr>) j = slot_at s j" if "j < ?n" for j
    using that by (simp add: slot_at_def nth_append)
  have last: "rs_scan_order s = [] \<or> last (rs_scan_order s) < ?n" using in_range by (cases "rs_scan_order s") auto
  have scan: "scan_position i (s\<lparr>rs_row_slots := rs_row_slots s @ [(i, r)], rs_rows := m\<rparr>) = scan_position i s" for m
    by (rule scan_position_cong) (use in_range in \<open>auto simp: scan_slots_def slot_at_def nth_append\<close>)
  have t: "rs_row_slots t = rs_row_slots s @ [(i, r)]" "rs_rows t = bm_insert i ?n (rs_rows s)"
    "rs_scan_order t = vec_insert pos ?n (rs_scan_order s)"
  proof -
    have [simp]: "slot_at (s\<lparr>rs_row_slots := rs_row_slots s @ [(i, r)], rs_rows := m\<rparr>) (last (rs_scan_order s))
        = slot_at s (last (rs_scan_order s))" if "rs_scan_order s \<noteq> []" for m
      using last that by (simp add: slot_at_def nth_append)
    show "rs_row_slots t = rs_row_slots s @ [(i, r)]" "rs_rows t = bm_insert i ?n (rs_rows s)"
      "rs_scan_order t = vec_insert pos ?n (rs_scan_order s)"
      by (auto simp: t_def insert_row_slot_def Let_def scan pos_def vec_insert_def)
  qed
  have sorted: "sorted_wrt (<) (map fst (scan_slots s))" using ok by (simp add: slots_ok_def)
  have absent: "i \<notin> set (map fst (scan_slots s))"
    using new by (simp add: scan_slots_abs [OF ok, symmetric] map_of_eq_None_iff)
  have bounds: "\<forall>y \<in> set (take pos (map fst (scan_slots s))). y < i" "\<forall>y \<in> set (drop pos (map fst (scan_slots s))). i < y"
  proof -
    have "(\<forall>y \<in> set (take pos (map fst (scan_slots s))). y < i) \<and> (\<forall>y \<in> set (drop pos (map fst (scan_slots s))). i < y)"
    proof (cases "rs_scan_order s = [] \<or> fst (slot_at s (last (rs_scan_order s))) < i")
      case True
      have "y < i" if "y \<in> set (map fst (scan_slots s))" for y
      proof -
        have "rs_scan_order s \<noteq> []" using that by (auto simp: scan_slots_def)
        then obtain ks k where ks: "map fst (scan_slots s) = ks @ [k]" "k = fst (slot_at s (last (rs_scan_order s)))"
          by (cases "rs_scan_order s" rule: rev_cases) (auto simp: scan_slots_def)
        then have "y \<le> k" using sorted that by (auto simp: sorted_wrt_append)
        then show ?thesis using True ks(2) \<open>rs_scan_order s \<noteq> []\<close> by auto
      qed
      then show ?thesis using True by (simp add: pos_def scan_slots_def)
    next
      case False
      obtain p where p: "scan_position i s = Inl p"
      proof (cases "scan_position i s")
        case (Inr q)
        then have "i \<in> set (map fst (scan_slots s))"
          using scan_position_Inr [OF ok Inr] by (auto simp: scan_slots_def intro!: imageI)
        then show thesis using absent by simp
      qed
      then show ?thesis using False scan_position_Inl [OF ok p] by (simp add: pos_def position_or_insertion_def)
    qed
    then show "\<forall>y \<in> set (take pos (map fst (scan_slots s))). y < i" "\<forall>y \<in> set (drop pos (map fst (scan_slots s))). i < y" by auto
  qed
  have order: "map (slot_at t) (rs_scan_order s) = scan_slots s"
    using in_range by (auto simp: scan_slots_def slot_at_def t(1) nth_append)
  have slots: "scan_slots t = vec_insert pos (i, r) (scan_slots s)"
  proof -
    have "slot_at t ?n = (i, r)" by (simp add: slot_at_def t(1))
    then show ?thesis using order by (simp add: scan_slots_def [of t] t(3) map_vec_insert)
  qed
  have "sorted_wrt (<) (map fst (scan_slots t))"
    using sorted_wrt_vec_insert [OF sorted bounds] by (simp add: slots vec_insert_def take_map drop_map)
  moreover have "distinct (rs_scan_order t)"
    using ok distinct_vec_insert [of ?n "rs_scan_order s" pos] by (simp add: t(3) slots_ok_def)
  moreover have "map_of (rs_rows t) k = Some j \<longleftrightarrow> j < length (rs_row_slots t) \<and> fst (slot_at t j) = k" for k j
  proof -
    have none: "map_of (rs_rows s) i = None" using new by (simp add: rs_abs_def2 [OF ok])
    have iff: "map_of (rs_rows s) k = Some j \<longleftrightarrow> j < ?n \<and> fst (slot_at s j) = k" for k j
      using ok by (simp add: slots_ok_def)
    have "fst (slot_at s j) \<noteq> i" if "j < ?n" for j using iff [of i j] none that by auto
    then show ?thesis using iff [of k j] by (auto simp: t slot_at_def nth_append less_Suc_eq)
  qed
  ultimately show "slots_ok (insert_row_slot i r s)"
    using ok unfolding t_def [symmetric] by (auto simp: slots_ok_def t bm_ok_insert lessThan_Suc)
  then show "rs_abs (insert_row_slot i r s) = (rs_abs s)(i \<mapsto> r)"
  proof -
    assume okt: "slots_ok (insert_row_slot i r s)"
    have none: "map_of (rs_rows s) i = None" using new by (simp add: rs_abs_def2 [OF ok])
    show ?thesis
    proof
      fix k
      show "rs_abs (insert_row_slot i r s) k = ((rs_abs s)(i \<mapsto> r)) k"
        using slots_rows [OF ok, of k] by (cases "map_of (rs_rows s) k")
          (auto simp: rs_abs_def2 [OF okt, folded t_def] rs_abs_def2 [OF ok] t slot_at_def nth_append t_def [symmetric])
    qed
  qed
qed

lemma insert_row_slot_frame [simp]:
  "rs_schema (insert_row_slot i r s) = rs_schema s" "rs_primary_index (insert_row_slot i r s) = rs_primary_index s"
  "rs_pk_columns (insert_row_slot i r s) = rs_pk_columns s"
  "rs_secondary_indices (insert_row_slot i r s) = rs_secondary_indices s"
  "rs_index_columns (insert_row_slot i r s) = rs_index_columns s"
  by (simp_all add: insert_row_slot_def Let_def)

section \<open>Replacing a slot's row\<close>

lemma replace_row_slot_ok:
  assumes ok: "slots_ok s" and old: "rs_abs s i \<noteq> None"
  shows "slots_ok (replace_row_slot i r s)" "rs_abs (replace_row_slot i r s) = (rs_abs s)(i \<mapsto> r)"
proof -
  obtain j where j: "map_of (rs_rows s) i = Some j" using old by (auto simp: rs_abs_def2 [OF ok])
  then have jl: "j < length (rs_row_slots s)" "fst (slot_at s j) = i" using slots_rows [OF ok] by auto
  define t where "t = replace_row_slot i r s"
  have t: "rs_rows t = rs_rows s" "rs_scan_order t = rs_scan_order s" "length (rs_row_slots t) = length (rs_row_slots s)"
    "slot_at t k = (if k = j then (i, r) else slot_at s k)" if "k < length (rs_row_slots s)" for k
    using j jl that by (simp_all add: t_def replace_row_slot_def slot_at_def nth_list_update)
  have len: "length (rs_row_slots t) = length (rs_row_slots s)" using t(3) jl(1) by blast
  have fst: "fst (slot_at t k) = fst (slot_at s k)" if "k < length (rs_row_slots s)" for k using t(4) [OF that] jl(2) by simp
  have "map fst (scan_slots t) = map fst (scan_slots s)"
    using fst ok t(2) [OF jl(1)] by (auto simp: scan_slots_def slots_ok_def)
  then have okt: "slots_ok t" using ok fst t(1,2) [OF jl(1)] len by (auto simp: slots_ok_def)
  then show "slots_ok (replace_row_slot i r s)" by (simp add: t_def)
  have "rs_abs t k = ((rs_abs s)(i \<mapsto> r)) k" for k
  proof (cases "map_of (rs_rows s) k")
    case (Some l)
    then have l: "l < length (rs_row_slots s)" "fst (slot_at s l) = k" using slots_rows [OF ok] by auto
    then show ?thesis using Some j jl t(1,4) [OF l(1)] by (auto simp: rs_abs_def2 [OF okt] rs_abs_def2 [OF ok])
  next
    case None
    then show ?thesis using j t(1) [OF jl(1)] by (auto simp: rs_abs_def2 [OF okt] rs_abs_def2 [OF ok])
  qed
  then show "rs_abs (replace_row_slot i r s) = (rs_abs s)(i \<mapsto> r)" by (auto simp: t_def)
qed

lemma replace_row_slot_frame [simp]:
  "rs_schema (replace_row_slot i r s) = rs_schema s" "rs_primary_index (replace_row_slot i r s) = rs_primary_index s"
  "rs_pk_columns (replace_row_slot i r s) = rs_pk_columns s"
  "rs_secondary_indices (replace_row_slot i r s) = rs_secondary_indices s"
  "rs_index_columns (replace_row_slot i r s) = rs_index_columns s"
  by (simp_all add: replace_row_slot_def split: option.split)

section \<open>Removing a slot\<close>

lemma nth_vec_remove: "p < length xs \<Longrightarrow> k < length xs - 1 \<Longrightarrow> vec_remove p xs ! k = (if k < p then xs ! k else xs ! Suc k)"
  by (auto simp: vec_remove_def nth_append)

lemma list_update_distinct:
  "distinct xs \<Longrightarrow> a < length xs \<Longrightarrow> xs[a := y] = map (\<lambda>x. if x = xs ! a then y else x) xs"
  by (rule nth_equalityI) (auto simp: nth_list_update nth_eq_iff_index_eq)

lemma map_of_vec_remove:
  assumes "bm_ok m" "p < length m" "m ! p = (k, v)"
  shows "map_of (vec_remove p m) = (map_of m)(k := None)"
proof -
  have m: "m = take p m @ (k, v) # drop (Suc p) m" using id_take_nth_drop [OF assms(2)] unfolding assms(3) .
  have "distinct (map fst (take p m @ (k, v) # drop (Suc p) m))" using bm_ok_distinct [OF assms(1)] m by simp
  then have "map_of (take p m) k = None" "map_of (drop (Suc p) m) k = None"
    by (auto simp: map_of_eq_None_iff)
  then have "map_of (vec_remove p m) = (map_of (take p m @ (k, v) # drop (Suc p) m))(k := None)"
    by (auto simp: vec_remove_def map_add_def fun_eq_iff split: option.split)
  then show ?thesis using m by simp
qed

lemma distinct_vec_remove: "distinct xs \<Longrightarrow> p < length xs \<Longrightarrow> distinct (vec_remove p xs)"
proof -
  assume "distinct xs" "p < length xs"
  then have "distinct (take p xs @ xs ! p # drop (Suc p) xs)" by (metis id_take_nth_drop)
  then show ?thesis by (simp add: vec_remove_def)
qed

lemma map_vec_remove: "map f (vec_remove p xs) = vec_remove p (map f xs)"
  by (simp add: vec_remove_def take_map drop_map)

lemma remove_row_slot_absent:
  assumes "slots_ok s" "rs_abs s i = None"
  shows "remove_row_slot i s = (None, s)"
  using assms by (simp add: remove_row_slot_def rs_abs_def2)

text \<open>The state after a removal: the last slot takes the removed one's place.\<close>

lemma remove_row_slot_state:
  assumes ok: "slots_ok s" and j: "map_of (rs_rows s) i = Some j"
  defines "n \<equiv> length (rs_row_slots s)"
  defines "f \<equiv> (\<lambda>x. if x = n - 1 then j else x)"
  obtains p where "p < n" "rs_scan_order s ! p = j"
    "remove_row_slot i s = (Some (snd (slot_at s j)), s\<lparr>rs_rows := (if j = n - 1 then bm_remove i (rs_rows s)
        else bm_insert (fst (slot_at s (n - 1))) j (bm_remove i (rs_rows s))),
      rs_row_slots := vec_swap_remove j (rs_row_slots s), rs_scan_order := map f (vec_remove p (rs_scan_order s))\<rparr>)"
proof -
  have jl: "j < n" "fst (slot_at s j) = i" using slots_rows [OF ok j] by (auto simp: n_def)
  have order: "distinct (rs_scan_order s)" "set (rs_scan_order s) = {..<n}" "length (rs_scan_order s) = n"
    using ok distinct_card [of "rs_scan_order s"] by (auto simp: slots_ok_def n_def)
  obtain p where p: "scan_position i s = Inr p" "p < n" "rs_scan_order s ! p = j"
    using scan_position_present [OF ok j] order(3) by metis
  have rem: "distinct (vec_remove p (rs_scan_order s))" "set (vec_remove p (rs_scan_order s)) = {..<n} - {j}"
    using set_vec_remove_distinct [of "rs_scan_order s" p] distinct_vec_remove [of "rs_scan_order s" p] order p by simp_all
  show thesis
  proof (cases "j = n - 1")
    case True
    have "map f (vec_remove p (rs_scan_order s)) = vec_remove p (rs_scan_order s)"
      using rem(2) True by (intro map_idI) (auto simp: f_def)
    then show thesis using that [of p] p jl True j
      by (simp add: remove_row_slot_def Let_def result_ok_def n_def)
  next
    case False
    then have jn: "Suc j < n" using jl by simp
    let ?m = "fst (slot_at s (n - 1))"
    have last: "last (rs_row_slots s) = slot_at s (n - 1)" using jl(1) by (cases "rs_row_slots s" rule: rev_cases) (auto simp: n_def slot_at_def nth_append)
    have "map_of (rs_rows s) ?m = Some (n - 1)" using ok jn by (auto simp: slots_ok_def n_def)
    then obtain q where q: "scan_position ?m s = Inr q" "q < n" "rs_scan_order s ! q = n - 1"
      using scan_position_present [OF ok] order(3) by metis
    have pq: "p \<noteq> q" using p(3) q(3) False by auto
    define a where "a = (if q > p then q - 1 else q)"
    have al: "a < n - 1" using p(2) q(2) pq by (auto simp: a_def)
    have at: "vec_remove p (rs_scan_order s) ! a = n - 1"
      using nth_vec_remove [of p "rs_scan_order s" a] order(3) p(2) al pq q(3) by (auto simp: a_def split: if_splits)
    have len: "length (vec_remove p (rs_scan_order s)) = n - 1" using p(2) order(3) by simp
    have upd: "(vec_remove p (rs_scan_order s))[a := j] = map f (vec_remove p (rs_scan_order s))"
      using list_update_distinct [OF rem(1), of a j] al len by (simp add: at f_def)
    have moved: "vec_swap_remove j (rs_row_slots s) ! j = slot_at s (n - 1)"
      using jn last by (simp add: vec_swap_remove_def n_def)
    show thesis using that [of p] p jl False j jn q upd [symmetric] moved last
      by (simp add: remove_row_slot_def Let_def result_ok_def n_def a_def)
  qed
qed

lemma remove_row_slot_ok:
  assumes ok: "slots_ok s" and old: "rs_abs s i = Some r"
  shows "fst (remove_row_slot i s) = Some r" "slots_ok (snd (remove_row_slot i s))"
    "rs_abs (snd (remove_row_slot i s)) = (rs_abs s)(i := None)"
proof -
  obtain j where j: "map_of (rs_rows s) i = Some j" "r = snd (slot_at s j)"
    using old by (auto simp: rs_abs_def2 [OF ok])
  define n where "n = length (rs_row_slots s)"
  define f where "f = (\<lambda>x. if x = n - 1 then j else x)"
  obtain p where p: "p < n" "rs_scan_order s ! p = j"
    "remove_row_slot i s = (Some (snd (slot_at s j)), s\<lparr>rs_rows := (if j = n - 1 then bm_remove i (rs_rows s)
        else bm_insert (fst (slot_at s (n - 1))) j (bm_remove i (rs_rows s))),
      rs_row_slots := vec_swap_remove j (rs_row_slots s), rs_scan_order := map f (vec_remove p (rs_scan_order s))\<rparr>)"
    using remove_row_slot_state [OF ok j(1)] unfolding n_def f_def by blast
  then show "fst (remove_row_slot i s) = Some r" using j(2) by simp
  have jl: "j < n" "fst (slot_at s j) = i" using slots_rows [OF ok j(1)] by (auto simp: n_def)
  have order: "distinct (rs_scan_order s)" "set (rs_scan_order s) = {..<n}" "length (rs_scan_order s) = n"
    using ok distinct_card [of "rs_scan_order s"] by (auto simp: slots_ok_def n_def)
  have rem: "distinct (vec_remove p (rs_scan_order s))" "set (vec_remove p (rs_scan_order s)) = {..<n} - {j}"
    using set_vec_remove_distinct [of "rs_scan_order s" p] distinct_vec_remove [of "rs_scan_order s" p] order p by simp_all
  define t where "t = snd (remove_row_slot i s)"
  have t: "rs_rows t = (if j = n - 1 then bm_remove i (rs_rows s) else bm_insert (fst (slot_at s (n - 1))) j (bm_remove i (rs_rows s)))"
    "rs_row_slots t = vec_swap_remove j (rs_row_slots s)" "rs_scan_order t = map f (vec_remove p (rs_scan_order s))"
    by (simp_all add: t_def p(3))
  have len: "length (rs_row_slots t) = n - 1" by (simp add: t(2) n_def)
  have last: "last (rs_row_slots s) = slot_at s (n - 1)"
    using jl(1) by (cases "rs_row_slots s" rule: rev_cases) (auto simp: n_def slot_at_def nth_append)
  have at: "slot_at t x = (if x = j then slot_at s (n - 1) else slot_at s x)" if "x < n - 1" for x
    using that jl(1) last by (auto simp: slot_at_def t(2) vec_swap_remove_def n_def nth_butlast nth_list_update)
  have slots: "scan_slots t = vec_remove p (scan_slots s)"
  proof -
    have "slot_at t (f x) = slot_at s x" if "x \<in> set (vec_remove p (rs_scan_order s))" for x
    proof (cases "x = n - 1")
      case True
      then have "j < n - 1" using that rem(2) jl(1) by auto
      then show ?thesis using True at [of j] by (simp add: f_def)
    next
      case False
      have "x \<in> {..<n} - {j}" using that unfolding rem(2) .
      then have "x < n" "x \<noteq> j" by simp_all
      then have "x < n - 1" "x \<noteq> j" using False by linarith+
      then show ?thesis using False at [of x] by (simp add: f_def)
    qed
    then show ?thesis by (simp add: scan_slots_def t(3) map_vec_remove [symmetric])
  qed
  have pl: "p < length (scan_slots s)" "scan_slots s ! p = (i, r)"
    using p(1,2) order(3) jl(2) j(2) by (auto simp: scan_slots_def prod_eq_iff)
  have iff: "map_of (rs_rows s) k = Some x \<longleftrightarrow> x < n \<and> fst (slot_at s x) = k" for k x
    using ok by (simp add: slots_ok_def n_def)
  have "distinct (rs_scan_order t)" unfolding t(3) distinct_map
    using rem by (auto simp: inj_on_def f_def)
  moreover have "set (rs_scan_order t) = {..<length (rs_row_slots t)}"
  proof -
    have "f ` ({..<n} - {j}) = {..<n - 1}"
    proof (intro equalityI subsetI)
      fix x assume "x \<in> {..<n - 1}"
      then show "x \<in> f ` ({..<n} - {j})" using jl(1)
        by (cases "x = j") (auto simp: f_def intro: image_eqI [of _ _ "n - 1"] image_eqI [of _ _ x])
    qed (use jl(1) in \<open>auto simp: f_def split: if_splits\<close>)
    then show ?thesis by (simp add: t(3) rem(2) len)
  qed
  moreover have "sorted_wrt (<) (map fst (scan_slots t))"
    using ok sorted_wrt_vec_remove [of "(<)" "map fst (scan_slots s)" p] by (simp add: slots map_vec_remove slots_ok_def)
  moreover have "bm_ok (rs_rows t)" using ok by (auto simp: t(1) slots_ok_def bm_ok_insert bm_ok_remove)
  moreover have "map_of (rs_rows t) k = Some x \<longleftrightarrow> x < length (rs_row_slots t) \<and> fst (slot_at t x) = k" for k x
  proof (cases "j = n - 1")
    case True
    then show ?thesis using iff [of k x] iff [of i x] j(1) at [of x] len jl by (auto simp: t(1))
  next
    case False
    then have jn: "j < n - 1" using jl(1) by simp
    have m: "map_of (rs_rows s) (fst (slot_at s (n - 1))) = Some (n - 1)" using iff jl(1) by auto
    then have ne: "fst (slot_at s (n - 1)) \<noteq> i" using j(1) jn by auto
    show ?thesis
    proof (cases "x = j")
      case True
      then show ?thesis using jn False len at [of j] iff [of k j] jl(2) by (auto simp: t(1))
    next
      case xj: False
      let ?m = "fst (slot_at s (n - 1))"
      have look: "map_of (rs_rows t) k = (if k = ?m then Some j else if k = i then None else map_of (rs_rows s) k)"
        using False by (simp add: t(1))
      have rhs: "x < length (rs_row_slots t) \<and> fst (slot_at t x) = k \<longleftrightarrow> x < n - 1 \<and> fst (slot_at s x) = k"
        using len at [of x] xj by auto
      have mx: "fst (slot_at s x) \<noteq> ?m" if "x < n - 1" using iff [of ?m x] m that by auto
      have ix: "fst (slot_at s x) \<noteq> i" if "x < n - 1" using iff [of i x] j(1) xj that by auto
      have kx: "map_of (rs_rows s) k = Some x \<longleftrightarrow> x < n - 1 \<and> fst (slot_at s x) = k" if "k \<noteq> ?m"
        using iff [of k x] that by (cases "x = n - 1") auto
      show ?thesis unfolding look rhs using mx ix kx xj by (cases "k = ?m"; cases "k = i") auto
    qed
  qed
  ultimately have okt: "slots_ok t" by (simp add: slots_ok_def)
  then show "slots_ok (snd (remove_row_slot i s))" by (simp add: t_def)
  show "rs_abs (snd (remove_row_slot i s)) = (rs_abs s)(i := None)"
    using map_of_vec_remove [OF scan_slots_bm [OF ok] pl]
    unfolding t_def [symmetric] slots [symmetric] scan_slots_abs [OF okt] scan_slots_abs [OF ok] .
qed

lemma remove_row_slot_frame [simp]:
  "rs_schema (snd (remove_row_slot i s)) = rs_schema s" "rs_primary_index (snd (remove_row_slot i s)) = rs_primary_index s"
  "rs_pk_columns (snd (remove_row_slot i s)) = rs_pk_columns s"
  "rs_secondary_indices (snd (remove_row_slot i s)) = rs_secondary_indices s"
  "rs_index_columns (snd (remove_row_slot i s)) = rs_index_columns s"
proof -
  have "\<exists>a b c. snd (remove_row_slot i s) = s\<lparr>rs_rows := a, rs_row_slots := b, rs_scan_order := c\<rparr>"
  proof (cases "map_of (rs_rows s) i")
    case None
    then have "snd (remove_row_slot i s) = s\<lparr>rs_rows := rs_rows s, rs_row_slots := rs_row_slots s, rs_scan_order := rs_scan_order s\<rparr>"
      by (simp add: remove_row_slot_def)
    then show ?thesis by blast
  next
    case (Some j)
    show ?thesis unfolding remove_row_slot_def Let_def Some option.case if_distrib [of snd] snd_conv if_distrib [of "\<lambda>x. snd x = _"]
      by (cases "j < length (vec_swap_remove j (rs_row_slots s))") (simp_all only: if_True if_False, blast+)
  qed
  then obtain a b c where t: "snd (remove_row_slot i s) = s\<lparr>rs_rows := a, rs_row_slots := b, rs_scan_order := c\<rparr>" by blast
  show "rs_schema (snd (remove_row_slot i s)) = rs_schema s" "rs_primary_index (snd (remove_row_slot i s)) = rs_primary_index s"
    "rs_pk_columns (snd (remove_row_slot i s)) = rs_pk_columns s"
    "rs_secondary_indices (snd (remove_row_slot i s)) = rs_secondary_indices s"
    "rs_index_columns (snd (remove_row_slot i s)) = rs_index_columns s" unfolding t by simp_all
qed

end
