(* ===== verification/Cynos_Row_Indices.thy ===== *)
theory Cynos_Row_Indices
  imports Cynos_Row_Slots
begin

text \<open>
  What the indices of a row store hold: under every key exactly the ids of the rows that have it. The
  lemmas are about any index that keeps the contract, so they serve the primary index (a B+ tree) and the
  secondary stores alike. The loops over the indices by name are characterised once for all calls.
\<close>

section \<open>The contents of an index\<close>

definition key_taken :: "(row_id \<Rightarrow> 'r option) \<Rightarrow> ('r \<Rightarrow> 'k) \<Rightarrow> 'k \<Rightarrow> bool" where
  "key_taken tbl kf k \<longleftrightarrow> (\<exists>v r. tbl v = Some r \<and> kf r = k)"

definition keys_unique :: "(row_id \<Rightarrow> 'r option) \<Rightarrow> ('r \<Rightarrow> 'k) \<Rightarrow> bool" where
  "keys_unique tbl kf \<longleftrightarrow> (\<forall>v w r q. tbl v = Some r \<longrightarrow> tbl w = Some q \<longrightarrow> kf r = kf q \<longrightarrow> v = w)"

lemma keys_unique_insert:
  "keys_unique tbl kf \<Longrightarrow> \<not> key_taken tbl kf (kf r) \<Longrightarrow> keys_unique (tbl(v \<mapsto> r)) kf"
  unfolding keys_unique_def key_taken_def by (metis fun_upd_apply option.inject)

lemma keys_unique_replace:
  "keys_unique tbl kf \<Longrightarrow> tbl v = Some q \<Longrightarrow> kf r = kf q \<or> \<not> key_taken tbl kf (kf r) \<Longrightarrow> keys_unique (tbl(v \<mapsto> r)) kf"
  unfolding keys_unique_def key_taken_def by (metis fun_upd_apply option.inject)

lemma keys_unique_restrict: "keys_unique tbl kf \<Longrightarrow> \<forall>v r. tbl' v = Some r \<longrightarrow> tbl v = Some r \<Longrightarrow> keys_unique tbl' kf"
  unfolding keys_unique_def by blast

lemma keys_unique_delete: "keys_unique tbl kf \<Longrightarrow> keys_unique (tbl(v := None)) kf"
  by (erule keys_unique_restrict) (simp add: fun_upd_apply)

context index_contract
begin

definition holds :: "'i \<Rightarrow> (row_id \<Rightarrow> 'r option) \<Rightarrow> ('r \<Rightarrow> 'k) \<Rightarrow> bool" where
  "holds i tbl kf \<longleftrightarrow> inv i
     \<and> (\<forall>k. distinct (ix_get I k i) \<and> set (ix_get I k i) = {v. \<exists>r. tbl v = Some r \<and> kf r = k})"

lemma holds_inv: "holds i tbl kf \<Longrightarrow> inv i"
  by (simp add: holds_def)

lemma holds_get: "holds i tbl kf \<Longrightarrow> v \<in> set (ix_get I k i) \<longleftrightarrow> (\<exists>r. tbl v = Some r \<and> kf r = k)"
  by (simp add: holds_def)

lemma holds_nonempty: "holds i tbl kf \<Longrightarrow> ix_get I k i \<noteq> [] \<longleftrightarrow> key_taken tbl kf k"
  using holds_get [of i tbl kf _ k] unfolding key_taken_def by (metis all_not_in_conv set_empty)

lemma holds_contains: "holds i tbl kf \<Longrightarrow> ix_contains_key I k i \<longleftrightarrow> key_taken tbl kf k"
  using contains_iff [OF holds_inv] holds_nonempty by metis

text \<open>Adding the id of a new row: refused by a unique index that has the key, else the index holds it.\<close>

lemma holds_add:
  assumes h: "holds i tbl kf" and new: "tbl v = None"
  shows "uniq (snd (ix_add I (kf r) v i)) = uniq i"
    and "fst (ix_add I (kf r) v i) = (if uniq i \<and> key_taken tbl kf (kf r) then Inl DuplicateKey else Inr ())"
    and "uniq i \<and> key_taken tbl kf (kf r) \<Longrightarrow> holds (snd (ix_add I (kf r) v i)) tbl kf"
    and "\<not> (uniq i \<and> key_taken tbl kf (kf r)) \<Longrightarrow> holds (snd (ix_add I (kf r) v i)) (tbl(v \<mapsto> r)) kf"
proof -
  let ?j = "snd (ix_add I (kf r) v i)"
  have inv: "inv i" using h by (rule holds_inv)
  show "uniq ?j = uniq i" using inv_add [OF inv] by simp
  have ref: "add_refused (uniq i) (ix_get I (kf r) i) \<longleftrightarrow> uniq i \<and> key_taken tbl kf (kf r)"
    using holds_nonempty [OF h] by (simp add: add_refused_def)
  show "fst (ix_add I (kf r) v i) = (if uniq i \<and> key_taken tbl kf (kf r) then Inl DuplicateKey else Inr ())"
    using add_result [OF inv] by (simp add: ref)
  show "holds ?j tbl kf" if "uniq i \<and> key_taken tbl kf (kf r)"
  proof -
    have "add_refused (uniq i) (ix_get I (kf r) i)" using ref that by blast
    then have "ix_get I k ?j = ix_get I k i" for k unfolding get_add [OF inv] by (simp only: simp_thms if_False)
    then show ?thesis using h inv_add [OF inv, of "kf r" v] by (simp add: holds_def)
  qed
  show "holds ?j (tbl(v \<mapsto> r)) kf" if "\<not> (uniq i \<and> key_taken tbl kf (kf r))"
  proof -
    have get: "ix_get I k ?j = (if k = kf r then ix_get I k i @ [v] else ix_get I k i)" for k
      using get_add [OF inv, of k "kf r" v] that by (simp add: ref)
    have "v \<notin> set (ix_get I k i)" for k using holds_get [OF h] new by simp
    then show ?thesis using h inv_add [OF inv, of "kf r" v] new by (auto simp: holds_def get)
  qed
qed

lemma holds_remove:
  assumes h: "holds i tbl kf" and old: "tbl v = Some r"
  shows "holds (ix_remove I (kf r) (Some v) i) (tbl(v := None)) kf" "uniq (ix_remove I (kf r) (Some v) i) = uniq i"
proof -
  have inv: "inv i" using h by (rule holds_inv)
  show "uniq (ix_remove I (kf r) (Some v) i) = uniq i" using inv_remove [OF inv] by simp
  show "holds (ix_remove I (kf r) (Some v) i) (tbl(v := None)) kf"
    using h old inv_remove [OF inv, of "kf r" "Some v"] get_remove_one [OF inv, of _ "kf r" v] by (auto simp: holds_def)
qed

lemma holds_remove_absent:
  assumes h: "holds i tbl kf" and old: "tbl v = None"
  shows "holds (ix_remove I k (Some v) i) tbl kf" "uniq (ix_remove I k (Some v) i) = uniq i"
proof -
  have inv: "inv i" using h by (rule holds_inv)
  show "uniq (ix_remove I k (Some v) i) = uniq i" using inv_remove [OF inv] by simp
  show "holds (ix_remove I k (Some v) i) tbl kf"
    using h old inv_remove [OF inv, of k "Some v"] get_remove_one [OF inv, of _ k v] by (auto simp: holds_def)
qed

lemma holds_clear: "holds i tbl kf \<Longrightarrow> holds (ix_clear I i) (\<lambda>_. None) kf" "holds i tbl kf \<Longrightarrow> uniq (ix_clear I i) = uniq i"
  using inv_clear [of i] get_clear [of i] by (simp_all add: holds_def)

lemma holds_empty: "inv i \<Longrightarrow> (\<And>k. ix_get I k i = []) \<Longrightarrow> holds i (\<lambda>_. None) kf"
  by (simp add: holds_def)

text \<open>A row whose key changes moves to the new key; one whose key stays needs nothing.\<close>

lemma holds_move:
  assumes h: "holds i tbl kf" and old: "tbl v = Some q" and free: "\<not> (uniq i \<and> key_taken tbl kf (kf r))"
  defines "j \<equiv> snd (ix_add I (kf r) v (ix_remove I (kf q) (Some v) i))"
  shows "holds j (tbl(v \<mapsto> r)) kf" "uniq j = uniq i"
proof -
  note rem = holds_remove [OF h old]
  have "\<not> (uniq (ix_remove I (kf q) (Some v) i) \<and> key_taken (tbl(v := None)) kf (kf r))"
    using free rem(2) by (auto simp: key_taken_def split: if_splits)
  then show "holds j (tbl(v \<mapsto> r)) kf" "uniq j = uniq i"
    using holds_add(1,4) [OF rem(1), of v r] rem(2) by (simp_all add: j_def)
qed

lemma holds_same:
  assumes "holds i tbl kf" "tbl v = Some q" "kf q = kf r"
  shows "holds i (tbl(v \<mapsto> r)) kf"
proof -
  have "{w. \<exists>s. (tbl(v \<mapsto> r)) w = Some s \<and> kf s = k} = {w. \<exists>s. tbl w = Some s \<and> kf s = k}" for k
    using assms(2,3) by auto
  then show ?thesis using assms(1) by (simp add: holds_def)
qed

text \<open>What a batch of removals leaves.\<close>

lemma holds_without:
  assumes "holds i tbl kf" "inv j"
    and "\<forall>k. distinct (ix_get I k j) \<and> set (ix_get I k j) = {v \<in> set (ix_get I k i). (k, v) \<notin> set es}"
    and "\<forall>v r. tbl v = Some r \<longrightarrow> (kf r, v) \<in> set es \<longleftrightarrow> v \<in> gone"
  shows "holds j (\<lambda>v. if v \<in> gone then None else tbl v) kf"
  using assms by (auto simp: holds_def)

end

section \<open>Loops over the indices\<close>

text \<open>Every index of a list of names is there and has a property.\<close>

definition all_indices :: "(string \<Rightarrow> 'c \<Rightarrow> 'i \<Rightarrow> bool) \<Rightarrow> (string \<times> 'c) list \<Rightarrow> (string, 'i) btree_map \<Rightarrow> bool" where
  "all_indices Q xs m \<longleftrightarrow> (\<forall>(n, c) \<in> set xs. \<exists>i. map_of m n = Some i \<and> Q n c i)"

lemma all_indices_simps [simp]:
  "all_indices Q [] m"
  "all_indices Q ((n, c) # xs) m \<longleftrightarrow> (\<exists>i. map_of m n = Some i \<and> Q n c i) \<and> all_indices Q xs m"
  by (simp_all add: all_indices_def)

lemma all_indices_mono:
  "all_indices Q xs m \<Longrightarrow> (\<And>n c i. (n, c) \<in> set xs \<Longrightarrow> Q n c i \<Longrightarrow> R n c i) \<Longrightarrow> all_indices R xs m"
  unfolding all_indices_def by fast

lemma all_indices_other: "n \<notin> fst ` set xs \<Longrightarrow> all_indices Q xs (bm_insert n i m) \<longleftrightarrow> all_indices Q xs m"
  by (induction xs) (auto simp: all_indices_def)

lemma all_indices_get: "all_indices Q xs m \<Longrightarrow> (n, c) \<in> set xs \<Longrightarrow> \<exists>i. map_of m n = Some i \<and> Q n c i"
  by (auto simp: all_indices_def)

lemma for_each_index_frame: "n \<notin> fst ` set xs \<Longrightarrow> map_of (for_each_index f xs m) n = map_of m n"
  by (induction f xs m rule: for_each_index.induct) (auto split: option.split)

lemma for_each_index_all:
  assumes "distinct (map fst xs)" "all_indices Q xs m"
    and "\<And>n c i. (n, c) \<in> set xs \<Longrightarrow> Q n c i \<Longrightarrow> R n c (f n c i)"
  shows "all_indices R xs (for_each_index f xs m)"
  using assms
proof (induction xs arbitrary: m)
  case (Cons x xs)
  obtain n c where x: "x = (n, c)" by fastforce
  obtain i where i: "map_of m n = Some i" "Q n c i" using Cons.prems(2) x by auto
  have n: "n \<notin> fst ` set xs" "distinct (map fst xs)" using Cons.prems(1) x by auto
  have "all_indices Q xs (bm_insert n (f n c i) m)"
    using Cons.prems(2) by (simp add: x all_indices_other [OF n(1)])
  then have "all_indices R xs (for_each_index f xs (bm_insert n (f n c i) m))"
    using Cons.IH n(2) Cons.prems(3) by simp
  then show ?case using i Cons.prems(3) by (simp add: x for_each_index_frame [OF n(1)])
qed simp

lemma try_for_each_index_frame: "n \<notin> fst ` set xs \<Longrightarrow> map_of (snd (try_for_each_index f xs m)) n = map_of m n"
  by (induction f xs m rule: try_for_each_index.induct) (auto split: option.split prod.split sum.split)

text \<open>The loop that can fail: it stops at the first index that is \<open>bad\<close>; what it did before stays.\<close>

lemma try_for_each_index_all:
  assumes "distinct (map fst xs)" "all_indices Q xs m"
    and "\<And>n c i. (n, c) \<in> set xs \<Longrightarrow> Q n c i \<Longrightarrow> \<not> bad (n, c) \<Longrightarrow> fst (f n c i) = Inr () \<and> R n c (snd (f n c i))"
    and "\<And>n c i. (n, c) \<in> set xs \<Longrightarrow> Q n c i \<Longrightarrow> bad (n, c) \<Longrightarrow> fst (f n c i) = Inl (err (n, c)) \<and> Q n c (snd (f n c i))"
  shows "fst (try_for_each_index f xs m) = (case find bad xs of None \<Rightarrow> Inr () | Some x \<Rightarrow> Inl (err x))"
    and "find bad xs = None \<Longrightarrow> all_indices R xs (snd (try_for_each_index f xs m))"
    and "all_indices (\<lambda>n c i. Q n c i \<or> R n c i) xs (snd (try_for_each_index f xs m))"
proof -
  have "fst (try_for_each_index f xs m) = (case find bad xs of None \<Rightarrow> Inr () | Some x \<Rightarrow> Inl (err x))
    \<and> (find bad xs = None \<longrightarrow> all_indices R xs (snd (try_for_each_index f xs m)))
    \<and> all_indices (\<lambda>n c i. Q n c i \<or> R n c i) xs (snd (try_for_each_index f xs m))"
    using assms
  proof (induction xs arbitrary: m)
    case (Cons x xs)
    obtain n c where x: "x = (n, c)" by fastforce
    obtain i where i: "map_of m n = Some i" "Q n c i" using Cons.prems(2) x by auto
    have n: "n \<notin> fst ` set xs" "distinct (map fst xs)" using Cons.prems(1) x by auto
    have rest: "all_indices Q xs (bm_insert n j m)" for j
      using Cons.prems(2) by (simp add: x all_indices_other [OF n(1)])
    obtain r j where fj: "f n c i = (r, j)" by fastforce
    show ?case
    proof (cases "bad x")
      case True
      then have "r = Inl (err x)" "Q n c j" using Cons.prems(4) [of n c i] i(2) fj x by auto
      moreover have "all_indices (\<lambda>n c i. Q n c i \<or> R n c i) xs (bm_insert n j m)"
        using rest by (rule all_indices_mono) simp
      ultimately show ?thesis using True i(1) fj x by simp
    next
      case False
      then have r: "r = Inr ()" "R n c j" using Cons.prems(3) [of n c i] i(2) fj x by auto
      have "try_for_each_index f (x # xs) m = try_for_each_index f xs (bm_insert n j m)" using i(1) fj r(1) x by simp
      then show ?thesis
        using Cons.IH [OF n(2) rest [of j]] Cons.prems(3,4) False r(2) try_for_each_index_frame [OF n(1), of f "bm_insert n j m"] x
        by simp
    qed
  qed simp
  then show "fst (try_for_each_index f xs m) = (case find bad xs of None \<Rightarrow> Inr () | Some x \<Rightarrow> Inl (err x))"
    and "find bad xs = None \<Longrightarrow> all_indices R xs (snd (try_for_each_index f xs m))"
    and "all_indices (\<lambda>n c i. Q n c i \<or> R n c i) xs (snd (try_for_each_index f xs m))" by auto
qed

end
