(* ===== verification/Cynos_Row_Refine.thy ===== *)
theory Cynos_Row_Refine
  imports Cynos_Row_Indices
begin

text \<open>
  The row store against its specification: a map from row ids to rows with keys. The specification says
  for every call whether it is refused, with which error, and what the table is afterwards; the store
  gives the same answers and represents the same table, with every index holding exactly the keys of the
  rows (\<open>represents_table\<close>). A call that is refused leaves the table as it was, also where the store has to
  undo what it did to the indices.
\<close>

section \<open>Specification\<close>

text \<open>What does not change in the life of a store: the table's name, the columns of the primary key, and
  the keys of the other indices by name, with the unique ones marked.\<close>

record layout =
  ly_table :: string
  ly_pk :: "nat list"
  ly_keys :: "(string \<times> nat list \<times> bool) list"

type_synonym row_table = "row_id \<Rightarrow> row option"

text \<open>The first unique key, in the order of the index names, that another row has.\<close>

definition pk_conflict :: "layout \<Rightarrow> row_table \<Rightarrow> row \<Rightarrow> bool" where
  "pk_conflict L tbl r \<longleftrightarrow> ly_pk L \<noteq> [] \<and> key_taken tbl (key_of (ly_pk L)) (key_of (ly_pk L) r)"

definition key_conflict :: "row_table \<Rightarrow> row \<Rightarrow> string \<times> nat list \<times> bool \<Rightarrow> bool" where
  "key_conflict tbl r = (\<lambda>(name, cols, uniq). uniq \<and> key_taken tbl (key_of cols) (key_of cols r))"

definition key_error :: "(value list \<Rightarrow> string) \<Rightarrow> row \<Rightarrow> string \<times> nat list \<times> bool \<Rightarrow> db_error" where
  "key_error dbg r = (\<lambda>(name, cols, uniq). unique_error dbg name (key_of cols r))"

definition spec_insert ::
  "(value list \<Rightarrow> string) \<Rightarrow> layout \<Rightarrow> row \<Rightarrow> row_table \<Rightarrow> (db_error + row_id) \<times> row_table" where
  "spec_insert dbg L r tbl =
     (if tbl (rid r) \<noteq> None then (Inl row_id_exists, tbl)
      else if pk_conflict L tbl r then (Inl (unique_error dbg ''primary_key'' (key_of (ly_pk L) r)), tbl)
      else case find (key_conflict tbl r) (ly_keys L) of
             Some k \<Rightarrow> (Inl (key_error dbg r k), tbl)
           | None \<Rightarrow> (Inr (rid r), tbl(rid r \<mapsto> r)))"

definition moved_conflict :: "row_table \<Rightarrow> row \<Rightarrow> row \<Rightarrow> string \<times> nat list \<times> bool \<Rightarrow> bool" where
  "moved_conflict tbl old r k \<longleftrightarrow> key_of (fst (snd k)) old \<noteq> key_of (fst (snd k)) r \<and> key_conflict tbl r k"

definition missing_row :: "layout \<Rightarrow> row_id \<Rightarrow> db_error" where
  "missing_row L i = NotFound (ly_table L) (Int64 (ucast i))"

definition spec_update ::
  "(value list \<Rightarrow> string) \<Rightarrow> layout \<Rightarrow> row_id \<Rightarrow> row \<Rightarrow> row_table \<Rightarrow> (db_error + unit) \<times> row_table" where
  "spec_update dbg L i r tbl =
     (case tbl i of
        None \<Rightarrow> (Inl (missing_row L i), tbl)
      | Some old \<Rightarrow>
          if key_of (ly_pk L) old \<noteq> key_of (ly_pk L) r \<and> pk_conflict L tbl r
          then (Inl (unique_error dbg ''primary_key'' (key_of (ly_pk L) r)), tbl)
          else case find (moved_conflict tbl old r) (ly_keys L) of
                 Some k \<Rightarrow> (Inl (key_error dbg r k), tbl)
               | None \<Rightarrow> (Inr (), tbl(i \<mapsto> r)))"

definition spec_delete :: "layout \<Rightarrow> row_id \<Rightarrow> row_table \<Rightarrow> (db_error + row) \<times> row_table" where
  "spec_delete L i tbl =
     (case tbl i of None \<Rightarrow> (Inl (missing_row L i), tbl) | Some r \<Rightarrow> (Inr r, tbl(i := None)))"

section \<open>The table a store represents\<close>

definition names_of :: "layout \<Rightarrow> (string \<times> nat list) list" where
  "names_of L = map (\<lambda>(n, c, u). (n, c)) (ly_keys L)"

definition uniq_of :: "layout \<Rightarrow> string \<Rightarrow> bool" where
  "uniq_of L n \<longleftrightarrow> (\<exists>c. (n, c, True) \<in> set (ly_keys L))"

definition index_holds :: "layout \<Rightarrow> row_table \<Rightarrow> string \<Rightarrow> nat list \<Rightarrow> secondary_store \<Rightarrow> bool" where
  "index_holds L tbl n c i \<longleftrightarrow> sec_ix.holds i tbl (key_of c) \<and> sec_is_unique i = uniq_of L n"

text \<open>The primary index is there where the key has columns; over no columns it is there but stays empty.\<close>

definition pk_table :: "layout \<Rightarrow> row_table \<Rightarrow> row_table" where
  "pk_table L tbl = (if ly_pk L = [] then (\<lambda>_. None) else tbl)"

definition primary_holds :: "layout \<Rightarrow> row_table \<Rightarrow> btree_store option \<Rightarrow> bool" where
  "primary_holds L tbl p \<longleftrightarrow>
     (case p of
        None \<Rightarrow> ly_pk L = []
      | Some t \<Rightarrow> bt_unique t \<and> btree_ix.holds t (pk_table L tbl) (key_of (ly_pk L)))"

definition indexed :: "layout \<Rightarrow> row_table \<Rightarrow> 'g row_store \<Rightarrow> bool" where
  "indexed L tbl s \<longleftrightarrow> tbl_name (rs_schema s) = ly_table L \<and> rs_pk_columns s = ly_pk L \<and> rs_index_columns s = names_of L
     \<and> distinct (map fst (ly_keys L))
     \<and> primary_holds L tbl (rs_primary_index s)
     \<and> all_indices (index_holds L tbl) (names_of L) (rs_secondary_indices s)"

definition represents_table :: "layout \<Rightarrow> 'g row_store \<Rightarrow> row_table \<Rightarrow> bool" where
  "represents_table L s tbl \<longleftrightarrow> slots_ok s \<and> rs_abs s = tbl \<and> indexed L tbl s"

definition table_ok :: "layout \<Rightarrow> row_table \<Rightarrow> bool" where
  "table_ok L tbl \<longleftrightarrow> (\<forall>i r. tbl i = Some r \<longrightarrow> rid r = i \<and> canonical_row r)
     \<and> (ly_pk L \<noteq> [] \<longrightarrow> keys_unique tbl (key_of (ly_pk L)))
     \<and> (\<forall>(n, c, u) \<in> set (ly_keys L). u \<longrightarrow> keys_unique tbl (key_of c))"

lemma extract_key_of [simp]: "extract_key r cols = key_of cols r"
  by (simp add: extract_key_def key_of_def)

lemma names_of_distinct: "distinct (map fst (ly_keys L)) \<Longrightarrow> distinct (map fst (names_of L))"
  by (simp add: names_of_def comp_def case_prod_beta)

lemma uniq_of_mem: "distinct (map fst (ly_keys L)) \<Longrightarrow> (n, c, u) \<in> set (ly_keys L) \<Longrightarrow> uniq_of L n = u"
  using eq_key_imp_eq_value [of "ly_keys L" n] unfolding uniq_of_def by (cases u) fastforce+

lemma find_map_keys:
  "(\<And>n c u. (n, c, u) \<in> set ks \<Longrightarrow> P (n, c, u) = Q (n, c))
    \<Longrightarrow> find Q (map (\<lambda>(n, c, u). (n, c)) ks) = map_option (\<lambda>(n, c, u). (n, c)) (find P ks)"
proof (induction ks)
  case (Cons k ks)
  obtain n c u where k: "k = (n, c, u)" by (cases k) auto
  have "P (n, c, u) = Q (n, c)" using Cons.prems k by simp
  then show ?case using Cons k by auto
qed simp

text \<open>The slots are not affected by what happens to the indices.\<close>

lemma slots_cong:
  assumes "rs_rows t = rs_rows s" "rs_row_slots t = rs_row_slots s" "rs_scan_order t = rs_scan_order s"
  shows "slots_ok t = slots_ok s" "rs_abs t = rs_abs s"
proof -
  have at: "slot_at t = slot_at s" using assms(2) by (simp add: slot_at_def fun_eq_iff)
  show "slots_ok t = slots_ok s" by (simp add: slots_ok_def scan_slots_def at assms)
  show "rs_abs t = rs_abs s" by (intro ext) (simp add: rs_abs_def row_ref_by_id_def at assms split: option.split)
qed

lemma slots_index_update [simp]:
  "slots_ok (s\<lparr>rs_primary_index := p\<rparr>) = slots_ok s" "rs_abs (s\<lparr>rs_primary_index := p\<rparr>) = rs_abs s"
  "slots_ok (s\<lparr>rs_secondary_indices := m\<rparr>) = slots_ok s" "rs_abs (s\<lparr>rs_secondary_indices := m\<rparr>) = rs_abs s"
  "slots_ok (s\<lparr>rs_gin_indices := g\<rparr>) = slots_ok s" "rs_abs (s\<lparr>rs_gin_indices := g\<rparr>) = rs_abs s"
  by (rule slots_cong; simp)+

lemma gin_row_calls:
  obtains g where "gin_insert_row G r i s = s\<lparr>rs_gin_indices := g\<rparr>"
  by (simp add: gin_insert_row_def for_each_gin_index_def)

lemma gin_remove_calls:
  obtains g where "gin_remove_row G r i s = s\<lparr>rs_gin_indices := g\<rparr>"
  by (simp add: gin_remove_row_def for_each_gin_index_def)

lemma gin_update_calls:
  obtains g where "gin_update_row G q r i s = s\<lparr>rs_gin_indices := g\<rparr>"
  by (simp add: gin_update_row_def for_each_gin_index_def)

lemma indexed_frame [simp]:
  "indexed L tbl (s\<lparr>rs_gin_indices := g\<rparr>) = indexed L tbl s" "indexed L tbl (insert_row_slot i r s) = indexed L tbl s"
  "indexed L tbl (replace_row_slot i r s) = indexed L tbl s" "indexed L tbl (snd (remove_row_slot i s)) = indexed L tbl s"
  by (simp_all add: indexed_def)

lemma rows_abs: "slots_ok s \<Longrightarrow> map_of (rs_rows s) i = None \<longleftrightarrow> rs_abs s i = None"
  by (simp add: rs_abs_def2)

section \<open>Insertion\<close>

lemma pk_taken:
  assumes "indexed L tbl s"
  shows "rs_pk_columns s \<noteq> [] \<and> (case rs_primary_index s of
      Some t \<Rightarrow> ix_contains_key btree_impl (key_of (rs_pk_columns s) r) t | None \<Rightarrow> False) \<longleftrightarrow> pk_conflict L tbl r"
  using assms
  by (auto simp: indexed_def primary_holds_def pk_table_def pk_conflict_def btree_ix.holds_contains simp del: btree_impl_simps split: option.splits)

text \<open>The primary index takes up a row whose key is free.\<close>

lemma primary_empty_key: "ly_pk L = [] \<Longrightarrow> primary_holds L tbl p = primary_holds L tbl' p"
  by (simp add: primary_holds_def pk_table_def split: option.split)

lemma primary_holdsD:
  "primary_holds L tbl (Some t) \<Longrightarrow> ly_pk L \<noteq> [] \<Longrightarrow> btree_ix.holds t tbl (key_of (ly_pk L))"
  "primary_holds L tbl (Some t) \<Longrightarrow> bt_unique t"
  by (simp_all add: primary_holds_def pk_table_def)

lemma primary_holdsI:
  "ly_pk L \<noteq> [] \<Longrightarrow> bt_unique t \<Longrightarrow> btree_ix.holds t tbl (key_of (ly_pk L)) \<Longrightarrow> primary_holds L tbl (Some t)"
  by (simp add: primary_holds_def pk_table_def)

lemma primary_add:
  assumes "primary_holds L tbl (Some t)" "ly_pk L \<noteq> []" "\<not> pk_conflict L tbl r" "tbl v = None"
  shows "\<exists>t'. ix_add btree_impl (key_of (ly_pk L) r) v t = (Inr (), t') \<and> primary_holds L (tbl(v \<mapsto> r)) (Some t')"
proof -
  note h = primary_holdsD(1) [OF assms(1,2)] assms(2) primary_holdsD(2) [OF assms(1)]
  have free: "\<not> (bt_unique t \<and> key_taken tbl (key_of (ly_pk L)) (key_of (ly_pk L) r))"
    using assms(3) h(2) by (simp add: pk_conflict_def)
  note add = btree_ix.holds_add [OF h(1) assms(4), of r]
  show ?thesis using add(1,2) add(4) [OF free] free h(2,3)
    by (cases "ix_add btree_impl (key_of (ly_pk L) r) v t") (simp add: primary_holdsI del: btree_impl_simps)
qed

lemma primary_remove:
  assumes "primary_holds L (tbl(v \<mapsto> r)) (Some t)" "tbl v = None"
  shows "primary_holds L tbl (Some (ix_remove btree_impl (key_of (ly_pk L) r) (Some v) t))"
proof -
  have undo: "(tbl(v \<mapsto> r))(v := None) = tbl" using assms(2) by auto
  show ?thesis
  proof (cases "ly_pk L = []")
    case True
    then show ?thesis using btree_ix.holds_remove_absent [of t "\<lambda>_. None" "key_of []" v "key_of [] r"] assms(1)
      by (simp add: primary_holds_def pk_table_def del: btree_impl_simps)
  next
    case False
    show ?thesis using btree_ix.holds_remove [OF primary_holdsD(1) [OF assms(1) False], of v r] primary_holdsD(2) [OF assms(1)] undo
      by (intro primary_holdsI [OF False]) (simp_all del: btree_impl_simps)
  qed
qed

text \<open>One secondary index: the insertion of a row, and its undoing.\<close>

lemma secondary_add:
  fixes dbg r
  assumes "index_holds L tbl n c i" "tbl v = None"
  defines "f \<equiv> (case sec_add_index_key (key_of c r) v i of
      (Inl _, idx) \<Rightarrow> (Inl (unique_error dbg n (key_of c r)), idx) | (Inr _, idx) \<Rightarrow> (Inr (), idx))"
  shows "\<not> (uniq_of L n \<and> key_taken tbl (key_of c) (key_of c r)) \<Longrightarrow> fst f = Inr () \<and> index_holds L (tbl(v \<mapsto> r)) n c (snd f)"
    and "uniq_of L n \<and> key_taken tbl (key_of c) (key_of c r) \<Longrightarrow>
      fst f = Inl (unique_error dbg n (key_of c r)) \<and> index_holds L tbl n c (snd f)"
proof -
  have h: "sec_ix.holds i tbl (key_of c)" "sec_is_unique i = uniq_of L n" using assms(1) by (auto simp: index_holds_def)
  note add = sec_ix.holds_add [OF h(1) assms(2), of r, unfolded sec_impl_simps]
  show "fst f = Inr () \<and> index_holds L (tbl(v \<mapsto> r)) n c (snd f)" if "\<not> (uniq_of L n \<and> key_taken tbl (key_of c) (key_of c r))"
    using add(1,2,4) h(2) that by (auto simp: f_def index_holds_def split: prod.split sum.split)
  show "fst f = Inl (unique_error dbg n (key_of c r)) \<and> index_holds L tbl n c (snd f)"
    if "uniq_of L n \<and> key_taken tbl (key_of c) (key_of c r)"
    using add(1,2,3) h(2) that by (auto simp: f_def index_holds_def split: prod.split sum.split)
qed

lemma secondary_undo:
  assumes "index_holds L tbl n c i \<or> index_holds L (tbl(v \<mapsto> r)) n c i" "tbl v = None"
  shows "index_holds L tbl n c (sec_remove_index_key (key_of c r) (Some v) i)"
proof -
  have "(tbl(v \<mapsto> r))(v := None) = tbl" using assms(2) by auto
  then show ?thesis
    using assms sec_ix.holds_remove_absent [of i tbl "key_of c" v "key_of c r"] sec_ix.holds_remove [of i "tbl(v \<mapsto> r)" "key_of c" v r]
    by (auto simp: index_holds_def)
qed

lemma rollback_insert_ok:
  assumes ok: "slots_ok s" "rs_abs s = tbl" and new: "tbl v = None"
    and frame: "tbl_name (rs_schema s) = ly_table L" "rs_pk_columns s = ly_pk L" "rs_index_columns s = names_of L"
      "distinct (map fst (ly_keys L))"
    and pk: "primary_holds L (tbl(v \<mapsto> r)) (rs_primary_index s)"
    and all: "all_indices (\<lambda>n c i. index_holds L tbl n c i \<or> index_holds L (tbl(v \<mapsto> r)) n c i) (names_of L) (rs_secondary_indices s)"
  shows "represents_table L (rollback_insert G v r s) tbl"
proof -
  let ?p = "(case rs_primary_index s of Some t \<Rightarrow> Some (ix_remove btree_impl (key_of (ly_pk L) r) (Some v) t) | None \<Rightarrow> None)"
  let ?m = "for_each_index (\<lambda>_ cols idx. sec_remove_index_key (key_of cols r) (Some v) idx) (names_of L) (rs_secondary_indices s)"
  have "(case rs_primary_index s of Some t \<Rightarrow> s\<lparr>rs_primary_index := Some (ix_remove btree_impl (extract_key r (rs_pk_columns s)) (Some v) t)\<rparr>
      | None \<Rightarrow> s) = s\<lparr>rs_primary_index := ?p\<rparr>"
    by (cases "rs_primary_index s") (simp_all add: frame(2) del: btree_impl_simps)
  then obtain g where roll: "rollback_insert G v r s = s\<lparr>rs_primary_index := ?p, rs_secondary_indices := ?m, rs_gin_indices := g\<rparr>"
    using gin_remove_calls [of G r v "s\<lparr>rs_primary_index := ?p, rs_secondary_indices := ?m\<rparr>"] frame(3)
    by (auto simp: rollback_insert_def Let_def for_each_secondary_index_def simp del: btree_impl_simps)
  have "primary_holds L tbl ?p"
    using pk primary_remove [of L tbl v r] new by (cases "rs_primary_index s") (simp_all add: primary_holds_def del: btree_impl_simps)
  moreover have "all_indices (index_holds L tbl) (names_of L) ?m"
    by (rule for_each_index_all [OF names_of_distinct [OF frame(4)] all]) (rule secondary_undo, assumption, rule new)
  ultimately show ?thesis using ok frame unfolding roll represents_table_def by (simp add: indexed_def)
qed

lemma find_key_conflict:
  assumes "distinct (map fst (ly_keys L))"
  shows "find (\<lambda>x. uniq_of L (fst x) \<and> P (snd x)) (names_of L)
    = map_option (\<lambda>(n, c, u). (n, c)) (find (\<lambda>(n, c, u). u \<and> P c) (ly_keys L))"
  unfolding names_of_def by (rule find_map_keys) (use uniq_of_mem [OF assms] in auto)

text \<open>A table without the conflict stays intact.\<close>

lemma table_ok_insert:
  assumes "table_ok L tbl" "canonical_row r" "\<not> pk_conflict L tbl r" "find (key_conflict tbl r) (ly_keys L) = None"
  shows "table_ok L (tbl(rid r \<mapsto> r))"
proof -
  have "\<not> key_conflict tbl r k" if "k \<in> set (ly_keys L)" for k using assms(4) that unfolding find_None_iff by blast
  then have "u \<longrightarrow> keys_unique (tbl(rid r \<mapsto> r)) (key_of c)" if "(n, c, u) \<in> set (ly_keys L)" for n c u
    using that assms(1) keys_unique_insert [of tbl "key_of c" r] by (force simp: table_ok_def key_conflict_def)
  then show ?thesis using assms keys_unique_insert [of tbl "key_of (ly_pk L)" r]
    by (auto simp: table_ok_def pk_conflict_def)
qed

lemma rs_insert_refines:
  assumes rep: "represents_table L s tbl" and tok: "table_ok L tbl" and can: "canonical_row r"
  shows "fst (rs_insert G dbg r s) = fst (spec_insert dbg L r tbl)"
    and "represents_table L (snd (rs_insert G dbg r s)) (snd (spec_insert dbg L r tbl))"
    and "table_ok L (snd (spec_insert dbg L r tbl))"
proof -
  let ?v = "rid r"
  have ok: "slots_ok s" "rs_abs s = tbl" and ix: "indexed L tbl s" using rep by (auto simp: represents_table_def)
  have frame: "tbl_name (rs_schema s) = ly_table L" "rs_pk_columns s = ly_pk L" "rs_index_columns s = names_of L"
    "distinct (map fst (ly_keys L))" using ix by (auto simp: indexed_def)
  have pk: "primary_holds L tbl (rs_primary_index s)" and all: "all_indices (index_holds L tbl) (names_of L) (rs_secondary_indices s)"
    using ix by (auto simp: indexed_def)
  have present: "map_of (rs_rows s) ?v \<noteq> None \<longleftrightarrow> tbl ?v \<noteq> None" using rows_abs [OF ok(1), of ?v] ok(2) by simp
  note taken = pk_taken [OF ix, of r, unfolded frame(2)]
  have "fst (rs_insert G dbg r s) = fst (spec_insert dbg L r tbl)
    \<and> represents_table L (snd (rs_insert G dbg r s)) (snd (spec_insert dbg L r tbl)) \<and> table_ok L (snd (spec_insert dbg L r tbl))"
  proof (cases "tbl ?v \<noteq> None \<or> pk_conflict L tbl r")
    case True
    then show ?thesis using rep tok present taken frame(2)
      by (auto simp: rs_insert_def spec_insert_def Let_def simp del: btree_impl_simps)
  next
    case False
    then have new: "tbl ?v = None" and free: "\<not> pk_conflict L tbl r" by auto
    obtain p where p: "primary_holds L (tbl(?v \<mapsto> r)) p"
      "(case rs_primary_index s of
          Some t \<Rightarrow> if ly_pk L \<noteq> [] then (case ix_add btree_impl (key_of (ly_pk L) r) ?v t of (q, t) \<Rightarrow> (q, s\<lparr>rs_primary_index := Some t\<rparr>))
                    else (Inr (), s)
        | None \<Rightarrow> (Inr (), s)) = (Inr (), s\<lparr>rs_primary_index := p\<rparr>)"
    proof (cases "ly_pk L = [] \<or> rs_primary_index s = None")
      case True
      then have "ly_pk L = []" using pk by (auto simp: primary_holds_def split: option.splits)
      then show thesis using pk primary_empty_key [of L tbl _ "tbl(?v \<mapsto> r)"]
        by (intro that [of "rs_primary_index s"]) (simp_all split: option.split)
    next
      case False
      then obtain t where t: "rs_primary_index s = Some t" by blast
      then obtain t' where "ix_add btree_impl (key_of (ly_pk L) r) ?v t = (Inr (), t')" "primary_holds L (tbl(?v \<mapsto> r)) (Some t')"
        using primary_add [of L tbl t r ?v] pk free new False by auto
      then show thesis using that [of "Some t'"] t False by (simp del: btree_impl_simps)
    qed
    define s1 where "s1 = s\<lparr>rs_primary_index := p\<rparr>"
    define f where "f = (\<lambda>idx_name cols idx. let key = extract_key r cols
      in case sec_add_index_key key ?v idx of (Inl _, idx) \<Rightarrow> (Inl (unique_error dbg idx_name key), idx) | (Inr _, idx) \<Rightarrow> (Inr (), idx))"
    define bad where "bad = (\<lambda>x. uniq_of L (fst x) \<and> key_taken tbl (key_of (snd x)) (key_of (snd x) r))"
    define err where "err = (\<lambda>x. unique_error dbg (fst x) (key_of (snd x) r))"
    obtain q m where loop: "try_for_each_index f (names_of L) (rs_secondary_indices s) = (q, m)" by fastforce
    have good_step: "fst (f n c i) = Inr () \<and> index_holds L (tbl(?v \<mapsto> r)) n c (snd (f n c i))" if "index_holds L tbl n c i" "\<not> bad (n, c)" for n c i
      using secondary_add(1) [OF that(1) new, of r dbg] that(2) by (simp add: f_def bad_def Let_def)
    have bad_step: "fst (f n c i) = Inl (err (n, c)) \<and> index_holds L tbl n c (snd (f n c i))" if "index_holds L tbl n c i" "bad (n, c)" for n c i
      using secondary_add(2) [OF that(1) new, of r dbg] that(2) by (simp add: f_def bad_def err_def Let_def)
    have outcome: "q = (case find bad (names_of L) of None \<Rightarrow> Inr () | Some x \<Rightarrow> Inl (err x))"
      "find bad (names_of L) = None \<Longrightarrow> all_indices (index_holds L (tbl(?v \<mapsto> r))) (names_of L) m"
      "all_indices (\<lambda>n c i. index_holds L tbl n c i \<or> index_holds L (tbl(?v \<mapsto> r)) n c i) (names_of L) m"
      by (rule try_for_each_index_all [where f = f and bad = bad and err = err and R = "index_holds L (tbl(?v \<mapsto> r))",
          OF names_of_distinct [OF frame(4)] all, unfolded loop fst_conv snd_conv];
          (rule good_step bad_step)?, assumption+)+
    have find: "find bad (names_of L) = map_option (\<lambda>(n, c, u). (n, c)) (find (key_conflict tbl r) (ly_keys L))"
      unfolding bad_def key_conflict_def
      by (rule find_key_conflict [OF frame(4), where P = "\<lambda>c. key_taken tbl (key_of c) (key_of c r)"])
    have insert: "rs_insert G dbg r s = (case q of Inl e \<Rightarrow> (Inl e, rollback_insert G ?v r (s1\<lparr>rs_secondary_indices := m\<rparr>))
        | Inr _ \<Rightarrow> (Inr ?v, insert_row_slot ?v r (gin_insert_row G r ?v (s1\<lparr>rs_secondary_indices := m\<rparr>))))"
    proof -
      have none: "map_of (rs_rows s) ?v = None" using present new by simp
      have "try_for_each_secondary_index f s1 = (q, s1\<lparr>rs_secondary_indices := m\<rparr>)"
        using loop frame(3) by (simp add: try_for_each_secondary_index_def s1_def)
      then show ?thesis unfolding f_def s1_def rs_insert_def Let_def extract_key_of frame(2)
        by (simp only: none taken free p(2) simp_thms if_False prod.case sum.case)
    qed
    show ?thesis
    proof (cases "find (key_conflict tbl r) (ly_keys L)")
      case (Some k)
      obtain n c u where k: "k = (n, c, u)" by (cases k) auto
      have "find bad (names_of L) = Some (n, c)" unfolding find Some k by simp
      then have q: "q = Inl (key_error dbg r k)" by (simp add: outcome(1) err_def key_error_def k)
      have "represents_table L (rollback_insert G ?v r (s1\<lparr>rs_secondary_indices := m\<rparr>)) tbl"
        by (rule rollback_insert_ok) (use ok frame new p(1) outcome(3) in \<open>simp_all add: s1_def\<close>)
      then show ?thesis using insert q new free Some tok by (simp add: spec_insert_def)
    next
      case None
      have q: "q = Inr ()" "all_indices (index_holds L (tbl(?v \<mapsto> r))) (names_of L) m" using outcome(1,2) find None by simp_all
      obtain g where g: "gin_insert_row G r ?v (s1\<lparr>rs_secondary_indices := m\<rparr>) = s1\<lparr>rs_secondary_indices := m, rs_gin_indices := g\<rparr>"
        using gin_row_calls by blast
      let ?s = "s1\<lparr>rs_secondary_indices := m, rs_gin_indices := g\<rparr>"
      have s: "slots_ok ?s" "rs_abs ?s = tbl" using ok by (simp_all add: s1_def)
      have "indexed L (tbl(?v \<mapsto> r)) ?s" using q(2) p(1) frame by (simp add: indexed_def s1_def)
      then have "represents_table L (insert_row_slot ?v r ?s) (tbl(?v \<mapsto> r))"
        using insert_row_slot_ok [OF s(1), of ?v r] s(2) new by (simp add: represents_table_def)
      then show ?thesis using insert q(1) new free None g table_ok_insert [OF tok can free None]
        by (simp add: spec_insert_def)
    qed
  qed
  then show "fst (rs_insert G dbg r s) = fst (spec_insert dbg L r tbl)"
    "represents_table L (snd (rs_insert G dbg r s)) (snd (spec_insert dbg L r tbl))"
    "table_ok L (snd (spec_insert dbg L r tbl))" by auto
qed

section \<open>Update\<close>

lemma canonical_keys_eq:
  "canonical_row q \<Longrightarrow> canonical_row r \<Longrightarrow> index_key_eq (key_of c q) (key_of c r) \<longleftrightarrow> key_of c q = key_of c r"
  by (rule index_key_eq_canonical) (rule canonical_key_of, assumption)+

lemma unique_violation_find:
  assumes "all_indices (index_holds L tbl) xs m" "canonical_row q" "canonical_row r"
  shows "unique_violation q r m xs = map_option (\<lambda>(n, c). (n, key_of c r))
    (find (\<lambda>x. uniq_of L (fst x) \<and> key_of (snd x) q \<noteq> key_of (snd x) r \<and> key_taken tbl (key_of (snd x)) (key_of (snd x) r)) xs)"
  using assms(1)
proof (induction xs)
  case (Cons x xs)
  obtain n c where x: "x = (n, c)" by fastforce
  obtain i where i: "map_of m n = Some i" "sec_ix.holds i tbl (key_of c)" "sec_is_unique i = uniq_of L n"
    using Cons.prems x by (auto simp: index_holds_def)
  have "unique_violation q r m xs = map_option (\<lambda>(n, c). (n, key_of c r))
    (find (\<lambda>x. uniq_of L (fst x) \<and> key_of (snd x) q \<noteq> key_of (snd x) r \<and> key_taken tbl (key_of (snd x)) (key_of (snd x) r)) xs)"
    by (rule Cons.IH) (use Cons.prems x in simp)
  then show ?case using sec_ix.holds_contains [OF i(2), unfolded sec_impl_simps] canonical_keys_eq [OF assms(2,3)] i(1,3)
    by (simp add: x Let_def)
qed simp

lemma rekey_canonical:
  assumes "canonical_row q" "canonical_row r"
  shows "rekey I (key_of c q) (key_of c r) v i = (if key_of c q = key_of c r then i
    else snd (ix_add I (key_of c r) v (ix_remove I (key_of c q) (Some v) i)))"
  unfolding rekey_def canonical_keys_eq [OF assms] by simp

lemma primary_rekey:
  assumes "primary_holds L tbl (Some t)" "tbl v = Some q" "canonical_row q" "canonical_row r" and pk: "ly_pk L \<noteq> []"
    and "\<not> (key_of (ly_pk L) q \<noteq> key_of (ly_pk L) r \<and> pk_conflict L tbl r)"
  shows "primary_holds L (tbl(v \<mapsto> r)) (Some (rekey btree_impl (key_of (ly_pk L) q) (key_of (ly_pk L) r) v t))"
proof -
  note h = primary_holdsD(1) [OF assms(1) pk] pk primary_holdsD(2) [OF assms(1)]
  show ?thesis
  proof (cases "key_of (ly_pk L) q = key_of (ly_pk L) r")
    case True
    have "rekey btree_impl (key_of (ly_pk L) q) (key_of (ly_pk L) r) v t = t"
      unfolding rekey_canonical [OF assms(3,4)] using True by (rule if_P)
    then show ?thesis using btree_ix.holds_same [OF h(1) assms(2) True] h(2,3) by (simp only: primary_holdsI simp_thms)
  next
    case False
    then have "\<not> (bt_unique t \<and> key_taken tbl (key_of (ly_pk L)) (key_of (ly_pk L) r))"
      using assms(6) h(2) by (simp add: pk_conflict_def)
    then show ?thesis using btree_ix.holds_move [OF h(1) assms(2), of r] False h(2,3)
      by (intro primary_holdsI [OF pk]) (simp_all add: rekey_canonical [OF assms(3,4)] del: btree_impl_simps)
  qed
qed

lemma secondary_rekey:
  assumes "index_holds L tbl n c i" "tbl v = Some q" "canonical_row q" "canonical_row r"
    and "\<not> (uniq_of L n \<and> key_of c q \<noteq> key_of c r \<and> key_taken tbl (key_of c) (key_of c r))"
  shows "index_holds L (tbl(v \<mapsto> r)) n c (rekey sec_impl (key_of c q) (key_of c r) v i)"
proof -
  have h: "sec_ix.holds i tbl (key_of c)" "sec_is_unique i = uniq_of L n" using assms(1) by (auto simp: index_holds_def)
  show ?thesis
  proof (cases "key_of c q = key_of c r")
    case True
    have "rekey sec_impl (key_of c q) (key_of c r) v i = i"
      unfolding rekey_canonical [OF assms(3,4)] using True by (rule if_P)
    then show ?thesis using sec_ix.holds_same [OF h(1) assms(2) True] h(2) by (simp only: index_holds_def simp_thms)
  next
    case False
    then have "\<not> (sec_is_unique i \<and> key_taken tbl (key_of c) (key_of c r))" using assms(5) h(2) by simp
    then show ?thesis using sec_ix.holds_move [OF h(1) assms(2), of r] False h(2)
      by (simp add: index_holds_def rekey_canonical [OF assms(3,4)])
  qed
qed

lemma table_ok_update:
  assumes "table_ok L tbl" "tbl i = Some q" "canonical_row r" "rid r = i"
    and "\<not> (key_of (ly_pk L) q \<noteq> key_of (ly_pk L) r \<and> pk_conflict L tbl r)"
    and "find (moved_conflict tbl q r) (ly_keys L) = None"
  shows "table_ok L (tbl(i \<mapsto> r))"
proof -
  have "keys_unique (tbl(i \<mapsto> r)) (key_of c)" if k: "(n, c, u) \<in> set (ly_keys L)" and u: u for n c u
  proof (rule keys_unique_replace [of tbl "key_of c" i q r])
    show "keys_unique tbl (key_of c)" using assms(1) k u by (auto simp: table_ok_def)
    have "\<not> moved_conflict tbl q r (n, c, u)" using assms(6) k unfolding find_None_iff by blast
    then show "key_of c r = key_of c q \<or> \<not> key_taken tbl (key_of c) (key_of c r)"
      using u by (auto simp: moved_conflict_def key_conflict_def)
  qed (rule assms(2))
  then have "\<forall>(n, c, u) \<in> set (ly_keys L). u \<longrightarrow> keys_unique (tbl(i \<mapsto> r)) (key_of c)" by blast
  moreover have "ly_pk L \<noteq> [] \<longrightarrow> keys_unique (tbl(i \<mapsto> r)) (key_of (ly_pk L))"
    using assms(1,2,5) keys_unique_replace [of tbl "key_of (ly_pk L)" i q r] by (auto simp: table_ok_def pk_conflict_def)
  ultimately show ?thesis using assms(1,3,4) by (auto simp: table_ok_def)
qed

lemma rs_update_refines:
  assumes rep: "represents_table L s tbl" and tok: "table_ok L tbl" and can: "canonical_row r" and id: "rid r = i"
  shows "fst (rs_update G dbg i r s) = fst (spec_update dbg L i r tbl)"
    and "represents_table L (snd (rs_update G dbg i r s)) (snd (spec_update dbg L i r tbl))"
    and "table_ok L (snd (spec_update dbg L i r tbl))"
proof -
  have ok: "slots_ok s" "rs_abs s = tbl" and ix: "indexed L tbl s" using rep by (auto simp: represents_table_def)
  have frame: "tbl_name (rs_schema s) = ly_table L" "rs_pk_columns s = ly_pk L" "rs_index_columns s = names_of L"
    "distinct (map fst (ly_keys L))" using ix by (auto simp: indexed_def)
  have pk: "primary_holds L tbl (rs_primary_index s)" and all: "all_indices (index_holds L tbl) (names_of L) (rs_secondary_indices s)"
    using ix by (auto simp: indexed_def)
  have row: "row_ref_by_id i s = tbl i" using ok(2) by (auto simp: rs_abs_def)
  have "fst (rs_update G dbg i r s) = fst (spec_update dbg L i r tbl)
    \<and> represents_table L (snd (rs_update G dbg i r s)) (snd (spec_update dbg L i r tbl)) \<and> table_ok L (snd (spec_update dbg L i r tbl))"
  proof (cases "tbl i")
    case None
    then show ?thesis using rep tok row frame(1)
      by (simp add: rs_update_def spec_update_def not_found_row_def missing_row_def)
  next
    case (Some q)
    have canq: "canonical_row q" using tok Some by (auto simp: table_ok_def)
    have pkc: "(ly_pk L \<noteq> [] \<and> (case rs_primary_index s of
        Some t \<Rightarrow> \<not> index_key_eq (key_of (ly_pk L) q) (key_of (ly_pk L) r) \<and> ix_contains_key btree_impl (key_of (ly_pk L) r) t
      | None \<Rightarrow> False)) \<longleftrightarrow> key_of (ly_pk L) q \<noteq> key_of (ly_pk L) r \<and> pk_conflict L tbl r"
      using pk_taken [OF ix, of r] canonical_keys_eq [OF canq can, of "ly_pk L"] frame(2) by (auto split: option.splits)
    define P where "P = (\<lambda>c. key_of c q \<noteq> key_of c r \<and> key_taken tbl (key_of c) (key_of c r))"
    have viol: "unique_violation q r (rs_secondary_indices s) (names_of L)
        = map_option (\<lambda>(n, c, u). (n, key_of c r)) (find (moved_conflict tbl q r) (ly_keys L))"
    proof -
      have "moved_conflict tbl q r = (\<lambda>(n, c, u). u \<and> P c)"
        by (auto simp: moved_conflict_def key_conflict_def P_def fun_eq_iff)
      then have "find (\<lambda>x. uniq_of L (fst x) \<and> P (snd x)) (names_of L) = map_option (\<lambda>(n, c, u). (n, c)) (find (moved_conflict tbl q r) (ly_keys L))"
        using find_key_conflict [OF frame(4), of P] by simp
      then show ?thesis unfolding unique_violation_find [OF all canq can] P_def
        by (cases "find (moved_conflict tbl q r) (ly_keys L)") auto
    qed
    show ?thesis
    proof (cases "key_of (ly_pk L) q \<noteq> key_of (ly_pk L) r \<and> pk_conflict L tbl r")
      case True
      have "rs_update G dbg i r s = (Inl (unique_error dbg ''primary_key'' (key_of (ly_pk L) r)), s)"
        unfolding rs_update_def Let_def extract_key_of frame(2) row Some by (simp only: option.case pkc True simp_thms if_True)
      then show ?thesis using True Some rep tok by (simp add: spec_update_def)
    next
      case free: False
      show ?thesis
      proof (cases "find (moved_conflict tbl q r) (ly_keys L)")
        case (Some k)
        obtain n c u where k: "k = (n, c, u)" by (cases k) auto
        have "unique_violation q r (rs_secondary_indices s) (names_of L) = Some (n, key_of c r)" using viol Some k by simp
        then have "rs_update G dbg i r s = (Inl (unique_error dbg n (key_of c r)), s)"
          unfolding rs_update_def Let_def extract_key_of frame(2) row \<open>tbl i = Some q\<close>
          by (simp only: option.case pkc free if_False frame(3) prod.case)
        then show ?thesis using free Some k rep tok \<open>tbl i = Some q\<close> by (auto simp: spec_update_def key_error_def)
      next
        case None
        have "unique_violation q r (rs_secondary_indices s) (names_of L) = None" using viol None by simp
        define p where "p = (if ly_pk L = [] then rs_primary_index s else map_option (rekey btree_impl (key_of (ly_pk L) q) (key_of (ly_pk L) r) i) (rs_primary_index s))"
        have p: "primary_holds L (tbl(i \<mapsto> r)) p"
        proof (cases "ly_pk L = []")
          case True
          then show ?thesis using pk primary_empty_key [OF True, of tbl _ "tbl(i \<mapsto> r)"] by (simp add: p_def)
        next
          case False
          obtain t where t: "rs_primary_index s = Some t" using pk False by (auto simp: primary_holds_def split: option.splits)
          show ?thesis using primary_rekey [OF pk [unfolded t] Some canq can False free] False by (simp add: p_def t)
        qed
        have sp: "(case rs_primary_index s of
              Some t \<Rightarrow> if ly_pk L \<noteq> [] then s\<lparr>rs_primary_index := Some (rekey btree_impl (key_of (ly_pk L) q) (key_of (ly_pk L) r) i t)\<rparr> else s
            | None \<Rightarrow> s) = s\<lparr>rs_primary_index := p\<rparr>"
          by (cases "rs_primary_index s") (simp_all add: p_def)
        define m where "m = for_each_index (\<lambda>_ cols idx. rekey sec_impl (key_of cols q) (key_of cols r) i idx) (names_of L) (rs_secondary_indices s)"
        have m: "all_indices (index_holds L (tbl(i \<mapsto> r))) (names_of L) m"
          unfolding m_def
        proof (rule for_each_index_all [OF names_of_distinct [OF frame(4)] all])
          fix n c j assume nc: "(n, c) \<in> set (names_of L)" and h: "index_holds L tbl n c j"
          obtain u where u: "(n, c, u) \<in> set (ly_keys L)" using nc by (auto simp: names_of_def)
          then have "\<not> moved_conflict tbl q r (n, c, u)" using None unfolding find_None_iff by blast
          then show "index_holds L (tbl(i \<mapsto> r)) n c (rekey sec_impl (key_of c q) (key_of c r) i j)"
            using secondary_rekey [OF h Some canq can] uniq_of_mem [OF frame(4) u]
            by (auto simp: moved_conflict_def key_conflict_def)
        qed
        obtain g where g: "gin_update_row G q r i (s\<lparr>rs_primary_index := p, rs_secondary_indices := m\<rparr>)
            = s\<lparr>rs_primary_index := p, rs_secondary_indices := m, rs_gin_indices := g\<rparr>" using gin_update_calls by blast
        let ?s = "s\<lparr>rs_primary_index := p, rs_secondary_indices := m, rs_gin_indices := g\<rparr>"
        have "for_each_secondary_index (\<lambda>_ cols idx. rekey sec_impl (key_of cols q) (key_of cols r) i idx) (s\<lparr>rs_primary_index := p\<rparr>)
            = s\<lparr>rs_primary_index := p, rs_secondary_indices := m\<rparr>"
          by (simp add: for_each_secondary_index_def m_def frame(3))
        then have upd: "rs_update G dbg i r s = (Inr (), replace_row_slot i r ?s)"
          unfolding rs_update_def Let_def extract_key_of frame(2) row Some
          by (simp only: option.case pkc free if_False frame(3) sp g \<open>unique_violation q r _ _ = None\<close>)
        have s: "slots_ok ?s" "rs_abs ?s = tbl" using ok by simp_all
        have "indexed L (tbl(i \<mapsto> r)) ?s" using m p frame by (simp add: indexed_def)
        then have "represents_table L (replace_row_slot i r ?s) (tbl(i \<mapsto> r))"
          using replace_row_slot_ok [OF s(1), of i r] s(2) Some by (simp add: represents_table_def)
        then show ?thesis using upd free None Some table_ok_update [OF tok Some can id free None] by (auto simp: spec_update_def)
      qed
    qed
  qed
  then show "fst (rs_update G dbg i r s) = fst (spec_update dbg L i r tbl)"
    "represents_table L (snd (rs_update G dbg i r s)) (snd (spec_update dbg L i r tbl))"
    "table_ok L (snd (spec_update dbg L i r tbl))" by auto
qed

end
