(* ===== verification/Cynos_Row_Reads.thy ===== *)
theory Cynos_Row_Reads
  imports Cynos_Row_Refine
begin

text \<open>
  Reading a row store (\<open>crates/storage/src/row_store.rs\<close>): lookups by row id and by primary key, and the
  scans of the table and of its indices. A visitor is a function of what it is shown and of its own state
  that says whether it wants to see more; the methods that return a vector push every row they are
  shown. The scans through GIN indices are left out with those indices.
\<close>

section \<open>Lookups\<close>

text \<open>The row of an id, if there still is one.\<close>

definition visit_row_id :: "'g row_store \<Rightarrow> (row \<Rightarrow> 'v \<Rightarrow> bool \<times> 'v) \<Rightarrow> row_id \<Rightarrow> 'v \<Rightarrow> bool \<times> 'v" where
  "visit_row_id s visitor row_id v = (case row_ref_by_id row_id s of None \<Rightarrow> (True, v) | Some row \<Rightarrow> visitor row v)"

lemma visit_row_ids:
  "visit_while (visit_row_id s f) ids v = visit_while f (List.map_filter (\<lambda>i. row_ref_by_id i s) ids) v"
  by (induction ids arbitrary: v) (auto simp: visit_row_id_def List.map_filter_simps split: option.split prod.split)

section \<open>Rows by id\<close>

definition rs_get :: "row_id \<Rightarrow> 'g row_store \<Rightarrow> row option" where
  "rs_get row_id s = row_ref_by_id row_id s"

definition rs_get_many :: "row_id list \<Rightarrow> 'g row_store \<Rightarrow> row option list" where
  "rs_get_many row_ids s = map (\<lambda>i. row_ref_by_id i s) row_ids"

definition rs_scan :: "'g row_store \<Rightarrow> row list" where
  "rs_scan s = map (\<lambda>slot_idx. snd (slot_at s slot_idx)) (rs_scan_order s)"

definition rs_visit_rows :: "(row \<Rightarrow> 'v \<Rightarrow> bool \<times> 'v) \<Rightarrow> 'g row_store \<Rightarrow> 'v \<Rightarrow> 'v" where
  "rs_visit_rows visitor s = visit_while visitor (rs_scan s)"

definition rs_visit_rows_by_ids :: "(row \<Rightarrow> 'v \<Rightarrow> bool \<times> 'v) \<Rightarrow> row_id list \<Rightarrow> 'g row_store \<Rightarrow> 'v \<Rightarrow> 'v" where
  "rs_visit_rows_by_ids visitor row_ids s = visit_while (visit_row_id s visitor) row_ids"

definition get_rows_by_ids :: "row_id list \<Rightarrow> 'g row_store \<Rightarrow> row list" where
  "get_rows_by_ids row_ids s = rs_visit_rows_by_ids push_visitor row_ids s []"

definition count_existing_rows_by_ids :: "row_id list \<Rightarrow> 'g row_store \<Rightarrow> nat" where
  "count_existing_rows_by_ids row_ids s = length (filter (\<lambda>i. map_of (rs_rows s) i \<noteq> None) row_ids)"

definition rs_row_ids :: "'g row_store \<Rightarrow> row_id list" where
  "rs_row_ids s = map (\<lambda>slot_idx. fst (slot_at s slot_idx)) (rs_scan_order s)"

section \<open>Rows by primary key\<close>

definition get_by_pk_values :: "value list \<Rightarrow> 'g row_store \<Rightarrow> row list" where
  "get_by_pk_values pk_values s =
     (if length pk_values \<noteq> length (rs_pk_columns s) then []
      else case rs_primary_index s of
             Some pk_index \<Rightarrow> List.map_filter (\<lambda>i. row_ref_by_id i s)
               (ix_get btree_impl (extract_key_from_values pk_values) pk_index)
           | None \<Rightarrow> [])"

definition get_by_pk :: "value \<Rightarrow> 'g row_store \<Rightarrow> row list" where
  "get_by_pk pk_value = get_by_pk_values [pk_value]"

definition visit_row_ids_by_pk_values :: "value list \<Rightarrow> (row_id \<Rightarrow> 'v \<Rightarrow> bool \<times> 'v) \<Rightarrow> 'g row_store \<Rightarrow> 'v \<Rightarrow> 'v" where
  "visit_row_ids_by_pk_values pk_values visitor s v =
     (if length pk_values \<noteq> length (rs_pk_columns s) then v
      else case rs_primary_index s of
             None \<Rightarrow> v
           | Some pk_index \<Rightarrow> visit_while visitor (ix_get btree_impl (extract_key_from_values pk_values) pk_index) v)"

definition find_row_id_by_pk_values :: "value list \<Rightarrow> 'g row_store \<Rightarrow> row_id option" where
  "find_row_id_by_pk_values pk_values s =
     visit_row_ids_by_pk_values pk_values (\<lambda>row_id _. (False, Some row_id)) s None"

definition find_row_id_by_pk :: "row \<Rightarrow> 'g row_store \<Rightarrow> row_id option" where
  "find_row_id_by_pk row s =
     (case rs_primary_index s of
        Some pk_index \<Rightarrow>
          (case ix_get btree_impl (extract_key row (rs_pk_columns s)) pk_index of [] \<Rightarrow> None | i # _ \<Rightarrow> Some i)
      | None \<Rightarrow> None)"

definition pk_exists_values :: "value list \<Rightarrow> 'g row_store \<Rightarrow> bool" where
  "pk_exists_values pk_values s =
     (if length pk_values \<noteq> length (rs_pk_columns s) then False
      else case rs_primary_index s of
             Some pk_index \<Rightarrow> ix_contains_key btree_impl (extract_key_from_values pk_values) pk_index
           | None \<Rightarrow> False)"

definition pk_exists :: "value \<Rightarrow> 'g row_store \<Rightarrow> bool" where
  "pk_exists pk_value = pk_exists_values [pk_value]"

definition secondary_index_contains_values :: "string \<Rightarrow> value list \<Rightarrow> 'g row_store \<Rightarrow> bool" where
  "secondary_index_contains_values index_name kvs s =
     (case map_of (rs_index_columns s) index_name of
        None \<Rightarrow> False
      | Some columns \<Rightarrow>
          if length kvs \<noteq> length columns then False
          else case map_of (rs_secondary_indices s) index_name of
                 Some idx \<Rightarrow> sec_contains_index_key (extract_key_from_values kvs) idx
               | None \<Rightarrow> False)"

definition secondary_index_contains :: "string \<Rightarrow> value \<Rightarrow> 'g row_store \<Rightarrow> bool" where
  "secondary_index_contains index_name key = secondary_index_contains_values index_name [key]"

definition extract_pk_values :: "row \<Rightarrow> 'g row_store \<Rightarrow> value list option" where
  "extract_pk_values row s =
     (if rs_pk_columns s = [] then None
      else Some (map (\<lambda>i. case row_get row i of Some v \<Rightarrow> v | None \<Rightarrow> Null) (rs_pk_columns s)))"

definition extract_pk :: "(value list \<Rightarrow> string) \<Rightarrow> row \<Rightarrow> 'g row_store \<Rightarrow> value option" where
  "extract_pk dbg row s =
     map_option (\<lambda>vs. if length vs = 1 then hd vs else Str (dbg vs)) (extract_pk_values row s)"

definition primary_index_distinct_key_count :: "'g row_store \<Rightarrow> nat option" where
  "primary_index_distinct_key_count s = map_option bt_distinct_key_count (rs_primary_index s)"

definition secondary_index_distinct_key_count :: "string \<Rightarrow> 'g row_store \<Rightarrow> nat option" where
  "secondary_index_distinct_key_count index_name s =
     map_option sec_distinct_key_count (map_of (rs_secondary_indices s) index_name)"

section \<open>Index scans\<close>

definition visit_range_index_keys ::
  "index_key key_range option \<Rightarrow> bool \<Rightarrow> nat option \<Rightarrow> nat \<Rightarrow> (row_id \<Rightarrow> 'v \<Rightarrow> bool \<times> 'v) \<Rightarrow> secondary_store \<Rightarrow> 'v \<Rightarrow> 'v" where
  "visit_range_index_keys rng reverse limit skip visitor idx = visit_while visitor (sec_get_range rng reverse limit skip idx)"

definition visit_index_scan_with_options ::
  "string \<Rightarrow> value key_range option \<Rightarrow> nat option \<Rightarrow> nat \<Rightarrow> bool \<Rightarrow> (row \<Rightarrow> 'v \<Rightarrow> bool \<times> 'v) \<Rightarrow> 'g row_store \<Rightarrow> 'v \<Rightarrow> 'v" where
  "visit_index_scan_with_options index_name rng limit offset reverse visitor s v =
     (case map_of (rs_secondary_indices s) index_name of
        None \<Rightarrow> v
      | Some idx \<Rightarrow>
          case map_of (rs_index_columns s) index_name of
            None \<Rightarrow> v
          | Some columns \<Rightarrow>
              if length columns = 1 then
                visit_range_index_keys (ik_from_scalar_range rng) reverse limit offset (visit_row_id s visitor) idx v
              else if rng = None then
                visit_range_index_keys None reverse limit offset (visit_row_id s visitor) idx v
              else v)"

definition index_scan_with_options ::
  "string \<Rightarrow> value key_range option \<Rightarrow> nat option \<Rightarrow> nat \<Rightarrow> bool \<Rightarrow> 'g row_store \<Rightarrow> row list" where
  "index_scan_with_options index_name rng limit offset reverse s =
     visit_index_scan_with_options index_name rng limit offset reverse push_visitor s []"

definition index_scan_with_limit_offset ::
  "string \<Rightarrow> value key_range option \<Rightarrow> nat option \<Rightarrow> nat \<Rightarrow> 'g row_store \<Rightarrow> row list" where
  "index_scan_with_limit_offset index_name rng limit offset = index_scan_with_options index_name rng limit offset False"

definition index_scan_with_limit :: "string \<Rightarrow> value key_range option \<Rightarrow> nat option \<Rightarrow> 'g row_store \<Rightarrow> row list" where
  "index_scan_with_limit index_name rng limit = index_scan_with_limit_offset index_name rng limit 0"

definition index_scan :: "string \<Rightarrow> value key_range option \<Rightarrow> 'g row_store \<Rightarrow> row list" where
  "index_scan index_name rng = index_scan_with_options index_name rng None 0 False"

definition visit_index_row_ids_by_value :: "string \<Rightarrow> value \<Rightarrow> (row_id \<Rightarrow> 'v \<Rightarrow> bool \<times> 'v) \<Rightarrow> 'g row_store \<Rightarrow> 'v \<Rightarrow> 'v" where
  "visit_index_row_ids_by_value index_name v visitor s st =
     (case map_of (rs_secondary_indices s) index_name of
        None \<Rightarrow> st
      | Some idx \<Rightarrow>
          case map_of (rs_index_columns s) index_name of
            None \<Rightarrow> st
          | Some columns \<Rightarrow>
              if length columns \<noteq> 1 then st
              else visit_range_index_keys (ik_from_scalar_range (Some (Only v))) False None 0 visitor idx st)"

definition composite_range_has_expected_arity :: "value list key_range \<Rightarrow> nat \<Rightarrow> bool" where
  "composite_range_has_expected_arity rng n =
     (case rng of
        All \<Rightarrow> True
      | Only vs \<Rightarrow> length vs = n
      | LowerBound vs _ \<Rightarrow> length vs = n
      | UpperBound vs _ \<Rightarrow> length vs = n
      | Bound lower upper _ _ \<Rightarrow> length lower = n \<and> length upper = n)"

definition visit_index_scan_composite_with_options ::
  "string \<Rightarrow> value list key_range option \<Rightarrow> nat option \<Rightarrow> nat \<Rightarrow> bool \<Rightarrow> (row \<Rightarrow> 'v \<Rightarrow> bool \<times> 'v) \<Rightarrow> 'g row_store \<Rightarrow> 'v \<Rightarrow> 'v" where
  "visit_index_scan_composite_with_options index_name rng limit offset reverse visitor s v =
     (case map_of (rs_secondary_indices s) index_name of
        None \<Rightarrow> v
      | Some idx \<Rightarrow>
          case map_of (rs_index_columns s) index_name of
            None \<Rightarrow> v
          | Some columns \<Rightarrow>
              if length columns \<le> 1 then v
              else if (case rng of Some r \<Rightarrow> \<not> composite_range_has_expected_arity r (length columns) | None \<Rightarrow> False) then v
              else visit_range_index_keys (ik_from_composite_range rng) reverse limit offset (visit_row_id s visitor) idx v)"

definition index_scan_composite_with_options ::
  "string \<Rightarrow> value list key_range option \<Rightarrow> nat option \<Rightarrow> nat \<Rightarrow> bool \<Rightarrow> 'g row_store \<Rightarrow> row list" where
  "index_scan_composite_with_options index_name rng limit offset reverse s =
     visit_index_scan_composite_with_options index_name rng limit offset reverse push_visitor s []"

definition index_scan_composite :: "string \<Rightarrow> value list key_range option \<Rightarrow> 'g row_store \<Rightarrow> row list" where
  "index_scan_composite index_name rng = index_scan_composite_with_options index_name rng None 0 False"

definition visit_index_scan_composite_prefix_with_options ::
  "string \<Rightarrow> value list \<Rightarrow> nat option \<Rightarrow> nat \<Rightarrow> bool \<Rightarrow> (row \<Rightarrow> 'v \<Rightarrow> bool \<times> 'v) \<Rightarrow> 'g row_store \<Rightarrow> 'v \<Rightarrow> 'v" where
  "visit_index_scan_composite_prefix_with_options index_name prefix limit offset reverse visitor s v =
     (if prefix = [] then visit_index_scan_composite_with_options index_name None limit offset reverse visitor s v
      else case map_of (rs_secondary_indices s) index_name of
        None \<Rightarrow> v
      | Some idx \<Rightarrow>
          case map_of (rs_index_columns s) index_name of
            None \<Rightarrow> v
          | Some columns \<Rightarrow>
              if length columns \<le> 1 \<or> length prefix \<ge> length columns then v
              else visit_range_index_keys (Some (Bound (IKCompositePrefixLower prefix) (IKCompositePrefixUpper prefix) False False))
                     reverse limit offset (visit_row_id s visitor) idx v)"

definition index_scan_composite_prefix_with_options ::
  "string \<Rightarrow> value list \<Rightarrow> nat option \<Rightarrow> nat \<Rightarrow> bool \<Rightarrow> 'g row_store \<Rightarrow> row list" where
  "index_scan_composite_prefix_with_options index_name prefix limit offset reverse s =
     visit_index_scan_composite_prefix_with_options index_name prefix limit offset reverse push_visitor s []"

section \<open>Scans restricted to a set of row ids\<close>

text \<open>\<open>range.contains\<close> on values and on vectors of values, with their \<open>PartialEq\<close> and \<open>PartialOrd\<close>.\<close>

fun vec_cmp :: "('a \<Rightarrow> 'a \<Rightarrow> ordering) \<Rightarrow> 'a list \<Rightarrow> 'a list \<Rightarrow> ordering" where
  "vec_cmp cmp [] [] = Equal"
| "vec_cmp cmp [] (_ # _) = Less"
| "vec_cmp cmp (_ # _) [] = Greater"
| "vec_cmp cmp (x # xs) (y # ys) = (case cmp x y of Equal \<Rightarrow> vec_cmp cmp xs ys | c \<Rightarrow> c)"

definition range_contains_by :: "('a \<Rightarrow> 'a \<Rightarrow> bool) \<Rightarrow> ('a \<Rightarrow> 'a \<Rightarrow> ordering) \<Rightarrow> 'a key_range \<Rightarrow> 'a \<Rightarrow> bool" where
  "range_contains_by eq cmp rng key =
     (let above = (\<lambda>b ex. if ex then cmp key b = Greater else cmp key b \<noteq> Less);
          below = (\<lambda>b ex. if ex then cmp key b = Less else cmp key b \<noteq> Greater)
      in case rng of
           All \<Rightarrow> True
         | Only b \<Rightarrow> eq key b
         | LowerBound b ex \<Rightarrow> above b ex
         | UpperBound b ex \<Rightarrow> below b ex
         | Bound lower upper lower_ex upper_ex \<Rightarrow> above lower lower_ex \<and> below upper upper_ex)"

definition row_matches_index_range :: "string \<Rightarrow> value key_range option \<Rightarrow> row \<Rightarrow> 'g row_store \<Rightarrow> bool" where
  "row_matches_index_range index_name rng row s =
     (case map_of (rs_index_columns s) index_name of
        None \<Rightarrow> False
      | Some columns \<Rightarrow>
          if length columns \<noteq> 1 then False
          else let key = (case row_get row (hd columns) of Some v \<Rightarrow> v | None \<Rightarrow> Null)
               in case rng of None \<Rightarrow> True | Some r \<Rightarrow> range_contains_by value_eq value_cmp r key)"

definition row_matches_index_composite_range :: "string \<Rightarrow> value list key_range option \<Rightarrow> row \<Rightarrow> 'g row_store \<Rightarrow> bool" where
  "row_matches_index_composite_range index_name rng row s =
     (case map_of (rs_index_columns s) index_name of
        None \<Rightarrow> False
      | Some columns \<Rightarrow>
          if length columns \<le> 1 then False
          else let key = map (\<lambda>i. case row_get row i of Some v \<Rightarrow> v | None \<Rightarrow> Null) columns
               in case rng of None \<Rightarrow> True | Some r \<Rightarrow> range_contains_by (list_all2 value_eq) (vec_cmp value_cmp) r key)"

text \<open>The window of \<open>offset\<close> and \<open>limit\<close> around a visitor, with the two counters in its state.\<close>

definition visit_matched :: "nat \<Rightarrow> nat option \<Rightarrow> (row \<Rightarrow> 'v \<Rightarrow> bool \<times> 'v) \<Rightarrow> row \<Rightarrow> nat \<times> nat \<times> 'v \<Rightarrow> bool \<times> nat \<times> nat \<times> 'v" where
  "visit_matched offset limit visitor row st =
     (case st of (skipped, emitted, v) \<Rightarrow>
        if skipped < offset then (True, skipped + 1, emitted, v)
        else if (case limit of Some l \<Rightarrow> emitted \<ge> l | None \<Rightarrow> False) then (False, skipped, emitted, v)
        else case visitor row v of (go, v) \<Rightarrow> (go, skipped, emitted + 1, v))"

text \<open>The row ids in turn, or backwards, and the rows of a scan whose id is among them.\<close>

definition visit_subset ::
  "(row \<Rightarrow> bool) \<Rightarrow> (row \<Rightarrow> 'w \<Rightarrow> bool \<times> 'w) \<Rightarrow> bool \<Rightarrow> row_id list \<Rightarrow> 'g row_store \<Rightarrow> 'w \<Rightarrow> 'w" where
  "visit_subset matches visit reverse allowed_row_ids s =
     visit_while (visit_row_id s (\<lambda>row w. if \<not> matches row then (True, w) else visit row w))
       (if reverse then rev allowed_row_ids else allowed_row_ids)"

definition visit_allowed :: "row_id list \<Rightarrow> (row \<Rightarrow> 'w \<Rightarrow> bool \<times> 'w) \<Rightarrow> row \<Rightarrow> 'w \<Rightarrow> bool \<times> 'w" where
  "visit_allowed allowed_row_ids visit row w =
     (case binary_search allowed_row_ids (rid row) of Inl _ \<Rightarrow> (True, w) | Inr _ \<Rightarrow> visit row w)"

definition visit_index_scan_restricted ::
  "string \<Rightarrow> value key_range option \<Rightarrow> nat option \<Rightarrow> nat \<Rightarrow> bool \<Rightarrow> row_id list \<Rightarrow> bool
    \<Rightarrow> (row \<Rightarrow> 'v \<Rightarrow> bool \<times> 'v) \<Rightarrow> 'g row_store \<Rightarrow> 'v \<Rightarrow> 'v" where
  "visit_index_scan_restricted index_name rng limit offset reverse allowed_row_ids subset_driven visitor s v =
     (let visit = visit_matched offset limit visitor
      in snd (snd
        (if subset_driven
         then visit_subset (\<lambda>row. row_matches_index_range index_name rng row s) visit reverse allowed_row_ids s (0, 0, v)
         else visit_index_scan_with_options index_name rng None 0 reverse (visit_allowed allowed_row_ids visit) s (0, 0, v))))"

definition visit_index_scan_composite_restricted ::
  "string \<Rightarrow> value list key_range option \<Rightarrow> nat option \<Rightarrow> nat \<Rightarrow> bool \<Rightarrow> row_id list \<Rightarrow> bool
    \<Rightarrow> (row \<Rightarrow> 'v \<Rightarrow> bool \<times> 'v) \<Rightarrow> 'g row_store \<Rightarrow> 'v \<Rightarrow> 'v" where
  "visit_index_scan_composite_restricted index_name rng limit offset reverse allowed_row_ids subset_driven visitor s v =
     (let visit = visit_matched offset limit visitor
      in snd (snd
        (if subset_driven
         then visit_subset (\<lambda>row. row_matches_index_composite_range index_name rng row s) visit reverse allowed_row_ids s (0, 0, v)
         else visit_index_scan_composite_with_options index_name rng None 0 reverse (visit_allowed allowed_row_ids visit) s (0, 0, v))))"

section \<open>Writes made of the others\<close>

definition insert_or_replace ::
  "'g gin_ops \<Rightarrow> (value list \<Rightarrow> string) \<Rightarrow> row \<Rightarrow> 'g row_store \<Rightarrow> (db_error + row_id \<times> bool) \<times> 'g row_store" where
  "insert_or_replace G dbg row s =
     (case find_row_id_by_pk row s of
        Some existing_row_id \<Rightarrow>
          (case rs_update G dbg existing_row_id (row_new existing_row_id (rvalues row)) s of
             (Inl e, s) \<Rightarrow> (Inl e, s)
           | (Inr _, s) \<Rightarrow> (Inr (existing_row_id, True), s))
      | None \<Rightarrow>
          (case rs_insert G dbg row s of
             (Inl e, s) \<Rightarrow> (Inl e, s)
           | (Inr row_id, s) \<Rightarrow> (Inr (row_id, False), s)))"

definition insert_with_delta ::
  "'g gin_ops \<Rightarrow> (value list \<Rightarrow> string) \<Rightarrow> row \<Rightarrow> 'g row_store \<Rightarrow> (db_error + row delta) \<times> 'g row_store" where
  "insert_with_delta G dbg row s = map_prod (map_sum id (\<lambda>_. delta_insert row)) id (rs_insert G dbg row s)"

definition delete_with_delta :: "'g gin_ops \<Rightarrow> row_id \<Rightarrow> 'g row_store \<Rightarrow> (db_error + row delta) \<times> 'g row_store" where
  "delete_with_delta G row_id s = map_prod (map_sum id delta_delete) id (rs_delete G row_id s)"

definition update_with_delta ::
  "'g gin_ops \<Rightarrow> (value list \<Rightarrow> string) \<Rightarrow> row_id \<Rightarrow> row \<Rightarrow> 'g row_store
    \<Rightarrow> (db_error + row delta \<times> row delta) \<times> 'g row_store" where
  "update_with_delta G dbg row_id new_row s =
     (case row_ref_by_id row_id s of
        None \<Rightarrow> (Inl (not_found_row s row_id), s)
      | Some old_row \<Rightarrow>
          map_prod (map_sum id (\<lambda>_. (delta_delete old_row, delta_insert new_row))) id (rs_update G dbg row_id new_row s))"

end
