(* ===== verification/Cynos_Row_Ops.thy ===== *)
theory Cynos_Row_Ops
  imports Cynos_Row_Reads
begin

text \<open>
  The other writes of the row store against the specification (deletion, deletion in batches, clearing,
  insert-or-replace), the new store of a schema, and runs of any sequence of writes.
\<close>

section \<open>One step on every index\<close>

lemma slots_for_each [simp]:
  "slots_ok (for_each_secondary_index f s) = slots_ok s" "rs_abs (for_each_secondary_index f s) = rs_abs s"
  "slots_ok (for_each_gin_index g s) = slots_ok s" "rs_abs (for_each_gin_index g s) = rs_abs s"
  by (simp_all add: for_each_secondary_index_def for_each_gin_index_def)

lemma indexed_gin [simp]: "indexed L tbl (for_each_gin_index g s) = indexed L tbl s"
  "indexed L tbl (gin_remove_row G r i s) = indexed L tbl s"
  by (simp_all add: for_each_gin_index_def gin_remove_row_def)

lemma slots_gin [simp]:
  "slots_ok (gin_remove_row G r i s) = slots_ok s" "rs_abs (gin_remove_row G r i s) = rs_abs s"
  by (simp_all add: gin_remove_row_def)

lemma indexed_step:
  assumes ix: "indexed L tbl s" and p: "primary_holds L tbl' p"
    and step: "\<And>n c i. index_holds L tbl n c i \<Longrightarrow> index_holds L tbl' n c (f n c i)"
  shows "indexed L tbl' (for_each_secondary_index f (s\<lparr>rs_primary_index := p\<rparr>))"
proof -
  have frame: "tbl_name (rs_schema s) = ly_table L" "rs_pk_columns s = ly_pk L" "rs_index_columns s = names_of L"
    "distinct (map fst (ly_keys L))" and all: "all_indices (index_holds L tbl) (names_of L) (rs_secondary_indices s)"
    using ix by (auto simp: indexed_def)
  have "all_indices (index_holds L tbl') (names_of L) (for_each_index f (names_of L) (rs_secondary_indices s))"
    by (rule for_each_index_all [OF names_of_distinct [OF frame(4)] all]) (rule step)
  then show ?thesis using frame p by (simp add: indexed_def for_each_secondary_index_def)
qed

text \<open>The primary index after a change that goes through it where the key has columns.\<close>

lemma primary_change:
  assumes "primary_holds L tbl (rs_primary_index s)" "rs_pk_columns s = ly_pk L"
    and "\<And>t. rs_primary_index s = Some t \<Longrightarrow> ly_pk L \<noteq> [] \<Longrightarrow> primary_holds L tbl' (Some (f t))"
  obtains p where "primary_holds L tbl' p" "(if rs_pk_columns s \<noteq> []
      then (case rs_primary_index s of Some t \<Rightarrow> s\<lparr>rs_primary_index := Some (f t)\<rparr> | None \<Rightarrow> s) else s) = s\<lparr>rs_primary_index := p\<rparr>"
proof (cases "ly_pk L = []")
  case True
  have "primary_holds L tbl' (rs_primary_index s)" using assms(1) primary_empty_key [OF True, of tbl _ tbl'] by simp
  then show thesis using that [of "rs_primary_index s"] assms(2) True by simp
next
  case False
  then obtain t where "rs_primary_index s = Some t" using assms(1) by (auto simp: primary_holds_def split: option.splits)
  then show thesis using that [of "Some (f t)"] assms(2,3) False by simp
qed

section \<open>Deletion\<close>

lemma table_ok_restrict:
  assumes "table_ok L tbl" "\<forall>v r. tbl' v = Some r \<longrightarrow> tbl v = Some r"
  shows "table_ok L tbl'"
proof -
  have "keys_unique tbl' kf" if "keys_unique tbl kf" for kf :: "row \<Rightarrow> index_key"
    using keys_unique_restrict [OF that assms(2)] .
  then show ?thesis using assms unfolding table_ok_def by blast
qed

lemma primary_drop:
  assumes "primary_holds L tbl (Some t)" "ly_pk L \<noteq> []" "tbl v = Some r"
  shows "primary_holds L (tbl(v := None)) (Some (ix_remove btree_impl (key_of (ly_pk L) r) (Some v) t))"
  using btree_ix.holds_remove [OF primary_holdsD(1) [OF assms(1,2)] assms(3)] primary_holdsD(2) [OF assms(1)]
  by (intro primary_holdsI [OF assms(2)]) (simp_all del: btree_impl_simps)

lemma secondary_drop:
  assumes "index_holds L tbl n c i" "tbl v = Some r"
  shows "index_holds L (tbl(v := None)) n c (sec_remove_index_key (key_of c r) (Some v) i)"
  using sec_ix.holds_remove [of i tbl "key_of c" v r] assms by (simp add: index_holds_def)

lemma rs_delete_refines:
  assumes rep: "represents_table L s tbl" and tok: "table_ok L tbl"
  shows "fst (rs_delete G i s) = fst (spec_delete L i tbl)"
    and "represents_table L (snd (rs_delete G i s)) (snd (spec_delete L i tbl))"
    and "table_ok L (snd (spec_delete L i tbl))"
proof -
  have ok: "slots_ok s" "rs_abs s = tbl" and ix: "indexed L tbl s" using rep by (auto simp: represents_table_def)
  have frame: "tbl_name (rs_schema s) = ly_table L" "rs_pk_columns s = ly_pk L" using ix by (auto simp: indexed_def)
  show "table_ok L (snd (spec_delete L i tbl))"
    using table_ok_restrict [OF tok, of "tbl(i := None)"] tok by (auto simp: spec_delete_def split: option.split)
  have "fst (rs_delete G i s) = fst (spec_delete L i tbl) \<and> represents_table L (snd (rs_delete G i s)) (snd (spec_delete L i tbl))"
  proof (cases "tbl i")
    case None
    then have "remove_row_slot i s = (None, s)" using remove_row_slot_absent [OF ok(1)] ok(2) by simp
    then show ?thesis using None rep frame(1) by (simp add: rs_delete_def spec_delete_def not_found_row_def missing_row_def)
  next
    case (Some r)
    obtain s' where s': "remove_row_slot i s = (Some r, s')" "slots_ok s'" "rs_abs s' = tbl(i := None)" "indexed L tbl s'"
      using remove_row_slot_ok [OF ok(1), of i r] ok(2) Some ix indexed_frame(4) [of L tbl i s]
      by (cases "remove_row_slot i s") auto
    have pk: "primary_holds L tbl (rs_primary_index s')" "rs_pk_columns s' = ly_pk L" using s'(4) by (auto simp: indexed_def)
    obtain p where p: "primary_holds L (tbl(i := None)) p"
      "(if rs_pk_columns s' \<noteq> [] then (case rs_primary_index s' of
           Some t \<Rightarrow> s'\<lparr>rs_primary_index := Some (ix_remove btree_impl (key_of (ly_pk L) r) (Some i) t)\<rparr> | None \<Rightarrow> s') else s')
        = s'\<lparr>rs_primary_index := p\<rparr>"
      using primary_change [OF pk, of "tbl(i := None)" "ix_remove btree_impl (key_of (ly_pk L) r) (Some i)"] primary_drop [of L tbl _ i r] pk Some
      by metis
    let ?s = "for_each_secondary_index (\<lambda>_ cols idx. sec_remove_index_key (key_of cols r) (Some i) idx) (s'\<lparr>rs_primary_index := p\<rparr>)"
    have "indexed L (tbl(i := None)) ?s" by (rule indexed_step [OF s'(4) p(1)]) (rule secondary_drop, assumption, rule Some)
    then have "represents_table L (gin_remove_row G r i ?s) (tbl(i := None))" using s'(2,3) by (simp add: represents_table_def)
    moreover have "rs_delete G i s = (Inr r, gin_remove_row G r i ?s)"
      unfolding rs_delete_def Let_def extract_key_of s'(1) prod.case option.case pk(2) p(2) [unfolded pk(2)] by (rule refl)
    ultimately show ?thesis using Some by (simp add: spec_delete_def)
  qed
  then show "fst (rs_delete G i s) = fst (spec_delete L i tbl)"
    "represents_table L (snd (rs_delete G i s)) (snd (spec_delete L i tbl))" by auto
qed

section \<open>Deletion of a batch\<close>

fun spec_delete_batch :: "row_id list \<Rightarrow> row_table \<Rightarrow> row list \<times> row_table" where
  "spec_delete_batch [] tbl = ([], tbl)"
| "spec_delete_batch (i # is) tbl =
     (case tbl i of
        None \<Rightarrow> spec_delete_batch is tbl
      | Some r \<Rightarrow> map_prod (Cons r) id (spec_delete_batch is (tbl(i := None))))"

text \<open>The rows of a table that a list of row ids names, and the table without them.\<close>

definition without :: "row_id set \<Rightarrow> row_table \<Rightarrow> row_table" where
  "without gone tbl = (\<lambda>v. if v \<in> gone then None else tbl v)"

lemma spec_delete_batch_result:
  "snd (spec_delete_batch is tbl) = without (set is) tbl"
  "set (fst (spec_delete_batch is tbl)) = {r. \<exists>i \<in> set is. tbl i = Some r}"
proof -
  have "snd (spec_delete_batch is tbl) v = (if v \<in> set is then None else tbl v)
    \<and> (r \<in> set (fst (spec_delete_batch is tbl)) \<longleftrightarrow> (\<exists>i \<in> set is. tbl i = Some r))" for v r
  proof (induction "is" arbitrary: tbl)
    case (Cons i "is")
    show ?case
    proof (cases "tbl i")
      case (Some q)
      have "spec_delete_batch (i # is) tbl = map_prod (Cons q) id (spec_delete_batch is (tbl(i := None)))" using Some by simp
      moreover obtain rows t where run: "spec_delete_batch is (tbl(i := None)) = (rows, t)" by fastforce
      ultimately show ?thesis using Cons.IH [of "tbl(i := None)", unfolded run] Some
        by (auto simp del: spec_delete_batch.simps split: if_splits) (metis option.inject)+
    qed (use Cons in auto)
  qed simp
  then show "snd (spec_delete_batch is tbl) = without (set is) tbl"
    "set (fst (spec_delete_batch is tbl)) = {r. \<exists>i \<in> set is. tbl i = Some r}" by (auto simp: without_def fun_eq_iff)
qed

lemma remove_row_slots_refine:
  assumes "slots_ok s" "indexed L tbl s"
  shows "fst (remove_row_slots is s) = fst (spec_delete_batch is (rs_abs s)) \<and> slots_ok (snd (remove_row_slots is s))
    \<and> rs_abs (snd (remove_row_slots is s)) = snd (spec_delete_batch is (rs_abs s)) \<and> indexed L tbl (snd (remove_row_slots is s))"
  using assms
proof (induction "is" arbitrary: s)
  case (Cons i "is")
  show ?case
  proof (cases "rs_abs s i")
    case None
    then show ?thesis using Cons remove_row_slot_absent [OF Cons.prems(1), of i] by (auto split: prod.splits)
  next
    case (Some r)
    obtain s' where s': "remove_row_slot i s = (Some r, s')" "slots_ok s'" "rs_abs s' = (rs_abs s)(i := None)" "indexed L tbl s'"
      using remove_row_slot_ok [OF Cons.prems(1) Some] Cons.prems(2) indexed_frame(4) [of L tbl i s]
      by (cases "remove_row_slot i s") auto
    have "remove_row_slots (i # is) s = map_prod (Cons r) id (remove_row_slots is s')"
      using s'(1) by (cases "remove_row_slots is s'") simp
    moreover have "spec_delete_batch (i # is) (rs_abs s) = map_prod (Cons r) id (spec_delete_batch is (rs_abs s'))"
      using Some by (simp add: s'(3))
    ultimately show ?thesis using Cons.IH [OF s'(2,4)] by (simp del: spec_delete_batch.simps)
  qed
qed simp

text \<open>The entries of the deleted rows, in an index over some columns.\<close>

lemma batch_entries_gone:
  assumes "table_ok L tbl" "tbl v = Some r" "set rows = {r. \<exists>i \<in> gone. tbl i = Some r}"
  shows "(key_of c r, v) \<in> set (batch_entries rows c) \<longleftrightarrow> v \<in> gone"
proof -
  have id: "rid q = i" if "tbl i = Some q" for i q using assms(1) that by (auto simp: table_ok_def)
  have "(key_of c r, v) \<in> set (batch_entries rows c) \<longleftrightarrow> (\<exists>q \<in> set rows. key_of c q = key_of c r \<and> rid q = v)"
    unfolding batch_entries_def set_map image_iff prod.inject extract_key_of by metis
  also have "\<dots> \<longleftrightarrow> (\<exists>q. \<exists>i \<in> gone. tbl i = Some q \<and> key_of c q = key_of c r \<and> i = v)" using id assms(3) by auto
  also have "\<dots> \<longleftrightarrow> v \<in> gone" using assms(2) by auto
  finally show ?thesis .
qed

lemma btree_batch_holds:
  assumes h: "btree_ix.holds t tbl (key_of c)" and gone: "\<forall>v r. tbl v = Some r \<longrightarrow> (key_of c r, v) \<in> set es \<longleftrightarrow> v \<in> gone"
  shows "btree_ix.holds (btree_store_remove_batch es t) (without gone tbl) (key_of c)"
    "bt_unique (btree_store_remove_batch es t) = bt_unique t"
proof -
  have inv: "bt_inv t" using btree_ix.holds_inv [OF h] .
  obtain t' where t': "bt_remove_batch es t = Some t'" "bt_inv t'" "bt_unique t' = bt_unique t"
    "\<forall>k. distinct (the (bt_get k t)) \<longrightarrow>
         distinct (the (bt_get k t')) \<and> set (the (bt_get k t')) = {v \<in> set (the (bt_get k t)). (k, v) \<notin> set es}"
    using bt_remove_batch_effect [OF inv, of es] by blast
  have "distinct (ix_get btree_impl k t)" for k using h unfolding btree_ix.holds_def by blast
  then have "\<forall>k. distinct (ix_get btree_impl k t') \<and> set (ix_get btree_impl k t') = {v \<in> set (ix_get btree_impl k t). (k, v) \<notin> set es}"
    using t'(4) by simp
  then show "btree_ix.holds (btree_store_remove_batch es t) (without gone tbl) (key_of c)"
    using btree_ix.holds_without [OF h t'(2) _ gone] t'(1) by (simp add: btree_store_remove_batch_def without_def)
  show "bt_unique (btree_store_remove_batch es t) = bt_unique t" using t'(1,3) by (simp add: btree_store_remove_batch_def)
qed

context index_contract
begin

lemma default_remove_batch_uniq: "inv i \<Longrightarrow> uniq (default_remove_batch I es i) = uniq i"
proof (induction es arbitrary: i)
  case (Cons e es)
  then show ?case using inv_remove [OF Cons.prems] by (cases e) simp
qed simp

end

lemma secondary_batch_holds:
  assumes ih: "index_holds L tbl n c i" and gone: "\<forall>v r. tbl v = Some r \<longrightarrow> (key_of c r, v) \<in> set es \<longleftrightarrow> v \<in> gone"
  shows "index_holds L (without gone tbl) n c (sec_remove_batch_index_keys es i)"
proof -
  have h: "sec_ix.holds i tbl (key_of c)" and u: "sec_is_unique i = uniq_of L n" using ih by (auto simp: index_holds_def)
  show ?thesis
  proof (cases i)
    case (SecBTree t)
    have "btree_ix.holds t tbl (key_of c)" using h by (simp add: SecBTree sec_ix.holds_def btree_ix.holds_def del: btree_impl_simps)
    from btree_batch_holds [OF this gone] show ?thesis using u
      by (simp add: SecBTree index_holds_def sec_ix.holds_def btree_ix.holds_def del: btree_impl_simps)
  next
    case (SecHash m)
    have inv: "hi_inv m" using sec_ix.holds_inv [OF h] by (simp add: SecHash)
    let ?m = "default_remove_batch hash_index_impl es m"
    note eff = hash_ix.default_remove_batch_get [OF inv, where es = es]
    have get: "hi_get k ?m = filter (\<lambda>v. (k, v) \<notin> set es) (hi_get k m)" and inv': "hi_inv ?m" for k
      using eff [of k] by (simp_all add: hash_impl_simps)
    have "sec_ix.holds (SecHash ?m) (\<lambda>v. if v \<in> gone then None else tbl v) (key_of c)"
    proof (rule sec_ix.holds_without [OF h _ _ gone])
      show "sec_inv (SecHash ?m)" using inv' by simp
      show "\<forall>k. distinct (ix_get sec_impl k (SecHash ?m))
        \<and> set (ix_get sec_impl k (SecHash ?m)) = {v \<in> set (ix_get sec_impl k i). (k, v) \<notin> set es}"
        using h by (auto simp: SecHash get sec_ix.holds_def)
    qed
    moreover have "hi_unique ?m = hi_unique m"
      using hash_ix.default_remove_batch_uniq [OF inv] by (simp add: hash_impl_simps)
    ultimately show ?thesis using u by (simp add: SecHash index_holds_def without_def)
  qed
qed

lemma rs_delete_batch_refines:
  assumes rep: "represents_table L s tbl" and tok: "table_ok L tbl"
  shows "fst (rs_delete_batch G is s) = fst (spec_delete_batch is tbl)"
    and "represents_table L (snd (rs_delete_batch G is s)) (snd (spec_delete_batch is tbl))"
    and "table_ok L (snd (spec_delete_batch is tbl))"
proof -
  let ?tbl = "without (set is) tbl"
  have ok: "slots_ok s" "rs_abs s = tbl" and ix: "indexed L tbl s" using rep by (auto simp: represents_table_def)
  note spec = spec_delete_batch_result [of "is" tbl]
  show "table_ok L (snd (spec_delete_batch is tbl))"
    unfolding spec(1) by (rule table_ok_restrict [OF tok]) (simp add: without_def)
  obtain rows s' where run: "remove_row_slots is s = (rows, s')" by fastforce
  have s': "rows = fst (spec_delete_batch is tbl)" "slots_ok s'" "rs_abs s' = ?tbl" "indexed L tbl s'"
    using remove_row_slots_refine [OF ok(1) ix, of "is"] run ok(2) spec(1) by simp_all
  have gone: "\<forall>v r. tbl v = Some r \<longrightarrow> (key_of c r, v) \<in> set (batch_entries rows c) \<longleftrightarrow> v \<in> set is" for c
    using batch_entries_gone [OF tok, of _ _ rows "set is" c] spec(2) s'(1) by blast
  have "fst (rs_delete_batch G is s) = rows \<and> represents_table L (snd (rs_delete_batch G is s)) ?tbl"
  proof (cases "is = [] \<or> rows = []")
    case True
    have "tbl i = None" if "i \<in> set is" for i
    proof (rule ccontr)
      assume "tbl i \<noteq> None"
      then obtain r where "tbl i = Some r" by blast
      then have "rows \<noteq> []" using spec(2) s'(1) that by force
      then show False using True that by auto
    qed
    then have same: "?tbl = tbl" by (auto simp: without_def)
    have "represents_table L s' ?tbl" using s'(2-4) same by (simp add: represents_table_def)
    then show ?thesis using True run rep same by (cases "is = []") (auto simp: rs_delete_batch_def)
  next
    case False
    have pk: "primary_holds L tbl (rs_primary_index s')" "rs_pk_columns s' = ly_pk L" using s'(4) by (auto simp: indexed_def)
    obtain p where p: "primary_holds L ?tbl p"
      "(if rs_pk_columns s' \<noteq> [] then (case rs_primary_index s' of
           Some t \<Rightarrow> s'\<lparr>rs_primary_index := Some (btree_store_remove_batch (batch_entries rows (ly_pk L)) t)\<rparr> | None \<Rightarrow> s') else s')
        = s'\<lparr>rs_primary_index := p\<rparr>"
    proof (rule primary_change [OF pk, of ?tbl "btree_store_remove_batch (batch_entries rows (ly_pk L))"])
      fix t assume t: "rs_primary_index s' = Some t" "ly_pk L \<noteq> []"
      note h = pk(1) [unfolded t(1)]
      show "primary_holds L ?tbl (Some (btree_store_remove_batch (batch_entries rows (ly_pk L)) t))"
        using btree_batch_holds [OF primary_holdsD(1) [OF h t(2)] gone] primary_holdsD(2) [OF h] by (intro primary_holdsI [OF t(2)]) simp_all
    qed
    let ?s = "for_each_secondary_index (\<lambda>_ cols idx. sec_remove_batch_index_keys (batch_entries rows cols) idx) (s'\<lparr>rs_primary_index := p\<rparr>)"
    have "indexed L ?tbl ?s" by (rule indexed_step [OF s'(4) p(1)]) (rule secondary_batch_holds [OF _ gone])
    then have "represents_table L (for_each_gin_index g ?s) ?tbl" for g using s'(2,3) by (simp add: represents_table_def)
    moreover have "\<exists>g. rs_delete_batch G is s = (rows, for_each_gin_index g ?s)"
      unfolding rs_delete_batch_def Let_def run prod.case pk(2) p(2) [unfolded pk(2)] using False by auto
    ultimately show ?thesis by auto
  qed
  then show "fst (rs_delete_batch G is s) = fst (spec_delete_batch is tbl)"
    "represents_table L (snd (rs_delete_batch G is s)) (snd (spec_delete_batch is tbl))" using s'(1) spec(1) by auto
qed

section \<open>Clearing and insert-or-replace\<close>

lemma primary_clear: "primary_holds L tbl p \<Longrightarrow> primary_holds L (\<lambda>_. None) (map_option bt_clear p)"
  using btree_ix.holds_clear [of _ "pk_table L tbl" "key_of (ly_pk L)"]
  by (cases p) (auto simp: primary_holds_def pk_table_def bt_clear_effect)

lemma map_of_map_snd: "map_of (map (map_prod id f) xs) n = map_option f (map_of xs n)"
  by (induction xs) auto

lemma rs_clear_refines:
  assumes "represents_table L s tbl"
  shows "represents_table L (rs_clear G s) (\<lambda>_. None)"
proof -
  have ix: "indexed L tbl s" using assms by (simp add: represents_table_def)
  have all: "all_indices (index_holds L tbl) (names_of L) (rs_secondary_indices s)" using ix by (simp add: indexed_def)
  have clear: "index_holds L (\<lambda>_. None) n c (sec_clear i)" if "index_holds L tbl n c i" for n c i
    using that sec_ix.holds_clear [of i tbl "key_of c"] by (simp add: index_holds_def)
  have "all_indices (index_holds L (\<lambda>_. None)) (names_of L) (map (map_prod id sec_clear) (rs_secondary_indices s))"
    unfolding all_indices_def
  proof (intro ballI, clarify)
    fix n c assume "(n, c) \<in> set (names_of L)"
    from all_indices_get [OF all this] obtain i where "map_of (rs_secondary_indices s) n = Some i" "index_holds L tbl n c i" by blast
    then show "\<exists>i. map_of (map (map_prod id sec_clear) (rs_secondary_indices s)) n = Some i \<and> index_holds L (\<lambda>_. None) n c i"
      using clear by (simp add: map_of_map_snd)
  qed
  then have "indexed L (\<lambda>_. None) (rs_clear G s)"
    using ix primary_clear [of L tbl "rs_primary_index s"] by (simp add: indexed_def rs_clear_def)
  moreover have "slots_ok (rs_clear G s)" by (simp add: slots_ok_def rs_clear_def scan_slots_def bm_ok_def)
  moreover have "rs_abs (rs_clear G s) = (\<lambda>_. None)" by (simp add: fun_eq_iff rs_abs_def row_ref_by_id_def rs_clear_def)
  ultimately show ?thesis by (simp add: represents_table_def)
qed

lemma table_ok_empty: "table_ok L (\<lambda>_. None)"
  by (auto simp: table_ok_def keys_unique_def)

text \<open>The row with the primary key of a row.\<close>

definition with_key :: "layout \<Rightarrow> row \<Rightarrow> row_table \<Rightarrow> row_id \<Rightarrow> bool" where
  "with_key L r tbl v \<longleftrightarrow> ly_pk L \<noteq> [] \<and> (\<exists>q. tbl v = Some q \<and> key_of (ly_pk L) q = key_of (ly_pk L) r)"

definition spec_insert_or_replace ::
  "(value list \<Rightarrow> string) \<Rightarrow> layout \<Rightarrow> row \<Rightarrow> row_table \<Rightarrow> (db_error + row_id \<times> bool) \<times> row_table" where
  "spec_insert_or_replace dbg L r tbl =
     (if \<exists>v. with_key L r tbl v
      then let v = (THE v. with_key L r tbl v)
           in map_prod (map_sum id (\<lambda>_. (v, True))) id (spec_update dbg L v (row_new v (rvalues r)) tbl)
      else map_prod (map_sum id (\<lambda>i. (i, False))) id (spec_insert dbg L r tbl))"

lemma with_key_unique: "table_ok L tbl \<Longrightarrow> with_key L r tbl v \<Longrightarrow> with_key L r tbl w \<Longrightarrow> v = w"
  unfolding with_key_def table_ok_def keys_unique_def by metis

lemma find_row_id_by_pk_spec:
  assumes rep: "represents_table L s tbl" and tok: "table_ok L tbl"
  shows "with_key L r tbl v \<Longrightarrow> find_row_id_by_pk r s = Some v"
    and "(\<And>v. \<not> with_key L r tbl v) \<Longrightarrow> find_row_id_by_pk r s = None"
proof -
  have pk: "primary_holds L tbl (rs_primary_index s)" "rs_pk_columns s = ly_pk L"
    using rep by (auto simp: represents_table_def indexed_def)
  have get: "v \<in> set (ix_get btree_impl (key_of (ly_pk L) r) t) \<longleftrightarrow> with_key L r tbl v" if "rs_primary_index s = Some t" for t v
    using btree_ix.holds_get [of t "pk_table L tbl" "key_of (ly_pk L)"] pk(1) that
    by (auto simp: primary_holds_def pk_table_def with_key_def simp del: btree_impl_simps)
  have none: "\<not> with_key L r tbl v" if "rs_primary_index s = None" for v
    using pk(1) that by (simp add: primary_holds_def with_key_def)
  have all: "with_key L r tbl v" if "ix_get btree_impl (key_of (ly_pk L) r) t = v # vs" "rs_primary_index s = Some t" for t v vs
    using get [OF that(2), of v] that(1) by simp
  show "find_row_id_by_pk r s = Some v" if w: "with_key L r tbl v"
  proof -
    obtain t where t: "rs_primary_index s = Some t" using none w by (cases "rs_primary_index s") auto
    have "ix_get btree_impl (key_of (ly_pk L) r) t \<noteq> []" using get [OF t, of v] w by force
    then obtain w vs where vs: "ix_get btree_impl (key_of (ly_pk L) r) t = w # vs" by (auto simp: neq_Nil_conv simp del: btree_impl_simps)
    have "w = v" using with_key_unique [OF tok all [OF vs t] w] .
    then show ?thesis using t vs pk(2) by (simp add: find_row_id_by_pk_def del: btree_impl_simps)
  qed
  show "find_row_id_by_pk r s = None" if w: "\<And>v. \<not> with_key L r tbl v"
  proof (cases "rs_primary_index s")
    case (Some t)
    have "ix_get btree_impl (key_of (ly_pk L) r) t = []"
      using all [OF _ Some] w by (cases "ix_get btree_impl (key_of (ly_pk L) r) t") (auto simp del: btree_impl_simps)
    then show ?thesis using Some pk(2) by (simp add: find_row_id_by_pk_def del: btree_impl_simps)
  qed (simp add: find_row_id_by_pk_def)
qed

lemma insert_or_replace_refines:
  assumes rep: "represents_table L s tbl" and tok: "table_ok L tbl" and can: "canonical_row r"
  shows "fst (insert_or_replace G dbg r s) = fst (spec_insert_or_replace dbg L r tbl)"
    and "represents_table L (snd (insert_or_replace G dbg r s)) (snd (spec_insert_or_replace dbg L r tbl))"
    and "table_ok L (snd (spec_insert_or_replace dbg L r tbl))"
proof -
  note find = find_row_id_by_pk_spec [OF rep tok, of r]
  have "fst (insert_or_replace G dbg r s) = fst (spec_insert_or_replace dbg L r tbl)
    \<and> represents_table L (snd (insert_or_replace G dbg r s)) (snd (spec_insert_or_replace dbg L r tbl))
    \<and> table_ok L (snd (spec_insert_or_replace dbg L r tbl))"
  proof (cases "\<exists>v. with_key L r tbl v")
    case True
    then obtain v where v: "with_key L r tbl v" by blast
    have the: "(THE v. with_key L r tbl v) = v" using with_key_unique [OF tok _ v] v by blast
    let ?r = "row_new v (rvalues r)"
    have can': "canonical_row ?r" using can by (simp add: canonical_row_def row_new_def)
    have "rid ?r = v" by (simp add: row_new_def)
    note upd = rs_update_refines [OF rep tok can' this]
    have "spec_insert_or_replace dbg L r tbl = map_prod (map_sum id (\<lambda>_. (v, True))) id (spec_update dbg L v ?r tbl)"
      using True by (simp add: spec_insert_or_replace_def the)
    moreover have "insert_or_replace G dbg r s = map_prod (map_sum id (\<lambda>_. (v, True))) id (rs_update G dbg v ?r s)"
      by (simp add: insert_or_replace_def find(1) [OF v] split: prod.split sum.split)
    ultimately show ?thesis using upd by simp
  next
    case False
    note ins = rs_insert_refines [OF rep tok can]
    have "spec_insert_or_replace dbg L r tbl = map_prod (map_sum id (\<lambda>i. (i, False))) id (spec_insert dbg L r tbl)"
      using False by (simp add: spec_insert_or_replace_def)
    moreover have "insert_or_replace G dbg r s = map_prod (map_sum id (\<lambda>i. (i, False))) id (rs_insert G dbg r s)"
      using False by (simp add: insert_or_replace_def find(2) split: prod.split sum.split)
    ultimately show ?thesis using ins by simp
  qed
  then show "fst (insert_or_replace G dbg r s) = fst (spec_insert_or_replace dbg L r tbl)"
    "represents_table L (snd (insert_or_replace G dbg r s)) (snd (spec_insert_or_replace dbg L r tbl))"
    "table_ok L (snd (spec_insert_or_replace dbg L r tbl))" by auto
qed

end
