(* ===== verification/Cynos_Row_Run.thy ===== *)
theory Cynos_Row_Run
  imports Cynos_Row_Ops
begin

text \<open>
  Whole runs of a row store: the store of a schema represents the empty table, and any sequence of writes
  keeps the representation, so that the store answers as the specification does. What holds of the
  representation then holds of every store a program can reach.
\<close>

section \<open>The new store\<close>

definition key_entry :: "table \<Rightarrow> index_def \<Rightarrow> (string, nat list \<times> bool) btree_map \<Rightarrow> (string, nat list \<times> bool) btree_map" where
  "key_entry schema idx m =
     (if id_index_type idx = IxGin then m else bm_insert (id_name idx) (column_indices schema idx, id_unique idx) m)"

definition layout_of :: "table \<Rightarrow> layout" where
  "layout_of schema = \<lparr>ly_table = tbl_name schema,
     ly_pk = (case table_primary_key schema of Some pk \<Rightarrow> column_indices schema pk | None \<Rightarrow> []),
     ly_keys = fold (key_entry schema) (tbl_indices schema) []\<rparr>"

definition index_fresh :: "nat list \<Rightarrow> bool \<Rightarrow> secondary_store \<Rightarrow> bool" where
  "index_fresh c u i \<longleftrightarrow> sec_ix.holds i (\<lambda>_. None :: row option) (key_of c) \<and> sec_is_unique i = u"

lemma sec_new_fresh: "index_fresh c u (sec_new ty u)"
proof -
  have ok: "bt_ok (btree_store_new u) [Leaf 0 []]" unfolding btree_store_new_def by (rule bt_new_ok) (simp add: INDEX_ORDER_def)
  have bt: "bt_inv (btree_store_new u)" "bt_unique (btree_store_new u) = u" "ix_get btree_impl k (btree_store_new u) = []" for k
    using ok bt_ok_entries(1) [OF ok, of k]
    by (auto simp: bt_inv_def rows_at_def) (simp_all add: btree_store_new_def bt_new_def bt_with_comparator_def split_beta)
  have hi: "hi_inv (hi_new u)" "hi_unique (hi_new u) = u" "hi_get k (hi_new u) = []" for k :: index_key
    by (rule hi_inv_new) (simp_all add: hi_new_def hi_get_def)
  show ?thesis unfolding index_fresh_def
    by (cases ty) (use bt hi in \<open>simp_all add: sec_new_def sec_ix.holds_def del: btree_impl_simps\<close>)
qed

lemma map_bm_insert: "map (\<lambda>(n, c, u). (n, c)) (bm_insert n (c, u) m) = bm_insert n c (map (\<lambda>(n, c, u). (n, c)) m)"
  by (induction m) auto

text \<open>What the loop of \<open>RowStore::new\<close> keeps.\<close>

definition built_store :: "table \<Rightarrow> (string, nat list \<times> bool) btree_map \<Rightarrow> 'g row_store \<Rightarrow> bool" where
  "built_store schema keys s \<longleftrightarrow> bm_ok keys \<and> rs_index_columns s = map (\<lambda>(n, c, u). (n, c)) keys
     \<and> (\<forall>(n, c, u) \<in> set keys. \<exists>i. map_of (rs_secondary_indices s) n = Some i \<and> index_fresh c u i)
     \<and> rs_schema s = schema \<and> rs_rows s = [] \<and> rs_row_slots s = [] \<and> rs_scan_order s = []"

lemma built_store_add:
  assumes "built_store schema keys s"
  shows "built_store schema (key_entry schema idx keys) (rs_add_index G schema idx s)
    \<and> rs_primary_index (rs_add_index G schema idx s) = rs_primary_index s \<and> rs_pk_columns (rs_add_index G schema idx s) = rs_pk_columns s"
proof (cases "id_index_type idx = IxGin")
  case True
  then show ?thesis using assms
    by (auto simp: rs_add_index_def key_entry_def built_store_def Let_def split: list.split)
next
  case False
  let ?c = "column_indices schema idx" and ?u = "id_unique idx" and ?n = "id_name idx"
  let ?i = "sec_new (id_index_type idx) ?u" and ?keys = "bm_insert ?n (?c, ?u) keys"
  have ok: "bm_ok keys" "bm_ok ?keys" using assms by (auto simp: built_store_def)
  have "\<exists>i. ((map_of (rs_secondary_indices s))(?n \<mapsto> ?i)) n = Some i \<and> index_fresh c u i" if "(n, c, u) \<in> set ?keys" for n c u
  proof (cases "n = ?n")
    case True
    then have "(c, u) = (?c, ?u)" using that bm_ok_mem [OF ok(2), of n "(c, u)"] by simp
    then show ?thesis using True sec_new_fresh by simp
  next
    case False
    then have "(n, c, u) \<in> set keys" using that bm_ok_mem [OF ok(2), of n "(c, u)"] bm_ok_mem [OF ok(1), of n "(c, u)"] by simp
    then show ?thesis using assms False by (auto simp: built_store_def)
  qed
  then show ?thesis using False assms ok(2) by (simp add: rs_add_index_def key_entry_def built_store_def Let_def map_bm_insert split_beta)
qed

lemma built_store_fold:
  "built_store schema keys s \<Longrightarrow> built_store schema (fold (key_entry schema) ixs keys) (fold (rs_add_index G schema) ixs s)
    \<and> rs_primary_index (fold (rs_add_index G schema) ixs s) = rs_primary_index s
    \<and> rs_pk_columns (fold (rs_add_index G schema) ixs s) = rs_pk_columns s"
proof (induction ixs arbitrary: keys s)
  case (Cons ix ixs)
  show ?case using Cons.IH [of "key_entry schema ix keys" "rs_add_index G schema ix s"] built_store_add [OF Cons.prems, of ix G] by simp
qed simp

lemma rs_new_represents:
  fixes G :: "'g gin_ops"
  shows "represents_table (layout_of schema) (rs_new G schema) (\<lambda>_. None)"
proof -
  let ?L = "layout_of schema"
  define s0 :: "'g row_store" where "s0 = \<lparr>rs_schema = schema, rs_rows = [], rs_row_slots = [], rs_scan_order = [],
    rs_primary_index = None, rs_pk_columns = [], rs_secondary_indices = [],
    rs_index_columns = [], rs_gin_indices = [], rs_gin_index_configs = []\<rparr>"
  define s1 where "s1 = (case table_primary_key schema of
      Some pk \<Rightarrow> s0\<lparr>rs_primary_index := Some (btree_store_new True), rs_pk_columns := column_indices schema pk\<rparr> | None \<Rightarrow> s0)"
  have new: "rs_new G schema = fold (rs_add_index G schema) (tbl_indices schema) s1"
    unfolding rs_new_def s1_def s0_def Let_def ..
  have "built_store schema [] s1" by (simp add: built_store_def s1_def s0_def split: option.split)
  from built_store_fold [OF this, of "tbl_indices schema" G]
  have b: "built_store schema (ly_keys ?L) (rs_new G schema)" and pk: "rs_primary_index (rs_new G schema) = rs_primary_index s1"
    "rs_pk_columns (rs_new G schema) = rs_pk_columns s1" by (simp_all add: new layout_of_def)
  have keys: "distinct (map fst (ly_keys ?L))" using b unfolding built_store_def by (intro bm_ok_distinct) blast
  have "index_holds ?L (\<lambda>_. None) n c i" if "(n, c, u) \<in> set (ly_keys ?L)" "index_fresh c u i" for n c u i
    using that uniq_of_mem [OF keys that(1)] by (simp add: index_holds_def index_fresh_def)
  then have "all_indices (index_holds ?L (\<lambda>_. None)) (names_of ?L) (rs_secondary_indices (rs_new G schema))"
    using b unfolding all_indices_def names_of_def built_store_def by fastforce
  moreover have "primary_holds ?L (\<lambda>_. None) (rs_primary_index (rs_new G schema))"
    using sec_new_fresh [of "ly_pk ?L" True IxBTree]
    by (auto simp: pk s1_def s0_def layout_of_def primary_holds_def pk_table_def index_fresh_def sec_new_def sec_ix.holds_def
        btree_ix.holds_def simp del: btree_impl_simps split: option.split)
  moreover have "rs_pk_columns (rs_new G schema) = ly_pk ?L"
    by (simp add: pk s1_def s0_def layout_of_def split: option.split)
  ultimately have "indexed ?L (\<lambda>_. None) (rs_new G schema)"
    using b keys by (simp add: indexed_def built_store_def names_of_def) (simp add: layout_of_def)
  moreover have "slots_ok (rs_new G schema)" using b by (simp add: slots_ok_def built_store_def scan_slots_def)
  moreover have "rs_abs (rs_new G schema) = (\<lambda>_. None)" using b by (simp add: rs_abs_def row_ref_by_id_def built_store_def fun_eq_iff)
  ultimately show ?thesis by (simp add: represents_table_def)
qed

section \<open>Runs\<close>

datatype store_op =
    StInsert row
  | StUpdate row_id row
  | StInsertOrReplace row
  | StDelete row_id
  | StDeleteBatch "row_id list"
  | StClear

datatype store_result =
    GotId "db_error + row_id"
  | GotUnit "db_error + unit"
  | GotReplaced "db_error + row_id \<times> bool"
  | GotRow "db_error + row"
  | GotRows "row list"

fun refused :: "store_result \<Rightarrow> bool" where
  "refused (GotId r) = isl r"
| "refused (GotUnit r) = isl r"
| "refused (GotReplaced r) = isl r"
| "refused (GotRow r) = isl r"
| "refused (GotRows _) = False"

fun store_step ::
  "'g gin_ops \<Rightarrow> (value list \<Rightarrow> string) \<Rightarrow> store_op \<Rightarrow> 'g row_store \<Rightarrow> store_result \<times> 'g row_store" where
  "store_step G dbg (StInsert r) s = map_prod GotId id (rs_insert G dbg r s)"
| "store_step G dbg (StUpdate i r) s = map_prod GotUnit id (rs_update G dbg i r s)"
| "store_step G dbg (StInsertOrReplace r) s = map_prod GotReplaced id (insert_or_replace G dbg r s)"
| "store_step G dbg (StDelete i) s = map_prod GotRow id (rs_delete G i s)"
| "store_step G dbg (StDeleteBatch is) s = map_prod GotRows id (rs_delete_batch G is s)"
| "store_step G dbg StClear s = (GotUnit (Inr ()), rs_clear G s)"

fun run_store ::
  "'g gin_ops \<Rightarrow> (value list \<Rightarrow> string) \<Rightarrow> store_op list \<Rightarrow> 'g row_store \<Rightarrow> store_result list \<times> 'g row_store" where
  "run_store G dbg [] s = ([], s)"
| "run_store G dbg (op # ops) s =
     (case store_step G dbg op s of (r, s) \<Rightarrow> map_prod (Cons r) id (run_store G dbg ops s))"

fun spec_step ::
  "(value list \<Rightarrow> string) \<Rightarrow> layout \<Rightarrow> store_op \<Rightarrow> row_table \<Rightarrow> store_result \<times> row_table" where
  "spec_step dbg L (StInsert r) tbl = map_prod GotId id (spec_insert dbg L r tbl)"
| "spec_step dbg L (StUpdate i r) tbl = map_prod GotUnit id (spec_update dbg L i r tbl)"
| "spec_step dbg L (StInsertOrReplace r) tbl = map_prod GotReplaced id (spec_insert_or_replace dbg L r tbl)"
| "spec_step dbg L (StDelete i) tbl = map_prod GotRow id (spec_delete L i tbl)"
| "spec_step dbg L (StDeleteBatch is) tbl = map_prod GotRows id (spec_delete_batch is tbl)"
| "spec_step dbg L StClear tbl = (GotUnit (Inr ()), \<lambda>_. None)"

fun run_spec ::
  "(value list \<Rightarrow> string) \<Rightarrow> layout \<Rightarrow> store_op list \<Rightarrow> row_table \<Rightarrow> store_result list \<times> row_table" where
  "run_spec dbg L [] tbl = ([], tbl)"
| "run_spec dbg L (op # ops) tbl =
     (case spec_step dbg L op tbl of (r, tbl) \<Rightarrow> map_prod (Cons r) id (run_spec dbg L ops tbl))"

text \<open>
  The rows that a table of a schema is meant to hold: a value is of its column's type or NULL, and no
  floating-point value is NaN or the negative zero. On the keys of such rows the order of the model is
  the order of the code (\<open>fitting_keys\<close>). A row that replaces another keeps its id.
\<close>

definition row_fits :: "table \<Rightarrow> row \<Rightarrow> bool" where
  "row_fits schema r \<longleftrightarrow> canonical_row r
     \<and> list_all (\<lambda>(c, v). v = Null \<or> value_data_type v = Some (col_data_type c)) (zip (tbl_columns schema) (rvalues r))"

fun op_fits :: "table \<Rightarrow> store_op \<Rightarrow> bool" where
  "op_fits schema (StInsert r) = row_fits schema r"
| "op_fits schema (StUpdate i r) \<longleftrightarrow> row_fits schema r \<and> rid r = i"
| "op_fits schema (StInsertOrReplace r) = row_fits schema r"
| "op_fits schema _ = True"

lemma store_step_refines:
  assumes "represents_table L s tbl" "table_ok L tbl" "op_fits schema op"
  shows "fst (store_step G dbg op s) = fst (spec_step dbg L op tbl)"
    and "represents_table L (snd (store_step G dbg op s)) (snd (spec_step dbg L op tbl))"
    and "table_ok L (snd (spec_step dbg L op tbl))"
proof -
  note rep = assms(1,2)
  have can: "row_fits schema r \<Longrightarrow> canonical_row r" for r by (simp add: row_fits_def)
  have "fst (store_step G dbg op s) = fst (spec_step dbg L op tbl)
    \<and> represents_table L (snd (store_step G dbg op s)) (snd (spec_step dbg L op tbl)) \<and> table_ok L (snd (spec_step dbg L op tbl))"
  proof (cases op)
    case (StInsert r)
    then show ?thesis using rs_insert_refines [OF rep can] assms(3) by simp
  next
    case (StUpdate i r)
    then show ?thesis using rs_update_refines [OF rep can] assms(3) by simp
  next
    case (StInsertOrReplace r)
    then show ?thesis using insert_or_replace_refines [OF rep can] assms(3) by simp
  next
    case (StDelete i)
    then show ?thesis using rs_delete_refines [OF rep] by simp
  next
    case (StDeleteBatch "is")
    then show ?thesis using rs_delete_batch_refines [OF rep] by simp
  next
    case StClear
    then show ?thesis using rs_clear_refines [OF rep(1)] table_ok_empty by simp
  qed
  then show "fst (store_step G dbg op s) = fst (spec_step dbg L op tbl)"
    "represents_table L (snd (store_step G dbg op s)) (snd (spec_step dbg L op tbl))" "table_ok L (snd (spec_step dbg L op tbl))" by auto
qed

lemma run_store_refines:
  assumes "represents_table L s tbl" "table_ok L tbl" "list_all (op_fits schema) ops"
  shows "fst (run_store G dbg ops s) = fst (run_spec dbg L ops tbl) \<and> represents_table L (snd (run_store G dbg ops s)) (snd (run_spec dbg L ops tbl))
    \<and> table_ok L (snd (run_spec dbg L ops tbl))"
  using assms
proof (induction ops arbitrary: s tbl)
  case (Cons op ops)
  have fits: "op_fits schema op" "list_all (op_fits schema) ops" using Cons.prems(3) by simp_all
  note step = store_step_refines(1,2) [OF Cons.prems(1,2) fits(1), where G = G and dbg = dbg] store_step_refines(3) [OF Cons.prems(1,2) fits(1), where dbg = dbg]
  obtain r s' where s': "store_step G dbg op s = (r, s')" by fastforce
  obtain q t' where t': "spec_step dbg L op tbl = (q, t')" by fastforce
  show ?case using step Cons.IH [of s' t'] fits(2) by (simp add: s' t')
qed simp

lemma run_new_refines:
  assumes "list_all (op_fits schema) ops"
  shows "fst (run_store G dbg ops (rs_new G schema)) = fst (run_spec dbg (layout_of schema) ops (\<lambda>_. None))"
    and "represents_table (layout_of schema) (snd (run_store G dbg ops (rs_new G schema))) (snd (run_spec dbg (layout_of schema) ops (\<lambda>_. None)))"
    and "table_ok (layout_of schema) (snd (run_spec dbg (layout_of schema) ops (\<lambda>_. None)))"
  using run_store_refines [OF rs_new_represents table_ok_empty assms] by blast+

text \<open>What a store that represents a table answers.\<close>

lemma represents_reads:
  assumes "represents_table L s tbl"
  shows "rs_get i s = tbl i" "sorted_wrt (<) (rs_row_ids s)" "set (rs_row_ids s) = dom tbl"
    "rs_scan s = map (\<lambda>i. the (tbl i)) (rs_row_ids s)" "rs_len s = card (dom tbl)"
proof -
  have ok: "slots_ok s" "rs_abs s = tbl" using assms by (auto simp: represents_table_def)
  have ids: "rs_row_ids s = map fst (scan_slots s)" by (simp add: rs_row_ids_def scan_slots_def)
  show "rs_get i s = tbl i" using ok(2) by (auto simp: rs_get_def rs_abs_def)
  show sorted: "sorted_wrt (<) (rs_row_ids s)" using ok(1) by (simp add: ids slots_ok_def)
  show dom: "set (rs_row_ids s) = dom tbl"
    using scan_slots_abs [OF ok(1)] ok(2) by (metis dom_map_of_conv_image_fst ids list.set_map)
  have "snd p = the (tbl (fst p))" if "p \<in> set (scan_slots s)" for p
    using that bm_ok_mem [OF scan_slots_bm [OF ok(1)], of "fst p" "snd p"] scan_slots_abs [OF ok(1)] ok(2) by simp
  then show "rs_scan s = map (\<lambda>i. the (tbl i)) (rs_row_ids s)" by (simp add: rs_scan_def rs_row_ids_def scan_slots_def)
  have rows: "bm_ok (rs_rows s)" "dom (map_of (rs_rows s)) = dom tbl"
    using ok(1) rows_abs [OF ok(1)] ok(2) by (simp_all add: slots_ok_def dom_def)
  have "rs_len s = card (fst ` set (rs_rows s))"
    using distinct_card [OF bm_ok_distinct [OF rows(1)]] by (simp add: rs_len_def)
  then show "rs_len s = card (dom tbl)" using rows(2) by (simp add: dom_map_of_conv_image_fst)
qed

section \<open>Properties\<close>

text \<open>
  C1. The row store refines a table. Starting from the store of any schema and for any sequence of inserts,
  updates, insert-or-replace calls, deletions, batch deletions and clears, every call gives the result that
  the specification of a table gives, errors included; afterwards a lookup of a row id finds the row of the
  table, the row ids are listed in ascending order, a scan returns their rows in
  that order, and no two rows share the primary key or the key of a unique index.
\<close>

theorem row_store_refines_table:
  assumes "list_all (op_fits schema) ops"
  shows "\<exists>results s tbl. run_store G dbg ops (rs_new G schema) = (results, s)
    \<and> run_spec dbg (layout_of schema) ops (\<lambda>_. None) = (results, tbl)
    \<and> (\<forall>i. rs_get i s = tbl i) \<and> sorted_wrt (<) (rs_row_ids s) \<and> set (rs_row_ids s) = dom tbl
    \<and> rs_scan s = map (\<lambda>i. the (tbl i)) (rs_row_ids s) \<and> rs_len s = card (dom tbl)
    \<and> (\<forall>pk. table_primary_key schema = Some pk \<and> column_indices schema pk \<noteq> [] \<longrightarrow> keys_unique tbl (key_of (column_indices schema pk)))
    \<and> (\<forall>(n, c, u) \<in> set (ly_keys (layout_of schema)). u \<longrightarrow> keys_unique tbl (key_of c))"
proof -
  note run = run_new_refines(1,2) [OF assms, where G = G and dbg = dbg] run_new_refines(3) [OF assms, where dbg = dbg]
  obtain results s where s: "run_store G dbg ops (rs_new G schema) = (results, s)" by fastforce
  obtain tbl where tbl: "run_spec dbg (layout_of schema) ops (\<lambda>_. None) = (results, tbl)"
    using run(1) s by (metis fst_conv prod.collapse)
  have rep: "represents_table (layout_of schema) s tbl" and ok: "table_ok (layout_of schema) tbl" using run(2,3) s tbl by simp_all
  have "keys_unique tbl (key_of (column_indices schema pk))"
    if "table_primary_key schema = Some pk" "column_indices schema pk \<noteq> []" for pk
    using ok that by (simp add: table_ok_def layout_of_def)
  moreover have "\<forall>(n, c, u) \<in> set (ly_keys (layout_of schema)). u \<longrightarrow> keys_unique tbl (key_of c)"
    using ok unfolding table_ok_def by (elim conjE)
  ultimately show ?thesis using s tbl represents_reads [OF rep] by blast
qed

text \<open>Stores without GIN indices, and a schema for the examples.\<close>

definition no_gin :: "unit gin_ops" where
  "no_gin = \<lparr>gin_new = (), gin_index_value = (\<lambda>_ _ _ _. ()), gin_remove_value = (\<lambda>_ _ _ _. ()), gin_clear = (\<lambda>_. ()),
     gin_apply_bulk = (\<lambda>_ _ _. ())\<rparr>"

definition users :: table where
  "users = (case build_table ''users'' [AddColumn ''id'' TInt64, AddColumn ''email'' TString, AddPrimaryKey [''id''] False,
     AddUnique ''uq'' [''email''], AddIndex ''ix'' [''email'', ''id''] False] of Inr t \<Rightarrow> t)"

definition user :: "row_id \<Rightarrow> i64 \<Rightarrow> string \<Rightarrow> row" where
  "user i n email = row_new i [Int64 n, Str email]"

definition user_ops :: "store_op list" where
  "user_ops = [StInsert (user 1 10 ''a''), StInsert (user 2 20 ''a''), StInsert (user 3 30 ''b''),
     StUpdate 1 (user 1 10 ''b''), StDelete 1, StInsertOrReplace (user 7 30 ''c'')]"

theorem row_store_refines_table_witness:
  "\<exists>results s tbl. run_store no_gin (\<lambda>_. '''') user_ops (rs_new no_gin users) = (results, s)
    \<and> map refused results = [False, True, False, True, False, False]
    \<and> sorted_wrt (<) (rs_row_ids s) \<and> (\<forall>i. rs_get i s = tbl i) \<and> keys_unique tbl (key_of [1])"
proof -
  have fits: "list_all (op_fits users) user_ops" by code_simp
  have refused: "map refused (fst (run_store no_gin (\<lambda>_. '''') user_ops (rs_new no_gin users))) = [False, True, False, True, False, False]"
    by code_simp
  have key: "(''uq'', [1], True) \<in> set (ly_keys (layout_of users))" by code_simp
  show ?thesis using row_store_refines_table [OF fits, of no_gin "\<lambda>_. ''''"] refused key by fastforce
qed

lemma spec_refused:
  assumes "refused (fst (spec_step dbg L op tbl))"
  shows "snd (spec_step dbg L op tbl) = tbl"
proof (cases op)
  case (StInsert r)
  then show ?thesis using assms by (auto simp: spec_insert_def split: option.splits)
next
  case (StUpdate i r)
  then show ?thesis using assms by (auto simp: spec_update_def split: option.splits if_splits)
next
  case (StInsertOrReplace r)
  then show ?thesis using assms
    by (auto simp: spec_insert_or_replace_def spec_insert_def spec_update_def Let_def split: option.splits if_splits)
next
  case (StDelete i)
  then show ?thesis using assms by (auto simp: spec_delete_def split: option.splits)
qed (use assms in auto)

text \<open>
  C5. A write that the store refuses - a row id or a unique key that is taken, a row that is not there -
  leaves no trace: whatever is written afterwards, every call gives the result it would have given without
  the refused one, and the rows are the same. The store gets there by undoing what it did to the indices
  before it met the conflict.
\<close>

theorem refused_write_leaves_no_trace:
  assumes "list_all (op_fits schema) (ops @ op # later)"
    and "refused (fst (store_step G dbg op (snd (run_store G dbg ops (rs_new G schema)))))"
  shows "let s = snd (run_store G dbg ops (rs_new G schema)); t = snd (store_step G dbg op s)
    in fst (run_store G dbg later t) = fst (run_store G dbg later s)
      \<and> (\<forall>i. rs_get i (snd (run_store G dbg later t)) = rs_get i (snd (run_store G dbg later s)))
      \<and> rs_scan (snd (run_store G dbg later t)) = rs_scan (snd (run_store G dbg later s))"
proof -
  let ?s = "snd (run_store G dbg ops (rs_new G schema))" and ?L = "layout_of schema"
  let ?t = "snd (store_step G dbg op ?s)"
  have fits: "list_all (op_fits schema) ops" "op_fits schema op" "list_all (op_fits schema) later" using assms(1) by simp_all
  define tbl where "tbl = snd (run_spec dbg ?L ops (\<lambda>_. None))"
  have rep: "represents_table ?L ?s tbl" and ok: "table_ok ?L tbl"
    using run_new_refines(2,3) [OF fits(1)] by (simp_all add: tbl_def)
  note step = store_step_refines(1,2) [OF rep ok fits(2), where G = G and dbg = dbg]
  have same: "represents_table ?L ?t tbl" using step spec_refused [of dbg ?L op tbl] assms(2) by simp
  note run_s = run_store_refines [OF rep ok fits(3), of G dbg]
  note run_t = run_store_refines [OF same ok fits(3), of G dbg]
  note reads = represents_reads [OF conjunct1 [OF conjunct2 [OF run_s]]] represents_reads [OF conjunct1 [OF conjunct2 [OF run_t]]]
  have "rs_row_ids (snd (run_store G dbg later ?t)) = rs_row_ids (snd (run_store G dbg later ?s))"
    using reads(2,3,7,8) by (metis strict_sorted_equal)
  then show ?thesis using run_s run_t reads(1,4,6,9) by (simp add: Let_def)
qed

theorem refused_write_leaves_no_trace_witness:
  "refused (fst (store_step no_gin (\<lambda>_. '''') (StInsert (user 9 90 ''c'')) (snd (run_store no_gin (\<lambda>_. '''') user_ops (rs_new no_gin users)))))
    \<and> (let s = snd (run_store no_gin (\<lambda>_. '''') user_ops (rs_new no_gin users));
           t = snd (store_step no_gin (\<lambda>_. '''') (StInsert (user 9 90 ''c'')) s)
       in rs_scan (snd (run_store no_gin (\<lambda>_. '''') [StInsert (user 9 90 ''b'')] t))
         = rs_scan (snd (run_store no_gin (\<lambda>_. '''') [StInsert (user 9 90 ''b'')] s)))"
proof -
  have fits: "list_all (op_fits users) (user_ops @ StInsert (user 9 90 ''c'') # [StInsert (user 9 90 ''b'')])" by code_simp
  have taken: "refused (fst (store_step no_gin (\<lambda>_. '''') (StInsert (user 9 90 ''c'')) (snd (run_store no_gin (\<lambda>_. '''') user_ops (rs_new no_gin users)))))"
    by code_simp
  show ?thesis using refused_write_leaves_no_trace [OF fits taken] taken unfolding Let_def by (elim conjE) (intro conjI)
qed

end
