(* ===== verification/Cynos_Row_Scan.thy ===== *)
theory Cynos_Row_Scan
  imports Cynos_Row_Run
begin

text \<open>
  Index scans of a row store: a scan through a secondary index returns exactly the rows that a scan of
  the whole table with the range as a filter returns, ordered by the indexed column. The contract of range
  scans is interpreted on the index stores, and what it says of an index that holds a table is proved once
  from the contract.
\<close>

section \<open>Range scans of an index store\<close>

fun sec_keys :: "secondary_store \<Rightarrow> index_key list" where
  "sec_keys (SecBTree t) = bt_keys t"
| "sec_keys (SecHash h) = hi_keys h"

lemma filter_eq_distinct: "distinct xs \<Longrightarrow> filter (\<lambda>x. x = k) xs = (if k \<in> set xs then [k] else [])"
  by (induction xs) auto

interpretation sec_range: range_index sec_impl sec_inv sec_is_unique sec_keys
proof unfold_locales
  fix i :: secondary_store and rng and r :: "index_key key_range" and limit skip
  assume inv: "sec_inv i"
  note hash = hash_range.keys_sorted hash_range.keys_get hash_range.get_range_all hash_range.get_range_some
  note hash = hash [unfolded hash_impl_simps]
  show "sorted_wrt (<) (sec_keys i)" using inv btree_range.keys_sorted hash(1) by (cases i) simp_all
  show "set (sec_keys i) = {k. ix_get sec_impl k i \<noteq> []}"
    using inv btree_range.keys_get hash(2) by (cases i) (simp_all del: btree_impl_simps)
  show "ix_get_range sec_impl rng False limit skip i = page limit skip (concat (map (\<lambda>k. ix_get sec_impl k i) (sec_keys i)))"
    if rng: "rng = None \<or> rng = Some All"
  proof (cases i)
    case (SecBTree t)
    then show ?thesis using inv btree_range.get_range_all [OF _ rng] by (simp del: btree_impl_simps)
  next
    case (SecHash h)
    have h: "hi_inv h" using inv SecHash by simp
    have "hash_store_get_range rng False limit skip h = hi_get_range rng False limit skip h"
      using rng by (auto simp: hash_store_get_range_def)
    then show ?thesis using hash(3) [OF h rng, of limit skip] SecHash by simp
  qed
  show "ix_get_range sec_impl (Some r) False limit skip i
      = page limit skip (concat (map (\<lambda>k. ix_get sec_impl k i) (filter (kr_contains r) (sec_keys i))))"
  proof (cases i)
    case (SecBTree t)
    then show ?thesis using inv btree_range.get_range_some by (simp del: btree_impl_simps)
  next
    case (SecHash h)
    have h: "hi_inv h" using inv SecHash by simp
    show ?thesis
    proof (cases "\<exists>k. r = Only k")
      case True
      then obtain k where k: "r = Only k" by blast
      have "distinct (hi_keys h)" using hash(1) [OF h] by (simp add: strict_sorted_iff)
      moreover have "kr_contains (Only k) = (\<lambda>x. x = k)" by (simp add: fun_eq_iff)
      ultimately show ?thesis using hash(2) [OF h] by (auto simp: SecHash k hash_store_get_range_def filter_eq_distinct)
    next
      case False
      then show ?thesis using hash(4) [OF h, of r limit skip] by (cases r) (simp_all add: SecHash hash_store_get_range_def)
    qed
  qed
qed

lemma concat_groups:
  fixes f :: "'v \<Rightarrow> 'k::linorder"
  assumes "sorted_wrt (<) ks" "\<And>k. distinct (g k)" "\<And>k v. v \<in> set (g k) \<Longrightarrow> f v = k"
  shows "distinct (concat (map g ks)) \<and> sorted_wrt (\<lambda>v w. f v \<le> f w) (concat (map g ks))"
  using assms(1)
proof (induction ks)
  case (Cons k ks)
  have "sorted_wrt (\<lambda>v w. f v \<le> f w) (g k)" unfolding sorted_wrt_iff_nth_less using assms(3) by (metis nth_mem order_refl less_trans)
  moreover have "k \<noteq> f v" "k \<le> f v" if "v \<in> set (concat (map g ks))" for v
    using that Cons.prems assms(3) by fastforce+
  moreover have "set (g k) \<inter> set (concat (map g ks)) = {}" using calculation(2) assms(3) by blast
  ultimately show ?case using Cons assms(2,3) by (auto simp: sorted_wrt_append simp del: set_concat)
qed simp

context range_index
begin

lemma holds_scan:
  fixes r
  assumes h: "holds i tbl kf"
  defines "ids \<equiv> ix_get_range I (Some r) False None 0 i"
  shows "distinct ids" "set ids = {v. \<exists>q. tbl v = Some q \<and> kr_contains r (kf q)}"
    "sorted_wrt (\<lambda>v w. kf (the (tbl v)) \<le> kf (the (tbl w))) ids"
proof -
  have inv: "inv i" using h by (rule holds_inv)
  let ?ks = "filter (kr_contains r) (keys i)"
  have ids: "ids = concat (map (\<lambda>k. ix_get I k i) ?ks)" unfolding ids_def using get_range_some [OF inv] by (simp add: page_def)
  have sorted: "sorted_wrt (<) ?ks" using keys_sorted [OF inv] by (rule sorted_wrt_filter)
  have dist: "distinct (ix_get I k i)" for k using h by (simp add: holds_def)
  have key: "kf (the (tbl v)) = k" if "v \<in> set (ix_get I k i)" for v k using that holds_get [OF h] by force
  show "distinct ids" "sorted_wrt (\<lambda>v w. kf (the (tbl v)) \<le> kf (the (tbl w))) ids"
    using concat_groups [of ?ks "\<lambda>k. ix_get I k i" "\<lambda>v. kf (the (tbl v))", OF sorted dist key] unfolding ids by blast+
  have "v \<in> set ids \<longleftrightarrow> (\<exists>q. tbl v = Some q \<and> kr_contains r (kf q))" for v
    unfolding ids_def get_range_mem [OF inv] by (auto simp: holds_get [OF h])
  then show "set ids = {v. \<exists>q. tbl v = Some q \<and> kr_contains r (kf q)}" by blast
qed

end

section \<open>Ranges of values\<close>

fun kr_bounds :: "'k key_range \<Rightarrow> 'k list" where
  "kr_bounds All = []"
| "kr_bounds (Only k) = [k]"
| "kr_bounds (LowerBound k _) = [k]"
| "kr_bounds (UpperBound k _) = [k]"
| "kr_bounds (Bound l u _ _) = [l, u]"

lemma scalar_order: "IKScalar v < IKScalar w \<longleftrightarrow> v < w" "IKScalar v \<le> IKScalar w \<longleftrightarrow> v \<le> w"
  by (auto simp: less_index_key_def less_eq_index_key_def less_key_component_def less_eq_key_component_def component_rank_def
      order.order_iff_strict)

lemma kr_contains_scalar: "kr_contains (kr_map IKScalar rng) (IKScalar v) = kr_contains rng v"
  by (cases rng) (simp_all add: scalar_order)

lemma range_contains_comparable:
  "\<forall>b \<in> set (kr_bounds rng). comparable v b \<Longrightarrow> range_contains_by value_eq value_cmp rng v = kr_contains rng v"
  by (cases rng) (auto simp: range_contains_by_def Let_def comparable_cmp ord_cmp_def)

section \<open>The scan\<close>

definition col_value :: "nat \<Rightarrow> row \<Rightarrow> value" where
  "col_value c r = (case row_get r c of Some v \<Rightarrow> v | None \<Rightarrow> Null)"

lemma key_of_single: "key_of [c] r = IKScalar (col_value c r)"
  by (simp add: key_of_def ik_from_row_def ik_from_values_def col_value_def)

lemma map_filter_some: "(\<And>v. v \<in> set vs \<Longrightarrow> f v = Some (g v)) \<Longrightarrow> List.map_filter f vs = map g vs"
  by (induction vs) (simp_all add: List.map_filter_simps)

text \<open>The index of a key of the layout, in a store that represents a table.\<close>

lemma layout_index:
  assumes "represents_table L s tbl" "(n, c, u) \<in> set (ly_keys L)"
  obtains idx where "map_of (rs_secondary_indices s) n = Some idx" "map_of (rs_index_columns s) n = Some c"
    "sec_ix.holds idx tbl (key_of c)"
proof -
  have ix: "rs_index_columns s = names_of L" "distinct (map fst (ly_keys L))"
    "all_indices (index_holds L tbl) (names_of L) (rs_secondary_indices s)" using assms(1) by (auto simp: represents_table_def indexed_def)
  have mem: "(n, c) \<in> set (names_of L)" using assms(2) by (force simp: names_of_def)
  then have "map_of (rs_index_columns s) n = Some c" using names_of_distinct [OF ix(2)] ix(1) by simp
  then show thesis using that all_indices_get [OF ix(3) mem] by (auto simp: index_holds_def)
qed

lemma index_scan_rows:
  assumes rep: "represents_table L s tbl" and key: "(n, [c], u) \<in> set (ly_keys L)"
  obtains ids where "index_scan n (Some rng) s = map (\<lambda>v. the (tbl v)) ids" "distinct ids"
    "set ids = {v. \<exists>r. tbl v = Some r \<and> kr_contains rng (col_value c r)}"
    "sorted_wrt (\<lambda>v w. col_value c (the (tbl v)) \<le> col_value c (the (tbl w))) ids"
proof -
  obtain idx where idx: "map_of (rs_secondary_indices s) n = Some idx" "map_of (rs_index_columns s) n = Some [c]"
    "sec_ix.holds idx tbl (key_of [c])" using layout_index [OF rep key] .
  let ?ids = "sec_get_range (Some (kr_map IKScalar rng)) False None 0 idx"
  note scan = sec_range.holds_scan [OF idx(3), of "kr_map IKScalar rng", unfolded sec_impl_simps key_of_single scalar_order kr_contains_scalar]
  have row: "row_ref_by_id v s = tbl v" for v using rep by (auto simp: represents_table_def rs_abs_def)
  have "index_scan n (Some rng) s = List.map_filter (\<lambda>v. row_ref_by_id v s) ?ids"
    by (simp add: index_scan_def index_scan_with_options_def visit_index_scan_with_options_def idx(1,2) visit_range_index_keys_def
        ik_from_scalar_range_def visit_row_ids)
  also have "\<dots> = map (\<lambda>v. the (tbl v)) ?ids" unfolding row by (rule map_filter_some) (use scan(2) in auto)
  finally show thesis using that scan by blast
qed

text \<open>The columns of an index are columns of the table, and the rows that were written fit.\<close>

lemma column_indices_bound: "i \<in> set (column_indices schema idx) \<Longrightarrow> i < length (tbl_columns schema)"
  by (auto simp: column_indices_def List.map_filter_def get_column_index_def dest: position_Some)

lemma layout_columns:
  assumes "(n, c, u) \<in> set (ly_keys (layout_of schema))" "i \<in> set c"
  shows "i < length (tbl_columns schema)"
proof -
  have "\<forall>i \<in> set c. i < length (tbl_columns schema)"
    if "(n, c, u) \<in> set (fold (key_entry schema) ixs keys)" "bm_ok keys" "\<forall>(n, c, u) \<in> set keys. \<forall>i \<in> set c. i < length (tbl_columns schema)" for ixs keys
    using that
  proof (induction ixs arbitrary: keys)
    case (Cons ix ixs)
    have "bm_ok (key_entry schema ix keys)" using Cons.prems(2) by (simp add: key_entry_def)
    moreover have "\<forall>i \<in> set c'. i < length (tbl_columns schema)" if mem: "(m, c', u') \<in> set (key_entry schema ix keys)" for m c' u'
    proof (cases "id_index_type ix = IxGin \<or> m \<noteq> id_name ix")
      case True
      then have "(m, c', u') \<in> set keys"
        using mem bm_ok_mem [OF Cons.prems(2), of m "(c', u')"] bm_ok_mem [OF bm_ok_insert [OF Cons.prems(2)], of m "(c', u')"]
        by (auto simp: key_entry_def split: if_splits)
      then show ?thesis using Cons.prems(3) by blast
    next
      case False
      then have "c' = column_indices schema ix"
        using mem bm_ok_mem [OF bm_ok_insert [OF Cons.prems(2)], of m "(c', u')" "id_name ix" "(column_indices schema ix, id_unique ix)"]
        by (simp add: key_entry_def)
      then show ?thesis using column_indices_bound by blast
    qed
    ultimately show ?case using Cons.IH [of "key_entry schema ix keys"] Cons.prems(1) by fastforce
  qed auto
  from this [of "tbl_indices schema" "[]"] show ?thesis using assms by (simp add: layout_of_def)
qed

definition table_fits :: "table \<Rightarrow> row_table \<Rightarrow> bool" where
  "table_fits schema tbl \<longleftrightarrow> (\<forall>i r. tbl i = Some r \<longrightarrow> row_fits schema r)"

lemma spec_step_fits:
  assumes "table_fits schema tbl" "op_fits schema op"
  shows "table_fits schema (snd (spec_step dbg L op tbl))"
proof (cases op)
  case (StInsertOrReplace r)
  have "row_fits schema (row_new v (rvalues r))" for v using assms(2) StInsertOrReplace by (simp add: row_fits_def row_new_def canonical_row_def)
  then show ?thesis using assms StInsertOrReplace
    by (auto simp: table_fits_def spec_insert_or_replace_def spec_insert_def spec_update_def Let_def split: option.split)
qed (use assms in \<open>auto simp: table_fits_def spec_insert_def spec_update_def spec_delete_def spec_delete_batch_result without_def split: option.split if_splits\<close>)

lemma run_spec_fits: "table_fits schema tbl \<Longrightarrow> list_all (op_fits schema) ops \<Longrightarrow> table_fits schema (snd (run_spec dbg L ops tbl))"
proof (induction ops arbitrary: tbl)
  case (Cons op ops)
  then show ?case using spec_step_fits [of schema tbl op dbg L] by (cases "spec_step dbg L op tbl") simp
qed simp

definition value_fits :: "table \<Rightarrow> nat \<Rightarrow> value \<Rightarrow> bool" where
  "value_fits schema c v \<longleftrightarrow> canonical v \<and> (v = Null \<or> value_data_type v = Some (col_data_type (tbl_columns schema ! c)))"

lemma row_value_fits: "row_fits schema r \<Longrightarrow> c < length (tbl_columns schema) \<Longrightarrow> value_fits schema c (col_value c r)"
  by (auto simp: row_fits_def canonical_row_def list_all_length value_fits_def col_value_def row_get_def split: option.split)

lemma value_fits_comparable: "value_fits schema c v \<Longrightarrow> value_fits schema c w \<Longrightarrow> comparable v w"
  by (auto simp: value_fits_def comparable_def)

section \<open>Properties\<close>

text \<open>
  C11. A scan through a single-column index is exact. After any sequence of writes on the store of a schema,
  scanning an index forwards with a range whose bounds fit the column returns the rows that a scan of the
  whole table filtered by the range returns, each once, in ascending order of the column.
\<close>

theorem index_scan_exact:
  assumes "list_all (op_fits schema) ops" "(n, [c], u) \<in> set (ly_keys (layout_of schema))"
    and "\<forall>b \<in> set (kr_bounds rng). value_fits schema c b"
  shows "let s = snd (run_store G dbg ops (rs_new G schema)); rows = index_scan n (Some rng) s
    in mset rows = mset (filter (\<lambda>r. row_matches_index_range n (Some rng) r s) (rs_scan s))
      \<and> sorted_wrt (\<lambda>q r. value_cmp (col_value c q) (col_value c r) \<noteq> Greater) rows"
proof -
  let ?L = "layout_of schema" and ?s = "snd (run_store G dbg ops (rs_new G schema))"
  define tbl where "tbl = snd (run_spec dbg ?L ops (\<lambda>_. None))"
  have rep: "represents_table ?L ?s tbl" using run_new_refines(2) [OF assms(1)] by (simp add: tbl_def)
  have fits: "value_fits schema c (col_value c r)" if "tbl i = Some r" for i r
    using run_spec_fits [of schema "\<lambda>_. None" ops dbg ?L] assms(1) that layout_columns [OF assms(2), of c]
    by (auto simp: table_fits_def tbl_def intro: row_value_fits)
  obtain ids where ids: "index_scan n (Some rng) ?s = map (\<lambda>v. the (tbl v)) ids" "distinct ids"
    "set ids = {v. \<exists>r. tbl v = Some r \<and> kr_contains rng (col_value c r)}"
    "sorted_wrt (\<lambda>v w. col_value c (the (tbl v)) \<le> col_value c (the (tbl w))) ids" using index_scan_rows [OF rep assms(2)] .
  have cols: "map_of (rs_index_columns ?s) n = Some [c]" using layout_index [OF rep assms(2)] by metis
  have match: "row_matches_index_range n (Some rng) (the (tbl v)) ?s \<longleftrightarrow> kr_contains rng (col_value c (the (tbl v)))" if row: "tbl v \<noteq> None" for v
  proof -
    obtain r where r: "tbl v = Some r" using row by blast
    have "\<forall>b \<in> set (kr_bounds rng). comparable (col_value c (the (tbl v))) b"
      using value_fits_comparable [OF fits [OF r]] assms(3) r by simp
    then show ?thesis using range_contains_comparable by (simp add: row_matches_index_range_def cols col_value_def)
  qed
  note reads = represents_reads [OF rep]
  let ?P = "\<lambda>v. kr_contains rng (col_value c (the (tbl v)))"
  have "filter (\<lambda>r. row_matches_index_range n (Some rng) r ?s) (rs_scan ?s) = map (\<lambda>v. the (tbl v)) (filter ?P (rs_row_ids ?s))"
    unfolding reads(4) filter_map comp_def using match reads(3) by (intro arg_cong [where f = "map _"] filter_cong refl) auto
  moreover have "mset (filter ?P (rs_row_ids ?s)) = mset ids"
  proof (rule set_eq_iff_mset_eq_distinct [THEN iffD1])
    show "distinct (filter ?P (rs_row_ids ?s))" using reads(2) by (simp add: strict_sorted_iff)
    show "set (filter ?P (rs_row_ids ?s)) = set ids" unfolding ids(3) set_filter reads(3) by auto
  qed (rule ids(2))
  ultimately have "mset (index_scan n (Some rng) ?s) = mset (filter (\<lambda>r. row_matches_index_range n (Some rng) r ?s) (rs_scan ?s))"
    by (simp only: ids(1) mset_map)
  moreover have "sorted_wrt (\<lambda>q r. value_cmp (col_value c q) (col_value c r) \<noteq> Greater) (index_scan n (Some rng) ?s)"
    unfolding ids(1) sorted_wrt_map
  proof (rule sorted_wrt_mono_rel [OF _ ids(4)])
    fix v w assume vw: "v \<in> set ids" "w \<in> set ids" "col_value c (the (tbl v)) \<le> col_value c (the (tbl w))"
    then obtain q r where qr: "tbl v = Some q" "tbl w = Some r" unfolding ids(3) by blast
    then have "comparable (col_value c (the (tbl v))) (col_value c (the (tbl w)))"
      using value_fits_comparable [OF fits [OF qr(1)] fits [OF qr(2)]] by simp
    then show "value_cmp (col_value c (the (tbl v))) (col_value c (the (tbl w))) \<noteq> Greater"
      using vw(3) by (simp add: comparable_cmp ord_cmp_def)
  qed
  ultimately show ?thesis by (simp add: Let_def)
qed

theorem index_scan_exact_witness:
  "let s = snd (run_store no_gin (\<lambda>_. '''') user_ops (rs_new no_gin users))
    in mset (index_scan ''uq'' (Some (LowerBound (Str ''b'') True)) s)
         = mset (filter (\<lambda>r. row_matches_index_range ''uq'' (Some (LowerBound (Str ''b'') True)) r s) (rs_scan s))
       \<and> index_scan ''uq'' (Some (LowerBound (Str ''b'') True)) s = [user 3 30 ''c'']"
proof -
  have fits: "list_all (op_fits users) user_ops" by code_simp
  have key: "(''uq'', [1], True) \<in> set (ly_keys (layout_of users))" by code_simp
  have bounds: "\<forall>b \<in> set (kr_bounds (LowerBound (Str ''b'') True)). value_fits users 1 b" by code_simp
  have rows: "index_scan ''uq'' (Some (LowerBound (Str ''b'') True)) (snd (run_store no_gin (\<lambda>_. '''') user_ops (rs_new no_gin users)))
      = [user 3 30 ''c'']" by code_simp
  show ?thesis using index_scan_exact [OF fits key bounds, where G = no_gin and dbg = "\<lambda>_. ''''"] rows unfolding Let_def by blast
qed

end
