(* ===== verification/Cynos_Transaction.thy ===== *)
theory Cynos_Transaction
  imports Cynos_Row_Run Cynos_Journal
begin

text \<open>
  The table cache (\<open>crates/storage/src/cache.rs\<close>), the rollback of a journal (\<open>journal.rs\<close>) and
  transactions (\<open>transaction.rs\<close>). A mutable reference to a store in the cache is an update of the cache
  at the table's name. A transaction does not isolate: it writes to the stores at once, records every write
  that succeeds, and undoes the records in reverse order when it is rolled back.
\<close>

section \<open>The table cache\<close>

record 'g table_cache =
  tc_tables :: "(string, 'g row_store) btree_map"

definition tc_new :: "'g table_cache" where
  "tc_new = \<lparr>tc_tables = []\<rparr>"

definition get_table :: "string \<Rightarrow> 'g table_cache \<Rightarrow> 'g row_store option" where
  "get_table name C = map_of (tc_tables C) name"

definition put_table :: "string \<Rightarrow> 'g row_store \<Rightarrow> 'g table_cache \<Rightarrow> 'g table_cache" where
  "put_table name store C = C\<lparr>tc_tables := bm_insert name store (tc_tables C)\<rparr>"

definition tc_create_table :: "'g gin_ops \<Rightarrow> table \<Rightarrow> 'g table_cache \<Rightarrow> (db_error + unit) \<times> 'g table_cache" where
  "tc_create_table G schema C =
     (let name = tbl_name schema
      in if map_of (tc_tables C) name \<noteq> None then (Inl (InvalidSchema (''Table already exists: '' @ name)), C)
         else (Inr (), put_table name (rs_new G schema) C))"

definition tc_drop_table :: "string \<Rightarrow> 'g table_cache \<Rightarrow> (db_error + unit) \<times> 'g table_cache" where
  "tc_drop_table name C =
     (if map_of (tc_tables C) name = None then (Inl (TableNotFound name), C)
      else (Inr (), C\<lparr>tc_tables := bm_remove name (tc_tables C)\<rparr>))"

definition table_count :: "'g table_cache \<Rightarrow> nat" where
  "table_count C = length (tc_tables C)"

definition table_names :: "'g table_cache \<Rightarrow> string list" where
  "table_names C = map fst (tc_tables C)"

definition total_row_count :: "'g table_cache \<Rightarrow> nat" where
  "total_row_count C = sum_list (map (\<lambda>(_, t). rs_len t) (tc_tables C))"

definition tc_get_row :: "string \<Rightarrow> row_id \<Rightarrow> 'g table_cache \<Rightarrow> row option" where
  "tc_get_row tbl row_id C = (case map_of (tc_tables C) tbl of Some t \<Rightarrow> rs_get row_id t | None \<Rightarrow> None)"

definition tc_get_many :: "string \<Rightarrow> row_id list \<Rightarrow> 'g table_cache \<Rightarrow> row option list" where
  "tc_get_many tbl row_ids C =
     (case map_of (tc_tables C) tbl of Some store \<Rightarrow> rs_get_many row_ids store | None \<Rightarrow> map (\<lambda>_. None) row_ids)"

definition has_table :: "string \<Rightarrow> 'g table_cache \<Rightarrow> bool" where
  "has_table name C \<longleftrightarrow> map_of (tc_tables C) name \<noteq> None"

definition tc_clear :: "'g gin_ops \<Rightarrow> 'g table_cache \<Rightarrow> 'g table_cache" where
  "tc_clear G C = C\<lparr>tc_tables := map (map_prod id (rs_clear G)) (tc_tables C)\<rparr>"

definition tc_clear_table :: "'g gin_ops \<Rightarrow> string \<Rightarrow> 'g table_cache \<Rightarrow> (db_error + unit) \<times> 'g table_cache" where
  "tc_clear_table G name C =
     (case map_of (tc_tables C) name of
        Some store \<Rightarrow> (Inr (), put_table name (rs_clear G store) C)
      | None \<Rightarrow> (Inl (TableNotFound name), C))"

section \<open>Rollback of a journal\<close>

definition checked_succ :: "u64 \<Rightarrow> u64 option" where
  "checked_succ v = (if v = - 1 then None else Some (v + 1))"

definition version_overflow :: db_error where
  "version_overflow = InvalidOperation ''Cannot rollback update: row version would overflow''"

text \<open>The results of the writes that undo an entry are ignored.\<close>

definition undo_entry ::
  "'g gin_ops \<Rightarrow> (value list \<Rightarrow> string) \<Rightarrow> journal_entry \<Rightarrow> 'g table_cache \<Rightarrow> (db_error + unit) \<times> 'g table_cache" where
  "undo_entry G dbg je C =
     (case je of
        JInsert tbl row_id _ \<Rightarrow>
          (case get_table tbl C of
             Some store \<Rightarrow> (Inr (), put_table tbl (snd (rs_delete G row_id store)) C)
           | None \<Rightarrow> (Inr (), C))
      | JUpdate tbl row_id old new \<Rightarrow>
          (case get_table tbl C of
             Some store \<Rightarrow>
               (case checked_succ (rversion new) of
                  None \<Rightarrow> (Inl version_overflow, C)
                | Some rollback_version \<Rightarrow>
                    let rollback_row = row_new_with_version (rid old) rollback_version (rvalues old)
                    in (Inr (), put_table tbl (snd (rs_update G dbg row_id rollback_row store)) C))
           | None \<Rightarrow> (Inr (), C))
      | JDelete tbl _ row \<Rightarrow>
          (case get_table tbl C of
             Some store \<Rightarrow> (Inr (), put_table tbl (snd (rs_insert G dbg row store)) C)
           | None \<Rightarrow> (Inr (), C)))"

fun undo_entries ::
  "'g gin_ops \<Rightarrow> (value list \<Rightarrow> string) \<Rightarrow> journal_entry list \<Rightarrow> 'g table_cache \<Rightarrow> (db_error + unit) \<times> 'g table_cache" where
  "undo_entries G dbg [] C = (Inr (), C)"
| "undo_entries G dbg (je # jes) C =
     (case undo_entry G dbg je C of
        (Inl e, C) \<Rightarrow> (Inl e, C)
      | (Inr _, C) \<Rightarrow> undo_entries G dbg jes C)"

definition journal_rollback ::
  "'g gin_ops \<Rightarrow> (value list \<Rightarrow> string) \<Rightarrow> journal \<Rightarrow> 'g table_cache \<Rightarrow> (db_error + unit) \<times> journal \<times> 'g table_cache" where
  "journal_rollback G dbg j C =
     (case undo_entries G dbg (rev (j_entries j)) C of
        (Inl e, C) \<Rightarrow> (Inl e, j, C)
      | (Inr _, C) \<Rightarrow> (Inr (), journal_clear j, C))"

section \<open>Transactions\<close>

datatype tx_state = TxActive | TxCommitted | TxRolledBack

record transaction =
  tx_id :: u64
  tx_journal :: journal
  tx_state :: tx_state

text \<open>The global counter goes in and out.\<close>

definition tx_begin :: "u64 \<Rightarrow> transaction \<times> u64" where
  "tx_begin ctr = (\<lparr>tx_id = ctr, tx_journal = journal_new, tx_state = TxActive\<rparr>, ctr + 1)"

definition tx_is_active :: "transaction \<Rightarrow> bool" where
  "tx_is_active t \<longleftrightarrow> tx_state t = TxActive"

definition not_active :: db_error where
  "not_active = InvalidOperation ''Transaction is not active''"

definition check_active :: "transaction \<Rightarrow> db_error + unit" where
  "check_active t = (if tx_state t \<noteq> TxActive then Inl not_active else Inr ())"

definition tx_record :: "(journal \<Rightarrow> journal) \<Rightarrow> transaction \<Rightarrow> transaction" where
  "tx_record f t = t\<lparr>tx_journal := f (tx_journal t)\<rparr>"

definition tx_insert ::
  "'g gin_ops \<Rightarrow> (value list \<Rightarrow> string) \<Rightarrow> string \<Rightarrow> row \<Rightarrow> 'g table_cache \<times> transaction
    \<Rightarrow> (db_error + row_id) \<times> 'g table_cache \<times> transaction" where
  "tx_insert G dbg tbl row = (\<lambda>(C, t).
     case check_active t of
       Inl e \<Rightarrow> (Inl e, C, t)
     | Inr _ \<Rightarrow>
         case get_table tbl C of
           None \<Rightarrow> (Inl (TableNotFound tbl), C, t)
         | Some store \<Rightarrow>
             case rs_insert G dbg row store of
               (Inl e, store) \<Rightarrow> (Inl e, put_table tbl store C, t)
             | (Inr row_id, store) \<Rightarrow> (Inr row_id, put_table tbl store C, tx_record (record_insert tbl row) t))"

definition tx_update ::
  "'g gin_ops \<Rightarrow> (value list \<Rightarrow> string) \<Rightarrow> string \<Rightarrow> row_id \<Rightarrow> row \<Rightarrow> 'g table_cache \<times> transaction
    \<Rightarrow> (db_error + unit) \<times> 'g table_cache \<times> transaction" where
  "tx_update G dbg tbl row_id new_row = (\<lambda>(C, t).
     case check_active t of
       Inl e \<Rightarrow> (Inl e, C, t)
     | Inr _ \<Rightarrow>
         case get_table tbl C of
           None \<Rightarrow> (Inl (TableNotFound tbl), C, t)
         | Some store \<Rightarrow>
             case rs_get row_id store of
               None \<Rightarrow> (Inl (NotFound tbl (Int64 (ucast row_id))), C, t)
             | Some old_row \<Rightarrow>
                 case rs_update G dbg row_id new_row store of
                   (Inl e, store) \<Rightarrow> (Inl e, put_table tbl store C, t)
                 | (Inr _, store) \<Rightarrow> (Inr (), put_table tbl store C, tx_record (record_update tbl old_row new_row) t))"

definition tx_delete ::
  "'g gin_ops \<Rightarrow> string \<Rightarrow> row_id \<Rightarrow> 'g table_cache \<times> transaction
    \<Rightarrow> (db_error + row) \<times> 'g table_cache \<times> transaction" where
  "tx_delete G tbl row_id = (\<lambda>(C, t).
     case check_active t of
       Inl e \<Rightarrow> (Inl e, C, t)
     | Inr _ \<Rightarrow>
         case get_table tbl C of
           None \<Rightarrow> (Inl (TableNotFound tbl), C, t)
         | Some store \<Rightarrow>
             case rs_delete G row_id store of
               (Inl e, store) \<Rightarrow> (Inl e, put_table tbl store C, t)
             | (Inr row, store) \<Rightarrow> (Inr row, put_table tbl store C, tx_record (record_delete tbl row) t))"

text \<open>\<open>commit\<close> and \<open>rollback\<close> consume the transaction.\<close>

definition tx_commit :: "transaction \<Rightarrow> db_error + journal_entry list" where
  "tx_commit t =
     (case check_active t of
        Inl e \<Rightarrow> Inl e
      | Inr _ \<Rightarrow> let t = t\<lparr>tx_state := TxCommitted\<rparr> in Inr (fst (journal_commit (tx_journal t))))"

definition tx_rollback ::
  "'g gin_ops \<Rightarrow> (value list \<Rightarrow> string) \<Rightarrow> transaction \<Rightarrow> 'g table_cache \<Rightarrow> (db_error + unit) \<times> 'g table_cache" where
  "tx_rollback G dbg t C =
     (case check_active t of
        Inl e \<Rightarrow> (Inl e, C)
      | Inr _ \<Rightarrow>
          let t = t\<lparr>tx_state := TxRolledBack\<rparr>
          in case journal_rollback G dbg (tx_journal t) C of (r, _, C) \<Rightarrow> (r, C))"

definition tx_get_changes :: "transaction \<Rightarrow> journal_entry list" where
  "tx_get_changes t = j_entries (tx_journal t)"

text \<open>A sequence of writes in a transaction, and whether every one of them is refused or not.\<close>

datatype tx_op =
    TxInsert string row
  | TxUpdate string row_id row
  | TxDelete string row_id

fun tx_step ::
  "'g gin_ops \<Rightarrow> (value list \<Rightarrow> string) \<Rightarrow> tx_op \<Rightarrow> 'g table_cache \<times> transaction
    \<Rightarrow> store_result \<times> 'g table_cache \<times> transaction" where
  "tx_step G dbg (TxInsert tbl row) st = map_prod GotId id (tx_insert G dbg tbl row st)"
| "tx_step G dbg (TxUpdate tbl row_id row) st = map_prod GotUnit id (tx_update G dbg tbl row_id row st)"
| "tx_step G dbg (TxDelete tbl row_id) st = map_prod GotRow id (tx_delete G tbl row_id st)"

fun tx_run ::
  "'g gin_ops \<Rightarrow> (value list \<Rightarrow> string) \<Rightarrow> tx_op list \<Rightarrow> 'g table_cache \<times> transaction
    \<Rightarrow> store_result list \<times> 'g table_cache \<times> transaction" where
  "tx_run G dbg [] st = ([], st)"
| "tx_run G dbg (op # ops) st =
     (case tx_step G dbg op st of (r, st) \<Rightarrow> map_prod (Cons r) id (tx_run G dbg ops st))"

end
