(* ===== verification/Cynos_Tx_Rollback.thy ===== *)
theory Cynos_Tx_Rollback
  imports Cynos_Transaction
begin

text \<open>
  What transactions promise. The tables of a cache are related to an abstract database, the map of tables the
  journal's lemmas speak of; every write of a transaction records the entry that describes what it did there,
  and undoing an entry on tables with the same contents gives the contents before it. Contents are ids and
  values: the undo of an update leaves a later version behind.
\<close>

section \<open>The database in a cache\<close>

definition schema_named :: "table list \<Rightarrow> string \<Rightarrow> table option" where
  "schema_named schemas name = find (\<lambda>s. tbl_name s = name) schemas"

definition table_rep :: "table option \<Rightarrow> 'g row_store option \<Rightarrow> abs_table \<Rightarrow> bool" where
  "table_rep schema store tbl \<longleftrightarrow>
     (case schema of
        None \<Rightarrow> store = None \<and> tbl = (\<lambda>_. None)
      | Some sc \<Rightarrow> table_ok (layout_of sc) tbl \<and> (\<exists>s. store = Some s \<and> represents_table (layout_of sc) s tbl))"

definition cache_rep :: "table list \<Rightarrow> abs_db \<Rightarrow> 'g table_cache \<Rightarrow> bool" where
  "cache_rep schemas db C \<longleftrightarrow> (\<forall>name. table_rep (schema_named schemas name) (get_table name C) (db name))"

lemma get_put_table [simp]: "get_table name (put_table n s C) = (if name = n then Some s else get_table name C)"
  by (simp add: get_table_def put_table_def)

lemma cache_repE:
  assumes "cache_rep schemas db C"
  obtains "get_table name C = None" "schema_named schemas name = None" "db name = (\<lambda>_. None)"
  | s sc where "get_table name C = Some s" "schema_named schemas name = Some sc"
      "represents_table (layout_of sc) s (db name)" "table_ok (layout_of sc) (db name)"
  using assms unfolding cache_rep_def table_rep_def by (force split: option.splits)

lemma cache_rep_put:
  assumes "cache_rep schemas db C" "schema_named schemas name = Some sc"
    and "represents_table (layout_of sc) s tbl" "table_ok (layout_of sc) tbl"
  shows "cache_rep schemas (db(name := tbl)) (put_table name s C)"
  using assms by (auto simp: cache_rep_def table_rep_def)

definition open_cache :: "'g gin_ops \<Rightarrow> table list \<Rightarrow> 'g table_cache" where
  "open_cache G schemas = foldl (\<lambda>C s. snd (tc_create_table G s C)) tc_new schemas"

lemma open_cache_rep: "cache_rep schemas (\<lambda>_ _. None) (open_cache G schemas)"
proof (induction schemas rule: rev_induct)
  case Nil
  show ?case by (simp add: cache_rep_def table_rep_def schema_named_def open_cache_def tc_new_def get_table_def)
next
  case (snoc sc schemas)
  have named: "schema_named (schemas @ [sc]) n = (case schema_named schemas n of Some s \<Rightarrow> Some s | None \<Rightarrow> if tbl_name sc = n then Some sc else None)" for n
    by (induction schemas) (auto simp: schema_named_def)
  have step: "open_cache G (schemas @ [sc]) = snd (tc_create_table G sc (open_cache G schemas))" by (simp add: open_cache_def)
  show ?case
  proof (cases rule: cache_repE [OF snoc, of "tbl_name sc"])
    case 1
    then have "open_cache G (schemas @ [sc]) = put_table (tbl_name sc) (rs_new G sc) (open_cache G schemas)"
      by (simp add: step tc_create_table_def get_table_def)
    moreover have "table_rep (Some sc) (Some (rs_new G sc)) (\<lambda>_. None)"
      using rs_new_represents [of sc G] table_ok_empty by (simp add: table_rep_def)
    ultimately show ?thesis using snoc 1(2) unfolding cache_rep_def named
      by (simp split: option.split) (metis option.distinct(1) option.inject)
  next
    case 2
    then have "open_cache G (schemas @ [sc]) = open_cache G schemas" by (simp add: step tc_create_table_def get_table_def)
    moreover have "schema_named (schemas @ [sc]) n = schema_named schemas n" for n
      using 2(2) by (auto simp: named split: option.split)
    ultimately show ?thesis using snoc by (simp add: cache_rep_def)
  qed
qed

text \<open>What a reader of the cache sees.\<close>

lemma cache_reads:
  assumes "cache_rep schemas db C"
  shows "tc_get_row tbl i C = db tbl i"
  by (cases rule: cache_repE [OF assms, of tbl])
    (auto simp: tc_get_row_def represents_reads(1) get_table_def [symmetric])

section \<open>Contents\<close>

definition contents :: "abs_table \<Rightarrow> row_id \<Rightarrow> (row_id \<times> value list) option" where
  "contents tbl i = map_option (\<lambda>r. (rid r, rvalues r)) (tbl i)"

definition db_contents :: "abs_db \<Rightarrow> string \<Rightarrow> row_id \<Rightarrow> (row_id \<times> value list) option" where
  "db_contents db name = contents (db name)"

lemma contents_eqD:
  assumes "contents t = contents t'"
  shows "t i = None \<longleftrightarrow> t' i = None" "t i = Some r \<Longrightarrow> \<exists>r'. t' i = Some r' \<and> rid r' = rid r \<and> rvalues r' = rvalues r"
  using fun_cong [OF assms, of i] by (auto simp: contents_def map_option_case split: option.splits)

lemma contents_upd: "contents (t(i := x)) = (contents t)(i := map_option (\<lambda>r. (rid r, rvalues r)) x)"
  by (auto simp: contents_def)

lemma key_of_values: "rvalues r = rvalues q \<Longrightarrow> key_of c r = key_of c q"
  by (simp add: key_of_def ik_from_row_def row_get_def cong: if_cong)

text \<open>A row that was in a table whose keys are unique is in no conflict with a table of the same other contents.\<close>

lemma returns_without_conflict:
  assumes "keys_unique b kf" "b i = Some old" "contents (t(i := x)) = contents (b(i := x))"
    and "\<And>r q. rvalues r = rvalues q \<Longrightarrow> kf r = kf q"
    and "t v = Some q" "kf q = kf old"
  shows "v = i"
proof (rule ccontr)
  assume "v \<noteq> i"
  then obtain q' where "b v = Some q'" "rvalues q' = rvalues q"
    using contents_eqD(2) [OF assms(3), of v q] assms(5) by auto
  then show False using assms(1,2,4,6) \<open>v \<noteq> i\<close> unfolding keys_unique_def by metis
qed

lemma no_conflict:
  assumes "table_ok L b" "b i = Some old" "contents (t(i := x)) = contents (b(i := x))" "rvalues r = rvalues old"
  shows "ly_pk L \<noteq> [] \<Longrightarrow> t v = Some q \<Longrightarrow> key_of (ly_pk L) q = key_of (ly_pk L) r \<Longrightarrow> v = i"
    and "(n, c, True) \<in> set (ly_keys L) \<Longrightarrow> t v = Some q \<Longrightarrow> key_of c q = key_of c r \<Longrightarrow> v = i"
proof -
  have key: "v = i" if "keys_unique b (key_of c)" "t v = Some q" "key_of c q = key_of c r" for c
  proof (rule returns_without_conflict)
    show "key_of c q = key_of c old" using that(3) key_of_values [OF assms(4)] by simp
  qed (rule that assms key_of_values; assumption?)+
  show "ly_pk L \<noteq> [] \<Longrightarrow> t v = Some q \<Longrightarrow> key_of (ly_pk L) q = key_of (ly_pk L) r \<Longrightarrow> v = i"
    by (rule key) (use assms(1) in \<open>auto simp: table_ok_def\<close>)
  show "(n, c, True) \<in> set (ly_keys L) \<Longrightarrow> t v = Some q \<Longrightarrow> key_of c q = key_of c r \<Longrightarrow> v = i"
    by (rule key) (use assms(1) in \<open>auto simp: table_ok_def\<close>)
qed

lemma undo_insert:
  assumes "contents t = contents (b(i \<mapsto> r))" "b i = None"
  shows "contents (snd (spec_delete L i t)) = contents b"
proof -
  have b: "b(i := None) = b" using assms(2) by auto
  obtain q where "t i = Some q" using contents_eqD(2) [OF assms(1) [symmetric], of i r] by auto
  then have "snd (spec_delete L i t) = t(i := None)" by (simp add: spec_delete_def)
  moreover have "contents (t(i := None)) = contents (b(i := None))" by (simp add: contents_upd assms(1))
  ultimately show ?thesis using b by simp
qed

lemma undo_delete:
  assumes "contents t = contents (b(i := None))" "b i = Some r" "table_ok L b"
  shows "contents (snd (spec_insert dbg L r t)) = contents b"
proof -
  have i: "rid r = i" using assms(2,3) by (simp add: table_ok_def)
  have free: "t i = None" using contents_eqD(1) [OF assms(1), of i] by simp
  have others: "contents (t(i := None)) = contents (b(i := None))" using assms(1) by (simp add: contents_upd)
  note no = no_conflict [OF assms(3,2) others refl]
  have pk: "\<not> pk_conflict L t r" using no(1) free by (auto simp: pk_conflict_def key_taken_def)
  have keys: "find (key_conflict t r) (ly_keys L) = None"
    unfolding find_None_iff using no(2) free by (auto simp: key_conflict_def key_taken_def)
  have "contents (snd (spec_insert dbg L r t)) = contents (t(i \<mapsto> r))" using i free pk keys by (simp add: spec_insert_def)
  also have "contents (t(i \<mapsto> r)) = contents ((b(i := None))(i \<mapsto> r))" unfolding contents_upd assms(1) ..
  also have "(b(i := None))(i \<mapsto> r) = b" using assms(2) by auto
  finally show ?thesis .
qed

lemma undo_update:
  assumes "contents t = contents (b(i \<mapsto> new))" "b i = Some old" "table_ok L b" "rid r = rid old" "rvalues r = rvalues old"
  shows "contents (snd (spec_update dbg L i r t)) = contents b"
proof -
  obtain q where q: "t i = Some q" using contents_eqD(2) [OF assms(1) [symmetric], of i new] by auto
  have others: "contents (t(i := Some r)) = contents (b(i := Some r))" using assms(1) by (simp add: contents_upd)
  note no = no_conflict [OF assms(3,2) others assms(5)]
  have pk: "\<not> (key_of (ly_pk L) q \<noteq> key_of (ly_pk L) r \<and> pk_conflict L t r)"
    using no(1) q by (auto simp: pk_conflict_def key_taken_def)
  have keys: "find (moved_conflict t q r) (ly_keys L) = None"
    unfolding find_None_iff using no(2) q by (fastforce simp: moved_conflict_def key_conflict_def key_taken_def)
  have "snd (spec_update dbg L i r t) = t(i \<mapsto> r)" unfolding spec_update_def by (simp only: q pk keys option.case if_False snd_conv)
  moreover have "contents (b(i \<mapsto> r)) = contents b" using assms(2,4,5) by (auto simp: contents_def)
  ultimately show ?thesis using others by simp
qed

section \<open>Undoing the entries of a journal\<close>

definition db_ok :: "table list \<Rightarrow> abs_db \<Rightarrow> bool" where
  "db_ok schemas db \<longleftrightarrow> (\<forall>name sc. schema_named schemas name = Some sc \<longrightarrow> table_ok (layout_of sc) (db name))"

lemma cache_rep_db_ok:
  assumes "cache_rep schemas db C"
  shows "db_ok schemas db"
  unfolding db_ok_def
proof (intro allI impI)
  fix name sc
  assume "schema_named schemas name = Some sc"
  then show "table_ok (layout_of sc) (db name)" by (cases rule: cache_repE [OF assms, of name]) auto
qed

text \<open>The new version of an update can be followed by another one.\<close>

fun version_room :: "journal_entry \<Rightarrow> bool" where
  "version_room (JUpdate _ _ _ new) \<longleftrightarrow> rversion new \<noteq> - 1"
| "version_room _ \<longleftrightarrow> True"

definition undoable :: "table list \<Rightarrow> abs_db \<Rightarrow> journal_entry \<Rightarrow> bool" where
  "undoable schemas b e \<longleftrightarrow> db_ok schemas b \<and> entry_valid e b \<and> version_room e \<and> schema_named schemas (je_table e) \<noteq> None"

lemma db_contents_upd: "db_contents (db(name := t)) = (db_contents db)(name := contents t)"
  by (auto simp: db_contents_def)

lemma undo_table:
  assumes rep: "cache_rep schemas db C" and eq: "db_contents db = db_contents (b(name := t))"
    and named: "schema_named schemas name = Some sc"
    and repr: "represents_table (layout_of sc) s' tbl'" "table_ok (layout_of sc) tbl'"
    and undo: "contents (db name) = contents t \<Longrightarrow> contents tbl' = contents (b name)"
  shows "\<exists>db'. cache_rep schemas db' (put_table name s' C) \<and> db_contents db' = db_contents b"
proof -
  have "contents (db name) = contents t" using fun_cong [OF eq, of name] by (simp add: db_contents_def)
  then have "contents tbl' = contents (b name)" by (rule undo)
  moreover have "(db_contents db)(name := contents (b name)) = (db_contents b)(name := contents (b name))"
    using eq by (simp add: db_contents_upd)
  ultimately have "db_contents (db(name := tbl')) = db_contents b"
    by (simp add: db_contents_upd) (simp add: db_contents_def fun_eq_iff)
  then show ?thesis using cache_rep_put [OF rep named repr] by blast
qed

lemma undo_entry_step:
  fixes G :: "'g gin_ops"
  assumes rep: "cache_rep schemas db C" and eq: "db_contents db = db_contents (entry_apply e b)" and can: "undoable schemas b e"
  shows "\<exists>C' db'. undo_entry G dbg e C = (Inr (), C') \<and> cache_rep schemas db' C' \<and> db_contents db' = db_contents b"
proof -
  obtain sc s where sc: "schema_named schemas (je_table e) = Some sc" and s: "get_table (je_table e) C = Some s"
    and repr: "represents_table (layout_of sc) s (db (je_table e))" "table_ok (layout_of sc) (db (je_table e))"
    using can by (cases rule: cache_repE [OF rep, of "je_table e"]) (auto simp: undoable_def)
  have ok: "table_ok (layout_of sc) (b (je_table e))" using can sc by (simp add: undoable_def db_ok_def)
  have canon: "canonical_row r" if "b (je_table e) i = Some r" for i r using ok that by (auto simp: table_ok_def)
  have valid: "entry_valid e b" "version_room e" using can by (auto simp: undoable_def)
  note undone = undo_table [OF rep eq [unfolded entry_apply_def] sc]
  show ?thesis
  proof (cases e)
    case (JInsert tbl i r)
    note del = rs_delete_refines(2) [OF repr, of G i] rs_delete_refines(3) [OF repr, of i]
    show ?thesis using undone [OF del] undo_insert valid(1) s JInsert by (auto simp: undo_entry_def)
  next
    case (JUpdate tbl i old new)
    define r where "r = row_new_with_version (rid old) (rversion new + 1) (rvalues old)"
    have r: "rid r = rid old" "rvalues r = rvalues old" by (simp_all add: r_def row_new_with_version_def)
    have old: "b tbl i = Some old" "rid old = i" using valid(1) JUpdate by simp_all
    have "canonical_row r" using canon [of i old] old JUpdate r(2) by (simp add: canonical_row_def)
    note upd = rs_update_refines(2) [OF repr this, where G = G and dbg = dbg and i = i] rs_update_refines(3) [OF repr this, where dbg = dbg and i = i]
    have "contents (db tbl) = contents ((b tbl)(i \<mapsto> new))
      \<Longrightarrow> contents (snd (spec_update dbg (layout_of sc) i r (db tbl))) = contents (b tbl)"
      using undo_update [where b = "b tbl" and i = i and t = "db tbl" and old = old] old(1) ok JUpdate r by simp
    then show ?thesis using undone [OF upd] s JUpdate r(1) old(2) valid(2)
      by (auto simp: undo_entry_def checked_succ_def r_def)
  next
    case (JDelete tbl i r)
    have old: "b tbl i = Some r" using valid(1) JDelete by simp
    have "canonical_row r" using canon [of i r] old JDelete by simp
    note ins = rs_insert_refines(2) [OF repr this, where G = G and dbg = dbg] rs_insert_refines(3) [OF repr this, where dbg = dbg]
    have "contents (db tbl) = contents ((b tbl)(i := None))
      \<Longrightarrow> contents (snd (spec_insert dbg (layout_of sc) r (db tbl))) = contents (b tbl)"
      using undo_delete [where b = "b tbl" and i = i and t = "db tbl"] old ok JDelete by simp
    then show ?thesis using undone [OF ins] old s JDelete by (auto simp: undo_entry_def)
  qed
qed

text \<open>Every entry of a list can be undone on what the entries before it made of the database.\<close>

fun all_undoable :: "table list \<Rightarrow> abs_db \<Rightarrow> journal_entry list \<Rightarrow> bool" where
  "all_undoable schemas b [] \<longleftrightarrow> True"
| "all_undoable schemas b (e # es) \<longleftrightarrow> undoable schemas b e \<and> all_undoable schemas (entry_apply e b) es"

lemma all_undoable_snoc:
  "all_undoable schemas b (es @ [e]) \<longleftrightarrow> all_undoable schemas b es \<and> undoable schemas (entries_apply es b) e"
  by (induction es arbitrary: b) (auto simp: entries_apply_def)

lemma undo_entries_restore:
  fixes G :: "'g gin_ops"
  assumes "cache_rep schemas db C" "db_contents db = db_contents (entries_apply es b)" "all_undoable schemas b es"
  shows "\<exists>C' db'. undo_entries G dbg (rev es) C = (Inr (), C') \<and> cache_rep schemas db' C' \<and> db_contents db' = db_contents b"
  using assms
proof (induction es arbitrary: C db rule: rev_induct)
  case (snoc e es)
  have "db_contents db = db_contents (entry_apply e (entries_apply es b))" using snoc.prems(2) by (simp add: entries_apply_def)
  moreover have "undoable schemas (entries_apply es b) e" "all_undoable schemas b es"
    using snoc.prems(3) by (simp_all add: all_undoable_snoc)
  ultimately obtain C' db' where step: "undo_entry G dbg e C = (Inr (), C')" "cache_rep schemas db' C'"
      "db_contents db' = db_contents (entries_apply es b)"
    using undo_entry_step [OF snoc.prems(1), of e "entries_apply es b" G dbg] by blast
  then show ?case using snoc.IH [OF step(2,3) \<open>all_undoable schemas b es\<close>] by simp
qed (auto simp: entries_apply_def)

section \<open>Runs of a transaction\<close>

text \<open>The rows that are written fit the schema of their table, and an update keeps the row's id.\<close>

definition fits_table :: "table list \<Rightarrow> string \<Rightarrow> row \<Rightarrow> bool" where
  "fits_table schemas tbl r = (case schema_named schemas tbl of Some sc \<Rightarrow> row_fits sc r | None \<Rightarrow> True)"

fun tx_fits :: "table list \<Rightarrow> tx_op \<Rightarrow> bool" where
  "tx_fits schemas (TxInsert tbl r) = fits_table schemas tbl r"
| "tx_fits schemas (TxUpdate tbl i r) \<longleftrightarrow> fits_table schemas tbl r \<and> rid r = i"
| "tx_fits schemas (TxDelete tbl i) = True"

fun tx_version_room :: "tx_op \<Rightarrow> bool" where
  "tx_version_room (TxUpdate tbl i r) \<longleftrightarrow> rversion r \<noteq> - 1"
| "tx_version_room _ \<longleftrightarrow> True"

text \<open>A running transaction: its journal has the entries that lead from the database it began with to the one in
  the cache.\<close>

definition tx_inv :: "table list \<Rightarrow> abs_db \<Rightarrow> 'g table_cache \<Rightarrow> transaction \<Rightarrow> bool" where
  "tx_inv schemas b C t \<longleftrightarrow> tx_state t = TxActive
     \<and> (let es = j_entries (tx_journal t)
        in cache_rep schemas (entries_apply es b) C \<and> entries_valid es b \<and> tx_journal t = fold record_entry es journal_new)"

lemma entries_valid_snoc: "entries_valid (es @ [e]) b \<longleftrightarrow> entries_valid es b \<and> entry_valid e (entries_apply es b)"
  by (induction es arbitrary: b) (auto simp: entries_apply_def)

lemma tx_inv_record:
  assumes inv: "tx_inv schemas b C t" and valid: "entry_valid e (entries_apply (j_entries (tx_journal t)) b)"
    and rep: "cache_rep schemas (entry_apply e (entries_apply (j_entries (tx_journal t)) b)) C'"
  shows "tx_inv schemas b C' (tx_record (record_entry e) t)"
    and "j_entries (tx_journal (tx_record (record_entry e) t)) = j_entries (tx_journal t) @ [e]"
proof -
  show es: "j_entries (tx_journal (tx_record (record_entry e) t)) = j_entries (tx_journal t) @ [e]"
    using record_entry_entries [OF valid] by (simp add: tx_record_def)
  then show "tx_inv schemas b C' (tx_record (record_entry e) t)"
    using inv valid rep unfolding tx_inv_def Let_def es by (simp add: entries_valid_snoc entries_apply_def tx_record_def)
qed

text \<open>A write either is refused and changes nothing or is the application of the entry it records.\<close>

definition tx_stepped :: "table list \<Rightarrow> abs_db \<Rightarrow> tx_op \<Rightarrow> transaction \<Rightarrow> store_result \<times> 'g table_cache \<times> transaction \<Rightarrow> bool" where
  "tx_stepped schemas b op t = (\<lambda>(r, C', t'). tx_inv schemas b C' t'
     \<and> (if refused r then tx_journal t' = tx_journal t
        else \<exists>e. j_entries (tx_journal t') = j_entries (tx_journal t) @ [e]
          \<and> (tx_version_room op \<longrightarrow> undoable schemas (entries_apply (j_entries (tx_journal t)) b) e)))"

lemma tx_stepped_refused:
  assumes "tx_inv schemas b C t" "refused r" "cache_rep schemas (entries_apply (j_entries (tx_journal t)) b) C'"
  shows "tx_stepped schemas b op t (r, C', t)"
  using assms by (simp add: tx_stepped_def tx_inv_def Let_def)

lemma tx_stepped_recorded:
  assumes inv: "tx_inv schemas b C t" and "\<not> refused r" and named: "schema_named schemas name = Some sc"
    and e: "entry_valid e (entries_apply (j_entries (tx_journal t)) b)" "je_table e = name" "tx_version_room op \<longrightarrow> version_room e"
    and store: "represents_table (layout_of sc) s' tbl'" "table_ok (layout_of sc) tbl'"
    and tbl': "tbl' = (entries_apply (j_entries (tx_journal t)) b name)(je_row_id e := entry_cell e)"
  shows "tx_stepped schemas b op t (r, put_table name s' C, tx_record (record_entry e) t)"
proof -
  have rep: "cache_rep schemas (entries_apply (j_entries (tx_journal t)) b) C" using inv by (simp add: tx_inv_def Let_def)
  have "cache_rep schemas (entry_apply e (entries_apply (j_entries (tx_journal t)) b)) (put_table name s' C)"
    using cache_rep_put [OF rep named store] by (simp add: entry_apply_def e(2) tbl')
  note tx_inv_record [OF inv e(1) this]
  then show ?thesis using assms(2) e named cache_rep_db_ok [OF rep] by (auto simp: tx_stepped_def undoable_def)
qed

lemma spec_insert_result:
  "(\<exists>e. spec_insert dbg L r tbl = (Inl e, tbl)) \<or> (tbl (rid r) = None \<and> spec_insert dbg L r tbl = (Inr (rid r), tbl(rid r \<mapsto> r)))"
  by (simp add: spec_insert_def split: option.split)

lemma spec_update_result:
  "(\<exists>e. spec_update dbg L i r tbl = (Inl e, tbl)) \<or> (tbl i \<noteq> None \<and> spec_update dbg L i r tbl = (Inr (), tbl(i \<mapsto> r)))"
  by (simp add: spec_update_def split: option.split)

lemma spec_delete_result:
  "(\<exists>e. spec_delete L i tbl = (Inl e, tbl)) \<or> (\<exists>r. tbl i = Some r \<and> spec_delete L i tbl = (Inr r, tbl(i := None)))"
  by (simp add: spec_delete_def split: option.split)

text \<open>The three writes, on a table that is there.\<close>

lemma tx_stepped_put:
  assumes "tx_inv schemas b C t" "refused r" "schema_named schemas name = Some sc"
    and "represents_table (layout_of sc) s' (entries_apply (j_entries (tx_journal t)) b name)"
    and "table_ok (layout_of sc) (entries_apply (j_entries (tx_journal t)) b name)"
  shows "tx_stepped schemas b op t (r, put_table name s' C, t)"
proof -
  have "cache_rep schemas (entries_apply (j_entries (tx_journal t)) b) C" using assms(1) by (simp add: tx_inv_def Let_def)
  from cache_rep_put [OF this assms(3-5)] show ?thesis by (intro tx_stepped_refused [OF assms(1,2)]) simp
qed

lemma tx_insert_inv:
  fixes G :: "'g gin_ops"
  assumes inv: "tx_inv schemas b C t" and fits: "fits_table schemas tbl r"
    and at: "get_table tbl C = Some s" "schema_named schemas tbl = Some sc"
    and db: "db = entries_apply (j_entries (tx_journal t)) b" and rp: "represents_table (layout_of sc) s (db tbl)" "table_ok (layout_of sc) (db tbl)"
  shows "tx_stepped schemas b (TxInsert tbl r) t (tx_step G dbg (TxInsert tbl r) (C, t))"
proof -
  have active: "check_active t = Inr ()" using inv by (simp add: tx_inv_def Let_def check_active_def)
  have "canonical_row r" using fits at(2) by (simp add: fits_table_def row_fits_def)
  note ref = rs_insert_refines(1,2) [OF rp this, of G dbg] rs_insert_refines(3) [OF rp this, of dbg]
  obtain x s' where run: "rs_insert G dbg r s = (x, s')" by fastforce
  show ?thesis using spec_insert_result [of dbg "layout_of sc" r "db tbl"]
  proof (elim disjE exE conjE)
    fix e assume "spec_insert dbg (layout_of sc) r (db tbl) = (Inl e, db tbl)"
    then show ?thesis using tx_stepped_put [OF inv, folded db, of "GotId (Inl e)", OF _ at(2) _ rp(2)] ref(1,2) run active at(1)
      by (simp add: tx_insert_def)
  next
    assume "db tbl (rid r) = None" "spec_insert dbg (layout_of sc) r (db tbl) = (Inr (rid r), (db tbl)(rid r \<mapsto> r))"
    then show ?thesis
      using tx_stepped_recorded [OF inv, folded db, of "GotId (Inr (rid r))" tbl sc "JInsert tbl (rid r) r", OF _ at(2) _ _ _ ref(2,3)]
        ref(1) run active at(1)
      by (simp add: tx_insert_def)
  qed
qed

lemma tx_update_inv:
  fixes G :: "'g gin_ops"
  assumes inv: "tx_inv schemas b C t" and fits: "fits_table schemas tbl r" "rid r = i"
    and at: "get_table tbl C = Some s" "schema_named schemas tbl = Some sc"
    and db: "db = entries_apply (j_entries (tx_journal t)) b" and rp: "represents_table (layout_of sc) s (db tbl)" "table_ok (layout_of sc) (db tbl)"
  shows "tx_stepped schemas b (TxUpdate tbl i r) t (tx_step G dbg (TxUpdate tbl i r) (C, t))"
proof -
  have active: "check_active t = Inr ()" and rep: "cache_rep schemas db C" using inv by (simp_all add: tx_inv_def Let_def check_active_def db)
  have "canonical_row r" using fits(1) at(2) by (simp add: fits_table_def row_fits_def)
  note ref = rs_update_refines(1,2) [OF rp this fits(2), of G dbg] rs_update_refines(3) [OF rp this fits(2), of dbg]
  obtain x s' where run: "rs_update G dbg i r s = (x, s')" by fastforce
  have get: "rs_get i s = db tbl i" using represents_reads(1) [OF rp(1)] .
  show ?thesis
  proof (cases "db tbl i")
    case None
    then show ?thesis using tx_stepped_refused [OF inv, folded db, OF _ rep] active at(1) get by (simp add: tx_update_def)
  next
    case (Some old)
    then have id: "rid old = i" using rp(2) by (simp add: table_ok_def)
    show ?thesis using spec_update_result [of dbg "layout_of sc" i r "db tbl"]
    proof (elim disjE exE conjE)
      fix e assume "spec_update dbg (layout_of sc) i r (db tbl) = (Inl e, db tbl)"
      then show ?thesis using tx_stepped_put [OF inv, folded db, of "GotUnit (Inl e)", OF _ at(2) _ rp(2)] ref(1,2) run active at(1) get Some
        by (simp add: tx_update_def)
    next
      assume "spec_update dbg (layout_of sc) i r (db tbl) = (Inr (), (db tbl)(i \<mapsto> r))"
      then show ?thesis
        using tx_stepped_recorded [OF inv, folded db, of "GotUnit (Inr ())" tbl sc "JUpdate tbl i old r", OF _ at(2) _ _ _ ref(2,3)]
          ref(1) run active at(1) get Some id fits(2)
        by (simp add: tx_update_def)
    qed
  qed
qed

lemma tx_delete_inv:
  fixes G :: "'g gin_ops"
  assumes inv: "tx_inv schemas b C t" and at: "get_table tbl C = Some s" "schema_named schemas tbl = Some sc"
    and db: "db = entries_apply (j_entries (tx_journal t)) b" and rp: "represents_table (layout_of sc) s (db tbl)" "table_ok (layout_of sc) (db tbl)"
  shows "tx_stepped schemas b (TxDelete tbl i) t (tx_step G dbg (TxDelete tbl i) (C, t))"
proof -
  have active: "check_active t = Inr ()" using inv by (simp add: tx_inv_def Let_def check_active_def)
  note ref = rs_delete_refines(1,2) [OF rp, of G i] rs_delete_refines(3) [OF rp, of i]
  obtain x s' where run: "rs_delete G i s = (x, s')" by fastforce
  show ?thesis using spec_delete_result [of "layout_of sc" i "db tbl"]
  proof (elim disjE exE conjE)
    fix e assume "spec_delete (layout_of sc) i (db tbl) = (Inl e, db tbl)"
    then show ?thesis using tx_stepped_put [OF inv, folded db, of "GotRow (Inl e)", OF _ at(2) _ rp(2)] ref(1,2) run active at(1)
      by (simp add: tx_delete_def)
  next
    fix r assume r: "db tbl i = Some r" "spec_delete (layout_of sc) i (db tbl) = (Inr r, (db tbl)(i := None))"
    then have "rid r = i" using rp(2) by (simp add: table_ok_def)
    then show ?thesis
      using tx_stepped_recorded [OF inv, folded db, of "GotRow (Inr r)" tbl sc "JDelete tbl i r", OF _ at(2) _ _ _ ref(2,3)] r ref(1) run active at(1)
      by (simp add: tx_delete_def)
  qed
qed

fun op_table :: "tx_op \<Rightarrow> string" where
  "op_table (TxInsert tbl _) = tbl"
| "op_table (TxUpdate tbl _ _) = tbl"
| "op_table (TxDelete tbl _) = tbl"

lemma tx_step_inv:
  fixes G :: "'g gin_ops"
  assumes inv: "tx_inv schemas b C t" and fits: "tx_fits schemas op"
  shows "tx_stepped schemas b op t (tx_step G dbg op (C, t))"
proof -
  have rep: "cache_rep schemas (entries_apply (j_entries (tx_journal t)) b) C" and active: "check_active t = Inr ()"
    using inv by (simp_all add: tx_inv_def Let_def check_active_def)
  show ?thesis
  proof (cases rule: cache_repE [OF rep, of "op_table op"])
    case 1
    then show ?thesis using tx_stepped_refused [OF inv _ rep] active
      by (cases op) (simp_all add: tx_insert_def tx_update_def tx_delete_def)
  next
    case (2 s sc)
    then show ?thesis using tx_insert_inv [OF inv] tx_update_inv [OF inv] tx_delete_inv [OF inv] fits by (cases op) auto
  qed
qed

text \<open>A whole run: the entries that were recorded can be undone if every update left room for a version.\<close>

lemma tx_run_inv:
  fixes G :: "'g gin_ops"
  assumes "tx_inv schemas b C t" "list_all (tx_fits schemas) ops" "tx_run G dbg ops (C, t) = (results, C', t')"
  shows "tx_inv schemas b C' t'"
    and "list_all tx_version_room ops \<Longrightarrow> all_undoable schemas b (j_entries (tx_journal t))
      \<Longrightarrow> all_undoable schemas b (j_entries (tx_journal t'))"
proof -
  have "tx_inv schemas b C' t' \<and> (list_all tx_version_room ops \<longrightarrow> all_undoable schemas b (j_entries (tx_journal t))
      \<longrightarrow> all_undoable schemas b (j_entries (tx_journal t')))"
    using assms
  proof (induction ops arbitrary: C t results)
    case (Cons op ops)
    obtain r C1 t1 where step: "tx_step G dbg op (C, t) = (r, C1, t1)" by (metis prod_cases3)
    obtain rs where run: "tx_run G dbg ops (C1, t1) = (rs, C', t')" using Cons.prems(3) step
      by (cases "tx_run G dbg ops (C1, t1)") auto
    have stepped: "tx_stepped schemas b op t (r, C1, t1)" using tx_step_inv [OF Cons.prems(1), of op G dbg] Cons.prems(2) step by simp
    then have inv: "tx_inv schemas b C1 t1" by (simp add: tx_stepped_def)
    have undo: "tx_version_room op \<longrightarrow> all_undoable schemas b (j_entries (tx_journal t)) \<longrightarrow> all_undoable schemas b (j_entries (tx_journal t1))"
      using stepped by (auto simp: tx_stepped_def all_undoable_snoc split: if_splits)
    show ?case using Cons.IH [OF inv _ run] Cons.prems(2) undo by simp
  qed simp
  then show "tx_inv schemas b C' t'" "list_all tx_version_room ops \<Longrightarrow> all_undoable schemas b (j_entries (tx_journal t))
      \<Longrightarrow> all_undoable schemas b (j_entries (tx_journal t'))" by blast+
qed

lemma tx_begin_inv: "cache_rep schemas db C \<Longrightarrow> tx_inv schemas db C (fst (tx_begin n))"
  by (simp add: tx_inv_def tx_begin_def journal_new_def entries_apply_def)

lemma all_undoable_begin: "all_undoable schemas db (j_entries (tx_journal (fst (tx_begin n))))"
  by (simp add: tx_begin_def journal_new_def)

lemma two_runs:
  fixes G :: "'g gin_ops"
  assumes "list_all (tx_fits schemas) (before @ ops)"
    and "tx_run G dbg before (open_cache G schemas, fst (tx_begin n)) = (results0, C0, t0)"
    and "tx_run G dbg ops (C0, fst (tx_begin m)) = (results, C1, t)"
  obtains "cache_rep schemas (\<lambda>tbl i. tc_get_row tbl i C0) C0" "tx_inv schemas (\<lambda>tbl i. tc_get_row tbl i C0) C1 t"
    "list_all tx_version_room ops \<Longrightarrow> all_undoable schemas (\<lambda>tbl i. tc_get_row tbl i C0) (j_entries (tx_journal t))"
proof -
  have fits: "list_all (tx_fits schemas) before" "list_all (tx_fits schemas) ops" using assms(1) by simp_all
  have "\<exists>db. cache_rep schemas db C0" using tx_run_inv(1) [OF tx_begin_inv [OF open_cache_rep] fits(1) assms(2)] unfolding tx_inv_def Let_def by blast
  then obtain db where db: "cache_rep schemas db C0" by blast
  have "db = (\<lambda>tbl i. tc_get_row tbl i C0)" using cache_reads [OF db] by (simp add: fun_eq_iff)
  then have rep: "cache_rep schemas (\<lambda>tbl i. tc_get_row tbl i C0) C0" using db by simp
  note run = tx_run_inv [OF tx_begin_inv [OF rep] fits(2) assms(3)]
  show thesis by (rule that [OF rep run(1) run(2) [OF _ all_undoable_begin]])
qed

section \<open>Properties\<close>

text \<open>
  C3. Rollback restores. Whatever transaction wrote the tables of a cache, a transaction that then runs any
  sequence of inserts, updates and deletions on them, some refused and some not, and is rolled back leaves
  every row with the id and the values it had when the transaction began, and no row that was not there; and the
  rollback succeeds, as long as no update wrote the last version number there is.
\<close>

theorem transaction_rollback_restores:
  fixes G :: "'g gin_ops"
  assumes "list_all (tx_fits schemas) (before @ ops)" "list_all tx_version_room ops"
    and "tx_run G dbg before (open_cache G schemas, fst (tx_begin n)) = (results0, C0, t0)"
    and "tx_run G dbg ops (C0, fst (tx_begin m)) = (results, C1, t)"
  shows "\<exists>C2. tx_rollback G dbg t C1 = (Inr (), C2)
    \<and> (\<forall>tbl. contents (\<lambda>i. tc_get_row tbl i C2) = contents (\<lambda>i. tc_get_row tbl i C0))"
proof -
  let ?b = "\<lambda>tbl i. tc_get_row tbl i C0"
  obtain inv: "tx_inv schemas ?b C1 t" and undo: "all_undoable schemas ?b (j_entries (tx_journal t))"
    using two_runs [OF assms(1,3,4)] assms(2) by metis
  have rep: "cache_rep schemas (entries_apply (j_entries (tx_journal t)) ?b) C1" and active: "check_active t = Inr ()"
    using inv by (simp_all add: tx_inv_def Let_def check_active_def)
  obtain C2 db where C2: "undo_entries G dbg (rev (j_entries (tx_journal t))) C1 = (Inr (), C2)" "cache_rep schemas db C2"
      "db_contents db = db_contents ?b"
    using undo_entries_restore [OF rep refl undo] by metis
  have "contents (\<lambda>i. tc_get_row tbl i C2) = contents (\<lambda>i. tc_get_row tbl i C0)" for tbl
    using fun_cong [OF C2(3), of tbl] by (simp add: cache_reads [OF C2(2)] db_contents_def)
  then show ?thesis using C2(1) active by (simp add: tx_rollback_def journal_rollback_def)
qed

text \<open>
  C13. What a transaction commits is what it did. The entries that commit hands out, replayed in order on the
  rows as they were when the transaction began, are each valid where they are applied and give exactly the
  rows that are in the cache; and the difference that the journal has for a table takes the table from what it was to what it is.
\<close>

theorem committed_changes_replay:
  fixes G :: "'g gin_ops"
  assumes "list_all (tx_fits schemas) (before @ ops)"
    and "tx_run G dbg before (open_cache G schemas, fst (tx_begin n)) = (results0, C0, t0)"
    and "tx_run G dbg ops (C0, fst (tx_begin m)) = (results, C1, t)"
  shows "\<exists>es. tx_commit t = Inr es \<and> entries_valid es (\<lambda>tbl i. tc_get_row tbl i C0)
    \<and> entries_apply es (\<lambda>tbl i. tc_get_row tbl i C0) = (\<lambda>tbl i. tc_get_row tbl i C1)
    \<and> (\<forall>tbl. case journal_get_table_diff tbl (tx_journal t) of
          None \<Rightarrow> (\<forall>i. tc_get_row tbl i C1 = tc_get_row tbl i C0)
        | Some d \<Rightarrow> modifications_apply (td_get_as_modifications d) (\<lambda>i. tc_get_row tbl i C0) = (\<lambda>i. tc_get_row tbl i C1))"
proof -
  let ?b = "\<lambda>tbl i. tc_get_row tbl i C0" and ?es = "j_entries (tx_journal t)"
  obtain inv: "tx_inv schemas ?b C1 t" using two_runs [OF assms] by metis
  then have rep: "cache_rep schemas (entries_apply ?es ?b) C1" and valid: "entries_valid ?es ?b"
    and j: "tx_journal t = fold record_entry ?es journal_new" and active: "check_active t = Inr ()"
    by (simp_all add: tx_inv_def Let_def check_active_def)
  have now: "entries_apply ?es ?b = (\<lambda>tbl i. tc_get_row tbl i C1)" using cache_reads [OF rep] by (simp add: fun_eq_iff)
  have "journal_inv ?b (\<lambda>tbl i. tc_get_row tbl i C1) (tx_journal t)"
    using journal_run [OF journal_inv_new valid] j now by (simp add: entries_apply_def)
  then have "case journal_get_table_diff tbl (tx_journal t) of
          None \<Rightarrow> (\<forall>i. tc_get_row tbl i C1 = tc_get_row tbl i C0)
        | Some d \<Rightarrow> modifications_apply (td_get_as_modifications d) (\<lambda>i. tc_get_row tbl i C0) = (\<lambda>i. tc_get_row tbl i C1)" for tbl
    by (auto simp: journal_inv_def journal_get_table_diff_def fun_eq_iff dest!: spec [where x = tbl] td_inv_modifications split: option.splits)
  then show ?thesis using valid now active by (simp add: tx_commit_def journal_commit_def)
qed

text \<open>
  C24. The one way a rollback fails. If the last write of a transaction is an update to a row with the last
  version number there is, the rollback of the transaction returns an error before it has undone anything: the
  cache keeps everything the transaction wrote, and since \<open>rollback\<close> takes the transaction by value there is no
  second attempt.
\<close>

theorem rollback_stops_at_last_version:
  fixes G :: "'g gin_ops"
  assumes "list_all (tx_fits schemas) (before @ ops @ [TxUpdate tbl i r])" "rversion r = - 1"
    and "tx_run G dbg before (open_cache G schemas, fst (tx_begin n)) = (results0, C0, t0)"
    and "tx_run G dbg ops (C0, fst (tx_begin m)) = (results, C1, t)"
    and "tx_step G dbg (TxUpdate tbl i r) (C1, t) = (GotUnit (Inr ()), C2, t2)"
  shows "tx_rollback G dbg t2 C2 = (Inl version_overflow, C2) \<and> tc_get_row tbl i C2 = Some r"
proof -
  let ?b = "\<lambda>tbl i. tc_get_row tbl i C0"
  have fits: "list_all (tx_fits schemas) (before @ ops)" "tx_fits schemas (TxUpdate tbl i r)" using assms(1) by simp_all
  obtain inv: "tx_inv schemas ?b C1 t" using two_runs [OF fits(1) assms(3,4)] by metis
  have inv2: "tx_inv schemas ?b C2 t2" using tx_step_inv [OF inv fits(2), of G dbg] assms(5) by (simp add: tx_stepped_def)
  obtain old s where upd: "t2 = tx_record (record_update tbl old r) t" "get_table tbl C2 = Some s"
    using assms(5) by (auto simp: tx_update_def split: sum.splits option.splits prod.splits)
  then have es: "j_entries (tx_journal t2) = j_entries (tx_journal t) @ [JUpdate tbl (rid old) old r]"
    by (simp add: tx_record_def record_update_def journal_update_diff_def Let_def)
  have rep: "cache_rep schemas (entries_apply (j_entries (tx_journal t2)) ?b) C2" and active: "check_active t2 = Inr ()"
    and valid: "entries_valid (j_entries (tx_journal t2)) ?b"
    using inv2 by (simp_all add: tx_inv_def Let_def check_active_def)
  have "rid old = i" using valid fits(2) by (simp add: es entries_valid_snoc)
  then have "tc_get_row tbl i C2 = Some r" using cache_reads [OF rep, of tbl i] by (simp add: es entries_apply_def entry_apply_def)
  then show ?thesis using active assms(2) upd(2)
    by (simp add: tx_rollback_def journal_rollback_def es undo_entry_def checked_succ_def)
qed

text \<open>Two rows are written and then a transaction writes one, changes one, deletes one and is refused one.\<close>

definition tx_before :: "tx_op list" where
  "tx_before = [TxInsert ''users'' (user 1 10 ''a''), TxInsert ''users'' (user 2 20 ''b'')]"

definition tx_ops :: "tx_op list" where
  "tx_ops = [TxInsert ''users'' (user 3 30 ''c''), TxUpdate ''users'' 1 (user 1 10 ''b2''), TxDelete ''users'' 2,
     TxInsert ''users'' (user 9 10 ''z'')]"

definition last_version :: row where
  "last_version = row_new_with_version 1 (- 1) [Int64 10, Str ''a2'']"

lemma tx_example_fits:
  "list_all (tx_fits [users]) (tx_before @ tx_ops)" "list_all tx_version_room tx_ops"
  "list_all (tx_fits [users]) (tx_before @ [TxInsert ''users'' (user 3 30 ''c'')] @ [TxUpdate ''users'' 1 last_version])"
  "rversion last_version = - 1"
  by code_simp+

lemma tx_example_runs:
  obtains results0 C0 t0 results C1 t where
    "tx_run no_gin (\<lambda>_. '''') tx_before (open_cache no_gin [users], fst (tx_begin 1)) = (results0, C0, t0)"
    "tx_run no_gin (\<lambda>_. '''') tx_ops (C0, fst (tx_begin 2)) = (results, C1, t)"
    "map refused results = [False, False, False, True]"
proof -
  have refused: "map refused (fst (tx_run no_gin (\<lambda>_. '''') tx_ops
      (fst (snd (tx_run no_gin (\<lambda>_. '''') tx_before (open_cache no_gin [users], fst (tx_begin 1)))), fst (tx_begin 2)))) = [False, False, False, True]"
    by code_simp
  obtain results0 C0 t0 where run0: "tx_run no_gin (\<lambda>_. '''') tx_before (open_cache no_gin [users], fst (tx_begin 1)) = (results0, C0, t0)"
    by (metis prod_cases3)
  obtain results C1 t where run: "tx_run no_gin (\<lambda>_. '''') tx_ops (C0, fst (tx_begin 2)) = (results, C1, t)" by (metis prod_cases3)
  show thesis by (rule that [OF run0 run]) (use refused run0 run in simp)
qed

theorem transaction_rollback_restores_witness:
  "\<exists>results0 C0 t0 results C1 t C2.
    tx_run no_gin (\<lambda>_. '''') tx_before (open_cache no_gin [users], fst (tx_begin 1)) = (results0, C0, t0)
    \<and> tx_run no_gin (\<lambda>_. '''') tx_ops (C0, fst (tx_begin 2)) = (results, C1, t) \<and> map refused results = [False, False, False, True]
    \<and> tx_rollback no_gin (\<lambda>_. '''') t C1 = (Inr (), C2) \<and> contents (\<lambda>i. tc_get_row ''users'' i C2) = contents (\<lambda>i. tc_get_row ''users'' i C0)"
proof -
  obtain results0 C0 t0 results C1 t where run: "tx_run no_gin (\<lambda>_. '''') tx_before (open_cache no_gin [users], fst (tx_begin 1)) = (results0, C0, t0)"
      "tx_run no_gin (\<lambda>_. '''') tx_ops (C0, fst (tx_begin 2)) = (results, C1, t)" "map refused results = [False, False, False, True]"
    by (rule tx_example_runs)
  obtain C2 where C2: "tx_rollback no_gin (\<lambda>_. '''') t C1 = (Inr (), C2)" "contents (\<lambda>i. tc_get_row ''users'' i C2) = contents (\<lambda>i. tc_get_row ''users'' i C0)"
    using transaction_rollback_restores [OF tx_example_fits(1,2) run(1,2)] by blast
  show ?thesis by (intro exI conjI) (rule run C2)+
qed

theorem committed_changes_replay_witness:
  "\<exists>results0 C0 t0 results C1 t es.
    tx_run no_gin (\<lambda>_. '''') tx_before (open_cache no_gin [users], fst (tx_begin 1)) = (results0, C0, t0)
    \<and> tx_run no_gin (\<lambda>_. '''') tx_ops (C0, fst (tx_begin 2)) = (results, C1, t) \<and> map refused results = [False, False, False, True]
    \<and> tx_commit t = Inr es \<and> entries_apply es (\<lambda>tbl i. tc_get_row tbl i C0) = (\<lambda>tbl i. tc_get_row tbl i C1)"
proof -
  obtain results0 C0 t0 results C1 t where run: "tx_run no_gin (\<lambda>_. '''') tx_before (open_cache no_gin [users], fst (tx_begin 1)) = (results0, C0, t0)"
      "tx_run no_gin (\<lambda>_. '''') tx_ops (C0, fst (tx_begin 2)) = (results, C1, t)" "map refused results = [False, False, False, True]"
    by (rule tx_example_runs)
  obtain es where es: "tx_commit t = Inr es" "entries_apply es (\<lambda>tbl i. tc_get_row tbl i C0) = (\<lambda>tbl i. tc_get_row tbl i C1)"
    using committed_changes_replay [OF tx_example_fits(1) run(1,2)] by blast
  show ?thesis by (intro exI conjI) (rule run es)+
qed

text \<open>The row that was inserted before the update stays.\<close>

theorem rollback_stops_at_last_version_witness:
  "\<exists>C1 t C2 t2. snd (tx_run no_gin (\<lambda>_. '''') [TxInsert ''users'' (user 3 30 ''c'')]
        (fst (snd (tx_run no_gin (\<lambda>_. '''') tx_before (open_cache no_gin [users], fst (tx_begin 1)))), fst (tx_begin 2))) = (C1, t)
    \<and> snd (tx_step no_gin (\<lambda>_. '''') (TxUpdate ''users'' 1 last_version) (C1, t)) = (C2, t2)
    \<and> tx_rollback no_gin (\<lambda>_. '''') t2 C2 = (Inl version_overflow, C2) \<and> tc_get_row ''users'' 3 C2 = Some (user 3 30 ''c'')"
proof -
  define st0 where "st0 = tx_run no_gin (\<lambda>_. '''') tx_before (open_cache no_gin [users], fst (tx_begin 1))"
  define st1 where "st1 = tx_run no_gin (\<lambda>_. '''') [TxInsert ''users'' (user 3 30 ''c'')] (fst (snd st0), fst (tx_begin 2))"
  define st2 where "st2 = tx_step no_gin (\<lambda>_. '''') (TxUpdate ''users'' 1 last_version) (snd st1)"
  have "fst st2 = GotUnit (Inr ())" "tc_get_row ''users'' 3 (fst (snd st2)) = Some (user 3 30 ''c'')"
    unfolding st2_def st1_def st0_def by code_simp+
  moreover have "tx_rollback no_gin (\<lambda>_. '''') (snd (snd st2)) (fst (snd st2)) = (Inl version_overflow, fst (snd st2))"
    using rollback_stops_at_last_version [OF tx_example_fits(3,4), of no_gin "\<lambda>_. ''''" 1 "fst st0" "fst (snd st0)" "snd (snd st0)"
        2 "fst st1" "fst (snd st1)" "snd (snd st1)" "fst (snd st2)" "snd (snd st2)"] calculation(1)
    by (simp add: st0_def st1_def st2_def prod_eq_iff)
  ultimately show ?thesis unfolding st2_def st1_def st0_def by (metis prod.collapse)
qed

end
