(* ===== verification/Cynos_Constraint.thy ===== *)
theory Cynos_Constraint
  imports Cynos_Row_Scan Cynos_Tx_Rollback
begin

text \<open>
  Constraint checks (\<open>crates/storage/src/constraint.rs\<close>): values that must not be NULL, and foreign keys before
  rows are inserted, deleted or updated. The checks read a cache and change nothing. The check of an insertion
  is exact; the checks of a deletion and of an update of the referenced rows look the referenced value up among
  the primary keys of the referencing table, not in its foreign-key column.
\<close>

section \<open>The checks\<close>

text \<open>A loop whose body may return an error.\<close>

fun check_each :: "('a \<Rightarrow> db_error + unit) \<Rightarrow> 'a list \<Rightarrow> db_error + unit" where
  "check_each f [] = Inr ()"
| "check_each f (x # xs) = (case f x of Inl e \<Rightarrow> Inl e | Inr _ \<Rightarrow> check_each f xs)"

lemma check_each_ok [simp]: "check_each f xs = Inr () \<longleftrightarrow> (\<forall>x \<in> set xs. f x = Inr ())"
  by (induction xs) (auto split: sum.split)

definition check_not_null :: "table \<Rightarrow> row \<Rightarrow> db_error + unit" where
  "check_not_null schema row =
     check_each (\<lambda>col_name.
       if get_column col_name schema \<noteq> None then
         let col_idx = the (get_column_index col_name schema)
         in case row_get row col_idx of
              Some v \<Rightarrow> if v = Null then Inl (NullConstraint col_name) else Inr ()
            | None \<Rightarrow> Inr ()
       else Inr ()) (cs_not_nullable (tbl_constraints schema))"

definition check_not_null_rows :: "table \<Rightarrow> row list \<Rightarrow> db_error + unit" where
  "check_not_null_rows schema rows = check_each (check_not_null schema) rows"

text \<open>The messages: \<open>dbg\<close> stands for the derived \<open>Debug\<close> of values.\<close>

fun decimal :: "nat \<Rightarrow> string" where
  "decimal n = (if n < 10 then [''0123456789'' ! n] else decimal (n div 10) @ [''0123456789'' ! (n mod 10)])"

definition missing_parent :: "(value \<Rightarrow> string) \<Rightarrow> foreign_key \<Rightarrow> value \<Rightarrow> db_error" where
  "missing_parent dbg fk v =
     ForeignKeyViolation (fk_name fk) (''Referenced key '' @ dbg v @ '' does not exist in '' @ fk_parent_table fk)"

definition still_referenced :: "string \<Rightarrow> foreign_key \<Rightarrow> row list \<Rightarrow> table \<Rightarrow> db_error" where
  "still_referenced what fk child_rows child_schema =
     ForeignKeyViolation (fk_name fk)
       (''Cannot '' @ what @ '': referenced by '' @ decimal (length child_rows) @ '' rows in '' @ tbl_name child_schema)"

text \<open>The rows as children: their references must exist.\<close>

definition check_reference :: "(value \<Rightarrow> string) \<Rightarrow> 'g row_store \<Rightarrow> nat \<Rightarrow> foreign_key \<Rightarrow> row \<Rightarrow> db_error + unit" where
  "check_reference dbg parent_store child_col_idx fk row =
     (case row_get row child_col_idx of
        Some v \<Rightarrow> if v \<noteq> Null \<and> \<not> pk_exists v parent_store then Inl (missing_parent dbg fk v) else Inr ()
      | None \<Rightarrow> Inr ())"

definition check_foreign_keys_for_insert ::
  "(value \<Rightarrow> string) \<Rightarrow> 'g table_cache \<Rightarrow> table \<Rightarrow> row list \<Rightarrow> constraint_timing \<Rightarrow> db_error + unit" where
  "check_foreign_keys_for_insert dbg C schema rows timing =
     check_each (\<lambda>fk.
       if fk_timing fk \<noteq> timing then Inr ()
       else case get_table (fk_parent_table fk) C of
              None \<Rightarrow> Inl (TableNotFound (fk_parent_table fk))
            | Some parent_store \<Rightarrow>
                case get_column_index (fk_child_column fk) schema of
                  None \<Rightarrow> Inl (ColumnNotFound (tbl_name schema) (fk_child_column fk))
                | Some child_col_idx \<Rightarrow> check_each (check_reference dbg parent_store child_col_idx fk) rows)
       (cs_foreign_keys (tbl_constraints schema))"

text \<open>The rows as parents: nothing may refer to a value that goes away.\<close>

definition check_children :: "string \<Rightarrow> foreign_key \<Rightarrow> 'g row_store \<Rightarrow> value \<Rightarrow> db_error + unit" where
  "check_children what fk child_store pk_value =
     (let child_rows = get_by_pk pk_value child_store
      in if child_rows \<noteq> [] then Inl (still_referenced what fk child_rows (rs_schema child_store)) else Inr ())"

definition check_foreign_keys_for_delete ::
  "'g table_cache \<Rightarrow> table \<Rightarrow> row list \<Rightarrow> constraint_timing \<Rightarrow> db_error + unit" where
  "check_foreign_keys_for_delete C schema rows timing =
     check_each (\<lambda>name.
       case get_table name C of
         None \<Rightarrow> Inr ()
       | Some child_store \<Rightarrow>
           check_each (\<lambda>fk.
             if fk_parent_table fk \<noteq> tbl_name schema \<or> fk_timing fk \<noteq> timing then Inr ()
             else case get_column_index (fk_parent_column fk) schema of
                    None \<Rightarrow> Inl (ColumnNotFound (tbl_name schema) (fk_parent_column fk))
                  | Some parent_col_idx \<Rightarrow>
                      check_each (\<lambda>row.
                        case row_get row parent_col_idx of
                          Some pk_value \<Rightarrow> check_children ''delete'' fk child_store pk_value
                        | None \<Rightarrow> Inr ()) rows)
             (cs_foreign_keys (tbl_constraints (rs_schema child_store))))
       (table_names C)"

fun value_option_eq :: "value option \<Rightarrow> value option \<Rightarrow> bool" where
  "value_option_eq None None = True"
| "value_option_eq (Some a) (Some b) = value_eq a b"
| "value_option_eq _ _ = False"

definition check_foreign_keys_for_update ::
  "(value \<Rightarrow> string) \<Rightarrow> 'g table_cache \<Rightarrow> table \<Rightarrow> (row \<times> row) list \<Rightarrow> constraint_timing \<Rightarrow> db_error + unit" where
  "check_foreign_keys_for_update dbg C schema modifications timing =
     (case check_each (\<lambda>fk.
         if fk_timing fk \<noteq> timing then Inr ()
         else case get_table (fk_parent_table fk) C of
                None \<Rightarrow> Inl (TableNotFound (fk_parent_table fk))
              | Some parent_store \<Rightarrow>
                  case get_column_index (fk_child_column fk) schema of
                    None \<Rightarrow> Inl (ColumnNotFound (tbl_name schema) (fk_child_column fk))
                  | Some child_col_idx \<Rightarrow>
                      check_each (\<lambda>(_, new_row). check_reference dbg parent_store child_col_idx fk new_row) modifications)
         (cs_foreign_keys (tbl_constraints schema)) of
        Inl e \<Rightarrow> Inl e
      | Inr _ \<Rightarrow>
          check_each (\<lambda>name.
            case get_table name C of
              None \<Rightarrow> Inr ()
            | Some child_store \<Rightarrow>
                check_each (\<lambda>fk.
                  if fk_parent_table fk \<noteq> tbl_name schema \<or> fk_timing fk \<noteq> timing then Inr ()
                  else case get_column_index (fk_parent_column fk) schema of
                         None \<Rightarrow> Inl (ColumnNotFound (tbl_name schema) (fk_parent_column fk))
                       | Some parent_col_idx \<Rightarrow>
                           check_each (\<lambda>(old_row, new_row).
                             let old_value = row_get old_row parent_col_idx;
                                 new_value = row_get new_row parent_col_idx
                             in if \<not> value_option_eq old_value new_value
                                then case old_value of
                                       Some old_val \<Rightarrow> check_children ''update'' fk child_store old_val
                                     | None \<Rightarrow> Inr ()
                                else Inr ()) modifications)
                  (cs_foreign_keys (tbl_constraints (rs_schema child_store))))
            (table_names C))"

definition find_existing_row_id_in_pk_index :: "'g row_store \<Rightarrow> row \<Rightarrow> row_id option" where
  "find_existing_row_id_in_pk_index store row = find_row_id_by_pk row store"

section \<open>What the lookups find\<close>

lemma pk_exists_iff:
  assumes "represents_table L s tbl"
  shows "pk_exists v s \<longleftrightarrow> (\<exists>p i q. ly_pk L = [p] \<and> tbl i = Some q \<and> col_value p q = v)"
proof -
  have frame: "rs_pk_columns s = ly_pk L" "primary_holds L tbl (rs_primary_index s)"
    using assms by (simp_all add: represents_table_def indexed_def)
  show ?thesis
  proof (cases "\<exists>p. ly_pk L = [p]")
    case True
    then obtain p where p: "ly_pk L = [p]" by blast
    then obtain t where t: "rs_primary_index s = Some t" using frame(2) by (auto simp: primary_holds_def split: option.splits)
    have holds: "btree_ix.holds t tbl (key_of [p])" using primary_holdsD(1) [of L tbl t] frame(2) t p by simp
    show ?thesis using btree_ix.holds_contains [OF holds, of "IKScalar v"] frame(1) t p
      by (auto simp: pk_exists_def pk_exists_values_def extract_key_from_values_def ik_from_values_def key_taken_def key_of_single
          simp del: btree_impl_simps)
  next
    case False
    then have "length (ly_pk L) \<noteq> 1" by (auto simp: length_Suc_conv)
    then show ?thesis using False frame(1) by (auto simp: pk_exists_def pk_exists_values_def)
  qed
qed

lemma get_by_pk_iff:
  assumes "represents_table L s tbl"
  shows "get_by_pk v s \<noteq> [] \<longleftrightarrow> (\<exists>p i q. ly_pk L = [p] \<and> tbl i = Some q \<and> col_value p q = v)"
proof -
  have frame: "rs_pk_columns s = ly_pk L" "primary_holds L tbl (rs_primary_index s)" and abs: "rs_abs s = tbl"
    using assms by (simp_all add: represents_table_def indexed_def)
  show ?thesis
  proof (cases "\<exists>p. ly_pk L = [p]")
    case True
    then obtain p where p: "ly_pk L = [p]" by blast
    then obtain t where t: "rs_primary_index s = Some t" using frame(2) by (auto simp: primary_holds_def split: option.splits)
    have holds: "btree_ix.holds t tbl (key_of [p])" using primary_holdsD(1) [of L tbl t] frame(2) t p by simp
    have got: "j \<in> set (ix_get btree_impl (IKScalar v) t) \<longleftrightarrow> (\<exists>r. tbl j = Some r \<and> col_value p r = v)" for j
      using btree_ix.holds_get [OF holds, of j "IKScalar v"] by (simp add: key_of_single del: btree_impl_simps)
    have "(\<lambda>i. row_ref_by_id i s) = tbl" using abs by (auto simp: rs_abs_def fun_eq_iff)
    then have "get_by_pk v s = List.map_filter tbl (ix_get btree_impl (IKScalar v) t)"
      using frame(1) t p by (simp add: get_by_pk_def get_by_pk_values_def extract_key_from_values_def ik_from_values_def del: btree_impl_simps)
    then have "get_by_pk v s \<noteq> [] \<longleftrightarrow> (\<exists>j \<in> set (ix_get btree_impl (IKScalar v) t). tbl j \<noteq> None)"
      by (simp add: List.map_filter_def filter_empty_conv)
    then show ?thesis unfolding Bex_def got using p by auto
  next
    case False
    then have "length (ly_pk L) \<noteq> 1" by (auto simp: length_Suc_conv)
    then show ?thesis using False frame(1) by (auto simp: get_by_pk_def get_by_pk_values_def)
  qed
qed

lemma run_cache_rep:
  fixes G :: "'g gin_ops"
  assumes "list_all (tx_fits schemas) ops" "tx_run G dbg ops (open_cache G schemas, fst (tx_begin n)) = (results, C, t)"
  shows "cache_rep schemas (\<lambda>tbl i. tc_get_row tbl i C) C"
  using two_runs [of schemas ops "[]" G dbg n results C t 0 "[]" C "fst (tx_begin 0)"] assms by auto

section \<open>Properties\<close>

text \<open>
  The check of NULL values is exact on the tables the builder makes: it passes if and only if no row has
  NULL in a column that is not nullable.
\<close>

theorem not_null_check_exact:
  assumes "build_table name calls = Inr t"
  shows "check_not_null_rows t rows = Inr () \<longleftrightarrow>
    (\<forall>row \<in> set rows. \<forall>i < length (tbl_columns t). \<not> col_nullable (tbl_columns t ! i) \<longrightarrow> row_get row i \<noteq> Some Null)"
proof -
  obtain b where b: "builder_wf b" "tb_name b = name" "tb_build b = Inr t" using build_tableD [OF assms] .
  note parts = tb_build_parts [OF b(3)]
  let ?n = "length (tb_columns b)"
  have cols: "length (tbl_columns t) = ?n" by (simp add: parts(2))
  have col: "col_name (tbl_columns t ! i) = col_name (tb_columns b ! i)" "col_nullable (tbl_columns t ! i) = col_nullable (tb_columns b ! i)"
    if "i < ?n" for i using that by (simp_all add: parts(2) built_columns_nth)
  have idx: "get_column_index (col_name (tb_columns b ! i)) t = Some i" if "i < ?n" for i
    using that b(1) built_columns_names(1) [of b] position_first [of col_name "built_columns b" i] col(1)
    by (simp add: get_column_index_def parts(2) builder_wf_def)
  have there: "get_column (col_name (tb_columns b ! i)) t \<noteq> None" if "i < ?n" for i
    using that col(1) cols by (auto simp: get_column_def find_None_iff) (metis nth_mem)
  have names: "set (cs_not_nullable (tbl_constraints t)) = {col_name (tb_columns b ! i) | i. i < ?n \<and> \<not> col_nullable (tb_columns b ! i)}"
    unfolding parts(6) by (auto simp: set_conv_nth [of "tb_columns b"])
  have "check_not_null t row = Inr () \<longleftrightarrow> (\<forall>i < ?n. \<not> col_nullable (tb_columns b ! i) \<longrightarrow> row_get row i \<noteq> Some Null)" for row
  proof -
    let ?f = "\<lambda>name. if get_column name t \<noteq> None then let i = the (get_column_index name t)
        in case row_get row i of Some v \<Rightarrow> if v = Null then Inl (NullConstraint name) else Inr () | None \<Rightarrow> Inr () else Inr ()"
    have "?f (col_name (tb_columns b ! i)) = Inr () \<longleftrightarrow> row_get row i \<noteq> Some Null" if "i < ?n" for i
      using idx [OF that] there [OF that] by (auto split: option.split)
    then show ?thesis unfolding check_not_null_def check_each_ok names by blast
  qed
  then show ?thesis using col(2) cols by (simp add: check_not_null_rows_def)
qed

theorem not_null_check_exact_witness:
  "\<exists>i < length (tbl_columns users). \<not> col_nullable (tbl_columns users ! i) \<and> row_get (row_new 1 [Int64 1, Null]) i = Some Null"
proof -
  have built: "build_table ''users'' [AddColumn ''id'' TInt64, AddColumn ''email'' TString, AddPrimaryKey [''id''] False,
     AddUnique ''uq'' [''email''], AddIndex ''ix'' [''email'', ''id''] False] = Inr users" by code_simp
  have "check_not_null_rows users [row_new 1 [Int64 1, Null]] \<noteq> Inr ()" by code_simp
  then show ?thesis unfolding not_null_check_exact [OF built] by auto
qed

text \<open>A row whose column refers to a key: NULL and a column the row does not have refer to nothing. The values are
  of the type of the key they refer to.\<close>

definition parent_key :: "table \<Rightarrow> nat \<Rightarrow> bool" where
  "parent_key parent p \<longleftrightarrow> ly_pk (layout_of parent) = [p]"

definition reference_holds :: "'g table_cache \<Rightarrow> string \<Rightarrow> table \<Rightarrow> value option \<Rightarrow> bool" where
  "reference_holds C name parent v \<longleftrightarrow> (\<forall>w. v = Some w \<and> w \<noteq> Null \<longrightarrow>
     (\<exists>p i q. parent_key parent p \<and> tc_get_row name i C = Some q \<and> col_value p q = w))"

definition references_fit :: "table list \<Rightarrow> table \<Rightarrow> row list \<Rightarrow> bool" where
  "references_fit schemas schema rows \<longleftrightarrow> (\<forall>fk \<in> set (cs_foreign_keys (tbl_constraints schema)). \<forall>parent p c. \<forall>row \<in> set rows.
     schema_named schemas (fk_parent_table fk) = Some parent \<longrightarrow> parent_key parent p
     \<longrightarrow> get_column_index (fk_child_column fk) schema = Some c \<longrightarrow> value_fits parent p (col_value c row))"

lemma check_reference_iff:
  assumes "cache_rep schemas (\<lambda>tbl i. tc_get_row tbl i C) C" "schema_named schemas name = Some parent" "get_table name C = Some s"
  shows "check_reference dbg s c fk row = Inr () \<longleftrightarrow> reference_holds C name parent (row_get row c)"
proof -
  have "represents_table (layout_of parent) s (\<lambda>i. tc_get_row name i C)"
    by (cases rule: cache_repE [OF assms(1), of name]) (use assms(2,3) in auto)
  from pk_exists_iff [OF this] show ?thesis
    by (auto simp: check_reference_def reference_holds_def parent_key_def split: option.split)
qed


text \<open>
  C25. What the check of a deletion decides: it passes if and only if no table of the cache with a foreign key to
  the table has a row whose own primary key, a single column, has the value that is deleted. The column of the
  foreign key is not read.
\<close>

theorem delete_check_decides:
  fixes G :: "'g gin_ops"
  assumes "list_all (tx_fits schemas) ops" "tx_run G dbg ops (open_cache G schemas, fst (tx_begin n)) = (results, C, t)"
  shows "check_foreign_keys_for_delete C schema rows timing = Inr () \<longleftrightarrow>
    (\<forall>name child_store. get_table name C = Some child_store \<longrightarrow>
      (\<forall>fk \<in> set (cs_foreign_keys (tbl_constraints (rs_schema child_store))). fk_parent_table fk = tbl_name schema \<and> fk_timing fk = timing \<longrightarrow>
        (\<exists>c. get_column_index (fk_parent_column fk) schema = Some c
          \<and> (\<forall>row \<in> set rows. \<forall>v. row_get row c = Some v \<longrightarrow>
               \<not> (\<exists>p i q. rs_pk_columns child_store = [p] \<and> tc_get_row name i C = Some q \<and> col_value p q = v)))))"
proof -
  have pk: "check_children w fk s v = Inr () \<longleftrightarrow> \<not> (\<exists>p i q. rs_pk_columns s = [p] \<and> tc_get_row name i C = Some q \<and> col_value p q = v)"
    if at: "get_table name C = Some s" for name s v w fk
  proof (cases rule: cache_repE [OF run_cache_rep [OF assms], of name])
    case (2 s' sc)
    then have rep: "represents_table (layout_of sc) s (\<lambda>i. tc_get_row name i C)" using at by simp
    then have "rs_pk_columns s = ly_pk (layout_of sc)" by (simp add: represents_table_def indexed_def)
    then show ?thesis using get_by_pk_iff [OF rep, of v] by (auto simp: check_children_def)
  qed (use at in simp)
  have names: "name \<in> set (table_names C) \<longleftrightarrow> get_table name C \<noteq> None" for name
    by (auto simp: table_names_def get_table_def map_of_eq_None_iff)
  let ?gone = "\<lambda>name s c. \<forall>row \<in> set rows. \<forall>v. row_get row c = Some v \<longrightarrow>
      \<not> (\<exists>p i q. rs_pk_columns s = [p] \<and> tc_get_row name i C = Some q \<and> col_value p q = v)"
  have rows: "check_each (\<lambda>row. case row_get row c of Some v \<Rightarrow> check_children ''delete'' fk s v | None \<Rightarrow> Inr ()) rows = Inr ()
      \<longleftrightarrow> ?gone name s c" if "get_table name C = Some s" for name s c fk
    unfolding check_each_ok by (rule ball_cong) (simp_all add: pk [OF that] split: option.split)
  have fk: "(if fk_parent_table fk \<noteq> tbl_name schema \<or> fk_timing fk \<noteq> timing then Inr ()
        else case get_column_index (fk_parent_column fk) schema of
               None \<Rightarrow> Inl (ColumnNotFound (tbl_name schema) (fk_parent_column fk))
             | Some c \<Rightarrow> check_each (\<lambda>row. case row_get row c of Some v \<Rightarrow> check_children ''delete'' fk s v | None \<Rightarrow> Inr ()) rows) = Inr ()
      \<longleftrightarrow> (fk_parent_table fk = tbl_name schema \<and> fk_timing fk = timing \<longrightarrow>
        (\<exists>c. get_column_index (fk_parent_column fk) schema = Some c \<and> ?gone name s c))" if "get_table name C = Some s" for name s fk
  proof (cases "fk_parent_table fk = tbl_name schema \<and> fk_timing fk = timing")
    case True
    then show ?thesis
    proof (cases "get_column_index (fk_parent_column fk) schema")
      case (Some c)
      show ?thesis using rows [OF that, of fk c] unfolding Some option.case by (simp only: True simp_thms if_False option.inject)
    qed simp
  qed auto
  have table: "(case get_table name C of None \<Rightarrow> Inr () | Some s \<Rightarrow> check_each (f s) (fks s)) = Inr () \<longleftrightarrow>
      (\<forall>s. get_table name C = Some s \<longrightarrow> (\<forall>fk \<in> set (fks s). f s fk = Inr ()))" for f :: "'g row_store \<Rightarrow> foreign_key \<Rightarrow> db_error + unit" and fks name
    by (simp split: option.split)
  have all: "(\<forall>name \<in> set (table_names C). \<forall>s. get_table name C = Some s \<longrightarrow> P name s) \<longleftrightarrow> (\<forall>name s. get_table name C = Some s \<longrightarrow> P name s)" for P
    using names by auto
  show ?thesis unfolding check_foreign_keys_for_delete_def check_each_ok [of _ "table_names C"] table all
    by (simp only: fk cong: imp_cong)
qed

text \<open>Orders that refer to users by the users' id.\<close>

definition orders :: table where
  "orders = (case build_table ''orders'' [AddColumn ''id'' TInt64, AddColumn ''user_id'' TInt64, AddPrimaryKey [''id''] False,
     AddForeignKey ''fk_user'' ''user_id'' ''users'' ''id''] of Inr t \<Rightarrow> t)"

definition order_row :: "row_id \<Rightarrow> i64 \<Rightarrow> i64 \<Rightarrow> row" where
  "order_row i n user_id = row_new i [Int64 n, Int64 user_id]"

text \<open>User 10 has the order 77; user 20 has no order, but there is an order 20.\<close>

definition shop_ops :: "tx_op list" where
  "shop_ops = [TxInsert ''users'' (user 1 10 ''a''), TxInsert ''users'' (user 2 20 ''b''),
     TxInsert ''orders'' (order_row 1 77 10), TxInsert ''orders'' (order_row 2 20 10)]"

definition shop :: "unit table_cache" where
  "shop = fst (snd (tx_run no_gin (\<lambda>_. '''') shop_ops (open_cache no_gin [users, orders], fst (tx_begin 1))))"

lemma shop_fits: "list_all (tx_fits [users, orders]) shop_ops"
  by code_simp

lemma shop_run:
  "\<exists>results t. tx_run no_gin (\<lambda>_. '''') shop_ops (open_cache no_gin [users, orders], fst (tx_begin 1)) = (results, shop, t)"
  unfolding shop_def by (metis prod.collapse)

lemma orders_fk: "cs_foreign_keys (tbl_constraints orders) = [foreign_key_new ''fk_user'' ''orders'' ''user_id'' ''users'' ''id'']"
  by code_simp

lemma orders_shape: "get_column_index ''user_id'' orders = Some 1" "schema_named [users, orders] ''users'' = Some users"
  "ly_pk (layout_of users) = [0]"
  by code_simp+


theorem delete_check_decides_witness:
  "\<not> (\<exists>p i q. rs_pk_columns (the (get_table ''orders'' shop)) = [p] \<and> tc_get_row ''orders'' i shop = Some q \<and> col_value p q = Int64 10)"
proof -
  obtain results t where run: "tx_run no_gin (\<lambda>_. '''') shop_ops (open_cache no_gin [users, orders], fst (tx_begin 1)) = (results, shop, t)"
    using shop_run by blast
  let ?s = "the (get_table ''orders'' shop)" and ?fk = "foreign_key_new ''fk_user'' ''orders'' ''user_id'' ''users'' ''id''"
  have "get_table ''orders'' shop \<noteq> None" by code_simp
  then have s: "get_table ''orders'' shop = Some ?s" by simp
  have fk: "cs_foreign_keys (tbl_constraints (rs_schema ?s)) = [?fk]" by code_simp
  have at: "fk_parent_table ?fk = tbl_name users" "fk_timing ?fk = Immediate" "get_column_index (fk_parent_column ?fk) users = Some 0"
    "row_get (user 1 10 ''a'') 0 = Some (Int64 10)" by code_simp+
  have "check_foreign_keys_for_delete shop users [user 1 10 ''a''] Immediate = Inr ()" by code_simp
  note passed = this [unfolded delete_check_decides [OF shop_fits run], rule_format, OF s, unfolded fk, of ?fk]
  show ?thesis using passed at by auto
qed

text \<open>
  The deletion checks look at the wrong column: with a user 10 whose orders are 77 and 20 and a user 20
  without an order, the check lets user 10 be deleted, which leaves two orders without a user, and it refuses the
  deletion of user 20, because there is an order whose own id is 20. The check of an update does the same.
\<close>

theorem delete_check_reads_the_wrong_column:
  "check_foreign_keys_for_delete shop users [user 1 10 ''a''] Immediate = Inr ()
    \<and> map (col_value 1) (rs_scan (the (get_table ''orders'' shop))) = [Int64 10, Int64 10]
    \<and> check_foreign_keys_for_delete shop users [user 2 20 ''b''] Immediate
        = Inl (ForeignKeyViolation ''fk_user'' ''Cannot delete: referenced by 1 rows in orders'')
    \<and> check_foreign_keys_for_update (\<lambda>_. '''') shop users [(user 1 10 ''a'', user 1 11 ''a'')] Immediate = Inr ()"
proof (intro conjI)
  show "check_foreign_keys_for_delete shop users [user 1 10 ''a''] Immediate = Inr ()" by code_simp
  show "map (col_value 1) (rs_scan (the (get_table ''orders'' shop))) = [Int64 10, Int64 10]" by code_simp
  show "check_foreign_keys_for_delete shop users [user 2 20 ''b''] Immediate
      = Inl (ForeignKeyViolation ''fk_user'' ''Cannot delete: referenced by 1 rows in orders'')" by code_simp
  show "check_foreign_keys_for_update (\<lambda>_. '''') shop users [(user 1 10 ''a'', user 1 11 ''a'')] Immediate = Inr ()" by code_simp
qed

end
