(* ===== verification/Spec2Isabelle.thy ===== *)
theory Spec2Isabelle
  imports
    Cynos_Value
    Cynos_Row
    Cynos_Posting
    Cynos_Index
    Cynos_Hash_Index
    Cynos_Nullable
    Cynos_Lock
    Cynos_Journal
    Cynos_Pattern
    Cynos_Delta
    Cynos_Hash_Join
    Cynos_Jsonb
    Cynos_Jsonb_Binary
    Cynos_Comparator
    Cynos_Expr
    Cynos_Not_Simplification
    Cynos_Plan
    Cynos_Compiled_Predicate
    Cynos_Predicate_Compiler
    Cynos_Relation
    Cynos_Join_Exec
    Cynos_Join_Equiv
    Cynos_Join_Spec
    Cynos_Sort_Exec
    Cynos_Btree
    Cynos_Btree_Rep
    Cynos_Btree_Insert
    Cynos_Btree_Grow
    Cynos_Btree_Ops
    Cynos_Btree_Shrink
    Cynos_Btree_Delete
    Cynos_Btree_Scan
    Cynos_Btree_Batch
    Cynos_Btree_Remove
    Cynos_Btree_Index
    Cynos_Gin_Bulk
    Cynos_Row_Scan
    Cynos_Transaction
    Cynos_Tx_Rollback
    Cynos_Constraint
begin

text \<open>
  A model of Cynos, an in-memory reactive database written in Rust, and the theorems that make its parts
  correct.

  \<^bold>\<open>The program.\<close> A table is a set of rows of values (\<open>crates/core\<close>). The row store
  (\<open>crates/storage\<close>) keeps the rows and their indices (\<open>crates/index\<close>); transactions take locks and record
  what they change in a journal, which yields the net difference of every table. A query is a logical plan over
  expressions (\<open>crates/query\<close>): optimizer passes rewrite the plan, and the runner evaluates the expressions on
  rows, by an interpreter or, for filters over one table, by predicates compiled to kernels. Live queries are
  maintained from the differences by incremental operators (\<open>crates/incremental\<close>). JSON documents are stored
  in a binary encoding (\<open>crates/jsonb\<close>).

  \<^bold>\<open>The theories.\<close>
  \<^item> \<open>Cynos_Prelude\<close>: machine integers, orders as the three-valued \<open>ordering\<close> and the laws of a comparison
    function (locale \<open>cmp_order\<close>), sorted lists as sets, results and association maps.
  \<^item> \<open>Cynos_Float\<close>: \<open>f64\<close> as its 64 bits: sign, exponent, comparison, conversion from and truncation to
    integers. \<open>Cynos_Value\<close>: \<open>core/src/types.rs\<close> and \<open>value.rs\<close>: equality, SQL equality, hashing, the order.
  \<^item> \<open>Cynos_Row\<close>: \<open>core/src/row.rs\<close>: the global counter of row ids, derived row ids, rows.
  \<^item> \<open>Cynos_Pattern\<close>: \<open>core/src/pattern_match.rs\<close>: LIKE and the backtracking matcher of regular expressions,
    against the language of a pattern.
  \<^item> \<open>Cynos_Posting\<close>, \<open>Cynos_Comparator\<close>, \<open>Cynos_Index\<close>, \<open>Cynos_Hash_Index\<close>, \<open>Cynos_Nullable\<close>:
    \<open>index/src/gin/posting.rs\<close>, \<open>comparator.rs\<close>, \<open>traits.rs\<close> with \<open>stats.rs\<close>, \<open>hash.rs\<close>, \<open>nullable.rs\<close>.
    The trait \<open>Index\<close> is a record of operations and its contract a locale, interpreted on the hash index
    and on the B+ tree.
  \<^item> \<open>Cynos_Gin\<close>: \<open>index/src/gin/mod.rs\<close>, the inverted index with the trigrams of substring searches;
    \<open>Cynos_Gin_Refine\<close>: its queries as operations on sets of rows. \<open>Cynos_Gin_Bulk\<close>: the bulk builder, from
    the merge of row ids in place to the index it is merged into.
  \<^item> \<open>Cynos_Lock\<close>, \<open>Cynos_Journal\<close>: \<open>storage/src/lock.rs\<close>, with the reachable states of the lock manager as
    an inductive relation, and \<open>storage/src/journal.rs\<close>.
  \<^item> \<open>Cynos_Delta\<close>, \<open>Cynos_Hash_Join\<close>: \<open>incremental/src/delta.rs\<close>, \<open>collection.rs\<close> and the operators filter,
    map, aggregate and join. A batch of deltas denotes a change of a multiset.
  \<^item> \<open>Cynos_Jsonb\<close>, \<open>Cynos_Jsonb_Binary\<close>: \<open>jsonb/src/value.rs\<close>, \<open>ops.rs\<close>, \<open>binary.rs\<close>.
  \<^item> \<open>Cynos_Expr\<close>: \<open>query/src/ast/expr.rs\<close> and the interpreter of \<open>executor/runner.rs\<close>.
    \<open>Cynos_Compiled_Predicate\<close>, \<open>Cynos_Predicate_Compiler\<close>: the compiled row predicates of the same file and
    their agreement with the interpreter.
  \<^item> \<open>Cynos_Plan\<close>: \<open>planner/logical.rs\<close>, \<open>index_bounds.rs\<close> and the passes \<open>optimizer/not_simplification.rs\<close>
    (its rewriting of expressions is in \<open>Cynos_Not_Simplification\<close>), \<open>and_predicate.rs\<close>, \<open>cross_product.rs\<close>.
  \<^item> \<open>Cynos_Relation\<close>, \<open>Cynos_Join_Exec\<close>: \<open>executor/relation.rs\<close> and the joins of the runner, from the layout
    of the output to the emission of every row. \<open>Cynos_Join_Equiv\<close> says what each algorithm emits, and
    \<open>Cynos_Join_Spec\<close> compares it with the relational join. \<open>Cynos_Sort_Exec\<close>: \<open>executor/sort.rs\<close>, \<open>limit.rs\<close>,
    TopN and union.
  \<^item> The B+ tree of \<open>index/src/btree/\<close>. \<open>Cynos_Btree\<close>: the arena of nodes and the operations. \<open>Cynos_Btree_Rep\<close>:
    what an arena represents (shape trees \<open>gtree\<close>, the path to a leaf as a \<open>spine\<close>, the chain of leaves).
    \<open>Cynos_Btree_Insert\<close>, \<open>Cynos_Btree_Grow\<close>: descent, splits and the growth of the root.
    \<open>Cynos_Btree_Ops\<close>: the invariant \<open>bt_ok\<close> and what each operation does to the entries.
    \<open>Cynos_Btree_Shrink\<close>, \<open>Cynos_Btree_Delete\<close>: borrowing, merging, the collapse of the root.
    \<open>Cynos_Btree_Scan\<close>: range scans in both directions. \<open>Cynos_Btree_Batch\<close>, \<open>Cynos_Btree_Remove\<close>: batches.
    \<open>Cynos_Btree_Index\<close>: the index contract interpreted on the tree.
  \<^item> \<open>Cynos_Schema\<close>: \<open>core/src/schema\<close>: columns, indices, foreign keys, the table builder with all its checks.
  \<^item> The row store, \<open>storage/src/row_store.rs\<close>. \<open>Cynos_Index_Key\<close>: index keys, their order and ranges, and the two
    kinds of index store, with the index contract interpreted on them. \<open>Cynos_Row_Store\<close>: the state and the
    writes. \<open>Cynos_Row_Slots\<close>: the slots with their lookup and scan order as one sorted list of rows.
    \<open>Cynos_Row_Indices\<close>: what an index holds of a table, proved once from the contract. \<open>Cynos_Row_Refine\<close>: the
    specification of a table with keys, and insertion and update against it. \<open>Cynos_Row_Reads\<close>: lookups and scans.
    \<open>Cynos_Row_Ops\<close>: the other writes. \<open>Cynos_Row_Run\<close>: whole runs from the store of a schema.
    \<open>Cynos_Row_Scan\<close>: index scans against a filtered scan of the table.
  \<^item> \<open>Cynos_Transaction\<close>: \<open>storage/src/cache.rs\<close>, \<open>transaction.rs\<close> and the rollback of \<open>journal.rs\<close>, as updates of
    the cache. \<open>Cynos_Tx_Rollback\<close>: the database in a cache, what the writes of a transaction do to it, and the undoing of
    its entries. \<open>Cynos_Constraint\<close>: \<open>storage/src/constraint.rs\<close>.

  \<^bold>\<open>What is shown.\<close> State machines: row ids are fresh, locks exclude each other in every reachable state, the
  counter of the NULL wrapper is exact under the use stated. Refinements: posting lists are sets, the GIN index is an inverted index
  whose substring prefilter loses no row and which a bulk load fills as single additions do, the hash index is
  a multimap, and so is the B+ tree, whose depth and range scans are as
  they should be and whose answers agree with the hash index; JSON objects are maps, the row store is a table whose
  unique keys no two rows share, the journal's net difference is the replay of its entries in both
  directions, filter, projection and join views follow their inputs, the lock manager is a table of modes.
  A transaction that is rolled back leaves the ids and values of all rows as they were, and one that commits hands out
  exactly what it did; the reference checks of insertions are exact. Liveness: a lock is granted once the other holders have ended.
  Errors: a refused write of the row
  store leaves no trace, and a rollback fails only at the last version number. Types: every table that the builder hands out is well formed. Equivalences: LIKE and the matcher decide the language of their pattern, composite keys are compared
  lexicographically, optimizer passes keep the result of a plan and the value of a predicate, compiled predicates
  answer as the interpreter, the join algorithms return the relational join, TopN is Sort and Limit. Round trips: variable-length integers and JSON documents. Where the code falls short
  of what it means to do, a theorem shows it on an input.

  \<^bold>\<open>Conventions.\<close> The target has 64-bit pointers; \<open>usize\<close> is a 64-bit word where it can wrap and a natural
  number where a length in memory bounds it; arithmetic wraps as in a release build. A panic, and where it
  matters a failed allocation, is \<open>None\<close>. Strings are their UTF-8 bytes, decoded where the code works on
  characters. A hash map is a map, and the order of its iteration is never used. Recursions over data are
  structural; the other loops carry a termination proof (a measure on the remaining input), so no fuel is
  needed. Loops over cursors are recursions on the remaining suffixes.

  \<^bold>\<open>Parameters.\<close> Floating-point arithmetic, the Unicode tables of the standard library, the allocator, the
  regular-expression cache of the runner, the JSON kernels, the GIN index behind a row store, the \<open>Debug\<close> form of
  values in error messages and the meaning of the leaves of a plan are arguments of
  the definitions. No property assumes anything of them beyond what its statement says.

  \<^bold>\<open>Not modelled.\<close> The extraction of the keys of a GIN index from JSON (for the row store the
  GIN index is a parameter), bulk loading and batch insertion of rows, JSON paths, the cost-based optimizer passes, index joins and the standalone
  executors of \<open>executor/join\<close>, the dataflow graph: they build on the parts above and come next. Bindings to JavaScript, the GraphQL front end,
  benchmarks and the packages in other languages carry no logic of their own that these parts do not have.
\<close>

end
